(* ===== verification/Prelude.thy ===== *)
theory Prelude
  imports Main "HOL-Library.Word" "HOL-Library.AList"
begin

text \<open>
  Shared vocabulary of the development: the widths of the machine integers the sources use,
  bytes and digests, the value type of fallible operations, checked arithmetic as in the Rust
  standard library, little-endian encodings, and the generic facts about lists, association
  lists and maps that several components need.
\<close>

unbundle bit_operations_syntax

section \<open>Collections of facts\<close>

text \<open>
  \<open>rust_arith\<close> unfolds the checked arithmetic below, \<open>opt_list\<close> normalises the end points of
  list segments.
\<close>

named_theorems rust_arith
named_theorems opt_list

section \<open>Types\<close>

type_synonym u8 = "8 word"
type_synonym u32 = "32 word"
type_synonym u64 = "64 word"
type_synonym bytes = "8 word list"

text \<open>A digest is the 32 bytes that SHA-256 (or the keyed variant) returns.\<close>

type_synonym digest = "8 word list"

text \<open>Errors carry the fixed part of their message.\<close>

type_synonym err = string

text \<open>\<open>Result<T, E>\<close>: \<open>Inl\<close> is \<open>Err\<close>, \<open>Inr\<close> is \<open>Ok\<close>.\<close>

type_synonym ('e, 'a) result = "'e + 'a"

abbreviation Ok :: "'a \<Rightarrow> ('e, 'a) result" where
  "Ok \<equiv> Inr"

abbreviation Err :: "'e \<Rightarrow> ('e, 'a) result" where
  "Err \<equiv> Inl"

definition is_ok :: "('e, 'a) result \<Rightarrow> bool" where
  "is_ok r = (case r of Inl _ \<Rightarrow> False | Inr _ \<Rightarrow> True)"

lemma is_ok_simps [simp]: "is_ok (Inr x)" "\<not> is_ok (Inl e)"
  by (simp_all add: is_ok_def)

lemma is_ok_iff: "is_ok r \<longleftrightarrow> (\<exists>x. r = Inr x)"
  by (cases r) simp_all

lemma map_sum_Inr: "map_sum f g r = Inr y \<longleftrightarrow> (\<exists>x. r = Inr x \<and> y = g x)"
  by (cases r) auto

text \<open>\<open>Result::and_then\<close>, the \<open>?\<close> operator of a function whose state is not touched.\<close>

definition and_then :: "('e, 'a) result \<Rightarrow> ('a \<Rightarrow> ('e, 'b) result) \<Rightarrow> ('e, 'b) result" where
  "and_then r f = (case r of Inl e \<Rightarrow> Inl e | Inr x \<Rightarrow> f x)"

lemma and_then_simps [simp]: "and_then (Inl e) f = Inl e" "and_then (Inr x) f = f x"
  by (simp_all add: and_then_def)

lemma and_then_eq_Inr:
  "and_then r f = Inr y \<longleftrightarrow> (\<exists>x. r = Inr x \<and> f x = Inr y)"
  by (cases r) simp_all

section \<open>Machine integers as bounded naturals\<close>

text \<open>
  Sizes, offsets and counters are naturals below \<open>2 ^ 64\<close>; where the source can leave that range
  the model says what happens there, by one of the operations below.
\<close>

definition u64_max :: nat where
  "u64_max = 2 ^ 64 - 1"

definition u32_max :: nat where
  "u32_max = 2 ^ 32 - 1"

definition fits_u64 :: "nat \<Rightarrow> bool" where
  "fits_u64 n \<longleftrightarrow> n < 2 ^ 64"

definition checked_add :: "nat \<Rightarrow> nat \<Rightarrow> nat option" where
  "checked_add a b = (if a + b < 2 ^ 64 then Some (a + b) else None)"

definition checked_sub :: "nat \<Rightarrow> nat \<Rightarrow> nat option" where
  "checked_sub a b = (if b \<le> a then Some (a - b) else None)"

definition checked_mul :: "nat \<Rightarrow> nat \<Rightarrow> nat option" where
  "checked_mul a b = (if a * b < 2 ^ 64 then Some (a * b) else None)"

definition wrapping_add :: "nat \<Rightarrow> nat \<Rightarrow> nat" where
  "wrapping_add a b = (a + b) mod 2 ^ 64"

definition wrapping_sub :: "nat \<Rightarrow> nat \<Rightarrow> nat" where
  "wrapping_sub a b = (a + (2 ^ 64 - b mod 2 ^ 64)) mod 2 ^ 64"

definition div_ceil :: "nat \<Rightarrow> nat \<Rightarrow> nat" where
  "div_ceil a b = (a div b) + (if a mod b = 0 then 0 else 1)"

lemmas checked_defs [rust_arith] = checked_add_def checked_sub_def checked_mul_def
lemmas wrapping_defs [rust_arith] = wrapping_add_def wrapping_sub_def

lemma wrapping_sub_exact:
  assumes "b \<le> a" "a < 2 ^ 64"
  shows "wrapping_sub a b = a - b"
proof -
  have b: "b mod 2 ^ 64 = b" using assms by simp
  have e: "a + (2 ^ 64 - b) = (a - b) + 2 ^ 64" using assms by simp
  show ?thesis
    unfolding wrapping_sub_def b e mod_add_self2 using assms by (simp only: mod_less)
qed

lemma wrapping_add_exact: "a + b < 2 ^ 64 \<Longrightarrow> wrapping_add a b = a + b"
  by (simp add: wrapping_add_def)

lemma div_ceil_bounds:
  assumes "0 < b"
  shows "a \<le> div_ceil a b * b" and "div_ceil a b * b < a + b"
proof -
  have e: "a div b * b + a mod b = a" by simp
  have lt: "a mod b < b" using assms by simp
  consider (exact) "a mod b = 0" "div_ceil a b * b = a div b * b"
    | (rest) "0 < a mod b" "div_ceil a b * b = a div b * b + b"
    by (cases "a mod b = 0") (simp_all add: div_ceil_def)
  then have "a \<le> div_ceil a b * b \<and> div_ceil a b * b < a + b"
    using e lt assms by cases linarith+
  then show "a \<le> div_ceil a b * b" and "div_ceil a b * b < a + b" by simp_all
qed

lemma div_ceil_exact: "0 < b \<Longrightarrow> div_ceil (n * b) b = n"
  by (simp add: div_ceil_def)

lemma div_ceil_zero_iff:
  assumes "0 < b"
  shows "div_ceil a b = 0 \<longleftrightarrow> a = 0"
proof
  assume "div_ceil a b = 0"
  with div_ceil_bounds(1) [OF assms, of a] show "a = 0" by simp
qed (simp add: div_ceil_def)

text \<open>\<open>div_ceil a b\<close> is the least number of \<open>b\<close>-sized pieces that cover \<open>a\<close>.\<close>

lemma div_ceil_le_iff:
  assumes "0 < b"
  shows "div_ceil a b \<le> n \<longleftrightarrow> a \<le> n * b"
proof
  assume "div_ceil a b \<le> n"
  then have "div_ceil a b * b \<le> n * b" by simp
  with div_ceil_bounds(1) [OF assms, of a] show "a \<le> n * b" by linarith
next
  assume "a \<le> n * b"
  with div_ceil_bounds(2) [OF assms, of a] have "div_ceil a b * b < Suc n * b" by simp
  then show "div_ceil a b \<le> n" using assms by (simp only: mult_less_cancel2) simp
qed

lemma div_ceil_mono: "0 < b \<Longrightarrow> a \<le> a' \<Longrightarrow> div_ceil a b \<le> div_ceil a' b"
  using div_ceil_bounds(1) [of b a'] by (simp add: div_ceil_le_iff)

section \<open>Little-endian encodings\<close>

text \<open>\<open>le_bytes k n\<close> are the \<open>k\<close> low bytes of \<open>n\<close>, the lowest first; \<open>le_nat\<close> reads them back.\<close>

fun le_bytes :: "nat \<Rightarrow> nat \<Rightarrow> bytes" where
  "le_bytes 0 n = []"
| "le_bytes (Suc k) n = word_of_nat (n mod 256) # le_bytes k (n div 256)"

fun le_nat :: "bytes \<Rightarrow> nat" where
  "le_nat [] = 0"
| "le_nat (b # bs) = unat b + 256 * le_nat bs"

lemma length_le_bytes [simp]: "length (le_bytes k n) = k"
  by (induction k arbitrary: n) simp_all

lemma unat_of_byte [simp]: "unat (word_of_nat (n mod 256) :: u8) = n mod 256"
  by (simp add: unat_of_nat)

lemma le_nat_le_bytes: "n < 256 ^ k \<Longrightarrow> le_nat (le_bytes k n) = n"
proof (induction k arbitrary: n)
  case (Suc k)
  then have "n div 256 < 256 ^ k" by (simp add: less_mult_imp_div_less mult.commute)
  then have "le_nat (le_bytes k (n div 256)) = n div 256" by (rule Suc.IH)
  then show ?case by simp
qed simp

lemma le_nat_less: "le_nat bs < 256 ^ length bs"
proof (induction bs)
  case (Cons b bs)
  have "unat b < 256" using unsigned_less [of b] by simp
  then show ?case using Cons.IH by simp
qed simp

lemma le_nat_u64 [simp]: "n < 2 ^ 64 \<Longrightarrow> le_nat (le_bytes 8 n) = n"
  by (rule le_nat_le_bytes) simp

text \<open>\<open>i64\<close> values are integers; their bits are those of the value modulo \<open>2 ^ 64\<close>.\<close>

definition i64_bits :: "int \<Rightarrow> nat" where
  "i64_bits c = nat (c mod 2 ^ 64)"

definition i64_of_bits :: "nat \<Rightarrow> int" where
  "i64_of_bits n = (if n mod 2 ^ 64 < 2 ^ 63 then int (n mod 2 ^ 64) else int (n mod 2 ^ 64) - 2 ^ 64)"

definition fits_i64 :: "int \<Rightarrow> bool" where
  "fits_i64 c \<longleftrightarrow> - (2 ^ 63) \<le> c \<and> c < 2 ^ 63"

lemma i64_bits_less: "i64_bits c < 2 ^ 64"
  unfolding i64_bits_def by (rule nat_less_numeral_power_cancel_iff [THEN iffD2]) simp

lemma i64_round_trip: "fits_i64 c \<Longrightarrow> i64_of_bits (i64_bits c) = c"
proof -
  assume c: "fits_i64 c"
  have m: "i64_bits c mod 2 ^ 64 = i64_bits c" by (rule mod_less [OF i64_bits_less])
  show ?thesis
  proof (cases "0 \<le> c")
    case True
    then have "c mod 2 ^ 64 = c" using c by (simp add: fits_i64_def)
    then show ?thesis using True c m by (simp add: i64_bits_def i64_of_bits_def fits_i64_def)
  next
    case False
    have "c mod 2 ^ 64 = (c + 2 ^ 64) mod 2 ^ 64" by (rule mod_add_self2 [symmetric])
    also have "\<dots> = c + 2 ^ 64" using False c by (intro mod_pos_pos_trivial) (simp_all add: fits_i64_def)
    finally show ?thesis using False c m by (simp add: i64_bits_def i64_of_bits_def fits_i64_def)
  qed
qed

section \<open>Slices\<close>

definition slice :: "nat \<Rightarrow> nat \<Rightarrow> 'a list \<Rightarrow> 'a list" where
  "slice off n xs = take n (drop off xs)"

lemma length_slice: "off + n \<le> length xs \<Longrightarrow> length (slice off n xs) = n"
  by (simp add: slice_def)

lemma slice_append_left: "off + n \<le> length xs \<Longrightarrow> slice off n (xs @ ys) = slice off n xs"
  by (simp add: slice_def)

lemma slice_append_right: "length xs \<le> off \<Longrightarrow> slice off n (xs @ ys) = slice (off - length xs) n ys"
  by (simp add: slice_def)

text \<open>Overwriting \<open>ys\<close> at \<open>off\<close>, as a write at a seek position does.\<close>

definition overwrite :: "nat \<Rightarrow> 'a list \<Rightarrow> 'a list \<Rightarrow> 'a list" where
  "overwrite off ys xs = take off xs @ ys @ drop (off + length ys) xs"

lemma length_overwrite: "off + length ys \<le> length xs \<Longrightarrow> length (overwrite off ys xs) = length xs"
  by (simp add: overwrite_def)

lemma slice_overwrite_same:
  "off \<le> length xs \<Longrightarrow> n = length ys \<Longrightarrow> slice off n (overwrite off ys xs) = ys"
  by (simp add: slice_def overwrite_def)

lemma slice_overwrite_before: "o1 + n \<le> off \<Longrightarrow> off \<le> length xs \<Longrightarrow> slice o1 n (overwrite off ys xs) = slice o1 n xs"
  by (auto simp: slice_def overwrite_def drop_take min_def)

lemma slice_overwrite_after:
  "off + length ys \<le> o1 \<Longrightarrow> off + length ys \<le> length xs \<Longrightarrow> slice o1 n (overwrite off ys xs) = slice o1 n xs"
  by (simp add: slice_def overwrite_def)

text \<open>Records of equal size, one after the other.\<close>

lemma concat_slices: "off + n * k \<le> length b \<Longrightarrow> concat (map (\<lambda>i. slice (off + i * k) k b) [0..<n]) = slice off (n * k) b"
proof (induction n)
  case (Suc n)
  have "slice off (n * k) b @ slice (off + n * k) k b = slice off (n * k + k) b"
    by (simp add: slice_def take_add [of "n * k" k] add.commute [of off])
  then show ?case using Suc by (simp add: add.commute)
qed (simp add: slice_def)

lemma length_concat_equal: "(\<And>x. x \<in> set xs \<Longrightarrow> length (f x) = k) \<Longrightarrow> length (concat (map f xs)) = length xs * k"
  by (induction xs) auto

lemma slice_concat_equal:
  "(\<And>x. x \<in> set xs \<Longrightarrow> length (f x) = k) \<Longrightarrow> i < length xs \<Longrightarrow> slice (i * k) k (concat (map f xs)) = f (xs ! i)"
proof (induction xs arbitrary: i)
  case (Cons x xs)
  then show ?case
    by (cases i) (simp_all add: slice_def)
qed simp

section \<open>End points of lists\<close>

text \<open>\<open>hd_or xs q\<close> and \<open>last_or p xs\<close>: the first (last) element of a list, or what lies beyond it.\<close>

definition hd_or :: "'a list \<Rightarrow> 'a option \<Rightarrow> 'a option" where
  "hd_or xs q = (case xs of [] \<Rightarrow> q | x # _ \<Rightarrow> Some x)"

definition last_or :: "'a option \<Rightarrow> 'a list \<Rightarrow> 'a option" where
  "last_or p xs = (if xs = [] then p else Some (last xs))"

lemma hd_or_simps [simp, opt_list]: "hd_or [] q = q" "hd_or (x # xs) q = Some x"
  by (simp_all add: hd_or_def)

lemma last_or_simps [simp, opt_list]:
  "last_or p [] = p" "last_or p (xs @ [x]) = Some x" "last_or p [x] = Some x"
  by (simp_all add: last_or_def)

lemma last_or_Cons [simp]: "last_or p (x # xs) = last_or (Some x) xs"
  by (simp add: last_or_def)

lemma hd_or_append: "hd_or (xs @ ys) q = hd_or xs (hd_or ys q)"
  by (cases xs) simp_all

lemma last_or_append: "last_or p (xs @ ys) = last_or (last_or p xs) ys"
  by (simp add: last_or_def)

lemma hd_or_None_iff [simp]: "hd_or xs None = None \<longleftrightarrow> xs = []"
  by (cases xs) simp_all

lemma last_or_None_iff [simp]: "last_or None xs = None \<longleftrightarrow> xs = []"
  by (simp add: last_or_def)


section \<open>Association lists\<close>

lemma alist_update_new: "k \<notin> fst ` set al \<Longrightarrow> AList.update k v al = al @ [(k, v)]"
  by (induction al) auto

lemma alist_delete_filter: "AList.delete k al = filter (\<lambda>p. fst p \<noteq> k) al"
  by (auto simp: AList.delete_eq intro!: filter_cong)

end
