(* ===== verification/LruCache.thy ===== *)
theory LruCache
  imports Prelude
begin

text \<open>
  The least recently used cache of \<^verbatim>\<open>pbs-tools/src/lru_cache.rs\<close>: a hash map from keys to raw node
  pointers and a doubly linked list of heap-allocated nodes, written with \<^verbatim>\<open>unsafe\<close> code. The model
  keeps the pointers: a heap of nodes, null pointers as \<open>None\<close>, and \<open>None\<close> as the result of an
  operation that reads or writes through a null or dangling pointer. The theorems show that this
  never happens, that no node leaks, and that the cache refines a list of pairs in order of use.
\<close>

section \<open>Nodes, the heap and the cache\<close>

type_synonym addr = nat
type_synonym ptr = "addr option"

record ('k, 'v) CacheNode =
  key :: 'k
  nvalue :: 'v
  prev :: ptr
  nxt :: ptr

type_synonym ('k, 'v) heap = "addr \<rightharpoonup> ('k, 'v) CacheNode"

definition CacheNode_new :: "'k \<Rightarrow> 'v \<Rightarrow> ('k, 'v) CacheNode" where
  "CacheNode_new k v = \<lparr>key = k, nvalue = v, prev = None, nxt = None\<rparr>"

text \<open>The list owns its nodes: the heap of the list is part of its state, with the allocator's next address.\<close>

record ('k, 'v) LinkedList =
  head :: ptr
  tail :: ptr
  mem :: "('k, 'v) heap"
  brk :: addr

record ('k, 'v) LruCache =
  cmap :: "('k \<times> addr) list"
  clist :: "('k, 'v) LinkedList"
  capacity :: nat

text \<open>\<^verbatim>\<open>(*p).next = q\<close> and \<^verbatim>\<open>(*p).prev = q\<close>: undefined unless \<open>p\<close> points to a live node.\<close>

definition set_next :: "ptr \<Rightarrow> ptr \<Rightarrow> ('k, 'v) heap \<Rightarrow> ('k, 'v) heap option" where
  "set_next p q h = (case p of None \<Rightarrow> None
     | Some a \<Rightarrow> (case h a of None \<Rightarrow> None | Some n \<Rightarrow> Some (h(a \<mapsto> n\<lparr>nxt := q\<rparr>))))"

definition set_prev :: "ptr \<Rightarrow> ptr \<Rightarrow> ('k, 'v) heap \<Rightarrow> ('k, 'v) heap option" where
  "set_prev p q h = (case p of None \<Rightarrow> None
     | Some a \<Rightarrow> (case h a of None \<Rightarrow> None | Some n \<Rightarrow> Some (h(a \<mapsto> n\<lparr>prev := q\<rparr>))))"

text \<open>\<^verbatim>\<open>Box::into_raw(Box::new(node))\<close>.\<close>

definition box_new :: "('k, 'v) CacheNode \<Rightarrow> ('k, 'v) LinkedList \<Rightarrow> addr \<times> ('k, 'v) LinkedList" where
  "box_new n l = (brk l, l\<lparr>mem := (mem l)(brk l \<mapsto> n), brk := Suc (brk l)\<rparr>)"

section \<open>The linked list\<close>

definition LinkedList_new :: "('k, 'v) LinkedList" where
  "LinkedList_new = \<lparr>head = None, tail = None, mem = Map.empty, brk = 0\<rparr>"

definition bring_to_front :: "addr \<Rightarrow> ('k, 'v) LinkedList \<Rightarrow> ('k, 'v) LinkedList option" where
  "bring_to_front a l =
     (if Some a = head l then Some l
      else case mem l a of None \<Rightarrow> None
      | Some node \<Rightarrow>
        (case set_next (prev node) (nxt node) (mem l) of None \<Rightarrow> None
         | Some h1 \<Rightarrow>
           (case (if nxt node \<noteq> None
                  then map_option (\<lambda>h. (h, tail l)) (set_prev (nxt node) (prev node) h1)
                  else Some (h1, prev node)) of None \<Rightarrow> None
            | Some (h2, tail') \<Rightarrow>
              (case set_prev (Some a) None h2 of None \<Rightarrow> None
               | Some h3 \<Rightarrow>
                 (case set_next (Some a) (head l) h3 of None \<Rightarrow> None
                  | Some h4 \<Rightarrow>
                    (case set_prev (head l) (Some a) h4 of None \<Rightarrow> None
                     | Some h5 \<Rightarrow> Some (l\<lparr>mem := h5, tail := tail', head := Some a\<rparr>)))))))"

definition push_front :: "addr \<Rightarrow> ('k, 'v) LinkedList \<Rightarrow> ('k, 'v) LinkedList option" where
  "push_front a l =
     (case set_next (Some a) (head l) (mem l) of None \<Rightarrow> None
      | Some h1 \<Rightarrow>
        (case (if head l \<noteq> None then set_prev (head l) (Some a) h1 else Some h1) of None \<Rightarrow> None
         | Some h2 \<Rightarrow>
           Some (l\<lparr>mem := h2, head := Some a, tail := (if tail l = None then Some a else tail l)\<rparr>)))"

text \<open>\<^verbatim>\<open>LinkedList::remove\<close> hands the box to the caller, who drops it: the node leaves the heap.\<close>

definition list_remove ::
  "addr \<Rightarrow> ('k, 'v) LinkedList \<Rightarrow> (('k, 'v) CacheNode \<times> ('k, 'v) LinkedList) option" where
  "list_remove a l =
     (case mem l a of None \<Rightarrow> None
      | Some node \<Rightarrow>
        (case (if prev node \<noteq> None
               then map_option (\<lambda>h. (h, head l)) (set_next (prev node) (nxt node) (mem l))
               else Some (mem l, nxt node)) of None \<Rightarrow> None
         | Some (h1, head') \<Rightarrow>
           (case (if nxt node \<noteq> None
                  then map_option (\<lambda>h. (h, tail l)) (set_prev (nxt node) (prev node) h1)
                  else Some (h1, prev node)) of None \<Rightarrow> None
            | Some (h2, tail') \<Rightarrow>
              Some (node, l\<lparr>mem := h2(a := None), head := head', tail := tail'\<rparr>))))"

text \<open>The outer option of the result is undefined behaviour, the inner one the \<^verbatim>\<open>Option\<close> of the source.\<close>

definition list_pop_tail ::
  "('k, 'v) LinkedList \<Rightarrow> (('k, 'v) CacheNode option \<times> ('k, 'v) LinkedList) option" where
  "list_pop_tail l =
     (case tail l of None \<Rightarrow> Some (None, l)
      | Some a \<Rightarrow>
        (case mem l a of None \<Rightarrow> None
         | Some old_tail \<Rightarrow>
           (case (if prev old_tail \<noteq> None then set_next (prev old_tail) None (mem l)
                  else Some (mem l)) of None \<Rightarrow> None
            | Some h \<Rightarrow> Some (Some old_tail, l\<lparr>mem := h(a := None), tail := prev old_tail\<rparr>))))"

text \<open>
  The loop of \<^verbatim>\<open>LinkedList::clear\<close>, which frees one node per iteration. The first argument bounds the
  iterations; a list of \<open>n\<close> nodes needs \<open>n\<close> of them (\<open>free_all_dseg\<close> below).
\<close>

fun free_all :: "nat \<Rightarrow> ptr \<Rightarrow> ('k, 'v) heap \<Rightarrow> ('k, 'v) heap option" where
  "free_all n None h = Some h"
| "free_all 0 (Some a) h = None"
| "free_all (Suc n) (Some a) h =
     (case h a of None \<Rightarrow> None | Some node \<Rightarrow> free_all n (nxt node) (h(a := None)))"

definition list_clear :: "nat \<Rightarrow> ('k, 'v) LinkedList \<Rightarrow> ('k, 'v) LinkedList option" where
  "list_clear fuel l = map_option (\<lambda>h. l\<lparr>mem := h, head := None, tail := None\<rparr>)
                         (free_all fuel (head l) (mem l))"

section \<open>The cache\<close>

definition LruCache_new :: "nat \<Rightarrow> ('k, 'v) LruCache" where
  "LruCache_new cap = \<lparr>cmap = [], clist = LinkedList_new, capacity = max cap 1\<rparr>"

definition lru_clear :: "('k, 'v) LruCache \<Rightarrow> ('k, 'v) LruCache option" where
  "lru_clear c = map_option (\<lambda>l. c\<lparr>cmap := [], clist := l\<rparr>) (list_clear (length (cmap c)) (clist c))"

definition lru_pop_tail ::
  "('k, 'v) LruCache \<Rightarrow> ('k option \<times> ('k, 'v) LruCache) option" where
  "lru_pop_tail c =
     (case list_pop_tail (clist c) of None \<Rightarrow> None
      | Some (None, l) \<Rightarrow> Some (None, c\<lparr>clist := l\<rparr>)
      | Some (Some old_tail, l) \<Rightarrow>
          Some (map_option (\<lambda>_. key old_tail) (map_of (cmap c) (key old_tail)),
                c\<lparr>clist := l, cmap := AList.delete (key old_tail) (cmap c)\<rparr>))"

text \<open>The vacant branch that \<^verbatim>\<open>insert\<close> and \<^verbatim>\<open>access\<close> share, up to the call of \<^verbatim>\<open>removed\<close>.\<close>

definition lru_insert_new ::
  "'k \<Rightarrow> 'v \<Rightarrow> ('k \<Rightarrow> ('e, unit) result) \<Rightarrow> ('k, 'v) LruCache \<Rightarrow>
   (('e, unit) result \<times> ('k, 'v) LruCache) option" where
  "lru_insert_new k v removed c =
     (let (a, l1) = box_new (CacheNode_new k v) (clist c) in
      case push_front a l1 of None \<Rightarrow> None
      | Some l2 \<Rightarrow>
        (let c1 = c\<lparr>clist := l2, cmap := AList.update k a (cmap c)\<rparr> in
         if length (cmap c1) > capacity c1 then
           (case lru_pop_tail c1 of None \<Rightarrow> None
            | Some (None, c2) \<Rightarrow> Some (Ok (), c2)
            | Some (Some rk, c2) \<Rightarrow> Some (removed rk, c2))
         else Some (Ok (), c1)))"

definition lru_insert ::
  "'k \<Rightarrow> 'v \<Rightarrow> ('k \<Rightarrow> ('e, unit) result) \<Rightarrow> ('k, 'v) LruCache \<Rightarrow>
   (('e, bool) result \<times> ('k, 'v) LruCache) option" where
  "lru_insert k v removed c =
     (case map_of (cmap c) k of
        Some a \<Rightarrow>
          (case bring_to_front a (clist c) of None \<Rightarrow> None
           | Some l \<Rightarrow>
             (case mem l a of None \<Rightarrow> None
              | Some node \<Rightarrow>
                Some (Ok True, c\<lparr>clist := l\<lparr>mem := (mem l)(a \<mapsto> node\<lparr>nvalue := v\<rparr>)\<rparr>\<rparr>)))
      | None \<Rightarrow>
          (case lru_insert_new k v removed c of None \<Rightarrow> None
           | Some (Inl e, c') \<Rightarrow> Some (Err e, c')
           | Some (Inr _, c') \<Rightarrow> Some (Ok False, c')))"

definition lru_remove :: "'k \<Rightarrow> ('k, 'v) LruCache \<Rightarrow> ('v option \<times> ('k, 'v) LruCache) option" where
  "lru_remove k c =
     (case map_of (cmap c) k of
        None \<Rightarrow> Some (None, c)
      | Some a \<Rightarrow>
          (case list_remove a (clist c) of None \<Rightarrow> None
           | Some (node, l) \<Rightarrow>
             Some (Some (nvalue node), c\<lparr>cmap := AList.delete k (cmap c), clist := l\<rparr>)))"

text \<open>\<^verbatim>\<open>&mut (*self.list.head).value\<close>: the reference is the address of the head node.\<close>

definition head_ref :: "('k, 'v) LruCache \<Rightarrow> addr option" where
  "head_ref c = (case head (clist c) of None \<Rightarrow> None
     | Some a \<Rightarrow> (case mem (clist c) a of None \<Rightarrow> None | Some _ \<Rightarrow> Some a))"

definition lru_get_mut :: "'k \<Rightarrow> ('k, 'v) LruCache \<Rightarrow> (addr option \<times> ('k, 'v) LruCache) option" where
  "lru_get_mut k c =
     (case map_of (cmap c) k of
        None \<Rightarrow> Some (None, c)
      | Some a \<Rightarrow>
          (case bring_to_front a (clist c) of None \<Rightarrow> None
           | Some l \<Rightarrow>
             (let c' = c\<lparr>clist := l\<rparr> in
              case head_ref c' of None \<Rightarrow> None | Some r \<Rightarrow> Some (Some r, c'))))"

definition lru_len :: "('k, 'v) LruCache \<Rightarrow> nat" where
  "lru_len c = length (cmap c)"

definition lru_is_empty :: "('k, 'v) LruCache \<Rightarrow> bool" where
  "lru_is_empty c = (cmap c = [])"

text \<open>\<^verbatim>\<open>Cacher::fetch\<close> is a parameter: it may fail, or find nothing.\<close>

definition lru_access ::
  "'k \<Rightarrow> ('k \<Rightarrow> ('e, 'v option) result) \<Rightarrow> ('k \<Rightarrow> ('e, unit) result) \<Rightarrow> ('k, 'v) LruCache \<Rightarrow>
   (('e, addr option) result \<times> ('k, 'v) LruCache) option" where
  "lru_access k fetch removed c =
     (case map_of (cmap c) k of
        Some a \<Rightarrow>
          (case bring_to_front a (clist c) of None \<Rightarrow> None
           | Some l \<Rightarrow>
             (let c' = c\<lparr>clist := l\<rparr> in
              case head_ref c' of None \<Rightarrow> None | Some r \<Rightarrow> Some (Ok (Some r), c')))
      | None \<Rightarrow>
          (case fetch k of
             Inl e \<Rightarrow> Some (Err e, c)
           | Inr None \<Rightarrow> Some (Ok None, c)
           | Inr (Some v) \<Rightarrow>
               (case lru_insert_new k v removed c of None \<Rightarrow> None
                | Some (Inl e, c') \<Rightarrow> Some (Err e, c')
                | Some (Inr _, c') \<Rightarrow>
                    (case head_ref c' of None \<Rightarrow> None | Some r \<Rightarrow> Some (Ok (Some r), c')))))"

text \<open>The value behind a reference.\<close>

definition deref_value :: "('k, 'v) LruCache \<Rightarrow> addr \<Rightarrow> 'v option" where
  "deref_value c a = map_option nvalue (mem (clist c) a)"


section \<open>Segments of the doubly linked list\<close>

text \<open>
  \<open>dseg h p as q\<close>: the nodes \<open>as\<close> are linked in this order in both directions, the first one's
  \<open>prev\<close> is \<open>p\<close> and the last one's \<open>next\<close> is \<open>q\<close>.
\<close>

fun dseg :: "('k, 'v) heap \<Rightarrow> ptr \<Rightarrow> addr list \<Rightarrow> ptr \<Rightarrow> bool" where
  "dseg h p [] q = True"
| "dseg h p (a # as) q =
     (case h a of None \<Rightarrow> False
      | Some n \<Rightarrow> prev n = p \<and> nxt n = hd_or as q \<and> dseg h (Some a) as q)"

declare dseg.simps(2) [simp del]

lemma dseg_Cons [simp]:
  "dseg h p (a # as) q \<longleftrightarrow>
     (\<exists>n. h a = Some n \<and> prev n = p \<and> nxt n = hd_or as q \<and> dseg h (Some a) as q)"
  by (auto simp: dseg.simps(2) split: option.splits)

lemma dseg_append:
  "dseg h p (xs @ ys) q \<longleftrightarrow> dseg h p xs (hd_or ys q) \<and> dseg h (last_or p xs) ys q"
  by (induction xs arbitrary: p) (auto simp: hd_or_append split: option.splits)

lemma dseg_frame: "\<forall>a\<in>set xs. h' a = h a \<Longrightarrow> dseg h' p xs q = dseg h p xs q"
  by (induction xs arbitrary: p) (auto split: option.splits)

lemma dseg_upd_other [simp]: "a \<notin> set xs \<Longrightarrow> dseg (h(a := n)) p xs q = dseg h p xs q"
  by (rule dseg_frame) auto

lemma dseg_dom: "dseg h p xs q \<Longrightarrow> set xs \<subseteq> dom h"
  by (induction xs arbitrary: p) (auto split: option.splits)

text \<open>What an entry of the cache holds, whatever its links are.\<close>

definition ndata :: "('k, 'v) heap \<Rightarrow> addr \<Rightarrow> ('k \<times> 'v) option" where
  "ndata h a = map_option (\<lambda>n. (key n, nvalue n)) (h a)"

lemma deref_value_ndata: "deref_value c a = map_option snd (ndata (mem (clist c)) a)"
  by (simp add: deref_value_def ndata_def option.map_comp comp_def)

lemma ndata_None_iff [simp]: "ndata h a = None \<longleftrightarrow> a \<notin> dom h"
  by (auto simp: ndata_def)

lemma ndata_upd: "ndata (h(a \<mapsto> n)) = (ndata h)(a \<mapsto> (key n, nvalue n))"
  by (auto simp: ndata_def)

lemma ndata_free: "ndata (h(a := None)) = (ndata h)(a := None)"
  by (auto simp: ndata_def)

lemma set_next_frame:
  assumes "set_next (Some a) q h = Some h'"
  shows "b \<noteq> a \<Longrightarrow> h' b = h b" and "ndata h' = ndata h" and "dom h' = dom h"
  using assms by (auto simp: set_next_def ndata_def intro!: ext split: option.splits if_splits)

lemma set_prev_frame:
  assumes "set_prev (Some a) q h = Some h'"
  shows "b \<noteq> a \<Longrightarrow> h' b = h b" and "ndata h' = ndata h" and "dom h' = dom h"
  using assms by (auto simp: set_prev_def ndata_def intro!: ext split: option.splits if_splits)

lemma set_next_dseg:
  "set_next (Some a) r h = Some h' \<Longrightarrow> a \<notin> set xs \<Longrightarrow> dseg h' p xs q = dseg h p xs q"
  by (auto simp: set_next_def split: option.splits)

lemma set_prev_dseg:
  "set_prev (Some a) r h = Some h' \<Longrightarrow> a \<notin> set xs \<Longrightarrow> dseg h' p xs q = dseg h p xs q"
  by (auto simp: set_prev_def split: option.splits)

lemma dseg_set_next_last:
  assumes "dseg h p xs q" "xs \<noteq> []" "distinct xs"
  shows "\<exists>h'. set_next (Some (last xs)) q' h = Some h' \<and> dseg h' p xs q'"
  using assms
proof (induction xs arbitrary: p)
  case (Cons a xs)
  show ?case
  proof (cases "xs = []")
    case True
    with Cons.prems show ?thesis by (auto simp: set_next_def split: option.splits)
  next
    case False
    from Cons.prems False obtain h' where h': "set_next (Some (last xs)) q' h = Some h'"
      "dseg h' (Some a) xs q'"
      using Cons.IH [of "Some a"] by (auto split: option.splits)
    moreover have "a \<noteq> last xs" using Cons.prems False by auto
    ultimately show ?thesis
      using Cons.prems False set_next_frame(1) [OF h'(1), of a] by (cases xs) (auto split: option.splits)
  qed
qed simp

lemma dseg_set_prev_first:
  assumes "dseg h p (x # xs) q" "x \<notin> set xs"
  shows "\<exists>h'. set_prev (Some x) p' h = Some h' \<and> dseg h' p' (x # xs) q"
  using assms by (auto simp: set_prev_def split: option.splits)

lemma free_all_dseg:
  assumes "dseg h p as None" "distinct as" "length as \<le> n"
  shows "free_all n (hd_or as None) h = Some (\<lambda>b. if b \<in> set as then None else h b)"
  using assms
proof (induction as arbitrary: h p n)
  case (Cons a as)
  then obtain m where m: "n = Suc m" by (cases n) auto
  from Cons.prems obtain nd where nd: "h a = Some nd" "nxt nd = hd_or as None"
    "dseg h (Some a) as None" by (auto split: option.splits)
  have "dseg (h(a := None)) (Some a) as None" using Cons.prems nd by simp
  then have "free_all m (hd_or as None) (h(a := None)) =
      Some (\<lambda>b. if b \<in> set as then None else (h(a := None)) b)"
    by (rule Cons.IH) (use Cons.prems m in auto)
  then show ?case using nd m by (auto simp: fun_eq_iff)
qed simp

text \<open>The addresses met when walking the list from a pointer.\<close>

fun walk :: "nat \<Rightarrow> ('k, 'v) heap \<Rightarrow> ptr \<Rightarrow> addr list" where
  "walk n h None = []"
| "walk 0 h (Some a) = []"
| "walk (Suc n) h (Some a) = a # (case h a of None \<Rightarrow> [] | Some nd \<Rightarrow> walk n h (nxt nd))"

lemma walk_dseg: "dseg h p as None \<Longrightarrow> length as \<le> n \<Longrightarrow> walk n h (hd_or as None) = as"
proof (induction as arbitrary: n p)
  case (Cons a as)
  then show ?case by (cases n) (auto split: option.splits)
qed simp

section \<open>The list operations keep the list well linked\<close>

definition list_ok :: "('k, 'v) LinkedList \<Rightarrow> addr list \<Rightarrow> bool" where
  "list_ok l as \<longleftrightarrow> distinct as \<and> dseg (mem l) None as None \<and> head l = hd_or as None \<and>
     tail l = last_or None as \<and> dom (mem l) = set as \<and> (\<forall>a\<in>set as. a < brk l)"

lemma list_ok_new: "list_ok LinkedList_new []"
  by (simp add: list_ok_def LinkedList_new_def)

lemma list_ok_mid:
  assumes "list_ok l (xs @ a # ys)"
  shows "dseg (mem l) None xs (Some a)" and "dseg (mem l) (Some a) ys None"
    and "\<exists>n. mem l a = Some n \<and> prev n = last_or None xs \<and> nxt n = hd_or ys None"
    and "a \<notin> set xs" "a \<notin> set ys" "distinct xs" "distinct ys" "set xs \<inter> set ys = {}"
  using assms by (auto simp: list_ok_def dseg_append split: option.splits)

lemma bring_to_front_ok:
  assumes "list_ok l (xs @ a # ys)"
  shows "\<exists>l'. bring_to_front a l = Some l' \<and> list_ok l' (a # xs @ ys) \<and>
    ndata (mem l') = ndata (mem l) \<and> brk l' = brk l"
proof (cases "xs = []")
  case True
  with assms show ?thesis by (auto simp: bring_to_front_def list_ok_def)
next
  case False
  then obtain x xs' where xs: "xs = x # xs'" by (cases xs) auto
  note mid = list_ok_mid [OF assms]
  from mid(3) obtain n where n: "mem l a = Some n" "prev n = Some (last xs)" "nxt n = hd_or ys None"
    using False by (auto simp: last_or_def)
  have hd: "head l = Some x" "tail l = last_or (Some a) ys" "dom (mem l) = set (xs @ a # ys)"
    "\<forall>b\<in>set (xs @ a # ys). b < brk l" and ax: "a \<noteq> x"
    using assms xs by (auto simp: list_ok_def last_or_append)
  from dseg_set_next_last [OF mid(1) False mid(6), of "hd_or ys None"]
  obtain h1 where h1: "set_next (Some (last xs)) (hd_or ys None) (mem l) = Some h1"
    "dseg h1 None xs (hd_or ys None)" by blast
  have l1: "last xs \<in> set xs" using False by simp
  then have "last xs \<notin> set ys" "a \<noteq> last xs" using mid(4,8) by auto
  then have h1ys: "dseg h1 (Some a) ys None" and h1a: "h1 a = Some n"
    using mid(2) n(1) set_next_dseg [OF h1(1)] set_next_frame(1) [OF h1(1), of a] by simp_all
  obtain h2 t where h2: "(if nxt n \<noteq> None then map_option (\<lambda>h. (h, tail l)) (set_prev (nxt n) (prev n) h1)
       else Some (h1, prev n)) = Some (h2, t)"
    "dseg h2 None xs (hd_or ys None)" "dseg h2 (Some (last xs)) ys None" "h2 a = Some n"
    "t = last_or (Some (last xs)) ys" "ndata h2 = ndata h1" "dom h2 = dom h1"
  proof (cases ys)
    case Nil
    then show ?thesis using that [of h1 "prev n"] h1 h1a n by simp
  next
    case (Cons y ys')
    from dseg_set_prev_first [of h1 "Some a" y ys' None "Some (last xs)"] h1ys mid(7) Cons
    obtain h2 where h2: "set_prev (Some y) (Some (last xs)) h1 = Some h2"
      "dseg h2 (Some (last xs)) ys None" by auto
    have "y \<notin> set xs" "a \<noteq> y" using Cons mid(5,8) by auto
    then have "dseg h2 None xs (hd_or ys None)" "h2 a = Some n"
      using h1(2) h1a set_prev_dseg [OF h2(1)] set_prev_frame(1) [OF h2(1), of a] by simp_all
    then show ?thesis
      using that [of h2 "tail l"] Cons n h2 hd(2) set_prev_frame(2,3) [OF h2(1)] by (simp add: last_or_def)
  qed
  define h4 where "h4 = h2(a \<mapsto> n\<lparr>prev := None, nxt := Some x\<rparr>)"
  have h4: "dseg h4 None xs (hd_or ys None)" "dseg h4 (Some (last xs)) ys None"
    "ndata h4 = ndata h2" "dom h4 = dom h2"
    using h2(2-4) mid(4,5) by (auto simp: h4_def ndata_def fun_eq_iff)
  from dseg_set_prev_first [of h4 None x xs' "hd_or ys None" "Some a"] h4(1) xs mid(6)
  obtain h5 where h5: "set_prev (Some x) (Some a) h4 = Some h5"
    "dseg h5 (Some a) xs (hd_or ys None)" by auto
  have xy: "x \<notin> set ys" using mid(8) xs by auto
  have h5': "dseg h5 (Some (last xs)) ys None" "h5 a = h4 a"
    using ax xy h4(2) set_prev_dseg [OF h5(1)] set_prev_frame(1) [OF h5(1), of a] by simp_all
  have "bring_to_front a l = Some (l\<lparr>mem := h5, tail := t, head := Some a\<rparr>)"
    using ax n hd(1) h1(1) h2(1,4) h5(1) by (simp add: bring_to_front_def set_prev_def set_next_def h4_def)
  moreover have "hd_or (xs @ ys) None = Some x" by (simp add: xs)
  then have "dseg h5 None (a # xs @ ys) None"
    using h5(2) h5' False by (simp add: dseg_append h4_def last_or_def)
  moreover have "ndata h5 = ndata (mem l)" "dom h5 = set (a # xs @ ys)"
    using set_prev_frame(2,3) [OF h5(1)] h4(3,4) h2(6,7) set_next_frame(2,3) [OF h1(1)] hd(3) by auto
  ultimately show ?thesis
    using assms h2(5) hd(4) False by (auto simp: list_ok_def last_or_append last_or_def)
qed


lemma push_front_ok:
  assumes "list_ok l as"
  shows "\<exists>l2. push_front (brk l) (snd (box_new (CacheNode_new k v) l)) = Some l2 \<and>
    list_ok l2 (brk l # as) \<and> ndata (mem l2) = (ndata (mem l))(brk l \<mapsto> (k, v))"
proof -
  define a where "a = brk l"
  define n where "n = (CacheNode_new k v)\<lparr>nxt := head l\<rparr>"
  have fresh: "a \<notin> set as" using assms by (auto simp: a_def list_ok_def)
  have h1: "set_next (Some a) (head l) ((mem l)(a \<mapsto> CacheNode_new k v)) = Some ((mem l)(a \<mapsto> n))"
    by (simp add: set_next_def n_def)
  have n: "prev n = None" "nxt n = hd_or as None" "key n = k" "nvalue n = v"
    using assms by (simp_all add: n_def CacheNode_new_def list_ok_def)
  have ok: "dseg ((mem l)(a \<mapsto> n)) None as None" "distinct as" "dom ((mem l)(a \<mapsto> n)) = insert a (set as)"
    using assms fresh by (auto simp: list_ok_def)
  show ?thesis
  proof (cases as)
    case Nil
    then show ?thesis
      using assms h1 n ok fresh
      by (auto simp: push_front_def box_new_def a_def [symmetric] list_ok_def ndata_upd)
  next
    case (Cons x xs)
    with dseg_set_prev_first [of "(mem l)(a \<mapsto> n)" None x xs None "Some a"] ok
    obtain h2 where h2: "set_prev (Some x) (Some a) ((mem l)(a \<mapsto> n)) = Some h2"
      "dseg h2 (Some a) as None" by auto
    have "a \<noteq> x" using fresh Cons by auto
    then have "h2 a = Some n" using set_prev_frame(1) [OF h2(1), of a] by simp
    then have "dseg h2 None (a # as) None" using h2(2) n by simp
    moreover have "ndata h2 = (ndata (mem l))(a \<mapsto> (k, v))" "dom h2 = set (a # as)"
      using set_prev_frame(2,3) [OF h2(1)] ok(3) n by (simp_all add: ndata_upd)
    moreover have "head l = Some x" "tail l = last_or None as" "tail l \<noteq> None"
      "\<forall>b\<in>set as. b < brk l" using assms Cons by (auto simp: list_ok_def last_or_def)
    ultimately show ?thesis
      using h1 h2(1) ok(2) fresh Cons
      by (auto simp: push_front_def box_new_def a_def [symmetric] list_ok_def last_or_def less_Suc_eq)
  qed
qed

lemma list_ok_cut:
  assumes "dseg h None xs (hd_or ys None)" "dseg h (last_or None xs) ys None" "a \<notin> set (xs @ ys)"
  shows "dseg (h(a := None)) None (xs @ ys) None"
  using assms by (simp add: dseg_append)

lemma list_remove_ok:
  assumes "list_ok l (xs @ a # ys)"
  shows "\<exists>n l'. list_remove a l = Some (n, l') \<and> list_ok l' (xs @ ys) \<and>
    ndata (mem l') = (ndata (mem l))(a := None) \<and> ndata (mem l) a = Some (key n, nvalue n)"
proof -
  note mid = list_ok_mid [OF assms]
  from mid(3) obtain n where n: "mem l a = Some n" "prev n = last_or None xs" "nxt n = hd_or ys None"
    by auto
  have hd: "head l = hd_or xs (Some a)" "tail l = last_or (Some a) ys"
    "dom (mem l) = set (xs @ a # ys)" "\<forall>b\<in>set (xs @ a # ys). b < brk l"
    using assms by (auto simp: list_ok_def last_or_append hd_or_append)
  obtain h1 where h1: "(if prev n \<noteq> None then map_option (\<lambda>h. (h, head l)) (set_next (prev n) (nxt n) (mem l))
        else Some (mem l, nxt n)) = Some (h1, hd_or (xs @ ys) None)"
    "dseg h1 None xs (hd_or ys None)" "dseg h1 (Some a) ys None" "ndata h1 = ndata (mem l)"
    "dom h1 = dom (mem l)"
  proof (cases "xs = []")
    case True
    then show ?thesis using that [of "mem l"] n mid by simp
  next
    case False
    from dseg_set_next_last [OF mid(1) False mid(6), of "hd_or ys None"]
    obtain h1 where h1: "set_next (Some (last xs)) (hd_or ys None) (mem l) = Some h1"
      "dseg h1 None xs (hd_or ys None)" by blast
    have "last xs \<notin> set ys" using mid(8) False last_in_set [of xs] by blast
    then have "dseg h1 (Some a) ys None" using mid(2) set_next_dseg [OF h1(1)] by simp
    moreover have "head l = hd_or (xs @ ys) None" using False hd(1) by (cases xs) auto
    ultimately show ?thesis
      using that [of h1] False n h1 set_next_frame(2,3) [OF h1(1)] by (simp add: last_or_def)
  qed
  obtain h2 where h2: "(if nxt n \<noteq> None then map_option (\<lambda>h. (h, tail l)) (set_prev (nxt n) (prev n) h1)
        else Some (h1, prev n)) = Some (h2, last_or None (xs @ ys))"
    "dseg h2 None xs (hd_or ys None)" "dseg h2 (last_or None xs) ys None" "ndata h2 = ndata h1"
    "dom h2 = dom h1"
  proof (cases ys)
    case Nil
    then show ?thesis using that [of h1] n h1 by simp
  next
    case (Cons y ys')
    from dseg_set_prev_first [of h1 "Some a" y ys' None "last_or None xs"] h1(3) mid(7) Cons
    obtain h2 where h2: "set_prev (Some y) (last_or None xs) h1 = Some h2"
      "dseg h2 (last_or None xs) ys None" by auto
    have "y \<notin> set xs" using Cons mid(8) by auto
    then have "dseg h2 None xs (hd_or ys None)" using h1(2) set_prev_dseg [OF h2(1)] by simp
    then show ?thesis
      using that [of h2] n hd(2) h2 set_prev_frame(2,3) [OF h2(1)] Cons
      by (simp add: last_or_append)
  qed
  have "list_remove a l = Some (n, l\<lparr>mem := h2(a := None), head := hd_or (xs @ ys) None,
      tail := last_or None (xs @ ys)\<rparr>)"
    using n(1) h1(1) h2(1) by (simp add: list_remove_def)
  moreover have "dseg (h2(a := None)) None (xs @ ys) None"
    using h2 mid(4,5) by (intro list_ok_cut) auto
  moreover have "dom (h2(a := None)) = set (xs @ ys)" "ndata (mem l) a = Some (key n, nvalue n)"
    using h2(5) h1(5) hd(3) mid(4,5) n(1) by (auto simp: ndata_def)
  ultimately show ?thesis
    using h2(4) h1(4) hd(4) mid by (auto simp: list_ok_def ndata_free)
qed

text \<open>
  \<^verbatim>\<open>pop_tail\<close> does not reset \<open>head\<close>, so it is only correct on a list of at least two nodes.
\<close>

lemma list_pop_tail_ok:
  assumes "list_ok l (xs @ [a])" "xs \<noteq> []"
  shows "\<exists>n l'. list_pop_tail l = Some (Some n, l') \<and> list_ok l' xs \<and>
    ndata (mem l') = (ndata (mem l))(a := None) \<and> ndata (mem l) a = Some (key n, nvalue n)"
proof -
  note mid = list_ok_mid [OF assms(1)]
  from mid(3) assms(2) obtain n where n: "mem l a = Some n" "prev n = Some (last xs)"
    by (auto simp: last_or_def)
  from dseg_set_next_last [OF mid(1) assms(2) mid(6), of None]
  obtain h1 where h1: "set_next (Some (last xs)) None (mem l) = Some h1" "dseg h1 None xs None"
    by blast
  have tl: "tail l = Some a" "dom (mem l) = set (xs @ [a])" "head l = hd_or xs None"
    "\<forall>b\<in>set (xs @ [a]). b < brk l"
    using assms by (auto simp: list_ok_def hd_or_append split: list.splits) (cases xs; simp)
  have "list_pop_tail l = Some (Some n, l\<lparr>mem := h1(a := None), tail := Some (last xs)\<rparr>)"
    using tl(1) n h1 by (simp add: list_pop_tail_def)
  moreover have "dom (h1(a := None)) = set xs" "ndata (mem l) a = Some (key n, nvalue n)"
    using set_next_frame(3) [OF h1(1)] tl(2) mid(4) n(1) by (auto simp: ndata_def)
  ultimately show ?thesis
    using h1(2) mid(4,6) tl(3,4) assms(2) set_next_frame(2) [OF h1(1)]
    by (auto simp: list_ok_def ndata_free last_or_def)
qed


section \<open>The invariant of the cache and its contents\<close>

text \<open>
  The hash map holds exactly the nodes of the list, each under its own key; the cache never exceeds
  its capacity, which is positive.
\<close>

definition node_key :: "('k, 'v) LruCache \<Rightarrow> addr \<Rightarrow> 'k" where
  "node_key c a = fst (the (ndata (mem (clist c)) a))"

definition cache_ok :: "('k, 'v) LruCache \<Rightarrow> addr list \<Rightarrow> bool" where
  "cache_ok c as \<longleftrightarrow> list_ok (clist c) as \<and> 0 < capacity c \<and> length as \<le> capacity c \<and>
     distinct (map fst (cmap c)) \<and> set (cmap c) = (\<lambda>a. (node_key c a, a)) ` set as"

definition addrs :: "('k, 'v) LruCache \<Rightarrow> addr list" where
  "addrs c = walk (length (cmap c)) (mem (clist c)) (head (clist c))"

definition lru_inv :: "('k, 'v) LruCache \<Rightarrow> bool" where
  "lru_inv c = cache_ok c (addrs c)"

text \<open>The entries in order of use, the most recently used first.\<close>

definition entries :: "('k, 'v) LruCache \<Rightarrow> ('k \<times> 'v) list" where
  "entries c = map (\<lambda>a. the (ndata (mem (clist c)) a)) (addrs c)"

lemma cache_ok_length:
  assumes "cache_ok c as"
  shows "length (cmap c) = length as"
proof -
  have "length (cmap c) = card (set (cmap c))"
    using assms by (metis cache_ok_def distinct_card distinct_map)
  also have "\<dots> = card (set as)"
    using assms by (auto simp: cache_ok_def inj_on_def intro!: card_image)
  finally show ?thesis using assms by (simp add: cache_ok_def list_ok_def distinct_card)
qed

lemma cache_ok_addrs: "cache_ok c as \<Longrightarrow> addrs c = as"
  using cache_ok_length [of c as] walk_dseg [of "mem (clist c)" None as]
  by (auto simp: addrs_def cache_ok_def list_ok_def)

lemma lru_inv_cache_ok: "cache_ok c as \<Longrightarrow> lru_inv c"
  by (simp add: lru_inv_def cache_ok_addrs)

lemma cache_ok_entries:
  "cache_ok c as \<Longrightarrow> entries c = map (\<lambda>a. the (ndata (mem (clist c)) a)) as"
  by (simp add: entries_def cache_ok_addrs)

lemma cache_ok_map_of:
  "cache_ok c as \<Longrightarrow> map_of (cmap c) k = Some a \<longleftrightarrow> a \<in> set as \<and> node_key c a = k"
  by (auto simp: cache_ok_def)

lemma cache_ok_inj:
  assumes "cache_ok c as"
  shows "inj_on (node_key c) (set as)"
proof (rule inj_onI)
  fix a b assume "a \<in> set as" "b \<in> set as" "node_key c a = node_key c b"
  then have "map_of (cmap c) (node_key c a) = Some a" "map_of (cmap c) (node_key c a) = Some b"
    using cache_ok_map_of [OF assms] by auto
  then show "a = b" by simp
qed

lemma cache_ok_map_of_None:
  "cache_ok c as \<Longrightarrow> map_of (cmap c) k = None \<longleftrightarrow> k \<notin> node_key c ` set as"
  by (auto simp: cache_ok_def map_of_eq_None_iff image_image)

lemma entries_keys: "cache_ok c as \<Longrightarrow> map fst (entries c) = map (node_key c) as"
  by (simp add: cache_ok_entries node_key_def)

lemma cache_ok_distinct: "cache_ok c as \<Longrightarrow> distinct (map (node_key c) as)"
  using cache_ok_inj [of c as] by (auto simp: distinct_map cache_ok_def list_ok_def)

lemma lru_inv_distinct: "lru_inv c \<Longrightarrow> distinct (map fst (entries c))"
  unfolding lru_inv_def by (metis entries_keys cache_ok_distinct)

lemma lru_inv_len: "lru_inv c \<Longrightarrow> length (entries c) = lru_len c \<and> lru_len c \<le> capacity c"
  unfolding lru_inv_def by (simp add: lru_len_def entries_def cache_ok_length) (simp add: cache_ok_def)

text \<open>Dropping the entry of one key from the list of entries, and from the addresses.\<close>

lemma filter_entries:
  assumes "cache_ok c (xs @ a # ys)"
  shows "filter (\<lambda>e. fst e \<noteq> node_key c a) (entries c) =
    map (\<lambda>b. the (ndata (mem (clist c)) b)) (xs @ ys)"
proof -
  have d: "distinct (map (node_key c) (xs @ a # ys))" using assms by (rule cache_ok_distinct)
  have "\<forall>b\<in>set (xs @ ys). node_key c b \<noteq> node_key c a"
    using d by (force simp: image_iff)
  then have "filter (\<lambda>b. node_key c b \<noteq> node_key c a) (xs @ a # ys) = xs @ ys"
    by (auto simp: filter_id_conv)
  then show ?thesis
    by (simp add: cache_ok_entries [OF assms] filter_map comp_def node_key_def [symmetric] flip: map_append)
qed

text \<open>A list operation that keeps the data of the nodes keeps the rest of the cache.\<close>

lemma cache_ok_relink:
  assumes "cache_ok c as" "list_ok l bs" "ndata (mem l) = ndata (mem (clist c))" "set bs = set as"
  shows "cache_ok (c\<lparr>clist := l\<rparr>) bs"
proof -
  have "length bs = length as"
    using assms by (metis cache_ok_def distinct_card list_ok_def)
  moreover have "node_key (c\<lparr>clist := l\<rparr>) = node_key c"
    using assms(3) by (simp add: node_key_def fun_eq_iff)
  ultimately show ?thesis using assms by (simp add: cache_ok_def)
qed

lemma cache_touch:
  assumes "cache_ok c as" "map_of (cmap c) k = Some a"
  shows "\<exists>xs ys l. as = xs @ a # ys \<and> bring_to_front a (clist c) = Some l \<and>
    cache_ok (c\<lparr>clist := l\<rparr>) (a # xs @ ys) \<and> ndata (mem l) = ndata (mem (clist c)) \<and>
    head_ref (c\<lparr>clist := l\<rparr>) = Some a"
proof -
  from assms have "a \<in> set as" by (simp add: cache_ok_map_of)
  then obtain xs ys where as: "as = xs @ a # ys" by (auto simp: in_set_conv_decomp)
  with assms(1) bring_to_front_ok [of "clist c" xs a ys]
  obtain l where l: "bring_to_front a (clist c) = Some l" "list_ok l (a # xs @ ys)"
    "ndata (mem l) = ndata (mem (clist c))" by (auto simp: cache_ok_def)
  moreover have "cache_ok (c\<lparr>clist := l\<rparr>) (a # xs @ ys)"
    using assms(1) l as by (intro cache_ok_relink [where as = as]) auto
  moreover have "head_ref (c\<lparr>clist := l\<rparr>) = Some a"
    using l(2) by (auto simp: head_ref_def list_ok_def split: option.splits)
  ultimately show ?thesis using as by blast
qed

lemma cache_pop_tail:
  assumes ok: "list_ok (clist c) (xs @ [a])" "xs \<noteq> []" and cap: "0 < capacity c" "length xs \<le> capacity c"
    and m: "distinct (map fst (cmap c))" "set (cmap c) = (\<lambda>b. (node_key c b, b)) ` set (xs @ [a])"
    and inj: "inj_on (node_key c) (set (xs @ [a]))"
  shows "\<exists>c'. lru_pop_tail c = Some (Some (node_key c a), c') \<and> cache_ok c' xs \<and>
    capacity c' = capacity c \<and>
    (\<forall>b\<in>set xs. ndata (mem (clist c')) b = ndata (mem (clist c)) b)"
proof -
  from list_pop_tail_ok [OF ok] obtain n l where
    l: "list_pop_tail (clist c) = Some (Some n, l)" "list_ok l xs"
    "ndata (mem l) = (ndata (mem (clist c)))(a := None)"
    "ndata (mem (clist c)) a = Some (key n, nvalue n)" by blast
  have k: "key n = node_key c a" using l(4) by (simp add: node_key_def)
  have a: "a \<notin> set xs" using ok(1) by (auto simp: list_ok_def)
  have "(node_key c a, a) \<in> set (cmap c)" using m(2) by simp
  then have "map_of (cmap c) (node_key c a) = Some a" using m(1) by simp
  moreover define c' where "c' = c\<lparr>clist := l, cmap := AList.delete (node_key c a) (cmap c)\<rparr>"
  ultimately have pop: "lru_pop_tail c = Some (Some (node_key c a), c')"
    using l(1) k by (simp add: lru_pop_tail_def)
  have nk: "\<forall>b\<in>set xs. node_key c' b = node_key c b"
    using l(3) a by (auto simp: node_key_def c'_def)
  have "set (cmap c') = {p \<in> set (cmap c). fst p \<noteq> node_key c a}"
    by (auto simp: c'_def AList.delete_eq)
  also have "\<dots> = (\<lambda>b. (node_key c b, b)) ` set xs"
    using m(2) inj a by (auto simp: inj_on_def)
  finally have "set (cmap c') = (\<lambda>b. (node_key c' b, b)) ` set xs" using nk by force
  moreover have "distinct (map fst (cmap c'))"
    using m(1) by (simp add: c'_def AList.delete_eq distinct_map_filter)
  ultimately show ?thesis
    using pop l(2,3) cap a by (auto simp: cache_ok_def c'_def)
qed


lemma cache_insert_new:
  assumes "cache_ok c as" "map_of (cmap c) k = None"
  shows "\<exists>c' bs. lru_insert_new k v removed c =
      Some (if length as = capacity c then removed (node_key c (last as)) else Ok (), c') \<and>
    bs = take (capacity c) (brk (clist c) # as) \<and> cache_ok c' bs \<and> capacity c' = capacity c \<and>
    head_ref c' = Some (brk (clist c)) \<and>
    (\<forall>b\<in>set bs. ndata (mem (clist c')) b = ((ndata (mem (clist c)))(brk (clist c) \<mapsto> (k, v))) b)"
proof -
  define a where "a = brk (clist c)"
  have lok: "list_ok (clist c) as" using assms(1) by (simp add: cache_ok_def)
  then have fresh: "a \<notin> set as" by (auto simp: a_def list_ok_def)
  from push_front_ok [OF lok, of k v] obtain l2 where
    l2: "push_front a (snd (box_new (CacheNode_new k v) (clist c))) = Some l2" "list_ok l2 (a # as)"
    "ndata (mem l2) = (ndata (mem (clist c)))(a \<mapsto> (k, v))" unfolding a_def by blast
  define c1 where "c1 = c\<lparr>clist := l2, cmap := AList.update k a (cmap c)\<rparr>"
  have k: "k \<notin> fst ` set (cmap c)" using assms(2) by (simp add: map_of_eq_None_iff)
  then have cm: "cmap c1 = cmap c @ [(k, a)]"
    by (simp add: c1_def alist_update_new)
  have len: "length (cmap c1) = Suc (length as)" using cache_ok_length [OF assms(1)] cm by simp
  have nk: "node_key c1 a = k" "\<forall>b\<in>set as. node_key c1 b = node_key c b"
    using l2(3) fresh by (auto simp: node_key_def c1_def)
  have dist: "distinct (map fst (cmap c1))" and
    st: "set (cmap c1) = (\<lambda>b. (node_key c1 b, b)) ` set (a # as)"
    using assms(1) k nk by (auto simp: cache_ok_def cm)
  have inj: "inj_on (node_key c1) (set (a # as))"
  proof (rule inj_onI)
    fix x y assume xy: "x \<in> set (a # as)" "y \<in> set (a # as)" "node_key c1 x = node_key c1 y"
    have "(node_key c1 x, x) \<in> set (cmap c1)" using xy(1) unfolding st by (rule imageI)
    moreover have "(node_key c1 y, y) \<in> set (cmap c1)" using xy(2) unfolding st by (rule imageI)
    ultimately have "(node_key c1 x, x) \<in> set (cmap c1)" "(node_key c1 x, y) \<in> set (cmap c1)"
      unfolding xy(3) by this+
    then show "x = y" using dist by (metis map_of_is_SomeI option.inject)
  qed
  have unf: "lru_insert_new k v removed c =
      (if length (cmap c1) > capacity c1 then
           (case lru_pop_tail c1 of None \<Rightarrow> None
            | Some (None, c2) \<Rightarrow> Some (Ok (), c2)
            | Some (Some rk, c2) \<Rightarrow> Some (removed rk, c2))
         else Some (Ok (), c1))"
    using l2(1) by (simp add: lru_insert_new_def Let_def split_beta c1_def a_def box_new_def)
  have hr: "head_ref c' = Some a" if "cache_ok c' (a # bs)" for c' :: "('a, 'b) LruCache" and bs
    using that by (auto simp: head_ref_def cache_ok_def list_ok_def)
  show ?thesis
  proof (cases "length as = capacity c")
    case True
    then have ne: "as \<noteq> []" using assms(1) by (auto simp: cache_ok_def)
    then have as: "as = butlast as @ [last as]" by simp
    from cache_pop_tail [of c1 "a # butlast as" "last as"] obtain c2 where
      c2: "lru_pop_tail c1 = Some (Some (node_key c1 (last as)), c2)" "cache_ok c2 (a # butlast as)"
      "capacity c2 = capacity c1"
      "\<forall>b\<in>set (a # butlast as). ndata (mem (clist c2)) b = ndata (mem (clist c1)) b"
      using l2(2) dist st inj True assms(1) ne by (auto simp: c1_def cache_ok_def)
    have "take (capacity c) (a # as) = a # butlast as"
      using True ne by (cases "capacity c") (auto simp: butlast_conv_take)
    then show ?thesis
      using unf len True c2 hr [OF c2(2)] nk ne l2(3)
      by (auto simp: c1_def a_def [symmetric])
  next
    case False
    then have lt: "length as < capacity c" using assms(1) by (simp add: cache_ok_def)
    then have "cache_ok c1 (a # as)"
      using l2(2) dist st assms(1) by (simp add: cache_ok_def c1_def)
    moreover have "take (capacity c) (a # as) = a # as" using lt by simp
    ultimately show ?thesis
      using unf len lt False hr l2(3) by (auto simp: c1_def a_def [symmetric])
  qed
qed


section \<open>The cache refines a list of entries in order of use\<close>

text \<open>The specification of the policy, on the list of entries.\<close>

definition spec_put :: "nat \<Rightarrow> 'k \<Rightarrow> 'v \<Rightarrow> ('k \<times> 'v) list \<Rightarrow> ('k \<times> 'v) list" where
  "spec_put cap k v es = take cap ((k, v) # filter (\<lambda>e. fst e \<noteq> k) es)"

definition spec_evicted :: "nat \<Rightarrow> 'k \<Rightarrow> ('k \<times> 'v) list \<Rightarrow> 'k option" where
  "spec_evicted cap k es =
     (if k \<in> fst ` set es \<or> length es < cap then None else Some (fst (last es)))"

definition evict_result :: "('k \<Rightarrow> ('e, unit) result) \<Rightarrow> 'k option \<Rightarrow> ('e, unit) result" where
  "evict_result removed ev = (case ev of None \<Rightarrow> Ok () | Some k \<Rightarrow> removed k)"

lemma lru_inv_new [simp]:
  "lru_inv (LruCache_new cap)" "entries (LruCache_new cap) = []"
  "capacity (LruCache_new cap) = max cap 1"
  by (simp_all add: lru_inv_def addrs_def entries_def LruCache_new_def cache_ok_def
      LinkedList_new_def list_ok_def)

lemma map_of_entries:
  assumes "lru_inv c"
  shows "map_of (entries c) k =
    (case map_of (cmap c) k of None \<Rightarrow> None | Some a \<Rightarrow> deref_value c a)"
proof -
  have ok: "cache_ok c (addrs c)" using assms by (simp add: lru_inv_def)
  show ?thesis
  proof (cases "map_of (cmap c) k")
    case None
    then have "k \<notin> fst ` set (entries c)"
      using cache_ok_map_of_None [OF ok] entries_keys [OF ok] by (metis list.set_map)
    then have "map_of (entries c) k = None" by (simp add: map_of_eq_None_iff)
    then show ?thesis by (simp only: None option.case)
  next
    case (Some a)
    then have a: "a \<in> set (addrs c)" "node_key c a = k" using cache_ok_map_of [OF ok] by auto
    then obtain n where n: "mem (clist c) a = Some n"
      using ok by (fastforce simp: cache_ok_def list_ok_def)
    then have "(k, nvalue n) \<in> set (entries c)"
      using a by (force simp: entries_def node_key_def ndata_def)
    then have "map_of (entries c) k = Some (nvalue n)"
      using lru_inv_distinct [OF assms] by simp
    then show ?thesis using Some n by (simp add: deref_value_def)
  qed
qed

lemma key_in_entries: "lru_inv c \<Longrightarrow> k \<in> fst ` set (entries c) \<longleftrightarrow> map_of (cmap c) k \<noteq> None"
  using entries_keys [of c "addrs c"] cache_ok_map_of_None [of c "addrs c" k]
  by (simp add: lru_inv_def) (metis list.set_map)

lemma spec_put_hit:
  assumes "cache_ok c (xs @ a # ys)" "node_key c a = k"
  shows "spec_put (capacity c) k v (entries c) =
    (k, v) # map (\<lambda>b. the (ndata (mem (clist c)) b)) (xs @ ys)"
  using filter_entries [OF assms(1)] assms by (simp add: spec_put_def cache_ok_def)

lemma spec_put_miss:
  assumes "cache_ok c as" "map_of (cmap c) k = None"
  shows "spec_put (capacity c) k v (entries c) = take (capacity c) ((k, v) # entries c)"
proof -
  have "k \<notin> fst ` set (entries c)"
    using assms by (metis cache_ok_addrs entries_keys cache_ok_map_of_None list.set_map)
  then have "filter (\<lambda>e. fst e \<noteq> k) (entries c) = entries c" by (force simp: filter_id_conv)
  then show ?thesis by (simp add: spec_put_def)
qed

lemma insert_new_refines:
  assumes "lru_inv c" "map_of (cmap c) k = None"
  shows "\<exists>c'. lru_insert_new k v removed c =
      Some (evict_result removed (spec_evicted (capacity c) k (entries c)), c') \<and>
    lru_inv c' \<and> capacity c' = capacity c \<and> head_ref c' = Some (brk (clist c)) \<and>
    deref_value c' (brk (clist c)) = Some v \<and>
    entries c' = spec_put (capacity c) k v (entries c)"
proof -
  define as where "as = addrs c"
  define a where "a = brk (clist c)"
  have ok: "cache_ok c as" using assms(1) by (simp add: lru_inv_def as_def)
  from cache_insert_new [OF ok assms(2), of v removed, folded a_def] obtain c' bs where
    ins: "lru_insert_new k v removed c =
      Some (if length as = capacity c then removed (node_key c (last as)) else Ok (), c')" and
    bs: "bs = take (capacity c) (a # as)" and ok': "cache_ok c' bs" and cap: "capacity c' = capacity c"
    and hr: "head_ref c' = Some a" and
    dat: "\<forall>b\<in>set bs. ndata (mem (clist c')) b = ((ndata (mem (clist c)))(a \<mapsto> (k, v))) b" by blast
  have fresh: "a \<notin> set as" using ok by (auto simp: a_def cache_ok_def list_ok_def)
  have a_bs: "a \<in> set bs" using ok bs by (cases "capacity c") (auto simp: cache_ok_def)
  have "entries c' = map (\<lambda>b. the (((ndata (mem (clist c)))(a \<mapsto> (k, v))) b)) bs"
    using cache_ok_entries [OF ok'] dat by simp
  also have "\<dots> = take (capacity c) ((k, v) # map (\<lambda>b. the (((ndata (mem (clist c)))(a \<mapsto> (k, v))) b)) as)"
    by (simp add: bs take_map [symmetric])
  also have "map (\<lambda>b. the (((ndata (mem (clist c)))(a \<mapsto> (k, v))) b)) as = entries c"
    using fresh cache_ok_entries [OF ok] by auto
  finally have e: "entries c' = spec_put (capacity c) k v (entries c)"
    using spec_put_miss [OF ok assms(2)] by simp
  have len: "length (entries c) = length as" using cache_ok_entries [OF ok] by simp
  have keys: "map fst (entries c) = map (node_key c) as" by (rule entries_keys [OF ok])
  have nk: "k \<notin> fst ` set (entries c)" using assms by (simp add: key_in_entries)
  have "(if length as = capacity c then removed (node_key c (last as)) else Ok ()) =
      evict_result removed (spec_evicted (capacity c) k (entries c))"
  proof (cases "length as = capacity c")
    case True
    then have "as \<noteq> []" "entries c \<noteq> []" using ok len by (auto simp: cache_ok_def)
    then have "node_key c (last as) = fst (last (entries c))" using keys by (metis last_map)
    then show ?thesis using True nk len by (simp add: spec_evicted_def evict_result_def)
  next
    case False
    then show ?thesis using ok len nk by (simp add: spec_evicted_def evict_result_def cache_ok_def)
  qed
  moreover have "deref_value c' a = Some v"
    using dat a_bs by (force simp: deref_value_def ndata_def)
  ultimately show ?thesis
    using ins ok' cap hr e lru_inv_cache_ok [OF ok'] by (auto simp: a_def)
qed

lemma touch_refines:
  assumes "lru_inv c" "map_of (cmap c) k = Some a"
  shows "\<exists>l v. bring_to_front a (clist c) = Some l \<and> lru_inv (c\<lparr>clist := l\<rparr>) \<and>
    head_ref (c\<lparr>clist := l\<rparr>) = Some a \<and> deref_value (c\<lparr>clist := l\<rparr>) a = Some v \<and>
    map_of (entries c) k = Some v \<and> addrs (c\<lparr>clist := l\<rparr>) \<noteq> [] \<and> hd (addrs (c\<lparr>clist := l\<rparr>)) = a \<and>
    entries (c\<lparr>clist := l\<rparr>) = spec_put (capacity c) k v (entries c)"
proof -
  have ok: "cache_ok c (addrs c)" using assms(1) by (simp add: lru_inv_def)
  from cache_touch [OF ok assms(2)] obtain xs ys l where as: "addrs c = xs @ a # ys" and
    l: "bring_to_front a (clist c) = Some l" "cache_ok (c\<lparr>clist := l\<rparr>) (a # xs @ ys)"
    "ndata (mem l) = ndata (mem (clist c))" "head_ref (c\<lparr>clist := l\<rparr>) = Some a" by blast
  have k: "node_key c a = k" using assms ok by (simp add: cache_ok_map_of)
  have "a \<in> dom (mem (clist c))" using ok as by (auto simp: cache_ok_def list_ok_def)
  then obtain v where v: "ndata (mem (clist c)) a = Some (k, v)"
    using k by (auto simp: node_key_def ndata_def)
  have d: "deref_value (c\<lparr>clist := l\<rparr>) a = Some v" "deref_value c a = Some v"
    using v l(3) by (simp_all add: deref_value_ndata)
  moreover have "map_of (entries c) k = Some v"
    using map_of_entries [OF assms(1), of k] assms(2) d(2) by simp
  moreover have "entries (c\<lparr>clist := l\<rparr>) = spec_put (capacity c) k v (entries c)"
    using cache_ok_entries [OF l(2)] v l(3) spec_put_hit [of c xs a ys k v] ok as k by simp
  ultimately show ?thesis
    using l cache_ok_addrs [OF l(2)] lru_inv_cache_ok [OF l(2)] by auto
qed


lemma dseg_set_value:
  "h a = Some n \<Longrightarrow> dseg (h(a \<mapsto> n\<lparr>nvalue := v\<rparr>)) p xs q = dseg h p xs q"
  by (induction xs arbitrary: p) auto

lemma set_value_refines:
  assumes "lru_inv c" "addrs c \<noteq> []" "hd (addrs c) = a" "mem (clist c) a = Some n"
  shows "lru_inv (c\<lparr>clist := (clist c)\<lparr>mem := (mem (clist c))(a \<mapsto> n\<lparr>nvalue := v\<rparr>)\<rparr>\<rparr>) \<and>
    entries (c\<lparr>clist := (clist c)\<lparr>mem := (mem (clist c))(a \<mapsto> n\<lparr>nvalue := v\<rparr>)\<rparr>\<rparr>) =
      (key n, v) # tl (entries c)"
proof -
  let ?c = "c\<lparr>clist := (clist c)\<lparr>mem := (mem (clist c))(a \<mapsto> n\<lparr>nvalue := v\<rparr>)\<rparr>\<rparr>"
  obtain as where as: "addrs c = a # as" using assms(2,3) by (cases "addrs c") auto
  have ok: "cache_ok c (a # as)" using assms(1) as by (simp add: lru_inv_def)
  have dat: "ndata (mem (clist ?c)) = (ndata (mem (clist c)))(a \<mapsto> (key n, v))"
    by (simp add: ndata_upd)
  have nk: "node_key ?c = node_key c"
    using dat assms(4) by (auto simp: node_key_def fun_eq_iff ndata_def)
  have a: "a \<notin> set as" using ok by (simp add: cache_ok_def list_ok_def)
  have "cache_ok ?c (a # as)"
    using ok nk assms(4) dseg_set_value [where h = "mem (clist c)" and a = a and n = n and v = v]
    by (auto simp: cache_ok_def list_ok_def simp del: dseg_Cons)
  moreover from cache_ok_entries [OF this] have "entries ?c = (key n, v) # tl (entries c)"
    using a cache_ok_entries [OF ok] dat by auto
  ultimately show ?thesis by (simp add: lru_inv_cache_ok)
qed

lemma lru_insert_spec:
  assumes "lru_inv c"
  shows "\<exists>c'. lru_insert k v removed c =
      Some (case evict_result removed (spec_evicted (capacity c) k (entries c)) of
              Inl e \<Rightarrow> Err e | Inr _ \<Rightarrow> Ok (k \<in> fst ` set (entries c)), c') \<and>
    lru_inv c' \<and> capacity c' = capacity c \<and> entries c' = spec_put (capacity c) k v (entries c)"
proof (cases "map_of (cmap c) k")
  case None
  then have "k \<notin> fst ` set (entries c)" using assms by (simp add: key_in_entries)
  moreover from insert_new_refines [OF assms None, of v removed] obtain c' where
    "lru_insert_new k v removed c =
      Some (evict_result removed (spec_evicted (capacity c) k (entries c)), c')"
    "lru_inv c'" "capacity c' = capacity c" "entries c' = spec_put (capacity c) k v (entries c)" by blast
  ultimately show ?thesis using None by (auto simp: lru_insert_def split: sum.splits)
next
  case (Some a)
  from touch_refines [OF assms Some] obtain l v0 where
    l: "bring_to_front a (clist c) = Some l" "lru_inv (c\<lparr>clist := l\<rparr>)"
    "deref_value (c\<lparr>clist := l\<rparr>) a = Some v0" "addrs (c\<lparr>clist := l\<rparr>) \<noteq> []" "hd (addrs (c\<lparr>clist := l\<rparr>)) = a"
    "entries (c\<lparr>clist := l\<rparr>) = spec_put (capacity c) k v0 (entries c)" by blast
  then obtain n where n: "mem l a = Some n" by (auto simp: deref_value_def)
  have kin: "k \<in> fst ` set (entries c)" using assms Some by (simp add: key_in_entries)
  have cap: "0 < capacity c" using assms by (simp add: lru_inv_def cache_ok_def)
  from set_value_refines [OF l(2,4,5), of n v] n
  have "lru_inv (c\<lparr>clist := l\<lparr>mem := (mem l)(a \<mapsto> n\<lparr>nvalue := v\<rparr>)\<rparr>\<rparr>)" and
    e: "entries (c\<lparr>clist := l\<lparr>mem := (mem l)(a \<mapsto> n\<lparr>nvalue := v\<rparr>)\<rparr>\<rparr>) =
      (key n, v) # tl (spec_put (capacity c) k v0 (entries c))" using l(6) by simp_all
  moreover have "key n = k"
  proof -
    have "fst (hd (entries (c\<lparr>clist := l\<rparr>))) = key n"
      using l(4,5) n by (simp add: entries_def hd_map ndata_def)
    then show ?thesis using l(6) cap by (cases "capacity c") (simp_all add: spec_put_def)
  qed
  moreover have "(k, v) # tl (spec_put (capacity c) k v0 (entries c)) = spec_put (capacity c) k v (entries c)"
    using cap by (cases "capacity c") (simp_all add: spec_put_def)
  ultimately show ?thesis
    using Some l(1) n kin by (simp add: lru_insert_def spec_evicted_def evict_result_def)
qed

text \<open>
  \<^verbatim>\<open>insert\<close> never touches a null or dangling node, keeps the invariant (map and list agree, no
  node is leaked, capacity is respected), moves the entry to the front with the new value, and evicts
  exactly the least recently used entry of a full cache, whose key it passes to \<^verbatim>\<open>removed\<close>; an error
  of \<^verbatim>\<open>removed\<close> is returned after the new entry has been stored.
\<close>

theorem lru_insert_refines:
  assumes "lru_inv c"
  shows "\<exists>c'. lru_insert k v removed c =
      Some (case evict_result removed (spec_evicted (capacity c) k (entries c)) of
              Inl e \<Rightarrow> Err e | Inr _ \<Rightarrow> Ok (k \<in> fst ` set (entries c)), c') \<and>
    lru_inv c' \<and> capacity c' = capacity c \<and> entries c' = spec_put (capacity c) k v (entries c)"
  using assms by (rule lru_insert_spec)

theorem lru_insert_refines_witness:
  "\<exists>c'. lru_insert (1::nat) (10::nat) (\<lambda>_. Ok () :: (unit, unit) result) (LruCache_new 2) = Some (Ok False, c') \<and>
     entries c' = [(1, 10)]"
proof -
  have "lru_inv (LruCache_new 2 :: (nat, nat) LruCache)" by simp
  from lru_insert_refines [OF this, of 1 10 "\<lambda>_. Ok () :: (unit, unit) result"]
  show ?thesis by (auto simp: spec_evicted_def evict_result_def spec_put_def)
qed

lemma lru_access_post:
  assumes "lru_inv c"
  shows "\<exists>r c'. lru_access k fetch removed c = Some (r, c') \<and> lru_inv c' \<and> capacity c' = capacity c \<and>
    (case map_of (entries c) k of
       Some v \<Rightarrow> (\<exists>a. r = Ok (Some a) \<and> deref_value c' a = Some v) \<and>
                 entries c' = spec_put (capacity c) k v (entries c)
     | None \<Rightarrow>
       (case fetch k of
          Inl e \<Rightarrow> r = Err e \<and> c' = c
        | Inr None \<Rightarrow> r = Ok None \<and> c' = c
        | Inr (Some v) \<Rightarrow> entries c' = spec_put (capacity c) k v (entries c) \<and>
            (case evict_result removed (spec_evicted (capacity c) k (entries c)) of
               Inl e \<Rightarrow> r = Err e
             | Inr _ \<Rightarrow> (\<exists>a. r = Ok (Some a) \<and> deref_value c' a = Some v))))"
proof (cases "map_of (cmap c) k")
  case (Some a)
  from touch_refines [OF assms Some] obtain l v where
    "bring_to_front a (clist c) = Some l" "lru_inv (c\<lparr>clist := l\<rparr>)" "head_ref (c\<lparr>clist := l\<rparr>) = Some a"
    "deref_value (c\<lparr>clist := l\<rparr>) a = Some v" "map_of (entries c) k = Some v"
    "entries (c\<lparr>clist := l\<rparr>) = spec_put (capacity c) k v (entries c)" by blast
  then show ?thesis using Some by (simp add: lru_access_def)
next
  case None
  then have m: "map_of (entries c) k = None" using map_of_entries [OF assms, of k] by (simp only: option.case)
  show ?thesis
  proof (cases "fetch k")
    case (Inl e)
    then show ?thesis using None m assms by (simp add: lru_access_def del: map_of_eq_None_iff)
  next
    case (Inr vo)
    show ?thesis
    proof (cases vo)
      case None': None
      then show ?thesis using None m Inr assms by (simp add: lru_access_def del: map_of_eq_None_iff)
    next
      case (Some v)
      from insert_new_refines [OF assms None, of v removed] show ?thesis
        using None m Inr Some
        by (cases "evict_result removed (spec_evicted (capacity c) k (entries c))")
          (auto simp: lru_access_def simp del: map_of_eq_None_iff)
    qed
  qed
qed

text \<open>
  C19. \<^verbatim>\<open>access\<close> with a \<^verbatim>\<open>Cacher\<close>: a hit returns a reference to the cached value without calling
  \<^verbatim>\<open>fetch\<close>; a miss returns what \<^verbatim>\<open>fetch\<close> gives, stores it as the most recently used entry and evicts
  the least recently used one; a failed or empty fetch leaves the cache unchanged.
\<close>

theorem lru_access_refines:
  assumes "lru_inv c"
  shows "\<exists>r c'. lru_access k fetch removed c = Some (r, c') \<and> lru_inv c' \<and> capacity c' = capacity c \<and>
    (case map_of (entries c) k of
       Some v \<Rightarrow> (\<exists>a. r = Ok (Some a) \<and> deref_value c' a = Some v) \<and>
                 entries c' = spec_put (capacity c) k v (entries c)
     | None \<Rightarrow>
       (case fetch k of
          Inl e \<Rightarrow> r = Err e \<and> c' = c
        | Inr None \<Rightarrow> r = Ok None \<and> c' = c
        | Inr (Some v) \<Rightarrow> entries c' = spec_put (capacity c) k v (entries c) \<and>
            (case evict_result removed (spec_evicted (capacity c) k (entries c)) of
               Inl e \<Rightarrow> r = Err e
             | Inr _ \<Rightarrow> (\<exists>a. r = Ok (Some a) \<and> deref_value c' a = Some v))))"
  by (rule lru_access_post [OF assms])

theorem lru_access_refines_witness:
  "\<exists>r c'. lru_access (3::nat) (\<lambda>k. Ok (Some (k + 1))) (\<lambda>_. Ok () :: (unit, unit) result) (LruCache_new 1) =
      Some (r, c') \<and> entries c' = [(3, 4)]"
proof -
  have "lru_inv (LruCache_new 1 :: (nat, nat) LruCache)" by simp
  from lru_access_refines [OF this, of 3 "\<lambda>k. Ok (Some (k + 1))" "\<lambda>_. Ok () :: (unit, unit) result"]
  show ?thesis by (auto simp: spec_evicted_def evict_result_def spec_put_def)
qed


text \<open>
  \<^verbatim>\<open>remove\<close> unlinks exactly the node of its key, returns that node's value and frees it; the order of
  the other entries does not change, and for an unknown key nothing happens.
\<close>

theorem lru_remove_refines:
  assumes "lru_inv c"
  shows "\<exists>c'. lru_remove k c = Some (map_of (entries c) k, c') \<and> lru_inv c' \<and> capacity c' = capacity c \<and>
    entries c' = filter (\<lambda>e. fst e \<noteq> k) (entries c) \<and>
    card (dom (mem (clist c'))) = lru_len c'"
proof -
  have mem_card: "card (dom (mem (clist c'))) = lru_len c'" if "lru_inv c'" for c' :: "('a, 'b) LruCache"
    using that cache_ok_length [of c' "addrs c'"]
    by (auto simp: lru_inv_def cache_ok_def list_ok_def lru_len_def distinct_card)
  have ok: "cache_ok c (addrs c)" using assms by (simp add: lru_inv_def)
  show ?thesis
  proof (cases "map_of (cmap c) k")
    case None
    then have "k \<notin> fst ` set (entries c)" using assms by (simp add: key_in_entries)
    then have "filter (\<lambda>e. fst e \<noteq> k) (entries c) = entries c" "map_of (entries c) k = None"
      by (auto simp: filter_id_conv map_of_eq_None_iff)
    then show ?thesis using None assms mem_card [OF assms] by (simp add: lru_remove_def del: map_of_eq_None_iff)
  next
    case (Some a)
    then have a: "a \<in> set (addrs c)" "node_key c a = k" using cache_ok_map_of [OF ok] by auto
    then obtain xs ys where as: "addrs c = xs @ a # ys" by (auto simp: in_set_conv_decomp)
    from list_remove_ok [of "clist c" xs a ys] ok as obtain n l where
      l: "list_remove a (clist c) = Some (n, l)" "list_ok l (xs @ ys)"
      "ndata (mem l) = (ndata (mem (clist c)))(a := None)"
      "ndata (mem (clist c)) a = Some (key n, nvalue n)" by (auto simp: cache_ok_def)
    define c' where "c' = c\<lparr>cmap := AList.delete k (cmap c), clist := l\<rparr>"
    have dis: "a \<notin> set (xs @ ys)" using ok as by (auto simp: cache_ok_def list_ok_def)
    have nk: "\<forall>b\<in>set (xs @ ys). node_key c' b = node_key c b"
      using l(3) dis by (auto simp: node_key_def c'_def)
    have "set (cmap c') = {p \<in> set (cmap c). fst p \<noteq> k}"
      by (auto simp: c'_def alist_delete_filter)
    also have "\<dots> = (\<lambda>b. (node_key c b, b)) ` set (xs @ ys)"
      using ok as cache_ok_inj [OF ok] a dis by (auto simp: cache_ok_def inj_on_def)
    finally have "set (cmap c') = (\<lambda>b. (node_key c' b, b)) ` set (xs @ ys)" using nk by force
    then have ok': "cache_ok c' (xs @ ys)"
      using ok as l(2) by (auto simp: cache_ok_def c'_def alist_delete_filter distinct_map_filter)
    then have "entries c' = filter (\<lambda>e. fst e \<noteq> k) (entries c)"
      using filter_entries [of c xs a ys] ok as a(2) dis cache_ok_entries [OF ok'] l(3)
      by (auto simp: c'_def)
    moreover have "map_of (entries c) k = Some (nvalue n)"
      using map_of_entries [OF assms, of k] Some l(4) by (simp add: deref_value_ndata)
    moreover have "lru_remove k c = Some (Some (nvalue n), c')"
      using Some l(1) by (simp add: lru_remove_def c'_def)
    ultimately show ?thesis
      using lru_inv_cache_ok [OF ok'] mem_card [OF lru_inv_cache_ok [OF ok']] by (simp add: c'_def)
  qed
qed

theorem lru_remove_refines_witness:
  "\<exists>c'. lru_remove (1::nat) (LruCache_new 2 :: (nat, nat) LruCache) = Some (None, c') \<and> lru_inv c'"
  using lru_remove_refines [of "LruCache_new 2 :: (nat, nat) LruCache" 1] by auto

text \<open>
  \<^verbatim>\<open>clear\<close> (and so \<^verbatim>\<open>drop\<close>) terminates, frees every node and leaves the empty cache.
\<close>

theorem lru_clear_frees_all:
  assumes "lru_inv c"
  shows "\<exists>c'. lru_clear c = Some c' \<and> lru_inv c' \<and> entries c' = [] \<and> mem (clist c') = Map.empty \<and>
    capacity c' = capacity c"
proof -
  have ok: "cache_ok c (addrs c)" using assms by (simp add: lru_inv_def)
  then have l: "dseg (mem (clist c)) None (addrs c) None" "distinct (addrs c)"
    "head (clist c) = hd_or (addrs c) None" "dom (mem (clist c)) = set (addrs c)"
    by (auto simp: cache_ok_def list_ok_def)
  have "free_all (length (cmap c)) (head (clist c)) (mem (clist c)) =
      Some (\<lambda>b. if b \<in> set (addrs c) then None else mem (clist c) b)"
    using free_all_dseg [OF l(1,2)] cache_ok_length [OF ok] l(3) by simp
  also have "(\<lambda>b. if b \<in> set (addrs c) then None else mem (clist c) b) = Map.empty"
    using l(4) by (auto simp: fun_eq_iff)
  finally show ?thesis
    using ok by (auto simp: lru_clear_def list_clear_def lru_inv_def addrs_def entries_def cache_ok_def list_ok_def)
qed

theorem lru_clear_frees_all_witness:
  "\<exists>c'. lru_clear (LruCache_new 5 :: (nat, nat) LruCache) = Some c' \<and> mem (clist c') = Map.empty"
  using lru_clear_frees_all [of "LruCache_new 5 :: (nat, nat) LruCache"] by auto

lemma lru_get_mut_refines:
  assumes "lru_inv c"
  shows "\<exists>r c'. lru_get_mut k c = Some (r, c') \<and> lru_inv c' \<and> capacity c' = capacity c \<and>
    (case map_of (entries c) k of
       None \<Rightarrow> r = None \<and> c' = c
     | Some v \<Rightarrow> (\<exists>a. r = Some a \<and> deref_value c' a = Some v) \<and>
                 entries c' = spec_put (capacity c) k v (entries c))"
proof (cases "map_of (cmap c) k")
  case (Some a)
  from touch_refines [OF assms Some] obtain l v where
    "bring_to_front a (clist c) = Some l" "lru_inv (c\<lparr>clist := l\<rparr>)" "head_ref (c\<lparr>clist := l\<rparr>) = Some a"
    "deref_value (c\<lparr>clist := l\<rparr>) a = Some v" "map_of (entries c) k = Some v"
    "entries (c\<lparr>clist := l\<rparr>) = spec_put (capacity c) k v (entries c)" by blast
  then show ?thesis using Some by (simp add: lru_get_mut_def)
next
  case None
  then have "map_of (entries c) k = None" using map_of_entries [OF assms, of k] by (simp only: option.case)
  then show ?thesis using None assms by (simp add: lru_get_mut_def del: map_of_eq_None_iff)
qed

section \<open>The interface the index readers use\<close>

text \<open>
  A cache in front of a \<^verbatim>\<open>Cacher\<close>: what \<^verbatim>\<open>access\<close> promises, whatever the replacement policy. \<open>look\<close> is
  what the cache holds for a key, \<open>deref\<close> reads the reference that \<^verbatim>\<open>access\<close> returns.
\<close>

locale fetch_cache =
  fixes access :: "'k \<Rightarrow> ('k \<Rightarrow> ('e, 'v option) result) \<Rightarrow> ('k \<Rightarrow> ('e, unit) result) \<Rightarrow> 'c \<Rightarrow>
      (('e, 'r option) result \<times> 'c) option"
    and inv :: "'c \<Rightarrow> bool"
    and look :: "'c \<Rightarrow> 'k \<Rightarrow> 'v option"
    and deref :: "'c \<Rightarrow> 'r \<Rightarrow> 'v option"
  assumes hit: "inv c \<Longrightarrow> look c k = Some v \<Longrightarrow>
      \<exists>r c'. access k fetch removed c = Some (Ok (Some r), c') \<and> deref c' r = Some v \<and> inv c' \<and>
        look c' \<subseteq>\<^sub>m look c"
    and miss_err: "inv c \<Longrightarrow> look c k = None \<Longrightarrow> fetch k = Err e \<Longrightarrow>
      access k fetch removed c = Some (Err e, c)"
    and miss_none: "inv c \<Longrightarrow> look c k = None \<Longrightarrow> fetch k = Ok None \<Longrightarrow>
      access k fetch removed c = Some (Ok None, c)"
    and miss_some: "inv c \<Longrightarrow> look c k = None \<Longrightarrow> fetch k = Ok (Some v) \<Longrightarrow> (\<And>k'. removed k' = Ok ()) \<Longrightarrow>
      \<exists>r c'. access k fetch removed c = Some (Ok (Some r), c') \<and> deref c' r = Some v \<and> inv c' \<and>
        look c' \<subseteq>\<^sub>m (look c)(k \<mapsto> v)"
begin

text \<open>
  \<open>sound good c\<close>: the cache holds only good values. When \<^verbatim>\<open>fetch\<close> delivers only good values, an access
  returns a good value and the cache stays sound, whether the entry was cached or not.
\<close>

definition sound :: "('k \<Rightarrow> 'v \<Rightarrow> bool) \<Rightarrow> 'c \<Rightarrow> bool" where
  "sound good c \<longleftrightarrow> (\<forall>k v. look c k = Some v \<longrightarrow> good k v)"

lemma sound_le: "sound good c \<Longrightarrow> good k v \<Longrightarrow> look c' \<subseteq>\<^sub>m (look c)(k \<mapsto> v) \<Longrightarrow> sound good c'"
  unfolding sound_def map_le_def dom_def by (metis (mono_tags, lifting) fun_upd_apply mem_Collect_eq option.distinct(1) option.inject)

lemma sound_sub: "sound good c \<Longrightarrow> look c' \<subseteq>\<^sub>m look c \<Longrightarrow> sound good c'"
  by (auto simp: sound_def map_le_def dom_def)

lemma access_sound:
  assumes "inv c" "sound good c" "\<And>k'. removed k' = Ok ()" and good: "\<And>v. fetch k = Ok (Some v) \<Longrightarrow> good k v"
  obtains (found) a v c' where "access k fetch removed c = Some (Ok (Some a), c')" "deref c' a = Some v" "good k v"
      "inv c'" "sound good c'"
    | (absent) "access k fetch removed c = Some (Ok None, c)" "fetch k = Ok None"
    | (failed) e where "access k fetch removed c = Some (Err e, c)" "fetch k = Err e"
proof (cases "look c k")
  case (Some v)
  from hit [OF assms(1) Some, of fetch removed] assms(2) Some found show thesis
    by (meson sound_def sound_sub)
next
  case None
  consider e where "fetch k = Err e" | "fetch k = Ok None" | v where "fetch k = Ok (Some v)"
    by (metis option.exhaust sum.exhaust)
  then show thesis
  proof cases
    case 1
    then show thesis using miss_err [OF assms(1) None] failed by blast
  next
    case 2
    then show thesis using miss_none [OF assms(1) None] absent by blast
  next
    case (3 v)
    from miss_some [of c k fetch v removed, OF assms(1) None 3 assms(3)] show thesis
      using found good [OF 3] sound_le [OF assms(2) good [OF 3]] by blast
  qed
qed

end

lemma spec_put_le:
  assumes "distinct (map fst es)" "map_of es k = Some v \<or> map_of es k = None"
  shows "map_of (spec_put cap k v es) \<subseteq>\<^sub>m (map_of es)(k \<mapsto> v)"
proof -
  have t: "map_of (take n xs) \<subseteq>\<^sub>m map_of xs" if "distinct (map fst xs)" for n and xs :: "('a \<times> 'b) list"
  proof -
    have "distinct (map fst (take n xs))" using that by (simp add: take_map [symmetric])
    then show ?thesis using that by (auto simp: map_le_def dest: in_set_takeD)
  qed
  have "distinct (map fst ((k, v) # filter (\<lambda>e. fst e \<noteq> k) es))"
    using assms(1) by (auto simp: distinct_map_filter)
  from t [OF this, of cap] have
    "map_of (spec_put cap k v es) \<subseteq>\<^sub>m (map_of (filter (\<lambda>e. fst e \<noteq> k) es))(k \<mapsto> v)"
    by (simp add: spec_put_def)
  moreover have "map_of (filter (\<lambda>e. fst e \<noteq> k) es) x = map_of es x" if "x \<noteq> k" for x
    using that by (induction es) auto
  then have "(map_of (filter (\<lambda>e. fst e \<noteq> k) es))(k \<mapsto> v) = (map_of es)(k \<mapsto> v)"
    by (auto simp: fun_eq_iff)
  ultimately show ?thesis by simp
qed

interpretation lru: fetch_cache lru_access lru_inv "\<lambda>c. map_of (entries c)" deref_value
proof unfold_locales
  fix c :: "('a, 'c) LruCache" and k v and fetch :: "'a \<Rightarrow> ('b, 'c option) result" and removed
  assume c: "lru_inv c"
  note d = lru_inv_distinct [OF c]
  from lru_access_post [OF c, of k fetch removed] obtain r c' where
    acc: "lru_access k fetch removed c = Some (r, c')" "lru_inv c'" and
    post: "(case map_of (entries c) k of
       Some v \<Rightarrow> (\<exists>a. r = Ok (Some a) \<and> deref_value c' a = Some v) \<and>
                 entries c' = spec_put (capacity c) k v (entries c)
     | None \<Rightarrow>
       (case fetch k of
          Inl e \<Rightarrow> r = Err e \<and> c' = c
        | Inr None \<Rightarrow> r = Ok None \<and> c' = c
        | Inr (Some v) \<Rightarrow> entries c' = spec_put (capacity c) k v (entries c) \<and>
            (case evict_result removed (spec_evicted (capacity c) k (entries c)) of
               Inl e \<Rightarrow> r = Err e
             | Inr _ \<Rightarrow> (\<exists>a. r = Ok (Some a) \<and> deref_value c' a = Some v))))" by blast
  {
    assume "map_of (entries c) k = Some v"
    moreover from this have "(map_of (entries c))(k \<mapsto> v) = map_of (entries c)" by auto
    ultimately show "\<exists>r c'. lru_access k fetch removed c = Some (Ok (Some r), c') \<and>
        deref_value c' r = Some v \<and> lru_inv c' \<and> map_of (entries c') \<subseteq>\<^sub>m map_of (entries c)"
      using acc post spec_put_le [OF d, of k v "capacity c"] by auto
  next
    fix e assume "map_of (entries c) k = None" "fetch k = Err e"
    then show "lru_access k fetch removed c = Some (Err e, c)"
      using acc post by (simp del: map_of_eq_None_iff)
  next
    assume "map_of (entries c) k = None" "fetch k = Ok None"
    then show "lru_access k fetch removed c = Some (Ok None, c)"
      using acc post by (simp del: map_of_eq_None_iff)
  next
    assume a: "map_of (entries c) k = None" "fetch k = Ok (Some v)" "\<And>k'. removed k' = Ok ()"
    then have "evict_result removed (spec_evicted (capacity c) k (entries c)) = Ok ()"
      by (simp add: evict_result_def split: option.splits)
    then show "\<exists>r c'. lru_access k fetch removed c = Some (Ok (Some r), c') \<and>
        deref_value c' r = Some v \<and> lru_inv c' \<and> map_of (entries c') \<subseteq>\<^sub>m (map_of (entries c))(k \<mapsto> v)"
      using a acc post spec_put_le [OF d, of k v "capacity c"] by (auto simp del: map_of_eq_None_iff)
  }
qed

end
