(* ===== verification/Chunker.thy ===== *)
theory Chunker
  imports Prelude
begin

text \<open>
  The content-defined chunker of \<^verbatim>\<open>pbs-datastore/src/chunker.rs\<close>: the Buzhash sliding-window chunker
  \<^verbatim>\<open>ChunkerImpl\<close>, and \<^verbatim>\<open>PayloadChunker\<close>, which prefers boundaries suggested over a channel. The
  fields that the code stores but never reads (\<^verbatim>\<open>_chunk_size_avg\<close> and the floating-point
  \<^verbatim>\<open>_discriminator\<close>) are left out. The theorems show that the rolling hash is the hash of the last 64
  bytes, that boundaries do not depend on how the data is split into buffers, and that chunk sizes stay
  in range.
\<close>

section \<open>State\<close>

definition CA_CHUNKER_WINDOW_SIZE :: nat where
  "CA_CHUNKER_WINDOW_SIZE = 64"

record Context =
  base :: nat
  total :: nat

record ChunkerImpl =
  h :: u32
  window_size :: nat
  chunk_size :: nat
  chunk_size_min :: nat
  chunk_size_max :: nat
  break_test_mask :: u32
  break_test_minimum :: u32
  window :: "u8 list"

definition BUZHASH_TABLE :: "u32 list" where
  "BUZHASH_TABLE = [
    0x458be752, 0xc10748cc, 0xfbbcdbb8, 0x6ded5b68, 0xb10a82b5, 0x20d75648, 0xdfc5665f, 0xa8428801,
    0x7ebf5191, 0x841135c7, 0x65cc53b3, 0x280a597c, 0x16f60255, 0xc78cbc3e, 0x294415f5, 0xb938d494,
    0xec85c4e6, 0xb7d33edc, 0xe549b544, 0xfdeda5aa, 0x882bf287, 0x3116737c, 0x05569956, 0xe8cc1f68,
    0x0806ac5e, 0x22a14443, 0x15297e10, 0x50d090e7, 0x4ba60f6f, 0xefd9f1a7, 0x5c5c885c, 0x82482f93,
    0x9bfd7c64, 0x0b3e7276, 0xf2688e77, 0x8fad8abc, 0xb0509568, 0xf1ada29f, 0xa53efdfe, 0xcb2b1d00,
    0xf2a9e986, 0x6463432b, 0x95094051, 0x5a223ad2, 0x9be8401b, 0x61e579cb, 0x1a556a14, 0x5840fdc2,
    0x9261ddf6, 0xcde002bb, 0x52432bb0, 0xbf17373e, 0x7b7c222f, 0x2955ed16, 0x9f10ca59, 0xe840c4c9,
    0xccabd806, 0x14543f34, 0x1462417a, 0x0d4a1f9c, 0x087ed925, 0xd7f8f24c, 0x7338c425, 0xcf86c8f5,
    0xb19165cd, 0x9891c393, 0x325384ac, 0x0308459d, 0x86141d7e, 0xc922116a, 0xe2ffa6b6, 0x53f52aed,
    0x2cd86197, 0xf5b9f498, 0xbf319c8f, 0xe0411fae, 0x977eb18c, 0xd8770976, 0x9833466a, 0xc674df7f,
    0x8c297d45, 0x8ca48d26, 0xc49ed8e2, 0x7344f874, 0x556f79c7, 0x6b25eaed, 0xa03e2b42, 0xf68f66a4,
    0x8e8b09a2, 0xf2e0e62a, 0x0d3a9806, 0x9729e493, 0x8c72b0fc, 0x160b94f6, 0x450e4d3d, 0x7a320e85,
    0xbef8f0e1, 0x21d73653, 0x4e3d977a, 0x1e7b3929, 0x1cc6c719, 0xbe478d53, 0x8d752809, 0xe6d8c2c6,
    0x275f0892, 0xc8acc273, 0x4cc21580, 0xecc4a617, 0xf5f7be70, 0xe795248a, 0x375a2fe9, 0x425570b6,
    0x8898dcf8, 0xdc2d97c4, 0x0106114b, 0x364dc22f, 0x1e0cad1f, 0xbe63803c, 0x5f69fac2, 0x4d5afa6f,
    0x1bc0dfb5, 0xfb273589, 0x0ea47f7b, 0x3c1c2b50, 0x21b2a932, 0x6b1223fd, 0x2fe706a8, 0xf9bd6ce2,
    0xa268e64e, 0xe987f486, 0x3eacf563, 0x1ca2018c, 0x65e18228, 0x2207360a, 0x57cf1715, 0x34c37d2b,
    0x1f8f3cde, 0x93b657cf, 0x31a019fd, 0xe69eb729, 0x8bca7b9b, 0x4c9d5bed, 0x277ebeaf, 0xe0d8f8ae,
    0xd150821c, 0x31381871, 0xafc3f1b0, 0x927db328, 0xe95effac, 0x305a47bd, 0x426ba35b, 0x1233af3f,
    0x686a5b83, 0x50e072e5, 0xd9d3bb2a, 0x8befc475, 0x487f0de6, 0xc88dff89, 0xbd664d5e, 0x971b5d18,
    0x63b14847, 0xd7d3c1ce, 0x7f583cf3, 0x72cbcb09, 0xc0d0a81c, 0x7fa3429b, 0xe9158a1b, 0x225ea19a,
    0xd8ca9ea3, 0xc763b282, 0xbb0c6341, 0x020b8293, 0xd4cd299d, 0x58cfa7f8, 0x91b4ee53, 0x37e4d140,
    0x95ec764c, 0x30f76b06, 0x5ee68d24, 0x679c8661, 0xa41979c2, 0xf2b61284, 0x4fac1475, 0x0adb49f9,
    0x19727a23, 0x15a7e374, 0xc43a18d5, 0x3fb1aa73, 0x342fc615, 0x924c0793, 0xbee2d7f0, 0x8a279de9,
    0x4aa2d70c, 0xe24dd37f, 0xbe862c0b, 0x177c22c2, 0x5388e5ee, 0xcd8a7510, 0xf901b4fd, 0xdbc13dbc,
    0x6c0bae5b, 0x64efe8c7, 0x48b02079, 0x80331a49, 0xca3d8ae6, 0xf3546190, 0xfed7108b, 0xc49b941b,
    0x32baf4a9, 0xeb833a4a, 0x88a3f1a5, 0x3a91ce0a, 0x3cc27da1, 0x7112e684, 0x4a3096b1, 0x3794574c,
    0xa3c8b6f3, 0x1d213941, 0x6e0a2e00, 0x233479f1, 0x0f4cd82f, 0x6093edd2, 0x5d7d209e, 0x464fe319,
    0xd4dcac9e, 0x0db845cb, 0xfb5e4bc3, 0xe0256ce1, 0x09fb4ed1, 0x0914be1e, 0xa5bdb2c3, 0xc6eb57bb,
    0x30320350, 0x3f397e91, 0xa67791bc, 0x86bc0e2c, 0xefa0a7e2, 0xe9ff7543, 0xe733612c, 0xd185897b,
    0x329e5388, 0x91dd236b, 0x2ecb0d93, 0xf4d82a3d, 0x35b5c03f, 0xe4e606f0, 0x05b21843, 0x37b45964,
    0x5eff22f4, 0x6027f4cc, 0x77178b3c, 0xae507131, 0x7bf7cabc, 0xf9c18d66, 0x593ade65, 0xd95ddf11]"

definition buz_entry :: "u8 \<Rightarrow> u32" where
  "buz_entry b = BUZHASH_TABLE ! unat b"

text \<open>\<^verbatim>\<open>rotate_left(1)\<close> on a \<^verbatim>\<open>u32\<close>.\<close>

definition rotl1 :: "u32 \<Rightarrow> u32" where
  "rotl1 w = word_rotl 1 w"

section \<open>ChunkerImpl\<close>

fun count_ones :: "nat \<Rightarrow> nat" where
  "count_ones n = (if n = 0 then 0 else n mod 2 + count_ones (n div 2))"

declare count_ones.simps [simp del]

text \<open>
  \<open>None\<close> is the panic on a chunk size that is no power of two. \<^verbatim>\<open>as u32\<close> keeps the low 32 bits, the
  subtraction wraps, and \<^verbatim>\<open><<\<close> drops the bits above the word.
\<close>

definition ChunkerImpl_new :: "nat \<Rightarrow> ChunkerImpl option" where
  "ChunkerImpl_new chunk_size_avg =
     (if count_ones chunk_size_avg \<noteq> 1 then None
      else let mask = word_of_nat (chunk_size_avg * 2 - 1) in
        Some \<lparr>h = 0, window_size = 0, chunk_size = 0,
          chunk_size_min = chunk_size_avg div 4,
          chunk_size_max = (chunk_size_avg * 4) mod 2 ^ 64,
          break_test_mask = mask, break_test_minimum = mask - 2,
          window = replicate CA_CHUNKER_WINDOW_SIZE 0\<rparr>)"

definition shall_break :: "ChunkerImpl \<Rightarrow> bool" where
  "shall_break c =
     (if chunk_size c \<ge> chunk_size_max c then True
      else if chunk_size c < chunk_size_min c then False
      else h c AND break_test_mask c \<ge> break_test_minimum c)"

definition chunker_reset :: "ChunkerImpl \<Rightarrow> ChunkerImpl" where
  "chunker_reset c = c\<lparr>h := 0, chunk_size := 0, window_size := 0\<rparr>"

text \<open>The first loop of \<^verbatim>\<open>scan\<close>: copy bytes into the window while it is not full.\<close>

fun fill_window :: "u8 list \<Rightarrow> ChunkerImpl \<Rightarrow> ChunkerImpl" where
  "fill_window [] c = c"
| "fill_window (byte # data) c =
     fill_window data
       (c\<lparr>window := (window c)[window_size c := byte],
          h := rotl1 (h c) XOR buz_entry byte,
          window_size := Suc (window_size c)\<rparr>)"

text \<open>One iteration of the second loop up to the boundary test.\<close>

definition roll_byte :: "u8 \<Rightarrow> ChunkerImpl \<Rightarrow> ChunkerImpl" where
  "roll_byte enter c =
     (let idx = chunk_size c AND 63; leave = window c ! idx in
      c\<lparr>h := rotl1 (h c) XOR buz_entry leave XOR buz_entry enter,
        chunk_size := Suc (chunk_size c),
        window := (window c)[idx := enter]\<rparr>)"

fun roll_window :: "u8 list \<Rightarrow> nat \<Rightarrow> ChunkerImpl \<Rightarrow> nat \<times> ChunkerImpl" where
  "roll_window [] pos c = (0, c)"
| "roll_window (enter # data) pos c =
     (let c' = roll_byte enter c in
      if shall_break c' then (Suc pos, chunker_reset c') else roll_window data (Suc pos) c')"

definition chunker_scan :: "u8 list \<Rightarrow> Context \<Rightarrow> ChunkerImpl \<Rightarrow> nat \<times> ChunkerImpl" where
  "chunker_scan data ctx c =
     (let window_len = length (window c) in
      if window_size c < window_len then
        (let need = window_len - window_size c;
             copy_len = (if need < length data then need else length data);
             c1 = fill_window (take copy_len data) c;
             c2 = c1\<lparr>chunk_size := chunk_size c1 + copy_len\<rparr> in
         if window_size c2 < window_len then (0, c2)
         else roll_window (drop copy_len data) copy_len c2)
      else roll_window data 0 c)"

section \<open>PayloadChunker\<close>

text \<open>
  The channel of suggested boundaries is the list of the values that \<^verbatim>\<open>try_recv\<close> finds, in order.
\<close>

record PayloadChunker =
  chunker :: ChunkerImpl
  current_suggested :: "nat option"
  suggested_boundaries :: "nat list"

definition PayloadChunker_new :: "nat \<Rightarrow> nat list \<Rightarrow> PayloadChunker option" where
  "PayloadChunker_new avg q =
     map_option (\<lambda>c. \<lparr>chunker = c, current_suggested = None, suggested_boundaries = q\<rparr>)
       (ChunkerImpl_new avg)"

definition payload_inner_scan ::
  "u8 list \<Rightarrow> Context \<Rightarrow> PayloadChunker \<Rightarrow> nat \<times> PayloadChunker" where
  "payload_inner_scan data ctx p =
     (let (k, c) = chunker_scan data ctx (chunker p) in (k, p\<lparr>chunker := c\<rparr>))"

text \<open>The \<^verbatim>\<open>loop\<close> of \<^verbatim>\<open>PayloadChunker::scan\<close>; \<open>pos\<close> is \<^verbatim>\<open>ctx.total - data.len()\<close>.\<close>

function payload_loop ::
  "u8 list \<Rightarrow> Context \<Rightarrow> nat \<Rightarrow> PayloadChunker \<Rightarrow> nat \<times> PayloadChunker" where
  "payload_loop data ctx pos p =
     (case current_suggested p of
        Some boundary \<Rightarrow>
          (if boundary < wrapping_add (base ctx) pos then
             payload_loop data ctx pos (p\<lparr>current_suggested := None\<rparr>)
           else if boundary > wrapping_add (base ctx) (total ctx) then
             payload_inner_scan data ctx p
           else
             (let csize = wrapping_sub boundary (base ctx) in
              if csize < chunk_size_min (chunker p) then
                payload_loop data ctx pos (p\<lparr>current_suggested := None\<rparr>)
              else if csize \<le> chunk_size_max (chunker p) then
                (let len = wrapping_sub csize pos; p' = p\<lparr>current_suggested := None\<rparr> in
                 if len = 0 then payload_inner_scan data ctx p'
                 else (len, p'\<lparr>chunker := chunker_reset (chunker p')\<rparr>))
              else payload_inner_scan data ctx p))
      | None \<Rightarrow>
          (case suggested_boundaries p of
             boundary # q \<Rightarrow>
               payload_loop data ctx pos
                 (p\<lparr>current_suggested := Some boundary, suggested_boundaries := q\<rparr>)
           | [] \<Rightarrow> payload_inner_scan data ctx p))"
  by pat_completeness auto
termination
  by (relation "measure (\<lambda>(data, ctx, pos, p).
        2 * length (suggested_boundaries p) + (if current_suggested p = None then 0 else 1))") auto

declare payload_loop.simps [simp del]

text \<open>\<open>None\<close> is the failed assertion \<^verbatim>\<open>ctx.total >= data.len()\<close>.\<close>

definition payload_scan ::
  "u8 list \<Rightarrow> Context \<Rightarrow> PayloadChunker \<Rightarrow> (nat \<times> PayloadChunker) option" where
  "payload_scan data ctx p =
     (if total ctx \<ge> length data
      then Some (payload_loop data ctx (total ctx - length data) p) else None)"

definition payload_reset :: "PayloadChunker \<Rightarrow> PayloadChunker" where
  "payload_reset p = p\<lparr>chunker := chunker_reset (chunker p)\<rparr>"


section \<open>The rolling hash\<close>

text \<open>The reference: the hash of a byte sequence from scratch.\<close>

definition buz :: "u8 list \<Rightarrow> u32" where
  "buz bs = foldl (\<lambda>a b. rotl1 a XOR buz_entry b) 0 bs"

lemma buz_snoc: "buz (bs @ [b]) = rotl1 (buz bs) XOR buz_entry b"
  by (simp add: buz_def)

lemma foldl_buz: "foldl (\<lambda>a b. rotl1 a XOR buz_entry b) a bs = (rotl1 ^^ length bs) a XOR buz bs"
proof (induction bs rule: rev_induct)
  case (snoc b bs)
  then show ?case by (simp add: buz_snoc rotl1_def word_rot_logs ac_simps)
qed (simp add: buz_def)

lemma rotl_funpow_bit:
  fixes w :: u32
  shows "n < 32 \<Longrightarrow> bit ((rotl1 ^^ k) w) n \<longleftrightarrow> bit w ((n + 31 * k) mod 32)"
proof (induction k arbitrary: n)
  case (Suc k)
  have "bit ((rotl1 ^^ Suc k) w) n = bit ((rotl1 ^^ k) w) ((n + 31) mod 32)"
    using Suc.prems by (simp add: rotl1_def bit_word_rotl_iff)
  also have "\<dots> = bit w (((n + 31) mod 32 + 31 * k) mod 32)" by (rule Suc.IH) simp
  also have "((n + 31) mod 32 + 31 * k) mod 32 = (n + 31 * Suc k) mod 32"
    by (simp add: mod_add_left_eq add.assoc)
  finally show ?case .
qed simp

lemma rotl_64: "(rotl1 ^^ 64) (w :: u32) = w"
proof (rule bit_word_eqI)
  fix n assume n: "n < LENGTH(32)"
  have "(n + 62 * 32) mod 32 = n mod 32" by (rule mod_mult_self1)
  with n have "(n + 31 * 64) mod 32 = n" by simp
  then show "bit ((rotl1 ^^ 64) w) n = bit w n" using n rotl_funpow_bit [of n 64 w] by (simp del: funpow.simps)
qed

text \<open>A byte leaves the hash 64 bytes later without a trace.\<close>

lemma buz_drop_first:
  assumes "length bs = 64"
  shows "buz (b # bs) = buz_entry b XOR buz bs"
  using foldl_buz [of "buz_entry b" bs] assms by (simp add: buz_def rotl_64 rotl1_def)

lemma xor_cancel: "(a :: u32) XOR (a XOR b) = b"
  by (simp flip: xor.assoc)

lemma and_63: "(n::nat) AND 63 = n mod 64"
  using take_bit_eq_mask [of 6 n] by (simp add: take_bit_eq_mod mask_eq_exp_minus_1)

section \<open>What the chunker state means\<close>

text \<open>
  \<open>repr c bs\<close>: since the last boundary the chunker has consumed \<open>bs\<close>; the window is a ring buffer of
  the last 64 bytes, and the hash is that of the bytes in the window.
\<close>

definition repr :: "ChunkerImpl \<Rightarrow> u8 list \<Rightarrow> bool" where
  "repr c bs \<longleftrightarrow> length (window c) = 64 \<and> chunk_size c = length bs \<and> window_size c = min 64 (length bs) \<and>
     (if length bs \<le> 64 then take (length bs) (window c) = bs \<and> h c = buz bs
      else (\<forall>i<64. window c ! ((length bs + i) mod 64) = bs ! (length bs - 64 + i)) \<and>
           h c = buz (drop (length bs - 64) bs))"

lemma repr_reset: "length (window c) = 64 \<Longrightarrow> repr (chunker_reset c) []"
  by (simp add: repr_def chunker_reset_def buz_def)

lemma repr_new: "ChunkerImpl_new avg = Some c \<Longrightarrow> repr c []"
  by (auto simp: ChunkerImpl_new_def repr_def buz_def CA_CHUNKER_WINDOW_SIZE_def Let_def split: if_splits)

text \<open>The window of a full chunker, read from the oldest byte.\<close>

lemma repr_full:
  assumes "repr c bs" "64 \<le> length bs" "i < 64"
  shows "window c ! ((length bs + i) mod 64) = bs ! (length bs - 64 + i)"
proof (cases "length bs = 64")
  case True
  then have "window c = bs" using assms(1) by (auto simp: repr_def)
  then show ?thesis using True assms(3) by simp
next
  case False
  then show ?thesis using assms by (auto simp: repr_def)
qed

lemma repr_hash: "repr c bs \<Longrightarrow> h c = buz (drop (length bs - 64) bs)"
  by (auto simp: repr_def split: if_splits)


lemma repr_fill_byte:
  assumes "repr c bs" "length bs < 64"
  shows "repr (c\<lparr>window := (window c)[window_size c := b], h := rotl1 (h c) XOR buz_entry b,
      window_size := Suc (window_size c), chunk_size := Suc (chunk_size c)\<rparr>) (bs @ [b])"
  using assms by (auto simp: repr_def buz_snoc take_Suc_conv_app_nth)

lemma fill_window_frame:
  "chunk_size (fill_window data c) = chunk_size c" "chunk_size_min (fill_window data c) = chunk_size_min c"
  "chunk_size_max (fill_window data c) = chunk_size_max c"
  "break_test_mask (fill_window data c) = break_test_mask c"
  "break_test_minimum (fill_window data c) = break_test_minimum c"
  by (induction data arbitrary: c) auto

lemma fill_window_chunk_size:
  "fill_window data (c\<lparr>chunk_size := n\<rparr>) = (fill_window data c)\<lparr>chunk_size := n\<rparr>"
proof (induction data arbitrary: c)
  case (Cons b data)
  show ?case
    using Cons.IH [of "c\<lparr>window := (window c)[window_size c := b],
      h := rotl1 (h c) XOR buz_entry b, window_size := Suc (window_size c)\<rparr>"] by (cases c) simp
qed simp

lemma repr_fill:
  assumes "repr c bs" "length bs + length data \<le> 64"
  shows "repr ((fill_window data c)\<lparr>chunk_size := chunk_size c + length data\<rparr>) (bs @ data)"
  using assms
proof (induction data arbitrary: c bs)
  case (Cons b data)
  let ?c = "c\<lparr>window := (window c)[window_size c := b], h := rotl1 (h c) XOR buz_entry b,
      window_size := Suc (window_size c)\<rparr>"
  have "repr (?c\<lparr>chunk_size := Suc (chunk_size c)\<rparr>) (bs @ [b])"
    using repr_fill_byte [OF Cons.prems(1), of b] Cons.prems(2) by simp
  from Cons.IH [OF this] show ?case
    using Cons.prems(2) by (simp add: fill_window_chunk_size)
qed simp

lemma repr_roll:
  assumes "repr c bs" "64 \<le> length bs"
  shows "repr (roll_byte b c) (bs @ [b])"
proof -
  let ?n = "length bs"
  have w: "length (window c) = 64" "chunk_size c = ?n" "window_size c = 64"
    using assms by (auto simp: repr_def)
  have leave: "window c ! (?n mod 64) = bs ! (?n - 64)"
    using repr_full [OF assms, of 0] by simp
  have dr: "drop (?n - 64) bs = bs ! (?n - 64) # drop (Suc (?n - 64)) bs"
    using assms(2) by (simp add: Cons_nth_drop_Suc)
  have "buz (drop (?n - 64) bs @ [b]) =
      buz_entry (bs ! (?n - 64)) XOR buz (drop (Suc (?n - 64)) bs @ [b])"
    unfolding dr using assms(2) by (simp add: buz_drop_first)
  then have "h (roll_byte b c) = buz (drop (Suc (?n - 64)) bs @ [b])"
    using repr_hash [OF assms(1)] w leave
    by (simp add: roll_byte_def Let_def and_63 buz_snoc xor_cancel ac_simps)
  then have hash: "h (roll_byte b c) = buz (drop (Suc ?n - 64) (bs @ [b]))"
    using assms(2) Suc_diff_le [of 64 "length bs"] by simp
  have win: "(window c)[?n mod 64 := b] ! ((Suc ?n + i) mod 64) = (bs @ [b]) ! (Suc ?n - 64 + i)"
    if i: "i < 64" for i
  proof (cases "i = 63")
    case True
    have "Suc ?n + 63 = ?n + 64" by simp
    then have "(Suc ?n + 63) mod 64 = ?n mod 64" by (simp only: mod_add_self2)
    then show ?thesis using True w assms(2) by simp
  next
    case False
    then have i': "Suc i < 64" using i by simp
    have "(?n + Suc i) mod 64 \<noteq> ?n mod 64"
    proof
      assume "(?n + Suc i) mod 64 = ?n mod 64"
      then have "Suc i mod 64 = 0" by (metis add_diff_cancel_left' mod_eq_dvd_iff_nat le_add1 dvd_imp_mod_0)
      then show False using i' by simp
    qed
    moreover have "Suc ?n - 64 + i < ?n" "Suc ?n - 64 + i = ?n - 64 + Suc i" "Suc ?n + i = ?n + Suc i"
      using i' assms(2) by simp_all
    ultimately show ?thesis
      using repr_full [OF assms i'] w(1) by (simp only: nth_append nth_list_update_neq if_True)
  qed
  show ?thesis
    using w hash win assms(2)
    by (auto simp: repr_def roll_byte_def Let_def and_63)
qed


section \<open>The reference: where a byte sequence is cut\<close>

text \<open>
  \<open>is_cut c xs\<close>: a chunk with the contents \<open>xs\<close> ends here. Only sizes above the window are tested,
  and the hash part looks at the last 64 bytes only.
\<close>

definition is_cut :: "ChunkerImpl \<Rightarrow> u8 list \<Rightarrow> bool" where
  "is_cut c xs \<longleftrightarrow> 64 < length xs \<and> (chunk_size_max c \<le> length xs \<or>
     chunk_size_min c \<le> length xs \<and>
     break_test_minimum c \<le> buz (drop (length xs - 64) xs) AND break_test_mask c)"

fun cut_from :: "(u8 list \<Rightarrow> bool) \<Rightarrow> u8 list \<Rightarrow> u8 list \<Rightarrow> nat option" where
  "cut_from P bs [] = None"
| "cut_from P bs (d # ds) =
     (if P (bs @ [d]) then Some 1 else map_option Suc (cut_from P (bs @ [d]) ds))"

lemma cut_from_append:
  "cut_from P bs (xs @ ys) =
     (case cut_from P bs xs of Some k \<Rightarrow> Some k
      | None \<Rightarrow> map_option (\<lambda>k. length xs + k) (cut_from P (bs @ xs) ys))"
proof (induction xs arbitrary: bs)
  case Nil
  show ?case by (cases "cut_from P bs ys") simp_all
next
  case (Cons x xs)
  show ?case
    using Cons.IH [of "bs @ [x]"]
    by (cases "cut_from P (bs @ [x]) xs"; cases "cut_from P (bs @ x # xs) ys") simp_all
qed

lemma cut_from_Some:
  "cut_from P bs ds = Some k \<Longrightarrow> 0 < k \<and> k \<le> length ds \<and> P (bs @ take k ds) \<and>
     (\<forall>j. 0 < j \<and> j < k \<longrightarrow> \<not> P (bs @ take j ds))"
proof (induction ds arbitrary: bs k)
  case (Cons d ds)
  show ?case
  proof (cases "P (bs @ [d])")
    case True
    then show ?thesis using Cons.prems by auto
  next
    case False
    then obtain k' where k': "cut_from P (bs @ [d]) ds = Some k'" "k = Suc k'" using Cons.prems by auto
    have "\<not> P (bs @ take j (d # ds))" if "0 < j" "j < k" for j
      using that Cons.IH [OF k'(1)] k'(2) False by (cases j; cases "j - 1"; auto)
    then show ?thesis using Cons.IH [OF k'(1)] k'(2) by auto
  qed
qed simp

lemma cut_from_None: "cut_from P bs ds = None \<Longrightarrow> 0 < j \<Longrightarrow> j \<le> length ds \<Longrightarrow> \<not> P (bs @ take j ds)"
proof (induction ds arbitrary: bs j)
  case (Cons d ds)
  then have nP: "\<not> P (bs @ [d])" and rest: "cut_from P (bs @ [d]) ds = None"
    by (auto split: if_splits)
  show ?case
  proof (cases "j = 1")
    case False
    then obtain m where m: "j = Suc m" "0 < m" using Cons.prems(2) by (cases j) auto
    with Cons.IH [OF rest m(2)] Cons.prems(3) show ?thesis by simp
  qed (use nP in simp)
qed simp

definition same_cfg :: "ChunkerImpl \<Rightarrow> ChunkerImpl \<Rightarrow> bool" where
  "same_cfg c c' \<longleftrightarrow> chunk_size_min c' = chunk_size_min c \<and> chunk_size_max c' = chunk_size_max c \<and>
     break_test_mask c' = break_test_mask c \<and> break_test_minimum c' = break_test_minimum c"

lemma same_cfg_is_cut: "same_cfg c c' \<Longrightarrow> is_cut c' = is_cut c"
  by (auto simp: same_cfg_def is_cut_def fun_eq_iff)

lemma same_cfg_trans: "same_cfg a b \<Longrightarrow> same_cfg b c \<Longrightarrow> same_cfg a c"
  by (simp add: same_cfg_def)

lemma shall_break_is_cut: "repr c bs \<Longrightarrow> 64 < length bs \<Longrightarrow> shall_break c \<longleftrightarrow> is_cut c bs"
  using repr_hash [of c bs] by (auto simp: shall_break_def is_cut_def repr_def)

definition scan_post :: "ChunkerImpl \<Rightarrow> u8 list \<Rightarrow> u8 list \<Rightarrow> nat \<Rightarrow> nat \<times> ChunkerImpl \<Rightarrow> bool" where
  "scan_post c bs data pos r \<longleftrightarrow> same_cfg c (snd r) \<and>
     (case cut_from (is_cut c) bs data of
        None \<Rightarrow> fst r = 0 \<and> repr (snd r) (bs @ data)
      | Some k \<Rightarrow> fst r = pos + k \<and> repr (snd r) [])"

lemma roll_window_post:
  assumes "repr c bs" "64 \<le> length bs"
  shows "scan_post c bs data pos (roll_window data pos c)"
  using assms
proof (induction data arbitrary: c bs pos)
  case Nil
  then show ?case by (simp add: scan_post_def same_cfg_def)
next
  case (Cons d ds)
  let ?c = "roll_byte d c"
  have r: "repr ?c (bs @ [d])" by (rule repr_roll [OF Cons.prems])
  have cfg: "same_cfg c ?c" by (simp add: same_cfg_def roll_byte_def Let_def)
  have brk: "shall_break ?c \<longleftrightarrow> is_cut c (bs @ [d])"
    using shall_break_is_cut [OF r] same_cfg_is_cut [OF cfg] Cons.prems(2) by simp
  show ?case
  proof (cases "shall_break ?c")
    case True
    have "repr (chunker_reset ?c) []" using r by (intro repr_reset) (simp add: repr_def)
    then show ?thesis using True brk cfg by (simp add: scan_post_def same_cfg_def chunker_reset_def)
  next
    case False
    have "scan_post ?c (bs @ [d]) ds (Suc pos) (roll_window ds (Suc pos) ?c)"
      using Cons.IH [OF r] Cons.prems(2) by simp
    then show ?thesis
      using False brk same_cfg_is_cut [OF cfg] same_cfg_trans [OF cfg]
      by (auto simp: scan_post_def split: option.splits)
  qed
qed

lemma cut_from_small: "length bs + length data \<le> 64 \<Longrightarrow> cut_from (is_cut c) bs data = None"
  by (induction data arbitrary: bs) (auto simp: is_cut_def)

lemma scan_post_scan:
  assumes "repr c bs"
  shows "scan_post c bs data 0 (chunker_scan data ctx c)"
proof (cases "window_size c < length (window c)")
  case False
  then have "64 \<le> length bs" using assms by (auto simp: repr_def)
  then show ?thesis using False roll_window_post [OF assms, of data 0] by (simp add: chunker_scan_def)
next
  case True
  then have lt: "length bs < 64" and w: "length (window c) = 64" "window_size c = length bs"
    using assms by (auto simp: repr_def)
  define n where "n = (if 64 - length bs < length data then 64 - length bs else length data)"
  define c2 where "c2 = (fill_window (take n data) c)\<lparr>chunk_size := chunk_size c + n\<rparr>"
  have n: "n \<le> length data" "length bs + n \<le> 64" using lt by (auto simp: n_def)
  have r2: "repr c2 (bs @ take n data)"
    using repr_fill [OF assms, of "take n data"] n by (simp add: c2_def)
  have cfg: "same_cfg c c2" by (simp add: c2_def same_cfg_def fill_window_frame)
  have scan: "chunker_scan data ctx c =
      (if window_size c2 < 64 then (0, c2) else roll_window (drop n data) n c2)"
    using True w by (simp add: chunker_scan_def Let_def c2_def n_def fill_window_frame)
  have pre: "cut_from (is_cut c) bs (take n data) = None"
    using n by (intro cut_from_small) simp
  show ?thesis
  proof (cases "length bs + n < 64")
    case True
    then have "take n data = data" by (simp add: n_def split: if_splits)
    then show ?thesis
      using True scan r2 pre cfg n by (auto simp: scan_post_def repr_def)
  next
    case False
    then have len: "length (bs @ take n data) = 64" using n by simp
    then have "window_size c2 = 64" using r2 by (simp add: repr_def)
    moreover have "scan_post c2 (bs @ take n data) (drop n data) n (roll_window (drop n data) n c2)"
      using roll_window_post [OF r2] len by simp
    moreover have "cut_from (is_cut c) bs data =
        map_option ((+) n) (cut_from (is_cut c) (bs @ take n data) (drop n data))"
      using cut_from_append [of "is_cut c" bs "take n data" "drop n data"] pre n(1) by simp
    ultimately show ?thesis
      using scan same_cfg_is_cut [OF cfg] same_cfg_trans [OF cfg]
      by (auto simp: scan_post_def split: option.splits)
  qed
qed

section \<open>The contract of the trait\<close>

text \<open>
  \<^verbatim>\<open>Chunker\<close> as its clients see it. \<open>inv s bs\<close> says that the chunker has seen \<open>bs\<close> since the last
  boundary. When the context describes the data (\<open>total\<close> counts the bytes since the boundary, the
  current buffer included), a scan returns, and the boundary it reports lies in the buffer.
\<close>

definition ctx_ok :: "Context \<Rightarrow> u8 list \<Rightarrow> u8 list \<Rightarrow> bool" where
  "ctx_ok ctx bs data \<longleftrightarrow> total ctx = length bs + length data \<and> base ctx + total ctx < 2 ^ 64"

locale chunker_trait =
  fixes scan :: "u8 list \<Rightarrow> Context \<Rightarrow> 's \<Rightarrow> (nat \<times> 's) option"
    and reset :: "'s \<Rightarrow> 's"
    and inv :: "'s \<Rightarrow> u8 list \<Rightarrow> bool"
  assumes scan_total: "inv s bs \<Longrightarrow> ctx_ok ctx bs data \<Longrightarrow> \<exists>k s'. scan data ctx s = Some (k, s')"
    and scan_none: "inv s bs \<Longrightarrow> ctx_ok ctx bs data \<Longrightarrow> scan data ctx s = Some (0, s') \<Longrightarrow> inv s' (bs @ data)"
    and scan_some: "inv s bs \<Longrightarrow> ctx_ok ctx bs data \<Longrightarrow> scan data ctx s = Some (k, s') \<Longrightarrow> 0 < k \<Longrightarrow>
      k \<le> length data \<and> inv s' []"
    and reset_inv: "inv s bs \<Longrightarrow> inv (reset s) []"
begin

lemma scan_cases:
  assumes "inv s bs" "ctx_ok ctx bs data"
  obtains (none) s' where "scan data ctx s = Some (0, s')" "inv s' (bs @ data)"
    | (cut) k s' where "scan data ctx s = Some (k, s')" "0 < k" "k \<le> length data" "inv s' []"
  using scan_total [OF assms] scan_none [OF assms] scan_some [OF assms] by (metis gr0I)

end

definition impl_scan :: "u8 list \<Rightarrow> Context \<Rightarrow> ChunkerImpl \<Rightarrow> (nat \<times> ChunkerImpl) option" where
  "impl_scan data ctx c = Some (chunker_scan data ctx c)"

lemma scan_cut:
  assumes "repr c bs" "cut_from (is_cut c) bs data = Some k"
  shows "fst (chunker_scan data ctx c) = k \<and> repr (snd (chunker_scan data ctx c)) [] \<and> 0 < k \<and> k \<le> length data"
  using scan_post_scan [OF assms(1), of data ctx] assms(2) cut_from_Some [OF assms(2)]
  by (simp_all add: scan_post_def)

lemma scan_no_cut:
  assumes "repr c bs" "cut_from (is_cut c) bs data = None"
  shows "fst (chunker_scan data ctx c) = 0" "repr (snd (chunker_scan data ctx c)) (bs @ data)"
  using scan_post_scan [OF assms(1), of data ctx] assms(2) by (simp_all add: scan_post_def)

lemma scan_cfg: "repr c bs \<Longrightarrow> same_cfg c (snd (chunker_scan data ctx c))"
  using scan_post_scan [of c bs data ctx] by (simp add: scan_post_def)

lemma scan_fst_cases:
  assumes "repr c bs"
  shows "fst (chunker_scan data ctx c) = 0 \<longleftrightarrow> cut_from (is_cut c) bs data = None"
    and "0 < fst (chunker_scan data ctx c) \<longleftrightarrow> cut_from (is_cut c) bs data = Some (fst (chunker_scan data ctx c))"
  using scan_cut [OF assms, of data _ ctx] scan_no_cut [OF assms, of data ctx]
  by (cases "cut_from (is_cut c) bs data"; force)+

interpretation impl: chunker_trait impl_scan chunker_reset repr
proof
  fix s bs ctx data k s'
  assume r: "repr s bs" and "ctx_ok ctx bs data"
  show "\<exists>k s'. impl_scan data ctx s = Some (k, s')" by (simp add: impl_scan_def)
  show "repr s' (bs @ data)" if "impl_scan data ctx s = Some (0, s')"
    using that scan_fst_cases(1) [OF r, of data ctx] scan_no_cut [OF r, of data ctx] by (simp add: impl_scan_def)
  show "k \<le> length data \<and> repr s' []" if "impl_scan data ctx s = Some (k, s')" "0 < k"
    using that scan_fst_cases(2) [OF r, of data ctx] scan_cut [OF r, of data k ctx] by (simp add: impl_scan_def)
next
  fix s bs assume "repr s bs"
  then show "repr (chunker_reset s) []" by (intro repr_reset) (simp add: repr_def)
qed

section \<open>PayloadChunker meets the contract\<close>

definition payload_repr :: "PayloadChunker \<Rightarrow> u8 list \<Rightarrow> bool" where
  "payload_repr p bs \<longleftrightarrow> repr (chunker p) bs"

text \<open>
  What one run of the loop may return: either the inner chunker's answer, or the distance to a
  suggested boundary that lies ahead in the buffer and gives a chunk within the size limits.
\<close>

definition payload_post :: "u8 list \<Rightarrow> Context \<Rightarrow> nat \<Rightarrow> PayloadChunker \<Rightarrow> nat \<times> PayloadChunker \<Rightarrow> bool" where
  "payload_post data ctx pos p r \<longleftrightarrow>
     (fst r = fst (chunker_scan data ctx (chunker p)) \<and>
      chunker (snd r) = snd (chunker_scan data ctx (chunker p))) \<or>
     (0 < fst r \<and> fst r \<le> length data \<and> chunker (snd r) = chunker_reset (chunker p) \<and>
      base ctx + pos + fst r \<in> set (suggested_boundaries p) \<union> set_option (current_suggested p) \<and>
      chunk_size_min (chunker p) \<le> pos + fst r \<and> pos + fst r \<le> chunk_size_max (chunker p))"

lemma payload_inner_post:
  "chunker p' = chunker p \<Longrightarrow> payload_post data ctx pos p (payload_inner_scan data ctx p')"
  by (simp add: payload_post_def payload_inner_scan_def split_def Let_def)

lemma payload_post_mono:
  assumes "payload_post data ctx pos p' r" "chunker p' = chunker p"
    "set (suggested_boundaries p') \<union> set_option (current_suggested p') \<subseteq>
     set (suggested_boundaries p) \<union> set_option (current_suggested p)"
  shows "payload_post data ctx pos p r"
  using assms(1,2) subsetD [OF assms(3)] unfolding payload_post_def by force

lemma payload_loop_post:
  assumes "total ctx = pos + length data" "base ctx + total ctx < 2 ^ 64"
  shows "payload_post data ctx pos p (payload_loop data ctx pos p)"
  using assms
proof (induction data ctx pos p rule: payload_loop.induct)
  case (1 data ctx pos p)
  show ?case
  proof (cases "current_suggested p")
    case None
    show ?thesis
    proof (cases "suggested_boundaries p")
      case Nil
      then show ?thesis using None by (simp add: payload_loop.simps [of data ctx pos p] payload_inner_post)
    next
      case (Cons b q)
      let ?p = "p\<lparr>current_suggested := Some b, suggested_boundaries := q\<rparr>"
      have "payload_post data ctx pos ?p (payload_loop data ctx pos ?p)"
        by (rule 1(1)) (use None Cons 1(4,5) in auto)
      then have "payload_post data ctx pos p (payload_loop data ctx pos ?p)"
        by (rule payload_post_mono) (use None Cons in auto)
      then show ?thesis using None Cons by (simp add: payload_loop.simps [of data ctx pos p])
    qed
  next
    case (Some b)
    let ?p = "p\<lparr>current_suggested := None\<rparr>"
    have add: "wrapping_add (base ctx) pos = base ctx + pos" "wrapping_add (base ctx) (total ctx) = base ctx + total ctx"
      using 1(4,5) by (simp_all add: wrapping_add_exact)
    have skip: "payload_post data ctx pos p (payload_loop data ctx pos ?p)"
      if "payload_post data ctx pos ?p (payload_loop data ctx pos ?p)"
      using that by (rule payload_post_mono) auto
    consider (past) "b < base ctx + pos" | (future) "\<not> b < base ctx + pos" "base ctx + total ctx < b"
      | (inside) "base ctx + pos \<le> b" "b \<le> base ctx + total ctx" by linarith
    then show ?thesis
    proof cases
      case past
      with 1(2) [OF Some] 1(4,5) add skip Some show ?thesis by (simp add: payload_loop.simps [of data ctx pos p])
    next
      case future
      with add Some show ?thesis
        by (simp add: payload_loop.simps [of data ctx pos p] payload_inner_post)
    next
      case inside
      have cs: "wrapping_sub b (base ctx) = b - base ctx" "wrapping_sub (b - base ctx) pos = b - base ctx - pos"
        using inside 1(5) by (simp_all add: wrapping_sub_exact)
      show ?thesis
      proof (cases "b - base ctx < chunk_size_min (chunker p)")
        case True
        with inside 1(3) [OF Some] 1(4,5) add cs skip Some show ?thesis
          by (simp add: payload_loop.simps [of data ctx pos p])
      next
        case False
        then show ?thesis
          using inside add cs Some 1(4)
          by (auto simp: payload_loop.simps [of data ctx pos p] payload_inner_post Let_def)
             (auto simp: payload_post_def)
      qed
    qed
  qed
qed

lemma payload_scan_post:
  assumes "payload_repr p bs" "ctx_ok ctx bs data"
  obtains r where "payload_scan data ctx p = Some r" "payload_post data ctx (length bs) p r"
  using payload_loop_post [of ctx "length bs" data p] assms by (simp add: payload_scan_def ctx_ok_def)

interpretation payload: chunker_trait payload_scan payload_reset payload_repr
proof
  fix s bs ctx data k s'
  assume r: "payload_repr s bs" and cx: "ctx_ok ctx bs data"
  then have i: "repr (chunker s) bs" by (simp add: payload_repr_def)
  obtain q where q: "payload_scan data ctx s = Some q" "payload_post data ctx (length bs) s q"
    using payload_scan_post [OF r cx] .
  show "\<exists>k s'. payload_scan data ctx s = Some (k, s')" using q(1) by (cases q) simp
  show "payload_repr s' (bs @ data)" if "payload_scan data ctx s = Some (0, s')"
    using that q scan_fst_cases(1) [OF i, of data ctx] scan_no_cut [OF i, of data ctx]
    by (auto simp: payload_post_def payload_repr_def)
  show "k \<le> length data \<and> payload_repr s' []" if "payload_scan data ctx s = Some (k, s')" "0 < k"
    using that q scan_fst_cases(2) [OF i, of data ctx] scan_cut [OF i, of data k ctx] impl.reset_inv [OF i]
    by (auto simp: payload_post_def payload_repr_def)
next
  fix s bs assume "payload_repr s bs"
  then show "payload_repr (payload_reset s) []"
    by (simp add: payload_repr_def payload_reset_def impl.reset_inv)
qed

section \<open>Properties\<close>

text \<open>C28. The boundary that \<^verbatim>\<open>scan\<close> reports is the first position at which the bytes since the last
  boundary form a complete chunk, where completeness is decided by the size limits and by the hash,
  computed from scratch, of the last 64 bytes; without such a position it reports 0 and has taken in
  all the data.\<close>

theorem chunker_scan_reference:
  assumes "repr c bs"
  shows "fst (chunker_scan data ctx c) = (case cut_from (is_cut c) bs data of None \<Rightarrow> 0 | Some k \<Rightarrow> k) \<and>
    repr (snd (chunker_scan data ctx c)) (if fst (chunker_scan data ctx c) = 0 then bs @ data else [])"
  using scan_cut [OF assms, of data _ ctx] scan_no_cut [OF assms, of data ctx]
  by (cases "cut_from (is_cut c) bs data") auto

definition chunker_64 :: ChunkerImpl where
  "chunker_64 = \<lparr>h = 0, window_size = 0, chunk_size = 0, chunk_size_min = 16, chunk_size_max = 256,
     break_test_mask = 127, break_test_minimum = 125, window = replicate 64 0\<rparr>"

lemma chunker_64_new: "ChunkerImpl_new 64 = Some chunker_64"
  by (simp add: ChunkerImpl_new_def chunker_64_def Let_def CA_CHUNKER_WINDOW_SIZE_def count_ones.simps)

lemmas chunker_64_repr = repr_new [OF chunker_64_new]

theorem chunker_scan_reference_witness:
  "fst (chunker_scan (replicate 300 7) \<lparr>base = 0, total = 300\<rparr> chunker_64) =
     (case cut_from (is_cut chunker_64) [] (replicate 300 7) of None \<Rightarrow> 0 | Some k \<Rightarrow> k)"
  using chunker_scan_reference [OF chunker_64_repr] by (rule conjunct1)

text \<open>Boundaries do not depend on how the stream is cut into buffers: scanning two buffers one
  after the other finds the boundary that scanning their concatenation finds.\<close>

theorem chunker_scan_append:
  assumes "repr c bs"
  shows "fst (chunker_scan (xs @ ys) ctx c) =
    (case chunker_scan xs ctx' c of (0, c') \<Rightarrow>
       (case fst (chunker_scan ys ctx'' c') of 0 \<Rightarrow> 0 | Suc k \<Rightarrow> length xs + Suc k)
     | (Suc k, c') \<Rightarrow> Suc k)"
proof (cases "cut_from (is_cut c) bs xs")
  case None
  let ?c = "snd (chunker_scan xs ctx' c)"
  have r: "fst (chunker_scan xs ctx' c) = 0" "repr ?c (bs @ xs)" using scan_no_cut [OF assms None] by simp_all
  have cut: "is_cut ?c = is_cut c" by (rule same_cfg_is_cut [OF scan_cfg [OF assms]])
  have app: "cut_from (is_cut c) bs (xs @ ys) = map_option ((+) (length xs)) (cut_from (is_cut c) (bs @ xs) ys)"
    using None by (simp add: cut_from_append)
  show ?thesis
  proof (cases "cut_from (is_cut c) (bs @ xs) ys")
    case None
    then show ?thesis
      using r app scan_no_cut [OF r(2), of ys ctx''] scan_no_cut [OF assms, of "xs @ ys" ctx] cut
      by (simp add: split_def)
  next
    case (Some k)
    then show ?thesis
      using r app scan_cut [OF r(2), of ys k ctx''] scan_cut [OF assms, of "xs @ ys" "length xs + k" ctx] cut
      by (auto simp: split_def split: nat.splits)
  qed
next
  case (Some k)
  then have "cut_from (is_cut c) bs (xs @ ys) = Some k" by (simp add: cut_from_append)
  from scan_cut [OF assms this, of ctx] scan_cut [OF assms Some, of ctx'] show ?thesis
    by (auto simp: split_def split: nat.splits)
qed

theorem chunker_scan_append_witness:
  "fst (chunker_scan (replicate 100 7 @ replicate 200 9) \<lparr>base = 0, total = 300\<rparr> chunker_64) =
    (case chunker_scan (replicate 100 7) \<lparr>base = 0, total = 100\<rparr> chunker_64 of (0, c') \<Rightarrow>
       (case fst (chunker_scan (replicate 200 9) \<lparr>base = 0, total = 300\<rparr> c') of 0 \<Rightarrow> 0
        | Suc k \<Rightarrow> length (replicate 100 (7::u8)) + Suc k)
     | (Suc k, c') \<Rightarrow> Suc k)"
  by (rule chunker_scan_append [OF chunker_64_repr])

text \<open>C35. Chunk sizes stay between a quarter of and four times the average size: a reported boundary
  ends a chunk within the limits, and a chunk that has not ended is shorter than the maximum.\<close>

theorem chunker_scan_size_bounds:
  assumes "ChunkerImpl_new avg = Some c0" "16 < avg" "avg < 2 ^ 62"
    and "same_cfg c0 c" "repr c bs" "length bs < avg * 4"
  shows "if fst (chunker_scan data ctx c) = 0 then length bs + length data < avg * 4
    else avg div 4 \<le> length bs + fst (chunker_scan data ctx c) \<and>
      length bs + fst (chunker_scan data ctx c) \<le> avg * 4"
proof -
  have "avg * 4 < 2 ^ 64" using assms(3) by simp
  then have "(avg * 4) mod 2 ^ 64 = avg * 4" by (rule mod_less)
  then have cfg: "chunk_size_min c = avg div 4" "chunk_size_max c = avg * 4"
    using assms(1,4) by (auto simp: ChunkerImpl_new_def Let_def same_cfg_def split: if_splits)
  show ?thesis
  proof (cases "cut_from (is_cut c) bs data")
    case None
    have "length bs + length data < avg * 4"
    proof (cases "data = []")
      case False
      then have "\<not> is_cut c (bs @ data)" using cut_from_None [OF None, of "length data"] by simp
      then show ?thesis using assms(2) by (auto simp: is_cut_def cfg)
    qed (use assms(6) in simp)
    then show ?thesis using scan_no_cut(1) [OF assms(5) None] by simp
  next
    case (Some k)
    note k = cut_from_Some [OF Some]
    have "\<not> avg * 4 < length bs + k"
    proof
      assume gt: "avg * 4 < length bs + k"
      define j where "j = avg * 4 - length bs"
      have "0 < j" "j < k" "length (bs @ take j data) = avg * 4"
        using gt assms(6) k by (auto simp: j_def)
      then show False using k assms(2) by (auto simp: is_cut_def cfg)
    qed
    moreover have "avg div 4 \<le> length bs + k" using k by (auto simp: is_cut_def cfg)
    ultimately show ?thesis using scan_cut [OF assms(5) Some, of ctx] by simp
  qed
qed

theorem chunker_scan_size_bounds_witness:
  "if fst (chunker_scan (replicate 1000 1) \<lparr>base = 0, total = 1000\<rparr> chunker_64) = 0
    then length ([] :: u8 list) + length (replicate 1000 (1::u8)) < 64 * 4
    else 64 div 4 \<le> length ([] :: u8 list) + fst (chunker_scan (replicate 1000 1) \<lparr>base = 0, total = 1000\<rparr> chunker_64) \<and>
      length ([] :: u8 list) + fst (chunker_scan (replicate 1000 1) \<lparr>base = 0, total = 1000\<rparr> chunker_64) \<le> 64 * 4"
  by (rule chunker_scan_size_bounds [OF chunker_64_new]) (simp_all add: same_cfg_def chunker_64_repr)

text \<open>\<^verbatim>\<open>PayloadChunker::scan\<close> never fails its assertion when the context describes the buffer, and its
  answer is either that of the hash chunker or a suggested boundary which lies inside the buffer and
  gives a chunk within the size limits.\<close>

theorem payload_scan_boundary:
  assumes "payload_repr p bs" "ctx_ok ctx bs data"
  shows "\<exists>k p'. payload_scan data ctx p = Some (k, p') \<and> k \<le> length data \<and>
    (k = fst (chunker_scan data ctx (chunker p)) \<or>
     base ctx + length bs + k \<in> set (suggested_boundaries p) \<union> set_option (current_suggested p) \<and>
     chunk_size_min (chunker p) \<le> length bs + k \<and> length bs + k \<le> chunk_size_max (chunker p))"
proof -
  obtain k p' where r: "payload_scan data ctx p = Some (k, p')" "payload_post data ctx (length bs) p (k, p')"
    using payload_scan_post [OF assms] by (metis surj_pair)
  from payload.scan_some [OF assms r(1)] have "k \<le> length data" by (cases k) auto
  then show ?thesis using r by (auto simp: payload_post_def)
qed

theorem payload_scan_boundary_witness:
  "\<exists>k p'. payload_scan (replicate 40 0) \<lparr>base = 1000, total = 40\<rparr>
      \<lparr>chunker = chunker_64, current_suggested = None, suggested_boundaries = [1010, 1030]\<rparr> = Some (k, p') \<and> k = 30"
proof -
  let ?p = "\<lparr>chunker = chunker_64, current_suggested = None, suggested_boundaries = [1010, 1030]\<rparr>"
  let ?ctx = "\<lparr>base = 1000, total = 40\<rparr>"
  have "payload_repr ?p []" "ctx_ok ?ctx [] (replicate 40 0)"
    by (simp_all add: payload_repr_def chunker_64_repr ctx_ok_def)
  from payload_scan_boundary [OF this] obtain k p' where r: "payload_scan (replicate 40 0) ?ctx ?p = Some (k, p')"
    by blast
  moreover have "k = 30"
    using r by (simp add: payload_scan_def payload_loop.simps wrapping_add_def wrapping_sub_def chunker_64_def)
  ultimately show ?thesis by blast
qed

end
