(* ===== verification/ChunkStream.thy ===== *)
theory ChunkStream
  imports Chunker
begin

text \<open>
  \<^verbatim>\<open>pbs-client/src/chunk_stream.rs\<close>: \<^verbatim>\<open>ChunkStream\<close> cuts an input stream with a boxed \<^verbatim>\<open>Chunker\<close> and
  forces boundaries where reused chunks are injected; \<^verbatim>\<open>FixedChunkStream\<close> cuts pieces of equal size.
  The input stream is the list of its future poll results; each of them also carries the messages that
  the producer puts on the two channels before that poll, so that every interleaving of the channels
  with the data is a list of events. A panic is \<open>None\<close>.
\<close>

section \<open>Streams\<close>

text \<open>\<^verbatim>\<open>Poll<Option<Result<T, E>>>\<close>\<close>

datatype ('e, 'a) poll = Pending | ReadyNone | ReadyErr 'e | ReadyOk 'a

text \<open>\<^verbatim>\<open>dyn Chunker\<close>\<close>

datatype DynChunker = Impl ChunkerImpl | Payload PayloadChunker

fun dyn_scan :: "u8 list \<Rightarrow> Context \<Rightarrow> DynChunker \<Rightarrow> (nat \<times> DynChunker) option" where
  "dyn_scan data ctx (Impl c) = map_option (\<lambda>(k, c'). (k, Impl c')) (impl_scan data ctx c)"
| "dyn_scan data ctx (Payload p) = map_option (\<lambda>(k, p'). (k, Payload p')) (payload_scan data ctx p)"

fun dyn_reset :: "DynChunker \<Rightarrow> DynChunker" where
  "dyn_reset (Impl c) = Impl (chunker_reset c)"
| "dyn_reset (Payload p) = Payload (payload_reset p)"

record ReusableDynamicEntry =
  rsize :: nat
  padding :: nat
  rdigest :: digest
  end_offset :: nat

record InjectChunks =
  boundary :: nat
  chunks :: "ReusableDynamicEntry list"
  isize :: nat

record InjectionData =
  boundaries :: "InjectChunks list"
  next_boundary :: "InjectChunks option"
  injections :: "InjectChunks list"
  injections_open :: bool

record 'e event =
  outcome :: "('e, bytes) poll"
  sent_boundaries :: "InjectChunks list"
  sent_suggested :: "nat list"

record 'e ChunkStream =
  input :: "'e event list"
  input_is_done :: bool
  dchunker :: DynChunker
  buffer :: bytes
  scan_pos :: nat
  consumed :: nat
  injection_data :: "InjectionData option"

definition InjectionData_new :: "InjectChunks list \<Rightarrow> InjectionData" where
  "InjectionData_new bs = \<lparr>boundaries = bs, next_boundary = None, injections = [], injections_open = True\<rparr>"

definition ChunkStream_new ::
  "'e event list \<Rightarrow> nat option \<Rightarrow> InjectionData option \<Rightarrow> nat list option \<Rightarrow> 'e ChunkStream option" where
  "ChunkStream_new inp csize idata suggested =
     (let avg = (case csize of Some n \<Rightarrow> n | None \<Rightarrow> 4 * 1024 * 1024) in
      map_option (\<lambda>ch. \<lparr>input = inp, input_is_done = False, dchunker = ch, buffer = [], scan_pos = 0,
          consumed = 0, injection_data = idata\<rparr>)
        (case suggested of Some q \<Rightarrow> map_option Payload (PayloadChunker_new avg q)
         | None \<Rightarrow> map_option Impl (ChunkerImpl_new avg)))"

text \<open>The producer's sends: the messages are queued for the receivers held by the stream.\<close>

fun push_suggested :: "nat list \<Rightarrow> DynChunker \<Rightarrow> DynChunker" where
  "push_suggested q (Impl c) = Impl c"
| "push_suggested q (Payload p) = Payload (p\<lparr>suggested_boundaries := suggested_boundaries p @ q\<rparr>)"

definition arrive :: "'e event \<Rightarrow> 'e ChunkStream \<Rightarrow> 'e ChunkStream" where
  "arrive ev s = s\<lparr>dchunker := push_suggested (sent_suggested ev) (dchunker s),
     injection_data := map_option (\<lambda>d. d\<lparr>boundaries := boundaries d @ sent_boundaries ev\<rparr>) (injection_data s)\<rparr>"

section \<open>ChunkStream::poll next\<close>

definition stream_ctx :: "'e ChunkStream \<Rightarrow> Context" where
  "stream_ctx s = \<lparr>base = consumed s, total = length (buffer s)\<rparr>"

definition recv_boundary :: "InjectionData \<Rightarrow> InjectionData" where
  "recv_boundary d =
     (if next_boundary d = None then
        (case boundaries d of [] \<Rightarrow> d | b # q \<Rightarrow> d\<lparr>next_boundary := Some b, boundaries := q\<rparr>)
      else d)"

text \<open>\<^verbatim>\<open>BytesMut::split_to\<close> panics beyond the end.\<close>

definition split_to :: "nat \<Rightarrow> bytes \<Rightarrow> (bytes \<times> bytes) option" where
  "split_to n b = (if n \<le> length b then Some (take n b, drop n b) else None)"

definition scan_unscanned :: "'e ChunkStream \<Rightarrow> (nat \<times> DynChunker) option" where
  "scan_unscanned s =
     (if scan_pos s < length (buffer s)
      then dyn_scan (drop (scan_pos s) (buffer s)) (stream_ctx s) (dchunker s)
      else Some (0, dchunker s))"

text \<open>The handling of forced boundaries; \<open>Some (Some chunk, s)\<close> returns the chunk.\<close>

definition inject_step :: "'e ChunkStream \<Rightarrow> (bytes option \<times> 'e ChunkStream) option" where
  "inject_step s =
     (case injection_data s of
        None \<Rightarrow> Some (None, s)
      | Some d0 \<Rightarrow>
          (let d = recv_boundary d0 in
           case next_boundary d of
             None \<Rightarrow> Some (None, s\<lparr>injection_data := Some d\<rparr>)
           | Some inject \<Rightarrow>
               (case scan_unscanned s of
                  None \<Rightarrow> None
                | Some (pos, ch) \<Rightarrow>
                    (let chunk_boundary = wrapping_add (consumed s)
                           (if pos = 0 then length (buffer s) else scan_pos s + pos) in
                     if boundary inject \<le> chunk_boundary then
                       (let csize = wrapping_sub (boundary inject) (consumed s) in
                        case split_to csize (buffer s) of
                          None \<Rightarrow> None
                        | Some (raw_chunk, rest) \<Rightarrow>
                            if injections_open d then
                              Some (Some raw_chunk,
                                s\<lparr>buffer := rest, dchunker := dyn_reset ch, scan_pos := 0,
                                  consumed := wrapping_add (wrapping_add (consumed s) csize) (isize inject),
                                  injection_data := Some (d\<lparr>next_boundary := None,
                                    injections := injections d @ [inject]\<rparr>)\<rparr>)
                            else None)
                     else if pos \<noteq> 0 then
                       (case split_to (scan_pos s + pos) (buffer s) of
                          None \<Rightarrow> None
                        | Some (raw_chunk, rest) \<Rightarrow>
                            Some (Some raw_chunk,
                              s\<lparr>buffer := rest, dchunker := ch, scan_pos := 0,
                                consumed := wrapping_add (consumed s) (scan_pos s + pos),
                                injection_data := Some d\<rparr>))
                     else
                       Some (None, s\<lparr>dchunker := ch, scan_pos := length (buffer s),
                         injection_data := Some d\<rparr>)))))"

text \<open>The regular scan of what has not been scanned yet.\<close>

definition scan_step :: "'e ChunkStream \<Rightarrow> (bytes option \<times> 'e ChunkStream) option" where
  "scan_step s =
     (if scan_pos s < length (buffer s) then
        (case dyn_scan (drop (scan_pos s) (buffer s)) (stream_ctx s) (dchunker s) of
           None \<Rightarrow> None
         | Some (bound, ch) \<Rightarrow>
             if bound = 0 then
               Some (None, s\<lparr>dchunker := ch, scan_pos := length (buffer s)\<rparr>)
             else (case split_to (scan_pos s + bound) (buffer s) of
                None \<Rightarrow> None
              | Some (raw_chunk, rest) \<Rightarrow>
                  Some (Some raw_chunk, s\<lparr>dchunker := ch, buffer := rest, scan_pos := 0,
                    consumed := wrapping_add (consumed s) (scan_pos s + bound)\<rparr>)))
      else Some (None, s))"

definition head_step :: "'e ChunkStream \<Rightarrow> (bytes option \<times> 'e ChunkStream) option" where
  "head_step s =
     (case inject_step s of
        None \<Rightarrow> None
      | Some (Some chunk, s') \<Rightarrow> Some (Some chunk, s')
      | Some (None, s') \<Rightarrow> scan_step s')"

definition stream_end :: "'e ChunkStream \<Rightarrow> ('e, bytes) poll \<times> 'e ChunkStream" where
  "stream_end s =
     (let s' = s\<lparr>scan_pos := 0, input_is_done := True\<rparr> in
      if buffer s' \<noteq> [] then (ReadyOk (buffer s'), s'\<lparr>buffer := []\<rparr>) else (ReadyNone, s'))"

text \<open>
  The \<^verbatim>\<open>loop\<close>: every iteration that does not return takes one more result from the input. An input
  that has no more results is at its end.
\<close>

fun poll_loop :: "'e event list \<Rightarrow> 'e ChunkStream \<Rightarrow> (('e, bytes) poll \<times> 'e ChunkStream) option" where
  "poll_loop inp s =
     (case head_step s of
        None \<Rightarrow> None
      | Some (Some chunk, s') \<Rightarrow> Some (ReadyOk chunk, s'\<lparr>input := inp\<rparr>)
      | Some (None, s') \<Rightarrow>
          if input_is_done s' then Some (ReadyNone, s'\<lparr>input := inp\<rparr>)
          else (case inp of
             [] \<Rightarrow> Some (stream_end (s'\<lparr>input := []\<rparr>))
           | ev # evs \<Rightarrow>
               (let s1 = (arrive ev s')\<lparr>input := evs\<rparr> in
                case outcome ev of
                  Pending \<Rightarrow> Some (Pending, s1)
                | ReadyErr e \<Rightarrow> Some (ReadyErr e, s1)
                | ReadyNone \<Rightarrow> Some (stream_end s1)
                | ReadyOk data \<Rightarrow> poll_loop evs (s1\<lparr>buffer := buffer s1 @ data\<rparr>))))"

declare poll_loop.simps [simp del]

definition poll_next :: "'e ChunkStream \<Rightarrow> (('e, bytes) poll \<times> 'e ChunkStream) option" where
  "poll_next s = poll_loop (input s) s"

section \<open>FixedChunkStream\<close>

record 'e FixedChunkStream =
  finput :: "('e, bytes) poll list"
  fchunk_size :: nat
  fbuffer :: bytes
  fdone :: bool

definition FixedChunkStream_new :: "('e, bytes) poll list \<Rightarrow> nat \<Rightarrow> 'e FixedChunkStream" where
  "FixedChunkStream_new inp n = \<lparr>finput = inp, fchunk_size = n, fbuffer = [], fdone = False\<rparr>"

definition fixed_end :: "'e FixedChunkStream \<Rightarrow> ('e, bytes) poll \<times> 'e FixedChunkStream" where
  "fixed_end s =
     (let s' = s\<lparr>fdone := True\<rparr> in
      if fbuffer s' \<noteq> [] then (ReadyOk (fbuffer s'), s'\<lparr>fbuffer := []\<rparr>) else (ReadyNone, s'))"

fun fixed_loop :: "('e, bytes) poll list \<Rightarrow> 'e FixedChunkStream \<Rightarrow> ('e, bytes) poll \<times> 'e FixedChunkStream" where
  "fixed_loop inp s =
     (if length (fbuffer s) \<ge> fchunk_size s then
        (ReadyOk (take (fchunk_size s) (fbuffer s)),
         s\<lparr>finput := inp, fbuffer := drop (fchunk_size s) (fbuffer s)\<rparr>)
      else (case inp of
         [] \<Rightarrow> fixed_end (s\<lparr>finput := []\<rparr>)
       | Pending # evs \<Rightarrow> (Pending, s\<lparr>finput := evs\<rparr>)
       | ReadyErr e # evs \<Rightarrow> (ReadyErr e, s\<lparr>finput := evs\<rparr>)
       | ReadyNone # evs \<Rightarrow> fixed_end (s\<lparr>finput := evs\<rparr>)
       | ReadyOk data # evs \<Rightarrow> fixed_loop evs (s\<lparr>fbuffer := fbuffer s @ data\<rparr>)))"

declare fixed_loop.simps [simp del]

definition fixed_poll_next :: "'e FixedChunkStream \<Rightarrow> ('e, bytes) poll \<times> 'e FixedChunkStream" where
  "fixed_poll_next s = (if fdone s then (ReadyNone, s) else fixed_loop (finput s) s)"

section \<open>No byte is lost or reordered\<close>

fun emitted :: "('e, bytes) poll \<Rightarrow> bytes" where
  "emitted (ReadyOk b) = b"
| "emitted _ = []"

definition data_of :: "'e event list \<Rightarrow> bytes" where
  "data_of evs = concat (map (\<lambda>ev. emitted (outcome ev)) evs)"

lemma data_of_simps [simp]:
  "data_of [] = []" "data_of (ev # evs) = emitted (outcome ev) @ data_of evs"
  "data_of (xs @ ys) = data_of xs @ data_of ys"
  by (simp_all add: data_of_def)

definition opt_bytes :: "bytes option \<Rightarrow> bytes" where
  "opt_bytes x = (case x of None \<Rightarrow> [] | Some b \<Rightarrow> b)"

lemma opt_bytes_simps [simp]: "opt_bytes None = []" "opt_bytes (Some b) = b"
  by (simp_all add: opt_bytes_def)

lemma split_to_Some: "split_to n b = Some (x, y) \<longleftrightarrow> n \<le> length b \<and> x = take n b \<and> y = drop n b"
  by (auto simp: split_to_def)

lemma inject_step_bytes:
  "inject_step s = Some (c, s') \<Longrightarrow> opt_bytes c @ buffer s' = buffer s \<and> input s' = input s"
  by (auto simp: inject_step_def Let_def split_to_Some split: option.splits if_splits prod.splits)

lemma scan_step_bytes:
  "scan_step s = Some (c, s') \<Longrightarrow> opt_bytes c @ buffer s' = buffer s \<and> input s' = input s"
  by (auto simp: scan_step_def split_to_Some split: option.splits if_splits prod.splits)

lemma head_step_bytes:
  "head_step s = Some (c, s') \<Longrightarrow> opt_bytes c @ buffer s' = buffer s \<and> input s' = input s"
  unfolding head_step_def
  by (auto split: option.splits dest!: scan_step_bytes inject_step_bytes)

lemma stream_end_bytes:
  "stream_end s = (r, s') \<Longrightarrow> emitted r @ buffer s' = buffer s \<and> input s' = input s"
  by (auto simp: stream_end_def Let_def split: if_splits)

lemma poll_loop_bytes:
  "poll_loop inp s = Some (r, s') \<Longrightarrow>
     \<exists>taken. inp = taken @ input s' \<and> emitted r @ buffer s' = buffer s @ data_of taken"
proof (induction inp arbitrary: s)
  case Nil
  then show ?case
    by (auto simp: poll_loop.simps [of "[]" s] dest!: head_step_bytes stream_end_bytes
        split: option.splits if_splits)
next
  case (Cons ev evs)
  obtain c s1 where hs: "head_step s = Some (c, s1)"
    using Cons.prems by (auto simp: poll_loop.simps [of "ev # evs" s] split: option.splits)
  note b = head_step_bytes [OF hs]
  show ?case
  proof (cases "c = None \<and> \<not> input_is_done s1")
    case False
    then have "input s' = ev # evs" "emitted r @ buffer s' = buffer s"
      using Cons.prems hs b by (auto simp: poll_loop.simps [of "ev # evs" s] split: option.splits if_splits)
    then show ?thesis by (intro exI [of _ "[]"]) simp
  next
    case True
    let ?s = "(arrive ev s1)\<lparr>input := evs\<rparr>"
    have buf: "buffer ?s = buffer s" using b True by (simp add: arrive_def)
    show ?thesis
    proof (cases "outcome ev")
      case (ReadyOk d)
      then have "poll_loop evs (?s\<lparr>buffer := buffer ?s @ d\<rparr>) = Some (r, s')"
        using Cons.prems hs True by (simp add: poll_loop.simps [of "ev # evs" s] Let_def)
      from Cons.IH [OF this] obtain taken where "evs = taken @ input s'"
        "emitted r @ buffer s' = buffer s @ d @ data_of taken" using buf by auto
      then show ?thesis using ReadyOk by (intro exI [of _ "ev # taken"]) simp
    next
      case (ReadyErr e)
      then have "r = ReadyErr e" "s' = ?s"
        using Cons.prems hs True by (simp_all add: poll_loop.simps [of "ev # evs" s] Let_def)
      then show ?thesis using buf ReadyErr by (intro exI [of _ "[ev]"]) simp
    qed (use Cons.prems hs True buf in \<open>auto simp: poll_loop.simps [of "ev # evs" s] Let_def
        dest!: stream_end_bytes intro!: exI [of _ "[ev]"]\<close>)
  qed
qed

section \<open>Runs\<close>

text \<open>\<open>runs s cs s'\<close>: polling takes the stream from \<open>s\<close> to \<open>s'\<close> and hands out the chunks \<open>cs\<close>.\<close>

fun chunk_of :: "('e, bytes) poll \<Rightarrow> bytes list" where
  "chunk_of (ReadyOk b) = [b]"
| "chunk_of _ = []"

inductive runs :: "'e ChunkStream \<Rightarrow> bytes list \<Rightarrow> 'e ChunkStream \<Rightarrow> bool" where
  runs_refl: "runs s [] s"
| runs_poll: "poll_next s = Some (r, s1) \<Longrightarrow> runs s1 cs s' \<Longrightarrow> runs s (chunk_of r @ cs) s'"

lemma concat_chunk_of: "concat (chunk_of r) = emitted r"
  by (cases r) simp_all

lemma runs_bytes:
  "runs s cs s' \<Longrightarrow> \<exists>taken. input s = taken @ input s' \<and> concat cs @ buffer s' = buffer s @ data_of taken"
proof (induction rule: runs.induct)
  case (runs_poll s r s1 cs s')
  obtain t1 where t1: "input s = t1 @ input s1" "emitted r @ buffer s1 = buffer s @ data_of t1"
    using poll_loop_bytes runs_poll.hyps(1) unfolding poll_next_def by blast
  obtain t2 where t2: "input s1 = t2 @ input s'" "concat cs @ buffer s' = buffer s1 @ data_of t2"
    using runs_poll.IH by blast
  have "concat (chunk_of r @ cs) @ buffer s' = emitted r @ buffer s1 @ data_of t2"
    using t2(2) by (simp add: concat_chunk_of)
  also have "\<dots> = buffer s @ data_of (t1 @ t2)" using t1(2) by (metis append_assoc data_of_simps(3))
  finally show ?case using t1(1) t2(1) by (intro exI [of _ "t1 @ t2"]) simp
qed (intro exI [of _ "[]"], simp)

section \<open>Chunkers behind the box\<close>

fun dyn_inv :: "DynChunker \<Rightarrow> u8 list \<Rightarrow> bool" where
  "dyn_inv (Impl c) bs = repr c bs"
| "dyn_inv (Payload p) bs = payload_repr p bs"

interpretation dyn: chunker_trait dyn_scan dyn_reset dyn_inv
proof
  fix s bs ctx data k s'
  assume i: "dyn_inv s bs" and cx: "ctx_ok ctx bs data"
  show "\<exists>k s'. dyn_scan data ctx s = Some (k, s')"
    using i cx impl.scan_total payload.scan_total by (cases s) fastforce+
  show "dyn_inv s' (bs @ data)" if "dyn_scan data ctx s = Some (0, s')"
    using that i cx impl.scan_none [OF _ cx] payload.scan_none [OF _ cx] by (cases s) auto
  show "k \<le> length data \<and> dyn_inv s' []" if "dyn_scan data ctx s = Some (k, s')" "0 < k"
    using that i impl.scan_some [OF _ cx] payload.scan_some [OF _ cx] by (cases s) auto
next
  fix s bs assume "dyn_inv s bs"
  then show "dyn_inv (dyn_reset s) []"
    using impl.reset_inv payload.reset_inv by (cases s) auto
qed

lemma dyn_inv_push [simp]: "dyn_inv (push_suggested q ch) bs \<longleftrightarrow> dyn_inv ch bs"
  by (cases ch) (simp_all add: payload_repr_def)

section \<open>The stream never panics\<close>

text \<open>
  Pending forced boundaries must lie ahead of what was handed out, each one behind the chunks injected
  before it. Boundaries are queued before the data they refer to, so none is sent in between.
\<close>

fun inj_ok :: "nat \<Rightarrow> InjectChunks list \<Rightarrow> bool" where
  "inj_ok n [] \<longleftrightarrow> True"
| "inj_ok n (b # bs) \<longleftrightarrow> n \<le> boundary b \<and> inj_ok (boundary b + isize b) bs"

definition pending :: "'e ChunkStream \<Rightarrow> InjectChunks list" where
  "pending s = (case injection_data s of None \<Rightarrow> []
     | Some d \<Rightarrow> (case next_boundary d of None \<Rightarrow> [] | Some b \<Rightarrow> [b]) @ boundaries d)"

definition stream_inv :: "'e ChunkStream \<Rightarrow> bool" where
  "stream_inv s \<longleftrightarrow>
     (if input_is_done s then buffer s = [] \<and> scan_pos s = 0
      else scan_pos s \<le> length (buffer s) \<and> dyn_inv (dchunker s) (take (scan_pos s) (buffer s))) \<and>
     (\<forall>d. injection_data s = Some d \<longrightarrow> injections_open d) \<and> inj_ok (consumed s) (pending s) \<and>
     (\<forall>ev \<in> set (input s). sent_boundaries ev = []) \<and>
     consumed s + length (buffer s) + length (data_of (input s)) + sum_list (map isize (pending s)) < 2 ^ 64"

lemma pending_recv:
  "injection_data s = Some d \<Longrightarrow> next_boundary (recv_boundary d) = None \<Longrightarrow> pending s = []"
  "injection_data s = Some d \<Longrightarrow> next_boundary (recv_boundary d) = Some b \<Longrightarrow>
     pending s = b # boundaries (recv_boundary d)"
  "injections_open (recv_boundary d) = injections_open d"
  by (auto simp: pending_def recv_boundary_def split: list.splits option.splits if_splits)

text \<open>A scan of the rest of the buffer, whether it runs or is skipped.\<close>

lemma scan_rest:
  assumes "stream_inv s"
  obtains pos ch where "scan_unscanned s = Some (pos, ch)"
    "scan_pos s + pos \<le> length (buffer s)"
    "input_is_done s \<or> dyn_inv ch (if pos = 0 then buffer s else [])"
proof (cases "scan_pos s < length (buffer s)")
  case True
  then have inv: "dyn_inv (dchunker s) (take (scan_pos s) (buffer s))"
    and cx: "ctx_ok (stream_ctx s) (take (scan_pos s) (buffer s)) (drop (scan_pos s) (buffer s))"
    using assms by (auto simp: stream_inv_def ctx_ok_def stream_ctx_def split: if_splits)
  show thesis
    using inv cx
  proof (cases rule: dyn.scan_cases)
    case none
    then show thesis using that True by (simp add: scan_unscanned_def)
  next
    case cut
    then show thesis using that True by (auto simp: scan_unscanned_def)
  qed
next
  case False
  then show thesis using that [of 0 "dchunker s"] assms by (auto simp: stream_inv_def scan_unscanned_def split: if_splits)
qed

lemma inject_step_inv:
  assumes "stream_inv s"
  shows "\<exists>c s'. inject_step s = Some (c, s') \<and> stream_inv s' \<and> (c = None \<longrightarrow> pending s' = [] \<or> scan_pos s' = length (buffer s'))"
proof (cases "injection_data s")
  case None
  then show ?thesis using assms by (simp add: inject_step_def pending_def)
next
  case (Some d0)
  let ?d = "recv_boundary d0"
  have op: "injections_open ?d" using assms Some by (auto simp: stream_inv_def pending_recv)
  show ?thesis
  proof (cases "next_boundary ?d")
    case None
    have p: "pending s = []" by (rule pending_recv(1) [OF Some None])
    then have "boundaries ?d = []" using Some by (auto simp: pending_def recv_boundary_def split: list.splits)
    then have "pending (s\<lparr>injection_data := Some ?d\<rparr>) = []" using None by (simp add: pending_def)
    then show ?thesis using assms None Some p op by (simp add: inject_step_def stream_inv_def)
  next
    case (Some inject)
    note di = \<open>injection_data s = Some d0\<close>
    have p: "pending s = inject # boundaries ?d" by (rule pending_recv(2) [OF di Some])
    have le: "consumed s \<le> boundary inject" and rest: "inj_ok (boundary inject + isize inject) (boundaries ?d)"
      and bound: "consumed s + length (buffer s) + length (data_of (input s)) + isize inject + sum_list (map isize (boundaries ?d)) < 2 ^ 64"
      using assms p by (auto simp: stream_inv_def)
    obtain pos ch where sc: "scan_unscanned s = Some (pos, ch)"
      and k: "scan_pos s + pos \<le> length (buffer s)" and inv: "input_is_done s \<or> dyn_inv ch (if pos = 0 then buffer s else [])"
      using scan_rest [OF assms] .
    define n where "n = (if pos = 0 then length (buffer s) else scan_pos s + pos)"
    have n: "n \<le> length (buffer s)" using k by (simp add: n_def)
    have cb: "wrapping_add (consumed s) n = consumed s + n"
      using bound n by (simp add: wrapping_add_exact)
    note step = inject_step_def Let_def di Some sc op
    consider (force) "boundary inject \<le> consumed s + n" | (cut) "consumed s + n < boundary inject" "pos \<noteq> 0"
      | (none) "consumed s + n < boundary inject" "pos = 0" by linarith
    then show ?thesis
    proof cases
      case force
      have cs: "wrapping_sub (boundary inject) (consumed s) = boundary inject - consumed s"
        using le force n bound by (intro wrapping_sub_exact) auto
      have le2: "boundary inject - consumed s \<le> length (buffer s)" using force n by linarith
      have w: "wrapping_add (wrapping_add (consumed s) (boundary inject - consumed s)) (isize inject) = boundary inject + isize inject"
        using le force n bound by (simp add: wrapping_add_exact)
      have chr: "input_is_done s \<or> dyn_inv (dyn_reset ch) []" using inv dyn.reset_inv by blast
      show ?thesis
        using force le2 cs w chr assms rest bound op le cb
        by (cases "pos = 0") (auto simp: step n_def split_to_def stream_inv_def pending_def)
    next
      case cut
      then show ?thesis
        using n cb inv assms rest bound op Some
        by (auto simp: step n_def split_to_def stream_inv_def pending_def)
    next
      case none
      then show ?thesis
        using n cb inv assms rest bound op Some le
        by (auto simp: step n_def stream_inv_def pending_def)
    qed
  qed
qed

lemma scan_step_inv:
  assumes "stream_inv s" "pending s = [] \<or> scan_pos s = length (buffer s)"
  shows "\<exists>c s'. scan_step s = Some (c, s') \<and> stream_inv s' \<and>
    (c = None \<longrightarrow> scan_pos s' = length (buffer s'))"
proof (cases "scan_pos s < length (buffer s)")
  case False
  then show ?thesis using assms(1) by (auto simp: scan_step_def stream_inv_def split: if_splits)
next
  case True
  then have nd: "\<not> input_is_done s" using assms(1) by (auto simp: stream_inv_def split: if_splits)
  obtain pos ch where sc: "dyn_scan (drop (scan_pos s) (buffer s)) (stream_ctx s) (dchunker s) = Some (pos, ch)"
    and k: "scan_pos s + pos \<le> length (buffer s)" and inv: "dyn_inv ch (if pos = 0 then buffer s else [])"
    using scan_rest [OF assms(1)] True nd by (auto simp: scan_unscanned_def)
  have p: "pending s = []" using assms(2) True by simp
  then have pe: "pending (s\<lparr>dchunker := x, scan_pos := y\<rparr>) = []"
    "pending (s\<lparr>dchunker := x, buffer := b, scan_pos := y, consumed := z\<rparr>) = []" for x y b z
    by (simp_all add: pending_def)
  have "wrapping_add (consumed s) (scan_pos s + pos) = consumed s + (scan_pos s + pos)"
    using assms(1) k by (intro wrapping_add_exact) (simp add: stream_inv_def)
  then show ?thesis
    using True sc k inv nd assms(1) p
    by (auto simp: scan_step_def split_to_def stream_inv_def pe)
qed

lemma head_step_inv:
  assumes "stream_inv s"
  obtains c s' where "head_step s = Some (c, s')" "stream_inv s'" "c = None \<Longrightarrow> scan_pos s' = length (buffer s')"
proof -
  obtain c s1 where 1: "inject_step s = Some (c, s1)" "stream_inv s1" "c = None \<longrightarrow> pending s1 = [] \<or> scan_pos s1 = length (buffer s1)"
    using inject_step_inv [OF assms] by blast
  show thesis
  proof (cases c)
    case None
    then show thesis using 1 scan_step_inv [OF 1(2)] that by (auto simp: head_step_def)
  next
    case (Some b)
    then show thesis using 1 that by (auto simp: head_step_def)
  qed
qed

lemma stream_inv_arrive:
  assumes "stream_inv s" "input s = ev # evs"
  shows "stream_inv ((arrive ev s)\<lparr>input := evs\<rparr>)"
proof -
  have "sent_boundaries ev = []" using assms by (simp add: stream_inv_def)
  then have "pending ((arrive ev s)\<lparr>input := evs\<rparr>) = pending s"
    by (simp add: pending_def arrive_def split: option.splits)
  then show ?thesis using assms by (auto simp: stream_inv_def arrive_def)
qed

lemma stream_inv_end:
  assumes "stream_inv s"
  shows "stream_inv (snd (stream_end s))"
  using assms by (auto simp: stream_inv_def stream_end_def Let_def pending_def)

lemma stream_inv_extend:
  assumes "stream_inv s" "input s = ev # evs" "outcome ev = ReadyOk d" "\<not> input_is_done s"
  shows "stream_inv ((arrive ev s)\<lparr>input := evs, buffer := buffer s @ d\<rparr>)"
proof -
  have "sent_boundaries ev = []" using assms by (simp add: stream_inv_def)
  then have "pending ((arrive ev s)\<lparr>input := evs, buffer := buffer s @ d\<rparr>) = pending s"
    by (simp add: pending_def arrive_def split: option.splits)
  then show ?thesis using assms by (auto simp: stream_inv_def arrive_def)
qed

lemma poll_loop_inv:
  "stream_inv s \<Longrightarrow> input s = inp \<Longrightarrow> \<exists>r s'. poll_loop inp s = Some (r, s') \<and> stream_inv s'"
proof (induction inp arbitrary: s)
  case Nil
  obtain c s1 where h: "head_step s = Some (c, s1)" "stream_inv s1"
    by (rule head_step_inv [OF Nil(1)])
  have "input s1 = []" using head_step_bytes [OF h(1)] Nil by simp
  then have "s1\<lparr>input := []\<rparr> = s1" by simp
  then show ?case using h stream_inv_end [OF h(2)]
    by (cases c; cases "stream_end s1") (simp_all add: poll_loop.simps [of "[]" s])
next
  case (Cons ev evs)
  obtain c s1 where h: "head_step s = Some (c, s1)" "stream_inv s1"
    by (rule head_step_inv [OF Cons.prems(1)])
  have i: "input s1 = ev # evs" using head_step_bytes [OF h(1)] Cons.prems(2) by simp
  then have same: "s1\<lparr>input := ev # evs\<rparr> = s1" by simp
  show ?case
  proof (cases "c = None \<and> \<not> input_is_done s1")
    case False
    then show ?thesis
      using h same by (cases c) (simp_all add: poll_loop.simps [of "ev # evs" s])
  next
    case True
    let ?s = "(arrive ev s1)\<lparr>input := evs\<rparr>"
    have inv: "stream_inv ?s" by (rule stream_inv_arrive [OF h(2) i])
    show ?thesis
    proof (cases "outcome ev")
      case (ReadyOk d)
      have "stream_inv ((arrive ev s1)\<lparr>input := evs, buffer := buffer s1 @ d\<rparr>)"
        using stream_inv_extend [OF h(2) i ReadyOk] True by simp
      from Cons.IH [OF this] show ?thesis
        using h(1) True ReadyOk by (simp add: poll_loop.simps [of "ev # evs" s] Let_def arrive_def)
    next
      case ReadyNone
      then show ?thesis
        using h(1) True stream_inv_end [OF inv]
        by (cases "stream_end ?s") (simp add: poll_loop.simps [of "ev # evs" s] Let_def)
    qed (use h(1) True inv in \<open>simp_all add: poll_loop.simps [of "ev # evs" s] Let_def\<close>)
  qed
qed

section \<open>The reference cutting of a byte sequence\<close>

function ref_chunks :: "(u8 list \<Rightarrow> bool) \<Rightarrow> u8 list \<Rightarrow> u8 list list" where
  "ref_chunks P data =
     (case cut_from P [] data of
        None \<Rightarrow> if data = [] then [] else [data]
      | Some k \<Rightarrow> take k data # ref_chunks P (drop k data))"
  by pat_completeness auto
termination
  by (relation "measure (\<lambda>(P, data). length data)") (auto dest: cut_from_Some)

declare ref_chunks.simps [simp del]

text \<open>\<^verbatim>\<open>next().await\<close> until the stream ends, with a bound on the number of polls.\<close>

fun drain :: "nat \<Rightarrow> 'e ChunkStream \<Rightarrow> bytes list option" where
  "drain 0 s = None"
| "drain (Suc n) s =
     (case poll_next s of
        Some (ReadyOk b, s') \<Rightarrow> map_option ((#) b) (drain n s')
      | Some (Pending, s') \<Rightarrow> drain n s'
      | Some (ReadyNone, s') \<Rightarrow> Some []
      | _ \<Rightarrow> None)"

definition rest_of :: "'e ChunkStream \<Rightarrow> bytes" where
  "rest_of s = buffer s @ data_of (input s)"

definition plain_event :: "'e event \<Rightarrow> bool" where
  "plain_event ev = (case outcome ev of Pending \<Rightarrow> True | ReadyOk d \<Rightarrow> True | _ \<Rightarrow> False)"

text \<open>A stream with the hash chunker, no injections and an input without errors.\<close>

definition plain :: "ChunkerImpl \<Rightarrow> 'e ChunkStream \<Rightarrow> bool" where
  "plain c0 s \<longleftrightarrow> (\<exists>c. dchunker s = Impl c \<and> same_cfg c0 c \<and> repr c (take (scan_pos s) (buffer s))) \<and>
     scan_pos s \<le> length (buffer s) \<and> cut_from (is_cut c0) [] (take (scan_pos s) (buffer s)) = None \<and>
     injection_data s = None \<and> \<not> input_is_done s \<and> (\<forall>ev \<in> set (input s). plain_event ev)"

lemma plain_head:
  assumes "plain c0 s"
  obtains (cut) k s' where "cut_from (is_cut c0) [] (buffer s) = Some k"
      "head_step s = Some (Some (take k (buffer s)), s')" "plain c0 s'" "buffer s' = drop k (buffer s)" "input s' = input s"
    | (none) s' where "cut_from (is_cut c0) [] (buffer s) = None" "head_step s = Some (None, s')" "plain c0 s'"
      "scan_pos s' = length (buffer s)" "buffer s' = buffer s" "input s' = input s"
proof -
  obtain c where c: "dchunker s = Impl c" "same_cfg c0 c" "repr c (take (scan_pos s) (buffer s))"
    using assms by (auto simp: plain_def)
  have le: "scan_pos s \<le> length (buffer s)" and pre: "cut_from (is_cut c0) [] (take (scan_pos s) (buffer s)) = None"
    and inj: "injection_data s = None"
    using assms by (auto simp: plain_def)
  let ?p = "scan_pos s" and ?d = "drop (scan_pos s) (buffer s)"
  have cut_eq: "is_cut c = is_cut c0" by (rule same_cfg_is_cut [OF c(2)])
  have app: "cut_from (is_cut c0) [] (buffer s) = map_option ((+) ?p) (cut_from (is_cut c0) (take ?p (buffer s)) ?d)"
    using cut_from_append [of "is_cut c0" "[]" "take ?p (buffer s)" ?d] pre le by simp
  have hs: "head_step s = scan_step s" using inj by (simp add: head_step_def inject_step_def)
  show thesis
  proof (cases "?p < length (buffer s)")
    case False
    then show thesis
      using none [of s] app hs le assms by (simp add: scan_step_def)
  next
    case True
    let ?c = "snd (chunker_scan ?d (stream_ctx s) c)"
    have cfg: "same_cfg c0 ?c" by (rule same_cfg_trans [OF c(2) scan_cfg [OF c(3)]])
    show thesis
    proof (cases "cut_from (is_cut c) (take ?p (buffer s)) ?d")
      case None
      have r: "fst (chunker_scan ?d (stream_ctx s) c) = 0" "repr ?c (buffer s)"
        using scan_no_cut [OF c(3) None, of "stream_ctx s"] by simp_all
      show thesis
        using none [of "s\<lparr>dchunker := Impl ?c, scan_pos := length (buffer s)\<rparr>"] app None r cfg c True assms hs cut_eq
        by (simp add: scan_step_def impl_scan_def split_def plain_def)
    next
      case (Some k)
      have r: "fst (chunker_scan ?d (stream_ctx s) c) = k" "repr ?c []" "0 < k" "k \<le> length ?d"
        using scan_cut [OF c(3) Some, of "stream_ctx s"] by simp_all
      show thesis
        using cut [of "?p + k" "s\<lparr>dchunker := Impl ?c, buffer := drop (?p + k) (buffer s), scan_pos := 0,
            consumed := wrapping_add (consumed s) (?p + k)\<rparr>"] app Some r cfg c True assms hs cut_eq
        by (simp add: scan_step_def impl_scan_def split_def plain_def split_to_def)
    qed
  qed
qed

text \<open>One poll of such a stream: the next reference chunk, the last one, a pending input, or the end.\<close>

definition plain_post :: "ChunkerImpl \<Rightarrow> bytes \<Rightarrow> nat \<Rightarrow> ('e, bytes) poll \<Rightarrow> 'e ChunkStream \<Rightarrow> bool" where
  "plain_post c0 D n r s' = (case r of
     Pending \<Rightarrow> plain c0 s' \<and> rest_of s' = D \<and> length (input s') < n
   | ReadyOk b \<Rightarrow>
       (\<exists>k. cut_from (is_cut c0) [] D = Some k \<and> b = take k D \<and> rest_of s' = drop k D \<and> plain c0 s' \<and> length (input s') \<le> n) \<or>
       (cut_from (is_cut c0) [] D = None \<and> b = D \<and> D \<noteq> [] \<and>
        input_is_done s' \<and> buffer s' = [] \<and> scan_pos s' = 0 \<and> injection_data s' = None)
   | ReadyNone \<Rightarrow> D = []
   | ReadyErr e \<Rightarrow> False)"

lemma plain_post_le: "plain_post c0 D m r s' \<Longrightarrow> m \<le> n \<Longrightarrow> plain_post c0 D n r s'"
  by (cases r) (auto simp: plain_post_def)

lemma plain_poll_loop:
  "plain c0 s \<Longrightarrow> input s = inp \<Longrightarrow>
     \<exists>r s'. poll_loop inp s = Some (r, s') \<and> plain_post c0 (rest_of s) (length inp) r s'"
proof (induction inp arbitrary: s)
  case Nil
  from Nil(1) show ?case
  proof (cases rule: plain_head)
    case (cut k s')
    then show ?thesis using Nil
      by (auto simp: poll_loop.simps [of "[]" s] plain_post_def rest_of_def plain_def)
  next
    case (none s')
    then show ?thesis using Nil
      by (auto simp: poll_loop.simps [of "[]" s] plain_post_def rest_of_def plain_def stream_end_def Let_def)
  qed
next
  case (Cons ev evs)
  from Cons.prems(1) show ?case
  proof (cases rule: plain_head)
    case (cut k s')
    have "k \<le> length (buffer s)" using cut_from_Some [OF cut(1)] by simp
    moreover have "cut_from (is_cut c0) [] (rest_of s) = Some k" using cut(1) by (simp add: rest_of_def cut_from_append)
    moreover have "plain c0 (s'\<lparr>input := ev # evs\<rparr>)" using cut(3,5) Cons.prems(2) by (simp add: plain_def)
    ultimately show ?thesis
      using cut Cons.prems(2) by (simp add: poll_loop.simps [of "ev # evs" s] plain_post_def rest_of_def)
  next
    case (none s')
    let ?s = "(arrive ev s')\<lparr>input := evs\<rparr>"
    have nd: "\<not> input_is_done s'" and pe: "plain_event ev" using none Cons.prems by (auto simp: plain_def)
    have pl: "plain c0 (?s\<lparr>buffer := buffer s' @ d\<rparr>)" for d
      using none(3,4,5,6) Cons.prems(2) by (auto simp: plain_def arrive_def)
    show ?thesis
    proof (cases "outcome ev")
      case Pending
      have "plain c0 ?s" using pl [of "[]"] by (simp add: arrive_def)
      then have "plain_post c0 (rest_of s) (length (ev # evs)) Pending ?s"
        using none(5) Cons.prems(2) Pending by (simp add: plain_post_def rest_of_def arrive_def)
      then show ?thesis using none(2) nd Pending by (simp add: poll_loop.simps [of "ev # evs" s] Let_def)
    next
      case (ReadyOk d)
      have "rest_of (?s\<lparr>buffer := buffer s' @ d\<rparr>) = rest_of s"
        using none(5) Cons.prems(2) ReadyOk by (simp add: rest_of_def)
      with Cons.IH [OF pl [of d]] obtain r s'' where
        "poll_loop evs (?s\<lparr>buffer := buffer s' @ d\<rparr>) = Some (r, s'')" "plain_post c0 (rest_of s) (length evs) r s''"
        by auto
      then show ?thesis
        using none(2) nd ReadyOk plain_post_le [of c0 "rest_of s" "length evs" r s'' "length (ev # evs)"]
        by (simp add: poll_loop.simps [of "ev # evs" s] Let_def arrive_def)
    qed (use pe in \<open>simp_all add: plain_event_def\<close>)
  qed
qed

lemma drain_done:
  assumes "input_is_done s" "buffer s = []" "scan_pos s = 0" "injection_data s = None"
  shows "drain (Suc n) s = Some []"
  using assms by (simp add: poll_next_def poll_loop.simps [of "input s" s] head_step_def inject_step_def scan_step_def)

lemma drain_plain:
  "plain c0 s \<Longrightarrow> length (rest_of s) + length (input s) + 2 \<le> n \<Longrightarrow> drain n s = Some (ref_chunks (is_cut c0) (rest_of s))"
proof (induction n arbitrary: s)
  case (Suc n)
  obtain r s' where p: "poll_next s = Some (r, s')" "plain_post c0 (rest_of s) (length (input s)) r s'"
    using plain_poll_loop [OF Suc.prems(1) refl] by (auto simp: poll_next_def)
  show ?case
  proof (cases r)
    case Pending
    with p Suc.IH [of s'] Suc.prems(2) show ?thesis by (simp add: plain_post_def)
  next
    case ReadyNone
    with p show ?thesis by (simp add: plain_post_def ref_chunks.simps)
  next
    case (ReadyErr e)
    with p show ?thesis by (simp add: plain_post_def)
  next
    case (ReadyOk b)
    with p(2) consider (cut) k where "cut_from (is_cut c0) [] (rest_of s) = Some k" "b = take k (rest_of s)"
        "rest_of s' = drop k (rest_of s)" "plain c0 s'" "length (input s') \<le> length (input s)"
      | (last) "cut_from (is_cut c0) [] (rest_of s) = None" "b = rest_of s" "rest_of s \<noteq> []"
        "input_is_done s'" "buffer s' = []" "scan_pos s' = 0" "injection_data s' = None"
      by (auto simp: plain_post_def)
    then show ?thesis
    proof cases
      case (cut k)
      then have "0 < k" "k \<le> length (rest_of s)" using cut_from_Some [OF cut(1)] by simp_all
      with cut Suc.IH [OF cut(4)] Suc.prems(2) have "drain n s' = Some (ref_chunks (is_cut c0) (drop k (rest_of s)))"
        by simp
      then show ?thesis using p(1) ReadyOk cut by (simp add: ref_chunks.simps [of _ "rest_of s"])
    next
      case last
      then obtain m where "n = Suc m" using Suc.prems(2) by (cases n) auto
      then show ?thesis using p(1) ReadyOk last drain_done [of s' m] by (simp add: ref_chunks.simps)
    qed
  qed
qed simp

section \<open>Fixed-size pieces\<close>

definition fdata_of :: "('e, bytes) poll list \<Rightarrow> bytes" where
  "fdata_of inp = concat (map emitted inp)"

lemma fdata_of_simps [simp]: "fdata_of [] = []" "fdata_of (p # ps) = emitted p @ fdata_of ps"
  by (simp_all add: fdata_of_def)

lemma fixed_end_post:
  "fixed_end s = (r, s') \<Longrightarrow> emitted r @ fbuffer s' = fbuffer s \<and> finput s' = finput s \<and>
     fchunk_size s' = fchunk_size s \<and> fdone s' \<and> fbuffer s' = []"
  by (auto simp: fixed_end_def Let_def split: if_splits)

lemma fixed_loop_post:
  "fixed_loop inp s = (r, s') \<Longrightarrow> \<not> fdone s \<Longrightarrow>
     \<exists>taken. inp = taken @ finput s' \<and> emitted r @ fbuffer s' = fbuffer s @ fdata_of taken \<and>
       fchunk_size s' = fchunk_size s \<and> (fdone s' \<longrightarrow> fbuffer s' = []) \<and>
       (\<forall>b. r = ReadyOk b \<longrightarrow> length b = fchunk_size s \<or> fdone s' \<and> b \<noteq> [] \<and> length b < fchunk_size s)"
proof (induction inp arbitrary: s)
  case Nil
  then show ?case
    by (auto simp: fixed_loop.simps [of "[]" s] fixed_end_def Let_def split: if_splits)
next
  case (Cons ev evs)
  show ?case
  proof (cases "length (fbuffer s) \<ge> fchunk_size s")
    case True
    then show ?thesis
      using Cons.prems by (intro exI [of _ "[]"]) (auto simp: fixed_loop.simps [of "ev # evs" s])
  next
    case False
    show ?thesis
    proof (cases ev)
      case (ReadyOk d)
      with False Cons.prems have "fixed_loop evs (s\<lparr>fbuffer := fbuffer s @ d\<rparr>) = (r, s')"
        by (simp add: fixed_loop.simps [of "ReadyOk d # evs" s])
      from Cons.IH [OF this] Cons.prems(2) obtain taken where t: "evs = taken @ finput s'"
        "emitted r @ fbuffer s' = fbuffer s @ d @ fdata_of taken" "fchunk_size s' = fchunk_size s"
        "fdone s' \<longrightarrow> fbuffer s' = []"
        "\<forall>b. r = ReadyOk b \<longrightarrow> length b = fchunk_size s \<or> fdone s' \<and> b \<noteq> [] \<and> length b < fchunk_size s"
        by auto
      then show ?thesis using ReadyOk by (intro exI [of _ "ev # taken"]) simp
    next
      case ReadyNone
      with False Cons.prems show ?thesis
        by (intro exI [of _ "[ev]"])
          (auto simp: fixed_loop.simps [of "_ # evs" s] fixed_end_def Let_def split: if_splits)
    qed (use False Cons.prems in \<open>auto simp: fixed_loop.simps [of "_ # evs" s] intro!: exI [of _ "[ev]"]\<close>)
  qed
qed

section \<open>Properties\<close>

text \<open>Whatever the chunker, the injections and the interleaving of input and channels do, the chunks
  a stream hands out, followed by what it still buffers, are the bytes it had buffered followed by the
  bytes it read: no byte is lost, duplicated or reordered.\<close>

theorem chunk_stream_conserves_bytes:
  assumes "runs s cs s'"
  shows "\<exists>taken. input s = taken @ input s' \<and> concat cs @ buffer s' = buffer s @ data_of taken"
  using assms by (rule runs_bytes)

definition demo_stream :: "unit ChunkStream" where
  "demo_stream = \<lparr>input = [\<lparr>outcome = ReadyOk [1, 2], sent_boundaries = [], sent_suggested = []\<rparr>],
     input_is_done = False, dchunker = Impl chunker_64, buffer = [], scan_pos = 0, consumed = 0,
     injection_data = Some (InjectionData_new [\<lparr>boundary = 1, chunks = [], isize = 5\<rparr>])\<rparr>"

lemma demo_stream_inv: "stream_inv demo_stream"
  by (simp add: stream_inv_def demo_stream_def chunker_64_repr pending_def InjectionData_new_def)

theorem chunk_stream_conserves_bytes_witness:
  "\<exists>cs s' taken. runs demo_stream cs s' \<and> input demo_stream = taken @ input s' \<and>
     concat cs @ buffer s' = buffer demo_stream @ data_of taken"
proof -
  obtain r s1 where "poll_next demo_stream = Some (r, s1)"
    using poll_loop_inv [OF demo_stream_inv refl] by (auto simp: poll_next_def)
  then have "runs demo_stream (chunk_of r @ []) s1" by (rule runs_poll [OF _ runs_refl])
  from this chunk_stream_conserves_bytes [OF this] show ?thesis by blast
qed

text \<open>Polling a chunk stream never panics: the chunker never reports a boundary outside the buffer,
  forced boundaries never reach outside it, and the conditions that guarantee this are kept by every
  poll.\<close>

theorem chunk_stream_no_panic:
  assumes "stream_inv s"
  shows "\<exists>r s'. poll_next s = Some (r, s') \<and> stream_inv s'"
  using poll_loop_inv [OF assms refl] by (simp add: poll_next_def)

theorem chunk_stream_no_panic_witness: "\<exists>r s'. poll_next demo_stream = Some (r, s') \<and> stream_inv s'"
  by (rule chunk_stream_no_panic [OF demo_stream_inv])

text \<open>The chunks of a stream without injections are the reference cutting of its contents: they
  depend on the bytes alone, and not on how the input delivers them, so equal contents give equal
  chunks. The stream ends after at most one poll per byte and input event.\<close>

theorem chunk_stream_deterministic:
  assumes "ChunkStream_new inp (Some avg) None None = Some s" "ChunkerImpl_new avg = Some c"
    and "\<forall>ev \<in> set inp. plain_event ev"
  shows "drain (length (data_of inp) + length inp + 2) s = Some (ref_chunks (is_cut c) (data_of inp))"
proof -
  have s: "s = \<lparr>input = inp, input_is_done = False, dchunker = Impl c, buffer = [], scan_pos = 0,
      consumed = 0, injection_data = None\<rparr>"
    using assms(1,2) by (simp add: ChunkStream_new_def)
  have "plain c s" using assms(3) repr_new [OF assms(2)] by (simp add: plain_def s same_cfg_def)
  from drain_plain [OF this, of "length (data_of inp) + length inp + 2"] show ?thesis
    by (simp add: rest_of_def s del: drain.simps)
qed

definition demo_input :: "unit event list" where
  "demo_input = [\<lparr>outcome = ReadyOk [1, 2], sent_boundaries = [], sent_suggested = []\<rparr>,
     \<lparr>outcome = Pending, sent_boundaries = [], sent_suggested = []\<rparr>,
     \<lparr>outcome = ReadyOk [3], sent_boundaries = [], sent_suggested = []\<rparr>]"

theorem chunk_stream_deterministic_witness:
  "\<exists>s. ChunkStream_new demo_input (Some 64) None None = Some s \<and> drain 8 s = Some [[1, 2, 3]]"
proof -
  obtain s where s: "ChunkStream_new demo_input (Some 64) None None = Some s"
    by (simp add: ChunkStream_new_def chunker_64_new)
  have "ref_chunks (is_cut chunker_64) [1, 2, 3] = [[1, 2, 3]]"
    by (simp add: ref_chunks.simps is_cut_def)
  then show ?thesis
    using s chunk_stream_deterministic [OF s chunker_64_new]
    by (simp add: demo_input_def plain_event_def numeral_eq_Suc)
qed

text \<open>\<^verbatim>\<open>FixedChunkStream\<close> hands out the bytes it reads in order, in pieces of exactly the chunk size;
  only the piece that ends the stream may be shorter, and it is not empty.\<close>

theorem fixed_stream_pieces:
  assumes "fixed_poll_next s = (r, s')" "\<not> fdone s"
  shows "\<exists>taken. finput s = taken @ finput s' \<and> emitted r @ fbuffer s' = fbuffer s @ fdata_of taken \<and>
     (fdone s' \<longrightarrow> fbuffer s' = []) \<and>
     (\<forall>b. r = ReadyOk b \<longrightarrow> length b = fchunk_size s \<or> fdone s' \<and> b \<noteq> [] \<and> length b < fchunk_size s)"
  using fixed_loop_post [of "finput s" s r s'] assms unfolding fixed_poll_next_def by auto

theorem fixed_stream_pieces_witness:
  "\<exists>r s' taken. fixed_poll_next (FixedChunkStream_new [ReadyOk [1, 2, 3 :: u8], ReadyErr ()] 2) = (r, s') \<and>
     [ReadyOk [1, 2, 3], ReadyErr ()] = taken @ finput s' \<and> emitted r @ fbuffer s' = fdata_of taken"
proof -
  let ?s = "FixedChunkStream_new [ReadyOk [1, 2, 3 :: u8], ReadyErr ()] 2"
  obtain r s' where p: "fixed_poll_next ?s = (r, s')" by (cases "fixed_poll_next ?s")
  from fixed_stream_pieces [OF this] p show ?thesis by (auto simp: FixedChunkStream_new_def)
qed

end
