(* ===== verification/Index.thy ===== *)
theory Index
  imports Prelude
begin

text \<open>
  What dynamic and fixed index files share: the memory-mapped file of a header and an array
  (\<^verbatim>\<open>pbs-datastore/src/index_mmap.rs\<close>), the trait \<^verbatim>\<open>IndexFile\<close> with \<^verbatim>\<open>ChunkReadInfo\<close> and
  \<^verbatim>\<open>find_most_used_chunks\<close> (\<^verbatim>\<open>pbs-datastore/src/index.rs\<close>), and the client \<^verbatim>\<open>CachedChunkReader::read_at\<close>
  (\<^verbatim>\<open>pbs-datastore/src/cached_chunk_reader.rs\<close>). The trait is the locale \<open>index_file\<close>; that a read
  returns the archive's bytes is proved once inside it.
\<close>

section \<open>Mapped files\<close>

text \<open>
  A file as \<^verbatim>\<open>fstat\<close> and \<^verbatim>\<open>mmap\<close> see it; \<open>stat_ok\<close> and \<open>mmap_ok\<close> say whether these calls succeed.
\<close>

record File =
  stat_ok :: bool
  regular :: bool
  mmap_ok :: bool
  contents :: bytes

record IndexMmap =
  memory :: bytes
  index_len :: nat

text \<open>
  The sizes and the alignment of the header and entry types are arguments. A mapping starts at a page,
  so that the header is aligned and the array is when the header size is a multiple of its alignment.
\<close>

definition map_read :: "nat \<Rightarrow> nat \<Rightarrow> nat \<Rightarrow> File \<Rightarrow> (err, IndexMmap) result" where
  "map_read size_H size_T align_T f =
     (if \<not> stat_ok f then Err ''fstat failed''
      else if \<not> regular f then Err ''not a regular file''
      else (let size = length (contents f) in
        case checked_sub size size_H of
          None \<Rightarrow> Err ''file too small''
        | Some index_size \<Rightarrow>
            if size_T = 0 \<or> index_size div size_T * size_T \<noteq> index_size
            then Err ''index size is not divisible by element size''
            else if \<not> mmap_ok f then Err ''mmap failed''
            else if size_H mod align_T \<noteq> 0 then Err ''alignment error''
            else Ok \<lparr>memory = contents f, index_len = index_size div size_T\<rparr>))"

definition mmap_header :: "nat \<Rightarrow> IndexMmap \<Rightarrow> bytes" where
  "mmap_header size_H m = take size_H (memory m)"

definition mmap_index :: "nat \<Rightarrow> nat \<Rightarrow> IndexMmap \<Rightarrow> bytes list" where
  "mmap_index size_H size_T m = map (\<lambda>i. slice (size_H + i * size_T) size_T (memory m)) [0..<index_len m]"

definition mmap_size :: "IndexMmap \<Rightarrow> nat" where
  "mmap_size m = length (memory m)"

lemma map_read_Ok:
  "map_read size_H size_T align_T f = Ok m \<longleftrightarrow>
     stat_ok f \<and> regular f \<and> mmap_ok f \<and> size_H \<le> length (contents f) \<and> size_T \<noteq> 0 \<and> size_H mod align_T = 0 \<and>
     memory m = contents f \<and> index_len m * size_T = length (contents f) - size_H"
proof -
  define x where "x = length (contents f) - size_H"
  have d: "x div size_T * size_T = x \<and> index_len m = x div size_T \<longleftrightarrow> index_len m * size_T = x" if "size_T \<noteq> 0"
    using that by (metis nonzero_mult_div_cancel_right)
  show ?thesis
  proof (cases "stat_ok f \<and> regular f \<and> mmap_ok f \<and> size_H \<le> length (contents f) \<and> size_T \<noteq> 0 \<and> size_H mod align_T = 0")
    case True
    then have "map_read size_H size_T align_T f = Ok m \<longleftrightarrow>
        memory m = contents f \<and> x div size_T * size_T = x \<and> index_len m = x div size_T"
      by (cases m) (auto simp: map_read_def Let_def checked_sub_def x_def [symmetric] simp del: div_mult_self_is_m)
    then show ?thesis using d True by (simp add: x_def)
  next
    case False
    then show ?thesis by (auto simp: map_read_def Let_def checked_sub_def)
  qed
qed

text \<open>Writing a header and records and mapping the file gives back the header and the records.\<close>

lemma map_read_records:
  assumes "length hdr = size_H" "\<And>r. r \<in> set rs \<Longrightarrow> length r = size_T" "0 < size_T" "size_H mod align_T = 0"
    "contents f = hdr @ concat rs" "stat_ok f" "regular f" "mmap_ok f"
  obtains m where "map_read size_H size_T align_T f = Ok m" "mmap_header size_H m = hdr"
    "mmap_index size_H size_T m = rs" "index_len m = length rs" "mmap_size m = size_H + length rs * size_T"
proof -
  let ?m = "\<lparr>memory = contents f, index_len = length rs\<rparr>"
  have len: "length (concat rs) = length rs * size_T"
    using length_concat_equal [of rs "\<lambda>r. r" size_T] assms(2) by simp
  have idx: "slice (size_H + i * size_T) size_T (hdr @ concat rs) = rs ! i" if "i < length rs" for i
    using slice_concat_equal [of rs "\<lambda>r. r" size_T i] assms(1,2) that by (simp add: slice_append_right)
  show thesis
  proof (rule that [of ?m])
    show "map_read size_H size_T align_T f = Ok ?m"
      using assms len by (simp add: map_read_Ok)
    show "mmap_index size_H size_T ?m = rs"
      using assms(5) idx by (intro nth_equalityI) (simp_all add: mmap_index_def)
  qed (use assms len in \<open>simp_all add: mmap_header_def mmap_size_def\<close>)
qed

section \<open>The trait IndexFile\<close>

record ChunkReadInfo =
  range_start :: nat
  range_end :: nat
  info_digest :: digest

definition info_size :: "ChunkReadInfo \<Rightarrow> nat" where
  "info_size info = wrapping_sub (range_end info) (range_start info)"

text \<open>\<^verbatim>\<open>find_most_used_chunks\<close>: first the number of uses of each digest.\<close>

definition count_uses :: "digest list \<Rightarrow> digest \<rightharpoonup> nat" where
  "count_uses ds = fold (\<lambda>d m. m(d \<mapsto> (case m d of None \<Rightarrow> 0 | Some n \<Rightarrow> n) + 1)) ds Map.empty"

text \<open>
  Then a vector sorted by count. The hash map is iterated in some order, and \<^verbatim>\<open>binary_search_by_key\<close>
  may return any position that keeps the vector sorted: both are arguments. \<^verbatim>\<open>Ok(p)\<close> and \<^verbatim>\<open>Err(p)\<close> insert
  at \<open>p\<close> alike.
\<close>

definition list_insert :: "nat \<Rightarrow> 'a \<Rightarrow> 'a list \<Rightarrow> 'a list" where
  "list_insert p x xs = take p xs @ x # drop p xs"

definition collect_step ::
  "((digest \<times> nat) list \<Rightarrow> nat \<Rightarrow> nat) \<Rightarrow> nat \<Rightarrow> digest \<times> nat \<Rightarrow> (digest \<times> nat) list \<Rightarrow> (digest \<times> nat) list" where
  "collect_step search maxn dc most_used =
     (if snd dc \<le> 1 then most_used
      else (let most_used' = list_insert (search most_used (snd dc)) dc most_used in
        if length most_used' > maxn then butlast most_used' else most_used'))"

definition find_most_used_chunks ::
  "((digest \<times> nat) list \<Rightarrow> nat \<Rightarrow> nat) \<Rightarrow> (digest \<times> nat) list \<Rightarrow> nat \<Rightarrow> digest \<rightharpoonup> nat" where
  "find_most_used_chunks search entries maxn = map_of (fold (collect_step search maxn) entries [])"

text \<open>What \<^verbatim>\<open>binary_search_by_key\<close> promises about the position, and what iterating the map yields.\<close>

definition search_ok :: "((digest \<times> nat) list \<Rightarrow> nat \<Rightarrow> nat) \<Rightarrow> bool" where
  "search_ok search \<longleftrightarrow> (\<forall>xs n. sorted (map snd xs) \<longrightarrow> search xs n \<le> length xs \<and>
     (\<forall>x \<in> set (take (search xs n) xs). snd x \<le> n) \<and> (\<forall>x \<in> set (drop (search xs n) xs). n \<le> snd x))"

definition iterates :: "(digest \<times> nat) list \<Rightarrow> (digest \<rightharpoonup> nat) \<Rightarrow> bool" where
  "iterates entries m \<longleftrightarrow> distinct (map fst entries) \<and> map_of entries = m"

section \<open>CachedChunkReader::read at\<close>

text \<open>
  \<open>access\<close> is the cached access to a chunk. The result is the bytes copied to the buffer. \<open>None\<close> is a
  panic (a chunk that is shorter than the index says makes the slice fail) or a loop that makes no
  progress.
\<close>

partial_function (option) read_loop ::
  "('i \<Rightarrow> nat \<Rightarrow> (nat \<times> nat) option option) \<Rightarrow> ('i \<Rightarrow> nat \<Rightarrow> ChunkReadInfo option) \<Rightarrow>
   (digest \<Rightarrow> (err, bytes) result) \<Rightarrow> 'i \<Rightarrow> nat \<Rightarrow> nat \<Rightarrow> bytes \<Rightarrow> (err, bytes) result option" where
  "read_loop from_offset chunk_info access i bsize offset buf =
     (if \<not> length buf < bsize then Some (Ok buf)
      else (let cur_offset = wrapping_add offset (length buf) in
        case from_offset i cur_offset of
          None \<Rightarrow> None
        | Some None \<Rightarrow> Some (Ok buf)
        | Some (Some (idx, intra_chunk)) \<Rightarrow>
            (case chunk_info i idx of
               None \<Rightarrow> None
             | Some info \<Rightarrow>
                 (case access (info_digest info) of
                    Inl e \<Rightarrow> Some (Err e)
                  | Inr data \<Rightarrow>
                      (let want_bytes = min (wrapping_sub (range_end info) cur_offset) (bsize - length buf) in
                       if intra_chunk + want_bytes > length data then None
                       else read_loop from_offset chunk_info access i bsize offset
                         (buf @ slice intra_chunk want_bytes data))))))"

definition read_at ::
  "('i \<Rightarrow> nat \<Rightarrow> (nat \<times> nat) option option) \<Rightarrow> ('i \<Rightarrow> nat \<Rightarrow> ChunkReadInfo option) \<Rightarrow>
   (digest \<Rightarrow> (err, bytes) result) \<Rightarrow> 'i \<Rightarrow> nat \<Rightarrow> nat \<Rightarrow> (err, bytes) result option" where
  "read_at from_offset chunk_info access i bsize offset =
     read_loop from_offset chunk_info access i bsize offset []"

section \<open>The contract\<close>

locale index_file =
  fixes wf :: "'i \<Rightarrow> bool"
    and count :: "'i \<Rightarrow> nat"
    and digest_at :: "'i \<Rightarrow> nat \<Rightarrow> digest option"
    and total_bytes :: "'i \<Rightarrow> nat"
    and chunk_info :: "'i \<Rightarrow> nat \<Rightarrow> ChunkReadInfo option"
    and from_offset :: "'i \<Rightarrow> nat \<Rightarrow> (nat \<times> nat) option option"
  assumes info_iff: "wf i \<Longrightarrow> chunk_info i pos \<noteq> None \<longleftrightarrow> pos < count i"
    and digest_info: "wf i \<Longrightarrow> digest_at i pos = map_option info_digest (chunk_info i pos)"
    and offset_in: "wf i \<Longrightarrow> off < total_bytes i \<Longrightarrow>
      \<exists>pos rel info. from_offset i off = Some (Some (pos, rel)) \<and> chunk_info i pos = Some info \<and>
        off = range_start info + rel \<and> off < range_end info"
    and offset_out: "wf i \<Longrightarrow> total_bytes i \<le> off \<Longrightarrow> from_offset i off = Some None"
    and bytes_u64: "wf i \<Longrightarrow> total_bytes i < 2 ^ 64"
begin

text \<open>\<open>D\<close> is the archive that the index describes, when \<open>data\<close> gives the contents of the chunks.\<close>

definition describes :: "'i \<Rightarrow> (digest \<Rightarrow> bytes) \<Rightarrow> bytes \<Rightarrow> bool" where
  "describes i data D \<longleftrightarrow> length D = total_bytes i \<and>
     (\<forall>pos info. chunk_info i pos = Some info \<longrightarrow> range_start info \<le> range_end info \<and> range_end info \<le> length D \<and>
        data (info_digest info) = slice (range_start info) (range_end info - range_start info) D)"

lemma read_loop_correct:
  assumes "wf i" "describes i data D" "\<And>pos info b. chunk_info i pos = Some info \<Longrightarrow> access (info_digest info) = Ok b \<Longrightarrow> b = data (info_digest info)"
  shows "buf = slice off (length buf) D \<Longrightarrow> off \<le> length D \<Longrightarrow> length buf \<le> bsize \<Longrightarrow> off + length buf \<le> length D \<Longrightarrow>
    \<exists>r. read_loop from_offset chunk_info access i bsize off buf = Some r \<and>
      (r = Ok (slice off bsize D) \<or> (\<exists>e pos info. chunk_info i pos = Some info \<and> r = Err e \<and> access (info_digest info) = Err e))"
proof (induction "bsize - length buf" arbitrary: buf rule: less_induct)
  case less
  have D: "length D = total_bytes i" "total_bytes i < 2 ^ 64" using assms(1,2) bytes_u64 by (auto simp: describes_def)
  let ?cur = "off + length buf"
  have cur: "wrapping_add off (length buf) = ?cur" using less.prems D by (intro wrapping_add_exact) simp
  consider (full) "\<not> length buf < bsize" | (eof) "length buf < bsize" "?cur = length D"
    | (more) "length buf < bsize" "?cur < length D" using less.prems(4) by linarith
  then show ?case
  proof cases
    case full
    then have "slice off bsize D = buf" using less.prems(1,3) by simp
    then show ?thesis using full by (simp add: read_loop.simps [of _ _ _ i bsize off buf])
  next
    case eof
    have "slice off bsize D = buf"
      using eof less.prems(1) by (simp add: slice_def)
    then show ?thesis
      using eof offset_out [OF assms(1), of ?cur] D cur by (simp add: read_loop.simps [of _ _ _ i bsize off buf])
  next
    case more
    obtain pos rel info where o: "from_offset i ?cur = Some (Some (pos, rel))" "chunk_info i pos = Some info"
      "?cur = range_start info + rel" "?cur < range_end info"
      using offset_in [OF assms(1), of ?cur] more(2) D by auto
    have info: "range_start info \<le> range_end info" "range_end info \<le> length D"
      "data (info_digest info) = slice (range_start info) (range_end info - range_start info) D"
      using assms(2) o(2) by (auto simp: describes_def)
    show ?thesis
    proof (cases "access (info_digest info)")
      case (Inl e)
      then have "read_loop from_offset chunk_info access i bsize off buf = Some (Err e)"
        using more(1) o cur by (simp add: read_loop.simps [of _ _ _ i bsize off buf])
      with Inl o(2) show ?thesis by blast
    next
      case (Inr b)
      then have b: "b = slice (range_start info) (range_end info - range_start info) D" using assms(3) [OF o(2)] info(3) by simp
      let ?w = "min (range_end info - ?cur) (bsize - length buf)"
      have ws: "wrapping_sub (range_end info) ?cur = range_end info - ?cur"
        using o(4) info(2) D by (intro wrapping_sub_exact) auto
      have fits: "rel + ?w \<le> length b" using b o(3,4) info by (simp add: slice_def)
      have piece: "slice rel ?w b = slice ?cur ?w D"
        unfolding b slice_def using o(3,4) by (simp add: drop_take add.commute min_def)
      have ext: "buf @ slice ?cur ?w D = slice off (length buf + ?w) D"
        using less.prems(1) by (simp add: slice_def take_add add.commute)
      have lw: "length (slice ?cur ?w D) = ?w" using info(2) o(4) by (simp add: slice_def)
      define nb where "nb = buf @ slice ?cur ?w D"
      have len_nb: "length nb = length buf + ?w" and w: "0 < ?w" "?w \<le> bsize - length buf" "?w \<le> range_end info - ?cur"
        using lw more(1) o(4) by (simp_all add: nb_def)
      have nb: "nb = slice off (length nb) D" using ext by (simp only: len_nb) (simp only: nb_def)
      have "\<exists>r. read_loop from_offset chunk_info access i bsize off nb = Some r \<and>
          (r = Ok (slice off bsize D) \<or> (\<exists>e pos info. chunk_info i pos = Some info \<and> r = Err e \<and> access (info_digest info) = Err e))"
        by (rule less.hyps [OF _ nb less.prems(2)]) (use len_nb w o(4) more info(2) in linarith)+
      then show ?thesis
        using more(1) o Inr ws fits piece cur by (simp add: read_loop.simps [of _ _ _ i bsize off buf] nb_def Let_def)
    qed
  qed
qed

lemma read_at_correct:
  assumes "wf i" "describes i data D" "\<And>pos info b. chunk_info i pos = Some info \<Longrightarrow> access (info_digest info) = Ok b \<Longrightarrow> b = data (info_digest info)" "off \<le> length D"
  shows "\<exists>r. read_at from_offset chunk_info access i bsize off = Some r \<and>
    (r = Ok (slice off bsize D) \<or> (\<exists>e pos info. chunk_info i pos = Some info \<and> r = Err e \<and> access (info_digest info) = Err e))"
  unfolding read_at_def
  by (rule read_loop_correct [OF assms(1,2)]) (use assms(3,4) in \<open>auto simp: slice_def\<close>)

lemma read_at_complete:
  assumes "wf i" "describes i data D" "off \<le> length D"
    "\<And>pos info. chunk_info i pos = Some info \<Longrightarrow> access (info_digest info) = Ok (data (info_digest info))"
  shows "read_at from_offset chunk_info access i bsize off = Some (Ok (slice off bsize D))"
proof -
  have "\<exists>r. read_at from_offset chunk_info access i bsize off = Some r \<and>
    (r = Ok (slice off bsize D) \<or> (\<exists>e pos info. chunk_info i pos = Some info \<and> r = Err e \<and> access (info_digest info) = Err e))"
    by (rule read_at_correct [OF assms(1,2) _ assms(3)]) (use assms(4) in simp)
  then show ?thesis using assms(4) by fastforce
qed

end

section \<open>What find most used chunks finds\<close>

lemma count_uses_eq: "count_uses ds d = (if d \<in> set ds then Some (count_list ds d) else None)"
proof (induction ds rule: rev_induct)
  case (snoc x ds)
  have "count_uses (ds @ [x]) =
      (count_uses ds)(x \<mapsto> (case count_uses ds x of None \<Rightarrow> 0 | Some n \<Rightarrow> n) + 1)"
    by (simp add: count_uses_def)
  then show ?case using snoc by (auto simp: count_list_0_iff)
qed (simp add: count_uses_def)

lemma sorted_list_insert:
  assumes "search_ok search" "sorted (map snd xs)"
  shows "sorted (map snd (list_insert (search xs (snd x)) x xs))"
proof -
  let ?p = "search xs (snd x)"
  have p: "?p \<le> length xs" "\<forall>y \<in> set (take ?p xs). snd y \<le> snd x" "\<forall>y \<in> set (drop ?p xs). snd x \<le> snd y"
    using assms by (auto simp: search_ok_def)
  have "sorted (map snd (take ?p xs @ drop ?p xs))" using assms(2) by simp
  then show ?thesis using p by (auto simp: list_insert_def sorted_append simp del: append_take_drop_id)
qed

lemma set_list_insert: "set (list_insert p x xs) = insert x (set xs)"
  by (metis list_insert_def append_take_drop_id list.simps(15) set_append Un_insert_right)

text \<open>
  After any number of entries the vector holds the least used of the digests seen so far: it is full
  when something was dropped, and nothing that was dropped is used less often than what was kept.
\<close>

definition keeps_least :: "nat \<Rightarrow> (digest \<times> nat) set \<Rightarrow> (digest \<times> nat) list \<Rightarrow> bool" where
  "keeps_least maxn seen xs \<longleftrightarrow> sorted (map snd xs) \<and> set xs \<subseteq> seen \<and> distinct xs \<and> length xs \<le> maxn \<and>
     (\<forall>y \<in> seen - set xs. length xs = maxn \<and> (\<forall>x \<in> set xs. snd x \<le> snd y))"

lemma collect_step_keeps:
  assumes "search_ok search" "keeps_least maxn seen xs" "dc \<notin> seen"
  shows "keeps_least maxn (if snd dc \<le> 1 then seen else insert dc seen) (collect_step search maxn dc xs)"
proof (cases "snd dc \<le> 1")
  case True
  then show ?thesis using assms(2) by (simp add: collect_step_def)
next
  case False
  define ys where "ys = list_insert (search xs (snd dc)) dc xs"
  have sx: "sorted (map snd xs)" using assms(2) by (simp add: keeps_least_def)
  have s: "sorted (map snd ys)" unfolding ys_def by (rule sorted_list_insert [OF assms(1) sx])
  have set: "set ys = insert dc (set xs)" by (simp add: ys_def set_list_insert)
  have "search xs (snd dc) \<le> length xs" using assms(1) sx by (simp add: search_ok_def)
  then have len: "length ys = Suc (length xs)" by (simp add: ys_def list_insert_def)
  have "dc \<notin> set xs" "distinct xs" using assms(2,3) by (auto simp: keeps_least_def)
  then have dist: "distinct ys" using set len by (intro card_distinct) (simp add: distinct_card)
  show ?thesis
  proof (cases "length ys > maxn")
    case False
    then show ?thesis
      using \<open>\<not> snd dc \<le> 1\<close> s set len dist assms(2)
      by (auto simp: collect_step_def ys_def [symmetric] Let_def keeps_least_def)
  next
    case True
    then have full: "length xs = maxn" using assms(2) len by (simp add: keeps_least_def)
    obtain zs z where ys: "ys = zs @ [z]" using len by (metis length_Suc_conv_rev)
    have zs: "sorted (map snd zs)" "\<forall>x \<in> set zs. snd x \<le> snd z" "distinct zs" "z \<notin> set zs" "length zs = maxn"
      using s dist len full by (auto simp: ys sorted_append)
    have rest: "snd x \<le> snd y" if "y \<in> insert dc seen - set zs" "x \<in> set zs" for x y
    proof (cases "y = z")
      case False
      then have y: "y \<in> seen - set xs" using that(1) set by (auto simp: ys)
      then have le: "snd w \<le> snd y" if "w \<in> set xs" for w using that assms(2) by (auto simp: keeps_least_def)
      show ?thesis
      proof (cases "x = dc")
        case True
        then have "z \<in> set xs" using set zs(4) that(2) by (auto simp: ys)
        then show ?thesis using le zs(2) that(2) by (meson order_trans)
      next
        case False
        then have "x \<in> set xs" using set that(2) by (auto simp: ys)
        then show ?thesis by (rule le)
      qed
    qed (use zs(2) that(2) in simp)
    have "set zs \<subseteq> insert dc seen" using set assms(2) by (auto simp: ys keeps_least_def)
    then show ?thesis
      using \<open>\<not> snd dc \<le> 1\<close> True zs rest
      by (auto simp: collect_step_def ys_def [symmetric] Let_def ys keeps_least_def)
  qed
qed

lemma fold_keeps:
  assumes "search_ok search"
  shows "keeps_least maxn seen xs \<Longrightarrow> distinct es \<Longrightarrow> set es \<inter> seen = {} \<Longrightarrow>
    keeps_least maxn (seen \<union> {e \<in> set es. 1 < snd e}) (fold (collect_step search maxn) es xs)"
proof (induction es arbitrary: seen xs)
  case (Cons e es)
  from collect_step_keeps [OF assms Cons.prems(1), of e] Cons.prems(3)
  have "keeps_least maxn (if snd e \<le> 1 then seen else insert e seen) (collect_step search maxn e xs)" by simp
  from Cons.IH [OF this] Cons.prems(2,3) have
    "keeps_least maxn ((if snd e \<le> 1 then seen else insert e seen) \<union> {e \<in> set es. 1 < snd e})
      (fold (collect_step search maxn) es (collect_step search maxn e xs))" by auto
  moreover have "(if snd e \<le> 1 then seen else insert e seen) \<union> {e \<in> set es. 1 < snd e} =
      seen \<union> {x \<in> set (e # es). 1 < snd x}" by auto
  ultimately show ?case by simp
qed simp

text \<open>\<^verbatim>\<open>find_most_used_chunks\<close> reports true use counts of repeated chunks, at most \<open>max\<close> of them;
  but where it has to choose, it keeps the chunks that are used least: every repeated chunk left out is
  used at least as often as every chunk reported.\<close>

theorem find_most_used_chunks_keeps_least:
  assumes "search_ok search" "iterates es (count_uses ds)"
  shows "let m = find_most_used_chunks search es maxn in
    card (dom m) \<le> maxn \<and>
    (\<forall>d n. m d = Some n \<longrightarrow> d \<in> set ds \<and> n = count_list ds d \<and> 1 < n) \<and>
    (\<forall>d d' n. m d = Some n \<longrightarrow> 1 < count_list ds d' \<longrightarrow> m d' = None \<longrightarrow> n \<le> count_list ds d')"
proof -
  define xs where "xs = fold (collect_step search maxn) es []"
  have dist: "distinct (map fst es)" and es: "map_of es = count_uses ds"
    using assms(2) by (auto simp: iterates_def)
  have k: "keeps_least maxn {e \<in> set es. 1 < snd e} xs"
    using fold_keeps [OF assms(1), of maxn "{}" "[]" es] dist
    by (simp add: keeps_least_def xs_def distinct_map)
  have in_es: "(d, n) \<in> set es \<longleftrightarrow> d \<in> set ds \<and> n = count_list ds d" for d n
    using map_of_eq_Some_iff [OF dist, of d n] by (auto simp: es count_uses_eq split: if_splits)
  have dx: "distinct (map fst xs)"
    using k dist by (auto simp: keeps_least_def distinct_map intro: inj_on_subset)
  have look: "map_of xs d = Some n \<longleftrightarrow> (d, n) \<in> set xs" for d n
    using map_of_eq_Some_iff [OF dx] by simp
  have "card (dom (map_of xs)) \<le> maxn"
    using k card_length [of "map fst xs"] by (simp add: dom_map_of_conv_image_fst keeps_least_def)
  moreover have "d \<in> set ds \<and> n = count_list ds d \<and> 1 < n" if "map_of xs d = Some n" for d n
    using that k by (auto simp: look keeps_least_def in_es subset_iff)
  moreover have "n \<le> count_list ds d'"
    if "map_of xs d = Some n" "1 < count_list ds d'" "map_of xs d' = None" for d d' n
  proof -
    have "d' \<in> set ds" using that(2) by (metis count_notin not_less_zero)
    then have "(d', count_list ds d') \<in> {e \<in> set es. 1 < snd e} - set xs"
      using that(2,3) look [of d'] by (auto simp: in_es simp del: map_of_eq_None_iff)
    moreover have "(d, n) \<in> set xs" using that(1) look by simp
    ultimately have "snd (d, n) \<le> snd (d', count_list ds d')" using k unfolding keeps_least_def by blast
    then show ?thesis by simp
  qed
  ultimately show ?thesis by (simp add: find_most_used_chunks_def xs_def [symmetric] Let_def)
qed

text \<open>A chunk used three times is dropped for one used twice.\<close>

definition lower_bound :: "(digest \<times> nat) list \<Rightarrow> nat \<Rightarrow> nat" where
  "lower_bound xs n = length (takeWhile (\<lambda>x. snd x < n) xs)"

lemma lower_bound_ok: "search_ok lower_bound"
proof -
  have "n \<le> snd x" if "sorted (map snd xs)" "x \<in> set (dropWhile (\<lambda>x. snd x < n) xs)" for xs :: "(digest \<times> nat) list" and n x
    using that by (induction xs) (auto split: if_splits)
  then show ?thesis
    by (auto simp: search_ok_def lower_bound_def length_takeWhile_le takeWhile_eq_take [symmetric]
        dropWhile_eq_drop [symmetric] dest: set_takeWhileD)
qed

theorem find_most_used_chunks_keeps_least_witness:
  "find_most_used_chunks lower_bound [([7], 3), ([8], 2)] 1 [7] = None \<and>
   find_most_used_chunks lower_bound [([7], 3), ([8], 2)] 1 [8] = Some 2 \<and>
   (2::nat) \<le> count_list [[7], [8], [7], [8], [7]] [7 :: u8]"
proof -
  have it: "iterates [([7], 3), ([8], 2)] (count_uses [[7], [8], [7], [8], [7 :: u8]])"
    by (auto simp: iterates_def count_uses_def fun_eq_iff)
  have e: "find_most_used_chunks lower_bound [([7], 3), ([8], 2)] 1 [7] = None"
    "find_most_used_chunks lower_bound [([7], 3), ([8], 2)] 1 [8] = Some 2"
    by (simp_all add: find_most_used_chunks_def collect_step_def lower_bound_def list_insert_def)
  from find_most_used_chunks_keeps_least [OF lower_bound_ok it, of 1]
  have "(2::nat) \<le> count_list [[7], [8], [7], [8], [7]] [7 :: u8]"
    using e by (simp add: Let_def)
  with e show ?thesis by simp
qed

end
