(* ===== verification/DynamicIndex.thy ===== *)
theory DynamicIndex
  imports Index LruCache
begin

text \<open>
  Dynamic index files (\<^verbatim>\<open>pbs-datastore/src/dynamic_index.rs\<close>): the file format, \<^verbatim>\<open>DynamicIndexReader\<close> with
  its binary search, \<^verbatim>\<open>DynamicIndexWriter\<close>, and \<^verbatim>\<open>BufferedDynamicReader\<close>, which reads an archive through
  the index and the LRU cache. SHA-256 and the chunk store are parameters. Panics are \<open>None\<close>. The buffer
  of the \<^verbatim>\<open>BufWriter\<close> is not separated from the file, and the removal of the temporary file on drop is
  left out.
\<close>

section \<open>File format\<close>

definition DYNAMIC_SIZED_CHUNK_INDEX_1_0 :: bytes where
  "DYNAMIC_SIZED_CHUNK_INDEX_1_0 = [28, 145, 78, 165, 25, 186, 179, 205]"

record DynamicIndexHeader =
  magic :: bytes
  huuid :: bytes
  hctime :: nat
  hindex_csum :: digest
  reserved :: bytes

definition zeroed :: DynamicIndexHeader where
  "zeroed = \<lparr>magic = replicate 8 0, huuid = replicate 16 0, hctime = 0, hindex_csum = replicate 32 0,
     reserved = replicate 4032 0\<rparr>"

definition header_as_bytes :: "DynamicIndexHeader \<Rightarrow> bytes" where
  "header_as_bytes h = magic h @ huuid h @ le_bytes 8 (hctime h) @ hindex_csum h @ reserved h"

text \<open>The view of the mapped bytes as a header.\<close>

definition header_view :: "bytes \<Rightarrow> DynamicIndexHeader" where
  "header_view b = \<lparr>magic = slice 0 8 b, huuid = slice 8 16 b, hctime = le_nat (slice 24 8 b),
     hindex_csum = slice 32 32 b, reserved = slice 64 4032 b\<rparr>"

record DynamicEntry =
  end_le :: bytes
  edigest :: digest

definition entry_view :: "bytes \<Rightarrow> DynamicEntry" where
  "entry_view b = \<lparr>end_le = take 8 b, edigest = drop 8 b\<rparr>"

definition entry_end :: "DynamicEntry \<Rightarrow> nat" where
  "entry_end e = le_nat (take 8 (end_le e))"

section \<open>DynamicIndexReader\<close>

record DynamicIndexReader =
  mmap :: IndexMmap
  ruuid :: bytes
  rctime :: int
  rindex_csum :: digest

definition entries_of :: "IndexMmap \<Rightarrow> DynamicEntry list" where
  "entries_of m = map entry_view (mmap_index 4096 40 m)"

definition reader_index :: "DynamicIndexReader \<Rightarrow> DynamicEntry list" where
  "reader_index r = entries_of (mmap r)"

definition DynamicIndexReader_new :: "File \<Rightarrow> (err, DynamicIndexReader) result" where
  "DynamicIndexReader_new f =
     and_then (map_read 4096 40 8 f) (\<lambda>m.
       let h = header_view (mmap_header 4096 m) in
       if magic h \<noteq> DYNAMIC_SIZED_CHUNK_INDEX_1_0 then Err ''got unknown magic number''
       else if entries_of m = [] then Err ''index must not be empty''
       else Ok \<lparr>mmap = m, ruuid = huuid h, rctime = i64_of_bits (hctime h), rindex_csum = hindex_csum h\<rparr>)"

definition DynamicIndexReader_open :: "(err, File) result \<Rightarrow> (err, DynamicIndexReader) result" where
  "DynamicIndexReader_open opened =
     (case and_then opened DynamicIndexReader_new of
        Inl e \<Rightarrow> Err (''Unable to open dynamic index - '' @ e) | Inr r \<Rightarrow> Ok r)"

definition chunk_end :: "DynamicIndexReader \<Rightarrow> nat \<Rightarrow> nat option" where
  "chunk_end r pos = (if pos \<ge> length (reader_index r) then None else Some (entry_end (reader_index r ! pos)))"

definition chunk_digest :: "DynamicIndexReader \<Rightarrow> nat \<Rightarrow> digest option" where
  "chunk_digest r pos = (if pos \<ge> length (reader_index r) then None else Some (edigest (reader_index r ! pos)))"

text \<open>The recursion may fail to end when \<open>end_idx < start_idx\<close>.\<close>

partial_function (option) binary_search ::
  "DynamicIndexReader \<Rightarrow> nat \<Rightarrow> nat \<Rightarrow> nat \<Rightarrow> nat \<Rightarrow> nat \<Rightarrow> (err, nat) result option" where
  "binary_search r start_idx start end_idx iend offset =
     (if offset \<ge> iend \<or> offset < start then Some (Err ''offset out of range'')
      else if end_idx = start_idx then Some (Ok start_idx)
      else (let middle_idx = (start_idx + end_idx) div 2 in
        case chunk_end r middle_idx of
          None \<Rightarrow> None
        | Some middle_end \<Rightarrow>
            if offset < middle_end then binary_search r start_idx start middle_idx middle_end offset
            else binary_search r (middle_idx + 1) middle_end end_idx iend offset))"

definition index_count :: "DynamicIndexReader \<Rightarrow> nat" where
  "index_count r = length (reader_index r)"

definition index_digest :: "DynamicIndexReader \<Rightarrow> nat \<Rightarrow> digest option" where
  "index_digest r pos = (if pos \<ge> length (reader_index r) then None else chunk_digest r pos)"

definition index_bytes :: "DynamicIndexReader \<Rightarrow> nat option" where
  "index_bytes r = (if reader_index r = [] then Some 0 else chunk_end r (length (reader_index r) - 1))"

definition chunk_info :: "DynamicIndexReader \<Rightarrow> nat \<Rightarrow> ChunkReadInfo option" where
  "chunk_info r pos =
     (if pos \<ge> length (reader_index r) then None
      else Some \<lparr>range_start = (if pos = 0 then 0 else entry_end (reader_index r ! (pos - 1))),
             range_end = entry_end (reader_index r ! pos),
             info_digest = edigest (reader_index r ! pos)\<rparr>)"

text \<open>The hash state is the data hashed so far; the \<^verbatim>\<open>unwrap\<close> is the outer option.\<close>

definition csum_step :: "DynamicIndexReader \<Rightarrow> nat \<Rightarrow> (bytes \<times> nat) option \<Rightarrow> (bytes \<times> nat) option" where
  "csum_step r pos acc =
     (case acc of None \<Rightarrow> None
      | Some (hashed, e) \<Rightarrow>
          (case chunk_info r pos of None \<Rightarrow> None
           | Some info \<Rightarrow> Some (hashed @ le_bytes 8 (range_end info) @ info_digest info, range_end info)))"

definition compute_csum :: "(bytes \<Rightarrow> digest) \<Rightarrow> DynamicIndexReader \<Rightarrow> (digest \<times> nat) option" where
  "compute_csum sha256 r =
     map_option (\<lambda>(hashed, e). (sha256 hashed, e)) (fold (csum_step r) [0..<index_count r] (Some ([], 0)))"

definition index_ctime :: "DynamicIndexReader \<Rightarrow> int" where
  "index_ctime r = rctime r"

definition index_size :: "DynamicIndexReader \<Rightarrow> nat" where
  "index_size r = mmap_size (mmap r)"

definition chunk_from_offset :: "DynamicIndexReader \<Rightarrow> nat \<Rightarrow> (nat \<times> nat) option option" where
  "chunk_from_offset r offset =
     (let end_idx = wrapping_sub (length (reader_index r)) 1 in
      case chunk_end r end_idx of
        None \<Rightarrow> None
      | Some iend \<Rightarrow>
          (case binary_search r 0 0 end_idx iend offset of
             None \<Rightarrow> None
           | Some (Inl e) \<Rightarrow> Some None
           | Some (Inr found_idx) \<Rightarrow>
               (case (if found_idx = 0 then Some 0 else chunk_end r (found_idx - 1)) of
                  None \<Rightarrow> None
                | Some found_start \<Rightarrow> Some (Some (found_idx, wrapping_sub offset found_start)))))"

section \<open>DynamicIndexWriter\<close>

text \<open>
  \<open>written\<close> is the temporary file, \<open>published\<close> the file under the final name. \<open>csum\<close> is the data hashed
  so far. I/O errors are arguments: \<open>Some (e, n)\<close> is a write that fails with \<open>e\<close> after \<open>n\<close> bytes.
\<close>

record DynamicIndexWriter =
  closed :: bool
  csum :: "bytes option"
  wuuid :: bytes
  wctime :: int
  written :: bytes
  published :: "bytes option"

definition DynamicIndexWriter_create ::
  "err option \<Rightarrow> int \<Rightarrow> bytes \<Rightarrow> (err, DynamicIndexWriter) result" where
  "DynamicIndexWriter_create io ctime uuid =
     (case io of
        Some e \<Rightarrow> Err e
      | None \<Rightarrow>
          (let header = zeroed\<lparr>magic := DYNAMIC_SIZED_CHUNK_INDEX_1_0, hctime := i64_bits ctime, huuid := uuid\<rparr> in
           Ok \<lparr>closed = False, csum = Some [], wuuid = uuid, wctime = ctime,
               written = header_as_bytes header, published = None\<rparr>))"

datatype close_fault = NoFault | FlushFault err | CsumFault err nat | RenameFault err

definition csum_offset :: nat where
  "csum_offset = 8 + 16 + 8"

definition writer_close ::
  "(bytes \<Rightarrow> digest) \<Rightarrow> close_fault \<Rightarrow> DynamicIndexWriter \<Rightarrow> ((err, digest) result \<times> DynamicIndexWriter) option" where
  "writer_close sha256 io w =
     (if closed w then Some (Err ''cannot close already closed archive index file'', w)
      else (let w1 = w\<lparr>closed := True\<rparr> in
        case io of
          FlushFault e \<Rightarrow> Some (Err e, w1)
        | _ \<Rightarrow>
            (case csum w1 of
               None \<Rightarrow> None
             | Some hashed \<Rightarrow>
                 (let index_csum = sha256 hashed; w2 = w1\<lparr>csum := None\<rparr> in
                  case io of
                    CsumFault e n \<Rightarrow> Some (Err e, w2\<lparr>written := overwrite csum_offset (take n index_csum) (written w2)\<rparr>)
                  | _ \<Rightarrow>
                      (let w3 = w2\<lparr>written := overwrite csum_offset index_csum (written w2)\<rparr> in
                       case io of
                         RenameFault e \<Rightarrow> Some (Err (''Atomic rename file failed - '' @ e), w3)
                       | _ \<Rightarrow> Some (Ok index_csum, w3\<lparr>published := Some (written w3)\<rparr>))))))"

definition writer_add_chunk ::
  "(err \<times> nat) option \<Rightarrow> nat \<Rightarrow> digest \<Rightarrow> DynamicIndexWriter \<Rightarrow> (err, unit) result \<times> DynamicIndexWriter" where
  "writer_add_chunk io offset digest w =
     (if closed w then (Err ''cannot write to closed dynamic index file'', w)
      else (let offset_le = le_bytes 8 offset;
                w1 = (case csum w of None \<Rightarrow> w | Some hashed \<Rightarrow> w\<lparr>csum := Some (hashed @ offset_le @ digest)\<rparr>) in
        case io of
          None \<Rightarrow> (Ok (), w1\<lparr>written := written w1 @ offset_le @ digest\<rparr>)
        | Some (e, n) \<Rightarrow> (Err e, w1\<lparr>written := written w1 @ take n (offset_le @ digest)\<rparr>)))"

section \<open>BufferedDynamicReader\<close>

record CachedChunk =
  crange_start :: nat
  crange_end :: nat
  cdata :: bytes

definition CachedChunk_new :: "nat \<Rightarrow> nat \<Rightarrow> bytes \<Rightarrow> (err, CachedChunk) result" where
  "CachedChunk_new s e data =
     (if length data \<noteq> wrapping_sub e s then Err ''read chunk with wrong size''
      else Ok \<lparr>crange_start = s, crange_end = e, cdata = data\<rparr>)"

record BufferedDynamicReader =
  bindex :: DynamicIndexReader
  archive_size :: nat
  read_buffer :: bytes
  buffered_chunk_idx :: nat
  buffered_chunk_start :: nat
  read_offset :: nat
  lru_cache :: "(nat, CachedChunk) LruCache"

text \<open>\<^verbatim>\<open>ChunkCacher::fetch\<close>; \<open>read_chunk\<close> is the chunk store.\<close>

definition cacher_fetch ::
  "(digest \<Rightarrow> (err, bytes) result) \<Rightarrow> DynamicIndexReader \<Rightarrow> nat \<Rightarrow> (err, CachedChunk option) result" where
  "cacher_fetch read_chunk r idx =
     (case chunk_info r idx of
        None \<Rightarrow> Err ''chunk index out of range''
      | Some info \<Rightarrow>
          and_then (read_chunk (info_digest info)) (\<lambda>data.
            and_then (CachedChunk_new (range_start info) (range_end info) data) (\<lambda>c. Ok (Some c))))"

definition BufferedDynamicReader_new :: "DynamicIndexReader \<Rightarrow> BufferedDynamicReader option" where
  "BufferedDynamicReader_new r =
     map_option (\<lambda>size. \<lparr>bindex = r, archive_size = size, read_buffer = [], buffered_chunk_idx = 0,
         buffered_chunk_start = 0, read_offset = 0, lru_cache = LruCache_new 32\<rparr>) (index_bytes r)"

definition buffer_chunk ::
  "(digest \<Rightarrow> (err, bytes) result) \<Rightarrow> nat \<Rightarrow> BufferedDynamicReader \<Rightarrow>
   ((err, unit) result \<times> BufferedDynamicReader) option" where
  "buffer_chunk read_chunk idx b =
     (case lru_access idx (cacher_fetch read_chunk (bindex b)) (\<lambda>_. Ok ()) (lru_cache b) of
        None \<Rightarrow> None
      | Some (Inl e, c) \<Rightarrow> Some (Err e, b\<lparr>lru_cache := c\<rparr>)
      | Some (Inr None, c) \<Rightarrow> Some (Err ''chunk not found by cacher'', b\<lparr>lru_cache := c\<rparr>)
      | Some (Inr (Some a), c) \<Rightarrow>
          (case deref_value c a of
             None \<Rightarrow> None
           | Some cached_chunk \<Rightarrow>
               Some (Ok (), b\<lparr>lru_cache := c, read_buffer := cdata cached_chunk, buffered_chunk_idx := idx,
                 buffered_chunk_start := crange_start cached_chunk\<rparr>)))"

text \<open>\<^verbatim>\<open>&self.read_buffer[(offset - self.buffered_chunk_start) as usize..]\<close>\<close>

definition buffer_slice :: "nat \<Rightarrow> BufferedDynamicReader \<Rightarrow> ((err, bytes) result \<times> BufferedDynamicReader) option" where
  "buffer_slice offset b =
     (let buffer_offset = wrapping_sub offset (buffered_chunk_start b) in
      if buffer_offset > length (read_buffer b) then None
      else Some (Ok (drop buffer_offset (read_buffer b)), b))"

definition buffer_then_slice ::
  "(digest \<Rightarrow> (err, bytes) result) \<Rightarrow> nat \<Rightarrow> nat \<Rightarrow> BufferedDynamicReader \<Rightarrow>
   ((err, bytes) result \<times> BufferedDynamicReader) option" where
  "buffer_then_slice read_chunk idx offset b =
     (case buffer_chunk read_chunk idx b of
        None \<Rightarrow> None
      | Some (Inl e, b') \<Rightarrow> Some (Err e, b')
      | Some (Inr _, b') \<Rightarrow> buffer_slice offset b')"

definition outside_buffer :: "nat \<Rightarrow> BufferedDynamicReader \<Rightarrow> bool" where
  "outside_buffer offset b \<longleftrightarrow> read_buffer b = [] \<or> offset < buffered_chunk_start b \<or>
     offset \<ge> wrapping_add (buffered_chunk_start b) (length (read_buffer b))"

text \<open>The part after the optimisation for sequential reads.\<close>

definition search_read ::
  "(digest \<Rightarrow> (err, bytes) result) \<Rightarrow> nat \<Rightarrow> BufferedDynamicReader \<Rightarrow>
   ((err, bytes) result \<times> BufferedDynamicReader) option" where
  "search_read read_chunk offset b =
     (if outside_buffer offset b then
        (let end_idx = wrapping_sub (length (reader_index (bindex b))) 1 in
         case chunk_end (bindex b) end_idx of
           None \<Rightarrow> None
         | Some iend \<Rightarrow>
             (case binary_search (bindex b) 0 0 end_idx iend offset of
                None \<Rightarrow> None
              | Some (Inl e) \<Rightarrow> Some (Err e, b)
              | Some (Inr idx) \<Rightarrow> buffer_then_slice read_chunk idx offset b))
      else buffer_slice offset b)"

definition buffered_read ::
  "(digest \<Rightarrow> (err, bytes) result) \<Rightarrow> nat \<Rightarrow> BufferedDynamicReader \<Rightarrow>
   ((err, bytes) result \<times> BufferedDynamicReader) option" where
  "buffered_read read_chunk offset b =
     (if offset = archive_size b then Some (Ok [], b)
      else if length (read_buffer b) > 0 \<and> buffered_chunk_idx b + 1 < length (reader_index (bindex b)) \<and>
          offset \<ge> wrapping_add (buffered_chunk_start b) (length (read_buffer b)) then
        (case chunk_end (bindex b) (buffered_chunk_idx b + 1) of
           None \<Rightarrow> None
         | Some next_end \<Rightarrow>
             if offset < next_end then buffer_then_slice read_chunk (buffered_chunk_idx b + 1) offset b
             else search_read read_chunk offset b)
      else search_read read_chunk offset b)"

text \<open>\<^verbatim>\<open>Read::read\<close> into a buffer of \<open>n\<close> bytes; the result is the bytes copied.\<close>

definition reader_read ::
  "(digest \<Rightarrow> (err, bytes) result) \<Rightarrow> nat \<Rightarrow> BufferedDynamicReader \<Rightarrow>
   ((err, bytes) result \<times> BufferedDynamicReader) option" where
  "reader_read read_chunk n b =
     (case buffered_read read_chunk (read_offset b) b of
        None \<Rightarrow> None
      | Some (Inl e, b') \<Rightarrow> Some (Err e, b')
      | Some (Inr data, b') \<Rightarrow>
          (let m = (if length data > n then n else length data) in
           Some (Ok (take m data), b'\<lparr>read_offset := wrapping_add (read_offset b') m\<rparr>)))"

datatype SeekFrom = Start nat | SeekEnd int | Current int

text \<open>\<open>as i64\<close> reinterprets the bits, and the additions wrap.\<close>

definition as_i64 :: "nat \<Rightarrow> int" where
  "as_i64 n = i64_of_bits n"

definition wrap_i64 :: "int \<Rightarrow> int" where
  "wrap_i64 c = i64_of_bits (i64_bits c)"

definition reader_seek :: "SeekFrom \<Rightarrow> BufferedDynamicReader \<Rightarrow> (err, nat) result \<times> BufferedDynamicReader" where
  "reader_seek pos b =
     (let new_offset = (case pos of
          Start start_offset \<Rightarrow> as_i64 start_offset
        | SeekEnd end_offset \<Rightarrow> wrap_i64 (as_i64 (archive_size b) + end_offset)
        | Current offset \<Rightarrow> wrap_i64 (as_i64 (read_offset b) + offset)) in
      if new_offset < 0 \<or> new_offset > as_i64 (archive_size b) then (Err ''seek is out of range'', b)
      else (Ok (i64_bits new_offset), b\<lparr>read_offset := i64_bits new_offset\<rparr>))"

text \<open>\<^verbatim>\<open>LocalDynamicReadAt::start_read_at\<close>, with the lock held.\<close>

definition start_read_at ::
  "(digest \<Rightarrow> (err, bytes) result) \<Rightarrow> nat \<Rightarrow> nat \<Rightarrow> BufferedDynamicReader \<Rightarrow>
   ((err, bytes) result \<times> BufferedDynamicReader) option" where
  "start_read_at read_chunk n offset b =
     (case reader_seek (Start offset) b of
        (Inl e, b') \<Rightarrow> Some (Err e, b')
      | (Inr _, b') \<Rightarrow> reader_read read_chunk n b')"

section \<open>The binary search\<close>

text \<open>The first offset of chunk \<open>i\<close>, and the size of the archive.\<close>

definition start_of :: "DynamicIndexReader \<Rightarrow> nat \<Rightarrow> nat" where
  "start_of r i = (if i = 0 then 0 else entry_end (reader_index r ! (i - 1)))"

definition archive_bytes :: "DynamicIndexReader \<Rightarrow> nat" where
  "archive_bytes r = (if reader_index r = [] then 0 else entry_end (last (reader_index r)))"

definition reader_wf :: "DynamicIndexReader \<Rightarrow> bool" where
  "reader_wf r \<longleftrightarrow> reader_index r \<noteq> [] \<and> length (reader_index r) < 2 ^ 64"

lemma entry_end_u64: "entry_end e < 2 ^ 64"
proof -
  have "le_nat (take 8 (end_le e)) < 256 ^ length (take 8 (end_le e))" by (rule le_nat_less)
  also have "\<dots> \<le> 256 ^ 8" by (intro power_increasing) auto
  finally show ?thesis by (simp add: entry_end_def)
qed

lemma chunk_end_Some: "chunk_end r i = Some e \<longleftrightarrow> i < length (reader_index r) \<and> e = entry_end (reader_index r ! i)"
  by (auto simp: chunk_end_def)

lemma index_bytes_eq: "index_bytes r = Some (archive_bytes r)"
  by (cases "reader_index r" rule: rev_cases) (simp_all add: index_bytes_def archive_bytes_def chunk_end_def)

text \<open>No order of the entries is needed: the invariant is that the offset lies between the end of the
  chunk before \<open>s\<close> and the end of chunk \<open>e\<close>.\<close>

lemma binary_search_correct:
  assumes "s \<le> e" "e < length (reader_index r)" "start_of r s \<le> off" "off < entry_end (reader_index r ! e)"
  shows "\<exists>i. binary_search r s (start_of r s) e (entry_end (reader_index r ! e)) off = Some (Ok i) \<and>
    s \<le> i \<and> i \<le> e \<and> start_of r i \<le> off \<and> off < entry_end (reader_index r ! i)"
  using assms
proof (induction "e - s" arbitrary: s e rule: less_induct)
  case less
  let ?E = "\<lambda>i. entry_end (reader_index r ! i)"
  show ?case
  proof (cases "e = s")
    case True
    then show ?thesis using less.prems by (simp add: binary_search.simps [of r s])
  next
    case False
    let ?m = "(s + e) div 2"
    have m: "s \<le> ?m" "?m < e" using False less.prems(1) by auto
    have ce: "chunk_end r ?m = Some (?E ?m)" using m less.prems(2) by (simp add: chunk_end_def)
    show ?thesis
    proof (cases "off < ?E ?m")
      case True
      have "?m - s < e - s" "?m < length (reader_index r)" using m less.prems(2) by linarith+
      from less.hyps [OF this(1) m(1) this(2) less.prems(3) True] obtain i where
        "binary_search r s (start_of r s) ?m (?E ?m) off = Some (Ok i)" "s \<le> i" "i \<le> ?m" "start_of r i \<le> off" "off < ?E i"
        by auto
      then show ?thesis using False True ce m less.prems by (auto simp: binary_search.simps [of r s _ e])
    next
      case right: False
      have st: "start_of r (?m + 1) = ?E ?m" by (simp add: start_of_def)
      have "e - (?m + 1) < e - s" "?m + 1 \<le> e" "?E ?m \<le> off" using m right by linarith+
      with less.hyps [of e "?m + 1"] st less.prems(2,4) obtain i where
        "binary_search r (?m + 1) (?E ?m) e (?E e) off = Some (Ok i)" "?m + 1 \<le> i" "i \<le> e" "start_of r i \<le> off" "off < ?E i"
        by auto
      then show ?thesis using False right ce m less.prems by (auto simp: binary_search.simps [of r s _ e])
    qed
  qed
qed

lemma binary_search_out: "iend \<le> off \<Longrightarrow> binary_search r 0 0 e iend off = Some (Err ''offset out of range'')"
  by (simp add: binary_search.simps)

lemma last_end:
  assumes "reader_wf r"
  shows "wrapping_sub (length (reader_index r)) 1 = length (reader_index r) - 1 \<and>
     chunk_end r (length (reader_index r) - 1) = Some (archive_bytes r)"
proof -
  obtain es e where r: "reader_index r = es @ [e]" using assms by (metis reader_wf_def rev_exhaust)
  have "wrapping_sub (length (reader_index r)) 1 = length (reader_index r) - 1"
    using assms r by (intro wrapping_sub_exact) (simp_all add: reader_wf_def)
  then show ?thesis by (simp add: r chunk_end_def archive_bytes_def)
qed

text \<open>The search over the whole index, as both callers start it.\<close>

lemma search_whole:
  assumes "reader_wf r" "off < archive_bytes r"
  obtains i where "wrapping_sub (length (reader_index r)) 1 = length (reader_index r) - 1"
    "chunk_end r (length (reader_index r) - 1) = Some (archive_bytes r)"
    "binary_search r 0 0 (length (reader_index r) - 1) (archive_bytes r) off = Some (Ok i)"
    "i < length (reader_index r)" "start_of r i \<le> off" "off < entry_end (reader_index r ! i)"
proof -
  let ?n = "length (reader_index r)"
  have n: "0 < ?n" "reader_index r \<noteq> []" "?n < 2 ^ 64" using assms(1) by (auto simp: reader_wf_def)
  have e: "archive_bytes r = entry_end (reader_index r ! (?n - 1))" using n by (simp add: archive_bytes_def last_conv_nth)
  have "start_of r 0 = 0" by (simp add: start_of_def)
  with binary_search_correct [of 0 "?n - 1" r off] n assms(2) e obtain i where
    "binary_search r 0 0 (?n - 1) (archive_bytes r) off = Some (Ok i)" "i \<le> ?n - 1" "start_of r i \<le> off" "off < entry_end (reader_index r ! i)"
    by auto
  moreover from this(2) n(1) have "i < ?n" by linarith
  ultimately show thesis using last_end [OF assms(1)] that by blast
qed

lemma chunk_info_Some:
  "chunk_info r i = Some info \<longleftrightarrow> i < length (reader_index r) \<and>
     info = \<lparr>range_start = start_of r i, range_end = entry_end (reader_index r ! i), info_digest = edigest (reader_index r ! i)\<rparr>"
  by (auto simp: chunk_info_def start_of_def)

interpretation dyn_index: index_file reader_wf index_count index_digest archive_bytes chunk_info chunk_from_offset
proof
  fix r off pos
  assume wf: "reader_wf r"
  show "chunk_info r pos \<noteq> None \<longleftrightarrow> pos < index_count r" by (auto simp: chunk_info_def index_count_def)
  show "index_digest r pos = map_option info_digest (chunk_info r pos)"
    by (simp add: index_digest_def chunk_digest_def chunk_info_def)
  show "archive_bytes r < 2 ^ 64" using entry_end_u64 by (simp add: archive_bytes_def)
  show "chunk_from_offset r off = Some None" if "archive_bytes r \<le> off"
    using last_end [OF wf] binary_search_out [OF that] by (simp add: chunk_from_offset_def)
  show "\<exists>pos rel info. chunk_from_offset r off = Some (Some (pos, rel)) \<and> chunk_info r pos = Some info \<and>
      off = range_start info + rel \<and> off < range_end info" if ob: "off < archive_bytes r"
  proof -
    obtain i where i: "wrapping_sub (length (reader_index r)) 1 = length (reader_index r) - 1"
      "chunk_end r (length (reader_index r) - 1) = Some (archive_bytes r)"
      "binary_search r 0 0 (length (reader_index r) - 1) (archive_bytes r) off = Some (Ok i)"
      "i < length (reader_index r)" "start_of r i \<le> off" "off < entry_end (reader_index r ! i)"
      by (rule search_whole [OF wf ob])
    have off: "off < 2 ^ 64" using i(6) entry_end_u64 by (rule less_trans)
    have "(if i = 0 then Some 0 else chunk_end r (i - 1)) = Some (start_of r i)"
      using i(4) by (auto simp: start_of_def chunk_end_def)
    then have "chunk_from_offset r off = Some (Some (i, off - start_of r i))"
      using i off by (simp add: chunk_from_offset_def wrapping_sub_exact)
    then show ?thesis using i(4,5,6) by (simp add: chunk_info_Some)
  qed
qed

section \<open>Writing and reading back\<close>

fun add_all :: "(nat \<times> digest) list \<Rightarrow> DynamicIndexWriter \<Rightarrow> DynamicIndexWriter" where
  "add_all [] w = w"
| "add_all (e # es) w = add_all es (snd (writer_add_chunk None (fst e) (snd e) w))"

definition entry_bytes :: "nat \<times> digest \<Rightarrow> bytes" where
  "entry_bytes e = le_bytes 8 (fst e) @ snd e"

definition entry_ok :: "nat \<times> digest \<Rightarrow> bool" where
  "entry_ok e \<longleftrightarrow> fst e < 2 ^ 64 \<and> length (snd e) = 32"

lemma length_entry_bytes: "entry_ok e \<Longrightarrow> length (entry_bytes e) = 40"
  by (simp add: entry_ok_def entry_bytes_def)

lemma add_all_eq:
  "\<not> closed w \<Longrightarrow> csum w = Some hashed \<Longrightarrow> add_all es w =
     w\<lparr>csum := Some (hashed @ concat (map entry_bytes es)), written := written w @ concat (map entry_bytes es)\<rparr>"
  by (induction es arbitrary: w hashed) (simp_all add: writer_add_chunk_def entry_bytes_def Let_def)

lemma header_length: "length uuid = 16 \<Longrightarrow> length (header_as_bytes (zeroed\<lparr>magic := DYNAMIC_SIZED_CHUNK_INDEX_1_0,
    hctime := i64_bits ctime, huuid := uuid\<rparr>)) = 4096"
  by (simp add: header_as_bytes_def zeroed_def DYNAMIC_SIZED_CHUNK_INDEX_1_0_def)

text \<open>The header of a finished file: the checksum field is filled in, the rest is as created.\<close>

definition final_header :: "int \<Rightarrow> bytes \<Rightarrow> digest \<Rightarrow> DynamicIndexHeader" where
  "final_header ctime uuid cs = zeroed\<lparr>magic := DYNAMIC_SIZED_CHUNK_INDEX_1_0, hctime := i64_bits ctime,
     huuid := uuid, hindex_csum := cs\<rparr>"

lemma final_header_bytes:
  assumes "length uuid = 16" "length cs = 32"
  shows "overwrite csum_offset cs (header_as_bytes (zeroed\<lparr>magic := DYNAMIC_SIZED_CHUNK_INDEX_1_0,
    hctime := i64_bits ctime, huuid := uuid\<rparr>) @ rest) = header_as_bytes (final_header ctime uuid cs) @ rest"
  using assms
  by (simp add: overwrite_def csum_offset_def header_as_bytes_def zeroed_def final_header_def DYNAMIC_SIZED_CHUNK_INDEX_1_0_def)

lemma final_header_view:
  assumes "length uuid = 16" "length cs = 32"
  shows "header_view (header_as_bytes (final_header ctime uuid cs)) = final_header ctime uuid cs"
  using assms i64_bits_less [of ctime]
  by (simp add: header_view_def slice_def header_as_bytes_def zeroed_def final_header_def DYNAMIC_SIZED_CHUNK_INDEX_1_0_def)

lemma final_header_length:
  "length uuid = 16 \<Longrightarrow> length cs = 32 \<Longrightarrow> length (header_as_bytes (final_header ctime uuid cs)) = 4096"
  by (simp add: header_as_bytes_def zeroed_def final_header_def DYNAMIC_SIZED_CHUNK_INDEX_1_0_def)

definition view_pair :: "DynamicEntry \<Rightarrow> nat \<times> digest" where
  "view_pair e = (entry_end e, edigest e)"

lemma entry_view_bytes: "entry_ok e \<Longrightarrow> view_pair (entry_view (entry_bytes e)) = e"
  by (cases e) (simp add: view_pair_def entry_end_def entry_view_def entry_bytes_def entry_ok_def)

text \<open>Reading a file made of a header and entries.\<close>

lemma reader_new_records:
  assumes "length uuid = 16" "length cs = 32" "fits_i64 ctime" "es \<noteq> []" "\<And>e. e \<in> set es \<Longrightarrow> entry_ok e"
  and "contents f = header_as_bytes (final_header ctime uuid cs) @ concat (map entry_bytes es)"
    "stat_ok f" "regular f" "mmap_ok f"
  obtains r where "DynamicIndexReader_new f = Ok r" "map view_pair (reader_index r) = es" "rctime r = ctime"
    "ruuid r = uuid" "rindex_csum r = cs" "index_size r = 4096 + 40 * length es"
proof -
  obtain m where m: "map_read 4096 40 8 f = Ok m" "mmap_header 4096 m = header_as_bytes (final_header ctime uuid cs)"
    "mmap_index 4096 40 m = map entry_bytes es" "mmap_size m = 4096 + length (map entry_bytes es) * 40"
  proof (rule map_read_records [of "header_as_bytes (final_header ctime uuid cs)" 4096 "map entry_bytes es" 40 8 f])
    show "length x = 40" if "x \<in> set (map entry_bytes es)" for x
      using that assms(5) length_entry_bytes by auto
  qed (use final_header_length [OF assms(1,2)] assms(6-9) in auto)
  have ent: "map view_pair (entries_of m) = es"
    using m(3) entry_view_bytes assms(5) by (simp add: entries_of_def map_idI)
  then have ne: "entries_of m \<noteq> []" using assms(4) by auto
  let ?h = "final_header ctime uuid cs"
  have h: "magic ?h = DYNAMIC_SIZED_CHUNK_INDEX_1_0" "huuid ?h = uuid" "hctime ?h = i64_bits ctime" "hindex_csum ?h = cs"
    by (simp_all add: final_header_def)
  have "DynamicIndexReader_new f = Ok \<lparr>mmap = m, ruuid = uuid, rctime = ctime, rindex_csum = cs\<rparr>"
    using m ne h i64_round_trip [OF assms(3)]
    by (simp add: DynamicIndexReader_new_def final_header_view [OF assms(1,2)] Let_def)
  from that [OF this] show thesis using ent m(4) by (simp add: reader_index_def index_size_def)
qed

text \<open>The checksum of the reader is that of its entries.\<close>

lemma csum_fold:
  "n \<le> index_count r \<Longrightarrow> fold (csum_step r) [0..<n] (Some ([], 0)) =
     Some (concat (map (entry_bytes \<circ> view_pair) (take n (reader_index r))),
           if n = 0 then 0 else entry_end (reader_index r ! (n - 1)))"
proof (induction n)
  case (Suc n)
  then show ?case
    by (simp add: csum_step_def chunk_info_def index_count_def take_Suc_conv_app_nth entry_bytes_def view_pair_def)
qed simp

lemma compute_csum_eq:
  "compute_csum sha256 r = Some (sha256 (concat (map entry_bytes (map view_pair (reader_index r)))), archive_bytes r)"
  using csum_fold [of "index_count r" r]
  by (simp add: compute_csum_def index_count_def archive_bytes_def last_conv_nth)

lemma written_index_opens:
  assumes "\<And>b. length (sha256 b) = 32" "length uuid = 16" "fits_i64 ctime" "es \<noteq> []" "\<And>e. e \<in> set es \<Longrightarrow> entry_ok e"
  shows "\<exists>w0 w cs fin r. DynamicIndexWriter_create None ctime uuid = Ok w0 \<and>
    writer_close sha256 NoFault (add_all es w0) = Some (Ok cs, w) \<and> published w = Some fin \<and>
    DynamicIndexReader_new \<lparr>stat_ok = True, regular = True, mmap_ok = True, contents = fin\<rparr> = Ok r \<and>
    map view_pair (reader_index r) = es \<and> rctime r = ctime \<and> ruuid r = uuid \<and> rindex_csum r = cs \<and>
    compute_csum sha256 r = Some (cs, fst (last es))"
proof -
  define h0 where "h0 = header_as_bytes (zeroed\<lparr>magic := DYNAMIC_SIZED_CHUNK_INDEX_1_0, hctime := i64_bits ctime, huuid := uuid\<rparr>)"
  define data where "data = concat (map entry_bytes es)"
  let ?w0 = "\<lparr>closed = False, csum = Some [], wuuid = uuid, wctime = ctime, written = h0, published = None\<rparr>"
  let ?cs = "sha256 data"
  let ?fin = "header_as_bytes (final_header ctime uuid ?cs) @ data"
  have create: "DynamicIndexWriter_create None ctime uuid = Ok ?w0"
    by (simp add: DynamicIndexWriter_create_def h0_def Let_def)
  have fin: "overwrite csum_offset ?cs (h0 @ data) = ?fin"
    unfolding h0_def by (rule final_header_bytes) (use assms(1,2) in simp_all)
  have close: "\<exists>w. writer_close sha256 NoFault (add_all es ?w0) = Some (Ok ?cs, w) \<and> published w = Some ?fin"
    using add_all_eq [of ?w0 "[]" es] fin by (simp add: writer_close_def Let_def data_def)
  let ?f = "\<lparr>stat_ok = True, regular = True, mmap_ok = True, contents = ?fin\<rparr>"
  obtain r where r: "DynamicIndexReader_new ?f = Ok r" "map view_pair (reader_index r) = es" "rctime r = ctime"
    "ruuid r = uuid" "rindex_csum r = ?cs"
    by (rule reader_new_records [of uuid ?cs ctime es ?f]) (use assms in \<open>simp_all add: data_def\<close>)
  have "archive_bytes r = fst (last es)"
    using assms(4) r(2) by (auto simp: archive_bytes_def view_pair_def last_map)
  then have "compute_csum sha256 r = Some (?cs, fst (last es))" using r(2) by (simp add: compute_csum_eq data_def)
  with create close r show ?thesis by blast
qed

text \<open>C16. An index written by \<^verbatim>\<open>create\<close>, \<^verbatim>\<open>add_chunk\<close> and \<^verbatim>\<open>close\<close> is read back by \<^verbatim>\<open>DynamicIndexReader\<close> with
  the same entries, time and UUID, and the checksum in its header, which \<^verbatim>\<open>close\<close> returned, is the one
  \<^verbatim>\<open>compute_csum\<close> computes from the file.\<close>

theorem dynamic_index_round_trip:
  assumes "\<And>b. length (sha256 b) = 32" "length uuid = 16" "fits_i64 ctime" "es \<noteq> []" "\<And>e. e \<in> set es \<Longrightarrow> entry_ok e"
  shows "\<exists>w0 w cs fin r. DynamicIndexWriter_create None ctime uuid = Ok w0 \<and>
    writer_close sha256 NoFault (add_all es w0) = Some (Ok cs, w) \<and> published w = Some fin \<and>
    DynamicIndexReader_new \<lparr>stat_ok = True, regular = True, mmap_ok = True, contents = fin\<rparr> = Ok r \<and>
    map view_pair (reader_index r) = es \<and> rctime r = ctime \<and> ruuid r = uuid \<and> rindex_csum r = cs \<and>
    compute_csum sha256 r = Some (cs, fst (last es))"
  by (rule written_index_opens [OF assms(1-4)]) (rule assms(5))

text \<open>A 32-byte stand-in for the hash, to instantiate the parameter.\<close>

definition sum_hash :: "bytes \<Rightarrow> digest" where
  "sum_hash b = sum_list b # replicate 31 0"

theorem dynamic_index_round_trip_witness:
  "\<exists>w0 w cs fin r. DynamicIndexWriter_create None (-5) (replicate 16 1) = Ok w0 \<and>
    writer_close sum_hash NoFault (add_all [(10, replicate 32 2), (25, replicate 32 3)] w0) = Some (Ok cs, w) \<and>
    published w = Some fin \<and>
    DynamicIndexReader_new \<lparr>stat_ok = True, regular = True, mmap_ok = True, contents = fin\<rparr> = Ok r \<and>
    map view_pair (reader_index r) = [(10, replicate 32 2), (25, replicate 32 3)] \<and>
    compute_csum sum_hash r = Some (cs, 25)"
proof -
  have "\<And>e. e \<in> set [(10, replicate 32 2), (25, replicate 32 3)] \<Longrightarrow> entry_ok e" by (auto simp: entry_ok_def)
  from dynamic_index_round_trip [of sum_hash "replicate 16 1" "-5" "[(10, replicate 32 2), (25, replicate 32 3)]", OF _ _ _ _ this]
  show ?thesis by (auto simp: sum_hash_def fits_i64_def)
qed

text \<open>\<^verbatim>\<open>chunk_from_offset\<close> finds, for every offset inside the archive and whatever entries the file
  holds, a chunk whose range contains the offset, together with the offset inside it; the binary search
  ends and never leaves the index. For offsets beyond the archive it finds nothing.\<close>

theorem chunk_from_offset_correct:
  assumes "reader_wf r"
  shows "if off < archive_bytes r
    then \<exists>pos rel info. chunk_from_offset r off = Some (Some (pos, rel)) \<and> chunk_info r pos = Some info \<and>
      off = range_start info + rel \<and> off < range_end info
    else chunk_from_offset r off = Some None"
  using dyn_index.offset_in [OF assms] dyn_index.offset_out [OF assms] by simp

definition demo_reader :: DynamicIndexReader where
  "demo_reader = \<lparr>mmap = \<lparr>memory = replicate 4096 0 @ le_bytes 8 10 @ replicate 32 2 @ le_bytes 8 25 @ replicate 32 3,
     index_len = 2\<rparr>, ruuid = replicate 16 0, rctime = 0, rindex_csum = replicate 32 0\<rparr>"

lemma demo_reader_index:
  "reader_index demo_reader = [\<lparr>end_le = le_bytes 8 10, edigest = replicate 32 2\<rparr>, \<lparr>end_le = le_bytes 8 25, edigest = replicate 32 3\<rparr>]"
  by (simp add: reader_index_def entries_of_def demo_reader_def mmap_index_def slice_def entry_view_def numeral_2_eq_2)

lemma demo_reader_wf: "reader_wf demo_reader"
  by (simp add: reader_wf_def demo_reader_index)

lemma demo_reader_bytes: "archive_bytes demo_reader = 25"
  by (simp add: archive_bytes_def demo_reader_index entry_end_def)

theorem chunk_from_offset_correct_witness:
  "\<exists>pos rel info. chunk_from_offset demo_reader 12 = Some (Some (pos, rel)) \<and> chunk_info demo_reader pos = Some info \<and>
     12 = range_start info + rel \<and> 12 < range_end info"
  using chunk_from_offset_correct [OF demo_reader_wf, of 12] by (simp add: demo_reader_bytes)

section \<open>Reading through the buffer and the cache\<close>

text \<open>
  \<open>okd\<close> is what is known of the data the store delivers for a digest. A cached chunk covers the range
  that the index gives for its position.
\<close>

definition chunk_good :: "DynamicIndexReader \<Rightarrow> (digest \<Rightarrow> bytes \<Rightarrow> bool) \<Rightarrow> nat \<Rightarrow> CachedChunk \<Rightarrow> bool" where
  "chunk_good r okd k v \<longleftrightarrow> (\<exists>info. chunk_info r k = Some info \<and> range_start info \<le> range_end info \<and>
     crange_start v = range_start info \<and> crange_end v = range_end info \<and>
     length (cdata v) = range_end info - range_start info \<and> okd (info_digest info) (cdata v))"

definition reader_inv :: "(digest \<Rightarrow> bytes \<Rightarrow> bool) \<Rightarrow> BufferedDynamicReader \<Rightarrow> bool" where
  "reader_inv okd b \<longleftrightarrow> reader_wf (bindex b) \<and> archive_size b = archive_bytes (bindex b) \<and>
     lru_inv (lru_cache b) \<and> lru.sound (chunk_good (bindex b) okd) (lru_cache b) \<and>
     (read_buffer b \<noteq> [] \<longrightarrow> (\<exists>v. chunk_good (bindex b) okd (buffered_chunk_idx b) v \<and>
        crange_start v = buffered_chunk_start b \<and> cdata v = read_buffer b)) \<and>
     read_offset b < 2 ^ 64"

definition store_sound :: "(digest \<Rightarrow> (err, bytes) result) \<Rightarrow> (digest \<Rightarrow> bytes \<Rightarrow> bool) \<Rightarrow> bool" where
  "store_sound read_chunk okd \<longleftrightarrow> (\<forall>d x. read_chunk d = Ok x \<longrightarrow> okd d x)"

text \<open>\<open>out\<close> is the rest, from \<open>off\<close> on, of a chunk that covers \<open>off\<close>.\<close>

definition served :: "DynamicIndexReader \<Rightarrow> (digest \<Rightarrow> bytes \<Rightarrow> bool) \<Rightarrow> nat \<Rightarrow> bytes \<Rightarrow> bool" where
  "served r okd off out \<longleftrightarrow> (\<exists>k v. chunk_good r okd k v \<and> crange_start v \<le> off \<and> off < crange_end v \<and>
     out = drop (off - crange_start v) (cdata v))"

definition same_archive :: "BufferedDynamicReader \<Rightarrow> BufferedDynamicReader \<Rightarrow> bool" where
  "same_archive b b' \<longleftrightarrow> bindex b' = bindex b \<and> archive_size b' = archive_size b \<and> read_offset b' = read_offset b"

lemma chunk_info_end_u64: "chunk_info r k = Some info \<Longrightarrow> range_end info < 2 ^ 64"
  using entry_end_u64 by (auto simp: chunk_info_Some)

lemma fetch_good:
  assumes "store_sound read_chunk okd" "chunk_info r k = Some info" "range_start info \<le> range_end info"
    "cacher_fetch read_chunk r k = Ok (Some v)"
  shows "chunk_good r okd k v"
proof -
  have "wrapping_sub (range_end info) (range_start info) = range_end info - range_start info"
    using assms(2,3) chunk_info_end_u64 by (intro wrapping_sub_exact) auto
  then show ?thesis
    using assms by (auto simp: cacher_fetch_def and_then_eq_Inr CachedChunk_new_def chunk_good_def store_sound_def split: if_splits)
qed

lemma buffer_chunk_inv:
  assumes "reader_inv okd b" "store_sound read_chunk okd" "chunk_info (bindex b) k = Some info"
    "range_start info \<le> range_end info"
  obtains (ok) v b' where "buffer_chunk read_chunk k b = Some (Ok (), b')" "reader_inv okd b'" "same_archive b b'"
      "chunk_good (bindex b) okd k v" "read_buffer b' = cdata v" "buffered_chunk_start b' = range_start info"
    | (error) e where "buffer_chunk read_chunk k b = Some (Err e, b)"
proof -
  have c: "lru_inv (lru_cache b)" "lru.sound (chunk_good (bindex b) okd) (lru_cache b)"
    using assms(1) by (auto simp: reader_inv_def)
  have ok_removed: "\<And>k'. (\<lambda>_ :: nat. Ok () :: (err, unit) result) k' = Ok ()" by simp
  have b: "b\<lparr>lru_cache := lru_cache b\<rparr> = b" by simp
  show thesis
  proof (rule lru.access_sound [OF c ok_removed, of "cacher_fetch read_chunk (bindex b)" k])
    fix v assume "cacher_fetch read_chunk (bindex b) k = Ok (Some v)"
    then show "chunk_good (bindex b) okd k v" by (rule fetch_good [OF assms(2-4)])
  next
    fix a v c'
    assume a: "lru_access k (cacher_fetch read_chunk (bindex b)) (\<lambda>_. Ok ()) (lru_cache b) = Some (Ok (Some a), c')"
      "deref_value c' a = Some v" "chunk_good (bindex b) okd k v" "lru_inv c'" "lru.sound (chunk_good (bindex b) okd) c'"
    have st: "crange_start v = range_start info" using a(3) assms(3) by (auto simp: chunk_good_def)
    show thesis
      using a st assms(1)
      by (intro ok [of "b\<lparr>lru_cache := c', read_buffer := cdata v, buffered_chunk_idx := k, buffered_chunk_start := crange_start v\<rparr>" v])
        (auto simp: buffer_chunk_def reader_inv_def same_archive_def)
  next
    assume "lru_access k (cacher_fetch read_chunk (bindex b)) (\<lambda>_. Ok ()) (lru_cache b) = Some (Ok None, lru_cache b)"
    then show thesis using error b by (simp add: buffer_chunk_def)
  next
    fix e assume "lru_access k (cacher_fetch read_chunk (bindex b)) (\<lambda>_. Ok ()) (lru_cache b) = Some (Err e, lru_cache b)"
    then show thesis using error b by (simp add: buffer_chunk_def)
  qed
qed

text \<open>What every way of serving a read guarantees.\<close>

definition read_post :: "(digest \<Rightarrow> bytes \<Rightarrow> bool) \<Rightarrow> nat \<Rightarrow> BufferedDynamicReader \<Rightarrow>
    ((err, bytes) result \<times> BufferedDynamicReader) option \<Rightarrow> bool" where
  "read_post okd off b res \<longleftrightarrow> (\<exists>r b'. res = Some (r, b') \<and> reader_inv okd b' \<and> same_archive b b' \<and>
     (\<forall>out. r = Ok out \<longrightarrow> served (bindex b) okd off out))"

lemma buffer_slice_post:
  assumes "reader_inv okd b'" "same_archive b b'" "chunk_good (bindex b) okd k v" "read_buffer b' = cdata v"
    "buffered_chunk_start b' = crange_start v" "crange_start v \<le> off" "off < crange_end v"
  shows "read_post okd off b (buffer_slice off b')"
proof -
  have v: "length (cdata v) = crange_end v - crange_start v" "crange_end v < 2 ^ 64"
    using assms(3) chunk_info_end_u64 by (auto simp: chunk_good_def)
  have "wrapping_sub off (crange_start v) = off - crange_start v"
    using assms(6,7) v(2) by (intro wrapping_sub_exact) auto
  then have "buffer_slice off b' = Some (Ok (drop (off - crange_start v) (cdata v)), b')"
    using assms(4-7) v(1) by (simp add: buffer_slice_def Let_def)
  then show ?thesis using assms by (auto simp: read_post_def served_def)
qed

lemma same_archive_refl [simp]: "same_archive b b"
  by (simp add: same_archive_def)

lemma buffer_then_slice_post:
  assumes "reader_inv okd b" "store_sound read_chunk okd" "chunk_info (bindex b) k = Some info"
    "range_start info \<le> off" "off < range_end info"
  shows "read_post okd off b (buffer_then_slice read_chunk k off b)"
proof -
  have le: "range_start info \<le> range_end info" using assms(4,5) by simp
  show ?thesis
    using assms(1-3) le
  proof (cases rule: buffer_chunk_inv)
    case (ok v b')
    then have "crange_start v = range_start info" "crange_end v = range_end info"
      using assms(3) by (auto simp: chunk_good_def)
    then show ?thesis
      using ok assms(4,5) buffer_slice_post [OF ok(2,3,4,5), of off] by (simp add: buffer_then_slice_def)
  next
    case (error e)
    then show ?thesis using assms(1) by (simp add: buffer_then_slice_def read_post_def)
  qed
qed

lemma search_read_post:
  assumes "reader_inv okd b" "store_sound read_chunk okd"
  shows "read_post okd off b (search_read read_chunk off b)"
proof (cases "outside_buffer off b")
  case True
  have wf: "reader_wf (bindex b)" using assms by (auto simp: reader_inv_def)
  show ?thesis
  proof (cases "off < archive_bytes (bindex b)")
    case in_archive: True
    obtain i where i: "wrapping_sub (length (reader_index (bindex b))) 1 = length (reader_index (bindex b)) - 1"
      "chunk_end (bindex b) (length (reader_index (bindex b)) - 1) = Some (archive_bytes (bindex b))"
      "binary_search (bindex b) 0 0 (length (reader_index (bindex b)) - 1) (archive_bytes (bindex b)) off = Some (Ok i)"
      "i < length (reader_index (bindex b))" "start_of (bindex b) i \<le> off" "off < entry_end (reader_index (bindex b) ! i)"
      by (rule search_whole [OF wf in_archive])
    have info: "chunk_info (bindex b) i = Some \<lparr>range_start = start_of (bindex b) i,
        range_end = entry_end (reader_index (bindex b) ! i), info_digest = edigest (reader_index (bindex b) ! i)\<rparr>"
      using i(4) by (simp add: chunk_info_Some)
    have "search_read read_chunk off b = buffer_then_slice read_chunk i off b"
      using True i by (simp add: search_read_def)
    then show ?thesis using buffer_then_slice_post [OF assms(1,2) info] i(5,6) by simp
  next
    case False
    then have "search_read read_chunk off b = Some (Err ''offset out of range'', b)"
      using True last_end [OF wf] binary_search_out [of "archive_bytes (bindex b)" off] by (simp add: search_read_def)
    then show ?thesis using assms(1) by (simp add: read_post_def)
  qed
next
  case False
  then obtain v where v: "chunk_good (bindex b) okd (buffered_chunk_idx b) v" "crange_start v = buffered_chunk_start b"
    "cdata v = read_buffer b" using assms(1) by (auto simp: reader_inv_def outside_buffer_def)
  then have l: "crange_start v + length (read_buffer b) = crange_end v" "crange_end v < 2 ^ 64"
    using chunk_info_end_u64 by (auto simp: chunk_good_def)
  then have "wrapping_add (buffered_chunk_start b) (length (read_buffer b)) = crange_end v"
    using v(2) by (simp add: wrapping_add_exact)
  then show ?thesis
    using False buffer_slice_post [OF assms(1) same_archive_refl v(1), of off] v l
    by (simp add: search_read_def outside_buffer_def)
qed

lemma buffered_read_post:
  assumes "reader_inv okd b" "store_sound read_chunk okd" "off \<noteq> archive_size b"
  shows "read_post okd off b (buffered_read read_chunk off b)"
proof (cases "read_buffer b \<noteq> [] \<and> buffered_chunk_idx b + 1 < length (reader_index (bindex b)) \<and>
    off \<ge> wrapping_add (buffered_chunk_start b) (length (read_buffer b)) \<and>
    off < entry_end (reader_index (bindex b) ! (buffered_chunk_idx b + 1))")
  case True
  let ?k = "buffered_chunk_idx b"
  obtain v where v: "chunk_good (bindex b) okd ?k v" "crange_start v = buffered_chunk_start b"
    "cdata v = read_buffer b" using assms(1) True by (auto simp: reader_inv_def)
  then have l: "crange_start v + length (read_buffer b) = crange_end v" "crange_end v < 2 ^ 64"
    "crange_end v = entry_end (reader_index (bindex b) ! ?k)"
    using chunk_info_end_u64 by (auto simp: chunk_good_def chunk_info_Some)
  have start: "start_of (bindex b) (?k + 1) \<le> off"
    using True l v(2) by (simp add: start_of_def wrapping_add_exact)
  have info: "chunk_info (bindex b) (?k + 1) = Some \<lparr>range_start = start_of (bindex b) (?k + 1),
      range_end = entry_end (reader_index (bindex b) ! (?k + 1)), info_digest = edigest (reader_index (bindex b) ! (?k + 1))\<rparr>"
    using True by (simp add: chunk_info_Some)
  have "buffered_read read_chunk off b = buffer_then_slice read_chunk (?k + 1) off b"
    using True assms(3) by (simp add: buffered_read_def chunk_end_def)
  then show ?thesis using buffer_then_slice_post [OF assms(1,2) info] start True by simp
next
  case False
  then have "buffered_read read_chunk off b = search_read read_chunk off b"
    using assms(3) by (auto simp: buffered_read_def chunk_end_def)
  then show ?thesis using search_read_post [OF assms(1,2)] by simp
qed

lemma served_slice:
  assumes "dyn_index.describes r data D" "served r (\<lambda>d x. x = data d) off out"
  shows "out = slice off (length out) D" "out \<noteq> []" "off + length out \<le> length D"
proof -
  obtain k v where k: "chunk_good r (\<lambda>d x. x = data d) k v" "crange_start v \<le> off" "off < crange_end v"
    "out = drop (off - crange_start v) (cdata v)"
    using assms(2) unfolding served_def by blast
  obtain info where c: "chunk_info r k = Some info" "crange_start v = range_start info" "crange_end v = range_end info"
    "cdata v = data (info_digest info)" "length (cdata v) = range_end info - range_start info"
    using k(1) unfolding chunk_good_def by blast
  note v = c k(2-4) [unfolded c(2,3)]
  have d: "range_end info \<le> length D" "data (info_digest info) = slice (range_start info) (range_end info - range_start info) D"
    using assms(1) v(1) by (auto simp: dyn_index.describes_def)
  have len: "length out = range_end info - off" using v(5-8) by simp
  then show "out \<noteq> []" "off + length out \<le> length D" using v(7) d(1) by auto
  show "out = slice off (length out) D"
    unfolding v(8) len v(4) d(2) slice_def using v(6,7) d(1) by (simp add: drop_take)
qed

lemma reader_read_archive:
  assumes "reader_inv (\<lambda>d x. x = data d) b" "store_sound read_chunk (\<lambda>d x. x = data d)"
    "dyn_index.describes (bindex b) data D" "read_offset b \<le> length D"
  shows "\<exists>r b'. reader_read read_chunk n b = Some (r, b') \<and> reader_inv (\<lambda>d x. x = data d) b' \<and> bindex b' = bindex b \<and>
    (\<forall>e. r = Err e \<longrightarrow> read_offset b' = read_offset b) \<and>
    (\<forall>out. r = Ok out \<longrightarrow> out = slice (read_offset b) (length out) D \<and> length out \<le> n \<and>
      read_offset b' = read_offset b + length out \<and> (out = [] \<longrightarrow> n = 0 \<or> read_offset b = length D))"
proof -
  let ?o = "read_offset b"
  have D: "length D = archive_size b" "archive_size b < 2 ^ 64" "?o \<le> length D"
    using assms(1,3,4) entry_end_u64 by (auto simp: reader_inv_def dyn_index.describes_def archive_bytes_def)
  show ?thesis
  proof (cases "?o = archive_size b")
    case True
    then show ?thesis
      using assms(1) D
      by (auto simp: reader_read_def buffered_read_def Let_def slice_def wrapping_add_def reader_inv_def)
  next
    case lt: False
    obtain r b' where r: "buffered_read read_chunk ?o b = Some (r, b')" "reader_inv (\<lambda>d x. x = data d) b'" "same_archive b b'"
      "\<And>out. r = Ok out \<Longrightarrow> served (bindex b) (\<lambda>d x. x = data d) ?o out"
      using buffered_read_post [OF assms(1,2) lt] by (auto simp: read_post_def)
    show ?thesis
    proof (cases r)
      case (Inl e)
      then show ?thesis using r by (auto simp: reader_read_def same_archive_def)
    next
      case (Inr dat)
      note sl = served_slice [OF assms(3) r(4) [OF Inr]]
      define m where "m = (if length dat > n then n else length dat)"
      have m: "m \<le> length dat" "m \<le> n" "m = 0 \<Longrightarrow> n = 0" using sl(2) by (auto simp: m_def split: if_splits)
      have wr: "wrapping_add ?o m = ?o + m" using sl(3) D m(1) by (intro wrapping_add_exact) simp
      have tk: "take m dat = slice ?o m D" using sl(1) m(1) by (metis slice_def take_take min_absorb1)
      have len: "length (slice ?o m D) = m" using sl(3) m(1) by (simp add: slice_def)
      have res: "reader_read read_chunk n b = Some (Ok (take m dat), b'\<lparr>read_offset := ?o + m\<rparr>)"
        using r(1,3) Inr wr by (simp add: reader_read_def m_def [symmetric] same_archive_def Let_def)
      have inv: "reader_inv okd b' \<Longrightarrow> reader_inv okd (b'\<lparr>read_offset := ?o + m\<rparr>)" for okd
        using sl(3) m(1) D by (simp add: reader_inv_def)
      show ?thesis
        using res inv [OF r(2)] r(3) tk m len by (simp add: same_archive_def) (metis list.size(3))
    qed
  qed
qed

lemma seek_start:
  assumes "archive_size b < 2 ^ 63" "off \<le> archive_size b"
  shows "reader_seek (Start off) b = (Ok off, b\<lparr>read_offset := off\<rparr>)"
proof -
  have "as_i64 off = int off" "as_i64 (archive_size b) = int (archive_size b)"
    using assms by (simp_all add: as_i64_def i64_of_bits_def)
  moreover have "i64_bits (int off) = off"
    using assms by (simp add: i64_bits_def zmod_int [symmetric, of off "2 ^ 64", simplified])
  ultimately show ?thesis using assms by (simp add: reader_seek_def)
qed

text \<open>\<^verbatim>\<open>LocalDynamicReadAt\<close>: reading at any offset of an archive returns bytes of the archive from that
  offset on, at least one byte unless the offset is the end or the buffer is empty, whatever was read
  before: the read buffer, the shortcut for sequential reads and the chunk cache are never stale. The
  only errors are those of the chunk store.\<close>

theorem read_at_returns_archive:
  assumes "reader_inv (\<lambda>d x. x = data d) b" "store_sound read_chunk (\<lambda>d x. x = data d)"
    "dyn_index.describes (bindex b) data D" "length D < 2 ^ 63" "off \<le> length D"
  shows "\<exists>r b'. start_read_at read_chunk n off b = Some (r, b') \<and> reader_inv (\<lambda>d x. x = data d) b' \<and>
    bindex b' = bindex b \<and>
    (\<forall>out. r = Ok out \<longrightarrow> out = slice off (length out) D \<and> length out \<le> n \<and> (out = [] \<longrightarrow> n = 0 \<or> off = length D))"
proof -
  have D: "length D = archive_size b" using assms(1,3) by (auto simp: reader_inv_def dyn_index.describes_def)
  let ?b = "b\<lparr>read_offset := off\<rparr>"
  have "reader_inv (\<lambda>d x. x = data d) ?b" using assms(1,4,5) by (simp add: reader_inv_def)
  from reader_read_archive [OF this assms(2), of D n] assms(3) seek_start [of b off] assms(4,5) D
  show ?thesis by (auto simp: start_read_at_def)
qed

definition demo_data :: "digest \<Rightarrow> bytes" where
  "demo_data d = (if d = replicate 32 2 then replicate 10 7 else replicate 15 8)"

lemma demo_describes: "dyn_index.describes demo_reader demo_data (replicate 10 7 @ replicate 15 8)"
  unfolding dyn_index.describes_def
proof (intro conjI allI impI)
  fix pos info assume i: "chunk_info demo_reader pos = Some info"
  then have "pos = 0 \<or> pos = 1" by (auto simp: chunk_info_Some demo_reader_index)
  with i show "range_start info \<le> range_end info" "range_end info \<le> length (replicate 10 (7::u8) @ replicate 15 8)"
    "demo_data (info_digest info) = slice (range_start info) (range_end info - range_start info) (replicate 10 7 @ replicate 15 8)"
    by (auto simp: chunk_info_Some demo_reader_index start_of_def entry_end_def demo_data_def slice_def)
qed (simp add: demo_reader_bytes)

definition demo_buffered :: BufferedDynamicReader where
  "demo_buffered = \<lparr>bindex = demo_reader, archive_size = 25, read_buffer = [], buffered_chunk_idx = 0,
     buffered_chunk_start = 0, read_offset = 0, lru_cache = LruCache_new 32\<rparr>"

lemma demo_buffered_inv: "reader_inv okd demo_buffered"
  by (simp add: reader_inv_def demo_buffered_def demo_reader_wf demo_reader_bytes lru.sound_def)

theorem read_at_returns_archive_witness:
  "\<exists>r b'. start_read_at (\<lambda>d. Ok (demo_data d)) 4 8 demo_buffered = Some (r, b') \<and>
    (\<forall>out. r = Ok out \<longrightarrow> out = slice 8 (length out) (replicate 10 7 @ replicate 15 8) \<and> out \<noteq> [])"
  using read_at_returns_archive [OF demo_buffered_inv, of "\<lambda>d. Ok (demo_data d)" demo_data "replicate 10 7 @ replicate 15 8" 8 4]
    demo_describes
  by (auto simp: store_sound_def demo_buffered_def)

text \<open>The buffered reader never panics, for any index file that can be opened and any chunk store,
  broken or malicious ones included: wrong chunk sizes and ranges that run backwards are errors.\<close>

theorem buffered_reader_no_panic:
  assumes "reader_inv (\<lambda>_ _. True) b"
  shows "(\<exists>r b'. reader_read read_chunk n b = Some (r, b') \<and> reader_inv (\<lambda>_ _. True) b') \<and>
    reader_inv (\<lambda>_ _. True) (snd (reader_seek pos b))"
proof
  let ?o = "read_offset b" and ?okd = "\<lambda>(_ :: digest) (_ :: bytes). True"
  have st: "store_sound read_chunk ?okd" by (simp add: store_sound_def)
  show "\<exists>r b'. reader_read read_chunk n b = Some (r, b') \<and> reader_inv ?okd b'"
  proof (cases "?o = archive_size b")
    case True
    then show ?thesis
      using assms by (auto simp: reader_read_def buffered_read_def Let_def wrapping_add_def reader_inv_def)
  next
    case False
    obtain r b' where r: "buffered_read read_chunk ?o b = Some (r, b')" "reader_inv ?okd b'"
      using buffered_read_post [OF assms st False] by (auto simp: read_post_def)
    then show ?thesis
      by (cases r) (auto simp: reader_read_def Let_def reader_inv_def wrapping_add_def)
  qed
  show "reader_inv ?okd (snd (reader_seek pos b))"
    using assms i64_bits_less by (auto simp: reader_seek_def Let_def reader_inv_def)
qed

theorem buffered_reader_no_panic_witness:
  "\<exists>r b'. reader_read (\<lambda>d. Ok [1, 2, 3]) 100 demo_buffered = Some (r, b') \<and> reader_inv (\<lambda>_ _. True) b'"
  using buffered_reader_no_panic [OF demo_buffered_inv, of "\<lambda>d. Ok [1, 2, 3]" 100] by blast

end
