(* ===== verification/FixedIndex.thy ===== *)
theory FixedIndex
  imports Index
begin

text \<open>
  Fixed index files (\<^verbatim>\<open>pbs-datastore/src/fixed_index.rs\<close>): \<^verbatim>\<open>FixedIndexReader\<close> and \<^verbatim>\<open>FixedIndexWriter\<close>. The
  writer works on a shared mapping of its temporary file, which is resized as the index grows; the
  model keeps the bytes of that file and whether it is mapped. An access outside the mapping and a
  failed assertion are \<open>None\<close>. SHA-256 and the outcome of the system calls are parameters; the removal
  of the temporary file on drop is left out.
\<close>

section \<open>File format\<close>

definition FIXED_SIZED_CHUNK_INDEX_1_0 :: bytes where
  "FIXED_SIZED_CHUNK_INDEX_1_0 = [47, 127, 65, 237, 145, 253, 15, 205]"

definition FIXED_CHUNK_SIZE :: nat where
  "FIXED_CHUNK_SIZE = 4096 * 1024"

record FixedIndexHeader =
  fh_magic :: bytes
  fh_uuid :: bytes
  fh_ctime :: nat
  fh_index_csum :: digest
  fh_size :: nat
  fh_chunk_size :: nat

definition fixed_header_view :: "bytes \<Rightarrow> FixedIndexHeader" where
  "fixed_header_view b = \<lparr>fh_magic = slice 0 8 b, fh_uuid = slice 8 16 b, fh_ctime = le_nat (slice 24 8 b),
     fh_index_csum = slice 32 32 b, fh_size = le_nat (slice 64 8 b), fh_chunk_size = le_nat (slice 72 8 b)\<rparr>"

definition is_power_of_two :: "nat \<Rightarrow> bool" where
  "is_power_of_two n = (n \<noteq> 0 \<and> n AND (n - 1) = 0)"

section \<open>FixedIndexReader\<close>

record FixedIndexReader =
  fr_mmap :: IndexMmap
  fr_chunk_size :: nat
  fr_size :: nat
  fr_uuid :: bytes
  fr_ctime :: int
  fr_index_csum :: digest

definition FixedIndexReader_new :: "File \<Rightarrow> (err, FixedIndexReader) result" where
  "FixedIndexReader_new f =
     and_then (map_read 4096 32 1 f) (\<lambda>m.
       let h = fixed_header_view (mmap_header 4096 m);
           size = fh_size h; chunk_size = fh_chunk_size h in
       if fh_magic h \<noteq> FIXED_SIZED_CHUNK_INDEX_1_0 then Err ''got unknown magic number''
       else if chunk_size \<noteq> FIXED_CHUNK_SIZE then Err ''got unsupported fixed chunk size''
       else if \<not> is_power_of_two chunk_size then Err ''got non-power-of-two chunk size''
       else (let index_length = div_ceil size chunk_size; expected_index_size = 32 * index_len m in
         if checked_mul index_length 32 \<noteq> Some expected_index_size then Err ''unexpected index size''
         else if index_len m = 0 then Err ''index must not be empty''
         else Ok \<lparr>fr_mmap = m, fr_chunk_size = chunk_size, fr_size = size, fr_uuid = fh_uuid h,
                fr_ctime = i64_of_bits (fh_ctime h), fr_index_csum = fh_index_csum h\<rparr>))"

definition FixedIndexReader_open :: "(err, File) result \<Rightarrow> (err, FixedIndexReader) result" where
  "FixedIndexReader_open opened =
     (case and_then opened FixedIndexReader_new of
        Inl e \<Rightarrow> Err (''Unable to open fixed index - '' @ e) | Inr r \<Rightarrow> Ok r)"

definition fixed_index :: "FixedIndexReader \<Rightarrow> digest list" where
  "fixed_index r = mmap_index 4096 32 (fr_mmap r)"

definition fixed_index_count :: "FixedIndexReader \<Rightarrow> nat" where
  "fixed_index_count r = length (fixed_index r)"

definition fixed_index_digest :: "FixedIndexReader \<Rightarrow> nat \<Rightarrow> digest option" where
  "fixed_index_digest r pos = (if pos < length (fixed_index r) then Some (fixed_index r ! pos) else None)"

definition fixed_index_bytes :: "FixedIndexReader \<Rightarrow> nat" where
  "fixed_index_bytes r = fr_size r"

definition fixed_chunk_info :: "FixedIndexReader \<Rightarrow> nat \<Rightarrow> ChunkReadInfo option" where
  "fixed_chunk_info r pos =
     (case fixed_index_digest r pos of
        None \<Rightarrow> None
      | Some d \<Rightarrow>
          (let start = (pos * fr_chunk_size r) mod 2 ^ 64;
               cend = min (wrapping_add start (fr_chunk_size r)) (fr_size r) in
           Some \<lparr>range_start = start, range_end = cend, info_digest = d\<rparr>))"

definition fixed_index_ctime :: "FixedIndexReader \<Rightarrow> int" where
  "fixed_index_ctime r = fr_ctime r"

definition fixed_index_size :: "FixedIndexReader \<Rightarrow> nat" where
  "fixed_index_size r = mmap_size (fr_mmap r)"

definition fixed_csum_step :: "FixedIndexReader \<Rightarrow> nat \<Rightarrow> (bytes \<times> nat) option \<Rightarrow> (bytes \<times> nat) option" where
  "fixed_csum_step r pos acc =
     (case acc of None \<Rightarrow> None
      | Some (hashed, e) \<Rightarrow>
          (case fixed_chunk_info r pos of None \<Rightarrow> None
           | Some info \<Rightarrow> Some (hashed @ info_digest info, range_end info)))"

definition fixed_compute_csum :: "(bytes \<Rightarrow> digest) \<Rightarrow> FixedIndexReader \<Rightarrow> (digest \<times> nat) option" where
  "fixed_compute_csum sha256 r =
     map_option (\<lambda>(hashed, e). (sha256 hashed, e)) (fold (fixed_csum_step r) [0..<fixed_index_count r] (Some ([], 0)))"

text \<open>The mask is the fast modulo.\<close>

definition fixed_chunk_from_offset :: "FixedIndexReader \<Rightarrow> nat \<Rightarrow> (nat \<times> nat) option" where
  "fixed_chunk_from_offset r offset =
     (if offset \<ge> fr_size r then None
      else Some (offset div fr_chunk_size r, offset AND (fr_chunk_size r - 1)))"

section \<open>FixedIndexWriter\<close>

text \<open>Errors of the system calls of one operation.\<close>

record sys =
  open_err :: "err option"
  ftruncate_err :: "err option"
  mmap_err :: "err option"
  mremap_err :: "err option"
  munmap_err :: "err option"
  rename_err :: "err option"

record FixedIndexWriter =
  fw_chunk_size :: nat
  fw_size :: nat
  index_length :: nat
  index_capacity :: nat
  mapped :: bool
  fdata :: bytes
  fw_uuid :: bytes
  fw_ctime :: int
  growable_size :: bool
  fw_published :: "bytes option"

definition INITIAL_CAPACITY :: nat where
  "INITIAL_CAPACITY = 4096 div 32"

definition file_size :: "nat \<Rightarrow> (err, nat) result" where
  "file_size n =
     (if n = 0 then Err ''fidx file must have at least one chunk''
      else case Option.bind (checked_mul n 32) (\<lambda>s. checked_add s 4096) of
        Some s \<Rightarrow> (if s \<le> 2 ^ 63 - 1 then Ok s else Err ''fidx file size overflow'')
      | None \<Rightarrow> Err ''fidx file size overflow'')"

text \<open>\<^verbatim>\<open>ftruncate\<close>: cut off, or extend with zero bytes.\<close>

definition truncate_to :: "nat \<Rightarrow> bytes \<Rightarrow> bytes" where
  "truncate_to n b = take n b @ replicate (n - length b) 0"

definition fixed_create ::
  "sys \<Rightarrow> int \<Rightarrow> bytes \<Rightarrow> nat option \<Rightarrow> nat \<Rightarrow> (err, FixedIndexWriter) result" where
  "fixed_create io ctime uuid known_size chunk_size =
     (case open_err io of Some e \<Rightarrow> Err e
      | None \<Rightarrow>
        if \<not> is_power_of_two chunk_size then Err ''got non-power-of-two chunk size''
        else if chunk_size \<noteq> FIXED_CHUNK_SIZE then Err ''got unsupported fixed chunk size''
        else (let size = (case known_size of Some s \<Rightarrow> s | None \<Rightarrow> 0);
                  (len, cap) = (case known_size of
                      Some s \<Rightarrow> (div_ceil s chunk_size, div_ceil s chunk_size)
                    | None \<Rightarrow> (0, INITIAL_CAPACITY)) in
          and_then (file_size cap) (\<lambda>fsize.
            case ftruncate_err io of Some e \<Rightarrow> Err e
            | None \<Rightarrow>
              (case mmap_err io of Some e \<Rightarrow> Err e
               | None \<Rightarrow>
                  (let mem = overwrite 8 uuid (overwrite 72 (le_bytes 8 chunk_size)
                         (overwrite 24 (le_bytes 8 (i64_bits ctime))
                           (overwrite 0 FIXED_SIZED_CHUNK_INDEX_1_0 (truncate_to fsize [])))) in
                   Ok \<lparr>fw_chunk_size = chunk_size, fw_size = size, index_length = len, index_capacity = cap,
                       mapped = True, fdata = mem, fw_uuid = uuid, fw_ctime = ctime,
                       growable_size = (known_size = None), fw_published = None\<rparr>)))))"

definition unmap :: "sys \<Rightarrow> FixedIndexWriter \<Rightarrow> (err, unit) result \<times> FixedIndexWriter" where
  "unmap io w =
     (if mapped w then
        (let w' = w\<lparr>mapped := False\<rparr> in
         case file_size (index_capacity w) of
           Inl e \<Rightarrow> (Err (''calculation of index file size for unmapping failed - this should never happen!'' @ e), w')
         | Inr len \<Rightarrow> (case munmap_err io of Some e \<Rightarrow> (Err (''unmap file failed - '' @ e), w') | None \<Rightarrow> (Ok (), w')))
      else (Ok (), w))"

definition set_index_capacity :: "sys \<Rightarrow> nat \<Rightarrow> FixedIndexWriter \<Rightarrow> (err, unit) result \<times> FixedIndexWriter" where
  "set_index_capacity io new_capacity w =
     (if new_capacity = index_capacity w then (Ok (), w)
      else case file_size (index_capacity w) of Inl e \<Rightarrow> (Err e, w)
      | Inr old_size \<Rightarrow>
        (case file_size new_capacity of Inl e \<Rightarrow> (Err e, w)
         | Inr new_size \<Rightarrow>
           if \<not> mapped w then (Err ''Can't resize unmapped FixedIndexWriter'', w)
           else (case ftruncate_err io of Some e \<Rightarrow> (Err e, w)
             | None \<Rightarrow>
               (let w1 = w\<lparr>fdata := truncate_to new_size (fdata w)\<rparr> in
                case mremap_err io of Some e \<Rightarrow> (Err e, w1)
                | None \<Rightarrow> (Ok (), w1\<lparr>index_capacity := new_capacity\<rparr>)))))"

definition set_index_capacity_or_unmap :: "sys \<Rightarrow> nat \<Rightarrow> FixedIndexWriter \<Rightarrow> (err, unit) result \<times> FixedIndexWriter" where
  "set_index_capacity_or_unmap io new_capacity w =
     (case set_index_capacity io new_capacity w of
        (Inr _, w') \<Rightarrow> (Ok (), w')
      | (Inl e, w') \<Rightarrow>
          (case unmap io w' of
             (Inl e', w'') \<Rightarrow> (Err (e' @ ''failed to resize index capacity'' @ e), w'')
           | (Inr _, w'') \<Rightarrow> (Err (''failed to resize index capacity'' @ e), w'')))"

fun next_power_of_two :: "nat \<Rightarrow> nat" where
  "next_power_of_two n = (if n \<le> 1 then 1 else 2 * next_power_of_two ((n + 1) div 2))"

declare next_power_of_two.simps [simp del]

definition checked_next_power_of_two :: "nat \<Rightarrow> nat option" where
  "checked_next_power_of_two n = (if next_power_of_two n < 2 ^ 64 then Some (next_power_of_two n) else None)"

text \<open>The part of \<^verbatim>\<open>grow_to_size\<close> that makes room; the outer \<open>None\<close> of the callers is the assertion.\<close>

definition grow_capacity :: "sys \<Rightarrow> nat \<Rightarrow> nat \<Rightarrow> FixedIndexWriter \<Rightarrow> (err, unit) result \<times> FixedIndexWriter" where
  "grow_capacity io requested_size new_len w =
     (if (new_len * fw_chunk_size w) mod 2 ^ 64 \<noteq> requested_size
      then set_index_capacity_or_unmap io new_len (w\<lparr>growable_size := False\<rparr>)
      else if new_len > index_capacity w then
        (case checked_next_power_of_two new_len of
           None \<Rightarrow> (Err ''capacity overflow'', w)
         | Some new_capacity \<Rightarrow> set_index_capacity_or_unmap io new_capacity w)
      else (Ok (), w))"

definition grow_to_size :: "sys \<Rightarrow> nat \<Rightarrow> FixedIndexWriter \<Rightarrow> ((err, unit) result \<times> FixedIndexWriter) option" where
  "grow_to_size io requested_size w =
     (if fw_size w < requested_size then
        (if \<not> growable_size w then Some (Err ''refusing to resize'', w)
         else (let new_len = div_ceil requested_size (fw_chunk_size w) in
           case grow_capacity io requested_size new_len w of
             (Inl e, w') \<Rightarrow> Some (Err e, w')
           | (Inr _, w') \<Rightarrow>
               if new_len \<le> index_capacity w'
               then Some (Ok (), w'\<lparr>index_length := new_len, fw_size := requested_size\<rparr>) else None))
      else Some (Ok (), w))"

definition fixed_close ::
  "(bytes \<Rightarrow> digest) \<Rightarrow> sys \<Rightarrow> FixedIndexWriter \<Rightarrow> ((err, digest) result \<times> FixedIndexWriter) option" where
  "fixed_close sha256 io w =
     (if \<not> mapped w then Some (Err ''cannot close already closed index file.'', w)
      else if 4096 + index_length w * 32 > length (fdata w) then None
      else (let index_csum = sha256 (slice 4096 (index_length w * 32) (fdata w));
                w1 = w\<lparr>fdata := overwrite 64 (le_bytes 8 (fw_size w)) (overwrite 32 index_csum (fdata w))\<rparr> in
        case unmap io w1 of
          (Inl e, w2) \<Rightarrow> Some (Err e, w2)
        | (Inr _, w2) \<Rightarrow>
            (case (if index_length w2 < index_capacity w2 then
                     (case file_size (index_length w2) of
                        Inl e \<Rightarrow> (Err e, w2)
                      | Inr fsize \<Rightarrow>
                          (case ftruncate_err io of Some e \<Rightarrow> (Err e, w2)
                           | None \<Rightarrow> (Ok (), w2\<lparr>fdata := truncate_to fsize (fdata w2), index_capacity := index_length w2\<rparr>)))
                   else (Ok (), w2)) of
               (Inl e, w3) \<Rightarrow> Some (Err e, w3)
             | (Inr _, w3) \<Rightarrow>
                 (case rename_err io of
                    Some e \<Rightarrow> Some (Err (''Atomic rename file failed - '' @ e), w3)
                  | None \<Rightarrow> Some (Ok index_csum, w3\<lparr>fw_published := Some (fdata w3)\<rparr>)))))"

definition check_chunk_alignment :: "nat \<Rightarrow> nat \<Rightarrow> FixedIndexWriter \<Rightarrow> (err, nat) result" where
  "check_chunk_alignment offset chunk_len w =
     (case checked_sub offset chunk_len of
        None \<Rightarrow> Err ''got chunk with small offset''
      | Some pos \<Rightarrow>
          if offset > fw_size w then Err ''chunk data exceeds size''
          else if (offset \<noteq> fw_size w \<and> chunk_len \<noteq> fw_chunk_size w) \<or> chunk_len > fw_chunk_size w \<or> chunk_len = 0
          then Err ''chunk with unexpected length''
          else if pos AND (fw_chunk_size w - 1) \<noteq> 0 then Err ''got unaligned chunk''
          else Ok (pos div fw_chunk_size w))"

definition add_digest_unchecked :: "nat \<Rightarrow> digest \<Rightarrow> FixedIndexWriter \<Rightarrow> ((err, unit) result \<times> FixedIndexWriter) option" where
  "add_digest_unchecked index digest w =
     (if \<not> mapped w then Some (Err ''cannot write to closed index file.'', w)
      else if 4096 + index * 32 + 32 > length (fdata w) then None
      else Some (Ok (), w\<lparr>fdata := overwrite (4096 + index * 32) (take 32 digest) (fdata w)\<rparr>))"

definition add_digest :: "nat \<Rightarrow> digest \<Rightarrow> FixedIndexWriter \<Rightarrow> ((err, unit) result \<times> FixedIndexWriter) option" where
  "add_digest index digest w =
     (if index \<ge> index_length w then Some (Err ''add digest failed - index out of range'', w)
      else add_digest_unchecked index digest w)"

definition fixed_add_chunk ::
  "sys \<Rightarrow> nat \<Rightarrow> nat \<Rightarrow> digest \<Rightarrow> FixedIndexWriter \<Rightarrow> ((err, unit) result \<times> FixedIndexWriter) option" where
  "fixed_add_chunk io start csize digest w =
     (case checked_add start csize of
        None \<Rightarrow> Some (Err ''add_chunk: start and size are too large'', w)
      | Some cend \<Rightarrow>
          (case grow_to_size io cend w of
             None \<Rightarrow> None
           | Some (Inl e, w') \<Rightarrow> Some (Err e, w')
           | Some (Inr _, w') \<Rightarrow>
               (case check_chunk_alignment cend csize w' of
                  Inl e \<Rightarrow> Some (Err e, w')
                | Inr idx \<Rightarrow> add_digest idx digest w')))"

fun clone_digests :: "FixedIndexReader \<Rightarrow> nat list \<Rightarrow> FixedIndexWriter \<Rightarrow> ((err, unit) result \<times> FixedIndexWriter) option" where
  "clone_digests r [] w = Some (Ok (), w)"
| "clone_digests r (i # is) w =
     (case fixed_index_digest r i of
        None \<Rightarrow> None
      | Some d \<Rightarrow>
          (case add_digest_unchecked i d w of
             None \<Rightarrow> None
           | Some (Inl e, w') \<Rightarrow> Some (Err e, w')
           | Some (Inr _, w') \<Rightarrow> clone_digests r is w'))"

definition clone_data_from :: "sys \<Rightarrow> FixedIndexReader \<Rightarrow> FixedIndexWriter \<Rightarrow> ((err, unit) result \<times> FixedIndexWriter) option" where
  "clone_data_from io r w =
     (if fw_chunk_size w \<noteq> fr_chunk_size r then Some (Err ''can't reuse file with different chunk size'', w)
      else (let count = fixed_index_count r in
        case (if growable_size w \<and> index_capacity w < count then set_index_capacity_or_unmap io count w else (Ok (), w)) of
          (Inl e, w') \<Rightarrow> Some (Err e, w')
        | (Inr _, w') \<Rightarrow> clone_digests r [0..<min count (index_capacity w')] w'))"

section \<open>The reader meets the contract of IndexFile\<close>

lemma chunk_size_pow: "FIXED_CHUNK_SIZE = 2 ^ 22"
  by (simp add: FIXED_CHUNK_SIZE_def)

lemma fast_modulo: "(n :: nat) AND (2 ^ k - 1) = n mod 2 ^ k"
  using take_bit_eq_mask [of k n] by (simp add: take_bit_eq_mod mask_eq_exp_minus_1)

lemma fast_modulo_chunk: "n AND (FIXED_CHUNK_SIZE - 1) = n mod FIXED_CHUNK_SIZE"
  unfolding chunk_size_pow by (rule fast_modulo)

lemma chunk_size_facts: "0 < FIXED_CHUNK_SIZE" "is_power_of_two FIXED_CHUNK_SIZE" "FIXED_CHUNK_SIZE < 2 ^ 64"
proof -
  have "2 ^ 22 AND (2 ^ 22 - 1) = (0 :: nat)" by (simp only: fast_modulo) simp
  then show "is_power_of_two FIXED_CHUNK_SIZE" by (simp add: is_power_of_two_def chunk_size_pow)
qed (simp_all add: FIXED_CHUNK_SIZE_def)

text \<open>
  What \<^verbatim>\<open>new\<close> has checked, and that the size is at least one chunk below the bound of a \<^verbatim>\<open>u64\<close>: beyond
  that, the end of the last chunk would wrap around.
\<close>

definition fixed_wf :: "FixedIndexReader \<Rightarrow> bool" where
  "fixed_wf r \<longleftrightarrow> fr_chunk_size r = FIXED_CHUNK_SIZE \<and> fixed_index r \<noteq> [] \<and>
     length (fixed_index r) = div_ceil (fr_size r) FIXED_CHUNK_SIZE \<and> fr_size r + FIXED_CHUNK_SIZE \<le> 2 ^ 64"

lemma fixed_chunk_info_eq:
  assumes "fixed_wf r" "pos < length (fixed_index r)"
  shows "fixed_chunk_info r pos = Some \<lparr>range_start = pos * FIXED_CHUNK_SIZE,
    range_end = min ((pos + 1) * FIXED_CHUNK_SIZE) (fr_size r), info_digest = fixed_index r ! pos\<rparr>"
    and "pos * FIXED_CHUNK_SIZE < fr_size r"
proof -
  have "\<not> div_ceil (fr_size r) FIXED_CHUNK_SIZE \<le> pos" using assms by (simp add: fixed_wf_def)
  then show lt: "pos * FIXED_CHUNK_SIZE < fr_size r" using chunk_size_facts(1) by (simp add: div_ceil_le_iff)
  let ?s = "pos * FIXED_CHUNK_SIZE"
  have "?s < 2 ^ 64" using lt assms(1) unfolding fixed_wf_def by linarith
  moreover have "?s + FIXED_CHUNK_SIZE < 2 ^ 64" using lt assms(1) unfolding fixed_wf_def by linarith
  ultimately show "fixed_chunk_info r pos = Some \<lparr>range_start = pos * FIXED_CHUNK_SIZE,
    range_end = min ((pos + 1) * FIXED_CHUNK_SIZE) (fr_size r), info_digest = fixed_index r ! pos\<rparr>"
    using assms by (simp add: fixed_chunk_info_def fixed_index_digest_def fixed_wf_def Let_def wrapping_add_exact add.commute)
qed

interpretation fixed: index_file fixed_wf fixed_index_count fixed_index_digest fixed_index_bytes fixed_chunk_info
  "\<lambda>r off. Some (fixed_chunk_from_offset r off)"
proof
  fix r off pos
  assume wf: "fixed_wf r"
  show "fixed_chunk_info r pos \<noteq> None \<longleftrightarrow> pos < fixed_index_count r"
    by (simp add: fixed_chunk_info_def fixed_index_digest_def fixed_index_count_def Let_def)
  show "fixed_index_digest r pos = map_option info_digest (fixed_chunk_info r pos)"
    by (simp add: fixed_chunk_info_def fixed_index_digest_def Let_def)
  show "fixed_index_bytes r < 2 ^ 64"
    using wf chunk_size_facts(1) unfolding fixed_index_bytes_def fixed_wf_def by linarith
  show "Some (fixed_chunk_from_offset r off) = Some None" if "fixed_index_bytes r \<le> off"
    using that by (simp add: fixed_chunk_from_offset_def fixed_index_bytes_def)
  show "\<exists>pos rel info. Some (fixed_chunk_from_offset r off) = Some (Some (pos, rel)) \<and>
      fixed_chunk_info r pos = Some info \<and> off = range_start info + rel \<and> off < range_end info"
    if "off < fixed_index_bytes r"
  proof -
    let ?k = "off div FIXED_CHUNK_SIZE"
    have lt: "off < fr_size r" using that by (simp add: fixed_index_bytes_def)
    have "off < (?k + 1) * FIXED_CHUNK_SIZE"
      using dividend_less_div_times [OF chunk_size_facts(1), of off] by (simp add: add.commute)
    moreover have "\<not> fr_size r \<le> ?k * FIXED_CHUNK_SIZE" using lt div_times_less_eq_dividend [of off FIXED_CHUNK_SIZE] by linarith
    then have "?k < length (fixed_index r)" using wf chunk_size_facts(1) div_ceil_le_iff [of FIXED_CHUNK_SIZE "fr_size r" ?k]
      by (auto simp: fixed_wf_def)
    moreover have "fixed_chunk_from_offset r off = Some (?k, off mod FIXED_CHUNK_SIZE)"
      using wf lt by (simp add: fixed_chunk_from_offset_def fixed_wf_def fast_modulo_chunk [simplified])
    ultimately show ?thesis using fixed_chunk_info_eq(1) [OF wf] lt by simp
  qed
qed

lemma fixed_csum_fold:
  "fixed_wf r \<Longrightarrow> n \<le> fixed_index_count r \<Longrightarrow> fold (fixed_csum_step r) [0..<n] (Some ([], 0)) =
     Some (concat (take n (fixed_index r)), min (n * FIXED_CHUNK_SIZE) (fr_size r))"
proof (induction n)
  case (Suc n)
  then show ?case
    by (simp add: fixed_csum_step_def fixed_chunk_info_eq fixed_index_count_def take_Suc_conv_app_nth)
qed simp

lemma fixed_compute_csum_eq:
  assumes "fixed_wf r"
  shows "fixed_compute_csum sha256 r = Some (sha256 (concat (fixed_index r)), fr_size r)"
proof -
  have "fr_size r \<le> length (fixed_index r) * FIXED_CHUNK_SIZE"
    using assms div_ceil_bounds(1) [OF chunk_size_facts(1)] by (simp add: fixed_wf_def)
  then show ?thesis
    using fixed_csum_fold [OF assms, of "fixed_index_count r"] by (simp add: fixed_compute_csum_def fixed_index_count_def min_def)
qed

section \<open>The writer's invariant\<close>

lemma file_size_Ok: "file_size n = Ok s \<longleftrightarrow> 0 < n \<and> s = 4096 + n * 32 \<and> 4096 + n * 32 \<le> 2 ^ 63 - 1"
  by (auto simp: file_size_def checked_mul_def checked_add_def)

lemma next_power_of_two_ge: "n \<le> next_power_of_two n"
proof (induction n rule: next_power_of_two.induct)
  case (1 n)
  show ?case
  proof (cases "n \<le> 1")
    case False
    with 1 have "(n + 1) div 2 \<le> next_power_of_two ((n + 1) div 2)" by simp
    then have "n \<le> 2 * next_power_of_two ((n + 1) div 2)" by linarith
    then show ?thesis using False by (subst next_power_of_two.simps) simp
  qed (subst next_power_of_two.simps, simp)
qed

text \<open>The header fields that \<^verbatim>\<open>create\<close> wrote and nothing changes.\<close>

definition header_ok :: "FixedIndexWriter \<Rightarrow> bool" where
  "header_ok w \<longleftrightarrow> slice 0 8 (fdata w) = FIXED_SIZED_CHUNK_INDEX_1_0 \<and> slice 8 16 (fdata w) = fw_uuid w \<and>
     slice 24 8 (fdata w) = le_bytes 8 (i64_bits (fw_ctime w)) \<and> slice 72 8 (fdata w) = le_bytes 8 FIXED_CHUNK_SIZE"

definition sizes_ok :: "FixedIndexWriter \<Rightarrow> bool" where
  "sizes_ok w \<longleftrightarrow> fw_chunk_size w = FIXED_CHUNK_SIZE \<and> fw_size w < 2 ^ 64 \<and>
     index_length w = div_ceil (fw_size w) FIXED_CHUNK_SIZE \<and> index_length w \<le> index_capacity w \<and>
     (growable_size w \<longrightarrow> fw_size w mod FIXED_CHUNK_SIZE = 0)"

definition fixed_inv :: "FixedIndexWriter \<Rightarrow> bool" where
  "fixed_inv w \<longleftrightarrow> sizes_ok w \<and> (mapped w \<longrightarrow> file_size (index_capacity w) = Ok (length (fdata w)) \<and> header_ok w)"

definition slot :: "FixedIndexWriter \<Rightarrow> nat \<Rightarrow> digest" where
  "slot w i = slice (4096 + i * 32) 32 (fdata w)"

text \<open>Writing behind the header, and resizing, keep the header.\<close>

lemma header_ok_cong:
  "slice 0 80 (fdata w') = slice 0 80 (fdata w) \<Longrightarrow> fw_uuid w' = fw_uuid w \<Longrightarrow> fw_ctime w' = fw_ctime w \<Longrightarrow>
     header_ok w' \<longleftrightarrow> header_ok w"
proof -
  assume a: "slice 0 80 (fdata w') = slice 0 80 (fdata w)" "fw_uuid w' = fw_uuid w" "fw_ctime w' = fw_ctime w"
  have sub: "slice o1 n (slice 0 80 b) = slice o1 n b" if "o1 + n \<le> 80" for o1 n and b :: bytes
    using that by (simp add: slice_def drop_take min_def)
  have "slice o1 n (fdata w') = slice o1 n (fdata w)" if "o1 + n \<le> 80" for o1 n
    using sub [OF that, of "fdata w'"] sub [OF that, of "fdata w"] a(1) by simp
  then show ?thesis using a(2,3) by (simp add: header_ok_def)
qed

lemma length_truncate: "length (truncate_to n b) = n"
  by (simp add: truncate_to_def)

lemma slice_truncate: "o1 + n \<le> m \<Longrightarrow> o1 + n \<le> length b \<Longrightarrow> slice o1 n (truncate_to m b) = slice o1 n b"
  by (simp add: truncate_to_def slice_def drop_take min_def)

lemma mapped_length:
  "fixed_inv w \<Longrightarrow> mapped w \<Longrightarrow> length (fdata w) = 4096 + index_capacity w * 32 \<and> 0 < index_capacity w"
  by (simp add: fixed_inv_def file_size_Ok)

lemma unmap_frame:
  "unmap io w = (r, w') \<Longrightarrow> \<not> mapped w' \<and> w' = w\<lparr>mapped := False\<rparr>"
  by (auto simp: unmap_def Let_def split: if_splits sum.splits option.splits)

lemma unmap_sizes: "unmap io w = (r, w') \<Longrightarrow> sizes_ok w' \<longleftrightarrow> sizes_ok w"
  using unmap_frame [of io w r w'] by (simp add: sizes_ok_def)

text \<open>What a resize guarantees: the capacity asked for and the old slots below it, or no mapping.\<close>

definition resized :: "nat \<Rightarrow> FixedIndexWriter \<Rightarrow> (err, unit) result \<Rightarrow> FixedIndexWriter \<Rightarrow> bool" where
  "resized n w r w' \<longleftrightarrow> fw_size w' = fw_size w \<and> index_length w' = index_length w \<and> fw_chunk_size w' = fw_chunk_size w \<and>
     growable_size w' = growable_size w \<and> fw_published w' = fw_published w \<and> fw_uuid w' = fw_uuid w \<and> fw_ctime w' = fw_ctime w \<and>
     (case r of
        Inl e \<Rightarrow> \<not> mapped w' \<and> index_capacity w' = index_capacity w
      | Inr _ \<Rightarrow> index_capacity w' = n \<and> mapped w' = mapped w \<and>
          (mapped w \<longrightarrow> file_size n = Ok (length (fdata w')) \<and> slice 0 80 (fdata w') = slice 0 80 (fdata w) \<and>
             (\<forall>i. i < n \<and> i < index_capacity w \<longrightarrow> slot w' i = slot w i)))"

lemma resize_post:
  assumes "mapped w \<Longrightarrow> file_size (index_capacity w) = Ok (length (fdata w))"
    "set_index_capacity_or_unmap io n w = (r, w')"
  shows "resized n w r w'"
proof (cases "set_index_capacity io n w")
  case (Pair r1 w1)
  show ?thesis
  proof (cases r1)
    case (Inl e)
    have "w1 = w \<or> (\<exists>b. w1 = w\<lparr>fdata := b\<rparr>)"
      using Pair Inl by (auto simp: set_index_capacity_def Let_def split: if_splits sum.splits option.splits)
    then obtain b where frame: "w1 = w\<lparr>fdata := b\<rparr>" by (metis FixedIndexWriter.surjective FixedIndexWriter.update_convs(6))
    obtain r2 w2 where u: "unmap io w1 = (r2, w2)" by (cases "unmap io w1")
    then have w': "w' = w2" "\<exists>e. r = Err e" using assms(2) Pair Inl by (auto simp: set_index_capacity_or_unmap_def split: sum.splits)
    have w2: "w2 = w1\<lparr>mapped := False\<rparr>" using unmap_frame [OF u] by simp
    have "fw_size w2 = fw_size w \<and> index_length w2 = index_length w \<and> fw_chunk_size w2 = fw_chunk_size w \<and>
        growable_size w2 = growable_size w \<and> fw_published w2 = fw_published w \<and> fw_uuid w2 = fw_uuid w \<and>
        fw_ctime w2 = fw_ctime w \<and> \<not> mapped w2 \<and> index_capacity w2 = index_capacity w"
      by (simp add: w2 frame)
    then show ?thesis using w' by (auto simp: resized_def)
  next
    case (Inr u)
    then have r: "r = Ok ()" "w' = w1" using assms(2) Pair by (auto simp: set_index_capacity_or_unmap_def)
    show ?thesis
    proof (cases "n = index_capacity w")
      case True
      then show ?thesis using Pair Inr r assms(1) by (auto simp: set_index_capacity_def resized_def)
    next
      case False
      then obtain m where m: "file_size n = Ok m" "mapped w"
        "w1 = w\<lparr>fdata := truncate_to m (fdata w), index_capacity := n\<rparr>"
        using Pair Inr by (auto simp: set_index_capacity_def Let_def split: if_splits sum.splits option.splits)
      have len: "m = 4096 + n * 32" "length (fdata w) = 4096 + index_capacity w * 32"
        using m(1) assms(1) [OF m(2)] by (auto simp: file_size_Ok)
      then show ?thesis
        using r m by (simp add: resized_def length_truncate slot_def slice_truncate)
    qed
  qed
qed

lemma resized_inv:
  assumes "fixed_inv w" "resized n w r w'" "index_length w \<le> n"
  shows "fixed_inv w'"
proof (cases r)
  case (Inl e)
  then show ?thesis using assms by (simp add: resized_def fixed_inv_def sizes_ok_def)
next
  case (Inr u)
  then have c: "index_capacity w' = n" "mapped w' = mapped w"
    "mapped w \<longrightarrow> file_size n = Ok (length (fdata w')) \<and> slice 0 80 (fdata w') = slice 0 80 (fdata w)"
    using assms(2) by (auto simp: resized_def)
  have "header_ok w' \<longleftrightarrow> header_ok w" if "mapped w"
    using that c(3) assms(2) by (intro header_ok_cong) (auto simp: resized_def)
  then show ?thesis using assms c by (auto simp: resized_def fixed_inv_def sizes_ok_def)
qed

lemma full_chunks:
  assumes "req < 2 ^ 64" "(div_ceil req FIXED_CHUNK_SIZE * FIXED_CHUNK_SIZE) mod 2 ^ 64 = req"
  shows "req mod FIXED_CHUNK_SIZE = 0"
proof -
  let ?n = "div_ceil req FIXED_CHUNK_SIZE * FIXED_CHUNK_SIZE"
  have b: "req \<le> ?n" "?n < req + FIXED_CHUNK_SIZE" using div_ceil_bounds [OF chunk_size_facts(1), of req] by simp_all
  have "?n = req"
  proof (cases "?n < 2 ^ 64")
    case False
    then have "?n mod 2 ^ 64 = ?n - 2 ^ 64"
      using b(2) assms(1) chunk_size_facts(3) by (subst mod_if) (simp add: mod_less)
    then show ?thesis using assms(2) b(2) chunk_size_facts(3) False by linarith
  qed (use assms(2) in simp)
  then show ?thesis by (metis mod_mult_self2_is_0)
qed

definition grown :: "nat \<Rightarrow> FixedIndexWriter \<Rightarrow> FixedIndexWriter \<Rightarrow> bool" where
  "grown req w w' \<longleftrightarrow> fw_size w' = max (fw_size w) req \<and> mapped w' = mapped w \<and> fw_published w' = fw_published w \<and>
     (mapped w \<longrightarrow> (\<forall>i < index_length w. slot w' i = slot w i))"

lemma grow_capacity_post:
  assumes "fixed_inv w" "req < 2 ^ 64" "index_length w \<le> n" "n = div_ceil req FIXED_CHUNK_SIZE" "growable_size w"
    "grow_capacity io req n w = (r, w')"
  shows "fixed_inv w' \<and> (r = Ok () \<longrightarrow> n \<le> index_capacity w' \<and> fw_size w' = fw_size w \<and> mapped w' = mapped w \<and>
    fw_published w' = fw_published w \<and>
    (growable_size w' \<longrightarrow> req mod FIXED_CHUNK_SIZE = 0) \<and> (mapped w \<longrightarrow> (\<forall>i < index_length w. slot w' i = slot w i)))"
proof -
  have cs: "fw_chunk_size w = FIXED_CHUNK_SIZE" and cap: "index_length w \<le> index_capacity w"
    using assms(1) by (auto simp: fixed_inv_def sizes_ok_def)
  have map: "file_size (index_capacity w) = Ok (length (fdata w))" if "mapped w" using assms(1) that by (simp add: fixed_inv_def)
  consider (partial) "(n * FIXED_CHUNK_SIZE) mod 2 ^ 64 \<noteq> req"
    | (grow) "(n * FIXED_CHUNK_SIZE) mod 2 ^ 64 = req" "index_capacity w < n"
    | (fits) "(n * FIXED_CHUNK_SIZE) mod 2 ^ 64 = req" "n \<le> index_capacity w" by linarith
  then show ?thesis
  proof cases
    case partial
    let ?w = "w\<lparr>growable_size := False\<rparr>"
    have s: "set_index_capacity_or_unmap io n ?w = (r, w')" using partial assms(6) cs by (simp add: grow_capacity_def)
    have inv: "fixed_inv ?w" using assms(1) by (simp add: fixed_inv_def sizes_ok_def header_ok_def)
    have rz: "resized n ?w r w'" by (rule resize_post [OF _ s]) (use map in simp)
    have "fixed_inv w'" by (rule resized_inv [OF inv rz]) (use assms(3) in simp)
    then show ?thesis using rz assms(3) cap by (auto simp: resized_def slot_def)
  next
    case grow
    have full: "req mod FIXED_CHUNK_SIZE = 0" by (rule full_chunks [OF assms(2)]) (use grow(1) assms(4) in simp)
    show ?thesis
    proof (cases "checked_next_power_of_two n")
      case None
      then show ?thesis using grow assms(1,6) cs by (auto simp: grow_capacity_def)
    next
      case (Some c)
      then have c: "n \<le> c" using next_power_of_two_ge [of n] by (auto simp: checked_next_power_of_two_def split: if_splits)
      have s: "set_index_capacity_or_unmap io c w = (r, w')" using grow assms(6) cs Some by (simp add: grow_capacity_def)
      have rz: "resized c w r w'" by (rule resize_post [OF _ s]) (use map in simp)
      have "fixed_inv w'" by (rule resized_inv [OF assms(1) rz]) (use assms(3) c in simp)
      then show ?thesis using rz assms(3) c cap full by (auto simp: resized_def slot_def)
    qed
  next
    case fits
    have full: "req mod FIXED_CHUNK_SIZE = 0" by (rule full_chunks [OF assms(2)]) (use fits(1) assms(4) in simp)
    then show ?thesis using fits assms(1,6) cs by (auto simp: grow_capacity_def)
  qed
qed

lemma grow_post:
  assumes "fixed_inv w" "req < 2 ^ 64"
  shows "\<exists>r w'. grow_to_size io req w = Some (r, w') \<and> fixed_inv w' \<and> (r = Ok () \<longrightarrow> grown req w w')"
proof (cases "fw_size w < req \<and> growable_size w")
  case False
  then show ?thesis using assms(1) by (auto simp: grow_to_size_def grown_def)
next
  case True
  define n where "n = div_ceil req FIXED_CHUNK_SIZE"
  have cs: "fw_chunk_size w = FIXED_CHUNK_SIZE" using assms(1) by (simp add: fixed_inv_def sizes_ok_def)
  have len: "index_length w \<le> n"
    using assms(1) True div_ceil_mono [OF chunk_size_facts(1), of "fw_size w" req] by (simp add: fixed_inv_def sizes_ok_def n_def)
  obtain r w1 where g: "grow_capacity io req n w = (r, w1)" by (cases "grow_capacity io req n w")
  note post = grow_capacity_post [OF assms len n_def _ g]
  show ?thesis
  proof (cases r)
    case (Inl e)
    then show ?thesis using True g cs post by (simp add: grow_to_size_def n_def [symmetric] Let_def)
  next
    case (Inr u)
    let ?w = "w1\<lparr>index_length := n, fw_size := req\<rparr>"
    have p: "fixed_inv w1" "n \<le> index_capacity w1" "growable_size w1 \<longrightarrow> req mod FIXED_CHUNK_SIZE = 0"
      "mapped w1 = mapped w" "fw_published w1 = fw_published w" "mapped w \<longrightarrow> (\<forall>i < index_length w. slot w1 i = slot w i)"
      using post True Inr by auto
    have "header_ok ?w = header_ok w1" by (simp add: header_ok_def)
    then have "fixed_inv ?w" using p assms(2) by (auto simp: fixed_inv_def sizes_ok_def n_def)
    moreover have "grown req w ?w" using p True by (simp add: grown_def slot_def)
    ultimately show ?thesis using True Inr g cs p(2) by (simp add: grow_to_size_def n_def [symmetric] Let_def)
  qed
qed

lemma slot_overwrite:
  assumes "length d = 32" "4096 + i * 32 + 32 \<le> length (fdata w)"
  shows "slot (w\<lparr>fdata := overwrite (4096 + i * 32) d (fdata w)\<rparr>) j = (if j = i then d else slot w j)"
proof -
  consider "j = i" | "j < i" | "i < j" by linarith
  then show ?thesis
  proof cases
    case 2
    then have "4096 + j * 32 + 32 \<le> 4096 + i * 32" by linarith
    then show ?thesis using 2 assms by (simp add: slot_def slice_overwrite_before)
  next
    case 3
    then have "4096 + i * 32 + 32 \<le> 4096 + j * 32" by linarith
    then show ?thesis using 3 assms by (simp add: slot_def slice_overwrite_after)
  qed (use assms in \<open>simp add: slot_def slice_overwrite_same\<close>)
qed

lemma write_digest_post:
  assumes "fixed_inv w" "i < index_capacity w" "length d = 32"
  shows "\<exists>r w'. add_digest_unchecked i d w = Some (r, w') \<and> fixed_inv w' \<and> (r = Ok () \<longleftrightarrow> mapped w) \<and>
    mapped w' = mapped w \<and> fw_size w' = fw_size w \<and> index_length w' = index_length w \<and> index_capacity w' = index_capacity w \<and>
    fw_published w' = fw_published w \<and> growable_size w' = growable_size w \<and>
    (mapped w \<longrightarrow> (\<forall>j. slot w' j = (if j = i then d else slot w j)))"
proof (cases "mapped w")
  case True
  then have len: "length (fdata w) = 4096 + index_capacity w * 32" using mapped_length [OF assms(1)] by simp
  have fit: "4096 + i * 32 + 32 \<le> length (fdata w)" using assms(2) len by linarith
  let ?w = "w\<lparr>fdata := overwrite (4096 + i * 32) d (fdata w)\<rparr>"
  have "slice 0 80 (fdata ?w) = slice 0 80 (fdata w)" using fit by (simp add: slice_overwrite_before)
  then have "header_ok ?w = header_ok w" by (intro header_ok_cong) simp_all
  moreover have "length (fdata ?w) = length (fdata w)" using fit assms(3) by (simp add: length_overwrite)
  ultimately have "fixed_inv ?w" using assms(1) by (auto simp: fixed_inv_def sizes_ok_def)
  then show ?thesis using True fit assms(3) slot_overwrite [OF assms(3) fit] by (simp add: add_digest_unchecked_def)
next
  case False
  then show ?thesis using assms(1) by (simp add: add_digest_unchecked_def)
qed

section \<open>The operations keep the invariant\<close>

lemma create_inv:
  assumes "fixed_create io ctime uuid known csize = Ok w" "length uuid = 16" "\<And>s. known = Some s \<Longrightarrow> s < 2 ^ 64"
  shows "fixed_inv w" "mapped w" "fw_published w = None" "fw_size w = (case known of Some s \<Rightarrow> s | None \<Rightarrow> 0)"
    "growable_size w \<longleftrightarrow> known = None" "fw_uuid w = uuid" "fw_ctime w = ctime"
    "fw_chunk_size w = FIXED_CHUNK_SIZE" "known = None \<Longrightarrow> index_length w = 0 \<and> index_capacity w = INITIAL_CAPACITY"
proof -
  have cs: "csize = FIXED_CHUNK_SIZE" using assms(1) by (simp add: fixed_create_def split: option.splits if_splits)
  obtain fsize where f: "file_size (index_capacity w) = Ok fsize"
    and w: "w = \<lparr>fw_chunk_size = csize, fw_size = (case known of Some s \<Rightarrow> s | None \<Rightarrow> 0),
      index_length = (case known of Some s \<Rightarrow> div_ceil s csize | None \<Rightarrow> 0),
      index_capacity = (case known of Some s \<Rightarrow> div_ceil s csize | None \<Rightarrow> INITIAL_CAPACITY), mapped = True,
      fdata = overwrite 8 uuid (overwrite 72 (le_bytes 8 csize) (overwrite 24 (le_bytes 8 (i64_bits ctime))
        (overwrite 0 FIXED_SIZED_CHUNK_INDEX_1_0 (truncate_to fsize [])))),
      fw_uuid = uuid, fw_ctime = ctime, growable_size = (known = None), fw_published = None\<rparr>"
    using assms(1) unfolding fixed_create_def
    by (cases known) (auto simp: and_then_eq_Inr Let_def split: option.splits if_splits)
  show "mapped w" "fw_published w = None" "fw_size w = (case known of Some s \<Rightarrow> s | None \<Rightarrow> 0)"
    "growable_size w \<longleftrightarrow> known = None" "fw_uuid w = uuid" "fw_ctime w = ctime" "fw_chunk_size w = FIXED_CHUNK_SIZE"
    "known = None \<Longrightarrow> index_length w = 0 \<and> index_capacity w = INITIAL_CAPACITY" by (simp_all add: w cs)
  have fs: "4096 \<le> fsize" using f by (auto simp: file_size_Ok)
  have len: "length (fdata w) = fsize"
    using fs assms(2) by (simp add: w length_overwrite length_truncate FIXED_SIZED_CHUNK_INDEX_1_0_def)
  have "header_ok w"
    using fs assms(2) cs
    by (simp add: header_ok_def w length_overwrite length_truncate FIXED_SIZED_CHUNK_INDEX_1_0_def
        slice_overwrite_same slice_overwrite_before slice_overwrite_after)
  moreover have "sizes_ok w"
    using assms(3) cs chunk_size_facts(1) by (cases known) (simp_all add: sizes_ok_def w div_ceil_zero_iff)
  ultimately show "fixed_inv w" using f len by (simp add: fixed_inv_def)
qed

lemma alignment_Ok:
  assumes "check_chunk_alignment (start + csize) csize w = Ok idx" "sizes_ok w"
  shows "idx = start div FIXED_CHUNK_SIZE" "start mod FIXED_CHUNK_SIZE = 0" "0 < csize" "csize \<le> FIXED_CHUNK_SIZE"
    "start + csize \<le> fw_size w" "csize < FIXED_CHUNK_SIZE \<Longrightarrow> start + csize = fw_size w" "idx < index_length w"
proof -
  have cs: "fw_chunk_size w = FIXED_CHUNK_SIZE" using assms(2) by (simp add: sizes_ok_def)
  show *: "idx = start div FIXED_CHUNK_SIZE" "start mod FIXED_CHUNK_SIZE = 0" "0 < csize" "csize \<le> FIXED_CHUNK_SIZE"
    "start + csize \<le> fw_size w" "csize < FIXED_CHUNK_SIZE \<Longrightarrow> start + csize = fw_size w"
    using assms(1) by (auto simp: check_chunk_alignment_def checked_sub_def cs fast_modulo_chunk [simplified] split: if_splits)
  have "\<not> fw_size w \<le> idx * FIXED_CHUNK_SIZE"
    unfolding *(1) using *(3,5) div_times_less_eq_dividend [of start FIXED_CHUNK_SIZE] by linarith
  then show "idx < index_length w"
    using assms(2) div_ceil_le_iff [OF chunk_size_facts(1), of "fw_size w" idx] by (auto simp: sizes_ok_def)
qed

text \<open>What a successful \<^verbatim>\<open>add_chunk\<close> has done.\<close>

definition chunk_added :: "nat \<Rightarrow> nat \<Rightarrow> digest \<Rightarrow> FixedIndexWriter \<Rightarrow> FixedIndexWriter \<Rightarrow> bool" where
  "chunk_added start csize d w w' \<longleftrightarrow> start mod FIXED_CHUNK_SIZE = 0 \<and> 0 < csize \<and> csize \<le> FIXED_CHUNK_SIZE \<and>
     (csize < FIXED_CHUNK_SIZE \<longrightarrow> start + csize = fw_size w') \<and> fw_size w' = max (fw_size w) (start + csize) \<and>
     start div FIXED_CHUNK_SIZE < index_length w' \<and> slot w' (start div FIXED_CHUNK_SIZE) = d \<and> mapped w' \<and>
     (\<forall>i < index_length w. i \<noteq> start div FIXED_CHUNK_SIZE \<longrightarrow> slot w' i = slot w i)"

lemma add_chunk_post:
  assumes "fixed_inv w" "length d = 32"
  shows "\<exists>r w'. fixed_add_chunk io start csize d w = Some (r, w') \<and> fixed_inv w' \<and>
    (r = Ok () \<longrightarrow> chunk_added start csize d w w')"
proof (cases "checked_add start csize")
  case None
  then show ?thesis using assms(1) by (simp add: fixed_add_chunk_def)
next
  case (Some e)
  then have e: "e = start + csize" "e < 2 ^ 64" by (auto simp: checked_add_def split: if_splits)
  obtain r1 w1 where g: "grow_to_size io e w = Some (r1, w1)" "fixed_inv w1" "r1 = Ok () \<longrightarrow> grown e w w1"
    using grow_post [OF assms(1) e(2)] by blast
  show ?thesis
  proof (cases r1)
    case (Inl x)
    then show ?thesis using Some g by (simp add: fixed_add_chunk_def)
  next
    case (Inr u)
    then have gr: "grown e w w1" using g(3) by simp
    show ?thesis
    proof (cases "check_chunk_alignment e csize w1")
      case (Inl x)
      then show ?thesis using Some g Inr by (simp add: fixed_add_chunk_def)
    next
      case al: (Inr idx)
      have sz: "sizes_ok w1" using g(2) by (simp add: fixed_inv_def)
      note a = alignment_Ok [OF al [unfolded e(1)] sz]
      have cap: "idx < index_capacity w1" using a(7) sz by (simp add: sizes_ok_def)
      from write_digest_post [OF g(2) cap assms(2)] obtain r w' where
        w: "add_digest_unchecked idx d w1 = Some (r, w')" "fixed_inv w'" "r = Ok () \<longleftrightarrow> mapped w1" "mapped w' = mapped w1"
        "fw_size w' = fw_size w1" "index_length w' = index_length w1"
        "mapped w1 \<longrightarrow> (\<forall>j. slot w' j = (if j = idx then d else slot w1 j))" by blast
      have "fixed_add_chunk io start csize d w = Some (r, w')"
        using Some g(1) Inr al a(7) w(1) by (simp add: fixed_add_chunk_def add_digest_def)
      moreover have "chunk_added start csize d w w'" if "r = Ok ()"
        using that w a gr by (auto simp: chunk_added_def grown_def e(1))
      ultimately show ?thesis using w(2) by blast
    qed
  qed
qed

lemma clone_digests_post:
  assumes "\<And>i. i \<in> set is \<Longrightarrow> i < length (fixed_index r) \<and> i < index_capacity w" "\<forall>d \<in> set (fixed_index r). length d = 32"
    "fixed_inv w"
  shows "\<exists>res w'. clone_digests r is w = Some (res, w') \<and> fixed_inv w' \<and> fw_size w' = fw_size w \<and> index_length w' = index_length w \<and>
    mapped w' = mapped w \<and> index_capacity w' = index_capacity w \<and> (res = Ok () \<longleftrightarrow> mapped w \<or> is = []) \<and>
    (mapped w \<longrightarrow> (\<forall>j. slot w' j = (if j \<in> set is then fixed_index r ! j else slot w j)))"
  using assms
proof (induction "is" arbitrary: w)
  case (Cons i "is")
  then have i: "i < length (fixed_index r)" "i < index_capacity w" "length (fixed_index r ! i) = 32" by auto
  from write_digest_post [OF Cons.prems(3) i(2,3)] obtain res w1 where
    w: "add_digest_unchecked i (fixed_index r ! i) w = Some (res, w1)" "fixed_inv w1" "res = Ok () \<longleftrightarrow> mapped w"
    "mapped w1 = mapped w" "fw_size w1 = fw_size w" "index_length w1 = index_length w" "index_capacity w1 = index_capacity w"
    "mapped w \<longrightarrow> (\<forall>j. slot w1 j = (if j = i then fixed_index r ! i else slot w j))" by blast
  show ?case
  proof (cases "mapped w")
    case True
    then have ok: "res = Ok ()" using w(3) by simp
    have "\<And>j. j \<in> set is \<Longrightarrow> j < length (fixed_index r) \<and> j < index_capacity w1" using Cons.prems(1) w(7) by auto
    from Cons.IH [OF this Cons.prems(2) w(2)] obtain res' w' where
      w': "clone_digests r is w1 = Some (res', w')" "fixed_inv w'" "fw_size w' = fw_size w1" "index_length w' = index_length w1"
      "mapped w' = mapped w1" "index_capacity w' = index_capacity w1" "res' = Ok () \<longleftrightarrow> mapped w1 \<or> is = []"
      "mapped w1 \<longrightarrow> (\<forall>j. slot w' j = (if j \<in> set is then fixed_index r ! j else slot w1 j))" by blast
    then show ?thesis using True ok w i(1) by (auto simp: fixed_index_digest_def)
  next
    case False
    then obtain e where "res = Err e" using w(3) by (cases res) auto
    then show ?thesis using False w i(1) by (simp add: fixed_index_digest_def)
  qed
qed simp

lemma clone_post:
  assumes "fixed_inv w" "\<forall>d \<in> set (fixed_index r). length d = 32"
  shows "\<exists>res w'. clone_data_from io r w = Some (res, w') \<and> fixed_inv w' \<and> fw_size w' = fw_size w \<and>
    index_length w' = index_length w \<and>
    (res = Ok () \<longrightarrow> mapped w \<longrightarrow> (\<forall>j < fixed_index_count r. j < index_capacity w' \<longrightarrow> slot w' j = fixed_index r ! j) \<and>
      (growable_size w \<longrightarrow> fixed_index_count r \<le> index_capacity w'))"
proof (cases "fw_chunk_size w = fr_chunk_size r")
  case False
  then show ?thesis using assms(1) by (simp add: clone_data_from_def)
next
  case True
  let ?n = "fixed_index_count r"
  obtain r1 w1 where g: "(if growable_size w \<and> index_capacity w < ?n then set_index_capacity_or_unmap io ?n w else (Ok (), w)) = (r1, w1)"
    by (metis surj_pair)
  have inv: "fixed_inv w1 \<and> fw_size w1 = fw_size w \<and> index_length w1 = index_length w \<and>
      (r1 = Ok () \<longrightarrow> mapped w1 = mapped w \<and> (growable_size w \<longrightarrow> ?n \<le> index_capacity w1))"
  proof (cases "growable_size w \<and> index_capacity w < ?n")
    case True
    then have s: "set_index_capacity_or_unmap io ?n w = (r1, w1)" using g by simp
    have rz: "resized ?n w r1 w1" by (rule resize_post [OF _ s]) (use assms(1) in \<open>simp add: fixed_inv_def\<close>)
    have "fixed_inv w1" by (rule resized_inv [OF assms(1) rz]) (use assms(1) True in \<open>simp add: fixed_inv_def sizes_ok_def\<close>)
    then show ?thesis using rz by (auto simp: resized_def)
  qed (use g assms(1) in auto)
  show ?thesis
  proof (cases r1)
    case (Inl e)
    then show ?thesis using True g inv by (auto simp: clone_data_from_def Let_def)
  next
    case (Inr u)
    have "\<exists>res w'. clone_digests r [0..<min ?n (index_capacity w1)] w1 = Some (res, w') \<and> fixed_inv w' \<and> fw_size w' = fw_size w1 \<and>
        index_length w' = index_length w1 \<and> mapped w' = mapped w1 \<and> index_capacity w' = index_capacity w1 \<and>
        (res = Ok () \<longleftrightarrow> mapped w1 \<or> [0..<min ?n (index_capacity w1)] = []) \<and>
        (mapped w1 \<longrightarrow> (\<forall>j. slot w' j = (if j \<in> set [0..<min ?n (index_capacity w1)] then fixed_index r ! j else slot w1 j)))"
      by (rule clone_digests_post) (use assms(2) inv in \<open>auto simp: fixed_index_count_def\<close>)
    then obtain res w' where c: "clone_digests r [0..<min ?n (index_capacity w1)] w1 = Some (res, w')" "fixed_inv w'"
      "fw_size w' = fw_size w1" "index_length w' = index_length w1" "index_capacity w' = index_capacity w1"
      "mapped w1 \<longrightarrow> (\<forall>j. slot w' j = (if j \<in> set [0..<min ?n (index_capacity w1)] then fixed_index r ! j else slot w1 j))"
      by blast
    have "clone_data_from io r w = Some (res, w')"
      using True c(1) unfolding clone_data_from_def Let_def g by (simp add: Inr)
    then show ?thesis using c(2-6) inv Inr by (intro exI [of _ res] exI [of _ w']) simp
  qed
qed

definition sys_ok :: "sys \<Rightarrow> bool" where
  "sys_ok io \<longleftrightarrow> open_err io = None \<and> ftruncate_err io = None \<and> mmap_err io = None \<and> mremap_err io = None \<and>
     munmap_err io = None \<and> rename_err io = None"

lemma close_post:
  assumes "fixed_inv w"
  shows "\<exists>r w'. fixed_close sha256 io w = Some (r, w') \<and> fixed_inv w' \<and> \<not> mapped w'"
proof (cases "mapped w")
  case True
  define w1 where "w1 = w\<lparr>fdata := overwrite 64 (le_bytes 8 (fw_size w)) (overwrite 32 (sha256 (slice 4096 (index_length w * 32) (fdata w))) (fdata w))\<rparr>"
  have len: "\<not> 4096 + index_length w * 32 > length (fdata w)"
    using mapped_length [OF assms True] assms by (simp add: fixed_inv_def sizes_ok_def)
  obtain r2 w2 where u: "unmap io w1 = (r2, w2)" by (cases "unmap io w1")
  have w2: "\<not> mapped w2" "sizes_ok w2"
    using unmap_frame [OF u] assms by (simp_all add: w1_def fixed_inv_def sizes_ok_def)
  have "sizes_ok (w2\<lparr>fdata := x, index_capacity := index_length w2\<rparr>)" "sizes_ok (w2\<lparr>fw_published := y\<rparr>)"
    "sizes_ok (w2\<lparr>fdata := x, index_capacity := index_length w2, fw_published := y\<rparr>)" for x y
    using w2(2) by (simp_all add: sizes_ok_def)
  then show ?thesis
    using True len u w2 unfolding fixed_close_def w1_def [symmetric] Let_def
    by (cases r2; cases "index_length w2 < index_capacity w2"; cases "file_size (index_length w2)";
        cases "ftruncate_err io"; cases "rename_err io") (simp_all add: fixed_inv_def)
next
  case False
  then show ?thesis using assms by (simp add: fixed_close_def)
qed

text \<open>The bytes of the finished file.\<close>

definition final_bytes :: "(bytes \<Rightarrow> digest) \<Rightarrow> FixedIndexWriter \<Rightarrow> bytes" where
  "final_bytes sha256 w = take (4096 + index_length w * 32) (overwrite 64 (le_bytes 8 (fw_size w))
     (overwrite 32 (sha256 (slice 4096 (index_length w * 32) (fdata w))) (fdata w)))"

lemma close_publishes:
  assumes "fixed_inv w" "mapped w" "0 < index_length w" "sys_ok io" "\<And>b. length (sha256 b) = 32"
  shows "\<exists>w'. fixed_close sha256 io w = Some (Ok (sha256 (slice 4096 (index_length w * 32) (fdata w))), w') \<and>
    fw_published w' = Some (final_bytes sha256 w)"
proof -
  let ?cs = "sha256 (slice 4096 (index_length w * 32) (fdata w))"
  define b where "b = overwrite 64 (le_bytes 8 (fw_size w)) (overwrite 32 ?cs (fdata w))"
  have len: "length (fdata w) = 4096 + index_capacity w * 32" "0 < index_capacity w" using mapped_length [OF assms(1,2)] by simp_all
  have cap: "index_length w \<le> index_capacity w" "4096 + index_capacity w * 32 \<le> 2 ^ 63 - 1"
    using assms(1,2) by (auto simp: fixed_inv_def sizes_ok_def file_size_Ok)
  have lb: "length b = length (fdata w)" using len assms(5) by (simp add: b_def length_overwrite)
  have fs: "file_size (index_capacity w) = Ok (4096 + index_capacity w * 32)"
    "file_size (index_length w) = Ok (4096 + index_length w * 32)"
    using cap len(2) assms(3) by (auto simp: file_size_Ok)
  have un: "unmap io (w\<lparr>fdata := b\<rparr>) = (Ok (), w\<lparr>fdata := b, mapped := False\<rparr>)"
    using assms(2,4) fs by (simp add: unmap_def sys_ok_def)
  have tr: "truncate_to (4096 + index_length w * 32) b = final_bytes sha256 w"
    using cap lb len by (simp add: truncate_to_def final_bytes_def b_def)
  have fbb: "final_bytes sha256 w = take (4096 + index_length w * 32) b" by (simp add: final_bytes_def b_def)
  have full: "b = final_bytes sha256 w" if "\<not> index_length w < index_capacity w"
    using that cap lb len by (simp add: fbb)
  have nl: "\<not> 4096 + index_length w * 32 > length (fdata w)" using cap len by simp
  show ?thesis
    using assms(2,4) nl un fs tr full
    by (cases "index_length w < index_capacity w")
      (simp_all add: fixed_close_def Let_def b_def [symmetric] sys_ok_def)
qed

lemma final_bytes_open:
  assumes "fixed_inv w" "mapped w" "0 < index_length w" "\<And>b. length (sha256 b) = 32" "fits_i64 (fw_ctime w)"
    "fw_size w + FIXED_CHUNK_SIZE \<le> 2 ^ 64"
  shows "\<exists>r. FixedIndexReader_new \<lparr>stat_ok = True, regular = True, mmap_ok = True, contents = final_bytes sha256 w\<rparr> = Ok r \<and>
    fixed_index r = map (slot w) [0..<index_length w] \<and> fr_size r = fw_size w \<and> fr_uuid r = fw_uuid w \<and>
    fr_ctime r = fw_ctime w \<and> fr_index_csum r = sha256 (slice 4096 (index_length w * 32) (fdata w)) \<and> fixed_wf r"
proof -
  let ?cs = "sha256 (slice 4096 (index_length w * 32) (fdata w))" and ?n = "index_length w"
  define b where "b = overwrite 64 (le_bytes 8 (fw_size w)) (overwrite 32 ?cs (fdata w))"
  have inv: "header_ok w" "sizes_ok w" using assms(1,2) by (auto simp: fixed_inv_def)
  have len: "length (fdata w) = 4096 + index_capacity w * 32" using mapped_length [OF assms(1,2)] by simp
  have cap: "?n \<le> index_capacity w" "4096 + index_capacity w * 32 \<le> 2 ^ 63 - 1"
    using assms(1,2) by (auto simp: fixed_inv_def sizes_ok_def file_size_Ok)
  have fb: "final_bytes sha256 w = take (4096 + ?n * 32) b" by (simp add: final_bytes_def b_def)
  have lfb: "length (final_bytes sha256 w) = 4096 + ?n * 32"
    using len cap assms(4) by (simp add: fb b_def length_overwrite)
  have sl: "slice o1 n (take m x) = slice o1 n x" if "o1 + n \<le> m" for o1 n m and x :: bytes
    using that by (simp add: slice_def drop_take min_def)
  let ?m = "\<lparr>memory = final_bytes sha256 w, index_len = ?n\<rparr>"
  have mr: "map_read 4096 32 1 \<lparr>stat_ok = True, regular = True, mmap_ok = True, contents = final_bytes sha256 w\<rparr> = Ok ?m"
    using lfb by (simp add: map_read_Ok)
  have hv: "fixed_header_view (mmap_header 4096 ?m) = \<lparr>fh_magic = FIXED_SIZED_CHUNK_INDEX_1_0, fh_uuid = fw_uuid w,
      fh_ctime = i64_bits (fw_ctime w), fh_index_csum = ?cs, fh_size = fw_size w, fh_chunk_size = FIXED_CHUNK_SIZE\<rparr>"
    using inv len assms(4) i64_bits_less chunk_size_facts(3)
    by (simp add: fixed_header_view_def mmap_header_def fb sl b_def length_overwrite header_ok_def sizes_ok_def
        slice_overwrite_same slice_overwrite_before slice_overwrite_after)
  have idx: "mmap_index 4096 32 ?m = map (slot w) [0..<?n]"
    using len cap assms(4)
    by (simp add: mmap_index_def fb sl b_def slot_def length_overwrite slice_overwrite_after)
  have dc: "div_ceil (fw_size w) FIXED_CHUNK_SIZE = ?n" "checked_mul ?n 32 = Some (32 * ?n)"
    using inv(2) cap by (auto simp: sizes_ok_def checked_mul_def)
  let ?r = "\<lparr>fr_mmap = ?m, fr_chunk_size = FIXED_CHUNK_SIZE, fr_size = fw_size w, fr_uuid = fw_uuid w,
      fr_ctime = fw_ctime w, fr_index_csum = ?cs\<rparr>"
  have "FixedIndexReader_new \<lparr>stat_ok = True, regular = True, mmap_ok = True, contents = final_bytes sha256 w\<rparr> = Ok ?r"
    using assms(3) dc chunk_size_facts(2) i64_round_trip [OF assms(5)]
    unfolding FixedIndexReader_new_def mr and_then_simps Let_def hv by simp
  moreover have "fixed_wf ?r" using assms(3,6) dc(1) by (simp add: fixed_wf_def fixed_index_def idx)
  ultimately show ?thesis using idx by (simp add: fixed_index_def)
qed

section \<open>Sequences of operations\<close>

datatype writer_op = Grow sys nat | Add sys nat nat digest | Clone sys FixedIndexReader | Close sys

fun op_ok :: "writer_op \<Rightarrow> bool" where
  "op_ok (Grow io n) \<longleftrightarrow> n < 2 ^ 64"
| "op_ok (Add io start csize d) \<longleftrightarrow> length d = 32"
| "op_ok (Clone io r) \<longleftrightarrow> (\<forall>d \<in> set (fixed_index r). length d = 32)"
| "op_ok (Close io) \<longleftrightarrow> True"

fun exec_op :: "(bytes \<Rightarrow> digest) \<Rightarrow> writer_op \<Rightarrow> FixedIndexWriter \<Rightarrow> FixedIndexWriter option" where
  "exec_op sha256 (Grow io n) w = map_option snd (grow_to_size io n w)"
| "exec_op sha256 (Add io start csize d) w = map_option snd (fixed_add_chunk io start csize d w)"
| "exec_op sha256 (Clone io r) w = map_option snd (clone_data_from io r w)"
| "exec_op sha256 (Close io) w = map_option snd (fixed_close sha256 io w)"

inductive writer_reach :: "(bytes \<Rightarrow> digest) \<Rightarrow> FixedIndexWriter \<Rightarrow> bool" for sha256 where
  reach_create: "fixed_create io ctime uuid known csize = Ok w \<Longrightarrow> length uuid = 16 \<Longrightarrow>
     (\<And>s. known = Some s \<Longrightarrow> s < 2 ^ 64) \<Longrightarrow> writer_reach sha256 w"
| reach_op: "writer_reach sha256 w \<Longrightarrow> op_ok op \<Longrightarrow> exec_op sha256 op w = Some w' \<Longrightarrow> writer_reach sha256 w'"

lemma exec_op_inv: "fixed_inv w \<Longrightarrow> op_ok op \<Longrightarrow> \<exists>w'. exec_op sha256 op w = Some w' \<and> fixed_inv w'"
proof (cases op)
  case (Grow io n)
  assume "fixed_inv w" "op_ok op"
  then show ?thesis using Grow grow_post [of w n io] by auto
next
  case (Add io start csize d)
  assume "fixed_inv w" "op_ok op"
  then show ?thesis using Add add_chunk_post [of w d io start csize] by auto
next
  case (Clone io r)
  assume "fixed_inv w" "op_ok op"
  then show ?thesis using Clone clone_post [of w r io] by auto
next
  case (Close io)
  assume "fixed_inv w" "op_ok op"
  then show ?thesis using Close close_post [of w sha256 io] by auto
qed

lemma writer_reach_inv: "writer_reach sha256 w \<Longrightarrow> fixed_inv w"
proof (induction rule: writer_reach.induct)
  case (reach_create io ctime uuid known csize w)
  then show ?case using create_inv(1) by blast
next
  case (reach_op w op w')
  then show ?case using exec_op_inv [of w op sha256] by auto
qed

text \<open>C15. The writer is memory safe: from \<^verbatim>\<open>create\<close> on, through any sequence of operations and with system
  calls that fail at any point, no operation reads or writes outside the mapped file and no assertion
  fails; the index always has room for its length, which is that of its content size.\<close>

theorem fixed_writer_memory_safe:
  assumes "writer_reach sha256 w" "op_ok op"
  shows "\<exists>w'. exec_op sha256 op w = Some w' \<and> writer_reach sha256 w' \<and> index_length w' \<le> index_capacity w' \<and>
    index_length w' = div_ceil (fw_size w') FIXED_CHUNK_SIZE \<and>
    (mapped w' \<longrightarrow> length (fdata w') = 4096 + 32 * index_capacity w')"
proof -
  obtain w' where w': "exec_op sha256 op w = Some w'" "fixed_inv w'"
    using exec_op_inv [OF writer_reach_inv [OF assms(1)] assms(2)] by blast
  have "writer_reach sha256 w'" by (rule reach_op [OF assms w'(1)])
  then show ?thesis using w' mapped_length [OF w'(2)] by (auto simp: fixed_inv_def sizes_ok_def)
qed

definition sys_fine :: sys where
  "sys_fine = \<lparr>open_err = None, ftruncate_err = None, mmap_err = None, mremap_err = None, munmap_err = None, rename_err = None\<rparr>"

definition fresh_writer :: FixedIndexWriter where
  "fresh_writer = (case fixed_create sys_fine 7 (replicate 16 1) None FIXED_CHUNK_SIZE of Inr w \<Rightarrow> w | Inl _ \<Rightarrow> undefined)"

lemma fresh_writer_create: "fixed_create sys_fine 7 (replicate 16 1) None FIXED_CHUNK_SIZE = Ok fresh_writer"
proof -
  have "file_size INITIAL_CAPACITY = Ok (4096 + INITIAL_CAPACITY * 32)" by (simp add: file_size_Ok INITIAL_CAPACITY_def)
  then have "\<exists>w. fixed_create sys_fine 7 (replicate 16 1) None FIXED_CHUNK_SIZE = Ok w"
    using chunk_size_facts(2) by (simp add: fixed_create_def sys_fine_def Let_def)
  then show ?thesis by (auto simp: fresh_writer_def)
qed

lemma fresh_writer_reach: "writer_reach sha256 fresh_writer"
  by (rule reach_create [OF fresh_writer_create]) simp_all

lemmas fresh_writer_facts = create_inv [OF fresh_writer_create, simplified]

theorem fixed_writer_memory_safe_witness:
  "\<exists>w'. exec_op (\<lambda>b. replicate 32 0) (Add sys_fine 8388608 100 (replicate 32 5)) fresh_writer = Some w' \<and>
    index_length w' \<le> index_capacity w'"
  using fixed_writer_memory_safe [OF fresh_writer_reach, of "Add sys_fine 8388608 100 (replicate 32 5)" "\<lambda>b. replicate 32 0"]
  by auto

text \<open>A successful \<^verbatim>\<open>add_chunk\<close> was aligned, had the chunk size unless it ends the content, and stores
  its digest at the chunk's position; the size grows to its end and no other digest changes.\<close>

theorem fixed_add_chunk_correct:
  assumes "writer_reach sha256 w" "length d = 32" "fixed_add_chunk io start csize d w = Some (Ok (), w')"
  shows "start mod FIXED_CHUNK_SIZE = 0 \<and> 0 < csize \<and> csize \<le> FIXED_CHUNK_SIZE \<and>
    (csize < FIXED_CHUNK_SIZE \<longrightarrow> start + csize = fw_size w') \<and> fw_size w' = max (fw_size w) (start + csize) \<and>
    start div FIXED_CHUNK_SIZE < index_length w' \<and> slot w' (start div FIXED_CHUNK_SIZE) = d \<and>
    (\<forall>i < index_length w. i \<noteq> start div FIXED_CHUNK_SIZE \<longrightarrow> slot w' i = slot w i)"
proof -
  have "chunk_added start csize d w w'"
    using add_chunk_post [OF writer_reach_inv [OF assms(1)] assms(2), of io start csize] unfolding assms(3) by blast
  then show ?thesis unfolding chunk_added_def by blast
qed

lemma fresh_add:
  "\<exists>w'. fixed_add_chunk sys_fine 0 FIXED_CHUNK_SIZE (replicate 32 5) fresh_writer = Some (Ok (), w')"
proof -
  have c: "index_capacity fresh_writer = 128" "fw_chunk_size fresh_writer = FIXED_CHUNK_SIZE" "index_length fresh_writer = 0"
    using create_inv(8,9) [OF fresh_writer_create] by (simp_all add: INITIAL_CAPACITY_def)
  have len: "length (fdata fresh_writer) = 8192"
    using mapped_length [OF fresh_writer_facts(1,2)] c(1) by simp
  have dc: "div_ceil FIXED_CHUNK_SIZE FIXED_CHUNK_SIZE = 1" using div_ceil_exact [OF chunk_size_facts(1), of 1] by simp
  have "grow_to_size sys_fine FIXED_CHUNK_SIZE fresh_writer =
      Some (Ok (), fresh_writer\<lparr>index_length := 1, fw_size := FIXED_CHUNK_SIZE\<rparr>)"
    using c dc chunk_size_facts(1,3) fresh_writer_facts(4,5) by (simp add: grow_to_size_def grow_capacity_def)
  then show ?thesis
    using chunk_size_facts(1,3) c fresh_writer_facts(2) len
    by (simp add: fixed_add_chunk_def checked_add_def check_chunk_alignment_def checked_sub_def add_digest_def add_digest_unchecked_def)
qed

theorem fixed_add_chunk_correct_witness:
  "\<exists>w'. fixed_add_chunk sys_fine 0 FIXED_CHUNK_SIZE (replicate 32 5) fresh_writer = Some (Ok (), w') \<and>
     slot w' (0 div FIXED_CHUNK_SIZE) = replicate 32 5"
proof -
  obtain w' where "fixed_add_chunk sys_fine 0 FIXED_CHUNK_SIZE (replicate 32 5) fresh_writer = Some (Ok (), w')"
    using fresh_add by blast
  from this fixed_add_chunk_correct [OF fresh_writer_reach _ this] show ?thesis by auto
qed

text \<open>Closing a writer publishes a file that \<^verbatim>\<open>FixedIndexReader\<close> opens, with the digests, size, UUID
  and time of the writer and with the checksum that \<^verbatim>\<open>close\<close> returned and \<^verbatim>\<open>compute_csum\<close> confirms.\<close>

theorem fixed_index_round_trip:
  assumes "writer_reach sha256 w" "mapped w" "0 < index_length w" "sys_ok io" "\<And>b. length (sha256 b) = 32"
    "fits_i64 (fw_ctime w)" "fw_size w + FIXED_CHUNK_SIZE \<le> 2 ^ 64"
  shows "\<exists>cs w' fin r. fixed_close sha256 io w = Some (Ok cs, w') \<and> fw_published w' = Some fin \<and>
    FixedIndexReader_new \<lparr>stat_ok = True, regular = True, mmap_ok = True, contents = fin\<rparr> = Ok r \<and>
    fixed_index r = map (slot w) [0..<index_length w] \<and> fr_size r = fw_size w \<and> fr_uuid r = fw_uuid w \<and>
    fr_ctime r = fw_ctime w \<and> fr_index_csum r = cs \<and> fixed_compute_csum sha256 r = Some (cs, fw_size w)"
proof -
  note inv = writer_reach_inv [OF assms(1)]
  obtain w' where c: "fixed_close sha256 io w = Some (Ok (sha256 (slice 4096 (index_length w * 32) (fdata w))), w')"
    "fw_published w' = Some (final_bytes sha256 w)"
    using close_publishes [OF inv assms(2-4), of sha256] assms(5) by blast
  obtain r where r: "FixedIndexReader_new \<lparr>stat_ok = True, regular = True, mmap_ok = True, contents = final_bytes sha256 w\<rparr> = Ok r"
    "fixed_index r = map (slot w) [0..<index_length w]" "fr_size r = fw_size w" "fr_uuid r = fw_uuid w"
    "fr_ctime r = fw_ctime w" "fr_index_csum r = sha256 (slice 4096 (index_length w * 32) (fdata w))" "fixed_wf r"
    using final_bytes_open [OF inv assms(2,3), of sha256] assms(5-7) by blast
  have len: "4096 + index_length w * 32 \<le> length (fdata w)"
    using mapped_length [OF inv assms(2)] inv by (simp add: fixed_inv_def sizes_ok_def)
  have "concat (fixed_index r) = slice 4096 (index_length w * 32) (fdata w)"
    using concat_slices [OF len] by (simp add: r(2) slot_def [abs_def])
  then have "fixed_compute_csum sha256 r = Some (sha256 (slice 4096 (index_length w * 32) (fdata w)), fw_size w)"
    using fixed_compute_csum_eq [OF r(7)] r(3) by simp
  with c r show ?thesis by blast
qed

theorem fixed_index_round_trip_witness:
  "\<exists>w cs w' fin r. fixed_close (\<lambda>b. replicate 32 0) sys_fine w = Some (Ok cs, w') \<and> fw_published w' = Some fin \<and>
    FixedIndexReader_new \<lparr>stat_ok = True, regular = True, mmap_ok = True, contents = fin\<rparr> = Ok r \<and>
    fr_size r = FIXED_CHUNK_SIZE"
proof -
  let ?sha = "\<lambda>b :: bytes. replicate 32 (0 :: u8)"
  obtain w where w: "fixed_add_chunk sys_fine 0 FIXED_CHUNK_SIZE (replicate 32 5) fresh_writer = Some (Ok (), w)"
    using fresh_add by blast
  have reach: "writer_reach ?sha w"
    by (rule reach_op [OF fresh_writer_reach, of "Add sys_fine 0 FIXED_CHUNK_SIZE (replicate 32 5)"]) (simp_all add: w)
  have added: "chunk_added 0 FIXED_CHUNK_SIZE (replicate 32 5) fresh_writer w"
    using add_chunk_post [OF fresh_writer_facts(1), of "replicate 32 5" sys_fine 0 FIXED_CHUNK_SIZE] w by simp
  have ct: "fw_ctime w = 7"
    using w fresh_writer_facts(7)
    by (auto simp: fixed_add_chunk_def grow_to_size_def grow_capacity_def set_index_capacity_or_unmap_def set_index_capacity_def
        unmap_def add_digest_def add_digest_unchecked_def Let_def sys_fine_def split: if_splits option.splits sum.splits)
  have pre: "mapped w" "0 < index_length w" "sys_ok sys_fine" "fits_i64 (fw_ctime w)" "fw_size w = FIXED_CHUNK_SIZE"
    "fw_size w + FIXED_CHUNK_SIZE \<le> 2 ^ 64"
    using added ct fresh_writer_facts(4)
    by (auto simp: chunk_added_def sys_ok_def sys_fine_def fits_i64_def FIXED_CHUNK_SIZE_def)
  have "\<And>b. length (?sha b) = 32" by simp
  from fixed_index_round_trip [OF reach pre(1,2,3) this pre(4,6)] show ?thesis
    unfolding pre(5) by blast
qed

end
