(* ===== verification/DataBlob.thy ===== *)
theory DataBlob
  imports Prelude
begin

text \<open>
  The blob format (\<^verbatim>\<open>pbs-datastore/src/file_formats.rs\<close>, \<^verbatim>\<open>pbs-datastore/src/data_blob.rs\<close>): encoding with
  optional compression and encryption, decoding, CRC and digest checks, and \<^verbatim>\<open>DataChunkBuilder\<close>. The
  cryptography, CRC-32 and zstd are libraries: they are the fields of \<open>libs\<close>, and \<open>libs_ok\<close> states what
  the code relies on. A panic (a slice out of range, an unknown magic number in \<^verbatim>\<open>header_size\<close>, setting a
  key too late) is \<open>None\<close>.
\<close>

section \<open>Magic numbers and headers\<close>

definition UNCOMPRESSED_BLOB_MAGIC_1_0 :: bytes where
  "UNCOMPRESSED_BLOB_MAGIC_1_0 = [66, 171, 56, 7, 190, 131, 112, 161]"

definition COMPRESSED_BLOB_MAGIC_1_0 :: bytes where
  "COMPRESSED_BLOB_MAGIC_1_0 = [49, 185, 88, 66, 111, 182, 163, 127]"

definition ENCRYPTED_BLOB_MAGIC_1_0 :: bytes where
  "ENCRYPTED_BLOB_MAGIC_1_0 = [123, 103, 133, 190, 34, 45, 76, 240]"

definition ENCR_COMPR_BLOB_MAGIC_1_0 :: bytes where
  "ENCR_COMPR_BLOB_MAGIC_1_0 = [230, 89, 27, 191, 11, 191, 216, 11]"

lemmas magic_defs = UNCOMPRESSED_BLOB_MAGIC_1_0_def COMPRESSED_BLOB_MAGIC_1_0_def
  ENCRYPTED_BLOB_MAGIC_1_0_def ENCR_COMPR_BLOB_MAGIC_1_0_def

definition MAX_BLOB_SIZE :: nat where
  "MAX_BLOB_SIZE = 128 * 1024 * 1024"

record DataBlobHeader =
  bh_magic :: bytes
  bh_crc :: bytes

record EncryptedDataBlobHeader =
  eh_head :: DataBlobHeader
  eh_iv :: bytes
  eh_tag :: bytes

definition size_DataBlobHeader :: nat where
  "size_DataBlobHeader = 8 + 4"

definition size_EncryptedDataBlobHeader :: nat where
  "size_EncryptedDataBlobHeader = size_DataBlobHeader + 16 + 16"

definition header_bytes :: "DataBlobHeader \<Rightarrow> bytes" where
  "header_bytes h = bh_magic h @ bh_crc h"

definition encrypted_header_bytes :: "EncryptedDataBlobHeader \<Rightarrow> bytes" where
  "encrypted_header_bytes h = header_bytes (eh_head h) @ eh_iv h @ eh_tag h"

definition header_size :: "bytes \<Rightarrow> nat option" where
  "header_size m =
     (if m = UNCOMPRESSED_BLOB_MAGIC_1_0 then Some size_DataBlobHeader
      else if m = COMPRESSED_BLOB_MAGIC_1_0 then Some size_DataBlobHeader
      else if m = ENCRYPTED_BLOB_MAGIC_1_0 then Some size_EncryptedDataBlobHeader
      else if m = ENCR_COMPR_BLOB_MAGIC_1_0 then Some size_EncryptedDataBlobHeader
      else None)"

section \<open>The libraries\<close>

text \<open>
  \<open>crypter_new key iv encrypt\<close> starts a cipher; \<open>compress cap data\<close> compresses into a buffer of \<open>cap\<close>
  bytes and fails with a zstd code; \<open>decode_all\<close> decompresses a whole stream and \<open>decode_part\<close> gives the
  output of the streaming decoder for the input so far.
\<close>

record 'c libs =
  sha256 :: "bytes \<Rightarrow> digest"
  crc32 :: "bytes \<Rightarrow> nat"
  compress_to :: "nat \<Rightarrow> bytes \<Rightarrow> (nat, bytes) result"
  decode_all :: "bytes \<Rightarrow> (err, bytes) result"
  decode_part :: "bytes \<Rightarrow> (err, bytes) result"
  crypter_new :: "bytes \<Rightarrow> bytes \<Rightarrow> bool \<Rightarrow> (err, 'c) result"
  crypter_update :: "'c \<Rightarrow> bytes \<Rightarrow> (err, bytes \<times> 'c) result"
  crypter_finalize :: "'c \<Rightarrow> (err, bytes \<times> 'c) result"
  crypter_get_tag :: "'c \<Rightarrow> (err, bytes) result"
  crypter_set_tag :: "'c \<Rightarrow> bytes \<Rightarrow> (err, 'c) result"
  decrypt_aead :: "bytes \<Rightarrow> bytes \<Rightarrow> bytes \<Rightarrow> bytes \<Rightarrow> (err, bytes) result"
  block_size :: nat

record CryptConfig =
  enc_key :: bytes
  id_key :: bytes

definition compute_digest :: "'c libs \<Rightarrow> CryptConfig \<Rightarrow> bytes \<Rightarrow> digest" where
  "compute_digest L config data = sha256 L (data @ id_key config)"

section \<open>DataBlob\<close>

record DataBlob =
  raw_data :: bytes

definition raw_size :: "DataBlob \<Rightarrow> nat" where
  "raw_size b = length (raw_data b)"

definition blob_magic :: "DataBlob \<Rightarrow> bytes option" where
  "blob_magic b = (if length (raw_data b) < 8 then None else Some (take 8 (raw_data b)))"

definition blob_crc :: "DataBlob \<Rightarrow> nat option" where
  "blob_crc b = (if length (raw_data b) < 12 then None else Some (le_nat (slice 8 4 (raw_data b))))"

definition set_crc :: "nat \<Rightarrow> DataBlob \<Rightarrow> DataBlob option" where
  "set_crc crc b = (if length (raw_data b) < 12 then None
     else Some (b\<lparr>raw_data := overwrite 8 (le_bytes 4 crc) (raw_data b)\<rparr>))"

definition compute_crc :: "'c libs \<Rightarrow> DataBlob \<Rightarrow> nat option" where
  "compute_crc L b =
     (case blob_magic b of None \<Rightarrow> None
      | Some m \<Rightarrow>
          (case header_size m of None \<Rightarrow> None
           | Some start \<Rightarrow> if start > length (raw_data b) then None else Some (crc32 L (drop start (raw_data b)))))"

definition verify_crc :: "'c libs \<Rightarrow> DataBlob \<Rightarrow> (err, unit) result option" where
  "verify_crc L b =
     (case compute_crc L b of None \<Rightarrow> None
      | Some expected_crc \<Rightarrow>
          (case blob_crc b of None \<Rightarrow> None
           | Some crc \<Rightarrow> Some (if expected_crc \<noteq> crc then Err ''Data blob has wrong CRC checksum.'' else Ok ())))"

text \<open>The feeding loops of \<^verbatim>\<open>encrypt_to\<close> and \<^verbatim>\<open>decode_compressed_chunk\<close> work on pieces of the input.\<close>

function pieces :: "nat \<Rightarrow> bytes \<Rightarrow> bytes list" where
  "pieces n data =
     (let e = (if n > length data then length data else n) in
      if e > 0 then take e data # pieces n (drop e data) else [])"
  by pat_completeness auto
termination
  by (relation "measure (\<lambda>(n, data). length data)") auto

declare pieces.simps [simp del]

fun feed :: "'c libs \<Rightarrow> bytes list \<Rightarrow> 'c \<Rightarrow> (err, bytes \<times> 'c) result" where
  "feed L [] c = Ok ([], c)"
| "feed L (p # ps) c =
     and_then (crypter_update L c p) (\<lambda>(out, c').
       and_then (feed L ps c') (\<lambda>(rest, c''). Ok (out @ rest, c'')))"

definition BUFFER_SIZE :: nat where
  "BUFFER_SIZE = 32 * 1024"

text \<open>\<open>iv\<close> is the random initialisation vector, or the error of the random source.\<close>

definition encrypt_to :: "'c libs \<Rightarrow> (err, bytes) result \<Rightarrow> CryptConfig \<Rightarrow> bytes \<Rightarrow> (err, bytes \<times> bytes \<times> bytes) result" where
  "encrypt_to L random config data =
     and_then random (\<lambda>iv.
     and_then (crypter_new L (enc_key config) iv True) (\<lambda>c.
     and_then (feed L (pieces (BUFFER_SIZE - block_size L) data) c) (\<lambda>(out, c1).
     and_then (crypter_finalize L c1) (\<lambda>(rest, c2).
     and_then (crypter_get_tag L c2) (\<lambda>tag. Ok (iv, tag, out @ rest))))))"

fun feed_decoder :: "'c libs \<Rightarrow> bytes list \<Rightarrow> 'c \<Rightarrow> bytes \<Rightarrow> (err, 'c \<times> bytes) result" where
  "feed_decoder L [] c acc = Ok (c, acc)"
| "feed_decoder L (p # ps) c acc =
     and_then (crypter_update L c p) (\<lambda>(out, c').
       and_then (decode_part L (acc @ out)) (\<lambda>_. feed_decoder L ps c' (acc @ out)))"

definition decode_compressed_chunk :: "'c libs \<Rightarrow> CryptConfig \<Rightarrow> bytes \<Rightarrow> bytes \<Rightarrow> bytes \<Rightarrow> (err, bytes) result" where
  "decode_compressed_chunk L config data iv tag =
     and_then (crypter_new L (enc_key config) iv False) (\<lambda>c.
     and_then (feed_decoder L (pieces (BUFFER_SIZE - block_size L) data) c []) (\<lambda>(c1, acc).
     and_then (crypter_set_tag L c1 tag) (\<lambda>c2.
     and_then (crypter_finalize L c2) (\<lambda>(rest, c3). decode_part L (acc @ rest)))))"

definition decode_uncompressed_chunk :: "'c libs \<Rightarrow> CryptConfig \<Rightarrow> bytes \<Rightarrow> bytes \<Rightarrow> bytes \<Rightarrow> (err, bytes) result" where
  "decode_uncompressed_chunk L config data iv tag = decrypt_aead L (enc_key config) iv data tag"

definition zstd_error_is_target_too_small :: "nat \<Rightarrow> bool" where
  "zstd_error_is_target_too_small code = (wrapping_sub 0 code = 70)"

text \<open>
  \<^verbatim>\<open>encode\<close>: every zstd error falls back to storing the data as it is (other codes than a full buffer are
  also logged).
\<close>

definition try_compress :: "'c libs \<Rightarrow> bytes \<Rightarrow> bool \<Rightarrow> bytes option" where
  "try_compress L data compress =
     (if compress then
        (case compress_to L (length data) data of
           Inr z \<Rightarrow> if length z \<le> length data then Some z else None
         | Inl code \<Rightarrow> None)
      else None)"

definition encode :: "'c libs \<Rightarrow> (err, bytes) result \<Rightarrow> bytes \<Rightarrow> CryptConfig option \<Rightarrow> bool \<Rightarrow> (err, DataBlob) result option" where
  "encode L random data config compress =
     (if length data > MAX_BLOB_SIZE then Some (Err ''data blob too large'')
      else (let compressed = try_compress L data compress;
                source = (case compressed of Some z \<Rightarrow> z | None \<Rightarrow> data) in
        case (case config of
            Some cfg \<Rightarrow>
              (let magic = (if compressed = None then ENCRYPTED_BLOB_MAGIC_1_0 else ENCR_COMPR_BLOB_MAGIC_1_0) in
               and_then (encrypt_to L random cfg source) (\<lambda>(iv, tag, ct).
                 Ok (encrypted_header_bytes \<lparr>eh_head = \<lparr>bh_magic = magic, bh_crc = replicate 4 0\<rparr>,
                   eh_iv = iv, eh_tag = tag\<rparr> @ ct)))
          | None \<Rightarrow>
              (let magic = (if compressed = None then UNCOMPRESSED_BLOB_MAGIC_1_0 else COMPRESSED_BLOB_MAGIC_1_0) in
               Ok (header_bytes \<lparr>bh_magic = magic, bh_crc = replicate 4 0\<rparr> @ source))) of
          Inl e \<Rightarrow> Some (Err e)
        | Inr raw \<Rightarrow>
            (let blob = \<lparr>raw_data = raw\<rparr> in
             case compute_crc L blob of None \<Rightarrow> None
             | Some crc \<Rightarrow> map_option Ok (set_crc crc blob))))"

datatype CryptMode = CryptNone | CryptEncrypt

definition crypt_mode :: "DataBlob \<Rightarrow> (err, CryptMode) result option" where
  "crypt_mode b =
     map_option (\<lambda>m.
       if m = UNCOMPRESSED_BLOB_MAGIC_1_0 \<or> m = COMPRESSED_BLOB_MAGIC_1_0 then Ok CryptNone
       else if m = ENCR_COMPR_BLOB_MAGIC_1_0 \<or> m = ENCRYPTED_BLOB_MAGIC_1_0 then Ok CryptEncrypt
       else Err ''Invalid blob magic number.'') (blob_magic b)"

definition verify_digest :: "'c libs \<Rightarrow> bytes \<Rightarrow> CryptConfig option \<Rightarrow> digest \<Rightarrow> (err, unit) result" where
  "verify_digest L data config expected_digest =
     (let digest = (case config of Some cfg \<Rightarrow> compute_digest L cfg data | None \<Rightarrow> sha256 L data) in
      if digest \<noteq> expected_digest then Err ''detected chunk with wrong digest.'' else Ok ())"

text \<open>The part of \<^verbatim>\<open>decode\<close> before the digest check: the data, and the configuration for the digest.\<close>

definition decode_data :: "'c libs \<Rightarrow> CryptConfig option \<Rightarrow> DataBlob \<Rightarrow> (err, bytes \<times> CryptConfig option) result option" where
  "decode_data L config b =
     (case blob_magic b of None \<Rightarrow> None
      | Some m \<Rightarrow>
          if m = UNCOMPRESSED_BLOB_MAGIC_1_0 then
            (if size_DataBlobHeader > length (raw_data b) then None
             else Some (Ok (drop size_DataBlobHeader (raw_data b), None)))
          else if m = COMPRESSED_BLOB_MAGIC_1_0 then
            (if size_DataBlobHeader > length (raw_data b) then None
             else Some (and_then (decode_all L (drop size_DataBlobHeader (raw_data b))) (\<lambda>d. Ok (d, None))))
          else if m = ENCR_COMPR_BLOB_MAGIC_1_0 \<or> m = ENCRYPTED_BLOB_MAGIC_1_0 then
            (if size_EncryptedDataBlobHeader > length (raw_data b) then None
             else (let iv = slice 12 16 (raw_data b); tag = slice 28 16 (raw_data b);
                       body = drop size_EncryptedDataBlobHeader (raw_data b) in
               case config of
                 None \<Rightarrow> Some (Err ''unable to decrypt blob - missing CryptConfig'')
               | Some cfg \<Rightarrow>
                   Some (and_then (if m = ENCR_COMPR_BLOB_MAGIC_1_0
                       then decode_compressed_chunk L cfg body iv tag
                       else decode_uncompressed_chunk L cfg body iv tag) (\<lambda>d. Ok (d, Some cfg)))))
          else Some (Err ''Invalid blob magic number.''))"

definition decode :: "'c libs \<Rightarrow> CryptConfig option \<Rightarrow> digest option \<Rightarrow> DataBlob \<Rightarrow> (err, bytes) result option" where
  "decode L config digest b =
     map_option (\<lambda>r. and_then r (\<lambda>(data, crypt_config).
       case digest of None \<Rightarrow> Ok data
       | Some d \<Rightarrow> and_then (verify_digest L data crypt_config d) (\<lambda>_. Ok data))) (decode_data L config b)"

definition from_raw :: "bytes \<Rightarrow> (err, DataBlob) result" where
  "from_raw data =
     (if length data < size_DataBlobHeader then Err ''blob too small''
      else (let m = take 8 data in
        if m = ENCR_COMPR_BLOB_MAGIC_1_0 \<or> m = ENCRYPTED_BLOB_MAGIC_1_0 then
          (if length data < size_EncryptedDataBlobHeader then Err ''encrypted blob too small''
           else Ok \<lparr>raw_data = data\<rparr>)
        else if m = COMPRESSED_BLOB_MAGIC_1_0 \<or> m = UNCOMPRESSED_BLOB_MAGIC_1_0 then Ok \<lparr>raw_data = data\<rparr>
        else Err ''unable to parse raw blob - wrong magic''))"

definition from_raw_with_crc_check :: "'c libs \<Rightarrow> bytes \<Rightarrow> (err, DataBlob) result option" where
  "from_raw_with_crc_check L raw =
     (case from_raw raw of
        Inl e \<Rightarrow> Some (Err e)
      | Inr blob \<Rightarrow> map_option (\<lambda>r. and_then r (\<lambda>_. Ok blob)) (verify_crc L blob))"

text \<open>\<^verbatim>\<open>load_from_reader\<close> and its asynchronous twin: the reader's contents, or its error.\<close>

definition load_from_reader :: "'c libs \<Rightarrow> (err, bytes) result \<Rightarrow> (err, DataBlob) result option" where
  "load_from_reader L contents =
     (case contents of Inl e \<Rightarrow> Some (Err e) | Inr data \<Rightarrow> from_raw_with_crc_check L data)"

definition is_encrypted :: "DataBlob \<Rightarrow> bool option" where
  "is_encrypted b = map_option (\<lambda>m. m = ENCR_COMPR_BLOB_MAGIC_1_0 \<or> m = ENCRYPTED_BLOB_MAGIC_1_0) (blob_magic b)"

definition is_compressed :: "DataBlob \<Rightarrow> bool option" where
  "is_compressed b = map_option (\<lambda>m. m = ENCR_COMPR_BLOB_MAGIC_1_0 \<or> m = COMPRESSED_BLOB_MAGIC_1_0) (blob_magic b)"

definition verify_unencrypted :: "'c libs \<Rightarrow> nat \<Rightarrow> digest \<Rightarrow> DataBlob \<Rightarrow> (err, unit) result option" where
  "verify_unencrypted L expected_chunk_size expected_digest b =
     (case blob_magic b of None \<Rightarrow> None
      | Some m \<Rightarrow>
          if m = ENCR_COMPR_BLOB_MAGIC_1_0 \<or> m = ENCRYPTED_BLOB_MAGIC_1_0 then Some (Ok ())
          else map_option (\<lambda>r. and_then r (\<lambda>data.
              if expected_chunk_size \<noteq> length data then Err ''detected chunk with wrong length'' else Ok ()))
            (decode L None (Some expected_digest) b))"

definition blob_csum :: "'c libs \<Rightarrow> DataBlob \<Rightarrow> digest" where
  "blob_csum L b = sha256 L (raw_data b)"

section \<open>DataChunkBuilder\<close>

record DataChunkBuilder =
  bconfig :: "CryptConfig option"
  orig_data :: bytes
  digest_computed :: bool
  bdigest :: digest
  bcompress :: bool

definition DataChunkBuilder_new :: "bytes \<Rightarrow> DataChunkBuilder" where
  "DataChunkBuilder_new data = \<lparr>bconfig = None, orig_data = data, digest_computed = False,
     bdigest = replicate 32 0, bcompress = True\<rparr>"

definition builder_compress :: "bool \<Rightarrow> DataChunkBuilder \<Rightarrow> DataChunkBuilder" where
  "builder_compress v b = b\<lparr>bcompress := v\<rparr>"

definition builder_crypt_config :: "CryptConfig \<Rightarrow> DataChunkBuilder \<Rightarrow> DataChunkBuilder option" where
  "builder_crypt_config v b = (if digest_computed b then None else Some (b\<lparr>bconfig := Some v\<rparr>))"

definition builder_compute_digest :: "'c libs \<Rightarrow> DataChunkBuilder \<Rightarrow> DataChunkBuilder" where
  "builder_compute_digest L b =
     (if \<not> digest_computed b then
        b\<lparr>bdigest := (case bconfig b of Some cfg \<Rightarrow> compute_digest L cfg (orig_data b) | None \<Rightarrow> sha256 L (orig_data b)),
          digest_computed := True\<rparr>
      else b)"

definition builder_digest :: "'c libs \<Rightarrow> DataChunkBuilder \<Rightarrow> digest \<times> DataChunkBuilder" where
  "builder_digest L b =
     (let b' = (if \<not> digest_computed b then builder_compute_digest L b else b) in (bdigest b', b'))"

definition builder_build :: "'c libs \<Rightarrow> (err, bytes) result \<Rightarrow> DataChunkBuilder \<Rightarrow> (err, DataBlob \<times> digest) result option" where
  "builder_build L random b =
     (let b' = (if \<not> digest_computed b then builder_compute_digest L b else b) in
      map_option (\<lambda>r. and_then r (\<lambda>chunk. Ok (chunk, bdigest b'))) (encode L random (orig_data b') (bconfig b') (bcompress b')))"

definition build_zero_chunk ::
  "'c libs \<Rightarrow> (err, bytes) result \<Rightarrow> CryptConfig option \<Rightarrow> nat \<Rightarrow> bool \<Rightarrow> (err, DataBlob \<times> digest) result option" where
  "build_zero_chunk L random crypt_config chunk_size compress =
     (let b = builder_compress compress (DataChunkBuilder_new (replicate chunk_size 0)) in
      case (case crypt_config of Some cfg \<Rightarrow> builder_crypt_config cfg b | None \<Rightarrow> Some b) of
        None \<Rightarrow> None
      | Some b' \<Rightarrow> builder_build L random b')"

section \<open>What the code relies on\<close>

text \<open>
  \<open>ct\<close> and \<open>tg\<close> are the cipher text and the tag that AES-GCM gives for a key, an initialisation vector and
  a plain text. However the input is split, the streaming interface produces them, and given them back
  it produces the plain text; so does the one-shot decryption.
\<close>

definition cipher_ok :: "'c libs \<Rightarrow> (bytes \<Rightarrow> bytes \<Rightarrow> bytes \<Rightarrow> bytes) \<Rightarrow> (bytes \<Rightarrow> bytes \<Rightarrow> bytes \<Rightarrow> bytes) \<Rightarrow> bool" where
  "cipher_ok L ct tg \<longleftrightarrow> (\<forall>key iv data ps.
     (concat ps = data \<longrightarrow> (\<exists>c out c1 rest c2. crypter_new L key iv True = Ok c \<and> feed L ps c = Ok (out, c1) \<and>
        crypter_finalize L c1 = Ok (rest, c2) \<and> crypter_get_tag L c2 = Ok (tg key iv data) \<and> out @ rest = ct key iv data)) \<and>
     (concat ps = ct key iv data \<longrightarrow> (\<exists>c out c1 c2 rest c3. crypter_new L key iv False = Ok c \<and> feed L ps c = Ok (out, c1) \<and>
        crypter_set_tag L c1 (tg key iv data) = Ok c2 \<and> crypter_finalize L c2 = Ok (rest, c3) \<and> out @ rest = data)) \<and>
     decrypt_aead L key iv (ct key iv data) (tg key iv data) = Ok data \<and> length (tg key iv data) = 16)"

text \<open>Decompression inverts compression, in one go and as a stream, on which no prefix of a compressed
  text is an error. The CRC fits 32 bits, and a digest is 32 bytes.\<close>

definition zstd_ok :: "'c libs \<Rightarrow> bool" where
  "zstd_ok L \<longleftrightarrow> (\<forall>cap data z. compress_to L cap data = Ok z \<longrightarrow> decode_all L z = Ok data \<and> decode_part L z = Ok data \<and>
     (\<forall>p q. z = p @ q \<longrightarrow> is_ok (decode_part L p)))"

definition libs_ok :: "'c libs \<Rightarrow> (bytes \<Rightarrow> bytes \<Rightarrow> bytes \<Rightarrow> bytes) \<Rightarrow> (bytes \<Rightarrow> bytes \<Rightarrow> bytes \<Rightarrow> bytes) \<Rightarrow> bool" where
  "libs_ok L ct tg \<longleftrightarrow> cipher_ok L ct tg \<and> zstd_ok L \<and> (\<forall>b. crc32 L b < 2 ^ 32) \<and> block_size L < BUFFER_SIZE"

lemma concat_pieces: "0 < n \<Longrightarrow> concat (pieces n data) = data"
proof (induction n data rule: pieces.induct)
  case (1 n data)
  then show ?case by (cases "data = []") (simp_all add: pieces.simps [of n data] pieces.simps [of n "[]"] Let_def)
qed

lemma encrypt_to_ok:
  assumes "libs_ok L ct tg"
  shows "encrypt_to L (Ok iv) cfg data = Ok (iv, tg (enc_key cfg) iv data, ct (enc_key cfg) iv data)"
proof -
  have "concat (pieces (BUFFER_SIZE - block_size L) data) = data"
    using assms by (intro concat_pieces) (simp add: libs_ok_def)
  then obtain c out c1 rest c2 where "crypter_new L (enc_key cfg) iv True = Ok c"
    "feed L (pieces (BUFFER_SIZE - block_size L) data) c = Ok (out, c1)" "crypter_finalize L c1 = Ok (rest, c2)"
    "crypter_get_tag L c2 = Ok (tg (enc_key cfg) iv data)" "out @ rest = ct (enc_key cfg) iv data"
    using assms unfolding libs_ok_def cipher_ok_def by blast
  then show ?thesis by (simp add: encrypt_to_def)
qed

lemma feed_decoder_ok:
  "feed L ps c = Ok (out, c1) \<Longrightarrow> (\<And>p q. acc @ out = p @ q \<Longrightarrow> is_ok (decode_part L p)) \<Longrightarrow>
     feed_decoder L ps c acc = Ok (c1, acc @ out)"
proof (induction ps arbitrary: c acc out)
  case (Cons p ps)
  then obtain o1 c' o2 where u: "crypter_update L c p = Ok (o1, c')" "feed L ps c' = Ok (o2, c1)" "out = o1 @ o2"
    by (auto simp: and_then_eq_Inr)
  have "is_ok (decode_part L (acc @ o1))" using Cons.prems(2) [of "acc @ o1" o2] u(3) by simp
  then obtain x where "decode_part L (acc @ o1) = Ok x" by (auto simp: is_ok_iff)
  moreover have "feed_decoder L ps c' (acc @ o1) = Ok (c1, (acc @ o1) @ o2)"
    by (rule Cons.IH [OF u(2)]) (use Cons.prems(2) u(3) in simp)
  ultimately show ?case using u by simp
qed simp

lemma decode_chunks_ok:
  assumes "libs_ok L ct tg"
  shows "decode_uncompressed_chunk L cfg (ct (enc_key cfg) iv data) iv (tg (enc_key cfg) iv data) = Ok data"
    and "compress_to L cap data = Ok z \<Longrightarrow>
      decode_compressed_chunk L cfg (ct (enc_key cfg) iv z) iv (tg (enc_key cfg) iv z) = Ok data"
proof -
  show "decode_uncompressed_chunk L cfg (ct (enc_key cfg) iv data) iv (tg (enc_key cfg) iv data) = Ok data"
    using assms by (simp add: libs_ok_def cipher_ok_def decode_uncompressed_chunk_def)
next
  assume z: "compress_to L cap data = Ok z"
  let ?ps = "pieces (BUFFER_SIZE - block_size L) (ct (enc_key cfg) iv z)"
  have "concat ?ps = ct (enc_key cfg) iv z" using assms by (intro concat_pieces) (simp add: libs_ok_def)
  then obtain c out c1 c2 rest c3 where c: "crypter_new L (enc_key cfg) iv False = Ok c" "feed L ?ps c = Ok (out, c1)"
    "crypter_set_tag L c1 (tg (enc_key cfg) iv z) = Ok c2" "crypter_finalize L c2 = Ok (rest, c3)" "out @ rest = z"
    using assms unfolding libs_ok_def cipher_ok_def by blast
  have zs: "decode_part L z = Ok data" "\<And>p q. z = p @ q \<Longrightarrow> is_ok (decode_part L p)"
    using assms z by (auto simp: libs_ok_def zstd_ok_def)
  have "feed_decoder L ?ps c [] = Ok (c1, [] @ out)"
    by (rule feed_decoder_ok [OF c(2)]) (metis append.assoc append_Nil c(5) zs(2))
  then show "decode_compressed_chunk L cfg (ct (enc_key cfg) iv z) iv (tg (enc_key cfg) iv z) = Ok data"
    using c zs(1) by (simp add: decode_compressed_chunk_def)
qed

section \<open>The layout of an encoded blob\<close>

definition blob_layout :: "'c libs \<Rightarrow> bytes \<Rightarrow> bytes \<Rightarrow> bytes \<Rightarrow> DataBlob" where
  "blob_layout L m extra body = \<lparr>raw_data = m @ le_bytes 4 (crc32 L body) @ extra @ body\<rparr>"

lemma magic_lengths: "length UNCOMPRESSED_BLOB_MAGIC_1_0 = 8" "length COMPRESSED_BLOB_MAGIC_1_0 = 8"
  "length ENCRYPTED_BLOB_MAGIC_1_0 = 8" "length ENCR_COMPR_BLOB_MAGIC_1_0 = 8"
  by (simp_all add: magic_defs)

lemma magic_distinct:
  "UNCOMPRESSED_BLOB_MAGIC_1_0 \<noteq> COMPRESSED_BLOB_MAGIC_1_0" "UNCOMPRESSED_BLOB_MAGIC_1_0 \<noteq> ENCRYPTED_BLOB_MAGIC_1_0"
  "UNCOMPRESSED_BLOB_MAGIC_1_0 \<noteq> ENCR_COMPR_BLOB_MAGIC_1_0" "COMPRESSED_BLOB_MAGIC_1_0 \<noteq> ENCRYPTED_BLOB_MAGIC_1_0"
  "COMPRESSED_BLOB_MAGIC_1_0 \<noteq> ENCR_COMPR_BLOB_MAGIC_1_0" "ENCRYPTED_BLOB_MAGIC_1_0 \<noteq> ENCR_COMPR_BLOB_MAGIC_1_0"
  by (simp_all add: magic_defs)

lemmas header_sizes = size_DataBlobHeader_def size_EncryptedDataBlobHeader_def

lemma finish_crc:
  assumes "length m = 8" "header_size m = Some (12 + length extra)"
  shows "compute_crc L \<lparr>raw_data = m @ replicate 4 0 @ extra @ body\<rparr> = Some (crc32 L body)"
    and "set_crc (crc32 L body) \<lparr>raw_data = m @ replicate 4 0 @ extra @ body\<rparr> = Some (blob_layout L m extra body)"
  using assms by (simp_all add: compute_crc_def blob_magic_def set_crc_def overwrite_def blob_layout_def)

text \<open>The outcome of \<^verbatim>\<open>encode\<close> in the four combinations.\<close>

lemma encode_layout:
  assumes "libs_ok L ct tg" "length data \<le> MAX_BLOB_SIZE" "length iv = 16"
  shows "encode L (Ok iv) data config compress = Some (Ok (
    let src = (case try_compress L data compress of Some z \<Rightarrow> z | None \<Rightarrow> data) in
    case config of
      Some cfg \<Rightarrow> blob_layout L (if try_compress L data compress = None then ENCRYPTED_BLOB_MAGIC_1_0 else ENCR_COMPR_BLOB_MAGIC_1_0)
        (iv @ tg (enc_key cfg) iv src) (ct (enc_key cfg) iv src)
    | None \<Rightarrow> blob_layout L (if try_compress L data compress = None then UNCOMPRESSED_BLOB_MAGIC_1_0 else COMPRESSED_BLOB_MAGIC_1_0) [] src))"
proof -
  define src where "src = (case try_compress L data compress of Some z \<Rightarrow> z | None \<Rightarrow> data)"
  have tag: "length (tg k iv x) = 16" for k x using assms(1) by (simp add: libs_ok_def cipher_ok_def)
  have big: "\<not> length data > MAX_BLOB_SIZE" using assms(2) by simp
  show ?thesis
  proof (cases config)
    case None
    define m where "m = (if try_compress L data compress = None then UNCOMPRESSED_BLOB_MAGIC_1_0 else COMPRESSED_BLOB_MAGIC_1_0)"
    have "length m = 8" "header_size m = Some (12 + length ([] :: bytes))"
      by (auto simp: m_def magic_lengths header_size_def header_sizes)
    from finish_crc [OF this, of L src] None big show ?thesis
      by (simp add: encode_def src_def [symmetric] m_def [symmetric] header_bytes_def Let_def)
  next
    case (Some cfg)
    define m where "m = (if try_compress L data compress = None then ENCRYPTED_BLOB_MAGIC_1_0 else ENCR_COMPR_BLOB_MAGIC_1_0)"
    have "length m = 8" "header_size m = Some (12 + length (iv @ tg (enc_key cfg) iv src))"
      using assms(3) tag magic_distinct by (auto simp: m_def magic_lengths header_size_def header_sizes)
    from finish_crc [OF this, of L "ct (enc_key cfg) iv src"] Some big show ?thesis
      by (simp add: encode_def encrypt_to_ok [OF assms(1)] src_def [symmetric] m_def [symmetric]
          header_bytes_def encrypted_header_bytes_def Let_def)
  qed
qed

text \<open>The accessors on such a blob.\<close>

lemma layout_access:
  assumes "length m = 8" "header_size m = Some (12 + length extra)" "crc32 L body < 2 ^ 32"
  shows "blob_magic (blob_layout L m extra body) = Some m"
    and "verify_crc L (blob_layout L m extra body) = Some (Ok ())"
    and "drop (12 + length extra) (raw_data (blob_layout L m extra body)) = body"
proof -
  have c: "le_nat (le_bytes 4 (crc32 L body)) = crc32 L body" using assms(3) by (intro le_nat_le_bytes) simp
  show m: "blob_magic (blob_layout L m extra body) = Some m"
    using assms(1) by (simp add: blob_magic_def blob_layout_def)
  show b: "drop (12 + length extra) (raw_data (blob_layout L m extra body)) = body"
    using assms(1) by (simp add: blob_layout_def)
  have len: "\<not> 12 + length extra > length (raw_data (blob_layout L m extra body))"
    using assms(1) by (simp add: blob_layout_def)
  have "slice 8 4 (raw_data (blob_layout L m extra body)) = le_bytes 4 (crc32 L body)"
    using assms(1) by (simp add: blob_layout_def slice_def)
  then have "blob_crc (blob_layout L m extra body) = Some (crc32 L body)"
    using c len by (simp add: blob_crc_def)
  moreover have "compute_crc L (blob_layout L m extra body) = Some (crc32 L body)"
    unfolding compute_crc_def m using assms(2) b len by simp
  ultimately show "verify_crc L (blob_layout L m extra body) = Some (Ok ())" by (simp add: verify_crc_def)
qed

lemma crc_accepts:
  assumes "verify_crc L b = Some (Ok ())" "blob_magic b = Some m" "12 \<le> length (raw_data b)"
    "m = UNCOMPRESSED_BLOB_MAGIC_1_0 \<or> m = COMPRESSED_BLOB_MAGIC_1_0 \<or>
     (m = ENCRYPTED_BLOB_MAGIC_1_0 \<or> m = ENCR_COMPR_BLOB_MAGIC_1_0) \<and> 44 \<le> length (raw_data b)"
  shows "from_raw_with_crc_check L (raw_data b) = Some (Ok b)"
  using assms magic_distinct
  by (cases b) (auto simp: from_raw_with_crc_check_def from_raw_def blob_magic_def header_sizes Let_def split: if_splits)

definition expected_digest :: "'c libs \<Rightarrow> CryptConfig option \<Rightarrow> bytes \<Rightarrow> digest" where
  "expected_digest L config data = (case config of Some cfg \<Rightarrow> compute_digest L cfg data | None \<Rightarrow> sha256 L data)"

lemma decode_from_data:
  "decode_data L config b = Some (Ok (data, config)) \<Longrightarrow> decode L config (Some (expected_digest L config data)) b = Some (Ok data)"
  by (simp add: decode_def verify_digest_def expected_digest_def)

lemma encode_round_trip:
  assumes "libs_ok L ct tg" "length data \<le> MAX_BLOB_SIZE" "length iv = 16"
  shows "\<exists>b. encode L (Ok iv) data config compress = Some (Ok b) \<and> from_raw_with_crc_check L (raw_data b) = Some (Ok b) \<and>
    decode_data L config b = Some (Ok (data, config)) \<and> is_encrypted b = Some (config \<noteq> None)"
proof -
  note enc = encode_layout [OF assms, of config compress]
  have crc: "crc32 L x < 2 ^ 32" for x using assms(1) by (simp add: libs_ok_def)
  have tag: "length (tg k iv x) = 16" for k x using assms(1) by (simp add: libs_ok_def cipher_ok_def)
  have z: "compress_to L (length data) data = Ok x" if "try_compress L data compress = Some x" for x
    using that by (auto simp: try_compress_def split: if_splits sum.splits)
  have zd: "decode_all L x = Ok data" if "try_compress L data compress = Some x" for x
    using z [OF that] assms(1) by (auto simp: libs_ok_def zstd_ok_def)
  show ?thesis
  proof (cases config)
    case None
    define m where "m = (if try_compress L data compress = None then UNCOMPRESSED_BLOB_MAGIC_1_0 else COMPRESSED_BLOB_MAGIC_1_0)"
    define src where "src = (case try_compress L data compress of Some z \<Rightarrow> z | None \<Rightarrow> data)"
    have m: "length m = 8" "header_size m = Some (12 + length ([] :: bytes))"
      by (auto simp: m_def magic_lengths header_size_def header_sizes)
    note acc = layout_access [OF m crc, of src]
    let ?b = "blob_layout L m [] src"
    have len: "12 \<le> length (raw_data ?b)" using m(1) by (simp add: blob_layout_def)
    have "from_raw_with_crc_check L (raw_data ?b) = Some (Ok ?b)"
      by (rule crc_accepts [OF acc(2,1) len]) (auto simp: m_def)
    moreover have "decode_data L config ?b = Some (Ok (data, config))"
      using acc len zd magic_distinct None
      by (cases "try_compress L data compress") (auto simp: decode_data_def header_sizes m_def src_def)
    moreover have "is_encrypted ?b = Some False"
      using acc(1) magic_distinct by (auto simp: is_encrypted_def m_def)
    ultimately show ?thesis using enc None by (simp add: m_def src_def Let_def)
  next
    case (Some cfg)
    define m where "m = (if try_compress L data compress = None then ENCRYPTED_BLOB_MAGIC_1_0 else ENCR_COMPR_BLOB_MAGIC_1_0)"
    define src where "src = (case try_compress L data compress of Some z \<Rightarrow> z | None \<Rightarrow> data)"
    let ?e = "iv @ tg (enc_key cfg) iv src" and ?c = "ct (enc_key cfg) iv src"
    have m: "length m = 8" "header_size m = Some (12 + length ?e)"
      using assms(3) tag magic_distinct by (auto simp: m_def magic_lengths header_size_def header_sizes)
    note acc = layout_access [OF m crc, of ?c]
    let ?b = "blob_layout L m ?e ?c"
    have len: "44 \<le> length (raw_data ?b)" "12 \<le> length (raw_data ?b)" using m(1) assms(3) tag by (simp_all add: blob_layout_def)
    have "from_raw_with_crc_check L (raw_data ?b) = Some (Ok ?b)"
      by (rule crc_accepts [OF acc(2,1) len(2)]) (use len(1) in \<open>auto simp: m_def\<close>)
    moreover have parts: "slice 12 16 (raw_data ?b) = iv" "slice 28 16 (raw_data ?b) = tg (enc_key cfg) iv src"
      "drop 44 (raw_data ?b) = ?c"
      using m(1) assms(3) tag by (simp_all add: blob_layout_def slice_def)
    have "decode_data L config ?b = Some (Ok (data, config))"
      using acc(1) len parts magic_distinct Some decode_chunks_ok(1) [OF assms(1), of cfg iv data]
        decode_chunks_ok(2) [OF assms(1) z, of _ cfg iv]
      by (cases "try_compress L data compress") (auto simp: decode_data_def header_sizes m_def src_def)
    moreover have "is_encrypted ?b = Some True"
      using acc(1) by (auto simp: is_encrypted_def m_def)
    ultimately show ?thesis using enc Some by (simp add: m_def src_def Let_def)
  qed
qed

lemma build_round_trip:
  assumes "libs_ok L ct tg" "length (orig_data b) \<le> MAX_BLOB_SIZE" "length iv = 16" "\<not> digest_computed b"
  shows "\<exists>blob. builder_build L (Ok iv) b = Some (Ok (blob, expected_digest L (bconfig b) (orig_data b))) \<and>
    load_from_reader L (Ok (raw_data blob)) = Some (Ok blob) \<and>
    decode L (bconfig b) (Some (expected_digest L (bconfig b) (orig_data b))) blob = Some (Ok (orig_data b)) \<and>
    is_encrypted blob = Some (bconfig b \<noteq> None)"
proof -
  obtain blob where e: "encode L (Ok iv) (orig_data b) (bconfig b) (bcompress b) = Some (Ok blob)"
    "from_raw_with_crc_check L (raw_data blob) = Some (Ok blob)"
    "decode_data L (bconfig b) blob = Some (Ok (orig_data b, bconfig b))" "is_encrypted blob = Some (bconfig b \<noteq> None)"
    using encode_round_trip [OF assms(1-3), of "bconfig b" "bcompress b"] by blast
  have "builder_build L (Ok iv) b = Some (Ok (blob, expected_digest L (bconfig b) (orig_data b)))"
    using e(1) assms(4) by (simp add: builder_build_def builder_compute_digest_def expected_digest_def Let_def)
  then show ?thesis using e decode_from_data [OF e(3)] by (simp add: load_from_reader_def)
qed

section \<open>Properties\<close>

text \<open>C17. Blob round trip: a chunk built by \<^verbatim>\<open>DataChunkBuilder\<close>, with or without compression and
  encryption, is accepted by the CRC check when its bytes are loaded again, decodes with the digest the
  builder returned to the original data, and is marked encrypted exactly when a key was set.\<close>

theorem chunk_round_trip:
  assumes "libs_ok L ct tg" "length (orig_data b) \<le> MAX_BLOB_SIZE" "length iv = 16" "\<not> digest_computed b"
  shows "\<exists>blob d. builder_build L (Ok iv) b = Some (Ok (blob, d)) \<and>
    load_from_reader L (Ok (raw_data blob)) = Some (Ok blob) \<and>
    decode L (bconfig b) (Some d) blob = Some (Ok (orig_data b)) \<and>
    is_encrypted blob = Some (bconfig b \<noteq> None)"
  using build_round_trip [OF assms] by blast

text \<open>A model of the libraries: no compression, and a cipher that keeps the text.\<close>

definition demo_libs :: "unit libs" where
  "demo_libs = \<lparr>sha256 = (\<lambda>b. sum_list b # replicate 31 0), crc32 = (\<lambda>b. length b mod 2 ^ 32),
     compress_to = (\<lambda>cap d. Err 7), decode_all = (\<lambda>z. Ok z), decode_part = (\<lambda>z. Ok z),
     crypter_new = (\<lambda>k iv enc. Ok ()), crypter_update = (\<lambda>c p. Ok (p, ())), crypter_finalize = (\<lambda>c. Ok ([], ())),
     crypter_get_tag = (\<lambda>c. Ok (replicate 16 9)), crypter_set_tag = (\<lambda>c t. Ok ()),
     decrypt_aead = (\<lambda>k iv d t. Ok d), block_size = 1\<rparr>"

lemma demo_feed: "feed demo_libs ps c = Ok (concat ps, ())"
  by (induction ps arbitrary: c) (simp_all add: demo_libs_def)

lemma demo_libs_ok: "libs_ok demo_libs (\<lambda>k iv d. d) (\<lambda>k iv d. replicate 16 9)"
proof -
  have "cipher_ok demo_libs (\<lambda>k iv d. d) (\<lambda>k iv d. replicate 16 9)"
    unfolding cipher_ok_def by (auto simp: demo_feed) (simp_all add: demo_libs_def)
  then show ?thesis by (simp add: libs_ok_def zstd_ok_def demo_libs_def BUFFER_SIZE_def)
qed

theorem chunk_round_trip_witness:
  "\<exists>blob d. builder_build demo_libs (Ok (replicate 16 3)) (DataChunkBuilder_new [1, 2, 3]) = Some (Ok (blob, d)) \<and>
     decode demo_libs None (Some d) blob = Some (Ok [1, 2, 3])"
  using chunk_round_trip [OF demo_libs_ok, of "DataChunkBuilder_new [1, 2, 3]" "replicate 16 3"]
  by (auto simp: DataChunkBuilder_new_def MAX_BLOB_SIZE_def)

lemma from_raw_header:
  assumes "from_raw raw = Ok b"
  obtains m h where "blob_magic b = Some m" "12 \<le> length (raw_data b)" "header_size m = Some h" "h \<le> length (raw_data b)"
    "m = UNCOMPRESSED_BLOB_MAGIC_1_0 \<or> m = COMPRESSED_BLOB_MAGIC_1_0 \<or>
     (m = ENCRYPTED_BLOB_MAGIC_1_0 \<or> m = ENCR_COMPR_BLOB_MAGIC_1_0) \<and> 44 \<le> length (raw_data b)"
proof -
  obtain m where m: "blob_magic b = Some m" "12 \<le> length (raw_data b)"
    "m = UNCOMPRESSED_BLOB_MAGIC_1_0 \<or> m = COMPRESSED_BLOB_MAGIC_1_0 \<or>
     (m = ENCRYPTED_BLOB_MAGIC_1_0 \<or> m = ENCR_COMPR_BLOB_MAGIC_1_0) \<and> 44 \<le> length (raw_data b)"
    using assms by (auto simp: from_raw_def blob_magic_def header_sizes Let_def split: if_splits)
  moreover have "\<exists>h. header_size m = Some h \<and> h \<le> length (raw_data b)"
    using m magic_distinct by (auto simp: header_size_def header_sizes)
  ultimately show ?thesis using that by blast
qed

lemma verify_crc_total: "from_raw raw = Ok b \<Longrightarrow> verify_crc L b \<noteq> None"
  by (elim from_raw_header) (auto simp: verify_crc_def compute_crc_def blob_crc_def)

lemma load_from_reader_total: "load_from_reader L r \<noteq> None"
  using verify_crc_total by (auto simp: load_from_reader_def from_raw_with_crc_check_def split: sum.splits)

text \<open>Blobs that pass \<^verbatim>\<open>from_raw\<close> are safe to handle: whatever bytes they hold, computing and checking
  the CRC, decoding, verifying and asking for the mode never panics.\<close>

theorem from_raw_safe:
  assumes "from_raw raw = Ok b"
  shows "verify_crc L b \<noteq> None \<and> decode L cfg d b \<noteq> None \<and> verify_unencrypted L n dg b \<noteq> None \<and>
    (\<exists>mode. crypt_mode b = Some (Ok mode)) \<and> is_encrypted b \<noteq> None \<and> is_compressed b \<noteq> None"
proof -
  obtain m h where m: "blob_magic b = Some m" "12 \<le> length (raw_data b)"
    "m = UNCOMPRESSED_BLOB_MAGIC_1_0 \<or> m = COMPRESSED_BLOB_MAGIC_1_0 \<or>
     (m = ENCRYPTED_BLOB_MAGIC_1_0 \<or> m = ENCR_COMPR_BLOB_MAGIC_1_0) \<and> 44 \<le> length (raw_data b)"
    by (rule from_raw_header [OF assms])
  have dd: "decode_data L c b \<noteq> None" for c
    using m magic_distinct by (auto simp: decode_data_def header_sizes Let_def split: option.splits)
  have dec: "decode L c x b \<noteq> None" for c x using dd by (simp add: decode_def)
  have "verify_crc L b \<noteq> None" by (rule verify_crc_total [OF assms])
  moreover have "verify_unencrypted L n dg b \<noteq> None" using m(1) dec by (simp add: verify_unencrypted_def)
  moreover have "\<exists>mode. crypt_mode b = Some (Ok mode)" using m(1,3) by (auto simp: crypt_mode_def)
  moreover have "is_encrypted b \<noteq> None" "is_compressed b \<noteq> None" using m(1) by (simp_all add: is_encrypted_def is_compressed_def)
  ultimately show ?thesis using dec by blast
qed

theorem from_raw_safe_witness:
  "decode demo_libs None None \<lparr>raw_data = ENCRYPTED_BLOB_MAGIC_1_0 @ replicate 36 0\<rparr> \<noteq> None"
proof -
  have "from_raw (ENCRYPTED_BLOB_MAGIC_1_0 @ replicate 36 0) = Ok \<lparr>raw_data = ENCRYPTED_BLOB_MAGIC_1_0 @ replicate 36 0\<rparr>"
    by (simp add: from_raw_def magic_lengths header_sizes)
  from from_raw_safe [OF this] show ?thesis by blast
qed

text \<open>\<^verbatim>\<open>verify_unencrypted\<close> accepts a blob only if it is encrypted, or decodes to data of the expected
  length with the expected SHA-256 digest.\<close>

theorem verify_unencrypted_sound:
  assumes "verify_unencrypted L n d b = Some (Ok ())"
  shows "is_encrypted b = Some True \<or>
    (\<exists>data. decode L None None b = Some (Ok data) \<and> length data = n \<and> sha256 L data = d)"
proof (cases "is_encrypted b = Some True")
  case False
  obtain m where m: "blob_magic b = Some m" using assms by (auto simp: verify_unencrypted_def split: option.splits)
  have ne: "\<not> (m = ENCR_COMPR_BLOB_MAGIC_1_0 \<or> m = ENCRYPTED_BLOB_MAGIC_1_0)" using False m by (simp add: is_encrypted_def)
  then obtain r where r: "decode L None (Some d) b = Some r" "and_then r (\<lambda>data.
      if n \<noteq> length data then Err ''detected chunk with wrong length'' else Ok ()) = Ok ()"
    using assms m by (auto simp: verify_unencrypted_def)
  then obtain data where data: "decode L None (Some d) b = Some (Ok data)" "length data = n"
    by (auto simp: and_then_eq_Inr split: if_splits)
  obtain cfg where dd: "decode_data L None b = Some (Ok (data, cfg))" "verify_digest L data cfg d = Ok ()"
    using data(1) by (auto simp: decode_def and_then_eq_Inr)
  have "cfg = None"
    using dd(1) m ne by (auto simp: decode_data_def and_then_eq_Inr split: if_splits)
  then have "sha256 L data = d" using dd(2) by (simp add: verify_digest_def Let_def split: if_splits)
  moreover have "decode L None None b = Some (Ok data)" using dd(1) by (simp add: decode_def)
  ultimately show ?thesis using data(2) by blast
qed simp

theorem verify_unencrypted_sound_witness:
  "\<exists>data. decode demo_libs None None \<lparr>raw_data = UNCOMPRESSED_BLOB_MAGIC_1_0 @ [0, 0, 0, 0, 5, 6]\<rparr> = Some (Ok data) \<and> length data = 2"
proof -
  let ?b = "\<lparr>raw_data = UNCOMPRESSED_BLOB_MAGIC_1_0 @ [0, 0, 0, 0, 5, 6]\<rparr>"
  have "verify_unencrypted demo_libs 2 (11 # replicate 31 0) ?b = Some (Ok ())" "is_encrypted ?b = Some False"
    by (simp_all add: verify_unencrypted_def decode_def decode_data_def blob_magic_def magic_defs header_sizes
        verify_digest_def demo_libs_def is_encrypted_def)
  with verify_unencrypted_sound [OF this(1)] show ?thesis by auto
qed

end
