(* ===== verification/Prune.thy ===== *)
theory Prune
  imports Prelude "HOL-Library.Multiset"
begin

text \<open>
  Which snapshots of a group to keep (\<^verbatim>\<open>pbs-datastore/src/prune.rs\<close>, and \<^verbatim>\<open>sort_list\<close> and \<^verbatim>\<open>is_finished\<close> of
  \<^verbatim>\<open>pbs-datastore/src/backup_info.rs\<close>). The formatting of local times and the clock are parameters. A hash
  set of which the code only tests membership and size is a list without repetitions.
\<close>

section \<open>Snapshots and marks\<close>

text \<open>Of a \<^verbatim>\<open>BackupDir\<close> the code uses the relative path, the time, and the time as a string.\<close>

record BackupInfo =
  relative_path :: string
  backup_time :: int
  backup_time_string :: string
  files :: "string list"
  protected :: bool

datatype PruneMark = Protected | Keep | KeepPartial | Remove | TimestampInFuture

definition mark_keep :: "PruneMark \<Rightarrow> bool" where
  "mark_keep m = (m \<noteq> Remove)"

definition mark_protected :: "PruneMark \<Rightarrow> bool" where
  "mark_protected m = (m = Protected)"

fun mark_string :: "PruneMark \<Rightarrow> string" where
  "mark_string Protected = ''protected''"
| "mark_string Keep = ''keep''"
| "mark_string KeepPartial = ''keep-partial''"
| "mark_string Remove = ''remove''"
| "mark_string TimestampInFuture = ''timestamp-in-future''"

type_synonym marks = "string \<rightharpoonup> PruneMark"

definition MANIFEST_BLOB_NAME :: string where
  "MANIFEST_BLOB_NAME = ''index.json.blob''"

definition is_finished :: "BackupInfo \<Rightarrow> bool" where
  "is_finished info = list_ex (\<lambda>name. name = MANIFEST_BLOB_NAME) (files info)"

text \<open>Snapshots of one group have different times, so that it does not matter that the sort of the
  source is not stable.\<close>

definition sort_list :: "bool \<Rightarrow> BackupInfo list \<Rightarrow> BackupInfo list" where
  "sort_list ascending xs =
     (if ascending then sort_key backup_time xs else sort_key (\<lambda>b. - backup_time b) xs)"

record KeepOptions =
  keep_last :: "nat option"
  keep_hourly :: "nat option"
  keep_daily :: "nat option"
  keep_weekly :: "nat option"
  keep_monthly :: "nat option"
  keep_yearly :: "nat option"

section \<open>mark selections\<close>

fun already_included :: "(BackupInfo \<Rightarrow> (err, string) result) \<Rightarrow> marks \<Rightarrow> BackupInfo list \<Rightarrow> (err, string list) result" where
  "already_included select_id mark [] = Ok []"
| "already_included select_id mark (info # xs) =
     (if mark (relative_path info) = Some Keep then
        and_then (select_id info) (\<lambda>sel_id.
          and_then (already_included select_id mark xs) (\<lambda>ids. Ok (List.insert sel_id ids)))
      else already_included select_id mark xs)"

fun select_loop ::
  "(BackupInfo \<Rightarrow> (err, string) result) \<Rightarrow> nat \<Rightarrow> string list \<Rightarrow> string list \<Rightarrow> BackupInfo list \<Rightarrow> marks \<Rightarrow> (err, marks) result" where
  "select_loop select_id keep already include_hash [] mark = Ok mark"
| "select_loop select_id keep already include_hash (info # xs) mark =
     (let backup_id = relative_path info in
      if mark backup_id \<noteq> None then select_loop select_id keep already include_hash xs mark
      else if protected info then
        select_loop select_id keep already include_hash xs (mark(backup_id \<mapsto> Protected))
      else and_then (select_id info) (\<lambda>sel_id.
        if sel_id \<in> set already then select_loop select_id keep already include_hash xs mark
        else if sel_id \<notin> set include_hash then
          (if length include_hash \<ge> keep then Ok mark
           else select_loop select_id keep already (sel_id # include_hash) xs (mark(backup_id \<mapsto> Keep)))
        else select_loop select_id keep already include_hash xs (mark(backup_id \<mapsto> Remove))))"

definition mark_selections ::
  "(BackupInfo \<Rightarrow> (err, string) result) \<Rightarrow> nat \<Rightarrow> BackupInfo list \<Rightarrow> marks \<Rightarrow> (err, marks) result" where
  "mark_selections select_id keep xs mark =
     and_then (already_included select_id mark xs) (\<lambda>already. select_loop select_id keep already [] xs mark)"

section \<open>remove incomplete and ignore future\<close>

fun incomplete_loop :: "int \<Rightarrow> bool \<Rightarrow> BackupInfo list \<Rightarrow> marks \<Rightarrow> marks" where
  "incomplete_loop now keep_unfinished [] mark = mark"
| "incomplete_loop now keep_unfinished (info # xs) mark =
     (if backup_time info > now then
        incomplete_loop now keep_unfinished xs (mark(relative_path info \<mapsto> TimestampInFuture))
      else if is_finished info then incomplete_loop now False xs mark
      else incomplete_loop now False xs
        (mark(relative_path info \<mapsto> (if keep_unfinished then KeepPartial else Remove))))"

definition remove_incomplete_and_ignore_future :: "int \<Rightarrow> BackupInfo list \<Rightarrow> marks \<Rightarrow> marks" where
  "remove_incomplete_and_ignore_future now xs mark = incomplete_loop now True xs mark"

section \<open>compute prune info\<close>

definition mark_optional ::
  "nat option \<Rightarrow> (BackupInfo \<Rightarrow> (err, string) result) \<Rightarrow> BackupInfo list \<Rightarrow> marks \<Rightarrow> (err, marks) result" where
  "mark_optional keep select_id xs mark =
     (case keep of None \<Rightarrow> Ok mark | Some n \<Rightarrow> mark_selections select_id n xs mark)"

definition final_mark :: "marks \<Rightarrow> BackupInfo \<Rightarrow> PruneMark" where
  "final_mark mark info =
     (if protected info then Protected
      else case mark (relative_path info) of Some m \<Rightarrow> m | None \<Rightarrow> Remove)"

definition compute_prune_info ::
  "(string \<Rightarrow> int \<Rightarrow> (err, string) result) \<Rightarrow> int \<Rightarrow> BackupInfo list \<Rightarrow> KeepOptions \<Rightarrow>
   (err, (BackupInfo \<times> PruneMark) list) result" where
  "compute_prune_info strftime_local now xs options =
     (let xs = sort_list False xs;
          mark = remove_incomplete_and_ignore_future now xs Map.empty in
      and_then (mark_optional (keep_last options) (\<lambda>info. Ok (backup_time_string info)) xs mark) (\<lambda>mark.
      and_then (mark_optional (keep_hourly options) (\<lambda>info. strftime_local ''%Y/%m/%d/%H'' (backup_time info)) xs mark) (\<lambda>mark.
      and_then (mark_optional (keep_daily options) (\<lambda>info. strftime_local ''%Y/%m/%d'' (backup_time info)) xs mark) (\<lambda>mark.
      and_then (mark_optional (keep_weekly options) (\<lambda>info. strftime_local ''%G/%V'' (backup_time info)) xs mark) (\<lambda>mark.
      and_then (mark_optional (keep_monthly options) (\<lambda>info. strftime_local ''%Y/%m'' (backup_time info)) xs mark) (\<lambda>mark.
      and_then (mark_optional (keep_yearly options) (\<lambda>info. strftime_local ''%Y'' (backup_time info)) xs mark) (\<lambda>mark.
        Ok (map (\<lambda>info. (info, final_mark mark info)) xs))))))))"

section \<open>The passes in sequence\<close>

fun run_passes :: "(nat option \<times> (BackupInfo \<Rightarrow> (err, string) result)) list \<Rightarrow> BackupInfo list \<Rightarrow> marks \<Rightarrow> (err, marks) result" where
  "run_passes [] xs mark = Ok mark"
| "run_passes (p # ps) xs mark = and_then (mark_optional (fst p) (snd p) xs mark) (run_passes ps xs)"

definition passes :: "(string \<Rightarrow> int \<Rightarrow> (err, string) result) \<Rightarrow> KeepOptions \<Rightarrow>
    (nat option \<times> (BackupInfo \<Rightarrow> (err, string) result)) list" where
  "passes strftime_local options =
     [(keep_last options, \<lambda>info. Ok (backup_time_string info)),
      (keep_hourly options, \<lambda>info. strftime_local ''%Y/%m/%d/%H'' (backup_time info)),
      (keep_daily options, \<lambda>info. strftime_local ''%Y/%m/%d'' (backup_time info)),
      (keep_weekly options, \<lambda>info. strftime_local ''%G/%V'' (backup_time info)),
      (keep_monthly options, \<lambda>info. strftime_local ''%Y/%m'' (backup_time info)),
      (keep_yearly options, \<lambda>info. strftime_local ''%Y'' (backup_time info))]"

lemma and_then_assoc: "and_then (and_then r f) g = and_then r (\<lambda>x. and_then (f x) g)"
  by (cases r) simp_all

lemma compute_prune_info_passes:
  "compute_prune_info strftime_local now xs options =
     and_then (run_passes (passes strftime_local options) (sort_list False xs)
        (remove_incomplete_and_ignore_future now (sort_list False xs) Map.empty))
       (\<lambda>mark. Ok (map (\<lambda>info. (info, final_mark mark info)) (sort_list False xs)))"
  by (simp add: compute_prune_info_def passes_def Let_def and_then_assoc)

text \<open>A pass only adds marks, and adds at most \<open>keep\<close> times \<open>Keep\<close>.\<close>

definition kept :: "marks \<Rightarrow> string set" where
  "kept mark = {p. mark p = Some Keep}"

lemma select_loop_extends:
  "select_loop sel keep already inc xs mark = Ok mark' \<Longrightarrow> length inc \<le> keep \<Longrightarrow>
     mark \<subseteq>\<^sub>m mark' \<and> (\<exists>new. kept mark' = kept mark \<union> set new \<and> length inc + length new \<le> keep \<and> set new \<subseteq> relative_path ` set xs)"
proof (induction xs arbitrary: inc mark)
  case (Cons info xs)
  let ?p = "relative_path info"
  show ?case
  proof (cases "mark ?p")
    case (Some m)
    with Cons.prems Cons.IH [of inc mark] show ?thesis by (auto simp: Let_def)
  next
    case None
    have upd: "mark \<subseteq>\<^sub>m mark(?p \<mapsto> m)" for m using None by (auto simp: map_le_def)
    have keq: "kept (mark(?p \<mapsto> m)) = kept mark" if "m \<noteq> Keep" for m using that None by (auto simp: kept_def)
    show ?thesis
    proof (cases "protected info")
      case True
      with None Cons.prems Cons.IH [of inc "mark(?p \<mapsto> Protected)"] upd keq show ?thesis
        by (fastforce simp: Let_def intro: map_le_trans)
    next
      case False
      then obtain i where i: "sel info = Ok i" using None Cons.prems(1) by (auto simp: Let_def and_then_eq_Inr)
      consider "i \<in> set already" | "i \<notin> set already" "i \<in> set inc" | "i \<notin> set already" "i \<notin> set inc" by blast
      then show ?thesis
      proof cases
        case 1
        with None False i Cons.prems Cons.IH [of inc mark] show ?thesis by (auto simp: Let_def)
      next
        case 2
        with None False i Cons.prems Cons.IH [of inc "mark(?p \<mapsto> Remove)"] upd keq show ?thesis
          by (fastforce simp: Let_def intro: map_le_trans)
      next
        case 3
        show ?thesis
        proof (cases "keep \<le> length inc")
          case True
          with 3 None False i Cons.prems show ?thesis by (auto simp: Let_def intro!: exI [of _ "[]"])
        next
          case less: False
          have kk: "kept (mark(?p \<mapsto> Keep)) = insert ?p (kept mark)" by (auto simp: kept_def)
          from 3 None False i Cons.prems less have "select_loop sel keep already (i # inc) xs (mark(?p \<mapsto> Keep)) = Ok mark'"
            by (simp add: Let_def)
          from Cons.IH [OF this] less obtain new where n: "mark(?p \<mapsto> Keep) \<subseteq>\<^sub>m mark'"
            "kept mark' = insert ?p (kept mark) \<union> set new" "Suc (length inc + length new) \<le> keep"
            "set new \<subseteq> relative_path ` set xs" unfolding kk by (auto simp del: fun_upd_apply)
          then show ?thesis
            using map_le_trans [OF upd] by (intro conjI exI [of _ "?p # new"]) auto
        qed
      qed
    qed
  qed
qed (auto intro!: exI [of _ "[]"])

lemma pass_extends:
  assumes "mark_optional keep sel xs mark = Ok mark'"
  shows "mark \<subseteq>\<^sub>m mark'" and "\<exists>new. kept mark' = kept mark \<union> set new \<and> length new \<le> (case keep of None \<Rightarrow> 0 | Some n \<Rightarrow> n)"
  using assms select_loop_extends [of sel _ _ "[]" xs mark mark']
  by (fastforce simp: mark_optional_def mark_selections_def and_then_eq_Inr split: option.splits)+

lemma passes_extend:
  "run_passes ps xs mark = Ok mark' \<Longrightarrow> mark \<subseteq>\<^sub>m mark' \<and>
     (\<exists>new. kept mark' = kept mark \<union> set new \<and> length new \<le> sum_list (map (\<lambda>p. case fst p of None \<Rightarrow> 0 | Some n \<Rightarrow> n) ps))"
proof (induction ps arbitrary: mark)
  case (Cons p ps)
  then obtain m1 where m1: "mark_optional (fst p) (snd p) xs mark = Ok m1" "run_passes ps xs m1 = Ok mark'"
    by (auto simp: and_then_eq_Inr)
  obtain n1 where n1: "kept m1 = kept mark \<union> set n1" "length n1 \<le> (case fst p of None \<Rightarrow> 0 | Some n \<Rightarrow> n)"
    using pass_extends(2) [OF m1(1)] by blast
  obtain n2 where n2: "m1 \<subseteq>\<^sub>m mark'" "kept mark' = kept m1 \<union> set n2"
    "length n2 \<le> sum_list (map (\<lambda>p. case fst p of None \<Rightarrow> 0 | Some n \<Rightarrow> n) ps)"
    using Cons.IH [OF m1(2)] by blast
  show ?case
    using map_le_trans [OF pass_extends(1) [OF m1(1)] n2(1)] n1 n2(2,3)
    by (intro conjI exI [of _ "n1 @ n2"]) auto
qed (auto intro!: exI [of _ "[]"])

lemma incomplete_kept: "kept mark = {} \<Longrightarrow> kept (incomplete_loop now ku xs mark) = {}"
proof (induction xs arbitrary: ku mark)
  case (Cons info xs)
  have upd: "kept (mark(relative_path info \<mapsto> m)) = {}" if "m \<noteq> Keep" for m
    using that Cons.prems by (auto simp: kept_def)
  show ?case
    using Cons.prems Cons.IH [OF upd, of _ _] Cons.IH by (auto simp del: fun_upd_apply)
qed simp

lemma initial_kept: "kept (remove_incomplete_and_ignore_future now xs Map.empty) = {}"
proof -
  have "kept Map.empty = {}" by (simp add: kept_def)
  then show ?thesis unfolding remove_incomplete_and_ignore_future_def by (rule incomplete_kept)
qed

text \<open>A snapshot that the rules choose from: finished, not in the future, not protected.\<close>

definition candidate :: "int \<Rightarrow> BackupInfo \<Rightarrow> bool" where
  "candidate now info \<longleftrightarrow> backup_time info \<le> now \<and> is_finished info \<and> \<not> protected info"

lemma incomplete_mono: "dom mark \<subseteq> dom (incomplete_loop now ku xs mark)"
proof (induction xs arbitrary: ku mark)
  case (Cons info xs)
  have "dom mark \<subseteq> dom (mark(relative_path info \<mapsto> m))" for m by auto
  then show ?case using Cons.IH by (simp del: dom_fun_upd) (metis subset_trans)
qed simp

lemma incomplete_marks:
  "info \<in> set xs \<Longrightarrow> distinct (map relative_path xs) \<Longrightarrow> relative_path info \<notin> dom mark \<Longrightarrow>
     incomplete_loop now ku xs mark (relative_path info) = None \<longleftrightarrow> backup_time info \<le> now \<and> is_finished info"
proof (induction xs arbitrary: ku mark)
  case (Cons x xs)
  have frame: "incomplete_loop now ku' xs m (relative_path x) = m (relative_path x)" for ku' m
  proof -
    have "relative_path x \<notin> relative_path ` set xs" using Cons.prems(2) by simp
    then show ?thesis by (induction xs arbitrary: ku' m) auto
  qed
  show ?case
  proof (cases "info = x")
    case True
    then show ?thesis using Cons.prems(3) frame by (auto simp: domIff)
  next
    case False
    then have i: "info \<in> set xs" "relative_path info \<noteq> relative_path x" using Cons.prems(1,2) by (auto simp: image_iff)
    then show ?thesis using Cons.IH [OF i(1)] Cons.prems(2,3) by simp
  qed
qed simp

section \<open>The newest candidate\<close>

definition fresh :: "BackupInfo \<Rightarrow> BackupInfo list \<Rightarrow> marks \<Rightarrow> bool" where
  "fresh info ys mark \<longleftrightarrow> mark (relative_path info) = None \<and> kept mark = {} \<and> \<not> protected info \<and>
     (\<forall>y \<in> set ys. protected y \<or> mark (relative_path y) \<noteq> None) \<and> relative_path info \<notin> relative_path ` set ys"

lemma already_none: "kept mark = {} \<Longrightarrow> already_included sel mark xs = Ok []"
  by (induction xs) (auto simp: kept_def)

lemma select_first:
  assumes "select_loop sel keep [] [] (ys @ info # zs) mark = Ok mark'" "fresh info ys mark"
  shows "if keep = 0 then fresh info ys mark' else mark' (relative_path info) = Some Keep"
  using assms
proof (induction ys arbitrary: mark)
  case Nil
  then obtain i where i: "sel info = Ok i" by (auto simp: fresh_def Let_def and_then_eq_Inr)
  show ?case
  proof (cases "keep = 0")
    case False
    then have "select_loop sel keep [] [i] zs (mark(relative_path info \<mapsto> Keep)) = Ok mark'"
      using Nil i by (auto simp: fresh_def Let_def)
    from select_loop_extends [OF this] False have "mark(relative_path info \<mapsto> Keep) \<subseteq>\<^sub>m mark'" by simp
    then show ?thesis using False by (metis domI fun_upd_same map_le_def)
  qed (use Nil i in \<open>auto simp: fresh_def Let_def\<close>)
next
  case (Cons y ys)
  define m1 where "m1 = (if mark (relative_path y) = None then mark(relative_path y \<mapsto> Protected) else mark)"
  have run: "select_loop sel keep [] [] (ys @ info # zs) m1 = Ok mark'"
    using Cons.prems by (auto simp: fresh_def m1_def Let_def split: if_splits)
  have fr: "fresh info ys m1" using Cons.prems(2) by (auto simp: fresh_def m1_def kept_def)
  have le: "m1 \<subseteq>\<^sub>m mark'" using select_loop_extends [OF run] by simp
  have "mark' (relative_path y) \<noteq> None" using le Cons.prems(2) by (auto simp: m1_def map_le_def dom_def split: if_splits)
  then show ?case using Cons.IH [OF run fr] Cons.prems(2) by (auto simp: fresh_def split: if_splits)
qed

lemma passes_first:
  assumes "run_passes ps (ys @ info # zs) mark = Ok mark'" "fresh info ys mark" "\<exists>p \<in> set ps. \<exists>n. fst p = Some (Suc n)"
  shows "mark' (relative_path info) = Some Keep"
  using assms
proof (induction ps arbitrary: mark)
  case (Cons p ps)
  obtain m1 where m1: "mark_optional (fst p) (snd p) (ys @ info # zs) mark = Ok m1" "run_passes ps (ys @ info # zs) m1 = Ok mark'"
    using Cons.prems(1) by (auto simp: and_then_eq_Inr)
  show ?case
  proof (cases "fst p")
    case None
    then show ?thesis using Cons.IH [OF m1(2)] Cons.prems m1(1) by (auto simp: mark_optional_def)
  next
    case (Some n)
    have "kept mark = {}" using Cons.prems(2) by (simp add: fresh_def)
    then have "select_loop (snd p) n [] [] (ys @ info # zs) mark = Ok m1"
      using m1(1) Some by (simp add: mark_optional_def mark_selections_def already_none)
    from select_first [OF this Cons.prems(2)] have
      f: "if n = 0 then fresh info ys m1 else m1 (relative_path info) = Some Keep" .
    show ?thesis
    proof (cases n)
      case 0
      then show ?thesis using Cons.IH [OF m1(2)] Cons.prems(3) f Some by auto
    next
      case (Suc k)
      then show ?thesis using f passes_extend [OF m1(2)] by (auto simp: map_le_def dom_def)
    qed
  qed
qed simp

section \<open>Unique identifiers\<close>

text \<open>With a different identifier for each snapshot a pass keeps the first \<open>keep\<close> that are still open.\<close>

lemma select_unique:
  assumes "\<And>x. x \<in> set xs \<Longrightarrow> sel x = Ok (f x)" "distinct (map f xs)" "distinct (map relative_path xs)"
    "\<forall>x \<in> set xs. f x \<notin> set inc" "length inc \<le> keep"
  shows "\<exists>mark'. select_loop sel keep [] inc xs mark = Ok mark' \<and> kept mark' = kept mark \<union>
    relative_path ` set (take (keep - length inc) (filter (\<lambda>x. mark (relative_path x) = None \<and> \<not> protected x) xs))"
  using assms
proof (induction xs arbitrary: inc mark)
  case (Cons x xs)
  let ?p = "relative_path x"
  let ?F = "\<lambda>m. filter (\<lambda>x. m (relative_path x) = None \<and> \<not> protected x) xs"
  have ne: "relative_path y \<noteq> ?p" if "y \<in> set xs" for y using that Cons.prems(3) by (auto simp: image_iff)
  have flt: "?F (mark(?p \<mapsto> m)) = ?F mark" for m using ne by (intro filter_cong) auto
  show ?case
  proof (cases "mark ?p = None \<and> \<not> protected x")
    case False
    define m1 where "m1 = (if mark ?p = None then mark(?p \<mapsto> Protected) else mark)"
    have "kept m1 = kept mark" "?F m1 = ?F mark" using flt by (auto simp: m1_def kept_def)
    moreover have "select_loop sel keep [] inc (x # xs) mark = select_loop sel keep [] inc xs m1"
      using False by (auto simp: m1_def Let_def)
    ultimately show ?thesis using False Cons.IH [of inc m1] Cons.prems by auto
  next
    case free: True
    show ?thesis
    proof (cases "length inc = keep")
      case True
      then show ?thesis using free Cons.prems by (simp add: Let_def)
    next
      case False
      then have lt: "length inc < keep" using Cons.prems(5) by simp
      have "f x \<notin> set inc" "f x \<notin> f ` set xs" using Cons.prems(2,4) by auto
      then have "\<exists>mark'. select_loop sel keep [] (f x # inc) xs (mark(?p \<mapsto> Keep)) = Ok mark' \<and>
          kept mark' = kept (mark(?p \<mapsto> Keep)) \<union> relative_path ` set (take (keep - length (f x # inc)) (?F (mark(?p \<mapsto> Keep))))"
        using Cons.prems lt by (intro Cons.IH) (auto simp: image_iff)
      moreover have "kept (mark(?p \<mapsto> Keep)) = insert ?p (kept mark)" by (auto simp: kept_def)
      moreover have "keep - length inc = Suc (keep - Suc (length inc))" using lt by simp
      ultimately show ?thesis
        using free lt Cons.prems \<open>f x \<notin> set inc\<close> by (auto simp: Let_def flt simp del: fun_upd_apply)
    qed
  qed
qed (auto intro!: exI)

section \<open>Properties\<close>

text \<open>\<^verbatim>\<open>compute_prune_info\<close> returns every snapshot once, newest first, and never removes a protected one.\<close>

theorem prune_protects:
  assumes "compute_prune_info strftime_local now xs options = Ok res"
  shows "map fst res = sort_list False xs \<and> mset (map fst res) = mset xs \<and>
    (\<forall>(info, m) \<in> set res. protected info \<longrightarrow> m = Protected \<and> mark_keep m)"
proof -
  obtain mark where "res = map (\<lambda>info. (info, final_mark mark info)) (sort_list False xs)"
    using assms by (auto simp: compute_prune_info_passes and_then_eq_Inr)
  then show ?thesis by (auto simp: final_mark_def mark_keep_def sort_list_def o_def)
qed

definition demo_snap :: "char \<Rightarrow> int \<Rightarrow> bool \<Rightarrow> BackupInfo" where
  "demo_snap c t p = \<lparr>relative_path = [c], backup_time = t, backup_time_string = [c], files = [''index.json.blob''], protected = p\<rparr>"

definition snap_a :: BackupInfo where "snap_a = demo_snap (CHR ''a'') 10 False"
definition snap_b :: BackupInfo where "snap_b = demo_snap (CHR ''b'') 20 True"
definition snap_c :: BackupInfo where "snap_c = demo_snap (CHR ''c'') 30 False"

lemmas snap_defs = snap_a_def snap_b_def snap_c_def demo_snap_def

lemma snap_fields:
  "relative_path snap_a = ''a''" "relative_path snap_b = ''b''" "relative_path snap_c = ''c''"
  "backup_time_string snap_a = ''a''" "backup_time_string snap_b = ''b''" "backup_time_string snap_c = ''c''"
  "backup_time snap_a = 10" "backup_time snap_b = 20" "backup_time snap_c = 30"
  "\<not> protected snap_a" "protected snap_b" "\<not> protected snap_c"
  by (simp_all add: snap_defs)

lemma snap_sorted: "sort_list False [snap_a, snap_b, snap_c] = [snap_c, snap_b, snap_a]"
  by (simp add: sort_list_def snap_fields)

lemma snap_finished: "is_finished snap_a" "is_finished snap_b" "is_finished snap_c"
  by (simp_all add: is_finished_def snap_defs MANIFEST_BLOB_NAME_def)

definition demo_options :: KeepOptions where
  "demo_options = \<lparr>keep_last = Some 1, keep_hourly = None, keep_daily = None, keep_weekly = None, keep_monthly = None, keep_yearly = None\<rparr>"

lemma demo_prune:
  "compute_prune_info (\<lambda>f t. Ok ''x'') 100 [snap_a, snap_b, snap_c] demo_options =
     Ok [(snap_c, Keep), (snap_b, Protected), (snap_a, Remove)]"
  using snap_finished
  by (simp add: compute_prune_info_def snap_sorted demo_options_def mark_optional_def mark_selections_def
      remove_incomplete_and_ignore_future_def final_mark_def Let_def snap_fields)

theorem prune_protects_witness:
  "\<exists>res. compute_prune_info (\<lambda>f t. Ok ''x'') 100 [snap_a, snap_b, snap_c] demo_options = Ok res \<and>
     map fst res = sort_list False [snap_a, snap_b, snap_c] \<and> protected snap_b \<and> (snap_b, Protected) \<in> set res"
proof -
  have "map fst [(snap_c, Keep), (snap_b, Protected), (snap_a, Remove)] = sort_list False [snap_a, snap_b, snap_c]"
    using prune_protects [OF demo_prune] by (rule conjunct1)
  then show ?thesis using demo_prune snap_fields(11) by auto
qed

text \<open>Pruning never removes the newest usable snapshot: when some keep option is positive, the newest
  snapshot that is finished, not protected and not dated in the future is kept.\<close>

theorem prune_keeps_newest:
  assumes "compute_prune_info strftime_local now xs options = Ok res" "distinct (map relative_path xs)"
    "sort_list False xs = ys @ info # zs" "candidate now info" "\<forall>y \<in> set ys. \<not> candidate now y"
    "\<exists>n. Some (Suc n) \<in> {keep_last options, keep_hourly options, keep_daily options, keep_weekly options,
      keep_monthly options, keep_yearly options}"
  shows "(info, Keep) \<in> set res"
proof -
  let ?xs = "sort_list False xs" and ?m0 = "remove_incomplete_and_ignore_future now (sort_list False xs) Map.empty"
  obtain mark where m: "run_passes (passes strftime_local options) ?xs ?m0 = Ok mark"
    and res: "res = map (\<lambda>info. (info, final_mark mark info)) ?xs"
    using assms(1) by (auto simp: compute_prune_info_passes and_then_eq_Inr)
  have "mset (map relative_path ?xs) = mset (map relative_path xs)" by (simp add: sort_list_def)
  then have dist: "distinct (map relative_path ?xs)" using assms(2) mset_eq_imp_distinct_iff by blast
  have m0: "?m0 (relative_path y) = None \<longleftrightarrow> backup_time y \<le> now \<and> is_finished y" if "y \<in> set ?xs" for y
    using incomplete_marks [OF that dist] by (simp add: remove_incomplete_and_ignore_future_def)
  have "kept ?m0 = {}" by (rule initial_kept)
  then have fr: "fresh info ys ?m0"
    using m0 assms(3,4,5) dist by (auto simp: fresh_def candidate_def)
  have "\<exists>p \<in> set (passes strftime_local options). \<exists>n. fst p = Some (Suc n)"
    using assms(6) by (auto simp: passes_def dest: sym)
  from passes_first [OF m [unfolded assms(3)] _ this] fr [unfolded assms(3)]
  have "mark (relative_path info) = Some Keep" by simp
  then show ?thesis using assms(3,4) by (auto simp: res final_mark_def candidate_def)
qed

theorem prune_keeps_newest_witness:
  "(snap_c, Keep) \<in> set [(snap_c, Keep), (snap_b, Protected), (snap_a, Remove)]"
proof (rule prune_keeps_newest [OF demo_prune])
  show "sort_list False [snap_a, snap_b, snap_c] = [] @ snap_c # [snap_b, snap_a]" by (simp add: snap_sorted)
  show "candidate 100 snap_c" using snap_finished(3) by (simp add: candidate_def snap_fields)
qed (simp_all add: snap_fields demo_options_def)

text \<open>C27. \<^verbatim>\<open>keep_last\<close> keeps exactly the given number of the newest candidates, when no other rule is set.\<close>

theorem prune_keep_last_exact:
  assumes "options = \<lparr>keep_last = Some n, keep_hourly = None, keep_daily = None, keep_weekly = None, keep_monthly = None, keep_yearly = None\<rparr>"
    "distinct (map relative_path xs)" "distinct (map backup_time_string xs)"
  shows "\<exists>res. compute_prune_info strftime_local now xs options = Ok res \<and>
    {info. (info, Keep) \<in> set res} = set (take n (filter (candidate now) (sort_list False xs)))"
proof -
  let ?xs = "sort_list False xs" and ?m0 = "remove_incomplete_and_ignore_future now (sort_list False xs) Map.empty"
  have ms: "mset (map relative_path ?xs) = mset (map relative_path xs)"
    "mset (map backup_time_string ?xs) = mset (map backup_time_string xs)" by (simp_all add: sort_list_def)
  have dist: "distinct (map relative_path ?xs)" "distinct (map backup_time_string ?xs)"
    using assms(2,3) ms mset_eq_imp_distinct_iff by blast+
  have k0: "kept ?m0 = {}" by (rule initial_kept)
  have flt: "filter (\<lambda>x. ?m0 (relative_path x) = None \<and> \<not> protected x) ?xs = filter (candidate now) ?xs"
    using incomplete_marks [OF _ dist(1)]
    by (intro filter_cong) (auto simp: remove_incomplete_and_ignore_future_def candidate_def)
  from select_unique [of ?xs "\<lambda>x. Ok (backup_time_string x)" backup_time_string "[]" n ?m0] dist
  obtain mark where sel: "select_loop (\<lambda>x. Ok (backup_time_string x)) n [] [] ?xs ?m0 = Ok mark"
    and kept: "kept mark = relative_path ` set (take n (filter (candidate now) ?xs))" by (auto simp: k0 flt)
  have run: "compute_prune_info strftime_local now xs options = Ok (map (\<lambda>info. (info, final_mark mark info)) ?xs)"
    using sel k0 by (simp add: compute_prune_info_def mark_optional_def mark_selections_def already_none assms(1) Let_def)
  have sub: "set (take n (filter (candidate now) ?xs)) \<subseteq> {x \<in> set ?xs. \<not> protected x}"
    by (auto dest!: in_set_takeD simp: candidate_def)
  have inj: "inj_on relative_path (set ?xs)" using dist(1) by (simp add: distinct_map)
  have "final_mark mark x = Keep \<longleftrightarrow> x \<in> set (take n (filter (candidate now) ?xs))" if "x \<in> set ?xs" for x
  proof -
    have "mark (relative_path x) = Some Keep \<longleftrightarrow> x \<in> set (take n (filter (candidate now) ?xs))"
      using kept inj that sub unfolding kept_def inj_on_def by blast
    then show ?thesis using sub by (auto simp: final_mark_def split: option.splits)
  qed
  then have "{info. (info, Keep) \<in> set (map (\<lambda>info. (info, final_mark mark info)) ?xs)} =
      set (take n (filter (candidate now) ?xs))" using sub by (fastforce simp: image_iff)
  with run show ?thesis by blast
qed

theorem prune_keep_last_exact_witness:
  "\<exists>res. compute_prune_info (\<lambda>f t. Ok ''x'') 100 [snap_a, snap_b, snap_c] demo_options = Ok res \<and>
    {info. (info, Keep) \<in> set res} = set (take 1 (filter (candidate 100) (sort_list False [snap_a, snap_b, snap_c])))"
  by (rule prune_keep_last_exact) (simp_all add: demo_options_def snap_fields)

text \<open>The rules together keep at most the sum of their numbers.\<close>

theorem prune_keep_bound:
  assumes "compute_prune_info strftime_local now xs options = Ok res" "distinct (map relative_path xs)"
  shows "card {info. (info, Keep) \<in> set res} \<le>
    sum_list (map (\<lambda>k. case k of None \<Rightarrow> 0 | Some n \<Rightarrow> n) [keep_last options, keep_hourly options, keep_daily options,
      keep_weekly options, keep_monthly options, keep_yearly options])"
proof -
  let ?xs = "sort_list False xs" and ?m0 = "remove_incomplete_and_ignore_future now (sort_list False xs) Map.empty"
  obtain mark where m: "run_passes (passes strftime_local options) ?xs ?m0 = Ok mark"
    and res: "res = map (\<lambda>info. (info, final_mark mark info)) ?xs"
    using assms(1) by (auto simp: compute_prune_info_passes and_then_eq_Inr)
  have "kept ?m0 = {}" by (rule initial_kept)
  then obtain new where new: "kept mark = set new"
    "length new \<le> sum_list (map (\<lambda>p. case fst p of None \<Rightarrow> 0 | Some n \<Rightarrow> n) (passes strftime_local options))"
    using passes_extend [OF m] by auto
  have "mset (map relative_path ?xs) = mset (map relative_path xs)" by (simp add: sort_list_def)
  then have inj: "inj_on relative_path (set ?xs)" using assms(2) mset_eq_imp_distinct_iff distinct_map by blast
  let ?K = "{info. (info, Keep) \<in> set res}"
  have mk: "mark (relative_path x) = Some Keep" if "final_mark mark x = Keep" for x
    using that by (auto simp: final_mark_def split: option.splits if_splits)
  have sub: "?K \<subseteq> set ?xs" "relative_path ` ?K \<subseteq> set new"
    unfolding new(1) [symmetric] by (auto simp: res kept_def dest!: sym [of Keep] mk)
  have "card ?K = card (relative_path ` ?K)" using inj_on_subset [OF inj sub(1)] by (simp add: card_image)
  also have "\<dots> \<le> length new" using card_mono [OF _ sub(2)] card_length [of new] by (meson List.finite_set le_trans)
  finally show ?thesis using new(2) by (simp add: passes_def)
qed

theorem prune_keep_bound_witness:
  "card {info. (info, Keep) \<in> set [(snap_c, Keep), (snap_b, Protected), (snap_a, Remove)]} \<le> 1"
  using prune_keep_bound [OF demo_prune] by (simp add: demo_options_def snap_fields)

end
