(* ===== verification/BackupEnv.thy ===== *)
theory BackupEnv
  imports DynamicIndex FixedIndex DataBlob "HOL-Library.Multiset"
begin

text \<open>
  The server side of a backup session (\<^verbatim>\<open>src/api2/backup/environment.rs\<close>): the state shared by the API
  calls of one session, and every call that changes it. Each call runs under the mutex of the state;
  \<^verbatim>\<open>dynamic_writer_close\<close>, \<^verbatim>\<open>fixed_writer_close\<close>, \<^verbatim>\<open>add_blob\<close> and \<^verbatim>\<open>finish_backup\<close> release it in between, so they
  are modelled in two parts, and other calls can run between these. A call that fails may have changed
  the state: it returns both. Panics are \<open>None\<close>. Parameters are SHA-256, the parser and printer of the
  manifest, and the outcome of file and backend operations. Logging and the verification task that
  may follow a backup are left out.
\<close>

section \<open>State\<close>

record UploadStatistic =
  us_count :: nat
  us_size :: nat
  us_compressed_size :: nat
  us_duplicates :: nat

definition UploadStatistic_new :: UploadStatistic where
  "UploadStatistic_new = \<lparr>us_count = 0, us_size = 0, us_compressed_size = 0, us_duplicates = 0\<rparr>"

definition add_stat :: "UploadStatistic \<Rightarrow> UploadStatistic \<Rightarrow> UploadStatistic" where
  "add_stat a b = \<lparr>us_count = wrapping_add (us_count a) (us_count b), us_size = wrapping_add (us_size a) (us_size b),
     us_compressed_size = wrapping_add (us_compressed_size a) (us_compressed_size b),
     us_duplicates = wrapping_add (us_duplicates a) (us_duplicates b)\<rparr>"

record DynamicWriterState =
  dw_name :: string
  dw_index :: DynamicIndexWriter
  dw_offset :: nat
  dw_chunk_count :: nat
  dw_stat :: UploadStatistic
  dw_closed :: bool

record FixedWriterState =
  fs_name :: string
  fs_index :: FixedIndexWriter
  fs_size :: "nat option"
  fs_chunk_size :: nat
  fs_chunk_count :: nat
  fs_small_chunk_count :: nat
  fs_stat :: UploadStatistic
  fs_incremental :: bool
  fs_closed :: bool

datatype BackupState = Active | Finishing | Finished

record BackupLockGuards =
  previous_snapshot :: bool
  group :: bool
  snapshot :: bool
  chunk_store :: bool

record BackupManifest =
  mfiles :: "(string \<times> digest) list"
  chunk_upload_stats :: "UploadStatistic option"

record SharedBackupState =
  finished :: BackupState
  uid_counter :: nat
  file_counter :: nat
  dynamic_writers :: "nat \<rightharpoonup> DynamicWriterState"
  fixed_writers :: "nat \<rightharpoonup> FixedWriterState"
  known_chunks :: "digest \<rightharpoonup> nat"
  backup_size :: nat
  backup_stat :: UploadStatistic
  backup_lock_guards :: BackupLockGuards
  manifest :: "BackupManifest option"
  uploaded_archives :: "string \<rightharpoonup> digest"

definition BackupLockGuards_new :: "bool \<Rightarrow> BackupLockGuards" where
  "BackupLockGuards_new has_previous = \<lparr>previous_snapshot = has_previous, group = True, snapshot = True, chunk_store = True\<rparr>"

definition SharedBackupState_new :: "BackupLockGuards \<Rightarrow> SharedBackupState" where
  "SharedBackupState_new guards = \<lparr>finished = Active, uid_counter = 0, file_counter = 0, dynamic_writers = Map.empty,
     fixed_writers = Map.empty, known_chunks = Map.empty, backup_size = 0, backup_stat = UploadStatistic_new,
     backup_lock_guards = guards, manifest = None, uploaded_archives = Map.empty\<rparr>"

definition ensure_unfinished :: "SharedBackupState \<Rightarrow> (err, unit) result" where
  "ensure_unfinished s =
     (case finished s of
        Active \<Rightarrow> Ok ()
      | Finishing \<Rightarrow> Err ''backup is already in the process of finishing.''
      | Finished \<Rightarrow> Err ''backup already marked as finished.'')"

definition next_uid :: "SharedBackupState \<Rightarrow> nat \<times> SharedBackupState" where
  "next_uid s = (let uid = wrapping_add (uid_counter s) 1 in (uid, s\<lparr>uid_counter := uid\<rparr>))"

type_synonym 'a call = "(err, 'a) result \<times> SharedBackupState"

section \<open>Chunks and writers\<close>

definition register_chunk :: "digest \<Rightarrow> nat \<Rightarrow> SharedBackupState \<Rightarrow> unit call" where
  "register_chunk digest len s =
     (case ensure_unfinished s of
        Inl e \<Rightarrow> (Err e, s)
      | Inr _ \<Rightarrow> (Ok (), s\<lparr>known_chunks := (known_chunks s)(digest \<mapsto> len)\<rparr>))"

definition record_stat :: "nat \<Rightarrow> nat \<Rightarrow> bool \<Rightarrow> UploadStatistic \<Rightarrow> UploadStatistic" where
  "record_stat fsize compressed_size is_duplicate u =
     (let u1 = u\<lparr>us_count := wrapping_add (us_count u) 1, us_size := wrapping_add (us_size u) fsize,
            us_compressed_size := wrapping_add (us_compressed_size u) compressed_size\<rparr> in
      if is_duplicate then u1\<lparr>us_duplicates := wrapping_add (us_duplicates u1) 1\<rparr> else u1)"

definition register_fixed_chunk ::
  "nat \<Rightarrow> digest \<Rightarrow> nat \<Rightarrow> nat \<Rightarrow> bool \<Rightarrow> SharedBackupState \<Rightarrow> unit call" where
  "register_fixed_chunk wid digest fsize compressed_size is_duplicate s =
     (case ensure_unfinished s of Inl e \<Rightarrow> (Err e, s)
      | Inr _ \<Rightarrow>
        (case fixed_writers s wid of None \<Rightarrow> (Err ''fixed writer not registered'', s)
         | Some data \<Rightarrow>
           if fs_closed data then (Err ''fixed writer register chunk failed - already closed'', s)
           else if fsize > fs_chunk_size data then (Err ''fixed writer - got large chunk'', s)
           else (let data1 = (if fsize < fs_chunk_size data
                     then data\<lparr>fs_small_chunk_count := wrapping_add (fs_small_chunk_count data) 1\<rparr> else data);
                     s1 = s\<lparr>fixed_writers := (fixed_writers s)(wid \<mapsto> data1)\<rparr> in
             if fsize < fs_chunk_size data \<and> fs_small_chunk_count data1 > 1
             then (Err ''fixed writer - detected multiple end chunks (chunk size too small)'', s1)
             else (let data2 = data1\<lparr>fs_stat := record_stat fsize compressed_size is_duplicate (fs_stat data1)\<rparr> in
               (Ok (), s1\<lparr>fixed_writers := (fixed_writers s1)(wid \<mapsto> data2),
                  known_chunks := (known_chunks s1)(digest \<mapsto> fsize)\<rparr>)))))"

definition register_dynamic_chunk ::
  "nat \<Rightarrow> digest \<Rightarrow> nat \<Rightarrow> nat \<Rightarrow> bool \<Rightarrow> SharedBackupState \<Rightarrow> unit call" where
  "register_dynamic_chunk wid digest fsize compressed_size is_duplicate s =
     (case ensure_unfinished s of Inl e \<Rightarrow> (Err e, s)
      | Inr _ \<Rightarrow>
        (case dynamic_writers s wid of None \<Rightarrow> (Err ''dynamic writer not registered'', s)
         | Some data \<Rightarrow>
           if dw_closed data then (Err ''dynamic writer register chunk failed - already closed'', s)
           else (Ok (), s\<lparr>dynamic_writers := (dynamic_writers s)(wid \<mapsto>
                    data\<lparr>dw_stat := record_stat fsize compressed_size is_duplicate (dw_stat data)\<rparr>),
                  known_chunks := (known_chunks s)(digest \<mapsto> fsize)\<rparr>)))"

definition lookup_chunk :: "digest \<Rightarrow> SharedBackupState \<Rightarrow> nat option" where
  "lookup_chunk digest s = known_chunks s digest"

definition register_dynamic_writer :: "DynamicIndexWriter \<Rightarrow> string \<Rightarrow> SharedBackupState \<Rightarrow> nat call" where
  "register_dynamic_writer index name s =
     (case ensure_unfinished s of Inl e \<Rightarrow> (Err e, s)
      | Inr _ \<Rightarrow>
        (let (uid, s1) = next_uid s in
         (Ok uid, s1\<lparr>dynamic_writers := (dynamic_writers s1)(uid \<mapsto>
            \<lparr>dw_name = name, dw_index = index, dw_offset = 0, dw_chunk_count = 0,
             dw_stat = UploadStatistic_new, dw_closed = False\<rparr>)\<rparr>)))"

definition register_fixed_writer ::
  "FixedIndexWriter \<Rightarrow> string \<Rightarrow> nat option \<Rightarrow> nat \<Rightarrow> bool \<Rightarrow> SharedBackupState \<Rightarrow> nat call" where
  "register_fixed_writer index name fsize chunk_size incremental s =
     (case ensure_unfinished s of Inl e \<Rightarrow> (Err e, s)
      | Inr _ \<Rightarrow>
        (let (uid, s1) = next_uid s in
         (Ok uid, s1\<lparr>fixed_writers := (fixed_writers s1)(uid \<mapsto>
            \<lparr>fs_name = name, fs_index = index, fs_size = fsize, fs_chunk_size = chunk_size, fs_chunk_count = 0,
             fs_small_chunk_count = 0, fs_stat = UploadStatistic_new, fs_incremental = incremental, fs_closed = False\<rparr>)\<rparr>)))"

definition register_manifest :: "BackupManifest \<Rightarrow> SharedBackupState \<Rightarrow> unit call" where
  "register_manifest m s =
     (case ensure_unfinished s of Inl e \<Rightarrow> (Err e, s) | Inr _ \<Rightarrow> (Ok (), s\<lparr>manifest := Some m\<rparr>))"

text \<open>The offset and the count move on before the index is written, also when that fails.\<close>

definition dynamic_writer_append_chunk ::
  "(err \<times> nat) option \<Rightarrow> nat \<Rightarrow> nat \<Rightarrow> nat \<Rightarrow> digest \<Rightarrow> SharedBackupState \<Rightarrow> unit call" where
  "dynamic_writer_append_chunk io wid offset fsize digest s =
     (case ensure_unfinished s of Inl e \<Rightarrow> (Err e, s)
      | Inr _ \<Rightarrow>
        (case dynamic_writers s wid of None \<Rightarrow> (Err ''dynamic writer not registered'', s)
         | Some data \<Rightarrow>
           if dw_closed data then (Err ''dynamic writer append chunk failed - already closed'', s)
           else if dw_offset data \<noteq> offset then
             (Err ''dynamic writer append chunk failed - got strange chunk offset'', s)
           else (let data1 = data\<lparr>dw_offset := wrapping_add (dw_offset data) fsize,
                        dw_chunk_count := wrapping_add (dw_chunk_count data) 1\<rparr>;
                     (r, index) = writer_add_chunk io (dw_offset data1) digest (dw_index data1) in
             (r, s\<lparr>dynamic_writers := (dynamic_writers s)(wid \<mapsto> data1\<lparr>dw_index := index\<rparr>)\<rparr>))))"

definition fixed_writer_append_chunk ::
  "sys \<Rightarrow> nat \<Rightarrow> nat \<Rightarrow> nat \<Rightarrow> digest \<Rightarrow> SharedBackupState \<Rightarrow> unit call option" where
  "fixed_writer_append_chunk io wid offset fsize digest s =
     (case ensure_unfinished s of Inl e \<Rightarrow> Some (Err e, s)
      | Inr _ \<Rightarrow>
        (case fixed_writers s wid of None \<Rightarrow> Some (Err ''fixed writer not registered'', s)
         | Some data \<Rightarrow>
           if fs_closed data then Some (Err ''fixed writer append chunk failed - already closed'', s)
           else (case fixed_add_chunk io offset fsize digest (fs_index data) of
               None \<Rightarrow> None
             | Some (Inl e, index) \<Rightarrow> Some (Err e, s\<lparr>fixed_writers := (fixed_writers s)(wid \<mapsto> data\<lparr>fs_index := index\<rparr>)\<rparr>)
             | Some (Inr _, index) \<Rightarrow>
                 Some (Ok (), s\<lparr>fixed_writers := (fixed_writers s)(wid \<mapsto>
                   data\<lparr>fs_index := index, fs_chunk_count := wrapping_add (fs_chunk_count data) 1\<rparr>)\<rparr>))))"

section \<open>Closing writers\<close>

text \<open>The archive is accounted for under the lock \<dots>\<close>

definition account_archive :: "string \<Rightarrow> digest \<Rightarrow> nat \<Rightarrow> UploadStatistic \<Rightarrow> SharedBackupState \<Rightarrow> SharedBackupState" where
  "account_archive name cs fsize upload_stat s =
     s\<lparr>uploaded_archives := (uploaded_archives s)(name \<mapsto> cs), file_counter := wrapping_add (file_counter s) 1,
       backup_size := wrapping_add (backup_size s) fsize, backup_stat := add_stat (backup_stat s) upload_stat\<rparr>"

definition dynamic_close_begin ::
  "(bytes \<Rightarrow> digest) \<Rightarrow> close_fault \<Rightarrow> nat \<Rightarrow> nat \<Rightarrow> nat \<Rightarrow> digest \<Rightarrow> SharedBackupState \<Rightarrow> unit call option" where
  "dynamic_close_begin sha io wid chunk_count fsize cs s =
     (case ensure_unfinished s of Inl e \<Rightarrow> Some (Err e, s)
      | Inr _ \<Rightarrow>
        (case dynamic_writers s wid of None \<Rightarrow> Some (Err ''dynamic writer not registered'', s)
         | Some data \<Rightarrow>
           if dw_closed data then Some (Err ''dynamic writer close failed - already closed'', s)
           else if dw_chunk_count data \<noteq> chunk_count then
             Some (Err ''dynamic writer close failed - unexpected chunk count'', s)
           else if dw_offset data \<noteq> fsize then Some (Err ''dynamic writer close failed - unexpected file size'', s)
           else (case writer_close sha io (dw_index data) of
               None \<Rightarrow> None
             | Some (Inl e, index) \<Rightarrow> Some (Err e, s\<lparr>dynamic_writers := (dynamic_writers s)(wid \<mapsto> data\<lparr>dw_index := index\<rparr>)\<rparr>)
             | Some (Inr expected_csum, index) \<Rightarrow>
                 (let s1 = s\<lparr>dynamic_writers := (dynamic_writers s)(wid \<mapsto> data\<lparr>dw_index := index, dw_closed := True\<rparr>)\<rparr> in
                  if cs \<noteq> expected_csum then Some (Err ''dynamic writer close failed - got unexpected checksum'', s1)
                  else Some (Ok (), account_archive (dw_name data) cs fsize (dw_stat data) s1)))))"

text \<open>\<dots> and after the upload to the backend, for which the lock is released, the writer is removed.\<close>

definition dynamic_close_end :: "(err, bool) result \<Rightarrow> nat \<Rightarrow> SharedBackupState \<Rightarrow> unit call" where
  "dynamic_close_end upload wid s =
     (case upload of
        Inl e \<Rightarrow> (Err (''failed to upload dynamic index to backend'' @ e), s)
      | Inr _ \<Rightarrow>
          (if dynamic_writers s wid = None then (Err ''dynamic writer no longer registered'', s)
           else (Ok (), s\<lparr>dynamic_writers := (dynamic_writers s)(wid := None)\<rparr>)))"

definition dynamic_writer_close ::
  "(bytes \<Rightarrow> digest) \<Rightarrow> close_fault \<Rightarrow> (err, bool) result \<Rightarrow> nat \<Rightarrow> nat \<Rightarrow> nat \<Rightarrow> digest \<Rightarrow> SharedBackupState \<Rightarrow> unit call option" where
  "dynamic_writer_close sha io upload wid chunk_count fsize cs s =
     (case dynamic_close_begin sha io wid chunk_count fsize cs s of
        None \<Rightarrow> None
      | Some (Inl e, s1) \<Rightarrow> Some (Err e, s1)
      | Some (Inr _, s1) \<Rightarrow> Some (dynamic_close_end upload wid s1))"

text \<open>The checks of a writer for a complete image.\<close>

definition fixed_full_checks :: "FixedWriterState \<Rightarrow> nat \<Rightarrow> nat \<Rightarrow> (err, unit) result" where
  "fixed_full_checks data chunk_count fsize =
     (if fs_incremental data then Ok ()
      else if chunk_count \<noteq> index_length (fs_index data) then Err ''fixed writer close failed - unexpected chunk count''
      else if (case fs_size data of Some known_size \<Rightarrow> fsize \<noteq> known_size | None \<Rightarrow> False)
      then Err ''fixed writer close failed - unexpected file size''
      else if fsize \<noteq> fw_size (fs_index data) then Err ''fixed writer close failed - unexpected size''
      else Ok ())"

definition fixed_close_begin ::
  "(bytes \<Rightarrow> digest) \<Rightarrow> sys \<Rightarrow> nat \<Rightarrow> nat \<Rightarrow> nat \<Rightarrow> digest \<Rightarrow> SharedBackupState \<Rightarrow> unit call option" where
  "fixed_close_begin sha io wid chunk_count fsize cs s =
     (case ensure_unfinished s of Inl e \<Rightarrow> Some (Err e, s)
      | Inr _ \<Rightarrow>
        (case fixed_writers s wid of None \<Rightarrow> Some (Err ''fixed writer not registered'', s)
         | Some data \<Rightarrow>
           if fs_closed data then Some (Err ''fixed writer close failed - already closed'', s)
           else if fs_chunk_count data \<noteq> chunk_count then
             Some (Err ''fixed writer close failed - received wrong number of chunk'', s)
           else (case (if fs_incremental data \<and> fs_size data = None then grow_to_size io fsize (fs_index data)
                       else Some (Ok (), fs_index data)) of
               None \<Rightarrow> None
             | Some (Inl e, index) \<Rightarrow> Some (Err e, s\<lparr>fixed_writers := (fixed_writers s)(wid \<mapsto> data\<lparr>fs_index := index\<rparr>)\<rparr>)
             | Some (Inr _, index) \<Rightarrow>
                 (let data1 = data\<lparr>fs_index := index\<rparr>; s1 = s\<lparr>fixed_writers := (fixed_writers s)(wid \<mapsto> data1)\<rparr> in
                  case fixed_full_checks data1 chunk_count fsize of
                    Inl e \<Rightarrow> Some (Err e, s1)
                  | Inr _ \<Rightarrow>
                      (case fixed_close sha io index of
                         None \<Rightarrow> None
                       | Some (Inl e, index2) \<Rightarrow>
                           Some (Err e, s1\<lparr>fixed_writers := (fixed_writers s1)(wid \<mapsto> data1\<lparr>fs_index := index2\<rparr>)\<rparr>)
                       | Some (Inr expected_csum, index2) \<Rightarrow>
                           (let s2 = s1\<lparr>fixed_writers := (fixed_writers s1)(wid \<mapsto> data1\<lparr>fs_index := index2, fs_closed := True\<rparr>)\<rparr> in
                            if cs \<noteq> expected_csum then Some (Err ''fixed writer close failed - got unexpected checksum'', s2)
                            else Some (Ok (), account_archive (fs_name data) cs fsize (fs_stat data) s2)))))))"

definition fixed_close_end :: "(err, bool) result \<Rightarrow> nat \<Rightarrow> SharedBackupState \<Rightarrow> unit call" where
  "fixed_close_end upload wid s =
     (case upload of
        Inl e \<Rightarrow> (Err (''failed to upload fixed index to backend'' @ e), s)
      | Inr _ \<Rightarrow>
          (if fixed_writers s wid = None then (Err ''dynamic writer no longer registered'', s)
           else (Ok (), s\<lparr>fixed_writers := (fixed_writers s)(wid := None)\<rparr>)))"

definition fixed_writer_close ::
  "(bytes \<Rightarrow> digest) \<Rightarrow> sys \<Rightarrow> (err, bool) result \<Rightarrow> nat \<Rightarrow> nat \<Rightarrow> nat \<Rightarrow> digest \<Rightarrow> SharedBackupState \<Rightarrow> unit call option" where
  "fixed_writer_close sha io upload wid chunk_count fsize cs s =
     (case fixed_close_begin sha io wid chunk_count fsize cs s of
        None \<Rightarrow> None
      | Some (Inl e, s1) \<Rightarrow> Some (Err e, s1)
      | Some (Inr _, s1) \<Rightarrow> Some (fixed_close_end upload wid s1))"

section \<open>Blobs and the end of the backup\<close>

definition MANIFEST_NAME :: string where
  "MANIFEST_NAME = ''index.json.blob''"

text \<open>
  \<^verbatim>\<open>add_blob\<close> up to the second locking of the state: the blob is checked, and registered as the manifest or
  stored in the datastore (outcome \<open>stored\<close>). The result is the checksum and the length for the second part.
\<close>

definition add_blob_begin ::
  "'c libs \<Rightarrow> (DataBlob \<Rightarrow> (err, BackupManifest) result) \<Rightarrow> (err, unit) result \<Rightarrow> string \<Rightarrow> bytes \<Rightarrow>
   SharedBackupState \<Rightarrow> (digest \<times> nat) call option" where
  "add_blob_begin L parse_manifest stored archive_name data s =
     (case load_from_reader L (Ok data) of
        None \<Rightarrow> None
      | Some (Inl e) \<Rightarrow> Some (Err e, s)
      | Some (Inr blob) \<Rightarrow>
          if archive_name = MANIFEST_NAME then
            (case parse_manifest blob of
               Inl e \<Rightarrow> Some (Err e, s)
             | Inr m \<Rightarrow>
                 (case register_manifest m s of
                    (Inl e, s1) \<Rightarrow> Some (Err e, s1)
                  | (Inr _, s1) \<Rightarrow> Some (Ok (blob_csum L blob, length data), s1)))
          else (case stored of
             Inl e \<Rightarrow> Some (Err e, s)
           | Inr _ \<Rightarrow> Some (Ok (blob_csum L blob, length data), s)))"

definition add_blob_end :: "string \<Rightarrow> digest \<times> nat \<Rightarrow> SharedBackupState \<Rightarrow> SharedBackupState" where
  "add_blob_end archive_name r s =
     (let s1 = (if archive_name = MANIFEST_NAME then s
                else s\<lparr>uploaded_archives := (uploaded_archives s)(archive_name \<mapsto> fst r)\<rparr>) in
      s1\<lparr>file_counter := wrapping_add (file_counter s1) 1, backup_size := wrapping_add (backup_size s1) (snd r),
         backup_stat := (backup_stat s1)\<lparr>us_size := wrapping_add (us_size (backup_stat s1)) (snd r)\<rparr>\<rparr>)"

definition add_blob ::
  "'c libs \<Rightarrow> (DataBlob \<Rightarrow> (err, BackupManifest) result) \<Rightarrow> (err, unit) result \<Rightarrow> string \<Rightarrow> bytes \<Rightarrow>
   SharedBackupState \<Rightarrow> unit call option" where
  "add_blob L parse_manifest stored archive_name data s =
     (case add_blob_begin L parse_manifest stored archive_name data s of
        None \<Rightarrow> None
      | Some (Inl e, s1) \<Rightarrow> Some (Err e, s1)
      | Some (Inr r, s1) \<Rightarrow> Some (Ok (), add_blob_end archive_name r s1))"

text \<open>The loop over the files of the manifest.\<close>

fun check_manifest_files :: "(string \<times> digest) list \<Rightarrow> (string \<rightharpoonup> digest) \<Rightarrow> (err, unit) result" where
  "check_manifest_files [] uploaded = Ok ()"
| "check_manifest_files (f # fs) uploaded =
     (case uploaded (fst f) of
        Some cs \<Rightarrow> if cs \<noteq> snd f then Err ''manifest contains archive with checksum mismatch''
                   else check_manifest_files fs uploaded
      | None \<Rightarrow> Err ''manifest contains archive not uploaded during backup'')"

text \<open>
  \<open>base_exists\<close> is whether the directory of the previous backup still exists, if there was one. The locks
  of the previous snapshot and the chunk store are dropped, and the manifest is taken, before the checks
  that may still fail.
\<close>

definition finish_begin ::
  "bool option \<Rightarrow> (BackupManifest \<Rightarrow> (err, DataBlob) result) \<Rightarrow> SharedBackupState \<Rightarrow> DataBlob call" where
  "finish_begin base_exists to_data_blob s =
     (case ensure_unfinished s of Inl e \<Rightarrow> (Err e, s)
      | Inr _ \<Rightarrow>
        if \<not> (dynamic_writers s = Map.empty \<and> fixed_writers s = Map.empty) then
          (Err ''found open index writer - unable to finish backup'', s)
        else if file_counter s = 0 then (Err ''backup does not contain valid files (file count == 0)'', s)
        else if base_exists = Some False then
          (Err ''base snapshot was removed during backup, cannot finish as chunks might be missing'', s)
        else (let s1 = s\<lparr>backup_lock_guards := (backup_lock_guards s)\<lparr>previous_snapshot := False, chunk_store := False\<rparr>\<rparr> in
          case manifest s1 of
            None \<Rightarrow> (Err ''no backup manifest uploaded'', s1)
          | Some m \<Rightarrow>
              (let s2 = s1\<lparr>manifest := None\<rparr>; m1 = m\<lparr>chunk_upload_stats := Some (backup_stat s2)\<rparr> in
               case check_manifest_files (mfiles m1) (uploaded_archives s2) of
                 Inl e \<Rightarrow> (Err e, s2)
               | Inr _ \<Rightarrow>
                   (case to_data_blob m1 of
                      Inl e \<Rightarrow> (Err e, s2)
                    | Inr blob \<Rightarrow> (Ok blob, s2\<lparr>finished := Finishing\<rparr>)))))"

text \<open>After the manifest was written (outcome \<open>stored\<close>): \<open>sync\<close> is the outcome of \<^verbatim>\<open>try_ensure_sync_level\<close>.\<close>

definition finish_end :: "(err, unit) result \<Rightarrow> (err, unit) result \<Rightarrow> SharedBackupState \<Rightarrow> unit call" where
  "finish_end stored sync s =
     (case stored of
        Inl e \<Rightarrow> (Err (''unable to persist manifest blob: '' @ e), s)
      | Inr _ \<Rightarrow>
          if finished s \<noteq> Finishing then (Err ''backup not in finishing state after manifest update'', s)
          else (case sync of
             Inl e \<Rightarrow> (Err e, s)
           | Inr _ \<Rightarrow> (Ok (), s\<lparr>finished := Finished,
               backup_lock_guards := (backup_lock_guards s)\<lparr>snapshot := False, group := False\<rparr>\<rparr>)))"

definition finish_backup ::
  "bool option \<Rightarrow> (BackupManifest \<Rightarrow> (err, DataBlob) result) \<Rightarrow> (err, unit) result \<Rightarrow> (err, unit) result \<Rightarrow>
   SharedBackupState \<Rightarrow> unit call" where
  "finish_backup base_exists to_data_blob stored sync s =
     (case finish_begin base_exists to_data_blob s of
        (Inl e, s1) \<Rightarrow> (Err e, s1)
      | (Inr _, s1) \<Rightarrow> finish_end stored sync s1)"

definition is_finished_state :: "SharedBackupState \<Rightarrow> bool" where
  "is_finished_state s = (finished s = Finished)"

definition ensure_finished :: "SharedBackupState \<Rightarrow> (err, unit) result" where
  "ensure_finished s =
     (if \<not> is_finished_state s then Err ''backup ended but finished state is not set.'' else Ok ())"

section \<open>Sessions\<close>

text \<open>
  A session is the shared state together with the calls that have released the lock and not yet taken it
  again, and the files of the snapshot directory, the latest first (a log: no code reads it). The names of
  index archives and blobs are told apart by their extension (\<^verbatim>\<open>src/api2/backup/mod.rs\<close> and \<^verbatim>\<open>upload_chunk.rs\<close>
  check it before they call the environment).
\<close>

datatype pending_call = ClosingDynamic nat | ClosingFixed nat | AddingBlob string digest nat | FinishingBackup

datatype stored_file = IndexFile bytes | BlobFile DataBlob

record Session =
  shared :: SharedBackupState
  pending :: "pending_call multiset"
  stored :: "(string \<times> stored_file) list"

definition Session_new :: "bool \<Rightarrow> Session" where
  "Session_new has_previous = \<lparr>shared = SharedBackupState_new (BackupLockGuards_new has_previous), pending = {#}, stored = []\<rparr>"

definition blob_name :: "string \<Rightarrow> bool" where
  "blob_name n \<longleftrightarrow> drop (length n - 5) n = ''.blob''"

text \<open>The file that a close published, if it did.\<close>

definition publish_dynamic :: "nat \<Rightarrow> SharedBackupState \<Rightarrow> SharedBackupState \<Rightarrow> (string \<times> stored_file) list" where
  "publish_dynamic wid s s' =
     (case (dynamic_writers s wid, dynamic_writers s' wid) of
        (Some d, Some d') \<Rightarrow>
          if \<not> dw_closed d \<and> dw_closed d' then
            (case published (dw_index d') of Some b \<Rightarrow> [(dw_name d', IndexFile b)] | None \<Rightarrow> [])
          else []
      | _ \<Rightarrow> [])"

definition publish_fixed :: "nat \<Rightarrow> SharedBackupState \<Rightarrow> SharedBackupState \<Rightarrow> (string \<times> stored_file) list" where
  "publish_fixed wid s s' =
     (case (fixed_writers s wid, fixed_writers s' wid) of
        (Some d, Some d') \<Rightarrow>
          if \<not> fs_closed d \<and> fs_closed d' then
            (case fw_published (fs_index d') of Some b \<Rightarrow> [(fs_name d', IndexFile b)] | None \<Rightarrow> [])
          else []
      | _ \<Rightarrow> [])"

definition start_call :: "pending_call \<Rightarrow> (err, 'a) result \<Rightarrow> pending_call multiset \<Rightarrow> pending_call multiset" where
  "start_call c r p = (if is_ok r then add_mset c p else p)"

text \<open>
  One step of a session: any call, with any arguments and outcomes of its file operations. If \<open>faults\<close> is
  false, no write to the file of a dynamic index fails.
\<close>

inductive session_step ::
  "bool \<Rightarrow> 'c libs \<Rightarrow> (DataBlob \<Rightarrow> (err, BackupManifest) result) \<Rightarrow> (BackupManifest \<Rightarrow> (err, DataBlob) result) \<Rightarrow>
   Session \<Rightarrow> Session \<Rightarrow> bool"
  for faults L parse_manifest to_data_blob where
  step_chunk: "session_step faults L parse_manifest to_data_blob x (x\<lparr>shared := snd (register_chunk d n (shared x))\<rparr>)"
| step_fixed_chunk: "session_step faults L parse_manifest to_data_blob x
     (x\<lparr>shared := snd (register_fixed_chunk wid d n c dup (shared x))\<rparr>)"
| step_dynamic_chunk: "session_step faults L parse_manifest to_data_blob x
     (x\<lparr>shared := snd (register_dynamic_chunk wid d n c dup (shared x))\<rparr>)"
| step_dynamic_writer: "DynamicIndexWriter_create None ctime uuid = Ok w \<Longrightarrow> length uuid = 16 \<Longrightarrow> \<not> blob_name name \<Longrightarrow>
     uid_counter (shared x) < 2 ^ 64 - 1 \<Longrightarrow>
     session_step faults L parse_manifest to_data_blob x (x\<lparr>shared := snd (register_dynamic_writer w name (shared x))\<rparr>)"
| step_fixed_writer: "writer_reach (sha256 L) w \<Longrightarrow> \<not> blob_name name \<Longrightarrow> uid_counter (shared x) < 2 ^ 64 - 1 \<Longrightarrow>
     session_step faults L parse_manifest to_data_blob x
       (x\<lparr>shared := snd (register_fixed_writer w name known csize inc (shared x))\<rparr>)"
| step_dynamic_append: "faults \<or> io = None \<Longrightarrow>
     session_step faults L parse_manifest to_data_blob x
       (x\<lparr>shared := snd (dynamic_writer_append_chunk io wid off n d (shared x))\<rparr>)"
| step_fixed_append: "length d = 32 \<Longrightarrow> fixed_writer_append_chunk fio wid off n d (shared x) = Some (r, s') \<Longrightarrow>
     session_step faults L parse_manifest to_data_blob x (x\<lparr>shared := s'\<rparr>)"
| step_dynamic_close: "dynamic_close_begin (sha256 L) cio wid cnt n cs (shared x) = Some (r, s') \<Longrightarrow>
     session_step faults L parse_manifest to_data_blob x
       (x\<lparr>shared := s', pending := start_call (ClosingDynamic wid) r (pending x),
          stored := publish_dynamic wid (shared x) s' @ stored x\<rparr>)"
| step_dynamic_closed: "ClosingDynamic wid \<in># pending x \<Longrightarrow>
     session_step faults L parse_manifest to_data_blob x
       (x\<lparr>shared := snd (dynamic_close_end upload wid (shared x)), pending := pending x - {#ClosingDynamic wid#}\<rparr>)"
| step_fixed_close: "n < 2 ^ 64 \<Longrightarrow> fixed_close_begin (sha256 L) fio wid cnt n cs (shared x) = Some (r, s') \<Longrightarrow>
     session_step faults L parse_manifest to_data_blob x
       (x\<lparr>shared := s', pending := start_call (ClosingFixed wid) r (pending x),
          stored := publish_fixed wid (shared x) s' @ stored x\<rparr>)"
| step_fixed_closed: "ClosingFixed wid \<in># pending x \<Longrightarrow>
     session_step faults L parse_manifest to_data_blob x
       (x\<lparr>shared := snd (fixed_close_end upload wid (shared x)), pending := pending x - {#ClosingFixed wid#}\<rparr>)"
| step_blob: "blob_name name \<Longrightarrow> add_blob_begin L parse_manifest outcome name data (shared x) = Some (Inr (cs, n), s') \<Longrightarrow>
     session_step faults L parse_manifest to_data_blob x
       (x\<lparr>shared := s', pending := add_mset (AddingBlob name cs n) (pending x),
          stored := (if name = MANIFEST_NAME then [] else [(name, BlobFile \<lparr>raw_data = data\<rparr>)]) @ stored x\<rparr>)"
| step_blob_added: "AddingBlob name cs n \<in># pending x \<Longrightarrow>
     session_step faults L parse_manifest to_data_blob x
       (x\<lparr>shared := add_blob_end name (cs, n) (shared x), pending := pending x - {#AddingBlob name cs n#}\<rparr>)"
| step_finish: "finish_begin base_exists to_data_blob (shared x) = (r, s') \<Longrightarrow>
     session_step faults L parse_manifest to_data_blob x
       (x\<lparr>shared := s', pending := start_call FinishingBackup r (pending x)\<rparr>)"
| step_finished: "FinishingBackup \<in># pending x \<Longrightarrow>
     session_step faults L parse_manifest to_data_blob x
       (x\<lparr>shared := snd (finish_end outcome sync (shared x)), pending := pending x - {#FinishingBackup#}\<rparr>)"

inductive session_reach ::
  "bool \<Rightarrow> 'c libs \<Rightarrow> (DataBlob \<Rightarrow> (err, BackupManifest) result) \<Rightarrow> (BackupManifest \<Rightarrow> (err, DataBlob) result) \<Rightarrow>
   Session \<Rightarrow> bool"
  for faults L parse_manifest to_data_blob where
  session_init: "session_reach faults L parse_manifest to_data_blob (Session_new has_previous)"
| session_next: "session_reach faults L parse_manifest to_data_blob x \<Longrightarrow>
     session_step faults L parse_manifest to_data_blob x y \<Longrightarrow> session_reach faults L parse_manifest to_data_blob y"

section \<open>The invariant of a session\<close>

text \<open>A published index file carries the checksum \<open>cs\<close> in its header, and it is the hash of its entries.\<close>

definition index_csum_ok :: "(bytes \<Rightarrow> digest) \<Rightarrow> bytes \<Rightarrow> digest \<Rightarrow> bool" where
  "index_csum_ok sha b cs \<longleftrightarrow> 4096 \<le> length b \<and> slice 32 32 b = cs \<and> sha (drop 4096 b) = cs"

definition dyn_writer_ok :: "bool \<Rightarrow> DynamicIndexWriter \<Rightarrow> bool" where
  "dyn_writer_ok faults w \<longleftrightarrow> (\<not> closed w \<longrightarrow> csum w \<noteq> None) \<and>
     (faults \<or> (\<forall>e. csum w = Some e \<longrightarrow> (\<exists>hdr. length hdr = 4096 \<and> written w = hdr @ e)))"

definition writers_ok :: "bool \<Rightarrow> SharedBackupState \<Rightarrow> bool" where
  "writers_ok faults s \<longleftrightarrow>
     (\<forall>wid d. dynamic_writers s wid = Some d \<longrightarrow> wid \<le> uid_counter s \<and> \<not> blob_name (dw_name d) \<and> dyn_writer_ok faults (dw_index d)) \<and>
     (\<forall>wid d. fixed_writers s wid = Some d \<longrightarrow> wid \<le> uid_counter s \<and> \<not> blob_name (fs_name d) \<and> fixed_inv (fs_index d))"

definition pending_ok :: "SharedBackupState \<Rightarrow> pending_call multiset \<Rightarrow> bool" where
  "pending_ok s p \<longleftrightarrow>
     (\<forall>wid. count p (ClosingDynamic wid) \<le> (case dynamic_writers s wid of Some d \<Rightarrow> if dw_closed d then 1 else 0 | None \<Rightarrow> 0)) \<and>
     (\<forall>wid. count p (ClosingFixed wid) \<le> (case fixed_writers s wid of Some d \<Rightarrow> if fs_closed d then 1 else 0 | None \<Rightarrow> 0)) \<and>
     count p FinishingBackup \<le> (if finished s = Finishing then 1 else 0)"

definition phase_ok :: "SharedBackupState \<Rightarrow> bool" where
  "phase_ok s \<longleftrightarrow> (finished s \<noteq> Active \<longrightarrow> dynamic_writers s = Map.empty \<and> fixed_writers s = Map.empty \<and> manifest s = None) \<and>
     (snapshot (backup_lock_guards s) \<longleftrightarrow> finished s \<noteq> Finished) \<and> (group (backup_lock_guards s) \<longleftrightarrow> finished s \<noteq> Finished)"

lemma dynamic_close_publishes:
  assumes "writer_close sha io w = Some (Ok cs, w')" "dyn_writer_ok False w" "\<And>b. length (sha b) = 32"
  shows "\<exists>b. published w' = Some b \<and> index_csum_ok sha b cs"
proof -
  obtain e hdr where w: "csum w = Some e" "length hdr = 4096" "written w = hdr @ e"
    using assms(1,2) by (auto simp: writer_close_def dyn_writer_ok_def Let_def split: if_splits close_fault.splits option.splits)
  have "cs = sha e" "published w' = Some (overwrite csum_offset (sha e) (hdr @ e))"
    using assms(1) w by (auto simp: writer_close_def Let_def split: if_splits close_fault.splits)
  moreover have "index_csum_ok sha (overwrite csum_offset (sha e) (hdr @ e)) (sha e)"
    using w(2) assms(3) by (simp add: index_csum_ok_def csum_offset_def length_overwrite slice_overwrite_same, simp add: overwrite_def)
  ultimately show ?thesis by blast
qed

lemma fixed_close_publishes:
  assumes "fixed_close sha io w = Some (Ok cs, w')" "fixed_inv w" "\<And>b. length (sha b) = 32"
  shows "\<exists>b. fw_published w' = Some b \<and> index_csum_ok sha b cs"
proof -
  have m: "mapped w" using assms(1) by (cases "mapped w") (simp_all add: fixed_close_def)
  let ?cs = "sha (slice 4096 (index_length w * 32) (fdata w))" and ?n = "4096 + index_length w * 32"
  define b where "b = overwrite 64 (le_bytes 8 (fw_size w)) (overwrite 32 ?cs (fdata w))"
  have len: "length (fdata w) = 4096 + index_capacity w * 32" using mapped_length [OF assms(2) m] by simp
  have cap: "index_length w \<le> index_capacity w" using assms(2) by (simp add: fixed_inv_def sizes_ok_def)
  have lb: "length b = 4096 + index_capacity w * 32" using len assms(3) by (simp add: b_def length_overwrite)
  obtain r2 w2 where u: "unmap io (w\<lparr>fdata := b\<rparr>) = (r2, w2)" by fastforce
  have w2: "w2 = w\<lparr>fdata := b, mapped := False\<rparr>" using unmap_frame [OF u] by simp
  have nl: "\<not> 4096 + index_length w * 32 > length (fdata w)" using cap len by simp
  have tr: "truncate_to ?n b = take ?n b" using lb cap by (simp add: truncate_to_def)
  have pub: "cs = ?cs \<and> fw_published w' = Some (take ?n b)"
    using assms(1) m nl u w2 tr lb cap unfolding fixed_close_def Let_def b_def [symmetric]
    by (cases r2; cases "index_length w < index_capacity w"; cases "file_size (index_length w)";
        cases "ftruncate_err io"; cases "rename_err io") (auto simp: file_size_Ok)
  have "slice 32 32 b = ?cs" "drop 4096 b = drop 4096 (fdata w)"
    using len assms(3)
    by (simp add: b_def slice_overwrite_before slice_overwrite_same length_overwrite, simp add: b_def overwrite_def)
  then have "index_csum_ok sha (take ?n b) ?cs"
    using lb cap by (simp add: index_csum_ok_def slice_def drop_take min_def)
  then show ?thesis using pub by blast
qed

text \<open>What a call can do to the writers: nothing, or replace one writer of an active session.\<close>

lemma ensure_unfinished_iff: "ensure_unfinished s = Inr u \<longleftrightarrow> finished s = Active"
  by (cases "finished s") (simp_all add: ensure_unfinished_def)

definition dyn_update :: "nat \<Rightarrow> (DynamicWriterState \<Rightarrow> DynamicWriterState \<Rightarrow> bool) \<Rightarrow> SharedBackupState \<Rightarrow> SharedBackupState \<Rightarrow> bool" where
  "dyn_update wid P s s' \<longleftrightarrow> finished s = Active \<and> (\<exists>d. dynamic_writers s wid = Some d \<and> \<not> dw_closed d \<and>
     P d (the (dynamic_writers s' wid)) \<and> dw_name (the (dynamic_writers s' wid)) = dw_name d \<and>
     dynamic_writers s' = (dynamic_writers s)(wid \<mapsto> the (dynamic_writers s' wid)) \<and> fixed_writers s' = fixed_writers s \<and>
     finished s' = finished s \<and> uid_counter s' = uid_counter s \<and> backup_lock_guards s' = backup_lock_guards s \<and>
     manifest s' = manifest s)"

definition fix_update :: "nat \<Rightarrow> (FixedWriterState \<Rightarrow> FixedWriterState \<Rightarrow> bool) \<Rightarrow> SharedBackupState \<Rightarrow> SharedBackupState \<Rightarrow> bool" where
  "fix_update wid P s s' \<longleftrightarrow> finished s = Active \<and> (\<exists>d. fixed_writers s wid = Some d \<and> \<not> fs_closed d \<and>
     P d (the (fixed_writers s' wid)) \<and> fs_name (the (fixed_writers s' wid)) = fs_name d \<and>
     fixed_writers s' = (fixed_writers s)(wid \<mapsto> the (fixed_writers s' wid)) \<and> dynamic_writers s' = dynamic_writers s \<and>
     finished s' = finished s \<and> uid_counter s' = uid_counter s \<and> backup_lock_guards s' = backup_lock_guards s \<and>
     manifest s' = manifest s)"

lemma fixed_chunk_post:
  "snd (register_fixed_chunk wid d n c dup s) = s \<or>
   fix_update wid (\<lambda>a b. fs_index b = fs_index a \<and> \<not> fs_closed b) s (snd (register_fixed_chunk wid d n c dup s)) \<and>
   uploaded_archives (snd (register_fixed_chunk wid d n c dup s)) = uploaded_archives s"
  by (auto simp: register_fixed_chunk_def fix_update_def ensure_unfinished_def Let_def split: BackupState.splits option.splits)

lemma dynamic_chunk_post:
  "snd (register_dynamic_chunk wid d n c dup s) = s \<or>
   dyn_update wid (\<lambda>a b. dw_index b = dw_index a \<and> \<not> dw_closed b) s (snd (register_dynamic_chunk wid d n c dup s)) \<and>
   uploaded_archives (snd (register_dynamic_chunk wid d n c dup s)) = uploaded_archives s"
  by (auto simp: register_dynamic_chunk_def dyn_update_def ensure_unfinished_def Let_def split: BackupState.splits option.splits)

lemma writer_add_chunk_ok:
  assumes "dyn_writer_ok faults w" "faults \<or> io = None"
  shows "dyn_writer_ok faults (snd (writer_add_chunk io off d w))"
  using assms by (auto simp: dyn_writer_ok_def writer_add_chunk_def Let_def split: option.splits)

lemma dynamic_append_post:
  assumes "faults \<or> io = None" "s' = snd (dynamic_writer_append_chunk io wid off n d s)"
  shows "s' = s \<or> dyn_update wid (\<lambda>a b. (dyn_writer_ok faults (dw_index a) \<longrightarrow> dyn_writer_ok faults (dw_index b)) \<and> \<not> dw_closed b) s s' \<and>
    uploaded_archives s' = uploaded_archives s"
  using writer_add_chunk_ok [OF _ assms(1)] unfolding assms(2)
  by (auto simp: dynamic_writer_append_chunk_def dyn_update_def ensure_unfinished_def Let_def
      split: BackupState.splits option.splits prod.splits) (metis snd_conv)+

lemma fixed_append_post:
  assumes "length d = 32" "fixed_writer_append_chunk io wid off n d s = Some (r, s')"
  shows "s' = s \<or> fix_update wid (\<lambda>a b. (fixed_inv (fs_index a) \<longrightarrow> fixed_inv (fs_index b)) \<and> \<not> fs_closed b) s s' \<and>
    uploaded_archives s' = uploaded_archives s"
proof -
  have "fixed_inv w'" if "fixed_inv w" "fixed_add_chunk io off n d w = Some (x, w')" for w x w'
    using add_chunk_post [OF that(1) assms(1), of io off n] that(2) by auto
  then show ?thesis
    using assms(2) by (auto simp: fixed_writer_append_chunk_def fix_update_def ensure_unfinished_def
      split: BackupState.splits option.splits prod.splits if_splits sum.splits)
qed

lemma writer_close_ok: "dyn_writer_ok faults w \<Longrightarrow> writer_close sha io w = Some (r, w') \<Longrightarrow> dyn_writer_ok faults w'"
  by (auto simp: dyn_writer_ok_def writer_close_def Let_def split: if_splits close_fault.splits option.splits)

lemma dynamic_close_post:
  assumes "dynamic_close_begin sha io wid cnt n cs s = Some (r, s')"
  shows "s' = s \<and> \<not> is_ok r \<or>
    dyn_update wid (\<lambda>a b. (dyn_writer_ok faults (dw_index a) \<longrightarrow> dyn_writer_ok faults (dw_index b)) \<and> (is_ok r \<longrightarrow> dw_closed b) \<and>
      (dw_closed b \<longrightarrow> (\<exists>c. writer_close sha io (dw_index a) = Some (Ok c, dw_index b) \<and> (is_ok r \<longrightarrow> c = cs))) \<and>
      uploaded_archives s' = (if is_ok r then (uploaded_archives s)(dw_name a \<mapsto> cs) else uploaded_archives s)) s s'"
proof -
  have wc: "dyn_writer_ok faults w \<longrightarrow> dyn_writer_ok faults w'" if "writer_close sha io w = Some (x, w')" for w x w'
    using writer_close_ok [OF _ that] by blast
  show ?thesis
    using assms
    by (auto simp: dynamic_close_begin_def dyn_update_def ensure_unfinished_def account_archive_def Let_def is_ok_def wc
        split: BackupState.splits option.splits prod.splits if_splits sum.splits)
qed

lemma fixed_close_post:
  assumes "n < 2 ^ 64" "fixed_close_begin sha io wid cnt n cs s = Some (r, s')"
  shows "s' = s \<and> \<not> is_ok r \<or>
    fix_update wid (\<lambda>a b. (fixed_inv (fs_index a) \<longrightarrow> fixed_inv (fs_index b) \<and>
        (fs_closed b \<longrightarrow> (\<exists>c w. fixed_inv w \<and> fixed_close sha io w = Some (Ok c, fs_index b) \<and> (is_ok r \<longrightarrow> c = cs)))) \<and>
      (is_ok r \<longrightarrow> fs_closed b) \<and>
      uploaded_archives s' = (if is_ok r then (uploaded_archives s)(fs_name a \<mapsto> cs) else uploaded_archives s)) s s'"
proof -
  have g: "fixed_inv w'" if "fixed_inv w" "grow_to_size io n w = Some (x, w')" for w x w'
    using grow_post [OF that(1) assms(1), of io] that(2) by auto
  have c: "fixed_inv w'" if "fixed_inv w" "fixed_close sha io w = Some (x, w')" for w x w'
    using close_post [OF that(1), of sha io] that(2) by auto
  show ?thesis
  proof (cases "\<exists>d. finished s = Active \<and> fixed_writers s wid = Some d \<and> \<not> fs_closed d \<and> fs_chunk_count d = cnt")
    case False
    then have "s' = s \<and> \<not> is_ok r"
      using assms(2) by (auto simp: fixed_close_begin_def ensure_unfinished_def is_ok_def split: BackupState.splits option.splits if_splits)
    then show ?thesis by blast
  next
    case True
    then obtain d where d: "finished s = Active" "fixed_writers s wid = Some d" "\<not> fs_closed d" "fs_chunk_count d = cnt" by blast
    define grown where "grown = (if fs_incremental d \<and> fs_size d = None then grow_to_size io n (fs_index d) else Some (Ok (), fs_index d))"
    have u: "ensure_unfinished s = Ok ()" using d(1) by (simp add: ensure_unfinished_def)
    note run = assms(2) [unfolded fixed_close_begin_def Let_def u d(2), simplified, folded grown_def]
    obtain r1 w1 where w1: "grown = Some (r1, w1)" using run d by (cases grown) auto
    have i1: "fixed_inv (fs_index d) \<longrightarrow> fixed_inv w1" using w1 g by (auto simp: grown_def split: if_splits)
    show ?thesis
    proof (cases "\<exists>x. r1 = Inr x \<and> fixed_full_checks (d\<lparr>fs_index := w1\<rparr>) cnt n = Inr x")
      case False
      then have "\<not> is_ok r \<and> s' = s\<lparr>fixed_writers := (fixed_writers s)(wid \<mapsto> d\<lparr>fs_index := w1\<rparr>)\<rparr>"
        using run d w1 by (auto simp: is_ok_def split: sum.splits)
      then show ?thesis using d i1 by (auto simp: fix_update_def)
    next
      case True
      then obtain r2 w2 where w2: "fixed_close sha io w1 = Some (r2, w2)"
        using run d w1 by (cases "fixed_close sha io w1") auto
      have i2: "fixed_inv (fs_index d) \<longrightarrow> fixed_inv w2" using i1 c w2 by blast
      have "(\<not> is_ok r \<and> s' = s\<lparr>fixed_writers := (fixed_writers s)(wid \<mapsto> d\<lparr>fs_index := w2\<rparr>)\<rparr>) \<or>
        (\<exists>ecs. r2 = Ok ecs \<and> \<not> is_ok r \<and> s' = s\<lparr>fixed_writers := (fixed_writers s)(wid \<mapsto> d\<lparr>fs_index := w2, fs_closed := True\<rparr>)\<rparr>) \<or>
        (r2 = Ok cs \<and> is_ok r \<and> s' = account_archive (fs_name d) cs n (fs_stat d)
           (s\<lparr>fixed_writers := (fixed_writers s)(wid \<mapsto> d\<lparr>fs_index := w2, fs_closed := True\<rparr>)\<rparr>))"
        using run d w1 True w2 by (auto simp: is_ok_def split: sum.splits if_splits)
      then show ?thesis using d i1 i2 w2 by (elim disjE) (auto simp: fix_update_def account_archive_def)
    qed
  qed
qed

text \<open>The three parts of the invariant under an update of one writer.\<close>

lemma dyn_update_inv:
  assumes "dyn_update wid P s s'" "writers_ok faults s" "pending_ok s p" "phase_ok s"
    "\<And>a b. P a b \<Longrightarrow> dyn_writer_ok faults (dw_index a) \<Longrightarrow> dyn_writer_ok faults (dw_index b)"
  shows "writers_ok faults s'" "phase_ok s'" "count p (ClosingDynamic wid) = 0" "pending_ok s' p"
proof -
  obtain d d' where u: "finished s = Active" "dynamic_writers s wid = Some d" "\<not> dw_closed d" "P d d'"
    "dynamic_writers s' = (dynamic_writers s)(wid \<mapsto> d')" "fixed_writers s' = fixed_writers s" "dw_name d' = dw_name d"
    "finished s' = finished s" "uid_counter s' = uid_counter s" "backup_lock_guards s' = backup_lock_guards s"
    using assms(1) by (auto simp: dyn_update_def)
  show "writers_ok faults s'" using assms(2) assms(5) [OF u(4)] u by (auto simp: writers_ok_def)
  show "phase_ok s'" using assms(4) u by (simp add: phase_ok_def)
  have "count p (ClosingDynamic wid) \<le> 0" using assms(3) u(2,3) by (auto simp: pending_ok_def dest: spec [of _ wid])
  then show z: "count p (ClosingDynamic wid) = 0" by simp
  show "pending_ok s' p" using assms(3) z u by (simp add: pending_ok_def)
qed

lemma fix_update_inv:
  assumes "fix_update wid P s s'" "writers_ok faults s" "pending_ok s p" "phase_ok s"
    "\<And>a b. P a b \<Longrightarrow> fixed_inv (fs_index a) \<Longrightarrow> fixed_inv (fs_index b)"
  shows "writers_ok faults s'" "phase_ok s'" "count p (ClosingFixed wid) = 0" "pending_ok s' p"
proof -
  obtain d d' where u: "finished s = Active" "fixed_writers s wid = Some d" "\<not> fs_closed d" "P d d'"
    "fixed_writers s' = (fixed_writers s)(wid \<mapsto> d')" "dynamic_writers s' = dynamic_writers s" "fs_name d' = fs_name d"
    "finished s' = finished s" "uid_counter s' = uid_counter s" "backup_lock_guards s' = backup_lock_guards s"
    using assms(1) by (auto simp: fix_update_def)
  show "writers_ok faults s'" using assms(2) assms(5) [OF u(4)] u by (auto simp: writers_ok_def)
  show "phase_ok s'" using assms(4) u by (simp add: phase_ok_def)
  have "count p (ClosingFixed wid) \<le> 0" using assms(3) u(2,3) by (auto simp: pending_ok_def dest: spec [of _ wid])
  then show z: "count p (ClosingFixed wid) = 0" by simp
  show "pending_ok s' p" using assms(3) z u by (simp add: pending_ok_def)
qed

definition session_inv :: "bool \<Rightarrow> Session \<Rightarrow> bool" where
  "session_inv faults x \<longleftrightarrow> writers_ok faults (shared x) \<and> pending_ok (shared x) (pending x) \<and> phase_ok (shared x)"

lemma session_inv_new: "session_inv faults (Session_new has_previous)"
  by (simp add: session_inv_def Session_new_def SharedBackupState_new_def BackupLockGuards_new_def writers_ok_def pending_ok_def phase_ok_def)

lemma wrapping_next: "n < 2 ^ 64 - 1 \<Longrightarrow> wrapping_add n 1 = n + 1"
  by (simp add: wrapping_add_def)

lemma register_writers_inv:
  assumes "writers_ok faults s" "pending_ok s p" "phase_ok s" "uid_counter s < 2 ^ 64 - 1" "\<not> blob_name name"
  shows "dyn_writer_ok faults w \<Longrightarrow> s' = snd (register_dynamic_writer w name s) \<Longrightarrow>
      writers_ok faults s' \<and> pending_ok s' p \<and> phase_ok s'"
    and "fixed_inv fw \<Longrightarrow> s' = snd (register_fixed_writer fw name known csize inc s) \<Longrightarrow>
      writers_ok faults s' \<and> pending_ok s' p \<and> phase_ok s'"
proof -
  let ?u = "uid_counter s + 1"
  have new: "dynamic_writers s ?u = None" "fixed_writers s ?u = None"
  proof -
    have "?u \<le> uid_counter s" if "dynamic_writers s ?u = Some d" for d using assms(1) that unfolding writers_ok_def by blast
    then show "dynamic_writers s ?u = None" by (cases "dynamic_writers s ?u") auto
    have "?u \<le> uid_counter s" if "fixed_writers s ?u = Some d" for d using assms(1) that unfolding writers_ok_def by blast
    then show "fixed_writers s ?u = None" by (cases "fixed_writers s ?u") auto
  qed
  have z: "count p (ClosingDynamic ?u) = 0" "count p (ClosingFixed ?u) = 0"
  proof -
    have "count p (ClosingDynamic ?u) \<le> (case dynamic_writers s ?u of Some d \<Rightarrow> if dw_closed d then 1 else 0 | None \<Rightarrow> 0)"
      "count p (ClosingFixed ?u) \<le> (case fixed_writers s ?u of Some d \<Rightarrow> if fs_closed d then 1 else 0 | None \<Rightarrow> 0)"
      using assms(2) unfolding pending_ok_def by blast+
    then show "count p (ClosingDynamic ?u) = 0" "count p (ClosingFixed ?u) = 0" unfolding new by simp_all
  qed
  show "writers_ok faults s' \<and> pending_ok s' p \<and> phase_ok s'"
    if "dyn_writer_ok faults w" "s' = snd (register_dynamic_writer w name s)"
  proof (cases "finished s")
    case Active
    then have s': "s' = s\<lparr>uid_counter := ?u, dynamic_writers := (dynamic_writers s)(?u \<mapsto>
        \<lparr>dw_name = name, dw_index = w, dw_offset = 0, dw_chunk_count = 0, dw_stat = UploadStatistic_new, dw_closed = False\<rparr>)\<rparr>"
      using that(2) wrapping_next [OF assms(4)] by (simp add: register_dynamic_writer_def ensure_unfinished_def next_uid_def Let_def)
    have "writers_ok faults s'" using assms(1,5) that(1) unfolding s' by (auto simp: writers_ok_def le_Suc_eq)
    moreover have "pending_ok s' p" using assms(2) z unfolding s' by (simp add: pending_ok_def)
    moreover have "phase_ok s'" using assms(3) Active unfolding s' by (simp add: phase_ok_def)
    ultimately show ?thesis by blast
  qed (use that assms in \<open>simp_all add: register_dynamic_writer_def ensure_unfinished_def\<close>)
  show "writers_ok faults s' \<and> pending_ok s' p \<and> phase_ok s'"
    if "fixed_inv fw" "s' = snd (register_fixed_writer fw name known csize inc s)"
  proof (cases "finished s")
    case Active
    then have s': "s' = s\<lparr>uid_counter := ?u, fixed_writers := (fixed_writers s)(?u \<mapsto>
        \<lparr>fs_name = name, fs_index = fw, fs_size = known, fs_chunk_size = csize, fs_chunk_count = 0, fs_small_chunk_count = 0,
         fs_stat = UploadStatistic_new, fs_incremental = inc, fs_closed = False\<rparr>)\<rparr>"
      using that(2) wrapping_next [OF assms(4)] by (simp add: register_fixed_writer_def ensure_unfinished_def next_uid_def Let_def)
    have "writers_ok faults s'" using assms(1,5) that(1) unfolding s' by (auto simp: writers_ok_def le_Suc_eq)
    moreover have "pending_ok s' p" using assms(2) z unfolding s' by (simp add: pending_ok_def)
    moreover have "phase_ok s'" using assms(3) Active unfolding s' by (simp add: phase_ok_def)
    ultimately show ?thesis by blast
  qed (use that assms in \<open>simp_all add: register_fixed_writer_def ensure_unfinished_def\<close>)
qed

lemma finish_begin_post:
  assumes "finish_begin be tdb s = (r, s')"
  shows "dynamic_writers s' = dynamic_writers s \<and> fixed_writers s' = fixed_writers s \<and> uid_counter s' = uid_counter s \<and>
    uploaded_archives s' = uploaded_archives s \<and> known_chunks s' = known_chunks s \<and>
    snapshot (backup_lock_guards s') = snapshot (backup_lock_guards s) \<and>
    group (backup_lock_guards s') = group (backup_lock_guards s) \<and>
    (if is_ok r then finished s = Active \<and> finished s' = Finishing \<and> dynamic_writers s = Map.empty \<and> fixed_writers s = Map.empty \<and>
        manifest s' = None
     else finished s' = finished s \<and> (finished s \<noteq> Active \<longrightarrow> s' = s))"
  using assms
  by (auto simp: finish_begin_def Let_def ensure_unfinished_def is_ok_def
      split: BackupState.splits if_splits option.splits sum.splits)

lemma finish_begin_inv:
  assumes "finish_begin be tdb s = (r, s')" "writers_ok faults s" "pending_ok s p" "phase_ok s"
  shows "writers_ok faults s' \<and> pending_ok s' (start_call FinishingBackup r p) \<and> phase_ok s'"
  using finish_begin_post [OF assms(1)] assms(2-4)
  by (auto simp: writers_ok_def pending_ok_def phase_ok_def start_call_def split: if_splits)

lemma finish_end_inv:
  assumes "writers_ok faults s" "pending_ok s p" "phase_ok s" "FinishingBackup \<in># p"
  shows "writers_ok faults (snd (finish_end o1 sync s)) \<and> pending_ok (snd (finish_end o1 sync s)) (p - {#FinishingBackup#}) \<and>
    phase_ok (snd (finish_end o1 sync s)) \<and> finished s = Finishing"
proof -
  have "0 < count p FinishingBackup" using assms(4) by simp
  then have f: "finished s = Finishing" and "count p FinishingBackup \<le> 1"
    using assms(2) by (auto simp: pending_ok_def simp del: count_greater_zero_iff split: if_splits)
  then show ?thesis
    using assms by (auto simp: finish_end_def writers_ok_def pending_ok_def phase_ok_def split: sum.splits)
qed

lemma pending_dynamic:
  assumes "pending_ok s p" "ClosingDynamic wid \<in># p"
  shows "count p (ClosingDynamic wid) = 1" "\<exists>d. dynamic_writers s wid = Some d \<and> dw_closed d"
proof -
  have "0 < count p (ClosingDynamic wid)" using assms(2) by simp
  moreover have "count p (ClosingDynamic wid) \<le> (case dynamic_writers s wid of Some d \<Rightarrow> if dw_closed d then 1 else 0 | None \<Rightarrow> 0)"
    using assms(1) unfolding pending_ok_def by blast
  ultimately show "count p (ClosingDynamic wid) = 1" "\<exists>d. dynamic_writers s wid = Some d \<and> dw_closed d"
    by (auto simp del: count_greater_zero_iff split: option.splits if_splits)
qed

lemma pending_fixed:
  assumes "pending_ok s p" "ClosingFixed wid \<in># p"
  shows "count p (ClosingFixed wid) = 1" "\<exists>d. fixed_writers s wid = Some d \<and> fs_closed d"
proof -
  have "0 < count p (ClosingFixed wid)" using assms(2) by simp
  moreover have "count p (ClosingFixed wid) \<le> (case fixed_writers s wid of Some d \<Rightarrow> if fs_closed d then 1 else 0 | None \<Rightarrow> 0)"
    using assms(1) unfolding pending_ok_def by blast
  ultimately show "count p (ClosingFixed wid) = 1" "\<exists>d. fixed_writers s wid = Some d \<and> fs_closed d"
    by (auto simp del: count_greater_zero_iff split: option.splits if_splits)
qed

lemma close_end_inv:
  assumes "writers_ok faults s" "pending_ok s p" "phase_ok s"
  shows "ClosingDynamic wid \<in># p \<Longrightarrow> writers_ok faults (snd (dynamic_close_end up wid s)) \<and>
      pending_ok (snd (dynamic_close_end up wid s)) (p - {#ClosingDynamic wid#}) \<and> phase_ok (snd (dynamic_close_end up wid s))"
    and "ClosingFixed wid \<in># p \<Longrightarrow> writers_ok faults (snd (fixed_close_end up wid s)) \<and>
      pending_ok (snd (fixed_close_end up wid s)) (p - {#ClosingFixed wid#}) \<and> phase_ok (snd (fixed_close_end up wid s))"
proof -
  have le: "count (p - {#c#}) c' \<le> n" if "count p c' \<le> n" for c c' n using that by simp
  have sub: "pending_ok s (p - {#c#})" for c
    using assms(2) unfolding pending_ok_def by (meson le)
  show "writers_ok faults (snd (dynamic_close_end up wid s)) \<and> pending_ok (snd (dynamic_close_end up wid s)) (p - {#ClosingDynamic wid#}) \<and>
      phase_ok (snd (dynamic_close_end up wid s))" if c: "ClosingDynamic wid \<in># p"
  proof -
    have z: "count (p - {#ClosingDynamic wid#}) (ClosingDynamic wid) = 0" using pending_dynamic(1) [OF assms(2) c] by simp
    show ?thesis
    proof (cases up)
      case (Inr a)
      have "pending_ok (s\<lparr>dynamic_writers := (dynamic_writers s)(wid := None)\<rparr>) (p - {#ClosingDynamic wid#})"
        using assms(2) z by (auto simp: pending_ok_def)
      then show ?thesis using Inr assms(1,3) pending_dynamic(2) [OF assms(2) c]
        by (auto simp: dynamic_close_end_def writers_ok_def phase_ok_def)
    qed (use assms sub in \<open>simp add: dynamic_close_end_def\<close>)
  qed
  show "writers_ok faults (snd (fixed_close_end up wid s)) \<and> pending_ok (snd (fixed_close_end up wid s)) (p - {#ClosingFixed wid#}) \<and>
      phase_ok (snd (fixed_close_end up wid s))" if c: "ClosingFixed wid \<in># p"
  proof -
    have z: "count (p - {#ClosingFixed wid#}) (ClosingFixed wid) = 0" using pending_fixed(1) [OF assms(2) c] by simp
    show ?thesis
    proof (cases up)
      case (Inr a)
      have "pending_ok (s\<lparr>fixed_writers := (fixed_writers s)(wid := None)\<rparr>) (p - {#ClosingFixed wid#})"
        using assms(2) z by (auto simp: pending_ok_def)
      then show ?thesis using Inr assms(1,3) pending_fixed(2) [OF assms(2) c]
        by (auto simp: fixed_close_end_def writers_ok_def phase_ok_def)
    qed (use assms sub in \<open>simp add: fixed_close_end_def\<close>)
  qed
qed

lemma pending_start:
  assumes "pending_ok s p"
  shows "dynamic_writers s wid = Some d \<Longrightarrow> dw_closed d \<Longrightarrow> count p (ClosingDynamic wid) = 0 \<Longrightarrow> pending_ok s (add_mset (ClosingDynamic wid) p)"
    and "fixed_writers s wid = Some f \<Longrightarrow> fs_closed f \<Longrightarrow> count p (ClosingFixed wid) = 0 \<Longrightarrow> pending_ok s (add_mset (ClosingFixed wid) p)"
  using assms by (simp_all add: pending_ok_def)

lemma dynamic_close_inv:
  assumes "dynamic_close_begin sha io wid cnt n cs s = Some (r, s')" "writers_ok faults s" "pending_ok s p" "phase_ok s"
  shows "writers_ok faults s' \<and> pending_ok s' (start_call (ClosingDynamic wid) r p) \<and> phase_ok s'"
  using dynamic_close_post [OF assms(1), of faults]
proof (elim disjE conjE)
  assume u: "dyn_update wid (\<lambda>a b. (dyn_writer_ok faults (dw_index a) \<longrightarrow> dyn_writer_ok faults (dw_index b)) \<and> (is_ok r \<longrightarrow> dw_closed b) \<and>
      (dw_closed b \<longrightarrow> (\<exists>c. writer_close sha io (dw_index a) = Some (Ok c, dw_index b) \<and> (is_ok r \<longrightarrow> c = cs))) \<and>
      uploaded_archives s' = (if is_ok r then (uploaded_archives s)(dw_name a \<mapsto> cs) else uploaded_archives s)) s s'"
  note k = dyn_update_inv [OF u assms(2-4)]
  obtain d where "is_ok r \<longrightarrow> dw_closed d" "dynamic_writers s' wid = Some d"
    using u unfolding dyn_update_def by (metis fun_upd_same)
  then have "is_ok r \<Longrightarrow> pending_ok s' (add_mset (ClosingDynamic wid) p)" using pending_start(1) k(3,4) by blast
  then show ?thesis using k(1,2,4) by (auto simp: start_call_def)
qed (use assms in \<open>simp add: start_call_def\<close>)

lemma fixed_close_inv:
  assumes "n < 2 ^ 64" "fixed_close_begin sha io wid cnt n cs s = Some (r, s')" "writers_ok faults s" "pending_ok s p" "phase_ok s"
  shows "writers_ok faults s' \<and> pending_ok s' (start_call (ClosingFixed wid) r p) \<and> phase_ok s'"
  using fixed_close_post [OF assms(1,2)]
proof (elim disjE conjE)
  assume u: "fix_update wid (\<lambda>a b. (fixed_inv (fs_index a) \<longrightarrow> fixed_inv (fs_index b) \<and>
        (fs_closed b \<longrightarrow> (\<exists>c w. fixed_inv w \<and> fixed_close sha io w = Some (Ok c, fs_index b) \<and> (is_ok r \<longrightarrow> c = cs)))) \<and>
      (is_ok r \<longrightarrow> fs_closed b) \<and>
      uploaded_archives s' = (if is_ok r then (uploaded_archives s)(fs_name a \<mapsto> cs) else uploaded_archives s)) s s'"
  note k = fix_update_inv [OF u assms(3-5)]
  obtain d where "is_ok r \<longrightarrow> fs_closed d" "fixed_writers s' wid = Some d"
    using u unfolding fix_update_def by (metis fun_upd_same)
  then have "is_ok r \<Longrightarrow> pending_ok s' (add_mset (ClosingFixed wid) p)" using pending_start(2) k(3,4) by blast
  then show ?thesis using k(1,2,4) by (auto simp: start_call_def)
qed (use assms in \<open>simp add: start_call_def\<close>)

lemma load_from_reader_raw: "load_from_reader L (Inr data) = Some (Inr b) \<Longrightarrow> b = \<lparr>raw_data = data\<rparr>"
  by (auto simp: load_from_reader_def from_raw_with_crc_check_def from_raw_def Let_def and_then_eq_Inr
      split: sum.splits if_splits option.splits)

lemma add_blob_begin_post:
  assumes "add_blob_begin L pm o1 name data s = Some (Inr (cs, n), s')"
  shows "\<exists>m. s' = s\<lparr>manifest := m\<rparr> \<and> (finished s \<noteq> Active \<longrightarrow> m = manifest s)" "n = length data" "cs = sha256 L data"
proof -
  obtain b where b: "load_from_reader L (Inr data) = Some (Inr b)"
    using assms by (auto simp: add_blob_begin_def split: option.splits sum.splits)
  show "\<exists>m. s' = s\<lparr>manifest := m\<rparr> \<and> (finished s \<noteq> Active \<longrightarrow> m = manifest s)"
    using assms b
    by (auto simp: add_blob_begin_def register_manifest_def ensure_unfinished_def
        split: option.splits sum.splits if_splits prod.splits BackupState.splits)
      (metis SharedBackupState.surjective SharedBackupState.update_convs(10))+
  show "n = length data" "cs = sha256 L data"
    using assms b load_from_reader_raw [OF b]
    by (auto simp: add_blob_begin_def register_manifest_def ensure_unfinished_def blob_csum_def
        split: option.splits sum.splits if_splits prod.splits BackupState.splits)
qed

lemma add_blob_end_frame:
  "finished (add_blob_end name r s) = finished s" "dynamic_writers (add_blob_end name r s) = dynamic_writers s"
  "fixed_writers (add_blob_end name r s) = fixed_writers s" "uid_counter (add_blob_end name r s) = uid_counter s"
  "known_chunks (add_blob_end name r s) = known_chunks s" "manifest (add_blob_end name r s) = manifest s"
  "backup_lock_guards (add_blob_end name r s) = backup_lock_guards s"
  by (simp_all add: add_blob_end_def Let_def)

lemma session_inv_step:
  assumes "session_step faults L pm tdb x y" "session_inv faults x"
  shows "session_inv faults y"
proof -
  note i = assms(2) [unfolded session_inv_def]
  have w: "writers_ok faults (shared x)" and p: "pending_ok (shared x) (pending x)" and f: "phase_ok (shared x)" using i by blast+
  from assms(1) show ?thesis
  proof cases
    case (step_chunk d n)
    show ?thesis using i unfolding step_chunk
      by (auto simp: session_inv_def register_chunk_def writers_ok_def pending_ok_def phase_ok_def split: sum.splits)
  next
    case (step_fixed_chunk wid d n c dup)
    show ?thesis using fixed_chunk_post [of wid d n c dup "shared x"] i fix_update_inv(1,2,4) [OF _ w p f]
      unfolding step_fixed_chunk session_inv_def by (elim disjE conjE) auto
  next
    case (step_dynamic_chunk wid d n c dup)
    show ?thesis using dynamic_chunk_post [of wid d n c dup "shared x"] i dyn_update_inv(1,2,4) [OF _ w p f]
      unfolding step_dynamic_chunk session_inv_def by (elim disjE conjE) auto
  next
    case (step_dynamic_writer ctime uuid wr name)
    have "dyn_writer_ok faults wr"
      using step_dynamic_writer(2,3) header_length
      by (auto simp: dyn_writer_ok_def DynamicIndexWriter_create_def Let_def)
    then show ?thesis using register_writers_inv(1) [OF w p f step_dynamic_writer(5,4)]
      unfolding step_dynamic_writer(1) session_inv_def by simp
  next
    case (step_fixed_writer wr name known csize inc)
    show ?thesis using register_writers_inv(2) [OF w p f step_fixed_writer(4,3) writer_reach_inv [OF step_fixed_writer(2)]]
      unfolding step_fixed_writer(1) session_inv_def by simp
  next
    case (step_dynamic_append io wid off n d)
    show ?thesis using dynamic_append_post [OF step_dynamic_append(2) refl, of wid off n d "shared x"] i dyn_update_inv(1,2,4) [OF _ w p f]
      unfolding step_dynamic_append(1) session_inv_def by (elim disjE conjE) auto
  next
    case (step_fixed_append d fio wid off n r s')
    show ?thesis using fixed_append_post [OF step_fixed_append(2,3)] i fix_update_inv(1,2,4) [OF _ w p f]
      unfolding step_fixed_append(1) session_inv_def by (elim disjE conjE) auto
  next
    case (step_dynamic_close cio wid cnt n cs r s')
    show ?thesis using dynamic_close_inv [OF step_dynamic_close(2) w p f] unfolding step_dynamic_close(1) session_inv_def by simp
  next
    case (step_dynamic_closed wid upload)
    show ?thesis using close_end_inv(1) [OF w p f step_dynamic_closed(2)] unfolding step_dynamic_closed(1) session_inv_def by simp
  next
    case (step_fixed_close n fio wid cnt cs r s')
    show ?thesis using fixed_close_inv [OF step_fixed_close(2,3) w p f] unfolding step_fixed_close(1) session_inv_def by simp
  next
    case (step_fixed_closed wid upload)
    show ?thesis using close_end_inv(2) [OF w p f step_fixed_closed(2)] unfolding step_fixed_closed(1) session_inv_def by simp
  next
    case (step_blob name outcome data cs n s')
    obtain m where "s' = shared x\<lparr>manifest := m\<rparr>" "finished (shared x) \<noteq> Active \<longrightarrow> m = manifest (shared x)"
      using add_blob_begin_post(1) [OF step_blob(3)] by blast
    then show ?thesis using i unfolding step_blob(1) by (simp add: session_inv_def writers_ok_def pending_ok_def phase_ok_def)
  next
    case (step_blob_added name cs n)
    show ?thesis using i unfolding step_blob_added(1)
      by (simp add: session_inv_def writers_ok_def pending_ok_def phase_ok_def add_blob_end_frame)
  next
    case (step_finish base_exists r s')
    show ?thesis using finish_begin_inv [OF step_finish(2) w p f] unfolding step_finish(1) session_inv_def by simp
  next
    case (step_finished outcome sync)
    show ?thesis using finish_end_inv [OF w p f step_finished(2)] unfolding step_finished(1) session_inv_def by simp
  qed
qed

lemma session_reach_inv: "session_reach faults L pm tdb x \<Longrightarrow> session_inv faults x"
  by (induction rule: session_reach.induct) (use session_inv_new session_inv_step in blast)+

section \<open>Uploaded archives\<close>

text \<open>
  An entry of \<^verbatim>\<open>uploaded_archives\<close> describes a file of the snapshot: for an index, the latest file of that name,
  unless a writer of the same name failed to close after its file was published; that writer is then
  closed, but registered forever.
\<close>

definition stuck :: "SharedBackupState \<Rightarrow> pending_call multiset \<Rightarrow> string \<Rightarrow> bool" where
  "stuck s p name \<longleftrightarrow>
     (\<exists>wid d. dynamic_writers s wid = Some d \<and> dw_closed d \<and> dw_name d = name \<and> count p (ClosingDynamic wid) = 0) \<or>
     (\<exists>wid d. fixed_writers s wid = Some d \<and> fs_closed d \<and> fs_name d = name \<and> count p (ClosingFixed wid) = 0)"

definition keeps_stuck :: "SharedBackupState \<Rightarrow> pending_call multiset \<Rightarrow> SharedBackupState \<Rightarrow> pending_call multiset \<Rightarrow> bool" where
  "keeps_stuck s p s' p' \<longleftrightarrow>
     (\<forall>wid d. dynamic_writers s wid = Some d \<longrightarrow> dw_closed d \<longrightarrow> count p (ClosingDynamic wid) = 0 \<longrightarrow>
        dynamic_writers s' wid = Some d \<and> count p' (ClosingDynamic wid) = 0) \<and>
     (\<forall>wid d. fixed_writers s wid = Some d \<longrightarrow> fs_closed d \<longrightarrow> count p (ClosingFixed wid) = 0 \<longrightarrow>
        fixed_writers s' wid = Some d \<and> count p' (ClosingFixed wid) = 0)"

definition blob_stored :: "'c libs \<Rightarrow> (string \<times> stored_file) list \<Rightarrow> string \<Rightarrow> digest \<Rightarrow> bool" where
  "blob_stored L st name cs \<longleftrightarrow> (\<exists>b. (name, BlobFile b) \<in> set st \<and> blob_csum L b = cs)"

definition index_stored :: "'c libs \<Rightarrow> (string \<times> stored_file) list \<Rightarrow> string \<Rightarrow> digest \<Rightarrow> bool" where
  "index_stored L st name cs \<longleftrightarrow> (\<exists>b. map_of st name = Some (IndexFile b) \<and> index_csum_ok (sha256 L) b cs)"

definition archives_ok ::
  "'c libs \<Rightarrow> SharedBackupState \<Rightarrow> pending_call multiset \<Rightarrow> (string \<times> stored_file) list \<Rightarrow> bool" where
  "archives_ok L s p st \<longleftrightarrow>
     (\<forall>name cs. uploaded_archives s name = Some cs \<longrightarrow>
        (blob_name name \<longrightarrow> blob_stored L st name cs) \<and> (\<not> blob_name name \<longrightarrow> index_stored L st name cs \<or> stuck s p name)) \<and>
     (\<forall>name cs n. AddingBlob name cs n \<in># p \<longrightarrow> blob_name name \<and> (name \<noteq> MANIFEST_NAME \<longrightarrow> blob_stored L st name cs))"

lemma keeps_stuckD: "keeps_stuck s p s' p' \<Longrightarrow> stuck s p name \<Longrightarrow> stuck s' p' name"
  unfolding keeps_stuck_def stuck_def by blast

lemma archives_frame:
  assumes "archives_ok L s p st" "keeps_stuck s p s' p'" "uploaded_archives s' = uploaded_archives s"
    "\<And>name cs n. AddingBlob name cs n \<in># p' \<Longrightarrow> AddingBlob name cs n \<in># p"
  shows "archives_ok L s' p' st"
  using assms(1) keeps_stuckD [OF assms(2)] assms(4) unfolding archives_ok_def assms(3) by blast

lemma keeps_dyn_update:
  assumes "dyn_update wid P s s'"
  shows "keeps_stuck s p s' p" "keeps_stuck s p s' (add_mset (ClosingDynamic wid) p)"
proof -
  obtain d d' where "dynamic_writers s wid = Some d" "\<not> dw_closed d" "dynamic_writers s' = (dynamic_writers s)(wid \<mapsto> d')"
    "fixed_writers s' = fixed_writers s"
    using assms by (auto simp: dyn_update_def)
  then show "keeps_stuck s p s' p" "keeps_stuck s p s' (add_mset (ClosingDynamic wid) p)" by (auto simp: keeps_stuck_def)
qed

lemma keeps_fix_update:
  assumes "fix_update wid P s s'"
  shows "keeps_stuck s p s' p" "keeps_stuck s p s' (add_mset (ClosingFixed wid) p)"
proof -
  obtain d d' where "fixed_writers s wid = Some d" "\<not> fs_closed d" "fixed_writers s' = (fixed_writers s)(wid \<mapsto> d')"
    "dynamic_writers s' = dynamic_writers s"
    using assms by (auto simp: fix_update_def)
  then show "keeps_stuck s p s' p" "keeps_stuck s p s' (add_mset (ClosingFixed wid) p)" by (auto simp: keeps_stuck_def)
qed

text \<open>Closing a writer, with \<open>st\<close> and the name of the writer.\<close>

lemma archives_publish:
  assumes "archives_ok L s p st" "keeps_stuck s p s' p'" "\<not> blob_name name"
    "\<And>name cs n. AddingBlob name cs n \<in># p' \<Longrightarrow> AddingBlob name cs n \<in># p"
    "uploaded_archives s' = (uploaded_archives s)(name \<mapsto> cs) \<and> index_csum_ok (sha256 L) b cs \<or>
     uploaded_archives s' = uploaded_archives s \<and> stuck s' p' name"
  shows "archives_ok L s' p' ((name, IndexFile b) # st)"
proof -
  let ?st = "(name, IndexFile b) # st"
  have bl: "blob_stored L ?st m c \<longleftrightarrow> blob_stored L st m c" for m c by (auto simp: blob_stored_def)
  have ix: "index_stored L ?st m c \<longleftrightarrow> (if m = name then index_csum_ok (sha256 L) b c else index_stored L st m c)" for m c
    by (auto simp: index_stored_def)
  have "(blob_name m \<longrightarrow> blob_stored L ?st m c) \<and> (\<not> blob_name m \<longrightarrow> index_stored L ?st m c \<or> stuck s' p' m)"
    if u: "uploaded_archives s' m = Some c" for m c
  proof (cases "m = name")
    case True
    then show ?thesis using assms(3,5) u by (auto simp: ix)
  next
    case False
    then have "uploaded_archives s m = Some c" using assms(5) u by auto
    then show ?thesis using assms(1) keeps_stuckD [OF assms(2)] False unfolding archives_ok_def bl ix by auto
  qed
  then show ?thesis using assms(1,4) unfolding archives_ok_def bl by blast
qed

lemma dynamic_close_archives:
  assumes "dynamic_close_begin (sha256 L) io wid cnt n cs s = Some (r, s')" "archives_ok L s p st"
    "writers_ok False s" "pending_ok s p" "phase_ok s" "\<And>b. length (sha256 L b) = 32"
  shows "archives_ok L s' (start_call (ClosingDynamic wid) r p) (publish_dynamic wid s s' @ st)"
  using dynamic_close_post [OF assms(1), of False]
proof (elim disjE conjE)
  assume "s' = s" "\<not> is_ok r"
  then show ?thesis using assms(2) by (auto simp: start_call_def publish_dynamic_def split: option.splits)
next
  assume u: "dyn_update wid (\<lambda>a b. (dyn_writer_ok False (dw_index a) \<longrightarrow> dyn_writer_ok False (dw_index b)) \<and> (is_ok r \<longrightarrow> dw_closed b) \<and>
      (dw_closed b \<longrightarrow> (\<exists>c. writer_close (sha256 L) io (dw_index a) = Some (Ok c, dw_index b) \<and> (is_ok r \<longrightarrow> c = cs))) \<and>
      uploaded_archives s' = (if is_ok r then (uploaded_archives s)(dw_name a \<mapsto> cs) else uploaded_archives s)) s s'"
  have k: "keeps_stuck s p s' (start_call (ClosingDynamic wid) r p)"
    using keeps_dyn_update [OF u] by (simp add: start_call_def)
  have z: "count p (ClosingDynamic wid) = 0" by (rule dyn_update_inv(3) [OF u assms(3-5)]) blast
  have pend: "AddingBlob m c k \<in># start_call (ClosingDynamic wid) r p \<Longrightarrow> AddingBlob m c k \<in># p" for m c k
    by (auto simp: start_call_def split: if_splits)
  obtain d d' where d: "dynamic_writers s wid = Some d" "dynamic_writers s' wid = Some d'" "\<not> dw_closed d" "dw_name d' = dw_name d"
    "is_ok r \<longrightarrow> dw_closed d'" "uploaded_archives s' = (if is_ok r then (uploaded_archives s)(dw_name d \<mapsto> cs) else uploaded_archives s)"
    "dw_closed d' \<longrightarrow> (\<exists>c. writer_close (sha256 L) io (dw_index d) = Some (Ok c, dw_index d') \<and> (is_ok r \<longrightarrow> c = cs))"
    using u unfolding dyn_update_def by (metis fun_upd_same)
  have ok: "dyn_writer_ok False (dw_index d)" "\<not> blob_name (dw_name d)" using assms(3) d(1) unfolding writers_ok_def by blast+
  show ?thesis
  proof (cases "dw_closed d'")
    case True
    obtain c b where c: "published (dw_index d') = Some b" "index_csum_ok (sha256 L) b c" "is_ok r \<longrightarrow> c = cs"
      using d(7) True dynamic_close_publishes [where sha = "sha256 L", OF _ ok(1) assms(6)] by blast
    have "publish_dynamic wid s s' = [(dw_name d, IndexFile b)]" using d(1-4) True c(1) by (simp add: publish_dynamic_def)
    moreover have "is_ok r \<or> stuck s' (start_call (ClosingDynamic wid) r p) (dw_name d)"
      using d(2,4) True z unfolding stuck_def start_call_def by auto
    ultimately show ?thesis using archives_publish [OF assms(2) k ok(2) pend, of cs b] d(6) c by auto
  next
    case False
    then have "publish_dynamic wid s s' = []" "\<not> is_ok r" using d(1,2,5) by (simp_all add: publish_dynamic_def)
    then show ?thesis using archives_frame [OF assms(2) k _ pend] d(6) by simp
  qed
qed

lemma fixed_close_archives:
  assumes "n < 2 ^ 64" "fixed_close_begin (sha256 L) io wid cnt n cs s = Some (r, s')" "archives_ok L s p st"
    "writers_ok faults s" "pending_ok s p" "phase_ok s" "\<And>b. length (sha256 L b) = 32"
  shows "archives_ok L s' (start_call (ClosingFixed wid) r p) (publish_fixed wid s s' @ st)"
  using fixed_close_post [OF assms(1,2)]
proof (elim disjE conjE)
  assume "s' = s" "\<not> is_ok r"
  then show ?thesis using assms(3) by (auto simp: start_call_def publish_fixed_def split: option.splits)
next
  assume u: "fix_update wid (\<lambda>a b. (fixed_inv (fs_index a) \<longrightarrow> fixed_inv (fs_index b) \<and>
        (fs_closed b \<longrightarrow> (\<exists>c w. fixed_inv w \<and> fixed_close (sha256 L) io w = Some (Ok c, fs_index b) \<and> (is_ok r \<longrightarrow> c = cs)))) \<and>
      (is_ok r \<longrightarrow> fs_closed b) \<and>
      uploaded_archives s' = (if is_ok r then (uploaded_archives s)(fs_name a \<mapsto> cs) else uploaded_archives s)) s s'"
  have k: "keeps_stuck s p s' (start_call (ClosingFixed wid) r p)"
    using keeps_fix_update [OF u] by (simp add: start_call_def)
  have z: "count p (ClosingFixed wid) = 0" by (rule fix_update_inv(3) [OF u assms(4-6)]) blast
  have pend: "AddingBlob m c k \<in># start_call (ClosingFixed wid) r p \<Longrightarrow> AddingBlob m c k \<in># p" for m c k
    by (auto simp: start_call_def split: if_splits)
  obtain d d' where d: "fixed_writers s wid = Some d" "fixed_writers s' wid = Some d'" "\<not> fs_closed d" "fs_name d' = fs_name d"
    "is_ok r \<longrightarrow> fs_closed d'" "uploaded_archives s' = (if is_ok r then (uploaded_archives s)(fs_name d \<mapsto> cs) else uploaded_archives s)"
    "fixed_inv (fs_index d) \<longrightarrow> fs_closed d' \<longrightarrow>
       (\<exists>c w. fixed_inv w \<and> fixed_close (sha256 L) io w = Some (Ok c, fs_index d') \<and> (is_ok r \<longrightarrow> c = cs))"
    using u unfolding fix_update_def by (metis fun_upd_same)
  have ok: "fixed_inv (fs_index d)" "\<not> blob_name (fs_name d)" using assms(4) d(1) unfolding writers_ok_def by blast+
  show ?thesis
  proof (cases "fs_closed d'")
    case True
    obtain c w where cw: "fixed_inv w" "fixed_close (sha256 L) io w = Some (Ok c, fs_index d')" "is_ok r \<longrightarrow> c = cs"
      using d(7) True ok(1) by blast
    obtain b where c: "fw_published (fs_index d') = Some b" "index_csum_ok (sha256 L) b c"
      using fixed_close_publishes [OF cw(2,1) assms(7)] by blast
    have "publish_fixed wid s s' = [(fs_name d, IndexFile b)]" using d(1-4) True c(1) by (simp add: publish_fixed_def)
    moreover have "is_ok r \<or> stuck s' (start_call (ClosingFixed wid) r p) (fs_name d)"
      using d(2,4) True z unfolding stuck_def start_call_def by auto
    ultimately show ?thesis using archives_publish [OF assms(3) k ok(2) pend, of cs b] d(6) c cw(3) by auto
  next
    case False
    then have "publish_fixed wid s s' = []" "\<not> is_ok r" using d(1,2,5) by (simp_all add: publish_fixed_def)
    then show ?thesis using archives_frame [OF assms(3) k _ pend] d(6) by simp
  qed
qed

lemma keeps_same: "dynamic_writers s' = dynamic_writers s \<Longrightarrow> fixed_writers s' = fixed_writers s \<Longrightarrow>
    (\<And>wid. count p' (ClosingDynamic wid) \<le> count p (ClosingDynamic wid)) \<Longrightarrow>
    (\<And>wid. count p' (ClosingFixed wid) \<le> count p (ClosingFixed wid)) \<Longrightarrow> keeps_stuck s p s' p'"
  by (simp add: keeps_stuck_def) (metis le_zero_eq)

lemma keeps_close_end:
  "ClosingDynamic wid \<in># p \<Longrightarrow> keeps_stuck s p (snd (dynamic_close_end up wid s)) (p - {#ClosingDynamic wid#})"
  "ClosingFixed wid \<in># p \<Longrightarrow> keeps_stuck s p (snd (fixed_close_end up wid s)) (p - {#ClosingFixed wid#})"
  by (auto simp: keeps_stuck_def dynamic_close_end_def fixed_close_end_def not_in_iff [symmetric] split: sum.splits)

lemma blob_archives:
  assumes "archives_ok L s p st" "blob_name name" "name \<noteq> MANIFEST_NAME \<longrightarrow> blob_stored L st name cs"
  shows "archives_ok L (add_blob_end name (cs, n) s) (p - {#AddingBlob name cs n#}) st"
proof -
  have k: "keeps_stuck s p (add_blob_end name (cs, n) s) (p - {#AddingBlob name cs n#})"
    by (rule keeps_same) (simp_all add: add_blob_end_frame)
  have up: "uploaded_archives (add_blob_end name (cs, n) s) =
      (if name = MANIFEST_NAME then uploaded_archives s else (uploaded_archives s)(name \<mapsto> cs))"
    by (simp add: add_blob_end_def Let_def)
  have pend: "AddingBlob m c k \<in># p - {#AddingBlob name cs n#} \<Longrightarrow> AddingBlob m c k \<in># p" for m c k by (rule in_diffD)
  have "(blob_name m \<longrightarrow> blob_stored L st m c) \<and>
      (\<not> blob_name m \<longrightarrow> index_stored L st m c \<or> stuck (add_blob_end name (cs, n) s) (p - {#AddingBlob name cs n#}) m)"
    if "uploaded_archives (add_blob_end name (cs, n) s) m = Some c" for m c
  proof (cases "m = name \<and> name \<noteq> MANIFEST_NAME")
    case True
    then show ?thesis using that assms(2,3) up by simp
  next
    case False
    then have "uploaded_archives s m = Some c" using that up by (auto split: if_splits)
    then show ?thesis using assms(1) keeps_stuckD [OF k] unfolding archives_ok_def by blast
  qed
  then show ?thesis using assms(1) pend unfolding archives_ok_def by blast
qed

lemma archives_new_blob:
  assumes "archives_ok L s p st" "blob_name name" "blob_csum L b = cs"
  shows "archives_ok L (s\<lparr>manifest := m\<rparr>) (add_mset (AddingBlob name cs n) p)
    ((if name = MANIFEST_NAME then [] else [(name, BlobFile b)]) @ st)"
proof -
  let ?new = "if name = MANIFEST_NAME then [] else [(name, BlobFile b)]"
  have bl: "blob_stored L st k c \<Longrightarrow> blob_stored L (?new @ st) k c" for k c unfolding blob_stored_def by auto
  have own: "name \<noteq> MANIFEST_NAME \<Longrightarrow> blob_stored L (?new @ st) name cs" using assms(3) unfolding blob_stored_def by auto
  have ix: "index_stored L st k c \<Longrightarrow> \<not> blob_name k \<Longrightarrow> index_stored L (?new @ st) k c" for k c
    using assms(2) unfolding index_stored_def by auto
  have st: "stuck s p k \<Longrightarrow> stuck (s\<lparr>manifest := m\<rparr>) (add_mset (AddingBlob name cs n) p) k" for k
    by (rule keeps_stuckD [OF keeps_same]) simp_all
  have up: "uploaded_archives (s\<lparr>manifest := m\<rparr>) = uploaded_archives s" by simp
  have pend: "AddingBlob k c j \<in># add_mset (AddingBlob name cs n) p \<longleftrightarrow> k = name \<and> c = cs \<and> j = n \<or> AddingBlob k c j \<in># p" for k c j
    by auto
  show ?thesis using assms(1,2) bl own ix st unfolding archives_ok_def up pend by blast
qed

lemma archives_step:
  assumes "session_step False L pm tdb x y" "session_inv False x" "archives_ok L (shared x) (pending x) (stored x)"
    "\<And>b. length (sha256 L b) = 32"
  shows "archives_ok L (shared y) (pending y) (stored y)"
proof -
  have w: "writers_ok False (shared x)" and p: "pending_ok (shared x) (pending x)" and f: "phase_ok (shared x)"
    using assms(2) by (simp_all add: session_inv_def)
  note fr = archives_frame [OF assms(3)]
  from assms(1) show ?thesis
  proof cases
    case (step_chunk d n)
    have "keeps_stuck (shared x) (pending x) (snd (register_chunk d n (shared x))) (pending x)"
      by (rule keeps_same) (simp_all add: register_chunk_def split: sum.splits)
    from fr [OF this] show ?thesis unfolding step_chunk by (simp add: register_chunk_def split: sum.splits)
  next
    case (step_fixed_chunk wid d n c dup)
    then show ?thesis
      using fixed_chunk_post [of wid d n c dup "shared x"] assms(3) fr [OF keeps_fix_update(1)] by auto
  next
    case (step_dynamic_chunk wid d n c dup)
    then show ?thesis
      using dynamic_chunk_post [of wid d n c dup "shared x"] assms(3) fr [OF keeps_dyn_update(1)] by auto
  next
    case (step_dynamic_writer ctime uuid wr name)
    have "dynamic_writers (shared x) (uid_counter (shared x) + 1) = None"
      using w unfolding writers_ok_def by (metis not_None_eq not_less_eq_eq Suc_eq_plus1 order_refl)
    then have "keeps_stuck (shared x) (pending x) (snd (register_dynamic_writer wr name (shared x))) (pending x)"
      using wrapping_next [OF step_dynamic_writer(5)]
      by (auto simp: keeps_stuck_def register_dynamic_writer_def next_uid_def Let_def split: sum.splits)
    from fr [OF this] show ?thesis unfolding step_dynamic_writer(1)
      by (simp add: register_dynamic_writer_def next_uid_def Let_def split: sum.splits)
  next
    case (step_fixed_writer wr name known csize inc)
    have "fixed_writers (shared x) (uid_counter (shared x) + 1) = None"
      using w unfolding writers_ok_def by (metis not_None_eq not_less_eq_eq Suc_eq_plus1 order_refl)
    then have "keeps_stuck (shared x) (pending x) (snd (register_fixed_writer wr name known csize inc (shared x))) (pending x)"
      using wrapping_next [OF step_fixed_writer(4)]
      by (auto simp: keeps_stuck_def register_fixed_writer_def next_uid_def Let_def split: sum.splits)
    from fr [OF this] show ?thesis unfolding step_fixed_writer(1)
      by (simp add: register_fixed_writer_def next_uid_def Let_def split: sum.splits)
  next
    case (step_dynamic_append io wid off n d)
    then show ?thesis
      using dynamic_append_post [OF step_dynamic_append(2) refl, of wid off n d "shared x"] assms(3) fr [OF keeps_dyn_update(1)]
      by auto
  next
    case (step_fixed_append d fio wid off n r s')
    then show ?thesis using fixed_append_post [OF step_fixed_append(2,3)] assms(3) fr [OF keeps_fix_update(1)] by auto
  next
    case (step_dynamic_close cio wid cnt n cs r s')
    then show ?thesis using dynamic_close_archives [OF step_dynamic_close(2) assms(3) w p f assms(4)] by simp
  next
    case (step_dynamic_closed wid upload)
    have "uploaded_archives (snd (dynamic_close_end upload wid (shared x))) = uploaded_archives (shared x)"
      by (simp add: dynamic_close_end_def split: sum.splits)
    then have "archives_ok L (snd (dynamic_close_end upload wid (shared x))) (pending x - {#ClosingDynamic wid#}) (stored x)"
      by (rule fr [OF keeps_close_end(1) [OF step_dynamic_closed(2)]]) (rule in_diffD)
    then show ?thesis unfolding step_dynamic_closed(1) by simp
  next
    case (step_fixed_close n fio wid cnt cs r s')
    then show ?thesis using fixed_close_archives [OF step_fixed_close(2,3) assms(3) w p f assms(4)] by simp
  next
    case (step_fixed_closed wid upload)
    have "uploaded_archives (snd (fixed_close_end upload wid (shared x))) = uploaded_archives (shared x)"
      by (simp add: fixed_close_end_def split: sum.splits)
    then have "archives_ok L (snd (fixed_close_end upload wid (shared x))) (pending x - {#ClosingFixed wid#}) (stored x)"
      by (rule fr [OF keeps_close_end(2) [OF step_fixed_closed(2)]]) (rule in_diffD)
    then show ?thesis unfolding step_fixed_closed(1) by simp
  next
    case (step_blob name outcome data cs n s')
    obtain m where "s' = shared x\<lparr>manifest := m\<rparr>" using add_blob_begin_post(1) [OF step_blob(3)] by blast
    then show ?thesis
      using archives_new_blob [OF assms(3) step_blob(2), of "\<lparr>raw_data = data\<rparr>" cs m n] add_blob_begin_post(3) [OF step_blob(3)]
      unfolding step_blob(1) by (simp add: blob_csum_def)
  next
    case (step_blob_added name cs n)
    have "blob_name name \<and> (name \<noteq> MANIFEST_NAME \<longrightarrow> blob_stored L (stored x) name cs)"
      using assms(3) step_blob_added(2) unfolding archives_ok_def by blast
    then show ?thesis using blob_archives [OF assms(3)] unfolding step_blob_added(1) by simp
  next
    case (step_finish base_exists r s')
    have "keeps_stuck (shared x) (pending x) s' (start_call FinishingBackup r (pending x))"
      by (rule keeps_same) (use finish_begin_post [OF step_finish(2)] in \<open>simp_all add: start_call_def\<close>)
    from fr [OF this] show ?thesis using finish_begin_post [OF step_finish(2)] unfolding step_finish(1)
      by (auto simp: start_call_def split: if_splits)
  next
    case (step_finished outcome sync)
    have "keeps_stuck (shared x) (pending x) (snd (finish_end outcome sync (shared x))) (pending x - {#FinishingBackup#})"
      by (rule keeps_same) (simp_all add: finish_end_def split: sum.splits)
    moreover have "uploaded_archives (snd (finish_end outcome sync (shared x))) = uploaded_archives (shared x)"
      by (simp add: finish_end_def split: sum.splits)
    ultimately have "archives_ok L (snd (finish_end outcome sync (shared x))) (pending x - {#FinishingBackup#}) (stored x)"
      by (rule fr) (rule in_diffD)
    then show ?thesis unfolding step_finished(1) by simp
  qed
qed

lemma archives_reach:
  assumes "session_reach False L pm tdb x" "\<And>b. length (sha256 L b) = 32"
  shows "archives_ok L (shared x) (pending x) (stored x)"
  using assms(1)
proof (induction rule: session_reach.induct)
  case (session_init has_previous)
  then show ?case by (simp add: archives_ok_def Session_new_def SharedBackupState_new_def)
next
  case (session_next x y)
  then show ?case using archives_step [OF session_next(2) session_reach_inv] assms(2) by blast
qed

lemma check_manifest_files_Ok:
  "check_manifest_files fs up = Ok () \<longleftrightarrow> (\<forall>f \<in> set fs. up (fst f) = Some (snd f))"
  by (induction fs) (auto split: option.splits)

lemma finish_begin_Ok:
  assumes "finish_begin be tdb s = (Ok blob, s')"
  obtains m where "manifest s = Some m" "tdb (m\<lparr>chunk_upload_stats := Some (backup_stat s)\<rparr>) = Ok blob"
    "\<forall>f \<in> set (mfiles m). uploaded_archives s (fst f) = Some (snd f)" "dynamic_writers s = Map.empty" "fixed_writers s = Map.empty"
    "finished s = Active" "finished s' = Finishing" "0 < file_counter s" "be \<noteq> Some False"
proof -
  obtain m where "manifest s = Some m" "check_manifest_files (mfiles m) (uploaded_archives s) = Ok ()"
    "tdb (m\<lparr>chunk_upload_stats := Some (backup_stat s)\<rparr>) = Ok blob" "dynamic_writers s = Map.empty" "fixed_writers s = Map.empty"
    "finished s = Active" "finished s' = Finishing" "0 < file_counter s" "be \<noteq> Some False"
    using assms by (auto simp: finish_begin_def Let_def ensure_unfinished_def split: BackupState.splits if_splits option.splits sum.splits)
  then show ?thesis using that check_manifest_files_Ok by blast
qed

section \<open>Properties\<close>

text \<open>C3. A backup finishes only with what its manifest lists: when \<^verbatim>\<open>finish_backup\<close> gets past its checks, in any
  interleaving of calls in which no index write failed, every index archive of the manifest is a file of
  the snapshot whose entries hash to the checksum in the manifest and in the file's header, every blob of
  the manifest was stored with that checksum, and no index writer is open.\<close>

theorem finished_backup_complete:
  assumes "session_reach False L pm tdb x" "\<And>b. length (sha256 L b) = 32"
    "finish_begin be tdb (shared x) = (Ok blob, s')"
  shows "\<exists>m. manifest (shared x) = Some m \<and> tdb (m\<lparr>chunk_upload_stats := Some (backup_stat (shared x))\<rparr>) = Ok blob \<and>
    dynamic_writers s' = Map.empty \<and> fixed_writers s' = Map.empty \<and>
    (\<forall>(name, cs) \<in> set (mfiles m).
       if blob_name name then \<exists>b. (name, BlobFile b) \<in> set (stored x) \<and> blob_csum L b = cs
       else \<exists>b. map_of (stored x) name = Some (IndexFile b) \<and> index_csum_ok (sha256 L) b cs)"
proof -
  obtain m where m: "manifest (shared x) = Some m" "tdb (m\<lparr>chunk_upload_stats := Some (backup_stat (shared x))\<rparr>) = Ok blob"
    "\<forall>f \<in> set (mfiles m). uploaded_archives (shared x) (fst f) = Some (snd f)" "dynamic_writers (shared x) = Map.empty"
    "fixed_writers (shared x) = Map.empty"
    using finish_begin_Ok [OF assms(3)] by blast
  have "\<not> stuck (shared x) (pending x) name" for name using m(4,5) by (simp add: stuck_def)
  then have "if blob_name name then blob_stored L (stored x) name cs else index_stored L (stored x) name cs"
    if "(name, cs) \<in> set (mfiles m)" for name cs
    using that m(3) archives_reach [OF assms(1,2)] unfolding archives_ok_def by fastforce
  then show ?thesis using m finish_begin_post [OF assms(3)] unfolding blob_stored_def index_stored_def by auto
qed

text \<open>A session that uploads a blob and a manifest that lists it.\<close>

definition demo_blob :: "u8 \<Rightarrow> bytes" where
  "demo_blob v = UNCOMPRESSED_BLOB_MAGIC_1_0 @ le_bytes 4 1 @ [v]"

definition demo_parse :: "DataBlob \<Rightarrow> (err, BackupManifest) result" where
  "demo_parse b = Ok \<lparr>mfiles = [(''a.blob'', sha256 demo_libs (demo_blob 7))], chunk_upload_stats = None\<rparr>"

definition demo_print :: "BackupManifest \<Rightarrow> (err, DataBlob) result" where
  "demo_print m = Ok \<lparr>raw_data = []\<rparr>"

lemma demo_blob_loads: "load_from_reader demo_libs (Inr (demo_blob v)) = Some (Inr \<lparr>raw_data = demo_blob v\<rparr>)"
  using magic_distinct
  by (simp add: load_from_reader_def from_raw_with_crc_check_def from_raw_def demo_blob_def verify_crc_def compute_crc_def
      blob_crc_def blob_magic_def header_size_def header_sizes magic_lengths slice_def demo_libs_def Let_def le_nat_le_bytes)

lemma demo_blob_begin:
  "add_blob_begin demo_libs demo_parse (Ok ()) ''a.blob'' (demo_blob v) s =
     Some (Inr (sha256 demo_libs (demo_blob v), 13), s)"
  "finished s = Active \<Longrightarrow> add_blob_begin demo_libs demo_parse (Ok ()) MANIFEST_NAME (demo_blob v) s =
     Some (Inr (sha256 demo_libs (demo_blob v), 13),
       s\<lparr>manifest := Some \<lparr>mfiles = [(''a.blob'', sha256 demo_libs (demo_blob 7))], chunk_upload_stats = None\<rparr>\<rparr>)"
  using demo_blob_loads [of v]
  by (simp_all add: add_blob_begin_def blob_csum_def MANIFEST_NAME_def register_manifest_def ensure_unfinished_def demo_parse_def
      demo_blob_def magic_lengths)

definition demo_uploaded :: Session where
  "demo_uploaded =
     (let s = add_blob_end ''a.blob'' (sha256 demo_libs (demo_blob 7), 13) (shared (Session_new False)) in
      \<lparr>shared = s\<lparr>manifest := Some \<lparr>mfiles = [(''a.blob'', sha256 demo_libs (demo_blob 7))], chunk_upload_stats = None\<rparr>\<rparr>,
       pending = {#AddingBlob MANIFEST_NAME (sha256 demo_libs (demo_blob 0)) 13#},
       stored = [(''a.blob'', BlobFile \<lparr>raw_data = demo_blob 7\<rparr>)]\<rparr>)"

lemma demo_uploaded_reach: "session_reach faults demo_libs demo_parse demo_print demo_uploaded"
proof -
  let ?R = "session_reach faults demo_libs demo_parse demo_print" and ?cs = "\<lambda>v. sha256 demo_libs (demo_blob v)"
  let ?x0 = "Session_new False"
  let ?x1 = "?x0\<lparr>shared := shared ?x0, pending := add_mset (AddingBlob ''a.blob'' (?cs 7) 13) (pending ?x0),
    stored := (if ''a.blob'' = MANIFEST_NAME then [] else [(''a.blob'', BlobFile \<lparr>raw_data = demo_blob 7\<rparr>)]) @ stored ?x0\<rparr>"
  have 1: "?R ?x1"
    by (rule session_next [OF session_init step_blob [OF _ demo_blob_begin(1)]]) (simp add: blob_name_def)
  let ?x2 = "?x1\<lparr>shared := add_blob_end ''a.blob'' (?cs 7, 13) (shared ?x1), pending := pending ?x1 - {#AddingBlob ''a.blob'' (?cs 7) 13#}\<rparr>"
  have 2: "?R ?x2" by (rule session_next [OF 1 step_blob_added]) simp
  have f: "finished (shared ?x2) = Active" by (simp add: add_blob_end_frame Session_new_def SharedBackupState_new_def)
  from session_next [OF 2 step_blob [OF _ demo_blob_begin(2) [OF f, of 0]]] show ?thesis
    by (simp add: demo_uploaded_def Session_new_def blob_name_def MANIFEST_NAME_def Let_def)
qed

theorem finished_backup_complete_witness:
  "\<exists>s' m. finish_begin None demo_print (shared demo_uploaded) = (Ok \<lparr>raw_data = []\<rparr>, s') \<and> manifest (shared demo_uploaded) = Some m \<and>
    mfiles m = [(''a.blob'', sha256 demo_libs (demo_blob 7))] \<and>
    (\<exists>b. (''a.blob'', BlobFile b) \<in> set (stored demo_uploaded) \<and> blob_csum demo_libs b = sha256 demo_libs (demo_blob 7))"
proof -
  have "\<exists>s'. finish_begin None demo_print (shared demo_uploaded) = (Ok \<lparr>raw_data = []\<rparr>, s')"
    by (simp add: finish_begin_def demo_uploaded_def add_blob_end_def Session_new_def SharedBackupState_new_def ensure_unfinished_def
        demo_print_def Let_def wrapping_add_def MANIFEST_NAME_def)
  then obtain s' where f: "finish_begin None demo_print (shared demo_uploaded) = (Ok \<lparr>raw_data = []\<rparr>, s')" by blast
  have m: "manifest (shared demo_uploaded) = Some \<lparr>mfiles = [(''a.blob'', sha256 demo_libs (demo_blob 7))], chunk_upload_stats = None\<rparr>"
    by (simp add: demo_uploaded_def Let_def)
  have "length (sha256 demo_libs b) = 32" for b by (simp add: demo_libs_def)
  from finished_backup_complete [OF demo_uploaded_reach this f] f m show ?thesis by (auto simp: blob_name_def)
qed

text \<open>No call of a session panics, whatever other calls ran before and whatever failed: appending
  chunks, closing writers and adding blobs return.\<close>

theorem session_never_panics:
  assumes "session_reach faults L pm tdb x" "length d = 32" "n < 2 ^ 64"
  shows "fixed_writer_append_chunk io wid off csize d (shared x) \<noteq> None \<and>
    dynamic_writer_close sha cio upload wid cnt n cs (shared x) \<noteq> None \<and>
    fixed_writer_close sha io upload wid cnt n cs (shared x) \<noteq> None \<and>
    add_blob L pm outcome name data (shared x) \<noteq> None"
proof -
  have inv: "fixed_writers (shared x) wid = Some fd \<Longrightarrow> fixed_inv (fs_index fd)"
    "dynamic_writers (shared x) wid = Some dd \<Longrightarrow> dyn_writer_ok faults (dw_index dd)" for fd dd
    using session_reach_inv [OF assms(1)] unfolding session_inv_def writers_ok_def by blast+
  have add: "fixed_add_chunk io off csize d w \<noteq> None" and grow: "grow_to_size io n w \<noteq> None" and
    grow_inv: "grow_to_size io n w = Some (r, w') \<Longrightarrow> fixed_inv w'" and close: "fixed_close sha io w \<noteq> None"
    if "fixed_inv w" for w w' r
    using add_chunk_post [OF that assms(2), of io off csize] grow_post [OF that assms(3), of io] close_post [OF that, of sha io] by auto
  have dclose: "writer_close sha cio w \<noteq> None" if "dyn_writer_ok faults w" for w
    using that by (auto simp: dyn_writer_ok_def writer_close_def Let_def split: close_fault.splits)
  have 1: "fixed_writer_append_chunk io wid off csize d (shared x) \<noteq> None"
    using add [OF inv(1)] by (auto simp: fixed_writer_append_chunk_def split: sum.splits option.splits)
  have 2: "dynamic_close_begin sha cio wid cnt n cs (shared x) \<noteq> None"
    using dclose [OF inv(2)] by (auto simp: dynamic_close_begin_def Let_def split: sum.splits option.splits)
  have 3: "fixed_close_begin sha io wid cnt n cs (shared x) \<noteq> None"
  proof (cases "fixed_writers (shared x) wid")
    case (Some fd)
    obtain r w where "(if fs_incremental fd \<and> fs_size fd = None then grow_to_size io n (fs_index fd) else Some (Ok (), fs_index fd)) =
        Some (r, w)" "fixed_inv w"
      using grow [OF inv(1) [OF Some]] grow_inv [OF inv(1) [OF Some]] inv(1) [OF Some]
      by (cases "fs_incremental fd \<and> fs_size fd = None") auto
    then show ?thesis using Some close [of w] by (auto simp: fixed_close_begin_def Let_def split: sum.splits)
  qed (auto simp: fixed_close_begin_def split: sum.splits)
  have 4: "add_blob_begin L pm outcome name data (shared x) \<noteq> None"
    using load_from_reader_total by (auto simp: add_blob_begin_def split: option.splits sum.splits prod.splits)
  show ?thesis using 1 2 3 4
    by (auto simp: dynamic_writer_close_def fixed_writer_close_def add_blob_def split: prod.splits sum.splits)
qed

theorem session_never_panics_witness:
  "add_blob demo_libs demo_parse (Ok ()) ''x.blob'' [1, 2] (shared demo_uploaded) \<noteq> None \<and>
   fixed_writer_close (sha256 demo_libs) sys_fine (Ok True) 3 1 5 [] (shared demo_uploaded) \<noteq> None"
  using session_never_panics [OF demo_uploaded_reach, of "replicate 32 0" 5 sys_fine 3 0 0 "sha256 demo_libs" NoFault "Ok True" 1 "[]"
      "Ok ()" "''x.blob''" "[1, 2]"]
  by simp

text \<open>The end of a backup is final: once a session is finishing, whatever calls run, its phase only moves
  from finishing to finished, it has no writers and no manifest, and the known chunks and the writer ids
  stay as they are.\<close>

theorem finished_session_frozen:
  assumes "session_reach faults L pm tdb x" "session_step faults L pm tdb x y" "finished (shared x) \<noteq> Active"
  shows "(finished (shared y) = finished (shared x) \<or> finished (shared x) = Finishing \<and> finished (shared y) = Finished) \<and>
    dynamic_writers (shared y) = Map.empty \<and> fixed_writers (shared y) = Map.empty \<and> manifest (shared y) = None \<and>
    known_chunks (shared y) = known_chunks (shared x) \<and> uid_counter (shared y) = uid_counter (shared x)"
proof -
  have "session_inv faults y" using session_inv_step [OF assms(2) session_reach_inv [OF assms(1)]] .
  moreover have "(finished (shared y) = finished (shared x) \<or> finished (shared x) = Finishing \<and> finished (shared y) = Finished) \<and>
    known_chunks (shared y) = known_chunks (shared x) \<and> uid_counter (shared y) = uid_counter (shared x)"
  proof -
    obtain e where e: "ensure_unfinished (shared x) = Inl e" using assms(3) by (cases "finished (shared x)") (simp_all add: ensure_unfinished_def)
    show ?thesis
      using assms(2)
    proof cases
      case (step_blob name outcome data cs n s')
      then show ?thesis using add_blob_begin_post(1) [OF step_blob(3)] by auto
    next
      case (step_finished outcome sync)
      then show ?thesis by (simp add: finish_end_def split: sum.splits)
    qed (auto simp: e register_chunk_def register_fixed_chunk_def register_dynamic_chunk_def register_dynamic_writer_def
        register_fixed_writer_def dynamic_writer_append_chunk_def fixed_writer_append_chunk_def dynamic_close_begin_def
        fixed_close_begin_def dynamic_close_end_def fixed_close_end_def add_blob_end_frame finish_begin_def split: sum.splits)
  qed
  ultimately show ?thesis using assms(3) unfolding session_inv_def phase_ok_def by (metis BackupState.distinct(3))
qed

lemma demo_finishing:
  "\<exists>x. session_reach faults demo_libs demo_parse demo_print x \<and> finished (shared x) = Finishing \<and> FinishingBackup \<in># pending x"
proof -
  obtain s' where f: "finish_begin None demo_print (shared demo_uploaded) = (Ok \<lparr>raw_data = []\<rparr>, s')" "finished s' = Finishing"
    by (auto simp: finish_begin_def demo_uploaded_def add_blob_end_def Session_new_def SharedBackupState_new_def ensure_unfinished_def
        demo_print_def Let_def wrapping_add_def MANIFEST_NAME_def)
  let ?x = "demo_uploaded\<lparr>shared := s', pending := start_call FinishingBackup (Ok \<lparr>raw_data = []\<rparr> :: (err, DataBlob) result) (pending demo_uploaded)\<rparr>"
  have "session_reach faults demo_libs demo_parse demo_print ?x" by (rule session_next [OF demo_uploaded_reach step_finish [OF f(1)]])
  moreover have "finished (shared ?x) = Finishing" "FinishingBackup \<in># pending ?x" using f(2) by (simp_all add: start_call_def is_ok_def)
  ultimately show ?thesis by blast
qed

theorem finished_session_frozen_witness:
  "\<exists>x. session_reach True demo_libs demo_parse demo_print x \<and> finished (shared x) = Finishing \<and>
    known_chunks (snd (register_chunk [] 5 (shared x))) = known_chunks (shared x)"
proof -
  obtain x where x: "session_reach True demo_libs demo_parse demo_print x" "finished (shared x) = Finishing"
    using demo_finishing by blast
  from finished_session_frozen [OF x(1) step_chunk [of _ _ _ _ _ "[]" 5]] x show ?thesis by auto
qed

text \<open>The checks that guard the second half of a call hold: the writer of a close in progress is still
  registered, and a session whose manifest is being written is still finishing, so these calls succeed if
  the upload does. The locks of the snapshot and its group are held exactly until the backup is finished.\<close>

theorem session_second_halves:
  assumes "session_reach faults L pm tdb x"
  shows "(ClosingDynamic wid \<in># pending x \<longrightarrow> fst (dynamic_close_end (Ok b) wid (shared x)) = Ok ()) \<and>
    (ClosingFixed wid \<in># pending x \<longrightarrow> fst (fixed_close_end (Ok b) wid (shared x)) = Ok ()) \<and>
    (FinishingBackup \<in># pending x \<longrightarrow> fst (finish_end (Ok ()) (Ok ()) (shared x)) = Ok ()) \<and>
    (snapshot (backup_lock_guards (shared x)) \<longleftrightarrow> finished (shared x) \<noteq> Finished) \<and>
    (group (backup_lock_guards (shared x)) \<longleftrightarrow> finished (shared x) \<noteq> Finished)"
proof -
  have w: "writers_ok faults (shared x)" and p: "pending_ok (shared x) (pending x)" and f: "phase_ok (shared x)"
    using session_reach_inv [OF assms] by (simp_all add: session_inv_def)
  have "ClosingDynamic wid \<in># pending x \<longrightarrow> fst (dynamic_close_end (Ok b) wid (shared x)) = Ok ()"
    using pending_dynamic(2) [OF p, of wid] by (auto simp: dynamic_close_end_def)
  moreover have "ClosingFixed wid \<in># pending x \<longrightarrow> fst (fixed_close_end (Ok b) wid (shared x)) = Ok ()"
    using pending_fixed(2) [OF p, of wid] by (auto simp: fixed_close_end_def)
  moreover have "FinishingBackup \<in># pending x \<longrightarrow> fst (finish_end (Ok ()) (Ok ()) (shared x)) = Ok ()"
    using finish_end_inv [OF w p f] by (auto simp: finish_end_def)
  ultimately show ?thesis using f unfolding phase_ok_def by blast
qed

theorem session_second_halves_witness:
  "\<exists>x. session_reach True demo_libs demo_parse demo_print x \<and> FinishingBackup \<in># pending x \<and>
    fst (finish_end (Ok ()) (Ok ()) (shared x)) = Ok () \<and> snapshot (backup_lock_guards (shared x))"
proof -
  obtain x where x: "session_reach True demo_libs demo_parse demo_print x" "finished (shared x) = Finishing" "FinishingBackup \<in># pending x"
    using demo_finishing by blast
  from session_second_halves [OF x(1)] x show ?thesis by auto
qed

text \<open>\<^verbatim>\<open>add_blob\<close> of anything but the manifest does not look at the phase: also when the backup is
  finishing or finished, the call succeeds, replaces the checksum recorded for that archive and counts the
  file (the comment in \<^verbatim>\<open>finish_backup\<close> says that no other call can modify the state any more).\<close>

theorem add_blob_after_finish:
  assumes "finished s \<noteq> Active" "name \<noteq> MANIFEST_NAME" "load_from_reader L (Inr data) = Some (Inr b)"
  shows "\<exists>s'. add_blob L pm (Ok ()) name data s = Some (Ok (), s') \<and> finished s' = finished s \<and>
    uploaded_archives s' = (uploaded_archives s)(name \<mapsto> sha256 L data) \<and>
    file_counter s' = wrapping_add (file_counter s) 1 \<and> backup_size s' = wrapping_add (backup_size s) (length data)"
  using assms load_from_reader_raw [OF assms(3)]
  by (simp add: add_blob_def add_blob_begin_def add_blob_end_def blob_csum_def Let_def)

theorem add_blob_after_finish_witness:
  "\<exists>x s'. session_reach True demo_libs demo_parse demo_print x \<and> finished (shared x) = Finishing \<and>
    add_blob demo_libs demo_parse (Ok ()) ''a.blob'' (demo_blob 8) (shared x) = Some (Ok (), s') \<and>
    uploaded_archives s' ''a.blob'' = Some (sha256 demo_libs (demo_blob 8))"
proof -
  obtain x where x: "session_reach True demo_libs demo_parse demo_print x" "finished (shared x) = Finishing"
    using demo_finishing by blast
  have "finished (shared x) \<noteq> Active" "''a.blob'' \<noteq> MANIFEST_NAME" using x(2) by (simp_all add: MANIFEST_NAME_def)
  from add_blob_after_finish [OF this demo_blob_loads [of 8], of demo_parse] x show ?thesis by auto
qed

text \<open>Two uploads of a blob under one name can overlap so that the file of the second stays, but the
  checksum of the first is recorded: the file is written before the state is locked.\<close>

theorem add_blob_race:
  assumes "session_reach faults L pm tdb x" "blob_name name" "name \<noteq> MANIFEST_NAME"
    "load_from_reader L (Inr d1) = Some (Inr b1)" "load_from_reader L (Inr d2) = Some (Inr b2)"
  shows "\<exists>y. session_reach faults L pm tdb y \<and> uploaded_archives (shared y) name = Some (sha256 L d1) \<and>
    map_of (stored y) name = Some (BlobFile \<lparr>raw_data = d2\<rparr>) \<and> pending y = pending x"
proof -
  have first: "add_blob_begin L pm (Ok ()) name d s = Some (Inr (sha256 L d, length d), s)"
    if "load_from_reader L (Inr d) = Some (Inr b)" for d b s
    using that load_from_reader_raw [OF that] assms(3) by (simp add: add_blob_begin_def blob_csum_def)
  let ?A = "\<lambda>d. AddingBlob name (sha256 L d) (length d)" and ?R = "session_reach faults L pm tdb"
  let ?file = "\<lambda>d. (if name = MANIFEST_NAME then [] else [(name, BlobFile \<lparr>raw_data = d\<rparr>)])"
  let ?x1 = "x\<lparr>shared := shared x, pending := add_mset (?A d1) (pending x), stored := ?file d1 @ stored x\<rparr>"
  have 1: "?R ?x1" by (rule session_next [OF assms(1) step_blob [OF assms(2) first [OF assms(4)]]])
  let ?x2 = "?x1\<lparr>shared := shared ?x1, pending := add_mset (?A d2) (pending ?x1), stored := ?file d2 @ stored ?x1\<rparr>"
  have 2: "?R ?x2" by (rule session_next [OF 1 step_blob [OF assms(2) first [OF assms(5)]]])
  let ?x3 = "?x2\<lparr>shared := add_blob_end name (sha256 L d2, length d2) (shared ?x2), pending := pending ?x2 - {#?A d2#}\<rparr>"
  have 3: "?R ?x3" by (rule session_next [OF 2 step_blob_added]) simp
  let ?x4 = "?x3\<lparr>shared := add_blob_end name (sha256 L d1, length d1) (shared ?x3), pending := pending ?x3 - {#?A d1#}\<rparr>"
  have "?R ?x4" by (rule session_next [OF 3 step_blob_added]) simp
  moreover have "uploaded_archives (shared ?x4) name = Some (sha256 L d1)" "map_of (stored ?x4) name = Some (BlobFile \<lparr>raw_data = d2\<rparr>)"
    "pending ?x4 = pending x"
    using assms(3) by (simp_all add: add_blob_end_def Let_def)
  ultimately show ?thesis by blast
qed

theorem add_blob_race_witness:
  "\<exists>y. session_reach True demo_libs demo_parse demo_print y \<and>
    uploaded_archives (shared y) ''a.blob'' = Some (sha256 demo_libs (demo_blob 1)) \<and>
    map_of (stored y) ''a.blob'' = Some (BlobFile \<lparr>raw_data = demo_blob 2\<rparr>) \<and> demo_blob 1 \<noteq> demo_blob 2"
proof -
  have "blob_name ''a.blob''" "''a.blob'' \<noteq> MANIFEST_NAME" by (simp_all add: blob_name_def MANIFEST_NAME_def)
  from add_blob_race [OF demo_uploaded_reach this demo_blob_loads [of 1] demo_blob_loads [of 2]]
  show ?thesis by (auto simp: demo_blob_def)
qed

end
