(* ===== verification/Catalog.thy ===== *)
theory Catalog
  imports Prelude
begin

unbundle bit_operations_syntax

text \<open>
  The catalog of an archive (\<^verbatim>\<open>pbs-datastore/src/catalog.rs\<close>): a file with one block per directory, written
  from the leaves up, whose entries are encoded with variable-length integers. The writer's and the
  reader's operations follow the source; \<^verbatim>\<open>u64\<close> and \<^verbatim>\<open>i64\<close> are 64-bit words. The reader is the file as bytes,
  as it seeks before every read. Parameters are the match list and the callback of \<^verbatim>\<open>find\<close>, base64 and the
  lossy UTF-8 conversion of \<^verbatim>\<open>ArchiveEntry\<close>, and the mode constants of pxar. \<^verbatim>\<open>dump\<close>, which prints a catalog,
  and the conversion from pxar entries are left out.
\<close>

section \<open>Variable-length integers\<close>

text \<open>The loop of the encoder on the rest \<open>d\<close> of the value.\<close>

lemma drop_bit_7_less: "\<not> d < (128 :: u64) \<Longrightarrow> unat (drop_bit 7 d) < unat d"
proof -
  assume "\<not> d < 128"
  then have "128 \<le> unat d" by (simp add: word_less_nat_alt)
  then show ?thesis unfolding unat_drop_bit_eq by (simp add: drop_bit_eq_div)
qed

function catalog_encode_u64 :: "u64 \<Rightarrow> bytes" where
  "catalog_encode_u64 d =
     (if d < 128 then [ucast d] else ucast (128 OR (d AND 127)) # catalog_encode_u64 (drop_bit 7 d))"
  by auto
termination by (relation "measure unat") (use drop_bit_7_less in auto)

declare catalog_encode_u64.simps [simp del]

text \<open>\<open>decode_u64_loop k v\<close> is the loop with \<open>k\<close> bytes left of the 10 that are read at most.\<close>

fun decode_u64_loop :: "nat \<Rightarrow> u64 \<Rightarrow> bytes \<Rightarrow> (err, u64 \<times> bytes) result" where
  "decode_u64_loop 0 v data = Err ''decode_u64 failed - missing end marker''"
| "decode_u64_loop (Suc k) v [] = Err ''failed to fill whole buffer''"
| "decode_u64_loop (Suc k) v (t # data) =
     (let i = 9 - k in
      if t < 128 then Ok (v OR push_bit (i * 7 mod 64) (ucast t), data)
      else decode_u64_loop k (v OR push_bit (i * 7 mod 64) (ucast (t AND 127))) data)"

definition catalog_decode_u64 :: "bytes \<Rightarrow> (err, u64 \<times> bytes) result" where
  "catalog_decode_u64 data = decode_u64_loop 10 0 data"

function encode_i64_loop :: "bool \<Rightarrow> u64 \<Rightarrow> bytes" where
  "encode_i64_loop neg d =
     (if d < 128 then (if neg then [128 OR ucast d, 0] else [ucast d])
      else ucast (128 OR (d AND 127)) # encode_i64_loop neg (drop_bit 7 d))"
  by auto
termination by (relation "measure (\<lambda>(neg, d). unat d)") (use drop_bit_7_less in auto)

declare encode_i64_loop.simps [simp del]

definition catalog_encode_i64 :: "u64 \<Rightarrow> bytes" where
  "catalog_encode_i64 v = encode_i64_loop (sint v < 0) (if sint v < 0 then (- 1 * (v + 1)) + 1 else v)"

fun decode_i64_loop :: "nat \<Rightarrow> u64 \<Rightarrow> bytes \<Rightarrow> (err, u64 \<times> bytes) result" where
  "decode_i64_loop 0 v data = Err ''decode_i64 failed - missing end marker''"
| "decode_i64_loop (Suc k) v [] = Err ''failed to fill whole buffer''"
| "decode_i64_loop (Suc k) v (t # data) =
     (let i = 10 - k in
      if t = 0 then (if v = 0 then Ok (0, data) else Ok ((v - 1) * - 1 - 1, data))
      else if t < 128 then Ok (v OR push_bit (i * 7 mod 64) (ucast t), data)
      else decode_i64_loop k (v OR push_bit (i * 7 mod 64) (ucast (t AND 127))) data)"

definition catalog_decode_i64 :: "bytes \<Rightarrow> (err, u64 \<times> bytes) result" where
  "catalog_decode_i64 data = decode_i64_loop 11 0 data"

section \<open>Entries\<close>

datatype CatalogEntryType = Directory | File | Symlink | Hardlink | BlockDevice | CharDevice | Fifo | Socket

fun entry_type_code :: "CatalogEntryType \<Rightarrow> u8" where
  "entry_type_code Directory = 0x64"
| "entry_type_code File = 0x66"
| "entry_type_code Symlink = 0x6C"
| "entry_type_code Hardlink = 0x68"
| "entry_type_code BlockDevice = 0x62"
| "entry_type_code CharDevice = 0x63"
| "entry_type_code Fifo = 0x70"
| "entry_type_code Socket = 0x73"

definition entry_type_of :: "u8 \<Rightarrow> (err, CatalogEntryType) result" where
  "entry_type_of value =
     (if value = 0x64 then Ok Directory else if value = 0x66 then Ok File else if value = 0x6C then Ok Symlink
      else if value = 0x68 then Ok Hardlink else if value = 0x62 then Ok BlockDevice else if value = 0x63 then Ok CharDevice
      else if value = 0x70 then Ok Fifo else if value = 0x73 then Ok Socket else Err ''invalid CatalogEntryType value'')"

datatype DirEntryAttribute =
  ADirectory (start: u64) | AFile (fsize: u64) (mtime: u64) | ASymlink | AHardlink | ABlockDevice | ACharDevice | AFifo | ASocket

fun attr_type :: "DirEntryAttribute \<Rightarrow> CatalogEntryType" where
  "attr_type (ADirectory s) = Directory"
| "attr_type (AFile n t) = File"
| "attr_type ASymlink = Symlink"
| "attr_type AHardlink = Hardlink"
| "attr_type ABlockDevice = BlockDevice"
| "attr_type ACharDevice = CharDevice"
| "attr_type AFifo = Fifo"
| "attr_type ASocket = Socket"

record DirEntry =
  ename :: bytes
  attr :: DirEntryAttribute

definition DirEntry_new :: "CatalogEntryType \<Rightarrow> bytes \<Rightarrow> u64 \<Rightarrow> u64 \<Rightarrow> u64 \<Rightarrow> DirEntry" where
  "DirEntry_new etype name st sz mt = \<lparr>ename = name, attr =
     (case etype of Directory \<Rightarrow> ADirectory st | File \<Rightarrow> AFile sz mt | Symlink \<Rightarrow> ASymlink | Hardlink \<Rightarrow> AHardlink
      | BlockDevice \<Rightarrow> ABlockDevice | CharDevice \<Rightarrow> ACharDevice | Fifo \<Rightarrow> AFifo | Socket \<Rightarrow> ASocket)\<rparr>"

text \<open>\<open>mode\<close> gives the constants of \<^verbatim>\<open>pxar::mode\<close>.\<close>

definition get_file_mode :: "(CatalogEntryType \<Rightarrow> nat) \<Rightarrow> DirEntry \<Rightarrow> nat option" where
  "get_file_mode mode e = (if attr e = AHardlink then None else Some (mode (attr_type (attr e))))"

definition is_directory :: "DirEntry \<Rightarrow> bool" where
  "is_directory e = is_ADirectory (attr e)"

definition is_symlink :: "DirEntry \<Rightarrow> bool" where
  "is_symlink e = (attr e = ASymlink)"

section \<open>Directory blocks\<close>

record DirInfo =
  dname :: bytes
  dentries :: "DirEntry list"

definition DirInfo_new :: "bytes \<Rightarrow> DirInfo" where
  "DirInfo_new name = \<lparr>dname = name, dentries = []\<rparr>"

definition new_rootdir :: DirInfo where
  "new_rootdir = DirInfo_new [0x2F]"

definition encode_entry :: "DirEntry \<Rightarrow> u64 \<Rightarrow> bytes" where
  "encode_entry e pos =
     (let hdr = entry_type_code (attr_type (attr e)) # catalog_encode_u64 (word_of_nat (length (ename e))) @ ename e in
      case attr e of
        ADirectory st \<Rightarrow> hdr @ catalog_encode_u64 (pos - st)
      | AFile sz mt \<Rightarrow> hdr @ catalog_encode_u64 sz @ catalog_encode_i64 mt
      | _ \<Rightarrow> hdr)"

definition dirinfo_encode :: "DirInfo \<Rightarrow> u64 \<Rightarrow> bytes \<times> bytes" where
  "dirinfo_encode d st =
     (let table = catalog_encode_u64 (word_of_nat (length (dentries d))) @ concat (map (\<lambda>e. encode_entry e st) (dentries d)) in
      (dname d, catalog_encode_u64 (word_of_nat (length table)) @ table))"

text \<open>
  The callback gets its own state \<open>'s\<close> and returns whether to go on. \<open>parse_loop\<close> is the loop over the
  entries; it returns the unread data, or nothing if the callback stopped.
\<close>

type_synonym 's entry_callback =
  "CatalogEntryType \<Rightarrow> bytes \<Rightarrow> u64 \<Rightarrow> u64 \<Rightarrow> u64 \<Rightarrow> 's \<Rightarrow> (err, bool) result \<times> 's"

definition read_exact :: "nat \<Rightarrow> bytes \<Rightarrow> (err, bytes \<times> bytes) result" where
  "read_exact n data = (if n \<le> length data then Ok (take n data, drop n data) else Err ''failed to fill whole buffer'')"

text \<open>One entry: its type, name, offset, size and time, and the rest of the data.\<close>

definition decode_entry :: "bytes \<Rightarrow> (err, (CatalogEntryType \<times> bytes \<times> u64 \<times> u64 \<times> u64) \<times> bytes) result" where
  "decode_entry data =
     and_then (read_exact 1 data) (\<lambda>(buf, d1).
     and_then (entry_type_of (hd buf)) (\<lambda>etype.
     and_then (catalog_decode_u64 d1) (\<lambda>(name_len, d2).
     if unat name_len \<ge> 4096 then Err ''directory entry name too long''
     else and_then (read_exact (unat name_len) d2) (\<lambda>(name, d3).
       case etype of
         Directory \<Rightarrow> and_then (catalog_decode_u64 d3) (\<lambda>(off, d4). Ok ((etype, name, off, 0, 0), d4))
       | File \<Rightarrow> and_then (catalog_decode_u64 d3) (\<lambda>(sz, d4).
                 and_then (catalog_decode_i64 d4) (\<lambda>(mt, d5). Ok ((etype, name, 0, sz, mt), d5)))
       | _ \<Rightarrow> Ok ((etype, name, 0, 0, 0), d3)))))"

fun parse_loop :: "'s entry_callback \<Rightarrow> nat \<Rightarrow> bytes \<Rightarrow> 's \<Rightarrow> (err, bytes option) result \<times> 's" where
  "parse_loop cb 0 data s = (Ok (Some data), s)"
| "parse_loop cb (Suc n) data s =
     (case decode_entry data of
        Inl e \<Rightarrow> (Err e, s)
      | Inr ((etype, name, off, sz, mt), data') \<Rightarrow>
          (case cb etype name off sz mt s of
             (Inl e, s') \<Rightarrow> (Err e, s')
           | (Inr cont, s') \<Rightarrow> if \<not> cont then (Ok None, s') else parse_loop cb n data' s'))"

definition dirinfo_parse :: "'s entry_callback \<Rightarrow> bytes \<Rightarrow> 's \<Rightarrow> (err, unit) result \<times> 's" where
  "dirinfo_parse cb data s =
     (case catalog_decode_u64 data of
        Inl e \<Rightarrow> (Err e, s)
      | Inr (entries, cursor) \<Rightarrow>
          (case parse_loop cb (unat entries) cursor s of
             (Inl e, s') \<Rightarrow> (Err e, s')
           | (Inr None, s') \<Rightarrow> (Ok (), s')
           | (Inr (Some rest), s') \<Rightarrow>
               if rest \<noteq> [] then (Err ''unable to parse whole catalog data block'', s') else (Ok (), s')))"

section \<open>CatalogWriter\<close>

definition PROXMOX_CATALOG_FILE_MAGIC_1_0 :: bytes where
  "PROXMOX_CATALOG_FILE_MAGIC_1_0 = [145, 253, 96, 249, 196, 103, 88, 213]"

text \<open>
  \<open>cw_out\<close> is what was written, \<open>dirstack\<close> has the current directory first. A write fails with an error
  after some of its bytes, or not.
\<close>

record CatalogWriter =
  cw_out :: bytes
  dirstack :: "DirInfo list"
  cw_pos :: u64

type_synonym fault = "(err \<times> nat) option"

definition catalog_write_all :: "fault \<Rightarrow> bytes \<Rightarrow> CatalogWriter \<Rightarrow> (err, unit) result \<times> CatalogWriter" where
  "catalog_write_all io data w =
     (case io of
        Some (e, n) \<Rightarrow> (Err e, w\<lparr>cw_out := cw_out w @ take n data\<rparr>)
      | None \<Rightarrow> (Ok (), w\<lparr>cw_out := cw_out w @ data, cw_pos := cw_pos w + word_of_nat (length data)\<rparr>))"

definition CatalogWriter_new :: "fault \<Rightarrow> (err, CatalogWriter) result" where
  "CatalogWriter_new io =
     (case catalog_write_all io PROXMOX_CATALOG_FILE_MAGIC_1_0 \<lparr>cw_out = [], dirstack = [new_rootdir], cw_pos = 0\<rparr> of
        (Inl e, w) \<Rightarrow> Err e
      | (Inr _, w) \<Rightarrow> Ok w)"

definition catalog_finish :: "fault \<Rightarrow> fault \<Rightarrow> err option \<Rightarrow> CatalogWriter \<Rightarrow> (err, unit) result \<times> CatalogWriter" where
  "catalog_finish io1 io2 flush w =
     (case dirstack w of
        [dir] \<Rightarrow>
          (let w1 = w\<lparr>dirstack := []\<rparr>; st = cw_pos w1; data = snd (dirinfo_encode dir st) in
           case catalog_write_all io1 data w1 of
             (Inl e, w2) \<Rightarrow> (Err e, w2)
           | (Inr _, w2) \<Rightarrow>
               (case catalog_write_all io2 (le_bytes 8 (unat st)) w2 of
                  (Inl e, w3) \<Rightarrow> (Err e, w3)
                | (Inr _, w3) \<Rightarrow> (case flush of Some e \<Rightarrow> (Err e, w3) | None \<Rightarrow> (Ok (), w3))))
      | _ \<Rightarrow> (Err ''unable to finish catalog at level'', w))"

definition start_directory :: "bytes \<Rightarrow> CatalogWriter \<Rightarrow> (err, unit) result \<times> CatalogWriter" where
  "start_directory name w = (Ok (), w\<lparr>dirstack := DirInfo_new name # dirstack w\<rparr>)"

text \<open>All the \<^verbatim>\<open>add\<close> operations push an entry to the directory on the top of the stack.\<close>

definition push_entry :: "DirEntry \<Rightarrow> CatalogWriter \<Rightarrow> (err, unit) result \<times> CatalogWriter" where
  "push_entry e w =
     (case dirstack w of
        [] \<Rightarrow> (Err ''outside root'', w)
      | dir # ds \<Rightarrow> (Ok (), w\<lparr>dirstack := dir\<lparr>dentries := dentries dir @ [e]\<rparr> # ds\<rparr>))"

definition end_directory :: "fault \<Rightarrow> CatalogWriter \<Rightarrow> (err, unit) result \<times> CatalogWriter" where
  "end_directory io w =
     (case dirstack w of
        [] \<Rightarrow> (Err ''got unexpected end_directory level 0'', w)
      | dir # ds \<Rightarrow>
          (let st = cw_pos w; (name, data) = dirinfo_encode dir st in
           case catalog_write_all io data (w\<lparr>dirstack := ds\<rparr>) of
             (Inl e, w1) \<Rightarrow> (Err e, w1)
           | (Inr _, w1) \<Rightarrow> push_entry \<lparr>ename = name, attr = ADirectory st\<rparr> w1))"

definition add_file :: "bytes \<Rightarrow> u64 \<Rightarrow> u64 \<Rightarrow> CatalogWriter \<Rightarrow> (err, unit) result \<times> CatalogWriter" where
  "add_file name sz mt = push_entry \<lparr>ename = name, attr = AFile sz mt\<rparr>"

definition add_symlink :: "bytes \<Rightarrow> CatalogWriter \<Rightarrow> (err, unit) result \<times> CatalogWriter" where
  "add_symlink name = push_entry \<lparr>ename = name, attr = ASymlink\<rparr>"

definition add_hardlink :: "bytes \<Rightarrow> CatalogWriter \<Rightarrow> (err, unit) result \<times> CatalogWriter" where
  "add_hardlink name = push_entry \<lparr>ename = name, attr = AHardlink\<rparr>"

definition add_block_device :: "bytes \<Rightarrow> CatalogWriter \<Rightarrow> (err, unit) result \<times> CatalogWriter" where
  "add_block_device name = push_entry \<lparr>ename = name, attr = ABlockDevice\<rparr>"

definition add_char_device :: "bytes \<Rightarrow> CatalogWriter \<Rightarrow> (err, unit) result \<times> CatalogWriter" where
  "add_char_device name = push_entry \<lparr>ename = name, attr = ACharDevice\<rparr>"

definition add_fifo :: "bytes \<Rightarrow> CatalogWriter \<Rightarrow> (err, unit) result \<times> CatalogWriter" where
  "add_fifo name = push_entry \<lparr>ename = name, attr = AFifo\<rparr>"

definition add_socket :: "bytes \<Rightarrow> CatalogWriter \<Rightarrow> (err, unit) result \<times> CatalogWriter" where
  "add_socket name = push_entry \<lparr>ename = name, attr = ASocket\<rparr>"

section \<open>CatalogReader\<close>

definition catalog_root :: "bytes \<Rightarrow> (err, DirEntry) result" where
  "catalog_root cat =
     and_then (read_exact 8 cat) (\<lambda>(magic, _).
       if magic \<noteq> PROXMOX_CATALOG_FILE_MAGIC_1_0 then Err ''got unexpected magic number for catalog''
       else Ok \<lparr>ename = [], attr = ADirectory (word_of_nat (le_nat (drop (length cat - 8) cat)))\<rparr>)"

definition read_raw_dirinfo_block :: "bytes \<Rightarrow> u64 \<Rightarrow> (err, bytes) result" where
  "read_raw_dirinfo_block cat st =
     and_then (catalog_decode_u64 (drop (unat st) cat)) (\<lambda>(n, rest).
       if n < 1 then Err ''got small directory size''
       else and_then (read_exact (unat n) rest) (\<lambda>(data, _). Ok data))"

definition collect_entry :: "u64 \<Rightarrow> DirEntry list entry_callback" where
  "collect_entry st etype name off sz mt es = (Ok True, es @ [DirEntry_new etype name (st - off) sz mt])"

definition read_dir :: "bytes \<Rightarrow> DirEntry \<Rightarrow> (err, DirEntry list) result" where
  "read_dir cat parent =
     (case attr parent of
        ADirectory st \<Rightarrow>
          and_then (read_raw_dirinfo_block cat st) (\<lambda>data.
            case dirinfo_parse (collect_entry st) data [] of
              (Inl e, _) \<Rightarrow> Err e
            | (Inr _, es) \<Rightarrow> Ok es)
      | _ \<Rightarrow> Err ''parent is not a directory - internal error'')"

definition match_name :: "bytes \<Rightarrow> u64 \<Rightarrow> DirEntry option entry_callback" where
  "match_name filename st etype name off sz mt item =
     (if name \<noteq> filename then (Ok True, item) else (Ok False, Some (DirEntry_new etype name (st - off) sz mt)))"

definition catalog_lookup :: "bytes \<Rightarrow> DirEntry \<Rightarrow> bytes \<Rightarrow> (err, DirEntry option) result" where
  "catalog_lookup cat parent filename =
     (case attr parent of
        ADirectory st \<Rightarrow>
          and_then (read_raw_dirinfo_block cat st) (\<lambda>data.
            case dirinfo_parse (match_name filename st) data None of
              (Inl e, _) \<Rightarrow> Err e
            | (Inr _, item) \<Rightarrow> Ok item)
      | _ \<Rightarrow> Err ''parent is not a directory - internal error'')"

fun split_slash :: "bytes \<Rightarrow> bytes \<Rightarrow> bytes list" where
  "split_slash acc [] = [acc]"
| "split_slash acc (c # cs) = (if c = 0x2F then acc # split_slash [] cs else split_slash (acc @ [c]) cs)"

fun lookup_components :: "bytes \<Rightarrow> bytes list \<Rightarrow> DirEntry \<Rightarrow> (err, DirEntry) result" where
  "lookup_components cat [] current = Ok current"
| "lookup_components cat (name # names) current =
     and_then (catalog_lookup cat current name) (\<lambda>r.
       case r of Some e \<Rightarrow> lookup_components cat names e | None \<Rightarrow> Err ''path not found in catalog'')"

definition lookup_recursive :: "bytes \<Rightarrow> bytes \<Rightarrow> (err, DirEntry) result" where
  "lookup_recursive cat path =
     and_then (catalog_root cat) (\<lambda>current.
       if path = [0x2F] then Ok current
       else lookup_components cat (split_slash [] (if path \<noteq> [] \<and> hd path = 0x2F then tl path else path)) current)"

text \<open>
  \<^verbatim>\<open>find\<close> descends into directories and may not return: \<open>catalog_find n\<close> is its result if it needs at most
  \<open>n\<close> nested calls. \<open>find_entries\<close> is its loop over the entries of a directory, with the recursive call as
  a parameter; path and callback state are threaded through.
\<close>

datatype MatchType = Include | Exclude

fun find_entries ::
  "(DirEntry \<Rightarrow> bytes \<Rightarrow> 's \<Rightarrow> ((err, unit) result \<times> bytes \<times> 's) option) \<Rightarrow> (CatalogEntryType \<Rightarrow> nat) \<Rightarrow>
   (bytes \<Rightarrow> nat option \<Rightarrow> (err, MatchType option) result) \<Rightarrow> (bytes \<Rightarrow> 's \<Rightarrow> (err, unit) result \<times> 's) \<Rightarrow>
   nat \<Rightarrow> DirEntry list \<Rightarrow> bytes \<Rightarrow> 's \<Rightarrow> ((err, unit) result \<times> bytes \<times> 's) option" where
  "find_entries rec mode match cb file_len [] path s = Some (Ok (), take file_len path, s)"
| "find_entries rec mode match cb file_len (e # es) path s =
     (let path1 = take file_len path @ (if ename e \<noteq> [] \<and> hd (ename e) = 0x2F then [] else [0x2F]) @ ename e in
      if match path1 (get_file_mode mode e) = Ok (Some Exclude) then find_entries rec mode match cb file_len es path1 s
      else (case (if match path1 (get_file_mode mode e) = Ok (Some Include) then cb path1 s else (Ok (), s)) of
          (Inl err, s1) \<Rightarrow> Some (Err err, path1, s1)
        | (Inr _, s1) \<Rightarrow>
            if is_directory e then
              (case rec e path1 s1 of
                 None \<Rightarrow> None
               | Some (Inl err, path2, s2) \<Rightarrow> Some (Err err, path2, s2)
               | Some (Inr _, path2, s2) \<Rightarrow> find_entries rec mode match cb file_len es path2 s2)
            else find_entries rec mode match cb file_len es path1 s1))"

fun catalog_find ::
  "nat \<Rightarrow> bytes \<Rightarrow> (CatalogEntryType \<Rightarrow> nat) \<Rightarrow> (bytes \<Rightarrow> nat option \<Rightarrow> (err, MatchType option) result) \<Rightarrow>
   (bytes \<Rightarrow> 's \<Rightarrow> (err, unit) result \<times> 's) \<Rightarrow> DirEntry \<Rightarrow> bytes \<Rightarrow> 's \<Rightarrow> ((err, unit) result \<times> bytes \<times> 's) option" where
  "catalog_find 0 cat mode match cb parent path s = None"
| "catalog_find (Suc n) cat mode match cb parent path s =
     (case read_dir cat parent of
        Inl e \<Rightarrow> Some (Err e, path, s)
      | Inr es \<Rightarrow> find_entries (catalog_find n cat mode match cb) mode match cb (length path) es path s)"

section \<open>ArchiveEntry\<close>

record ArchiveEntry =
  filepath :: string
  ae_text :: string
  ae_type :: string
  ae_leaf :: bool
  ae_size :: "u64 option"
  ae_mtime :: "u64 option"

definition ArchiveEntry_new_with_size ::
  "(bytes \<Rightarrow> string) \<Rightarrow> (bytes \<Rightarrow> string) \<Rightarrow> bytes \<Rightarrow> DirEntryAttribute option \<Rightarrow> u64 option \<Rightarrow> ArchiveEntry" where
  "ArchiveEntry_new_with_size base64 utf8_lossy path entry_type sz =
     \<lparr>filepath = base64 path, ae_text = utf8_lossy (last (split_slash [] path)),
      ae_type = (case entry_type of Some a \<Rightarrow> [char_of (unat (entry_type_code (attr_type a)))] | None \<Rightarrow> ''v''),
      ae_leaf = (case entry_type of None \<Rightarrow> False | Some a \<Rightarrow> \<not> is_ADirectory a),
      ae_size = sz,
      ae_mtime = (case entry_type of Some (AFile n mt) \<Rightarrow> Some mt | _ \<Rightarrow> None)\<rparr>"

definition ArchiveEntry_new ::
  "(bytes \<Rightarrow> string) \<Rightarrow> (bytes \<Rightarrow> string) \<Rightarrow> bytes \<Rightarrow> DirEntryAttribute option \<Rightarrow> ArchiveEntry" where
  "ArchiveEntry_new base64 utf8_lossy path entry_type =
     ArchiveEntry_new_with_size base64 utf8_lossy path entry_type
       (case entry_type of Some (AFile n mt) \<Rightarrow> Some n | _ \<Rightarrow> None)"

definition list_dir_contents ::
  "(bytes \<Rightarrow> string) \<Rightarrow> (bytes \<Rightarrow> string) \<Rightarrow> bytes \<Rightarrow> bytes \<Rightarrow> (err, ArchiveEntry list) result" where
  "list_dir_contents base64 utf8_lossy cat path =
     and_then (lookup_recursive cat path) (\<lambda>dir.
       let path1 = (if path \<noteq> [] \<and> hd path = 0x2F then tl path else path) in
       and_then (read_dir cat dir) (\<lambda>es.
         Ok (map (\<lambda>e. let entry = ArchiveEntry_new base64 utf8_lossy (path1 @ [0x2F] @ ename e) (Some (attr e)) in
              case attr e of AFile n mt \<Rightarrow> entry\<lparr>ae_size := Some n, ae_mtime := Some mt\<rparr> | _ \<Rightarrow> entry) es)))"

section \<open>Round trips of integers\<close>

text \<open>Groups of seven bits, and joining them again.\<close>

lemma mask7: "bit (127 :: 'a :: len word) j \<longleftrightarrow> j < 7" if "j < LENGTH('a)" "7 \<le> LENGTH('a)"
proof -
  have e: "(127 :: 'a word) = mask 7" by (simp add: mask_eq_exp_minus_1)
  show ?thesis unfolding e using that by (simp add: bit_mask_iff)
qed

lemma bit128: "bit (128 :: 'a :: len word) k \<longleftrightarrow> k = 7" if "8 \<le> LENGTH('a)"
proof -
  have e: "(128 :: 'a word) = 2 ^ 7" by simp
  show ?thesis unfolding e bit_exp_iff using that by auto
qed

lemma less128: fixes x :: u8 shows "x < 128 \<longleftrightarrow> \<not> bit x 7"
proof -
  have "bit x 7 \<longleftrightarrow> bit (unat x) 7" by (simp add: bit_unsigned_iff)
  then have "bit x 7 \<longleftrightarrow> odd (unat x div 128)" by (simp add: bit_iff_odd)
  moreover have "unat x div 128 < 2" using unsigned_less [of x, where 'a = nat] by simp
  moreover have "unat x < 128 \<longleftrightarrow> unat x div 128 = 0" by auto
  ultimately show ?thesis by (auto simp: word_less_nat_alt less_2_cases_iff)
qed

lemma join_groups:
  fixes d :: u64
  shows "push_bit n (d AND 127) OR push_bit (n + 7) (drop_bit 7 d) = push_bit n d"
proof (rule bit_word_eqI)
  fix k assume k: "k < LENGTH(64)"
  show "bit (push_bit n (d AND 127) OR push_bit (n + 7) (drop_bit 7 d)) k \<longleftrightarrow> bit (push_bit n d) k"
  proof (cases "k - n < 7")
    case True
    then show ?thesis using mask7 [of "k - n", where 'a = 64] k by (auto simp: bit_simps)
  next
    case False
    then have "7 + (k - (n + 7)) = k - n" by simp
    then show ?thesis using False mask7 [of "k - n", where 'a = 64] k by (auto simp: bit_simps)
  qed
qed

lemma group_byte:
  fixes d :: u64
  shows "\<not> (ucast (128 OR (d AND 127)) :: u8) < 128" "(ucast (128 OR (d AND 127)) :: u8) \<noteq> 0"
    "ucast ((ucast (128 OR (d AND 127)) :: u8) AND 127) = d AND 127"
proof -
  show ge: "\<not> (ucast (128 OR (d AND 127)) :: u8) < 128"
    unfolding less128 by (simp add: bit_simps bit128)
  then show "(ucast (128 OR (d AND 127)) :: u8) \<noteq> 0" by auto
  have "ucast ((ucast x :: u8) AND 127) = x AND 127" for x :: u64
  proof (rule bit_word_eqI)
    fix k assume "k < LENGTH(64)"
    then show "bit (ucast ((ucast x :: u8) AND 127) :: u64) k \<longleftrightarrow> bit (x AND 127) k"
      using mask7 [of k, where 'a = 64] mask7 [of k, where 'a = 8] by (auto simp: bit_simps)
  qed
  moreover have "(128 OR (d AND 127)) AND 127 = d AND 127"
  proof (rule bit_word_eqI)
    fix k assume "k < LENGTH(64)"
    then show "bit ((128 OR (d AND 127)) AND 127) k \<longleftrightarrow> bit (d AND 127) k"
      using mask7 [of k, where 'a = 64] bit128 [of k, where 'a = 64] by (auto simp: bit_simps)
  qed
  ultimately show "ucast ((ucast (128 OR (d AND 127)) :: u8) AND 127) = d AND 127" by simp
qed

lemma last_group:
  fixes d :: u64
  assumes "d < 128"
  shows "(ucast d :: u8) < 128" "ucast (ucast d :: u8) = d" "(ucast d :: u8) = 0 \<longleftrightarrow> d = 0"
proof -
  have u: "unat (ucast d :: u8) = unat d" using assms by (simp add: unsigned_ucast_eq word_less_nat_alt take_bit_eq_mod)
  then show "(ucast d :: u8) < 128" "(ucast d :: u8) = 0 \<longleftrightarrow> d = 0" using assms by (simp_all add: word_less_nat_alt unat_eq_0 [symmetric])
  have "unat (ucast (ucast d :: u8) :: u64) = unat d"
    unfolding unsigned_ucast_eq [of "ucast d :: u8"] u using unsigned_less [of d, where 'a = nat] by (simp add: take_bit_eq_mod)
  then show "ucast (ucast d :: u8) = d" by (rule unsigned_word_eqI)
qed

lemma decode_u64_loop_encode:
  assumes "i \<le> 9"
  shows "decode_u64_loop (10 - i) v (catalog_encode_u64 (drop_bit (i * 7) d) @ rest) = Ok (v OR push_bit (i * 7) (drop_bit (i * 7) d), rest)"
  using assms
proof (induction "9 - i" arbitrary: i v)
  case 0
  then have i: "i = 9" by simp
  have "drop_bit 63 d < 128"
    using unsigned_less [of d, where 'a = nat] unfolding word_less_nat_alt unat_drop_bit_eq by (simp add: drop_bit_eq_div)
  then show ?case using last_group [of "drop_bit 63 d"] by (simp add: i catalog_encode_u64.simps [of "drop_bit 63 d"])
next
  case (Suc k)
  define x where "x = drop_bit (i * 7) d"
  have i: "i < 9" "10 - i = Suc (9 - i)" "9 - (9 - i) = i" "i * 7 mod 64 = i * 7" "10 - Suc i = 9 - i" using Suc.hyps(2) by simp_all
  show ?case
  proof (cases "x < 128")
    case True
    then show ?thesis using last_group [OF True] i by (simp add: x_def [symmetric] catalog_encode_u64.simps [of x])
  next
    case False
    have dx: "drop_bit (Suc i * 7) d = drop_bit 7 x" by (simp add: x_def)
    have "decode_u64_loop (10 - Suc i) (v OR push_bit (i * 7) (x AND 127)) (catalog_encode_u64 (drop_bit (Suc i * 7) d) @ rest) =
        Ok ((v OR push_bit (i * 7) (x AND 127)) OR push_bit (Suc i * 7) (drop_bit (Suc i * 7) d), rest)"
      by (rule Suc.hyps(1)) (use Suc.hyps(2) in auto)
    moreover have "(v OR push_bit (i * 7) (x AND 127)) OR push_bit (Suc i * 7) (drop_bit 7 x) = v OR push_bit (i * 7) x"
      using join_groups [of "i * 7" x] by (simp add: or.assoc add.commute)
    ultimately show ?thesis
      using False group_byte [of x] i dx by (simp add: x_def [symmetric] catalog_encode_u64.simps [of x] Let_def)
  qed
qed

lemma decode_encode_u64: "catalog_decode_u64 (catalog_encode_u64 d @ rest) = Ok (d, rest)"
  using decode_u64_loop_encode [of 0 0 d rest] by (simp add: catalog_decode_u64_def)

lemma last_group_negative:
  fixes x :: u64
  assumes "x < 128"
  shows "128 OR ucast x = (ucast (128 OR (x AND 127)) :: u8)" "x AND 127 = x"
proof -
  have m: "(127 :: u64) = mask 7" by (simp add: mask_eq_exp_minus_1)
  have "unat (take_bit 7 x) = unat x"
    using assms unfolding unsigned_take_bit_eq word_less_nat_alt by (simp add: take_bit_eq_mod)
  then show e: "x AND 127 = x" unfolding m take_bit_eq_mask [symmetric] by (rule unsigned_word_eqI)
  show "128 OR ucast x = (ucast (128 OR (x AND 127)) :: u8)"
    unfolding e by (rule bit_word_eqI) (simp add: bit_simps)
qed

lemma decode_i64_last:
  assumes "x < 128" "i \<le> 9" "neg \<or> x \<noteq> 0 \<or> v = 0" "neg \<longrightarrow> v OR push_bit (i * 7) x \<noteq> 0"
  shows "decode_i64_loop (11 - i) v ((if neg then [128 OR ucast x, 0] else [ucast x]) @ rest) =
    Ok (if neg then - (v OR push_bit (i * 7) x) else v OR push_bit (i * 7) x, rest)"
proof -
  have i: "11 - i = Suc (10 - i)" "10 - i = Suc (9 - i)" "10 - (10 - i) = i" "i * 7 mod 64 = i * 7" using assms(2) by simp_all
  show ?thesis
  proof (cases neg)
    case True
    then show ?thesis
      using i assms(4) group_byte [of x] last_group_negative [OF assms(1)] by (simp add: Let_def)
  next
    case False
    then show ?thesis using i assms(3) last_group [OF assms(1)] by (auto simp: Let_def)
  qed
qed

lemma decode_i64_loop_encode:
  assumes "i \<le> 9" "x = drop_bit (i * 7) d" "neg \<or> x \<noteq> 0 \<or> v = 0" "neg \<longrightarrow> v OR push_bit (i * 7) x \<noteq> 0"
  shows "decode_i64_loop (11 - i) v (encode_i64_loop neg x @ rest) =
    Ok (if neg then - (v OR push_bit (i * 7) x) else v OR push_bit (i * 7) x, rest)"
  using assms
proof (induction "9 - i" arbitrary: i v x)
  case 0
  then have i: "i = 9" "x = drop_bit 63 d" by simp_all
  have "x < 128"
    unfolding i using unsigned_less [of d, where 'a = nat] unfolding word_less_nat_alt unat_drop_bit_eq by (simp add: drop_bit_eq_div)
  then have e: "encode_i64_loop neg x = (if neg then [128 OR ucast x, 0] else [ucast x])" by (simp add: encode_i64_loop.simps [of neg x])
  show ?case unfolding e by (rule decode_i64_last) (use 0 \<open>x < 128\<close> in auto)
next
  case (Suc k)
  show ?case
  proof (cases "x < 128")
    case True
    then have e: "encode_i64_loop neg x = (if neg then [128 OR ucast x, 0] else [ucast x])" by (simp add: encode_i64_loop.simps [of neg x])
    show ?thesis unfolding e by (rule decode_i64_last) (use Suc.prems True in auto)
  next
    case False
    have i: "11 - i = Suc (10 - i)" "10 - (10 - i) = i" "i * 7 mod 64 = i * 7" "11 - Suc i = 10 - i" using Suc.hyps(2) by simp_all
    have joined: "(v OR push_bit (i * 7) (x AND 127)) OR push_bit (Suc i * 7) (drop_bit 7 x) = v OR push_bit (i * 7) x"
      using join_groups [of "i * 7" x] by (simp add: or.assoc add.commute)
    have nz: "drop_bit 7 x \<noteq> 0"
    proof
      assume "drop_bit 7 x = 0"
      then have "unat (drop_bit 7 x) = 0" by simp
      then have "unat x div 128 = 0" unfolding unat_drop_bit_eq by (simp add: drop_bit_eq_div)
      then show False using False by (simp add: word_less_nat_alt)
    qed
    have "decode_i64_loop (11 - Suc i) (v OR push_bit (i * 7) (x AND 127)) (encode_i64_loop neg (drop_bit 7 x) @ rest) =
        Ok (if neg then - ((v OR push_bit (i * 7) (x AND 127)) OR push_bit (Suc i * 7) (drop_bit 7 x))
            else (v OR push_bit (i * 7) (x AND 127)) OR push_bit (Suc i * 7) (drop_bit 7 x), rest)"
      by (rule Suc.hyps(1)) (use Suc.hyps(2) Suc.prems nz joined in auto)
    then show ?thesis
      unfolding joined using False group_byte [of x] i by (simp add: encode_i64_loop.simps [of neg x] Let_def)
  qed
qed

lemma decode_encode_i64: "catalog_decode_i64 (catalog_encode_i64 v @ rest) = Ok (v, rest)"
proof (cases "sint v < 0")
  case True
  then have "v \<noteq> 0" by auto
  then show ?thesis using decode_i64_loop_encode [of 0 "- v" "- v" True 0 rest] True
    by (simp add: catalog_decode_i64_def catalog_encode_i64_def)
next
  case False
  then show ?thesis using decode_i64_loop_encode [of 0 v v False 0 rest]
    by (simp add: catalog_decode_i64_def catalog_encode_i64_def)
qed

section \<open>Round trips of directories\<close>

lemma entry_type_round_trip: "entry_type_of (entry_type_code t) = Ok t"
  by (cases t) (simp_all add: entry_type_of_def)

lemma unat_of_nat_u64 [simp]: "n < 2 ^ 64 \<Longrightarrow> unat (word_of_nat n :: u64) = n"
  by (simp add: unsigned_of_nat take_bit_eq_mod)

lemma read_exact_append: "read_exact (length a) (a @ b) = Ok (a, b)"
  by (simp add: read_exact_def)

fun decoded :: "DirEntry \<Rightarrow> u64 \<Rightarrow> CatalogEntryType \<times> bytes \<times> u64 \<times> u64 \<times> u64" where
  "decoded e pos =
     (attr_type (attr e), ename e, (case attr e of ADirectory st \<Rightarrow> pos - st | _ \<Rightarrow> 0),
      (case attr e of AFile sz mt \<Rightarrow> sz | _ \<Rightarrow> 0), (case attr e of AFile sz mt \<Rightarrow> mt | _ \<Rightarrow> 0))"

lemma decode_entry_encode:
  assumes "length (ename e) < 4096"
  shows "decode_entry (encode_entry e pos @ rest) = Ok (decoded e pos, rest)"
proof -
  let ?n = "word_of_nat (length (ename e)) :: u64"
  have n: "unat ?n = length (ename e)" using assms by simp
  have hdr: "decode_entry ((entry_type_code t # catalog_encode_u64 ?n @ ename e) @ more) =
      (case t of
         Directory \<Rightarrow> and_then (catalog_decode_u64 more) (\<lambda>(off, d4). Ok ((t, ename e, off, 0, 0), d4))
       | File \<Rightarrow> and_then (catalog_decode_u64 more) (\<lambda>(sz, d4).
                 and_then (catalog_decode_i64 d4) (\<lambda>(mt, d5). Ok ((t, ename e, 0, sz, mt), d5)))
       | _ \<Rightarrow> Ok ((t, ename e, 0, 0, 0), more))" for t more
    using assms n read_exact_append [of "ename e" more]
    by (simp add: decode_entry_def read_exact_def [of "Suc 0"] entry_type_round_trip decode_encode_u64)
  show ?thesis
    using hdr [of "attr_type (attr e)"]
    by (cases "attr e") (simp_all add: encode_entry_def Let_def decode_encode_u64 decode_encode_i64)
qed

lemma DirEntry_new_decoded:
  "decoded e pos = (t, name, off, sz, mt) \<Longrightarrow> DirEntry_new t name (pos - off) sz mt = e"
  by (cases "attr e") (auto simp: DirEntry_new_def)

lemma parse_loop_collect:
  "\<forall>e \<in> set es. length (ename e) < 4096 \<Longrightarrow>
   parse_loop (collect_entry pos) (length es) (concat (map (\<lambda>e. encode_entry e pos) es) @ rest) acc = (Ok (Some rest), acc @ es)"
proof (induction es arbitrary: acc)
  case (Cons e es)
  obtain t name off sz mt where d: "decoded e pos = (t, name, off, sz, mt)" by (cases "decoded e pos")
  then show ?case
    using Cons decode_entry_encode [of e pos "concat (map (\<lambda>e. encode_entry e pos) es) @ rest"] DirEntry_new_decoded [OF d]
    by (simp add: collect_entry_def del: decoded.simps)
qed simp

definition block_ok :: "DirEntry list \<Rightarrow> u64 \<Rightarrow> bool" where
  "block_ok es pos \<longleftrightarrow> length es < 2 ^ 64 \<and> (\<forall>e \<in> set es. length (ename e) < 4096) \<and>
     length (snd (dirinfo_encode \<lparr>dname = [], dentries = es\<rparr> pos)) < 2 ^ 64"

lemma dirinfo_encode_snd: "snd (dirinfo_encode d pos) = snd (dirinfo_encode \<lparr>dname = [], dentries = dentries d\<rparr> pos)"
  by (simp add: dirinfo_encode_def Let_def)

lemma read_dir_block:
  assumes "cat = pre @ snd (dirinfo_encode d st) @ post" "block_ok (dentries d) st" "unat st = length pre"
  shows "read_dir cat \<lparr>ename = name, attr = ADirectory st\<rparr> = Ok (dentries d)"
proof -
  define table where "table = catalog_encode_u64 (word_of_nat (length (dentries d))) @ concat (map (\<lambda>e. encode_entry e st) (dentries d))"
  have enc: "snd (dirinfo_encode d st) = catalog_encode_u64 (word_of_nat (length table)) @ table"
    by (simp add: dirinfo_encode_def table_def Let_def)
  have len: "length table < 2 ^ 64" using assms(2) enc dirinfo_encode_snd [of d st] by (simp add: block_ok_def)
  have pos: "0 < length table" by (simp add: table_def catalog_encode_u64.simps [of "word_of_nat (length (dentries d))"])
  have raw: "read_raw_dirinfo_block cat st = Ok table"
    using assms(1,3) enc len pos read_exact_append [of table post]
    by (simp add: read_raw_dirinfo_block_def decode_encode_u64 word_less_nat_alt)
  have "dirinfo_parse (collect_entry st) table [] = (Ok (), dentries d)"
    using assms(2) parse_loop_collect [of "dentries d" st "[]" "[]"]
    by (simp add: dirinfo_parse_def table_def decode_encode_u64 block_ok_def)
  then show ?thesis using raw by (simp add: read_dir_def)
qed

section \<open>Writing a tree\<close>

text \<open>
  A tree as the archiver walks it: every directory is started, its entries are added in order and it is
  ended. \<open>write_nodes\<close> are the calls of the writer for it.
\<close>

datatype node = Leaf DirEntry | Dir bytes "node list"

fun and_next :: "(err, unit) result \<times> CatalogWriter \<Rightarrow> (CatalogWriter \<Rightarrow> (err, unit) result \<times> CatalogWriter) \<Rightarrow> (err, unit) result \<times> CatalogWriter" where
  "and_next (Inl e, w) f = (Err e, w)"
| "and_next (Inr _, w) f = f w"

fun write_node :: "node \<Rightarrow> CatalogWriter \<Rightarrow> (err, unit) result \<times> CatalogWriter"
  and write_nodes :: "node list \<Rightarrow> CatalogWriter \<Rightarrow> (err, unit) result \<times> CatalogWriter" where
  "write_node (Leaf e) w = push_entry e w"
| "write_node (Dir name ts) w = and_next (start_directory name w) (\<lambda>w1. and_next (write_nodes ts w1) (end_directory None))"
| "write_nodes [] w = (Ok (), w)"
| "write_nodes (t # ts) w = and_next (write_node t w) (write_nodes ts)"

definition write_catalog :: "node list \<Rightarrow> (err, bytes) result" where
  "write_catalog ts =
     and_then (CatalogWriter_new None) (\<lambda>w.
       case and_next (write_nodes ts w) (catalog_finish None None None) of
         (Inl e, w1) \<Rightarrow> Err e
       | (Inr _, w1) \<Rightarrow> Ok (cw_out w1))"

fun node_ok :: "node \<Rightarrow> bool" where
  "node_ok (Leaf e) = (\<not> is_directory e \<and> length (ename e) < 4096)"
| "node_ok (Dir name ts) = (length name < 4096 \<and> (\<forall>t \<in> set ts. node_ok t))"

fun depth :: "node \<Rightarrow> nat" where
  "depth (Leaf e) = 0"
| "depth (Dir name ts) = Suc (foldr (max \<circ> depth) ts 0)"

text \<open>\<open>node_at cat t e\<close>: the entry \<open>e\<close> leads to the tree \<open>t\<close> in the catalog \<open>cat\<close>.\<close>

definition block_at :: "bytes \<Rightarrow> DirEntry list \<Rightarrow> u64 \<Rightarrow> bool" where
  "block_at cat es st \<longleftrightarrow> block_ok es st \<and>
     (\<exists>pre post. cat = pre @ snd (dirinfo_encode \<lparr>dname = [], dentries = es\<rparr> st) @ post \<and> unat st = length pre)"

fun node_at :: "bytes \<Rightarrow> node \<Rightarrow> DirEntry \<Rightarrow> bool"
  and nodes_at :: "bytes \<Rightarrow> node list \<Rightarrow> DirEntry list \<Rightarrow> bool" where
  "node_at cat (Leaf e') e \<longleftrightarrow> e = e' \<and> \<not> is_directory e"
| "node_at cat (Dir name ts) e \<longleftrightarrow>
     (\<exists>st es. e = \<lparr>ename = name, attr = ADirectory st\<rparr> \<and> block_at cat es st \<and> nodes_at cat ts es)"
| "nodes_at cat [] es \<longleftrightarrow> es = []"
| "nodes_at cat (t # ts) es \<longleftrightarrow> (\<exists>e es'. es = e # es' \<and> node_at cat t e \<and> nodes_at cat ts es')"

lemma block_at_append: "block_at cat es st \<Longrightarrow> block_at (cat @ ext) es st"
  unfolding block_at_def by (metis append.assoc)

lemma node_at_append: "node_at cat t e \<Longrightarrow> node_at (cat @ ext) t e"
  and nodes_at_append: "nodes_at cat ts es \<Longrightarrow> nodes_at (cat @ ext) ts es"
  by (induction cat t e and cat ts es rule: node_at_nodes_at.induct) (auto intro: block_at_append)

lemma nodes_at_snoc: "nodes_at cat ts es \<Longrightarrow> nodes_at cat us fs \<Longrightarrow> nodes_at cat (ts @ us) (es @ fs)"
  by (induction ts arbitrary: es) auto

lemma length_concat_encode: "length es \<le> length (concat (map (\<lambda>e. encode_entry e st) es))"
proof (induction es)
  case (Cons e es)
  have "1 \<le> length (encode_entry e st)" by (simp add: encode_entry_def Let_def split: DirEntryAttribute.split)
  then show ?case using Cons by simp
qed simp

lemma block_okI:
  assumes "length (snd (dirinfo_encode \<lparr>dname = n, dentries = es\<rparr> st)) < 2 ^ 64" "\<forall>e \<in> set es. length (ename e) < 4096"
  shows "block_ok es st"
  using assms length_concat_encode [of es st] by (simp add: block_ok_def dirinfo_encode_def Let_def)

text \<open>The writer counts its position, and what was written stays.\<close>

definition writer_ok :: "CatalogWriter \<Rightarrow> bool" where
  "writer_ok w \<longleftrightarrow> cw_pos w = word_of_nat (length (cw_out w))"

definition adds :: "CatalogWriter \<Rightarrow> DirEntry list \<Rightarrow> CatalogWriter \<Rightarrow> bool" where
  "adds w es w' \<longleftrightarrow> writer_ok w' \<and> (\<exists>more. cw_out w' = cw_out w @ more) \<and>
     (\<exists>d ds. dirstack w = d # ds \<and> dirstack w' = d\<lparr>dentries := dentries d @ es\<rparr> # ds)"

lemma adds_length: "adds w es w' \<Longrightarrow> length (cw_out w) \<le> length (cw_out w')"
  by (auto simp: adds_def)

lemma adds_trans: "adds w es w' \<Longrightarrow> adds w' fs w'' \<Longrightarrow> adds w (es @ fs) w''"
  by (auto simp: adds_def)

lemma push_entry_adds: "writer_ok w \<Longrightarrow> dirstack w \<noteq> [] \<Longrightarrow> \<exists>w'. push_entry e w = (Ok (), w') \<and> adds w [e] w' \<and> cw_out w' = cw_out w"
  by (auto simp: push_entry_def adds_def writer_ok_def neq_Nil_conv)

text \<open>Ending a directory writes its block and enters it in its parent.\<close>

lemma end_directory_adds:
  assumes "writer_ok w" "adds (w\<lparr>dirstack := DirInfo_new name # dirstack w\<rparr>) es w1" "dirstack w \<noteq> []"
  obtains w' where "end_directory None w1 = (Ok (), w')"
    "cw_out w' = cw_out w1 @ snd (dirinfo_encode \<lparr>dname = name, dentries = es\<rparr> (cw_pos w1))"
    "adds w [\<lparr>ename = name, attr = ADirectory (cw_pos w1)\<rparr>] w'"
proof -
  have st: "dirstack w1 = \<lparr>dname = name, dentries = es\<rparr> # dirstack w" and ok: "writer_ok w1"
    and pre: "\<exists>ext. cw_out w1 = cw_out w @ ext"
    using assms(2) by (auto simp: adds_def DirInfo_new_def)
  obtain d ds where w: "dirstack w = d # ds" using assms(3) by (cases "dirstack w") auto
  show ?thesis
    by (rule that [OF _ _ ], insert st ok pre w)
       (auto simp: end_directory_def dirinfo_encode_def Let_def catalog_write_all_def push_entry_def adds_def writer_ok_def)
qed

lemma dirinfo_encode_name: "snd (dirinfo_encode \<lparr>dname = n, dentries = es\<rparr> st) = snd (dirinfo_encode \<lparr>dname = [], dentries = es\<rparr> st)"
  using dirinfo_encode_snd [of "\<lparr>dname = n, dentries = es\<rparr>"] by simp

lemma written_block_at:
  assumes "writer_ok w" "out = cw_out w @ snd (dirinfo_encode \<lparr>dname = n, dentries = es\<rparr> (cw_pos w)) @ ext" "length out < 2 ^ 64"
    "\<forall>e \<in> set es. length (ename e) < 4096"
  shows "block_at out es (cw_pos w)"
proof -
  have "block_ok es (cw_pos w)" by (rule block_okI [of n]) (use assms in auto)
  moreover have "unat (cw_pos w) = length (cw_out w)" using assms by (simp add: writer_ok_def)
  ultimately show ?thesis unfolding block_at_def using assms(2) dirinfo_encode_name [of n] by auto
qed

lemma write_node_at:
  "node_ok t \<Longrightarrow> writer_ok w \<Longrightarrow> dirstack w \<noteq> [] \<Longrightarrow>
   \<exists>w' e. write_node t w = (Ok (), w') \<and> adds w [e] w' \<and> length (ename e) < 4096 \<and>
     (length (cw_out w') < 2 ^ 64 \<longrightarrow> node_at (cw_out w') t e)"
  and write_nodes_at:
  "\<forall>t \<in> set ts. node_ok t \<Longrightarrow> writer_ok w \<Longrightarrow> dirstack w \<noteq> [] \<Longrightarrow>
   \<exists>w' es. write_nodes ts w = (Ok (), w') \<and> adds w es w' \<and> (\<forall>e \<in> set es. length (ename e) < 4096) \<and>
     (length (cw_out w') < 2 ^ 64 \<longrightarrow> nodes_at (cw_out w') ts es)"
proof (induction t w and ts w rule: write_node_write_nodes.induct)
  case (1 e w)
  then show ?case using push_entry_adds [of w e] by auto
next
  case (2 name ts w)
  define w0 where "w0 = w\<lparr>dirstack := DirInfo_new name # dirstack w\<rparr>"
  have s: "start_directory name w = (Ok (), w0)" by (simp add: start_directory_def w0_def)
  have "writer_ok w0" "dirstack w0 \<noteq> []" using 2 by (simp_all add: w0_def writer_ok_def)
  then obtain w1 es where w1: "write_nodes ts w0 = (Ok (), w1)" "adds w0 es w1" "\<forall>e \<in> set es. length (ename e) < 4096"
      "length (cw_out w1) < 2 ^ 64 \<longrightarrow> nodes_at (cw_out w1) ts es"
    using 2(1) [of w0] 2(2) by auto
  obtain w' where w': "end_directory None w1 = (Ok (), w')"
      "cw_out w' = cw_out w1 @ snd (dirinfo_encode \<lparr>dname = name, dentries = es\<rparr> (cw_pos w1))"
      "adds w [\<lparr>ename = name, attr = ADirectory (cw_pos w1)\<rparr>] w'"
    using end_directory_adds [of w name es w1] 2 w1 by (auto simp: w0_def)
  have "writer_ok w1" using w1(2) by (simp add: adds_def)
  then have "node_at (cw_out w') (Dir name ts) \<lparr>ename = name, attr = ADirectory (cw_pos w1)\<rparr>" if "length (cw_out w') < 2 ^ 64"
    using that w1 w'(2) written_block_at [of w1 "cw_out w'" name es "[]"] by (auto intro: nodes_at_append)
  then show ?case using s w1 w' 2 by (auto simp: w0_def [symmetric])
next
  case (3 w)
  then have "adds w [] w" by (auto simp: adds_def neq_Nil_conv)
  then show ?case by auto
next
  case (4 t ts w)
  obtain w1 e where w1: "write_node t w = (Ok (), w1)" "adds w [e] w1" "length (ename e) < 4096"
      "length (cw_out w1) < 2 ^ 64 \<longrightarrow> node_at (cw_out w1) t e"
    using 4(1,3-5) by auto
  then have "writer_ok w1" "dirstack w1 \<noteq> []" by (auto simp: adds_def)
  then obtain w' es where w': "write_nodes ts w1 = (Ok (), w')" "adds w1 es w'" "\<forall>e \<in> set es. length (ename e) < 4096"
      "length (cw_out w') < 2 ^ 64 \<longrightarrow> nodes_at (cw_out w') ts es"
    using 4(2) [of w1] 4(3) by auto
  have "node_at (cw_out w') t e" if "length (cw_out w') < 2 ^ 64"
    using w1(4) that adds_length [OF w'(2)] w'(2) by (auto simp: adds_def intro: node_at_append)
  then have "adds w (e # es) w' \<and> (\<forall>x \<in> set (e # es). length (ename x) < 4096) \<and>
      (length (cw_out w') < 2 ^ 64 \<longrightarrow> nodes_at (cw_out w') (t # ts) (e # es))"
    using w1(3) w' adds_trans [OF w1(2) w'(2)] by simp
  then show ?case using w1(1) w'(1) by (intro exI [of _ w'] exI [of _ "e # es"]) simp
qed

text \<open>A written catalog: its root entry leads to the whole tree.\<close>

lemma write_catalog_root:
  assumes "\<forall>t \<in> set ts. node_ok t" "write_catalog ts = Ok cat" "length cat < 2 ^ 64"
  shows "\<exists>root es. catalog_root cat = Ok root \<and> read_dir cat root = Ok es \<and> is_directory root \<and> nodes_at cat ts es"
proof -
  define w where "w = \<lparr>cw_out = PROXMOX_CATALOG_FILE_MAGIC_1_0, dirstack = [new_rootdir], cw_pos = 8\<rparr>"
  have new: "CatalogWriter_new None = Ok w"
    by (simp add: CatalogWriter_new_def catalog_write_all_def w_def PROXMOX_CATALOG_FILE_MAGIC_1_0_def)
  have "writer_ok w" "dirstack w \<noteq> []" by (simp_all add: w_def writer_ok_def PROXMOX_CATALOG_FILE_MAGIC_1_0_def)
  then obtain w1 es where w1: "write_nodes ts w = (Ok (), w1)" "adds w es w1" "\<forall>e \<in> set es. length (ename e) < 4096"
      "length (cw_out w1) < 2 ^ 64 \<longrightarrow> nodes_at (cw_out w1) ts es"
    using write_nodes_at [of ts w] assms(1) by auto
  have st: "dirstack w1 = [\<lparr>dname = [0x2F], dentries = es\<rparr>]" and ok: "writer_ok w1"
    and pre: "\<exists>ext. cw_out w1 = PROXMOX_CATALOG_FILE_MAGIC_1_0 @ ext"
    using w1(2) by (auto simp: adds_def w_def new_rootdir_def DirInfo_new_def)
  have cat: "cat = cw_out w1 @ snd (dirinfo_encode \<lparr>dname = [0x2F], dentries = es\<rparr> (cw_pos w1)) @ le_bytes 8 (unat (cw_pos w1))"
    using assms(2) w1(1) st by (simp add: write_catalog_def new catalog_finish_def catalog_write_all_def Let_def)
  have root: "catalog_root cat = Ok \<lparr>ename = [], attr = ADirectory (cw_pos w1)\<rparr>"
  proof -
    have "length PROXMOX_CATALOG_FILE_MAGIC_1_0 = 8" by (simp add: PROXMOX_CATALOG_FILE_MAGIC_1_0_def)
    then have "read_exact 8 cat = Ok (PROXMOX_CATALOG_FILE_MAGIC_1_0, drop 8 cat)"
      using pre cat by (auto simp: read_exact_def)
    moreover have "le_nat (drop (length cat - 8) cat) = unat (cw_pos w1)"
      using unsigned_less [of "cw_pos w1", where 'a = nat] by (simp add: cat)
    ultimately show ?thesis by (simp add: catalog_root_def)
  qed
  have "block_at cat es (cw_pos w1)"
    by (rule written_block_at [OF ok cat]) (use assms w1 in auto)
  then have "read_dir cat \<lparr>ename = [], attr = ADirectory (cw_pos w1)\<rparr> = Ok es"
    using read_dir_block [of cat _ "\<lparr>dname = [], dentries = es\<rparr>"] by (fastforce simp: block_at_def)
  moreover have "nodes_at cat ts es"
    using w1(4) assms(3) cat nodes_at_append by auto
  ultimately show ?thesis using root by (auto simp: is_directory_def)
qed

section \<open>Searching a written catalog\<close>

text \<open>
  The search that \<^verbatim>\<open>find\<close> promises, on the tree itself: entries in the order in which they were added, parents
  before what they contain, nothing below an excluded entry, and the first error of the callback ends it.
\<close>

definition sub_path :: "bytes \<Rightarrow> bytes \<Rightarrow> bytes" where
  "sub_path dir name = dir @ (if name \<noteq> [] \<and> hd name = 0x2F then [] else [0x2F]) @ name"

definition visit ::
  "(bytes \<Rightarrow> nat option \<Rightarrow> (err, MatchType option) result) \<Rightarrow> (bytes \<Rightarrow> 's \<Rightarrow> (err, unit) result \<times> 's) \<Rightarrow>
   bytes \<Rightarrow> nat option \<Rightarrow> 's \<Rightarrow> (bool \<times> (err, unit) result \<times> 's)" where
  "visit match cb path m s =
     (if match path m = Ok (Some Exclude) then (False, Ok (), s)
      else (True, if match path m = Ok (Some Include) then cb path s else (Ok (), s)))"

fun search ::
  "(CatalogEntryType \<Rightarrow> nat) \<Rightarrow> (bytes \<Rightarrow> nat option \<Rightarrow> (err, MatchType option) result) \<Rightarrow>
   (bytes \<Rightarrow> 's \<Rightarrow> (err, unit) result \<times> 's) \<Rightarrow> bytes \<Rightarrow> node \<Rightarrow> 's \<Rightarrow> (err, unit) result \<times> 's"
  and search_all ::
  "(CatalogEntryType \<Rightarrow> nat) \<Rightarrow> (bytes \<Rightarrow> nat option \<Rightarrow> (err, MatchType option) result) \<Rightarrow>
   (bytes \<Rightarrow> 's \<Rightarrow> (err, unit) result \<times> 's) \<Rightarrow> bytes \<Rightarrow> node list \<Rightarrow> 's \<Rightarrow> (err, unit) result \<times> 's" where
  "search mode match cb dir (Leaf e) s = snd (visit match cb (sub_path dir (ename e)) (get_file_mode mode e) s)"
| "search mode match cb dir (Dir name ts) s =
     (case visit match cb (sub_path dir name) (Some (mode Directory)) s of
        (True, Inr _, s1) \<Rightarrow> search_all mode match cb (sub_path dir name) ts s1
      | (_, r) \<Rightarrow> r)"
| "search_all mode match cb dir [] s = (Ok (), s)"
| "search_all mode match cb dir (t # ts) s =
     (case search mode match cb dir t s of
        (Inl e, s1) \<Rightarrow> (Err e, s1)
      | (Inr _, s1) \<Rightarrow> search_all mode match cb dir ts s1)"

text \<open>One step of the loop of \<^verbatim>\<open>find\<close>, for an entry that is a leaf and for a directory.\<close>

lemma find_entries_Cons:
  "find_entries rec mode match cb n (e # es) path s =
     (let p = sub_path (take n path) (ename e) in
      case visit match cb p (get_file_mode mode e) s of
        (False, _) \<Rightarrow> find_entries rec mode match cb n es p s
      | (True, Inl err, s1) \<Rightarrow> Some (Err err, p, s1)
      | (True, Inr _, s1) \<Rightarrow>
          if is_directory e then
            (case rec e p s1 of
               None \<Rightarrow> None
             | Some (Inl err, path2, s2) \<Rightarrow> Some (Err err, path2, s2)
             | Some (Inr _, path2, s2) \<Rightarrow> find_entries rec mode match cb n es path2 s2)
          else find_entries rec mode match cb n es p s1)"
  by (simp add: visit_def sub_path_def Let_def split: sum.split prod.split)

declare find_entries.simps(2) [simp del]

lemma take_sub_path [simp]: "take (length dir) (sub_path dir name) = dir"
  by (simp add: sub_path_def)

text \<open>What a search returns: the result and the state of the tree search, and its path unless it failed.\<close>

definition found :: "((err, unit) result \<times> bytes \<times> 's) option \<Rightarrow> bytes \<Rightarrow> (err, unit) result \<times> 's \<Rightarrow> bool" where
  "found r dir expected \<longleftrightarrow> (\<exists>path. r = Some (fst expected, path, snd expected) \<and> (is_ok (fst expected) \<longrightarrow> path = dir))"

lemma read_dir_block_at: "block_at cat es st \<Longrightarrow> read_dir cat \<lparr>ename = name, attr = ADirectory st\<rparr> = Ok es"
  using read_dir_block [of cat _ "\<lparr>dname = [], dentries = es\<rparr>"] by (fastforce simp: block_at_def)

lemma depth_child: "t \<in> set ts \<Longrightarrow> depth t < depth (Dir name ts)"
proof -
  assume "t \<in> set ts"
  then have "depth t \<le> foldr (max \<circ> depth) ts 0" by (induction ts) auto
  then show ?thesis by simp
qed

text \<open>One entry: \<open>sub\<close> is what the search below it gives, \<open>rest\<close> what the entries after it give.\<close>

lemma found_step:
  assumes "take (length dir) path = dir" "p = sub_path dir (ename e)"
    "\<And>s1. found (if is_directory e then rec e p s1 else Some (Ok (), p, s1)) p (sub s1)"
    "\<And>path' s'. take (length dir) path' = dir \<Longrightarrow> found (find_entries rec mode match cb (length dir) es path' s') dir (rest s')"
  shows "found (find_entries rec mode match cb (length dir) (e # es) path s) dir
    (case (case visit match cb p (get_file_mode mode e) s of (True, Inr _, s1) \<Rightarrow> sub s1 | (_, r) \<Rightarrow> r) of
       (Inl err, s1) \<Rightarrow> (Err err, s1)
     | (Inr _, s1) \<Rightarrow> rest s1)"
proof -
  obtain go r s1 where v: "visit match cb p (get_file_mode mode e) s = (go, r, s1)" by (cases "visit match cb p (get_file_mode mode e) s") auto
  have skip: "\<not> go \<Longrightarrow> r = Ok () \<and> s1 = s" using v by (auto simp: visit_def split: if_splits)
  have p: "take (length dir) p = dir" by (simp add: assms(2))
  obtain r2 s2 where q: "sub s1 = (r2, s2)" by fastforce
  then obtain path2 where f: "(if is_directory e then rec e p s1 else Some (Ok (), p, s1)) = Some (r2, path2, s2)" "is_ok r2 \<longrightarrow> path2 = p"
    using assms(3) [of s1] by (auto simp: found_def)
  note step = find_entries_Cons [of rec mode match cb "length dir" e es path s, unfolded assms(1) assms(2) [symmetric] v Let_def]
  consider (skip) "\<not> go" | (err) e' where "go" "r = Err e'" | (below) "go" "r = Ok ()" by (cases go; cases r) auto
  then show ?thesis
  proof cases
    case skip
    then show ?thesis using step \<open>\<not> go \<Longrightarrow> r = Ok () \<and> s1 = s\<close> v assms(4) [OF p, of s] by simp
  next
    case err
    then show ?thesis using step v by (simp add: found_def)
  next
    case below
    show ?thesis
    proof (cases "is_directory e")
      case True
      then show ?thesis using step v q f below assms(4) [OF p, of s2] by (cases r2) (simp_all add: found_def)
    next
      case False
      then show ?thesis using step v q f below assms(4) [OF p, of s2] by (auto simp: found_def)
    qed
  qed
qed

lemma find_nodes:
  "nodes_at cat ts es \<Longrightarrow> \<forall>t \<in> set ts. depth t \<le> n \<Longrightarrow> take (length dir) path = dir \<Longrightarrow>
   found (find_entries (catalog_find n cat mode match cb) mode match cb (length dir) es path s) dir (search_all mode match cb dir ts s)"
proof (induction n arbitrary: ts es dir path s rule: less_induct)
  case (less n)
  show ?case
    using less.prems
  proof (induction ts arbitrary: es path s)
    case Nil
    then show ?case by (simp add: found_def)
  next
    case (Cons t ts)
    obtain e es' where es: "es = e # es'" "node_at cat t e" "nodes_at cat ts es'" using Cons.prems by auto
    define p where "p = sub_path dir (ename e)"
    define us where "us = (case t of Leaf _ \<Rightarrow> [] | Dir _ us \<Rightarrow> us)"
    have sub: "found (if is_directory e then catalog_find n cat mode match cb e p s1 else Some (Ok (), p, s1)) p (search_all mode match cb p us s1)" for s1
    proof (cases t)
      case (Leaf e')
      then show ?thesis using es(2) by (auto simp: us_def found_def)
    next
      case (Dir name vs)
      obtain st fs where d: "e = \<lparr>ename = name, attr = ADirectory st\<rparr>" "block_at cat fs st" "nodes_at cat vs fs"
        using es(2) Dir by auto
      obtain k where k: "n = Suc k" "\<forall>u \<in> set vs. depth u \<le> k"
        using Cons.prems(2) depth_child [of _ vs name] Dir by (cases n) fastforce+
      then show ?thesis
        using less.IH [of k vs fs p p] d(3) read_dir_block_at [OF d(2)] Dir by (simp add: d(1) us_def is_directory_def)
    qed
    have "search mode match cb dir t s = (case visit match cb p (get_file_mode mode e) s of (True, Inr _, s1) \<Rightarrow> search_all mode match cb p us s1 | (_, r) \<Rightarrow> r)"
      using es(2) by (cases t) (auto simp: p_def us_def get_file_mode_def split: prod.split bool.split sum.split)
    moreover have "found (find_entries (catalog_find n cat mode match cb) mode match cb (length dir) (e # es') path s) dir
      (case (case visit match cb p (get_file_mode mode e) s of (True, Inr _, s1) \<Rightarrow> search_all mode match cb p us s1 | (_, r) \<Rightarrow> r) of
         (Inl err, s1) \<Rightarrow> (Err err, s1)
       | (Inr _, s1) \<Rightarrow> search_all mode match cb dir ts s1)"
      by (rule found_step [OF Cons.prems(3) p_def]) (use sub Cons.IH [OF es(3)] Cons.prems(2) in auto)
    ultimately show ?case using es(1) by simp
  qed
qed

text \<open>
  C20. A catalog written for a tree is found again: the reader opens it at its root, and \<^verbatim>\<open>find\<close> from there
  returns, for every match list and every callback, what the search of the tree gives, with the entries in
  the order in which they were added. Its nested calls are no more than the tree is deep.
\<close>

theorem catalog_find_refines:
  assumes "\<forall>t \<in> set ts. node_ok t" "write_catalog ts = Ok cat" "length cat < 2 ^ 64"
  shows "\<exists>root. catalog_root cat = Ok root \<and>
    found (catalog_find (depth (Dir [] ts)) cat mode match cb root [] s) [] (search_all mode match cb [] ts s)"
proof -
  obtain root es where r: "catalog_root cat = Ok root" "read_dir cat root = Ok es" "nodes_at cat ts es"
    using write_catalog_root [OF assms] by auto
  have "\<forall>t \<in> set ts. depth t \<le> foldr (max \<circ> depth) ts 0" using depth_child [of _ ts "[]"] by fastforce
  then show ?thesis
    using r(1,2) find_nodes [OF r(3), of "foldr (max \<circ> depth) ts 0" "[]" "[]"] by simp
qed

definition sample_tree :: "node list" where
  "sample_tree =
     [Leaf \<lparr>ename = [0x61], attr = AFile 300 (- 5)\<rparr>,
      Dir [0x64] [Leaf \<lparr>ename = [0x62], attr = ASymlink\<rparr>]]"

definition sample_catalog :: bytes where
  "sample_catalog =
     [145, 253, 96, 249, 196, 103, 88, 213, 4, 1, 108, 1, 98, 12, 2, 102, 1, 97, 172, 2, 133, 0, 100, 1, 100, 5,
      13, 0, 0, 0, 0, 0, 0, 0]"

theorem catalog_find_refines_witness:
  "\<exists>root path. catalog_root sample_catalog = Ok root \<and>
     catalog_find (depth (Dir [] sample_tree)) sample_catalog (\<lambda>_. 0) (\<lambda>_ _. Ok (Some Include)) (\<lambda>p ps. (Ok (), ps @ [p])) root [] [] =
       Some (Ok (), path, [[0x2F, 0x61], [0x2F, 0x64], [0x2F, 0x64, 0x2F, 0x62]])"
proof -
  have "\<forall>t \<in> set sample_tree. node_ok t" by (simp add: sample_tree_def is_directory_def)
  moreover have "write_catalog sample_tree = Ok sample_catalog" by code_simp
  moreover have "length sample_catalog < 2 ^ 64" by (simp add: sample_catalog_def)
  moreover have "search_all (\<lambda>_. 0) (\<lambda>_ _. Ok (Some Include)) (\<lambda>p ps. (Ok (), ps @ [p])) [] sample_tree [] =
      (Ok (), [[0x2F, 0x61], [0x2F, 0x64], [0x2F, 0x64, 0x2F, 0x62]])"
    by (simp add: sample_tree_def visit_def sub_path_def)
  ultimately show ?thesis
    using catalog_find_refines [of sample_tree sample_catalog "\<lambda>_. 0" "\<lambda>_ _. Ok (Some Include)" "\<lambda>p ps. (Ok (), ps @ [p])" "[]"]
    by (auto simp: found_def)
qed

text \<open>
  The integers of a catalog are read back: every \<^verbatim>\<open>u64\<close> and every \<^verbatim>\<open>i64\<close>, the least one included, is decoded to
  itself with what follows it left unread.
\<close>

theorem catalog_varint_round_trip:
  "catalog_decode_u64 (catalog_encode_u64 n @ rest) = Ok (n, rest) \<and>
   catalog_decode_i64 (catalog_encode_i64 i @ rest) = Ok (i, rest)"
  by (simp add: decode_encode_u64 decode_encode_i64)

definition cyclic_catalog :: bytes where
  "cyclic_catalog = PROXMOX_CATALOG_FILE_MAGIC_1_0 @ [5, 1, 0x64, 1, 0x61, 0] @ le_bytes 8 8"

lemma cyclic_read_dir: "read_dir cyclic_catalog \<lparr>ename = name, attr = ADirectory 8\<rparr> = Ok [\<lparr>ename = [0x61], attr = ADirectory 8\<rparr>]"
proof -
  have "read_raw_dirinfo_block cyclic_catalog 8 = Ok [1, 0x64, 1, 0x61, 0]" by code_simp
  moreover have "dirinfo_parse (collect_entry 8) [1, 0x64, 1, 0x61, 0] [] = (Ok (), [\<lparr>ename = [0x61], attr = ADirectory 8\<rparr>])" by code_simp
  ultimately show ?thesis by (simp add: read_dir_def)
qed

text \<open>
  \<^verbatim>\<open>find\<close> need not return on a catalog that no writer made: in one whose directory entry has offset 0 a
  directory contains itself, and no number of nested calls is enough, whatever the match list is, unless it
  excludes the path, and whatever the callback does, unless it fails. The offset is not checked.
\<close>

theorem catalog_find_may_diverge:
  assumes "\<And>path m. match path m \<noteq> Ok (Some Exclude)" "\<And>path s. is_ok (fst (cb path s))"
  shows "\<exists>root. catalog_root cyclic_catalog = Ok root \<and> (\<forall>n path s. catalog_find n cyclic_catalog mode match cb root path s = None)"
proof -
  have root: "catalog_root cyclic_catalog = Ok \<lparr>ename = [], attr = ADirectory 8\<rparr>" by code_simp
  have "catalog_find n cyclic_catalog mode match cb \<lparr>ename = name, attr = ADirectory 8\<rparr> path s = None" for n name path s
  proof (induction n arbitrary: name path s)
    case (Suc n)
    have "\<exists>s1. visit match cb p m s = (True, Ok (), s1)" for p m
      using assms(1) [of p m] assms(2) [of p s] by (cases "cb p s") (auto simp: visit_def is_ok_iff)
    then obtain s1 where "visit match cb (sub_path path [0x61]) (Some (mode Directory)) s = (True, Ok (), s1)" by blast
    then show ?case
      using Suc by (simp add: cyclic_read_dir find_entries_Cons get_file_mode_def is_directory_def)
  qed simp
  then show ?thesis using root by blast
qed

theorem catalog_find_may_diverge_witness:
  "\<exists>root. catalog_root cyclic_catalog = Ok root \<and>
     (\<forall>n. catalog_find n cyclic_catalog (\<lambda>_. 0) (\<lambda>_ _. Ok (Some Include)) (\<lambda>p ps. (Ok (), p # ps)) root [] [] = None)"
  using catalog_find_may_diverge [of "\<lambda>_ _. Ok (Some Include)" "\<lambda>p ps. (Ok (), p # ps)" "\<lambda>_. 0"] by auto

end
