(* ===== verification/StrTools.thy ===== *)
theory StrTools
  imports Prelude
begin

text \<open>
  The operations of \<^verbatim>\<open>str\<close> that the parsers of the sources use (\<^verbatim>\<open>split\<close>, \<^verbatim>\<open>trim\<close>, \<^verbatim>\<open>lines\<close>, \<^verbatim>\<open>join\<close>) and how they undo each
  other. Strings are lists of ASCII characters, so white space is what \<^verbatim>\<open>char::is_whitespace\<close> accepts there.
\<close>

section \<open>Splitting and joining\<close>

text \<open>\<^verbatim>\<open>str::split(char)\<close>: the pieces between the separators, one more than there are separators.\<close>

fun split_on :: "char \<Rightarrow> string \<Rightarrow> string list" where
  "split_on c [] = [[]]"
| "split_on c (x # xs) =
     (if x = c then [] # split_on c xs
      else (case split_on c xs of [] \<Rightarrow> [[x]] | p # ps \<Rightarrow> (x # p) # ps))"

fun join_with :: "char \<Rightarrow> string list \<Rightarrow> string" where
  "join_with c [] = []"
| "join_with c [s] = s"
| "join_with c (s # ss) = s @ c # join_with c ss"

lemma split_on_not_Nil [simp]: "split_on c s \<noteq> []"
  by (induction s) (auto split: list.splits)

lemma split_on_plain: "c \<notin> set s \<Longrightarrow> split_on c s = [s]"
  by (induction s) auto

lemma split_on_append: "c \<notin> set s \<Longrightarrow> split_on c (s @ c # rest) = s # split_on c rest"
  by (induction s) auto

lemma split_on_no_sep: "p \<in> set (split_on c s) \<Longrightarrow> c \<notin> set p"
  by (induction s arbitrary: p) (auto split: list.splits if_splits)

lemma split_on_join: "ss \<noteq> [] \<Longrightarrow> \<forall>s \<in> set ss. c \<notin> set s \<Longrightarrow> split_on c (join_with c ss) = ss"
  by (induction c ss rule: join_with.induct) (simp_all add: split_on_plain split_on_append)

lemma set_join_with: "set (join_with c ss) \<subseteq> insert c (\<Union>s \<in> set ss. set s)"
  by (induction c ss rule: join_with.induct) auto

lemma join_with_inj:
  "ss \<noteq> [] \<Longrightarrow> ts \<noteq> [] \<Longrightarrow> \<forall>s \<in> set ss. c \<notin> set s \<Longrightarrow> \<forall>s \<in> set ts. c \<notin> set s \<Longrightarrow>
   join_with c ss = join_with c ts \<longleftrightarrow> ss = ts"
  using split_on_join [of ss c] split_on_join [of ts c] by metis

text \<open>The fold that writes a separator unless the text so far is empty.\<close>

definition push_sep :: "char \<Rightarrow> string \<Rightarrow> string \<Rightarrow> string" where
  "push_sep c acc v = (if acc \<noteq> [] then acc @ [c] else acc) @ v"

lemma foldl_push_sep:
  "acc \<noteq> [] \<Longrightarrow> foldl (push_sep c) acc ss = join_with c (acc # ss)"
proof (induction ss arbitrary: acc)
  case (Cons s ss)
  have "push_sep c acc s = acc @ c # s" using Cons.prems by (simp add: push_sep_def)
  then have "foldl (push_sep c) acc (s # ss) = join_with c ((acc @ c # s) # ss)" using Cons.IH [of "acc @ c # s"] by simp
  also have "\<dots> = join_with c (acc # s # ss)" by (cases ss) simp_all
  finally show ?case .
qed simp

lemma fold_push_sep: "\<forall>s \<in> set ss. s \<noteq> [] \<Longrightarrow> foldl (push_sep c) [] ss = join_with c ss"
  by (cases ss) (simp_all add: push_sep_def foldl_push_sep)

section \<open>White space\<close>

definition is_ws :: "char \<Rightarrow> bool" where
  "is_ws c \<longleftrightarrow> c = CHR 0x20 \<or> (of_char c \<ge> (9 :: nat) \<and> of_char c \<le> (13 :: nat))"

definition str_trim :: "string \<Rightarrow> string" where
  "str_trim s = rev (dropWhile is_ws (rev (dropWhile is_ws s)))"

lemma str_trim_id: "s = [] \<or> \<not> is_ws (hd s) \<and> \<not> is_ws (last s) \<Longrightarrow> str_trim s = s"
proof -
  assume s: "s = [] \<or> \<not> is_ws (hd s) \<and> \<not> is_ws (last s)"
  then have "dropWhile is_ws s = s" "dropWhile is_ws (rev s) = rev s" by (auto simp: dropWhile_eq_self_iff hd_rev)
  then show ?thesis by (simp add: str_trim_def)
qed

lemma str_trim_plain: "\<forall>c \<in> set s. \<not> is_ws c \<Longrightarrow> str_trim s = s"
  by (rule str_trim_id) (cases s; simp)

section \<open>Lines\<close>

text \<open>\<^verbatim>\<open>str::lines\<close>: the last line end is optional, and a carriage return before a line end is dropped.\<close>

definition strip_cr :: "string \<Rightarrow> string" where
  "strip_cr s = (if s \<noteq> [] \<and> last s = CHR 13 then butlast s else s)"

definition str_lines :: "string \<Rightarrow> string list" where
  "str_lines s =
     (let ls = split_on (CHR 10) s in
      map strip_cr (butlast ls) @ (if last ls = [] then [] else [last ls]))"

lemma split_on_concat_lines:
  "\<forall>l \<in> set ls. c \<notin> set l \<Longrightarrow> split_on c (concat (map (\<lambda>l. l @ [c]) ls)) = ls @ [[]]"
  by (induction ls) (simp_all add: split_on_append)

lemma str_lines_concat:
  assumes "\<forall>l \<in> set ls. CHR 10 \<notin> set l \<and> (l = [] \<or> last l \<noteq> CHR 13)"
  shows "str_lines (concat (map (\<lambda>l. l @ [CHR 10]) ls)) = ls"
proof -
  have "map strip_cr ls = ls" using assms by (intro map_idI) (auto simp: strip_cr_def)
  then show ?thesis using split_on_concat_lines [of ls "CHR 10"] assms by (simp add: str_lines_def Let_def)
qed

end
