(* ===== verification/Acl.thy ===== *)
theory Acl
  imports StrTools "HOL-Library.List_Lexorder" "HOL-Library.Char_ord"
begin

text \<open>
  Access control: the ACL tree with its file format (\<^verbatim>\<open>pbs-config/src/acl.rs\<close>) and the privileges of users and
  tokens (\<^verbatim>\<open>pbs-config/src/cached_user_info.rs\<close>). A \<^verbatim>\<open>HashMap\<close> is an association list whose order is that of its
  iteration, so theorems about every list hold for every order; a \<^verbatim>\<open>BTreeMap\<close> or \<^verbatim>\<open>BTreeSet\<close> is a list kept in
  order by its insertions. \<^verbatim>\<open>Authid\<close>, \<^verbatim>\<open>Userid\<close> and the table of roles belong to another crate: they are the
  parameter \<open>api\<close>. The files' locks, caches and access rights are left out.
\<close>

unbundle bit_operations_syntax

section \<open>Interface of pbs-api-types\<close>

record ('a, 'u) api_types =
  is_token :: "'a \<Rightarrow> bool"
  auth_user :: "'a \<Rightarrow> 'u"
  from_user :: "'u \<Rightarrow> 'a"
  root_userid :: 'u
  auth_to_string :: "'a \<Rightarrow> string"
  auth_parse :: "string \<Rightarrow> (err, 'a) result"
  ROLE_NAME_NO_ACCESS :: string
  ROLE_NAMES :: "string \<Rightarrow> u64 option"
  ROLE_ADMIN :: u64
  MAX_NAMESPACE_DEPTH :: nat

section \<open>Paths\<close>

definition split_acl_path :: "string \<Rightarrow> string list" where
  "split_acl_path path = filter (\<lambda>name. name \<noteq> []) (split_on (CHR ''/'') path)"

definition check_acl_path :: "nat \<Rightarrow> string \<Rightarrow> (err, unit) result" where
  "check_acl_path depth path =
     (let cs = split_acl_path path; n = length cs;
          ok = (if n = 0 then True
            else if cs ! 0 = ''access'' then
              (if n = 1 then True
               else if cs ! 1 \<in> {''acl'', ''users'', ''domains''} then n = 2
               else if cs ! 1 = ''openid'' then n \<le> 3
               else False)
            else if cs ! 0 = ''datastore'' then n \<le> 2 + depth
            else if cs ! 0 = ''remote'' then n \<le> 3 + depth
            else if cs ! 0 = ''system'' then
              (if n = 1 then True
               else if cs ! 1 \<in> {''certificates'', ''disks'', ''log'', ''notifications'', ''status'', ''tasks'', ''time''} then n = 2
               else if cs ! 1 = ''services'' then n \<le> 3
               else if cs ! 1 = ''network'' then
                 (if n = 2 then True
                  else if cs ! 2 = ''dns'' then n = 3
                  else if cs ! 2 = ''interfaces'' then n \<le> 4
                  else False)
               else if cs ! 1 \<in> {''s3-endpoint'', ''encryption-keys''} then n \<le> 3
               else False)
            else if cs ! 0 = ''tape'' then
              (if n = 1 then True
               else if cs ! 1 = ''device'' then n \<le> 3
               else if cs ! 1 = ''pool'' then n \<le> 3
               else if cs ! 1 = ''job'' then n \<le> 3
               else False)
            else False)
      in if ok then Ok () else Err ''invalid acl path'')"

section \<open>Nodes\<close>

type_synonym roles = "(string \<times> bool) list"

datatype 'a AclTreeNode = AclTreeNode
  (users: "('a \<times> roles) list")
  (groups: "(string \<times> roles) list")
  (children: "(string \<times> 'a AclTreeNode) list")

definition AclTreeNode_new :: "'a AclTreeNode" where
  "AclTreeNode_new = AclTreeNode [] [] []"

text \<open>The loop over the roles of a user or group, with the early return for \<open>NoAccess\<close> as \<open>Inl\<close>.\<close>

fun collect_roles :: "string \<Rightarrow> bool \<Rightarrow> roles \<Rightarrow> roles \<Rightarrow> roles + roles" where
  "collect_roles na leaf m [] = Inr m"
| "collect_roles na leaf m ((role, propagate) # rs) =
     (if propagate \<or> leaf then
        (if role = na then Inl [(role, False)] else collect_roles na leaf (AList.update role propagate m) rs)
      else collect_roles na leaf m rs)"

definition extract_user_roles :: "('a, 'u) api_types \<Rightarrow> 'a AclTreeNode \<Rightarrow> 'a \<Rightarrow> bool \<Rightarrow> roles" where
  "extract_user_roles api node auth_id leaf =
     (case map_of (users node) auth_id of
        None \<Rightarrow> []
      | Some rs \<Rightarrow> (case collect_roles (ROLE_NAME_NO_ACCESS api) leaf [] rs of Inl m \<Rightarrow> m | Inr m \<Rightarrow> m))"

text \<open>Nobody is a member of a group yet: \<open>is_member\<close> is the constant of the source.\<close>

fun extract_group_loop :: "string \<Rightarrow> bool \<Rightarrow> roles \<Rightarrow> (string \<times> roles) list \<Rightarrow> roles" where
  "extract_group_loop na leaf m [] = m"
| "extract_group_loop na leaf m ((grp, rs) # gs) =
     (let is_member = False in
      if \<not> is_member then extract_group_loop na leaf m gs
      else (case collect_roles na leaf m rs of Inl r \<Rightarrow> r | Inr m' \<Rightarrow> extract_group_loop na leaf m' gs))"

definition extract_group_roles :: "('a, 'u) api_types \<Rightarrow> 'a AclTreeNode \<Rightarrow> 'u \<Rightarrow> bool \<Rightarrow> roles" where
  "extract_group_roles api node userid leaf = extract_group_loop (ROLE_NAME_NO_ACCESS api) leaf [] (groups node)"

definition extract_roles :: "('a, 'u) api_types \<Rightarrow> 'a AclTreeNode \<Rightarrow> 'a \<Rightarrow> bool \<Rightarrow> roles" where
  "extract_roles api node auth_id leaf =
     (let user_roles = extract_user_roles api node auth_id leaf in
      if user_roles \<noteq> [] \<or> is_token api auth_id then user_roles
      else extract_group_roles api node (auth_user api auth_id) leaf)"

definition node_delete_group_role :: "string \<Rightarrow> string \<Rightarrow> 'a AclTreeNode \<Rightarrow> 'a AclTreeNode" where
  "node_delete_group_role grp role node =
     AclTreeNode (users node) (AList.map_entry grp (AList.delete role) (groups node)) (children node)"

definition node_delete_user_role :: "'a \<Rightarrow> string \<Rightarrow> 'a AclTreeNode \<Rightarrow> 'a AclTreeNode" where
  "node_delete_user_role auth_id role node =
     AclTreeNode (AList.map_entry auth_id (AList.delete role) (users node)) (groups node) (children node)"

fun node_delete_authid :: "'a \<Rightarrow> 'a AclTreeNode \<Rightarrow> 'a AclTreeNode"
  and children_delete_authid :: "'a \<Rightarrow> (string \<times> 'a AclTreeNode) list \<Rightarrow> (string \<times> 'a AclTreeNode) list" where
  "node_delete_authid auth_id (AclTreeNode us gs cs) = AclTreeNode (AList.delete auth_id us) gs (children_delete_authid auth_id cs)"
| "children_delete_authid auth_id [] = []"
| "children_delete_authid auth_id ((name, child) # cs) = (name, node_delete_authid auth_id child) # children_delete_authid auth_id cs"

text \<open>Inserting into the role map of a user or group, which \<open>or_default\<close> creates.\<close>

definition insert_role :: "string \<Rightarrow> 'k \<Rightarrow> string \<Rightarrow> bool \<Rightarrow> ('k \<times> roles) list \<Rightarrow> ('k \<times> roles) list" where
  "insert_role na who role propagate m =
     (let rs = (case map_of m who of Some rs \<Rightarrow> rs | None \<Rightarrow> []) in
      AList.update who (if role = na then [(role, propagate)] else AList.update role propagate (AList.delete na rs)) m)"

definition node_insert_group_role :: "('a, 'u) api_types \<Rightarrow> string \<Rightarrow> string \<Rightarrow> bool \<Rightarrow> 'a AclTreeNode \<Rightarrow> 'a AclTreeNode" where
  "node_insert_group_role api grp role propagate node =
     AclTreeNode (users node) (insert_role (ROLE_NAME_NO_ACCESS api) grp role propagate (groups node)) (children node)"

definition node_insert_user_role :: "('a, 'u) api_types \<Rightarrow> 'a \<Rightarrow> string \<Rightarrow> bool \<Rightarrow> 'a AclTreeNode \<Rightarrow> 'a AclTreeNode" where
  "node_insert_user_role api auth_id role propagate node =
     AclTreeNode (insert_role (ROLE_NAME_NO_ACCESS api) auth_id role propagate (users node)) (groups node) (children node)"

fun node_child_paths :: "('a, 'u) api_types \<Rightarrow> string \<Rightarrow> 'a \<Rightarrow> 'a AclTreeNode \<Rightarrow> string list"
  and children_child_paths :: "('a, 'u) api_types \<Rightarrow> string \<Rightarrow> 'a \<Rightarrow> (string \<times> 'a AclTreeNode) list \<Rightarrow> string list" where
  "node_child_paths api path auth_id (AclTreeNode us gs cs) = children_child_paths api path auth_id cs"
| "children_child_paths api path auth_id [] = []"
| "children_child_paths api path auth_id ((sub_comp, child) # cs) =
     (let child_path = path @ ''/'' @ sub_comp in
      (if extract_roles api child auth_id True \<noteq> [] then [child_path] else []) @
      node_child_paths api child_path auth_id child @ children_child_paths api path auth_id cs)"

section \<open>AclTree\<close>

text \<open>
  The tree is its root node. The nested loops over path elements and their components walk the list of
  all components.
\<close>

type_synonym 'a AclTree = "'a AclTreeNode"

definition components :: "string list \<Rightarrow> string list" where
  "components path = concat (map (split_on (CHR ''/'')) path)"

fun walk :: "'a AclTreeNode \<Rightarrow> string list \<Rightarrow> 'a AclTreeNode option" where
  "walk node [] = Some node"
| "walk node (c # cs) = (case map_of (children node) c of None \<Rightarrow> None | Some n \<Rightarrow> walk n cs)"

definition get_node :: "'a AclTree \<Rightarrow> string list \<Rightarrow> 'a AclTreeNode option" where
  "get_node tree path = walk tree (components path)"

text \<open>Changing the node that \<^verbatim>\<open>get_node_mut\<close> or \<^verbatim>\<open>get_or_insert_node\<close> returns a reference to.\<close>

fun modify_node :: "('a AclTreeNode \<Rightarrow> 'a AclTreeNode) \<Rightarrow> string list \<Rightarrow> 'a AclTreeNode \<Rightarrow> 'a AclTreeNode option" where
  "modify_node f [] node = Some (f node)"
| "modify_node f (c # cs) node =
     (case map_of (children node) c of
        None \<Rightarrow> None
      | Some n \<Rightarrow>
          (case modify_node f cs n of
             None \<Rightarrow> None
           | Some n' \<Rightarrow> Some (AclTreeNode (users node) (groups node) (AList.update c n' (children node)))))"

definition get_node_mut :: "('a AclTreeNode \<Rightarrow> 'a AclTreeNode) \<Rightarrow> string list \<Rightarrow> 'a AclTree \<Rightarrow> 'a AclTree option" where
  "get_node_mut f path tree = modify_node f (components path) tree"

fun btree_insert :: "'k :: linorder \<Rightarrow> 'v \<Rightarrow> ('k \<times> 'v) list \<Rightarrow> ('k \<times> 'v) list" where
  "btree_insert k v [] = [(k, v)]"
| "btree_insert k v ((k', v') # m) =
     (if k = k' then (k, v) # m else if k < k' then (k, v) # (k', v') # m else (k', v') # btree_insert k v m)"

fun upsert_node :: "('a AclTreeNode \<Rightarrow> 'a AclTreeNode) \<Rightarrow> string list \<Rightarrow> 'a AclTreeNode \<Rightarrow> 'a AclTreeNode" where
  "upsert_node f [] node = f node"
| "upsert_node f (c # cs) node =
     AclTreeNode (users node) (groups node)
       (btree_insert c (upsert_node f cs (case map_of (children node) c of Some n \<Rightarrow> n | None \<Rightarrow> AclTreeNode_new)) (children node))"

definition get_or_insert_node :: "('a AclTreeNode \<Rightarrow> 'a AclTreeNode) \<Rightarrow> string list \<Rightarrow> 'a AclTree \<Rightarrow> 'a AclTree" where
  "get_or_insert_node f path tree = upsert_node f (components path) tree"

definition find_node :: "('a AclTreeNode \<Rightarrow> 'a AclTreeNode) \<Rightarrow> string \<Rightarrow> 'a AclTree \<Rightarrow> 'a AclTree option" where
  "find_node f path tree = get_node_mut f (split_acl_path path) tree"

definition unless_missing :: "'a AclTree option \<Rightarrow> 'a AclTree \<Rightarrow> 'a AclTree" where
  "unless_missing r tree = (case r of None \<Rightarrow> tree | Some t \<Rightarrow> t)"

definition delete_group_role :: "string \<Rightarrow> string \<Rightarrow> string \<Rightarrow> 'a AclTree \<Rightarrow> 'a AclTree" where
  "delete_group_role path grp role tree =
     unless_missing (get_node_mut (node_delete_group_role grp role) (split_acl_path path) tree) tree"

definition delete_user_role :: "string \<Rightarrow> 'a \<Rightarrow> string \<Rightarrow> 'a AclTree \<Rightarrow> 'a AclTree" where
  "delete_user_role path auth_id role tree =
     unless_missing (get_node_mut (node_delete_user_role auth_id role) (split_acl_path path) tree) tree"

definition delete_node :: "string \<Rightarrow> 'a AclTree \<Rightarrow> 'a AclTree" where
  "delete_node path tree =
     (let cs = split_acl_path path in
      if cs = [] then tree
      else unless_missing
        (get_node_mut (\<lambda>n. AclTreeNode (users n) (groups n) (AList.delete (last cs) (children n))) (butlast cs) tree) tree)"

definition delete_authid :: "'a \<Rightarrow> 'a AclTree \<Rightarrow> 'a AclTree" where
  "delete_authid auth_id tree = node_delete_authid auth_id tree"

definition insert_group_role :: "('a, 'u) api_types \<Rightarrow> string \<Rightarrow> string \<Rightarrow> string \<Rightarrow> bool \<Rightarrow> 'a AclTree \<Rightarrow> 'a AclTree" where
  "insert_group_role api path grp role propagate tree =
     get_or_insert_node (node_insert_group_role api grp role propagate) (split_acl_path path) tree"

definition insert_user_role :: "('a, 'u) api_types \<Rightarrow> string \<Rightarrow> 'a \<Rightarrow> string \<Rightarrow> bool \<Rightarrow> 'a AclTree \<Rightarrow> 'a AclTree" where
  "insert_user_role api path auth_id role propagate tree =
     get_or_insert_node (node_insert_user_role api auth_id role propagate) (split_acl_path path) tree"

fun roles_loop :: "('a, 'u) api_types \<Rightarrow> 'a \<Rightarrow> 'a AclTreeNode \<Rightarrow> roles \<Rightarrow> string list \<Rightarrow> roles" where
  "roles_loop api auth_id node role_map [] = role_map"
| "roles_loop api auth_id node role_map (c # cs) =
     (case map_of (children node) c of
        None \<Rightarrow> role_map
      | Some n \<Rightarrow>
          (let new_map = extract_roles api n auth_id (cs = []) in
           roles_loop api auth_id n (if new_map \<noteq> [] then new_map else role_map) cs))"

definition roles :: "('a, 'u) api_types \<Rightarrow> 'a AclTree \<Rightarrow> 'a \<Rightarrow> string list \<Rightarrow> roles" where
  "roles api tree auth_id path =
     roles_loop api auth_id tree (extract_roles api tree auth_id (path = [])) (components path)"

definition get_child_paths :: "('a, 'u) api_types \<Rightarrow> 'a AclTree \<Rightarrow> 'a \<Rightarrow> string list \<Rightarrow> string list" where
  "get_child_paths api tree auth_id path =
     (case get_node tree path of
        None \<Rightarrow> []
      | Some node \<Rightarrow> node_child_paths api (join_with (CHR ''/'') path) auth_id node)"

section \<open>File format\<close>

text \<open>
  \<open>add_ug\<close> enters a user or group under a role in the map for the propagate flag, \<open>group_by_property_list\<close>
  swaps such a map. What is written is a list of lines.
\<close>

fun btset_insert :: "'k :: linorder \<Rightarrow> 'k list \<Rightarrow> 'k list" where
  "btset_insert k [] = [k]"
| "btset_insert k (k' # ks) = (if k = k' then k' # ks else if k < k' then k # k' # ks else k' # btset_insert k ks)"

definition entry_insert :: "'k \<Rightarrow> string \<Rightarrow> ('k \<times> string list) list \<Rightarrow> ('k \<times> string list) list" where
  "entry_insert k v m = AList.update k (btset_insert v (case map_of m k of Some vs \<Rightarrow> vs | None \<Rightarrow> [])) m"

fun add_ug :: "string \<Rightarrow> roles \<Rightarrow> (string \<times> string list) list \<times> (string \<times> string list) list \<Rightarrow>
    (string \<times> string list) list \<times> (string \<times> string list) list" where
  "add_ug ug [] maps = maps"
| "add_ug ug ((role, propagate) # rs) (m0, m1) =
     add_ug ug rs (if propagate then (m0, entry_insert role ug m1) else (entry_insert role ug m0, m1))"

definition is_root_user :: "('a, 'u) api_types \<Rightarrow> 'a \<Rightarrow> bool" where
  "is_root_user api auth_id \<longleftrightarrow> \<not> is_token api auth_id \<and> auth_user api auth_id = root_userid api"

definition role_ug_maps :: "('a, 'u) api_types \<Rightarrow> 'a AclTreeNode \<Rightarrow> (string \<times> string list) list \<times> (string \<times> string list) list" where
  "role_ug_maps api node =
     fold (\<lambda>(grp, rs). add_ug (CHR ''@'' # grp) rs) (groups node)
       (fold (\<lambda>(auth_id, rs) maps. if is_root_user api auth_id then maps else add_ug (auth_to_string api auth_id) rs maps)
         (users node) ([], []))"

definition comma_list :: "string list \<Rightarrow> string" where
  "comma_list vs = foldl (push_sep (CHR '','')) [] vs"

definition btree_entry_insert :: "string \<Rightarrow> string \<Rightarrow> (string \<times> string list) list \<Rightarrow> (string \<times> string list) list" where
  "btree_entry_insert k v m = btree_insert k (btset_insert v (case map_of m k of Some vs \<Rightarrow> vs | None \<Rightarrow> [])) m"

definition group_by_property_list :: "(string \<times> string list) list \<Rightarrow> (string \<times> string list) list" where
  "group_by_property_list m = fold (\<lambda>(item, vs). btree_entry_insert (comma_list vs) item) m []"

definition role_list :: "('a, 'u) api_types \<Rightarrow> string list \<Rightarrow> string" where
  "role_list api rs =
     (if ROLE_NAME_NO_ACCESS api \<in> set rs then ROLE_NAME_NO_ACCESS api else comma_list rs)"

definition acl_line :: "('a, 'u) api_types \<Rightarrow> string \<Rightarrow> string \<Rightarrow> string \<times> string list \<Rightarrow> string" where
  "acl_line api flag path = (\<lambda>(uglist, rs).
     ''acl:'' @ flag @ '':'' @ (if path = [] then ''/'' else path) @ '':'' @ uglist @ '':'' @ role_list api rs)"

fun write_node_config :: "('a, 'u) api_types \<Rightarrow> string \<Rightarrow> 'a AclTreeNode \<Rightarrow> string list"
  and write_children_config :: "('a, 'u) api_types \<Rightarrow> string \<Rightarrow> (string \<times> 'a AclTreeNode) list \<Rightarrow> string list" where
  "write_node_config api path (AclTreeNode us gs cs) =
     (case role_ug_maps api (AclTreeNode us gs cs) of
        (m0, m1) \<Rightarrow>
          map (acl_line api ''0'' path) (group_by_property_list m0) @
          map (acl_line api ''1'' path) (group_by_property_list m1) @
          write_children_config api path cs)"
| "write_children_config api path [] = []"
| "write_children_config api path ((name, child) # cs) =
     write_node_config api (path @ ''/'' @ name) child @ write_children_config api path cs"

definition write_config :: "('a, 'u) api_types \<Rightarrow> 'a AclTree \<Rightarrow> string" where
  "write_config api tree = concat (map (\<lambda>l. l @ [CHR 10]) (write_node_config api [] tree))"

text \<open>The inserts of a line happen one by one; the first bad role or user ends it.\<close>

fun insert_all ::
  "('a, 'u) api_types \<Rightarrow> string list \<Rightarrow> bool \<Rightarrow> (string \<times> string) list \<Rightarrow> 'a AclTree \<Rightarrow> (err, unit) result \<times> 'a AclTree" where
  "insert_all api path propagate [] tree = (Ok (), tree)"
| "insert_all api path propagate ((ug, role) # todo) tree =
     (if ROLE_NAMES api role = None then (Err ''unknown role'', tree)
      else if ug \<noteq> [] \<and> hd ug = CHR ''@'' then
        insert_all api path propagate todo (get_or_insert_node (node_insert_group_role api (tl ug) role propagate) path tree)
      else (case auth_parse api ug of
          Inl e \<Rightarrow> (Err e, tree)
        | Inr auth_id \<Rightarrow>
            insert_all api path propagate todo (get_or_insert_node (node_insert_user_role api auth_id role propagate) path tree)))"

definition parse_acl_line :: "('a, 'u) api_types \<Rightarrow> string \<Rightarrow> 'a AclTree \<Rightarrow> (err, unit) result \<times> 'a AclTree" where
  "parse_acl_line api line tree =
     (let items = split_on (CHR '':'') line in
      if length items \<noteq> 5 then (Err ''wrong number of items.'', tree)
      else if items ! 0 \<noteq> ''acl'' then (Err ''line does not start with acl'', tree)
      else if items ! 1 \<noteq> ''0'' \<and> items ! 1 \<noteq> ''1'' then (Err ''expected 0 or 1 for propagate flag.'', tree)
      else
        (let path = split_acl_path (items ! 2);
             uglist = map str_trim (split_on (CHR '','') (items ! 3));
             rolelist = map str_trim (split_on (CHR '','') (items ! 4))
         in insert_all api path (items ! 1 = ''1'') (List.product uglist rolelist) (get_or_insert_node id path tree)))"

fun parse_lines :: "('a, 'u) api_types \<Rightarrow> string list \<Rightarrow> 'a AclTree \<Rightarrow> (err, 'a AclTree) result" where
  "parse_lines api [] tree = Ok tree"
| "parse_lines api (l # ls) tree =
     (let line = str_trim l in
      if line = [] then parse_lines api ls tree
      else (case parse_acl_line api line tree of
          (Inl e, _) \<Rightarrow> Err (''unable to parse acl config data'' @ e)
        | (Inr _, tree') \<Rightarrow> parse_lines api ls tree'))"

definition from_raw :: "('a, 'u) api_types \<Rightarrow> string \<Rightarrow> (err, 'a AclTree) result" where
  "from_raw api raw = parse_lines api (str_lines raw) AclTreeNode_new"

text \<open>\<^verbatim>\<open>load\<close>, with the result of reading the file: a missing file is empty.\<close>

datatype 'e read_error = NotFound | ReadError 'e

definition load :: "('a, 'u) api_types \<Rightarrow> (string \<Rightarrow> 'd) \<Rightarrow> err read_error + string \<Rightarrow> (err, 'a AclTree \<times> 'd) result" where
  "load api sha256 file =
     (let parse = (\<lambda>raw. and_then (parse_lines api (str_lines raw) AclTreeNode_new) (\<lambda>tree. Ok (tree, sha256 raw))) in
      case file of
        Inr raw \<Rightarrow> parse raw
      | Inl NotFound \<Rightarrow> parse []
      | Inl (ReadError e) \<Rightarrow> Err (''unable to read acl config'' @ e))"

section \<open>Privileges\<close>

text \<open>
  The user configuration is what its lookups return: whether a user or token is active, if it exists.
  \<^verbatim>\<open>lookup_privs_details\<close> calls itself for the owner of a token; a call that does not return is \<open>None\<close>.
\<close>

record ('a, 'u) CachedUserInfo =
  user_active :: "'u \<Rightarrow> bool option"
  token_active :: "string \<Rightarrow> bool option"
  acl_tree :: "'a AclTree"

definition is_active_user_id :: "('a, 'u) CachedUserInfo \<Rightarrow> 'u \<Rightarrow> bool" where
  "is_active_user_id info userid = (case user_active info userid of Some b \<Rightarrow> b | None \<Rightarrow> False)"

definition is_active_auth_id :: "('a, 'u) api_types \<Rightarrow> ('a, 'u) CachedUserInfo \<Rightarrow> 'a \<Rightarrow> bool" where
  "is_active_auth_id api info auth_id =
     (if \<not> is_active_user_id info (auth_user api auth_id) then False
      else if is_token api auth_id then
        (case token_active info (auth_to_string api auth_id) of Some b \<Rightarrow> b | None \<Rightarrow> False)
      else True)"

definition is_superuser :: "('a, 'u) api_types \<Rightarrow> 'a \<Rightarrow> bool" where
  "is_superuser api auth_id \<longleftrightarrow> \<not> is_token api auth_id \<and> auth_user api auth_id = root_userid api"

fun or_privs :: "('a, 'u) api_types \<Rightarrow> roles \<Rightarrow> u64 \<times> u64 \<Rightarrow> u64 \<times> u64" where
  "or_privs api [] acc = acc"
| "or_privs api ((role, propagate) # rs) (privs, propagated) =
     (case ROLE_NAMES api role of
        Some p \<Rightarrow> or_privs api rs (privs OR p, if propagate then propagated OR p else propagated)
      | None \<Rightarrow> or_privs api rs (privs, propagated))"

partial_function (option) lookup_privs_details ::
  "('a, 'u) api_types \<Rightarrow> ('a, 'u) CachedUserInfo \<Rightarrow> 'a \<Rightarrow> string list \<Rightarrow> (u64 \<times> u64) option" where
  "lookup_privs_details api info auth_id path =
     (if is_superuser api auth_id then Some (ROLE_ADMIN api, ROLE_ADMIN api)
      else if is_token api auth_id then
        Option.bind (lookup_privs_details api info (from_user api (auth_user api auth_id)) path) (\<lambda>(owner_privs, owner_propagated).
          Some (fst (or_privs api (roles api (acl_tree info) auth_id path) (0, 0)) AND owner_privs,
                snd (or_privs api (roles api (acl_tree info) auth_id path) (0, 0)) AND owner_propagated))
      else Some (or_privs api (roles api (acl_tree info) auth_id path) (0, 0)))"

definition lookup_privs :: "('a, 'u) api_types \<Rightarrow> ('a, 'u) CachedUserInfo \<Rightarrow> 'a \<Rightarrow> string list \<Rightarrow> u64 option" where
  "lookup_privs api info auth_id path = map_option fst (lookup_privs_details api info auth_id path)"

definition check_privs ::
  "('a, 'u) api_types \<Rightarrow> ('a, 'u) CachedUserInfo \<Rightarrow> 'a \<Rightarrow> string list \<Rightarrow> u64 \<Rightarrow> bool \<Rightarrow> (err, unit) result option" where
  "check_privs api info auth_id path required partial =
     map_option (\<lambda>privs.
       if (if partial then privs AND required \<noteq> 0 else privs AND required = required) then Ok ()
       else Err ''missing permissions'') (lookup_privs api info auth_id path)"

fun any_path_privs :: "('a, 'u) api_types \<Rightarrow> ('a, 'u) CachedUserInfo \<Rightarrow> 'a \<Rightarrow> u64 \<Rightarrow> string list \<Rightarrow> bool option" where
  "any_path_privs api info auth_id privs [] = Some False"
| "any_path_privs api info auth_id privs (path # paths) =
     Option.bind (lookup_privs api info auth_id [path]) (\<lambda>p.
       if privs AND p \<noteq> 0 then Some True else any_path_privs api info auth_id privs paths)"

definition any_privs_below :: "('a, 'u) api_types \<Rightarrow> ('a, 'u) CachedUserInfo \<Rightarrow> 'a \<Rightarrow> string list \<Rightarrow> u64 \<Rightarrow> bool option" where
  "any_privs_below api info auth_id path privs =
     Option.bind (lookup_privs_details api info auth_id path) (\<lambda>(_, propagated).
       if propagated AND privs \<noteq> 0 then Some True
       else any_path_privs api info auth_id privs (get_child_paths api (acl_tree info) auth_id path))"

section \<open>What a tree means\<close>

text \<open>
  The access control list of a tree: for a path and a user or group, the roles with their propagate flag.
\<close>

definition node_acl :: "'a AclTreeNode \<Rightarrow> 'a + string \<Rightarrow> string \<Rightarrow> bool option" where
  "node_acl node who =
     (case (case who of Inl a \<Rightarrow> map_of (users node) a | Inr g \<Rightarrow> map_of (groups node) g) of
        None \<Rightarrow> Map.empty
      | Some rs \<Rightarrow> map_of rs)"

definition acl_of :: "'a AclTreeNode \<Rightarrow> string list \<Rightarrow> 'a + string \<Rightarrow> string \<Rightarrow> bool option" where
  "acl_of tree cs = (case walk tree cs of None \<Rightarrow> (\<lambda>_. Map.empty) | Some n \<Rightarrow> node_acl n)"

lemma acl_of_Nil [simp]: "acl_of tree [] = node_acl tree"
  by (simp add: acl_of_def)

lemma acl_of_Cons: "acl_of tree (c # cs) = (case map_of (children tree) c of None \<Rightarrow> (\<lambda>_. Map.empty) | Some n \<Rightarrow> acl_of n cs)"
  by (simp add: acl_of_def split: option.split)

lemma node_acl_new [simp]: "node_acl AclTreeNode_new who = Map.empty"
  by (simp add: node_acl_def AclTreeNode_new_def split: sum.split)

lemma acl_of_new [simp]: "acl_of AclTreeNode_new cs who = Map.empty"
  by (cases cs) (simp_all add: acl_of_Cons, simp add: AclTreeNode_new_def)

lemma map_of_btree_insert [simp]: "map_of (btree_insert k v m) = (map_of m)(k \<mapsto> v)"
  by (induction k v m rule: btree_insert.induct) (auto simp: fun_eq_iff)

text \<open>
  The invariant: maps have distinct keys, children are in order, names of children are non-empty and without slash, and a user or
  group with \<open>NoAccess\<close> has no other role.
\<close>

definition role_map_ok :: "string \<Rightarrow> roles \<Rightarrow> bool" where
  "role_map_ok na rs \<longleftrightarrow> distinct (map fst rs) \<and> (na \<in> fst ` set rs \<longrightarrow> fst ` set rs = {na})"

definition who_map_ok :: "string \<Rightarrow> ('k \<times> roles) list \<Rightarrow> bool" where
  "who_map_ok na m \<longleftrightarrow> distinct (map fst m) \<and> (\<forall>p \<in> set m. role_map_ok na (snd p))"

definition name_ok :: "string \<Rightarrow> bool" where
  "name_ok name \<longleftrightarrow> name \<noteq> [] \<and> CHR ''/'' \<notin> set name"

fun node_wf :: "string \<Rightarrow> 'a AclTreeNode \<Rightarrow> bool"
  and children_wf :: "string \<Rightarrow> (string \<times> 'a AclTreeNode) list \<Rightarrow> bool" where
  "node_wf na (AclTreeNode us gs cs) \<longleftrightarrow> who_map_ok na us \<and> who_map_ok na gs \<and> sorted_wrt (<) (map fst cs) \<and> children_wf na cs"
| "children_wf na [] \<longleftrightarrow> True"
| "children_wf na ((name, child) # cs) \<longleftrightarrow> name_ok name \<and> node_wf na child \<and> children_wf na cs"

lemma children_wf_iff: "children_wf na cs \<longleftrightarrow> (\<forall>p \<in> set cs. name_ok (fst p) \<and> node_wf na (snd p))"
  by (induction cs) auto

lemma node_wf_iff:
  "node_wf na node \<longleftrightarrow> who_map_ok na (users node) \<and> who_map_ok na (groups node) \<and> sorted_wrt (<) (map fst (children node)) \<and>
     children_wf na (children node)"
  by (cases node) simp

lemma node_wf_new [simp]: "node_wf na AclTreeNode_new"
  by (simp add: AclTreeNode_new_def who_map_ok_def)

lemma node_wf_child: "node_wf na node \<Longrightarrow> map_of (children node) c = Some n \<Longrightarrow> name_ok c \<and> node_wf na n"
  using node_wf_iff [of na node] children_wf_iff [of na "children node"] map_of_SomeD [of "children node" c n] by fastforce

lemma set_update_subset: "set (AList.update k v al) \<subseteq> insert (k, v) (set al)"
  by (induction al) auto

lemma keys_delete: "fst ` set (AList.delete k al) = fst ` set al - {k}"
  using arg_cong [OF delete_keys [of k al], of set] by auto

lemma role_map_ok_delete: "role_map_ok na rs \<Longrightarrow> role_map_ok na (AList.delete r rs)"
  unfolding role_map_ok_def keys_delete using distinct_delete [of rs r] by (cases "r = na"; cases "na \<in> fst ` set rs") simp_all

lemma role_map_ok_insert:
  assumes "role_map_ok na rs"
  shows "role_map_ok na (if role = na then [(role, p)] else AList.update role p (AList.delete na rs))"
  using assms unfolding role_map_ok_def by (simp add: distinct_update distinct_delete dom_update keys_delete)

lemma who_map_ok_get: "who_map_ok na m \<Longrightarrow> map_of m who = Some rs \<Longrightarrow> role_map_ok na rs"
  unfolding who_map_ok_def using map_of_SomeD [of m who rs] by fastforce

lemma who_map_ok_insert:
  assumes "who_map_ok na m"
  shows "who_map_ok na (insert_role na who role p m)"
proof -
  define rs where "rs = (case map_of m who of Some rs \<Rightarrow> rs | None \<Rightarrow> [])"
  have "role_map_ok na rs"
    using who_map_ok_get [OF assms] by (auto simp: rs_def role_map_ok_def split: option.split)
  then have "role_map_ok na (if role = na then [(role, p)] else AList.update role p (AList.delete na rs))"
    by (rule role_map_ok_insert)
  then show ?thesis
    using assms set_update_subset [of who "if role = na then [(role, p)] else AList.update role p (AList.delete na rs)" m]
    by (fastforce simp: who_map_ok_def insert_role_def rs_def [symmetric] distinct_update)
qed

lemma node_acl_insert_role:
  "node_acl (node_insert_user_role api a role p node) =
     (node_acl node)(Inl a := if role = ROLE_NAME_NO_ACCESS api then [role \<mapsto> p] else ((node_acl node (Inl a))(ROLE_NAME_NO_ACCESS api := None))(role \<mapsto> p))"
  "node_acl (node_insert_group_role api g role p node) =
     (node_acl node)(Inr g := if role = ROLE_NAME_NO_ACCESS api then [role \<mapsto> p] else ((node_acl node (Inr g))(ROLE_NAME_NO_ACCESS api := None))(role \<mapsto> p))"
  by (rule ext; simp add: node_acl_def node_insert_user_role_def node_insert_group_role_def insert_role_def Let_def
      update_conv' delete_conv' split: sum.split option.split)+

section \<open>Operations on the tree\<close>

lemma acl_of_upsert:
  assumes "\<And>n. children (f n) = children n"
  shows "acl_of (upsert_node f cs tree) ds =
    (if ds = cs then node_acl (f (case walk tree cs of Some n \<Rightarrow> n | None \<Rightarrow> AclTreeNode_new)) else acl_of tree ds)"
proof (induction cs arbitrary: tree ds)
  case Nil
  then show ?case by (cases ds) (simp_all add: acl_of_Cons assms)
next
  case (Cons c cs)
  show ?case
  proof (cases ds)
    case Nil
    then show ?thesis by (intro ext) (simp add: node_acl_def split: sum.split)
  next
    case (Cons d ds')
    have "walk (AclTreeNode_new :: 'a AclTreeNode) cs = None \<or> cs = []" by (cases cs) (simp_all add: AclTreeNode_new_def)
    then show ?thesis
      using Cons Cons.IH by (auto simp: acl_of_Cons split: option.split)
  qed
qed

lemma set_btree_insert: "set (btree_insert k v m) \<subseteq> insert (k, v) (set m)"
  by (induction k v m rule: btree_insert.induct) auto

lemma keys_btree_insert: "fst ` set (btree_insert k v m) = insert k (fst ` set m)"
  by (induction k v m rule: btree_insert.induct) auto

lemma sorted_btree_insert: "sorted_wrt (<) (map fst m) \<Longrightarrow> sorted_wrt (<) (map fst (btree_insert k v m))"
proof (induction k v m rule: btree_insert.induct)
  case (2 k v k' v' m)
  consider "k = k'" | "k < k'" | "k' < k" by fastforce
  then show ?case
  proof cases
    case 3
    then have "\<forall>x \<in> fst ` set (btree_insert k v m). k' < x" using 2 keys_btree_insert [of k v m] by simp
    then show ?thesis using 2 3 by auto
  next
    case 2
    then have "\<forall>x \<in> set m. k < fst x" using \<open>sorted_wrt (<) (map fst ((k', v') # m))\<close> by (auto intro: less_trans)
    then show ?thesis using 2 \<open>sorted_wrt (<) (map fst ((k', v') # m))\<close> by simp
  qed (use 2 in simp)
qed simp

lemma node_wf_upsert:
  assumes "\<And>n. node_wf na n \<Longrightarrow> node_wf na (f n)"
  shows "\<forall>c \<in> set cs. name_ok c \<Longrightarrow> node_wf na tree \<Longrightarrow> node_wf na (upsert_node f cs tree)"
proof (induction cs arbitrary: tree)
  case (Cons c cs)
  define n where "n = (case map_of (children tree) c of Some n \<Rightarrow> n | None \<Rightarrow> AclTreeNode_new)"
  have "node_wf na n" using Cons.prems node_wf_child [of na tree c] by (auto simp: n_def split: option.split)
  then have "node_wf na (upsert_node f cs n)" using Cons by simp
  then have "children_wf na (btree_insert c (upsert_node f cs n) (children tree))"
    using Cons.prems set_btree_insert [of c "upsert_node f cs n" "children tree"] node_wf_iff [of na tree]
    unfolding children_wf_iff by fastforce
  then show ?case
    using Cons.prems node_wf_iff [of na tree] by (simp add: n_def [symmetric] sorted_btree_insert)
qed (use assms in simp)

lemma keys_update_present: "map_of al k = Some v0 \<Longrightarrow> map fst (AList.update k v al) = map fst al"
  by (induction al) (auto split: if_splits)

lemma node_wf_modify:
  assumes "\<And>n. node_wf na n \<Longrightarrow> node_wf na (f n)"
  shows "node_wf na tree \<Longrightarrow> modify_node f cs tree = Some tree' \<Longrightarrow> node_wf na tree'"
proof (induction cs arbitrary: tree tree')
  case (Cons c cs)
  obtain n n' where n: "map_of (children tree) c = Some n" "modify_node f cs n = Some n'"
      "tree' = AclTreeNode (users tree) (groups tree) (AList.update c n' (children tree))"
    using Cons.prems(2) by (auto split: option.splits)
  have "name_ok c \<and> node_wf na n'" using Cons.IH [OF _ n(2)] node_wf_child [OF Cons.prems(1) n(1)] by simp
  then have "children_wf na (AList.update c n' (children tree))"
    using Cons.prems(1) set_update_subset [of c n' "children tree"] node_wf_iff [of na tree]
    unfolding children_wf_iff by fastforce
  then show ?case using Cons.prems(1) n node_wf_iff [of na tree] keys_update_present [OF n(1)] by simp
qed (use assms in auto)

lemma node_wf_delete_authid: "node_wf na node \<Longrightarrow> node_wf na (node_delete_authid a node)"
  and "children_wf na cs \<Longrightarrow> children_wf na (children_delete_authid a cs) \<and> map fst (children_delete_authid a cs) = map fst cs"
proof (induction a node and a cs rule: node_delete_authid_children_delete_authid.induct)
  case (1 a us gs cs)
  have "set (AList.delete a us) \<subseteq> set us" by (auto simp: alist_delete_filter)
  then show ?case using 1 by (auto simp: who_map_ok_def distinct_delete)
qed auto

lemma components_split_acl_path: "components (split_acl_path path) = split_acl_path path"
proof -
  have "concat (map (split_on (CHR ''/'')) cs) = cs" if "\<forall>c \<in> set cs. CHR ''/'' \<notin> set c" for cs
    using that by (induction cs) (simp_all add: split_on_plain)
  then show ?thesis
    using split_on_no_sep [of _ "CHR ''/''" path] by (simp add: components_def split_acl_path_def)
qed

lemma split_acl_path_ok: "c \<in> set (split_acl_path path) \<Longrightarrow> name_ok c"
  using split_on_no_sep by (auto simp: split_acl_path_def name_ok_def)

section \<open>Roles along a path\<close>

text \<open>
  \<open>extracted\<close> is what a node gives a user: the roles that apply there, or only \<open>NoAccess\<close> if it is one of
  them; \<open>effective\<close> is the most specific of these along a path that is not empty.
\<close>

definition extracted :: "string \<Rightarrow> bool \<Rightarrow> (string \<Rightarrow> bool option) \<Rightarrow> string \<Rightarrow> bool option" where
  "extracted na leaf m =
     (if (\<exists>p. m na = Some p \<and> (p \<or> leaf)) then [na \<mapsto> False]
      else (\<lambda>r. case m r of Some p \<Rightarrow> if p \<or> leaf then Some p else None | None \<Rightarrow> None))"

fun most_specific :: "(string \<Rightarrow> bool option) \<Rightarrow> (string \<Rightarrow> bool option) list \<Rightarrow> string \<Rightarrow> bool option" where
  "most_specific m [] = m"
| "most_specific m (m' # ms) = most_specific (if m' \<noteq> Map.empty then m' else m) ms"

definition effective :: "string \<Rightarrow> (string list \<Rightarrow> string \<Rightarrow> bool option) \<Rightarrow> string list \<Rightarrow> string \<Rightarrow> bool option" where
  "effective na acl cs =
     most_specific (extracted na (cs = []) (acl []))
       (map (\<lambda>i. extracted na (i = length cs) (acl (take i cs))) [1..<Suc (length cs)])"

lemma extracted_empty [simp]: "extracted na leaf Map.empty = Map.empty"
  by (simp add: extracted_def)

lemma most_specific_empty: "\<forall>m' \<in> set ms. m' = Map.empty \<Longrightarrow> most_specific m ms = m"
  by (induction ms) simp_all

lemma extract_group_roles_empty [simp]: "extract_group_roles api node u leaf = []"
proof -
  have "extract_group_loop na leaf m gs = m" for na m gs
    by (induction gs) auto
  then show ?thesis by (simp add: extract_group_roles_def)
qed

lemma collect_roles_map:
  "distinct (map fst rs) \<Longrightarrow> fst ` set m \<inter> fst ` set rs = {} \<Longrightarrow>
   map_of (case collect_roles na leaf m rs of Inl x \<Rightarrow> x | Inr x \<Rightarrow> x) =
     (if (\<exists>p. map_of rs na = Some p \<and> (p \<or> leaf)) then [na \<mapsto> False]
      else map_of m ++ (\<lambda>r. case map_of rs r of Some p \<Rightarrow> if p \<or> leaf then Some p else None | None \<Rightarrow> None))"
proof (induction na leaf m rs rule: collect_roles.induct)
  case (2 na leaf m role p rs)
  have new: "role \<notin> fst ` set rs" "role \<notin> fst ` set m" using 2 by auto
  then have "map_of rs role = None" by (simp add: map_of_eq_None_iff)
  then show ?case
    using 2 new by (auto simp: dom_update update_conv' fun_eq_iff map_add_def split: option.split)
qed (simp add: map_add_def)

lemma extract_roles_map:
  assumes "node_wf (ROLE_NAME_NO_ACCESS api) node"
  shows "map_of (extract_roles api node a leaf) = extracted (ROLE_NAME_NO_ACCESS api) leaf (node_acl node (Inl a))"
proof -
  have "extract_roles api node a leaf = extract_user_roles api node a leaf" by (simp add: extract_roles_def Let_def)
  moreover have "distinct (map fst rs)" if "map_of (users node) a = Some rs" for rs
    using assms that who_map_ok_get [of "ROLE_NAME_NO_ACCESS api" "users node" a rs]
    by (simp add: node_wf_iff [of _ node] role_map_ok_def)
  ultimately show ?thesis
    using collect_roles_map [of _ "[]" "ROLE_NAME_NO_ACCESS api" leaf]
    by (auto simp: extract_user_roles_def node_acl_def extracted_def split: option.split)
qed

lemma roles_loop_map:
  assumes "node_wf (ROLE_NAME_NO_ACCESS api) node"
  shows "map_of (roles_loop api a node m cs) =
    most_specific (map_of m)
      (map (\<lambda>i. extracted (ROLE_NAME_NO_ACCESS api) (i = length cs) (acl_of node (take i cs) (Inl a))) [1..<Suc (length cs)])"
  using assms
proof (induction api a node m cs rule: roles_loop.induct)
  case (2 api a node m c cs)
  let ?na = "ROLE_NAME_NO_ACCESS api"
  have upt: "[1..<Suc (length (c # cs))] = 1 # map Suc [1..<Suc (length cs)]"
    using upt_conv_Cons [of 1 "Suc (length (c # cs))"] by (simp add: map_Suc_upt del: upt_Suc)
  show ?case
  proof (cases "map_of (children node) c")
    case None
    have "\<forall>i \<in> set [1..<Suc (length (c # cs))]. acl_of node (take i (c # cs)) (Inl a) = Map.empty"
      by (auto simp: acl_of_Cons None take_Cons split: nat.split)
    then show ?thesis using None by (simp add: most_specific_empty del: upt_Suc)
  next
    case (Some n)
    have "node_wf ?na n" using node_wf_child [OF "2.prems" Some] by simp
    then have first: "map_of (extract_roles api n a (cs = [])) = extracted ?na (cs = []) (acl_of n [] (Inl a))"
      by (simp add: extract_roles_map)
    then have empty: "extract_roles api n a (cs = []) = [] \<longleftrightarrow> extracted ?na (cs = []) (acl_of n [] (Inl a)) = Map.empty"
      by (metis map_of_eq_empty_iff)
    show ?thesis
      unfolding upt using "2.IH" [OF Some refl \<open>node_wf ?na n\<close>] Some first empty
      by (auto simp: acl_of_Cons Let_def comp_def simp del: upt_Suc)
  qed
qed simp

lemma components_eq_Nil: "components path = [] \<longleftrightarrow> path = []"
  by (cases path) (simp_all add: components_def)

lemma roles_effective:
  assumes "node_wf (ROLE_NAME_NO_ACCESS api) tree"
  shows "map_of (roles api tree a path) =
    effective (ROLE_NAME_NO_ACCESS api) (\<lambda>cs. acl_of tree cs (Inl a)) (components path)"
  using roles_loop_map [OF assms, of a _ "components path"] extract_roles_map [OF assms, of a]
  by (simp add: roles_def effective_def components_eq_Nil)

text \<open>The result is a map again: no role twice.\<close>

lemma distinct_collect_roles:
  "distinct (map fst m) \<Longrightarrow> distinct (map fst (case collect_roles na leaf m rs of Inl x \<Rightarrow> x | Inr x \<Rightarrow> x))"
  by (induction na leaf m rs rule: collect_roles.induct) (auto simp: distinct_update)

lemma distinct_extract_roles: "distinct (map fst (extract_roles api node a leaf))"
  using distinct_collect_roles [of "[]"]
  by (auto simp: extract_roles_def extract_user_roles_def Let_def split: option.split)

lemma distinct_roles: "distinct (map fst (roles api tree a path))"
proof -
  have "distinct (map fst (roles_loop api a node m cs))" if "distinct (map fst m)" for node m cs
    using that by (induction api a node m cs rule: roles_loop.induct) (auto simp: Let_def distinct_extract_roles split: option.split)
  then show ?thesis by (simp add: roles_def distinct_extract_roles)
qed

section \<open>Privileges of roles\<close>

lemma or_privs_bit:
  "bit (fst (or_privs api rs acc)) k \<longleftrightarrow> bit (fst acc) k \<or> (\<exists>r p q. (r, p) \<in> set rs \<and> ROLE_NAMES api r = Some q \<and> bit q k)"
  "bit (snd (or_privs api rs acc)) k \<longleftrightarrow> bit (snd acc) k \<or> (\<exists>r q. (r, True) \<in> set rs \<and> ROLE_NAMES api r = Some q \<and> bit q k)"
  by (induction api rs acc rule: or_privs.induct) (auto simp: bit_or_iff split: option.split)

lemma or_privs_cong: "set rs = set rs' \<Longrightarrow> or_privs api rs (0, 0) = or_privs api rs' (0, 0)"
  by (intro prod_eqI bit_word_eqI) (simp_all add: or_privs_bit)

text \<open>What the other crate documents of its identifiers: a user is not a token, and keeps its name.\<close>

definition auth_ok :: "('a, 'u) api_types \<Rightarrow> bool" where
  "auth_ok api \<longleftrightarrow> (\<forall>u. \<not> is_token api (from_user api u) \<and> auth_user api (from_user api u) = u)"

definition own_privs :: "('a, 'u) api_types \<Rightarrow> ('a, 'u) CachedUserInfo \<Rightarrow> 'a \<Rightarrow> string list \<Rightarrow> u64 \<times> u64" where
  "own_privs api info a path =
     (if is_superuser api a then (ROLE_ADMIN api, ROLE_ADMIN api) else or_privs api (roles api (acl_tree info) a path) (0, 0))"

lemma lookup_privs_details_eq:
  assumes "auth_ok api"
  shows "lookup_privs_details api info a path =
    Some (if is_token api a then
      (fst (own_privs api info a path) AND fst (own_privs api info (from_user api (auth_user api a)) path),
       snd (own_privs api info a path) AND snd (own_privs api info (from_user api (auth_user api a)) path))
      else own_privs api info a path)"
proof -
  have user: "lookup_privs_details api info b path = Some (own_privs api info b path)" if "\<not> is_token api b" for b
    using that by (simp add: lookup_privs_details.simps [of api info b] own_privs_def)
  have "\<not> is_token api (from_user api (auth_user api a))" using assms by (simp add: auth_ok_def)
  from user [OF this] user [of a] show ?thesis
    by (simp add: lookup_privs_details.simps [of api info a] own_privs_def is_superuser_def split: prod.split)
qed

text \<open>Whether a role that is effective at a path has a privilege, given by its bit.\<close>

definition grants :: "('a, 'u) api_types \<Rightarrow> ('a, 'u) CachedUserInfo \<Rightarrow> 'a \<Rightarrow> string list \<Rightarrow> nat \<Rightarrow> bool" where
  "grants api info a path k \<longleftrightarrow>
     (if is_superuser api a then bit (ROLE_ADMIN api) k
      else \<exists>r q. effective (ROLE_NAME_NO_ACCESS api) (\<lambda>cs. acl_of (acl_tree info) cs (Inl a)) (components path) r \<noteq> None \<and>
        ROLE_NAMES api r = Some q \<and> bit q k)"

lemma own_privs_bit:
  assumes "node_wf (ROLE_NAME_NO_ACCESS api) (acl_tree info)"
  shows "bit (fst (own_privs api info a path)) k \<longleftrightarrow> grants api info a path k"
proof -
  have "(\<exists>p. (r, p) \<in> set (roles api (acl_tree info) a path)) \<longleftrightarrow>
      effective (ROLE_NAME_NO_ACCESS api) (\<lambda>cs. acl_of (acl_tree info) cs (Inl a)) (components path) r \<noteq> None" for r
    unfolding roles_effective [OF assms, symmetric] using distinct_roles [of api "acl_tree info" a path]
    by (metis map_of_eq_Some_iff not_None_eq)
  then show ?thesis by (auto simp: own_privs_def grants_def or_privs_bit)
qed

definition allowed :: "('a, 'u) api_types \<Rightarrow> ('a, 'u) CachedUserInfo \<Rightarrow> 'a \<Rightarrow> string list \<Rightarrow> nat \<Rightarrow> bool" where
  "allowed api info a path k \<longleftrightarrow>
     grants api info a path k \<and> (is_token api a \<longrightarrow> grants api info (from_user api (auth_user api a)) path k)"

lemma lookup_privs_bit:
  assumes "auth_ok api" "node_wf (ROLE_NAME_NO_ACCESS api) (acl_tree info)"
  obtains privs where "lookup_privs api info a path = Some privs" "\<And>k. bit privs k \<longleftrightarrow> allowed api info a path k"
  by (rule that [of "fst (the (lookup_privs_details api info a path))"])
     (simp_all add: lookup_privs_def lookup_privs_details_eq [OF assms(1)] bit_and_iff own_privs_bit [OF assms(2)] allowed_def)

lemma word_eq_0_iff_bits: "w = 0 \<longleftrightarrow> (\<forall>k. \<not> bit (w :: u64) k)"
  using bit_imp_le_length [of w] by (auto simp: bit_eq_iff)

section \<open>A sample interface\<close>

text \<open>Identifiers as a user and an optional token, and three roles.\<close>

definition sample_api :: "(string \<times> string option, string) api_types" where
  "sample_api = \<lparr>
     is_token = (\<lambda>a. snd a \<noteq> None), auth_user = fst, from_user = (\<lambda>u. (u, None)), root_userid = ''root@pam'',
     auth_to_string = (\<lambda>(u, t). case t of None \<Rightarrow> u | Some t \<Rightarrow> u @ ''!'' @ t),
     auth_parse = (\<lambda>s. case split_on (CHR ''!'') s of [u] \<Rightarrow> Ok (u, None) | [u, t] \<Rightarrow> Ok (u, Some t) | _ \<Rightarrow> Err ''bad auth id''),
     ROLE_NAME_NO_ACCESS = ''NoAccess'',
     ROLE_NAMES = [''NoAccess'' \<mapsto> 0, ''Audit'' \<mapsto> 1, ''Admin'' \<mapsto> 7],
     ROLE_ADMIN = 7, MAX_NAMESPACE_DEPTH = 8\<rparr>"

definition sample_tree :: "(string \<times> string option) AclTree" where
  "sample_tree =
     insert_user_role sample_api ''/datastore/s1'' (''u@pbs'', Some ''t'') ''Admin'' False
       (insert_user_role sample_api ''/datastore'' (''u@pbs'', None) ''Audit'' True AclTreeNode_new)"

definition sample_info :: "(string \<times> string option, string) CachedUserInfo" where
  "sample_info = \<lparr>user_active = (\<lambda>_. Some True), token_active = (\<lambda>_. None), acl_tree = sample_tree\<rparr>"

lemma sample_api_simps [simp]:
  "is_token sample_api a \<longleftrightarrow> snd a \<noteq> None" "auth_user sample_api = fst" "from_user sample_api u = (u, None)"
  "root_userid sample_api = ''root@pam''" "ROLE_NAME_NO_ACCESS sample_api = ''NoAccess''"
  by (simp_all add: sample_api_def)

lemma sample_auth_ok: "auth_ok sample_api"
  by (simp add: auth_ok_def)

section \<open>Properties\<close>

lemma upsert_wf:
  "node_wf (ROLE_NAME_NO_ACCESS api) tree \<Longrightarrow> node_wf (ROLE_NAME_NO_ACCESS api) (insert_user_role api path a role p tree)"
  "node_wf (ROLE_NAME_NO_ACCESS api) tree \<Longrightarrow> node_wf (ROLE_NAME_NO_ACCESS api) (insert_group_role api path g role p tree)"
  unfolding insert_user_role_def insert_group_role_def get_or_insert_node_def components_split_acl_path
  by (rule node_wf_upsert; auto simp: node_wf_iff node_insert_user_role_def node_insert_group_role_def split_acl_path_ok intro: who_map_ok_insert)+

lemma who_map_ok_map_entry:
  assumes "who_map_ok na m" "\<And>rs. role_map_ok na rs \<Longrightarrow> role_map_ok na (f rs)"
  shows "who_map_ok na (AList.map_entry k f m)"
proof -
  have "map fst (AList.map_entry k f m) = map fst m" by (induction m) auto
  moreover have "\<forall>p \<in> set (AList.map_entry k f m). role_map_ok na (snd p)"
    using assms(1) unfolding who_map_ok_def by (induction m) (auto simp: assms(2))
  ultimately show ?thesis using assms(1) by (simp add: who_map_ok_def)
qed

lemma unless_missing_wf:
  assumes "node_wf na tree" "\<And>n. node_wf na n \<Longrightarrow> node_wf na (f n)"
  shows "node_wf na (unless_missing (get_node_mut f path tree) tree)"
  using assms(1) node_wf_modify [of na f tree "components path", OF assms(2,1)]
  by (cases "modify_node f (components path) tree") (simp_all add: unless_missing_def get_node_mut_def)

lemma delete_wf:
  "node_wf na tree \<Longrightarrow> node_wf na (delete_user_role path a role tree)"
  "node_wf na tree \<Longrightarrow> node_wf na (delete_group_role path g role tree)"
  "node_wf na tree \<Longrightarrow> node_wf na (delete_authid a tree)"
  "node_wf na tree \<Longrightarrow> node_wf na (delete_node path tree)"
proof -
  assume wf: "node_wf na tree"
  show "node_wf na (delete_user_role path a role tree)" "node_wf na (delete_group_role path g role tree)"
    unfolding delete_user_role_def delete_group_role_def
    by (rule unless_missing_wf [OF wf],
        simp add: node_wf_iff [of na] node_delete_user_role_def node_delete_group_role_def who_map_ok_map_entry role_map_ok_delete)+
  show "node_wf na (delete_authid a tree)" using wf by (simp add: delete_authid_def node_wf_delete_authid)
  have "node_wf na (AclTreeNode (users n) (groups n) (AList.delete c (children n)))" if "node_wf na n" for n c
    using that node_wf_iff [of na n] by (auto simp: alist_delete_filter children_wf_iff sorted_wrt_map sorted_wrt_filter)
  then have "node_wf na (unless_missing (get_node_mut (\<lambda>n. AclTreeNode (users n) (groups n) (AList.delete c (children n))) cs tree) tree)" for c cs
    by (rule unless_missing_wf [OF wf])
  then show "node_wf na (delete_node path tree)" using wf by (simp add: delete_node_def Let_def)
qed

text \<open>
  Every operation keeps the tree well-formed: maps without duplicates, children in order with non-empty
  names without slash, and nobody has another role beside \<open>NoAccess\<close> at a node.
\<close>

theorem acl_ops_keep_wf:
  assumes "node_wf (ROLE_NAME_NO_ACCESS api) tree"
  shows "node_wf (ROLE_NAME_NO_ACCESS api) (insert_user_role api path a role p tree) \<and>
    node_wf (ROLE_NAME_NO_ACCESS api) (insert_group_role api path g role p tree) \<and>
    node_wf (ROLE_NAME_NO_ACCESS api) (delete_user_role path a role tree) \<and>
    node_wf (ROLE_NAME_NO_ACCESS api) (delete_group_role path g role tree) \<and>
    node_wf (ROLE_NAME_NO_ACCESS api) (delete_node path tree) \<and>
    node_wf (ROLE_NAME_NO_ACCESS api) (delete_authid a tree)"
  using assms by (simp add: upsert_wf delete_wf)

lemma sample_tree_wf: "node_wf ''NoAccess'' sample_tree"
  using upsert_wf(1) [of sample_api] by (simp add: sample_tree_def)

theorem acl_ops_keep_wf_witness: "node_wf ''NoAccess'' (delete_authid (''u@pbs'', None) (delete_node ''/datastore'' sample_tree))"
  using acl_ops_keep_wf [of sample_api sample_tree "''/datastore''"]
    acl_ops_keep_wf [of sample_api "delete_node ''/datastore'' sample_tree" "''x''" "(''u@pbs'', None)"] sample_tree_wf by simp

text \<open>
  \<^verbatim>\<open>roles\<close> returns the most specific roles along the path: of the nodes on it that give the user any role, the
  last one counts alone. A node gives the roles with the propagate flag, and at the end of the path all
  roles; if \<open>NoAccess\<close> is among them it is the only one. This holds whatever the order of the hash maps is.
\<close>

theorem roles_most_specific:
  assumes "node_wf (ROLE_NAME_NO_ACCESS api) tree"
  shows "map_of (roles api tree a path) =
    effective (ROLE_NAME_NO_ACCESS api) (\<lambda>cs. acl_of tree cs (Inl a)) (components path)"
  using assms by (rule roles_effective)

theorem roles_most_specific_witness:
  "map_of (roles sample_api sample_tree (''u@pbs'', None) [''datastore'', ''s1/ns'']) =
    effective ''NoAccess'' (\<lambda>cs. acl_of sample_tree cs (Inl (''u@pbs'', None))) [''datastore'', ''s1'', ''ns'']"
  using roles_most_specific [of sample_api sample_tree "(''u@pbs'', None)" "[''datastore'', ''s1/ns'']"] sample_tree_wf
  by (simp add: components_def)

text \<open>
  C10. \<^verbatim>\<open>check_privs\<close> always returns, and it accepts exactly if the required privileges (or one of them, if \<open>partial\<close>) are
  given by roles that are effective on the path; for a token they must also be given to its owner, so a
  token never has a privilege that its owner lacks. The superuser has those of an administrator.
\<close>

theorem check_privs_exact:
  assumes "auth_ok api" "node_wf (ROLE_NAME_NO_ACCESS api) (acl_tree info)"
  shows "check_privs api info a path required partial =
    Some (if (if partial then \<exists>k. bit required k \<and> allowed api info a path k
              else \<forall>k. bit required k \<longrightarrow> allowed api info a path k)
          then Ok () else Err ''missing permissions'')"
proof -
  obtain privs where p: "lookup_privs api info a path = Some privs" "\<And>k. bit privs k \<longleftrightarrow> allowed api info a path k"
    using lookup_privs_bit [OF assms, where a = a and path = path] by blast
  have "privs AND required \<noteq> 0 \<longleftrightarrow> (\<exists>k. bit required k \<and> allowed api info a path k)"
    by (auto simp: word_eq_0_iff_bits bit_and_iff p(2))
  moreover have "privs AND required = required \<longleftrightarrow> (\<forall>k. bit required k \<longrightarrow> allowed api info a path k)"
    using bit_imp_le_length [of required] by (auto simp: bit_eq_iff bit_and_iff p(2))
  ultimately show ?thesis using p(1) by (simp add: check_privs_def)
qed

theorem check_privs_exact_witness:
  "check_privs sample_api sample_info (''u@pbs'', Some ''t'') [''datastore'', ''s1''] 1 False = Some (Ok ()) \<and>
   \<not> allowed sample_api sample_info (''u@pbs'', Some ''t'') [''datastore'', ''s1''] 1"
proof -
  have e: "own_privs sample_api sample_info (''u@pbs'', None) [''datastore'', ''s1''] = (1, 1)"
    "own_privs sample_api sample_info (''u@pbs'', Some ''t'') [''datastore'', ''s1''] = (7, 0)" by code_simp+
  have "check_privs sample_api sample_info (''u@pbs'', Some ''t'') [''datastore'', ''s1''] r False =
      Some (if 1 AND r = r then Ok () else Err ''missing permissions'')" for r
    using e by (simp add: check_privs_def lookup_privs_def lookup_privs_details_eq [OF sample_auth_ok])
  from this [of 1] this [of 2] show ?thesis
    using check_privs_exact [OF sample_auth_ok, of sample_info "(''u@pbs'', Some ''t'')" "[''datastore'', ''s1'']" 2 False]
      sample_tree_wf
    by (auto simp: sample_info_def bit_2_iff split: if_splits)
qed

end
