(* ===== verification/AclText.thy ===== *)
theory AclText
  imports Acl
begin

text \<open>
  The ACL file: what \<^verbatim>\<open>write_config\<close> writes for a tree is read by \<^verbatim>\<open>from_raw\<close> and \<^verbatim>\<open>load\<close> as a tree with the same roles. The
  entries of the superuser, which has all privileges anyway, are not written.
\<close>

section \<open>Sets of entries\<close>

type_synonym 'a fact = "string list \<times> ('a + string) \<times> string \<times> bool"

definition acl_is :: "'a AclTree \<Rightarrow> 'a fact set \<Rightarrow> bool" where
  "acl_is tree F \<longleftrightarrow> (\<forall>cs who r p. acl_of tree cs who r = Some p \<longleftrightarrow> (cs, who, r, p) \<in> F)"

text \<open>A role has one flag, and \<open>NoAccess\<close> stands alone.\<close>

definition consistent :: "string \<Rightarrow> 'a fact set \<Rightarrow> bool" where
  "consistent na F \<longleftrightarrow>
     (\<forall>cs who r p r' p'. (cs, who, r, p) \<in> F \<longrightarrow> (cs, who, r', p') \<in> F \<longrightarrow> (r = r' \<longrightarrow> p = p') \<and> (r = na \<longrightarrow> r' = na))"

lemma consistent_mono: "consistent na F \<Longrightarrow> G \<subseteq> F \<Longrightarrow> consistent na G"
  unfolding consistent_def by blast

lemma consistentD:
  "consistent na F \<Longrightarrow> (cs, who, r, p) \<in> F \<Longrightarrow> (cs, who, r', p') \<in> F \<Longrightarrow> (r = r' \<longrightarrow> p = p') \<and> (r = na \<longleftrightarrow> r' = na)"
  unfolding consistent_def by blast

lemma acl_is_new: "acl_is AclTreeNode_new {}"
  by (simp add: acl_is_def)

text \<open>Inserting an entry that fits the others adds it.\<close>

definition node_insert :: "('a, 'u) api_types \<Rightarrow> 'a + string \<Rightarrow> string \<Rightarrow> bool \<Rightarrow> 'a AclTreeNode \<Rightarrow> 'a AclTreeNode" where
  "node_insert api who r p = (case who of Inl a \<Rightarrow> node_insert_user_role api a r p | Inr g \<Rightarrow> node_insert_group_role api g r p)"

lemma children_node_insert: "children (node_insert api who r p n) = children n"
  by (simp add: node_insert_def node_insert_user_role_def node_insert_group_role_def split: sum.split)

lemma node_acl_node_insert:
  "node_acl (node_insert api who r p n) =
     (node_acl n)(who := if r = ROLE_NAME_NO_ACCESS api then [r \<mapsto> p] else ((node_acl n who)(ROLE_NAME_NO_ACCESS api := None))(r \<mapsto> p))"
  by (simp add: node_insert_def node_acl_insert_role split: sum.split)

lemma acl_of_walk: "node_acl (case walk tree cs of Some n \<Rightarrow> n | None \<Rightarrow> AclTreeNode_new) = acl_of tree cs"
  by (auto simp: acl_of_def fun_eq_iff split: option.split)

lemma acl_is_insert:
  assumes "acl_is tree F" "consistent (ROLE_NAME_NO_ACCESS api) (insert (cs, who, r, p) F)"
  shows "acl_is (upsert_node (node_insert api who r p) cs tree) (insert (cs, who, r, p) F)"
proof -
  let ?na = "ROLE_NAME_NO_ACCESS api"
  define x where "x = acl_of tree cs who"
  have x: "x r' = Some p' \<longleftrightarrow> (cs, who, r', p') \<in> F" for r' p'
    using assms(1) by (simp add: acl_is_def x_def)
  have fit: "(r = r' \<longrightarrow> p = p') \<and> (r = ?na \<longleftrightarrow> r' = ?na)" if "x r' = Some p'" for r' p'
    using consistentD [OF assms(2), of cs who r p r' p'] that x by simp
  have none: "x r' = None" if "r' \<noteq> r" "r = ?na \<or> r' = ?na" for r'
  proof (rule ccontr)
    assume "x r' \<noteq> None"
    then obtain p' where "x r' = Some p'" by blast
    from fit [OF this] that show False by blast
  qed
  have upd: "(if r = ?na then [r \<mapsto> p] else (x(?na := None))(r \<mapsto> p)) = x(r \<mapsto> p)"
    by (intro ext) (simp add: none)
  have acl: "acl_of (upsert_node (node_insert api who r p) cs tree) ds =
      (if ds = cs then (acl_of tree cs)(who := x(r \<mapsto> p)) else acl_of tree ds)" for ds
    unfolding acl_of_upsert [of "node_insert api who r p", OF children_node_insert] node_acl_node_insert acl_of_walk x_def [symmetric] upd ..
  show ?thesis
    unfolding acl_is_def
  proof (intro allI)
    fix ds w r' p'
    have "acl_of tree ds w r' = Some p' \<longleftrightarrow> (ds, w, r', p') \<in> F" using assms(1) by (simp add: acl_is_def)
    moreover have "(cs, who, r, p') \<in> F \<Longrightarrow> p' = p" using fit [of r p'] x by simp
    ultimately show "acl_of (upsert_node (node_insert api who r p) cs tree) ds w r' = Some p' \<longleftrightarrow> (ds, w, r', p') \<in> insert (cs, who, r, p) F"
      unfolding acl using x [of r' p'] by (simp, blast)
  qed
qed

lemma acl_is_id: "acl_is tree F \<Longrightarrow> acl_is (upsert_node id cs tree) F"
  by (simp add: acl_is_def acl_of_upsert acl_of_walk)

section \<open>Lines\<close>

text \<open>A word of a list in a line: not empty, without white space, comma and colon.\<close>

definition word_ok :: "string \<Rightarrow> bool" where
  "word_ok s \<longleftrightarrow> s \<noteq> [] \<and> (\<forall>c \<in> set s. \<not> is_ws c \<and> c \<noteq> CHR '','' \<and> c \<noteq> CHR '':'')"

definition role_ok :: "('a, 'u) api_types \<Rightarrow> string \<Rightarrow> bool" where
  "role_ok api r \<longleftrightarrow> word_ok r \<and> ROLE_NAMES api r \<noteq> None"

definition comp_ok :: "string \<Rightarrow> bool" where
  "comp_ok c \<longleftrightarrow> name_ok c \<and> CHR '':'' \<notin> set c \<and> CHR 10 \<notin> set c"

definition parse_who :: "('a, 'u) api_types \<Rightarrow> string \<Rightarrow> ('a + string) option" where
  "parse_who api ug =
     (if ug \<noteq> [] \<and> hd ug = CHR ''@'' then Some (Inr (tl ug))
      else (case auth_parse api ug of Inl _ \<Rightarrow> None | Inr a \<Rightarrow> Some (Inl a)))"

lemma insert_all_step:
  assumes "parse_who api ug = Some who" "ROLE_NAMES api r \<noteq> None"
  shows "insert_all api path p ((ug, r) # todo) tree = insert_all api path p todo (upsert_node (node_insert api who r p) (components path) tree)"
  using assms by (auto simp: parse_who_def node_insert_def get_or_insert_node_def split: if_splits sum.splits)

definition pair_facts :: "('a, 'u) api_types \<Rightarrow> string list \<Rightarrow> bool \<Rightarrow> (string \<times> string) set \<Rightarrow> 'a fact set" where
  "pair_facts api cs p P = {(cs, who, r, p) |who r. \<exists>ug. (ug, r) \<in> P \<and> parse_who api ug = Some who}"

lemma insert_all_facts:
  assumes "\<forall>(ug, r) \<in> set ps. parse_who api ug \<noteq> None \<and> ROLE_NAMES api r \<noteq> None" "components path = cs"
    "consistent (ROLE_NAME_NO_ACCESS api) A"
  shows "acl_is tree F \<Longrightarrow> F \<union> pair_facts api cs p (set ps) \<subseteq> A \<Longrightarrow>
    \<exists>tree'. insert_all api path p ps tree = (Ok (), tree') \<and> acl_is tree' (F \<union> pair_facts api cs p (set ps))"
  using assms(1)
proof (induction ps arbitrary: tree F)
  case (Cons x ps)
  obtain ug r where x: "x = (ug, r)" by fastforce
  with Cons.prems obtain who where who: "parse_who api ug = Some who" "ROLE_NAMES api r \<noteq> None" by auto
  have pf: "pair_facts api cs p (set (x # ps)) = insert (cs, who, r, p) (pair_facts api cs p (set ps))"
    using who(1) by (auto simp: pair_facts_def x)
  have "acl_is (upsert_node (node_insert api who r p) cs tree) (insert (cs, who, r, p) F)"
    using Cons.prems consistent_mono [OF assms(3)] pf by (intro acl_is_insert) auto
  then show ?case
    using Cons.IH [of "upsert_node (node_insert api who r p) cs tree" "insert (cs, who, r, p) F"] Cons.prems pf
    by (simp add: x insert_all_step [OF who] assms(2) del: insert_all.simps)
qed (simp add: pair_facts_def)

text \<open>\<open>good_lines A ls G\<close>: read in a tree with entries of the consistent set \<open>A\<close>, the lines add the entries \<open>G\<close>.\<close>

definition good_line :: "('a, 'u) api_types \<Rightarrow> 'a fact set \<Rightarrow> string \<Rightarrow> 'a fact set \<Rightarrow> bool" where
  "good_line api A l G \<longleftrightarrow> l \<noteq> [] \<and> str_trim l = l \<and> CHR 10 \<notin> set l \<and> last l \<noteq> CHR 13 \<and>
     (\<forall>tree F. acl_is tree F \<longrightarrow> F \<union> G \<subseteq> A \<longrightarrow>
       (\<exists>tree'. parse_acl_line api l tree = (Ok (), tree') \<and> acl_is tree' (F \<union> G)))"

definition good_lines :: "('a, 'u) api_types \<Rightarrow> 'a fact set \<Rightarrow> string list \<Rightarrow> 'a fact set \<Rightarrow> bool" where
  "good_lines api A ls G \<longleftrightarrow> (\<exists>Gs. list_all2 (good_line api A) ls Gs \<and> G = \<Union> (set Gs))"

lemma good_lines_Nil: "good_lines api A [] {}"
  by (auto simp: good_lines_def)

lemma good_lines_append: "good_lines api A ls G \<Longrightarrow> good_lines api A ls' G' \<Longrightarrow> good_lines api A (ls @ ls') (G \<union> G')"
  unfolding good_lines_def by (metis Union_Un_distrib list_all2_appendI set_append)

lemma good_lines_map:
  assumes "\<And>x. x \<in> set xs \<Longrightarrow> good_line api A (f x) (g x)"
  shows "good_lines api A (map f xs) (\<Union> (g ` set xs))"
  unfolding good_lines_def using assms by (intro exI [of _ "map g xs"]) (simp add: list_all2_conv_all_nth)

lemma parse_lines_good:
  "list_all2 (good_line api A) ls Gs \<Longrightarrow> acl_is tree F \<Longrightarrow> F \<union> \<Union> (set Gs) \<subseteq> A \<Longrightarrow>
   \<exists>tree'. parse_lines api ls tree = Ok tree' \<and> acl_is tree' (F \<union> \<Union> (set Gs))"
proof (induction ls Gs arbitrary: tree F rule: list_all2_induct)
  case (Cons l ls G Gs)
  then have "F \<union> G \<subseteq> A" by auto
  then obtain t where t: "parse_acl_line api l tree = (Ok (), t)" "acl_is t (F \<union> G)"
    using Cons.hyps(1) Cons.prems(1) unfolding good_line_def by blast
  then show ?case
    using Cons.IH [of t "F \<union> G"] Cons.prems(2) Cons.hyps(1) by (simp add: good_line_def Let_def Un_assoc)
qed simp

section \<open>The text of a line\<close>

lemma comma_list_join: "\<forall>s \<in> set vs. word_ok s \<Longrightarrow> comma_list vs = join_with (CHR '','') vs"
  unfolding comma_list_def by (rule fold_push_sep) (auto simp: word_ok_def)

lemma split_comma_list: "vs \<noteq> [] \<Longrightarrow> \<forall>s \<in> set vs. word_ok s \<Longrightarrow> split_on (CHR '','') (comma_list vs) = vs"
  unfolding comma_list_join by (rule split_on_join) (auto simp: word_ok_def)

lemma comma_list_chars:
  assumes "\<forall>s \<in> set vs. word_ok s" "c \<in> set (comma_list vs)"
  shows "\<not> is_ws c \<and> c \<noteq> CHR '':''"
proof -
  have "c = CHR '','' \<or> (\<exists>s \<in> set vs. c \<in> set s)"
    using assms set_join_with [of "CHR '',''" vs] unfolding comma_list_join [OF assms(1)] by blast
  moreover have "\<not> is_ws (CHR '','')" by (simp add: is_ws_def)
  ultimately show ?thesis using assms(1) unfolding word_ok_def by blast
qed

lemma comma_list_not_Nil: "vs \<noteq> [] \<Longrightarrow> \<forall>s \<in> set vs. word_ok s \<Longrightarrow> comma_list vs \<noteq> []"
  by (cases vs rule: remdups_adj.cases) (auto simp: comma_list_join word_ok_def)

lemma trim_words: "\<forall>s \<in> set vs. word_ok s \<Longrightarrow> map str_trim vs = vs"
  by (intro map_idI str_trim_plain) (auto simp: word_ok_def)

definition path_str :: "string list \<Rightarrow> string" where
  "path_str cs = concat (map (\<lambda>c. ''/'' @ c) cs)"

lemma split_path_str:
  "CHR ''/'' \<notin> set s \<Longrightarrow> \<forall>c \<in> set cs. name_ok c \<Longrightarrow> split_on (CHR ''/'') (s @ path_str cs) = s # cs"
proof (induction cs arbitrary: s)
  case (Cons c cs)
  then show ?case using Cons.IH [of c] by (simp add: path_str_def name_ok_def split_on_append)
qed (simp add: path_str_def split_on_plain)

lemma split_acl_path_str:
  assumes "\<forall>c \<in> set cs. name_ok c"
  shows "split_acl_path (if path_str cs = [] then ''/'' else path_str cs) = cs"
proof (cases cs)
  case (Cons c cs')
  have "filter (\<lambda>name. name \<noteq> []) cs = cs" using assms by (intro filter_True) (simp add: name_ok_def)
  then show ?thesis using split_path_str [of "[]" cs] assms Cons by (simp add: split_acl_path_def path_str_def)
qed (simp add: path_str_def split_acl_path_def)

lemma path_str_chars: "\<forall>c \<in> set cs. comp_ok c \<Longrightarrow> CHR '':'' \<notin> set (path_str cs) \<and> CHR 10 \<notin> set (path_str cs)"
  by (auto simp: path_str_def comp_ok_def)

lemma components_names: "\<forall>c \<in> set cs. name_ok c \<Longrightarrow> components cs = cs"
  by (induction cs) (simp_all add: components_def name_ok_def split_on_plain)

lemma role_list_split:
  assumes "rs \<noteq> []" "\<forall>r \<in> set rs. role_ok api r" "ROLE_NAME_NO_ACCESS api \<in> set rs \<longrightarrow> set rs = {ROLE_NAME_NO_ACCESS api}"
  obtains rs' where "role_list api rs = comma_list rs'" "set rs' = set rs" "rs' \<noteq> []" "\<forall>r \<in> set rs'. word_ok r"
proof (cases "ROLE_NAME_NO_ACCESS api \<in> set rs")
  case True
  then show ?thesis
    using assms that [of "[ROLE_NAME_NO_ACCESS api]"] by (simp add: role_list_def comma_list_def push_sep_def role_ok_def)
next
  case False
  then show ?thesis using assms that [of rs] by (simp add: role_list_def role_ok_def)
qed

lemma parse_acl_line_text:
  assumes "CHR '':'' \<notin> set flag" "CHR '':'' \<notin> set path" "CHR '':'' \<notin> set ugs" "CHR '':'' \<notin> set rls"
  shows "split_on (CHR '':'') (''acl:'' @ flag @ '':'' @ path @ '':'' @ ugs @ '':'' @ rls) = [''acl'', flag, path, ugs, rls]"
  using assms by (simp add: split_on_append split_on_plain)

lemma good_acl_line:
  assumes "vs \<noteq> []" "\<forall>ug \<in> set vs. word_ok ug \<and> parse_who api ug \<noteq> None" "rs \<noteq> []" "\<forall>r \<in> set rs. role_ok api r"
    "ROLE_NAME_NO_ACCESS api \<in> set rs \<longrightarrow> set rs = {ROLE_NAME_NO_ACCESS api}" "\<forall>c \<in> set cs. comp_ok c"
    "consistent (ROLE_NAME_NO_ACCESS api) A"
  shows "good_line api A (acl_line api (if p then ''1'' else ''0'') (path_str cs) (comma_list vs, rs)) (pair_facts api cs p (set vs \<times> set rs))"
proof -
  obtain rs' where rs': "role_list api rs = comma_list rs'" "set rs' = set rs" "rs' \<noteq> []" "\<forall>r \<in> set rs'. word_ok r"
    using role_list_split [OF assms(3,4,5)] .
  define path where "path = (if path_str cs = [] then ''/'' else path_str cs)"
  define l where "l = acl_line api (if p then ''1'' else ''0'') (path_str cs) (comma_list vs, rs)"
  have l: "l = ''acl:'' @ (if p then ''1'' else ''0'') @ '':'' @ path @ '':'' @ comma_list vs @ '':'' @ comma_list rs'"
    by (simp add: l_def acl_line_def rs'(1) path_def)
  have names: "\<forall>c \<in> set cs. name_ok c" using assms(6) by (simp add: comp_ok_def)
  have chars: "CHR '':'' \<notin> set path" "CHR 10 \<notin> set path" using path_str_chars [OF assms(6)] by (auto simp: path_def)
  have vs: "\<forall>s \<in> set vs. word_ok s" using assms(2) by blast
  have items: "split_on (CHR '':'') l = [''acl'', if p then ''1'' else ''0'', path, comma_list vs, comma_list rs']"
    unfolding l using chars comma_list_chars [OF vs] comma_list_chars [OF rs'(4)] by (intro parse_acl_line_text) auto
  have parse: "parse_acl_line api l tree = insert_all api cs p (List.product vs rs') (upsert_node id cs tree)" for tree
    using split_acl_path_str [OF names] split_comma_list [OF assms(1) vs] split_comma_list [OF rs'(3,4)] trim_words [OF vs] trim_words [OF rs'(4)]
    by (simp add: parse_acl_line_def items Let_def path_def get_or_insert_node_def components_names [OF names])
  have ends: "last l = last (comma_list rs')" "comma_list rs' \<noteq> []" "hd l = CHR ''a''" "l \<noteq> []"
    using comma_list_not_Nil [OF rs'(3,4)] by (simp_all add: l)
  have last: "\<not> is_ws (last l)" using ends comma_list_chars [OF rs'(4), of "last l"] by simp
  have "CHR 10 \<notin> set l" "last l \<noteq> CHR 13"
    using chars comma_list_chars [OF vs, of "CHR 10"] comma_list_chars [OF rs'(4), of "CHR 10"] last by (auto simp: l is_ws_def)
  moreover have "str_trim l = l" using last ends by (intro str_trim_id) (simp add: is_ws_def)
  moreover have "\<exists>tree'. parse_acl_line api l tree = (Ok (), tree') \<and> acl_is tree' (F \<union> pair_facts api cs p (set vs \<times> set rs))"
    if "acl_is tree F" "F \<union> pair_facts api cs p (set vs \<times> set rs) \<subseteq> A" for tree F
    using insert_all_facts [of "List.product vs rs'" api cs cs A "upsert_node id cs tree" F p] that assms acl_is_id [OF that(1)] rs'(2)
    by (auto simp: parse components_names [OF names] role_ok_def)
  ultimately show ?thesis using ends by (simp add: good_line_def l_def [symmetric])
qed

section \<open>The maps of the writer\<close>

text \<open>\<open>entries m\<close> are the pairs of a map to sets; the maps never have duplicate keys or empty sets.\<close>

definition entries :: "('k \<times> string list) list \<Rightarrow> ('k \<times> string) set" where
  "entries m = {(k, v). \<exists>vs. (k, vs) \<in> set m \<and> v \<in> set vs}"

definition setmap_ok :: "('k \<times> string list) list \<Rightarrow> bool" where
  "setmap_ok m \<longleftrightarrow> distinct (map fst m) \<and> (\<forall>p \<in> set m. snd p \<noteq> [])"

lemma entries_map_of: "distinct (map fst m) \<Longrightarrow> (k, v) \<in> entries m \<longleftrightarrow> (\<exists>vs. map_of m k = Some vs \<and> v \<in> set vs)"
  by (simp add: entries_def)

lemma set_btset_insert [simp]: "set (btset_insert k ks) = insert k (set ks)"
  by (induction k ks rule: btset_insert.induct) auto

lemma btset_insert_not_Nil [simp]: "btset_insert k ks \<noteq> []"
  by (cases ks) auto

lemma entries_entry_insert:
  assumes "setmap_ok m"
  shows "setmap_ok (entry_insert k v m)" "entries (entry_insert k v m) = insert (k, v) (entries m)"
proof -
  define vs where "vs = btset_insert v (case map_of m k of Some vs \<Rightarrow> vs | None \<Rightarrow> [])"
  have e: "entry_insert k v m = AList.update k vs m" and ne: "vs \<noteq> []"
    by (simp_all add: entry_insert_def vs_def)
  have d: "distinct (map fst m)" "distinct (map fst (AList.update k vs m))" using assms by (simp_all add: setmap_ok_def distinct_update)
  show "setmap_ok (entry_insert k v m)"
    using assms set_update_subset [of k vs m] ne d unfolding setmap_ok_def e by fastforce
  show "entries (entry_insert k v m) = insert (k, v) (entries m)"
    unfolding e set_eq_iff split_paired_All entries_map_of [OF d(2)] insert_iff entries_map_of [OF d(1)] update_conv'
    by (auto simp: vs_def split: option.split)
qed

lemma entries_btree_insert:
  assumes "setmap_ok m" "sorted_wrt (<) (map fst m)"
  shows "setmap_ok (btree_entry_insert k v m)" "sorted_wrt (<) (map fst (btree_entry_insert k v m))"
    "entries (btree_entry_insert k v m) = insert (k, v) (entries m)"
proof -
  define vs where "vs = btset_insert v (case map_of m k of Some vs \<Rightarrow> vs | None \<Rightarrow> [])"
  have e: "btree_entry_insert k v m = btree_insert k vs m" and ne: "vs \<noteq> []"
    by (simp_all add: btree_entry_insert_def vs_def)
  show s: "sorted_wrt (<) (map fst (btree_entry_insert k v m))" unfolding e by (rule sorted_btree_insert [OF assms(2)])
  have d: "distinct (map fst m)" "distinct (map fst (btree_insert k vs m))"
    using assms(2) s strict_sorted_iff unfolding e by blast+
  show "setmap_ok (btree_entry_insert k v m)"
    using assms(1) set_btree_insert [of k vs m] ne d unfolding setmap_ok_def e by fastforce
  show "entries (btree_entry_insert k v m) = insert (k, v) (entries m)"
    unfolding e set_eq_iff split_paired_All entries_map_of [OF d(2)] insert_iff entries_map_of [OF d(1)] map_of_btree_insert
    by (auto simp: vs_def split: option.split)
qed

lemma group_by_entries:
  "setmap_ok (group_by_property_list m) \<and> entries (group_by_property_list m) = {(comma_list vs, r) |r vs. (r, vs) \<in> set m}"
proof -
  have "setmap_ok acc \<Longrightarrow> sorted_wrt (<) (map fst acc) \<Longrightarrow>
    setmap_ok (fold (\<lambda>(item, vs). btree_entry_insert (comma_list vs) item) m acc) \<and>
    entries (fold (\<lambda>(item, vs). btree_entry_insert (comma_list vs) item) m acc) = entries acc \<union> {(comma_list vs, r) |r vs. (r, vs) \<in> set m}" for acc
  proof (induction m arbitrary: acc)
    case (Cons x m)
    obtain r vs where x: "x = (r, vs)" by fastforce
    show ?case
      using Cons.IH [of "btree_entry_insert (comma_list vs) r acc"] entries_btree_insert [OF Cons.prems, of "comma_list vs" r] by (auto simp: x)
  qed simp
  from this [of "[]"] show ?thesis by (simp add: group_by_property_list_def setmap_ok_def) (simp add: entries_def)
qed

fun sel :: "bool \<Rightarrow> 'x \<times> 'x \<Rightarrow> 'x" where
  "sel p (m0, m1) = (if p then m1 else m0)"

lemma add_ug_entries:
  "setmap_ok (sel False ms) \<Longrightarrow> setmap_ok (sel True ms) \<Longrightarrow>
   setmap_ok (sel p (add_ug ug rs ms)) \<and> entries (sel p (add_ug ug rs ms)) = entries (sel p ms) \<union> {(r, ug) |r. (r, p) \<in> set rs}"
proof (induction ug rs ms arbitrary: p rule: add_ug.induct)
  case (2 ug r q rs m0 m1)
  then show ?case
    using entries_entry_insert [of m0 r ug] entries_entry_insert [of m1 r ug] by (cases q; cases p) auto
qed auto

definition ug_pairs :: "('k \<Rightarrow> string) \<Rightarrow> ('k \<Rightarrow> bool) \<Rightarrow> bool \<Rightarrow> ('k \<times> roles) list \<Rightarrow> (string \<times> string) set" where
  "ug_pairs f skip p xs = {(r, f k) |r k. \<not> skip k \<and> (\<exists>rs. (k, rs) \<in> set xs \<and> (r, p) \<in> set rs)}"

lemma ug_pairs_Cons:
  "ug_pairs f skip p ((k, rs) # xs) = (if skip k then {} else {(r, f k) |r. (r, p) \<in> set rs}) \<union> ug_pairs f skip p xs"
  unfolding ug_pairs_def by auto

lemma fold_add_ug_entries:
  "setmap_ok (sel False ms) \<Longrightarrow> setmap_ok (sel True ms) \<Longrightarrow>
   setmap_ok (sel p (fold (\<lambda>(k, rs) maps. if skip k then maps else add_ug (f k) rs maps) xs ms)) \<and>
   entries (sel p (fold (\<lambda>(k, rs) maps. if skip k then maps else add_ug (f k) rs maps) xs ms)) = entries (sel p ms) \<union> ug_pairs f skip p xs"
proof (induction xs arbitrary: ms)
  case (Cons x xs)
  obtain k rs where x: "x = (k, rs)" by fastforce
  show ?case
  proof (cases "skip k")
    case True
    then show ?thesis using Cons by (simp add: x ug_pairs_Cons)
  next
    case False
    have ok: "setmap_ok (sel q (add_ug (f k) rs ms))" for q using add_ug_entries [OF Cons.prems] by blast
    have "entries (sel p (add_ug (f k) rs ms)) = entries (sel p ms) \<union> {(r, f k) |r. (r, p) \<in> set rs}"
      using add_ug_entries [OF Cons.prems] by blast
    then show ?thesis using Cons.IH [OF ok ok] False by (simp add: x ug_pairs_Cons Un_assoc)
  qed
qed (cases p; simp add: ug_pairs_def)

text \<open>What the maps hold: the entries of the node, less those of the superuser.\<close>

definition who_str :: "('a, 'u) api_types \<Rightarrow> 'a + string \<Rightarrow> string" where
  "who_str api who = (case who of Inl a \<Rightarrow> auth_to_string api a | Inr g \<Rightarrow> CHR ''@'' # g)"

definition kept :: "('a, 'u) api_types \<Rightarrow> 'a + string \<Rightarrow> bool" where
  "kept api who = (case who of Inl a \<Rightarrow> \<not> is_root_user api a | Inr g \<Rightarrow> True)"

lemma map_of_pairs:
  assumes "who_map_ok na m"
  shows "(\<exists>rs. (w, rs) \<in> set m \<and> (r, p) \<in> set rs) \<longleftrightarrow> (case map_of m w of None \<Rightarrow> Map.empty | Some rs \<Rightarrow> map_of rs) r = Some p"
proof -
  have d: "distinct (map fst m)" using assms by (simp add: who_map_ok_def)
  have in_m: "(w, rs) \<in> set m \<longleftrightarrow> map_of m w = Some rs" for rs using d by simp
  have "(r, p) \<in> set rs \<longleftrightarrow> map_of rs r = Some p" if "map_of m w = Some rs" for rs
    using who_map_ok_get [OF assms that] by (simp add: role_map_ok_def)
  then show ?thesis unfolding in_m by (cases "map_of m w") simp_all
qed

lemma role_ug_maps_entries:
  assumes "node_wf na node"
  shows "setmap_ok (sel p (role_ug_maps api node)) \<and>
    entries (sel p (role_ug_maps api node)) = {(r, who_str api who) |r who. kept api who \<and> node_acl node who r = Some p}"
proof -
  define m1 where "m1 = fold (\<lambda>(auth_id, rs) maps. if is_root_user api auth_id then maps else add_ug (auth_to_string api auth_id) rs maps) (users node) ([], [])"
  have wf: "who_map_ok na (users node)" "who_map_ok na (groups node)" using assms node_wf_iff by blast+
  have m1: "setmap_ok (sel q m1) \<and> entries (sel q m1) = ug_pairs (auth_to_string api) (is_root_user api) q (users node)" for q
    using fold_add_ug_entries [of "([], [])" q "is_root_user api" "auth_to_string api" "users node"]
    by (simp add: m1_def setmap_ok_def) (simp add: entries_def)
  have "role_ug_maps api node = fold (\<lambda>(grp, rs) maps. if False then maps else add_ug (CHR ''@'' # grp) rs maps) (groups node) m1"
    by (simp add: role_ug_maps_def m1_def)
  then have "setmap_ok (sel p (role_ug_maps api node)) \<and> entries (sel p (role_ug_maps api node)) =
      ug_pairs (auth_to_string api) (is_root_user api) p (users node) \<union> ug_pairs (\<lambda>g. CHR ''@'' # g) (\<lambda>_. False) p (groups node)"
    using fold_add_ug_entries [of m1 p "\<lambda>_. False" "\<lambda>g. CHR ''@'' # g" "groups node"] m1 by simp
  moreover have "ug_pairs (auth_to_string api) (is_root_user api) p (users node) \<union> ug_pairs (\<lambda>g. CHR ''@'' # g) (\<lambda>_. False) p (groups node) =
      {(r, who_str api who) |r who. kept api who \<and> node_acl node who r = Some p}"
    unfolding ug_pairs_def map_of_pairs [OF wf(1)] map_of_pairs [OF wf(2)]
    by (simp add: split_sum_ex node_acl_def who_str_def kept_def Collect_disj_eq [symmetric] ex_disj_distrib)
  ultimately show ?thesis by simp
qed

section \<open>Writing and reading a tree\<close>

definition who_ok :: "('a, 'u) api_types \<Rightarrow> 'a + string \<Rightarrow> bool" where
  "who_ok api who \<longleftrightarrow> word_ok (who_str api who) \<and> parse_who api (who_str api who) = Some who"

text \<open>
  \<open>writable\<close>: the names in the tree can stand in the file. Users and tokens are read back from what they are
  written as, and no name contains a separator or white space.
\<close>

definition writable :: "('a, 'u) api_types \<Rightarrow> 'a fact set \<Rightarrow> bool" where
  "writable api F \<longleftrightarrow> (\<forall>cs who r p. (cs, who, r, p) \<in> F \<longrightarrow> (\<forall>c \<in> set cs. comp_ok c) \<and> who_ok api who \<and> role_ok api r)"

definition facts :: "('a, 'u) api_types \<Rightarrow> string list \<Rightarrow> 'a AclTreeNode \<Rightarrow> 'a fact set" where
  "facts api cs node = {(cs @ ds, who, r, p) |ds who r p. kept api who \<and> acl_of node ds who r = Some p}"

lemma writable_mono: "writable api F \<Longrightarrow> G \<subseteq> F \<Longrightarrow> writable api G"
  unfolding writable_def by blast

text \<open>A line of the file has a list of users and groups and the roles that have exactly this list.\<close>

lemma grouped_line:
  assumes "setmap_ok m" "\<And>r vs ug. (r, vs) \<in> set m \<Longrightarrow> ug \<in> set vs \<Longrightarrow> word_ok ug" "(k, rs) \<in> set (group_by_property_list m)"
  obtains vs where "k = comma_list vs" "vs \<noteq> []" "\<And>ug. ug \<in> set vs \<Longrightarrow> word_ok ug" "rs \<noteq> []" "\<And>r. r \<in> set rs \<Longrightarrow> (r, vs) \<in> set m"
proof -
  have gb: "setmap_ok (group_by_property_list m)" "entries (group_by_property_list m) = {(comma_list vs, r) |r vs. (r, vs) \<in> set m}"
    using group_by_entries [of m] by simp_all
  have mem: "\<exists>vs. k = comma_list vs \<and> (r, vs) \<in> set m" if r: "r \<in> set rs" for r
  proof -
    have "(k, r) \<in> entries (group_by_property_list m)" using assms(3) r by (auto simp: entries_def)
    then show ?thesis unfolding gb(2) by auto
  qed
  have split: "split_on (CHR '','') (comma_list vs) = vs" if "(r, vs) \<in> set m" for r vs
    using that assms(1,2) by (intro split_comma_list) (auto simp: setmap_ok_def)
  have ne: "rs \<noteq> []" using assms(3) gb(1) by (auto simp: setmap_ok_def)
  then obtain r0 vs where v: "k = comma_list vs" "(r0, vs) \<in> set m" using mem by (meson last_in_set)
  have "(r, vs) \<in> set m" if "r \<in> set rs" for r
    using mem [OF that] split v by metis
  then show ?thesis using that [of vs] v ne assms(1,2) by (auto simp: setmap_ok_def)
qed

lemma grouped_line_covers: "(r, vs) \<in> set m \<Longrightarrow> \<exists>rs. (comma_list vs, rs) \<in> set (group_by_property_list m) \<and> r \<in> set rs"
  using group_by_entries [of m] by (force simp: entries_def)

lemma own_lines:
  assumes "node_wf (ROLE_NAME_NO_ACCESS api) node" "G = {(cs, who, r, p) |who r. kept api who \<and> node_acl node who r = Some p}"
    "writable api G" "consistent (ROLE_NAME_NO_ACCESS api) A" "G \<subseteq> A"
  shows "good_lines api A (map (acl_line api (if p then ''1'' else ''0'') (path_str cs)) (group_by_property_list (sel p (role_ug_maps api node)))) G"
proof -
  let ?na = "ROLE_NAME_NO_ACCESS api"
  define m where "m = sel p (role_ug_maps api node)"
  have m: "setmap_ok m" "entries m = {(r, who_str api who) |r who. kept api who \<and> node_acl node who r = Some p}"
    using role_ug_maps_entries [OF assms(1), of p api] by (simp_all add: m_def)
  have wr: "\<forall>c \<in> set cs. comp_ok c" "who_ok api who" "role_ok api r" if "(cs, who, r, p) \<in> G" for who r
    using assms(3) that unfolding writable_def by blast+
  have ug: "word_ok ug \<and> (\<exists>who. parse_who api ug = Some who \<and> (cs, who, r, p) \<in> G)" if "(r, vs) \<in> set m" "ug \<in> set vs" for r vs ug
  proof -
    have "(r, ug) \<in> entries m" using that by (auto simp: entries_def)
    then obtain who where "ug = who_str api who" "(cs, who, r, p) \<in> G" unfolding m(2) assms(2) by auto
    then show ?thesis using wr(2) [of who r] by (auto simp: who_ok_def)
  qed
  define g where "g = (\<lambda>(k, rs). pair_facts api cs p (set (split_on (CHR '','') k) \<times> set rs))"
  have lines: "good_line api A (acl_line api (if p then ''1'' else ''0'') (path_str cs) x) (g x) \<and> g x \<subseteq> G"
    if x: "x \<in> set (group_by_property_list m)" for x
  proof -
    obtain k rs where kr: "x = (k, rs)" by fastforce
    from x obtain vs where vs: "k = comma_list vs" "vs \<noteq> []" "\<And>ug. ug \<in> set vs \<Longrightarrow> word_ok ug" "rs \<noteq> []" "\<And>r. r \<in> set rs \<Longrightarrow> (r, vs) \<in> set m"
      unfolding kr using grouped_line [OF m(1), of k rs] ug by metis
    have G: "\<exists>who. parse_who api ug = Some who \<and> (cs, who, r, p) \<in> G" if "r \<in> set rs" "ug \<in> set vs" for r ug
      using ug [OF vs(5)] that by blast
    obtain u where u: "u \<in> set vs" using vs(2) by (cases vs) auto
    obtain r0 where r0: "r0 \<in> set rs" using vs(4) by (cases rs) auto
    have one: "set rs = {?na}" if "?na \<in> set rs"
    proof -
      have "r = ?na" if r: "r \<in> set rs" for r
      proof -
        obtain who where "parse_who api u = Some who" "(cs, who, r, p) \<in> A" using G [OF r u] assms(5) by blast
        moreover obtain who' where "parse_who api u = Some who'" "(cs, who', ?na, p) \<in> A" using G [OF \<open>?na \<in> set rs\<close> u] assms(5) by blast
        ultimately show ?thesis using consistentD [OF assms(4), of cs who r p ?na p] by simp
      qed
      then show ?thesis using that by blast
    qed
    have gx: "g x = pair_facts api cs p (set vs \<times> set rs)" using split_comma_list [of vs] vs by (simp add: g_def kr)
    then have "g x \<subseteq> G" using G unfolding pair_facts_def by fastforce
    moreover have "good_line api A (acl_line api (if p then ''1'' else ''0'') (path_str cs) x) (g x)"
      unfolding gx unfolding kr vs(1)
    proof (rule good_acl_line [OF vs(2) _ vs(4)])
      show "\<forall>ug \<in> set vs. word_ok ug \<and> parse_who api ug \<noteq> None" using vs(3) G [OF r0] by fastforce
      show "\<forall>r \<in> set rs. role_ok api r" using G [OF _ u] wr(3) by blast
      show "\<forall>c \<in> set cs. comp_ok c" using G [OF r0 u] wr(1) by blast
    qed (use one assms(4) in auto)
    ultimately show ?thesis by blast
  qed
  have "G \<subseteq> \<Union> (g ` set (group_by_property_list m))"
  proof
    fix f assume f: "f \<in> G"
    then obtain who r where w: "f = (cs, who, r, p)" "kept api who" "node_acl node who r = Some p" unfolding assms(2) by auto
    then have "(r, who_str api who) \<in> entries m" unfolding m(2) by blast
    then obtain vs where vs: "(r, vs) \<in> set m" "who_str api who \<in> set vs" by (auto simp: entries_def)
    then have "split_on (CHR '','') (comma_list vs) = vs" using ug by (intro split_comma_list) auto
    then show "f \<in> \<Union> (g ` set (group_by_property_list m))"
      using grouped_line_covers [OF vs(1)] vs(2) wr(2) [of who r] f w(1) by (force simp: g_def pair_facts_def who_ok_def)
  qed
  then have "G = \<Union> (g ` set (group_by_property_list m))" using lines by blast
  then show ?thesis using good_lines_map [of "group_by_property_list m" api A _ g] lines unfolding m_def by simp
qed

definition own_facts :: "('a, 'u) api_types \<Rightarrow> string list \<Rightarrow> 'a AclTreeNode \<Rightarrow> bool \<Rightarrow> 'a fact set" where
  "own_facts api cs node p = {(cs, who, r, p) |who r. kept api who \<and> node_acl node who r = Some p}"

definition child_facts :: "('a, 'u) api_types \<Rightarrow> string list \<Rightarrow> (string \<times> 'a AclTreeNode) list \<Rightarrow> 'a fact set" where
  "child_facts api cs cl = (\<Union>x \<in> set cl. facts api (cs @ [fst x]) (snd x))"

lemma ex_list_iff: "(\<exists>xs. P xs) \<longleftrightarrow> P [] \<or> (\<exists>x xs. P (x # xs))"
  by (metis list.exhaust)

lemma facts_unfold:
  assumes "sorted_wrt (<) (map fst (children node))"
  shows "facts api cs node = own_facts api cs node False \<union> own_facts api cs node True \<union> child_facts api cs (children node)"
proof -
  have d: "distinct (map fst (children node))" using assms strict_sorted_iff by blast
  have mem: "(n, c) \<in> set (children node) \<longleftrightarrow> map_of (children node) n = Some c" for n c using d by simp
  have "(ds, who, r, p) \<in> facts api cs node \<longleftrightarrow>
      (ds, who, r, p) \<in> own_facts api cs node False \<union> own_facts api cs node True \<union> child_facts api cs (children node)" for ds who r p
  proof -
    have "(ds, who, r, p) \<in> facts api cs node \<longleftrightarrow> kept api who \<and> (\<exists>es. ds = cs @ es \<and> acl_of node es who r = Some p)"
      by (auto simp: facts_def)
    also have "\<dots> \<longleftrightarrow> kept api who \<and> (ds = cs \<and> node_acl node who r = Some p \<or>
        (\<exists>n es c. ds = cs @ n # es \<and> (n, c) \<in> set (children node) \<and> acl_of c es who r = Some p))"
      unfolding mem by (subst ex_list_iff) (auto simp: acl_of_Cons split: option.split_asm)
    also have "\<dots> \<longleftrightarrow> (ds, who, r, p) \<in> own_facts api cs node False \<union> own_facts api cs node True \<union> child_facts api cs (children node)"
    proof -
      have "(ds, who, r, p) \<in> own_facts api cs node False \<union> own_facts api cs node True \<longleftrightarrow> kept api who \<and> ds = cs \<and> node_acl node who r = Some p"
        by (cases p) (auto simp: own_facts_def)
      moreover have "(ds, who, r, p) \<in> child_facts api cs (children node) \<longleftrightarrow>
          kept api who \<and> (\<exists>n es c. ds = cs @ n # es \<and> (n, c) \<in> set (children node) \<and> acl_of c es who r = Some p)"
        unfolding child_facts_def facts_def by (auto intro: bexI [of _ "(_, _)"])
      ultimately show ?thesis by blast
    qed
    finally show ?thesis .
  qed
  then show ?thesis by (auto simp: set_eq_iff)
qed

lemma tree_lines:
  "path = path_str cs \<Longrightarrow> node_wf (ROLE_NAME_NO_ACCESS api) node \<Longrightarrow> facts api cs node \<subseteq> A \<Longrightarrow> writable api A \<Longrightarrow>
   consistent (ROLE_NAME_NO_ACCESS api) A \<Longrightarrow> good_lines api A (write_node_config api path node) (facts api cs node)"
  and children_lines:
  "path = path_str cs \<Longrightarrow> children_wf (ROLE_NAME_NO_ACCESS api) cl \<Longrightarrow> child_facts api cs cl \<subseteq> A \<Longrightarrow> writable api A \<Longrightarrow>
   consistent (ROLE_NAME_NO_ACCESS api) A \<Longrightarrow> good_lines api A (write_children_config api path cl) (child_facts api cs cl)"
proof (induction api path node and api path cl arbitrary: cs and cs rule: write_node_config_write_children_config.induct)
  case (1 api path us gs cl)
  let ?node = "AclTreeNode us gs cl"
  have f: "facts api cs ?node = own_facts api cs ?node False \<union> own_facts api cs ?node True \<union> child_facts api cs cl"
    using facts_unfold [of ?node api cs] "1.prems"(2) by simp
  have own: "good_lines api A (map (acl_line api (if p then ''1'' else ''0'') path) (group_by_property_list (sel p (role_ug_maps api ?node)))) (own_facts api cs ?node p)" for p
    unfolding "1.prems"(1)
  proof (rule own_lines [OF "1.prems"(2) own_facts_def _ "1.prems"(5)])
    have "own_facts api cs ?node p \<subseteq> facts api cs ?node" unfolding f by (cases p) auto
    then show "own_facts api cs ?node p \<subseteq> A" using "1.prems"(3) by blast
    then show "writable api (own_facts api cs ?node p)" by (rule writable_mono [OF "1.prems"(4)])
  qed
  obtain m0 m1 where ms: "role_ug_maps api ?node = (m0, m1)" by fastforce
  have "good_lines api A (write_children_config api path cl) (child_facts api cs cl)"
    using "1.IH" [OF _ "1.prems"(1)] ms 1 f by auto
  then show ?case
    using own [of False] own [of True] unfolding f by (simp add: ms good_lines_append Un_assoc)
next
  case (2 api path)
  then show ?case by (simp add: child_facts_def good_lines_Nil)
next
  case (3 api path name child cl)
  have f: "child_facts api cs ((name, child) # cl) = facts api (cs @ [name]) child \<union> child_facts api cs cl"
    by (simp add: child_facts_def)
  have p: "path @ ''/'' @ name = path_str (cs @ [name])" using "3.prems"(1) by (simp add: path_str_def)
  show ?case
    unfolding f write_children_config.simps using 3 f by (intro good_lines_append "3.IH" p) auto
qed

section \<open>Round trip\<close>

lemma node_wf_walk: "node_wf na tree \<Longrightarrow> walk tree cs = Some n \<Longrightarrow> node_wf na n"
proof (induction cs arbitrary: tree)
  case (Cons c cs)
  then show ?case using node_wf_child [OF Cons.prems(1), of c] by (auto split: option.splits)
qed simp

lemma role_map_alone: "role_map_ok na rs \<Longrightarrow> map_of rs na = Some p \<Longrightarrow> map_of rs r = Some q \<Longrightarrow> r = na"
  unfolding role_map_ok_def using map_of_SomeD [of rs na p] map_of_SomeD [of rs r q] by (metis fst_conv image_eqI singletonD)

lemma facts_consistent:
  assumes "node_wf na tree"
  shows "consistent na (facts api [] tree)"
proof -
  have alone: "r = na" if a: "node_wf na n" "node_acl n who na = Some p" "node_acl n who r = Some q" for n who r p q
  proof -
    obtain rs where "role_map_ok na rs" "node_acl n who = map_of rs"
      using a(1,2) who_map_ok_get [of na "users n"] who_map_ok_get [of na "groups n"]
      unfolding node_wf_iff [of na n] by (cases who) (simp_all add: node_acl_def split: option.splits, blast+)
    then show ?thesis using a(2,3) role_map_alone [of na rs p r q] by simp
  qed
  have "r = na" if "acl_of tree cs who na = Some p" "acl_of tree cs who r = Some q" for cs who r p q
  proof (cases "walk tree cs")
    case (Some n)
    then show ?thesis using that alone [OF node_wf_walk [OF assms Some]] by (simp add: acl_of_def)
  qed (use that in \<open>simp add: acl_of_def\<close>)
  then show ?thesis by (auto simp: consistent_def facts_def)
qed

lemma node_insert_wf:
  assumes "node_wf (ROLE_NAME_NO_ACCESS api) n"
  shows "node_wf (ROLE_NAME_NO_ACCESS api) (node_insert_user_role api a r p n)" "node_wf (ROLE_NAME_NO_ACCESS api) (node_insert_group_role api g r p n)"
  using assms by (simp_all add: node_wf_iff [of _ n] node_insert_user_role_def node_insert_group_role_def who_map_ok_insert)

lemma upsert_path_wf:
  assumes "\<And>n. node_wf na n \<Longrightarrow> node_wf na (f n)" "node_wf na tree"
  shows "node_wf na (get_or_insert_node f (split_acl_path path) tree)"
  unfolding get_or_insert_node_def components_split_acl_path by (rule node_wf_upsert) (use assms split_acl_path_ok in auto)

lemma insert_all_wf:
  "node_wf (ROLE_NAME_NO_ACCESS api) tree \<Longrightarrow> node_wf (ROLE_NAME_NO_ACCESS api) (snd (insert_all api (split_acl_path path) p ps tree))"
proof (induction ps arbitrary: tree)
  case (Cons x ps)
  have "node_wf (ROLE_NAME_NO_ACCESS api) (get_or_insert_node (node_insert_user_role api a r p) (split_acl_path path) tree)"
    "node_wf (ROLE_NAME_NO_ACCESS api) (get_or_insert_node (node_insert_group_role api g r p) (split_acl_path path) tree)" for a r g
    by (rule upsert_path_wf; simp add: node_insert_wf Cons.prems)+
  then show ?case using Cons by (cases x) (auto split: sum.split)
qed simp

lemma parse_acl_line_wf: "node_wf (ROLE_NAME_NO_ACCESS api) tree \<Longrightarrow> node_wf (ROLE_NAME_NO_ACCESS api) (snd (parse_acl_line api l tree))"
  unfolding parse_acl_line_def Let_def by (auto intro!: insert_all_wf upsert_path_wf)

lemma parse_lines_wf: "node_wf (ROLE_NAME_NO_ACCESS api) tree \<Longrightarrow> parse_lines api ls tree = Ok tree' \<Longrightarrow> node_wf (ROLE_NAME_NO_ACCESS api) tree'"
proof (induction ls arbitrary: tree)
  case (Cons l ls)
  then show ?case using parse_acl_line_wf [OF Cons.prems(1), of "str_trim l"]
    by (auto simp: Let_def split: if_splits prod.splits sum.splits)
qed simp

lemma parse_written:
  assumes "node_wf (ROLE_NAME_NO_ACCESS api) tree" "writable api (facts api [] tree)"
  obtains tree' where "parse_lines api (str_lines (write_config api tree)) AclTreeNode_new = Ok tree'" "acl_is tree' (facts api [] tree)"
proof -
  obtain Gs where Gs: "list_all2 (good_line api (facts api [] tree)) (write_node_config api [] tree) Gs" "facts api [] tree = \<Union> (set Gs)"
    using tree_lines [of "[]" "[]" api tree "facts api [] tree", OF _ assms(1) order_refl assms(2) facts_consistent [OF assms(1)]]
    unfolding good_lines_def by (metis concat.simps(1) list.map(1) path_str_def)
  have "\<forall>l \<in> set (write_node_config api [] tree). CHR 10 \<notin> set l \<and> last l \<noteq> CHR 13"
    using Gs(1) by (auto simp: list_all2_conv_all_nth in_set_conv_nth good_line_def)
  then have "str_lines (write_config api tree) = write_node_config api [] tree"
    unfolding write_config_def by (intro str_lines_concat) blast
  then show ?thesis
    using parse_lines_good [OF Gs(1) acl_is_new] Gs(2) that by auto
qed

text \<open>
  C26. Writing the access control list and reading it again keeps all permissions: what \<^verbatim>\<open>write_config\<close> writes for a
  well-formed tree whose names can stand in the file is accepted by \<^verbatim>\<open>from_raw\<close>, and the tree read has, for every
  path, every group and every user or token but the superuser, the same entries, so that \<^verbatim>\<open>roles\<close> returns the same
  roles with the same flags.
\<close>

theorem acl_round_trip:
  assumes "node_wf (ROLE_NAME_NO_ACCESS api) tree" "writable api (facts api [] tree)"
  shows "\<exists>tree'. from_raw api (write_config api tree) = Ok tree' \<and>
    (\<forall>who. kept api who \<longrightarrow> (\<forall>cs. acl_of tree' cs who = acl_of tree cs who)) \<and>
    (\<forall>a. \<not> is_root_user api a \<longrightarrow> (\<forall>path. map_of (roles api tree' a path) = map_of (roles api tree a path)))"
proof -
  obtain t where t: "from_raw api (write_config api tree) = Ok t" "acl_is t (facts api [] tree)"
    using parse_written [OF assms] by (auto simp: from_raw_def)
  have same: "acl_of t cs who = acl_of tree cs who" if k: "kept api who" for cs who
  proof (rule ext)
    fix r
    have iff: "acl_of t cs who r = Some p \<longleftrightarrow> acl_of tree cs who r = Some p" for p
      using t(2) k by (auto simp: acl_is_def facts_def)
    show "acl_of t cs who r = acl_of tree cs who r" by (cases "acl_of tree cs who r"; cases "acl_of t cs who r") (use iff in auto)
  qed
  have wf: "node_wf (ROLE_NAME_NO_ACCESS api) t"
    using parse_lines_wf [OF node_wf_new] t(1) by (auto simp: from_raw_def)
  have "map_of (roles api t a path) = map_of (roles api tree a path)" if "\<not> is_root_user api a" for a path
    unfolding roles_effective [OF wf] roles_effective [OF assms(1)] using same [of "Inl a"] that by (simp add: kept_def)
  then show ?thesis using t(1) same by blast
qed

definition sample_facts :: "(string \<times> string option) fact set" where
  "sample_facts =
     {([''datastore'', ''s1''], Inl (''u@pbs'', Some ''t''), ''Admin'', False), ([''datastore''], Inl (''u@pbs'', None), ''Audit'', True)}"

lemma sample_tree_facts: "acl_is sample_tree sample_facts"
proof -
  have s: "split_acl_path ''/datastore/s1'' = [''datastore'', ''s1'']" "split_acl_path ''/datastore'' = [''datastore'']"
    by (simp_all add: split_acl_path_def)
  have "acl_is (insert_user_role sample_api ''/datastore'' (''u@pbs'', None) ''Audit'' True AclTreeNode_new)
      {([''datastore''], Inl (''u@pbs'', None), ''Audit'', True)}"
    using acl_is_insert [OF acl_is_new, of sample_api "[''datastore'']" "Inl (''u@pbs'', None)" "''Audit''" True]
    by (simp add: insert_user_role_def get_or_insert_node_def s components_def node_insert_def consistent_def)
  from acl_is_insert [OF this, of sample_api "[''datastore'', ''s1'']" "Inl (''u@pbs'', Some ''t'')" "''Admin''" False] show ?thesis
    by (simp add: sample_tree_def sample_facts_def insert_user_role_def [of _ "''/datastore/s1''"] get_or_insert_node_def s components_def node_insert_def consistent_def)
qed

theorem acl_round_trip_witness:
  "\<exists>tree'. from_raw sample_api (write_config sample_api sample_tree) = Ok tree' \<and>
     map_of (roles sample_api tree' (''u@pbs'', Some ''t'') [''datastore'', ''s1'']) =
       map_of (roles sample_api sample_tree (''u@pbs'', Some ''t'') [''datastore'', ''s1''])"
proof -
  have "facts sample_api [] sample_tree \<subseteq> sample_facts" using sample_tree_facts by (auto simp: facts_def acl_is_def)
  moreover have "writable sample_api sample_facts"
    by (simp add: writable_def sample_facts_def comp_ok_def name_ok_def who_ok_def role_ok_def word_ok_def who_str_def parse_who_def is_ws_def
        sample_api_def)
  ultimately have "writable sample_api (facts sample_api [] sample_tree)" using writable_mono by blast
  moreover have "node_wf (ROLE_NAME_NO_ACCESS sample_api) sample_tree" using sample_tree_wf by simp
  ultimately show ?thesis
    using acl_round_trip [of sample_api sample_tree] by (fastforce simp: is_root_user_def)
qed

end
