(* ===== verification/ChunkStore.thy ===== *)
theory ChunkStore
  imports DataBlob
begin

text \<open>
  The chunk store (\<^verbatim>\<open>pbs-datastore/src/chunk_store.rs\<close>): a directory with a file per chunk, whose access times tell the
  garbage collection what is in use. A path is the sub-directory and the file name below \<^verbatim>\<open>.chunks\<close>. The
  store's mutex is held during every operation; what other threads and processes do while it is free is the
  parameter \<open>others\<close>, called before each critical section, with a state \<open>'x\<close> of its own, so that every
  interleaving is covered. Failing system calls are parameters too. The cache and the objects of S3
  datastores, permissions and process locks are left out.
\<close>

unbundle bit_operations_syntax

section \<open>Files\<close>

type_synonym cpath = "string \<times> string"

record cfile =
  is_reg :: bool
  fcontent :: bytes
  fatime :: int
  finode :: nat

record 'x world =
  cs_files :: "cpath \<Rightarrow> cfile option"
  cs_now :: int
  cs_next_inode :: nat
  cs_aux :: 'x

datatype subdir = DirMissing | DirError err | DirEntries "(err, string) result list"

record 'x sys =
  others :: "'x world \<Rightarrow> 'x world"
  touch_fail :: "'x world \<Rightarrow> cpath \<Rightarrow> err option"
  stat_fail :: "'x world \<Rightarrow> cpath \<Rightarrow> bool"
  unlink_fail :: "'x world \<Rightarrow> cpath \<Rightarrow> err option"
  write_fail :: "'x world \<Rightarrow> cpath \<Rightarrow> err option"
  read_fail :: "'x world \<Rightarrow> cpath \<Rightarrow> err option"
  fsync_fail :: "'x world \<Rightarrow> err option"
  list_dir :: "'x world \<Rightarrow> string \<Rightarrow> subdir"
  abort :: "'x world \<Rightarrow> err option"

section \<open>Names\<close>

definition verify_chunk_size :: "nat \<Rightarrow> (err, unit) result" where
  "verify_chunk_size n =
     (if n \<in> set [64 * 1024, 128 * 1024, 256 * 1024, 512 * 1024, 1024 * 1024, 2048 * 1024, 4096 * 1024] then Ok ()
      else Err ''Got unsupported chunk size'')"

definition HEX_CHARS :: string where
  "HEX_CHARS = ''0123456789abcdef''"

definition hex_byte :: "u8 \<Rightarrow> string" where
  "hex_byte b = [HEX_CHARS ! unat (drop_bit 4 b), HEX_CHARS ! unat (b AND 0xF)]"

definition hex_encode :: "bytes \<Rightarrow> string" where
  "hex_encode bs = concat (map hex_byte bs)"

definition digest_to_prefix :: "digest \<Rightarrow> string" where
  "digest_to_prefix d = hex_byte (d ! 0) @ hex_byte (d ! 1)"

definition chunk_path :: "digest \<Rightarrow> cpath \<times> string" where
  "chunk_path d = ((digest_to_prefix d, hex_encode d), hex_encode d)"

fun digit_char :: "nat \<Rightarrow> char" where
  "digit_char n = char_of (48 + n mod 10)"

definition bad_chunk_filename :: "string \<Rightarrow> nat \<Rightarrow> string" where
  "bad_chunk_filename digest_str counter = digest_str @ ''.'' @ [digit_char counter] @ ''.bad''"

definition is_bad_chunk_suffix :: "string \<Rightarrow> bool" where
  "is_bad_chunk_suffix s \<longleftrightarrow>
     length s = length ''.i.bad'' \<and> s ! 0 = CHR ''.'' \<and> s ! 1 \<in> set ''0123456789'' \<and> drop 2 s = ''.bad''"

definition USING_MARKER_FILENAME_EXT :: string where
  "USING_MARKER_FILENAME_EXT = ''using''"

definition chunk_expected_marker_path :: "digest \<Rightarrow> cpath" where
  "chunk_expected_marker_path d = (fst (fst (chunk_path d)), snd (fst (chunk_path d)) @ ''.'' @ USING_MARKER_FILENAME_EXT)"

section \<open>Touching\<close>

text \<open>
  \<^verbatim>\<open>utimensat\<close> sets the access time of an existing file to the current time; on a missing file it fails with
  \<^verbatim>\<open>ENOENT\<close>.
\<close>

definition cond_touch_path :: "'x sys \<Rightarrow> cpath \<Rightarrow> bool \<Rightarrow> 'x world \<Rightarrow> (err, bool) result \<times> 'x world" where
  "cond_touch_path sys path assert_exists w =
     (case touch_fail sys w path of
        Some e \<Rightarrow> (Err (''update atime failed for chunk/file'' @ e), w)
      | None \<Rightarrow>
          (case cs_files w path of
             None \<Rightarrow> if \<not> assert_exists then (Ok False, w) else (Err ''update atime failed for chunk/file: ENOENT'', w)
           | Some f \<Rightarrow> (Ok True, w\<lparr>cs_files := (cs_files w)(path \<mapsto> f\<lparr>fatime := cs_now w\<rparr>)\<rparr>)))"

definition cond_touch_chunk_no_lock :: "'x sys \<Rightarrow> digest \<Rightarrow> bool \<Rightarrow> 'x world \<Rightarrow> (err, bool) result \<times> 'x world" where
  "cond_touch_chunk_no_lock sys d assert_exists w = cond_touch_path sys (fst (chunk_path d)) assert_exists w"

definition touch_chunk_no_lock :: "'x sys \<Rightarrow> digest \<Rightarrow> 'x world \<Rightarrow> (err, unit) result \<times> 'x world" where
  "touch_chunk_no_lock sys d w =
     (case cond_touch_chunk_no_lock sys d True w of (Inl e, w') \<Rightarrow> (Err e, w') | (Inr _, w') \<Rightarrow> (Ok (), w'))"

definition cond_touch_chunk :: "'x sys \<Rightarrow> digest \<Rightarrow> bool \<Rightarrow> 'x world \<Rightarrow> (err, bool) result \<times> 'x world" where
  "cond_touch_chunk sys d assert_exists w = cond_touch_chunk_no_lock sys d assert_exists (others sys w)"

fun touch_bad_loop :: "'x sys \<Rightarrow> digest \<Rightarrow> nat list \<Rightarrow> bool \<Rightarrow> 'x world \<Rightarrow> (err, bool) result \<times> 'x world" where
  "touch_bad_loop sys d [] is_bad w = (Ok is_bad, w)"
| "touch_bad_loop sys d (i # is) is_bad w =
     (case cond_touch_path sys (fst (fst (chunk_path d)), bad_chunk_filename (snd (chunk_path d)) i) False w of
        (Inl e, w') \<Rightarrow> (Err e, w')
      | (Inr touched, w') \<Rightarrow> touch_bad_loop sys d is (touched \<or> is_bad) w')"

definition cond_touch_bad_chunks :: "'x sys \<Rightarrow> digest \<Rightarrow> 'x world \<Rightarrow> (err, bool) result \<times> 'x world" where
  "cond_touch_bad_chunks sys d w = touch_bad_loop sys d [0..<10] False (others sys w)"

section \<open>Inserting\<close>

text \<open>\<^verbatim>\<open>replace_file\<close> writes a temporary file and renames it: a new file, or nothing if it fails.\<close>

definition replace_file :: "'x sys \<Rightarrow> cpath \<Rightarrow> bytes \<Rightarrow> 'x world \<Rightarrow> (err, unit) result \<times> 'x world" where
  "replace_file sys path data w =
     (case write_fail sys w path of
        Some e \<Rightarrow> (Err e, w)
      | None \<Rightarrow> (Ok (), w\<lparr>cs_files := (cs_files w)(path \<mapsto> \<lparr>is_reg = True, fcontent = data, fatime = cs_now w, finode = cs_next_inode w\<rparr>),
                       cs_next_inode := Suc (cs_next_inode w)\<rparr>))"

definition touch_existing :: "'x sys \<Rightarrow> digest \<Rightarrow> nat \<Rightarrow> 'x world \<Rightarrow> (err, bool \<times> nat) result \<times> 'x world" where
  "touch_existing sys d old_size w =
     (case touch_chunk_no_lock sys d w of (Inl e, w') \<Rightarrow> (Err e, w') | (Inr _, w') \<Rightarrow> (Ok (True, old_size), w'))"

definition write_chunk :: "'x sys \<Rightarrow> bool \<Rightarrow> digest \<Rightarrow> bytes \<Rightarrow> 'x world \<Rightarrow> (err, bool \<times> nat) result \<times> 'x world" where
  "write_chunk sys sync_file d raw w =
     (case replace_file sys (fst (chunk_path d)) raw w of
        (Inl e, w') \<Rightarrow> (Err (''inserting chunk failed'' @ e), w')
      | (Inr _, w') \<Rightarrow>
          (case (if sync_file then fsync_fail sys w' else None) of
             Some e \<Rightarrow> (Err (''fsync failed'' @ e), w')
           | None \<Rightarrow> (Ok (False, length raw), w')))"

text \<open>
  \<open>sync_file\<close>: the sync level is \<^verbatim>\<open>File\<close>. \<open>None\<close> is a panic, which a blob without magic number would cause. The magic
  number of an existing chunk is its first eight bytes.
\<close>

definition read_magic :: "'x sys \<Rightarrow> cpath \<Rightarrow> cfile \<Rightarrow> 'x world \<Rightarrow> (err, bytes) result" where
  "read_magic sys path f w =
     (case read_fail sys w path of
        Some e \<Rightarrow> Err (''Failed to read magic number from header of existing chunk'' @ e)
      | None \<Rightarrow> if length (fcontent f) < 8 then Err ''Failed to read magic number from header of existing chunk''
                else Ok (take 8 (fcontent f)))"

definition insert_chunk_nolock ::
  "'x sys \<Rightarrow> bool \<Rightarrow> DataBlob \<Rightarrow> digest \<Rightarrow> 'x world \<Rightarrow> ((err, bool \<times> nat) result \<times> 'x world) option" where
  "insert_chunk_nolock sys sync_file chunk d w =
     (let path = fst (chunk_path d); raw = raw_data chunk; encoded_size = length raw;
          existing = (if stat_fail sys w path then None else cs_files w path) in
      case existing of
        None \<Rightarrow> Some (write_chunk sys sync_file d raw w)
      | Some f \<Rightarrow>
          if \<not> is_reg f then Some (Err ''got unexpected file type'', w)
          else
            (let old_size = length (fcontent f) in
             if encoded_size = old_size then Some (touch_existing sys d old_size w)
             else if old_size = 0 then Some (write_chunk sys sync_file d raw w)
             else (case is_encrypted chunk of
                 None \<Rightarrow> None
               | Some True \<Rightarrow>
                   (case read_magic sys path f w of
                      Inl e \<Rightarrow> Some (Err e, w)
                    | Inr magic \<Rightarrow>
                        if magic = UNCOMPRESSED_BLOB_MAGIC_1_0 \<or> magic = COMPRESSED_BLOB_MAGIC_1_0 then
                          Some (Err ''Cannot overwrite existing unencrypted chunk with encrypted chunk.'', w)
                        else (case is_compressed chunk of
                            None \<Rightarrow> None
                          | Some compressed \<Rightarrow>
                              if magic = ENCRYPTED_BLOB_MAGIC_1_0 \<and> \<not> compressed then
                                Some (Err ''Found existing encrypted chunk of different size'', w)
                              else Some (touch_existing sys d old_size w)))
               | Some False \<Rightarrow>
                   if old_size < encoded_size then Some (touch_existing sys d old_size w)
                   else Some (write_chunk sys sync_file d raw w))))"

definition insert_chunk :: "'x sys \<Rightarrow> bool \<Rightarrow> DataBlob \<Rightarrow> digest \<Rightarrow> 'x world \<Rightarrow> ((err, bool \<times> nat) result \<times> 'x world) option" where
  "insert_chunk sys sync_file chunk d w = insert_chunk_nolock sys sync_file chunk d (others sys w)"

section \<open>Markers\<close>

definition create_marker_file :: "'x sys \<Rightarrow> cpath \<Rightarrow> 'x world \<Rightarrow> (err, unit) result \<times> 'x world" where
  "create_marker_file sys path w = replace_file sys path [] w"

definition replace_chunk_with_marker_or_create_marker :: "'x sys \<Rightarrow> digest \<Rightarrow> 'x world \<Rightarrow> (err, unit) result \<times> 'x world" where
  "replace_chunk_with_marker_or_create_marker sys d w = create_marker_file sys (fst (chunk_path d)) w"

definition mark_chunk_as_expected :: "'x sys \<Rightarrow> digest \<Rightarrow> 'x world \<Rightarrow> (err, unit) result \<times> 'x world" where
  "mark_chunk_as_expected sys d w = create_marker_file sys (chunk_expected_marker_path d) w"

definition remove_file :: "'x sys \<Rightarrow> cpath \<Rightarrow> 'x world \<Rightarrow> (err, bool) result \<times> 'x world" where
  "remove_file sys path w =
     (case unlink_fail sys w path of
        Some e \<Rightarrow> (Err e, w)
      | None \<Rightarrow> (case cs_files w path of
           None \<Rightarrow> (Ok False, w)
         | Some f \<Rightarrow> (Ok True, w\<lparr>cs_files := (cs_files w)(path := None)\<rparr>)))"

text \<open>The result of \<open>remove_file\<close> is whether there was a file; the callers below turn a missing file into what they return.\<close>

definition clear_chunk_expected_mark :: "'x sys \<Rightarrow> digest \<Rightarrow> 'x world \<Rightarrow> (err, bool) result \<times> 'x world" where
  "clear_chunk_expected_mark sys d w = remove_file sys (chunk_expected_marker_path d) w"

definition remove_chunk_marker :: "'x sys \<Rightarrow> digest \<Rightarrow> 'x world \<Rightarrow> (err, unit) result \<times> 'x world" where
  "remove_chunk_marker sys d w =
     (case remove_file sys (fst (chunk_path d)) w of
        (Inl e, w') \<Rightarrow> (Err e, w')
      | (Inr False, w') \<Rightarrow> (Err ''No such file or directory'', w')
      | (Inr True, w') \<Rightarrow> (Ok (), w'))"

text \<open>The loop ends at counter 9 at the latest.\<close>

function next_bad_counter :: "(nat \<Rightarrow> bool) \<Rightarrow> nat \<Rightarrow> nat" where
  "next_bad_counter ex counter = (if ex counter \<and> counter < 9 then next_bad_counter ex (counter + 1) else counter)"
  by auto
termination by (relation "measure (\<lambda>(ex, c). 10 - c)") auto

declare next_bad_counter.simps [simp del]

definition next_bad_chunk_path :: "digest \<Rightarrow> 'x world \<Rightarrow> cpath \<times> nat" where
  "next_bad_chunk_path d w =
     (let bad_path = (\<lambda>i. (fst (fst (chunk_path d)), bad_chunk_filename (snd (chunk_path d)) i));
          counter = next_bad_counter (\<lambda>i. cs_files w (bad_path i) \<noteq> None) 0
      in (bad_path counter, counter))"

text \<open>\<^verbatim>\<open>rename_corrupt_chunk\<close> of a file system datastore (\<^verbatim>\<open>datastore.rs\<close>).\<close>

definition rename_corrupt_chunk :: "'x sys \<Rightarrow> digest \<Rightarrow> 'x world \<Rightarrow> (err, cpath option) result \<times> 'x world" where
  "rename_corrupt_chunk sys d w0 =
     (let w = others sys w0; path = fst (chunk_path d); new_path = fst (next_bad_chunk_path d w) in
      case write_fail sys w path of
        Some e \<Rightarrow> (Err (''could not rename corrupt chunk'' @ e), w)
      | None \<Rightarrow>
          (case cs_files w path of
             None \<Rightarrow> (Ok None, w)
           | Some f \<Rightarrow> (Ok (Some new_path), w\<lparr>cs_files := (cs_files w)(path := None, new_path := Some f)\<rparr>)))"

section \<open>Sweeping\<close>

record GarbageCollectionStatus =
  index_file_count :: nat
  index_data_bytes :: nat
  disk_bytes :: nat
  disk_chunks :: nat
  removed_bytes :: nat
  removed_chunks :: nat
  pending_bytes :: nat
  pending_chunks :: nat
  removed_bad :: nat
  still_bad :: nat
  cache_hits :: nat
  cache_misses :: nat

definition gc_status_default :: GarbageCollectionStatus where
  "gc_status_default = \<lparr>index_file_count = 0, index_data_bytes = 0, disk_bytes = 0, disk_chunks = 0, removed_bytes = 0, removed_chunks = 0,
     pending_bytes = 0, pending_chunks = 0, removed_bad = 0, still_bad = 0, cache_hits = 0, cache_misses = 0\<rparr>"

datatype ChunkExt = ExtNone | Bad | UsedMarker

definition is_hexdigit :: "char \<Rightarrow> bool" where
  "is_hexdigit c \<longleftrightarrow> c \<in> set ''0123456789abcdefABCDEF''"

text \<open>What the iterator makes of a file name: the kind of file, or nothing if it is skipped.\<close>

definition chunk_ext :: "string \<Rightarrow> ChunkExt option" where
  "chunk_ext name =
     (if length name < 64 then None
      else if \<not> list_all is_hexdigit (take 64 name) then None
      else if length name = 64 then Some ExtNone
      else if is_bad_chunk_suffix (drop 64 name) then Some Bad
      else if length name = 64 + 1 + length USING_MARKER_FILENAME_EXT \<and> name ! 64 = CHR ''.'' \<and>
        drop (length name - length USING_MARKER_FILENAME_EXT) name = USING_MARKER_FILENAME_EXT then Some UsedMarker
      else None)"

text \<open>The callback is given the status as it is and only changes the store.\<close>

definition cond_sweep_chunk ::
  "int \<Rightarrow> int \<Rightarrow> int \<Rightarrow> nat \<Rightarrow> bool \<Rightarrow> GarbageCollectionStatus \<Rightarrow> ('x world \<Rightarrow> (err, unit) result \<times> 'x world) \<Rightarrow> 'x world \<Rightarrow>
   (err, unit) result \<times> GarbageCollectionStatus \<times> 'x world" where
  "cond_sweep_chunk at min_atime oldest_writer sz bad st remove_callback w =
     (if at < min_atime then
        (case remove_callback w of
           (Inl e, w') \<Rightarrow> (Err e, if bad then st\<lparr>still_bad := still_bad st + 1\<rparr> else st, w')
         | (Inr _, w') \<Rightarrow>
             (let st1 = (if bad then st\<lparr>removed_bad := removed_bad st + 1\<rparr> else st\<lparr>removed_chunks := removed_chunks st + 1\<rparr>)
              in (Ok (), st1\<lparr>removed_bytes := removed_bytes st1 + sz\<rparr>, w')))
      else if at < oldest_writer then
        (let st1 = (if bad then st\<lparr>still_bad := still_bad st + 1\<rparr> else st\<lparr>pending_chunks := pending_chunks st + 1\<rparr>)
         in (Ok (), st1\<lparr>pending_bytes := pending_bytes st1 + sz\<rparr>, w))
      else
        (let st1 = (if \<not> bad then st\<lparr>disk_chunks := disk_chunks st + 1\<rparr> else st)
         in (Ok (), st1\<lparr>disk_bytes := disk_bytes st1 + sz\<rparr>, w)))"

text \<open>The removal of a local chunk or marker: an unlink that fails if the file is gone.\<close>

definition unlink_chunk :: "'x sys \<Rightarrow> cpath \<Rightarrow> 'x world \<Rightarrow> (err, unit) result \<times> 'x world" where
  "unlink_chunk sys path w =
     (case remove_file sys path w of
        (Inl e, w') \<Rightarrow> (Err (''unlinking chunk failed'' @ e), w')
      | (Inr False, w') \<Rightarrow> (Err ''unlinking chunk failed'', w')
      | (Inr True, w') \<Rightarrow> (Ok (), w'))"

text \<open>The critical section for one entry of the store, after the mutex was taken.\<close>

definition sweep_file ::
  "'x sys \<Rightarrow> int \<Rightarrow> int \<Rightarrow> cpath \<Rightarrow> ChunkExt \<Rightarrow> GarbageCollectionStatus \<Rightarrow> 'x world \<Rightarrow>
   (err, unit) result \<times> GarbageCollectionStatus \<times> 'x world" where
  "sweep_file sys oldest_writer min_atime path ext st w =
     (case (if stat_fail sys w path then None else cs_files w path) of
        None \<Rightarrow> (Ok (), st, w)
      | Some f \<Rightarrow>
          if \<not> is_reg f then (Ok (), st, w)
          else if ext = UsedMarker then (case unlink_chunk sys path w of (r, w') \<Rightarrow> (r, st, w'))
          else cond_sweep_chunk (fatime f) min_atime oldest_writer (length (fcontent f)) (ext = Bad) st (unlink_chunk sys path) w)"

text \<open>
  The iterator of the source is lazy: directories are opened one after the other while the sweep goes on.
  \<open>sweep_entries\<close> takes the entries of one directory, \<open>sweep_dirs\<close> the directories; an error of the listing ends
  the sweep.
\<close>

fun sweep_entries ::
  "'x sys \<Rightarrow> int \<Rightarrow> int \<Rightarrow> string \<Rightarrow> (err, string) result list \<Rightarrow> GarbageCollectionStatus \<Rightarrow> 'x world \<Rightarrow>
   (err, unit) result \<times> GarbageCollectionStatus \<times> 'x world" where
  "sweep_entries sys ow ma dir [] st w = (Ok (), st, w)"
| "sweep_entries sys ow ma dir (Inl e # es) st w =
     (case abort sys w of Some a \<Rightarrow> (Err a, st, w) | None \<Rightarrow> (Err (''chunk iterator failed'' @ e), st, w))"
| "sweep_entries sys ow ma dir (Inr name # es) st w =
     (case chunk_ext name of
        None \<Rightarrow> sweep_entries sys ow ma dir es st w
      | Some ext \<Rightarrow>
          (case abort sys w of
             Some a \<Rightarrow> (Err a, st, w)
           | None \<Rightarrow>
               (case sweep_file sys ow ma (dir, name) ext st (others sys w) of
                  (Inl e, st', w') \<Rightarrow> (Err e, st', w')
                | (Inr _, st', w') \<Rightarrow> sweep_entries sys ow ma dir es st' w')))"

definition hex4 :: "nat \<Rightarrow> string" where
  "hex4 n = [HEX_CHARS ! (n div 4096 mod 16), HEX_CHARS ! (n div 256 mod 16), HEX_CHARS ! (n div 16 mod 16), HEX_CHARS ! (n mod 16)]"

fun sweep_dirs ::
  "'x sys \<Rightarrow> int \<Rightarrow> int \<Rightarrow> nat list \<Rightarrow> GarbageCollectionStatus \<Rightarrow> 'x world \<Rightarrow> (err, unit) result \<times> GarbageCollectionStatus \<times> 'x world" where
  "sweep_dirs sys ow ma [] st w = (Ok (), st, w)"
| "sweep_dirs sys ow ma (at # ats) st w =
     (case list_dir sys w (hex4 at) of
        DirMissing \<Rightarrow> sweep_dirs sys ow ma ats st w
      | DirError e \<Rightarrow> (case abort sys w of Some a \<Rightarrow> (Err a, st, w) | None \<Rightarrow> (Err (''chunk iterator failed'' @ e), st, w))
      | DirEntries es \<Rightarrow>
          (case sweep_entries sys ow ma (hex4 at) es st w of
             (Inl e, st', w') \<Rightarrow> (Err e, st', w')
           | (Inr _, st', w') \<Rightarrow> sweep_dirs sys ow ma ats st' w'))"

definition sweep_unused_chunks ::
  "'x sys \<Rightarrow> int \<Rightarrow> int \<Rightarrow> GarbageCollectionStatus \<Rightarrow> 'x world \<Rightarrow> (err, unit) result \<times> GarbageCollectionStatus \<times> 'x world" where
  "sweep_unused_chunks sys oldest_writer min_atime st w = sweep_dirs sys oldest_writer min_atime [0..<0x10000] st w"

section \<open>The access time check\<close>

text \<open>
  \<open>zero\<close> is the zero chunk with its digest. The sleep of one second is part of what \<open>others\<close> may do. The function
  calls itself at most once; \<open>changed\<close> is what it does when the file was replaced in between.
\<close>

definition atime_check ::
  "'x sys \<Rightarrow> bool \<Rightarrow> DataBlob \<times> digest \<Rightarrow> ('x world \<Rightarrow> ((err, unit) result \<times> 'x world) option) \<Rightarrow> 'x world \<Rightarrow>
   ((err, unit) result \<times> 'x world) option" where
  "atime_check sys sync_file zero changed w =
     (let path = fst (chunk_path (snd zero)) in
      case insert_chunk sys sync_file (fst zero) (snd zero) w of
        None \<Rightarrow> None
      | Some (Inl e, w1) \<Rightarrow> Some (Err e, w1)
      | Some (Inr _, w1) \<Rightarrow>
          (let w2 = others sys w1 in
           case (if stat_fail sys w2 path then None else cs_files w2 path) of
             None \<Rightarrow> Some (Err ''failed to get metadata before atime update'', w2)
           | Some before \<Rightarrow>
               (case cond_touch_path sys path True (others sys w2) of
                  (Inl e, w3) \<Rightarrow> Some (Err e, w3)
                | (Inr _, w3) \<Rightarrow>
                    (let w4 = others sys w3 in
                     case (if stat_fail sys w4 path then None else cs_files w4 path) of
                       None \<Rightarrow> Some (Err ''failed to get metadata after atime update'', w4)
                     | Some after \<Rightarrow>
                         if finode before \<noteq> finode after then changed w4
                         else if fatime before \<ge> fatime after then Some (Err ''access time safety check failed'', w4)
                         else Some (Ok (), w4)))))"

definition check_fs_atime_updates ::
  "'x sys \<Rightarrow> bool \<Rightarrow> DataBlob \<times> digest \<Rightarrow> bool \<Rightarrow> 'x world \<Rightarrow> ((err, unit) result \<times> 'x world) option" where
  "check_fs_atime_updates sys sync_file zero retry =
     (let twice = (\<lambda>w. Some (Err ''chunk changed twice during access time safety check'', w)) in
      atime_check sys sync_file zero (if retry then atime_check sys sync_file zero twice else twice))"

section \<open>What happens to one file\<close>

text \<open>
  \<open>keeps path w w'\<close>: between the two states the file at \<open>path\<close> was not removed, its access time did not go back
  behind the first of them, and if it was made meanwhile its access time is not before that.
\<close>

definition keeps :: "cpath \<Rightarrow> 'x world \<Rightarrow> 'x world \<Rightarrow> bool" where
  "keeps path w w' \<longleftrightarrow> cs_now w \<le> cs_now w' \<and>
     (case cs_files w path of
        None \<Rightarrow> (\<forall>f'. cs_files w' path = Some f' \<longrightarrow> cs_now w \<le> fatime f')
      | Some f \<Rightarrow> (\<exists>f'. cs_files w' path = Some f' \<and> (fatime f \<le> fatime f' \<or> cs_now w \<le> fatime f')))"

lemma keeps_refl [simp]: "keeps path w w"
  by (simp add: keeps_def split: option.split)

lemma keeps_trans: "keeps path w w' \<Longrightarrow> keeps path w' w'' \<Longrightarrow> keeps path w w''"
  by (fastforce simp: keeps_def split: option.splits)

definition others_keep :: "'x sys \<Rightarrow> cpath \<Rightarrow> bool" where
  "others_keep sys path \<longleftrightarrow> (\<forall>w. keeps path w (others sys w))"

text \<open>A file that is recent with respect to \<open>t\<close>: it is missing, or was touched at \<open>t\<close> or later.\<close>

definition recent :: "int \<Rightarrow> cpath \<Rightarrow> 'x world \<Rightarrow> bool" where
  "recent t path w \<longleftrightarrow> t \<le> cs_now w \<and> (\<forall>f. cs_files w path = Some f \<longrightarrow> t \<le> fatime f)"

lemma recent_keeps: "recent t path w \<Longrightarrow> keeps path w w' \<Longrightarrow> recent t path w'"
  by (fastforce simp: recent_def keeps_def split: option.splits)

lemma keeps_exists: "keeps path w w' \<Longrightarrow> cs_files w path \<noteq> None \<Longrightarrow> cs_files w' path \<noteq> None"
  by (auto simp: keeps_def split: option.splits)

lemma keeps_now: "keeps path w w' \<Longrightarrow> cs_now w \<le> cs_now w'"
  by (simp add: keeps_def)

lemma cond_touch_path_keeps: "cond_touch_path sys p b w = (r, w') \<Longrightarrow> keeps path w w'"
  by (auto simp: cond_touch_path_def keeps_def split: option.splits if_splits)

lemma cond_touch_path_recent:
  "cond_touch_path sys p b w = (Ok touched, w') \<Longrightarrow> t \<le> cs_now w \<Longrightarrow> recent t p w'"
  by (auto simp: cond_touch_path_def recent_def split: option.splits if_splits)

lemma touch_bad_loop_keeps: "touch_bad_loop sys d is b w = (r, w') \<Longrightarrow> keeps path w w'"
proof (induction "is" arbitrary: b w)
  case (Cons i "is")
  then show ?case
    by (auto split: prod.splits sum.splits dest: cond_touch_path_keeps [where path = path] intro: keeps_trans)
qed simp

lemma cond_touch_chunk_keeps:
  assumes "others_keep sys path"
  shows "cond_touch_chunk sys d b w = (r, w') \<Longrightarrow> keeps path w w'"
    "cond_touch_bad_chunks sys d w = (r, w') \<Longrightarrow> keeps path w w'"
  using assms cond_touch_path_keeps touch_bad_loop_keeps keeps_trans
  unfolding others_keep_def cond_touch_chunk_def cond_touch_chunk_no_lock_def cond_touch_bad_chunks_def by blast+

lemma cond_touch_chunk_recent:
  assumes "others_keep sys (fst (chunk_path d))" "cond_touch_chunk sys d b w = (Ok touched, w')" "t \<le> cs_now w"
  shows "recent t (fst (chunk_path d)) w'"
proof -
  have "t \<le> cs_now (others sys w)" using assms(1,3) keeps_now unfolding others_keep_def by (meson order_trans)
  then show ?thesis
    using cond_touch_path_recent assms(2) unfolding cond_touch_chunk_def cond_touch_chunk_no_lock_def by blast
qed

lemma write_keeps: "replace_file sys p data w = (r, w') \<Longrightarrow> keeps path w w'"
  by (cases "path = p") (auto simp: replace_file_def keeps_def split: option.splits)

lemma write_chunk_keeps: "write_chunk sys sync d raw w = (r, w') \<Longrightarrow> keeps path w w'"
  by (auto simp: write_chunk_def split: prod.splits sum.splits option.splits dest: write_keeps [where path = path])

lemma touch_existing_keeps: "touch_existing sys d n w = (r, w') \<Longrightarrow> keeps path w w'"
  by (auto simp: touch_existing_def touch_chunk_no_lock_def cond_touch_chunk_no_lock_def split: prod.splits sum.splits
      dest: cond_touch_path_keeps [where path = path])

text \<open>Concurrent inserts are what \<open>others_keep\<close> allows.\<close>

lemma insert_chunk_nolock_keeps: "insert_chunk_nolock sys sync chunk d w = Some (r, w') \<Longrightarrow> keeps path w w'"
  unfolding insert_chunk_nolock_def Let_def
  by (auto split: option.splits if_splits sum.splits bool.splits
      dest!: write_chunk_keeps [where path = path] touch_existing_keeps [where path = path] sym [of "(r, w')"])

section \<open>Names of chunks\<close>

lemma length_hex_encode: "length (hex_encode bs) = 2 * length bs"
  by (induction bs) (simp_all add: hex_encode_def hex_byte_def)

lemma nth_HEX_CHARS: "i < 16 \<Longrightarrow> HEX_CHARS ! i \<in> set ''0123456789abcdef''"
  unfolding HEX_CHARS_def by (rule nth_mem) simp

lemma nibbles: "unat (drop_bit 4 (b :: u8)) < 16" "unat (b AND 0xF) < 16"
proof -
  have "unat b < 256" using unsigned_less [of b, where 'a = nat] by simp
  then show "unat (drop_bit 4 b) < 16" unfolding unat_drop_bit_eq by (simp add: drop_bit_eq_div)
  have "b AND 0xF = take_bit 4 b" by (simp add: take_bit_eq_mask mask_eq_exp_minus_1)
  moreover have "unat (take_bit 4 b) < 16" unfolding unsigned_take_bit_eq by (simp add: take_bit_eq_mod)
  ultimately show "unat (b AND 0xF) < 16" by simp
qed

lemma hex_encode_digits: "list_all is_hexdigit (hex_encode bs)"
proof -
  have "is_hexdigit (HEX_CHARS ! i)" if "i < 16" for i
    using nth_HEX_CHARS [OF that] unfolding is_hexdigit_def by auto
  then show ?thesis by (induction bs) (simp_all add: hex_encode_def hex_byte_def nibbles)
qed

lemma chunk_ext_chunk: "length d = 32 \<Longrightarrow> chunk_ext (hex_encode d) = Some ExtNone"
  using hex_encode_digits [of d] by (simp add: chunk_ext_def length_hex_encode)

section \<open>What a sweep removes\<close>

lemma unlink_chunk_other: "unlink_chunk sys p w = (r, w') \<Longrightarrow> path \<noteq> p \<Longrightarrow> keeps path w w'"
  by (auto simp: unlink_chunk_def remove_file_def keeps_def split: option.splits bool.splits)

lemma unlink_chunk_now: "unlink_chunk sys p w = (r, w') \<Longrightarrow> cs_now w' = cs_now w"
  by (auto simp: unlink_chunk_def remove_file_def split: option.splits bool.splits)

lemma sweep_file_keeps:
  assumes "sweep_file sys ow ma p ext st w = (r, st', w')" "recent ma path w" "path = p \<longrightarrow> ext \<noteq> UsedMarker"
  shows "keeps path w w'"
proof (cases "path = p")
  case False
  then show ?thesis
    using assms(1) unlink_chunk_other [of sys p w _ w' path]
    by (auto simp: sweep_file_def cond_sweep_chunk_def Let_def split: option.splits if_splits prod.splits sum.splits)
next
  case True
  then show ?thesis
    using assms by (auto simp: sweep_file_def cond_sweep_chunk_def Let_def recent_def split: option.splits if_splits)
qed

text \<open>A recent chunk survives, whatever the sweep returns.\<close>

lemma sweep_entries_keeps:
  assumes "others_keep sys path" "chunk_ext (snd path) \<noteq> Some UsedMarker"
  shows "sweep_entries sys ow ma dir es st w = (r, st', w') \<Longrightarrow> recent ma path w \<Longrightarrow> keeps path w w'"
proof (induction es arbitrary: st w)
  case (Cons e es)
  show ?case
  proof (cases "\<exists>name ext. e = Inr name \<and> chunk_ext name = Some ext \<and> abort sys w = None")
    case True
    then obtain name ext where n: "e = Inr name" "chunk_ext name = Some ext" "abort sys w = None" by blast
    obtain r1 st1 w1 where f: "sweep_file sys ow ma (dir, name) ext st (others sys w) = (r1, st1, w1)" by (metis prod_cases3)
    have k0: "keeps path w (others sys w)" using assms(1) by (simp add: others_keep_def)
    have "path = (dir, name) \<longrightarrow> ext \<noteq> UsedMarker" using assms(2) n(2) by auto
    from sweep_file_keeps [OF f recent_keeps [OF Cons.prems(2) k0] this] have k1: "keeps path w w1" using k0 keeps_trans by blast
    show ?thesis
    proof (cases r1)
      case (Inl a)
      then show ?thesis using Cons.prems(1) n f k1 by simp
    next
      case (Inr a)
      then have "sweep_entries sys ow ma dir es st1 w1 = (r, st', w')" using Cons.prems(1) n f by simp
      from Cons.IH [OF this recent_keeps [OF Cons.prems(2) k1]] show ?thesis using k1 keeps_trans by blast
    qed
  next
    case False
    then show ?thesis using Cons by (cases e) (auto split: option.splits)
  qed
qed simp

lemma sweep_dirs_keeps:
  assumes "others_keep sys path" "chunk_ext (snd path) \<noteq> Some UsedMarker"
  shows "sweep_dirs sys ow ma ats st w = (r, st', w') \<Longrightarrow> recent ma path w \<Longrightarrow> keeps path w w'"
proof (induction ats arbitrary: st w)
  case (Cons at ats)
  show ?case
  proof (cases "list_dir sys w (hex4 at)")
    case (DirEntries es)
    obtain r1 st1 w1 where f: "sweep_entries sys ow ma (hex4 at) es st w = (r1, st1, w1)" by (metis prod_cases3)
    have k1: "keeps path w w1" by (rule sweep_entries_keeps [OF assms f Cons.prems(2)])
    show ?thesis
    proof (cases r1)
      case (Inl a)
      then show ?thesis using Cons.prems(1) DirEntries f k1 by simp
    next
      case (Inr a)
      then have "sweep_dirs sys ow ma ats st1 w1 = (r, st', w')" using Cons.prems(1) DirEntries f by simp
      from Cons.IH [OF this recent_keeps [OF Cons.prems(2) k1]] show ?thesis using k1 keeps_trans by blast
    qed
  qed (use Cons in \<open>auto split: option.splits\<close>)
qed simp

lemma sweep_keeps:
  assumes "others_keep sys (fst (chunk_path d))" "length d = 32" "recent ma (fst (chunk_path d)) w"
    "sweep_unused_chunks sys ow ma st w = (r, st', w')"
  shows "keeps (fst (chunk_path d)) w w'"
  using sweep_dirs_keeps [of sys "fst (chunk_path d)" ow ma "[0..<0x10000]" st w r st' w'] assms chunk_ext_chunk [of d]
  unfolding sweep_unused_chunks_def by (simp add: chunk_path_def)

section \<open>What a sweep leaves\<close>

text \<open>A system in which nothing else happens and no call fails; \<open>names\<close> are the files of each directory.\<close>

definition quiet :: "'x sys \<Rightarrow> (string \<Rightarrow> string list) \<Rightarrow> bool" where
  "quiet sys names \<longleftrightarrow>
     (\<forall>w. others sys w = w \<and> abort sys w = None \<and> (\<forall>p. \<not> stat_fail sys w p \<and> unlink_fail sys w p = None) \<and>
       (\<forall>dir. list_dir sys w dir = DirEntries (map Inr (names dir))))"

definition swept :: "int \<Rightarrow> string \<Rightarrow> cfile option \<Rightarrow> bool" where
  "swept ma name f \<longleftrightarrow>
     (case (chunk_ext name, f) of
        (Some ext, Some f) \<Rightarrow> is_reg f \<and> (ext = UsedMarker \<or> fatime f < ma)
      | _ \<Rightarrow> False)"

definition without :: "(cpath \<Rightarrow> bool) \<Rightarrow> 'x world \<Rightarrow> 'x world" where
  "without P w = w\<lparr>cs_files := (\<lambda>p. if P p then None else cs_files w p)\<rparr>"

lemma without_files [simp]: "cs_files (without P w) p = (if P p then None else cs_files w p)"
  by (simp add: without_def)

lemma sweep_file_exact:
  assumes "quiet sys names" "chunk_ext name = Some ext"
  shows "\<exists>st'. sweep_file sys ow ma (dir, name) ext st w = (Ok (), st', without (\<lambda>p. p = (dir, name) \<and> swept ma name (cs_files w p)) w)"
proof (cases "cs_files w (dir, name)")
  case None
  then have "without (\<lambda>p. p = (dir, name) \<and> swept ma name (cs_files w p)) w = w"
    by (auto simp: without_def swept_def intro!: world.equality ext split: option.splits)
  then show ?thesis using assms None by (simp add: sweep_file_def quiet_def)
next
  case (Some f)
  have gone: "without (\<lambda>p. p = (dir, name) \<and> swept ma name (cs_files w p)) w =
      (if swept ma name (Some f) then w\<lparr>cs_files := (cs_files w)((dir, name) := None)\<rparr> else w)"
    using Some by (auto simp: without_def intro!: world.equality ext)
  show ?thesis
    unfolding gone using assms Some
    by (auto simp: sweep_file_def cond_sweep_chunk_def unlink_chunk_def remove_file_def quiet_def swept_def Let_def)
qed

lemma sweep_entries_exact:
  assumes "quiet sys names"
  shows "\<exists>st'. sweep_entries sys ow ma dir (map Inr ns) st w =
    (Ok (), st', without (\<lambda>p. fst p = dir \<and> snd p \<in> set ns \<and> swept ma (snd p) (cs_files w p)) w)"
proof (induction ns arbitrary: st w)
  case Nil
  then show ?case by (simp add: without_def)
next
  case (Cons name ns)
  show ?case
  proof (cases "chunk_ext name")
    case None
    then have "(\<lambda>p. fst p = dir \<and> snd p \<in> set (name # ns) \<and> swept ma (snd p) (cs_files w p)) =
        (\<lambda>p. fst p = dir \<and> snd p \<in> set ns \<and> swept ma (snd p) (cs_files w p))"
      by (auto simp: swept_def)
    then show ?thesis using None Cons.IH [of st w] by simp
  next
    case (Some ext)
    obtain st1 where f: "sweep_file sys ow ma (dir, name) ext st w =
        (Ok (), st1, without (\<lambda>p. p = (dir, name) \<and> swept ma name (cs_files w p)) w)"
      using sweep_file_exact [OF assms Some] by blast
    define w1 where "w1 = without (\<lambda>p. p = (dir, name) \<and> swept ma name (cs_files w p)) w"
    have "without (\<lambda>p. fst p = dir \<and> snd p \<in> set ns \<and> swept ma (snd p) (cs_files w1 p)) w1 =
        without (\<lambda>p. fst p = dir \<and> snd p \<in> set (name # ns) \<and> swept ma (snd p) (cs_files w p)) w"
      by (auto simp: without_def w1_def intro!: world.equality ext)
    then show ?thesis using Cons.IH [of st1 w1] assms Some f by (simp add: quiet_def w1_def [symmetric])
  qed
qed

lemma sweep_dirs_exact:
  assumes "quiet sys names"
  shows "\<exists>st'. sweep_dirs sys ow ma ats st w =
    (Ok (), st', without (\<lambda>p. fst p \<in> hex4 ` set ats \<and> snd p \<in> set (names (fst p)) \<and> swept ma (snd p) (cs_files w p)) w)"
proof (induction ats arbitrary: st w)
  case Nil
  then show ?case by (simp add: without_def)
next
  case (Cons at ats)
  obtain st1 where f: "sweep_entries sys ow ma (hex4 at) (map Inr (names (hex4 at))) st w =
      (Ok (), st1, without (\<lambda>p. fst p = hex4 at \<and> snd p \<in> set (names (hex4 at)) \<and> swept ma (snd p) (cs_files w p)) w)"
    using sweep_entries_exact [OF assms] by blast
  define w1 where "w1 = without (\<lambda>p. fst p = hex4 at \<and> snd p \<in> set (names (hex4 at)) \<and> swept ma (snd p) (cs_files w p)) w"
  have "without (\<lambda>p. fst p \<in> hex4 ` set ats \<and> snd p \<in> set (names (fst p)) \<and> swept ma (snd p) (cs_files w1 p)) w1 =
      without (\<lambda>p. fst p \<in> hex4 ` set (at # ats) \<and> snd p \<in> set (names (fst p)) \<and> swept ma (snd p) (cs_files w p)) w"
    by (auto simp: without_def w1_def intro!: world.equality ext)
  then show ?case using Cons.IH [of st1 w1] assms f by (simp add: quiet_def w1_def [symmetric])
qed

text \<open>
  C33. A sweep that is not disturbed always succeeds and removes exactly the garbage: of the files in the chunk
  directories it removes the regular ones with the name of a chunk or bad chunk whose access time is before
  \<open>min_atime\<close>, and the markers of a former run; all others stay as they are.
\<close>

theorem sweep_exact:
  assumes "quiet sys names" "sweep_unused_chunks sys oldest_writer min_atime st w = (r, st', w')"
    "\<And>dir name. cs_files w (dir, name) \<noteq> None \<Longrightarrow> dir \<in> hex4 ` {..<0x10000} \<and> name \<in> set (names dir)"
  shows "r = Ok () \<and> cs_files w' (dir, name) = (if swept min_atime name (cs_files w (dir, name)) then None else cs_files w (dir, name))"
proof -
  obtain st'' where e: "sweep_unused_chunks sys oldest_writer min_atime st w =
      (Ok (), st'', without (\<lambda>p. fst p \<in> hex4 ` set [0..<0x10000] \<and> snd p \<in> set (names (fst p)) \<and> swept min_atime (snd p) (cs_files w p)) w)"
    using sweep_dirs_exact [OF assms(1)] unfolding sweep_unused_chunks_def by blast
  then have "r = Ok ()" using assms(2) by simp
  moreover have "set [0..<0x10000] = {..<0x10000 :: nat}" by auto
  moreover have "swept min_atime name (cs_files w (dir, name)) \<Longrightarrow> cs_files w (dir, name) \<noteq> None" by (auto simp: swept_def split: option.splits)
  ultimately show ?thesis
    using e assms(2) assms(3) [of dir name] by auto
qed

text \<open>A store with two chunks, one of them garbage.\<close>

definition old_chunk :: digest where "old_chunk = replicate 32 0"
definition new_chunk :: digest where "new_chunk = replicate 31 0 @ [1]"

definition sample_file :: "int \<Rightarrow> cfile" where
  "sample_file t = \<lparr>is_reg = True, fcontent = [1, 2, 3], fatime = t, finode = 0\<rparr>"

definition sample_world :: "unit world" where
  "sample_world = \<lparr>cs_files = [fst (chunk_path old_chunk) \<mapsto> sample_file 50, fst (chunk_path new_chunk) \<mapsto> sample_file 90000],
     cs_now = 100000, cs_next_inode = 1, cs_aux = ()\<rparr>"

definition sample_names :: "string \<Rightarrow> string list" where
  "sample_names dir = [hex_encode old_chunk, hex_encode new_chunk]"

definition sample_sys :: "unit sys" where
  "sample_sys = \<lparr>others = id, touch_fail = (\<lambda>_ _. None), stat_fail = (\<lambda>_ _. False), unlink_fail = (\<lambda>_ _. None),
     write_fail = (\<lambda>_ _. None), read_fail = (\<lambda>_ _. None), fsync_fail = (\<lambda>_. None),
     list_dir = (\<lambda>_ dir. DirEntries (map Inr (sample_names dir))), abort = (\<lambda>_. None)\<rparr>"

lemma sample_paths:
  "fst (chunk_path old_chunk) = (hex4 0, hex_encode old_chunk)" "fst (chunk_path new_chunk) = (hex4 0, hex_encode new_chunk)"
  "hex_encode old_chunk \<noteq> hex_encode new_chunk" "length old_chunk = 32" "length new_chunk = 32"
  by code_simp+

lemma sample_quiet: "quiet sample_sys sample_names"
  by (simp add: quiet_def sample_sys_def)

theorem sweep_exact_witness:
  "\<exists>st w'. sweep_unused_chunks sample_sys 95000 60 gc_status_default sample_world = (Ok (), st, w') \<and>
     cs_files w' (fst (chunk_path old_chunk)) = None \<and> cs_files w' (fst (chunk_path new_chunk)) = Some (sample_file 90000)"
proof -
  obtain r st w' where s: "sweep_unused_chunks sample_sys 95000 60 gc_status_default sample_world = (r, st, w')" by (metis prod_cases3)
  have files: "dir \<in> hex4 ` {..<0x10000} \<and> name \<in> set (sample_names dir)" if "cs_files sample_world (dir, name) \<noteq> None" for dir name
  proof -
    have "dir = hex4 0 \<and> (name = hex_encode old_chunk \<or> name = hex_encode new_chunk)"
      using that by (auto simp: sample_world_def sample_paths split: if_splits)
    then show ?thesis by (auto simp: sample_names_def)
  qed
  note ex = sweep_exact [OF sample_quiet s files]
  have "chunk_ext (hex_encode old_chunk) = Some ExtNone" "chunk_ext (hex_encode new_chunk) = Some ExtNone"
    by (simp_all add: chunk_ext_chunk sample_paths)
  then show ?thesis
    using s ex [of "hex4 0" "hex_encode old_chunk"] ex [of "hex4 0" "hex_encode new_chunk"] sample_paths(3)
    by (simp add: sample_paths swept_def sample_world_def sample_file_def)
qed

text \<open>
  An insert that succeeds leaves the chunk in the store with the current access time and the returned size,
  and touches no other file. It is the inserted blob if it was new; otherwise what was there is kept. A
  non-empty chunk is replaced only by a smaller one that is not encrypted.
\<close>

theorem insert_chunk_result:
  assumes "insert_chunk_nolock sys sync chunk d w = Some (Ok (duplicate, n), w')" "\<not> stat_fail sys w (fst (chunk_path d))"
  shows "(\<exists>f. cs_files w' (fst (chunk_path d)) = Some f \<and> fatime f = cs_now w \<and> length (fcontent f) = n \<and> is_reg f \<and>
      fcontent f = (if duplicate then fcontent (the (cs_files w (fst (chunk_path d)))) else raw_data chunk)) \<and>
    (\<forall>path. path \<noteq> fst (chunk_path d) \<longrightarrow> cs_files w' path = cs_files w path) \<and>
    (\<forall>f. cs_files w (fst (chunk_path d)) = Some f \<longrightarrow> fcontent f \<noteq> [] \<longrightarrow> \<not> duplicate \<longrightarrow>
      is_encrypted chunk = Some False \<and> length (raw_data chunk) < length (fcontent f))"
proof -
  have written: "cs_files w' (fst (chunk_path d)) = Some \<lparr>is_reg = True, fcontent = raw_data chunk, fatime = cs_now w, finode = cs_next_inode w\<rparr> \<and>
      n = length (raw_data chunk) \<and> \<not> duplicate \<and> (\<forall>path. path \<noteq> fst (chunk_path d) \<longrightarrow> cs_files w' path = cs_files w path)"
    if "write_chunk sys sync d (raw_data chunk) w = (Ok (duplicate, n), w')"
    using that by (auto simp: write_chunk_def replace_file_def split: option.splits)
  have touched: "cs_files w' (fst (chunk_path d)) = Some (f\<lparr>fatime := cs_now w\<rparr>) \<and> n = m \<and> duplicate \<and>
      (\<forall>path. path \<noteq> fst (chunk_path d) \<longrightarrow> cs_files w' path = cs_files w path)"
    if "touch_existing sys d m w = (Ok (duplicate, n), w')" "cs_files w (fst (chunk_path d)) = Some f" for f m
    using that by (auto simp: touch_existing_def touch_chunk_no_lock_def cond_touch_chunk_no_lock_def cond_touch_path_def
        split: option.splits prod.splits sum.splits)
  show ?thesis
  proof (cases "cs_files w (fst (chunk_path d))")
    case None
    then show ?thesis using assms written by (auto simp: insert_chunk_nolock_def)
  next
    case (Some f)
    consider (new) "write_chunk sys sync d (raw_data chunk) w = (Ok (duplicate, n), w')" "is_reg f"
        "fcontent f = [] \<or> is_encrypted chunk = Some False \<and> length (raw_data chunk) < length (fcontent f)"
      | (old) "touch_existing sys d (length (fcontent f)) w = (Ok (duplicate, n), w')" "is_reg f"
      using assms Some unfolding insert_chunk_nolock_def Let_def
      by (auto split: if_splits option.splits bool.splits sum.splits)
    then show ?thesis
    proof cases
      case new
      then show ?thesis using written Some by auto
    next
      case old
      then show ?thesis using touched [OF old(1) Some] Some by simp
    qed
  qed
qed

theorem insert_chunk_result_witness:
  "\<exists>w' f. insert_chunk_nolock sample_sys False \<lparr>raw_data = [4, 5, 6]\<rparr> old_chunk sample_world = Some (Ok (True, 3), w') \<and>
     cs_files w' (fst (chunk_path old_chunk)) = Some f \<and> fatime f = 100000 \<and> fcontent f = [1, 2, 3]"
proof -
  have f: "cs_files sample_world (fst (chunk_path old_chunk)) = Some (sample_file 50)"
    using sample_paths(3) by (simp add: sample_world_def sample_paths)
  have "\<exists>w'. insert_chunk_nolock sample_sys False \<lparr>raw_data = [4, 5, 6]\<rparr> old_chunk sample_world = Some (Ok (True, 3), w')"
    using f by (simp add: insert_chunk_nolock_def Let_def sample_file_def touch_existing_def touch_chunk_no_lock_def
        cond_touch_chunk_no_lock_def cond_touch_path_def) (simp add: sample_sys_def)
  then obtain w' where "insert_chunk_nolock sample_sys False \<lparr>raw_data = [4, 5, 6]\<rparr> old_chunk sample_world = Some (Ok (True, 3), w')" ..
  moreover have "\<not> stat_fail sample_sys sample_world (fst (chunk_path old_chunk))" by (simp add: sample_sys_def)
  ultimately show ?thesis using insert_chunk_result f by (fastforce simp: sample_file_def sample_world_def)
qed

end
