(* ===== verification/Gc.thy ===== *)
theory Gc
  imports ChunkStore LruCache Prune
begin

text \<open>
  Garbage collection (\<^verbatim>\<open>pbs-datastore/src/datastore.rs\<close>): phase 1 touches the chunks of every index file, phase 2 removes
  chunks that were not touched for long. The index files and the groups, which other processes change while
  the collection runs, are functions of the state of the world, in the record \<open>store\<close>; the sequence of
  groups is what the iterators over namespaces yield. Datastores on the file system are modelled, not the
  object store; progress messages are left out.
\<close>

section \<open>Index files\<close>

text \<open>An index as the \<^verbatim>\<open>IndexFile\<close> trait shows it: its size and the digests of its chunks.\<close>

record idx =
  idx_bytes :: nat
  idx_digests :: "digest list"

datatype ArchiveType = FixedIndexType | DynamicIndexType | BlobType

datatype io_kind = PermissionDenied | IoNotFound | OtherIo

text \<open>An entry of the directory walk: a path, or an error with its kind, depth and path if it is one of I/O.\<close>

datatype walk_item = Found string | WalkError "(io_kind \<times> (nat \<times> string) option) option"

record ('x, 'g) store =
  base_path :: string
  archive_type :: "string \<Rightarrow> ArchiveType option"
  walk_files :: "'x world \<Rightarrow> (string \<Rightarrow> bool) \<Rightarrow> walk_item list"
  open_file :: "'x world \<Rightarrow> string \<Rightarrow> (err, idx) result option"
  list_backups :: "'x world \<Rightarrow> 'g \<Rightarrow> (err, BackupInfo list) result"
  group_exists :: "'x world \<Rightarrow> 'g \<Rightarrow> bool"
  lock_group :: "'x world \<Rightarrow> 'g \<Rightarrow> err option"
  move_journal :: "'x world \<Rightarrow> (err, string list) result"

definition is_hidden :: "string \<Rightarrow> bool" where
  "is_hidden file_name \<longleftrightarrow> file_name \<noteq> [] \<and> hd file_name = CHR ''.''"

definition ends_with :: "string \<Rightarrow> string \<Rightarrow> bool" where
  "ends_with s suffix \<longleftrightarrow> length suffix \<le> length s \<and> drop (length s - length suffix) s = suffix"

definition handle_entry_err :: "(io_kind \<times> (nat \<times> string) option) option \<Rightarrow> (err, unit) result" where
  "handle_entry_err err =
     (case err of
        None \<Rightarrow> Ok ()
      | Some (kind, None) \<Rightarrow> Err ''unexpected error on datastore traversal''
      | Some (PermissionDenied, Some (depth, path)) \<Rightarrow>
          if depth \<le> 1 \<and> (path = ''lost+found'' \<or> ends_with path ''/lost+found'') then Ok ()
          else Err ''cannot continue garbage-collection safely, permission denied''
      | Some (IoNotFound, Some _) \<Rightarrow> Ok ()
      | Some (OtherIo, Some _) \<Rightarrow> Err ''unexpected error on datastore traversal'')"

definition is_index :: "('x, 'g) store \<Rightarrow> string \<Rightarrow> bool" where
  "is_index st path \<longleftrightarrow> archive_type st path = Some FixedIndexType \<or> archive_type st path = Some DynamicIndexType"

fun collect_index_files :: "('x, 'g) store \<Rightarrow> walk_item list \<Rightarrow> string list \<Rightarrow> (err, string list) result" where
  "collect_index_files st [] acc = Ok acc"
| "collect_index_files st (WalkError e # items) acc =
     and_then (handle_entry_err e) (\<lambda>_. collect_index_files st items acc)"
| "collect_index_files st (Found path # items) acc =
     collect_index_files st items (if is_index st path then List.insert path acc else acc)"

definition list_index_files :: "('x, 'g) store \<Rightarrow> 'x world \<Rightarrow> (err, string list) result" where
  "list_index_files st w = collect_index_files st (walk_files st w (\<lambda>name. \<not> is_hidden name)) []"

definition open_index_reader :: "('x, 'g) store \<Rightarrow> string \<Rightarrow> 'x world \<Rightarrow> (err, idx option) result" where
  "open_index_reader st path w =
     (if \<not> is_index st path then Err ''unexpected archive type''
      else if path = [] \<or> hd path \<noteq> CHR ''/'' then Err ''expected absolute path''
      else (case open_file st w path of
          None \<Rightarrow> Ok None
        | Some (Inl e) \<Rightarrow> Err e
        | Some (Inr idx) \<Rightarrow> Ok (Some idx)))"

section \<open>Phase 1\<close>

text \<open>
  The state of the marking: the index files of the first listing that are still to be processed, the cache of
  digests that were touched, the status and the world. \<open>Undef\<close> would be a memory error in the cache.
\<close>

record 'x mark_state =
  unprocessed :: "string list"
  chunk_lru_cache :: "(digest, unit) LruCache option"
  gc_status :: GarbageCollectionStatus
  wld :: "'x world"

datatype flow = Next | Retry | Fail err | Undef

text \<open>One digest; the cache is asked first, and only if it did not have the digest the chunk is touched.\<close>

definition touch_used :: "'x sys \<Rightarrow> digest \<Rightarrow> 'x mark_state \<Rightarrow> flow \<times> 'x mark_state" where
  "touch_used sys d s =
     (case cond_touch_chunk sys d False (wld s) of
        (Inl e, w) \<Rightarrow> (Fail e, s\<lparr>wld := w\<rparr>)
      | (Inr True, w) \<Rightarrow> (Next, s\<lparr>wld := w\<rparr>)
      | (Inr False, w) \<Rightarrow>
          (case cond_touch_bad_chunks sys d w of
             (Inl e, w') \<Rightarrow> (Fail e, s\<lparr>wld := w'\<rparr>)
           | (Inr _, w') \<Rightarrow> (Next, s\<lparr>wld := w'\<rparr>)))"

definition mark_digest :: "'x sys \<Rightarrow> digest \<Rightarrow> 'x mark_state \<Rightarrow> flow \<times> 'x mark_state" where
  "mark_digest sys d s =
     (case abort sys (wld s) of
        Some e \<Rightarrow> (Fail e, s)
      | None \<Rightarrow>
          (case chunk_lru_cache s of
             None \<Rightarrow> touch_used sys d s
           | Some c \<Rightarrow>
               (case lru_insert d () (\<lambda>_. Ok ()) c of
                  None \<Rightarrow> (Undef, s)
                | Some (Inl e, c') \<Rightarrow> (Fail e, s\<lparr>chunk_lru_cache := Some c'\<rparr>)
                | Some (Inr True, c') \<Rightarrow>
                    (Next, s\<lparr>chunk_lru_cache := Some c', gc_status := (gc_status s)\<lparr>cache_hits := cache_hits (gc_status s) + 1\<rparr>\<rparr>)
                | Some (Inr False, c') \<Rightarrow>
                    touch_used sys d
                      (s\<lparr>chunk_lru_cache := Some c', gc_status := (gc_status s)\<lparr>cache_misses := cache_misses (gc_status s) + 1\<rparr>\<rparr>))))"

fun mark_digests :: "'x sys \<Rightarrow> digest list \<Rightarrow> 'x mark_state \<Rightarrow> flow \<times> 'x mark_state" where
  "mark_digests sys [] s = (Next, s)"
| "mark_digests sys (d # ds) s =
     (case mark_digest sys d s of
        (Next, s') \<Rightarrow> mark_digests sys ds s'
      | (r, s') \<Rightarrow> (r, s'))"

definition index_mark_used_chunks :: "'x sys \<Rightarrow> idx \<Rightarrow> 'x mark_state \<Rightarrow> flow \<times> 'x mark_state" where
  "index_mark_used_chunks sys index s =
     mark_digests sys (idx_digests index)
       (s\<lparr>gc_status := (gc_status s)\<lparr>index_file_count := index_file_count (gc_status s) + 1,
                                   index_data_bytes := index_data_bytes (gc_status s) + idx_bytes index\<rparr>\<rparr>)"

text \<open>The files of a snapshot; \<open>newest\<close> says that it is the last one of its group.\<close>

fun mark_files :: "'x sys \<Rightarrow> ('x, 'g) store \<Rightarrow> bool \<Rightarrow> string \<Rightarrow> string list \<Rightarrow> 'x mark_state \<Rightarrow> flow \<times> 'x mark_state" where
  "mark_files sys st newest dir [] s = (Next, s)"
| "mark_files sys st newest dir (file # fs) s =
     (case abort sys (wld s) of
        Some e \<Rightarrow> (Fail e, s)
      | None \<Rightarrow>
          if \<not> is_index st file then mark_files sys st newest dir fs s
          else
            (let path = dir @ ''/'' @ file; s0 = s\<lparr>wld := others sys (wld s)\<rparr> in
             case open_index_reader st path (wld s0) of
               Inl e \<Rightarrow> (Fail e, s0)
             | Inr None \<Rightarrow>
                 (let s1 = s0\<lparr>unprocessed := removeAll path (unprocessed s0)\<rparr> in
                  if newest then (Retry, s1) else mark_files sys st newest dir fs s1)
             | Inr (Some index) \<Rightarrow>
                 (case index_mark_used_chunks sys index s0 of
                    (Next, s1) \<Rightarrow> mark_files sys st newest dir fs (s1\<lparr>unprocessed := removeAll path (unprocessed s1)\<rparr>)
                  | (r, s1) \<Rightarrow> (r, s1))))"

definition full_path :: "('x, 'g) store \<Rightarrow> BackupInfo \<Rightarrow> string" where
  "full_path st snapshot = base_path st @ ''/'' @ relative_path snapshot"

fun mark_snapshots :: "'x sys \<Rightarrow> ('x, 'g) store \<Rightarrow> bool \<Rightarrow> BackupInfo list \<Rightarrow> 'x mark_state \<Rightarrow> flow \<times> 'x mark_state" where
  "mark_snapshots sys st newest [] s = (Next, s)"
| "mark_snapshots sys st newest (snapshot # more_snapshots) s =
     (case mark_files sys st newest (full_path st snapshot) (files snapshot) s of
        (Next, s') \<Rightarrow> mark_snapshots sys st False more_snapshots s'
      | (r, s') \<Rightarrow> (r, s'))"

text \<open>The retry loop of a group: ten tries without its lock, one with it.\<close>

function mark_group :: "'x sys \<Rightarrow> ('x, 'g) store \<Rightarrow> nat \<Rightarrow> 'g \<Rightarrow> 'x mark_state \<Rightarrow> flow \<times> 'x mark_state" where
  "mark_group sys st retry_counter grp s0 =
     (let s = s0\<lparr>wld := others sys (wld s0)\<rparr> in
      if retry_counter > 10 then (Fail ''exhausted retries and unexpected counter overrun'', s)
      else
        (case (if retry_counter = 10 then lock_group st (wld s) grp else None) of
           Some e \<Rightarrow> (Fail (''exhausted retries and failed to lock group'' @ e), s)
         | None \<Rightarrow>
             (case list_backups st (wld s) grp of
                Inl e \<Rightarrow> if group_exists st (wld s) grp then (Fail (''listing snapshots failed'' @ e), s) else (Next, s)
              | Inr snapshots \<Rightarrow>
                  (case mark_snapshots sys st True (rev (sort_list True snapshots)) s of
                     (Retry, s') \<Rightarrow> mark_group sys st (retry_counter + 1) grp s'
                   | (r, s') \<Rightarrow> (r, s')))))"
  by pat_completeness auto
termination by (relation "measure (\<lambda>(sys, st, k, grp, s). 12 - k)") auto

declare mark_group.simps [simp del]

fun mark_groups :: "'x sys \<Rightarrow> ('x, 'g) store \<Rightarrow> (err, 'g) result list \<Rightarrow> 'x mark_state \<Rightarrow> flow \<times> 'x mark_state" where
  "mark_groups sys st [] s = (Next, s)"
| "mark_groups sys st (Inl e # gs) s = (Fail e, s)"
| "mark_groups sys st (Inr grp # gs) s =
     (case mark_group sys st 0 grp s of
        (Next, s') \<Rightarrow> mark_groups sys st gs s'
      | (r, s') \<Rightarrow> (r, s'))"

text \<open>Paths that are opened wherever they are: those left over, and those of the move journal.\<close>

fun mark_paths :: "'x sys \<Rightarrow> ('x, 'g) store \<Rightarrow> string list \<Rightarrow> 'x mark_state \<Rightarrow> flow \<times> 'x mark_state" where
  "mark_paths sys st [] s = (Next, s)"
| "mark_paths sys st (path # paths) s0 =
     (let s = s0\<lparr>wld := others sys (wld s0)\<rparr> in
      case open_index_reader st path (wld s) of
        Inl e \<Rightarrow> (Fail e, s)
      | Inr None \<Rightarrow> mark_paths sys st paths s
      | Inr (Some index) \<Rightarrow>
          (case index_mark_used_chunks sys index s of
             (Next, s') \<Rightarrow> mark_paths sys st paths s'
           | (r, s') \<Rightarrow> (r, s')))"

definition and_flow :: "flow \<times> 'x mark_state \<Rightarrow> ('x mark_state \<Rightarrow> flow \<times> 'x mark_state) \<Rightarrow> flow \<times> 'x mark_state" where
  "and_flow r f = (case r of (Next, s) \<Rightarrow> f s | (x, s) \<Rightarrow> (x, s))"

definition mark_used_chunks ::
  "'x sys \<Rightarrow> ('x, 'g) store \<Rightarrow> nat \<Rightarrow> (err, 'g) result list \<Rightarrow> GarbageCollectionStatus \<Rightarrow> 'x world \<Rightarrow> flow \<times> 'x mark_state" where
  "mark_used_chunks sys st cache_capacity grps status w =
     (let cache = (if cache_capacity > 0 then Some (LruCache_new cache_capacity) else None);
          s0 = \<lparr>unprocessed = [], chunk_lru_cache = cache, gc_status = status, wld = w\<rparr> in
      case list_index_files st w of
        Inl e \<Rightarrow> (Fail e, s0)
      | Inr paths \<Rightarrow>
          and_flow (mark_groups sys st grps (s0\<lparr>unprocessed := paths\<rparr>)) (\<lambda>s1.
          and_flow (mark_paths sys st (unprocessed s1) s1) (\<lambda>s2.
            let s3 = s2\<lparr>wld := others sys (wld s2)\<rparr> in
            case move_journal st (wld s3) of
              Inl e \<Rightarrow> (Fail e, s3)
            | Inr moved \<Rightarrow> mark_paths sys st moved s3)))"

section \<open>The collection\<close>

record gc_config =
  config_error :: "err option"
  atime_safety_check :: bool
  atime_cutoff :: "nat option"
  gc_cache_capacity :: "nat option"
  sync_file :: bool
  zero_chunk :: "DataBlob \<times> digest"

definition gc_min_atime :: "nat option \<Rightarrow> int \<Rightarrow> int \<Rightarrow> int" where
  "gc_min_atime cutoff phase1_start_time oldest_writer =
     (let cutoff_secs = (case cutoff of Some c \<Rightarrow> c * 60 | None \<Rightarrow> 3600 * 24 + 300);
          min_atime = phase1_start_time - int cutoff_secs
      in if oldest_writer < min_atime then oldest_writer - 300 else min_atime)"

text \<open>
  \<open>oldest\<close> is the start of the oldest process that holds a shared lock, if any. The result is \<open>None\<close> for a panic,
  which a zero chunk without magic number could cause.
\<close>

definition garbage_collection_impl ::
  "'x sys \<Rightarrow> ('x, 'g) store \<Rightarrow> gc_config \<Rightarrow> int option \<Rightarrow> (err, 'g) result list \<Rightarrow> 'x world \<Rightarrow>
   ((err, GarbageCollectionStatus) result \<times> 'x world) option" where
  "garbage_collection_impl sys st config oldest grps w =
     (case config_error config of
        Some e \<Rightarrow> Some (Err e, w)
      | None \<Rightarrow>
          (let phase1_start_time = cs_now w;
               oldest_writer = (case oldest of Some t \<Rightarrow> t | None \<Rightarrow> phase1_start_time);
               min_atime = gc_min_atime (atime_cutoff config) phase1_start_time oldest_writer in
           case (if atime_safety_check config then check_fs_atime_updates sys (sync_file config) (zero_chunk config) True w
                 else Some (Ok (), w)) of
             None \<Rightarrow> None
           | Some (Inl e, w1) \<Rightarrow> Some (Err (''atime safety check failed'' @ e), w1)
           | Some (Inr _, w1) \<Rightarrow>
               (case mark_used_chunks sys st (case gc_cache_capacity config of Some c \<Rightarrow> c | None \<Rightarrow> 1024 * 1024) grps gc_status_default w1 of
                  (Undef, s) \<Rightarrow> None
                | (Fail e, s) \<Rightarrow> Some (Err (''marking used chunks failed'' @ e), wld s)
                | (Retry, s) \<Rightarrow> None
                | (Next, s) \<Rightarrow>
                    if cs_now (wld s) < phase1_start_time then Some (Err ''Unexpected system time drift detected'', wld s)
                    else (case sweep_unused_chunks sys oldest_writer min_atime (gc_status s) (wld s) of
                        (Inl e, status, w2) \<Rightarrow> Some (Err e, w2)
                      | (Inr _, status, w2) \<Rightarrow> Some (Ok status, w2)))))"

text \<open>
  \<^verbatim>\<open>garbage_collection\<close> runs it with the exclusive lock kept in \<^verbatim>\<open>gc_mutex\<close>: \<open>mutex\<close> is \<open>None\<close> if that is taken by
  another thread, else whether it holds a lock already.
\<close>

definition garbage_collection ::
  "bool option \<Rightarrow> err option \<Rightarrow> ('w \<Rightarrow> ((err, 's) result \<times> 'w) option) \<Rightarrow> 'w \<Rightarrow> ((err, 's) result \<times> 'w) option" where
  "garbage_collection mutex exclusive_lock run w =
     (case mutex of
        None \<Rightarrow> Some (Err ''Start GC failed - (already running/locked)'', w)
      | Some held \<Rightarrow>
          (case exclusive_lock of
             Some e \<Rightarrow> Some (Err e, w)
           | None \<Rightarrow>
               if held then Some (Err ''Obtained exclusive lock on datastore twice - this should never happen!'', w)
               else run w))"

section \<open>The marked chunks\<close>

text \<open>
  The argument follows one chunk \<open>d\<close> of one index file \<open>p\<close>. \<open>cache_sound\<close>: the clock has not gone back behind \<open>t\<close>, and if
  the cache knows the chunk, it was touched since. \<open>pending\<close>: the index file is still to be processed, or the
  chunk was touched. The empty path stands for no index file.
\<close>

definition cache_sound :: "int \<Rightarrow> digest \<Rightarrow> 'x mark_state \<Rightarrow> bool" where
  "cache_sound t d s \<longleftrightarrow> t \<le> cs_now (wld s) \<and>
     (\<forall>c. chunk_lru_cache s = Some c \<longrightarrow> lru_inv c \<and> (d \<in> fst ` set (entries c) \<longrightarrow> recent t (fst (chunk_path d)) (wld s)))"

definition pending :: "int \<Rightarrow> digest \<Rightarrow> string \<Rightarrow> 'x mark_state \<Rightarrow> bool" where
  "pending t d p s \<longleftrightarrow> p = [] \<or> p \<in> set (unprocessed s) \<or> recent t (fst (chunk_path d)) (wld s)"

definition step_ok :: "int \<Rightarrow> digest \<Rightarrow> string \<Rightarrow> 'x mark_state \<Rightarrow> flow \<Rightarrow> 'x mark_state \<Rightarrow> bool" where
  "step_ok t d p s r s' \<longleftrightarrow> r \<noteq> Undef \<and> keeps (fst (chunk_path d)) (wld s) (wld s') \<and>
     (r = Next \<or> r = Retry \<longrightarrow> cache_sound t d s' \<and> (pending t d p s \<longrightarrow> pending t d p s'))"

lemma step_ok_trans:
  assumes "step_ok t d p s Next s1" "step_ok t d p s1 r s2"
  shows "step_ok t d p s r s2"
  using assms keeps_trans unfolding step_ok_def by blast

lemma step_ok_retry_trans:
  assumes "step_ok t d p s Retry s1" "step_ok t d p s1 r s2"
  shows "step_ok t d p s r s2"
  using assms keeps_trans unfolding step_ok_def by blast

lemma step_ok_refl: "cache_sound t d s \<Longrightarrow> step_ok t d p s Next s"
  by (simp add: step_ok_def)

lemma step_ok_sound: "step_ok t d p s r s' \<Longrightarrow> r = Next \<or> r = Retry \<Longrightarrow> cache_sound t d s'"
  unfolding step_ok_def by blast

lemma cache_sound_world:
  assumes "cache_sound t d s" "keeps (fst (chunk_path d)) (wld s) w"
  shows "cache_sound t d (s\<lparr>wld := w\<rparr>)"
  using assms keeps_now [OF assms(2)] recent_keeps [OF _ assms(2)] unfolding cache_sound_def by (auto intro: order_trans)

lemma step_ok_world:
  assumes "cache_sound t d s" "keeps (fst (chunk_path d)) (wld s) w" "r = Next \<or> (\<exists>e. r = Fail e)"
  shows "step_ok t d p s r (s\<lparr>wld := w\<rparr>)"
  using assms cache_sound_world [OF assms(1,2)] recent_keeps [OF _ assms(2)] unfolding step_ok_def pending_def by auto

lemma step_ok_others:
  assumes "cache_sound t d s" "others_keep sys (fst (chunk_path d))"
  shows "step_ok t d p s Next (s\<lparr>wld := others sys (wld s)\<rparr>)"
  using step_ok_world [OF assms(1), of "others sys (wld s)" Next p] assms(2) by (simp add: others_keep_def)

text \<open>Touching: after it the chunk is recent, and so are the chunks of the digests in the cache.\<close>

lemma touch_used_ok:
  assumes "touch_used sys e s = (r, s')" "others_keep sys (fst (chunk_path d))" "t \<le> cs_now (wld s)"
  shows "keeps (fst (chunk_path d)) (wld s) (wld s')" "r = Next \<or> (\<exists>m. r = Fail m)" "\<exists>w. s' = s\<lparr>wld := w\<rparr>"
    "r = Next \<Longrightarrow> e = d \<Longrightarrow> recent t (fst (chunk_path d)) (wld s')"
proof -
  obtain q w where t: "cond_touch_chunk sys e False (wld s) = (q, w)" by fastforce
  have k: "keeps (fst (chunk_path d)) (wld s) w" by (rule cond_touch_chunk_keeps(1) [OF assms(2) t])
  have rec: "recent t (fst (chunk_path d)) w" if "e = d" "is_ok q"
    using cond_touch_chunk_recent [OF assms(2)] t that assms(3) by (auto simp: is_ok_iff)
  have all: "keeps (fst (chunk_path d)) (wld s) (wld s') \<and> (r = Next \<or> (\<exists>m. r = Fail m)) \<and> (\<exists>w. s' = s\<lparr>wld := w\<rparr>) \<and>
      (r = Next \<longrightarrow> e = d \<longrightarrow> recent t (fst (chunk_path d)) (wld s'))"
  proof (cases "q = Ok False")
    case True
    obtain q2 w2 where b: "cond_touch_bad_chunks sys e w = (q2, w2)" by fastforce
    have k2: "keeps (fst (chunk_path d)) w w2" by (rule cond_touch_chunk_keeps(2) [OF assms(2) b])
    have "e = d \<Longrightarrow> recent t (fst (chunk_path d)) w2" using rec True recent_keeps [OF _ k2] by simp
    then show ?thesis
      using assms(1) t True b k keeps_trans [OF k k2] by (auto simp: touch_used_def split: sum.splits)
  next
    case False
    then show ?thesis using assms(1) t k rec by (auto simp: touch_used_def split: sum.splits bool.splits)
  qed
  then show "keeps (fst (chunk_path d)) (wld s) (wld s')" "r = Next \<or> (\<exists>m. r = Fail m)" "\<exists>w. s' = s\<lparr>wld := w\<rparr>"
    "r = Next \<Longrightarrow> e = d \<Longrightarrow> recent t (fst (chunk_path d)) (wld s')" by blast+
qed

lemma lru_insert_ok:
  assumes "lru_inv c"
  obtains c' where "lru_insert k () (\<lambda>_. Ok () :: (err, unit) result) c = Some (Ok (k \<in> fst ` set (entries c)), c')" "lru_inv c'"
    "\<And>x. x \<in> fst ` set (entries c') \<Longrightarrow> x = k \<or> x \<in> fst ` set (entries c)"
proof -
  obtain c' where c': "lru_insert k () (\<lambda>_. Ok () :: (err, unit) result) c = Some (Ok (k \<in> fst ` set (entries c)), c')" "lru_inv c'"
      "entries c' = spec_put (capacity c) k () (entries c)"
    using lru_insert_spec [OF assms, of k "()" "\<lambda>_. Ok () :: (err, unit) result"] by (auto simp: evict_result_def split: option.splits)
  moreover have "x = k \<or> x \<in> fst ` set (entries c)" if "x \<in> fst ` set (entries c')" for x
    using that set_take_subset [of "capacity c" "(k, ()) # filter (\<lambda>e. fst e \<noteq> k) (entries c)"] unfolding c'(3) spec_put_def by force
  ultimately show ?thesis using that by blast
qed

lemma mark_digest_ok:
  assumes "mark_digest sys e s = (r, s')" "others_keep sys (fst (chunk_path d))" "cache_sound t d s"
  shows "step_ok t d p s r s' \<and> r \<noteq> Retry \<and> unprocessed s' = unprocessed s \<and> (r = Next \<longrightarrow> e = d \<longrightarrow> recent t (fst (chunk_path d)) (wld s'))"
proof -
  let ?P = "fst (chunk_path d)"
  have now: "t \<le> cs_now (wld s)" using assms(3) by (simp add: cache_sound_def)
  consider (aborted) m where "abort sys (wld s) = Some m" | (no_cache) "abort sys (wld s) = None" "chunk_lru_cache s = None"
    | (cached) c where "abort sys (wld s) = None" "chunk_lru_cache s = Some c" by fastforce
  then show ?thesis
  proof cases
    case aborted
    then show ?thesis using assms by (auto simp: mark_digest_def step_ok_def)
  next
    case no_cache
    then have t: "touch_used sys e s = (r, s')" using assms(1) by (simp add: mark_digest_def)
    show ?thesis
      using touch_used_ok [OF t assms(2) now] step_ok_world [OF assms(3)] by auto
  next
    case cached
    then have inv: "lru_inv c" and known: "d \<in> fst ` set (entries c) \<Longrightarrow> recent t ?P (wld s)" using assms(3) by (auto simp: cache_sound_def)
    obtain c' where c': "lru_insert e () (\<lambda>_. Ok () :: (err, unit) result) c = Some (Ok (e \<in> fst ` set (entries c)), c')" "lru_inv c'"
        "\<And>x. x \<in> fst ` set (entries c') \<Longrightarrow> x = e \<or> x \<in> fst ` set (entries c)"
      using lru_insert_ok [OF inv] by blast
    show ?thesis
    proof (cases "e \<in> fst ` set (entries c)")
      case True
      have s': "r = Next" "s' = s\<lparr>chunk_lru_cache := Some c', gc_status := (gc_status s)\<lparr>cache_hits := cache_hits (gc_status s) + 1\<rparr>\<rparr>"
        using assms(1) cached c'(1) True by (simp_all add: mark_digest_def)
      have "d \<in> fst ` set (entries c') \<longrightarrow> recent t ?P (wld s)" "e = d \<longrightarrow> recent t ?P (wld s)"
        using c'(3) [of d] True known by blast+
      then show ?thesis using s' c'(2) now by (simp add: step_ok_def pending_def cache_sound_def)
    next
      case False
      define s1 where "s1 = s\<lparr>chunk_lru_cache := Some c', gc_status := (gc_status s)\<lparr>cache_misses := cache_misses (gc_status s) + 1\<rparr>\<rparr>"
      have t: "touch_used sys e s1 = (r, s')" using assms(1) cached c'(1) False by (simp add: mark_digest_def s1_def)
      have w1: "wld s1 = wld s" "unprocessed s1 = unprocessed s" by (simp_all add: s1_def)
      note tu = touch_used_ok [OF t assms(2) now [folded w1(1)]]
      obtain w where w: "s' = s1\<lparr>wld := w\<rparr>" using tu(3) by blast
      have "cache_sound t d s'" if "r = Next"
      proof -
        have "recent t ?P w" if "d \<in> fst ` set (entries c')"
        proof (cases "e = d")
          case True
          then show ?thesis using tu(4) \<open>r = Next\<close> w by simp
        next
          case False
          then show ?thesis using c'(3) [OF that] known recent_keeps [OF _ tu(1)] w1 w by auto
        qed
        then show ?thesis
          using c'(2) keeps_now [OF tu(1)] now w1 w by (auto simp: cache_sound_def s1_def)
      qed
      moreover have "pending t d p s \<longrightarrow> pending t d p s'"
        using recent_keeps [OF _ tu(1)] w1 w by (auto simp: pending_def)
      ultimately show ?thesis using tu w1 w by (auto simp: step_ok_def)
    qed
  qed
qed

lemma mark_digests_ok:
  assumes "others_keep sys (fst (chunk_path d))"
  shows "mark_digests sys ds s = (r, s') \<Longrightarrow> cache_sound t d s \<Longrightarrow>
    step_ok t d p s r s' \<and> r \<noteq> Retry \<and> unprocessed s' = unprocessed s \<and> (r = Next \<longrightarrow> d \<in> set ds \<longrightarrow> recent t (fst (chunk_path d)) (wld s'))"
proof (induction ds arbitrary: s)
  case Nil
  then show ?case by (simp add: step_ok_refl)
next
  case (Cons e ds)
  obtain r1 s1 where m: "mark_digest sys e s = (r1, s1)" by fastforce
  note one = mark_digest_ok [OF m assms Cons.prems(2), of p]
  show ?case
  proof (cases "r1 = Next")
    case True
    then have "mark_digests sys ds s1 = (r, s')" "cache_sound t d s1" using Cons.prems(1) m one by (simp_all add: step_ok_def)
    from Cons.IH [OF this] have "step_ok t d p s1 r s' \<and> r \<noteq> Retry \<and> unprocessed s' = unprocessed s1 \<and> (r = Next \<longrightarrow> d \<in> set ds \<longrightarrow> recent t (fst (chunk_path d)) (wld s'))" .
    then show ?thesis
      using one True step_ok_trans [of t d p s s1 r s'] recent_keeps [of t "fst (chunk_path d)" "wld s1" "wld s'"] by (auto simp: step_ok_def)
  next
    case False
    then have "r = r1" "s' = s1" using Cons.prems(1) m by (cases r1; simp)+
    then show ?thesis using one False by simp
  qed
qed

lemma index_mark_ok:
  assumes "others_keep sys (fst (chunk_path d))" "index_mark_used_chunks sys index s = (r, s')" "cache_sound t d s"
  shows "step_ok t d p s r s' \<and> r \<noteq> Retry \<and> unprocessed s' = unprocessed s \<and>
    (r = Next \<longrightarrow> d \<in> set (idx_digests index) \<longrightarrow> recent t (fst (chunk_path d)) (wld s'))"
proof -
  define s1 where "s1 = s\<lparr>gc_status := (gc_status s)\<lparr>index_file_count := index_file_count (gc_status s) + 1,
      index_data_bytes := index_data_bytes (gc_status s) + idx_bytes index\<rparr>\<rparr>"
  have "mark_digests sys (idx_digests index) s1 = (r, s')" using assms(2) by (simp add: index_mark_used_chunks_def s1_def)
  moreover have "cache_sound t d s1" using assms(3) by (simp add: cache_sound_def s1_def)
  ultimately have "step_ok t d p s1 r s' \<and> r \<noteq> Retry \<and> unprocessed s' = unprocessed s1 \<and> (r = Next \<longrightarrow> d \<in> set (idx_digests index) \<longrightarrow> recent t (fst (chunk_path d)) (wld s'))"
    by (rule mark_digests_ok [OF assms(1)])
  then show ?thesis by (auto simp: s1_def step_ok_def pending_def)
qed

text \<open>The setting of the following lemmas: an index file that stays in place and has the chunk.\<close>

definition stays :: "('x, 'g) store \<Rightarrow> string \<Rightarrow> digest \<Rightarrow> bool" where
  "stays st p d \<longleftrightarrow> is_index st p \<and> p \<noteq> [] \<and> hd p = CHR ''/'' \<and> (\<forall>w. \<exists>index. open_file st w p = Some (Ok index) \<and> d \<in> set (idx_digests index))"

lemma stays_open: "p = [] \<or> stays st p d \<Longrightarrow> p \<noteq> [] \<Longrightarrow> \<exists>index. open_index_reader st p w = Ok (Some index) \<and> d \<in> set (idx_digests index)"
  unfolding stays_def open_index_reader_def by (metis (no_types, lifting) option.simps(5) sum.simps(6))

lemma drop_path_ok:
  assumes "cache_sound t d s" "p = [] \<or> p \<noteq> path \<or> recent t (fst (chunk_path d)) (wld s)" "r = Next \<or> r = Retry"
  shows "step_ok t d p s r (s\<lparr>unprocessed := removeAll path (unprocessed s)\<rparr>)"
  using assms by (auto simp: step_ok_def cache_sound_def pending_def)

lemma mark_files_Cons:
  assumes "path = dir @ ''/'' @ file" "s0 = s\<lparr>wld := others sys (wld s)\<rparr>"
  shows "mark_files sys st newest dir (file # fs) s =
     (case abort sys (wld s) of
        Some e \<Rightarrow> (Fail e, s)
      | None \<Rightarrow>
          if \<not> is_index st file then mark_files sys st newest dir fs s
          else
            (case open_index_reader st path (wld s0) of
               Inl e \<Rightarrow> (Fail e, s0)
             | Inr None \<Rightarrow>
                 if newest then (Retry, s0\<lparr>unprocessed := removeAll path (unprocessed s0)\<rparr>)
                 else mark_files sys st newest dir fs (s0\<lparr>unprocessed := removeAll path (unprocessed s0)\<rparr>)
             | Inr (Some index) \<Rightarrow>
                 (case index_mark_used_chunks sys index s0 of
                    (Next, s1) \<Rightarrow> mark_files sys st newest dir fs (s1\<lparr>unprocessed := removeAll path (unprocessed s1)\<rparr>)
                  | (r, s1) \<Rightarrow> (r, s1))))"
  unfolding assms mark_files.simps Let_def ..

lemma mark_files_ok:
  assumes "others_keep sys (fst (chunk_path d))" "p = [] \<or> stays st p d"
  shows "mark_files sys st newest dir fs s = (r, s') \<Longrightarrow> cache_sound t d s \<Longrightarrow> step_ok t d p s r s'"
proof (induction fs arbitrary: s)
  case Nil
  then show ?case by (simp add: step_ok_refl)
next
  case (Cons f fs)
  define path where "path = dir @ ''/'' @ f"
  define s0 where "s0 = s\<lparr>wld := others sys (wld s)\<rparr>"
  note eq = Cons.prems(1) [unfolded mark_files_Cons [OF path_def s0_def]]
  have o: "step_ok t d p s Next s0" unfolding s0_def by (rule step_ok_others [OF Cons.prems(2) assms(1)])
  then have c0: "cache_sound t d s0" by (simp add: step_ok_def)
  consider (aborted) m where "abort sys (wld s) = Some m" | (skip) "abort sys (wld s) = None" "\<not> is_index st f"
    | (open_err) e where "abort sys (wld s) = None" "is_index st f" "open_index_reader st path (wld s0) = Err e"
    | (gone) "abort sys (wld s) = None" "is_index st f" "open_index_reader st path (wld s0) = Ok None"
    | (there) index where "abort sys (wld s) = None" "is_index st f" "open_index_reader st path (wld s0) = Ok (Some index)"
    by (metis option.exhaust sum.exhaust)
  then show ?case
  proof cases
    case aborted
    then show ?thesis using eq by (auto simp: step_ok_def)
  next
    case skip
    then show ?thesis using eq Cons.IH Cons.prems(2) by simp
  next
    case open_err
    then show ?thesis using eq o by (auto simp: step_ok_def)
  next
    case gone
    then have np: "p = [] \<or> p \<noteq> path" using stays_open [OF assms(2), of "wld s0"] by auto
    define s1 where "s1 = s0\<lparr>unprocessed := removeAll path (unprocessed s0)\<rparr>"
    have s1: "step_ok t d p s r1 s1" if "r1 = Next \<or> r1 = Retry" for r1
      unfolding s1_def using step_ok_trans [OF o] drop_path_ok [OF c0, of p path r1] np that by blast
    show ?thesis
    proof (cases newest)
      case True
      then have "r = Retry" "s' = s1" using eq gone by (simp_all add: s1_def)
      then show ?thesis using s1 by simp
    next
      case False
      then have "mark_files sys st newest dir fs s1 = (r, s')"
        using eq gone by (simp add: s1_def)
      from Cons.IH [OF this] s1 [of Next] show ?thesis using step_ok_trans step_ok_sound by blast
    qed
  next
    case there
    obtain r1 s1 where m: "index_mark_used_chunks sys index s0 = (r1, s1)" by fastforce
    note one = index_mark_ok [OF assms(1) m c0, of p]
    show ?thesis
    proof (cases "r1 = Next")
      case True
      define s2 where "s2 = s1\<lparr>unprocessed := removeAll path (unprocessed s1)\<rparr>"
      have "p = [] \<or> p \<noteq> path \<or> recent t (fst (chunk_path d)) (wld s1)"
        using stays_open [OF assms(2), of "wld s0"] there one True by (cases "p = []"; cases "p = path") auto
      then have s2: "step_ok t d p s Next s2"
        unfolding s2_def using step_ok_trans [OF step_ok_trans [OF o]] one True drop_path_ok [of t d s1 p path Next] step_ok_sound by blast
      moreover have "mark_files sys st newest dir fs s2 = (r, s')"
        using eq there m True by (simp add: s2_def)
      ultimately show ?thesis using Cons.IH [of s2] step_ok_trans step_ok_sound by blast
    next
      case False
      then have "r = r1" "s' = s1"
        using eq there m by (cases r1; simp)+
      then show ?thesis using step_ok_trans [OF o] one by blast
    qed
  qed
qed

lemma mark_snapshots_ok:
  assumes "others_keep sys (fst (chunk_path d))" "p = [] \<or> stays st p d"
  shows "mark_snapshots sys st newest snaps s = (r, s') \<Longrightarrow> cache_sound t d s \<Longrightarrow> step_ok t d p s r s'"
proof (induction snaps arbitrary: newest s)
  case Nil
  then show ?case by (simp add: step_ok_refl)
next
  case (Cons x snaps)
  obtain r1 s1 where m: "mark_files sys st newest (full_path st x) (files x) s = (r1, s1)" by fastforce
  have one: "step_ok t d p s r1 s1" by (rule mark_files_ok [OF assms m Cons.prems(2)])
  show ?case
  proof (cases "r1 = Next")
    case True
    then have "mark_snapshots sys st False snaps s1 = (r, s')" using Cons.prems(1) m by simp
    then show ?thesis using Cons.IH one True step_ok_sound step_ok_trans by blast
  next
    case False
    then have "r = r1" "s' = s1" using Cons.prems(1) m by (cases r1; simp)+
    then show ?thesis using one by simp
  qed
qed

lemma mark_group_ok:
  assumes "others_keep sys (fst (chunk_path d))" "p = [] \<or> stays st p d"
  shows "mark_group sys st k grp s = (r, s') \<Longrightarrow> cache_sound t d s \<Longrightarrow> step_ok t d p s r s' \<and> r \<noteq> Retry"
proof (induction "12 - k" arbitrary: k s rule: less_induct)
  case less
  define s0 where "s0 = s\<lparr>wld := others sys (wld s)\<rparr>"
  have o: "step_ok t d p s Next s0" unfolding s0_def by (rule step_ok_others [OF less.prems(2) assms(1)])
  note eq = less.prems(1) [unfolded mark_group.simps [of sys st k], unfolded Let_def, folded s0_def]
  show ?case
  proof (cases "k > 10 \<or> (k = 10 \<and> lock_group st (wld s0) grp \<noteq> None) \<or> (\<exists>e. list_backups st (wld s0) grp = Err e)")
    case True
    then have "s' = s0 \<and> (r = Next \<or> (\<exists>e. r = Fail e))" using eq by (auto split: if_splits option.splits)
    then show ?thesis using o by (auto simp: step_ok_def)
  next
    case False
    then obtain snaps where snaps: "list_backups st (wld s0) grp = Ok snaps" by (metis sum.exhaust)
    obtain r1 s1 where m: "mark_snapshots sys st True (rev (sort_list True snaps)) s0 = (r1, s1)" by fastforce
    have one: "step_ok t d p s r1 s1"
      using step_ok_trans [OF o] mark_snapshots_ok [OF assms m] step_ok_sound [OF o] by blast
    show ?thesis
    proof (cases "r1 = Retry")
      case True
      then have "mark_group sys st (k + 1) grp s1 = (r, s')" using eq False snaps m by (auto split: if_splits)
      moreover have "12 - (k + 1) < 12 - k" using False by linarith
      ultimately have "step_ok t d p s1 r s' \<and> r \<noteq> Retry" using less.hyps [of "k + 1" s1] step_ok_sound [OF one] True by blast
      then show ?thesis using step_ok_retry_trans [of t d p s s1 r s'] one True by blast
    next
      case no_retry: False
      then have "r = r1" "s' = s1" using eq False snaps m by (cases r1; auto split: if_splits)+
      then show ?thesis using one no_retry by simp
    qed
  qed
qed

lemma mark_groups_ok:
  assumes "others_keep sys (fst (chunk_path d))" "p = [] \<or> stays st p d"
  shows "mark_groups sys st gs s = (r, s') \<Longrightarrow> cache_sound t d s \<Longrightarrow> step_ok t d p s r s' \<and> r \<noteq> Retry"
proof (induction gs arbitrary: s)
  case Nil
  then show ?case by (simp add: step_ok_refl)
next
  case (Cons g gs)
  show ?case
  proof (cases g)
    case (Inl e)
    then show ?thesis using Cons.prems by (auto simp: step_ok_def)
  next
    case (Inr grp)
    obtain r1 s1 where m: "mark_group sys st 0 grp s = (r1, s1)" by fastforce
    have one: "step_ok t d p s r1 s1 \<and> r1 \<noteq> Retry" by (rule mark_group_ok [OF assms m Cons.prems(2)])
    show ?thesis
    proof (cases "r1 = Next")
      case True
      then have "mark_groups sys st gs s1 = (r, s')" using Cons.prems(1) m Inr by simp
      then show ?thesis using Cons.IH one True step_ok_sound step_ok_trans by blast
    next
      case False
      then have "r = r1" "s' = s1" using Cons.prems(1) m Inr by (cases r1; simp)+
      then show ?thesis using one by simp
    qed
  qed
qed

lemma mark_paths_ok:
  assumes "others_keep sys (fst (chunk_path d))" "p = [] \<or> stays st p d"
  shows "mark_paths sys st paths s = (r, s') \<Longrightarrow> cache_sound t d s \<Longrightarrow>
    step_ok t d p s r s' \<and> r \<noteq> Retry \<and> (r = Next \<longrightarrow> p \<noteq> [] \<longrightarrow> p \<in> set paths \<longrightarrow> recent t (fst (chunk_path d)) (wld s'))"
proof (induction paths arbitrary: s)
  case Nil
  then show ?case by (simp add: step_ok_refl)
next
  case (Cons path paths)
  define s0 where "s0 = s\<lparr>wld := others sys (wld s)\<rparr>"
  have o: "step_ok t d p s Next s0" unfolding s0_def by (rule step_ok_others [OF Cons.prems(2) assms(1)])
  note eq = Cons.prems(1) [unfolded mark_paths.simps Let_def, folded s0_def]
  have go: ?case if "step_ok t d p s Next s1" "mark_paths sys st paths s1 = (r, s')" "p \<noteq> [] \<longrightarrow> p = path \<longrightarrow> recent t (fst (chunk_path d)) (wld s1)" for s1
  proof -
    have ih: "step_ok t d p s1 r s' \<and> r \<noteq> Retry \<and> (r = Next \<longrightarrow> p \<noteq> [] \<longrightarrow> p \<in> set paths \<longrightarrow> recent t (fst (chunk_path d)) (wld s'))"
      by (rule Cons.IH [OF that(2)]) (use that(1) step_ok_sound in blast)
    then have "p \<noteq> [] \<longrightarrow> p = path \<longrightarrow> recent t (fst (chunk_path d)) (wld s')" using that(3) recent_keeps unfolding step_ok_def by blast
    then show ?thesis using ih step_ok_trans [OF that(1)] by auto
  qed
  consider (err) e where "open_index_reader st path (wld s0) = Err e" | (gone) "open_index_reader st path (wld s0) = Ok None"
    | (there) index where "open_index_reader st path (wld s0) = Ok (Some index)" by (metis option.exhaust sum.exhaust)
  then show ?case
  proof cases
    case err
    then show ?thesis using eq o by (auto simp: step_ok_def)
  next
    case gone
    then have "p \<noteq> [] \<longrightarrow> p \<noteq> path" using stays_open [OF assms(2), of "wld s0"] by auto
    then show ?thesis using go [OF o] eq gone by simp
  next
    case there
    obtain r1 s1 where m: "index_mark_used_chunks sys index s0 = (r1, s1)" by fastforce
    note one = index_mark_ok [OF assms(1) m step_ok_sound [OF o], of p, simplified]
    show ?thesis
    proof (cases "r1 = Next")
      case True
      have "p \<noteq> [] \<longrightarrow> p = path \<longrightarrow> recent t (fst (chunk_path d)) (wld s1)" using stays_open [OF assms(2), of "wld s0"] there one True by auto
      moreover have "mark_paths sys st paths s1 = (r, s')" using eq there m True by simp
      ultimately show ?thesis using go [of s1] step_ok_trans [OF o] one True by blast
    next
      case False
      then have "r = r1" "s' = s1" using eq there m by (cases r1; simp)+
      then show ?thesis using step_ok_trans [OF o] one False by blast
    qed
  qed
qed

lemma collect_index_files_mono: "collect_index_files st items acc = Ok paths \<Longrightarrow> set acc \<subseteq> set paths"
  by (induction st items acc rule: collect_index_files.induct) (auto simp: and_then_eq_Inr split: if_splits)

lemma collect_index_files_has:
  "collect_index_files st items acc = Ok paths \<Longrightarrow> Found p \<in> set items \<Longrightarrow> is_index st p \<Longrightarrow> p \<in> set paths"
proof (induction st items acc rule: collect_index_files.induct)
  case (3 st path items acc)
  then show ?case using collect_index_files_mono [of st items "List.insert path acc" paths] by (auto split: if_splits)
qed (auto simp: and_then_eq_Inr)

lemma mark_used_chunks_ok:
  assumes "others_keep sys (fst (chunk_path d))" "p = [] \<or> stays st p d \<and> Found p \<in> set (walk_files st w (\<lambda>name. \<not> is_hidden name))"
    "mark_used_chunks sys st cap grps status w = (r, s')" "t \<le> cs_now w"
  shows "r \<noteq> Undef \<and> r \<noteq> Retry \<and> keeps (fst (chunk_path d)) w (wld s') \<and> (r = Next \<longrightarrow> p \<noteq> [] \<longrightarrow> recent t (fst (chunk_path d)) (wld s'))"
proof (cases "list_index_files st w")
  case (Inl e)
  then show ?thesis using assms(3) by (auto simp: mark_used_chunks_def Let_def)
next
  case (Inr paths)
  define s0 where "s0 = \<lparr>unprocessed = paths, chunk_lru_cache = (if cap > 0 then Some (LruCache_new cap) else None), gc_status = status, wld = w\<rparr>"
  have st: "p = [] \<or> stays st p d" using assms(2) by blast
  have sound: "cache_sound t d s0" using assms(4) by (auto simp: cache_sound_def s0_def)
  have pend: "pending t d p s0"
    using assms(2) Inr collect_index_files_has [of st _ "[]" paths p] by (auto simp: pending_def s0_def list_index_files_def stays_def)
  have eq: "and_flow (mark_groups sys st grps s0) (\<lambda>s1. and_flow (mark_paths sys st (unprocessed s1) s1) (\<lambda>s2.
      case move_journal st (others sys (wld s2)) of Inl e \<Rightarrow> (Fail e, s2\<lparr>wld := others sys (wld s2)\<rparr>)
      | Inr moved \<Rightarrow> mark_paths sys st moved (s2\<lparr>wld := others sys (wld s2)\<rparr>))) = (r, s')"
    using assms(3) Inr by (simp add: mark_used_chunks_def Let_def s0_def)
  obtain r1 s1 where m1: "mark_groups sys st grps s0 = (r1, s1)" by fastforce
  have one: "step_ok t d p s0 r1 s1 \<and> r1 \<noteq> Retry" by (rule mark_groups_ok [OF assms(1) st m1 sound])
  show ?thesis
  proof (cases "r1 = Next")
    case False
    then have "r = r1" "s' = s1" using eq m1 by (cases r1; simp add: and_flow_def)+
    then show ?thesis using one False by (auto simp: step_ok_def s0_def)
  next
    case n1: True
    obtain r2 s2 where m2: "mark_paths sys st (unprocessed s1) s1 = (r2, s2)" by fastforce
    have sound1: "cache_sound t d s1" using one n1 step_ok_sound by blast
    note two = mark_paths_ok [OF assms(1) st m2 sound1]
    have k2: "keeps (fst (chunk_path d)) w (wld s2)" using one two keeps_trans n1 by (fastforce simp: step_ok_def s0_def)
    show ?thesis
    proof (cases "r2 = Next")
      case False
      then have "r = r2" "s' = s2" using eq m1 n1 m2 by (cases r2; simp add: and_flow_def)+
      then show ?thesis using two k2 False by (auto simp: step_ok_def)
    next
      case n2: True
      have rec: "p \<noteq> [] \<longrightarrow> recent t (fst (chunk_path d)) (wld s2)"
        using one two n1 n2 pend recent_keeps [of t "fst (chunk_path d)" "wld s1" "wld s2"] by (auto simp: step_ok_def pending_def)
      define s3 where "s3 = s2\<lparr>wld := others sys (wld s2)\<rparr>"
      have sound2: "cache_sound t d s2" using two n2 step_ok_sound by blast
      have o: "step_ok t d p s2 Next s3" unfolding s3_def by (rule step_ok_others [OF sound2 assms(1)])
      have fin: "(case move_journal st (others sys (wld s2)) of Inl e \<Rightarrow> (Fail e, s3) | Inr moved \<Rightarrow> mark_paths sys st moved s3) = (r, s')"
        unfolding s3_def using eq m1 n1 m2 n2 by (simp add: and_flow_def)
      have three: "step_ok t d p s2 r s' \<and> r \<noteq> Retry"
      proof (cases "move_journal st (others sys (wld s2))")
        case (Inl e)
        then show ?thesis using fin o by (auto simp: step_ok_def)
      next
        case (Inr moved)
        then have "mark_paths sys st moved s3 = (r, s')" using fin by simp
        from mark_paths_ok [OF assms(1) st this] o step_ok_sound [OF o] step_ok_trans [OF o] show ?thesis by blast
      qed
      then have k3: "keeps (fst (chunk_path d)) (wld s2) (wld s')" by (simp add: step_ok_def)
      then have "keeps (fst (chunk_path d)) w (wld s')" "p \<noteq> [] \<longrightarrow> recent t (fst (chunk_path d)) (wld s')"
        using k2 keeps_trans rec recent_keeps by blast+
      then show ?thesis using three by (simp add: step_ok_def)
    qed
  qed
qed

section \<open>Safety\<close>

lemma insert_chunk_keeps:
  assumes "others_keep sys path" "insert_chunk sys sync chunk d w = Some (r, w')"
  shows "keeps path w w'"
  using assms insert_chunk_nolock_keeps keeps_trans unfolding insert_chunk_def others_keep_def by blast

lemma atime_check_keeps:
  assumes "others_keep sys path" "\<And>w r w'. changed w = Some (r, w') \<Longrightarrow> keeps path w w'"
  shows "atime_check sys sync zero changed w = Some (r, w') \<Longrightarrow> keeps path w w'"
proof -
  have o: "keeps path w (others sys w)" for w using assms(1) by (simp add: others_keep_def)
  assume eq: "atime_check sys sync zero changed w = Some (r, w')"
  let ?p = "fst (chunk_path (snd zero))"
  obtain r1 w1 where i: "insert_chunk sys sync (fst zero) (snd zero) w = Some (r1, w1)"
    using eq by (auto simp: atime_check_def Let_def split: option.splits)
  have k1: "keeps path w w1" by (rule insert_chunk_keeps [OF assms(1) i])
  have k2: "keeps path w (others sys w1)" using k1 o keeps_trans by blast
  obtain r3 w3 where t: "cond_touch_path sys ?p True (others sys (others sys w1)) = (r3, w3)" by fastforce
  have k3: "keeps path w w3" using k2 o cond_touch_path_keeps [OF t] keeps_trans by blast
  then have k4: "keeps path w (others sys w3)" using o keeps_trans by blast
  show ?thesis
    using eq i t k1 k2 k3 k4 keeps_trans [OF k4 assms(2)]
    by (auto simp: atime_check_def Let_def split: option.splits sum.splits if_splits)
qed

lemma check_fs_atime_updates_keeps:
  assumes "others_keep sys path" "check_fs_atime_updates sys sync zero retry w = Some (r, w')"
  shows "keeps path w w'"
proof -
  define twice where "twice = (\<lambda>w :: 'a world. Some (Err ''chunk changed twice during access time safety check'' :: (err, unit) result, w))"
  have 2: "keeps path w w'" if "twice w = Some (r, w')" for w r w' using that by (simp add: twice_def)
  have 1: "keeps path w w'" if "atime_check sys sync zero twice w = Some (r, w')" for w r w'
    by (rule atime_check_keeps [OF assms(1) 2 that])
  show ?thesis
    using assms(2) atime_check_keeps [OF assms(1) 1] atime_check_keeps [OF assms(1) 2]
    unfolding check_fs_atime_updates_def Let_def twice_def [symmetric] by (cases retry) auto
qed

lemma gc_min_atime_le: "gc_min_atime cutoff start writer \<le> start" "gc_min_atime cutoff start writer \<le> writer"
  by (auto simp: gc_min_atime_def Let_def split: option.splits)

text \<open>The whole run: whatever it returns, a chunk that is recent at its sweep stays.\<close>

lemma gc_keeps:
  assumes "others_keep sys (fst (chunk_path d))" "length d = 32"
    "p = [] \<or> stays st p d \<and> (\<forall>w. Found p \<in> set (walk_files st w (\<lambda>name. \<not> is_hidden name)))"
    "garbage_collection_impl sys st config oldest grps w = Some (r, w')"
    "p \<noteq> [] \<or> recent (case oldest of Some t \<Rightarrow> min t (cs_now w) | None \<Rightarrow> cs_now w) (fst (chunk_path d)) w"
  shows "keeps (fst (chunk_path d)) w w'"
proof (cases "config_error config")
  case (Some e)
  then show ?thesis using assms(4) by (simp add: garbage_collection_impl_def)
next
  case None
  let ?P = "fst (chunk_path d)"
  define ow where "ow = (case oldest of Some t \<Rightarrow> t | None \<Rightarrow> cs_now w)"
  define ma where "ma = gc_min_atime (atime_cutoff config) (cs_now w) ow"
  define cap where "cap = (case gc_cache_capacity config of Some c \<Rightarrow> c | None \<Rightarrow> 1024 * 1024)"
  note eq = assms(4) [unfolded garbage_collection_impl_def None option.case Let_def, folded ow_def, folded ma_def cap_def]
  obtain r1 w1 where c: "(if atime_safety_check config then check_fs_atime_updates sys (sync_file config) (zero_chunk config) True w
      else Some (Ok (), w)) = Some (r1, w1)"
    using eq by (auto split: option.splits)
  have k1: "keeps ?P w w1"
    using c check_fs_atime_updates_keeps [OF assms(1)] by (cases "atime_safety_check config") auto
  show ?thesis
  proof (cases r1)
    case (Inl e)
    then show ?thesis using eq c k1 by simp
  next
    case (Inr u)
    obtain r2 s where m: "mark_used_chunks sys st cap grps gc_status_default w1 = (r2, s)" by fastforce
    have two: "r2 \<noteq> Undef \<and> r2 \<noteq> Retry \<and> keeps ?P w1 (wld s) \<and> (r2 = Next \<longrightarrow> p \<noteq> [] \<longrightarrow> recent (cs_now w) ?P (wld s))"
      using mark_used_chunks_ok [OF assms(1) _ m keeps_now [OF k1]] assms(3) by blast
    then have k2: "keeps ?P w (wld s)" using k1 keeps_trans by blast
    show ?thesis
    proof (cases "r2 = Next \<and> \<not> cs_now (wld s) < cs_now w")
      case False
      then show ?thesis using eq c Inr m k2 two by (cases r2) auto
    next
      case True
      obtain q status w2 where sw: "sweep_unused_chunks sys ow ma (gc_status s) (wld s) = (q, status, w2)" by (metis prod_cases3)
      have "recent ma ?P (wld s)"
      proof (cases "p = []")
        case True
        then have "recent (case oldest of Some t \<Rightarrow> min t (cs_now w) | None \<Rightarrow> cs_now w) ?P (wld s)" using assms(5) recent_keeps [OF _ k2] by blast
        then show ?thesis using gc_min_atime_le [of "atime_cutoff config" "cs_now w" ow] unfolding recent_def ma_def ow_def
          by (cases oldest) (fastforce simp: min_def split: if_splits)+
      next
        case False
        then have "recent (cs_now w) ?P (wld s)" using two \<open>r2 = Next \<and> _\<close> by blast
        then show ?thesis using gc_min_atime_le(1) [of "atime_cutoff config" "cs_now w" ow] unfolding recent_def ma_def by fastforce
      qed
      then have "keeps ?P (wld s) w2" by (rule sweep_keeps [OF assms(1,2) _ sw])
      then have "keeps ?P w w2" using k2 keeps_trans by blast
      moreover have "w' = w2" using eq c Inr m True sw by (cases q) auto
      ultimately show ?thesis by simp
    qed
  qed
qed

text \<open>The collection returns: no panic, no endless retry.\<close>

lemma insert_chunk_some: "blob_magic chunk \<noteq> None \<Longrightarrow> \<exists>r w'. insert_chunk sys sync chunk d w = Some (r, w')"
  unfolding insert_chunk_def insert_chunk_nolock_def is_encrypted_def is_compressed_def Let_def
  by (auto split: option.splits sum.splits bool.splits)

lemma atime_check_some:
  assumes "blob_magic (fst zero) \<noteq> None" "\<And>w. \<exists>r w'. changed w = Some (r, w')"
  shows "\<exists>r w'. atime_check sys sync zero changed w = Some (r, w')"
proof -
  obtain r1 w1 where "insert_chunk sys sync (fst zero) (snd zero) w = Some (r1, w1)" using insert_chunk_some [OF assms(1)] by blast
  then show ?thesis using assms(2) by (auto simp: atime_check_def Let_def split: option.split sum.split prod.split)
qed

lemma gc_returns:
  assumes "others_keep sys (fst (chunk_path d))" "blob_magic (fst (zero_chunk config)) \<noteq> None"
  shows "\<exists>r w'. garbage_collection_impl sys st config oldest grps w = Some (r, w')"
proof -
  have "\<exists>r w'. check_fs_atime_updates sys (sync_file config) (zero_chunk config) True w = Some (r, w')"
    unfolding check_fs_atime_updates_def Let_def if_True by (rule atime_check_some [OF assms(2)]) (rule atime_check_some [OF assms(2)], simp)
  moreover have "fst (mark_used_chunks sys st cap grps gc_status_default w1) \<noteq> Undef \<and> fst (mark_used_chunks sys st cap grps gc_status_default w1) \<noteq> Retry" for cap w1
    using mark_used_chunks_ok [OF assms(1), of "[]" st w1 cap grps gc_status_default _ _ "cs_now w1"]
    by (cases "mark_used_chunks sys st cap grps gc_status_default w1") simp
  ultimately show ?thesis
    unfolding garbage_collection_impl_def Let_def
    by (cases "config_error config"; cases "atime_safety_check config")
       (auto split: sum.split flow.split prod.split, (metis fst_conv)+)
qed

text \<open>
  C2. Garbage collection never removes a chunk that is in use: if an index file lists the chunk, is found by the
  walk at the start and stays in place, and the chunk is there, it is still there at the end, whatever the
  collection returns, errors and aborts included; and the collection does return. Other threads and
  processes may insert, touch and remove anything in between, except that none removes this chunk or
  turns back the clock or its access time. The cache that saves repeated touches does no harm.
\<close>

theorem gc_keeps_referenced:
  assumes "others_keep sys (fst (chunk_path d))" "length d = 32" "blob_magic (fst (zero_chunk config)) \<noteq> None"
    "stays st p d" "\<And>w. Found p \<in> set (walk_files st w (\<lambda>name. \<not> is_hidden name))" "cs_files w (fst (chunk_path d)) \<noteq> None"
  shows "\<exists>r w'. garbage_collection_impl sys st config oldest grps w = Some (r, w') \<and> cs_files w' (fst (chunk_path d)) \<noteq> None"
proof -
  obtain r w' where gc: "garbage_collection_impl sys st config oldest grps w = Some (r, w')" using gc_returns [OF assms(1,3)] by blast
  have "p \<noteq> []" using assms(4) by (simp add: stays_def)
  then have "keeps (fst (chunk_path d)) w w'" using gc_keeps [OF assms(1,2) _ gc, of p] assms(4,5) by blast
  then show ?thesis using gc assms(6) keeps_exists by blast
qed

text \<open>
  C18. Garbage collection never removes a chunk of a backup that is still running: a chunk whose access time is
  not before the start of the oldest writer (or, without writer, of the collection) is kept, even if
  no index file lists it yet.
\<close>

theorem gc_keeps_running_backups:
  assumes "others_keep sys (fst (chunk_path d))" "length d = 32" "blob_magic (fst (zero_chunk config)) \<noteq> None"
    "cs_files w (fst (chunk_path d)) = Some f" "case oldest of Some t \<Rightarrow> t \<le> fatime f | None \<Rightarrow> cs_now w \<le> fatime f"
  shows "\<exists>r w'. garbage_collection_impl sys st config oldest grps w = Some (r, w') \<and> cs_files w' (fst (chunk_path d)) \<noteq> None"
proof -
  obtain r w' where gc: "garbage_collection_impl sys st config oldest grps w = Some (r, w')" using gc_returns [OF assms(1,3)] by blast
  have "recent (case oldest of Some t \<Rightarrow> min t (cs_now w) | None \<Rightarrow> cs_now w) (fst (chunk_path d)) w"
    using assms(4,5) by (auto simp: recent_def split: option.splits)
  then have "keeps (fst (chunk_path d)) w w'" using gc_keeps [OF assms(1,2) _ gc, of "[]"] by blast
  then show ?thesis using gc assms(4) keeps_exists by blast
qed

section \<open>Samples\<close>

definition sample_store :: "(unit, unit) store" where
  "sample_store = \<lparr>base_path = ''/store'',
     archive_type = (\<lambda>path. if ends_with path ''.didx'' then Some DynamicIndexType else None),
     walk_files = (\<lambda>_ _. [Found ''/store/vm/a.didx'']),
     open_file = (\<lambda>_ path. if path = ''/store/vm/a.didx'' then Some (Ok \<lparr>idx_bytes = 3, idx_digests = [old_chunk]\<rparr>) else None),
     list_backups = (\<lambda>_ _. Ok []), group_exists = (\<lambda>_ _. True), lock_group = (\<lambda>_ _. None), move_journal = (\<lambda>_. Ok [])\<rparr>"

definition sample_config :: gc_config where
  "sample_config = \<lparr>config_error = None, atime_safety_check = True, atime_cutoff = None, gc_cache_capacity = Some 4, sync_file = False,
     zero_chunk = (\<lparr>raw_data = UNCOMPRESSED_BLOB_MAGIC_1_0 @ [0, 0, 0, 0]\<rparr>, replicate 32 7)\<rparr>"

lemma sample_keeps: "others_keep sample_sys path"
  by (simp add: others_keep_def sample_sys_def)

lemma sample_zero: "blob_magic (fst (zero_chunk sample_config)) \<noteq> None"
  by code_simp

lemma sample_world_chunks:
  "cs_files sample_world (fst (chunk_path old_chunk)) = Some (sample_file 50)"
  "cs_files sample_world (fst (chunk_path new_chunk)) = Some (sample_file 90000)"
  using sample_paths(3) by (simp_all add: sample_world_def sample_paths)

lemma sample_stays: "stays sample_store ''/store/vm/a.didx'' old_chunk"
  by (simp add: stays_def is_index_def sample_store_def ends_with_def)

theorem gc_keeps_referenced_witness:
  "\<exists>r w'. garbage_collection_impl sample_sys sample_store sample_config None [Ok ()] sample_world = Some (r, w') \<and>
     cs_files w' (fst (chunk_path old_chunk)) \<noteq> None"
  by (rule gc_keeps_referenced [OF sample_keeps sample_paths(4) sample_zero sample_stays])
     (simp_all add: sample_world_chunks sample_store_def)

theorem gc_keeps_running_backups_witness:
  "\<exists>r w'. garbage_collection_impl sample_sys sample_store sample_config (Some 80000) [Ok ()] sample_world = Some (r, w') \<and>
     cs_files w' (fst (chunk_path new_chunk)) \<noteq> None"
  by (rule gc_keeps_running_backups [OF sample_keeps sample_paths(5) sample_zero sample_world_chunks(2)]) (simp add: sample_file_def)

end
