(* ===== verification/MoveJournal.thy ===== *)
theory MoveJournal
  imports StrTools
begin

text \<open>
  The move journal (\<^verbatim>\<open>pbs-datastore/src/move_journal.rs\<close>): a snapshot that is moved to another namespace while the
  garbage collection marks chunks must not be missed. The file is modelled with its text, and the protocol
  between \<^verbatim>\<open>move_to\<close> (\<^verbatim>\<open>backup_info.rs\<close>) and \<^verbatim>\<open>mark_used_chunks\<close> (\<^verbatim>\<open>datastore.rs\<close>) as a step relation in which all
  interleavings are possible.
\<close>

section \<open>The file\<close>

text \<open>\<open>lock_err\<close>, \<open>io_err\<close> and \<open>trunc_err\<close> are failures of opening with the lock, of writing and of truncating; a write that
  fails has written the first bytes.\<close>

fun journal_lines :: "string list \<Rightarrow> string \<Rightarrow> (err, string) result" where
  "journal_lines [] buf = Ok buf"
| "journal_lines (path # paths) buf =
     (if path = [] \<or> hd path \<noteq> CHR ''/'' then Err ''move-journal: refusing to record non-absolute path''
      else if CHR 10 \<in> set path then Err ''move-journal: path contains newline''
      else journal_lines paths (buf @ path @ [CHR 10]))"

definition append_moved_indices :: "err option \<Rightarrow> (err \<times> nat) option \<Rightarrow> string list \<Rightarrow> string \<Rightarrow> (err, unit) result \<times> string" where
  "append_moved_indices lock_err io_err paths file =
     (if paths = [] then (Ok (), file)
      else (case journal_lines paths [] of
          Inl e \<Rightarrow> (Err e, file)
        | Inr buf \<Rightarrow>
            (case lock_err of
               Some e \<Rightarrow> (Err (''failed to acquire exclusive move-journal lock'' @ e), file)
             | None \<Rightarrow>
                 (case io_err of
                    Some (e, n) \<Rightarrow> (Err (''failed to append to move journal'' @ e), file @ take n buf)
                  | None \<Rightarrow> (Ok (), file @ buf)))))"

fun drain_lines :: "(string \<Rightarrow> 's \<Rightarrow> (err, unit) result \<times> 's) \<Rightarrow> string list \<Rightarrow> 's \<Rightarrow> (err, unit) result \<times> 's" where
  "drain_lines f [] s = (Ok (), s)"
| "drain_lines f (line # ls) s =
     (let entry = str_trim line in
      if entry = [] then drain_lines f ls s
      else (case f entry s of
          (Inl e, s') \<Rightarrow> (Err e, s')
        | (Inr _, s') \<Rightarrow> drain_lines f ls s'))"

definition drain_move_journal ::
  "err option \<Rightarrow> err option \<Rightarrow> (string \<Rightarrow> 's \<Rightarrow> (err, unit) result \<times> 's) \<Rightarrow> string \<Rightarrow> 's \<Rightarrow> (err, unit) result \<times> string \<times> 's" where
  "drain_move_journal lock_err trunc_err f file s =
     (case lock_err of
        Some e \<Rightarrow> (Err (''failed to acquire exclusive move-journal lock'' @ e), file, s)
      | None \<Rightarrow>
          (case drain_lines f (str_lines file) s of
             (Inl e, s') \<Rightarrow> (Err e, file, s')
           | (Inr _, s') \<Rightarrow>
               (case trunc_err of
                  Some e \<Rightarrow> (Err (''failed to truncate move journal after drain'' @ e), file, s')
                | None \<Rightarrow> (Ok (), [], s'))))"

text \<open>The paths that \<^verbatim>\<open>move_to\<close> records: the future ones of the index files of the snapshot.\<close>

definition moved_paths :: "(string \<Rightarrow> bool) \<Rightarrow> string \<Rightarrow> string list \<Rightarrow> string list" where
  "moved_paths is_index_name dst names = map (\<lambda>name. dst @ ''/'' @ name) (filter is_index_name names)"

text \<open>Reading back what was appended.\<close>

definition path_ok :: "string \<Rightarrow> bool" where
  "path_ok path \<longleftrightarrow> path \<noteq> [] \<and> hd path = CHR ''/'' \<and> CHR 10 \<notin> set path \<and> \<not> is_ws (last path)"

definition journal_text :: "string list \<Rightarrow> string" where
  "journal_text paths = concat (map (\<lambda>p. p @ [CHR 10]) paths)"

lemma journal_lines_text: "\<forall>p \<in> set paths. path_ok p \<Longrightarrow> journal_lines paths buf = Ok (buf @ journal_text paths)"
  by (induction paths arbitrary: buf) (auto simp: path_ok_def journal_text_def)

fun each :: "(string \<Rightarrow> 's \<Rightarrow> (err, unit) result \<times> 's) \<Rightarrow> string list \<Rightarrow> 's \<Rightarrow> (err, unit) result \<times> 's" where
  "each f [] s = (Ok (), s)"
| "each f (p # ps) s = (case f p s of (Inl e, s') \<Rightarrow> (Err e, s') | (Inr _, s') \<Rightarrow> each f ps s')"

lemma drain_lines_each:
  assumes "\<forall>p \<in> set paths. path_ok p"
  shows "drain_lines f (str_lines (journal_text paths)) s = each f paths s"
proof -
  have "str_lines (journal_text paths) = paths"
    unfolding journal_text_def using assms by (intro str_lines_concat) (auto simp: path_ok_def is_ws_def)
  moreover have "drain_lines f paths s = each f paths s" if "\<forall>p \<in> set paths. path_ok p" for paths s
    using that
  proof (induction paths arbitrary: s)
    case (Cons p ps)
    have "str_trim p = p" using Cons.prems by (intro str_trim_id) (auto simp: path_ok_def is_ws_def)
    then show ?case using Cons by (auto simp: path_ok_def split: prod.split sum.split)
  qed simp
  ultimately show ?thesis using assms by simp
qed

section \<open>The protocol\<close>

text \<open>
  One index file: where it is, the text of the journal, the path that a move has recorded but not yet renamed to, the
  paths that the walk of the collection has still to open, and whether the collection marked the chunks of the
  file. The walk opens at least the paths of its first listing, in any order: those it finds, and at the end those left
  over.
\<close>

datatype gc_phase = Visit "string list" | Done | Failed

record jstate =
  loc :: string
  jfile :: string
  pending_move :: "string option"
  gc :: gc_phase
  marked :: bool

text \<open>Opening a path marks the index file if it is there; a path without a file is skipped.\<close>

definition open_at :: "string \<Rightarrow> jstate \<Rightarrow> jstate" where
  "open_at path s = s\<lparr>marked := marked s \<or> loc s = path\<rparr>"

definition finish_rename :: "jstate \<Rightarrow> jstate" where
  "finish_rename s = (case pending_move s of None \<Rightarrow> s | Some new \<Rightarrow> s\<lparr>loc := new, pending_move := None\<rparr>)"

text \<open>
  The mover: \<^verbatim>\<open>move_to\<close> records the future paths of the index files of a snapshot and then renames its directory. The
  recorded paths contain that of our file, or are those of another snapshot. An append that fails has not
  written anything here; what happens otherwise is shown at the end.
\<close>

inductive mover_step :: "(string \<Rightarrow> bool) \<Rightarrow> jstate \<Rightarrow> jstate \<Rightarrow> bool" for is_index_name where
  record_move: "pending_move s = None \<Longrightarrow> append_moved_indices None None (moved_paths is_index_name dst names) (jfile s) = (Ok (), f) \<Longrightarrow>
    new \<in> set (moved_paths is_index_name dst names) \<Longrightarrow> mover_step is_index_name s (s\<lparr>jfile := f, pending_move := Some new\<rparr>)"
| other_move: "append_moved_indices None None (moved_paths is_index_name dst names) (jfile s) = (Ok (), f) \<Longrightarrow>
    mover_step is_index_name s (s\<lparr>jfile := f\<rparr>)"
| record_failed: "append_moved_indices lock_err io_err (moved_paths is_index_name dst names) (jfile s) = (Err e, f) \<Longrightarrow> f = jfile s \<Longrightarrow>
    mover_step is_index_name s (s\<lparr>jfile := f\<rparr>)"
| rename: "pending_move s = Some new \<Longrightarrow> mover_step is_index_name s (finish_rename s)"
| move_failed: "pending_move s = Some new \<Longrightarrow> mover_step is_index_name s (s\<lparr>pending_move := None\<rparr>)"

text \<open>
  The callback of the drain, which holds the lock of the journal, so that no move can record; a rename that was
  recorded before can happen, or fail, before each path is opened. \<open>events\<close> says which.
\<close>

datatype drain_event = Quiet | Renames | GivesUp | OpenFails err

definition drain_entry :: "(nat \<Rightarrow> drain_event) \<Rightarrow> string \<Rightarrow> nat \<times> jstate \<Rightarrow> (err, unit) result \<times> nat \<times> jstate" where
  "drain_entry events path = (\<lambda>(n, s).
     (case events n of
        Quiet \<Rightarrow> (Ok (), Suc n, open_at path s)
      | Renames \<Rightarrow> (Ok (), Suc n, open_at path (finish_rename s))
      | GivesUp \<Rightarrow> (Ok (), Suc n, open_at path (s\<lparr>pending_move := None\<rparr>))
      | OpenFails e \<Rightarrow> (Err e, Suc n, s)))"

text \<open>The collection: the walk, then the drain.\<close>

inductive gc_step :: "jstate \<Rightarrow> jstate \<Rightarrow> bool" where
  visit: "gc s = Visit (path # paths) \<Longrightarrow> gc_step s (open_at path (s\<lparr>gc := Visit paths\<rparr>))"
| visit_failed: "gc s = Visit (path # paths) \<Longrightarrow> gc_step s (s\<lparr>gc := Failed\<rparr>)"
| drain: "gc s = Visit [] \<Longrightarrow> drain_move_journal lock_err trunc_err (drain_entry events) (jfile s) (0, s) = (r, f, n, s') \<Longrightarrow>
    gc_step s (s'\<lparr>jfile := f, gc := (case r of Inl _ \<Rightarrow> Failed | Inr _ \<Rightarrow> Done)\<rparr>)"

definition jstep :: "(string \<Rightarrow> bool) \<Rightarrow> jstate \<Rightarrow> jstate \<Rightarrow> bool" where
  "jstep is_index_name s s' \<longleftrightarrow> mover_step is_index_name s s' \<or> gc_step s s'"

text \<open>
  The invariant: what is not marked will be seen, at its place in the walk or in the journal; and where a
  rename is pending, the journal has its target after the present place.
\<close>

definition after_in :: "string \<Rightarrow> string \<Rightarrow> string list \<Rightarrow> bool" where
  "after_in path p xs \<longleftrightarrow> p \<in> set (dropWhile (\<lambda>x. x \<noteq> path) xs)"

definition in_journal :: "string list \<Rightarrow> jstate \<Rightarrow> bool" where
  "in_journal es s \<longleftrightarrow> marked s \<or> loc s \<in> set es \<and> (\<forall>p. pending_move s = Some p \<longrightarrow> after_in (loc s) p es)"

fun seen_later :: "string list \<Rightarrow> jstate \<Rightarrow> gc_phase \<Rightarrow> bool" where
  "seen_later es s (Visit xs) = ((loc s \<in> set xs \<or> in_journal es s) \<and> (\<forall>p. pending_move s = Some p \<longrightarrow> p \<in> set es))"
| "seen_later es s Done = False"
| "seen_later es s Failed = True"

definition jinv :: "jstate \<Rightarrow> bool" where
  "jinv s \<longleftrightarrow> (\<exists>es. jfile s = journal_text es \<and> (\<forall>p \<in> set es. path_ok p) \<and> (marked s \<or> seen_later es s (gc s)))"

lemma after_in_mem: "after_in path p xs \<Longrightarrow> p \<in> set xs"
  unfolding after_in_def by (auto dest: set_dropWhileD)

lemma after_in_append: "path \<in> set xs \<Longrightarrow> after_in path p (xs @ ys) \<longleftrightarrow> after_in path p xs \<or> p \<in> set ys"
  unfolding after_in_def by (auto simp: dropWhile_append)

lemma after_in_Cons: "path \<noteq> x \<Longrightarrow> after_in path p (x # xs) \<longleftrightarrow> after_in path p xs"
  by (auto simp: after_in_def)

text \<open>The paths that an append accepts are read back.\<close>

definition index_names_ok :: "(string \<Rightarrow> bool) \<Rightarrow> bool" where
  "index_names_ok is_index_name \<longleftrightarrow> (\<forall>name. is_index_name name \<longrightarrow> name \<noteq> [] \<and> \<not> is_ws (last name))"

lemma journal_lines_Ok:
  "journal_lines paths buf = Ok f \<Longrightarrow> f = buf @ journal_text paths \<and> (\<forall>p \<in> set paths. p \<noteq> [] \<and> hd p = CHR ''/'' \<and> CHR 10 \<notin> set p)"
proof (induction paths arbitrary: buf)
  case (Cons p ps)
  have "journal_lines ps (buf @ p @ [CHR 10]) = Ok f" "p \<noteq> [] \<and> hd p = CHR ''/'' \<and> CHR 10 \<notin> set p"
    using Cons.prems by (simp_all split: if_splits)
  then show ?case using Cons.IH [of "buf @ p @ [CHR 10]"] by (simp add: journal_text_def)
qed (simp add: journal_text_def)

lemma append_Ok:
  assumes "append_moved_indices None None (moved_paths idx dst names) (journal_text es) = (Ok (), f)" "index_names_ok idx"
  shows "f = journal_text (es @ moved_paths idx dst names)" "\<forall>p \<in> set (moved_paths idx dst names). path_ok p"
proof -
  have last: "\<not> is_ws (last (dst @ ''/'' @ name))" if "idx name" for name
    using spec [OF assms(2) [unfolded index_names_ok_def], of name] that by simp
  then have last: "\<not> is_ws (last p)" if "p \<in> set (moved_paths idx dst names)" for p
    using that unfolding moved_paths_def by (auto simp only: set_map set_filter image_iff)
  obtain buf where "moved_paths idx dst names = [] \<and> f = journal_text es \<or> journal_lines (moved_paths idx dst names) [] = Ok buf \<and> f = journal_text es @ buf"
    using assms(1) by (auto simp: append_moved_indices_def split: if_splits sum.splits)
  then show "f = journal_text (es @ moved_paths idx dst names)" "\<forall>p \<in> set (moved_paths idx dst names). path_ok p"
    using journal_lines_Ok [of "moved_paths idx dst names" "[]" buf] last by (auto simp: journal_text_def path_ok_def)
qed

lemma mover_step_jinv:
  assumes "mover_step idx s s'" "jinv s" "index_names_ok idx"
  shows "jinv s'"
proof -
  obtain es where es: "jfile s = journal_text es" "\<forall>p \<in> set es. path_ok p" "marked s \<or> seen_later es s (gc s)" using assms(2) by (auto simp: jinv_def)
  have appended: "jinv (s\<lparr>jfile := f, pending_move := q\<rparr>)"
    if f: "append_moved_indices None None (moved_paths idx dst names) (jfile s) = (Ok (), f)"
      and q: "q = pending_move s \<or> pending_move s = None \<and> (\<exists>new \<in> set (moved_paths idx dst names). q = Some new)" for f dst names q
  proof -
    note a = append_Ok [OF f [unfolded es(1)] assms(3)]
    have "marked s \<or> seen_later (es @ moved_paths idx dst names) (s\<lparr>jfile := f, pending_move := q\<rparr>) (gc s)"
      using es(3) q by (cases "gc s") (auto simp: in_journal_def after_in_append)
    then show ?thesis using a es(2) unfolding jinv_def by (intro exI [of _ "es @ moved_paths idx dst names"]) auto
  qed
  from assms(1) show ?thesis
  proof cases
    case (record_move dst names f new)
    then show ?thesis using appended [of dst names f "Some new"] by auto
  next
    case (other_move dst names f)
    then show ?thesis using appended [of dst names f "pending_move s"] by auto
  next
    case (record_failed lock_err io_err dst names e f)
    then show ?thesis using assms(2) by simp
  next
    case (rename new)
    have "marked s \<or> seen_later es (finish_rename s) (gc s)"
      using es(3) rename(2) by (cases "gc s") (auto simp: in_journal_def finish_rename_def dest: after_in_mem)
    then show ?thesis using es(1,2) rename unfolding jinv_def by (intro exI [of _ es]) (auto simp: finish_rename_def)
  next
    case (move_failed new)
    have "marked s \<or> seen_later es (s\<lparr>pending_move := None\<rparr>) (gc s)" using es(3) by (cases "gc s") (auto simp: in_journal_def)
    then show ?thesis using es(1,2) move_failed(1) unfolding jinv_def by (intro exI [of _ es]) auto
  qed
qed

text \<open>A drain that succeeds opens every path of the journal, and the file at its place or at the one it is renamed to meanwhile.\<close>

lemma drain_entry_journal:
  assumes "drain_entry events path (n, s) = (r, n', s')" "in_journal (path # es) s"
  shows "r = Ok () \<Longrightarrow> in_journal es s'"
proof -
  have o: "in_journal es (open_at path x)" if "in_journal (path # es) x" for x
    using that by (auto simp: in_journal_def open_at_def after_in_Cons)
  have f: "in_journal (path # es) (finish_rename s)" "in_journal (path # es) (s\<lparr>pending_move := None\<rparr>)"
    using assms(2) after_in_mem [of "loc s" _ "path # es"] by (auto simp: in_journal_def finish_rename_def split: option.split)
  show "r = Ok () \<Longrightarrow> in_journal es s'"
    using assms(1) o [OF assms(2)] o [OF f(1)] o [OF f(2)] by (auto simp: drain_entry_def split: drain_event.splits)
qed

lemma each_drain_journal: "each (drain_entry events) es (n, s) = (Ok (), n', s') \<Longrightarrow> in_journal es s \<Longrightarrow> marked s'"
proof (induction es arbitrary: n s)
  case (Cons path es)
  obtain r n1 s1 where e: "drain_entry events path (n, s) = (r, n1, s1)" by (metis prod_cases3)
  then have "r = Ok ()" using Cons.prems(1) by (cases r) auto
  then show ?case using Cons.IH [of n1 s1] Cons.prems e drain_entry_journal [OF e Cons.prems(2)] by simp
qed (simp add: in_journal_def)

lemma drain_marks:
  assumes "drain_move_journal lock_err trunc_err (drain_entry events) (journal_text es) (0, s) = (r, f, n, s')" "\<forall>p \<in> set es. path_ok p" "in_journal es s"
  shows "(r = Ok () \<longrightarrow> marked s') \<and> (f = journal_text es \<or> f = journal_text [])"
  using assms(1,3) drain_lines_each [OF assms(2), of "drain_entry events" "(0, s)"] each_drain_journal [of events es 0 s n s']
  by (auto simp: drain_move_journal_def journal_text_def split: option.splits prod.splits sum.splits)

lemma gc_step_jinv:
  assumes "gc_step s s'" "jinv s"
  shows "jinv s'"
proof -
  obtain es where es: "jfile s = journal_text es" "\<forall>p \<in> set es. path_ok p" "marked s \<or> seen_later es s (gc s)" using assms(2) by (auto simp: jinv_def)
  from assms(1) show ?thesis
  proof cases
    case (visit path paths)
    have "marked s' \<or> seen_later es s' (Visit paths)" using es(3) visit by (auto simp: in_journal_def open_at_def)
    then show ?thesis using es(1,2) visit(1) unfolding jinv_def by (intro exI [of _ es]) (auto simp: open_at_def)
  next
    case (visit_failed path paths)
    then show ?thesis using es(1,2) unfolding jinv_def by auto
  next
    case (drain lock_err trunc_err events r f n t)
    have j: "in_journal es s" using es(3) drain(2) by (auto simp: in_journal_def)
    have "marked t \<or> r \<noteq> Ok ()" using drain_marks [OF drain(3) [unfolded es(1)] es(2) j] by auto
    moreover have "f = journal_text es \<or> f = journal_text []" using drain_marks [OF drain(3) [unfolded es(1)] es(2) j] by blast
    ultimately show ?thesis using es(2) unfolding jinv_def drain(1) by (cases r) auto
  qed
qed

text \<open>
  C32. No moved snapshot is missed by one collection: from the start of the collection, where the walk has the index file on
  its list and the target of a move in progress is recorded in the journal, in every interleaving of moves of this
  and of other snapshots with the walk and the drain, in which no append writes only a part, if the collection
  does not fail then the index file was opened and its chunks were marked.
\<close>

theorem moved_index_marked:
  assumes "(jstep is_index_name)\<^sup>*\<^sup>* s s'" "index_names_ok is_index_name" "gc s = Visit paths" "loc s \<in> set paths"
    "jfile s = journal_text es" "\<forall>p \<in> set es. path_ok p" "case pending_move s of None \<Rightarrow> True | Some p \<Rightarrow> p \<in> set es" "gc s' = Done"
  shows "marked s'"
proof -
  have "jinv s" using assms(3-7) unfolding jinv_def by (intro exI [of _ es]) auto
  with assms(1) have "jinv s'"
    by (induction rule: rtranclp_induct) (auto simp: jstep_def intro: mover_step_jinv [OF _ _ assms(2)] gc_step_jinv)
  then show ?thesis using assms(8) by (auto simp: jinv_def)
qed

text \<open>Runs by evaluation: the actions of the mover and of the collection, without faults.\<close>

datatype action = Record string | Rename | Collect

fun act :: "action \<Rightarrow> jstate \<Rightarrow> jstate option" where
  "act (Record dst) s =
     (case append_moved_indices None None (moved_paths (\<lambda>n. n = ''a.didx'') dst [''a.didx'']) (jfile s) of
        (Inr _, f) \<Rightarrow> (if pending_move s = None then Some (s\<lparr>jfile := f, pending_move := Some (dst @ ''/a.didx'')\<rparr>) else None)
      | _ \<Rightarrow> None)"
| "act Rename s = (if pending_move s = None then None else Some (finish_rename s))"
| "act Collect s =
     (case gc s of
        Visit (path # paths) \<Rightarrow> Some (open_at path (s\<lparr>gc := Visit paths\<rparr>))
      | Visit [] \<Rightarrow> (case drain_move_journal None None (drain_entry (\<lambda>_. Quiet)) (jfile s) (0, s) of
            (Inr _, f, n, s') \<Rightarrow> Some (s'\<lparr>jfile := f, gc := Done\<rparr>)
          | _ \<Rightarrow> None)
      | _ \<Rightarrow> None)"

lemma act_step: "act a s = Some s' \<Longrightarrow> jstep (\<lambda>n. n = ''a.didx'') s s'"
proof (cases "(a, s)" rule: act.cases)
  case (1 dst s0)
  assume "act a s = Some s'"
  then obtain f where "append_moved_indices None None (moved_paths (\<lambda>n. n = ''a.didx'') dst [''a.didx'']) (jfile s) = (Ok (), f)"
    "pending_move s = None" "s' = s\<lparr>jfile := f, pending_move := Some (dst @ ''/a.didx'')\<rparr>"
    using 1 by (auto split: prod.splits sum.splits if_splits)
  then show ?thesis using record_move [of s "\<lambda>n. n = ''a.didx''" dst "[''a.didx'']"] by (auto simp: jstep_def moved_paths_def)
next
  case (3 s0)
  assume "act a s = Some s'"
  then show ?thesis using 3 visit drain [of s None None "\<lambda>_. Quiet"]
    by (fastforce simp: jstep_def split: gc_phase.splits list.splits prod.splits sum.splits)
qed (auto simp: jstep_def intro: rename split: if_splits)

fun acts :: "action list \<Rightarrow> jstate \<Rightarrow> jstate option" where
  "acts [] s = Some s"
| "acts (a # as) s = Option.bind (act a s) (acts as)"

lemma acts_run: "acts as s = Some s' \<Longrightarrow> (jstep (\<lambda>n. n = ''a.didx''))\<^sup>*\<^sup>* s s'"
proof (induction as arbitrary: s)
  case (Cons a as)
  then show ?case by (auto simp: bind_eq_Some_conv dest!: act_step intro: converse_rtranclp_into_rtranclp)
qed simp

definition walk_start :: jstate where
  "walk_start = \<lparr>loc = ''/m/a.didx'', jfile = [], pending_move = None, gc = Visit [''/n/a.didx'', ''/m/a.didx''], marked = False\<rparr>"

text \<open>The file moves after the new place and before the old one was visited.\<close>

lemma moving_run:
  "case acts [Collect, Record ''/n'', Rename, Collect, Collect] walk_start of None \<Rightarrow> False | Some s' \<Rightarrow> gc s' = Done \<and> loc s' = ''/n/a.didx''"
  by code_simp

theorem moved_index_marked_witness:
  "\<exists>s'. (jstep (\<lambda>n. n = ''a.didx''))\<^sup>*\<^sup>* walk_start s' \<and> gc s' = Done \<and> loc s' = ''/n/a.didx'' \<and> marked s'"
proof -
  obtain s' where s': "acts [Collect, Record ''/n'', Rename, Collect, Collect] walk_start = Some s'" "gc s' = Done" "loc s' = ''/n/a.didx''"
    using moving_run by (auto simp del: acts.simps split: option.splits)
  have "marked s'"
    using moved_index_marked [OF acts_run [OF s'(1)], of "[''/n/a.didx'', ''/m/a.didx'']" "[]"] s'(2)
    by (simp add: walk_start_def index_names_ok_def is_ws_def journal_text_def)
  then show ?thesis using acts_run [OF s'(1)] s' by blast
qed

text \<open>
  What is recorded is not safe across two collections: the first one, in which a move was recorded but not yet
  carried out, empties the journal; a second one can then miss the file, at its old place because it was
  moved before that was visited and at its new one because it was moved after that was visited. So the
  claim that a new path always has an entry needs that no collection ends between recording and rename.
\<close>

definition second_walk :: "jstate \<Rightarrow> jstate" where
  "second_walk s = s\<lparr>gc := Visit [''/n/a.didx'', ''/m/a.didx''], marked := False\<rparr>"

lemma two_collections:
  "case acts [Record ''/n'', Collect, Collect, Collect] walk_start of None \<Rightarrow> False
   | Some s1 \<Rightarrow> gc s1 = Done \<and> marked s1 \<and> pending_move s1 = Some ''/n/a.didx'' \<and>
       (case acts [Collect, Rename, Collect, Collect] (second_walk s1) of None \<Rightarrow> False
        | Some s2 \<Rightarrow> gc s2 = Done \<and> loc s2 = ''/n/a.didx'' \<and> \<not> marked s2)"
  by code_simp

theorem moved_index_missed_by_second_gc:
  "\<exists>s1 s2. (jstep (\<lambda>n. n = ''a.didx''))\<^sup>*\<^sup>* walk_start s1 \<and> gc s1 = Done \<and> marked s1 \<and> pending_move s1 = Some ''/n/a.didx'' \<and>
     (jstep (\<lambda>n. n = ''a.didx''))\<^sup>*\<^sup>* (second_walk s1) s2 \<and> gc s2 = Done \<and> loc s2 = ''/n/a.didx'' \<and> \<not> marked s2"
proof -
  obtain s1 s2 where "acts [Record ''/n'', Collect, Collect, Collect] walk_start = Some s1" "gc s1 = Done" "marked s1" "pending_move s1 = Some ''/n/a.didx''"
    "acts [Collect, Rename, Collect, Collect] (second_walk s1) = Some s2" "gc s2 = Done" "loc s2 = ''/n/a.didx''" "\<not> marked s2"
    using two_collections by (auto simp del: acts.simps split: option.splits)
  then show ?thesis using acts_run by blast
qed

text \<open>
  An append that fails after a part of a path spoils the next one: its path is read together with the part that was
  left, and the drain never opens it.
\<close>

lemma partial_append_loses_path:
  "append_moved_indices None (Some (''no space'', 4)) [''/n/a.didx''] [] = (Err ''failed to append to move journalno space'', ''/n/a'') \<and>
   append_moved_indices None None [''/m/b.didx''] ''/n/a'' = (Ok (), ''/n/a/m/b.didx'' @ [CHR 10]) \<and>
   drain_move_journal None None (\<lambda>p ps. (Ok (), ps @ [p])) (''/n/a/m/b.didx'' @ [CHR 10]) [] = (Ok (), [], [''/n/a/m/b.didx''])"
  by code_simp

text \<open>
  The journal as a file: paths that were recorded, in any number of appends, are processed by the next drain in
  their order, and after a drain without error the file is empty.
\<close>

theorem journal_round_trip:
  assumes "\<forall>p \<in> set (old @ paths). path_ok p"
  shows "append_moved_indices None None paths (journal_text old) = (Ok (), journal_text (old @ paths)) \<and>
    drain_move_journal None None f (journal_text (old @ paths)) s =
      (case each f (old @ paths) s of (Inl e, s') \<Rightarrow> (Err e, journal_text (old @ paths), s') | (Inr _, s') \<Rightarrow> (Ok (), [], s'))"
  using assms journal_lines_text [of paths "[]"] drain_lines_each [OF assms, of f s]
  by (auto simp: append_moved_indices_def drain_move_journal_def journal_text_def split: prod.split sum.split)

theorem journal_round_trip_witness:
  "append_moved_indices None None [''/n/a.didx''] (journal_text [''/m/b.fidx'']) = (Ok (), journal_text [''/m/b.fidx'', ''/n/a.didx'']) \<and>
   drain_move_journal None None (\<lambda>p ps. (Ok (), ps @ [p])) (journal_text [''/m/b.fidx'', ''/n/a.didx'']) [] = (Ok (), [], [''/m/b.fidx'', ''/n/a.didx''])"
  using journal_round_trip [of "[''/m/b.fidx'']" "[''/n/a.didx'']" "\<lambda>p ps. (Ok (), ps @ [p])" "[]"] by (simp add: path_ok_def is_ws_def)

end
