(* ===== verification/TapeBlocks.thy ===== *)
theory TapeBlocks
  imports Prelude
begin

text \<open>
  The blocks of a tape (\<^verbatim>\<open>pbs-tape/src/lib.rs\<close>, \<^verbatim>\<open>blocked_writer.rs\<close>, \<^verbatim>\<open>blocked_reader.rs\<close>, \<^verbatim>\<open>emulate_tape_writer.rs\<close> and
  \<^verbatim>\<open>emulate_tape_reader.rs\<close>). The traits \<^verbatim>\<open>BlockWrite\<close> and \<^verbatim>\<open>BlockRead\<close> are functions that the generic types take as
  arguments; what their implementations promise is the locale \<open>block_tape\<close>, interpreted by the emulated
  tape. A read fills a buffer, also when it fails, so it returns the new buffer. Panics and loops that do
  not end are \<open>None\<close>.
\<close>

section \<open>Block headers\<close>

definition PROXMOX_TAPE_BLOCK_SIZE :: nat where
  "PROXMOX_TAPE_BLOCK_SIZE = 256 * 1024"

definition PROXMOX_TAPE_BLOCK_HEADER_MAGIC_1_0 :: bytes where
  "PROXMOX_TAPE_BLOCK_HEADER_MAGIC_1_0 = [220, 189, 175, 202, 235, 160, 165, 40]"

definition END_OF_STREAM :: u8 where
  "END_OF_STREAM = 1"

definition INCOMPLETE :: u8 where
  "INCOMPLETE = 2"

text \<open>The packed struct: the size field is three bytes, the sequence number is kept in its little-endian bytes.\<close>

record BlockHeader =
  bmagic :: bytes
  bflags :: u8
  bsize :: bytes
  bseq :: bytes
  payload :: bytes

definition block_bytes :: "BlockHeader \<Rightarrow> bytes" where
  "block_bytes b = bmagic b @ [bflags b] @ bsize b @ bseq b @ payload b"

definition block_of_bytes :: "bytes \<Rightarrow> BlockHeader" where
  "block_of_bytes d = \<lparr>bmagic = take 8 d, bflags = d ! 8, bsize = slice 9 3 d, bseq = slice 12 4 d, payload = drop 16 d\<rparr>"

definition BlockHeader_new :: BlockHeader where
  "BlockHeader_new = \<lparr>bmagic = PROXMOX_TAPE_BLOCK_HEADER_MAGIC_1_0, bflags = 0, bsize = [0, 0, 0], bseq = [0, 0, 0, 0],
     payload = replicate (PROXMOX_TAPE_BLOCK_SIZE - 16) 0\<rparr>"

definition set_size :: "nat \<Rightarrow> BlockHeader \<Rightarrow> BlockHeader" where
  "set_size n b = b\<lparr>bsize := take 3 (le_bytes 8 n)\<rparr>"

definition header_block_size :: "BlockHeader \<Rightarrow> nat" where
  "header_block_size b = unat (bsize b ! 0) + unat (bsize b ! 1) * 2 ^ 8 + unat (bsize b ! 2) * 2 ^ 16"

definition set_seq_nr :: "nat \<Rightarrow> BlockHeader \<Rightarrow> BlockHeader" where
  "set_seq_nr n b = b\<lparr>bseq := le_bytes 4 n\<rparr>"

definition header_seq_nr :: "BlockHeader \<Rightarrow> nat" where
  "header_seq_nr b = le_nat (bseq b)"

definition has_flag :: "u8 \<Rightarrow> BlockHeader \<Rightarrow> bool" where
  "has_flag f b \<longleftrightarrow> bflags b AND f = f"

text \<open>Sequence numbers are counted in an \<^verbatim>\<open>u32\<close>.\<close>

definition next_seq :: "nat \<Rightarrow> nat" where
  "next_seq k = (k + 1) mod 2 ^ 32"

section \<open>The traits of block devices\<close>

datatype BlockReadError = IoError err | EndOfFile | EndOfStream | InvalidBlockSize nat nat

record 'w block_write =
  write_block :: "bytes \<Rightarrow> 'w \<Rightarrow> (err, bool) result \<times> 'w"
  write_filemark :: "'w \<Rightarrow> (err, unit) result \<times> 'w"

type_synonym 'r block_read = "bytes \<Rightarrow> 'r \<Rightarrow> (BlockReadError, nat) result \<times> bytes \<times> 'r"

section \<open>BlockedWriter\<close>

record 'w BlockedWriter =
  bw_writer :: 'w
  bw_buffer :: BlockHeader
  buffer_pos :: nat
  bw_seq_nr :: nat
  bw_leom :: bool
  bw_bytes_written :: nat
  wrote_eof :: bool

definition BlockedWriter_new :: "'w \<Rightarrow> 'w BlockedWriter" where
  "BlockedWriter_new w = \<lparr>bw_writer = w, bw_buffer = BlockHeader_new, buffer_pos = 0, bw_seq_nr = 0, bw_leom = False,
     bw_bytes_written = 0, wrote_eof = False\<rparr>"

definition bw_write_eof :: "'w block_write \<Rightarrow> 'w BlockedWriter \<Rightarrow> (err, unit) result \<times> 'w BlockedWriter" where
  "bw_write_eof dev s =
     (if wrote_eof s then (Err ''BlockedWriter: detected multiple EOF writes'', s)
      else (case write_filemark dev (bw_writer s) of (r, w) \<Rightarrow> (r, s\<lparr>wrote_eof := True, bw_writer := w\<rparr>)))"

text \<open>The first part of \<^verbatim>\<open>write\<close> copies bytes into the block, the second one writes a block that is full.\<close>

definition bw_flush :: "'w block_write \<Rightarrow> nat \<Rightarrow> 'w BlockedWriter \<Rightarrow> (err, nat) result \<times> 'w BlockedWriter" where
  "bw_flush dev n s =
     (let b = set_seq_nr (bw_seq_nr s) (set_size (length (payload (bw_buffer s))) ((bw_buffer s)\<lparr>bflags := 0\<rparr>));
          s1 = s\<lparr>bw_buffer := b, bw_seq_nr := next_seq (bw_seq_nr s)\<rparr>
      in case write_block dev (block_bytes b) (bw_writer s) of
           (Inl e, w) \<Rightarrow> (Err e, s1\<lparr>bw_writer := w\<rparr>)
         | (Inr leom, w) \<Rightarrow>
             (Ok n, s1\<lparr>bw_writer := w, bw_leom := bw_leom s \<or> leom, buffer_pos := 0,
                bw_bytes_written := wrapping_add (bw_bytes_written s) PROXMOX_TAPE_BLOCK_SIZE\<rparr>))"

definition bw_write :: "'w block_write \<Rightarrow> bytes \<Rightarrow> 'w BlockedWriter \<Rightarrow> ((err, nat) result \<times> 'w BlockedWriter) option" where
  "bw_write dev data s =
     (if data = [] then Some (Ok 0, s)
      else if length (payload (bw_buffer s)) < buffer_pos s then None
      else (let rest = length (payload (bw_buffer s)) - buffer_pos s;
                n = (if length data < rest then length data else rest);
                s1 = s\<lparr>bw_buffer := (bw_buffer s)\<lparr>payload := overwrite (buffer_pos s) (take n data) (payload (bw_buffer s))\<rparr>\<rparr>
        in if rest - n = 0 then Some (bw_flush dev n s1)
           else Some (Ok n, s1\<lparr>buffer_pos := buffer_pos s + n\<rparr>)))"

partial_function (option) bw_write_all ::
  "'w block_write \<Rightarrow> bytes \<Rightarrow> 'w BlockedWriter \<Rightarrow> ((err, bool) result \<times> 'w BlockedWriter) option" where
  "bw_write_all dev data s =
     (if data = [] then Some (Ok (bw_leom s), s)
      else Option.bind (bw_write dev data s) (\<lambda>(r, s').
        case r of Inl e \<Rightarrow> Some (Err e, s') | Inr n \<Rightarrow> bw_write_all dev (drop n data) s'))"

definition bw_finish :: "'w block_write \<Rightarrow> bool \<Rightarrow> 'w BlockedWriter \<Rightarrow> (err, bool) result \<times> 'w BlockedWriter" where
  "bw_finish dev incomplete s =
     (let p = payload (bw_buffer s);
          cleared = take (buffer_pos s) p @ replicate (length p - buffer_pos s) 0;
          b = set_seq_nr (bw_seq_nr s) (set_size (buffer_pos s)
                ((bw_buffer s)\<lparr>payload := cleared,
                   bflags := (if incomplete then END_OF_STREAM OR INCOMPLETE else END_OF_STREAM)\<rparr>));
          s1 = s\<lparr>bw_buffer := b, bw_seq_nr := next_seq (bw_seq_nr s),
                 bw_bytes_written := wrapping_add (bw_bytes_written s) PROXMOX_TAPE_BLOCK_SIZE\<rparr>
      in case write_block dev (block_bytes b) (bw_writer s) of
           (Inl e, w) \<Rightarrow> (Err e, s1\<lparr>bw_writer := w\<rparr>)
         | (Inr leom, w) \<Rightarrow>
             (case bw_write_eof dev (s1\<lparr>bw_writer := w\<rparr>) of
                (Inl e, s2) \<Rightarrow> (Err e, s2)
              | (Inr _, s2) \<Rightarrow> (Ok leom, s2)))"

text \<open>\<^verbatim>\<open>Drop\<close>: the file is ended with a filemark if that did not happen; its result is ignored.\<close>

definition bw_drop :: "'w block_write \<Rightarrow> 'w BlockedWriter \<Rightarrow> 'w" where
  "bw_drop dev s = (if wrote_eof s then bw_writer s else snd (write_filemark dev (bw_writer s)))"

section \<open>BlockedReader\<close>

record 'r BlockedReader =
  br_reader :: 'r
  br_buffer :: BlockHeader
  br_seq_nr :: nat
  found_end_marker :: bool
  br_incomplete :: bool
  got_eod :: bool
  read_error :: bool
  read_pos :: nat

definition check_buffer :: "BlockHeader \<Rightarrow> nat \<Rightarrow> (err, nat \<times> bool) result" where
  "check_buffer b seq_nr =
     (if bmagic b \<noteq> PROXMOX_TAPE_BLOCK_HEADER_MAGIC_1_0 then Err ''got tape block with unknown magic number''
      else if seq_nr \<noteq> header_seq_nr b then Err ''detected tape block with wrong sequence number''
      else if header_block_size b > length (payload b) then Err ''detected tape block with wrong payload size''
      else if header_block_size b = 0 \<and> \<not> has_flag END_OF_STREAM b then Err ''detected tape block with zero payload size''
      else Ok (header_block_size b, has_flag END_OF_STREAM b))"

definition read_block_frame ::
  "'r block_read \<Rightarrow> BlockHeader \<Rightarrow> 'r \<Rightarrow> (BlockReadError, unit) result \<times> BlockHeader \<times> 'r" where
  "read_block_frame rd b r =
     (case rd (block_bytes b) r of
        (Inl e, d, r') \<Rightarrow> (Err e, block_of_bytes d, r')
      | (Inr n, d, r') \<Rightarrow>
          (if n \<noteq> PROXMOX_TAPE_BLOCK_SIZE then Err (IoError ''got wrong block size'') else Ok (), block_of_bytes d, r'))"

definition consume_eof_marker :: "'r block_read \<Rightarrow> 'r \<Rightarrow> (err, unit) result \<times> 'r" where
  "consume_eof_marker rd r =
     (case rd (replicate 512 0) r of
        (Inr _, _, r') \<Rightarrow> (Err ''detected tape block after block-stream end marker'', r')
      | (Inl EndOfFile, _, r') \<Rightarrow> (Ok (), r')
      | (Inl EndOfStream, _, r') \<Rightarrow> (Err ''got unexpected end of tape'', r')
      | (Inl (IoError e), _, r') \<Rightarrow> (Err e, r')
      | (Inl (InvalidBlockSize m n), _, r') \<Rightarrow> (Err ''read failed - unexpected block len'', r'))"

definition br_open :: "'r block_read \<Rightarrow> 'r \<Rightarrow> (BlockReadError, 'r BlockedReader) result" where
  "br_open rd reader =
     (case read_block_frame rd BlockHeader_new reader of
        (Inl e, _, _) \<Rightarrow> Err e
      | (Inr _, b, r) \<Rightarrow>
          (case check_buffer b 0 of
             Inl e \<Rightarrow> Err (IoError e)
           | Inr (_, found) \<Rightarrow>
               (let s = \<lparr>br_reader = r, br_buffer = b, br_seq_nr = 1, found_end_marker = found, br_incomplete = False,
                         got_eod = False, read_error = False, read_pos = 0\<rparr>
                in if found then
                     (case consume_eof_marker rd r of
                        (Inl e, _) \<Rightarrow> Err (IoError e)
                      | (Inr _, r') \<Rightarrow> Ok (s\<lparr>br_reader := r', br_incomplete := has_flag INCOMPLETE b, got_eod := True\<rparr>))
                   else Ok s)))"

definition br_read_block :: "'r block_read \<Rightarrow> bool \<Rightarrow> 'r BlockedReader \<Rightarrow> (err, nat) result \<times> 'r BlockedReader" where
  "br_read_block rd check_end_marker s =
     (case read_block_frame rd (br_buffer s) (br_reader s) of
        (Inl EndOfFile, b, r) \<Rightarrow>
          (let s1 = s\<lparr>br_buffer := b, br_reader := r, got_eod := True, read_pos := length (payload b)\<rparr>
           in if \<not> found_end_marker s \<and> check_end_marker then (Err ''detected tape stream without end marker'', s1)
              else (Ok 0, s1))
      | (Inl EndOfStream, b, r) \<Rightarrow> (Err ''got unexpected end of tape'', s\<lparr>br_buffer := b, br_reader := r\<rparr>)
      | (Inl (IoError e), b, r) \<Rightarrow> (Err e, s\<lparr>br_buffer := b, br_reader := r\<rparr>)
      | (Inl (InvalidBlockSize m n), b, r) \<Rightarrow> (Err ''read failed - unexpected block len'', s\<lparr>br_buffer := b, br_reader := r\<rparr>)
      | (Inr _, b, r) \<Rightarrow>
          (case check_buffer b (br_seq_nr s) of
             Inl e \<Rightarrow> (Err e, s\<lparr>br_buffer := b, br_reader := r\<rparr>)
           | Inr (n, found) \<Rightarrow>
               (let s1 = s\<lparr>br_buffer := b, br_reader := r, br_seq_nr := next_seq (br_seq_nr s)\<rparr>
                in if found then
                     (let s2 = s1\<lparr>found_end_marker := True, br_incomplete := has_flag INCOMPLETE b\<rparr>
                      in case consume_eof_marker rd r of
                           (Inl e, r') \<Rightarrow> (Err e, s2\<lparr>br_reader := r'\<rparr>)
                         | (Inr _, r') \<Rightarrow> (Ok n, s2\<lparr>br_reader := r', got_eod := True, read_pos := 0\<rparr>))
                   else (Ok n, s1\<lparr>read_pos := 0\<rparr>))))"

definition is_incomplete :: "'r BlockedReader \<Rightarrow> (err, bool) result" where
  "is_incomplete s =
     (if \<not> got_eod s then Err ''is_incomplete failed: EOD not reached''
      else if \<not> found_end_marker s then Err ''is_incomplete failed: no end marker found''
      else Ok (br_incomplete s))"

definition has_end_marker :: "'r BlockedReader \<Rightarrow> (err, bool) result" where
  "has_end_marker s = (if \<not> got_eod s then Err ''has_end_marker failed: EOD not reached'' else Ok (found_end_marker s))"

partial_function (option) skip_loop ::
  "'r block_read \<Rightarrow> nat \<Rightarrow> 'r BlockedReader \<Rightarrow> ((err, nat) result \<times> 'r BlockedReader) option" where
  "skip_loop rd n s =
     (if got_eod s then Some (Ok n, s)
      else (case br_read_block rd False s of
              (Inl e, s') \<Rightarrow> Some (Err e, s')
            | (Inr m, s') \<Rightarrow> skip_loop rd (n + m) s'))"

definition skip_data :: "'r block_read \<Rightarrow> 'r BlockedReader \<Rightarrow> ((err, nat) result \<times> 'r BlockedReader) option" where
  "skip_data rd s = skip_loop rd (header_block_size (br_buffer s) - read_pos s) s"

text \<open>\<^verbatim>\<open>read\<close> into a buffer of \<open>n\<close> bytes returns the bytes it copied; a copy out of the range of the payload panics.\<close>

definition br_read :: "'r block_read \<Rightarrow> nat \<Rightarrow> 'r BlockedReader \<Rightarrow> ((err, bytes) result \<times> 'r BlockedReader) option" where
  "br_read rd n s =
     (if read_error s then Some (Err ''detected read after error - internal error'', s)
      else (let refill = header_block_size (br_buffer s) \<le> read_pos s \<and> \<not> got_eod s;
                (r, s1) = (if refill then br_read_block rd True s else (Ok (header_block_size (br_buffer s)), s))
        in case r of
             Inl e \<Rightarrow> Some (Err e, s1\<lparr>read_error := True\<rparr>)
           | Inr sz \<Rightarrow>
               (let rest = (if refill then sz else sz - read_pos s1)
                in if rest = 0 then Some (Ok [], s1)
                   else (let copy_len = (if n < rest then n else rest)
                     in if length (payload (br_buffer s1)) < read_pos s1 + copy_len then None
                        else Some (Ok (slice (read_pos s1) copy_len (payload (br_buffer s1))),
                               s1\<lparr>read_pos := read_pos s1 + copy_len\<rparr>)))))"

section \<open>The emulated tape\<close>

text \<open>
  A tape kept in a file. \<open>wr\<close> is \<^verbatim>\<open>write_all\<close> of the file; \<open>reof\<close> is \<^verbatim>\<open>read_exact_or_eof\<close> of the crate \<^verbatim>\<open>proxmox_io\<close>, which
  fills a buffer, or returns \<open>False\<close> at the end of the file, or fails.
\<close>

record 'f EmulateTapeWriter =
  block_nr :: nat
  max_blocks :: nat
  ew_writer :: 'f
  ew_wrote_eof :: bool

definition EmulateTapeWriter_new :: "'f \<Rightarrow> nat \<Rightarrow> 'f EmulateTapeWriter" where
  "EmulateTapeWriter_new w max_size =
     \<lparr>block_nr = 0,
      max_blocks = (if max_size div PROXMOX_TAPE_BLOCK_SIZE < 2 then 2 else max_size div PROXMOX_TAPE_BLOCK_SIZE),
      ew_writer = w, ew_wrote_eof = False\<rparr>"

definition emulate_write_block ::
  "(bytes \<Rightarrow> 'f \<Rightarrow> (err, unit) result \<times> 'f) \<Rightarrow> bytes \<Rightarrow> 'f EmulateTapeWriter \<Rightarrow> (err, bool) result \<times> 'f EmulateTapeWriter" where
  "emulate_write_block wr buf w =
     (if length buf \<noteq> PROXMOX_TAPE_BLOCK_SIZE then (Err ''EmulateTapeWriter: got write with wrong block size'', w)
      else if block_nr w \<ge> max_blocks w + 2 then (Err ''ENOSPC'', w)
      else (case wr buf (ew_writer w) of
              (Inl e, f) \<Rightarrow> (Err e, w\<lparr>ew_writer := f\<rparr>)
            | (Inr _, f) \<Rightarrow> (Ok (block_nr w + 1 > max_blocks w), w\<lparr>ew_writer := f, block_nr := block_nr w + 1\<rparr>)))"

definition emulate_write_filemark :: "'f EmulateTapeWriter \<Rightarrow> (err, unit) result \<times> 'f EmulateTapeWriter" where
  "emulate_write_filemark w =
     (if ew_wrote_eof w then (Err ''EmulateTapeWriter: detected multiple EOF writes'', w)
      else (Ok (), w\<lparr>ew_wrote_eof := True\<rparr>))"

definition emulate_write :: "(bytes \<Rightarrow> 'f \<Rightarrow> (err, unit) result \<times> 'f) \<Rightarrow> 'f EmulateTapeWriter block_write" where
  "emulate_write wr = \<lparr>write_block = emulate_write_block wr, write_filemark = emulate_write_filemark\<rparr>"

record 'f EmulateTapeReader =
  er_reader :: 'f
  er_got_eof :: bool

definition EmulateTapeReader_new :: "'f \<Rightarrow> 'f EmulateTapeReader" where
  "EmulateTapeReader_new f = \<lparr>er_reader = f, er_got_eof = False\<rparr>"

definition emulate_read_block ::
  "(bytes \<Rightarrow> 'f \<Rightarrow> (err, bool) result \<times> bytes \<times> 'f) \<Rightarrow> 'f EmulateTapeReader block_read" where
  "emulate_read_block reof buf s =
     (if er_got_eof s then (Err (IoError ''detected read after EOF!''), buf, s)
      else (case reof buf (er_reader s) of
              (Inl e, b, f) \<Rightarrow> (Err (IoError e), b, s\<lparr>er_reader := f\<rparr>)
            | (Inr False, b, f) \<Rightarrow> (Err EndOfFile, b, s\<lparr>er_reader := f, er_got_eof := True\<rparr>)
            | (Inr True, b, f) \<Rightarrow>
                (if length buf \<noteq> PROXMOX_TAPE_BLOCK_SIZE
                 then Err (IoError ''EmulateTapeReader: read_block with wrong block size'') else Ok (length buf),
                 b, s\<lparr>er_reader := f\<rparr>)))"

section \<open>What readers of a stream rely on\<close>

text \<open>
  \<open>read_up_to rd n\<close> reads until \<open>n\<close> bytes are there or the stream ends, as the loops of the standard library do.
  A reader that hands out the next bytes of a stream, at least one unless it is at the end, gives all of
  them to this loop.
\<close>

type_synonym 's reads = "nat \<Rightarrow> 's \<Rightarrow> ((err, bytes) result \<times> 's) option"

partial_function (option) read_up_to :: "'s reads \<Rightarrow> nat \<Rightarrow> 's \<Rightarrow> ((err, bytes) result \<times> 's) option" where
  "read_up_to rd n s =
     (if n = 0 then Some (Ok [], s)
      else Option.bind (rd n s) (\<lambda>(r, s1).
        case r of
          Inl e \<Rightarrow> Some (Err e, s1)
        | Inr bs \<Rightarrow>
            (if bs = [] then Some (Ok [], s1)
             else Option.bind (read_up_to rd (n - length bs) s1) (\<lambda>(r2, s2). Some (map_sum id ((@) bs) r2, s2)))))"

locale byte_stream =
  fixes rd :: "'s reads" and streams :: "'s \<Rightarrow> bytes \<Rightarrow> bool" and at_end :: "'s \<Rightarrow> bool"
  assumes read_step: "streams s d \<Longrightarrow> 0 < n \<Longrightarrow>
    \<exists>bs s' d'. rd n s = Some (Ok bs, s') \<and> d = bs @ d' \<and> length bs \<le> n \<and> streams s' d' \<and> (if d = [] then at_end s' else bs \<noteq> [])"
begin

lemma read_up_to_returns:
  "streams s d \<Longrightarrow> \<exists>s'. read_up_to rd n s = Some (Ok (take n d), s') \<and> streams s' (drop n d) \<and> (length d < n \<longrightarrow> at_end s')"
proof (induction n arbitrary: s d rule: less_induct)
  case (less n)
  show ?case
  proof (cases "n = 0")
    case True
    then show ?thesis using less.prems by (simp add: read_up_to.simps)
  next
    case False
    obtain bs s1 d' where 1: "rd n s = Some (Ok bs, s1)" "d = bs @ d'" "length bs \<le> n" "streams s1 d'"
      "if d = [] then at_end s1 else bs \<noteq> []"
      using read_step [OF less.prems] False by blast
    show ?thesis
    proof (cases "bs = []")
      case True
      have d: "d = []" "at_end s1" using 1(5) True by (simp_all split: if_splits)
      have "d' = []" using 1(2) d by simp
      then have "streams s1 []" using 1(4) by simp
      moreover have "read_up_to rd n s = Some (Ok [], s1)" using 1(1) True False by (simp add: read_up_to.simps [of rd n s])
      ultimately show ?thesis using d by simp
    next
      case nonempty: False
      then have "n - length bs < n" using 1 False by (cases bs) auto
      then obtain s2 where "read_up_to rd (n - length bs) s1 = Some (Ok (take (n - length bs) d'), s2)"
        "streams s2 (drop (n - length bs) d')" "length d' < n - length bs \<longrightarrow> at_end s2"
        using less.IH [OF _ 1(4)] by blast
      then show ?thesis using 1 False nonempty by (subst read_up_to.simps) auto
    qed
  qed
qed

end

section \<open>Blocks of a stream\<close>

text \<open>
  \<open>stream_of seq bs\<close> is the data of a complete sequence of blocks that is numbered from \<open>seq\<close> and ends with its
  only end marker, with the flag that says whether it goes on on another tape; \<open>chain\<close> is the data of
  blocks without end marker and the number of the next block.
\<close>

fun chain :: "nat \<Rightarrow> bytes list \<Rightarrow> (bytes \<times> nat) option" where
  "chain k [] = Some ([], k)"
| "chain k (b # bs) =
     (case check_buffer (block_of_bytes b) k of
        Inr (n, False) \<Rightarrow> map_option (\<lambda>(d, j). (take n (payload (block_of_bytes b)) @ d, j)) (chain (next_seq k) bs)
      | _ \<Rightarrow> None)"

fun stream_of :: "nat \<Rightarrow> bytes list \<Rightarrow> (bytes \<times> bool) option" where
  "stream_of k [] = None"
| "stream_of k (b # bs) =
     (case check_buffer (block_of_bytes b) k of
        Inl _ \<Rightarrow> None
      | Inr (n, True) \<Rightarrow>
          (if bs = [] then Some (take n (payload (block_of_bytes b)), has_flag INCOMPLETE (block_of_bytes b)) else None)
      | Inr (n, False) \<Rightarrow>
          map_option (\<lambda>(d, i). (take n (payload (block_of_bytes b)) @ d, i)) (stream_of (next_seq k) bs))"

lemma chain_append:
  "chain k bs = Some (d, j) \<Longrightarrow> chain k (bs @ cs) = map_option (\<lambda>(e, l). (d @ e, l)) (chain j cs)"
proof (induction bs arbitrary: k d)
  case Nil
  then show ?case by (auto simp: option.map_id0 case_prod_unfold intro: option.map_ident [symmetric])
next
  case (Cons b bs)
  from Cons.prems obtain n d' where 1: "check_buffer (block_of_bytes b) k = Inr (n, False)"
    "chain (next_seq k) bs = Some (d', j)" "d = take n (payload (block_of_bytes b)) @ d'"
    by (auto split: sum.splits prod.splits bool.splits)
  show ?case by (simp add: 1 Cons.IH [OF 1(2)] option.map_comp o_def case_prod_unfold)
qed

lemma stream_of_append:
  "chain k bs = Some (d, j) \<Longrightarrow> stream_of j cs = Some (e, i) \<Longrightarrow> stream_of k (bs @ cs) = Some (d @ e, i)"
proof (induction bs arbitrary: k d)
  case (Cons b bs)
  from Cons.prems obtain n d' where 1: "check_buffer (block_of_bytes b) k = Inr (n, False)"
    "chain (next_seq k) bs = Some (d', j)" "d = take n (payload (block_of_bytes b)) @ d'"
    by (auto split: sum.splits prod.splits bool.splits)
  show ?case by (simp add: 1 Cons.IH [OF 1(2) Cons.prems(2)])
qed simp

section \<open>Headers are read back\<close>

definition wf_block :: "BlockHeader \<Rightarrow> bool" where
  "wf_block b \<longleftrightarrow> bmagic b = PROXMOX_TAPE_BLOCK_HEADER_MAGIC_1_0 \<and> length (bsize b) = 3 \<and> length (bseq b) = 4 \<and>
     length (payload b) = PROXMOX_TAPE_BLOCK_SIZE - 16"

lemma take_le_bytes: "j \<le> k \<Longrightarrow> take j (le_bytes k n) = le_bytes j n"
proof (induction j arbitrary: k n)
  case (Suc j)
  then show ?case by (cases k) simp_all
qed simp

lemma block_size_gt: "16 < PROXMOX_TAPE_BLOCK_SIZE" "PROXMOX_TAPE_BLOCK_SIZE < 2 ^ 24"
  by (simp_all add: PROXMOX_TAPE_BLOCK_SIZE_def)

lemma length_magic [simp]: "length PROXMOX_TAPE_BLOCK_HEADER_MAGIC_1_0 = 8"
  by (simp add: PROXMOX_TAPE_BLOCK_HEADER_MAGIC_1_0_def)

lemma wf_block_new: "wf_block BlockHeader_new"
  by (simp add: wf_block_def BlockHeader_new_def)

lemma wf_block_set [simp]:
  "wf_block (set_size n b) \<longleftrightarrow> length (payload b) = PROXMOX_TAPE_BLOCK_SIZE - 16 \<and> length (bseq b) = 4 \<and> bmagic b = PROXMOX_TAPE_BLOCK_HEADER_MAGIC_1_0"
  "wf_block (set_seq_nr n b) \<longleftrightarrow> length (payload b) = PROXMOX_TAPE_BLOCK_SIZE - 16 \<and> length (bsize b) = 3 \<and> bmagic b = PROXMOX_TAPE_BLOCK_HEADER_MAGIC_1_0"
  by (auto simp: wf_block_def set_size_def set_seq_nr_def)

lemma header_set [simp]:
  "payload (set_size n b) = payload b" "payload (set_seq_nr k b) = payload b"
  "bmagic (set_size n b) = bmagic b" "bmagic (set_seq_nr k b) = bmagic b"
  "bflags (set_size n b) = bflags b" "bflags (set_seq_nr k b) = bflags b"
  "bsize (set_seq_nr k b) = bsize b" "bseq (set_size n b) = bseq b"
  "length (bsize (set_size n b)) = 3" "length (bseq (set_seq_nr k b)) = 4"
  by (simp_all add: set_size_def set_seq_nr_def)

lemma length_block_bytes: "wf_block b \<Longrightarrow> length (block_bytes b) = PROXMOX_TAPE_BLOCK_SIZE"
  using block_size_gt(1) by (simp add: wf_block_def block_bytes_def)

lemma block_bytes_round_trip: "wf_block b \<Longrightarrow> block_of_bytes (block_bytes b) = b"
  by (cases b) (simp add: wf_block_def block_of_bytes_def block_bytes_def slice_def nth_append)

lemma header_block_size_set: "n < 2 ^ 24 \<Longrightarrow> header_block_size (set_seq_nr k (set_size n b)) = n"
proof -
  assume n: "n < 2 ^ 24"
  then have "n div 256 div 256 mod 256 = n div 256 div 256" by (intro mod_less) simp
  moreover have "n mod 256 + n div 256 mod 256 * 256 + n div 256 div 256 * 65536 = n"
    using div_mult_mod_eq [of n 256] div_mult_mod_eq [of "n div 256" 256] by linarith
  ultimately show ?thesis
    by (simp add: header_block_size_def set_size_def set_seq_nr_def take_le_bytes numeral_3_eq_3 unat_of_nat)
qed

lemma header_seq_nr_set: "k < 2 ^ 32 \<Longrightarrow> header_seq_nr (set_seq_nr k b) = k"
  unfolding header_seq_nr_def set_seq_nr_def by (simp add: le_nat_le_bytes)

lemma flag_simps:
  "has_flag END_OF_STREAM (b\<lparr>bflags := 0\<rparr>) = False"
  "has_flag END_OF_STREAM (b\<lparr>bflags := if i then END_OF_STREAM OR INCOMPLETE else END_OF_STREAM\<rparr>) = True"
  "has_flag INCOMPLETE (b\<lparr>bflags := if i then END_OF_STREAM OR INCOMPLETE else END_OF_STREAM\<rparr>) = i"
  by (simp_all add: has_flag_def END_OF_STREAM_def INCOMPLETE_def)

lemma has_flag_set [simp]: "has_flag f (set_size n b) = has_flag f b" "has_flag f (set_seq_nr k b) = has_flag f b"
  by (simp_all add: has_flag_def)

lemma check_buffer_set:
  assumes "bmagic b = PROXMOX_TAPE_BLOCK_HEADER_MAGIC_1_0" "length (payload b) = PROXMOX_TAPE_BLOCK_SIZE - 16" "k < 2 ^ 32"
    "n \<le> length (payload b)" "0 < n \<or> has_flag END_OF_STREAM b"
  shows "check_buffer (set_seq_nr k (set_size n b)) k = Ok (n, has_flag END_OF_STREAM b)"
  using assms block_size_gt header_block_size_set [of n k b] by (auto simp: check_buffer_def header_seq_nr_set)

lemma next_seq_less [simp]: "next_seq k < 4294967296"
  by (simp add: next_seq_def)

section \<open>What a tape promises\<close>

text \<open>
  \<open>written w\<close> are the blocks that were written to a tape file, as long as it is \<open>intact w\<close>; \<open>at r bs\<close> says that a reader stands before the
  blocks \<open>bs\<close> and the filemark after them.
\<close>

locale block_out =
  fixes dev :: "'w block_write" and intact :: "'w \<Rightarrow> bool" and written :: "'w \<Rightarrow> bytes list"
  assumes written_block: "intact w \<Longrightarrow> write_block dev b w = (Ok leom, w') \<Longrightarrow> intact w' \<and> written w' = written w @ [b]"
    and written_filemark: "intact w \<Longrightarrow> write_filemark dev w = (Ok u, w') \<Longrightarrow> intact w' \<and> written w' = written w"

locale block_in =
  fixes rd :: "'r block_read" and at :: "'r \<Rightarrow> bytes list \<Rightarrow> bool"
  assumes read_next: "at r (b # bs) \<Longrightarrow> length buf = PROXMOX_TAPE_BLOCK_SIZE \<Longrightarrow>
      \<exists>r'. rd buf r = (Ok PROXMOX_TAPE_BLOCK_SIZE, b, r') \<and> at r' bs"
    and read_more: "at r (b # bs) \<Longrightarrow> buf \<noteq> [] \<Longrightarrow> fst (rd buf r) \<noteq> Err EndOfFile"
    and read_eof: "at r [] \<Longrightarrow> buf \<noteq> [] \<Longrightarrow> \<exists>r'. rd buf r = (Err EndOfFile, buf, r')"
    and at_length: "at r bs \<Longrightarrow> b \<in> set bs \<Longrightarrow> length b = PROXMOX_TAPE_BLOCK_SIZE"

locale block_tape = block_out dev intact written + block_in rd at
  for dev :: "'w block_write" and intact :: "'w \<Rightarrow> bool" and written :: "'w \<Rightarrow> bytes list" and rd :: "'r block_read" and at :: "'r \<Rightarrow> bytes list \<Rightarrow> bool" +
  fixes rewind :: "'w \<Rightarrow> 'r"
  assumes at_rewind: "intact w \<Longrightarrow> \<forall>b \<in> set (written w). length b = PROXMOX_TAPE_BLOCK_SIZE \<Longrightarrow> at (rewind w) (written w)"

section \<open>The writer\<close>

definition bw_inv :: "'w BlockedWriter \<Rightarrow> bool" where
  "bw_inv s \<longleftrightarrow> wf_block (bw_buffer s) \<and> buffer_pos s < PROXMOX_TAPE_BLOCK_SIZE - 16 \<and> bw_seq_nr s < 2 ^ 32"

lemma bw_inv_new: "bw_inv (BlockedWriter_new w)"
  using block_size_gt by (simp add: bw_inv_def BlockedWriter_new_def wf_block_new)

text \<open>The block that is written next, full or at the end of the stream.\<close>

lemma written_header:
  assumes "bw_inv s" "b = set_seq_nr (bw_seq_nr s) (set_size n ((bw_buffer s)\<lparr>payload := p, bflags := f\<rparr>))"
    "length p = PROXMOX_TAPE_BLOCK_SIZE - 16" "n \<le> length p" "0 < n \<or> has_flag END_OF_STREAM ((bw_buffer s)\<lparr>bflags := f\<rparr>)"
  shows "wf_block b" "block_of_bytes (block_bytes b) = b" "length (block_bytes b) = PROXMOX_TAPE_BLOCK_SIZE"
    "check_buffer b (bw_seq_nr s) = Ok (n, has_flag END_OF_STREAM ((bw_buffer s)\<lparr>bflags := f\<rparr>))" "payload b = p"
proof -
  show wf: "wf_block b" using assms by (simp add: bw_inv_def wf_block_def)
  then show "block_of_bytes (block_bytes b) = b" "length (block_bytes b) = PROXMOX_TAPE_BLOCK_SIZE"
    by (simp_all add: block_bytes_round_trip length_block_bytes)
  show "payload b = p" using assms(2) by simp
  have "check_buffer b (bw_seq_nr s) = Ok (n, has_flag END_OF_STREAM ((bw_buffer s)\<lparr>payload := p, bflags := f\<rparr>))"
    unfolding assms(2) using assms(1,3-5) by (intro check_buffer_set) (auto simp: bw_inv_def wf_block_def has_flag_def)
  then show "check_buffer b (bw_seq_nr s) = Ok (n, has_flag END_OF_STREAM ((bw_buffer s)\<lparr>bflags := f\<rparr>))"
    by (simp add: has_flag_def)
qed

context block_out
begin

definition holds :: "bytes list \<Rightarrow> 'w BlockedWriter \<Rightarrow> bytes \<Rightarrow> bool" where
  "holds base s d \<longleftrightarrow> bw_inv s \<and> intact (bw_writer s) \<and> (\<exists>bs d1. written (bw_writer s) = base @ bs \<and> (\<forall>b \<in> set bs. length b = PROXMOX_TAPE_BLOCK_SIZE) \<and>
     chain 0 bs = Some (d1, bw_seq_nr s) \<and> d = d1 @ take (buffer_pos s) (payload (bw_buffer s)))"

lemma holds_new: "intact w \<Longrightarrow> holds (written w) (BlockedWriter_new w) []"
  unfolding holds_def by (intro conjI bw_inv_new exI [of _ "[]"]) (simp_all add: BlockedWriter_new_def)

lemma flush_holds:
  assumes "holds base s d" "p = overwrite (buffer_pos s) x (payload (bw_buffer s))"
    "buffer_pos s + length x = PROXMOX_TAPE_BLOCK_SIZE - 16"
    "bw_flush dev n (s\<lparr>bw_buffer := (bw_buffer s)\<lparr>payload := p\<rparr>\<rparr>) = (r, s')"
  shows "bw_inv s' \<and> (case r of Inl e \<Rightarrow> True | Inr m \<Rightarrow> m = n \<and> holds base s' (d @ x))"
proof -
  have inv: "bw_inv s" using assms(1) by (simp add: holds_def)
  then have p: "length p = PROXMOX_TAPE_BLOCK_SIZE - 16" "take (buffer_pos s) (payload (bw_buffer s)) @ x = p"
    using assms(2,3) by (simp_all add: bw_inv_def wf_block_def overwrite_def)
  define b where "b = set_seq_nr (bw_seq_nr s) (set_size (PROXMOX_TAPE_BLOCK_SIZE - 16) ((bw_buffer s)\<lparr>payload := p, bflags := 0\<rparr>))"
  note b = written_header [OF inv b_def p(1), unfolded flag_simps]
  have "0 < PROXMOX_TAPE_BLOCK_SIZE - 16" using block_size_gt by simp
  note b = b [OF _ disjI1 [OF this], unfolded p(1), OF order_refl]
  have r: "bw_flush dev n (s\<lparr>bw_buffer := (bw_buffer s)\<lparr>payload := p\<rparr>\<rparr>) =
    (case write_block dev (block_bytes b) (bw_writer s) of
       (Inl e, w) \<Rightarrow> (Err e, s\<lparr>bw_buffer := b, bw_seq_nr := next_seq (bw_seq_nr s), bw_writer := w\<rparr>)
     | (Inr leom, w) \<Rightarrow> (Ok n, s\<lparr>bw_buffer := b, bw_seq_nr := next_seq (bw_seq_nr s), bw_writer := w, bw_leom := bw_leom s \<or> leom, buffer_pos := 0,
          bw_bytes_written := wrapping_add (bw_bytes_written s) PROXMOX_TAPE_BLOCK_SIZE\<rparr>))"
    by (simp add: bw_flush_def b_def p(1) Let_def split: prod.split sum.split)
  show ?thesis
  proof (cases "write_block dev (block_bytes b) (bw_writer s)")
    case (Pair q w)
    show ?thesis
    proof (cases q)
      case (Inl e)
      then show ?thesis using r Pair assms(4) b(1) inv by (auto simp: bw_inv_def)
    next
      case (Inr leom)
      then have s': "r = Ok n" "s' = s\<lparr>bw_buffer := b, bw_seq_nr := next_seq (bw_seq_nr s), bw_writer := w, bw_leom := bw_leom s \<or> leom,
          buffer_pos := 0, bw_bytes_written := wrapping_add (bw_bytes_written s) PROXMOX_TAPE_BLOCK_SIZE\<rparr>"
        using r Pair assms(4) by auto
      have inv': "bw_inv s'" using s' b(1) block_size_gt by (simp add: bw_inv_def)
      obtain bs d1 where bs: "written (bw_writer s) = base @ bs" "\<forall>b \<in> set bs. length b = PROXMOX_TAPE_BLOCK_SIZE"
        "chain 0 bs = Some (d1, bw_seq_nr s)" "d = d1 @ take (buffer_pos s) (payload (bw_buffer s))"
        using assms(1) by (auto simp: holds_def)
      have "intact w" "written w = base @ bs @ [block_bytes b]"
        using written_block [of "bw_writer s" "block_bytes b" leom w] assms(1) Pair Inr bs(1) by (auto simp: holds_def)
      moreover have "chain 0 (bs @ [block_bytes b]) = Some (d1 @ p, next_seq (bw_seq_nr s))"
        using chain_append [OF bs(3), of "[block_bytes b]"] b p(1) by simp
      ultimately have "holds base s' (d @ x)"
        unfolding holds_def using inv' bs(2,4) s'(2) b(3) p(2) by (intro conjI exI [of _ "bs @ [block_bytes b]"] exI [of _ "d1 @ p"]) auto
      then show ?thesis using s' inv' by simp
    qed
  qed
qed

lemma write_holds:
  assumes "holds base s d" "data \<noteq> []"
  shows "\<exists>r s'. bw_write dev data s = Some (r, s') \<and> bw_inv s' \<and>
    (case r of Inl e \<Rightarrow> True | Inr n \<Rightarrow> 0 < n \<and> n \<le> length data \<and> holds base s' (d @ take n data))"
proof -
  have inv: "bw_inv s" using assms(1) by (simp add: holds_def)
  define rest where "rest = PROXMOX_TAPE_BLOCK_SIZE - 16 - buffer_pos s"
  define n where "n = (if length data < rest then length data else rest)"
  define s1 where "s1 = s\<lparr>bw_buffer := (bw_buffer s)\<lparr>payload := overwrite (buffer_pos s) (take n data) (payload (bw_buffer s))\<rparr>\<rparr>"
  have len: "length (payload (bw_buffer s)) = PROXMOX_TAPE_BLOCK_SIZE - 16" "buffer_pos s < PROXMOX_TAPE_BLOCK_SIZE - 16"
    using inv by (simp_all add: bw_inv_def wf_block_def)
  have n: "0 < n" "n \<le> length data" "n \<le> rest" using assms(2) len by (auto simp: n_def rest_def)
  have eq: "bw_write dev data s = Some (if rest - n = 0 then bw_flush dev n s1 else (Ok n, s1\<lparr>buffer_pos := buffer_pos s + n\<rparr>))"
    using assms(2) len unfolding bw_write_def Let_def s1_def n_def rest_def len(1) by simp
  show ?thesis
  proof (cases "rest - n = 0")
    case True
    obtain r s' where f: "bw_flush dev n s1 = (r, s')" by fastforce
    have "bw_inv s' \<and> (case r of Inl e \<Rightarrow> True | Inr m \<Rightarrow> m = n \<and> holds base s' (d @ take n data))"
      by (rule flush_holds [OF assms(1) refl _ f [unfolded s1_def]]) (use True n len in \<open>simp add: rest_def\<close>)
    then show ?thesis using eq f n True by (cases r) auto
  next
    case False
    let ?s' = "s1\<lparr>buffer_pos := buffer_pos s + n\<rparr>"
    have "bw_inv ?s'" using inv False n len by (simp add: bw_inv_def s1_def wf_block_def length_overwrite rest_def)
    moreover have "holds base ?s' (d @ take n data)"
      using assms(1) calculation len n by (auto simp: holds_def s1_def overwrite_def)
    ultimately show ?thesis using eq n False by simp
  qed
qed

lemma write_all_holds:
  "holds base s d \<Longrightarrow> \<exists>r s'. bw_write_all dev data s = Some (r, s') \<and> bw_inv s' \<and>
     (case r of Inl e \<Rightarrow> True | Inr l \<Rightarrow> l = bw_leom s' \<and> holds base s' (d @ data))"
proof (induction "length data" arbitrary: data s d rule: less_induct)
  case less
  show ?case
  proof (cases "data = []")
    case True
    then show ?thesis using less.prems by (auto simp: bw_write_all.simps holds_def)
  next
    case False
    obtain r s1 where 1: "bw_write dev data s = Some (r, s1)" "bw_inv s1"
      "case r of Inl e \<Rightarrow> True | Inr n \<Rightarrow> 0 < n \<and> n \<le> length data \<and> holds base s1 (d @ take n data)"
      using write_holds [OF less.prems False] by blast
    show ?thesis
    proof (cases r)
      case (Inl e)
      then show ?thesis using 1 False by (subst bw_write_all.simps) simp
    next
      case (Inr n)
      then have "length (drop n data) < length data" "holds base s1 (d @ take n data)" using 1(3) by auto
      from less.hyps [OF this, unfolded append_assoc append_take_drop_id] show ?thesis using 1(1) Inr False by (subst bw_write_all.simps) simp
    qed
  qed
qed

lemma finish_holds:
  assumes "holds base s d" "bw_finish dev inc s = (Ok l, s')"
  shows "intact (bw_writer s') \<and> (\<exists>bs. written (bw_writer s') = base @ bs \<and> stream_of 0 bs = Some (d, inc) \<and> (\<forall>b \<in> set bs. length b = PROXMOX_TAPE_BLOCK_SIZE))"
proof -
  have inv: "bw_inv s" "intact (bw_writer s)" using assms(1) by (auto simp: holds_def)
  define p where "p = take (buffer_pos s) (payload (bw_buffer s)) @ replicate (length (payload (bw_buffer s)) - buffer_pos s) 0"
  define f where "f = (if inc then END_OF_STREAM OR INCOMPLETE else END_OF_STREAM)"
  define b where "b = set_seq_nr (bw_seq_nr s) (set_size (buffer_pos s) ((bw_buffer s)\<lparr>payload := p, bflags := f\<rparr>))"
  have p: "length p = PROXMOX_TAPE_BLOCK_SIZE - 16" "buffer_pos s \<le> length p" "take (buffer_pos s) p = take (buffer_pos s) (payload (bw_buffer s))"
    using inv by (auto simp: p_def bw_inv_def wf_block_def)
  note b = written_header [OF inv(1) b_def p(1,2) disjI2, unfolded f_def flag_simps, OF TrueI]
  have i: "has_flag INCOMPLETE b = inc" using flag_simps(3) [of inc "bw_buffer s"] by (simp add: b_def has_flag_def f_def)
  obtain w w' where w: "write_block dev (block_bytes b) (bw_writer s) = (Ok l, w)" "write_filemark dev w = (Ok (), w')" "bw_writer s' = w'"
    using assms(2) unfolding bw_finish_def bw_write_eof_def Let_def p_def [symmetric] f_def [symmetric] b_def [symmetric]
    by (auto split: sum.splits prod.splits if_splits)
  obtain bs d1 where bs: "written (bw_writer s) = base @ bs" "\<forall>b \<in> set bs. length b = PROXMOX_TAPE_BLOCK_SIZE"
    "chain 0 bs = Some (d1, bw_seq_nr s)" "d = d1 @ take (buffer_pos s) (payload (bw_buffer s))"
    using assms(1) by (auto simp: holds_def)
  have "intact (bw_writer s')" "written (bw_writer s') = base @ bs @ [block_bytes b]"
    using written_block [OF inv(2) w(1)] written_filemark [of w "()"] w(2,3) bs(1) by auto
  moreover have "stream_of 0 (bs @ [block_bytes b]) = Some (d, inc)"
    using stream_of_append [OF bs(3), of "[block_bytes b]"] b bs(4) p(3) i by simp
  ultimately show ?thesis using bs(2) b(3) by (intro conjI exI [of _ "bs @ [block_bytes b]"]) auto
qed

end

section \<open>The reader\<close>

definition buf_ok :: "BlockHeader \<Rightarrow> bool" where
  "buf_ok b \<longleftrightarrow> length (block_bytes b) = PROXMOX_TAPE_BLOCK_SIZE \<and> length (payload b) = PROXMOX_TAPE_BLOCK_SIZE - 16"

lemma buf_ok_new: "buf_ok BlockHeader_new"
  using length_block_bytes [OF wf_block_new] wf_block_new by (simp add: buf_ok_def wf_block_def)

lemma block_bytes_of_bytes: "length d = PROXMOX_TAPE_BLOCK_SIZE \<Longrightarrow> block_bytes (block_of_bytes d) = d"
proof -
  assume d: "length d = PROXMOX_TAPE_BLOCK_SIZE"
  have l: "16 < length d" using d block_size_gt by simp
  have "drop 12 d = slice 12 4 d @ drop 16 d" using append_take_drop_id [of 4 "drop 12 d"] by (simp add: slice_def)
  moreover have "drop 9 d = slice 9 3 d @ drop 12 d" using append_take_drop_id [of 3 "drop 9 d"] by (simp add: slice_def)
  moreover have "drop 8 d = d ! 8 # drop 9 d" using l Cons_nth_drop_Suc [of 8 d] by simp
  ultimately show ?thesis by (simp add: block_bytes_def block_of_bytes_def) (metis append_take_drop_id)
qed

lemma buf_ok_of_bytes: "length d = PROXMOX_TAPE_BLOCK_SIZE \<Longrightarrow> buf_ok (block_of_bytes d)"
  by (simp add: buf_ok_def block_bytes_of_bytes) (simp add: block_of_bytes_def)

lemma block_of_block_bytes: "buf_ok b \<Longrightarrow> length (bmagic b) = 8 \<Longrightarrow> length (bsize b) = 3 \<Longrightarrow> block_of_bytes (block_bytes b) = b"
  using block_size_gt(1) by (cases b) (auto simp: buf_ok_def block_of_bytes_def block_bytes_def slice_def nth_append)

lemma check_buffer_Ok:
  "check_buffer b k = Ok (n, e) \<Longrightarrow> n = header_block_size b \<and> n \<le> length (payload b) \<and> e = has_flag END_OF_STREAM b \<and> (0 < n \<or> e)"
  by (auto simp: check_buffer_def split: if_splits)

text \<open>The state of a reader in the middle of a stream: \<open>unread s\<close> is what is left of the block in its buffer.\<close>

definition unread :: "'r BlockedReader \<Rightarrow> bytes" where
  "unread s = drop (read_pos s) (take (header_block_size (br_buffer s)) (payload (br_buffer s)))"

definition br_inv :: "'r BlockedReader \<Rightarrow> bool" where
  "br_inv s \<longleftrightarrow> \<not> read_error s \<and> buf_ok (br_buffer s) \<and> header_block_size (br_buffer s) \<le> PROXMOX_TAPE_BLOCK_SIZE - 16 \<and>
     read_pos s \<le> header_block_size (br_buffer s) \<and> got_eod s = found_end_marker s"

definition stream_left :: "'r BlockedReader \<Rightarrow> bytes list \<Rightarrow> (bytes \<times> bool) option" where
  "stream_left s bs =
     (if got_eod s then Some (unread s, br_incomplete s)
      else map_option (\<lambda>(d, i). (unread s @ d, i)) (stream_of (br_seq_nr s) bs))"

lemma length_unread: "br_inv s \<Longrightarrow> length (unread s) = header_block_size (br_buffer s) - read_pos s"
  by (auto simp: br_inv_def unread_def buf_ok_def)

context block_in
begin

definition before :: "'r BlockedReader \<Rightarrow> bytes list \<Rightarrow> bool" where
  "before s bs \<longleftrightarrow> br_inv s \<and> (got_eod s \<or> at (br_reader s) bs)"

text \<open>What the next block does to the reader, in one place.\<close>

lemma read_block_cases:
  assumes "before s bs" "\<not> got_eod s"
  obtains (good) n s' bs' where "br_read_block rd True s = (Ok n, s')" "before s' bs'" "read_pos s' = 0" "n = header_block_size (br_buffer s')"
      "stream_of (br_seq_nr s) bs = stream_left s' bs'" "0 < n \<or> got_eod s'"
    | (bad) e s' where "br_read_block rd True s = (Err e, s')" "stream_of (br_seq_nr s) bs = None"
proof (cases bs)
  case Nil
  obtain r' where r': "rd (block_bytes (br_buffer s)) (br_reader s) = (Err EndOfFile, block_bytes (br_buffer s), r')"
    using read_eof [of "br_reader s" "block_bytes (br_buffer s)"] assms Nil block_size_gt by (fastforce simp: before_def br_inv_def buf_ok_def)
  then show ?thesis using bad assms Nil by (simp add: br_read_block_def read_block_frame_def Let_def before_def br_inv_def)
next
  case (Cons b bs')
  let ?c = "block_of_bytes b"
  obtain r' where r': "rd (block_bytes (br_buffer s)) (br_reader s) = (Ok PROXMOX_TAPE_BLOCK_SIZE, b, r')" "at r' bs'"
    using read_next [of "br_reader s" b bs'] assms Cons by (auto simp: before_def br_inv_def buf_ok_def)
  have c: "buf_ok ?c" using at_length [of "br_reader s" bs b] assms Cons by (intro buf_ok_of_bytes) (simp add: before_def)
  have frame: "read_block_frame rd (br_buffer s) (br_reader s) = (Ok (), ?c, r')" using r'(1) by (simp add: read_block_frame_def)
  show ?thesis
  proof (cases "check_buffer ?c (br_seq_nr s)")
    case (Inl e)
    then show ?thesis using bad frame Cons by (simp add: br_read_block_def)
  next
    case (Inr p)
    then obtain n e where p: "check_buffer ?c (br_seq_nr s) = Ok (n, e)" by (cases p) auto
    note n = check_buffer_Ok [OF p]
    let ?s = "s\<lparr>br_buffer := ?c, br_seq_nr := next_seq (br_seq_nr s)\<rparr>"
    show ?thesis
    proof (cases e)
      case False
      let ?s' = "?s\<lparr>br_reader := r', read_pos := 0\<rparr>"
      have "br_read_block rd True s = (Ok n, ?s')" using frame p False by (simp add: br_read_block_def)
      moreover have "before ?s' bs'" using assms r' c n by (simp add: before_def br_inv_def buf_ok_def)
      moreover have "stream_of (br_seq_nr s) bs = stream_left ?s' bs'" using p False n Cons assms by (simp add: stream_left_def unread_def)
      ultimately show ?thesis using good [of n ?s' bs'] n False by simp
    next
      case True
      show ?thesis
      proof (cases bs')
        case Nil
        obtain r2 where "rd (replicate 512 0) r' = (Err EndOfFile, replicate 512 0, r2)"
          using read_eof [of r' "replicate 512 0"] r'(2) Nil by auto
        then have eof: "consume_eof_marker rd r' = (Ok (), r2)" by (simp add: consume_eof_marker_def)
        let ?s' = "?s\<lparr>br_reader := r2, found_end_marker := True, br_incomplete := has_flag INCOMPLETE ?c, got_eod := True, read_pos := 0\<rparr>"
        have "br_read_block rd True s = (Ok n, ?s')" using frame p True eof by (simp add: br_read_block_def)
        moreover have "before ?s' []" using assms c n by (simp add: before_def br_inv_def buf_ok_def)
        moreover have "stream_of (br_seq_nr s) bs = stream_left ?s' []" using p True n Cons Nil by (simp add: stream_left_def unread_def)
        ultimately show ?thesis using good [of n ?s' "[]"] n by simp
      next
        case (Cons b2 bs2)
        then have "fst (rd (replicate 512 0) r') \<noteq> Err EndOfFile" using read_more [of r' b2 bs2] r'(2) by simp
        moreover obtain q x r2 where q: "rd (replicate 512 0) r' = (q, x, r2)" by (cases "rd (replicate 512 0) r'") auto
        ultimately obtain e2 where "consume_eof_marker rd r' = (Err e2, r2)"
          by (cases q rule: sum.exhaust; cases "projl q") (auto simp: consume_eof_marker_def)
        then show ?thesis using bad frame p True Cons \<open>bs = b # bs'\<close> by (simp add: br_read_block_def)
      qed
    qed
  qed
qed

lemma read_cases:
  assumes "before s bs" "0 < n"
  obtains (good) x s' bs' where "br_read rd n s = Some (Ok x, s')" "before s' bs'" "length x \<le> n" "x = [] \<longrightarrow> got_eod s' \<and> unread s' = []"
      "stream_left s bs = map_option (\<lambda>(d, i). (x @ d, i)) (stream_left s' bs')"
    | (bad) e s' where "br_read rd n s = Some (Err e, s')" "stream_left s bs = None"
proof -
  note inv = assms(1) [unfolded before_def, THEN conjunct1]
  have copy: thesis if r: "before s1 bs1" "stream_left s bs = stream_left s1 bs1" "rest = length (unread s1)" "unread s1 \<noteq> [] \<or> got_eod s1"
    "br_read rd n s = (if rest = 0 then Some (Ok [], s1) else let copy_len = (if n < rest then n else rest)
       in if length (payload (br_buffer s1)) < read_pos s1 + copy_len then None
          else Some (Ok (slice (read_pos s1) copy_len (payload (br_buffer s1))), s1\<lparr>read_pos := read_pos s1 + copy_len\<rparr>))" for s1 bs1 rest
  proof (cases "rest = 0")
    case True
    then show ?thesis using good [of "[]" s1 bs1] r by (auto simp: option.map_ident_strong case_prod_unfold)
  next
    case False
    define m where "m = (if n < rest then n else rest)"
    have i: "br_inv s1" using r(1) by (simp add: before_def)
    note l = length_unread [OF i]
    have m: "0 < m" "m \<le> n" "m \<le> rest" "read_pos s1 + m \<le> header_block_size (br_buffer s1)" using False assms(2) r(3) l by (auto simp: m_def)
    have p: "header_block_size (br_buffer s1) \<le> length (payload (br_buffer s1))" using i by (simp add: br_inv_def buf_ok_def)
    let ?x = "slice (read_pos s1) m (payload (br_buffer s1))" and ?s' = "s1\<lparr>read_pos := read_pos s1 + m\<rparr>"
    have x: "?x = take m (unread s1)" using m p by (simp add: slice_def unread_def drop_take min_def)
    have "br_read rd n s = Some (Ok ?x, ?s')" using r(5) False m p unfolding m_def [symmetric] Let_def by simp
    moreover have "before ?s' bs1" using r(1) m(4) by (auto simp: before_def br_inv_def)
    moreover have u: "unread s1 = ?x @ unread ?s'" unfolding x by (simp add: unread_def add.commute flip: drop_drop)
    have "stream_left s bs = map_option (\<lambda>(d, i). (?x @ d, i)) (stream_left ?s' bs1)"
      unfolding r(2) by (auto simp: stream_left_def u option.map_comp o_def case_prod_unfold)
    moreover have "?x \<noteq> []" "length ?x \<le> n" using m p unfolding slice_def by auto
    ultimately show ?thesis using good [of ?x ?s' bs1] by blast
  qed
  show ?thesis
  proof (cases "header_block_size (br_buffer s) \<le> read_pos s \<and> \<not> got_eod s")
    case False
    note l = length_unread [OF inv]
    show ?thesis
    proof (rule copy [OF assms(1) refl refl])
      show "unread s \<noteq> [] \<or> got_eod s" using False l by auto
    qed (use False l inv in \<open>auto simp: br_read_def br_inv_def\<close>)
  next
    case True
    then have u: "unread s = []" using length_unread [OF inv] by simp
    then have left: "stream_left s bs = stream_of (br_seq_nr s) bs" using True by (simp add: stream_left_def option.map_ident_strong case_prod_unfold)
    have "br_read rd n s = (case br_read_block rd True s of (r, s1) \<Rightarrow> case r of
        Inl e \<Rightarrow> Some (Err e, s1\<lparr>read_error := True\<rparr>)
      | Inr sz \<Rightarrow> if sz = 0 then Some (Ok [], s1) else let copy_len = (if n < sz then n else sz)
          in if length (payload (br_buffer s1)) < read_pos s1 + copy_len then None
             else Some (Ok (slice (read_pos s1) copy_len (payload (br_buffer s1))), s1\<lparr>read_pos := read_pos s1 + copy_len\<rparr>))"
      using True inv by (simp add: br_read_def br_inv_def Let_def split: prod.split sum.split)
    note read = this
    from assms(1) conjunct2 [OF True] show ?thesis
    proof (cases rule: read_block_cases [consumes 2, case_names good bad])
      case (good m s' bs')
      have i: "br_inv s'" using good(2) by (simp add: before_def)
      have "m = length (unread s')" using length_unread [OF i] good by simp
      then show ?thesis using good left length_unread [OF i] read by (intro copy [of s' bs' m]) auto
    next
      case (bad e s')
      then show ?thesis using read left by (intro that(2)) auto
    qed
  qed
qed

text \<open>\<open>delivers i s d\<close>: the reader will hand out \<open>d\<close> and then report the end, with the flag \<open>i\<close>.\<close>

definition delivers :: "bool \<Rightarrow> 'r BlockedReader \<Rightarrow> bytes \<Rightarrow> bool" where
  "delivers i s d \<longleftrightarrow> (\<exists>bs. before s bs \<and> stream_left s bs = Some (d, i))"

definition ended :: "bool \<Rightarrow> 'r BlockedReader \<Rightarrow> bool" where
  "ended i s \<longleftrightarrow> is_incomplete s = Ok i \<and> has_end_marker s = Ok True"

lemma ended_eod: "before s bs \<Longrightarrow> got_eod s \<Longrightarrow> ended (br_incomplete s) s"
  by (simp add: ended_def before_def br_inv_def is_incomplete_def has_end_marker_def)

lemma open_cases:
  assumes "at r bs"
  obtains (good) s bs' where "br_open rd r = Ok s" "before s bs'" "stream_of 0 bs = stream_left s bs'"
    | (bad) e where "br_open rd r = Err e" "stream_of 0 bs = None"
proof (cases bs)
  case Nil
  then show ?thesis
    using that(2) read_eof [of r "block_bytes BlockHeader_new"] assms buf_ok_new block_size_gt
    by (fastforce simp: br_open_def read_block_frame_def buf_ok_def)
next
  case (Cons b bs')
  define s where "s = \<lparr>br_reader = r, br_buffer = BlockHeader_new, br_seq_nr = 0, found_end_marker = False, br_incomplete = False,
    got_eod = False, read_error = False, read_pos = 0\<rparr>"
  have size0: "header_block_size BlockHeader_new = 0" by (simp add: header_block_size_def BlockHeader_new_def)
  have s: "before s bs" "\<not> got_eod s"
    using assms buf_ok_new by (simp_all add: before_def br_inv_def s_def size0)
  obtain r' where "rd (block_bytes BlockHeader_new) r = (Ok PROXMOX_TAPE_BLOCK_SIZE, b, r')"
    using read_next [of r b bs' "block_bytes BlockHeader_new"] assms buf_ok_new Cons by (auto simp: buf_ok_def)
  then have frame: "read_block_frame rd BlockHeader_new r = (Ok (), block_of_bytes b, r')" by (simp add: read_block_frame_def)
  have eq: "br_open rd r = (case q of Inl e \<Rightarrow> Err (IoError e) | Inr n \<Rightarrow> Ok s')" if "br_read_block rd True s = (q, s')" for q s'
    using that frame by (auto simp: br_read_block_def br_open_def s_def next_seq_def Let_def split: sum.splits prod.splits if_splits)
  from s show ?thesis
  proof (cases rule: read_block_cases [consumes 2, case_names good bad])
    case (good n s' bs'')
    then show ?thesis using that(1) [OF _ good(2)] eq [OF good(1)] by (simp add: s_def)
  next
    case (bad e s')
    then show ?thesis using that(2) eq [OF bad(1)] by (simp add: s_def)
  qed
qed

text \<open>A stream that is complete is opened and delivered.\<close>

lemma open_delivers: "at r bs \<Longrightarrow> stream_of 0 bs = Some (d, i) \<Longrightarrow> \<exists>s. br_open rd r = Ok s \<and> delivers i s d"
  by (erule open_cases) (auto simp: delivers_def)

text \<open>Conversely what was read to the end was a complete stream.\<close>

lemma read_up_to_complete:
  "before s bs \<Longrightarrow> read_up_to (br_read rd) n s = Some (Ok d, s') \<Longrightarrow> length d < n \<Longrightarrow> \<exists>i. stream_left s bs = Some (d, i) \<and> ended i s'"
proof (induction n arbitrary: s bs d rule: less_induct)
  case (less n)
  have n: "0 < n" using less.prems(3) by simp
  from less.prems(1) n show ?case
  proof (cases rule: read_cases [consumes 2, case_names good bad])
    case (good x s1 bs1)
    show ?thesis
    proof (cases "x = []")
      case True
      then have "d = []" "s' = s1" using less.prems(2) good(1) n by (simp_all add: read_up_to.simps [of _ n])
      then show ?thesis using good True ended_eod [OF good(2)] by (auto simp: stream_left_def)
    next
      case False
      then obtain d1 where d1: "read_up_to (br_read rd) (n - length x) s1 = Some (Ok d1, s')" "d = x @ d1"
        using less.prems(2) good(1) n by (auto simp: read_up_to.simps [of _ n s] bind_eq_Some_conv map_sum_Inr)
      have "n - length x < n" using False n by (cases x) auto
      from less.IH [OF this good(2) d1(1)] show ?thesis using good(5) d1(2) less.prems(3) by auto
    qed
  next
    case (bad e s1)
    then show ?thesis using less.prems(2) n by (simp add: read_up_to.simps [of _ n])
  qed
qed

end

sublocale block_in \<subseteq> blocked: byte_stream "br_read rd" "delivers i" "ended i" for i
proof
  fix s d n assume "delivers i s d" "0 < (n::nat)"
  then obtain bs where bs: "before s bs" "stream_left s bs = Some (d, i)" by (auto simp: delivers_def)
  from bs(1) \<open>0 < n\<close>
  show "\<exists>x s' d'. br_read rd n s = Some (Ok x, s') \<and> d = x @ d' \<and> length x \<le> n \<and> delivers i s' d' \<and> (if d = [] then ended i s' else x \<noteq> [])"
  proof (cases rule: read_cases [consumes 2, case_names good bad])
    case (good x s' bs')
    then have "map_option (\<lambda>(d, i). (x @ d, i)) (stream_left s' bs') = Some (d, i)" using bs(2) by simp
    then obtain d' where d': "stream_left s' bs' = Some (d', i)" "d = x @ d'" by auto
    have "x = [] \<Longrightarrow> d' = [] \<and> ended i s'" using good d' ended_eod [OF good(2)] by (auto simp: stream_left_def)
    then show ?thesis using good d' by (auto simp: delivers_def)
  next
    case bad
    then show ?thesis using bs(2) by simp
  qed
qed

section \<open>The emulated tape keeps the promise\<close>

text \<open>
  \<open>emulated_file\<close> is what the emulation relies on: \<^verbatim>\<open>write_all\<close> of the file appends, and \<^verbatim>\<open>read_exact_or_eof\<close> fills the buffer
  from the file, tells its end, and does not take a short rest for the end.
\<close>

locale emulated_file =
  fixes wr :: "bytes \<Rightarrow> 'f \<Rightarrow> (err, unit) result \<times> 'f" and reof :: "bytes \<Rightarrow> 'g \<Rightarrow> (err, bool) result \<times> bytes \<times> 'g"
    and content :: "'f \<Rightarrow> bytes" and left :: "'g \<Rightarrow> bytes" and reopen :: "'f \<Rightarrow> 'g"
  assumes wr_appends: "wr d f = (Ok u, f') \<Longrightarrow> content f' = content f @ d"
    and reof_fills: "buf \<noteq> [] \<Longrightarrow> length buf \<le> length (left g) \<Longrightarrow>
        \<exists>g'. reof buf g = (Ok True, take (length buf) (left g), g') \<and> left g' = drop (length buf) (left g)"
    and reof_eof: "buf \<noteq> [] \<Longrightarrow> left g = [] \<Longrightarrow> \<exists>g'. reof buf g = (Ok False, buf, g')"
    and reof_short: "buf \<noteq> [] \<Longrightarrow> left g \<noteq> [] \<Longrightarrow> fst (reof buf g) \<noteq> Ok False"
    and left_reopen: "left (reopen f) = content f"

text \<open>A file in memory, as in the tests of the repository: a vector is written and a slice is read.\<close>

definition vec_write_all :: "bytes \<Rightarrow> bytes \<Rightarrow> (err, unit) result \<times> bytes" where
  "vec_write_all d f = (Ok (), f @ d)"

definition slice_read_exact_or_eof :: "bytes \<Rightarrow> bytes \<Rightarrow> (err, bool) result \<times> bytes \<times> bytes" where
  "slice_read_exact_or_eof buf g =
     (if length buf \<le> length g then (Ok True, take (length buf) g, drop (length buf) g)
      else if g = [] then (Ok False, buf, g)
      else (Err ''failed to fill whole buffer'', g @ drop (length g) buf, []))"

interpretation vec: emulated_file vec_write_all slice_read_exact_or_eof id id id
  by unfold_locales (auto simp: vec_write_all_def slice_read_exact_or_eof_def)

fun blocks_of :: "nat \<Rightarrow> bytes \<Rightarrow> bytes list" where
  "blocks_of 0 d = []"
| "blocks_of (Suc n) d = take PROXMOX_TAPE_BLOCK_SIZE d # blocks_of n (drop PROXMOX_TAPE_BLOCK_SIZE d)"

lemma blocks_of_append:
  "length d = n * PROXMOX_TAPE_BLOCK_SIZE \<Longrightarrow> blocks_of (n + m) (d @ e) = blocks_of n d @ blocks_of m e"
  by (induction n arbitrary: d) simp_all

lemma concat_blocks_of: "length d = n * PROXMOX_TAPE_BLOCK_SIZE \<Longrightarrow> concat (blocks_of n d) = d"
  by (induction n arbitrary: d) simp_all

lemma concat_blocks: "(\<forall>b \<in> set bs. length b = PROXMOX_TAPE_BLOCK_SIZE) \<Longrightarrow> length (concat bs) = length bs * PROXMOX_TAPE_BLOCK_SIZE"
  by (induction bs) simp_all

context emulated_file
begin

text \<open>The blocks of the file, which never stop within a block if all writes so far succeeded.\<close>

definition tape_blocks :: "'f EmulateTapeWriter \<Rightarrow> bytes list" where
  "tape_blocks w = blocks_of (length (content (ew_writer w)) div PROXMOX_TAPE_BLOCK_SIZE) (content (ew_writer w))"

definition tape_at :: "'g EmulateTapeReader \<Rightarrow> bytes list \<Rightarrow> bool" where
  "tape_at r bs \<longleftrightarrow> \<not> er_got_eof r \<and> left (er_reader r) = concat bs \<and> (\<forall>b \<in> set bs. length b = PROXMOX_TAPE_BLOCK_SIZE)"

lemma read_nonempty: "tape_at r (b # bs) \<Longrightarrow> left (er_reader r) \<noteq> []"
  using block_size_gt(1) by (auto simp: tape_at_def)

lemma tape_blocks_step:
  assumes "PROXMOX_TAPE_BLOCK_SIZE dvd length (content (ew_writer w))" "emulate_write_block wr b w = (Ok l, w')"
  shows "PROXMOX_TAPE_BLOCK_SIZE dvd length (content (ew_writer w')) \<and> tape_blocks w' = tape_blocks w @ [b]"
proof -
  obtain f where f: "wr b (ew_writer w) = (Ok (), f)" "ew_writer w' = f" "length b = PROXMOX_TAPE_BLOCK_SIZE"
    using assms(2) by (auto simp: emulate_write_block_def split: if_splits sum.splits prod.splits)
  obtain n where n: "length (content (ew_writer w)) = n * PROXMOX_TAPE_BLOCK_SIZE" using assms(1) by (metis dvd_div_mult_self)
  have c: "content (ew_writer w') = content (ew_writer w) @ b" using wr_appends [OF f(1)] f(2) by simp
  have "length (content (ew_writer w')) div PROXMOX_TAPE_BLOCK_SIZE = n + 1"
    using n f(3) c block_size_gt(1) by (simp add: div_mult_self4 flip: mult_Suc)
  moreover have "length (content (ew_writer w)) div PROXMOX_TAPE_BLOCK_SIZE = n" using n block_size_gt(1) by simp
  ultimately have "tape_blocks w' = tape_blocks w @ [b]"
    using blocks_of_append [OF n, of 1 b] f(3) c by (simp add: tape_blocks_def)
  then show ?thesis using c assms(1) f(3) by simp
qed

lemma concat_tape_blocks:
  "PROXMOX_TAPE_BLOCK_SIZE dvd length (content (ew_writer w)) \<Longrightarrow> concat (tape_blocks w) = content (ew_writer w)"
  unfolding tape_blocks_def by (rule concat_blocks_of) simp

end

sublocale emulated_file \<subseteq> emu: block_tape "emulate_write wr" "\<lambda>w. PROXMOX_TAPE_BLOCK_SIZE dvd length (content (ew_writer w))" tape_blocks
    "emulate_read_block reof" tape_at "\<lambda>w. EmulateTapeReader_new (reopen (ew_writer w))"
proof
  fix w b l w'
  assume "PROXMOX_TAPE_BLOCK_SIZE dvd length (content (ew_writer w))" "write_block (emulate_write wr) b w = (Ok l, w')"
  then show "PROXMOX_TAPE_BLOCK_SIZE dvd length (content (ew_writer w')) \<and> tape_blocks w' = tape_blocks w @ [b]"
    by (simp add: emulate_write_def tape_blocks_step)
next
  fix w u w'
  assume "PROXMOX_TAPE_BLOCK_SIZE dvd length (content (ew_writer w))" "write_filemark (emulate_write wr) w = (Ok u, w')"
  then show "PROXMOX_TAPE_BLOCK_SIZE dvd length (content (ew_writer w')) \<and> tape_blocks w' = tape_blocks w"
    by (auto simp: emulate_write_def emulate_write_filemark_def tape_blocks_def split: if_splits)
next
  fix r b bs and buf :: bytes
  assume r: "tape_at r (b # bs)" and buf: "length buf = PROXMOX_TAPE_BLOCK_SIZE"
  then have "buf \<noteq> []" "length buf \<le> length (left (er_reader r))" using block_size_gt(1) by (auto simp: tape_at_def)
  then show "\<exists>r'. emulate_read_block reof buf r = (Ok PROXMOX_TAPE_BLOCK_SIZE, b, r') \<and> tape_at r' bs"
    using reof_fills [of buf "er_reader r"] r buf by (auto simp: emulate_read_block_def tape_at_def)
next
  fix r b bs and buf :: bytes
  assume "tape_at r (b # bs)" "buf \<noteq> []"
  then show "fst (emulate_read_block reof buf r) \<noteq> Err EndOfFile"
    using reof_short [of buf "er_reader r"] read_nonempty [of r b bs]
    by (auto simp: emulate_read_block_def tape_at_def split: sum.splits prod.splits bool.splits)
next
  fix r and buf :: bytes
  assume "tape_at r []" "buf \<noteq> []"
  then show "\<exists>r'. emulate_read_block reof buf r = (Err EndOfFile, buf, r')"
    using reof_eof [of buf "er_reader r"] by (auto simp: emulate_read_block_def tape_at_def)
next
  fix r bs b assume "tape_at r bs" "b \<in> set bs"
  then show "length b = PROXMOX_TAPE_BLOCK_SIZE" by (simp add: tape_at_def)
next
  fix w assume "PROXMOX_TAPE_BLOCK_SIZE dvd length (content (ew_writer w))" "\<forall>b \<in> set (tape_blocks w). length b = PROXMOX_TAPE_BLOCK_SIZE"
  then show "tape_at (EmulateTapeReader_new (reopen (ew_writer w))) (tape_blocks w)"
    by (simp add: tape_at_def EmulateTapeReader_new_def left_reopen concat_tape_blocks)
qed

section \<open>Properties\<close>

fun write_pieces :: "'w block_write \<Rightarrow> bytes list \<Rightarrow> 'w BlockedWriter \<Rightarrow> ((err, unit) result \<times> 'w BlockedWriter) option" where
  "write_pieces dev [] s = Some (Ok (), s)"
| "write_pieces dev (p # ps) s =
     Option.bind (bw_write_all dev p s) (\<lambda>(r, s'). case r of Inl e \<Rightarrow> Some (Err e, s') | Inr _ \<Rightarrow> write_pieces dev ps s')"

context block_tape
begin

lemma write_pieces_holds:
  "holds base s d \<Longrightarrow> write_pieces dev ps s = Some (Ok (), s') \<Longrightarrow> holds base s' (d @ concat ps)"
proof (induction ps arbitrary: s d)
  case (Cons p ps)
  obtain r s1 where 1: "bw_write_all dev p s = Some (r, s1)" "case r of Inl e \<Rightarrow> True | Inr l \<Rightarrow> l = bw_leom s1 \<and> holds base s1 (d @ p)"
    using write_all_holds [OF Cons.prems(1)] by blast
  obtain l where "r = Ok l" using Cons.prems(2) 1 by (cases r) auto
  then show ?case using Cons.IH [of s1 "d @ p"] Cons.prems(2) 1 by simp
qed simp

lemma tape_round_trip:
  assumes "intact w" "written w = []" "write_pieces dev ps (BlockedWriter_new w) = Some (Ok (), w1)" "bw_finish dev inc w1 = (Ok l, w2)"
  shows "\<exists>s. br_open rd (rewind (bw_writer w2)) = Ok s \<and> delivers inc s (concat ps)"
proof -
  have "holds [] w1 (concat ps)" using write_pieces_holds [OF holds_new assms(3)] assms(1,2) by simp
  from finish_holds [OF this assms(4)] obtain bs where "intact (bw_writer w2)" "written (bw_writer w2) = bs" "stream_of 0 bs = Some (concat ps, inc)"
    "\<forall>b \<in> set bs. length b = PROXMOX_TAPE_BLOCK_SIZE" by auto
  then show ?thesis using open_delivers [OF at_rewind] by simp
qed

end

context emulated_file
begin

lemma stream_round_trip:
  assumes "content f = []" "write_pieces (emulate_write wr) ps (BlockedWriter_new (EmulateTapeWriter_new f max_size)) = Some (Ok (), w1)"
    "bw_finish (emulate_write wr) inc w1 = (Ok l, w2)"
  shows "\<exists>s. br_open (emulate_read_block reof) (EmulateTapeReader_new (reopen (ew_writer (bw_writer w2)))) = Ok s \<and>
    emu.delivers inc s (concat ps)"
  by (rule emu.tape_round_trip [OF _ _ assms(2,3)]) (simp_all add: EmulateTapeWriter_new_def tape_blocks_def assms(1))

lemma read_delivered:
  "emu.delivers inc s d \<Longrightarrow> \<exists>s'. read_up_to (br_read (emulate_read_block reof)) n s = Some (Ok (take n d), s') \<and>
     emu.delivers inc s' (drop n d) \<and> (length d < n \<longrightarrow> is_incomplete s' = Ok inc)"
  using emu.blocked.read_up_to_returns [of inc s d n] by (auto simp: emu.ended_def)

lemma accepts_complete:
  assumes "left g = concat bs" "\<forall>b \<in> set bs. length b = PROXMOX_TAPE_BLOCK_SIZE"
    "br_open (emulate_read_block reof) (EmulateTapeReader_new g) = Ok s"
    "read_up_to (br_read (emulate_read_block reof)) n s = Some (Ok d, s')" "length d < n"
  shows "\<exists>i. stream_of 0 bs = Some (d, i) \<and> is_incomplete s' = Ok i"
proof -
  have "tape_at (EmulateTapeReader_new g) bs" using assms(1,2) by (simp add: tape_at_def EmulateTapeReader_new_def)
  then obtain bs' where "emu.before s bs'" "stream_of 0 bs = stream_left s bs'"
    by (rule emu.open_cases) (use assms(3) in auto)
  then show ?thesis using emu.read_up_to_complete [OF _ assms(4,5)] by (auto simp: emu.ended_def)
qed

end

text \<open>
  C29. Data written to a tape is read back: when pieces of data were written through a \<^verbatim>\<open>BlockedWriter\<close> to an emulated tape
  and the stream was finished, a \<^verbatim>\<open>BlockedReader\<close> on that tape opens, a reader that asks for any number of bytes
  gets the first that many of the data, and one that asks for more than there is comes to the end and is
  told whether the stream was marked incomplete.
\<close>

theorem tape_stream_round_trip:
  assumes "emulated_file wr reof content left reopen" "content f = []"
    "write_pieces (emulate_write wr) ps (BlockedWriter_new (EmulateTapeWriter_new f max_size)) = Some (Ok (), w1)"
    "bw_finish (emulate_write wr) inc w1 = (Ok l, w2)"
  shows "\<exists>s s'. br_open (emulate_read_block reof) (EmulateTapeReader_new (reopen (ew_writer (bw_writer w2)))) = Ok s \<and>
    read_up_to (br_read (emulate_read_block reof)) n s = Some (Ok (take n (concat ps)), s') \<and>
    (length (concat ps) < n \<longrightarrow> is_incomplete s' = Ok inc)"
  using emulated_file.stream_round_trip [OF assms] emulated_file.read_delivered [OF assms(1)] by blast

text \<open>A write that does not fill the block only copies.\<close>

lemma bw_write_all_small:
  assumes "d \<noteq> []" "buffer_pos s + length d < length (payload (bw_buffer s))"
  shows "bw_write_all dev d s = Some (Ok (bw_leom s), s\<lparr>bw_buffer := (bw_buffer s)\<lparr>payload := overwrite (buffer_pos s) d (payload (bw_buffer s))\<rparr>,
      buffer_pos := buffer_pos s + length d\<rparr>)"
proof -
  have "bw_write dev d s = Some (Ok (length d), s\<lparr>bw_buffer := (bw_buffer s)\<lparr>payload := overwrite (buffer_pos s) d (payload (bw_buffer s))\<rparr>,
      buffer_pos := buffer_pos s + length d\<rparr>)"
    using assms by (auto simp: bw_write_def Let_def)
  then show ?thesis using assms(1) by (subst bw_write_all.simps) (simp add: bw_write_all.simps [of _ "[]"])
qed

lemma vec_example:
  "\<exists>w1. write_pieces (emulate_write vec_write_all) [[1], [2, 3]] (BlockedWriter_new (EmulateTapeWriter_new [] 0)) = Some (Ok (), w1) \<and>
     (\<exists>w2. bw_finish (emulate_write vec_write_all) True w1 = (Ok False, w2))"
proof -
  let ?dev = "emulate_write vec_write_all"
  have len: "length (payload BlockHeader_new) = 262128" by (simp add: BlockHeader_new_def PROXMOX_TAPE_BLOCK_SIZE_def)
  let ?p = "overwrite 1 [2, 3] (overwrite 0 [1] (payload BlockHeader_new))"
  have p: "length ?p = 262128" using len by (simp add: length_overwrite)
  let ?w = "(BlockedWriter_new (EmulateTapeWriter_new [] 0))\<lparr>bw_buffer := BlockHeader_new\<lparr>payload := ?p\<rparr>, buffer_pos := 3\<rparr>"
  have "write_pieces ?dev [[1], [2, 3]] (BlockedWriter_new (EmulateTapeWriter_new [] 0)) = Some (Ok (), ?w)"
    using len by (simp add: BlockedWriter_new_def length_overwrite bw_write_all_small)
  moreover have "\<exists>w2. bw_finish ?dev True ?w = (Ok False, w2)"
    using length_block_bytes p
    by (simp add: bw_finish_def Let_def BlockedWriter_new_def EmulateTapeWriter_new_def emulate_write_def emulate_write_block_def
        vec_write_all_def bw_write_eof_def emulate_write_filemark_def PROXMOX_TAPE_BLOCK_SIZE_def BlockHeader_new_def)
  ultimately show ?thesis by blast
qed

theorem tape_stream_round_trip_witness:
  "\<exists>(w2 :: bytes EmulateTapeWriter BlockedWriter) s s'. br_open (emulate_read_block slice_read_exact_or_eof) (EmulateTapeReader_new (ew_writer (bw_writer w2))) = Ok s \<and>
     read_up_to (br_read (emulate_read_block slice_read_exact_or_eof)) 4 s = Some (Ok [1, 2, 3], s') \<and>
     is_incomplete (s' :: bytes EmulateTapeReader BlockedReader) = Ok True"
proof -
  obtain w1 w2 where "write_pieces (emulate_write vec_write_all) [[1], [2, 3]] (BlockedWriter_new (EmulateTapeWriter_new [] 0)) = Some (Ok (), w1)"
    "bw_finish (emulate_write vec_write_all) True w1 = (Ok False, w2)"
    using vec_example by blast
  from tape_stream_round_trip [OF vec.emulated_file_axioms _ this, of 4] show ?thesis by simp blast
qed

text \<open>
  Only complete streams are accepted: if a \<^verbatim>\<open>BlockedReader\<close> opens a tape with any blocks and is read to the end
  without error, the blocks are numbered without gap from zero, all have the magic number and a size that fits,
  the last one and no other has the end marker, and the bytes read are the contents of all of them. So a
  truncated, reordered or overwritten stream is an error.
\<close>

theorem tape_reader_accepts_complete:
  assumes "emulated_file wr reof content left reopen" "left g = concat bs" "\<forall>b \<in> set bs. length b = PROXMOX_TAPE_BLOCK_SIZE"
    "br_open (emulate_read_block reof) (EmulateTapeReader_new g) = Ok s"
    "read_up_to (br_read (emulate_read_block reof)) n s = Some (Ok d, s')" "length d < n"
  shows "\<exists>i. stream_of 0 bs = Some (d, i) \<and> is_incomplete s' = Ok i"
  by (rule emulated_file.accepts_complete [OF assms])

theorem tape_reader_accepts_complete_witness:
  "\<exists>bs s (s' :: bytes EmulateTapeReader BlockedReader).
     br_open (emulate_read_block slice_read_exact_or_eof) (EmulateTapeReader_new (concat bs)) = Ok s \<and>
     read_up_to (br_read (emulate_read_block slice_read_exact_or_eof)) 4 s = Some (Ok [1, 2, 3], s') \<and>
     stream_of 0 bs = Some ([1, 2, 3], True)"
proof -
  obtain w1 w2 where w: "write_pieces (emulate_write vec_write_all) [[1], [2, 3]] (BlockedWriter_new (EmulateTapeWriter_new [] 0)) = Some (Ok (), w1)"
    "bw_finish (emulate_write vec_write_all) True w1 = (Ok False, w2)"
    using vec_example by blast
  have "vec.emu.holds [] w1 [1, 2, 3]"
    using vec.emu.write_pieces_holds [OF vec.emu.holds_new w(1)] by (simp add: EmulateTapeWriter_new_def vec.tape_blocks_def)
  from vec.emu.finish_holds [OF this w(2)] obtain bs where bs: "vec.tape_blocks (bw_writer w2) = bs" "\<forall>b \<in> set bs. length b = PROXMOX_TAPE_BLOCK_SIZE"
    "PROXMOX_TAPE_BLOCK_SIZE dvd length (ew_writer (bw_writer w2))" by auto
  have c: "ew_writer (bw_writer w2) = concat bs" using vec.concat_tape_blocks [of "bw_writer w2"] bs by simp
  obtain s s' where s: "br_open (emulate_read_block slice_read_exact_or_eof) (EmulateTapeReader_new (concat bs)) = Ok s"
    "read_up_to (br_read (emulate_read_block slice_read_exact_or_eof)) 4 s = Some (Ok [1, 2, 3], s')" "is_incomplete s' = Ok True"
    using vec.stream_round_trip [OF _ w] vec.read_delivered [of True _ "[1, 2, 3]" 4] c by fastforce
  from tape_reader_accepts_complete [OF vec.emulated_file_axioms _ bs(2) s(1,2)] s(3)
  have "stream_of 0 bs = Some ([1, 2, 3], True)" by auto
  then show ?thesis using s(1,2) by (intro exI conjI)
qed

end
