(* ===== verification/TapeArchive.thy ===== *)
theory TapeArchive
  imports TapeBlocks DataBlob
begin

text \<open>
  The archives on a tape: the header of every tape file (\<^verbatim>\<open>pbs-tape/src/lib.rs\<close>, \<^verbatim>\<open>pbs-tape/src/tape_write.rs\<close>), archives of
  chunks (\<^verbatim>\<open>src/tape/file_formats/chunk_archive.rs\<close>) with the loop that fills one (\<^verbatim>\<open>src/tape/pool_writer/mod.rs\<close>), and
  streams over several volumes (\<^verbatim>\<open>multi_volume_writer.rs\<close>, \<^verbatim>\<open>multi_volume_reader.rs\<close>). \<^verbatim>\<open>TapeWrite\<close> objects are the record
  \<open>tape_write\<close> of their methods. A writer is dropped when it is finished; the model keeps it aside, to speak of
  what is on the tape.
\<close>

section \<open>Media content headers\<close>

definition PROXMOX_BACKUP_CONTENT_HEADER_MAGIC_1_0 :: bytes where
  "PROXMOX_BACKUP_CONTENT_HEADER_MAGIC_1_0 = [99, 238, 20, 159, 205, 242, 155, 12]"

record MediaContentHeader =
  mc_magic :: bytes
  content_magic :: bytes
  mc_uuid :: bytes
  mc_ctime :: int
  mc_size :: nat
  part_number :: nat
  mc_reserved :: bytes

definition MediaContentHeader_new :: "bytes \<Rightarrow> int \<Rightarrow> bytes \<Rightarrow> nat \<Rightarrow> MediaContentHeader" where
  "MediaContentHeader_new uuid ctime magic n =
     \<lparr>mc_magic = PROXMOX_BACKUP_CONTENT_HEADER_MAGIC_1_0, content_magic = magic, mc_uuid = uuid, mc_ctime = ctime,
      mc_size = n, part_number = 0, mc_reserved = [0, 0, 0]\<rparr>"

definition content_header_check :: "bytes \<Rightarrow> nat \<Rightarrow> nat \<Rightarrow> MediaContentHeader \<Rightarrow> (err, unit) result" where
  "content_header_check magic min_size max_size m =
     (if mc_magic m \<noteq> PROXMOX_BACKUP_CONTENT_HEADER_MAGIC_1_0 then Err ''MediaContentHeader: wrong magic''
      else if content_magic m \<noteq> magic then Err ''MediaContentHeader: wrong content magic''
      else if mc_size m < min_size \<or> mc_size m > max_size then Err ''MediaContentHeader: got unexpected size''
      else Ok ())"

definition size_MediaContentHeader :: nat where
  "size_MediaContentHeader = 48"

definition content_header_bytes :: "MediaContentHeader \<Rightarrow> bytes" where
  "content_header_bytes m = mc_magic m @ content_magic m @ mc_uuid m @ le_bytes 8 (i64_bits (mc_ctime m)) @
     le_bytes 4 (mc_size m) @ [word_of_nat (part_number m)] @ mc_reserved m"

definition content_header_of_bytes :: "bytes \<Rightarrow> MediaContentHeader" where
  "content_header_of_bytes d =
     \<lparr>mc_magic = take 8 d, content_magic = slice 8 8 d, mc_uuid = slice 16 16 d, mc_ctime = i64_of_bits (le_nat (slice 32 8 d)),
      mc_size = le_nat (slice 40 4 d), part_number = unat (d ! 44), mc_reserved = slice 45 3 d\<rparr>"

section \<open>The trait of tape writers\<close>

record 'w tape_write =
  tw_write_all :: "bytes \<Rightarrow> 'w \<Rightarrow> ((err, bool) result \<times> 'w) option"
  tw_bytes_written :: "'w \<Rightarrow> nat"
  tw_finish :: "bool \<Rightarrow> 'w \<Rightarrow> ((err, bool) result \<times> 'w) option"
  tw_leom :: "'w \<Rightarrow> bool"

definition write_header :: "'w tape_write \<Rightarrow> MediaContentHeader \<Rightarrow> bytes \<Rightarrow> 'w \<Rightarrow> ((err, bool) result \<times> 'w) option" where
  "write_header tw header data w =
     (if mc_size header \<noteq> length data then Some (Err ''write_header with wrong size - internal error'', w)
      else Option.bind (tw_write_all tw (content_header_bytes header) w) (\<lambda>(r, w1).
        case r of
          Inl e \<Rightarrow> Some (Err e, w1)
        | Inr res \<Rightarrow> (if data = [] then Some (Ok res, w1) else tw_write_all tw data w1)))"

definition blocked_tape_write :: "'w block_write \<Rightarrow> 'w BlockedWriter tape_write" where
  "blocked_tape_write dev =
     \<lparr>tw_write_all = bw_write_all dev, tw_bytes_written = bw_bytes_written, tw_finish = (\<lambda>inc s. Some (bw_finish dev inc s)), tw_leom = bw_leom\<rparr>"

section \<open>Chunk archives\<close>

definition PROXMOX_BACKUP_CHUNK_ARCHIVE_MAGIC_1_1 :: bytes where
  "PROXMOX_BACKUP_CHUNK_ARCHIVE_MAGIC_1_1 = [109, 49, 99, 109, 215, 2, 131, 191]"

definition PROXMOX_BACKUP_CHUNK_ARCHIVE_ENTRY_MAGIC_1_0 :: bytes where
  "PROXMOX_BACKUP_CHUNK_ARCHIVE_ENTRY_MAGIC_1_0 = [72, 87, 109, 242, 222, 66, 143, 220]"

record ChunkArchiveEntryHeader =
  ce_magic :: bytes
  ce_digest :: digest
  ce_size :: nat

definition size_ChunkArchiveEntryHeader :: nat where
  "size_ChunkArchiveEntryHeader = 48"

definition entry_header_bytes :: "ChunkArchiveEntryHeader \<Rightarrow> bytes" where
  "entry_header_bytes e = ce_magic e @ ce_digest e @ le_bytes 8 (ce_size e)"

definition entry_header_of_bytes :: "bytes \<Rightarrow> ChunkArchiveEntryHeader" where
  "entry_header_of_bytes d = \<lparr>ce_magic = take 8 d, ce_digest = slice 8 32 d, ce_size = le_nat (slice 40 8 d)\<rparr>"

record 'w ChunkArchiveWriter =
  ca_writer :: "'w option"
  ca_bytes_written :: nat
  close_on_leom :: bool
  ca_finished :: "'w option"

text \<open>\<open>header_data\<close> is the JSON text of the archive header.\<close>

definition ChunkArchiveWriter_new ::
  "'w tape_write \<Rightarrow> bytes \<Rightarrow> int \<Rightarrow> bytes \<Rightarrow> bool \<Rightarrow> 'w \<Rightarrow> (err, 'w ChunkArchiveWriter \<times> bytes) result option" where
  "ChunkArchiveWriter_new tw uuid ctime header_data close w =
     (let header = MediaContentHeader_new uuid ctime PROXMOX_BACKUP_CHUNK_ARCHIVE_MAGIC_1_1 (length header_data mod 2 ^ 32)
      in map_option (\<lambda>(r, w1). and_then r (\<lambda>_.
           Ok (\<lparr>ca_writer = Some w1, ca_bytes_written = 0, close_on_leom = close, ca_finished = None\<rparr>, mc_uuid header)))
         (write_header tw header header_data w))"

definition archive_bytes_written :: "'w tape_write \<Rightarrow> 'w ChunkArchiveWriter \<Rightarrow> nat" where
  "archive_bytes_written tw s = (case ca_writer s of Some w \<Rightarrow> tw_bytes_written tw w | None \<Rightarrow> ca_bytes_written s)"

definition archive_write_all ::
  "'w tape_write \<Rightarrow> bytes \<Rightarrow> 'w ChunkArchiveWriter \<Rightarrow> ((err, bool) result \<times> 'w ChunkArchiveWriter) option" where
  "archive_write_all tw data s =
     (case ca_writer s of
        Some w \<Rightarrow> map_option (\<lambda>(r, w1). (r, s\<lparr>ca_writer := Some w1\<rparr>)) (tw_write_all tw data w)
      | None \<Rightarrow> Some (Err ''detected write after archive finished - internal error'', s))"

partial_function (option) write_blob ::
  "'w tape_write \<Rightarrow> bytes \<Rightarrow> nat \<Rightarrow> 'w ChunkArchiveWriter \<Rightarrow> ((err, bool) result \<times> 'w ChunkArchiveWriter) option" where
  "write_blob tw blob_data start s =
     (if start \<ge> length blob_data then Some (Ok True, s)
      else Option.bind
        (if start + PROXMOX_TAPE_BLOCK_SIZE > length blob_data then archive_write_all tw (drop start blob_data) s
         else archive_write_all tw (slice start PROXMOX_TAPE_BLOCK_SIZE blob_data) s)
        (\<lambda>(r, s1). case r of
           Inl e \<Rightarrow> Some (Err e, s1)
         | Inr leom \<Rightarrow>
             (if leom \<and> close_on_leom s1 then
                (case ca_writer s1 of
                   None \<Rightarrow> None
                 | Some w \<Rightarrow> Option.bind (tw_finish tw False w) (\<lambda>(r2, w2). case r2 of
                     Inl e \<Rightarrow> Some (Err e, s1\<lparr>ca_writer := None, ca_finished := Some w2\<rparr>)
                   | Inr _ \<Rightarrow> Some (Ok (start + PROXMOX_TAPE_BLOCK_SIZE > length blob_data),
                       s1\<lparr>ca_writer := None, ca_finished := Some w2, ca_bytes_written := tw_bytes_written tw w2\<rparr>)))
              else write_blob tw blob_data (start + PROXMOX_TAPE_BLOCK_SIZE) s1)))"

definition try_write_chunk ::
  "'w tape_write \<Rightarrow> digest \<Rightarrow> DataBlob \<Rightarrow> 'w ChunkArchiveWriter \<Rightarrow> ((err, bool) result \<times> 'w ChunkArchiveWriter) option" where
  "try_write_chunk tw digest blob s =
     (if ca_writer s = None then Some (Ok False, s)
      else Option.bind
        (archive_write_all tw
           (entry_header_bytes \<lparr>ce_magic = PROXMOX_BACKUP_CHUNK_ARCHIVE_ENTRY_MAGIC_1_0, ce_digest = digest, ce_size = raw_size blob\<rparr>) s)
        (\<lambda>(r, s1). case r of Inl e \<Rightarrow> Some (Err e, s1) | Inr _ \<Rightarrow> write_blob tw (raw_data blob) 0 s1))"

definition archive_finish ::
  "'w tape_write \<Rightarrow> 'w ChunkArchiveWriter \<Rightarrow> ((err, bool) result \<times> 'w ChunkArchiveWriter) option" where
  "archive_finish tw s =
     (case ca_writer s of
        Some w \<Rightarrow> map_option (\<lambda>(r, w1). (r, s\<lparr>ca_writer := None, ca_finished := Some w1, ca_bytes_written := tw_bytes_written tw w\<rparr>))
                   (tw_finish tw False w)
      | None \<Rightarrow> Some (Ok True, s))"

text \<open>
  The decoder uses two functions of \<^verbatim>\<open>proxmox_io::ReadExt\<close>: \<open>rx_exact_or_eof n\<close> returns \<open>n\<close> bytes, or \<open>None\<close> at the end of the
  stream; \<open>rx_exact_allocated n\<close> returns \<open>n\<close> bytes. The kind of an error tells whether the stream ended early.
\<close>

datatype io_error = UnexpectedEof | OtherError err

record 'r read_ext =
  rx_exact_or_eof :: "nat \<Rightarrow> 'r \<Rightarrow> ((io_error, bytes option) result \<times> 'r) option"
  rx_exact_allocated :: "nat \<Rightarrow> 'r \<Rightarrow> ((io_error, bytes) result \<times> 'r) option"

definition io_message :: "io_error \<Rightarrow> err" where
  "io_message e = (case e of UnexpectedEof \<Rightarrow> ''failed to fill whole buffer'' | OtherError m \<Rightarrow> m)"

definition next_chunk :: "'c libs \<Rightarrow> 'r read_ext \<Rightarrow> 'r \<Rightarrow> ((err, (digest \<times> DataBlob) option) result \<times> 'r) option" where
  "next_chunk L rx r =
     Option.bind (rx_exact_or_eof rx size_ChunkArchiveEntryHeader r) (\<lambda>(q, r1).
       case q of
         Inl e \<Rightarrow> Some (Err (io_message e), r1)
       | Inr None \<Rightarrow> Some (Ok None, r1)
       | Inr (Some d) \<Rightarrow>
           (let header = entry_header_of_bytes d in
            if ce_magic header \<noteq> PROXMOX_BACKUP_CHUNK_ARCHIVE_ENTRY_MAGIC_1_0 then Some (Err ''wrong magic number'', r1)
            else Option.bind (rx_exact_allocated rx (ce_size header) r1) (\<lambda>(q2, r2).
              case q2 of
                Inl UnexpectedEof \<Rightarrow> Some (Ok None, r2)
              | Inl (OtherError e) \<Rightarrow> Some (Err e, r2)
              | Inr raw \<Rightarrow>
                  (case from_raw raw of
                     Inl e \<Rightarrow> Some (Err e, r2)
                   | Inr blob \<Rightarrow>
                       map_option (\<lambda>v. (and_then v (\<lambda>_. Ok (Some (ce_digest header, blob))), r2)) (verify_crc L blob)))))"

text \<open>
  \<^verbatim>\<open>write_chunk_archive\<close>: the iterator over new chunks is the list of what it will return. The result is the list of the
  chunks that were saved, and whether the end of the medium was reached; the state has the chunks that are left.
\<close>

type_synonym chunk_iter = "(err, digest \<times> DataBlob) result list"

fun archive_loop ::
  "'w tape_write \<Rightarrow> nat \<Rightarrow> digest list \<Rightarrow> chunk_iter \<Rightarrow> 'w ChunkArchiveWriter \<Rightarrow>
   ((err, digest list \<times> bool) result \<times> chunk_iter \<times> 'w ChunkArchiveWriter) option" where
  "archive_loop tw max_size chunk_list [] s = Some (Ok (chunk_list, False), [], s)"
| "archive_loop tw max_size chunk_list (Inl e # it) s = Some (Err e, Inl e # it, s)"
| "archive_loop tw max_size chunk_list (Inr (digest, blob) # it) s =
     Option.bind (try_write_chunk tw digest blob s) (\<lambda>(r, s1).
       case r of
         Inl e \<Rightarrow> Some (Err ''write chunk failed'', Inr (digest, blob) # it, s1)
       | Inr False \<Rightarrow> Some (Ok (chunk_list, True), Inr (digest, blob) # it, s1)
       | Inr True \<Rightarrow>
           (if archive_bytes_written tw s1 > max_size then Some (Ok (chunk_list @ [digest], False), it, s1)
            else archive_loop tw max_size (chunk_list @ [digest]) it s1))"

definition write_chunk_archive ::
  "'w tape_write \<Rightarrow> bytes \<Rightarrow> int \<Rightarrow> bytes \<Rightarrow> nat \<Rightarrow> chunk_iter \<Rightarrow> 'w \<Rightarrow>
   ((err, digest list \<times> bytes \<times> bool \<times> nat) result \<times> chunk_iter \<times> 'w option) option" where
  "write_chunk_archive tw uuid ctime header_data max_size it w =
     Option.bind (ChunkArchiveWriter_new tw uuid ctime header_data True w) (\<lambda>q.
       case q of
         Inl e \<Rightarrow> Some (Err e, it, None)
       | Inr (s, content_uuid) \<Rightarrow>
           Option.bind (archive_loop tw max_size [] it s) (\<lambda>(r, it1, s1).
             case r of
               Inl e \<Rightarrow> Some (Err e, it1, None)
             | Inr (chunk_list, leom) \<Rightarrow>
                 Option.bind (archive_finish tw s1) (\<lambda>(r2, s2). case r2 of
                     Inl e \<Rightarrow> Some (Err e, it1, None)
                   | Inr _ \<Rightarrow> Some (Ok (chunk_list, content_uuid, leom, archive_bytes_written tw s2), it1, ca_finished s2))))"

section \<open>Multi-volume streams\<close>

text \<open>\<open>mv_volumes\<close> keeps the volumes that were finished; the closures that ask for the next volume work on a state of their own.\<close>

record ('w, 'e) MultiVolumeWriter =
  mv_writer :: "'w option"
  mv_env :: 'e
  mv_got_leom :: bool
  mv_finished :: bool
  mv_wrote_header :: bool
  mv_header :: MediaContentHeader
  mv_header_data :: bytes
  mv_bytes_written :: nat
  mv_volumes :: "'w list"

definition MultiVolumeWriter_new :: "bytes \<Rightarrow> int \<Rightarrow> 'w \<Rightarrow> bytes \<Rightarrow> bytes \<Rightarrow> 'e \<Rightarrow> ('w, 'e) MultiVolumeWriter" where
  "MultiVolumeWriter_new uuid ctime w magic header_data env =
     \<lparr>mv_writer = Some w, mv_env = env, mv_got_leom = False, mv_finished = False, mv_wrote_header = False,
      mv_header = MediaContentHeader_new uuid ctime magic (length header_data mod 2 ^ 32), mv_header_data = header_data,
      mv_bytes_written = 0, mv_volumes = []\<rparr>"

text \<open>The three parts of \<^verbatim>\<open>write_all\<close>: close the volume that is full, get the next one, write.\<close>

definition mv_close_volume ::
  "'w tape_write \<Rightarrow> ('w, 'e) MultiVolumeWriter \<Rightarrow> ((err, unit) result \<times> ('w, 'e) MultiVolumeWriter) option" where
  "mv_close_volume tw s =
     (if \<not> mv_got_leom s then Some (Ok (), s)
      else if \<not> mv_wrote_header s then Some (Err ''multi-volume writer: got LEOM before writing anything - internal error'', s)
      else (case mv_writer s of
              None \<Rightarrow> Some (Err ''multi-volume writer: no writer  -internal error'', s)
            | Some w \<Rightarrow> map_option (\<lambda>(r, w1). (map_sum id (\<lambda>_. ()) r,
                s\<lparr>mv_writer := None, mv_bytes_written := tw_bytes_written tw w, mv_volumes := mv_volumes s @ [w1]\<rparr>)) (tw_finish tw True w)))"

definition mv_next_volume ::
  "('e \<Rightarrow> (err, 'w) result \<times> 'e) \<Rightarrow> ('w, 'e) MultiVolumeWriter \<Rightarrow> (err, unit) result \<times> ('w, 'e) MultiVolumeWriter" where
  "mv_next_volume next_writer_fn s =
     (if mv_writer s \<noteq> None then (Ok (), s)
      else if part_number (mv_header s) = 255 then (Err ''multi-volume writer: too many parts'', s)
      else (case next_writer_fn (mv_env s) of
              (Inl e, env) \<Rightarrow> (Err ''multi-volume get next volume failed'', s\<lparr>mv_env := env\<rparr>)
            | (Inr w, env) \<Rightarrow>
                (Ok (), s\<lparr>mv_writer := Some w, mv_env := env, mv_got_leom := False, mv_wrote_header := False,
                   mv_header := (mv_header s)\<lparr>part_number := part_number (mv_header s) + 1\<rparr>\<rparr>)))"

definition mv_ensure_header ::
  "'w tape_write \<Rightarrow> 'w \<Rightarrow> ('w, 'e) MultiVolumeWriter \<Rightarrow> ((err, unit) result \<times> 'w \<times> ('w, 'e) MultiVolumeWriter) option" where
  "mv_ensure_header tw w s =
     (if mv_wrote_header s then Some (Ok (), w, s)
      else map_option (\<lambda>(r, w1). case r of Inl e \<Rightarrow> (Err e, w1, s) | Inr _ \<Rightarrow> (Ok (), w1, s\<lparr>mv_wrote_header := True\<rparr>))
             (write_header tw (mv_header s) (mv_header_data s) w))"

definition mv_write_all ::
  "'w tape_write \<Rightarrow> ('e \<Rightarrow> (err, 'w) result \<times> 'e) \<Rightarrow> bytes \<Rightarrow> ('w, 'e) MultiVolumeWriter \<Rightarrow>
   ((err, bool) result \<times> ('w, 'e) MultiVolumeWriter) option" where
  "mv_write_all tw next_writer_fn buf s =
     (if mv_finished s then Some (Err ''multi-volume writer already finished: internal error'', s)
      else Option.bind (mv_close_volume tw s) (\<lambda>(r1, s1). case r1 of
        Inl e \<Rightarrow> Some (Err e, s1)
      | Inr _ \<Rightarrow>
          (case mv_next_volume next_writer_fn s1 of
             (Inl e, s2) \<Rightarrow> Some (Err e, s2)
           | (Inr _, s2) \<Rightarrow>
               (case mv_writer s2 of
                  None \<Rightarrow> None
                | Some w \<Rightarrow> Option.bind (mv_ensure_header tw w s2) (\<lambda>(r3, w3, s3). case r3 of
                    Inl e \<Rightarrow> Some (Err e, s3\<lparr>mv_writer := Some w3\<rparr>)
                  | Inr _ \<Rightarrow>
                      map_option (\<lambda>(r4, w4). case r4 of
                          Inl e \<Rightarrow> (Err e, s3\<lparr>mv_writer := Some w4\<rparr>)
                        | Inr leom \<Rightarrow> (Ok False, s3\<lparr>mv_writer := Some w4, mv_got_leom := mv_got_leom s3 \<or> leom\<rparr>))
                      (tw_write_all tw buf w3))))))"

definition mv_total_bytes :: "'w tape_write \<Rightarrow> ('w, 'e) MultiVolumeWriter \<Rightarrow> nat" where
  "mv_total_bytes tw s = (case mv_writer s of Some w \<Rightarrow> mv_bytes_written s + tw_bytes_written tw w | None \<Rightarrow> mv_bytes_written s)"

definition mv_finish ::
  "'w tape_write \<Rightarrow> bool \<Rightarrow> ('w, 'e) MultiVolumeWriter \<Rightarrow> ((err, bool) result \<times> ('w, 'e) MultiVolumeWriter) option" where
  "mv_finish tw incomplete s =
     (if incomplete then Some (Err ''incomplete flag makes no sense for multi-volume stream: internal error'', s)
      else (case mv_writer s of
              None \<Rightarrow> (if mv_finished s then Some (Err ''multi-volume writer already finished: internal error'', s) else Some (Ok False, s))
            | Some w \<Rightarrow>
                Option.bind (mv_ensure_header tw w (s\<lparr>mv_writer := None, mv_finished := True\<rparr>)) (\<lambda>(r, w1, s1). case r of
                    Inl e \<Rightarrow> Some (Err e, s1)
                  | Inr _ \<Rightarrow> map_option (\<lambda>(r2, w2). (r2, s1\<lparr>mv_volumes := mv_volumes s1 @ [w2]\<rparr>)) (tw_finish tw False w1))))"

text \<open>The reader of volumes: \<open>read_value n\<close> is \<^verbatim>\<open>read_le_value\<close> for a struct of \<open>n\<close> bytes.\<close>

record 'r tape_read =
  tr_read :: "nat \<Rightarrow> 'r \<Rightarrow> ((err, bytes) result \<times> 'r) option"
  tr_is_incomplete :: "'r \<Rightarrow> (err, bool) result"
  tr_read_value :: "nat \<Rightarrow> 'r \<Rightarrow> ((err, bytes) result \<times> 'r) option"

record ('r, 'e) MultiVolumeReader =
  mr_reader :: "'r option"
  mr_env :: 'e
  mr_complete :: bool
  mr_header :: MediaContentHeader

definition MultiVolumeReader_new :: "'r \<Rightarrow> MediaContentHeader \<Rightarrow> 'e \<Rightarrow> (err, ('r, 'e) MultiVolumeReader) result" where
  "MultiVolumeReader_new r header env =
     (if part_number header \<noteq> 0 then Err ''MultiVolumeReader::new - got wrong header part_number''
      else Ok \<lparr>mr_reader = Some r, mr_env = env, mr_complete = False, mr_header = header\<rparr>)"

definition mr_next_volume ::
  "'r tape_read \<Rightarrow> ('e \<Rightarrow> (err, 'r) result \<times> 'e) \<Rightarrow> ('r, 'e) MultiVolumeReader \<Rightarrow> ((err, unit) result \<times> ('r, 'e) MultiVolumeReader) option" where
  "mr_next_volume tr next_reader_fn s =
     (if mr_reader s \<noteq> None then Some (Ok (), s)
      else (case next_reader_fn (mr_env s) of
              (Inl e, env) \<Rightarrow> Some (Err ''multi-volume next failed'', s\<lparr>mr_env := env\<rparr>)
            | (Inr r, env) \<Rightarrow>
                map_option (\<lambda>(q, r1). case q of
                    Inl e \<Rightarrow> (Err ''multi-volume read content header failed'', s\<lparr>mr_env := env\<rparr>)
                  | Inr d \<Rightarrow>
                      (let part = content_header_of_bytes d; s1 = s\<lparr>mr_env := env, mr_reader := Some r1\<rparr>;
                           expect = (part_number (mr_header s) + 1) mod 256
                       in if mc_uuid part \<noteq> mc_uuid (mr_header s) then (Err ''multi-volume read content header failed: got wrong part uuid'', s1)
                          else if content_magic part \<noteq> content_magic (mr_header s)
                          then (Err ''multi-volume read content header failed: got wrong part content magic'', s1)
                          else if part_number part \<noteq> expect then (Err ''multi-volume read content header failed: got wrong part number'', s1)
                          else (Ok (), s1\<lparr>mr_header := (mr_header s)\<lparr>part_number := expect\<rparr>\<rparr>)))
                  (tr_read_value tr size_MediaContentHeader r)))"

partial_function (option) mr_read ::
  "'r tape_read \<Rightarrow> ('e \<Rightarrow> (err, 'r) result \<times> 'e) \<Rightarrow> nat \<Rightarrow> ('r, 'e) MultiVolumeReader \<Rightarrow>
   ((err, bytes) result \<times> ('r, 'e) MultiVolumeReader) option" where
  "mr_read tr next_reader_fn n s =
     (if mr_complete s then Some (Ok [], s)
      else Option.bind (mr_next_volume tr next_reader_fn s) (\<lambda>(r1, s1). case r1 of
        Inl e \<Rightarrow> Some (Err e, s1)
      | Inr _ \<Rightarrow>
          (case mr_reader s1 of
             None \<Rightarrow> None
           | Some r \<Rightarrow> Option.bind (tr_read tr n r) (\<lambda>(q, r2). case q of
               Inl e \<Rightarrow> Some (Err e, s1\<lparr>mr_reader := Some r2\<rparr>)
             | Inr bs \<Rightarrow>
                 (if bs \<noteq> [] then Some (Ok bs, s1\<lparr>mr_reader := Some r2\<rparr>)
                  else (case tr_is_incomplete tr r2 of
                          Inl e \<Rightarrow> Some (Err e, s1\<lparr>mr_reader := Some r2\<rparr>)
                        | Inr incomplete \<Rightarrow>
                            (if incomplete then mr_read tr next_reader_fn n (s1\<lparr>mr_reader := None\<rparr>)
                             else Some (Ok [], s1\<lparr>mr_reader := None, mr_complete := True\<rparr>))))))))"

section \<open>What an archive writer relies on\<close>

text \<open>
  \<open>accepts w d\<close>: the bytes \<open>d\<close> were taken by the writer; \<open>sealed w d inc\<close>: the stream was finished with them.
\<close>

locale tape_sink =
  fixes tw :: "'w tape_write" and accepts :: "'w \<Rightarrow> bytes \<Rightarrow> bool" and sealed :: "'w \<Rightarrow> bytes \<Rightarrow> bool \<Rightarrow> bool"
  assumes write_accepts: "accepts w d \<Longrightarrow> \<exists>r w'. tw_write_all tw x w = Some (r, w') \<and> (is_ok r \<longrightarrow> accepts w' (d @ x))"
    and finish_seals: "accepts w d \<Longrightarrow> \<exists>r w'. tw_finish tw inc w = Some (r, w') \<and> (is_ok r \<longrightarrow> sealed w' d inc)"

sublocale block_out \<subseteq> blocked_sink: tape_sink "blocked_tape_write dev" "holds base"
  "\<lambda>s d inc. intact (bw_writer s) \<and> (\<exists>bs. written (bw_writer s) = base @ bs \<and> stream_of 0 bs = Some (d, inc) \<and>
     (\<forall>b \<in> set bs. length b = PROXMOX_TAPE_BLOCK_SIZE))" for base
proof
  fix s d x assume "holds base s d"
  from write_all_holds [OF this, of x]
  show "\<exists>r w'. tw_write_all (blocked_tape_write dev) x s = Some (r, w') \<and> (is_ok r \<longrightarrow> holds base w' (d @ x))"
    by (fastforce simp: blocked_tape_write_def is_ok_iff)
next
  fix s d inc assume a: "holds base s d"
  obtain r s' where r: "bw_finish dev inc s = (r, s')" by fastforce
  then show "\<exists>r w'. tw_finish (blocked_tape_write dev) inc s = Some (r, w') \<and> (is_ok r \<longrightarrow> intact (bw_writer w') \<and>
      (\<exists>bs. written (bw_writer w') = base @ bs \<and> stream_of 0 bs = Some (d, inc) \<and> (\<forall>b \<in> set bs. length b = PROXMOX_TAPE_BLOCK_SIZE)))"
    using finish_holds [OF a] by (auto simp: blocked_tape_write_def is_ok_iff)
qed

definition archive_entry :: "digest \<times> DataBlob \<Rightarrow> bytes" where
  "archive_entry c = entry_header_bytes \<lparr>ce_magic = PROXMOX_BACKUP_CHUNK_ARCHIVE_ENTRY_MAGIC_1_0, ce_digest = fst c, ce_size = raw_size (snd c)\<rparr> @
     raw_data (snd c)"

text \<open>\<open>cs\<close> are the chunks that were saved; \<open>rest\<close> is what was written of the next one.\<close>

definition saved :: "chunk_iter \<Rightarrow> chunk_iter \<Rightarrow> (digest \<times> DataBlob) list \<Rightarrow> bytes \<Rightarrow> bool" where
  "saved it it' cs rest \<longleftrightarrow> it = map Inr cs @ it' \<and>
     (rest = [] \<or> (\<exists>c k it2. it' = Inr c # it2 \<and> 48 \<le> k \<and> k \<le> length (archive_entry c) \<and> rest = take k (archive_entry c)))"

text \<open>Where an archive stands: open with the data \<open>d\<close>, or closed early at the end of the medium with \<open>d\<close>.\<close>

lemma take_min: "take (min n (length xs)) xs = take n xs"
  by (simp add: min_def)

context tape_sink
begin

definition is_open :: "'w ChunkArchiveWriter \<Rightarrow> bytes \<Rightarrow> bool" where
  "is_open s d \<longleftrightarrow> (\<exists>w. ca_writer s = Some w \<and> accepts w d)"

definition is_closed :: "'w ChunkArchiveWriter \<Rightarrow> bytes \<Rightarrow> bool" where
  "is_closed s d \<longleftrightarrow> ca_writer s = None \<and> (\<exists>w. ca_finished s = Some w \<and> sealed w d False)"

lemma write_header_accepts:
  assumes "accepts w d"
  shows "\<exists>r w'. write_header tw m data w = Some (r, w') \<and> (is_ok r \<longrightarrow> accepts w' (d @ content_header_bytes m @ data))"
proof (cases "mc_size m = length data")
  case True
  obtain r w1 where 1: "tw_write_all tw (content_header_bytes m) w = Some (r, w1)" "is_ok r \<longrightarrow> accepts w1 (d @ content_header_bytes m)"
    using write_accepts [OF assms] by blast
  show ?thesis
  proof (cases r)
    case (Inr l)
    then show ?thesis using 1 True write_accepts [of w1 "d @ content_header_bytes m" data] by (auto simp: write_header_def)
  qed (use 1 True in \<open>simp add: write_header_def\<close>)
qed (simp add: write_header_def)

lemma archive_write_all_open:
  "is_open s d \<Longrightarrow> \<exists>r s'. archive_write_all tw x s = Some (r, s') \<and> (is_ok r \<longrightarrow> is_open s' (d @ x))"
  using write_accepts [of _ d x] by (fastforce simp: archive_write_all_def is_open_def)

lemma write_blob_open:
  "is_open s (d @ take start b) \<Longrightarrow> \<exists>r s'. write_blob tw b start s = Some (r, s') \<and>
     (case r of Inl e \<Rightarrow> True | Inr full \<Rightarrow> (full \<and> is_open s' (d @ b)) \<or> (\<exists>k \<le> length b. is_closed s' (d @ take k b) \<and> (full \<longrightarrow> k = length b)))"
proof (induction "length b - start" arbitrary: start s rule: less_induct)
  case less
  show ?case
  proof (cases "start \<ge> length b")
    case True
    then show ?thesis using less.prems by (subst write_blob.simps) simp
  next
    case False
    let ?next = "start + PROXMOX_TAPE_BLOCK_SIZE"
    let ?x = "slice start PROXMOX_TAPE_BLOCK_SIZE b"
    have x: "take start b @ ?x = take ?next b" by (simp add: slice_def take_add)
    have last: "?next > length b \<Longrightarrow> drop start b = ?x" by (simp add: slice_def)
    obtain r s1 where 1: "archive_write_all tw ?x s = Some (r, s1)" "is_ok r \<longrightarrow> is_open s1 (d @ take ?next b)"
      using archive_write_all_open [OF less.prems, of ?x] x by (auto simp: append_assoc)
    have step: "(if ?next > length b then archive_write_all tw (drop start b) s else archive_write_all tw ?x s) = Some (r, s1)"
      using 1 last by simp
    show ?thesis
    proof (cases r)
      case (Inl e)
      then show ?thesis using step False by (subst write_blob.simps) simp
    next
      case (Inr leom)
      then have o1: "is_open s1 (d @ take ?next b)" using 1 by simp
      show ?thesis
      proof (cases "leom \<and> close_on_leom s1")
        case True
        obtain w where w: "ca_writer s1 = Some w" "accepts w (d @ take ?next b)" using o1 by (auto simp: is_open_def)
        obtain r2 w2 where "tw_finish tw False w = Some (r2, w2)" "is_ok r2 \<longrightarrow> sealed w2 (d @ take ?next b) False"
          using finish_seals [OF w(2)] by blast
        then show ?thesis using step False Inr True w
          by (subst write_blob.simps) (auto simp: is_closed_def take_min split: sum.splits intro!: exI [of _ "min ?next (length b)"])
      next
        case no: False
        have "length b - ?next < length b - start" using False block_size_gt(1) by simp
        from less.hyps [OF this o1] show ?thesis using step False Inr no by (subst write_blob.simps) auto
      qed
    qed
  qed
qed

lemma try_write_chunk_open:
  assumes "is_open s d" "length (fst c) = 32"
  shows "\<exists>r s'. try_write_chunk tw (fst c) (snd c) s = Some (r, s') \<and>
    (case r of Inl e \<Rightarrow> True
     | Inr full \<Rightarrow> (full \<and> is_open s' (d @ archive_entry c)) \<or>
         (\<exists>k. 48 \<le> k \<and> k \<le> length (archive_entry c) \<and> is_closed s' (d @ take k (archive_entry c)) \<and> (full \<longrightarrow> k = length (archive_entry c))))"
proof -
  let ?hdr = "entry_header_bytes \<lparr>ce_magic = PROXMOX_BACKUP_CHUNK_ARCHIVE_ENTRY_MAGIC_1_0, ce_digest = fst c, ce_size = raw_size (snd c)\<rparr>"
  have h: "length ?hdr = 48" using assms(2) by (simp add: entry_header_bytes_def PROXMOX_BACKUP_CHUNK_ARCHIVE_ENTRY_MAGIC_1_0_def)
  have e: "archive_entry c = ?hdr @ raw_data (snd c)" by (simp add: archive_entry_def)
  have some: "ca_writer s \<noteq> None" using assms(1) by (auto simp: is_open_def)
  obtain r s1 where 1: "archive_write_all tw ?hdr s = Some (r, s1)" "is_ok r \<longrightarrow> is_open s1 (d @ ?hdr)"
    using archive_write_all_open [OF assms(1)] by blast
  show ?thesis
  proof (cases r)
    case (Inl x)
    then show ?thesis using 1 some by (auto simp: try_write_chunk_def)
  next
    case (Inr l)
    then have "is_open s1 ((d @ ?hdr) @ take 0 (raw_data (snd c)))" using 1 by simp
    from write_blob_open [OF this] obtain r2 s2 where 2: "write_blob tw (raw_data (snd c)) 0 s1 = Some (r2, s2)"
      "case r2 of Inl e \<Rightarrow> True | Inr full \<Rightarrow> (full \<and> is_open s2 ((d @ ?hdr) @ raw_data (snd c))) \<or>
         (\<exists>k \<le> length (raw_data (snd c)). is_closed s2 ((d @ ?hdr) @ take k (raw_data (snd c))) \<and> (full \<longrightarrow> k = length (raw_data (snd c))))"
      by blast
    have eq: "try_write_chunk tw (fst c) (snd c) s = Some (r2, s2)" using 1(1) Inr 2(1) some by (auto simp: try_write_chunk_def)
    show ?thesis
    proof (cases r2)
      case (Inr full)
      have "is_closed s2 ((d @ ?hdr) @ take k (raw_data (snd c))) \<Longrightarrow> is_closed s2 (d @ take (48 + k) (archive_entry c))" for k
        using h by (simp add: e)
      then show ?thesis using eq 2(2) Inr h unfolding e by (fastforce intro: exI [of _ "48 + _"])
    qed (use eq in simp)
  qed
qed

lemma archive_loop_saved:
  "is_open s d \<or> is_closed s d \<Longrightarrow> \<forall>c. Inr c \<in> set it \<longrightarrow> length (fst c) = 32 \<Longrightarrow>
   \<exists>r it' s'. archive_loop tw max_size cl it s = Some (r, it', s') \<and>
     (case r of Inl e \<Rightarrow> True
      | Inr (cl', leom) \<Rightarrow> \<exists>cs rest. saved it it' cs rest \<and> cl' = cl @ map fst cs \<and>
          (rest = [] \<and> is_open s' (d @ concat (map archive_entry cs)) \<or> is_closed s' (d @ concat (map archive_entry cs) @ rest)))"
proof (induction it arbitrary: s d cl)
  case Nil
  then show ?case by (auto simp: saved_def)
next
  case (Cons x it)
  show ?case
  proof (cases x)
    case (Inr c)
    have len: "length (fst c) = 32" using Cons.prems(2) Inr by (cases c) auto
    obtain r s1 where 1: "try_write_chunk tw (fst c) (snd c) s = Some (r, s1)"
      "case r of Inl e \<Rightarrow> True | Inr True \<Rightarrow> is_open s1 (d @ archive_entry c) \<or> is_closed s1 (d @ archive_entry c)
       | Inr False \<Rightarrow> \<exists>rest. saved (x # it) (x # it) [] rest \<and> is_closed s1 (d @ rest)"
    proof (cases "is_open s d")
      case True
      from try_write_chunk_open [OF this len] obtain r s1 where 1: "try_write_chunk tw (fst c) (snd c) s = Some (r, s1)"
        "case r of Inl e \<Rightarrow> True | Inr full \<Rightarrow> (full \<and> is_open s1 (d @ archive_entry c)) \<or> (\<exists>k. 48 \<le> k \<and> k \<le> length (archive_entry c) \<and>
           is_closed s1 (d @ take k (archive_entry c)) \<and> (full \<longrightarrow> k = length (archive_entry c)))" by blast
      show ?thesis by (rule that [OF 1(1)]) (use 1(2) Inr in \<open>auto simp: saved_def split: sum.splits bool.splits\<close>)
    next
      case False
      then have closed: "is_closed s d" using Cons.prems(1) by simp
      have "\<exists>rest. saved (x # it) (x # it) [] rest \<and> is_closed s (d @ rest)" using closed by (intro exI [of _ "[]"]) (simp add: saved_def)
      then show ?thesis using closed by (intro that [of "Ok False" s]) (auto simp: try_write_chunk_def is_closed_def)
    qed
    consider e where "r = Inl e" | "r = Ok False" | "r = Ok True" by (cases r) auto
    then show ?thesis
    proof cases
      case 3
      then have o1: "is_open s1 (d @ archive_entry c) \<or> is_closed s1 (d @ archive_entry c)" using 1 by simp
      have s0: "saved (x # it) it' (c # cs) rest" if "saved it it' cs rest" for it' cs rest using that Inr by (simp add: saved_def)
      show ?thesis
      proof (cases "archive_bytes_written tw s1 > max_size")
        case True
        then have eq: "archive_loop tw max_size cl (x # it) s = Some (Ok (cl @ [fst c], False), it, s1)"
          using 1(1) 3 Inr by (cases c) simp
        have "saved (x # it) it [c] []" using Inr by (simp add: saved_def)
        then show ?thesis using eq o1 by fastforce
      next
        case False
        then have eq: "archive_loop tw max_size cl (x # it) s = archive_loop tw max_size (cl @ [fst c]) it s1"
          using 1(1) 3 Inr by (cases c) simp
        have "\<forall>c. Inr c \<in> set it \<longrightarrow> length (fst c) = 32" using Cons.prems(2) by simp
        from Cons.IH [OF o1 this, of "cl @ [fst c]"] obtain r2 it2 s2 where
          2: "archive_loop tw max_size (cl @ [fst c]) it s1 = Some (r2, it2, s2)"
          "case r2 of Inl e \<Rightarrow> True | Inr (cl', leom) \<Rightarrow> \<exists>cs rest. saved it it2 cs rest \<and> cl' = (cl @ [fst c]) @ map fst cs \<and>
            (rest = [] \<and> is_open s2 ((d @ archive_entry c) @ concat (map archive_entry cs)) \<or>
             is_closed s2 ((d @ archive_entry c) @ concat (map archive_entry cs) @ rest))" by blast
        show ?thesis
        proof (cases r2)
          case (Inr p)
          obtain cl' leom where p: "p = (cl', leom)" by fastforce
          from 2(2) obtain cs rest where cs: "saved it it2 cs rest" "cl' = (cl @ [fst c]) @ map fst cs"
            "rest = [] \<and> is_open s2 ((d @ archive_entry c) @ concat (map archive_entry cs)) \<or>
             is_closed s2 ((d @ archive_entry c) @ concat (map archive_entry cs) @ rest)" using Inr p by auto
          then show ?thesis using eq 2(1) Inr p s0 [OF cs(1)] by (auto intro!: exI [of _ "c # cs"] exI [of _ rest])
        qed (use eq 2 in auto)
      qed
    qed (use 1 Inr in \<open>(cases c, fastforce)+\<close>)
  qed auto
qed

lemma archive_finish_sealed:
  assumes "is_open s d \<or> is_closed s d"
  shows "\<exists>r s'. archive_finish tw s = Some (r, s') \<and> (is_ok r \<longrightarrow> (\<exists>w. ca_finished s' = Some w \<and> sealed w d False))"
proof (cases "is_open s d")
  case True
  then obtain w where w: "ca_writer s = Some w" "accepts w d" by (auto simp: is_open_def)
  obtain r w' where "tw_finish tw False w = Some (r, w')" "is_ok r \<longrightarrow> sealed w' d False" using finish_seals [OF w(2)] by blast
  then show ?thesis using w(1) by (simp add: archive_finish_def)
next
  case False
  then show ?thesis using assms by (auto simp: archive_finish_def is_closed_def)
qed

lemma write_chunk_archive_sealed:
  assumes "accepts w []" "\<forall>c. Inr c \<in> set it \<longrightarrow> length (fst c) = 32"
  shows "\<exists>r it' fw. write_chunk_archive tw uuid ctime jd max_size it w = Some (r, it', fw) \<and>
    (case r of Inl e \<Rightarrow> True
     | Inr (cl, u, leom, n) \<Rightarrow> \<exists>cs rest w'. saved it it' cs rest \<and> cl = map fst cs \<and> fw = Some w' \<and>
         sealed w' (content_header_bytes (MediaContentHeader_new uuid ctime PROXMOX_BACKUP_CHUNK_ARCHIVE_MAGIC_1_1 (length jd mod 2 ^ 32)) @
           jd @ concat (map archive_entry cs) @ rest) False)"
proof -
  let ?m = "MediaContentHeader_new uuid ctime PROXMOX_BACKUP_CHUNK_ARCHIVE_MAGIC_1_1 (length jd mod 2 ^ 32)"
  let ?d = "content_header_bytes ?m @ jd"
  obtain r1 w1 where 1: "write_header tw ?m jd w = Some (r1, w1)" "is_ok r1 \<longrightarrow> accepts w1 ?d"
    using write_header_accepts [OF assms(1)] by fastforce
  show ?thesis
  proof (cases r1)
    case (Inl e)
    then show ?thesis using 1 by (simp add: write_chunk_archive_def ChunkArchiveWriter_new_def)
  next
    case (Inr l)
    let ?s = "\<lparr>ca_writer = Some w1, ca_bytes_written = 0, close_on_leom = True, ca_finished = None\<rparr>"
    have new: "ChunkArchiveWriter_new tw uuid ctime jd True w = Some (Ok (?s, mc_uuid ?m))"
      using 1 Inr by (simp add: ChunkArchiveWriter_new_def Let_def)
    have "is_open ?s ?d \<or> is_closed ?s ?d" using 1 Inr by (simp add: is_open_def)
    from archive_loop_saved [OF this assms(2), of max_size "[]"] obtain r2 it' s2 where
      2: "archive_loop tw max_size [] it ?s = Some (r2, it', s2)"
      "case r2 of Inl e \<Rightarrow> True | Inr (cl', leom) \<Rightarrow> \<exists>cs rest. saved it it' cs rest \<and> cl' = [] @ map fst cs \<and>
         (rest = [] \<and> is_open s2 (?d @ concat (map archive_entry cs)) \<or> is_closed s2 (?d @ concat (map archive_entry cs) @ rest))" by blast
    show ?thesis
    proof (cases r2)
      case (Inl e)
      then show ?thesis using new 2 by (simp add: write_chunk_archive_def)
    next
      case (Inr p)
      obtain cl leom where p: "p = (cl, leom)" by fastforce
      from 2(2) Inr p obtain cs rest where cs: "saved it it' cs rest" "cl = map fst cs"
        "is_open s2 (?d @ concat (map archive_entry cs) @ rest) \<or> is_closed s2 (?d @ concat (map archive_entry cs) @ rest)" by auto
      obtain r3 s3 where 3: "archive_finish tw s2 = Some (r3, s3)"
        "is_ok r3 \<longrightarrow> (\<exists>w. ca_finished s3 = Some w \<and> sealed w (?d @ concat (map archive_entry cs) @ rest) False)"
        using archive_finish_sealed [OF cs(3)] by blast
      show ?thesis using new 2(1) Inr p 3 cs(1,2) by (cases r3) (auto simp: write_chunk_archive_def)
    qed
  qed
qed

end

section \<open>The decoder\<close>

text \<open>What \<^verbatim>\<open>ReadExt\<close> is documented to do, in terms of reading up to a number of bytes.\<close>

definition read_ext_of :: "'r reads \<Rightarrow> 'r read_ext" where
  "read_ext_of rd =
     \<lparr>rx_exact_or_eof = (\<lambda>n r. map_option (\<lambda>(q, r'). (case q of
          Inl e \<Rightarrow> Err (OtherError e)
        | Inr bs \<Rightarrow> if length bs = n then Ok (Some bs) else if bs = [] then Ok None else Err UnexpectedEof, r')) (read_up_to rd n r)),
      rx_exact_allocated = (\<lambda>n r. map_option (\<lambda>(q, r'). (case q of
          Inl e \<Rightarrow> Err (OtherError e)
        | Inr bs \<Rightarrow> if length bs = n then Ok bs else Err UnexpectedEof, r')) (read_up_to rd n r))\<rparr>"

definition read_ext_ok :: "'r reads \<Rightarrow> 'r read_ext \<Rightarrow> bool" where
  "read_ext_ok rd rx \<longleftrightarrow>
     (\<forall>n r. 0 < n \<longrightarrow> rx_exact_or_eof rx n r = rx_exact_or_eof (read_ext_of rd) n r) \<and>
     (\<forall>n r. rx_exact_allocated rx n r = rx_exact_allocated (read_ext_of rd) n r)"

text \<open>The loop of a restore over the chunks of an archive.\<close>

partial_function (option) decode_chunks ::
  "'c libs \<Rightarrow> 'r read_ext \<Rightarrow> 'r \<Rightarrow> ((err, (digest \<times> DataBlob) list) result \<times> 'r) option" where
  "decode_chunks L rx r =
     Option.bind (next_chunk L rx r) (\<lambda>(q, r1). case q of
       Inl e \<Rightarrow> Some (Err e, r1)
     | Inr c \<Rightarrow>
         (if c = None then Some (Ok [], r1)
          else Option.bind (decode_chunks L rx r1) (\<lambda>(q2, r2). Some (map_sum id ((#) (the c)) q2, r2))))"

definition chunk_entry_ok :: "'c libs \<Rightarrow> digest \<times> DataBlob \<Rightarrow> bool" where
  "chunk_entry_ok L c \<longleftrightarrow> length (fst c) = 32 \<and> from_raw (raw_data (snd c)) = Ok (snd c) \<and> verify_crc L (snd c) = Some (Ok ()) \<and> raw_size (snd c) < 2 ^ 64"

lemma entry_header_round_trip:
  "length d = 32 \<Longrightarrow> n < 2 ^ 64 \<Longrightarrow>
   entry_header_of_bytes (entry_header_bytes \<lparr>ce_magic = PROXMOX_BACKUP_CHUNK_ARCHIVE_ENTRY_MAGIC_1_0, ce_digest = d, ce_size = n\<rparr>) =
     \<lparr>ce_magic = PROXMOX_BACKUP_CHUNK_ARCHIVE_ENTRY_MAGIC_1_0, ce_digest = d, ce_size = n\<rparr>"
  by (simp add: entry_header_of_bytes_def entry_header_bytes_def slice_def PROXMOX_BACKUP_CHUNK_ARCHIVE_ENTRY_MAGIC_1_0_def)

context byte_stream
begin

lemma exact_or_eof:
  assumes "read_ext_ok rd rx" "streams s d" "0 < n"
  shows "\<exists>s'. rx_exact_or_eof rx n s = Some (if n \<le> length d then Ok (Some (take n d)) else if d = [] then Ok None else Err UnexpectedEof, s') \<and>
    streams s' (drop n d)"
  using read_up_to_returns [OF assms(2), of n] assms(1,3) by (auto simp: read_ext_ok_def read_ext_of_def min_def)

lemma exact_allocated:
  assumes "read_ext_ok rd rx" "streams s d"
  shows "\<exists>s'. rx_exact_allocated rx n s = Some (if n \<le> length d then Ok (take n d) else Err UnexpectedEof, s') \<and> streams s' (drop n d)"
  using read_up_to_returns [OF assms(2), of n] assms(1) by (auto simp: read_ext_ok_def read_ext_of_def min_def)

lemma next_chunk_entry:
  assumes "read_ext_ok rd rx" "chunk_entry_ok L c" "streams s (take k (archive_entry c) @ d)" "48 \<le> k" "k < length (archive_entry c) \<longrightarrow> d = []"
  shows "\<exists>s'. next_chunk L rx s = Some (Ok (if k < length (archive_entry c) then None else Some c), s') \<and>
    (length (archive_entry c) \<le> k \<longrightarrow> streams s' d)"
proof -
  let ?e = "\<lparr>ce_magic = PROXMOX_BACKUP_CHUNK_ARCHIVE_ENTRY_MAGIC_1_0, ce_digest = fst c, ce_size = raw_size (snd c)\<rparr>"
  let ?raw = "raw_data (snd c)"
  have e: "archive_entry c = entry_header_bytes ?e @ ?raw" "length (entry_header_bytes ?e) = 48"
    using assms(2) by (simp_all add: archive_entry_def entry_header_bytes_def chunk_entry_ok_def PROXMOX_BACKUP_CHUNK_ARCHIVE_ENTRY_MAGIC_1_0_def)
  have t: "take k (archive_entry c) @ d = entry_header_bytes ?e @ take (k - 48) ?raw @ d" using e assms(4) by simp
  obtain s1 where 1: "rx_exact_or_eof rx 48 s = Some (Ok (Some (entry_header_bytes ?e)), s1)" "streams s1 (take (k - 48) ?raw @ d)"
    using exact_or_eof [OF assms(1,3), of 48] e(2) unfolding t by auto
  obtain s2 where 2: "rx_exact_allocated rx (length ?raw) s1 =
      Some (if length ?raw \<le> length (take (k - 48) ?raw @ d) then Ok (take (length ?raw) (take (k - 48) ?raw @ d)) else Err UnexpectedEof, s2)"
    "streams s2 (drop (length ?raw) (take (k - 48) ?raw @ d))"
    using exact_allocated [OF assms(1) 1(2)] by blast
  note hdr = entry_header_round_trip [of "fst c" "raw_size (snd c)"]
  have ok: "from_raw ?raw = Ok (snd c)" "verify_crc L (snd c) = Some (Ok ())" "length (fst c) = 32" "raw_size (snd c) < 2 ^ 64"
    using assms(2) by (simp_all add: chunk_entry_ok_def)
  show ?thesis
  proof (cases "k < length (archive_entry c)")
    case True
    then have "d = []" "k - 48 < length ?raw" using assms(4,5) e by auto
    then show ?thesis using 1(1) 2(1) True hdr ok(3,4) by (simp add: next_chunk_def size_ChunkArchiveEntryHeader_def raw_size_def min_def)
  next
    case False
    then have "take (k - 48) ?raw = ?raw" using e assms(4) by simp
    then show ?thesis using 1(1) 2 False hdr ok
      by (simp add: next_chunk_def size_ChunkArchiveEntryHeader_def raw_size_def)
  qed
qed

lemma next_chunk_end:
  assumes "read_ext_ok rd rx" "streams s []"
  shows "\<exists>s'. next_chunk L rx s = Some (Ok None, s')"
  using exact_or_eof [OF assms, of 48] by (auto simp: next_chunk_def size_ChunkArchiveEntryHeader_def)

text \<open>The complete entries are returned, one that is cut off is not.\<close>

lemma decode_chunks_saved:
  assumes "read_ext_ok rd rx" "\<forall>c \<in> set cs. chunk_entry_ok L c"
    "rest = [] \<or> (\<exists>c k. chunk_entry_ok L c \<and> 48 \<le> k \<and> k \<le> length (archive_entry c) \<and> rest = take k (archive_entry c) \<and> (tl1 = (if k < length (archive_entry c) then [] else [c])))"
    "rest = [] \<longrightarrow> tl1 = []" "streams s (concat (map archive_entry cs) @ rest)"
  shows "\<exists>s'. decode_chunks L rx s = Some (Ok (cs @ tl1), s')"
  using assms(2,5)
proof (induction cs arbitrary: s)
  case Nil
  have stop: "\<exists>s'. decode_chunks L rx s = Some (Ok [], s')" if "next_chunk L rx s = Some (Ok None, s1)" for s s1
    using that by (simp add: decode_chunks.simps [of L rx s])
  show ?case
  proof (cases "rest = []")
    case True
    then show ?thesis using next_chunk_end [OF assms(1), of s L] stop Nil assms(4) by auto
  next
    case False
    then obtain c k where c: "chunk_entry_ok L c" "48 \<le> k" "rest = take k (archive_entry c)" "tl1 = (if k < length (archive_entry c) then [] else [c])"
      using assms(3) by blast
    have "streams s (take k (archive_entry c) @ [])" using Nil c(3) by simp
    from next_chunk_entry [OF assms(1) c(1) this c(2)] obtain s1 where
      s1: "next_chunk L rx s = Some (Ok (if k < length (archive_entry c) then None else Some c), s1)" "length (archive_entry c) \<le> k \<longrightarrow> streams s1 []"
      by auto
    show ?thesis
    proof (cases "k < length (archive_entry c)")
      case False
      then obtain s2 s3 where "next_chunk L rx s1 = Some (Ok None, s2)" "decode_chunks L rx s1 = Some (Ok [], s3)"
        using next_chunk_end [OF assms(1), of s1 L] stop s1(2) by fastforce
      then show ?thesis using s1(1) False c(4) by (simp add: decode_chunks.simps [of L rx s])
    qed (use s1 c stop in auto)
  qed
next
  case (Cons c cs)
  have l: "48 \<le> length (archive_entry c)"
    using Cons.prems(1) by (simp add: archive_entry_def entry_header_bytes_def chunk_entry_ok_def PROXMOX_BACKUP_CHUNK_ARCHIVE_ENTRY_MAGIC_1_0_def)
  have "streams s (take (length (archive_entry c)) (archive_entry c) @ concat (map archive_entry cs) @ rest)" using Cons.prems(2) by simp
  from next_chunk_entry [OF assms(1) _ this l] obtain s1 where
    s1: "next_chunk L rx s = Some (Ok (Some c), s1)" "streams s1 (concat (map archive_entry cs) @ rest)" using Cons.prems(1) by auto
  obtain s2 where "decode_chunks L rx s1 = Some (Ok (cs @ tl1), s2)" using Cons.IH [OF _ s1(2)] Cons.prems(1) by auto
  then show ?case using s1(1) by (simp add: decode_chunks.simps [of L rx s])
qed

end

section \<open>Properties\<close>

lemma length_content_header: "length magic = 8 \<Longrightarrow> length uuid = 16 \<Longrightarrow> length (content_header_bytes (MediaContentHeader_new uuid ctime magic n)) = 48"
  by (simp add: content_header_bytes_def MediaContentHeader_new_def PROXMOX_BACKUP_CONTENT_HEADER_MAGIC_1_0_def)

context emulated_file
begin

lemma archive_on_tape:
  assumes "content f = []" "read_ext_ok (br_read (emulate_read_block reof)) rx" "\<forall>c. Inr c \<in> set it \<longrightarrow> chunk_entry_ok L c" "length uuid = 16"
    "write_chunk_archive (blocked_tape_write (emulate_write wr)) uuid ctime jd max_size it (BlockedWriter_new (EmulateTapeWriter_new f tape_size)) =
       Some (Ok (cl, u, leom, n), it', fw)"
  shows "\<exists>cs extra w s0 s1 s2. it = map Inr cs @ it' \<and> cl = map fst cs \<and> fw = Some w \<and>
    br_open (emulate_read_block reof) (EmulateTapeReader_new (reopen (ew_writer (bw_writer w)))) = Ok s0 \<and>
    read_up_to (br_read (emulate_read_block reof)) (48 + length jd) s0 =
      Some (Ok (content_header_bytes (MediaContentHeader_new uuid ctime PROXMOX_BACKUP_CHUNK_ARCHIVE_MAGIC_1_1 (length jd mod 2 ^ 32)) @ jd), s1) \<and>
    decode_chunks L rx s1 = Some (Ok (cs @ extra), s2) \<and> (extra = [] \<or> (\<exists>c it2. it' = Ok c # it2 \<and> extra = [c]))"
proof -
  let ?w = "EmulateTapeWriter_new f tape_size"
  let ?h = "content_header_bytes (MediaContentHeader_new uuid ctime PROXMOX_BACKUP_CHUNK_ARCHIVE_MAGIC_1_1 (length jd mod 2 ^ 32))"
  have h: "length ?h = 48" by (rule length_content_header) (simp_all add: assms(4) PROXMOX_BACKUP_CHUNK_ARCHIVE_MAGIC_1_1_def)
  have w: "PROXMOX_TAPE_BLOCK_SIZE dvd length (content (ew_writer ?w))" "tape_blocks ?w = []"
    using assms(1) by (simp_all add: EmulateTapeWriter_new_def tape_blocks_def)
  have new: "emu.holds [] (BlockedWriter_new ?w) []" using emu.holds_new [OF w(1)] w(2) by simp
  have "\<forall>c. Inr c \<in> set it \<longrightarrow> length (fst c) = 32" using assms(3) by (auto simp: chunk_entry_ok_def)
  from emu.blocked_sink.write_chunk_archive_sealed [OF new this, of uuid ctime jd max_size] assms(5)
  obtain cs rest w' bs where cs: "saved it it' cs rest" "cl = map fst cs" "fw = Some w'"
    "PROXMOX_TAPE_BLOCK_SIZE dvd length (content (ew_writer (bw_writer w')))" "tape_blocks (bw_writer w') = bs"
    "stream_of 0 bs = Some (?h @ jd @ concat (map archive_entry cs) @ rest, False)" "\<forall>b \<in> set bs. length b = PROXMOX_TAPE_BLOCK_SIZE"
    by auto
  obtain s0 where s0: "br_open (emulate_read_block reof) (EmulateTapeReader_new (reopen (ew_writer (bw_writer w')))) = Ok s0"
    "emu.delivers False s0 (?h @ jd @ concat (map archive_entry cs) @ rest)"
    using emu.open_delivers [OF emu.at_rewind [OF cs(4)]] cs(5-7) by auto
  obtain s1 where s1: "read_up_to (br_read (emulate_read_block reof)) (48 + length jd) s0 = Some (Ok (?h @ jd), s1)"
    "emu.delivers False s1 (concat (map archive_entry cs) @ rest)"
    using read_delivered [OF s0(2), of "48 + length jd"] h by auto
  have ok: "\<forall>c \<in> set cs. chunk_entry_ok L c" using assms(3) cs(1) by (auto simp: saved_def)
  obtain extra where extra: "rest = [] \<or> (\<exists>c k. chunk_entry_ok L c \<and> 48 \<le> k \<and> k \<le> length (archive_entry c) \<and> rest = take k (archive_entry c) \<and>
      extra = (if k < length (archive_entry c) then [] else [c]))" "rest = [] \<longrightarrow> extra = []" "extra = [] \<or> (\<exists>c it2. it' = Ok c # it2 \<and> extra = [c])"
  proof (cases "rest = []")
    case False
    then obtain c k it2 where c: "it' = Inr c # it2" "48 \<le> k" "k \<le> length (archive_entry c)" "rest = take k (archive_entry c)"
      using cs(1) by (auto simp: saved_def)
    then have "Inr c \<in> set it" using cs(1) by (simp add: saved_def)
    then have "chunk_entry_ok L c" using assms(3) by blast
    let ?x = "if k < length (archive_entry c) then [] else [c]"
    have "\<exists>c' k'. chunk_entry_ok L c' \<and> 48 \<le> k' \<and> k' \<le> length (archive_entry c') \<and> rest = take k' (archive_entry c') \<and>
        ?x = (if k' < length (archive_entry c') then [] else [c'])"
      using c(2-4) \<open>chunk_entry_ok L c\<close> by blast
    then show ?thesis by (rule that [of ?x, OF disjI2]) (use c(1) False in auto)
  qed (use that in auto)
  obtain s2 where "decode_chunks L rx s1 = Some (Ok (cs @ extra), s2)"
    using emu.blocked.decode_chunks_saved [OF assms(2) ok extra(1,2) s1(2)] by blast
  moreover have "it = map Inr cs @ it'" using cs(1) by (simp add: saved_def)
  ultimately show ?thesis using cs(2,3) s0(1) s1(1) extra(3) by blast
qed

end

text \<open>
  C30. The chunks that a backup to tape reports as saved can be restored: when \<^verbatim>\<open>write_chunk_archive\<close> succeeds on an
  emulated tape of any size, whether all chunks fitted, the size limit was reached or the end of the medium came in the
  middle of a chunk, the tape opens, header and header data are read back, and \<^verbatim>\<open>ChunkArchiveDecoder\<close> returns without error
  the reported chunks in their order with their blobs, then at most one more that was not reported, which is the next
  one of the iterator and was written completely. A chunk that was cut off is never returned.
\<close>

theorem tape_chunks_restored:
  assumes "emulated_file wr reof content left reopen" "content f = []" "read_ext_ok (br_read (emulate_read_block reof)) rx"
    "\<forall>c. Inr c \<in> set it \<longrightarrow> chunk_entry_ok L c" "length uuid = 16"
    "write_chunk_archive (blocked_tape_write (emulate_write wr)) uuid ctime jd max_size it (BlockedWriter_new (EmulateTapeWriter_new f tape_size)) =
       Some (Ok (cl, u, leom, n), it', fw)"
  shows "\<exists>cs extra w s0 s1 s2. it = map Inr cs @ it' \<and> cl = map fst cs \<and> fw = Some w \<and>
    br_open (emulate_read_block reof) (EmulateTapeReader_new (reopen (ew_writer (bw_writer w)))) = Ok s0 \<and>
    read_up_to (br_read (emulate_read_block reof)) (48 + length jd) s0 =
      Some (Ok (content_header_bytes (MediaContentHeader_new uuid ctime PROXMOX_BACKUP_CHUNK_ARCHIVE_MAGIC_1_1 (length jd mod 2 ^ 32)) @ jd), s1) \<and>
    decode_chunks L rx s1 = Some (Ok (cs @ extra), s2) \<and> (extra = [] \<or> (\<exists>c it2. it' = Ok c # it2 \<and> extra = [c]))"
  by (rule emulated_file.archive_on_tape [OF assms])

definition example_chunk :: "digest \<times> DataBlob" where
  "example_chunk = (replicate 32 9, \<lparr>raw_data = UNCOMPRESSED_BLOB_MAGIC_1_0 @ [1, 0, 0, 0, 7]\<rparr>)"

lemma example_chunk_ok: "chunk_entry_ok demo_libs example_chunk"
  by (simp add: chunk_entry_ok_def example_chunk_def from_raw_def verify_crc_def compute_crc_def blob_crc_def blob_magic_def header_size_def
      size_DataBlobHeader_def UNCOMPRESSED_BLOB_MAGIC_1_0_def demo_libs_def slice_def raw_size_def magic_defs)

lemma bw_finish_vec:
  assumes "bw_inv s" "\<not> wrote_eof s" "\<not> ew_wrote_eof (bw_writer s)" "block_nr (bw_writer s) < max_blocks (bw_writer s)"
  shows "fst (bw_finish (emulate_write vec_write_all) inc s) = Ok False"
proof -
  have len: "length (block_bytes (set_seq_nr k (set_size n ((bw_buffer s)\<lparr>payload := p, bflags := f\<rparr>)))) = PROXMOX_TAPE_BLOCK_SIZE"
    if "length p = PROXMOX_TAPE_BLOCK_SIZE - 16" for k n p f
    by (rule length_block_bytes) (use that assms(1) in \<open>simp add: bw_inv_def wf_block_def\<close>)
  have pos: "buffer_pos s < PROXMOX_TAPE_BLOCK_SIZE - 16" "length (payload (bw_buffer s)) = PROXMOX_TAPE_BLOCK_SIZE - 16"
    using assms(1) by (simp_all add: bw_inv_def wf_block_def)
  show ?thesis using assms(2-4) pos
    by (simp add: len bw_finish_def Let_def emulate_write_def emulate_write_block_def vec_write_all_def bw_write_eof_def emulate_write_filemark_def)
qed

lemma example_archive:
  "\<exists>r fw. write_chunk_archive (blocked_tape_write (emulate_write vec_write_all)) (replicate 16 1) 0 [123, 125] 1000 [Ok example_chunk]
     (BlockedWriter_new (EmulateTapeWriter_new [] 0)) = Some (Ok ([replicate 32 9], r), [], fw)"
  by (simp add: write_chunk_archive_def ChunkArchiveWriter_new_def write_header_def blocked_tape_write_def bw_write_all_small
      MediaContentHeader_new_def content_header_bytes_def PROXMOX_BACKUP_CONTENT_HEADER_MAGIC_1_0_def PROXMOX_BACKUP_CHUNK_ARCHIVE_MAGIC_1_1_def
      BlockedWriter_new_def BlockHeader_new_def PROXMOX_TAPE_BLOCK_SIZE_def length_overwrite example_chunk_def try_write_chunk_def
      archive_write_all_def entry_header_bytes_def PROXMOX_BACKUP_CHUNK_ARCHIVE_ENTRY_MAGIC_1_0_def write_blob.simps UNCOMPRESSED_BLOB_MAGIC_1_0_def
      archive_finish_def archive_bytes_written_def case_prod_unfold bw_finish_vec bw_inv_def wf_block_def EmulateTapeWriter_new_def)
    (rule exI [of _ False], simp)

theorem tape_chunks_restored_witness:
  "\<exists>(w :: bytes EmulateTapeWriter BlockedWriter) s0 s1 s2.
    br_open (emulate_read_block slice_read_exact_or_eof) (EmulateTapeReader_new (id (ew_writer (bw_writer w)))) = Ok s0 \<and>
    read_up_to (br_read (emulate_read_block slice_read_exact_or_eof)) (48 + length [123, 125 :: u8]) s0 =
      Some (Ok (content_header_bytes (MediaContentHeader_new (replicate 16 1) 0 PROXMOX_BACKUP_CHUNK_ARCHIVE_MAGIC_1_1
        (length [123, 125 :: u8] mod 2 ^ 32)) @ [123, 125]), s1) \<and>
    decode_chunks demo_libs (read_ext_of (br_read (emulate_read_block slice_read_exact_or_eof))) s1 = Some (Ok [example_chunk], s2)"
proof -
  obtain u leom n fw where a: "write_chunk_archive (blocked_tape_write (emulate_write vec_write_all)) (replicate 16 1) 0 [123, 125] 1000 [Ok example_chunk]
     (BlockedWriter_new (EmulateTapeWriter_new [] 0)) = Some (Ok ([replicate 32 9], u, leom, n), [], fw)"
    using example_archive by auto
  have rx: "read_ext_ok (br_read (emulate_read_block slice_read_exact_or_eof)) (read_ext_of (br_read (emulate_read_block slice_read_exact_or_eof)))"
    by (simp add: read_ext_ok_def)
  have ok: "\<forall>c. Inr c \<in> set [Ok example_chunk] \<longrightarrow> chunk_entry_ok demo_libs c" using example_chunk_ok by (auto simp: example_chunk_def)
  obtain cs extra s0 s1 s2 and w :: "bytes EmulateTapeWriter BlockedWriter" where
    1: "([Ok example_chunk] :: chunk_iter) = map Inr cs @ []" "br_open (emulate_read_block slice_read_exact_or_eof) (EmulateTapeReader_new (id (ew_writer (bw_writer w)))) = Ok s0"
    "read_up_to (br_read (emulate_read_block slice_read_exact_or_eof)) (48 + length [123, 125 :: u8]) s0 =
      Some (Ok (content_header_bytes (MediaContentHeader_new (replicate 16 1) 0 PROXMOX_BACKUP_CHUNK_ARCHIVE_MAGIC_1_1
        (length [123, 125 :: u8] mod 2 ^ 32)) @ [123, 125]), s1)"
    "decode_chunks demo_libs (read_ext_of (br_read (emulate_read_block slice_read_exact_or_eof))) s1 = Some (Ok (cs @ extra), s2)"
    "extra = [] \<or> (\<exists>c (it2 :: chunk_iter). [] = Ok c # it2 \<and> extra = [c])"
    using tape_chunks_restored [OF vec.emulated_file_axioms id_apply rx ok length_replicate a] by blast
  have "cs @ extra = [example_chunk]" using 1(1,5) by auto
  then show ?thesis using 1(2-4) by metis
qed

section \<open>Streams over several volumes\<close>

text \<open>What the reader of volumes relies on, and the volumes that are still to come as the state of its closure.\<close>

locale volume_reads =
  fixes tr :: "'r tape_read" and vol :: "bool \<Rightarrow> 'r \<Rightarrow> bytes \<Rightarrow> bool"
  assumes vol_read: "vol i r d \<Longrightarrow> 0 < n \<Longrightarrow> \<exists>bs r' d'. tr_read tr n r = Some (Ok bs, r') \<and> d = bs @ d' \<and> length bs \<le> n \<and> vol i r' d' \<and>
      (if d = [] then tr_is_incomplete tr r' = Ok i else bs \<noteq> [])"
    and vol_value: "vol i r (x @ d) \<Longrightarrow> length x = n \<Longrightarrow> \<exists>r'. tr_read_value tr n r = Some (Ok x, r') \<and> vol i r' d"

fun pop_volume :: "'r list \<Rightarrow> (err, 'r) result \<times> 'r list" where
  "pop_volume [] = (Err ''no more volumes'', [])"
| "pop_volume (r # rs) = (Ok r, rs)"

definition header_fits :: "MediaContentHeader \<Rightarrow> bool" where
  "header_fits m \<longleftrightarrow> length (mc_magic m) = 8 \<and> length (content_magic m) = 8 \<and> length (mc_uuid m) = 16 \<and> fits_i64 (mc_ctime m) \<and>
     mc_size m < 2 ^ 32 \<and> part_number m < 256 \<and> length (mc_reserved m) = 3"

lemma content_header_round_trip:
  "header_fits m \<Longrightarrow> content_header_of_bytes (content_header_bytes m) = m \<and> length (content_header_bytes m) = 48"
  using i64_bits_less [of "mc_ctime m"]
  by (cases m) (simp add: header_fits_def content_header_of_bytes_def content_header_bytes_def slice_def nth_append le_nat_le_bytes
      i64_round_trip unat_of_nat)

text \<open>
  \<open>volumes vol m rs d\<close>: after the part with header \<open>m\<close> the volumes \<open>rs\<close> hold the parts with the following numbers, all but
  the last marked incomplete, and \<open>d\<close> is what follows the headers of all of them.
\<close>

fun volumes :: "(bool \<Rightarrow> 'r \<Rightarrow> bytes \<Rightarrow> bool) \<Rightarrow> MediaContentHeader \<Rightarrow> 'r list \<Rightarrow> bytes \<Rightarrow> bool" where
  "volumes vol m [] d \<longleftrightarrow> False"
| "volumes vol m (r # rs) d \<longleftrightarrow> (\<exists>i x d'. part_number m < 255 \<and> header_fits (m\<lparr>part_number := part_number m + 1\<rparr>) \<and>
     vol i r (content_header_bytes (m\<lparr>part_number := part_number m + 1\<rparr>) @ x) \<and> d = x @ d' \<and>
     (if i then volumes vol (m\<lparr>part_number := part_number m + 1\<rparr>) rs d' else d' = []))"

context volume_reads
begin

definition multi :: "('r, 'r list) MultiVolumeReader \<Rightarrow> bytes \<Rightarrow> bool" where
  "multi s d \<longleftrightarrow> (if mr_complete s then d = [] else
     case mr_reader s of
       None \<Rightarrow> volumes vol (mr_header s) (mr_env s) d
     | Some r \<Rightarrow> \<exists>i x d'. vol i r x \<and> d = x @ d' \<and> (if i then volumes vol (mr_header s) (mr_env s) d' else d' = []))"

lemma multiI:
  assumes "\<not> mr_complete s" "mr_reader s = Some r" "vol i r x" "if i then volumes vol (mr_header s) (mr_env s) d' else d' = []"
  shows "multi s (x @ d')"
  unfolding multi_def using assms by (simp only: if_False option.case) blast

lemma next_volume:
  assumes "volumes vol (mr_header s) (mr_env s) d" "mr_reader s = None" "\<not> mr_complete s"
  shows "\<exists>s'. mr_next_volume tr pop_volume s = Some (Ok (), s') \<and> mr_reader s' \<noteq> None \<and> \<not> mr_complete s' \<and> multi s' d \<and> length (mr_env s') < length (mr_env s)"
proof -
  let ?m = "(mr_header s)\<lparr>part_number := part_number (mr_header s) + 1\<rparr>"
  obtain r rs where env: "mr_env s = r # rs" using assms(1) by (cases "mr_env s") auto
  then obtain i x d' where v: "part_number (mr_header s) < 255" "header_fits ?m" "vol i r (content_header_bytes ?m @ x)" "d = x @ d'"
    "if i then volumes vol ?m rs d' else d' = []" using assms(1) by (simp only: volumes.simps) blast
  obtain r' where r': "tr_read_value tr 48 r = Some (Ok (content_header_bytes ?m), r')" "vol i r' x"
    using vol_value [OF v(3)] content_header_round_trip [OF v(2)] by blast
  have "mr_next_volume tr pop_volume s = Some (Ok (), s\<lparr>mr_env := rs, mr_reader := Some r', mr_header := ?m\<rparr>)"
    using assms(2) env r'(1) content_header_round_trip [OF v(2)] v(1) by (simp add: mr_next_volume_def size_MediaContentHeader_def)
  moreover have "multi (s\<lparr>mr_env := rs, mr_reader := Some r', mr_header := ?m\<rparr>) d"
    unfolding v(4) by (rule multiI [OF _ _ r'(2)]) (use v(5) assms(3) in \<open>auto split: if_splits\<close>)
  ultimately show ?thesis using env assms(3) by (intro exI conjI) auto
qed

lemma multi_read:
  "multi s d \<Longrightarrow> 0 < n \<Longrightarrow>
   \<exists>bs s' d'. mr_read tr pop_volume n s = Some (Ok bs, s') \<and> d = bs @ d' \<and> length bs \<le> n \<and> multi s' d' \<and> (if d = [] then mr_complete s' else bs \<noteq> [])"
proof (induction "length (mr_env s)" arbitrary: s d rule: less_induct)
  case less
  show ?case
  proof (cases "mr_complete s")
    case True
    then show ?thesis using less.prems by (auto simp: multi_def mr_read.simps)
  next
    case False
    obtain s1 where s1: "mr_next_volume tr pop_volume s = Some (Ok (), s1)" "mr_reader s1 \<noteq> None" "\<not> mr_complete s1" "multi s1 d"
      "length (mr_env s1) \<le> length (mr_env s)"
    proof (cases "mr_reader s")
      case None
      then show ?thesis using next_volume [of s d] False less.prems(1) that by (fastforce simp: multi_def)
    qed (use less.prems False that [of s] in \<open>simp add: mr_next_volume_def\<close>)
    then obtain r i x d' where r: "mr_reader s1 = Some r" "vol i r x" "d = x @ d'" "if i then volumes vol (mr_header s1) (mr_env s1) d' else d' = []"
      by (auto simp: multi_def)
    obtain bs r' x' where b: "tr_read tr n r = Some (Ok bs, r')" "x = bs @ x'" "length bs \<le> n" "vol i r' x'"
      "if x = [] then tr_is_incomplete tr r' = Ok i else bs \<noteq> []"
      using vol_read [OF r(2) less.prems(2)] by blast
    show ?thesis
    proof (cases "bs = []")
      case False
      have "mr_read tr pop_volume n s = Some (Ok bs, s1\<lparr>mr_reader := Some r'\<rparr>)"
        using s1(1) r(1) b(1) False \<open>\<not> mr_complete s\<close> by (subst mr_read.simps) simp
      moreover have "multi (s1\<lparr>mr_reader := Some r'\<rparr>) (x' @ d')" by (rule multiI [OF _ _ b(4)]) (use r(4) s1(3) in simp_all)
      ultimately show ?thesis using b r(3) False by (intro exI [of _ bs] exI conjI) auto
    next
      case True
      then have x: "x = []" "tr_is_incomplete tr r' = Ok i" using b(5) by (auto split: if_splits)
      show ?thesis
      proof (cases i)
        case False
        have "mr_read tr pop_volume n s = Some (Ok [], s1\<lparr>mr_reader := None, mr_complete := True\<rparr>)"
          using s1(1) r(1) b(1) True x False \<open>\<not> mr_complete s\<close> by (subst mr_read.simps) simp
        then show ?thesis using r x False by (auto simp: multi_def)
      next
        case inc: True
        let ?s = "s1\<lparr>mr_reader := None\<rparr>"
        have eq: "mr_read tr pop_volume n s = mr_read tr pop_volume n ?s"
          using s1(1) r(1) b(1) True x inc \<open>\<not> mr_complete s\<close> by (subst mr_read.simps) simp
        have vols: "volumes vol (mr_header ?s) (mr_env ?s) d" using r x inc by simp
        obtain s2 where s2: "mr_next_volume tr pop_volume ?s = Some (Ok (), s2)" "mr_reader s2 \<noteq> None" "\<not> mr_complete s2" "multi s2 d"
          "length (mr_env s2) < length (mr_env s1)"
          using next_volume [OF vols] s1(3) by auto
        have "mr_read tr pop_volume n ?s = mr_read tr pop_volume n s2"
          using s2(1-3) s1(3) by (subst (1 2) mr_read.simps) (auto simp: mr_next_volume_def)
        then show ?thesis using less.hyps [OF _ s2(4) less.prems(2)] s2(5) s1(5) eq by simp
      qed
    qed
  qed
qed

end

sublocale volume_reads \<subseteq> multi: byte_stream "mr_read tr pop_volume" multi mr_complete
  by unfold_locales (rule multi_read)

text \<open>The reader of a blocked tape as a reader of volumes.\<close>

definition blocked_tape_read :: "'r block_read \<Rightarrow> (nat \<Rightarrow> 'r BlockedReader \<Rightarrow> ((err, bytes) result \<times> 'r BlockedReader) option) \<Rightarrow> 'r BlockedReader tape_read" where
  "blocked_tape_read rd read_value = \<lparr>tr_read = br_read rd, tr_is_incomplete = is_incomplete, tr_read_value = read_value\<rparr>"

text \<open>\<^verbatim>\<open>read_le_value\<close> reads the bytes of the struct and fails if there are not enough of them.\<close>

definition read_value_of :: "'r reads \<Rightarrow> nat \<Rightarrow> 'r \<Rightarrow> ((err, bytes) result \<times> 'r) option" where
  "read_value_of rd n r =
     map_option (\<lambda>(q, r'). (and_then q (\<lambda>bs. if length bs = n then Ok bs else Err ''failed to fill whole buffer''), r')) (read_up_to rd n r)"

sublocale block_in \<subseteq> volume: volume_reads "blocked_tape_read rd (read_value_of (br_read rd))" delivers
proof
  fix i r d n assume a: "delivers i r d" "0 < (n::nat)"
  show "\<exists>bs r' d'. tr_read (blocked_tape_read rd (read_value_of (br_read rd))) n r = Some (Ok bs, r') \<and> d = bs @ d' \<and> length bs \<le> n \<and> delivers i r' d' \<and>
      (if d = [] then tr_is_incomplete (blocked_tape_read rd (read_value_of (br_read rd))) r' = Ok i else bs \<noteq> [])"
    using blocked.read_step [OF a] by (fastforce simp: blocked_tape_read_def ended_def split: if_splits)
next
  fix i r x d n assume "delivers i r (x @ d)" "length x = (n::nat)"
  then show "\<exists>r'. tr_read_value (blocked_tape_read rd (read_value_of (br_read rd))) n r = Some (Ok x, r') \<and> delivers i r' d"
    using blocked.read_up_to_returns [of i r "x @ d" n] by (auto simp: blocked_tape_read_def read_value_of_def)
qed

context tape_sink
begin

text \<open>The first write after the end of a medium starts the next volume with the header, the header data again, and the bytes.\<close>

lemma mv_write_next_volume:
  assumes "mv_got_leom s" "mv_wrote_header s" "\<not> mv_finished s" "mv_writer s = Some w" "accepts w d" "part_number (mv_header s) < 255"
    "next_fn (mv_env s) = (Ok w', env)" "accepts w' []" "mv_write_all tw next_fn buf s = Some (Ok l, s')"
  shows "\<exists>w1 w2. mv_volumes s' = mv_volumes s @ [w1] \<and> sealed w1 d True \<and> mv_writer s' = Some w2 \<and>
    accepts w2 (content_header_bytes ((mv_header s)\<lparr>part_number := part_number (mv_header s) + 1\<rparr>) @ mv_header_data s @ buf) \<and>
    mv_bytes_written s' = tw_bytes_written tw w"
proof -
  let ?m = "(mv_header s)\<lparr>part_number := part_number (mv_header s) + 1\<rparr>"
  obtain r1 w1 where 1: "tw_finish tw True w = Some (r1, w1)" "is_ok r1 \<longrightarrow> sealed w1 d True" using finish_seals [OF assms(5)] by blast
  obtain r2 w2 where 2: "write_header tw ?m (mv_header_data s) w' = Some (r2, w2)" "is_ok r2 \<longrightarrow> accepts w2 (content_header_bytes ?m @ mv_header_data s)"
    using write_header_accepts [OF assms(8)] by fastforce
  note defs = mv_write_all_def mv_close_volume_def mv_next_volume_def mv_ensure_header_def
  obtain l1 l2 where ok: "r1 = Ok l1" "r2 = Ok l2" using assms 1(1) 2(1) by (cases r1; cases r2) (auto simp: defs)
  then obtain r3 w3 where 3: "tw_write_all tw buf w2 = Some (r3, w3)" "is_ok r3 \<longrightarrow> accepts w3 (content_header_bytes ?m @ mv_header_data s @ buf)"
    using write_accepts [of w2 "content_header_bytes ?m @ mv_header_data s" buf] 2(2) by auto
  show ?thesis using assms 1 2(1) 3 ok by (cases r3) (auto simp: defs)
qed

end

section \<open>Files of a snapshot archive\<close>

text \<open>
  The loop of \<^verbatim>\<open>tape_write_snapshot_archive\<close> that copies a file of a snapshot to the encoder: \<open>rd\<close> is \<^verbatim>\<open>read\<close> of the file, \<open>wr\<close> is
  \<^verbatim>\<open>write_all\<close> of the encoder, and \<open>remaining\<close> starts with the size the file had when it was opened.
\<close>

partial_function (option) copy_file ::
  "('f \<Rightarrow> (err, bytes) result \<times> 'f) \<Rightarrow> (bytes \<Rightarrow> 'o \<Rightarrow> (err, unit) result \<times> 'o) \<Rightarrow> nat \<Rightarrow> 'f \<Rightarrow> 'o \<Rightarrow> ((err, unit) result \<times> 'f \<times> 'o) option" where
  "copy_file rd wr remaining f ot =
     (if remaining = 0 then Some (Ok (), f, ot)
      else (case rd f of
              (Inl e, f1) \<Rightarrow> Some (Err e, f1, ot)
            | (Inr got, f1) \<Rightarrow>
                (if length got > remaining then Some (Err ''file changed while reading'', f1, ot)
                 else (case wr got ot of
                         (Inl e, ot1) \<Rightarrow> Some (Err e, f1, ot1)
                       | (Inr _, ot1) \<Rightarrow> copy_file rd wr (remaining - length got) f1 ot1))))"

text \<open>A file in memory that is read in pieces of at most \<open>n\<close> bytes, and an encoder that keeps what it gets.\<close>

definition read_piece :: "nat \<Rightarrow> bytes \<Rightarrow> (err, bytes) result \<times> bytes" where
  "read_piece n f = (Ok (take n f), drop n f)"

text \<open>
  Reads of a file that succeed: \<open>content f\<close> is what is left of it; a read returns the next bytes, at least one unless the
  end of the file is reached.
\<close>

definition reads_file :: "('f \<Rightarrow> (err, bytes) result \<times> 'f) \<Rightarrow> ('f \<Rightarrow> bytes) \<Rightarrow> bool" where
  "reads_file rd content \<longleftrightarrow> (\<forall>f. \<exists>got f'. rd f = (Ok got, f') \<and> content f = got @ content f' \<and> (got = [] \<longrightarrow> content f = []))"

lemma read_piece_reads: "0 < n \<Longrightarrow> reads_file (read_piece n) (\<lambda>f. f)"
  by (auto simp: reads_file_def read_piece_def)

lemma copy_file_short:
  assumes "copy_file rd wr remaining f ot = Some y" "reads_file rd content" "\<And>b o'. \<exists>o''. wr b o' = (Ok (), o'')"
  shows "remaining \<le> length (content f)"
proof -
  have "reads_file rd content \<and> (\<forall>b o'. \<exists>o''. wr b o' = (Ok (), o'')) \<longrightarrow> remaining \<le> length (content f)"
    using assms(1)
  proof (rule copy_file.raw_induct [rotated], goal_cases)
    case (1 cp rd wr remaining f ot y)
    show ?case
    proof
      assume *: "reads_file rd content \<and> (\<forall>b o'. \<exists>o''. wr b o' = (Ok (), o''))"
      show "remaining \<le> length (content f)"
      proof (cases "remaining = 0")
        case False
        obtain got f' where rd: "rd f = (Ok got, f')" "content f = got @ content f'" using * unfolding reads_file_def by blast
        obtain ot' where "wr got ot = (Ok (), ot')" using * by blast
        then show ?thesis using 1(1) [of rd wr "remaining - length got" f' ot' y] 1(2) * False rd by (auto split: if_splits)
      qed simp
    qed
  qed
  then show ?thesis using assms(2,3) by blast
qed

lemma copy_file_diverges:
  assumes "reads_file rd content" "\<And>b o'. \<exists>o''. wr b o' = (Ok (), o'')" "length (content f) < remaining"
  shows "copy_file rd wr remaining f ot = None"
proof (cases "copy_file rd wr remaining f ot")
  case (Some y)
  from copy_file_short [OF this assms(1,2)] assms(3) show ?thesis by simp
qed

lemma copy_file_complete:
  assumes "reads_file rd content"
  shows "\<exists>f'. copy_file rd vec_write_all (length (content f)) f ot = Some (Ok (), f', ot @ content f)"
proof (induction "length (content f)" arbitrary: f ot rule: less_induct)
  case less
  show ?case
  proof (cases "content f = []")
    case False
    obtain got f' where rd: "rd f = (Ok got, f')" "content f = got @ content f'" "got \<noteq> []" using assms False unfolding reads_file_def by metis
    then obtain f'' where "copy_file rd vec_write_all (length (content f')) f' (ot @ got) = Some (Ok (), f'', (ot @ got) @ content f')"
      using less.hyps [of f' "ot @ got"] by auto
    then show ?thesis using rd by (subst copy_file.simps) (auto simp: vec_write_all_def)
  qed (simp add: copy_file.simps)
qed

text \<open>
  C36. A backup to tape does not end when a file of the snapshot got shorter after its size was taken: if all reads and
  writes succeed, the loop first copies what is left, then reads nothing and goes on forever, so that the check
  for a shrunk file after the loop is never reached. A file that kept its size is copied completely.
\<close>

theorem copy_shrunk_file_diverges:
  assumes "reads_file rd content"
  shows "(length (content f) < file_size \<longrightarrow> copy_file rd vec_write_all file_size f ot = None) \<and>
    (length (content f) = file_size \<longrightarrow> (\<exists>f'. copy_file rd vec_write_all file_size f ot = Some (Ok (), f', ot @ content f)))"
  using copy_file_diverges [OF assms, of vec_write_all] copy_file_complete [OF assms] by (auto simp: vec_write_all_def)

theorem copy_shrunk_file_diverges_witness:
  "copy_file (read_piece 2) vec_write_all 4 [1, 2, 3] [] = None \<and> (\<exists>f'. copy_file (read_piece 2) vec_write_all 3 [1, 2, 3] [] = Some (Ok (), f', [1, 2, 3]))"
  using copy_shrunk_file_diverges [OF read_piece_reads [of 2], of "[1, 2, 3]" 4 "[]"] copy_shrunk_file_diverges [OF read_piece_reads [of 2], of "[1, 2, 3]" 3 "[]"]
  by simp

end
