(* ===== verification/MediaCatalog.thy ===== *)
theory MediaCatalog
  imports Prelude
begin

text \<open>
  The catalog of a tape (\<^verbatim>\<open>src/tape/media_catalog.rs\<close>): a log in a file that says which chunks and snapshots are in
  which file of the tape, kept in memory as maps; and sets of catalogs (\<^verbatim>\<open>MediaSetCatalog\<close>,
  \<^verbatim>\<open>src/tape/pool_writer/catalog_set.rs\<close>). Strings are their UTF-8 bytes. The namespace and snapshot functions of
  \<^verbatim>\<open>pbs_api_types\<close> and the reading functions of \<^verbatim>\<open>proxmox_io\<close> are parameters. Printing to stdout is left out.
\<close>

type_synonym str = bytes
type_synonym uuid = bytes

section \<open>UTF-8\<close>

definition is_cont :: "u8 \<Rightarrow> bool" where
  "is_cont b \<longleftrightarrow> 0x80 \<le> b \<and> b \<le> 0xBF"

fun from_utf8 :: "bytes \<Rightarrow> bool" where
  "from_utf8 [] = True"
| "from_utf8 (a # xs) =
     (if a < 0x80 then from_utf8 xs
      else if a < 0xC2 then False
      else if a < 0xE0 then (case xs of b # ys \<Rightarrow> is_cont b \<and> from_utf8 ys | _ \<Rightarrow> False)
      else if a < 0xF0 then
        (case xs of b # c # ys \<Rightarrow>
           is_cont b \<and> is_cont c \<and> (a = 0xE0 \<longrightarrow> 0xA0 \<le> b) \<and> (a = 0xED \<longrightarrow> b \<le> 0x9F) \<and> from_utf8 ys
         | _ \<Rightarrow> False)
      else if a < 0xF5 then
        (case xs of b # c # d # ys \<Rightarrow>
           is_cont b \<and> is_cont c \<and> is_cont d \<and> (a = 0xF0 \<longrightarrow> 0x90 \<le> b) \<and> (a = 0xF4 \<longrightarrow> b \<le> 0x8F) \<and> from_utf8 ys
         | _ \<Rightarrow> False)
      else False)"

section \<open>Entries of the log\<close>

text \<open>
  The structs of the binary encoding have C layout, so that the last two have bytes of padding, whose value is
  not specified: \<open>pad n\<close> gives \<open>n\<close> of them.
\<close>

record LabelEntry =
  le_file_number :: nat
  le_uuid :: uuid
  le_seq_nr :: nat

record ChunkArchiveStart =
  as_file_number :: nat
  as_uuid :: uuid
  as_store_name_len :: nat

record ChunkArchiveEnd =
  ae_file_number :: nat
  ae_uuid :: uuid

record SnapshotEntry =
  se_file_number :: nat
  se_uuid :: uuid
  se_store_name_len :: nat
  se_name_len :: nat

definition label_bytes :: "LabelEntry \<Rightarrow> bytes" where
  "label_bytes e = le_bytes 8 (le_file_number e) @ le_uuid e @ le_bytes 8 (le_seq_nr e)"

definition label_of_bytes :: "bytes \<Rightarrow> LabelEntry" where
  "label_of_bytes d = \<lparr>le_file_number = le_nat (take 8 d), le_uuid = slice 8 16 d, le_seq_nr = le_nat (slice 24 8 d)\<rparr>"

definition start_bytes :: "(nat \<Rightarrow> bytes) \<Rightarrow> ChunkArchiveStart \<Rightarrow> bytes" where
  "start_bytes pad e = le_bytes 8 (as_file_number e) @ as_uuid e @ le_bytes 1 (as_store_name_len e) @ pad 7"

definition start_of_bytes :: "bytes \<Rightarrow> ChunkArchiveStart" where
  "start_of_bytes d = \<lparr>as_file_number = le_nat (take 8 d), as_uuid = slice 8 16 d, as_store_name_len = le_nat (slice 24 1 d)\<rparr>"

definition end_bytes :: "ChunkArchiveEnd \<Rightarrow> bytes" where
  "end_bytes e = le_bytes 8 (ae_file_number e) @ ae_uuid e"

definition end_of_bytes :: "bytes \<Rightarrow> ChunkArchiveEnd" where
  "end_of_bytes d = \<lparr>ae_file_number = le_nat (take 8 d), ae_uuid = slice 8 16 d\<rparr>"

definition snapshot_bytes :: "(nat \<Rightarrow> bytes) \<Rightarrow> SnapshotEntry \<Rightarrow> bytes" where
  "snapshot_bytes pad e = le_bytes 8 (se_file_number e) @ se_uuid e @ le_bytes 1 (se_store_name_len e) @ pad 1 @
     le_bytes 2 (se_name_len e) @ pad 4"

definition snapshot_of_bytes :: "bytes \<Rightarrow> SnapshotEntry" where
  "snapshot_of_bytes d = \<lparr>se_file_number = le_nat (take 8 d), se_uuid = slice 8 16 d, se_store_name_len = le_nat (slice 24 1 d),
     se_name_len = le_nat (slice 26 2 d)\<rparr>"

section \<open>The catalog\<close>

record DatastoreContent =
  snapshot_index :: "str \<rightharpoonup> nat"
  chunk_index :: "digest \<rightharpoonup> nat"

definition DatastoreContent_new :: DatastoreContent where
  "DatastoreContent_new = \<lparr>snapshot_index = Map.empty, chunk_index = Map.empty\<rparr>"

text \<open>An open file is its contents; it is written at the end.\<close>

record MediaCatalog =
  cat_uuid :: uuid
  cat_file :: "bytes option"
  current_archive :: "(uuid \<times> nat \<times> str) option"
  last_entry :: "(uuid \<times> nat) option"
  cat_content :: "str \<rightharpoonup> DatastoreContent"
  pending :: bytes

definition MediaCatalog_empty :: "uuid \<Rightarrow> MediaCatalog" where
  "MediaCatalog_empty uuid = \<lparr>cat_uuid = uuid, cat_file = None, current_archive = None, last_entry = None, cat_content = Map.empty, pending = []\<rparr>"

definition PROXMOX_BACKUP_MEDIA_CATALOG_MAGIC_1_0 :: bytes where
  "PROXMOX_BACKUP_MEDIA_CATALOG_MAGIC_1_0 = [221, 29, 164, 1, 59, 69, 19, 40]"

definition PROXMOX_BACKUP_MEDIA_CATALOG_MAGIC_1_1 :: bytes where
  "PROXMOX_BACKUP_MEDIA_CATALOG_MAGIC_1_1 = [76, 142, 232, 193, 32, 168, 137, 113]"

definition entry_or_default :: "str \<Rightarrow> (str \<rightharpoonup> DatastoreContent) \<Rightarrow> str \<rightharpoonup> DatastoreContent" where
  "entry_or_default store m = (case m store of None \<Rightarrow> m(store \<mapsto> DatastoreContent_new) | Some _ \<Rightarrow> m)"

text \<open>The write of a commit can fail at the lock, after some bytes, when it is synced, or at the unlock.\<close>

datatype commit_fault = LockFails err | WriteFails err nat | SyncFails err | UnlockFails err

definition commit :: "commit_fault option \<Rightarrow> MediaCatalog \<Rightarrow> (err, unit) result \<times> MediaCatalog" where
  "commit io s =
     (if pending s = [] then (Ok (), s)
      else (case cat_file s of
              None \<Rightarrow> (Err ''media catalog not writable (opened read only)'', s)
            | Some f \<Rightarrow>
                (case io of
                   None \<Rightarrow> (Ok (), s\<lparr>cat_file := Some (f @ pending s), pending := []\<rparr>)
                 | Some (LockFails e) \<Rightarrow> (Err e, s)
                 | Some (WriteFails e n) \<Rightarrow> (Err e, s\<lparr>cat_file := Some (f @ take n (pending s))\<rparr>)
                 | Some (SyncFails e) \<Rightarrow> (Err e, s\<lparr>cat_file := Some (f @ pending s)\<rparr>)
                 | Some (UnlockFails e) \<Rightarrow> (Err e, s\<lparr>cat_file := Some (f @ pending s)\<rparr>))))"

definition commit_if_large :: "commit_fault option \<Rightarrow> MediaCatalog \<Rightarrow> (err, unit) result \<times> MediaCatalog" where
  "commit_if_large io s =
     (if current_archive s \<noteq> None then (Err ''can't commit catalog in the middle of an chunk archive'', s)
      else if length (pending s) > 1024 * 1024 then commit io s
      else (Ok (), s))"

definition lookup_snapshot :: "str \<Rightarrow> str \<Rightarrow> MediaCatalog \<Rightarrow> nat option" where
  "lookup_snapshot store snapshot s = (case cat_content s store of None \<Rightarrow> None | Some c \<Rightarrow> snapshot_index c snapshot)"

definition contains_snapshot :: "('n \<Rightarrow> 'b \<Rightarrow> str) \<Rightarrow> str \<Rightarrow> 'n \<Rightarrow> 'b \<Rightarrow> MediaCatalog \<Rightarrow> bool" where
  "contains_snapshot print_ns_and_snapshot store ns snapshot s =
     (case cat_content s store of None \<Rightarrow> False | Some c \<Rightarrow> snapshot_index c (print_ns_and_snapshot ns snapshot) \<noteq> None)"

definition contains_chunk :: "str \<Rightarrow> digest \<Rightarrow> MediaCatalog \<Rightarrow> bool" where
  "contains_chunk store digest s = (case cat_content s store of None \<Rightarrow> False | Some c \<Rightarrow> chunk_index c digest \<noteq> None)"

definition media_lookup_chunk :: "str \<Rightarrow> digest \<Rightarrow> MediaCatalog \<Rightarrow> nat option" where
  "media_lookup_chunk store digest s = (case cat_content s store of None \<Rightarrow> None | Some c \<Rightarrow> chunk_index c digest)"

definition expected_file_number :: "MediaCatalog \<Rightarrow> nat" where
  "expected_file_number s = (case last_entry s of Some (_, n) \<Rightarrow> wrapping_add n 1 | None \<Rightarrow> 0)"

definition check_register_label :: "nat \<Rightarrow> uuid \<Rightarrow> MediaCatalog \<Rightarrow> (err, unit) result" where
  "check_register_label file_number uuid s =
     (if file_number \<ge> 2 then Err ''register label failed: got wrong file number''
      else if file_number = 0 \<and> uuid \<noteq> cat_uuid s then Err ''register label failed: uuid does not match''
      else if current_archive s \<noteq> None then Err ''register label failed: inside chunk archive''
      else if file_number \<noteq> expected_file_number s then Err ''register label failed: got unexpected file number''
      else Ok ())"

definition register_label :: "uuid \<Rightarrow> nat \<Rightarrow> nat \<Rightarrow> MediaCatalog \<Rightarrow> (err, unit) result \<times> MediaCatalog" where
  "register_label uuid seq_nr file_number s =
     (case check_register_label file_number uuid s of
        Inl e \<Rightarrow> (Err e, s)
      | Inr _ \<Rightarrow>
          (if file_number = 0 \<and> seq_nr \<noteq> 0 then (Err ''register_label failed - seq_nr should be 0 - iternal error'', s)
           else (Ok (), s\<lparr>pending := pending s @ [76] @ label_bytes \<lparr>le_file_number = file_number, le_uuid = uuid, le_seq_nr = seq_nr\<rparr>,
                    last_entry := Some (uuid, file_number)\<rparr>)))"

definition media_register_chunk :: "digest \<Rightarrow> MediaCatalog \<Rightarrow> (err, unit) result \<times> MediaCatalog" where
  "media_register_chunk digest s =
     (case current_archive s of
        None \<Rightarrow> (Err ''register_chunk failed: no archive started'', s)
      | Some (_, file_number, store) \<Rightarrow>
          (let s1 = s\<lparr>pending := pending s @ [67] @ digest\<rparr> in
           case cat_content s store of
             None \<Rightarrow> (Err ''storage not registered - internal error'', s1)
           | Some c \<Rightarrow> (Ok (), s1\<lparr>cat_content := (cat_content s)(store \<mapsto> c\<lparr>chunk_index := (chunk_index c)(digest \<mapsto> file_number)\<rparr>)\<rparr>)))"

definition check_start_chunk_archive :: "nat \<Rightarrow> MediaCatalog \<Rightarrow> (err, unit) result" where
  "check_start_chunk_archive file_number s =
     (if current_archive s \<noteq> None then Err ''start_chunk_archive failed: already started''
      else if file_number < 2 then Err ''start_chunk_archive failed: got wrong file number''
      else if file_number < expected_file_number s then Err ''start_chunk_archive: got unexpected file number''
      else Ok ())"

definition start_chunk_archive ::
  "(nat \<Rightarrow> bytes) \<Rightarrow> uuid \<Rightarrow> nat \<Rightarrow> str \<Rightarrow> MediaCatalog \<Rightarrow> (err, unit) result \<times> MediaCatalog" where
  "start_chunk_archive pad uuid file_number store s =
     (case check_start_chunk_archive file_number s of
        Inl e \<Rightarrow> (Err e, s)
      | Inr _ \<Rightarrow>
          (if length store \<ge> 256 then (Err ''out of range integral type conversion attempted'', s)
           else (Ok (), s\<lparr>pending := pending s @ [65] @
                    start_bytes pad \<lparr>as_file_number = file_number, as_uuid = uuid, as_store_name_len = length store\<rparr> @ store,
                    cat_content := entry_or_default store (cat_content s), current_archive := Some (uuid, file_number, store)\<rparr>)))"

definition check_end_chunk_archive :: "uuid \<Rightarrow> nat \<Rightarrow> MediaCatalog \<Rightarrow> (err, unit) result" where
  "check_end_chunk_archive uuid file_number s =
     (case current_archive s of
        None \<Rightarrow> Err ''end_chunk archive failed: not started''
      | Some (expected_uuid, expected_number, _) \<Rightarrow>
          (if uuid \<noteq> expected_uuid then Err ''end_chunk_archive failed: got unexpected uuid''
           else if file_number \<noteq> expected_number then Err ''end_chunk_archive failed: got unexpected file number''
           else Ok ()))"

definition end_chunk_archive :: "MediaCatalog \<Rightarrow> (err, unit) result \<times> MediaCatalog" where
  "end_chunk_archive s =
     (case current_archive s of
        None \<Rightarrow> (Err ''end_chunk_archive failed: not started'', s)
      | Some (uuid, file_number, _) \<Rightarrow>
          (Ok (), s\<lparr>current_archive := None, pending := pending s @ [69] @ end_bytes \<lparr>ae_file_number = file_number, ae_uuid = uuid\<rparr>,
             last_entry := Some (uuid, file_number)\<rparr>))"

fun register_chunks :: "digest list \<Rightarrow> MediaCatalog \<Rightarrow> (err, unit) result \<times> MediaCatalog" where
  "register_chunks [] s = (Ok (), s)"
| "register_chunks (d # ds) s = (case media_register_chunk d s of (Inl e, s1) \<Rightarrow> (Err e, s1) | (Inr _, s1) \<Rightarrow> register_chunks ds s1)"

definition register_chunk_archive ::
  "(nat \<Rightarrow> bytes) \<Rightarrow> uuid \<Rightarrow> nat \<Rightarrow> str \<Rightarrow> digest list \<Rightarrow> MediaCatalog \<Rightarrow> (err, unit) result \<times> MediaCatalog" where
  "register_chunk_archive pad uuid file_number store chunk_list s =
     (case start_chunk_archive pad uuid file_number store s of
        (Inl e, s1) \<Rightarrow> (Err e, s1)
      | (Inr _, s1) \<Rightarrow>
          (case register_chunks chunk_list s1 of
             (Inl e, s2) \<Rightarrow> (Err e, s2)
           | (Inr _, s2) \<Rightarrow> end_chunk_archive s2))"

definition check_register_snapshot :: "nat \<Rightarrow> MediaCatalog \<Rightarrow> (err, unit) result" where
  "check_register_snapshot file_number s =
     (if current_archive s \<noteq> None then Err ''register_snapshot failed: inside chunk_archive''
      else if file_number < 2 then Err ''register_snapshot failed: got wrong file number''
      else if file_number < expected_file_number s then Err ''register_snapshot failed: got unexpected file number''
      else Ok ())"

definition insert_snapshot :: "str \<Rightarrow> str \<Rightarrow> nat \<Rightarrow> (str \<rightharpoonup> DatastoreContent) \<Rightarrow> str \<rightharpoonup> DatastoreContent" where
  "insert_snapshot store path file_number m =
     (let c = the (entry_or_default store m store) in m(store \<mapsto> c\<lparr>snapshot_index := (snapshot_index c)(path \<mapsto> file_number)\<rparr>))"

definition register_snapshot ::
  "('n \<Rightarrow> 'b \<Rightarrow> str) \<Rightarrow> (nat \<Rightarrow> bytes) \<Rightarrow> uuid \<Rightarrow> nat \<Rightarrow> str \<Rightarrow> 'n \<Rightarrow> 'b \<Rightarrow> MediaCatalog \<Rightarrow> (err, unit) result \<times> MediaCatalog" where
  "register_snapshot print_ns_and_snapshot pad uuid file_number store ns snapshot s =
     (case check_register_snapshot file_number s of
        Inl e \<Rightarrow> (Err e, s)
      | Inr _ \<Rightarrow>
          (let path = print_ns_and_snapshot ns snapshot in
           if length store \<ge> 2 ^ 8 then (Err ''out of range integral type conversion attempted'', s)
           else if length path \<ge> 2 ^ 16 then (Err ''out of range integral type conversion attempted'', s)
           else (Ok (), s\<lparr>pending := pending s @ [83] @
                    snapshot_bytes pad \<lparr>se_file_number = file_number, se_uuid = uuid, se_store_name_len = length store, se_name_len = length path\<rparr> @
                    store @ [58] @ path,
                    cat_content := insert_snapshot store path file_number (cat_content s), last_entry := Some (uuid, file_number)\<rparr>)))"

section \<open>Labels of media\<close>

record MediaLabel =
  ml_uuid :: uuid
  ml_label_text :: str
  ml_ctime :: int
  ml_pool :: "str option"

record MediaSetLabel =
  ms_pool :: str
  ms_uuid :: uuid
  ms_seq_nr :: nat
  ms_ctime :: int
  ms_fingerprint :: "bytes option"

record MediaId =
  mi_label :: MediaLabel
  mi_media_set_label :: "MediaSetLabel option"

definition MediaSetLabel_with_data :: "str \<Rightarrow> uuid \<Rightarrow> nat \<Rightarrow> int \<Rightarrow> bytes option \<Rightarrow> MediaSetLabel" where
  "MediaSetLabel_with_data pool uuid seq_nr ctime fp = \<lparr>ms_pool = pool, ms_uuid = uuid, ms_seq_nr = seq_nr, ms_ctime = ctime, ms_fingerprint = fp\<rparr>"

definition new_unassigned :: "str \<Rightarrow> int \<Rightarrow> MediaSetLabel" where
  "new_unassigned pool ctime = MediaSetLabel_with_data pool (replicate 16 0) 0 ctime None"

definition unassigned :: "MediaSetLabel \<Rightarrow> bool" where
  "unassigned l \<longleftrightarrow> ms_uuid l = replicate 16 0"

section \<open>Loading a catalog\<close>

text \<open>
  A file that is read from a position on. \<open>fr_exact_or_eof\<close>, \<open>fr_exact_allocated\<close> and \<open>fr_le_value\<close> are \<^verbatim>\<open>read_exact_or_eof\<close>,
  \<^verbatim>\<open>read_exact_allocated\<close> and \<^verbatim>\<open>read_le_value\<close>, the last one with the size of the struct; \<open>read_exact\<close> is that of the standard library.
\<close>

record cursor =
  cdata :: bytes
  cpos :: nat

record file_reads =
  fr_exact_or_eof :: "nat \<Rightarrow> cursor \<Rightarrow> (err, bytes option) result \<times> cursor"
  fr_exact_allocated :: "nat \<Rightarrow> cursor \<Rightarrow> (err, bytes) result \<times> cursor"
  fr_le_value :: "nat \<Rightarrow> cursor \<Rightarrow> (err, bytes) result \<times> cursor"

definition read_exact :: "nat \<Rightarrow> cursor \<Rightarrow> (err, bytes) result \<times> cursor" where
  "read_exact n c =
     (if cpos c + n \<le> length (cdata c) then (Ok (slice (cpos c) n (cdata c)), c\<lparr>cpos := cpos c + n\<rparr>)
      else (Err ''failed to fill whole buffer'', c\<lparr>cpos := length (cdata c)\<rparr>))"

text \<open>The entries by their type; on an error \<^verbatim>\<open>open\<close> drops the catalog, so that only the error is returned.\<close>

type_synonym loaded = "(err, cursor \<times> uuid option \<times> MediaCatalog) result"

definition load_chunk_entry :: "cursor \<Rightarrow> uuid option \<Rightarrow> MediaCatalog \<Rightarrow> loaded" where
  "load_chunk_entry c m s =
     (case current_archive s of
        None \<Rightarrow> Err ''register_chunk failed: no archive started''
      | Some (_, file_number, store) \<Rightarrow>
          (case read_exact 32 c of
             (Inl e, _) \<Rightarrow> Err e
           | (Inr digest, c1) \<Rightarrow>
               (case cat_content s store of
                  None \<Rightarrow> Err ''storage not registered - internal error''
                | Some x \<Rightarrow> Ok (c1, m, s\<lparr>cat_content := (cat_content s)(store \<mapsto> x\<lparr>chunk_index := (chunk_index x)(digest \<mapsto> file_number)\<rparr>)\<rparr>))))"

definition load_start_entry :: "file_reads \<Rightarrow> cursor \<Rightarrow> uuid option \<Rightarrow> MediaCatalog \<Rightarrow> loaded" where
  "load_start_entry fr c m s =
     (case fr_le_value fr 32 c of
        (Inl e, _) \<Rightarrow> Err e
      | (Inr d, c1) \<Rightarrow>
          (let entry = start_of_bytes d in
           case fr_exact_allocated fr (as_store_name_len entry) c1 of
             (Inl e, _) \<Rightarrow> Err e
           | (Inr store, c2) \<Rightarrow>
               (if \<not> from_utf8 store then Err ''invalid utf-8 sequence''
                else and_then (check_start_chunk_archive (as_file_number entry) s) (\<lambda>_.
                  Ok (c2, m, s\<lparr>cat_content := entry_or_default store (cat_content s),
                              current_archive := Some (as_uuid entry, as_file_number entry, store)\<rparr>)))))"

definition load_end_entry :: "file_reads \<Rightarrow> cursor \<Rightarrow> uuid option \<Rightarrow> MediaCatalog \<Rightarrow> loaded" where
  "load_end_entry fr c m s =
     (case fr_le_value fr 24 c of
        (Inl e, _) \<Rightarrow> Err e
      | (Inr d, c1) \<Rightarrow>
          (let entry = end_of_bytes d in
           and_then (check_end_chunk_archive (ae_uuid entry) (ae_file_number entry) s) (\<lambda>_.
             Ok (c1, m, s\<lparr>current_archive := None, last_entry := Some (ae_uuid entry, ae_file_number entry)\<rparr>))))"

definition load_snapshot_entry :: "file_reads \<Rightarrow> (str \<Rightarrow> (err, unit) result) \<Rightarrow> cursor \<Rightarrow> uuid option \<Rightarrow> MediaCatalog \<Rightarrow> loaded" where
  "load_snapshot_entry fr parse_ns_and_snapshot c m s =
     (case fr_le_value fr 32 c of
        (Inl e, _) \<Rightarrow> Err e
      | (Inr d, c1) \<Rightarrow>
          (let entry = snapshot_of_bytes d; n = se_store_name_len entry in
           case fr_exact_allocated fr (n + 1) c1 of
             (Inl e, _) \<Rightarrow> Err e
           | (Inr st, c2) \<Rightarrow>
               (if st ! n \<noteq> 58 then Err ''parse-error: missing separator in SnapshotEntry''
                else if \<not> from_utf8 (take n st) then Err ''invalid utf-8 sequence''
                else (case fr_exact_allocated fr (se_name_len entry) c2 of
                        (Inl e, _) \<Rightarrow> Err e
                      | (Inr snapshot, c3) \<Rightarrow>
                          (if \<not> from_utf8 snapshot then Err ''invalid utf-8 sequence''
                           else and_then (parse_ns_and_snapshot snapshot) (\<lambda>_.
                             and_then (check_register_snapshot (se_file_number entry) s) (\<lambda>_.
                               Ok (c3, m, s\<lparr>cat_content := insert_snapshot (take n st) snapshot (se_file_number entry) (cat_content s),
                                           last_entry := Some (se_uuid entry, se_file_number entry)\<rparr>)))))))) "

definition load_label_entry :: "file_reads \<Rightarrow> MediaSetLabel option \<Rightarrow> cursor \<Rightarrow> uuid option \<Rightarrow> MediaCatalog \<Rightarrow> loaded" where
  "load_label_entry fr set_label c m s =
     (case fr_le_value fr 32 c of
        (Inl e, _) \<Rightarrow> Err e
      | (Inr d, c1) \<Rightarrow>
          (let entry = label_of_bytes d in
           and_then (check_register_label (le_file_number entry) (le_uuid entry) s) (\<lambda>_.
             let s1 = s\<lparr>last_entry := Some (le_uuid entry, le_file_number entry)\<rparr> in
             if le_file_number entry = 1 then
               (case set_label of
                  None \<Rightarrow> Ok (c1, Some (le_uuid entry), s1)
                | Some sl \<Rightarrow>
                    (if ms_uuid sl \<noteq> le_uuid entry then Err ''got unexpected media set uuid''
                     else if ms_seq_nr sl \<noteq> le_seq_nr entry then Err ''got unexpected media set sequence number''
                     else Ok (c1, Some (le_uuid entry), s1)))
             else Ok (c1, m, s1))))"

definition load_entry ::
  "file_reads \<Rightarrow> (str \<Rightarrow> (err, unit) result) \<Rightarrow> MediaSetLabel option \<Rightarrow> u8 \<Rightarrow> cursor \<Rightarrow> uuid option \<Rightarrow> MediaCatalog \<Rightarrow> loaded" where
  "load_entry fr parse_ns_and_snapshot set_label t c m s =
     (if t = 67 then load_chunk_entry c m s
      else if t = 65 then load_start_entry fr c m s
      else if t = 69 then load_end_entry fr c m s
      else if t = 83 then load_snapshot_entry fr parse_ns_and_snapshot c m s
      else if t = 76 then load_label_entry fr set_label c m s
      else Err ''unknown entry type'')"

partial_function (option) load_loop ::
  "file_reads \<Rightarrow> (str \<Rightarrow> (err, unit) result) \<Rightarrow> MediaSetLabel option \<Rightarrow> cursor \<Rightarrow> bool \<Rightarrow> uuid option \<Rightarrow> MediaCatalog \<Rightarrow>
   (err, bool \<times> uuid option \<times> MediaCatalog) result option" where
  "load_loop fr parse_ns_and_snapshot set_label c found m s =
     (if cpos c = 0 then
        (case fst (fr_exact_or_eof fr 8 c) of
           Inl e \<Rightarrow> Some (Err ''read failed'')
         | Inr r \<Rightarrow>
             (if r = None then Some (Ok (found, m, s))
              else if r = Some PROXMOX_BACKUP_MEDIA_CATALOG_MAGIC_1_0 then Some (Err ''old catalog format (v1.0) is no longer supported'')
              else if r \<noteq> Some PROXMOX_BACKUP_MEDIA_CATALOG_MAGIC_1_1 then Some (Err ''wrong magic number'')
              else load_loop fr parse_ns_and_snapshot set_label (snd (fr_exact_or_eof fr 8 c)) True m s))
      else
        (case fst (fr_exact_or_eof fr 1 c) of
           Inl e \<Rightarrow> Some (Err ''read failed'')
         | Inr r \<Rightarrow>
             (if r = None then Some (Ok (found, m, s))
              else (case load_entry fr parse_ns_and_snapshot set_label (the r ! 0) (snd (fr_exact_or_eof fr 1 c)) m s of
                      Inl e \<Rightarrow> Some (Err e)
                    | Inr p \<Rightarrow> load_loop fr parse_ns_and_snapshot set_label (fst p) found (fst (snd p)) (snd (snd p))))))"

definition load_catalog ::
  "file_reads \<Rightarrow> (str \<Rightarrow> (err, unit) result) \<Rightarrow> MediaSetLabel option \<Rightarrow> bytes \<Rightarrow> MediaCatalog \<Rightarrow> (err, bool \<times> uuid option \<times> MediaCatalog) result option" where
  "load_catalog fr parse_ns_and_snapshot set_label data s =
     load_loop fr parse_ns_and_snapshot set_label \<lparr>cdata = data, cpos = 0\<rparr> False None s"

text \<open>\<^verbatim>\<open>open\<close>, from the contents of the file on; a file that could not be opened, chowned or locked is an error before.\<close>

definition open_catalog ::
  "file_reads \<Rightarrow> (str \<Rightarrow> (err, unit) result) \<Rightarrow> MediaId \<Rightarrow> bool \<Rightarrow> bytes \<Rightarrow> (err, MediaCatalog) result option" where
  "open_catalog fr parse_ns_and_snapshot media_id wr data =
     map_option (\<lambda>r. case r of
         Inl e \<Rightarrow> Err ''unable to open media catalog''
       | Inr (found, _, s) \<Rightarrow>
           Ok (s\<lparr>pending := (if found then pending s else pending s @ PROXMOX_BACKUP_MEDIA_CATALOG_MAGIC_1_1),
                cat_file := (if wr then Some data else cat_file s)\<rparr>))
       (load_catalog fr parse_ns_and_snapshot (mi_media_set_label media_id) data (MediaCatalog_empty (ml_uuid (mi_label media_id))))"

definition create_temporary_database :: "commit_fault option \<Rightarrow> MediaId \<Rightarrow> (err, MediaCatalog) result" where
  "create_temporary_database io media_id =
     (let s = (MediaCatalog_empty (ml_uuid (mi_label media_id)))\<lparr>cat_file := Some [], pending := PROXMOX_BACKUP_MEDIA_CATALOG_MAGIC_1_1\<rparr>
      in case register_label (ml_uuid (mi_label media_id)) 0 0 s of
           (Inl e, _) \<Rightarrow> Err ''unable to create temporary media catalog''
         | (Inr _, s1) \<Rightarrow>
             (case (case mi_media_set_label media_id of None \<Rightarrow> (Ok (), s1) | Some sl \<Rightarrow> register_label (ms_uuid sl) (ms_seq_nr sl) 1 s1) of
                (Inl e, _) \<Rightarrow> Err ''unable to create temporary media catalog''
              | (Inr _, s2) \<Rightarrow>
                  (case commit io s2 of
                     (Inl e, _) \<Rightarrow> Err ''unable to create temporary media catalog''
                   | (Inr _, s3) \<Rightarrow> Ok s3)))"

definition parse_catalog_header :: "file_reads \<Rightarrow> cursor \<Rightarrow> (err, bool \<times> uuid option \<times> uuid option) result" where
  "parse_catalog_header fr c =
     (case fr_exact_or_eof fr 8 c of
        (Inl e, _) \<Rightarrow> Err e
      | (Inr None, _) \<Rightarrow> Ok (False, None, None)
      | (Inr (Some magic), c1) \<Rightarrow>
          if magic = PROXMOX_BACKUP_MEDIA_CATALOG_MAGIC_1_0 then Err ''old catalog format (v1.0) is no longer supported''
          else if magic \<noteq> PROXMOX_BACKUP_MEDIA_CATALOG_MAGIC_1_1 then Err ''wrong magic number''
          else (case fr_exact_or_eof fr 1 c1 of
            (Inl e, _) \<Rightarrow> Err e
          | (Inr None, _) \<Rightarrow> Ok (True, None, None)
          | (Inr (Some t), c2) \<Rightarrow>
              if t ! 0 \<noteq> 76 then Err ''got unexpected entry type''
              else (case fr_le_value fr 32 c2 of
                (Inl e, _) \<Rightarrow> Err e
              | (Inr d0, c3) \<Rightarrow>
                  (case fr_exact_or_eof fr 1 c3 of
                     (Inl e, _) \<Rightarrow> Err e
                   | (Inr None, _) \<Rightarrow> Ok (True, Some (le_uuid (label_of_bytes d0)), None)
                   | (Inr (Some t1), c4) \<Rightarrow>
                       if t1 ! 0 \<noteq> 76 then Err ''got unexpected entry type''
                       else (case fr_le_value fr 32 c4 of
                         (Inl e, _) \<Rightarrow> Err e
                       | (Inr d1, _) \<Rightarrow> Ok (True, Some (le_uuid (label_of_bytes d0)), Some (le_uuid (label_of_bytes d1))))))))"

text \<open>\<^verbatim>\<open>destroy_unrelated_catalog\<close> on the contents of an existing file: whether it is removed.\<close>

definition destroy_unrelated_catalog :: "file_reads \<Rightarrow> MediaId \<Rightarrow> bytes \<Rightarrow> (err, bool) result" where
  "destroy_unrelated_catalog fr media_id data =
     (case mi_media_set_label media_id of
        None \<Rightarrow> Ok True
      | Some sl \<Rightarrow>
          and_then (parse_catalog_header fr \<lparr>cdata = data, cpos = 0\<rparr>) (\<lambda>(found, media_uuid, set_uuid).
            if \<not> found then Ok False
            else if media_uuid \<noteq> None \<and> media_uuid \<noteq> Some (ml_uuid (mi_label media_id)) then Ok True
            else Ok (set_uuid \<noteq> None \<and> set_uuid \<noteq> Some (ms_uuid sl))))"

section \<open>Sets of catalogs\<close>

text \<open>The hash map of a \<^verbatim>\<open>MediaSetCatalog\<close> is a list of catalogs, in the order in which its iterator visits them.\<close>

definition set_append_catalog :: "MediaCatalog \<Rightarrow> MediaCatalog list \<Rightarrow> (err, unit) result \<times> MediaCatalog list" where
  "set_append_catalog catalog cs =
     (if cat_uuid catalog \<in> cat_uuid ` set cs then (Err ''MediaSetCatalog already contains media'', cs)
      else (Ok (), cs @ [catalog]))"

definition set_remove_catalog :: "uuid \<Rightarrow> MediaCatalog list \<Rightarrow> MediaCatalog list" where
  "set_remove_catalog uuid cs = filter (\<lambda>c. cat_uuid c \<noteq> uuid) cs"

definition set_contains_snapshot :: "('n \<Rightarrow> 'b \<Rightarrow> str) \<Rightarrow> str \<Rightarrow> 'n \<Rightarrow> 'b \<Rightarrow> MediaCatalog list \<Rightarrow> bool" where
  "set_contains_snapshot print_ns_and_snapshot store ns snapshot cs = list_ex (contains_snapshot print_ns_and_snapshot store ns snapshot) cs"

definition set_contains_chunk :: "str \<Rightarrow> digest \<Rightarrow> MediaCatalog list \<Rightarrow> bool" where
  "set_contains_chunk store digest cs = list_ex (contains_chunk store digest) cs"

fun set_lookup :: "(MediaCatalog \<Rightarrow> nat option) \<Rightarrow> MediaCatalog list \<Rightarrow> (uuid \<times> nat) option" where
  "set_lookup f [] = None"
| "set_lookup f (c # cs) = (case f c of Some nr \<Rightarrow> Some (cat_uuid c, nr) | None \<Rightarrow> set_lookup f cs)"

definition set_lookup_snapshot :: "str \<Rightarrow> str \<Rightarrow> MediaCatalog list \<Rightarrow> (uuid \<times> nat) option" where
  "set_lookup_snapshot store snapshot = set_lookup (lookup_snapshot store snapshot)"

definition set_lookup_chunk :: "str \<Rightarrow> digest \<Rightarrow> MediaCatalog list \<Rightarrow> (uuid \<times> nat) option" where
  "set_lookup_chunk store digest = set_lookup (media_lookup_chunk store digest)"

record CatalogSet =
  media_set_catalog :: "MediaCatalog list"
  set_catalog :: "MediaCatalog option"

definition append_read_only_catalog :: "MediaCatalog \<Rightarrow> CatalogSet \<Rightarrow> (err, unit) result \<times> CatalogSet" where
  "append_read_only_catalog catalog s =
     (case set_append_catalog catalog (media_set_catalog s) of (r, cs) \<Rightarrow> (r, s\<lparr>media_set_catalog := cs\<rparr>))"

definition catalog_set_contains_snapshot :: "('n \<Rightarrow> 'b \<Rightarrow> str) \<Rightarrow> str \<Rightarrow> 'n \<Rightarrow> 'b \<Rightarrow> CatalogSet \<Rightarrow> bool" where
  "catalog_set_contains_snapshot print_ns_and_snapshot store ns snapshot s =
     ((case set_catalog s of Some c \<Rightarrow> contains_snapshot print_ns_and_snapshot store ns snapshot c | None \<Rightarrow> False) \<or>
      set_contains_snapshot print_ns_and_snapshot store ns snapshot (media_set_catalog s))"

definition catalog_set_contains_chunk :: "str \<Rightarrow> digest \<Rightarrow> CatalogSet \<Rightarrow> bool" where
  "catalog_set_contains_chunk store digest s =
     ((case set_catalog s of Some c \<Rightarrow> contains_chunk store digest c | None \<Rightarrow> False) \<or> set_contains_chunk store digest (media_set_catalog s))"

definition append_catalog :: "MediaCatalog \<Rightarrow> CatalogSet \<Rightarrow> (err, unit) result \<times> CatalogSet" where
  "append_catalog new_catalog s =
     (case (case set_catalog s of None \<Rightarrow> (Ok (), media_set_catalog s) | Some c \<Rightarrow> set_append_catalog c (media_set_catalog s)) of
        (Inl e, cs) \<Rightarrow> (Err e, s\<lparr>media_set_catalog := cs, set_catalog := None\<rparr>)
      | (Inr _, cs) \<Rightarrow> (Ok (), s\<lparr>media_set_catalog := set_remove_catalog (cat_uuid new_catalog) cs, set_catalog := Some new_catalog\<rparr>))"

definition on_catalog :: "(MediaCatalog \<Rightarrow> (err, unit) result \<times> MediaCatalog) \<Rightarrow> CatalogSet \<Rightarrow> (err, unit) result \<times> CatalogSet" where
  "on_catalog f s =
     (case set_catalog s of
        None \<Rightarrow> (Err ''no catalog loaded - internal error'', s)
      | Some c \<Rightarrow> (case f c of (r, c1) \<Rightarrow> (r, s\<lparr>set_catalog := Some c1\<rparr>)))"

definition catalog_set_register_snapshot ::
  "('n \<Rightarrow> 'b \<Rightarrow> str) \<Rightarrow> (nat \<Rightarrow> bytes) \<Rightarrow> uuid \<Rightarrow> nat \<Rightarrow> str \<Rightarrow> 'n \<Rightarrow> 'b \<Rightarrow> CatalogSet \<Rightarrow> (err, unit) result \<times> CatalogSet" where
  "catalog_set_register_snapshot print_ns_and_snapshot pad uuid file_number store ns snapshot =
     on_catalog (register_snapshot print_ns_and_snapshot pad uuid file_number store ns snapshot)"

definition catalog_set_register_chunk_archive ::
  "(nat \<Rightarrow> bytes) \<Rightarrow> uuid \<Rightarrow> nat \<Rightarrow> str \<Rightarrow> digest list \<Rightarrow> CatalogSet \<Rightarrow> (err, unit) result \<times> CatalogSet" where
  "catalog_set_register_chunk_archive pad uuid file_number store chunk_list =
     on_catalog (register_chunk_archive pad uuid file_number store chunk_list)"

definition catalog_set_commit :: "commit_fault option \<Rightarrow> CatalogSet \<Rightarrow> (err, unit) result \<times> CatalogSet" where
  "catalog_set_commit io s =
     (case set_catalog s of
        None \<Rightarrow> (Ok (), s)
      | Some c \<Rightarrow> (case commit io c of (r, c1) \<Rightarrow> (r, s\<lparr>set_catalog := Some c1\<rparr>)))"

section \<open>The catalog as a log\<close>

text \<open>The entries of the log, their bytes, and what each does to the catalog in memory; \<open>None\<close> is an entry that is refused.\<close>

datatype log_entry =
    LabelE uuid nat nat
  | ChunkE digest
  | StartE uuid nat str
  | EndE uuid nat
  | SnapE uuid nat str str

fun encode_entry :: "(nat \<Rightarrow> bytes) \<Rightarrow> log_entry \<Rightarrow> bytes" where
  "encode_entry pad (LabelE u q n) = 76 # label_bytes \<lparr>le_file_number = n, le_uuid = u, le_seq_nr = q\<rparr>"
| "encode_entry pad (ChunkE d) = 67 # d"
| "encode_entry pad (StartE u n st) = 65 # start_bytes pad \<lparr>as_file_number = n, as_uuid = u, as_store_name_len = length st\<rparr> @ st"
| "encode_entry pad (EndE u n) = 69 # end_bytes \<lparr>ae_file_number = n, ae_uuid = u\<rparr>"
| "encode_entry pad (SnapE u n st p) =
     83 # snapshot_bytes pad \<lparr>se_file_number = n, se_uuid = u, se_store_name_len = length st, se_name_len = length p\<rparr> @ st @ [58] @ p"

fun entry_valid :: "(str \<Rightarrow> (err, unit) result) \<Rightarrow> MediaSetLabel option \<Rightarrow> log_entry \<Rightarrow> bool" where
  "entry_valid parse lbl (LabelE u q n) \<longleftrightarrow> length u = 16 \<and> q < 2 ^ 64 \<and> n < 2 ^ 64 \<and>
     (n = 1 \<longrightarrow> (case lbl of None \<Rightarrow> True | Some sl \<Rightarrow> ms_uuid sl = u \<and> ms_seq_nr sl = q))"
| "entry_valid parse lbl (ChunkE d) \<longleftrightarrow> length d = 32"
| "entry_valid parse lbl (StartE u n st) \<longleftrightarrow> length u = 16 \<and> n < 2 ^ 64 \<and> length st < 256 \<and> from_utf8 st"
| "entry_valid parse lbl (EndE u n) \<longleftrightarrow> length u = 16 \<and> n < 2 ^ 64"
| "entry_valid parse lbl (SnapE u n st p) \<longleftrightarrow> length u = 16 \<and> n < 2 ^ 64 \<and> length st < 256 \<and> from_utf8 st \<and> length p < 2 ^ 16 \<and> from_utf8 p \<and>
     parse p = Ok ()"

fun apply_entry :: "log_entry \<Rightarrow> MediaCatalog \<Rightarrow> MediaCatalog option" where
  "apply_entry (LabelE u q n) s = (if is_ok (check_register_label n u s) then Some (s\<lparr>last_entry := Some (u, n)\<rparr>) else None)"
| "apply_entry (ChunkE d) s =
     (case current_archive s of
        None \<Rightarrow> None
      | Some (_, n, st) \<Rightarrow>
          (case cat_content s st of
             None \<Rightarrow> None
           | Some x \<Rightarrow> Some (s\<lparr>cat_content := (cat_content s)(st \<mapsto> x\<lparr>chunk_index := (chunk_index x)(d \<mapsto> n)\<rparr>)\<rparr>)))"
| "apply_entry (StartE u n st) s =
     (if is_ok (check_start_chunk_archive n s)
      then Some (s\<lparr>cat_content := entry_or_default st (cat_content s), current_archive := Some (u, n, st)\<rparr>) else None)"
| "apply_entry (EndE u n) s =
     (if is_ok (check_end_chunk_archive u n s) then Some (s\<lparr>current_archive := None, last_entry := Some (u, n)\<rparr>) else None)"
| "apply_entry (SnapE u n st p) s =
     (if is_ok (check_register_snapshot n s)
      then Some (s\<lparr>cat_content := insert_snapshot st p n (cat_content s), last_entry := Some (u, n)\<rparr>) else None)"

fun replay :: "log_entry list \<Rightarrow> MediaCatalog \<Rightarrow> MediaCatalog option" where
  "replay [] s = Some s"
| "replay (e # es) s = Option.bind (apply_entry e s) (replay es)"

lemma replay_append: "replay (es @ fs) s = Option.bind (replay es s) (replay fs)"
  by (induction es arbitrary: s) (auto split: Option.bind_splits)

text \<open>What loading relies on, and the functions that read from memory.\<close>

locale catalog_reads =
  fixes fr :: file_reads
  assumes exact_or_eof: "0 < n \<Longrightarrow> cpos c \<le> length (cdata c) \<Longrightarrow> fr_exact_or_eof fr n c =
      (if cpos c + n \<le> length (cdata c) then (Ok (Some (slice (cpos c) n (cdata c))), c\<lparr>cpos := cpos c + n\<rparr>)
       else if cpos c = length (cdata c) then (Ok None, c)
       else (Err ''failed to fill whole buffer'', c\<lparr>cpos := length (cdata c)\<rparr>))"
    and exact_allocated: "cpos c \<le> length (cdata c) \<Longrightarrow> fr_exact_allocated fr n c = read_exact n c"
    and le_value: "cpos c \<le> length (cdata c) \<Longrightarrow> fr_le_value fr n c = read_exact n c"

definition plain_reads :: file_reads where
  "plain_reads =
     \<lparr>fr_exact_or_eof = (\<lambda>n c. if cpos c + n \<le> length (cdata c) then (Ok (Some (slice (cpos c) n (cdata c))), c\<lparr>cpos := cpos c + n\<rparr>)
        else if cpos c = length (cdata c) then (Ok None, c) else (Err ''failed to fill whole buffer'', c\<lparr>cpos := length (cdata c)\<rparr>)),
      fr_exact_allocated = read_exact, fr_le_value = read_exact\<rparr>"

interpretation plain: catalog_reads plain_reads
  by unfold_locales (simp_all add: plain_reads_def)

text \<open>Structs are read back; padding is skipped.\<close>

definition pad_ok :: "(nat \<Rightarrow> bytes) \<Rightarrow> bool" where
  "pad_ok pad \<longleftrightarrow> (\<forall>n. length (pad n) = n)"

lemma struct_round_trips:
  "length u = 16 \<Longrightarrow> q < 2 ^ 64 \<Longrightarrow> n < 2 ^ 64 \<Longrightarrow>
     label_of_bytes (label_bytes \<lparr>le_file_number = n, le_uuid = u, le_seq_nr = q\<rparr>) = \<lparr>le_file_number = n, le_uuid = u, le_seq_nr = q\<rparr>"
  "length u = 16 \<Longrightarrow> n < 2 ^ 64 \<Longrightarrow> k < 256 \<Longrightarrow>
     start_of_bytes (start_bytes pad \<lparr>as_file_number = n, as_uuid = u, as_store_name_len = k\<rparr>) = \<lparr>as_file_number = n, as_uuid = u, as_store_name_len = k\<rparr>"
  "length u = 16 \<Longrightarrow> n < 2 ^ 64 \<Longrightarrow> end_of_bytes (end_bytes \<lparr>ae_file_number = n, ae_uuid = u\<rparr>) = \<lparr>ae_file_number = n, ae_uuid = u\<rparr>"
  "length u = 16 \<Longrightarrow> n < 2 ^ 64 \<Longrightarrow> k < 256 \<Longrightarrow> l < 2 ^ 16 \<Longrightarrow> pad_ok pad \<Longrightarrow>
     snapshot_of_bytes (snapshot_bytes pad \<lparr>se_file_number = n, se_uuid = u, se_store_name_len = k, se_name_len = l\<rparr>) =
       \<lparr>se_file_number = n, se_uuid = u, se_store_name_len = k, se_name_len = l\<rparr>"
  by (simp_all add: label_of_bytes_def label_bytes_def start_of_bytes_def start_bytes_def end_of_bytes_def end_bytes_def
      snapshot_of_bytes_def snapshot_bytes_def slice_def le_nat_le_bytes pad_ok_def del: le_bytes.simps)

lemma struct_lengths:
  "length u = 16 \<Longrightarrow> length (label_bytes \<lparr>le_file_number = n, le_uuid = u, le_seq_nr = q\<rparr>) = 32"
  "length u = 16 \<Longrightarrow> pad_ok pad \<Longrightarrow> length (start_bytes pad \<lparr>as_file_number = n, as_uuid = u, as_store_name_len = k\<rparr>) = 32"
  "length u = 16 \<Longrightarrow> length (end_bytes \<lparr>ae_file_number = n, ae_uuid = u\<rparr>) = 24"
  "length u = 16 \<Longrightarrow> pad_ok pad \<Longrightarrow> length (snapshot_bytes pad \<lparr>se_file_number = n, se_uuid = u, se_store_name_len = k, se_name_len = l\<rparr>) = 32"
  by (simp_all add: label_bytes_def start_bytes_def end_bytes_def snapshot_bytes_def pad_ok_def)

lemma read_exact_next:
  assumes "drop p D = x @ rest" "length x = n" "p \<le> length D"
  shows "read_exact n \<lparr>cdata = D, cpos = p\<rparr> = (Ok x, \<lparr>cdata = D, cpos = p + n\<rparr>)" "p + n \<le> length D" "drop (p + n) D = rest"
proof -
  have "length (drop p D) = n + length rest" using assms(1,2) by simp
  then show l: "p + n \<le> length D" using assms(3) by simp
  show "drop (p + n) D = rest" using assms(1,2) by (metis append_eq_conv_conj add.commute drop_drop)
  show "read_exact n \<lparr>cdata = D, cpos = p\<rparr> = (Ok x, \<lparr>cdata = D, cpos = p + n\<rparr>)"
    using l assms(1,2) by (simp add: read_exact_def slice_def)
qed

lemma load_entry_types:
  "load_entry fr parse lbl 67 c m s = load_chunk_entry c m s"
  "load_entry fr parse lbl 65 c m s = load_start_entry fr c m s"
  "load_entry fr parse lbl 69 c m s = load_end_entry fr c m s"
  "load_entry fr parse lbl 83 c m s = load_snapshot_entry fr parse c m s"
  "load_entry fr parse lbl 76 c m s = load_label_entry fr lbl c m s"
  by (simp_all add: load_entry_def)

context catalog_reads
begin

lemma load_entry_applies:
  assumes "drop p D = encode_entry pad e @ rest" "p < length D" "pad_ok pad" "entry_valid parse lbl e" "apply_entry e s = Some s'"
  shows "\<exists>m'. load_entry fr parse lbl (D ! p) \<lparr>cdata = D, cpos = p + 1\<rparr> m s =
    Ok (\<lparr>cdata = D, cpos = p + length (encode_entry pad e)\<rparr>, m', s')"
proof -
  have t: "D ! p = hd (encode_entry pad e)" using assms(1,2) by (cases e) (simp_all add: Cons_nth_drop_Suc [symmetric])
  have d: "drop (p + 1) D = tl (encode_entry pad e) @ rest" "p + 1 \<le> length D"
    using assms(1,2) by (cases e; simp add: Cons_nth_drop_Suc [symmetric])+
  note read = exact_allocated le_value read_exact_next
  show ?thesis
  proof (cases e)
    case (LabelE u q n)
    note r = read_exact_next [OF d(1) [unfolded LabelE encode_entry.simps list.sel] _ d(2), of 32]
    show ?thesis using assms(4,5) t r LabelE d(2)
      by (auto simp: Let_def ac_simps load_entry_types load_label_entry_def le_value struct_lengths struct_round_trips is_ok_iff split: if_splits option.splits)
  next
    case (ChunkE x)
    note r = read_exact_next [OF d(1) [unfolded ChunkE encode_entry.simps list.sel] _ d(2), of 32]
    show ?thesis using assms(4,5) t r ChunkE
      by (auto simp: Let_def ac_simps load_entry_types load_chunk_entry_def split: option.splits)
  next
    case (EndE u n)
    note r = read_exact_next [OF d(1) [unfolded EndE encode_entry.simps list.sel] _ d(2), of 24]
    show ?thesis using assms(4,5) t r EndE d(2)
      by (auto simp: Let_def ac_simps load_entry_types load_end_entry_def le_value struct_lengths struct_round_trips is_ok_iff split: if_splits)
  next
    case (StartE u n st)
    note r1 = read_exact_next [OF d(1) [unfolded StartE encode_entry.simps list.sel append_assoc] _ d(2), of 32]
    have l: "length (start_bytes pad \<lparr>as_file_number = n, as_uuid = u, as_store_name_len = length st\<rparr>) = 32"
      using assms(3,4) StartE by (simp add: struct_lengths)
    note r2 = read_exact_next [OF r1(3) [OF l] refl r1(2) [OF l]]
    show ?thesis using assms(4,5) t r1(1,2) [OF l] r2 StartE d(2) l
      by (auto simp: Let_def ac_simps load_entry_types load_start_entry_def le_value exact_allocated struct_round_trips is_ok_iff split: if_splits)
  next
    case (SnapE u n st x)
    note r1 = read_exact_next [OF d(1) [unfolded SnapE encode_entry.simps list.sel append_assoc] _ d(2), of 32]
    have l: "length (snapshot_bytes pad \<lparr>se_file_number = n, se_uuid = u, se_store_name_len = length st, se_name_len = length x\<rparr>) = 32"
      using assms(3,4) SnapE by (simp add: struct_lengths)
    have r2: "drop (p + 1 + 32) D = (st @ [58]) @ x @ rest" using r1(3) [OF l] by simp
    note r2 = read_exact_next [OF r2 refl r1(2) [OF l]]
    note r3 = read_exact_next [OF r2(3) refl r2(2)]
    show ?thesis using assms(3-5) t r1(1,2) [OF l] r2(1,2) r3 SnapE d(2) l
      by (auto simp: Let_def ac_simps load_entry_types load_snapshot_entry_def le_value exact_allocated struct_round_trips is_ok_iff nth_append split: if_splits)
  qed
qed

lemma encode_nonempty: "encode_entry pad e \<noteq> []"
  by (cases e) simp_all

lemma load_step:
  assumes "drop p D = encode_entry pad e @ rest" "0 < p" "pad_ok pad" "entry_valid parse lbl e" "apply_entry e s = Some s'"
  shows "\<exists>m'. load_loop fr parse lbl \<lparr>cdata = D, cpos = p\<rparr> f m s =
    load_loop fr parse lbl \<lparr>cdata = D, cpos = p + length (encode_entry pad e)\<rparr> f m' s'"
proof -
  have p: "p < length D" using assms(1) encode_nonempty [of pad e] by (cases "p < length D") simp_all
  obtain m' where "load_entry fr parse lbl (D ! p) \<lparr>cdata = D, cpos = p + 1\<rparr> m s = Ok (\<lparr>cdata = D, cpos = p + length (encode_entry pad e)\<rparr>, m', s')"
    using load_entry_applies [OF assms(1) p assms(3-5)] by blast
  moreover have "fr_exact_or_eof fr 1 \<lparr>cdata = D, cpos = p\<rparr> = (Ok (Some [D ! p]), \<lparr>cdata = D, cpos = p + 1\<rparr>)"
    using exact_or_eof [of 1 "\<lparr>cdata = D, cpos = p\<rparr>"] p by (simp add: slice_def Cons_nth_drop_Suc [symmetric])
  ultimately show ?thesis using assms(2) by (subst load_loop.simps) auto
qed

lemma load_end: "0 < length D \<Longrightarrow> load_loop fr parse lbl \<lparr>cdata = D, cpos = length D\<rparr> f m s = Some (Ok (f, m, s))"
  using exact_or_eof [of 1 "\<lparr>cdata = D, cpos = length D\<rparr>"] by (subst load_loop.simps) simp

lemma load_replay:
  assumes "pad_ok pad" "\<forall>e \<in> set es. entry_valid parse lbl e"
  shows "drop p D = concat (map (encode_entry pad) es) \<Longrightarrow> 0 < p \<Longrightarrow> p \<le> length D \<Longrightarrow> replay es s = Some s' \<Longrightarrow>
    \<exists>m'. load_loop fr parse lbl \<lparr>cdata = D, cpos = p\<rparr> f m s = Some (Ok (f, m', s'))"
  using assms(2)
proof (induction es arbitrary: p m s)
  case Nil
  then have "p = length D" by simp
  then show ?case using Nil load_end by simp
next
  case (Cons e es)
  obtain s1 where s1: "apply_entry e s = Some s1" "replay es s1 = Some s'" using Cons.prems(4) by (auto split: Option.bind_splits)
  have d: "drop p D = encode_entry pad e @ concat (map (encode_entry pad) es)" using Cons.prems(1) by simp
  obtain m1 where m1: "load_loop fr parse lbl \<lparr>cdata = D, cpos = p\<rparr> f m s =
      load_loop fr parse lbl \<lparr>cdata = D, cpos = p + length (encode_entry pad e)\<rparr> f m1 s1"
    using load_step [OF d Cons.prems(2) assms(1) _ s1(1)] Cons.prems(5) by (metis list.set_intros(1))
  note r = read_exact_next(2,3) [OF d refl Cons.prems(3)]
  show ?case using Cons.IH [OF r(2) _ r(1) s1(2)] Cons.prems(2,5) m1 by auto
qed

text \<open>Loading a file replays its log.\<close>

lemma load_catalog_replay:
  assumes "pad_ok pad" "\<forall>e \<in> set es. entry_valid parse lbl e" "replay es s = Some s'"
  shows "\<exists>m'. load_catalog fr parse lbl (PROXMOX_BACKUP_MEDIA_CATALOG_MAGIC_1_1 @ concat (map (encode_entry pad) es)) s = Some (Ok (True, m', s'))"
proof -
  let ?D = "PROXMOX_BACKUP_MEDIA_CATALOG_MAGIC_1_1 @ concat (map (encode_entry pad) es)"
  have m: "length PROXMOX_BACKUP_MEDIA_CATALOG_MAGIC_1_1 = 8" by (simp add: PROXMOX_BACKUP_MEDIA_CATALOG_MAGIC_1_1_def)
  have "fr_exact_or_eof fr 8 \<lparr>cdata = ?D, cpos = 0\<rparr> = (Ok (Some PROXMOX_BACKUP_MEDIA_CATALOG_MAGIC_1_1), \<lparr>cdata = ?D, cpos = 8\<rparr>)"
    using exact_or_eof [of 8 "\<lparr>cdata = ?D, cpos = 0\<rparr>"] m by (simp add: slice_def)
  moreover have "PROXMOX_BACKUP_MEDIA_CATALOG_MAGIC_1_1 \<noteq> PROXMOX_BACKUP_MEDIA_CATALOG_MAGIC_1_0"
    by (simp add: PROXMOX_BACKUP_MEDIA_CATALOG_MAGIC_1_1_def PROXMOX_BACKUP_MEDIA_CATALOG_MAGIC_1_0_def)
  ultimately have "load_catalog fr parse lbl ?D s = load_loop fr parse lbl \<lparr>cdata = ?D, cpos = 8\<rparr> True None s"
    unfolding load_catalog_def by (subst load_loop.simps) simp
  then show ?thesis using load_replay [OF assms(1,2) _ _ _ assms(3), of 8 ?D True None] m by simp
qed

end

section \<open>Operations write the log\<close>

text \<open>
  \<open>logged pad parse id s es\<close>: the file and what is pending are the magic number and the entries \<open>es\<close>, all of them valid, and
  replaying them gives what the catalog has in memory.
\<close>

definition in_memory :: "MediaCatalog \<Rightarrow> MediaCatalog" where
  "in_memory s = s\<lparr>cat_file := None, pending := []\<rparr>"

definition logged :: "(nat \<Rightarrow> bytes) \<Rightarrow> (str \<Rightarrow> (err, unit) result) \<Rightarrow> MediaId \<Rightarrow> MediaCatalog \<Rightarrow> log_entry list \<Rightarrow> bool" where
  "logged pad parse media_id s es \<longleftrightarrow>
     (\<exists>f. cat_file s = Some f \<and> f @ pending s = PROXMOX_BACKUP_MEDIA_CATALOG_MAGIC_1_1 @ concat (map (encode_entry pad) es)) \<and>
     (\<forall>e \<in> set es. entry_valid parse (mi_media_set_label media_id) e) \<and>
     replay es (MediaCatalog_empty (ml_uuid (mi_label media_id))) = Some (in_memory s)"

lemma checks_in_memory [simp]:
  "check_register_label n u (in_memory s) = check_register_label n u s"
  "check_start_chunk_archive n (in_memory s) = check_start_chunk_archive n s"
  "check_register_snapshot n (in_memory s) = check_register_snapshot n s"
  "check_end_chunk_archive u n (in_memory s) = check_end_chunk_archive u n s"
  "current_archive (in_memory s) = current_archive s" "cat_content (in_memory s) = cat_content s" "last_entry (in_memory s) = last_entry s"
  by (simp_all add: in_memory_def check_register_label_def check_start_chunk_archive_def check_register_snapshot_def
      check_end_chunk_archive_def expected_file_number_def)

lemma logged_extend:
  assumes "logged pad parse media_id s es" "pending s' = pending s @ concat (map (encode_entry pad) fs)" "cat_file s' = cat_file s"
    "\<forall>e \<in> set fs. entry_valid parse (mi_media_set_label media_id) e" "replay fs (in_memory s) = Some (in_memory s')"
  shows "logged pad parse media_id s' (es @ fs)"
  using assms by (auto simp: logged_def replay_append)

lemma register_label_logged:
  assumes "logged pad parse media_id s es" "entry_valid parse (mi_media_set_label media_id) (LabelE u q n)" "register_label u q n s = (r, s')"
  shows "\<exists>es'. logged pad parse media_id s' es'"
proof (cases r)
  case (Inr x)
  then have "logged pad parse media_id s' (es @ [LabelE u q n])"
    using assms by (intro logged_extend [OF assms(1)]) (auto simp: register_label_def in_memory_def is_ok_iff checks_in_memory [unfolded in_memory_def] split: sum.splits if_splits)
  then show ?thesis by blast
next
  case (Inl e)
  then have "s' = s" using assms(3) by (auto simp: register_label_def split: sum.splits if_splits)
  then show ?thesis using assms(1) by blast
qed

lemma register_snapshot_logged:
  assumes "logged pad parse media_id s es" "length u = 16" "n < 2 ^ 64" "from_utf8 store" "from_utf8 (prt ns b)" "parse (prt ns b) = Ok ()"
    "register_snapshot prt pad u n store ns b s = (r, s')"
  shows "\<exists>es'. logged pad parse media_id s' es'"
proof (cases r)
  case (Inr x)
  then have "logged pad parse media_id s' (es @ [SnapE u n store (prt ns b)])"
    using assms by (intro logged_extend [OF assms(1)])
      (auto simp: register_snapshot_def Let_def in_memory_def is_ok_iff checks_in_memory [unfolded in_memory_def] split: sum.splits if_splits)
  then show ?thesis by blast
next
  case (Inl e)
  then have "s' = s" using assms(7) by (auto simp: register_snapshot_def Let_def split: sum.splits if_splits)
  then show ?thesis using assms(1) by blast
qed

lemma register_chunks_logged:
  "current_archive s = Some (u, n, st) \<Longrightarrow> cat_content s st \<noteq> None \<Longrightarrow>
   \<exists>s'. register_chunks ds s = (Ok (), s') \<and> current_archive s' = Some (u, n, st) \<and> cat_file s' = cat_file s \<and>
     pending s' = pending s @ concat (map (encode_entry pad) (map ChunkE ds)) \<and> replay (map ChunkE ds) (in_memory s) = Some (in_memory s')"
proof (induction ds arbitrary: s)
  case (Cons d ds)
  obtain x where x: "cat_content s st = Some x" using Cons.prems by auto
  let ?s = "s\<lparr>pending := pending s @ [67] @ d, cat_content := (cat_content s)(st \<mapsto> x\<lparr>chunk_index := (chunk_index x)(d \<mapsto> n)\<rparr>)\<rparr>"
  have "media_register_chunk d s = (Ok (), ?s)" "apply_entry (ChunkE d) (in_memory s) = Some (in_memory ?s)"
    using x Cons.prems(1) by (simp_all add: media_register_chunk_def in_memory_def)
  moreover obtain s' where "register_chunks ds ?s = (Ok (), s')" "current_archive s' = Some (u, n, st)" "cat_file s' = cat_file s"
    "pending s' = pending ?s @ concat (map (encode_entry pad) (map ChunkE ds))" "replay (map ChunkE ds) (in_memory ?s) = Some (in_memory s')"
    using Cons.IH [of ?s] Cons.prems(1) by auto
  ultimately show ?case by simp
qed simp

lemma entry_or_default_in: "entry_or_default st m st \<noteq> None"
  by (simp add: entry_or_default_def split: option.splits)

lemma register_chunk_archive_logged:
  assumes "logged pad parse media_id s es" "length u = 16" "n < 2 ^ 64" "from_utf8 store" "\<forall>d \<in> set ds. length d = 32"
    "register_chunk_archive pad u n store ds s = (r, s')"
  shows "\<exists>es'. logged pad parse media_id s' es'"
proof (cases "is_ok (check_start_chunk_archive n s) \<and> length store < 256")
  case True
  let ?s = "s\<lparr>pending := pending s @ [65] @ start_bytes pad \<lparr>as_file_number = n, as_uuid = u, as_store_name_len = length store\<rparr> @ store,
      cat_content := entry_or_default store (cat_content s), current_archive := Some (u, n, store)\<rparr>"
  have start: "start_chunk_archive pad u n store s = (Ok (), ?s)" using True by (auto simp: start_chunk_archive_def is_ok_iff)
  obtain s2 where s2: "register_chunks ds ?s = (Ok (), s2)" "current_archive s2 = Some (u, n, store)" "cat_file s2 = cat_file s"
    "pending s2 = pending ?s @ concat (map (encode_entry pad) (map ChunkE ds))" "replay (map ChunkE ds) (in_memory ?s) = Some (in_memory s2)"
    using register_chunks_logged [of ?s u n store ds pad] entry_or_default_in by auto
  have s': "s' = s2\<lparr>current_archive := None, pending := pending s2 @ [69] @ end_bytes \<lparr>ae_file_number = n, ae_uuid = u\<rparr>, last_entry := Some (u, n)\<rparr>"
    using assms(6) start s2(1,2) by (simp add: register_chunk_archive_def end_chunk_archive_def)
  have "apply_entry (StartE u n store) (in_memory s) = Some (in_memory ?s)" using True by (simp add: in_memory_def checks_in_memory [unfolded in_memory_def])
  moreover have "apply_entry (EndE u n) (in_memory s2) = Some (in_memory s')"
    using s2(2) by (simp add: s' check_end_chunk_archive_def) (simp add: in_memory_def)
  ultimately have "replay (StartE u n store # map ChunkE ds @ [EndE u n]) (in_memory s) = Some (in_memory s')"
    using s2(5) by (simp add: replay_append)
  then have "logged pad parse media_id s' (es @ StartE u n store # map ChunkE ds @ [EndE u n])"
    using assms(2-5) True s2(3,4) by (intro logged_extend [OF assms(1)]) (auto simp: s')
  then show ?thesis by blast
next
  case False
  then have "s' = s"
    using assms(6) by (auto simp: register_chunk_archive_def start_chunk_archive_def is_ok_def split: sum.splits if_splits)
  then show ?thesis using assms(1) by blast
qed

lemma commit_logged:
  assumes "logged pad parse media_id s es" "commit io s = (r, s')" "case io of None \<Rightarrow> True | Some (LockFails e) \<Rightarrow> True | _ \<Rightarrow> False"
  shows "logged pad parse media_id s' es"
  using assms by (auto simp: commit_def logged_def in_memory_def split: if_splits option.splits commit_fault.splits)

text \<open>Whatever is logged and committed is loaded again.\<close>

lemma logged_loads:
  assumes "catalog_reads fr" "pad_ok pad" "logged pad parse media_id s es" "pending s = []" "cat_file s = Some f"
  shows "open_catalog fr parse media_id wr f = Some (Ok (s\<lparr>cat_file := if wr then Some f else None\<rparr>))"
proof -
  have f: "f = PROXMOX_BACKUP_MEDIA_CATALOG_MAGIC_1_1 @ concat (map (encode_entry pad) es)"
    "replay es (MediaCatalog_empty (ml_uuid (mi_label media_id))) = Some (in_memory s)" "\<forall>e \<in> set es. entry_valid parse (mi_media_set_label media_id) e"
    using assms(3-5) by (auto simp: logged_def)
  obtain m' where "load_catalog fr parse (mi_media_set_label media_id) f (MediaCatalog_empty (ml_uuid (mi_label media_id))) = Some (Ok (True, m', in_memory s))"
    using catalog_reads.load_catalog_replay [OF assms(1,2) f(3,2)] f(1) by blast
  moreover have "(in_memory s)\<lparr>cat_file := x\<rparr> = s\<lparr>cat_file := x\<rparr>" for x using assms(4) by (simp add: in_memory_def)
  ultimately show ?thesis by (simp add: open_catalog_def) (simp add: in_memory_def assms(4))
qed

section \<open>Properties\<close>

datatype ('n, 'b) catalog_op =
    RegisterSnapshot uuid nat str 'n 'b
  | RegisterChunkArchive uuid nat str "digest list"
  | Commit "err option"

fun run_op :: "('n \<Rightarrow> 'b \<Rightarrow> str) \<Rightarrow> (nat \<Rightarrow> bytes) \<Rightarrow> ('n, 'b) catalog_op \<Rightarrow> MediaCatalog \<Rightarrow> (err, unit) result \<times> MediaCatalog" where
  "run_op prt pad (RegisterSnapshot u n store ns b) s = register_snapshot prt pad u n store ns b s"
| "run_op prt pad (RegisterChunkArchive u n store ds) s = register_chunk_archive pad u n store ds s"
| "run_op prt pad (Commit e) s = commit (map_option LockFails e) s"

definition run_ops :: "('n \<Rightarrow> 'b \<Rightarrow> str) \<Rightarrow> (nat \<Rightarrow> bytes) \<Rightarrow> ('n, 'b) catalog_op list \<Rightarrow> MediaCatalog \<Rightarrow> MediaCatalog" where
  "run_ops prt pad ops s = fold (\<lambda>op s. snd (run_op prt pad op s)) ops s"

fun op_ok :: "('n \<Rightarrow> 'b \<Rightarrow> str) \<Rightarrow> ('n, 'b) catalog_op \<Rightarrow> bool" where
  "op_ok prt (RegisterSnapshot u n store ns b) \<longleftrightarrow> length u = 16 \<and> n < 2 ^ 64 \<and> from_utf8 store \<and> from_utf8 (prt ns b)"
| "op_ok prt (RegisterChunkArchive u n store ds) \<longleftrightarrow> length u = 16 \<and> n < 2 ^ 64 \<and> from_utf8 store \<and> (\<forall>d \<in> set ds. length d = 32)"
| "op_ok prt (Commit e) \<longleftrightarrow> True"

lemma run_ops_logged:
  assumes "\<And>ns b. parse (prt ns b) = Ok ()"
  shows "\<forall>op \<in> set ops. op_ok prt op \<Longrightarrow> logged pad parse media_id s es \<Longrightarrow> \<exists>es'. logged pad parse media_id (run_ops prt pad ops s) es'"
proof (induction ops arbitrary: s es)
  case (Cons op ops)
  obtain r s1 where s1: "run_op prt pad op s = (r, s1)" by fastforce
  have "\<exists>es'. logged pad parse media_id s1 es'"
  proof (cases op)
    case (RegisterSnapshot u n store ns b)
    then show ?thesis using register_snapshot_logged [OF Cons.prems(2), of u n store prt ns b] assms Cons.prems(1) s1 by simp
  next
    case (RegisterChunkArchive u n store ds)
    then show ?thesis using register_chunk_archive_logged [OF Cons.prems(2), of u n store ds] Cons.prems(1) s1 by simp
  next
    case (Commit e)
    then show ?thesis using commit_logged [OF Cons.prems(2), of "map_option LockFails e" r s1] s1 by (cases e) auto
  qed
  then show ?case using Cons.IH [of s1] Cons.prems(1) s1 by (auto simp: run_ops_def)
qed (auto simp: run_ops_def)

lemma create_logged:
  assumes "create_temporary_database None media_id = Ok s" "length (ml_uuid (mi_label media_id)) = 16"
    "\<forall>sl. mi_media_set_label media_id = Some sl \<longrightarrow> length (ms_uuid sl) = 16 \<and> ms_seq_nr sl < 2 ^ 64"
  shows "\<exists>es. logged pad parse media_id s es"
proof -
  let ?u = "ml_uuid (mi_label media_id)"
  let ?s0 = "(MediaCatalog_empty ?u)\<lparr>cat_file := Some [], pending := PROXMOX_BACKUP_MEDIA_CATALOG_MAGIC_1_1\<rparr>"
  have 0: "logged pad parse media_id ?s0 []" by (simp add: logged_def in_memory_def MediaCatalog_empty_def)
  obtain s1 where s1: "register_label ?u 0 0 ?s0 = (Ok (), s1)" using assms(1) by (auto simp: create_temporary_database_def Let_def split: prod.splits sum.splits)
  obtain es1 where 1: "logged pad parse media_id s1 es1" using register_label_logged [OF 0 _ s1] assms(2) by auto
  obtain s2 where s2: "(case mi_media_set_label media_id of None \<Rightarrow> (Ok (), s1) | Some sl \<Rightarrow> register_label (ms_uuid sl) (ms_seq_nr sl) 1 s1) = (Ok (), s2)"
    "commit None s2 = (Ok (), s)"
    using assms(1) s1 by (auto simp: create_temporary_database_def Let_def split: prod.splits sum.splits)
  have "\<exists>es2. logged pad parse media_id s2 es2"
  proof (cases "mi_media_set_label media_id")
    case (Some sl)
    then show ?thesis using register_label_logged [OF 1, of "ms_uuid sl" "ms_seq_nr sl" 1 "Ok ()" s2] s2(1) assms(3) by simp
  qed (use s2 1 in auto)
  then show ?thesis using commit_logged [OF _ s2(2)] by (metis option.case(1))
qed

text \<open>
  C31. The catalog of a tape survives on disk: a new catalog, on which any snapshots and chunk archives were registered, in
  any order and with any calls refused, and which was committed at any time, is loaded again from its file, once
  nothing is pending, with the same content and the same last entry, whatever the padding bytes of the entries are. A commit that could not get its lock does no harm.
\<close>

theorem media_catalog_round_trip:
  assumes "catalog_reads fr" "pad_ok pad" "\<And>ns b. parse (prt ns b) = Ok ()" "create_temporary_database None media_id = Ok s0"
    "length (ml_uuid (mi_label media_id)) = 16"
    "\<forall>sl. mi_media_set_label media_id = Some sl \<longrightarrow> length (ms_uuid sl) = 16 \<and> ms_seq_nr sl < 2 ^ 64"
    "\<forall>op \<in> set ops. op_ok prt op" "pending (run_ops prt pad ops s0) = []"
  shows "\<exists>f. cat_file (run_ops prt pad ops s0) = Some f \<and>
    open_catalog fr parse media_id True f = Some (Ok (run_ops prt pad ops s0))"
proof -
  obtain es0 where "logged pad parse media_id s0 es0" using create_logged [OF assms(4-6)] by blast
  then obtain es where es: "logged pad parse media_id (run_ops prt pad ops s0) es" using run_ops_logged [of parse prt, OF assms(3,7)] by blast
  then obtain f where f: "cat_file (run_ops prt pad ops s0) = Some f" by (auto simp: logged_def)
  then have "(run_ops prt pad ops s0)\<lparr>cat_file := Some f\<rparr> = run_ops prt pad ops s0" by (cases "run_ops prt pad ops s0") simp
  then show ?thesis using f logged_loads [OF assms(1,2) es assms(8) f, of True] by simp
qed

definition example_media :: MediaId where
  "example_media = \<lparr>mi_label = \<lparr>ml_uuid = replicate 16 1, ml_label_text = [97], ml_ctime = 0, ml_pool = None\<rparr>,
     mi_media_set_label = Some (MediaSetLabel_with_data [112] (replicate 16 2) 0 0 None)\<rparr>"

definition example_ops :: "(unit, unit) catalog_op list" where
  "example_ops = [RegisterChunkArchive (replicate 16 3) 2 [115] [replicate 32 9], RegisterSnapshot (replicate 16 4) 1 [115] () (),
     Commit (Some ''locked''), RegisterSnapshot (replicate 16 4) 3 [115] () (), Commit None]"

theorem media_catalog_round_trip_witness:
  "\<exists>s0 f s. create_temporary_database None example_media = Ok s0 \<and>
     open_catalog plain_reads (\<lambda>_. Ok ()) example_media True f = Some (Ok s) \<and> f = the (cat_file (run_ops (\<lambda>_ _. [120]) (\<lambda>n. replicate n 0) example_ops s0)) \<and>
     media_lookup_chunk [115] (replicate 32 9) s = Some 2 \<and> lookup_snapshot [115] [120] s = Some 3"
proof -
  let ?prt = "\<lambda>(_::unit) (_::unit). [120] :: bytes" and ?pad = "\<lambda>n. replicate n (0::u8)"
  obtain s0 where s0: "create_temporary_database None example_media = Ok s0" "pending (run_ops ?prt ?pad example_ops s0) = []"
    "media_lookup_chunk [115] (replicate 32 9) (run_ops ?prt ?pad example_ops s0) = Some 2" "lookup_snapshot [115] [120] (run_ops ?prt ?pad example_ops s0) = Some 3"
  proof -
    define s0 where "s0 = \<lparr>cat_uuid = replicate 16 1, cat_file = Some (PROXMOX_BACKUP_MEDIA_CATALOG_MAGIC_1_1 @
        76 # label_bytes \<lparr>le_file_number = 0, le_uuid = replicate 16 1, le_seq_nr = 0\<rparr> @
        76 # label_bytes \<lparr>le_file_number = 1, le_uuid = replicate 16 2, le_seq_nr = 0\<rparr>),
      current_archive = None, last_entry = Some (replicate 16 2, 1), cat_content = Map.empty, pending = []\<rparr>"
    have w: "wrapping_add 0 1 = 1" "wrapping_add 1 1 = 2" "wrapping_add 2 1 = 3" by (simp_all add: wrapping_add_def)
    have 0: "create_temporary_database None example_media = Ok s0"
      by (simp add: create_temporary_database_def example_media_def MediaSetLabel_with_data_def register_label_def check_register_label_def
          MediaCatalog_empty_def expected_file_number_def commit_def w [simplified] s0_def)
    note defs = Let_def run_ops_def example_ops_def register_chunk_archive_def start_chunk_archive_def check_start_chunk_archive_def
      media_register_chunk_def entry_or_default_def end_chunk_archive_def media_lookup_chunk_def DatastoreContent_new_def s0_def
      expected_file_number_def w [simplified] commit_def register_snapshot_def check_register_snapshot_def insert_snapshot_def lookup_snapshot_def
    show ?thesis
    proof (rule that [OF 0])
      show "pending (run_ops ?prt ?pad example_ops s0) = []" by (simp add: defs)
      show "media_lookup_chunk [115] (replicate 32 9) (run_ops ?prt ?pad example_ops s0) = Some 2" by (simp add: defs)
      show "lookup_snapshot [115] [120] (run_ops ?prt ?pad example_ops s0) = Some 3" by (simp add: defs)
    qed
  qed
  have "\<forall>op \<in> set example_ops. op_ok ?prt op" by (simp add: example_ops_def)
  then obtain f where "cat_file (run_ops ?prt ?pad example_ops s0) = Some f"
    "open_catalog plain_reads (\<lambda>_. Ok ()) example_media True f = Some (Ok (run_ops ?prt ?pad example_ops s0))"
    using media_catalog_round_trip [OF plain.catalog_reads_axioms _ _ s0(1) _ _ _ s0(2), of "\<lambda>_. Ok ()"]
    by (auto simp: pad_ok_def example_media_def MediaSetLabel_with_data_def)
  then show ?thesis using s0 by (intro exI conjI) auto
qed

lemma register_chunks_lookup:
  assumes "register_chunks ds s = (Ok (), s')" "current_archive s = Some (u, n, st)"
  shows "media_lookup_chunk st' d s' = (if st' = st \<and> d \<in> set ds then Some n else media_lookup_chunk st' d s) \<and>
    lookup_snapshot st' p s' = lookup_snapshot st' p s \<and> current_archive s' = current_archive s"
  using assms
proof (induction ds arbitrary: s)
  case (Cons x ds)
  obtain s1 where s1: "media_register_chunk x s = (Ok (), s1)" "register_chunks ds s1 = (Ok (), s')"
    using Cons.prems(1) by (auto split: prod.splits sum.splits)
  then have "current_archive s1 = Some (u, n, st)"
    "media_lookup_chunk st' d s1 = (if st' = st \<and> d = x then Some n else media_lookup_chunk st' d s)" "lookup_snapshot st' p s1 = lookup_snapshot st' p s"
    using Cons.prems(2) by (auto simp: Let_def media_register_chunk_def media_lookup_chunk_def lookup_snapshot_def split: option.splits if_splits)
  then show ?case using Cons.IH [OF s1(2)] Cons.prems(2) by auto
qed simp

text \<open>
  A chunk archive is registered as a whole: after \<^verbatim>\<open>register_chunk_archive\<close> succeeded every chunk of the list is looked
  up with the number of the archive's file, and no other chunk or snapshot of any datastore changed. It is refused,
  without any change, inside another archive, for the files of the labels, for a number not after that of the last
  entry and for a store name that is too long, and in no other case.
\<close>

theorem register_chunk_archive_exact:
  "case register_chunk_archive pad u n store ds s of
     (Inr _, s') \<Rightarrow> (\<forall>st d p. media_lookup_chunk st d s' = (if st = store \<and> d \<in> set ds then Some n else media_lookup_chunk st d s) \<and>
        lookup_snapshot st p s' = lookup_snapshot st p s) \<and> last_entry s' = Some (u, n) \<and> current_archive s' = None
   | (Inl _, s') \<Rightarrow> s' = s \<and> ((\<exists>a. current_archive s = Some a) \<or> n < 2 \<or> n < expected_file_number s \<or> 256 \<le> length store)"
proof (cases "is_ok (check_start_chunk_archive n s) \<and> length store < 256")
  case True
  let ?s = "s\<lparr>pending := pending s @ [65] @ start_bytes pad \<lparr>as_file_number = n, as_uuid = u, as_store_name_len = length store\<rparr> @ store,
      cat_content := entry_or_default store (cat_content s), current_archive := Some (u, n, store)\<rparr>"
  have start: "start_chunk_archive pad u n store s = (Ok (), ?s)" using True by (auto simp: start_chunk_archive_def is_ok_iff)
  obtain s2 where s2: "register_chunks ds ?s = (Ok (), s2)" "current_archive s2 = Some (u, n, store)"
    using register_chunks_logged [of ?s u n store ds pad] entry_or_default_in by auto
  have "media_lookup_chunk st d ?s = media_lookup_chunk st d s" "lookup_snapshot st p ?s = lookup_snapshot st p s" for st d p
    by (auto simp: media_lookup_chunk_def lookup_snapshot_def entry_or_default_def DatastoreContent_new_def split: option.splits)
  then show ?thesis using start s2 register_chunks_lookup [OF s2(1), of u n store]
    by (simp add: register_chunk_archive_def end_chunk_archive_def) (simp add: media_lookup_chunk_def lookup_snapshot_def)
next
  case False
  then show ?thesis
    by (auto simp: register_chunk_archive_def start_chunk_archive_def check_start_chunk_archive_def split: if_splits)
qed

text \<open>Switching to the next tape does not lose a chunk, if the catalog of the new tape has what an older version of it had.\<close>

lemma append_catalog_keeps:
  assumes "catalog_set_contains_chunk store d s" "append_catalog c s = (Ok u, s')"
    "\<And>c'. c' \<in> set (media_set_catalog s) \<or> set_catalog s = Some c' \<Longrightarrow> cat_uuid c' = cat_uuid c \<Longrightarrow> contains_chunk store d c' \<Longrightarrow> contains_chunk store d c"
  shows "catalog_set_contains_chunk store d s'"
  using assms
  by (fastforce simp: catalog_set_contains_chunk_def append_catalog_def set_append_catalog_def set_remove_catalog_def set_contains_chunk_def
      list_ex_iff split: option.splits if_splits)

end
