(* ===== verification/BTreeMap.thy ===== *)
theory BTreeMap
  imports Prelude "HOL-Library.List_Lexorder"
begin

text \<open>
  \<^verbatim>\<open>BTreeMap\<close> of the standard library as the list of its entries in the order of the keys: insert, remove, lookup,
  and the fact that the entries are determined by the lookups. Keys that are byte strings are ordered
  lexicographically, as \<^verbatim>\<open>Ord\<close> of \<^verbatim>\<open>[u8]\<close> and \<^verbatim>\<open>String\<close>.
\<close>

type_synonym ('k, 'v) btree = "('k \<times> 'v) list"

definition bt_wf :: "('k :: linorder, 'v) btree \<Rightarrow> bool" where
  "bt_wf m \<longleftrightarrow> sorted_wrt (<) (map fst m)"

fun bt_insert :: "'k :: linorder \<Rightarrow> 'v \<Rightarrow> ('k, 'v) btree \<Rightarrow> ('k, 'v) btree" where
  "bt_insert k v [] = [(k, v)]"
| "bt_insert k v ((k', v') # m) =
     (if k < k' then (k, v) # (k', v') # m else if k = k' then (k, v) # m else (k', v') # bt_insert k v m)"

definition bt_remove :: "'k \<Rightarrow> ('k, 'v) btree \<Rightarrow> ('k, 'v) btree" where
  "bt_remove k m = filter (\<lambda>(k', _). k' \<noteq> k) m"

definition bt_values :: "('k, 'v) btree \<Rightarrow> 'v list" where
  "bt_values m = map snd m"

definition bt_keys :: "('k, 'v) btree \<Rightarrow> 'k list" where
  "bt_keys m = map fst m"

text \<open>A loop that inserts one entry after the other.\<close>

definition bt_collect :: "('k :: linorder \<times> 'v) list \<Rightarrow> ('k, 'v) btree" where
  "bt_collect xs = fold (\<lambda>(k, v). bt_insert k v) xs []"

lemma bt_wf_Nil [simp]: "bt_wf []"
  by (simp add: bt_wf_def)

lemma bt_wf_Cons: "bt_wf ((k, v) # m) \<longleftrightarrow> (\<forall>k' \<in> fst ` set m. k < k') \<and> bt_wf m"
  by (auto simp: bt_wf_def)

lemma bt_insert_keys [simp]: "fst ` set (bt_insert k v m) = insert k (fst ` set m)"
proof (induction m)
  case (Cons a m)
  then show ?case by (cases a) (simp add: insert_commute)
qed simp

lemma bt_wf_insert [simp, intro]: "bt_wf m \<Longrightarrow> bt_wf (bt_insert k v m)"
proof (induction m)
  case (Cons a m)
  obtain k' v' where a: "a = (k', v')" by fastforce
  have m: "\<forall>x \<in> fst ` set m. k' < x" "bt_wf m" using Cons.prems unfolding a bt_wf_Cons by blast+
  have "\<forall>x \<in> fst ` set (bt_insert k v m). k' < x" if "k' < k" using m(1) that unfolding bt_insert_keys by blast
  moreover have "\<forall>x \<in> fst ` set ((k', v') # m). k < x" if "k < k'" using m(1) that less_trans [OF that] by auto
  ultimately show ?case using m Cons.IH [OF m(2)] unfolding a bt_insert.simps by (simp only: bt_wf_Cons split: if_split) (auto simp only: not_less_iff_gr_or_eq)
qed (simp add: bt_wf_Cons)

lemma map_of_bt_insert [simp]: "map_of (bt_insert k v m) = (map_of m)(k \<mapsto> v)"
  by (induction m) (auto simp: fun_eq_iff)

lemma bt_wf_remove [simp, intro]: "bt_wf m \<Longrightarrow> bt_wf (bt_remove k m)"
  by (induction m) (auto simp: bt_wf_Cons bt_remove_def)

lemma map_of_bt_remove [simp]: "map_of (bt_remove k m) = (map_of m)(k := None)"
  by (induction m) (auto simp: fun_eq_iff bt_remove_def)

lemma bt_wf_distinct: "bt_wf m \<Longrightarrow> distinct (map fst m)"
  by (simp add: bt_wf_def strict_sorted_iff)

lemma bt_in_set: "bt_wf m \<Longrightarrow> (k, v) \<in> set m \<longleftrightarrow> map_of m k = Some v"
  by (simp add: bt_wf_distinct)

lemma bt_eqI:
  assumes "bt_wf m" "bt_wf m'" "map_of m = map_of m'"
  shows "m = m'"
proof -
  have m: "set m = set m'" using bt_in_set [OF assms(1)] bt_in_set [OF assms(2)] assms(3) by auto
  have "inj_on fst (set m \<union> set m')" using bt_wf_distinct [OF assms(2)] by (simp add: m distinct_map)
  then show ?thesis
    using m assms(1,2) by (intro map_sorted_distinct_set_unique) (auto simp: bt_wf_def strict_sorted_iff)
qed

lemma bt_wf_update:
  assumes "bt_wf m"
  shows "bt_wf (map (\<lambda>(k, v). (k, f k v)) m)"
proof -
  have "map fst (map (\<lambda>(k, v). (k, f k v)) m) = map fst m" by (induction m) auto
  then show ?thesis using assms by (simp add: bt_wf_def del: map_map)
qed

lemma map_of_bt_update: "map_of (map (\<lambda>(k, v). (k, f k v)) m) k = map_option (f k) (map_of m k)"
  by (induction m) auto

lemma bt_collect_wf [simp]: "bt_wf (bt_collect xs)"
proof -
  have "bt_wf m \<Longrightarrow> bt_wf (fold (\<lambda>(k, v). bt_insert k v) xs m)" for m by (induction xs arbitrary: m) auto
  then show ?thesis by (simp add: bt_collect_def)
qed

lemma map_of_bt_collect: "map_of (bt_collect xs) = map_of (rev xs)"
proof -
  have "map_of (fold (\<lambda>(k, v). bt_insert k v) xs m) = map_of m ++ map_of (rev xs)" for m
    by (induction xs arbitrary: m) (auto simp: map_add_def fun_eq_iff split: option.split)
  then show ?thesis by (simp add: bt_collect_def)
qed

text \<open>Collecting the entries of a map gives the map back.\<close>

lemma bt_collect_same: "bt_wf m \<Longrightarrow> bt_collect m = m"
proof (rule bt_eqI)
  assume "bt_wf m"
  then have "distinct (map fst (rev m))" "distinct (map fst m)" by (simp_all add: bt_wf_distinct flip: rev_map)
  then show "map_of (bt_collect m) = map_of m"
    by (simp only: map_of_bt_collect) (metis map_of_inject_set set_rev)
qed simp_all

end
