(* ===== verification/Codec.thy ===== *)
theory Codec
  imports Prelude
begin

text \<open>
  Encodings of data as bytes that can be read back from the front of a list, composed from those of the parts.
  They are the instances of the serialization interfaces of the components whose files are written and read by
  other crates.
\<close>

type_synonym 'a codec = "('a \<Rightarrow> bytes) \<times> (bytes \<Rightarrow> 'a \<times> bytes)"

definition enc :: "'a codec \<Rightarrow> 'a \<Rightarrow> bytes" where
  "enc c = fst c"

definition dec :: "'a codec \<Rightarrow> bytes \<Rightarrow> 'a \<times> bytes" where
  "dec c = snd c"

definition codec_ok :: "'a codec \<Rightarrow> bool" where
  "codec_ok c \<longleftrightarrow> (\<forall>x rest. dec c (enc c x @ rest) = (x, rest))"

named_theorems codec_intros

lemma enc_dec_simps [simp]: "enc (f, g) = f" "dec (f, g) = g"
  by (simp_all add: enc_def dec_def)

lemma codec_okD: "codec_ok c \<Longrightarrow> dec c (enc c x @ rest) = (x, rest)"
  by (simp add: codec_ok_def)

definition c_byte :: "u8 codec" where
  "c_byte = (\<lambda>b. [b], \<lambda>bs. (hd bs, tl bs))"

definition c_nat :: "nat codec" where
  "c_nat = (\<lambda>n. replicate n 1 @ [0], \<lambda>bs. (length (takeWhile (\<lambda>b. b = 1) bs), tl (dropWhile (\<lambda>b. b = 1) bs)))"

definition c_pair :: "'a codec \<Rightarrow> 'b codec \<Rightarrow> ('a \<times> 'b) codec" where
  "c_pair c d = (\<lambda>(x, y). enc c x @ enc d y, \<lambda>bs. case dec c bs of (x, r) \<Rightarrow> (case dec d r of (y, r') \<Rightarrow> ((x, y), r')))"

definition c_option :: "'a codec \<Rightarrow> 'a option codec" where
  "c_option c =
     (\<lambda>x. case x of None \<Rightarrow> [0] | Some y \<Rightarrow> 1 # enc c y,
      \<lambda>bs. if hd bs = 0 then (None, tl bs) else (case dec c (tl bs) of (y, r) \<Rightarrow> (Some y, r)))"

fun dec_many :: "(bytes \<Rightarrow> 'a \<times> bytes) \<Rightarrow> nat \<Rightarrow> bytes \<Rightarrow> 'a list \<times> bytes" where
  "dec_many d 0 bs = ([], bs)"
| "dec_many d (Suc n) bs = (case d bs of (x, r) \<Rightarrow> (case dec_many d n r of (xs, r') \<Rightarrow> (x # xs, r')))"

definition c_list :: "'a codec \<Rightarrow> 'a list codec" where
  "c_list c = (\<lambda>xs. enc c_nat (length xs) @ concat (map (enc c) xs), \<lambda>bs. case dec c_nat bs of (n, r) \<Rightarrow> dec_many (dec c) n r)"

text \<open>A type that is represented in another one.\<close>

definition c_map :: "('a \<Rightarrow> 'b) \<Rightarrow> ('b \<Rightarrow> 'a) \<Rightarrow> 'b codec \<Rightarrow> 'a codec" where
  "c_map f g c = (\<lambda>x. enc c (f x), \<lambda>bs. case dec c bs of (y, r) \<Rightarrow> (g y, r))"

definition c_int :: "int codec" where
  "c_int = c_map (\<lambda>i. (if i < 0 then 1 else 0, nat \<bar>i\<bar>)) (\<lambda>(b, n). if b = 0 then int n else - int n) (c_pair c_byte c_nat)"

lemma c_byte_ok [codec_intros]: "codec_ok c_byte"
  by (simp add: codec_ok_def c_byte_def)

lemma takeWhile_ones: "takeWhile (\<lambda>b. b = 1) (replicate n 1 @ (0 :: u8) # rest) = replicate n 1"
  "dropWhile (\<lambda>b. b = 1) (replicate n 1 @ (0 :: u8) # rest) = 0 # rest"
  by (induction n) simp_all

lemma c_nat_ok [codec_intros]: "codec_ok c_nat"
  by (simp add: codec_ok_def c_nat_def takeWhile_ones)

lemma c_pair_ok [codec_intros]: "codec_ok c \<Longrightarrow> codec_ok d \<Longrightarrow> codec_ok (c_pair c d)"
  by (simp add: codec_ok_def c_pair_def)

lemma c_option_ok [codec_intros]: "codec_ok c \<Longrightarrow> codec_ok (c_option c)"
  by (simp add: codec_ok_def c_option_def split: option.split)

lemma dec_many_ok: "codec_ok c \<Longrightarrow> dec_many (dec c) (length xs) (concat (map (enc c) xs) @ rest) = (xs, rest)"
  by (induction xs) (simp_all add: codec_okD)

lemma c_list_ok [codec_intros]: "codec_ok c \<Longrightarrow> codec_ok (c_list c)"
proof -
  assume "codec_ok c"
  then have "dec (c_list c) (enc (c_list c) xs @ rest) = (xs, rest)" for xs rest
    by (simp add: c_list_def codec_okD [OF c_nat_ok] dec_many_ok)
  then show ?thesis by (simp add: codec_ok_def)
qed

lemma c_map_ok: "codec_ok c \<Longrightarrow> (\<And>x. g (f x) = x) \<Longrightarrow> codec_ok (c_map f g c)"
  by (simp add: codec_ok_def c_map_def)

lemma c_int_ok [codec_intros]: "codec_ok c_int"
  unfolding c_int_def by (rule c_map_ok) (auto intro: codec_intros)

text \<open>Encoding and decoding of a whole file; bytes that are left over are an error.\<close>

definition write_all_of :: "'a codec \<Rightarrow> 'a \<Rightarrow> (err, bytes) result" where
  "write_all_of c x = Ok (enc c x)"

definition read_all_of :: "'a codec \<Rightarrow> bytes \<Rightarrow> (err, 'a) result" where
  "read_all_of c bs = (case dec c bs of (x, r) \<Rightarrow> (if r = [] then Ok x else Err ''trailing characters''))"

lemma read_write_all: "codec_ok c \<Longrightarrow> write_all_of c x = Ok raw \<Longrightarrow> read_all_of c raw = Ok x"
  using codec_okD [of c x "[]"] by (auto simp: write_all_of_def read_all_of_def)

end
