(* ===== verification/Inventory.thy ===== *)
theory Inventory
  imports BTreeMap Codec MediaCatalog
begin

text \<open>
  The inventory of backup media (\<^verbatim>\<open>src/tape/inventory.rs\<close>), media sets (\<^verbatim>\<open>src/tape/media_set.rs\<close>), the status of a
  tape changer (\<^verbatim>\<open>pbs-tape/src/lib.rs\<close>) and which media are online (\<^verbatim>\<open>src/tape/changer/online_status_map.rs\<close>). The
  inventory is a file that every change reads, modifies and replaces under a lock; an \<open>Inventory\<close> in memory is
  what was read last. The JSON encoding, calendar events and time spans of other crates are parameters.
\<close>

section \<open>Media sets\<close>

record MediaSet =
  set_uuid :: uuid
  media_list :: "uuid option list"

definition MediaSet_new :: "uuid \<Rightarrow> MediaSet" where
  "MediaSet_new generated = \<lparr>set_uuid = generated, media_list = []\<rparr>"

definition MediaSet_with_data :: "uuid \<Rightarrow> uuid option list \<Rightarrow> MediaSet" where
  "MediaSet_with_data uuid l = \<lparr>set_uuid = uuid, media_list = l\<rparr>"

definition add_media :: "uuid \<Rightarrow> MediaSet \<Rightarrow> MediaSet" where
  "add_media uuid s = s\<lparr>media_list := media_list s @ [Some uuid]\<rparr>"

text \<open>\<^verbatim>\<open>Vec::resize\<close>; \<open>seq_nr + 1\<close> wraps for the largest number, and the index after it is then out of range.\<close>

definition resize :: "nat \<Rightarrow> 'a \<Rightarrow> 'a list \<Rightarrow> 'a list" where
  "resize n x xs = take n xs @ replicate (n - length xs) x"

definition insert_media :: "uuid \<Rightarrow> nat \<Rightarrow> MediaSet \<Rightarrow> (err, MediaSet) result option" where
  "insert_media uuid seq_nr s =
     (if length (media_list s) > seq_nr then
        (if media_list s ! seq_nr \<noteq> None then Some (Err ''found duplicate sequence number in media set'')
         else Some (Ok (s\<lparr>media_list := (media_list s)[seq_nr := Some uuid]\<rparr>)))
      else (let l = resize (wrapping_add seq_nr 1) None (media_list s) in
            if seq_nr < length l then Some (Ok (s\<lparr>media_list := l[seq_nr := Some uuid]\<rparr>)) else None))"

definition last_media_uuid :: "MediaSet \<Rightarrow> uuid option" where
  "last_media_uuid s = (if media_list s = [] then None else last (media_list s))"

definition is_last_media :: "uuid \<Rightarrow> MediaSet \<Rightarrow> bool" where
  "is_last_media uuid s =
     (if media_list s = [] then False else case last (media_list s) of None \<Rightarrow> False | Some last_uuid \<Rightarrow> uuid = last_uuid)"

section \<open>The state of a medium\<close>

datatype MediaStatus = Writable | Full | Damaged | Retired | Unknown

datatype MediaLocation = Online str | Offline | Vault str

record MediaStateEntry =
  st_id :: MediaId
  st_location :: "MediaLocation option"
  st_status :: "MediaStatus option"
  st_bytes_used :: "nat option"

definition media_pool :: "MediaId \<Rightarrow> str option" where
  "media_pool m = (case mi_media_set_label m of Some sl \<Rightarrow> Some (ms_pool sl) | None \<Rightarrow> ml_pool (mi_label m))"

definition get_encryption_fp :: "MediaId \<Rightarrow> (bytes \<times> uuid) option" where
  "get_encryption_fp m =
     (case mi_media_set_label m of
        None \<Rightarrow> None
      | Some l \<Rightarrow> map_option (\<lambda>fp. (fp, ms_uuid l)) (ms_fingerprint l))"

section \<open>The changer status\<close>

datatype ElementStatus = EmptyElement | FullElement | VolumeTag str

record DriveStatus =
  loaded_slot :: "nat option"
  drive_status :: ElementStatus
  drive_serial_number :: "str option"
  drive_vendor :: "str option"
  drive_model :: "str option"
  drive_element_address :: nat

record StorageElementStatus =
  import_export :: bool
  slot_status :: ElementStatus
  slot_element_address :: nat

record TransportElementStatus =
  transport_status :: ElementStatus
  transport_element_address :: nat

record MtxStatus =
  drives :: "DriveStatus list"
  slots :: "StorageElementStatus list"
  transports :: "TransportElementStatus list"

definition slot_address :: "nat \<Rightarrow> MtxStatus \<Rightarrow> (err, nat) result" where
  "slot_address slot s =
     (if slot = 0 then Err ''invalid slot number (slots numbers starts at 1)''
      else if slot > length (slots s) then Err ''invalid slot number (max slots)''
      else Ok (slot_element_address (slots s ! (slot - 1))))"

definition drive_address :: "nat \<Rightarrow> MtxStatus \<Rightarrow> (err, nat) result" where
  "drive_address drivenum s =
     (if drivenum \<ge> length (drives s) then Err ''invalid drive number'' else Ok (drive_element_address (drives s ! drivenum)))"

definition transport_address :: "MtxStatus \<Rightarrow> nat" where
  "transport_address s = (case transports s of [] \<Rightarrow> 0 | t # _ \<Rightarrow> transport_element_address t)"

fun free_slot_from :: "nat \<Rightarrow> bool \<Rightarrow> StorageElementStatus list \<Rightarrow> nat option" where
  "free_slot_from i ie [] = None"
| "free_slot_from i ie (x # xs) =
     (if import_export x \<noteq> ie then free_slot_from (i + 1) ie xs
      else if slot_status x = EmptyElement then Some (i + 1)
      else free_slot_from (i + 1) ie xs)"

definition find_free_slot :: "bool \<Rightarrow> MtxStatus \<Rightarrow> nat option" where
  "find_free_slot ie s = free_slot_from 0 ie (slots s)"

text \<open>The configured export slots are given parsed: the schema parser can fail.\<close>

definition mark_import_export_slots :: "(err, nat set) result option \<Rightarrow> MtxStatus \<Rightarrow> (err, unit) result \<times> MtxStatus" where
  "mark_import_export_slots export_slots s =
     (case export_slots of
        Some (Inl e) \<Rightarrow> (Err e, s)
      | r \<Rightarrow>
          (let exported = (case r of Some (Inr x) \<Rightarrow> x | _ \<Rightarrow> {}) in
           (Ok (), s\<lparr>slots := map (\<lambda>(i, x). if i + 1 \<in> exported then x\<lparr>import_export := True\<rparr> else x) (enumerate 0 (slots s))\<rparr>)))"

section \<open>Online media\<close>

record OnlineStatusMap =
  os_map :: "str \<rightharpoonup> uuid set option"
  changer_map :: "uuid \<rightharpoonup> str"

definition OnlineStatusMap_new :: "str list \<Rightarrow> str list \<Rightarrow> OnlineStatusMap" where
  "OnlineStatusMap_new changers vtapes =
     \<lparr>os_map = fold (\<lambda>name m. m(name \<mapsto> None)) (changers @ vtapes) Map.empty, changer_map = Map.empty\<rparr>"

definition lookup_changer :: "uuid \<Rightarrow> OnlineStatusMap \<Rightarrow> str option" where
  "lookup_changer uuid m = changer_map m uuid"

definition online_map :: "str \<Rightarrow> OnlineStatusMap \<Rightarrow> uuid set option option" where
  "online_map name m = os_map m name"

definition map_update_online_status :: "str \<Rightarrow> uuid set \<Rightarrow> OnlineStatusMap \<Rightarrow> (err, unit) result \<times> OnlineStatusMap" where
  "map_update_online_status name online_set m =
     (case os_map m name of
        None \<Rightarrow> (Err ''no such changer device'', m)
      | Some (Some _) \<Rightarrow> (Err ''update_online_status called twice'', m)
      | Some None \<Rightarrow>
          (Ok (), m\<lparr>changer_map := (\<lambda>u. if u \<in> online_set then Some name else changer_map m u),
                    os_map := (os_map m)(name \<mapsto> Some online_set)\<rparr>))"

section \<open>The inventory\<close>

record Inventory =
  inv_map :: "(uuid, MediaStateEntry) btree"
  media_set_start_times :: "uuid \<rightharpoonup> int"

definition Inventory_new :: Inventory where
  "Inventory_new = \<lparr>inv_map = [], media_set_start_times = Map.empty\<rparr>"

text \<open>
  The file is its contents, or \<open>None\<close> when there is none. \<open>to_json\<close> and \<open>of_json\<close> are the serialization of the list
  of entries; \<open>inv_io\<close> says which of the steps of one change fails.
\<close>

type_synonym disk = "bytes option"

record json_db =
  to_json :: "MediaStateEntry list \<Rightarrow> (err, bytes) result"
  of_json :: "bytes \<Rightarrow> (err, MediaStateEntry list) result"

record inv_io =
  lock_fails :: "err option"
  read_fails :: "err option"
  write_fails :: "err option"

definition entry_uuid :: "MediaStateEntry \<Rightarrow> uuid" where
  "entry_uuid e = ml_uuid (mi_label (st_id e))"

definition load_media_db :: "json_db \<Rightarrow> inv_io \<Rightarrow> disk \<Rightarrow> (err, (uuid, MediaStateEntry) btree) result" where
  "load_media_db J io f =
     (case read_fails io of
        Some e \<Rightarrow> Err e
      | None \<Rightarrow>
          (case (case f of None \<Rightarrow> Ok [] | Some b \<Rightarrow> of_json J b) of
             Inl e \<Rightarrow> Err e
           | Inr l \<Rightarrow> Ok (bt_collect (map (\<lambda>e. (entry_uuid e, e)) l))))"

text \<open>Of several media with sequence number 0 in one set the last one in the order of the map counts.\<close>

definition start_time_step :: "MediaStateEntry \<Rightarrow> (uuid \<rightharpoonup> int) \<Rightarrow> (uuid \<rightharpoonup> int)" where
  "start_time_step e m =
     (case mi_media_set_label (st_id e) of
        None \<Rightarrow> m
      | Some sl \<Rightarrow> (if ms_seq_nr sl = 0 then m(ms_uuid sl \<mapsto> ms_ctime sl) else m))"

definition update_helpers :: "Inventory \<Rightarrow> Inventory" where
  "update_helpers s = s\<lparr>media_set_start_times := fold start_time_step (bt_values (inv_map s)) Map.empty\<rparr>"

definition reload :: "json_db \<Rightarrow> inv_io \<Rightarrow> disk \<Rightarrow> Inventory \<Rightarrow> (err, unit) result \<times> Inventory" where
  "reload J io f s =
     (case load_media_db J io f of
        Inl e \<Rightarrow> (Err e, s)
      | Inr m \<Rightarrow> (Ok (), update_helpers (s\<lparr>inv_map := m\<rparr>)))"

definition Inventory_load :: "json_db \<Rightarrow> inv_io \<Rightarrow> disk \<Rightarrow> (err, Inventory) result" where
  "Inventory_load J io f = (case reload J io f Inventory_new of (Inl e, _) \<Rightarrow> Err e | (Inr _, s) \<Rightarrow> Ok s)"

definition replace_file :: "json_db \<Rightarrow> inv_io \<Rightarrow> disk \<Rightarrow> Inventory \<Rightarrow> (err, unit) result \<times> disk" where
  "replace_file J io f s =
     (case to_json J (bt_values (inv_map s)) of
        Inl e \<Rightarrow> (Err e, f)
      | Inr raw \<Rightarrow> (case write_fails io of Some e \<Rightarrow> (Err e, f) | None \<Rightarrow> (Ok (), Some raw)))"

text \<open>The end of every change: recompute the helpers and write the file.\<close>

definition save :: "json_db \<Rightarrow> inv_io \<Rightarrow> disk \<Rightarrow> Inventory \<Rightarrow> (err, unit) result \<times> disk \<times> Inventory" where
  "save J io f s = (let s' = update_helpers s in case replace_file J io f s' of (r, f') \<Rightarrow> (r, f', s'))"

text \<open>The beginning of every change: lock and load.\<close>

definition locked_load :: "json_db \<Rightarrow> inv_io \<Rightarrow> disk \<Rightarrow> (err, (uuid, MediaStateEntry) btree) result" where
  "locked_load J io f = (case lock_fails io of Some e \<Rightarrow> Err e | None \<Rightarrow> load_media_db J io f)"

definition keep_assignment :: "MediaStateEntry \<Rightarrow> MediaId \<Rightarrow> MediaId" where
  "keep_assignment previous m =
     (case mi_media_set_label m of
        Some _ \<Rightarrow> m
      | None \<Rightarrow>
          (case mi_media_set_label (st_id previous) of
             Some sl \<Rightarrow> (if unassigned sl then m\<lparr>mi_media_set_label := Some sl\<rparr> else m)
           | None \<Rightarrow> m))"

definition stored_entry :: "MediaStateEntry option \<Rightarrow> MediaId \<Rightarrow> bool \<Rightarrow> MediaStateEntry" where
  "stored_entry prev m clear_media_status =
     (case prev of
        Some previous \<Rightarrow>
          \<lparr>st_id = keep_assignment previous m, st_location = st_location previous,
           st_status = (if clear_media_status then None else st_status previous), st_bytes_used = st_bytes_used previous\<rparr>
      | None \<Rightarrow> \<lparr>st_id = m, st_location = None, st_status = None, st_bytes_used = None\<rparr>)"

definition store :: "json_db \<Rightarrow> inv_io \<Rightarrow> MediaId \<Rightarrow> bool \<Rightarrow> disk \<Rightarrow> Inventory \<Rightarrow> (err, unit) result \<times> disk \<times> Inventory" where
  "store J io m clear_media_status f s =
     (case locked_load J io f of
        Inl e \<Rightarrow> (Err e, f, s)
      | Inr db \<Rightarrow>
          (let uuid = ml_uuid (mi_label m);
               db' = bt_insert uuid (stored_entry (map_of db uuid) m clear_media_status) (bt_remove uuid db)
           in save J io f (s\<lparr>inv_map := db'\<rparr>)))"

definition remove_media :: "json_db \<Rightarrow> inv_io \<Rightarrow> uuid \<Rightarrow> disk \<Rightarrow> Inventory \<Rightarrow> (err, unit) result \<times> disk \<times> Inventory" where
  "remove_media J io uuid f s =
     (case locked_load J io f of
        Inl e \<Rightarrow> (Err e, f, s)
      | Inr db \<Rightarrow> save J io f (s\<lparr>inv_map := bt_remove uuid db\<rparr>))"

section \<open>Queries\<close>

definition lookup_media :: "uuid \<Rightarrow> Inventory \<Rightarrow> MediaId option" where
  "lookup_media uuid s = map_option st_id (map_of (inv_map s) uuid)"

definition inv_media_list :: "Inventory \<Rightarrow> uuid list" where
  "inv_media_list s = bt_keys (inv_map s)"

definition find_media_by_label_text :: "str \<Rightarrow> Inventory \<Rightarrow> (err, MediaId option) result" where
  "find_media_by_label_text text s =
     (case filter (\<lambda>m. ml_label_text (mi_label m) = text) (map st_id (bt_values (inv_map s))) of
        [] \<Rightarrow> Ok None
      | [m] \<Rightarrow> Ok (Some m)
      | _ \<Rightarrow> Err ''There are several tapes with the label'')"

definition lookup_media_pool :: "uuid \<Rightarrow> Inventory \<Rightarrow> (str \<times> bool) option" where
  "lookup_media_pool uuid s =
     (case map_of (inv_map s) uuid of
        None \<Rightarrow> None
      | Some e \<Rightarrow>
          (case (ml_pool (mi_label (st_id e)), mi_media_set_label (st_id e)) of
             (_, Some sl) \<Rightarrow> Some (ms_pool sl, unassigned sl)
           | (Some pool, None) \<Rightarrow> Some (pool, True)
           | (None, None) \<Rightarrow> None))"

definition without_reservation :: "MediaId \<Rightarrow> MediaId" where
  "without_reservation m =
     (case mi_media_set_label m of Some sl \<Rightarrow> (if unassigned sl then m\<lparr>mi_media_set_label := None\<rparr> else m) | None \<Rightarrow> m)"

definition list_pool_media :: "str \<Rightarrow> Inventory \<Rightarrow> MediaId list" where
  "list_pool_media pool s =
     map without_reservation (filter (\<lambda>m. media_pool m = Some pool) (map st_id (bt_values (inv_map s))))"

definition list_used_media :: "Inventory \<Rightarrow> MediaId list" where
  "list_used_media s =
     filter (\<lambda>m. case mi_media_set_label m of Some sl \<Rightarrow> \<not> unassigned sl | None \<Rightarrow> False) (map st_id (bt_values (inv_map s)))"

definition list_unassigned_media :: "Inventory \<Rightarrow> MediaId list" where
  "list_unassigned_media s = filter (\<lambda>m. media_pool m = None) (map st_id (bt_values (inv_map s)))"

definition media_set_start_time :: "uuid \<Rightarrow> Inventory \<Rightarrow> int option" where
  "media_set_start_time uuid s = media_set_start_times s uuid"

fun set_pool_loop :: "Inventory \<Rightarrow> uuid \<Rightarrow> str option \<Rightarrow> MediaStateEntry list \<Rightarrow> (err, str option) result" where
  "set_pool_loop s uuid last_pool [] = Ok last_pool"
| "set_pool_loop s uuid last_pool (e # es) =
     (case mi_media_set_label (st_id e) of
        None \<Rightarrow> set_pool_loop s uuid last_pool es
      | Some sl \<Rightarrow>
          (if ms_uuid sl \<noteq> uuid then set_pool_loop s uuid last_pool es
           else (case lookup_media_pool (entry_uuid e) s of
                   None \<Rightarrow> set_pool_loop s uuid last_pool es
                 | Some (pool, _) \<Rightarrow>
                     (case last_pool of
                        Some lp \<Rightarrow>
                          (if lp \<noteq> pool then Err ''detected media set with inconsistent pool assignment - internal error''
                           else set_pool_loop s uuid last_pool es)
                      | None \<Rightarrow> set_pool_loop s uuid (Some pool) es))))"

definition lookup_media_set_pool :: "uuid \<Rightarrow> Inventory \<Rightarrow> (err, str) result" where
  "lookup_media_set_pool uuid s =
     (case set_pool_loop s uuid None (bt_values (inv_map s)) of
        Inl e \<Rightarrow> Err e
      | Inr None \<Rightarrow> Err ''media set is incomplete - unable to lookup pool''
      | Inr (Some pool) \<Rightarrow> Ok pool)"

fun set_members_loop :: "uuid \<Rightarrow> MediaSet \<Rightarrow> MediaStateEntry list \<Rightarrow> (err, MediaSet) result option" where
  "set_members_loop uuid ms [] = Some (Ok ms)"
| "set_members_loop uuid ms (e # es) =
     (case mi_media_set_label (st_id e) of
        None \<Rightarrow> set_members_loop uuid ms es
      | Some sl \<Rightarrow>
          (if ms_uuid sl \<noteq> uuid then set_members_loop uuid ms es
           else (case insert_media (entry_uuid e) (ms_seq_nr sl) ms of
                   None \<Rightarrow> None
                 | Some (Inl er) \<Rightarrow> Some (Err er)
                 | Some (Inr ms') \<Rightarrow> set_members_loop uuid ms' es)))"

definition compute_media_set_members :: "uuid \<Rightarrow> Inventory \<Rightarrow> (err, MediaSet) result option" where
  "compute_media_set_members uuid s = set_members_loop uuid (MediaSet_with_data uuid []) (bt_values (inv_map s))"

fun set_list_loop :: "(uuid \<rightharpoonup> MediaSet) \<Rightarrow> MediaStateEntry list \<Rightarrow> (err, uuid \<rightharpoonup> MediaSet) result option" where
  "set_list_loop m [] = Some (Ok m)"
| "set_list_loop m (e # es) =
     (case mi_media_set_label (st_id e) of
        None \<Rightarrow> set_list_loop m es
      | Some sl \<Rightarrow>
          (let ms = (case m (ms_uuid sl) of Some x \<Rightarrow> x | None \<Rightarrow> MediaSet_with_data (ms_uuid sl) []) in
           case insert_media (entry_uuid e) (ms_seq_nr sl) ms of
             None \<Rightarrow> None
           | Some (Inl er) \<Rightarrow> Some (Err er)
           | Some (Inr ms') \<Rightarrow> set_list_loop (m(ms_uuid sl \<mapsto> ms')) es))"

definition compute_media_set_list :: "Inventory \<Rightarrow> (err, uuid \<rightharpoonup> MediaSet) result option" where
  "compute_media_set_list s = set_list_loop Map.empty (bt_values (inv_map s))"

definition set_labels :: "Inventory \<Rightarrow> MediaSetLabel list" where
  "set_labels s = List.map_filter (\<lambda>e. mi_media_set_label (st_id e)) (bt_values (inv_map s))"

definition latest_step :: "MediaSetLabel \<Rightarrow> (uuid \<times> int) option \<Rightarrow> (uuid \<times> int) option" where
  "latest_step sl last_set =
     (case last_set of
        None \<Rightarrow> Some (ms_uuid sl, ms_ctime sl)
      | Some (u, last_ctime) \<Rightarrow> (if ms_ctime sl > last_ctime then Some (ms_uuid sl, ms_ctime sl) else Some (u, last_ctime)))"

definition latest_media_set :: "str \<Rightarrow> Inventory \<Rightarrow> uuid option" where
  "latest_media_set pool s =
     (let set_list = filter (\<lambda>sl. ms_pool sl = pool \<and> \<not> unassigned sl) (set_labels s) in
      case fold latest_step set_list None of
        None \<Rightarrow> None
      | Some (uuid, ctime) \<Rightarrow>
          (if list_ex (\<lambda>sl. ms_uuid sl \<noteq> uuid \<and> ms_ctime sl \<ge> ctime) set_list then None else Some uuid))"

definition next_start_step :: "int \<Rightarrow> MediaSetLabel \<Rightarrow> int option \<Rightarrow> int option" where
  "next_start_step ctime sl next_ctime =
     (if ms_ctime sl > ctime then
        (case next_ctime of
           None \<Rightarrow> Some (ms_ctime sl)
         | Some n \<Rightarrow> (if ms_ctime sl < n then Some (ms_ctime sl) else Some n))
      else next_ctime)"

definition media_set_next_start_time :: "uuid \<Rightarrow> Inventory \<Rightarrow> int option" where
  "media_set_next_start_time uuid s =
     (case find (\<lambda>sl. ms_uuid sl = uuid) (set_labels s) of
        None \<Rightarrow> None
      | Some found \<Rightarrow>
          fold (next_start_step (ms_ctime found))
            (filter (\<lambda>sl. ms_uuid sl \<noteq> uuid \<and> ms_pool sl = ms_pool found) (set_labels s)) None)"

section \<open>Expiry\<close>

text \<open>The policies of \<^verbatim>\<open>pbs_api_types\<close>, over calendar events \<open>'e\<close> and time spans \<open>'t\<close>; \<open>span_secs\<close> is \<^verbatim>\<open>f64::from(t) as i64\<close>.\<close>

datatype 'e MediaSetPolicy = ContinueCurrent | AlwaysCreate | CreateAt 'e

datatype 't RetentionPolicy = OverwriteAlways | ProtectFor 't | KeepForever

record ('e, 't) time_lib =
  compute_next_event :: "'e \<Rightarrow> int \<Rightarrow> (err, int option) result"
  span_secs :: "'t \<Rightarrow> int"

definition i64_max :: int where
  "i64_max = 2 ^ 63 - 1"

definition i64_add :: "int \<Rightarrow> int \<Rightarrow> int" where
  "i64_add a b = i64_of_bits (i64_bits (a + b))"

text \<open>The time until which the set may be written, or \<open>None\<close> where the source returns \<^verbatim>\<open>i64::MAX\<close>.\<close>

definition max_use_time :: "('e, 't) time_lib \<Rightarrow> uuid \<Rightarrow> int \<Rightarrow> 'e MediaSetPolicy \<Rightarrow> Inventory \<Rightarrow> int option" where
  "max_use_time T uuid set_start_time policy s =
     (case media_set_next_start_time uuid s of
        Some next_start_time \<Rightarrow> (case policy of AlwaysCreate \<Rightarrow> Some set_start_time | _ \<Rightarrow> Some next_start_time)
      | None \<Rightarrow>
          (case policy of
             ContinueCurrent \<Rightarrow> None
           | AlwaysCreate \<Rightarrow> Some set_start_time
           | CreateAt event \<Rightarrow> (case compute_next_event T event set_start_time of Inr (Some n) \<Rightarrow> Some n | _ \<Rightarrow> None)))"

definition media_expire_time ::
  "('e, 't) time_lib \<Rightarrow> MediaId \<Rightarrow> 'e MediaSetPolicy \<Rightarrow> 't RetentionPolicy \<Rightarrow> Inventory \<Rightarrow> int" where
  "media_expire_time T m policy retention s =
     (if retention = KeepForever then i64_max
      else (case mi_media_set_label m of
              None \<Rightarrow> i64_max
            | Some sl \<Rightarrow>
                (let set_start_time = (case media_set_start_time (ms_uuid sl) s of None \<Rightarrow> ms_ctime sl | Some t \<Rightarrow> t) in
                 case max_use_time T (ms_uuid sl) set_start_time policy s of
                   None \<Rightarrow> i64_max
                 | Some t \<Rightarrow>
                     (case retention of
                        KeepForever \<Rightarrow> i64_max
                      | OverwriteAlways \<Rightarrow> t
                      | ProtectFor span \<Rightarrow> i64_add t (span_secs T span)))))"

section \<open>Status and location\<close>

definition status_and_location :: "uuid \<Rightarrow> Inventory \<Rightarrow> MediaStatus \<times> MediaLocation" where
  "status_and_location uuid s =
     (case map_of (inv_map s) uuid of
        None \<Rightarrow> (Unknown, Offline)
      | Some e \<Rightarrow>
          ((case st_status e of None \<Rightarrow> Unknown | Some x \<Rightarrow> x), (case st_location e of None \<Rightarrow> Offline | Some l \<Rightarrow> l)))"

text \<open>Lock, load, change one entry and write; without the entry the loaded map is kept, its helpers are not.\<close>

definition set_entry :: "json_db \<Rightarrow> inv_io \<Rightarrow> uuid \<Rightarrow> (MediaStateEntry \<Rightarrow> MediaStateEntry) \<Rightarrow> disk \<Rightarrow> Inventory \<Rightarrow>
    (err, unit) result \<times> disk \<times> Inventory" where
  "set_entry J io uuid upd f s =
     (case locked_load J io f of
        Inl e \<Rightarrow> (Err e, f, s)
      | Inr db \<Rightarrow>
          (case map_of db uuid of
             None \<Rightarrow> (Err ''no such media'', f, s\<lparr>inv_map := db\<rparr>)
           | Some e \<Rightarrow> save J io f (s\<lparr>inv_map := bt_insert uuid (upd e) db\<rparr>)))"

definition set_media_status :: "json_db \<Rightarrow> inv_io \<Rightarrow> uuid \<Rightarrow> MediaStatus option \<Rightarrow> disk \<Rightarrow> Inventory \<Rightarrow>
    (err, unit) result \<times> disk \<times> Inventory" where
  "set_media_status J io uuid status = set_entry J io uuid (\<lambda>e. e\<lparr>st_status := status\<rparr>)"

definition inv_set_media_status_full :: "json_db \<Rightarrow> inv_io \<Rightarrow> uuid \<Rightarrow> disk \<Rightarrow> Inventory \<Rightarrow> (err, unit) result \<times> disk \<times> Inventory" where
  "inv_set_media_status_full J io uuid = set_media_status J io uuid (Some Full)"

definition inv_set_media_status_damaged :: "json_db \<Rightarrow> inv_io \<Rightarrow> uuid \<Rightarrow> disk \<Rightarrow> Inventory \<Rightarrow> (err, unit) result \<times> disk \<times> Inventory" where
  "inv_set_media_status_damaged J io uuid = set_media_status J io uuid (Some Damaged)"

definition inv_set_media_status_retired :: "json_db \<Rightarrow> inv_io \<Rightarrow> uuid \<Rightarrow> disk \<Rightarrow> Inventory \<Rightarrow> (err, unit) result \<times> disk \<times> Inventory" where
  "inv_set_media_status_retired J io uuid = set_media_status J io uuid (Some Retired)"

definition clear_media_status :: "json_db \<Rightarrow> inv_io \<Rightarrow> uuid \<Rightarrow> disk \<Rightarrow> Inventory \<Rightarrow> (err, unit) result \<times> disk \<times> Inventory" where
  "clear_media_status J io uuid = set_media_status J io uuid None"

definition set_media_location :: "json_db \<Rightarrow> inv_io \<Rightarrow> uuid \<Rightarrow> MediaLocation option \<Rightarrow> disk \<Rightarrow> Inventory \<Rightarrow>
    (err, unit) result \<times> disk \<times> Inventory" where
  "set_media_location J io uuid loc = set_entry J io uuid (\<lambda>e. e\<lparr>st_location := loc\<rparr>)"

definition set_media_location_vault :: "json_db \<Rightarrow> inv_io \<Rightarrow> uuid \<Rightarrow> str \<Rightarrow> disk \<Rightarrow> Inventory \<Rightarrow> (err, unit) result \<times> disk \<times> Inventory" where
  "set_media_location_vault J io uuid vault = set_media_location J io uuid (Some (Vault vault))"

definition set_media_location_offline :: "json_db \<Rightarrow> inv_io \<Rightarrow> uuid \<Rightarrow> disk \<Rightarrow> Inventory \<Rightarrow> (err, unit) result \<times> disk \<times> Inventory" where
  "set_media_location_offline J io uuid = set_media_location J io uuid (Some Offline)"

definition inv_set_media_bytes_used :: "json_db \<Rightarrow> inv_io \<Rightarrow> uuid \<Rightarrow> nat option \<Rightarrow> disk \<Rightarrow> Inventory \<Rightarrow>
    (err, unit) result \<times> disk \<times> Inventory" where
  "inv_set_media_bytes_used J io uuid used = set_entry J io uuid (\<lambda>e. e\<lparr>st_bytes_used := used\<rparr>)"

definition get_media_bytes_used :: "uuid \<Rightarrow> Inventory \<Rightarrow> nat option" where
  "get_media_bytes_used uuid s = (case map_of (inv_map s) uuid of Some e \<Rightarrow> st_bytes_used e | None \<Rightarrow> None)"

definition online_entry :: "OnlineStatusMap \<Rightarrow> uuid \<Rightarrow> MediaStateEntry \<Rightarrow> MediaStateEntry" where
  "online_entry om uuid e =
     (case lookup_changer uuid om of
        Some name \<Rightarrow> e\<lparr>st_location := Some (Online name)\<rparr>
      | None \<Rightarrow>
          (case st_location e of
             Some (Online name) \<Rightarrow>
               (case online_map name om of
                  None \<Rightarrow> e\<lparr>st_location := Some Offline\<rparr>
                | Some None \<Rightarrow> e
                | Some (Some _) \<Rightarrow> e\<lparr>st_location := Some Offline\<rparr>)
           | _ \<Rightarrow> e))"

definition inv_update_online_status :: "json_db \<Rightarrow> inv_io \<Rightarrow> OnlineStatusMap \<Rightarrow> disk \<Rightarrow> Inventory \<Rightarrow>
    (err, unit) result \<times> disk \<times> Inventory" where
  "inv_update_online_status J io om f s =
     (case locked_load J io f of
        Inl e \<Rightarrow> (Err e, f, s)
      | Inr db \<Rightarrow> save J io f (s\<lparr>inv_map := map (\<lambda>(uuid, e). (uuid, online_entry om uuid e)) db\<rparr>))"

section \<open>From the changers to the inventory\<close>

definition insert_into_online_set :: "Inventory \<Rightarrow> str \<Rightarrow> uuid set \<Rightarrow> uuid set" where
  "insert_into_online_set s text online_set =
     (case find_media_by_label_text text s of
        Inr (Some m) \<Rightarrow> insert (ml_uuid (mi_label m)) online_set
      | _ \<Rightarrow> online_set)"

definition tag_into_online_set :: "Inventory \<Rightarrow> ElementStatus \<Rightarrow> uuid set \<Rightarrow> uuid set" where
  "tag_into_online_set s status online_set =
     (case status of VolumeTag text \<Rightarrow> insert_into_online_set s text online_set | _ \<Rightarrow> online_set)"

definition mtx_status_to_online_set :: "MtxStatus \<Rightarrow> Inventory \<Rightarrow> uuid set" where
  "mtx_status_to_online_set status s =
     fold (\<lambda>x acc. if import_export x then acc else tag_into_online_set s (slot_status x) acc) (slots status)
       (fold (\<lambda>d acc. tag_into_online_set s (drive_status d) acc) (drives status) {})"

text \<open>
  The configured changers and virtual tapes with the answer of each; the result says also whether the wanted
  one was among them. An error of a device is logged and the device is skipped.
\<close>

fun ask_changers :: "str option \<Rightarrow> (str \<times> (err, uuid set) result) list \<Rightarrow> bool \<Rightarrow> OnlineStatusMap \<Rightarrow> (err, bool \<times> OnlineStatusMap) result" where
  "ask_changers changer [] found m = Ok (found, m)"
| "ask_changers changer ((name, answer) # rest) found m =
     (case changer of
        Some c \<Rightarrow> (if c \<noteq> name then ask_changers changer rest found m
                   else (case answer of
                           Inl _ \<Rightarrow> ask_changers changer rest True m
                         | Inr os \<Rightarrow> (case map_update_online_status name os m of
                                       (Inl e, _) \<Rightarrow> Err e
                                     | (Inr _, m') \<Rightarrow> ask_changers changer rest True m')))
      | None \<Rightarrow> (case answer of
                   Inl _ \<Rightarrow> ask_changers changer rest found m
                 | Inr os \<Rightarrow> (case map_update_online_status name os m of
                               (Inl e, _) \<Rightarrow> Err e
                             | (Inr _, m') \<Rightarrow> ask_changers changer rest found m')))"

definition update_online_status :: "json_db \<Rightarrow> inv_io \<Rightarrow> inv_io \<Rightarrow> (str \<times> (err, MtxStatus) result) list \<Rightarrow>
    (str \<times> (err, str list) result) list \<Rightarrow> str option \<Rightarrow> disk \<Rightarrow> (err, OnlineStatusMap) result \<times> disk" where
  "update_online_status J load_io io changers vtapes changer f =
     (case Inventory_load J load_io f of
        Inl e \<Rightarrow> (Err e, f)
      | Inr s \<Rightarrow>
          (let answers = map (\<lambda>(name, r). (name, map_sum id (\<lambda>st. mtx_status_to_online_set st s) r)) changers @
                 map (\<lambda>(name, r). (name, map_sum id (\<lambda>texts. fold (insert_into_online_set s) texts {}) r)) vtapes
           in case ask_changers changer answers False (OnlineStatusMap_new (map fst changers) (map fst vtapes)) of
                Inl e \<Rightarrow> (Err e, f)
              | Inr (found, m) \<Rightarrow>
                  (if changer \<noteq> None \<and> \<not> found then (Err ''update_online_status failed - no such changer'', f)
                   else (case inv_update_online_status J io m f s of
                           (Inl e, f', _) \<Rightarrow> (Err e, f')
                         | (Inr _, f', _) \<Rightarrow> (Ok m, f')))))"

section \<open>The file and the map\<close>

text \<open>The interface of the serialization: what was written is read back.\<close>

locale json_codec =
  fixes J :: json_db
  assumes json_round_trip: "to_json J l = Ok raw \<Longrightarrow> of_json J raw = Ok l"

definition no_faults :: inv_io where
  "no_faults = \<lparr>lock_fails = None, read_fails = None, write_fails = None\<rparr>"

text \<open>A loaded map has its entries under the uuids of their labels.\<close>

definition db_ok :: "(uuid, MediaStateEntry) btree \<Rightarrow> bool" where
  "db_ok db \<longleftrightarrow> bt_wf db \<and> (\<forall>(u, e) \<in> set db. entry_uuid e = u)"

lemma db_ok_bt_wf: "db_ok db \<Longrightarrow> bt_wf db"
  by (simp add: db_ok_def)

lemma db_ok_iff: "db_ok db \<longleftrightarrow> bt_wf db \<and> (\<forall>u e. map_of db u = Some e \<longrightarrow> entry_uuid e = u)"
  by (auto simp: db_ok_def bt_in_set dest: map_of_SomeD)

lemma collect_entries_ok: "db_ok (bt_collect (map (\<lambda>e. (entry_uuid e, e)) l))"
  unfolding db_ok_iff map_of_bt_collect by (auto dest!: map_of_SomeD)

lemma load_media_db_ok: "load_media_db J io f = Ok db \<Longrightarrow> db_ok db"
  using collect_entries_ok [of "[]"] by (auto simp: load_media_db_def collect_entries_ok split: option.splits sum.splits)

lemma locked_load_eq: "locked_load J io f = Ok db \<longleftrightarrow> lock_fails io = None \<and> load_media_db J io f = Ok db"
  by (auto simp: locked_load_def split: option.splits)

lemma load_no_faults: "load_media_db J io f = Ok db \<Longrightarrow> load_media_db J no_faults f = Ok db"
  by (auto simp: load_media_db_def no_faults_def split: option.splits sum.splits)

lemma db_ok_values: "db_ok db \<Longrightarrow> bt_collect (map (\<lambda>e. (entry_uuid e, e)) (bt_values db)) = db"
proof -
  assume ok: "db_ok db"
  then have "map (\<lambda>e. (entry_uuid e, e)) (bt_values db) = db"
    by (auto simp: bt_values_def db_ok_def intro!: map_idI)
  then show ?thesis using ok by (simp add: bt_collect_same db_ok_bt_wf)
qed

context json_codec
begin

text \<open>What a change writes is what the next reader loads.\<close>

lemma save_loads:
  assumes "db_ok (inv_map s)" "save J io f s = (r, f', s')"
  shows "s' = update_helpers s"
    "r = Ok () \<Longrightarrow> load_media_db J no_faults f' = Ok (inv_map s)"
    "r = Err e \<Longrightarrow> f' = f"
proof -
  show "s' = update_helpers s" "r = Err e \<Longrightarrow> f' = f"
    using assms(2) by (auto simp: save_def replace_file_def Let_def split: sum.splits option.splits prod.splits)
  assume "r = Ok ()"
  then obtain raw where "to_json J (bt_values (inv_map s)) = Ok raw" "f' = Some raw"
    using assms(2) by (auto simp: save_def replace_file_def update_helpers_def Let_def split: sum.splits option.splits prod.splits)
  then show "load_media_db J no_faults f' = Ok (inv_map s)"
    using json_round_trip db_ok_values [OF assms(1)] by (simp add: load_media_db_def no_faults_def)
qed

end

section \<open>Changes of the inventory\<close>

text \<open>The changes, what they do to the database as a map, and the operation that implements each.\<close>

datatype inv_op = Store MediaId bool | RemoveMedia uuid | SetStatus uuid "MediaStatus option"
  | SetLocation uuid "MediaLocation option" | SetBytesUsed uuid "nat option" | UpdateOnline OnlineStatusMap

fun spec_op :: "inv_op \<Rightarrow> (uuid \<rightharpoonup> MediaStateEntry) \<Rightarrow> (uuid \<rightharpoonup> MediaStateEntry) option" where
  "spec_op (Store m c) db = Some (db(ml_uuid (mi_label m) \<mapsto> stored_entry (db (ml_uuid (mi_label m))) m c))"
| "spec_op (RemoveMedia u) db = Some (db(u := None))"
| "spec_op (SetStatus u x) db = map_option (\<lambda>e. db(u \<mapsto> e\<lparr>st_status := x\<rparr>)) (db u)"
| "spec_op (SetLocation u x) db = map_option (\<lambda>e. db(u \<mapsto> e\<lparr>st_location := x\<rparr>)) (db u)"
| "spec_op (SetBytesUsed u x) db = map_option (\<lambda>e. db(u \<mapsto> e\<lparr>st_bytes_used := x\<rparr>)) (db u)"
| "spec_op (UpdateOnline om) db = Some (\<lambda>u. map_option (online_entry om u) (db u))"

fun run_op :: "json_db \<Rightarrow> inv_io \<Rightarrow> inv_op \<Rightarrow> disk \<Rightarrow> Inventory \<Rightarrow> (err, unit) result \<times> disk \<times> Inventory" where
  "run_op J io (Store m c) = store J io m c"
| "run_op J io (RemoveMedia u) = remove_media J io u"
| "run_op J io (SetStatus u x) = set_media_status J io u x"
| "run_op J io (SetLocation u x) = set_media_location J io u x"
| "run_op J io (SetBytesUsed u x) = inv_set_media_bytes_used J io u x"
| "run_op J io (UpdateOnline om) = inv_update_online_status J io om"

text \<open>The database in a file.\<close>

definition disk_db :: "json_db \<Rightarrow> disk \<Rightarrow> (uuid \<rightharpoonup> MediaStateEntry) option" where
  "disk_db J f = (case load_media_db J no_faults f of Inl _ \<Rightarrow> None | Inr db \<Rightarrow> Some (map_of db))"

lemma entry_uuid_upd [simp]:
  "entry_uuid (e\<lparr>st_status := x\<rparr>) = entry_uuid e" "entry_uuid (e\<lparr>st_location := y\<rparr>) = entry_uuid e"
  "entry_uuid (e\<lparr>st_bytes_used := z\<rparr>) = entry_uuid e" "entry_uuid (online_entry om u e) = entry_uuid e"
  by (simp_all add: entry_uuid_def online_entry_def split: option.splits MediaLocation.splits)

lemma entry_uuid_stored [simp]: "entry_uuid (stored_entry prev m c) = ml_uuid (mi_label m)"
  by (auto simp: entry_uuid_def stored_entry_def keep_assignment_def split: option.splits)

lemma db_ok_insert [simp]: "db_ok db \<Longrightarrow> entry_uuid e = u \<Longrightarrow> db_ok (bt_insert u e db)"
  by (auto simp: db_ok_iff)

lemma db_ok_remove [simp]: "db_ok db \<Longrightarrow> db_ok (bt_remove u db)"
  by (auto simp: db_ok_iff)

lemma db_ok_entry: "db_ok db \<Longrightarrow> map_of db u = Some e \<Longrightarrow> entry_uuid e = u"
  by (auto simp: db_ok_iff)

text \<open>Every change loads a map, computes a new one and saves it, or fails and leaves the file.\<close>

lemma run_op_cases:
  assumes "run_op J io op f s = (r, f', s')"
  obtains (failed) e where "r = Err e" "f' = f"
  | (saved) db db' where "load_media_db J io f = Ok db" "db_ok db'" "spec_op op (map_of db) = Some (map_of db')"
      "save J io f (s\<lparr>inv_map := db'\<rparr>) = (r, f', s')"
proof (cases "locked_load J io f")
  case (Inl e)
  then show ?thesis
    using assms by (intro failed [of e])
      (cases op; simp add: store_def remove_media_def set_media_status_def set_media_location_def inv_set_media_bytes_used_def
        set_entry_def inv_update_online_status_def)+
next
  case (Inr db)
  then have l: "load_media_db J io f = Ok db" "db_ok db" using load_media_db_ok by (auto simp: locked_load_eq)
  have upd: thesis if "set_entry J io u upd f s = (r, f', s')" "\<And>e. entry_uuid (upd e) = entry_uuid e"
    "spec_op op (map_of db) = map_option (\<lambda>e. (map_of db)(u \<mapsto> upd e)) (map_of db u)" for u upd
  proof (cases "map_of db u")
    case None
    then show ?thesis using that(1) Inr failed [of "''no such media''"] by (simp add: set_entry_def)
  next
    case (Some e)
    then show ?thesis
      using that Inr l db_ok_entry [OF l(2) Some] by (intro saved [OF l(1), of "bt_insert u (upd e) db"]) (simp_all add: set_entry_def)
  qed
  show ?thesis
  proof (cases op)
    case (Store m c)
    then show ?thesis using assms Inr l
      by (intro saved [OF l(1), of "bt_insert (ml_uuid (mi_label m)) (stored_entry (map_of db (ml_uuid (mi_label m))) m c) (bt_remove (ml_uuid (mi_label m)) db)"])
        (simp_all add: store_def Let_def)
  next
    case (RemoveMedia u)
    then show ?thesis using assms Inr l by (intro saved [OF l(1), of "bt_remove u db"]) (simp_all add: remove_media_def)
  next
    case (UpdateOnline om)
    have "db_ok (map (\<lambda>(uuid, e). (uuid, online_entry om uuid e)) db)"
      using l(2) by (auto simp: db_ok_iff bt_wf_update map_of_bt_update)
    then show ?thesis using assms Inr l UpdateOnline
      by (intro saved [OF l(1), of "map (\<lambda>(uuid, e). (uuid, online_entry om uuid e)) db"])
        (simp_all add: inv_update_online_status_def map_of_bt_update fun_eq_iff)
  qed (use assms in \<open>auto intro!: upd simp: set_media_status_def set_media_location_def inv_set_media_bytes_used_def\<close>)
qed

context json_codec
begin

lemma run_op_refines:
  assumes "run_op J io op f s = (r, f', s')"
  shows "case r of
      Inl _ \<Rightarrow> f' = f
    | Inr _ \<Rightarrow> (\<exists>db db'. disk_db J f = Some db \<and> spec_op op db = Some db' \<and> disk_db J f' = Some db' \<and> map_of (inv_map s') = db' \<and>
        Inventory_load J no_faults f' = Ok s')"
  using assms
proof (cases rule: run_op_cases)
  case (saved db db')
  have ok: "db_ok (inv_map (s\<lparr>inv_map := db'\<rparr>))" using saved by simp
  note w = save_loads [OF ok saved(4)]
  have "reload J no_faults f' Inventory_new = (Ok (), s')" if "r = Ok ()"
    using w(1) w(2) [OF that] by (simp add: reload_def update_helpers_def Inventory_new_def)
  then show ?thesis using w saved load_no_faults [OF saved(1)]
    by (cases r) (auto simp: disk_db_def update_helpers_def Inventory_load_def)
qed simp

end

section \<open>Members of a media set\<close>

text \<open>The sequence numbers and uuids of the media with a label of the set, in the order of the map.\<close>

definition set_members :: "uuid \<Rightarrow> MediaStateEntry list \<Rightarrow> (nat \<times> uuid) list" where
  "set_members uuid es =
     List.map_filter (\<lambda>e. case mi_media_set_label (st_id e) of
        None \<Rightarrow> None | Some sl \<Rightarrow> (if ms_uuid sl = uuid then Some (ms_seq_nr sl, entry_uuid e) else None)) es"

text \<open>A media set holds exactly the given media at their numbers, and its list ends with one of them.\<close>

definition set_holds :: "MediaSet \<Rightarrow> (nat \<times> uuid) set \<Rightarrow> bool" where
  "set_holds ms A \<longleftrightarrow> (\<forall>i u. (i < length (media_list ms) \<and> media_list ms ! i = Some u) = ((i, u) \<in> A)) \<and>
     (media_list ms = [] \<or> (\<exists>u. last (media_list ms) = Some u))"

lemma nth_resize: "i < n \<Longrightarrow> resize n x xs ! i = (if i < length xs then xs ! i else x)"
  by (auto simp: resize_def nth_append)

lemma length_resize [simp]: "length (resize n x xs) = n"
  by (simp add: resize_def)

lemma set_holds_iff: "set_holds ms A \<Longrightarrow> (i, u) \<in> A \<longleftrightarrow> i < length (media_list ms) \<and> media_list ms ! i = Some u"
  by (simp add: set_holds_def)

lemma set_holds_dom: "set_holds ms A \<Longrightarrow> i \<in> fst ` A \<longleftrightarrow> i < length (media_list ms) \<and> (\<exists>u. media_list ms ! i = Some u)"
proof -
  assume "set_holds ms A"
  moreover have "i \<in> fst ` A \<longleftrightarrow> (\<exists>u. (i, u) \<in> A)" by force
  ultimately show ?thesis by (simp add: set_holds_iff)
qed

lemma insert_media_holds:
  assumes "set_holds ms A" "seq_nr < length (media_list ms) \<or> seq_nr < 2 ^ 64 - 1"
  shows "if seq_nr \<in> fst ` A then \<exists>e. insert_media uuid seq_nr ms = Some (Err e)
    else \<exists>ms'. insert_media uuid seq_nr ms = Some (Ok ms') \<and> set_uuid ms' = set_uuid ms \<and> set_holds ms' (insert (seq_nr, uuid) A)"
proof (cases "seq_nr < length (media_list ms)")
  case True
  have A: "seq_nr \<in> fst ` A \<longleftrightarrow> media_list ms ! seq_nr \<noteq> None" using True by (auto simp: set_holds_dom [OF assms(1)])
  have "set_holds (ms\<lparr>media_list := (media_list ms)[seq_nr := Some uuid]\<rparr>) (insert (seq_nr, uuid) A)" if "media_list ms ! seq_nr = None"
  proof -
    have "(i < length (media_list ms) \<and> (media_list ms)[seq_nr := Some uuid] ! i = Some u) = ((i, u) \<in> insert (seq_nr, uuid) A)" for i u
      using set_holds_iff [OF assms(1), of i u] that True by (cases "i = seq_nr") auto
    moreover have "\<exists>u. last ((media_list ms)[seq_nr := Some uuid]) = Some u"
      using assms(1) True by (cases "media_list ms = []") (auto simp: set_holds_def last_list_update)
    ultimately show ?thesis by (simp add: set_holds_def)
  qed
  then show ?thesis using True A by (auto simp: insert_media_def)
next
  case False
  have wrap: "wrapping_add seq_nr 1 = seq_nr + 1" using assms(2) False by (simp add: wrapping_add_def)
  have A: "seq_nr \<notin> fst ` A" using False by (simp add: set_holds_dom [OF assms(1)])
  let ?l = "(resize (seq_nr + 1) None (media_list ms))[seq_nr := Some uuid]"
  have nth: "?l ! i = (if i = seq_nr then Some uuid else if i < length (media_list ms) then media_list ms ! i else None)" if "i < seq_nr + 1" for i
    using that by (simp add: nth_list_update nth_resize)
  have "(i < length ?l \<and> ?l ! i = Some u) = ((i, u) \<in> insert (seq_nr, uuid) A)" for i u
  proof (cases "i < seq_nr + 1")
    case True
    then show ?thesis using set_holds_iff [OF assms(1), of i u] nth [OF True] False by auto
  next
    case i: False
    then have "(i, u) \<notin> A" using set_holds_iff [OF assms(1), of i u] False by auto
    then show ?thesis using i by auto
  qed
  moreover have "last ?l = Some uuid" using nth [of seq_nr] by (simp add: last_conv_nth flip: length_greater_0_conv)
  ultimately have "set_holds (ms\<lparr>media_list := ?l\<rparr>) (insert (seq_nr, uuid) A)" by (simp add: set_holds_def)
  then show ?thesis using False A wrap by (auto simp: insert_media_def Let_def)
qed

lemma set_members_Cons:
  "set_members uuid (e # es) =
     (case mi_media_set_label (st_id e) of
        None \<Rightarrow> [] | Some sl \<Rightarrow> (if ms_uuid sl = uuid then [(ms_seq_nr sl, entry_uuid e)] else [])) @ set_members uuid es"
  by (simp add: set_members_def map_filter_simps split: option.split)

lemma set_members_loop_holds:
  assumes "set_holds ms A" "\<forall>(n, u) \<in> set (set_members uuid es). n < 2 ^ 64 - 1"
  shows "if distinct (map fst (set_members uuid es)) \<and> fst ` A \<inter> fst ` set (set_members uuid es) = {}
    then \<exists>ms'. set_members_loop uuid ms es = Some (Ok ms') \<and> set_uuid ms' = set_uuid ms \<and> set_holds ms' (A \<union> set (set_members uuid es))
    else \<exists>e. set_members_loop uuid ms es = Some (Err e)"
  using assms
proof (induction es arbitrary: ms A)
  case Nil
  then show ?case by (simp add: set_members_def map_filter_simps)
next
  case (Cons e es)
  show ?case
  proof (cases "\<exists>sl. mi_media_set_label (st_id e) = Some sl \<and> ms_uuid sl = uuid")
    case False
    then have "set_members uuid (e # es) = set_members uuid es" "set_members_loop uuid ms (e # es) = set_members_loop uuid ms es"
      by (auto simp: set_members_Cons split: option.split)
    then show ?thesis using Cons.IH [OF Cons.prems(1)] Cons.prems(2) by simp
  next
    case True
    then obtain sl where sl: "mi_media_set_label (st_id e) = Some sl" "ms_uuid sl = uuid" by blast
    then have m: "set_members uuid (e # es) = (ms_seq_nr sl, entry_uuid e) # set_members uuid es" by (simp add: set_members_Cons)
    have "ms_seq_nr sl < 2 ^ 64 - 1" using Cons.prems(2) m by simp
    note ins = insert_media_holds [OF Cons.prems(1) disjI2 [OF this], of "entry_uuid e"]
    show ?thesis
    proof (cases "ms_seq_nr sl \<in> fst ` A")
      case True
      then show ?thesis using ins sl m by auto
    next
      case False
      then obtain ms' where ms': "insert_media (entry_uuid e) (ms_seq_nr sl) ms = Some (Ok ms')" "set_uuid ms' = set_uuid ms"
        "set_holds ms' (insert (ms_seq_nr sl, entry_uuid e) A)" using ins by auto
      have es: "\<forall>(n, u) \<in> set (set_members uuid es). n < 2 ^ 64 - 1" using Cons.prems(2) m by simp
      have c: "distinct (map fst (set_members uuid (e # es))) \<and> fst ` A \<inter> fst ` set (set_members uuid (e # es)) = {} \<longleftrightarrow>
          distinct (map fst (set_members uuid es)) \<and> fst ` insert (ms_seq_nr sl, entry_uuid e) A \<inter> fst ` set (set_members uuid es) = {}"
        using False by (auto simp: m)
      show ?thesis using Cons.IH [OF ms'(3) es] sl ms'(1,2) unfolding c by (simp add: m Un_insert_left Un_insert_right split del: if_split cong: if_cong)
    qed
  qed
qed

lemma compute_members:
  assumes "\<forall>(n, u) \<in> set (set_members uuid (bt_values (inv_map s))). n < 2 ^ 64 - 1"
  shows "if distinct (map fst (set_members uuid (bt_values (inv_map s))))
    then \<exists>ms. compute_media_set_members uuid s = Some (Ok ms) \<and> set_uuid ms = uuid \<and> set_holds ms (set (set_members uuid (bt_values (inv_map s))))
    else \<exists>e. compute_media_set_members uuid s = Some (Err e)"
proof -
  have "set_holds (MediaSet_with_data uuid []) {}" by (simp add: set_holds_def MediaSet_with_data_def)
  from set_members_loop_holds [OF this assms] show ?thesis
    by (auto simp: compute_media_set_members_def MediaSet_with_data_def)
qed

text \<open>A set that was computed holds the media of the inventory, and is the only one that does.\<close>

lemma insert_media_Ok: "insert_media uuid n ms = Some (Ok ms') \<Longrightarrow> n < length (media_list ms) \<or> n < 2 ^ 64 - 1"
  by (rule ccontr) (simp add: insert_media_def wrapping_add_def Let_def split: if_splits)

lemma set_members_loop_Ok:
  "set_members_loop uuid ms es = Some (Ok ms') \<Longrightarrow> set_holds ms A \<Longrightarrow>
     set_uuid ms' = set_uuid ms \<and> set_holds ms' (A \<union> set (set_members uuid es))"
proof (induction es arbitrary: ms A)
  case Nil
  then show ?case by (simp add: set_members_def map_filter_simps)
next
  case (Cons e es)
  show ?case
  proof (cases "\<exists>sl. mi_media_set_label (st_id e) = Some sl \<and> ms_uuid sl = uuid")
    case False
    then have "set_members uuid (e # es) = set_members uuid es" "set_members_loop uuid ms (e # es) = set_members_loop uuid ms es"
      by (auto simp: set_members_Cons split: option.split)
    then show ?thesis using Cons.IH Cons.prems by simp
  next
    case True
    then obtain sl where sl: "mi_media_set_label (st_id e) = Some sl" "ms_uuid sl = uuid" by blast
    then obtain ms1 where ms1: "insert_media (entry_uuid e) (ms_seq_nr sl) ms = Some (Ok ms1)" "set_members_loop uuid ms1 es = Some (Ok ms')"
      using Cons.prems(1) by (auto split: option.splits sum.splits)
    then have "set_uuid ms1 = set_uuid ms" "set_holds ms1 (insert (ms_seq_nr sl, entry_uuid e) A)"
      using insert_media_holds [OF Cons.prems(2) insert_media_Ok [OF ms1(1)], of "entry_uuid e"] by (auto split: if_splits)
    then show ?thesis using Cons.IH [OF ms1(2), of "insert (ms_seq_nr sl, entry_uuid e) A"] sl by (simp add: set_members_Cons)
  qed
qed

lemma computed_holds:
  "compute_media_set_members uuid s = Some (Ok ms) \<Longrightarrow> set_uuid ms = uuid \<and> set_holds ms (set (set_members uuid (bt_values (inv_map s))))"
  using set_members_loop_Ok [of uuid "MediaSet_with_data uuid []" "bt_values (inv_map s)" ms "{}"]
  by (simp add: compute_media_set_members_def set_holds_def MediaSet_with_data_def)

lemma set_holds_length_le:
  assumes "set_holds ms A" "set_holds ms' A"
  shows "length (media_list ms) \<le> length (media_list ms')"
proof (cases "media_list ms = []")
  case False
  then obtain u where "last (media_list ms) = Some u" using assms(1) by (auto simp: set_holds_def)
  then have "(length (media_list ms) - 1, u) \<in> A" using False by (simp add: set_holds_iff [OF assms(1)] last_conv_nth)
  then show ?thesis using set_holds_iff [OF assms(2)] by auto
qed simp

lemma set_holds_unique:
  assumes "set_holds ms A" "set_holds ms' A" "set_uuid ms = set_uuid ms'"
  shows "ms = (ms' :: MediaSet)"
proof -
  have len: "length (media_list ms) = length (media_list ms')"
    using set_holds_length_le [OF assms(1,2)] set_holds_length_le [OF assms(2,1)] by simp
  have "media_list ms ! i = media_list ms' ! i" if "i < length (media_list ms)" for i
    using set_holds_iff [OF assms(1), of i] set_holds_iff [OF assms(2), of i] that len
    by (cases "media_list ms ! i"; cases "media_list ms' ! i") auto
  then have "media_list ms = media_list ms'" using len by (simp add: list_eq_iff_nth_eq)
  then show ?thesis using assms(3) by (cases ms; cases ms') simp
qed

lemma db_values: "db_ok db \<Longrightarrow> (e \<in> set (bt_values db)) = (map_of db (entry_uuid e) = Some e)"
proof -
  assume ok: "db_ok db"
  have "map_of db (entry_uuid e) = Some e" if e: "e \<in> set (bt_values db)"
  proof -
    obtain u where "(u, e) \<in> set db" using e by (auto simp: bt_values_def)
    then show ?thesis using ok bt_in_set [of db u e] db_ok_entry [OF ok] by (metis db_ok_bt_wf)
  qed
  moreover have "e \<in> set (bt_values db)" if "map_of db (entry_uuid e) = Some e"
    using map_of_SomeD [OF that] by (force simp: bt_values_def)
  ultimately show ?thesis by blast
qed

lemma set_members_db:
  assumes "db_ok db"
  shows "(n, u) \<in> set (set_members uuid (bt_values db)) \<longleftrightarrow>
    (\<exists>e sl. map_of db u = Some e \<and> mi_media_set_label (st_id e) = Some sl \<and> ms_uuid sl = uuid \<and> ms_seq_nr sl = n)"
proof -
  have "(n, u) \<in> set (set_members uuid es) \<longleftrightarrow>
      (\<exists>e sl. e \<in> set es \<and> entry_uuid e = u \<and> mi_media_set_label (st_id e) = Some sl \<and> ms_uuid sl = uuid \<and> ms_seq_nr sl = n)" for es
    by (induction es) (auto simp: set_members_Cons set_members_def map_filter_simps split: option.splits)
  then show ?thesis using db_values [OF assms] db_ok_entry [OF assms] by blast
qed

lemma distinct_set_members:
  assumes "db_ok db" "set_holds ms (set (set_members uuid (bt_values db)))"
  shows "distinct (map fst (set_members uuid (bt_values db)))"
proof -
  have snd: "distinct (map snd (set_members uuid es))" if "distinct (map entry_uuid es)" for es
  proof -
    have sub: "snd ` set (set_members uuid es) \<subseteq> entry_uuid ` set es" for es
      by (induction es) (auto simp: set_members_Cons set_members_def map_filter_simps split: option.splits)
    show ?thesis using that
    proof (induction es)
      case (Cons e es)
      then have "entry_uuid e \<notin> snd ` set (set_members uuid es)" using sub [of es] by auto
      then show ?case using Cons by (simp add: set_members_Cons split: option.split)
    qed (simp add: set_members_def map_filter_simps)
  qed
  have "map entry_uuid (bt_values db) = map fst db" using assms(1) by (auto simp: bt_values_def db_ok_def)
  then have "distinct (map entry_uuid (bt_values db))" using assms(1) by (simp add: bt_wf_distinct db_ok_bt_wf)
  then have d: "distinct (set_members uuid (bt_values db))" using snd by (simp add: distinct_map)
  have "inj_on fst (set (set_members uuid (bt_values db)))"
    using set_holds_iff [OF assms(2)] by (intro inj_onI) (metis option.inject prod.collapse)
  then show ?thesis using d by (simp add: distinct_map)
qed

text \<open>If a set holds the media of an inventory, it is the one that is computed.\<close>

lemma computed_unique:
  assumes "db_ok (inv_map s)" "set_holds ms (set (set_members (set_uuid ms) (bt_values (inv_map s))))" "length (media_list ms) < 2 ^ 64"
  shows "compute_media_set_members (set_uuid ms) s = Some (Ok ms)"
proof -
  have "n < length (media_list ms)" if "(n, u) \<in> set (set_members (set_uuid ms) (bt_values (inv_map s)))" for n u
    using that set_holds_iff [OF assms(2)] by simp
  then have "\<forall>(n, u) \<in> set (set_members (set_uuid ms) (bt_values (inv_map s))). n < 2 ^ 64 - 1" using assms(3) by fastforce
  from compute_members [OF this] distinct_set_members [OF assms(1,2)] obtain ms' where
    "compute_media_set_members (set_uuid ms) s = Some (Ok ms')" "set_uuid ms' = set_uuid ms"
    "set_holds ms' (set (set_members (set_uuid ms) (bt_values (inv_map s))))" by auto
  then show ?thesis using set_holds_unique [OF assms(2)] by metis
qed

section \<open>The latest media set\<close>

lemma fold_latest:
  "fold latest_step sls (Some (u, c)) = Some (u', c') \<Longrightarrow>
     c \<le> c' \<and> (\<forall>sl \<in> set sls. ms_ctime sl \<le> c') \<and> ((u', c') = (u, c) \<or> (\<exists>sl \<in> set sls. u' = ms_uuid sl \<and> c' = ms_ctime sl))"
proof (induction sls arbitrary: u c)
  case (Cons sl sls)
  then show ?case
    by (cases "ms_ctime sl > c") (force simp: latest_step_def)+
qed simp

lemma fold_latest_None: "fold latest_step sls None = None \<longleftrightarrow> sls = []"
proof -
  have "fold latest_step sls (Some x) \<noteq> None" for sls x
    by (induction sls arbitrary: x) (auto simp: latest_step_def split: prod.split)
  then show ?thesis by (cases sls) (auto simp: latest_step_def)
qed

text \<open>The labels of a pool that belong to a set.\<close>

definition pool_labels :: "str \<Rightarrow> Inventory \<Rightarrow> MediaSetLabel set" where
  "pool_labels pool s = {sl \<in> set (set_labels s). ms_pool sl = pool \<and> \<not> unassigned sl}"

lemma latest_exact:
  "latest_media_set pool s = Some u \<longleftrightarrow>
     (\<exists>sl \<in> pool_labels pool s. ms_uuid sl = u \<and> (\<forall>sl' \<in> pool_labels pool s. ms_uuid sl' = u \<and> ms_ctime sl' \<le> ms_ctime sl \<or> ms_ctime sl' < ms_ctime sl))"
proof -
  define L where "L = filter (\<lambda>sl. ms_pool sl = pool \<and> \<not> unassigned sl) (set_labels s)"
  have L: "set L = pool_labels pool s" by (simp add: L_def pool_labels_def)
  show ?thesis
  proof (cases L)
    case Nil
    then show ?thesis using L by (simp add: latest_media_set_def flip: L_def)
  next
    case (Cons x xs)
    then obtain u' c' where f: "fold latest_step L None = Some (u', c')" using fold_latest_None [of L] by (cases "fold latest_step L None") auto
    then have m: "\<forall>sl \<in> set L. ms_ctime sl \<le> c'" "\<exists>sl \<in> set L. u' = ms_uuid sl \<and> c' = ms_ctime sl"
      using fold_latest [of xs "ms_uuid x" "ms_ctime x" u' c'] Cons by (auto simp: latest_step_def)
    have "latest_media_set pool s = (if \<exists>sl \<in> set L. ms_uuid sl \<noteq> u' \<and> ms_ctime sl \<ge> c' then None else Some u')"
      using f by (simp add: latest_media_set_def list_ex_iff flip: L_def)
    then show ?thesis using m unfolding L by (smt (verit, best) option.distinct(1) option.inject)
  qed
qed

section \<open>A concrete serialization\<close>

definition c_str :: "str codec" where
  "c_str = c_list c_byte"

definition c_media_label :: "MediaLabel codec" where
  "c_media_label = c_map (\<lambda>l. (ml_uuid l, ml_label_text l, ml_ctime l, ml_pool l))
     (\<lambda>(u, t, c, p). \<lparr>ml_uuid = u, ml_label_text = t, ml_ctime = c, ml_pool = p\<rparr>)
     (c_pair c_str (c_pair c_str (c_pair c_int (c_option c_str))))"

definition c_media_set_label :: "MediaSetLabel codec" where
  "c_media_set_label = c_map (\<lambda>l. (ms_pool l, ms_uuid l, ms_seq_nr l, ms_ctime l, ms_fingerprint l))
     (\<lambda>(p, u, n, c, f). \<lparr>ms_pool = p, ms_uuid = u, ms_seq_nr = n, ms_ctime = c, ms_fingerprint = f\<rparr>)
     (c_pair c_str (c_pair c_str (c_pair c_nat (c_pair c_int (c_option c_str)))))"

definition c_media_id :: "MediaId codec" where
  "c_media_id = c_map (\<lambda>m. (mi_label m, mi_media_set_label m)) (\<lambda>(l, sl). \<lparr>mi_label = l, mi_media_set_label = sl\<rparr>)
     (c_pair c_media_label (c_option c_media_set_label))"

definition c_status :: "MediaStatus codec" where
  "c_status = c_map (\<lambda>x. case x of Writable \<Rightarrow> 0 | Full \<Rightarrow> 1 | Damaged \<Rightarrow> 2 | Retired \<Rightarrow> 3 | Unknown \<Rightarrow> 4)
     (\<lambda>b. if b = 0 then Writable else if b = 1 then Full else if b = 2 then Damaged else if b = 3 then Retired else Unknown) c_byte"

definition c_location :: "MediaLocation codec" where
  "c_location = c_map (\<lambda>x. case x of Online s \<Rightarrow> (0, s) | Offline \<Rightarrow> (1, []) | Vault s \<Rightarrow> (2, s))
     (\<lambda>(b, s). if b = 0 then Online s else if b = 1 then Offline else Vault s) (c_pair c_byte c_str)"

definition c_entry :: "MediaStateEntry codec" where
  "c_entry = c_map (\<lambda>e. (st_id e, st_location e, st_status e, st_bytes_used e))
     (\<lambda>(i, l, s, b). \<lparr>st_id = i, st_location = l, st_status = s, st_bytes_used = b\<rparr>)
     (c_pair c_media_id (c_pair (c_option c_location) (c_pair (c_option c_status) (c_option c_nat))))"

lemma c_str_ok [codec_intros]: "codec_ok c_str"
  unfolding c_str_def by (intro codec_intros)

lemma c_media_label_ok [codec_intros]: "codec_ok c_media_label"
  unfolding c_media_label_def by (rule c_map_ok) (auto intro!: codec_intros)

lemma c_media_set_label_ok [codec_intros]: "codec_ok c_media_set_label"
  unfolding c_media_set_label_def by (rule c_map_ok) (auto intro!: codec_intros)

lemma c_media_id_ok [codec_intros]: "codec_ok c_media_id"
  unfolding c_media_id_def by (rule c_map_ok) (auto intro!: codec_intros)

lemma c_status_ok [codec_intros]: "codec_ok c_status"
  unfolding c_status_def by (rule c_map_ok) (auto intro!: codec_intros split: MediaStatus.split)

lemma c_location_ok [codec_intros]: "codec_ok c_location"
  unfolding c_location_def by (rule c_map_ok) (auto intro!: codec_intros split: MediaLocation.split)

lemma c_entry_ok [codec_intros]: "codec_ok c_entry"
  unfolding c_entry_def by (rule c_map_ok) (auto intro!: codec_intros)

definition plain_json :: json_db where
  "plain_json = \<lparr>to_json = write_all_of (c_list c_entry), of_json = read_all_of (c_list c_entry)\<rparr>"

interpretation plain_json: json_codec plain_json
  by unfold_locales (auto simp: plain_json_def intro: read_write_all c_list_ok c_entry_ok)

section \<open>Properties\<close>

text \<open>C23. Every change of the inventory is an atomic update of its file: when it succeeds, the file held a
  database before, holds the updated one now, and the inventory in memory is the one a new process would
  load; when it fails, at whatever step, the file is unchanged.\<close>

theorem inventory_refines:
  assumes "json_codec J" "run_op J io op f s = (r, f', s')"
  shows "case r of
      Inl _ \<Rightarrow> f' = f
    | Inr _ \<Rightarrow> (\<exists>db db'. disk_db J f = Some db \<and> spec_op op db = Some db' \<and> disk_db J f' = Some db' \<and> map_of (inv_map s') = db' \<and>
        Inventory_load J no_faults f' = Ok s')"
  by (rule json_codec.run_op_refines [OF assms])

definition example_media :: MediaId where
  "example_media = \<lparr>mi_label = \<lparr>ml_uuid = [1], ml_label_text = [65], ml_ctime = 5, ml_pool = None\<rparr>, mi_media_set_label = None\<rparr>"

theorem inventory_refines_witness:
  "\<exists>f' s'. store plain_json no_faults example_media False None Inventory_new = (Ok (), f', s') \<and>
     disk_db plain_json f' = Some [[1] \<mapsto> \<lparr>st_id = example_media, st_location = None, st_status = None, st_bytes_used = None\<rparr>]"
proof -
  obtain f' s' where r: "store plain_json no_faults example_media False None Inventory_new = (Ok (), f', s')"
    by (simp add: store_def locked_load_def load_media_db_def no_faults_def save_def replace_file_def plain_json_def write_all_of_def Let_def)
  then have "run_op plain_json no_faults (Store example_media False) None Inventory_new = (Ok (), f', s')" by simp
  from inventory_refines [OF plain_json.json_codec_axioms this] r show ?thesis
    by (auto simp: disk_db_def load_media_db_def no_faults_def bt_collect_def stored_entry_def example_media_def)
qed

text \<open>The members of a media set: if no two media have the same number in it, \<open>compute_media_set_members\<close> returns the
  set that holds each of them at its number and nothing else, and whose list ends with a medium; if two have
  the same number, it returns an error. (A medium numbered \<open>u64::MAX\<close> is excluded.)\<close>

theorem compute_media_set_members_exact:
  assumes "\<forall>(n, u) \<in> set (set_members uuid (bt_values (inv_map s))). n < 2 ^ 64 - 1"
  shows "if distinct (map fst (set_members uuid (bt_values (inv_map s))))
    then \<exists>ms. compute_media_set_members uuid s = Some (Ok ms) \<and> set_uuid ms = uuid \<and> set_holds ms (set (set_members uuid (bt_values (inv_map s))))
    else \<exists>e. compute_media_set_members uuid s = Some (Err e)"
  by (rule compute_members [OF assms])

definition example_entry :: "uuid \<Rightarrow> nat \<Rightarrow> MediaStateEntry" where
  "example_entry u n = \<lparr>st_id = \<lparr>mi_label = \<lparr>ml_uuid = u, ml_label_text = u, ml_ctime = 5, ml_pool = None\<rparr>,
     mi_media_set_label = Some \<lparr>ms_pool = [80], ms_uuid = [9], ms_seq_nr = n, ms_ctime = 6, ms_fingerprint = None\<rparr>\<rparr>,
     st_location = None, st_status = None, st_bytes_used = None\<rparr>"

definition example_inventory :: Inventory where
  "example_inventory = \<lparr>inv_map = [([1], example_entry [1] 1), ([2], example_entry [2] 0)], media_set_start_times = Map.empty\<rparr>"

theorem compute_media_set_members_exact_witness:
  "\<exists>ms. compute_media_set_members [9] example_inventory = Some (Ok ms) \<and> set_holds ms {(1, [1]), (0, [2])}"
proof -
  have m: "set_members [9] (bt_values (inv_map example_inventory)) = [(1, [1]), (0, [2])]"
    by (simp add: example_inventory_def example_entry_def bt_values_def set_members_def map_filter_simps entry_uuid_def)
  then have "\<forall>(n, u) \<in> set (set_members [9] (bt_values (inv_map example_inventory))). n < 2 ^ 64 - 1" by simp
  from compute_media_set_members_exact [OF this] show ?thesis unfolding m by auto
qed

text \<open>The latest media set of a pool is returned if and only if it is the only set with a medium of the
  latest time: it has a medium with a time such that every medium of other sets of the pool is older.\<close>

theorem latest_media_set_exact:
  "latest_media_set pool s = Some u \<longleftrightarrow>
     (\<exists>sl \<in> pool_labels pool s. ms_uuid sl = u \<and> (\<forall>sl' \<in> pool_labels pool s. ms_uuid sl' = u \<and> ms_ctime sl' \<le> ms_ctime sl \<or> ms_ctime sl' < ms_ctime sl))"
  by (rule latest_exact)

theorem latest_media_set_exact_witness: "latest_media_set [80] example_inventory = Some [9]"
proof -
  have "pool_labels [80] example_inventory =
      {the (mi_media_set_label (st_id (example_entry [1] 1))), the (mi_media_set_label (st_id (example_entry [2] 0)))}"
    by (auto simp: pool_labels_def set_labels_def example_inventory_def example_entry_def bt_values_def map_filter_simps unassigned_def numeral_eq_Suc)
  then show ?thesis using latest_media_set_exact [of "[80]" example_inventory "[9]"] by (simp add: example_entry_def)
qed

end
