(* ===== verification/SortBy.thy ===== *)
theory SortBy
  imports Prelude "HOL-Library.Multiset"
begin

text \<open>
  \<^verbatim>\<open>sort_unstable_by\<close> of the standard library: equal elements may be reordered, so that it is a parameter with a
  contract. Insertion sort is an instance.
\<close>

text \<open>The contract of \<^verbatim>\<open>sort_unstable_by\<close> for a total preorder.\<close>

definition total_preorder :: "('a \<Rightarrow> 'a \<Rightarrow> bool) \<Rightarrow> bool" where
  "total_preorder le \<longleftrightarrow> (\<forall>x y. le x y \<or> le y x) \<and> (\<forall>x y z. le x y \<longrightarrow> le y z \<longrightarrow> le x z)"

locale sort_unstable =
  fixes sort_by :: "('a \<Rightarrow> 'a \<Rightarrow> bool) \<Rightarrow> 'a list \<Rightarrow> 'a list"
  assumes sort_mset: "mset (sort_by le xs) = mset xs"
    and sort_sorted: "total_preorder le \<Longrightarrow> sorted_wrt le (sort_by le xs)"
begin

lemma sort_set: "set (sort_by le xs) = set xs"
  using sort_mset by (metis mset_eq_setD)

lemma sort_empty: "sort_by le xs = [] \<longleftrightarrow> xs = []"
  using sort_mset [of le xs] by (metis mset_zero_iff)

lemma sort_last_in: "xs \<noteq> [] \<Longrightarrow> last (sort_by le xs) \<in> set xs"
  using sort_set sort_empty by (metis last_in_set)

lemma sort_last: "total_preorder le \<Longrightarrow> x \<in> set xs \<Longrightarrow> le x (last (sort_by le xs))"
proof -
  assume le: "total_preorder le" and x: "x \<in> set xs"
  let ?s = "sort_by le xs"
  have s: "?s \<noteq> []" using x sort_empty by fastforce
  then have "sorted_wrt le (butlast ?s @ [last ?s])" using sort_sorted [OF le, of xs] by simp
  then have "\<forall>y \<in> set (butlast ?s). le y (last ?s)" by (simp add: sorted_wrt_append)
  moreover have "x \<in> set (butlast ?s @ [last ?s])" using x s sort_set by (metis append_butlast_last_id)
  moreover have "le (last ?s) (last ?s)" using le unfolding total_preorder_def by blast
  ultimately show ?thesis by auto
qed

end

fun insort_by :: "('a \<Rightarrow> 'a \<Rightarrow> bool) \<Rightarrow> 'a \<Rightarrow> 'a list \<Rightarrow> 'a list" where
  "insort_by le x [] = [x]"
| "insort_by le x (y # ys) = (if le x y then x # y # ys else y # insort_by le x ys)"

definition isort_by :: "('a \<Rightarrow> 'a \<Rightarrow> bool) \<Rightarrow> 'a list \<Rightarrow> 'a list" where
  "isort_by le xs = foldr (insort_by le) xs []"

lemma mset_insort_by [simp]: "mset (insort_by le x ys) = add_mset x (mset ys)"
  by (induction ys) auto

lemma set_insort_by [simp]: "set (insort_by le x ys) = insert x (set ys)"
  by (metis mset_insort_by set_mset_add_mset_insert set_mset_mset)

lemma sorted_insort_by: "total_preorder le \<Longrightarrow> sorted_wrt le ys \<Longrightarrow> sorted_wrt le (insort_by le x ys)"
  by (induction ys) (auto simp: total_preorder_def)

interpretation isort: sort_unstable isort_by
proof
  show "mset (isort_by le xs) = mset xs" for le and xs :: "'a list"
    by (induction xs) (simp_all add: isort_by_def)
  show "total_preorder le \<Longrightarrow> sorted_wrt le (isort_by le xs)" for le and xs :: "'a list"
    by (induction xs) (simp_all add: isort_by_def sorted_insort_by)
qed

end
