(* ===== verification/MediaPool.thy ===== *)
theory MediaPool
  imports Inventory SortBy
begin

text \<open>
  Media pools (\<^verbatim>\<open>src/tape/media_pool.rs\<close>): which tape a backup writes to next. The files of the tape state directory
  are the inventory and the catalogs; \<open>pool_sys\<close> gives the outcome of locks and I/O of one call and what other
  processes do to the inventory at the points where the call does not hold the lock on it. \<^verbatim>\<open>sort_unstable_by\<close>
  may return any sorted permutation, so it is a parameter with that contract.
\<close>

section \<open>Backup media\<close>

record BackupMedia =
  bm_id :: MediaId
  bm_location :: MediaLocation
  bm_status :: MediaStatus
  bm_bytes_used :: "nat option"

definition with_media_id :: "MediaId \<Rightarrow> MediaLocation \<Rightarrow> MediaStatus \<Rightarrow> nat option \<Rightarrow> BackupMedia" where
  "with_media_id i l s b = \<lparr>bm_id = i, bm_location = l, bm_status = s, bm_bytes_used = b\<rparr>"

definition bm_label :: "BackupMedia \<Rightarrow> MediaLabel" where
  "bm_label m = mi_label (bm_id m)"

definition bm_uuid :: "BackupMedia \<Rightarrow> uuid" where
  "bm_uuid m = ml_uuid (bm_label m)"

definition bm_media_set_label :: "BackupMedia \<Rightarrow> MediaSetLabel option" where
  "bm_media_set_label m = mi_media_set_label (bm_id m)"

section \<open>The pool\<close>

record ('e, 't) MediaPool =
  pool_name :: str
  media_set_policy :: "'e MediaSetPolicy"
  retention :: "'t RetentionPolicy"
  changer_name :: "str option"
  force_media_availability :: bool
  no_media_set_locking :: bool
  encrypt_fingerprint :: "bytes option"
  pool_inventory :: Inventory
  current_media_set :: MediaSet
  current_media_set_lock :: bool

record tape_state =
  inv_disk :: disk
  catalogs :: "uuid \<rightharpoonup> bytes"

record pool_sys =
  pool_lock :: "(err, unit) result"
  free_lock :: "(err, unit) result"
  media_set_lock :: "uuid \<Rightarrow> (err, unit) result"
  reload_io :: inv_io
  reload_io2 :: inv_io
  store_io :: inv_io
  cat_io :: "commit_fault option"
  rename_fails :: "err option"
  others :: "nat \<Rightarrow> disk \<Rightarrow> disk"

record sorters =
  sort_ids :: "(MediaId \<Rightarrow> MediaId \<Rightarrow> bool) \<Rightarrow> MediaId list \<Rightarrow> MediaId list"
  sort_media :: "(BackupMedia \<Rightarrow> BackupMedia \<Rightarrow> bool) \<Rightarrow> BackupMedia list \<Rightarrow> BackupMedia list"

definition MediaPool_new :: "json_db \<Rightarrow> pool_sys \<Rightarrow> uuid \<Rightarrow> str \<Rightarrow> tape_state \<Rightarrow> 'e MediaSetPolicy \<Rightarrow> 't RetentionPolicy \<Rightarrow>
    str option \<Rightarrow> bytes option \<Rightarrow> bool \<Rightarrow> (err, ('e, 't) MediaPool) result option" where
  "MediaPool_new J sys generated name w policy ret changer fp no_locking =
     (case (if no_locking then Ok () else pool_lock sys) of
        Inl e \<Rightarrow> Some (Err e)
      | Inr _ \<Rightarrow>
          (case Inventory_load J (reload_io sys) (inv_disk w) of
             Inl e \<Rightarrow> Some (Err e)
           | Inr ivt \<Rightarrow>
               (case (case latest_media_set name ivt of
                        Some u \<Rightarrow> compute_media_set_members u ivt
                      | None \<Rightarrow> Some (Ok (MediaSet_new generated))) of
                  None \<Rightarrow> None
                | Some (Inl e) \<Rightarrow> Some (Err e)
                | Some (Inr cur) \<Rightarrow>
                    (case (if no_locking then Ok () else media_set_lock sys (set_uuid cur)) of
                       Inl e \<Rightarrow> Some (Err e)
                     | Inr _ \<Rightarrow>
                         Some (Ok \<lparr>pool_name = name, media_set_policy = policy, retention = ret, changer_name = changer,
                           force_media_availability = False, no_media_set_locking = no_locking, encrypt_fingerprint = fp,
                           pool_inventory = ivt, current_media_set = cur, current_media_set_lock = (\<not> no_locking)\<rparr>)))))"

definition pool_force_media_availability :: "('e, 't) MediaPool \<Rightarrow> ('e, 't) MediaPool" where
  "pool_force_media_availability p = p\<lparr>force_media_availability := True\<rparr>"

text \<open>The parsers of the configured policies and of the fingerprint belong to other crates.\<close>

record MediaPoolConfig =
  cfg_name :: str
  cfg_allocation :: "str option"
  cfg_retention :: "str option"
  cfg_encrypt :: "str option"

definition MediaPool_with_config :: "(str \<Rightarrow> (err, 'e MediaSetPolicy) result) \<Rightarrow> (str \<Rightarrow> (err, 't RetentionPolicy) result) \<Rightarrow>
    (str \<Rightarrow> (err, bytes) result) \<Rightarrow> json_db \<Rightarrow> pool_sys \<Rightarrow> uuid \<Rightarrow> tape_state \<Rightarrow> MediaPoolConfig \<Rightarrow> str option \<Rightarrow> bool \<Rightarrow>
    (err, ('e, 't) MediaPool) result option" where
  "MediaPool_with_config parse_policy parse_retention parse_fp J sys generated w config changer no_locking =
     (case parse_policy (case cfg_allocation config of Some a \<Rightarrow> a | None \<Rightarrow> [99, 111, 110, 116, 105, 110, 117, 101]) of
        Inl e \<Rightarrow> Some (Err e)
      | Inr policy \<Rightarrow>
          (case parse_retention (case cfg_retention config of Some a \<Rightarrow> a | None \<Rightarrow> [107, 101, 101, 112]) of
             Inl e \<Rightarrow> Some (Err e)
           | Inr ret \<Rightarrow>
               (case (case cfg_encrypt config of Some a \<Rightarrow> map_sum id Some (parse_fp a) | None \<Rightarrow> Ok None) of
                  Inl e \<Rightarrow> Some (Err e)
                | Inr fp \<Rightarrow> MediaPool_new J sys generated (cfg_name config) w policy ret changer fp no_locking)))"

definition compute_media_state :: "('e, 't) MediaPool \<Rightarrow> MediaId \<Rightarrow> MediaStatus \<times> MediaLocation" where
  "compute_media_state p m =
     (let (status, location) = status_and_location (ml_uuid (mi_label m)) (pool_inventory p) in
      if status \<in> {Full, Damaged, Retired} then (status, location)
      else (case mi_media_set_label m of
              None \<Rightarrow> (Writable, location)
            | Some sl \<Rightarrow>
                (if ms_pool sl \<noteq> pool_name p then (Unknown, location)
                 else if unassigned sl then (Writable, location)
                 else if ms_uuid sl \<noteq> set_uuid (current_media_set p) then (Full, location)
                 else if is_last_media (ml_uuid (mi_label m)) (current_media_set p) then (Writable, location)
                 else (Full, location))))"

definition backup_media :: "('e, 't) MediaPool \<Rightarrow> MediaId \<Rightarrow> BackupMedia" where
  "backup_media p m =
     (let (status, location) = compute_media_state p m in
      with_media_id m location status (get_media_bytes_used (ml_uuid (mi_label m)) (pool_inventory p)))"

definition pool_lookup_media :: "('e, 't) MediaPool \<Rightarrow> uuid \<Rightarrow> (err, BackupMedia) result" where
  "pool_lookup_media p uuid =
     (case lookup_media uuid (pool_inventory p) of
        None \<Rightarrow> Err ''unable to lookup media''
      | Some m \<Rightarrow>
          (if (case media_pool m of Some pool \<Rightarrow> pool \<noteq> pool_name p | None \<Rightarrow> False) then Err ''media does not belong to pool''
           else (let (status, location) = compute_media_state p m in
                 Ok (with_media_id m location status (get_media_bytes_used uuid (pool_inventory p))))))"

definition list_media :: "('e, 't) MediaPool \<Rightarrow> BackupMedia list" where
  "list_media p = map (backup_media p) (list_pool_media (pool_name p) (pool_inventory p))"

text \<open>The changes of the inventory that the pool passes on.\<close>

definition on_inventory :: "(disk \<Rightarrow> Inventory \<Rightarrow> (err, unit) result \<times> disk \<times> Inventory) \<Rightarrow> tape_state \<Rightarrow> ('e, 't) MediaPool \<Rightarrow>
    (err, unit) result \<times> tape_state \<times> ('e, 't) MediaPool" where
  "on_inventory upd w p = (case upd (inv_disk w) (pool_inventory p) of (r, f, ivt) \<Rightarrow> (r, w\<lparr>inv_disk := f\<rparr>, p\<lparr>pool_inventory := ivt\<rparr>))"

definition set_media_status_damaged :: "json_db \<Rightarrow> inv_io \<Rightarrow> uuid \<Rightarrow> tape_state \<Rightarrow> ('e, 't) MediaPool \<Rightarrow>
    (err, unit) result \<times> tape_state \<times> ('e, 't) MediaPool" where
  "set_media_status_damaged J io uuid = on_inventory (inv_set_media_status_damaged J io uuid)"

definition set_media_status_full :: "json_db \<Rightarrow> inv_io \<Rightarrow> uuid \<Rightarrow> tape_state \<Rightarrow> ('e, 't) MediaPool \<Rightarrow>
    (err, unit) result \<times> tape_state \<times> ('e, 't) MediaPool" where
  "set_media_status_full J io uuid w p =
     (case pool_lookup_media p uuid of
        Inl e \<Rightarrow> (Err e, w, p)
      | Inr media \<Rightarrow> (if bm_status media \<noteq> Full then on_inventory (inv_set_media_status_full J io uuid) w p else (Ok (), w, p)))"

definition set_media_bytes_used :: "json_db \<Rightarrow> inv_io \<Rightarrow> uuid \<Rightarrow> nat option \<Rightarrow> tape_state \<Rightarrow> ('e, 't) MediaPool \<Rightarrow>
    (err, unit) result \<times> tape_state \<times> ('e, 't) MediaPool" where
  "set_media_bytes_used J io uuid used = on_inventory (inv_set_media_bytes_used J io uuid used)"

definition location_is_available :: "('e, 't) MediaPool \<Rightarrow> MediaLocation \<Rightarrow> bool" where
  "location_is_available p l =
     (case l of
        Online name \<Rightarrow>
          (if force_media_availability p then True
           else (case changer_name p of Some c \<Rightarrow> name = c | None \<Rightarrow> False))
      | Offline \<Rightarrow> (if force_media_availability p then True else changer_name p = None)
      | Vault _ \<Rightarrow> False)"

section \<open>Is the current set usable?\<close>

fun usable_loop :: "('e, 't) MediaPool \<Rightarrow> nat \<Rightarrow> nat \<Rightarrow> bytes option option \<Rightarrow> bool \<Rightarrow> uuid option list \<Rightarrow> (err, bool) result" where
  "usable_loop p media_count seq last_enc last_is_writable [] = Ok last_is_writable"
| "usable_loop p media_count seq last_enc last_is_writable (None # rest) = Err ''media set is incomplete (missing media information)''"
| "usable_loop p media_count seq last_enc last_is_writable (Some uuid # rest) =
     (case pool_lookup_media p uuid of
        Inl e \<Rightarrow> Err e
      | Inr media \<Rightarrow>
          (case bm_media_set_label media of
             None \<Rightarrow> Err ''media owner error (no owner)''
           | Some sl \<Rightarrow>
               (if ms_uuid sl \<noteq> set_uuid (current_media_set p) then Err ''media owner error''
                else if ms_seq_nr sl \<noteq> seq then Err ''media sequence error''
                else if ms_fingerprint sl \<noteq> encrypt_fingerprint p then Err ''pool encryption key changed''
                else if (case last_enc of None \<Rightarrow> False | Some fp \<Rightarrow> fp \<noteq> ms_fingerprint sl) then Err ''inconsistent media encryption key''
                else (let enc' = (case last_enc of None \<Rightarrow> Some (ms_fingerprint sl) | Some _ \<Rightarrow> last_enc) in
                      if bm_status media = Full then usable_loop p media_count (seq + 1) enc' last_is_writable rest
                      else if bm_status media = Writable \<and> seq + 1 = media_count then
                        (if location_is_available p (bm_location media) then usable_loop p media_count (seq + 1) enc' True rest
                         else (case bm_location media of
                                 Vault _ \<Rightarrow> Err ''writable media offsite in vault''
                               | _ \<Rightarrow> usable_loop p media_count (seq + 1) enc' last_is_writable rest))
                      else Err ''unable to use media set - wrong media status''))))"

definition current_set_usable :: "('e, 't) MediaPool \<Rightarrow> (err, bool) result" where
  "current_set_usable p =
     (let l = media_list (current_media_set p) in if length l = 0 then Ok False else usable_loop p (length l) 0 None False l)"

section \<open>Write sessions\<close>

definition start_write_session :: "('e, 't) time_lib \<Rightarrow> json_db \<Rightarrow> pool_sys \<Rightarrow> uuid \<Rightarrow> int \<Rightarrow> bool \<Rightarrow> tape_state \<Rightarrow> ('e, 't) MediaPool \<Rightarrow>
    (err, string option) result \<times> ('e, 't) MediaPool" where
  "start_write_session T J sys generated current_time force w p =
     (case (if no_media_set_locking p then Ok () else pool_lock sys) of
        Inl e \<Rightarrow> (Err e, p)
      | Inr _ \<Rightarrow>
          (case reload J (reload_io sys) (inv_disk w) (pool_inventory p) of
             (Inl e, ivt) \<Rightarrow> (Err e, p\<lparr>pool_inventory := ivt\<rparr>)
           | (Inr _, ivt) \<Rightarrow>
               (let p1 = p\<lparr>pool_inventory := ivt\<rparr>;
                    reason = (if force then Some ''forced'' else (case current_set_usable p1 of Inl e \<Rightarrow> Some e | Inr _ \<Rightarrow> None));
                    reason' = (case reason of
                        Some r \<Rightarrow> Some r
                      | None \<Rightarrow>
                          (case media_set_policy p1 of
                             AlwaysCreate \<Rightarrow> Some ''policy is AlwaysCreate''
                           | CreateAt event \<Rightarrow>
                               (case media_set_start_time (set_uuid (current_media_set p1)) ivt of
                                  None \<Rightarrow> None
                                | Some t \<Rightarrow>
                                    (case compute_next_event T event t of
                                       Inr (Some alloc_time) \<Rightarrow> (if current_time \<ge> alloc_time then Some ''policy CreateAt event triggered'' else None)
                                     | _ \<Rightarrow> None))
                           | ContinueCurrent \<Rightarrow> None))
                in case reason' of
                     None \<Rightarrow> (Ok None, p1)
                   | Some r \<Rightarrow>
                       (let ms = MediaSet_new generated in
                        case (if no_media_set_locking p1 then Ok () else media_set_lock sys (set_uuid ms)) of
                          Inl e \<Rightarrow> (Err e, p1)
                        | Inr _ \<Rightarrow> (Ok (Some r), p1\<lparr>current_media_set_lock := (\<not> no_media_set_locking p1), current_media_set := ms\<rparr>)))))"

fun media_list_loop :: "uuid option list \<Rightarrow> (err, uuid list) result" where
  "media_list_loop [] = Ok []"
| "media_list_loop (None # xs) = Err ''current_media_list failed - media set is incomplete''"
| "media_list_loop (Some u # xs) = (case media_list_loop xs of Inl e \<Rightarrow> Err e | Inr us \<Rightarrow> Ok (u # us))"

definition current_media_list :: "('e, 't) MediaPool \<Rightarrow> (err, uuid list) result" where
  "current_media_list p = media_list_loop (media_list (current_media_set p))"

definition media_is_expired :: "('e, 't) time_lib \<Rightarrow> ('e, 't) MediaPool \<Rightarrow> BackupMedia \<Rightarrow> int \<Rightarrow> bool" where
  "media_is_expired T p media current_time =
     (if bm_status media \<noteq> Full then False
      else current_time \<ge> media_expire_time T (bm_id media) (media_set_policy p) (retention p) (pool_inventory p))"

section \<open>The next medium\<close>

text \<open>Sorted with the newest first, so that the oldest is popped from the end.\<close>

definition newer_label :: "MediaLabel \<Rightarrow> MediaLabel \<Rightarrow> bool" where
  "newer_label a b \<longleftrightarrow> ml_ctime b < ml_ctime a \<or> ml_ctime b = ml_ctime a \<and> ml_label_text b \<le> ml_label_text a"

definition set_ctime :: "BackupMedia \<Rightarrow> int" where
  "set_ctime m = (case bm_media_set_label m of Some sl \<Rightarrow> ms_ctime sl | None \<Rightarrow> 0)"

definition newer_set :: "BackupMedia \<Rightarrow> BackupMedia \<Rightarrow> bool" where
  "newer_set a b \<longleftrightarrow> set_ctime b < set_ctime a \<or>
     set_ctime b = set_ctime a \<and> ml_label_text (bm_label b) \<le> ml_label_text (bm_label a)"

definition pop :: "'a list \<Rightarrow> 'a option" where
  "pop xs = (if xs = [] then None else Some (last xs))"

definition next_unassigned_media :: "sorters \<Rightarrow> ('e, 't) MediaPool \<Rightarrow> MediaId list \<Rightarrow> MediaId option" where
  "next_unassigned_media S p l =
     pop (sort_ids S (\<lambda>a b. newer_label (mi_label a) (mi_label b))
       (filter (\<lambda>m. mi_media_set_label m = None \<and> location_is_available p (snd (compute_media_state p m)) \<and>
          fst (compute_media_state p m) = Writable) l))"

definition next_empty_media :: "sorters \<Rightarrow> ('e, 't) MediaPool \<Rightarrow> BackupMedia list \<Rightarrow> MediaId option" where
  "next_empty_media S p l =
     map_option bm_id (pop (sort_media S (\<lambda>a b. newer_label (bm_label a) (bm_label b))
       (filter (\<lambda>m. location_is_available p (bm_location m) \<and> bm_media_set_label m = None \<and> bm_status m = Writable) l)))"

text \<open>The media are tried from the end of the sorted list: \<open>first_lockable\<close> gets it reversed.\<close>

fun first_lockable :: "pool_sys \<Rightarrow> BackupMedia list \<Rightarrow> MediaId option" where
  "first_lockable sys [] = None"
| "first_lockable sys (m # ms) =
     (case bm_media_set_label m of
        Some sl \<Rightarrow> (case media_set_lock sys (ms_uuid sl) of Inr _ \<Rightarrow> Some (bm_id m) | Inl _ \<Rightarrow> first_lockable sys ms)
      | None \<Rightarrow> first_lockable sys ms)"

definition next_expired_media :: "('e, 't) time_lib \<Rightarrow> sorters \<Rightarrow> pool_sys \<Rightarrow> ('e, 't) MediaPool \<Rightarrow> int \<Rightarrow> BackupMedia list \<Rightarrow> MediaId option" where
  "next_expired_media T S sys p current_time l =
     (let expired = sort_media S newer_set
          (filter (\<lambda>m. location_is_available p (bm_location m) \<and>
             (case bm_media_set_label m of Some sl \<Rightarrow> ms_uuid sl \<noteq> set_uuid (current_media_set p) | None \<Rightarrow> False) \<and>
             media_is_expired T p m current_time) l)
      in if no_media_set_locking p then map_option bm_id (pop expired) else first_lockable sys (rev expired))"

definition guess_next_writable_media :: "('e, 't) time_lib \<Rightarrow> sorters \<Rightarrow> pool_sys \<Rightarrow> ('e, 't) MediaPool \<Rightarrow> int \<Rightarrow> (err, MediaId) result option" where
  "guess_next_writable_media T S sys p current_time =
     (case current_set_usable p of
        Inl e \<Rightarrow> Some (Err e)
      | Inr True \<Rightarrow>
          (case last_media_uuid (current_media_set p) of
             None \<Rightarrow> None
           | Some u \<Rightarrow> Some (map_sum id bm_id (pool_lookup_media p u)))
      | Inr False \<Rightarrow>
          (case next_empty_media S p (list_media p) of
             Some m \<Rightarrow> Some (Ok m)
           | None \<Rightarrow>
               (case next_expired_media T S sys p current_time (list_media p) of
                  Some m \<Rightarrow> Some (Ok m)
                | None \<Rightarrow>
                    (case next_unassigned_media S p (list_unassigned_media (pool_inventory p)) of
                       Some m \<Rightarrow> Some (Ok m)
                     | None \<Rightarrow> Some (Err ''guess_next_writable_media failed: no usable media found'')))))"

section \<open>Allocation\<close>

text \<open>\<^verbatim>\<open>MediaCatalog::overwrite\<close>: write a temporary catalog and rename it.\<close>

definition overwrite_catalog :: "pool_sys \<Rightarrow> MediaId \<Rightarrow> tape_state \<Rightarrow> (err, MediaCatalog) result \<times> tape_state" where
  "overwrite_catalog sys m w =
     (case create_temporary_database (cat_io sys) m of
        Inl e \<Rightarrow> (Err e, w)
      | Inr c \<Rightarrow>
          (case rename_fails sys of
             Some _ \<Rightarrow> (Err ''Atomic rename catalog failed'', w)
           | None \<Rightarrow> (Ok c, w\<lparr>catalogs := (catalogs w)(ml_uuid (mi_label m) := cat_file c)\<rparr>)))"

definition add_media_to_current_set :: "json_db \<Rightarrow> pool_sys \<Rightarrow> nat \<Rightarrow> MediaId \<Rightarrow> int \<Rightarrow> tape_state \<Rightarrow> ('e, 't) MediaPool \<Rightarrow>
    (err, unit) result \<times> tape_state \<times> ('e, 't) MediaPool" where
  "add_media_to_current_set J sys point m current_time w p =
     (if \<not> current_media_set_lock p then (Err ''add_media_to_current_set: media set is not locked - internal error'', w, p)
      else (let seq_nr = length (media_list (current_media_set p));
                m' = m\<lparr>mi_media_set_label := Some (MediaSetLabel_with_data (pool_name p) (set_uuid (current_media_set p)) seq_nr current_time
                       (encrypt_fingerprint p))\<rparr>
            in case overwrite_catalog sys m' w of
                 (Inl e, w1) \<Rightarrow> (Err e, w1, p)
               | (Inr _, w1) \<Rightarrow>
                   (case store J (store_io sys) m' True (others sys point (inv_disk w1)) (pool_inventory p) of
                      (Inl e, f, ivt) \<Rightarrow> (Err e, w1\<lparr>inv_disk := f\<rparr>, p\<lparr>pool_inventory := ivt\<rparr>)
                    | (Inr _, f, ivt) \<Rightarrow>
                        (Ok (), w1\<lparr>inv_disk := f\<rparr>, p\<lparr>pool_inventory := ivt, current_media_set := add_media (ml_uuid (mi_label m)) (current_media_set p)\<rparr>))))"

definition use_media :: "json_db \<Rightarrow> pool_sys \<Rightarrow> nat \<Rightarrow> MediaId \<Rightarrow> int \<Rightarrow> tape_state \<Rightarrow> ('e, 't) MediaPool \<Rightarrow>
    (err, uuid) result \<times> tape_state \<times> ('e, 't) MediaPool" where
  "use_media J sys point m current_time w p =
     (case add_media_to_current_set J sys point m current_time w p of
        (Inl e, w', p') \<Rightarrow> (Err e, w', p')
      | (Inr _, w', p') \<Rightarrow> (Ok (ml_uuid (mi_label m)), w', p'))"

text \<open>The second part, after the pool lock was released: media that belong to no pool.\<close>

definition alloc_unassigned :: "sorters \<Rightarrow> json_db \<Rightarrow> pool_sys \<Rightarrow> int \<Rightarrow> tape_state \<Rightarrow> ('e, 't) MediaPool \<Rightarrow>
    (err, uuid) result \<times> tape_state \<times> ('e, 't) MediaPool" where
  "alloc_unassigned S J sys current_time w0 p =
     (case free_lock sys of
        Inl e \<Rightarrow> (Err e, w0, p)
      | Inr _ \<Rightarrow>
          (let w = w0\<lparr>inv_disk := others sys 2 (inv_disk w0)\<rparr> in
           case reload J (reload_io2 sys) (inv_disk w) (pool_inventory p) of
             (Inl e, ivt) \<Rightarrow> (Err e, w, p\<lparr>pool_inventory := ivt\<rparr>)
           | (Inr _, ivt) \<Rightarrow>
               (let p1 = p\<lparr>pool_inventory := ivt\<rparr> in
                case next_unassigned_media S p1 (list_unassigned_media ivt) of
                  Some m \<Rightarrow> use_media J sys 3 m current_time w p1
                | None \<Rightarrow> (Err ''alloc writable media failed: no usable media found'', w, p1))))"

definition alloc_writable_media :: "('e, 't) time_lib \<Rightarrow> sorters \<Rightarrow> json_db \<Rightarrow> pool_sys \<Rightarrow> int \<Rightarrow> tape_state \<Rightarrow> ('e, 't) MediaPool \<Rightarrow>
    ((err, uuid) result \<times> tape_state \<times> ('e, 't) MediaPool) option" where
  "alloc_writable_media T S J sys current_time w0 p =
     (if \<not> current_media_set_lock p then Some (Err ''alloc_writable_media: media set is not locked - internal error'', w0, p)
      else (case current_set_usable p of
              Inl e \<Rightarrow> Some (Err e, w0, p)
            | Inr True \<Rightarrow>
                (case last_media_uuid (current_media_set p) of
                   None \<Rightarrow> None
                 | Some u \<Rightarrow> Some (map_sum id bm_uuid (pool_lookup_media p u), w0, p))
            | Inr False \<Rightarrow>
                (case pool_lock sys of
                   Inl e \<Rightarrow> Some (Err e, w0, p)
                 | Inr _ \<Rightarrow>
                     (let w = w0\<lparr>inv_disk := others sys 0 (inv_disk w0)\<rparr> in
                      case reload J (reload_io sys) (inv_disk w) (pool_inventory p) of
                        (Inl e, ivt) \<Rightarrow> Some (Err e, w, p\<lparr>pool_inventory := ivt\<rparr>)
                      | (Inr _, ivt) \<Rightarrow>
                          (let p1 = p\<lparr>pool_inventory := ivt\<rparr> in
                           case next_empty_media S p1 (list_media p1) of
                             Some m \<Rightarrow> Some (use_media J sys 1 m current_time w p1)
                           | None \<Rightarrow>
                               (case next_expired_media T S sys p1 current_time (list_media p1) of
                                  Some m \<Rightarrow> Some (use_media J sys 1 m current_time w p1)
                                | None \<Rightarrow> Some (alloc_unassigned S J sys current_time w p1)))))))"

section \<open>What may be chosen\<close>

lemma reload_loads:
  assumes "reload J io f s = (Ok x, s')"
  shows "Inventory_load J no_faults f = Ok s'" "db_ok (inv_map s')"
  using assms load_no_faults load_media_db_ok
  by (fastforce simp: reload_def Inventory_load_def update_helpers_def Inventory_new_def split: sum.splits)+

text \<open>A medium without data: it has no label of a media set, or one that only reserves it for a pool.\<close>

definition holds_no_data :: "MediaId \<Rightarrow> bool" where
  "holds_no_data m \<longleftrightarrow> (case mi_media_set_label m of None \<Rightarrow> True | Some sl \<Rightarrow> unassigned sl)"

text \<open>
  The media that may be written: available, neither damaged nor retired, and either without data and in no other
  pool, or used in this pool by another media set that is expired and not locked.
\<close>

definition may_use :: "('e, 't) time_lib \<Rightarrow> pool_sys \<Rightarrow> int \<Rightarrow> ('e, 't) MediaPool \<Rightarrow> uuid \<Rightarrow> bool" where
  "may_use T sys now p u \<longleftrightarrow>
     (\<exists>e. map_of (inv_map (pool_inventory p)) u = Some e \<and> st_status e \<notin> {Some Damaged, Some Retired} \<and>
        location_is_available p (case st_location e of None \<Rightarrow> Offline | Some l \<Rightarrow> l) \<and>
        (holds_no_data (st_id e) \<and> st_status e \<noteq> Some Full \<and> media_pool (st_id e) \<in> {None, Some (pool_name p)} \<or>
         (\<exists>sl x. mi_media_set_label (st_id e) = Some sl \<and> ms_pool sl = pool_name p \<and> \<not> unassigned sl \<and>
            ms_uuid sl \<noteq> set_uuid (current_media_set p) \<and> (no_media_set_locking p \<or> media_set_lock sys (ms_uuid sl) = Ok x) \<and>
            media_expire_time T (st_id e) (media_set_policy p) (retention p) (pool_inventory p) \<le> now)))"

lemma without_reservation_label [simp]: "mi_label (without_reservation m) = mi_label m"
  by (simp add: without_reservation_def split: option.split)

lemma without_reservation_Some: "mi_media_set_label (without_reservation m) = Some sl \<Longrightarrow> without_reservation m = m \<and> \<not> unassigned sl"
  by (auto simp: without_reservation_def split: option.splits if_splits)

lemma without_reservation_None: "mi_media_set_label (without_reservation m) = None \<longleftrightarrow> holds_no_data m"
  by (auto simp: without_reservation_def holds_no_data_def split: option.splits if_splits)

lemma list_media_entry:
  assumes "db_ok (inv_map (pool_inventory p))" "m \<in> set (list_media p)"
  obtains e where "map_of (inv_map (pool_inventory p)) (entry_uuid e) = Some e" "media_pool (st_id e) = Some (pool_name p)"
    "bm_id m = without_reservation (st_id e)" "fst (compute_media_state p (bm_id m)) = bm_status m" "snd (compute_media_state p (bm_id m)) = bm_location m"
  using assms by (auto simp: list_media_def list_pool_media_def backup_media_def with_media_id_def db_values split: prod.splits)

lemma compute_media_state_location:
  "snd (compute_media_state p m) = snd (status_and_location (ml_uuid (mi_label m)) (pool_inventory p))"
  by (auto simp: compute_media_state_def Let_def split: prod.splits option.splits)

lemma entry_state:
  assumes "map_of (inv_map (pool_inventory p)) u = Some e" "ml_uuid (mi_label m) = u"
  shows "snd (compute_media_state p m) = (case st_location e of None \<Rightarrow> Offline | Some l \<Rightarrow> l)"
    "fst (compute_media_state p m) \<in> {Writable, Full} \<Longrightarrow> st_status e \<notin> {Some Damaged, Some Retired}"
    "fst (compute_media_state p m) = Writable \<Longrightarrow> st_status e \<noteq> Some Full"
  using assms by (auto simp: compute_media_state_location status_and_location_def)
    (auto simp: compute_media_state_def status_and_location_def Let_def)

lemma pop_in_sort: "sort_unstable srt \<Longrightarrow> pop (srt le xs) = Some x \<Longrightarrow> x \<in> set xs"
  by (auto simp: pop_def sort_unstable.sort_empty sort_unstable.sort_last_in split: if_splits)

lemma next_empty_may_use:
  assumes "sort_unstable (sort_media S)" "db_ok (inv_map (pool_inventory p))" "next_empty_media S p (list_media p) = Some m"
  shows "may_use T sys now p (ml_uuid (mi_label m))"
proof -
  obtain b where b: "m = bm_id b" "b \<in> set (list_media p)" "location_is_available p (bm_location b)" "bm_media_set_label b = None" "bm_status b = Writable"
    using assms(3) by (auto simp: next_empty_media_def dest: pop_in_sort [OF assms(1)])
  from list_media_entry [OF assms(2) b(2)] obtain e where e: "map_of (inv_map (pool_inventory p)) (entry_uuid e) = Some e"
    "media_pool (st_id e) = Some (pool_name p)" "bm_id b = without_reservation (st_id e)" "fst (compute_media_state p (bm_id b)) = bm_status b"
    "snd (compute_media_state p (bm_id b)) = bm_location b" .
  have u: "ml_uuid (mi_label m) = entry_uuid e" using b e by (simp add: entry_uuid_def)
  have "holds_no_data (st_id e)" using b(4) e(3) by (simp add: bm_media_set_label_def without_reservation_None)
  moreover note entry_state [OF e(1) u]
  ultimately show ?thesis
    using b e u unfolding may_use_def by (intro exI [of _ e]) auto
qed

lemma first_lockable_in:
  "first_lockable sys ms = Some m \<Longrightarrow> \<exists>b sl x. b \<in> set ms \<and> m = bm_id b \<and> bm_media_set_label b = Some sl \<and> media_set_lock sys (ms_uuid sl) = Ok x"
  by (induction ms) (auto split: option.splits sum.splits)

lemma next_expired_may_use:
  assumes "sort_unstable (sort_media S)" "db_ok (inv_map (pool_inventory p))" "next_expired_media T S sys p now (list_media p) = Some m"
  shows "may_use T sys now p (ml_uuid (mi_label m))"
proof -
  obtain b sl where b: "m = bm_id b" "b \<in> set (list_media p)" "location_is_available p (bm_location b)" "bm_media_set_label b = Some sl"
    "ms_uuid sl \<noteq> set_uuid (current_media_set p)" "media_is_expired T p b now" "no_media_set_locking p \<or> (\<exists>x. media_set_lock sys (ms_uuid sl) = Ok x)"
    using assms(3) pop_in_sort [OF assms(1)] first_lockable_in [of sys _ m]
    by (fastforce simp: next_expired_media_def Let_def sort_unstable.sort_set [OF assms(1)] split: if_splits option.splits)
  from list_media_entry [OF assms(2) b(2)] obtain e where e: "map_of (inv_map (pool_inventory p)) (entry_uuid e) = Some e"
    "media_pool (st_id e) = Some (pool_name p)" "bm_id b = without_reservation (st_id e)" "fst (compute_media_state p (bm_id b)) = bm_status b"
    "snd (compute_media_state p (bm_id b)) = bm_location b" .
  have sl: "bm_id b = st_id e" "mi_media_set_label (st_id e) = Some sl" "\<not> unassigned sl"
    using b(4) e(3) without_reservation_Some [of "st_id e" sl] by (simp_all add: bm_media_set_label_def)
  have u: "ml_uuid (mi_label m) = entry_uuid e" using b e by (simp add: entry_uuid_def)
  have "bm_status b = Full" "media_expire_time T (st_id e) (media_set_policy p) (retention p) (pool_inventory p) \<le> now"
    using b(6) sl(1) by (auto simp: media_is_expired_def split: if_splits)
  moreover note entry_state [OF e(1) u]
  moreover have "ms_pool sl = pool_name p" using e(2) sl(2) by (simp add: media_pool_def)
  ultimately show ?thesis
    using b e(1,4,5) sl u unfolding may_use_def by (intro exI [of _ e]) auto
qed

lemma next_unassigned_may_use:
  assumes "sort_unstable (sort_ids S)" "db_ok (inv_map (pool_inventory p))"
    "next_unassigned_media S p (list_unassigned_media (pool_inventory p)) = Some m"
  shows "may_use T sys now p (ml_uuid (mi_label m))"
proof -
  obtain e where e: "e \<in> set (bt_values (inv_map (pool_inventory p)))" "m = st_id e" "media_pool m = None" "mi_media_set_label m = None"
    "location_is_available p (snd (compute_media_state p m))" "fst (compute_media_state p m) = Writable"
    using pop_in_sort [OF assms(1) assms(3) [unfolded next_unassigned_media_def]] by (auto simp: list_unassigned_media_def)
  have e1: "map_of (inv_map (pool_inventory p)) (entry_uuid e) = Some e" using e(1) db_values [OF assms(2)] by simp
  have u: "ml_uuid (mi_label m) = entry_uuid e" using e by (simp add: entry_uuid_def)
  note entry_state [OF e1 u]
  then show ?thesis
    using e e1 u unfolding may_use_def by (intro exI [of _ e]) (auto simp: holds_no_data_def)
qed

section \<open>Allocation\<close>

text \<open>The label that the next medium of the current set gets.\<close>

definition next_label :: "('e, 't) MediaPool \<Rightarrow> int \<Rightarrow> MediaSetLabel" where
  "next_label p now = MediaSetLabel_with_data (pool_name p) (set_uuid (current_media_set p)) (length (media_list (current_media_set p))) now
     (encrypt_fingerprint p)"

text \<open>A medium was added: its entry in the file has the next label, and nothing else in the file changed.\<close>

definition added :: "json_db \<Rightarrow> int \<Rightarrow> disk \<Rightarrow> ('e, 't) MediaPool \<Rightarrow> uuid \<Rightarrow> disk \<Rightarrow> ('e, 't) MediaPool \<Rightarrow> bool" where
  "added J now f p u f' p' \<longleftrightarrow>
     (\<exists>db e. disk_db J f = Some db \<and> disk_db J f' = Some (db(u \<mapsto> e)) \<and> mi_media_set_label (st_id e) = Some (next_label p now) \<and>
        st_status e = None \<and> Inventory_load J no_faults f' = Ok (pool_inventory p') \<and>
        p' = p\<lparr>pool_inventory := pool_inventory p', current_media_set := add_media u (current_media_set p)\<rparr>)"

lemma keep_assignment_Some [simp]: "mi_media_set_label m = Some sl \<Longrightarrow> keep_assignment e m = m"
  by (simp add: keep_assignment_def)

lemma stored_entry_Some: "mi_media_set_label m = Some sl \<Longrightarrow> mi_media_set_label (st_id (stored_entry prev m True)) = Some sl \<and> st_status (stored_entry prev m True) = None"
  by (simp add: stored_entry_def split: option.split)

lemma use_media_cases:
  assumes "json_codec J" "use_media J sys i m now w p = (r, w', p')"
  obtains (not_used) e where "r = Err e" "inv_disk w' \<in> {inv_disk w, others sys i (inv_disk w)}" "current_media_set p' = current_media_set p"
  | (was_used) "r = Ok (ml_uuid (mi_label m))" "added J now (others sys i (inv_disk w)) p (ml_uuid (mi_label m)) (inv_disk w') p'"
proof (cases "current_media_set_lock p")
  case False
  then show ?thesis using assms(2) not_used by (auto simp: use_media_def add_media_to_current_set_def)
next
  case True
  let ?m = "m\<lparr>mi_media_set_label := Some (next_label p now)\<rparr>"
  show ?thesis
  proof (cases "overwrite_catalog sys ?m w")
    case (Pair rc w1)
    have w1: "inv_disk w1 = inv_disk w" using Pair by (auto simp: overwrite_catalog_def split: sum.splits option.splits)
    show ?thesis
    proof (cases rc)
      case (Inl e)
      then show ?thesis using assms(2) True Pair w1 not_used
        by (auto simp: use_media_def add_media_to_current_set_def next_label_def Let_def)
    next
      case (Inr c)
      obtain r1 f ivt where st: "store J (store_io sys) ?m True (others sys i (inv_disk w1)) (pool_inventory p) = (r1, f, ivt)" by (metis prod_cases3)
      then have "run_op J (store_io sys) (Store ?m True) (others sys i (inv_disk w1)) (pool_inventory p) = (r1, f, ivt)" by simp
      note rf = json_codec.run_op_refines [OF assms(1) this]
      show ?thesis
      proof (cases r1)
        case (Inl e)
        then show ?thesis using assms(2) True Pair Inr st w1 rf not_used [of e]
          by (auto simp: use_media_def add_media_to_current_set_def next_label_def Let_def)
      next
        case r1: (Inr x)
        have res: "r = Ok (ml_uuid (mi_label m))" "inv_disk w' = f"
          "p' = p\<lparr>pool_inventory := ivt, current_media_set := add_media (ml_uuid (mi_label m)) (current_media_set p)\<rparr>"
          using assms(2) True Pair Inr st r1 by (auto simp: use_media_def add_media_to_current_set_def next_label_def Let_def)
        moreover have "added J now (others sys i (inv_disk w)) p (ml_uuid (mi_label m)) f p'"
          using rf r1 w1 res(3) stored_entry_Some [of ?m] by (fastforce simp: added_def)
        ultimately show ?thesis using was_used by simp
      qed
    qed
  qed
qed

text \<open>The outcomes of an allocation: the last medium of the set again, a medium that may be used, or an error.\<close>

lemma alloc_unassigned_cases:
  assumes "json_codec J" "sort_unstable (sort_ids S)" "alloc_unassigned S J sys now w p = (r, w', p')"
  obtains (no_free) e where "r = Err e" "inv_disk w' \<in> {inv_disk w, others sys 2 (inv_disk w), others sys 3 (others sys 2 (inv_disk w))}"
      "current_media_set p' = current_media_set p"
  | (free_used) u ivt where "r = Ok u" "Inventory_load J no_faults (others sys 2 (inv_disk w)) = Ok ivt" "may_use T sys now (p\<lparr>pool_inventory := ivt\<rparr>) u"
      "added J now (others sys 3 (others sys 2 (inv_disk w))) (p\<lparr>pool_inventory := ivt\<rparr>) u (inv_disk w') p'"
proof (cases "free_lock sys")
  case (Inl e)
  then show ?thesis using assms(3) no_free by (auto simp: alloc_unassigned_def)
next
  case (Inr x)
  obtain r1 ivt where rl: "reload J (reload_io2 sys) (others sys 2 (inv_disk w)) (pool_inventory p) = (r1, ivt)" by fastforce
  show ?thesis
  proof (cases r1)
    case (Inl e)
    then show ?thesis using assms(3) \<open>free_lock sys = Inr x\<close> rl no_free by (auto simp: alloc_unassigned_def Let_def)
  next
    case r1: (Inr y)
    note ld = reload_loads [OF rl [unfolded r1]]
    let ?p = "p\<lparr>pool_inventory := ivt\<rparr>"
    show ?thesis
    proof (cases "next_unassigned_media S ?p (list_unassigned_media ivt)")
      case None
      then show ?thesis using assms(3) Inr rl r1 no_free by (auto simp: alloc_unassigned_def Let_def)
    next
      case (Some m)
      have "use_media J sys 3 m now (w\<lparr>inv_disk := others sys 2 (inv_disk w)\<rparr>) ?p = (r, w', p')"
        using assms(3) Inr rl r1 Some by (simp add: alloc_unassigned_def Let_def)
      from assms(1) this show ?thesis
      proof (cases rule: use_media_cases)
        case not_used
        then show ?thesis using no_free by auto
      next
        case was_used
        then show ?thesis
          using next_unassigned_may_use [OF assms(2), of ?p m T sys now] ld Some by (intro free_used [of _ ivt]) auto
      qed
    qed
  qed
qed

lemma alloc_new_cases:
  assumes "json_codec J" "sort_unstable (sort_ids S)" "sort_unstable (sort_media S)" "current_media_set_lock p" "current_set_usable p = Ok False"
    "alloc_writable_media T S J sys now w p = Some (r, w', p')"
  obtains (new_failed) e where "r = Err e" "current_media_set p' = current_media_set p"
      "inv_disk w' \<in> {inv_disk w, others sys 0 (inv_disk w), others sys 1 (others sys 0 (inv_disk w)), others sys 2 (others sys 0 (inv_disk w)),
         others sys 3 (others sys 2 (others sys 0 (inv_disk w)))}"
  | (new_used) u f i ivt where "r = Ok u"
      "(f, i) \<in> {(others sys 0 (inv_disk w), 1), (others sys 2 (others sys 0 (inv_disk w)), 3)}"
      "Inventory_load J no_faults f = Ok ivt" "may_use T sys now (p\<lparr>pool_inventory := ivt\<rparr>) u"
      "added J now (others sys i f) (p\<lparr>pool_inventory := ivt\<rparr>) u (inv_disk w') p'"
proof (cases "pool_lock sys")
  case (Inl e)
  then show ?thesis using assms(4-6) new_failed by (auto simp: alloc_writable_media_def)
next
  case (Inr x)
  let ?w = "w\<lparr>inv_disk := others sys 0 (inv_disk w)\<rparr>"
  obtain r1 ivt where rl: "reload J (reload_io sys) (others sys 0 (inv_disk w)) (pool_inventory p) = (r1, ivt)" by fastforce
  show ?thesis
  proof (cases r1)
    case (Inl e)
    then show ?thesis using assms(4-6) Inr rl new_failed by (auto simp: alloc_writable_media_def Let_def)
  next
    case r1: (Inr y)
    note ld = reload_loads [OF rl [unfolded r1]]
    let ?p = "p\<lparr>pool_inventory := ivt\<rparr>"
    have use: thesis if "use_media J sys 1 m now ?w ?p = (r, w', p')" "may_use T sys now ?p (ml_uuid (mi_label m))" for m
      using assms(1) that(1)
    proof (cases rule: use_media_cases)
      case not_used
      then show ?thesis using new_failed by auto
    next
      case was_used
      then show ?thesis using that(2) ld by (intro new_used [of _ _ 1 ivt]) auto
    qed
    show ?thesis
    proof (cases "next_empty_media S ?p (list_media ?p)")
      case (Some m)
      then show ?thesis
        using assms(4-6) Inr rl r1 next_empty_may_use [OF assms(3), of ?p m] ld
        by (intro use [of m]) (simp_all add: alloc_writable_media_def Let_def)
    next
      case empty: None
      show ?thesis
      proof (cases "next_expired_media T S sys ?p now (list_media ?p)")
        case (Some m)
        then show ?thesis
          using assms(4-6) Inr rl r1 empty next_expired_may_use [OF assms(3), of ?p T sys now m] ld
          by (intro use [of m]) (simp_all add: alloc_writable_media_def Let_def)
      next
        case None
        then have "alloc_unassigned S J sys now ?w ?p = (r, w', p')"
          using assms(4-6) Inr rl r1 empty by (simp add: alloc_writable_media_def Let_def)
        from assms(1,2) this show ?thesis
        proof (cases rule: alloc_unassigned_cases [where T = T])
          case no_free
          then show ?thesis using new_failed by auto
        next
          case (free_used u ivt')
          then show ?thesis by (intro new_used [of u _ 3 ivt']) auto
        qed
      qed
    qed
  qed
qed

lemma alloc_current:
  "current_media_set_lock p \<Longrightarrow> current_set_usable p = Ok True \<Longrightarrow>
    alloc_writable_media T S J sys now w p =
      (case last_media_uuid (current_media_set p) of
         None \<Rightarrow> None
       | Some u \<Rightarrow> Some (map_sum id bm_uuid (pool_lookup_media p u), w, p))"
  unfolding alloc_writable_media_def by simp

lemma lookup_uuid:
  assumes "db_ok (inv_map (pool_inventory p))" "pool_lookup_media p u = Ok m"
  shows "bm_uuid m = u"
  using assms db_ok_entry [OF assms(1), of u]
  by (auto simp: pool_lookup_media_def lookup_media_def bm_uuid_def bm_label_def with_media_id_def entry_uuid_def split: option.splits if_splits prod.splits)

lemma alloc_cases:
  assumes "json_codec J" "sort_unstable (sort_ids S)" "sort_unstable (sort_media S)" "alloc_writable_media T S J sys now w p = Some (r, w', p')"
    "db_ok (inv_map (pool_inventory p))"
  obtains (failed) e where "r = Err e" "current_media_set p' = current_media_set p"
      "inv_disk w' \<in> {inv_disk w, others sys 0 (inv_disk w), others sys 1 (others sys 0 (inv_disk w)), others sys 2 (others sys 0 (inv_disk w)),
         others sys 3 (others sys 2 (others sys 0 (inv_disk w)))}"
  | (current) u where "current_set_usable p = Ok True" "last_media_uuid (current_media_set p) = Some u" "w' = w" "p' = p" "r = Ok u"
  | (used) u f i ivt where "r = Ok u" "current_set_usable p = Ok False"
      "(f, i) \<in> {(others sys 0 (inv_disk w), 1), (others sys 2 (others sys 0 (inv_disk w)), 3)}"
      "Inventory_load J no_faults f = Ok ivt" "may_use T sys now (p\<lparr>pool_inventory := ivt\<rparr>) u"
      "added J now (others sys i f) (p\<lparr>pool_inventory := ivt\<rparr>) u (inv_disk w') p'"
proof (cases "current_media_set_lock p")
  case False
  then show ?thesis using assms(4) failed by (auto simp: alloc_writable_media_def)
next
  case locked: True
  show ?thesis
  proof (cases "current_set_usable p")
    case (Inl e)
    then show ?thesis using assms(4) locked failed by (auto simp: alloc_writable_media_def)
  next
    case (Inr b)
    show ?thesis
    proof (cases b)
      case True
      then have us: "current_set_usable p = Ok True" using Inr by simp
      have "\<exists>u. last_media_uuid (current_media_set p) = Some u \<and> r = map_sum id bm_uuid (pool_lookup_media p u) \<and> w' = w \<and> p' = p"
        using assms(4) [unfolded alloc_current [OF locked us]] by (cases "last_media_uuid (current_media_set p)") auto
      then obtain u where u: "last_media_uuid (current_media_set p) = Some u" "r = map_sum id bm_uuid (pool_lookup_media p u)" "w' = w" "p' = p"
        by blast
      show ?thesis
      proof (cases "pool_lookup_media p u")
        case (Inl e)
        then show ?thesis using u failed by auto
      next
        case m: (Inr m)
        then have "bm_uuid m = u" using lookup_uuid [OF assms(5)] by blast
        then show ?thesis using u m current Inr True by simp
      qed
    next
      case False
      then have "current_set_usable p = Ok False" using Inr by simp
      from assms(1-3) locked this assms(4) show ?thesis
      proof (cases rule: alloc_new_cases)
        case (new_failed e)
        then show ?thesis by (rule failed)
      next
        case (new_used u f i ivt)
        with \<open>current_set_usable p = Ok False\<close> show ?thesis by (intro used)
      qed
    qed
  qed
qed

section \<open>The current set and the inventory\<close>

text \<open>A new process that opens the pool computes the current set from the file: the two agree.\<close>

definition pool_consistent :: "json_db \<Rightarrow> disk \<Rightarrow> ('e, 't) MediaPool \<Rightarrow> bool" where
  "pool_consistent J f p \<longleftrightarrow>
     (\<exists>ivt. Inventory_load J no_faults f = Ok ivt \<and>
        compute_media_set_members (set_uuid (current_media_set p)) ivt = Some (Ok (current_media_set p)))"

text \<open>The numbers and uuids of the members of a set in a file. The lock on a set keeps other processes from changing them.\<close>

definition set_on_disk :: "json_db \<Rightarrow> uuid \<Rightarrow> disk \<Rightarrow> (nat \<times> uuid) set option" where
  "set_on_disk J u f = map_option (\<lambda>db. {(n, x). \<exists>e sl. db x = Some e \<and> mi_media_set_label (st_id e) = Some sl \<and> ms_uuid sl = u \<and> ms_seq_nr sl = n})
     (disk_db J f)"

lemma loaded_disk:
  assumes "Inventory_load J no_faults f = Ok ivt"
  shows "disk_db J f = Some (map_of (inv_map ivt))" "db_ok (inv_map ivt)"
    "set_on_disk J u f = Some (set (set_members u (bt_values (inv_map ivt))))"
proof -
  show 1: "disk_db J f = Some (map_of (inv_map ivt))" "db_ok (inv_map ivt)"
    using assms load_media_db_ok [of J no_faults f]
    by (auto simp: Inventory_load_def reload_def disk_db_def update_helpers_def split: sum.splits)
  show "set_on_disk J u f = Some (set (set_members u (bt_values (inv_map ivt))))"
    using 1(1) set_members_db [OF 1(2)] by (auto simp: set_on_disk_def)
qed

lemma pool_consistent_iff:
  assumes "length (media_list (current_media_set p)) < 2 ^ 64"
  shows "pool_consistent J f p \<longleftrightarrow> (\<exists>A. set_on_disk J (set_uuid (current_media_set p)) f = Some A \<and> set_holds (current_media_set p) A)"
proof
  show "pool_consistent J f p \<Longrightarrow> \<exists>A. set_on_disk J (set_uuid (current_media_set p)) f = Some A \<and> set_holds (current_media_set p) A"
    by (auto simp: pool_consistent_def loaded_disk dest: computed_holds)
  assume "\<exists>A. set_on_disk J (set_uuid (current_media_set p)) f = Some A \<and> set_holds (current_media_set p) A"
  then obtain A where A: "set_on_disk J (set_uuid (current_media_set p)) f = Some A" "set_holds (current_media_set p) A" by blast
  then obtain db where db: "load_media_db J no_faults f = Ok db" by (auto simp: set_on_disk_def disk_db_def split: sum.splits)
  define ivt where "ivt = update_helpers (Inventory_new\<lparr>inv_map := db\<rparr>)"
  have l: "Inventory_load J no_faults f = Ok ivt" using db by (simp add: Inventory_load_def reload_def ivt_def)
  then show "pool_consistent J f p"
    using computed_unique [OF loaded_disk(2) [OF l] _ assms] A loaded_disk(3) [OF l] by (auto simp: pool_consistent_def)
qed

lemma usable_loop_complete: "usable_loop p c n le lw l = Ok b \<Longrightarrow> None \<notin> set l"
proof (induction l arbitrary: n le lw)
  case (Cons x l)
  then show ?case
    by (cases x) (auto simp: Let_def split: sum.splits option.splits if_splits MediaLocation.splits)
qed simp

lemma usable_complete: "current_set_usable p = Ok b \<Longrightarrow> None \<notin> set (media_list (current_media_set p))"
  using usable_loop_complete [of p _ 0 None False "media_list (current_media_set p)" b] by (auto simp: current_set_usable_def Let_def split: if_splits)

lemma add_media_holds:
  assumes "set_holds ms A"
  shows "set_holds (add_media u ms) (insert (length (media_list ms), u) A)"
proof -
  have "(i < Suc (length (media_list ms)) \<and> (media_list ms @ [Some u]) ! i = Some v) = ((i, v) \<in> insert (length (media_list ms), u) A)" for i v
    using set_holds_iff [OF assms, of i v] by (auto simp: nth_append less_Suc_eq)
  then show ?thesis by (simp add: set_holds_def add_media_def)
qed

lemma may_use_not_member:
  assumes "may_use T sys now p u" "set_uuid (current_media_set p) \<noteq> replicate 16 0" "db_ok (inv_map (pool_inventory p))"
  shows "(n, u) \<notin> set (set_members (set_uuid (current_media_set p)) (bt_values (inv_map (pool_inventory p))))"
  using assms by (auto simp: set_members_db may_use_def holds_no_data_def unassigned_def)

lemma added_consistent:
  assumes "added J now f1 p u f' p'" "set_on_disk J (set_uuid (current_media_set p)) f1 = Some A" "set_holds (current_media_set p) A"
    "\<And>n. (n, u) \<notin> A" "length (media_list (current_media_set p)) + 1 < 2 ^ 64"
  shows "pool_consistent J f' p'"
proof -
  let ?cur = "current_media_set p"
  obtain db e where d: "disk_db J f1 = Some db" "disk_db J f' = Some (db(u \<mapsto> e))" "mi_media_set_label (st_id e) = Some (next_label p now)"
    and p': "p' = p\<lparr>pool_inventory := pool_inventory p', current_media_set := add_media u ?cur\<rparr>"
    using assms(1) by (auto simp: added_def)
  have A: "A = {(n, x). \<exists>e sl. db x = Some e \<and> mi_media_set_label (st_id e) = Some sl \<and> ms_uuid sl = set_uuid ?cur \<and> ms_seq_nr sl = n}"
    using assms(2) d(1) by (simp add: set_on_disk_def)
  have "set_on_disk J (set_uuid ?cur) f' = Some (insert (length (media_list ?cur), u) A)"
    using d(2,3) assms(4) by (auto simp: set_on_disk_def A next_label_def MediaSetLabel_with_data_def)
  moreover have cur: "current_media_set p' = add_media u ?cur" using arg_cong [OF p', of current_media_set] by simp
  ultimately show ?thesis
    using add_media_holds [OF assms(3), of u] assms(5) by (subst pool_consistent_iff) (auto simp: add_media_def)
qed

section \<open>Guessing and allocating\<close>

text \<open>No lock is held by others, no system call fails and no other process changes the files.\<close>

definition calm :: "pool_sys \<Rightarrow> bool" where
  "calm sys \<longleftrightarrow> is_ok (pool_lock sys) \<and> is_ok (free_lock sys) \<and> (\<forall>u. is_ok (media_set_lock sys u)) \<and> reload_io sys = no_faults \<and>
     reload_io2 sys = no_faults \<and> store_io sys = no_faults \<and> cat_io sys = None \<and> rename_fails sys = None \<and> (\<forall>i f. others sys i f = f)"

text \<open>What the choice depends on: everything but the locking.\<close>

lemma locking_irrelevant [simp]:
  fixes p :: "('e, 't) MediaPool" and b c :: bool
  defines "q \<equiv> p\<lparr>no_media_set_locking := b, current_media_set_lock := c\<rparr>"
  shows "compute_media_state q = compute_media_state p" "location_is_available q = location_is_available p"
    "backup_media q = backup_media p" "pool_lookup_media q = pool_lookup_media p" "list_media q = list_media p"
    "media_is_expired T q = media_is_expired T p" "next_empty_media S q = next_empty_media S p"
    "next_unassigned_media S q = next_unassigned_media S p"
proof -
  have sel: "pool_name q = pool_name p" "pool_inventory q = pool_inventory p" "current_media_set q = current_media_set p"
    "force_media_availability q = force_media_availability p" "changer_name q = changer_name p"
    by (simp_all add: q_def)
  show st: "compute_media_state q = compute_media_state p" "location_is_available q = location_is_available p"
    unfolding compute_media_state_def location_is_available_def fun_eq_iff sel by simp_all
  show "backup_media q = backup_media p" using st by (simp add: backup_media_def fun_eq_iff q_def)
  then show "list_media q = list_media p" by (simp add: list_media_def q_def)
  show "pool_lookup_media q = pool_lookup_media p" unfolding pool_lookup_media_def fun_eq_iff sel st by simp
  show "media_is_expired T q = media_is_expired T p" by (simp add: media_is_expired_def fun_eq_iff q_def)
  show "next_empty_media S q = next_empty_media S p" using st by (simp add: next_empty_media_def fun_eq_iff)
  show "next_unassigned_media S q = next_unassigned_media S p" using st by (simp add: next_unassigned_media_def fun_eq_iff)
qed

lemma usable_locking_irrelevant [simp]:
  "current_set_usable (p\<lparr>no_media_set_locking := b, current_media_set_lock := c\<rparr>) = current_set_usable p"
proof -
  have "usable_loop (p\<lparr>no_media_set_locking := b, current_media_set_lock := c\<rparr>) n i le lw l = usable_loop p n i le lw l" for n i le lw l
    by (induction p n i le lw l rule: usable_loop.induct) (auto simp: Let_def split: sum.split option.split MediaLocation.split)
  then show ?thesis by (simp add: current_set_usable_def Let_def)
qed

lemma first_lockable_pop:
  assumes "calm sys" "\<forall>m \<in> set ms. bm_media_set_label m \<noteq> None"
  shows "first_lockable sys (rev ms) = map_option bm_id (pop ms)"
proof (cases ms rule: rev_cases)
  case (snoc xs x)
  moreover obtain sl where "bm_media_set_label x = Some sl" using assms(2) snoc by auto
  moreover obtain y where "media_set_lock sys (ms_uuid sl) = Ok y" using assms(1) by (auto simp: calm_def is_ok_iff)
  ultimately show ?thesis by (simp add: pop_def)
qed (simp add: pop_def)

lemma next_expired_calm:
  assumes "calm sys" "sort_unstable (sort_media S)"
  shows "next_expired_media T S sys (p\<lparr>no_media_set_locking := b, current_media_set_lock := c\<rparr>) now l = next_expired_media T S sys p now l"
proof -
  let ?q = "p\<lparr>no_media_set_locking := b, current_media_set_lock := c\<rparr>"
  define ex where "ex = sort_media S newer_set
          (filter (\<lambda>m. location_is_available p (bm_location m) \<and>
             (case bm_media_set_label m of Some sl \<Rightarrow> ms_uuid sl \<noteq> set_uuid (current_media_set p) | None \<Rightarrow> False) \<and>
             media_is_expired T p m now) l)"
  have "\<forall>m \<in> set ex. bm_media_set_label m \<noteq> None" by (auto simp: ex_def sort_unstable.sort_set [OF assms(2)] split: option.splits)
  note f = first_lockable_pop [OF assms(1) this]
  have "next_expired_media T S sys q now l = map_option bm_id (pop ex)"
    if "current_media_set q = current_media_set p" "location_is_available q = location_is_available p" "media_is_expired T q = media_is_expired T p" for q
    unfolding next_expired_media_def that ex_def [symmetric] Let_def using f by simp
  then show ?thesis by simp
qed

lemma create_ok: "\<exists>c. create_temporary_database None m = Ok c"
  by (simp add: create_temporary_database_def register_label_def check_register_label_def MediaCatalog_empty_def expected_file_number_def commit_def
      PROXMOX_BACKUP_MEDIA_CATALOG_MAGIC_1_1_def wrapping_add_def Let_def split: option.split)

lemma use_media_calm:
  assumes "calm sys" "\<And>l. is_ok (to_json J l)" "Inventory_load J no_faults (inv_disk w) = Ok ivt" "current_media_set_lock p"
  shows "\<exists>w' p'. use_media J sys i m now w p = (Ok (ml_uuid (mi_label m)), w', p')"
proof -
  let ?m = "m\<lparr>mi_media_set_label := Some (next_label p now)\<rparr>"
  obtain db where db: "load_media_db J no_faults (inv_disk w) = Ok db"
    using assms(3) by (auto simp: Inventory_load_def reload_def split: sum.splits)
  obtain c where c: "create_temporary_database None ?m = Ok c" using create_ok by blast
  have raw: "\<exists>raw. to_json J l = Ok raw" for l using assms(2) by (simp add: is_ok_iff)
  have "\<exists>f ivt'. store J no_faults ?m True (inv_disk w) (pool_inventory p) = (Ok (), f, ivt')"
  proof -
    define db' where "db' = bt_insert (ml_uuid (mi_label m)) (stored_entry (map_of db (ml_uuid (mi_label m))) ?m True) (bt_remove (ml_uuid (mi_label m)) db)"
    obtain raw where "to_json J (bt_values db') = Ok raw" using raw by blast
    then show ?thesis
      using db by (simp add: store_def locked_load_def no_faults_def [THEN arg_cong [of _ _ lock_fails]] save_def replace_file_def update_helpers_def Let_def
          no_faults_def [THEN arg_cong [of _ _ write_fails]] flip: db'_def)
  qed
  then show ?thesis
    using assms(1,4) c by (auto simp: use_media_def add_media_to_current_set_def overwrite_catalog_def calm_def Let_def simp flip: next_label_def)
qed

lemma reload_same: "Inventory_load J no_faults f = Ok ivt \<Longrightarrow> reload J no_faults f s = (Ok (), ivt)"
  by (auto simp: Inventory_load_def reload_def update_helpers_def Inventory_new_def split: sum.splits)

lemma alloc_calm:
  assumes "calm sys" "Inventory_load J no_faults (inv_disk w) = Ok (pool_inventory p)" "current_media_set_lock p" "current_set_usable p = Ok False"
  shows "alloc_writable_media T S J sys now w p =
    (case next_empty_media S p (list_media p) of
       Some m \<Rightarrow> Some (use_media J sys 1 m now w p)
     | None \<Rightarrow>
         (case next_expired_media T S sys p now (list_media p) of
            Some m \<Rightarrow> Some (use_media J sys 1 m now w p)
          | None \<Rightarrow>
              (case next_unassigned_media S p (list_unassigned_media (pool_inventory p)) of
                 Some m \<Rightarrow> Some (use_media J sys 3 m now w p)
               | None \<Rightarrow> Some (Err ''alloc writable media failed: no usable media found'', w, p))))"
proof -
  obtain x y where "pool_lock sys = Ok x" "free_lock sys = Ok y" using assms(1) by (auto simp: calm_def is_ok_iff)
  moreover have "reload_io sys = no_faults" "reload_io2 sys = no_faults" "\<And>i f. others sys i f = f" using assms(1) by (simp_all add: calm_def)
  moreover have "p\<lparr>pool_inventory := pool_inventory p\<rparr> = p" "w\<lparr>inv_disk := inv_disk w\<rparr> = w" by simp_all
  ultimately show ?thesis
    using assms(3,4) reload_same [OF assms(2)] by (simp add: alloc_writable_media_def alloc_unassigned_def Let_def cong: option.case_cong split: option.split)
qed

lemma guess_alloc:
  assumes "calm sys" "sort_unstable (sort_media S)" "\<And>l. is_ok (to_json J l)" "Inventory_load J no_faults (inv_disk w) = Ok (pool_inventory p)"
    "current_media_set_lock p"
  shows "case guess_next_writable_media T S sys (p\<lparr>no_media_set_locking := b, current_media_set_lock := c\<rparr>) now of
      None \<Rightarrow> alloc_writable_media T S J sys now w p = None
    | Some (Inl _) \<Rightarrow> (\<exists>e w' p'. alloc_writable_media T S J sys now w p = Some (Err e, w', p'))
    | Some (Inr m) \<Rightarrow> (\<exists>w' p'. alloc_writable_media T S J sys now w p = Some (Ok (ml_uuid (mi_label m)), w', p'))"
proof (cases "current_set_usable p")
  case (Inl e)
  then show ?thesis using assms(5) by (simp add: guess_next_writable_media_def alloc_writable_media_def)
next
  case (Inr us)
  have use: "\<exists>w' p'. use_media J sys i m now w p = (Ok (ml_uuid (mi_label m)), w', p')" for i m
    by (rule use_media_calm [OF assms(1,3-5)])
  have use1: "\<exists>w' p'. Some (use_media J sys i m now w p) = Some (Ok (ml_uuid (mi_label m)), w', p')" for i m using use [of i m] by auto
  show ?thesis
  proof (cases us)
    case True
    then have "current_set_usable p = Ok True" using Inr by simp
    then show ?thesis
      by (cases "last_media_uuid (current_media_set p)"; cases "pool_lookup_media p (the (last_media_uuid (current_media_set p)))")
        (auto simp: guess_next_writable_media_def alloc_current [OF assms(5)] bm_uuid_def bm_label_def split: sum.split)
  next
    case False
    then have us: "current_set_usable p = Ok False" using Inr by simp
    show ?thesis
      using us use1
      by (auto simp: guess_next_writable_media_def next_expired_calm [OF assms(1,2)] alloc_calm [OF assms(1,4,5) us] split: option.split sum.split)
  qed
qed

section \<open>Properties\<close>

text \<open>C22. A backup never overwrites data that is still needed: \<open>alloc_writable_media\<close> returns the last medium of the current set
  when that is writable, changing nothing; or a medium that, in the inventory as it is read under the lock, is
  available, not damaged or retired, and either has no data and belongs to no other pool, or is of an expired
  media set of this pool that is not locked by a restore. In the second case the file then has the medium in the
  current set under the next number with its status cleared, and no other change.\<close>

theorem alloc_overwrites_only_expired:
  assumes "json_codec J" "sort_unstable (sort_ids S)" "sort_unstable (sort_media S)" "db_ok (inv_map (pool_inventory p))"
    "alloc_writable_media T S J sys now w p = Some (Ok u, w', p')"
  shows "current_set_usable p = Ok True \<and> last_media_uuid (current_media_set p) = Some u \<and> w' = w \<and> p' = p \<or>
    (\<exists>f i ivt. (f, i) \<in> {(others sys 0 (inv_disk w), 1), (others sys 2 (others sys 0 (inv_disk w)), 3)} \<and>
       Inventory_load J no_faults f = Ok ivt \<and> may_use T sys now (p\<lparr>pool_inventory := ivt\<rparr>) u \<and>
       added J now (others sys i f) (p\<lparr>pool_inventory := ivt\<rparr>) u (inv_disk w') p')"
  using assms(1-3,5,4)
proof (cases rule: alloc_cases)
  case (used u f i ivt)
  then show ?thesis by (intro disjI2 exI [of _ f] exI [of _ i] exI [of _ ivt]) auto
qed auto

text \<open>The current media set in memory stays the one that a new process computes from the inventory file, whatever
  \<open>alloc_writable_media\<close> returns, as long as other processes respect the lock on the media set.\<close>

theorem alloc_keeps_set:
  assumes "json_codec J" "sort_unstable (sort_ids S)" "sort_unstable (sort_media S)" "db_ok (inv_map (pool_inventory p))"
    "\<And>i f. set_on_disk J (set_uuid (current_media_set p)) (others sys i f) = set_on_disk J (set_uuid (current_media_set p)) f"
    "set_uuid (current_media_set p) \<noteq> replicate 16 0" "length (media_list (current_media_set p)) + 1 < 2 ^ 64"
    "pool_consistent J (inv_disk w) p" "alloc_writable_media T S J sys now w p = Some (r, w', p')"
  shows "pool_consistent J (inv_disk w') p'"
proof -
  let ?cu = "set_uuid (current_media_set p)"
  have len: "length (media_list (current_media_set p)) < 2 ^ 64" using assms(7) by simp
  obtain A where A: "set_on_disk J ?cu (inv_disk w) = Some A" "set_holds (current_media_set p) A" using assms(8) pool_consistent_iff [OF len] by blast
  show ?thesis
    using assms(1-3,9,4)
  proof (cases rule: alloc_cases)
    case (failed e)
    then have "set_on_disk J ?cu (inv_disk w') = Some A" using A(1) assms(5) by auto
    then show ?thesis using A failed(2) len by (subst pool_consistent_iff) simp_all
  next
    case (used u f i ivt)
    have f: "set_on_disk J ?cu f = Some A" "set_on_disk J ?cu (others sys i f) = Some A" using used(3) A(1) assms(5) by auto
    have "(n, u) \<notin> A" for n
      using may_use_not_member [OF used(5)] assms(6) loaded_disk(2,3) [OF used(4)] f(1) by simp
    then show ?thesis using added_consistent [OF used(6), of A] A(2) f(2) assms(7) by simp
  qed (use assms(8) in simp)
qed

text \<open>\<open>guess_next_writable_media\<close> and \<open>alloc_writable_media\<close> agree: on a pool that has read the current file, if no lock is held
  by others and nothing fails, the medium that is guessed, with or without locking, is the one that is
  allocated, and when there is none both fail.\<close>

theorem guess_predicts_alloc:
  assumes "calm sys" "sort_unstable (sort_media S)" "\<And>l. is_ok (to_json J l)" "Inventory_load J no_faults (inv_disk w) = Ok (pool_inventory p)"
    "current_media_set_lock p"
  shows "case guess_next_writable_media T S sys (p\<lparr>no_media_set_locking := b, current_media_set_lock := c\<rparr>) now of
      None \<Rightarrow> alloc_writable_media T S J sys now w p = None
    | Some (Inl _) \<Rightarrow> (\<exists>e w' p'. alloc_writable_media T S J sys now w p = Some (Err e, w', p'))
    | Some (Inr m) \<Rightarrow> (\<exists>w' p'. alloc_writable_media T S J sys now w p = Some (Ok (ml_uuid (mi_label m)), w', p'))"
  by (rule guess_alloc [OF assms])

section \<open>A pool with one empty medium\<close>

definition isorts :: sorters where
  "isorts = \<lparr>sort_ids = isort_by, sort_media = isort_by\<rparr>"

definition calm_sys :: pool_sys where
  "calm_sys = \<lparr>pool_lock = Ok (), free_lock = Ok (), media_set_lock = (\<lambda>_. Ok ()), reload_io = no_faults, reload_io2 = no_faults,
     store_io = no_faults, cat_io = None, rename_fails = None, others = (\<lambda>_ f. f)\<rparr>"

definition unit_times :: "(unit, unit) time_lib" where
  "unit_times = \<lparr>compute_next_event = (\<lambda>_ _. Ok None), span_secs = (\<lambda>_. 0)\<rparr>"

definition free_entry :: MediaStateEntry where
  "free_entry = \<lparr>st_id = example_media, st_location = None, st_status = None, st_bytes_used = None\<rparr>"

definition free_inventory :: Inventory where
  "free_inventory = \<lparr>inv_map = [([1], free_entry)], media_set_start_times = Map.empty\<rparr>"

definition free_state :: tape_state where
  "free_state = \<lparr>inv_disk = Some (enc (c_list c_entry) [free_entry]), catalogs = Map.empty\<rparr>"

definition free_pool :: "(unit, unit) MediaPool" where
  "free_pool = \<lparr>pool_name = [80], media_set_policy = ContinueCurrent, retention = KeepForever, changer_name = None,
     force_media_availability = False, no_media_set_locking = False, encrypt_fingerprint = None, pool_inventory = free_inventory,
     current_media_set = MediaSet_new [9], current_media_set_lock = True\<rparr>"

lemma free_state_loads: "Inventory_load plain_json no_faults (inv_disk free_state) = Ok free_inventory"
proof -
  have "of_json plain_json (enc (c_list c_entry) [free_entry]) = Ok [free_entry]"
    by (rule plain_json.json_round_trip) (simp add: plain_json_def write_all_of_def)
  then show ?thesis
    by (simp add: Inventory_load_def reload_def load_media_db_def no_faults_def free_state_def bt_collect_def free_inventory_def update_helpers_def
        entry_uuid_def free_entry_def example_media_def bt_values_def start_time_step_def Inventory_new_def)
qed

lemma calm_sys_calm: "calm calm_sys"
  by (simp add: calm_def calm_sys_def)

lemma isorts_ok: "sort_unstable (sort_ids isorts)" "sort_unstable (sort_media isorts)"
  by (simp_all add: isorts_def isort.sort_unstable_axioms)

lemma free_guess: "guess_next_writable_media unit_times isorts calm_sys free_pool now = Some (Ok example_media)"
proof -
  have "current_set_usable free_pool = Ok False" by (simp add: current_set_usable_def free_pool_def MediaSet_new_def)
  moreover have "list_media free_pool = []"
    by (simp add: list_media_def list_pool_media_def free_pool_def free_inventory_def bt_values_def free_entry_def example_media_def media_pool_def)
  moreover have "list_unassigned_media (pool_inventory free_pool) = [example_media]"
    by (simp add: list_unassigned_media_def free_pool_def free_inventory_def bt_values_def free_entry_def example_media_def media_pool_def)
  moreover have "compute_media_state free_pool example_media = (Writable, Offline)"
    by (simp add: compute_media_state_def status_and_location_def free_pool_def free_inventory_def free_entry_def example_media_def)
  moreover have "location_is_available free_pool Offline" by (simp add: location_is_available_def free_pool_def)
  moreover have "mi_media_set_label example_media = None" by (simp add: example_media_def)
  ultimately show ?thesis
    by (simp add: guess_next_writable_media_def next_empty_media_def next_expired_media_def next_unassigned_media_def isorts_def isort_by_def pop_def Let_def)
qed

lemma free_pool_facts:
  "\<And>l. is_ok (to_json plain_json l)" "Inventory_load plain_json no_faults (inv_disk free_state) = Ok (pool_inventory free_pool)"
  "current_media_set_lock free_pool" "free_pool\<lparr>no_media_set_locking := False, current_media_set_lock := True\<rparr> = free_pool"
  using free_state_loads by (simp_all add: plain_json_def write_all_of_def free_pool_def)

theorem guess_predicts_alloc_witness:
  "\<exists>w' p'. alloc_writable_media unit_times isorts plain_json calm_sys 7 free_state free_pool = Some (Ok [1], w', p')"
  using free_pool_facts guess_predicts_alloc [OF calm_sys_calm isorts_ok(2), where J = plain_json and w = free_state and p = free_pool and T = unit_times and b = False and c = True and now = 7] free_guess [of 7]
  by (simp add: example_media_def)

lemma free_alloc: "\<exists>w' p'. alloc_writable_media unit_times isorts plain_json calm_sys 7 free_state free_pool = Some (Ok [1], w', p')"
  using free_pool_facts guess_alloc [OF calm_sys_calm isorts_ok(2), where J = plain_json and w = free_state and p = free_pool and T = unit_times and b = False and c = True and now = 7] free_guess [of 7]
  by (simp add: example_media_def)

lemma free_pool_ok: "db_ok (inv_map (pool_inventory free_pool))"
  using loaded_disk(2) [OF free_state_loads] by (simp add: free_pool_def)

theorem alloc_overwrites_only_expired_witness:
  "\<exists>w' p'. alloc_writable_media unit_times isorts plain_json calm_sys 7 free_state free_pool = Some (Ok [1], w', p') \<and>
     may_use unit_times calm_sys 7 free_pool [1]"
proof -
  obtain w' p' where a: "alloc_writable_media unit_times isorts plain_json calm_sys 7 free_state free_pool = Some (Ok [1], w', p')"
    using free_alloc by blast
  have "current_set_usable free_pool = Ok False" by (simp add: current_set_usable_def free_pool_def MediaSet_new_def)
  moreover have "free_pool\<lparr>pool_inventory := free_inventory\<rparr> = free_pool" by (simp add: free_pool_def)
  ultimately show ?thesis
    using alloc_overwrites_only_expired [OF plain_json.json_codec_axioms isorts_ok free_pool_ok a] a free_state_loads
    by (auto simp: calm_sys_def)
qed

theorem alloc_keeps_set_witness:
  "\<exists>w' p'. alloc_writable_media unit_times isorts plain_json calm_sys 7 free_state free_pool = Some (Ok [1], w', p') \<and>
     pool_consistent plain_json (inv_disk w') p'"
proof -
  obtain w' p' where a: "alloc_writable_media unit_times isorts plain_json calm_sys 7 free_state free_pool = Some (Ok [1], w', p')"
    using free_alloc by blast
  have "pool_consistent plain_json (inv_disk free_state) free_pool"
    using free_state_loads
    by (simp add: pool_consistent_def free_pool_def MediaSet_new_def compute_media_set_members_def free_inventory_def bt_values_def free_entry_def
        example_media_def MediaSet_with_data_def)
  moreover have "set_uuid (current_media_set free_pool) \<noteq> replicate 16 0" "length (media_list (current_media_set free_pool)) + 1 < 2 ^ 64"
    by (simp_all add: free_pool_def MediaSet_new_def list_eq_iff_nth_eq)
  ultimately have "pool_consistent plain_json (inv_disk w') p'"
    using alloc_keeps_set [OF plain_json.json_codec_axioms isorts_ok free_pool_ok _ _ _ _ a] by (simp add: calm_sys_def)
  then show ?thesis using a by blast
qed

end
