(* ===== verification/Manifest.thy ===== *)
theory Manifest
  imports DataBlob ChunkStore Codec BTreeMap "HOL-Library.Char_ord"
begin

text \<open>
  The manifest of a snapshot (\<^verbatim>\<open>pbs-datastore/src/manifest.rs\<close>): the list of its files with sizes and checksums, a
  part that is not protected, and a signature over the rest. \<^verbatim>\<open>serde_json::Value\<close> is the datatype \<open>json\<close>, the
  conversions that \<^verbatim>\<open>derive(Serialize, Deserialize)\<close> generates are written out. The JSON text format, the canonical
  form, HMAC and the text form of fingerprints belong to other crates and are the parameter \<open>mlib\<close>.
\<close>

section \<open>JSON values\<close>

datatype json = JNull | JBool bool | JNum int | JStr string | JArr "json list" | JObj "(string, json) btree"

text \<open>\<^verbatim>\<open>serde_json::Map\<close> is a \<^verbatim>\<open>BTreeMap\<close>: the keys of an object are in order and distinct.\<close>

fun json_ok :: "json \<Rightarrow> bool" where
  "json_ok (JArr xs) = list_all json_ok xs"
| "json_ok (JObj m) = (bt_wf m \<and> list_all (\<lambda>(k, v). json_ok v) m)"
| "json_ok _ = True"

text \<open>\<^verbatim>\<open>value[key]\<close> to read; to write, where null becomes an object and other values panic.\<close>

definition json_get :: "json \<Rightarrow> string \<Rightarrow> json" where
  "json_get v k = (case v of JObj m \<Rightarrow> (case map_of m k of Some x \<Rightarrow> x | None \<Rightarrow> JNull) | _ \<Rightarrow> JNull)"

definition json_set :: "json \<Rightarrow> string \<Rightarrow> json \<Rightarrow> json option" where
  "json_set v k x = (case v of JObj m \<Rightarrow> Some (JObj (bt_insert k x m)) | JNull \<Rightarrow> Some (JObj [(k, x)]) | _ \<Rightarrow> None)"

text \<open>\<^verbatim>\<open>as_object_mut().unwrap().remove(key)\<close>\<close>

definition json_remove :: "json \<Rightarrow> string \<Rightarrow> json option" where
  "json_remove v k = (case v of JObj m \<Rightarrow> Some (JObj (bt_remove k m)) | _ \<Rightarrow> None)"

section \<open>The manifest\<close>

datatype CryptModeInfo = NoCrypt | Encrypt | SignOnly

record FileInfo =
  fi_filename :: string
  fi_crypt_mode :: CryptModeInfo
  fi_size :: nat
  fi_csum :: digest

definition chunk_crypt_mode :: "FileInfo \<Rightarrow> CryptModeInfo" where
  "chunk_crypt_mode f = (case fi_crypt_mode f of Encrypt \<Rightarrow> Encrypt | SignOnly \<Rightarrow> NoCrypt | NoCrypt \<Rightarrow> NoCrypt)"

datatype BackupType = Vm | Ct | Host

record BackupManifest =
  bm_backup_type :: BackupType
  bm_backup_id :: string
  bm_backup_time :: int
  bm_files :: "FileInfo list"
  unprotected :: json
  bm_signature :: "string option"

definition BackupManifest_new :: "BackupType \<Rightarrow> string \<Rightarrow> int \<Rightarrow> BackupManifest" where
  "BackupManifest_new ty i t =
     \<lparr>bm_backup_type = ty, bm_backup_id = i, bm_backup_time = t, bm_files = [], unprotected = JObj [], bm_signature = None\<rparr>"

definition add_file :: "string \<Rightarrow> nat \<Rightarrow> digest \<Rightarrow> CryptModeInfo \<Rightarrow> BackupManifest \<Rightarrow> (err, unit) result \<times> BackupManifest" where
  "add_file filename sz csum mode m =
     (Ok (), m\<lparr>bm_files := bm_files m @ [\<lparr>fi_filename = filename, fi_crypt_mode = mode, fi_size = sz, fi_csum = csum\<rparr>]\<rparr>)"

definition lookup_file_info :: "BackupManifest \<Rightarrow> string \<Rightarrow> (err, FileInfo) result" where
  "lookup_file_info m name =
     (case find (\<lambda>f. fi_filename f = name) (bm_files m) of None \<Rightarrow> Err ''manifest does not contain file'' | Some f \<Rightarrow> Ok f)"

definition verify_file :: "BackupManifest \<Rightarrow> string \<Rightarrow> digest \<Rightarrow> nat \<Rightarrow> (err, unit) result" where
  "verify_file m name csum sz =
     (case lookup_file_info m name of
        Inl e \<Rightarrow> Err e
      | Inr f \<Rightarrow>
          (if sz \<noteq> fi_size f then Err ''wrong size for file''
           else if csum \<noteq> fi_csum f then Err ''wrong checksum for file''
           else Ok ()))"

section \<open>Serialization\<close>

fun type_name :: "BackupType \<Rightarrow> string" where
  "type_name Vm = ''vm''"
| "type_name Ct = ''ct''"
| "type_name Host = ''host''"

fun mode_name :: "CryptModeInfo \<Rightarrow> string" where
  "mode_name NoCrypt = ''none''"
| "mode_name Encrypt = ''encrypt''"
| "mode_name SignOnly = ''sign-only''"

definition file_value :: "FileInfo \<Rightarrow> json" where
  "file_value f = JObj [(''crypt-mode'', JStr (mode_name (fi_crypt_mode f))), (''csum'', JStr (hex_encode (fi_csum f))),
     (''filename'', JStr (fi_filename f)), (''size'', JNum (int (fi_size f)))]"

definition to_value :: "BackupManifest \<Rightarrow> json" where
  "to_value m = JObj [(''backup-id'', JStr (bm_backup_id m)), (''backup-time'', JNum (bm_backup_time m)),
     (''backup-type'', JStr (type_name (bm_backup_type m))), (''files'', JArr (map file_value (bm_files m))),
     (''signature'', case bm_signature m of None \<Rightarrow> JNull | Some s \<Rightarrow> JStr s), (''unprotected'', unprotected m)]"

text \<open>The way back: a field that is missing is an error unless it has a default or is optional; other fields are ignored.\<close>

definition hex_value :: "char \<Rightarrow> nat option" where
  "hex_value c =
     (let n = (of_char c :: nat) in
      if 48 \<le> n \<and> n \<le> 57 then Some (n - 48) else if 97 \<le> n \<and> n \<le> 102 then Some (n - 87)
      else if 65 \<le> n \<and> n \<le> 70 then Some (n - 55) else None)"

fun hex_decode :: "string \<Rightarrow> bytes option" where
  "hex_decode [] = Some []"
| "hex_decode [_] = None"
| "hex_decode (a # b # s) =
     (case (hex_value a, hex_value b, hex_decode s) of
        (Some x, Some y, Some bs) \<Rightarrow> Some (word_of_nat (16 * x + y) # bs)
      | _ \<Rightarrow> None)"

fun str_of :: "json \<Rightarrow> (err, string) result" where
  "str_of (JStr s) = Ok s"
| "str_of _ = Err ''invalid type, expected a string''"

fun int_of_json :: "json \<Rightarrow> (err, int) result" where
  "int_of_json (JNum n) = Ok n"
| "int_of_json _ = Err ''invalid type, expected an integer''"

definition field :: "json \<Rightarrow> string \<Rightarrow> json option" where
  "field v k = (case v of JObj m \<Rightarrow> map_of m k | _ \<Rightarrow> None)"

definition required :: "json \<Rightarrow> string \<Rightarrow> (json \<Rightarrow> (err, 'a) result) \<Rightarrow> (err, 'a) result" where
  "required v k p = (case field v k of None \<Rightarrow> Err ''missing field'' | Some x \<Rightarrow> p x)"

definition type_of_name :: "string \<Rightarrow> (err, BackupType) result" where
  "type_of_name s = (if s = ''vm'' then Ok Vm else if s = ''ct'' then Ok Ct else if s = ''host'' then Ok Host else Err ''unknown variant'')"

definition mode_of_name :: "string \<Rightarrow> (err, CryptModeInfo) result" where
  "mode_of_name s =
     (if s = ''none'' then Ok NoCrypt else if s = ''encrypt'' then Ok Encrypt else if s = ''sign-only'' then Ok SignOnly else Err ''unknown variant'')"

definition u64_of :: "int \<Rightarrow> (err, nat) result" where
  "u64_of n = (if 0 \<le> n \<and> n < 2 ^ 64 then Ok (nat n) else Err ''invalid value, expected u64'')"

definition i64_of :: "int \<Rightarrow> (err, int) result" where
  "i64_of n = (if fits_i64 n then Ok n else Err ''invalid value, expected i64'')"

definition csum_of :: "string \<Rightarrow> (err, digest) result" where
  "csum_of s = (case hex_decode s of Some bs \<Rightarrow> (if length bs = 32 then Ok bs else Err ''invalid length'') | None \<Rightarrow> Err ''invalid hex'')"

definition file_of_value :: "(string \<Rightarrow> bool) \<Rightarrow> json \<Rightarrow> (err, FileInfo) result" where
  "file_of_value strict_name v =
     and_then (required v ''filename'' str_of) (\<lambda>name.
     and_then (if strict_name name then Ok () else Err ''invalid archive name'') (\<lambda>_.
     and_then (case field v ''crypt-mode'' of None \<Rightarrow> Ok NoCrypt | Some x \<Rightarrow> and_then (str_of x) mode_of_name) (\<lambda>mode.
     and_then (required v ''size'' (\<lambda>x. and_then (int_of_json x) u64_of)) (\<lambda>sz.
     and_then (required v ''csum'' (\<lambda>x. and_then (str_of x) csum_of)) (\<lambda>csum.
       Ok \<lparr>fi_filename = name, fi_crypt_mode = mode, fi_size = sz, fi_csum = csum\<rparr>)))))"

fun files_of_values :: "(string \<Rightarrow> bool) \<Rightarrow> json list \<Rightarrow> (err, FileInfo list) result" where
  "files_of_values strict_name [] = Ok []"
| "files_of_values strict_name (v # vs) =
     and_then (file_of_value strict_name v) (\<lambda>f. and_then (files_of_values strict_name vs) (\<lambda>fs. Ok (f # fs)))"

definition arr_of :: "json \<Rightarrow> (err, json list) result" where
  "arr_of v = (case v of JArr xs \<Rightarrow> Ok xs | _ \<Rightarrow> Err ''invalid type, expected a sequence'')"

definition from_value :: "(string \<Rightarrow> bool) \<Rightarrow> json \<Rightarrow> (err, BackupManifest) result" where
  "from_value strict_name v =
     and_then (required v ''backup-type'' (\<lambda>x. and_then (str_of x) type_of_name)) (\<lambda>ty.
     and_then (required v ''backup-id'' str_of) (\<lambda>i.
     and_then (required v ''backup-time'' (\<lambda>x. and_then (int_of_json x) i64_of)) (\<lambda>t.
     and_then (required v ''files'' (\<lambda>x. and_then (arr_of x) (files_of_values strict_name))) (\<lambda>fs.
     and_then (case field v ''signature'' of None \<Rightarrow> Ok None | Some JNull \<Rightarrow> Ok None | Some x \<Rightarrow> map_sum id Some (str_of x)) (\<lambda>sig.
       Ok \<lparr>bm_backup_type = ty, bm_backup_id = i, bm_backup_time = t, bm_files = fs,
           unprotected = (case field v ''unprotected'' of None \<Rightarrow> JObj [] | Some u \<Rightarrow> u), bm_signature = sig\<rparr>)))))"

section \<open>Signatures\<close>

record mlib =
  hmac_sha256 :: "bytes \<Rightarrow> bytes \<Rightarrow> digest"
  to_canonical_json :: "json \<Rightarrow> (err, bytes) result"
  print_json :: "json \<Rightarrow> bytes"
  parse_json :: "bytes \<Rightarrow> (err, json) result"
  fp_value :: "digest \<Rightarrow> json"
  fp_of_value :: "json \<Rightarrow> (err, digest) result"
  strict_name :: "string \<Rightarrow> bool"

definition FINGERPRINT_INPUT :: bytes where
  "FINGERPRINT_INPUT = [110, 208, 239, 119, 71, 31, 255, 77, 85, 199, 168, 254, 74, 157, 182, 33, 97, 64, 127, 19, 76,
    114, 93, 223, 48, 153, 45, 37, 236, 69, 237, 38]"

definition key_fingerprint :: "'c libs \<Rightarrow> CryptConfig \<Rightarrow> digest" where
  "key_fingerprint L config = compute_digest L config FINGERPRINT_INPUT"

definition compute_auth_tag :: "mlib \<Rightarrow> CryptConfig \<Rightarrow> bytes \<Rightarrow> digest" where
  "compute_auth_tag ML config data = hmac_sha256 ML (id_key config) data"

definition json_signature :: "mlib \<Rightarrow> CryptConfig \<Rightarrow> json \<Rightarrow> (err, digest) result option" where
  "json_signature ML config data =
     (case json_remove data ''unprotected'' of
        None \<Rightarrow> None
      | Some v1 \<Rightarrow>
          (case json_remove v1 ''signature'' of
             None \<Rightarrow> None
           | Some v2 \<Rightarrow> Some (map_sum id (compute_auth_tag ML config) (to_canonical_json ML v2))))"

definition manifest_signature :: "mlib \<Rightarrow> CryptConfig \<Rightarrow> BackupManifest \<Rightarrow> (err, digest) result option" where
  "manifest_signature ML config m = json_signature ML config (to_value m)"

text \<open>With a key the signature and the fingerprint of the key are put into the JSON value, not into the manifest.\<close>

definition signed_value :: "'c libs \<Rightarrow> mlib \<Rightarrow> CryptConfig option \<Rightarrow> BackupManifest \<Rightarrow> (err, json) result option" where
  "signed_value L ML config m =
     (case config of
        None \<Rightarrow> Some (Ok (to_value m))
      | Some cfg \<Rightarrow>
          (case manifest_signature ML cfg m of
             None \<Rightarrow> None
           | Some (Inl e) \<Rightarrow> Some (Err e)
           | Some (Inr sig) \<Rightarrow>
               (case json_set (to_value m) ''signature'' (JStr (hex_encode sig)) of
                  None \<Rightarrow> None
                | Some v1 \<Rightarrow>
                    (case json_set (json_get v1 ''unprotected'') ''key-fingerprint'' (fp_value ML (key_fingerprint L cfg)) of
                       None \<Rightarrow> None
                     | Some u \<Rightarrow> map_option Ok (json_set v1 ''unprotected'' u)))))"

definition manifest_to_string :: "'c libs \<Rightarrow> mlib \<Rightarrow> CryptConfig option \<Rightarrow> BackupManifest \<Rightarrow> (err, bytes) result option" where
  "manifest_to_string L ML config m = map_option (map_sum id (print_json ML)) (signed_value L ML config m)"

definition to_data_blob :: "'c libs \<Rightarrow> mlib \<Rightarrow> CryptConfig option \<Rightarrow> BackupManifest \<Rightarrow> (err, DataBlob) result option" where
  "to_data_blob L ML config m =
     (case manifest_to_string L ML config m of
        None \<Rightarrow> None
      | Some (Inl e) \<Rightarrow> Some (Err e)
      | Some (Inr s) \<Rightarrow> encode L (Err ''no random data'') s None True)"

definition manifest_fingerprint :: "mlib \<Rightarrow> BackupManifest \<Rightarrow> (err, digest option) result" where
  "manifest_fingerprint ML m =
     (let v = json_get (unprotected m) ''key-fingerprint'' in if v = JNull then Ok None else map_sum id Some (fp_of_value ML v))"

definition check_fingerprint :: "'c libs \<Rightarrow> mlib \<Rightarrow> CryptConfig option \<Rightarrow> BackupManifest \<Rightarrow> (err, unit) result" where
  "check_fingerprint L ML config m =
     and_then (manifest_fingerprint ML m) (\<lambda>fp.
       case fp of
         None \<Rightarrow> Ok ()
       | Some f \<Rightarrow>
           (case config of
              None \<Rightarrow> Err ''missing key - manifest was created with key''
            | Some cfg \<Rightarrow> (if key_fingerprint L cfg \<noteq> f then Err ''wrong key - manifest's key does not match provided key'' else Ok ())))"

definition check_signature :: "'c libs \<Rightarrow> mlib \<Rightarrow> CryptConfig \<Rightarrow> bool \<Rightarrow> BackupManifest \<Rightarrow> (err, unit) result option" where
  "check_signature L ML config ignore_missing_signature m =
     (case bm_signature m of
        None \<Rightarrow> Some (if ignore_missing_signature then Ok () else Err ''manifest has no signature, but an encryption key is set'')
      | Some s \<Rightarrow>
          map_option (\<lambda>r. and_then r (\<lambda>sig.
            and_then (let fp = json_get (unprotected m) ''key-fingerprint'' in
                      if fp = JNull then Ok ()
                      else and_then (fp_of_value ML fp) (\<lambda>f.
                        if key_fingerprint L config \<noteq> f then Err ''wrong key - unable to verify signature'' else Ok ()))
              (\<lambda>_. if s \<noteq> hex_encode sig then Err ''wrong signature in manifest'' else Ok ()))) (manifest_signature ML config m))"

definition from_data :: "'c libs \<Rightarrow> mlib \<Rightarrow> bytes \<Rightarrow> CryptConfig option \<Rightarrow> bool \<Rightarrow> (err, BackupManifest) result option" where
  "from_data L ML data config ignore_missing_signature =
     (case and_then (parse_json ML data) (from_value (strict_name ML)) of
        Inl e \<Rightarrow> Some (Err e)
      | Inr m \<Rightarrow>
          (case config of
             None \<Rightarrow> Some (Ok m)
           | Some cfg \<Rightarrow> map_option (\<lambda>r. and_then r (\<lambda>_. Ok m)) (check_signature L ML cfg ignore_missing_signature m)))"

definition set_sync_source_signature :: "mlib \<Rightarrow> digest \<Rightarrow> BackupManifest \<Rightarrow> ((err, unit) result \<times> BackupManifest) option" where
  "set_sync_source_signature ML sig m =
     map_option (\<lambda>u. (Ok (), m\<lparr>unprotected := u\<rparr>)) (json_set (unprotected m) ''sync-source-signature'' (fp_value ML sig))"

definition get_sync_source_signature :: "mlib \<Rightarrow> BackupManifest \<Rightarrow> (err, digest option) result" where
  "get_sync_source_signature ML m =
     (if json_get (unprotected m) ''sync-source-signature'' \<noteq> JNull then map_sum id Some (fp_of_value ML (json_get (unprotected m) ''sync-source-signature''))
      else if json_get (unprotected m) ''change-detection-fingerprint'' \<noteq> JNull then
        map_sum id Some (fp_of_value ML (json_get (unprotected m) ''change-detection-fingerprint''))
      else Ok None)"

definition try_from_blob :: "'c libs \<Rightarrow> mlib \<Rightarrow> DataBlob \<Rightarrow> (err, BackupManifest) result option" where
  "try_from_blob L ML b =
     (case decode L None None b of
        None \<Rightarrow> None
      | Some (Inl e) \<Rightarrow> Some (Err ''decode backup manifest blob failed'')
      | Some (Inr data) \<Rightarrow>
          (case parse_json ML data of
             Inl e \<Rightarrow> Some (Err ''unable to parse backup manifest json'')
           | Inr v \<Rightarrow> Some (from_value (strict_name ML) v)))"

section \<open>Hexadecimal text\<close>

lemma hex_value_nibble: "x < 16 \<Longrightarrow> hex_value (HEX_CHARS ! x) = Some x"
proof -
  have "list_all (\<lambda>x. hex_value (HEX_CHARS ! x) = Some x) [0..<16]" by code_simp
  then show "x < 16 \<Longrightarrow> hex_value (HEX_CHARS ! x) = Some x" by (simp add: list_all_iff)
qed

lemma nibbles_join: "word_of_nat (16 * unat (drop_bit 4 b) + unat (b AND 0xF)) = (b :: u8)"
proof -
  have "unat (drop_bit 4 b) = unat b div 16" unfolding unat_drop_bit_eq by (simp add: drop_bit_eq_div)
  moreover have "b AND 0xF = take_bit 4 b" by (simp add: take_bit_eq_mask mask_eq_exp_minus_1)
  moreover have "unat (take_bit 4 b) = unat b mod 16" unfolding unsigned_take_bit_eq by (simp add: take_bit_eq_mod)
  ultimately have "16 * unat (drop_bit 4 b) + unat (b AND 0xF) = unat b" by simp
  then show ?thesis by simp
qed

lemma hex_round_trip: "hex_decode (hex_encode bs) = Some bs"
proof (induction bs)
  case (Cons b bs)
  have "hex_decode (hex_encode (b # bs)) = Some (word_of_nat (16 * unat (drop_bit 4 b) + unat (b AND 0xF)) # bs)"
    using Cons nibbles [of b] by (simp add: hex_encode_def hex_byte_def hex_value_nibble del: of_nat_add of_nat_mult)
  then show ?case by (simp only: nibbles_join)
qed (simp add: hex_encode_def)

lemma hex_encode_inj: "hex_encode a = hex_encode b \<longleftrightarrow> a = b"
  by (metis hex_round_trip option.inject)

section \<open>Round trip\<close>

text \<open>The values that the types of the fields allow.\<close>

definition file_ok :: "mlib \<Rightarrow> FileInfo \<Rightarrow> bool" where
  "file_ok ML f \<longleftrightarrow> strict_name ML (fi_filename f) \<and> fi_size f < 2 ^ 64 \<and> length (fi_csum f) = 32"

definition manifest_ok :: "mlib \<Rightarrow> BackupManifest \<Rightarrow> bool" where
  "manifest_ok ML m \<longleftrightarrow> fits_i64 (bm_backup_time m) \<and> (\<forall>f \<in> set (bm_files m). file_ok ML f)"

lemma file_round_trip: "file_ok ML f \<Longrightarrow> file_of_value (strict_name ML) (file_value f) = Ok f"
  by (cases f; cases "fi_crypt_mode f")
    (simp_all add: file_ok_def file_of_value_def file_value_def required_def field_def mode_of_name_def u64_of_def csum_of_def hex_round_trip)

lemma files_round_trip: "\<forall>f \<in> set fs. file_ok ML f \<Longrightarrow> files_of_values (strict_name ML) (map file_value fs) = Ok fs"
  by (induction fs) (simp_all add: file_round_trip)

lemma value_round_trip: "manifest_ok ML m \<Longrightarrow> from_value (strict_name ML) (to_value m) = Ok m"
  by (cases m; cases "bm_backup_type m")
    (simp_all add: manifest_ok_def from_value_def to_value_def required_def field_def type_of_name_def i64_of_def arr_of_def files_round_trip
      split: option.split)

lemma to_value_upd:
  "json_set (to_value m) ''signature'' (JStr s) = Some (to_value (m\<lparr>bm_signature := Some s\<rparr>))"
  "json_set (to_value m) ''unprotected'' u = Some (to_value (m\<lparr>unprotected := u\<rparr>))"
  "json_get (to_value m) ''unprotected'' = unprotected m"
  by (simp_all add: to_value_def json_set_def json_get_def less_char_def)

lemma signature_protected:
  "manifest_signature ML cfg (m\<lparr>bm_signature := s, unprotected := u\<rparr>) = manifest_signature ML cfg m"
  by (simp add: manifest_signature_def json_signature_def json_remove_def bt_remove_def to_value_def)

text \<open>What is signed: everything but the signature and the unprotected part.\<close>

definition protected_value :: "BackupManifest \<Rightarrow> json" where
  "protected_value m = JObj [(''backup-id'', JStr (bm_backup_id m)), (''backup-time'', JNum (bm_backup_time m)),
     (''backup-type'', JStr (type_name (bm_backup_type m))), (''files'', JArr (map file_value (bm_files m)))]"

lemma manifest_signature_eq: "manifest_signature ML cfg m = Some (map_sum id (compute_auth_tag ML cfg) (to_canonical_json ML (protected_value m)))"
  by (simp add: manifest_signature_def json_signature_def json_remove_def bt_remove_def to_value_def protected_value_def)

lemma file_value_inj: "file_value f = file_value g \<longleftrightarrow> f = g"
  by (cases f; cases g; cases "fi_crypt_mode f"; cases "fi_crypt_mode g") (auto simp: file_value_def hex_encode_inj)

lemma map_file_value_inj: "map file_value fs = map file_value gs \<longleftrightarrow> fs = gs"
  using inj_map_eq_map [of file_value] by (simp add: inj_def file_value_inj)

lemma protected_value_eq:
  "protected_value m = protected_value m' \<longleftrightarrow>
     bm_backup_type m = bm_backup_type m' \<and> bm_backup_id m = bm_backup_id m' \<and> bm_backup_time m = bm_backup_time m' \<and> bm_files m = bm_files m'"
  by (cases "bm_backup_type m"; cases "bm_backup_type m'") (auto simp: protected_value_def map_file_value_inj)

text \<open>The manifest as it is written with a key.\<close>

definition signed :: "'c libs \<Rightarrow> mlib \<Rightarrow> CryptConfig \<Rightarrow> digest \<Rightarrow> json \<Rightarrow> BackupManifest \<Rightarrow> BackupManifest" where
  "signed L ML cfg sig u m = m\<lparr>bm_signature := Some (hex_encode sig), unprotected := u\<rparr>"

lemma signed_value_eq:
  assumes "manifest_signature ML cfg m = Some (Ok sig)"
    "json_set (unprotected m) ''key-fingerprint'' (fp_value ML (key_fingerprint L cfg)) = Some u"
  shows "signed_value L ML (Some cfg) m = Some (Ok (to_value (signed L ML cfg sig u m)))"
  using assms by (simp add: signed_value_def to_value_upd signed_def)

lemma json_get_set: "json_set v k x = Some u \<Longrightarrow> json_get u k = x"
  by (auto simp: json_set_def json_get_def split: json.splits)

lemma signed_checks:
  assumes "manifest_signature ML cfg m = Some (Ok sig)" "fp_of_value ML (fp_value ML (key_fingerprint L cfg)) = Ok (key_fingerprint L cfg)"
    "json_set (unprotected m) ''key-fingerprint'' (fp_value ML (key_fingerprint L cfg)) = Some u"
  shows "check_signature L ML cfg ig (signed L ML cfg sig u m) = Some (Ok ())"
  using assms json_get_set [OF assms(3)] by (simp add: check_signature_def signed_def signature_protected Let_def)

text \<open>The values of manifests are objects with their keys in order.\<close>

lemma file_value_ok: "json_ok (file_value f)"
  by (simp add: file_value_def bt_wf_def less_char_def)

lemma to_value_ok: "json_ok (unprotected m) \<Longrightarrow> json_ok (to_value m)"
  by (simp add: to_value_def bt_wf_def less_char_def list_all_iff file_value_ok split: option.split)

lemma protected_value_ok: "json_ok (protected_value m)"
  by (simp add: protected_value_def bt_wf_def less_char_def list_all_iff file_value_ok)

lemma bt_insert_set: "set (bt_insert k x m) \<subseteq> insert (k, x) (set m)"
  by (induction k x m rule: bt_insert.induct) auto

lemma json_set_ok: "json_set v k x = Some u \<Longrightarrow> json_ok v \<Longrightarrow> json_ok x \<Longrightarrow> json_ok u"
proof (cases v)
  case (JObj m)
  assume "json_set v k x = Some u" "json_ok v" "json_ok x"
  then show ?thesis using JObj bt_insert_set [of k x m] by (fastforce simp: json_set_def list_all_iff)
qed (auto simp: json_set_def bt_wf_def)

lemma json_get_set_other: "json_set v k x = Some u \<Longrightarrow> k' \<noteq> k \<Longrightarrow> json_get u k' = json_get v k'"
  by (auto simp: json_set_def json_get_def split: json.splits)

section \<open>Properties\<close>

text \<open>C25. Signing and reading back: a manifest that is written with a key, and whose unprotected part is an object,
  is read back with that key and its signature is accepted: its type, id, time and files are the same, its signature
  is the tag of their canonical form, its key fingerprint is that of the key, and the other entries of the
  unprotected part are the same. Without a key it is read back unchanged.\<close>

theorem manifest_round_trip:
  assumes "manifest_ok ML m" "to_canonical_json ML (protected_value m) = Ok canon" "unprotected m = JObj obj" "json_ok (unprotected m)"
    "fp_of_value ML (fp_value ML (key_fingerprint L cfg)) = Ok (key_fingerprint L cfg)"
    "fp_value ML (key_fingerprint L cfg) \<noteq> JNull" "json_ok (fp_value ML (key_fingerprint L cfg))"
    "\<And>v. json_ok v \<Longrightarrow> parse_json ML (print_json ML v) = Ok v"
  shows "\<exists>s m' s0. manifest_to_string L ML (Some cfg) m = Some (Ok s) \<and> from_data L ML s (Some cfg) False = Some (Ok m') \<and>
      bm_backup_type m' = bm_backup_type m \<and> bm_backup_id m' = bm_backup_id m \<and> bm_backup_time m' = bm_backup_time m \<and> bm_files m' = bm_files m \<and>
      bm_signature m' = Some (hex_encode (compute_auth_tag ML cfg canon)) \<and> manifest_fingerprint ML m' = Ok (Some (key_fingerprint L cfg)) \<and>
      (\<forall>k. k \<noteq> ''key-fingerprint'' \<longrightarrow> json_get (unprotected m') k = json_get (unprotected m) k) \<and>
      manifest_to_string L ML None m = Some (Ok s0) \<and> from_data L ML s0 None False = Some (Ok m)"
proof -
  let ?sig = "compute_auth_tag ML cfg canon"
  obtain u where u: "json_set (unprotected m) ''key-fingerprint'' (fp_value ML (key_fingerprint L cfg)) = Some u"
    using assms(3) by (simp add: json_set_def)
  have sig: "manifest_signature ML cfg m = Some (Ok ?sig)" using assms(2) by (simp add: manifest_signature_eq)
  let ?m = "signed L ML cfg ?sig u m"
  have ok: "manifest_ok ML ?m" using assms(1) by (simp add: manifest_ok_def signed_def)
  have "json_ok (to_value ?m)" using json_set_ok [OF u assms(4,7)] by (intro to_value_ok) (simp add: signed_def)
  then have "from_data L ML (print_json ML (to_value ?m)) (Some cfg) False = Some (Ok ?m)"
    using signed_checks [OF sig assms(5) u] ok assms(8) by (simp add: from_data_def value_round_trip)
  moreover have "manifest_fingerprint ML ?m = Ok (Some (key_fingerprint L cfg))"
    using json_get_set [OF u] assms(5,6) by (simp add: manifest_fingerprint_def signed_def)
  moreover have "from_data L ML (print_json ML (to_value m)) None False = Some (Ok m)"
    using to_value_ok [OF assms(4)] assms(1,8) by (simp add: from_data_def value_round_trip)
  ultimately show ?thesis
    using signed_value_eq [OF sig u] json_get_set_other [OF u] by (simp add: manifest_to_string_def signed_value_def [of _ _ None] signed_def)
qed

text \<open>C24. The signature protects a manifest: if two manifests carry the same signature and both are accepted with the
  same key, they agree in type, id, time and files, in any case where HMAC does not collide on their canonical
  forms and the canonical form, which lists the keys of an object in order, determines a value whose objects
  have their keys in order.\<close>

theorem manifest_signature_protects:
  assumes "check_signature L ML cfg ig m = Some (Ok ())" "check_signature L ML cfg ig' m' = Some (Ok ())"
    "bm_signature m = Some s" "bm_signature m' = Some s"
    "\<And>a b. to_canonical_json ML (protected_value m) = Ok a \<Longrightarrow> to_canonical_json ML (protected_value m') = Ok b \<Longrightarrow>
       hmac_sha256 ML (id_key cfg) a = hmac_sha256 ML (id_key cfg) b \<Longrightarrow> a = b"
    "\<And>v w c. json_ok v \<Longrightarrow> json_ok w \<Longrightarrow> to_canonical_json ML v = Ok c \<Longrightarrow> to_canonical_json ML w = Ok c \<Longrightarrow> v = w"
  shows "bm_backup_type m' = bm_backup_type m \<and> bm_backup_id m' = bm_backup_id m \<and> bm_backup_time m' = bm_backup_time m \<and> bm_files m' = bm_files m"
proof -
  have sig: "\<exists>c. to_canonical_json ML (protected_value x) = Ok c \<and> s = hex_encode (compute_auth_tag ML cfg c)"
    if "check_signature L ML cfg g x = Some (Ok ())" "bm_signature x = Some s" for g x
    using that by (cases "to_canonical_json ML (protected_value x)") (auto simp: check_signature_def manifest_signature_eq and_then_eq_Inr split: if_splits)
  obtain a b where ab: "to_canonical_json ML (protected_value m) = Ok a" "s = hex_encode (compute_auth_tag ML cfg a)"
    "to_canonical_json ML (protected_value m') = Ok b" "s = hex_encode (compute_auth_tag ML cfg b)"
    using sig [OF assms(1,3)] sig [OF assms(2,4)] by auto
  then have "a = b" using assms(5) [OF ab(1,3)] by (simp add: hex_encode_inj compute_auth_tag_def)
  then have "protected_value m' = protected_value m" using assms(6) [OF protected_value_ok protected_value_ok ab(3)] ab(1) by blast
  then show ?thesis by (simp add: protected_value_eq)
qed

section \<open>A concrete text format\<close>

definition c_char :: "char codec" where
  "c_char = c_map of_char char_of c_nat"

definition c_string :: "string codec" where
  "c_string = c_list c_char"

lemma c_string_ok [codec_intros]: "codec_ok c_string"
  unfolding c_string_def c_char_def by (intro c_list_ok c_map_ok c_nat_ok) simp

fun enc_json :: "json \<Rightarrow> bytes" where
  "enc_json JNull = [0]"
| "enc_json (JBool b) = [1, if b then 1 else 0]"
| "enc_json (JNum n) = 2 # enc c_int n"
| "enc_json (JStr s) = 3 # enc c_string s"
| "enc_json (JArr xs) = 4 # enc c_nat (length xs) @ concat (map enc_json xs)"
| "enc_json (JObj kvs) = 5 # enc c_nat (length kvs) @ concat (map (\<lambda>(k, v). enc c_string k @ enc_json v) kvs)"

fun dec_json :: "nat \<Rightarrow> bytes \<Rightarrow> json \<times> bytes" where
  "dec_json 0 bs = (JNull, bs)"
| "dec_json (Suc n) bs =
     (if hd bs = 0 then (JNull, tl bs)
      else if hd bs = 1 then (JBool (hd (tl bs) = 1), tl (tl bs))
      else if hd bs = 2 then apfst JNum (dec c_int (tl bs))
      else if hd bs = 3 then apfst JStr (dec c_string (tl bs))
      else (case dec c_nat (tl bs) of (k, r) \<Rightarrow>
        if hd bs = 4 then apfst JArr (dec_many (dec_json n) k r)
        else apfst JObj (dec_many (\<lambda>b. case dec c_string b of (k, r) \<Rightarrow> apfst (Pair k) (dec_json n r)) k r)))"

text \<open>The nodes of a value, which bound its depth and are no more than the bytes of its text.\<close>

fun json_nodes :: "json \<Rightarrow> nat" where
  "json_nodes (JArr xs) = Suc (sum_list (map json_nodes xs))"
| "json_nodes (JObj kvs) = Suc (sum_list (map (\<lambda>(k, v). json_nodes v) kvs))"
| "json_nodes _ = 1"

lemma nodes_le_length: "json_nodes v \<le> length (enc_json v)"
proof (induction v)
  case (JArr xs)
  then have "sum_list (map json_nodes xs) \<le> sum_list (map (length \<circ> enc_json) xs)" by (intro sum_list_mono) simp
  then show ?case by (simp add: length_concat comp_def)
next
  case (JObj kvs)
  then have "sum_list (map (\<lambda>(k, v). json_nodes v) kvs) \<le> sum_list (map (\<lambda>(k, v). length (enc c_string k @ enc_json v)) kvs)"
    by (intro sum_list_mono) (fastforce simp: snds.simps intro: trans_le_add2)
  then show ?case by (simp add: length_concat comp_def case_prod_unfold)
qed simp_all

lemma dec_many_enc:
  assumes "\<And>x rest. x \<in> set xs \<Longrightarrow> d (e x @ rest) = (x, rest)"
  shows "dec_many d (length xs) (concat (map e xs) @ rest) = (xs, rest)"
  using assms by (induction xs) simp_all

lemma dec_json_enc: "json_nodes v \<le> n \<Longrightarrow> dec_json n (enc_json v @ rest) = (v, rest)"
proof (induction v arbitrary: n rest)
  case (JArr xs)
  then obtain n' where n: "n = Suc n'" by (cases n) auto
  have "json_nodes x \<le> n'" if "x \<in> set xs" for x
    using that JArr.prems n member_le_sum_list [of "json_nodes x" "map json_nodes xs"] by fastforce
  then have "dec_many (dec_json n') (length xs) (concat (map enc_json xs) @ rest) = (xs, rest)" using JArr.IH by (intro dec_many_enc) blast
  then show ?case by (simp add: n codec_okD [OF c_nat_ok])
next
  case (JObj kvs)
  then obtain n' where n: "n = Suc n'" by (cases n) auto
  have "json_nodes v \<le> n'" if "(k, v) \<in> set kvs" for k v
    using that JObj.prems n member_le_sum_list [of "json_nodes v" "map (\<lambda>(k, v). json_nodes v) kvs"] by fastforce
  then have "dec_many (\<lambda>b. case dec c_string b of (k, r) \<Rightarrow> apfst (Pair k) (dec_json n' r)) (length kvs)
      (concat (map (\<lambda>(k, v). enc c_string k @ enc_json v) kvs) @ rest) = (kvs, rest)"
    using JObj.IH by (intro dec_many_enc) (fastforce simp: codec_okD [OF c_string_ok] snds.simps)
  then show ?case by (simp add: n codec_okD [OF c_nat_ok])
qed (auto simp: codec_okD [OF c_int_ok] codec_okD [OF c_string_ok] dest!: Suc_le_D)

definition read_json :: "bytes \<Rightarrow> (err, json) result" where
  "read_json bs = (case dec_json (length bs) bs of (v, r) \<Rightarrow> (if r = [] then Ok v else Err ''trailing characters''))"

lemma read_json_enc: "read_json (enc_json v) = Ok v"
  using dec_json_enc [OF nodes_le_length, of v "[]"] by (simp add: read_json_def)

fun json_str_bytes :: "json \<Rightarrow> (err, digest) result" where
  "json_str_bytes (JStr s) = (case hex_decode s of Some b \<Rightarrow> Ok b | None \<Rightarrow> Err ''invalid fingerprint'')"
| "json_str_bytes _ = Err ''invalid fingerprint''"

text \<open>The canonical form: the entries of all objects in the order of their keys. On values whose objects are in order it is the text itself.\<close>

fun json_canon :: "json \<Rightarrow> json" where
  "json_canon (JArr xs) = JArr (map json_canon xs)"
| "json_canon (JObj m) = JObj (sort_key fst (map (\<lambda>(k, v). (k, json_canon v)) m))"
| "json_canon v = v"

lemma json_canon_ok: "json_ok v \<Longrightarrow> json_canon v = v"
proof (induction v)
  case (JArr xs)
  then show ?case by (simp add: list_all_iff map_idI)
next
  case (JObj m)
  then have "map (\<lambda>(k, v). (k, json_canon v)) m = m" by (intro map_idI) (fastforce simp: list_all_iff snds.simps)
  moreover have "sorted (map fst m)" using JObj.prems by (simp add: bt_wf_def strict_sorted_iff)
  ultimately show ?case by (simp add: sorted_sort_id sort_key_id_if_sorted)
qed simp_all

text \<open>This text format and canonical form, and a keyed digest that does not collide.\<close>

definition plain_mlib :: mlib where
  "plain_mlib = \<lparr>hmac_sha256 = (\<lambda>k d. k @ d), to_canonical_json = (\<lambda>v. Ok (enc_json (json_canon v))), print_json = enc_json, parse_json = read_json,
     fp_value = (\<lambda>d. JStr (hex_encode d)), fp_of_value = json_str_bytes, strict_name = (\<lambda>_. True)\<rparr>"

section \<open>A signed manifest\<close>

definition example_manifest :: BackupManifest where
  "example_manifest = BackupManifest_new Host ''elsa'' 100"

definition example_key :: CryptConfig where
  "example_key = \<lparr>enc_key = [1], id_key = [2]\<rparr>"

lemma plain_facts:
  "json_ok v \<Longrightarrow> to_canonical_json plain_mlib v = Ok (enc_json v)" "parse_json plain_mlib (print_json plain_mlib v) = Ok v"
  "fp_of_value plain_mlib (fp_value plain_mlib d) = Ok d" "fp_value plain_mlib d \<noteq> JNull" "json_ok (fp_value plain_mlib d)"
  by (simp_all add: plain_mlib_def json_canon_ok read_json_enc hex_round_trip)

lemma plain_canonical:
  assumes "json_ok v" "json_ok w" "to_canonical_json plain_mlib v = Ok c" "to_canonical_json plain_mlib w = Ok c"
  shows "v = w"
  using assms read_json_enc [of v] read_json_enc [of w] by (simp add: plain_facts(1))

theorem manifest_round_trip_witness:
  "\<exists>s m'. manifest_to_string demo_libs plain_mlib (Some example_key) example_manifest = Some (Ok s) \<and>
     from_data demo_libs plain_mlib s (Some example_key) False = Some (Ok m') \<and> bm_backup_id m' = ''elsa'' \<and>
     manifest_fingerprint plain_mlib m' = Ok (Some (key_fingerprint demo_libs example_key))"
proof -
  have "manifest_ok plain_mlib example_manifest" "unprotected example_manifest = JObj []" "json_ok (unprotected example_manifest)"
    "bm_backup_id example_manifest = ''elsa''"
    by (simp_all add: manifest_ok_def example_manifest_def BackupManifest_new_def fits_i64_def)
  then show ?thesis
    using manifest_round_trip [of plain_mlib example_manifest _ "[]" demo_libs example_key, OF _ plain_facts(1) [OF protected_value_ok] _ _ plain_facts(3,4,5) plain_facts(2)]
    by auto
qed

theorem manifest_signature_protects_witness:
  "check_signature demo_libs plain_mlib example_key False
     (example_manifest\<lparr>bm_signature := Some (hex_encode (compute_auth_tag plain_mlib example_key (enc_json (protected_value example_manifest)))),
       unprotected := JStr ''note''\<rparr>) = Some (Ok ()) \<and>
   check_signature demo_libs plain_mlib example_key False
     (example_manifest\<lparr>bm_signature := Some (hex_encode (compute_auth_tag plain_mlib example_key (enc_json (protected_value example_manifest)))),
       bm_backup_id := ''elsb''\<rparr>) \<noteq> Some (Ok ())"
proof -
  let ?s = "Some (hex_encode (compute_auth_tag plain_mlib example_key (enc_json (protected_value example_manifest))))"
  let ?m = "example_manifest\<lparr>bm_signature := ?s, unprotected := JStr ''note''\<rparr>"
  let ?t = "example_manifest\<lparr>bm_signature := ?s, bm_backup_id := ''elsb''\<rparr>"
  have same: "protected_value ?m = protected_value example_manifest" by (simp add: protected_value_def)
  have m: "check_signature demo_libs plain_mlib example_key False ?m = Some (Ok ())"
    by (simp add: check_signature_def manifest_signature_eq plain_facts(1) [OF protected_value_ok] same json_get_def)
  have "check_signature demo_libs plain_mlib example_key False ?t \<noteq> Some (Ok ())"
  proof
    assume "check_signature demo_libs plain_mlib example_key False ?t = Some (Ok ())"
    from manifest_signature_protects [OF m this] plain_canonical show False
      by (simp add: plain_mlib_def example_manifest_def BackupManifest_new_def)
  qed
  then show ?thesis using m by blast
qed

end
