(* ===== verification/SyncChunks.thy ===== *)
theory SyncChunks
  imports DynamicIndex FixedIndex DataBlob
begin

text \<open>
  The transfer of the chunks of an index in a pull (\<^verbatim>\<open>pull_index_chunks\<close> of \<^verbatim>\<open>src/server/pull.rs\<close>). Without decryption up to
  20 chunks are transferred at once, and a pool of threads verifies and stores them: a step relation whose
  steps are the parts that run under one lock or between two waits. With decryption the chunks are processed
  in order and a new index is written. The chunks that were seen are kept for a whole group.
\<close>

section \<open>Encountered chunks\<close>

record EncounteredChunkInfo =
  ec_touched :: bool
  ec_chunk_size :: nat
  ec_decrypted_digest :: "digest option"

type_synonym EncounteredChunks = "digest \<rightharpoonup> EncounteredChunkInfo"

definition check_reusable :: "digest \<Rightarrow> nat \<Rightarrow> EncounteredChunks \<Rightarrow> (err, EncounteredChunkInfo option) result" where
  "check_reusable d chunk_size es =
     (case es d of
        Some i \<Rightarrow> (if ec_chunk_size i \<noteq> chunk_size then Err ''inconsistent chunk size for reusable chunk detected'' else Ok (Some i))
      | None \<Rightarrow> Ok None)"

definition mark_reusable :: "digest \<Rightarrow> nat \<Rightarrow> digest option \<Rightarrow> EncounteredChunks \<Rightarrow> (err, unit) result \<times> EncounteredChunks" where
  "mark_reusable d chunk_size dec es =
     (case es d of
        Some i \<Rightarrow>
          (if ec_chunk_size i \<noteq> chunk_size then (Err ''failed to mark chunk as reusable'', es)
           else (Ok (), if ec_decrypted_digest i = None then es(d \<mapsto> i\<lparr>ec_decrypted_digest := dec\<rparr>) else es))
      | None \<Rightarrow> (Ok (), es(d \<mapsto> \<lparr>ec_touched = False, ec_chunk_size = chunk_size, ec_decrypted_digest = dec\<rparr>)))"

definition mark_touched :: "digest \<Rightarrow> EncounteredChunks \<Rightarrow> (err, unit) result \<times> EncounteredChunks" where
  "mark_touched d es =
     (case es d of
        Some i \<Rightarrow> (Ok (), es(d \<mapsto> i\<lparr>ec_touched := True\<rparr>))
      | None \<Rightarrow> (Err ''cannot mark non-reusable chunk as touched'', es))"

text \<open>The filter of the stream, evaluated when an entry of the index is taken: \<open>Ok None\<close> when the entry is skipped.\<close>

definition stream_item :: "EncounteredChunks \<Rightarrow> ChunkReadInfo \<Rightarrow> (err, ChunkReadInfo option) result" where
  "stream_item es info =
     (case check_reusable (info_digest info) (info_size info) es of
        Inl e \<Rightarrow> Err e
      | Inr None \<Rightarrow> Ok (Some info)
      | Inr (Some i) \<Rightarrow> (if ec_decrypted_digest i \<noteq> None \<or> \<not> ec_touched i then Ok (Some info) else Ok None))"

section \<open>Transfer without decryption\<close>

text \<open>
  The entries that are not taken yet, those taken and not decided, those being downloaded, and the chunks that
  the pool holds, at most \<open>slots\<close> of them: a send waits for a place. Further the chunks in the store, and whether
  something failed.
\<close>

record pull_state =
  p_encountered :: EncounteredChunks
  p_store :: "digest \<rightharpoonup> DataBlob"
  p_todo :: "ChunkReadInfo list"
  p_started :: "ChunkReadInfo list"
  p_loading :: "ChunkReadInfo list"
  p_channel :: "(DataBlob \<times> digest \<times> nat) list"
  p_failed :: bool
  p_bytes :: nat
  p_count :: nat

definition pull_start :: "EncounteredChunks \<Rightarrow> (digest \<rightharpoonup> DataBlob) \<Rightarrow> ChunkReadInfo list \<Rightarrow> pull_state" where
  "pull_start es st infos = \<lparr>p_encountered = es, p_store = st, p_todo = infos, p_started = [], p_loading = [], p_channel = [],
     p_failed = False, p_bytes = 0, p_count = 0\<rparr>"

definition pull_done :: "pull_state \<Rightarrow> bool" where
  "pull_done s \<longleftrightarrow> p_todo s = [] \<and> p_started s = [] \<and> p_loading s = [] \<and> p_channel s = [] \<and> \<not> p_failed s"

text \<open>The part under the lock: \<open>Ok True\<close> when the chunk has to be downloaded. \<open>touch_fails\<close> is an error of \<^verbatim>\<open>cond_touch_chunk\<close>.\<close>

definition decide :: "err option \<Rightarrow> (digest \<rightharpoonup> DataBlob) \<Rightarrow> ChunkReadInfo \<Rightarrow> EncounteredChunks \<Rightarrow> (err, bool) result \<times> EncounteredChunks" where
  "decide touch_fails st info es =
     (let d = info_digest info;
          download = (case mark_reusable d (info_size info) None es of
              (Inl e, es1) \<Rightarrow> (Err e, es1)
            | (Inr _, es1) \<Rightarrow> (case mark_touched d es1 of (Inl e, es2) \<Rightarrow> (Err e, es2) | (Inr _, es2) \<Rightarrow> (Ok True, es2)))
      in case check_reusable d (info_size info) es of
           Inl e \<Rightarrow> (Err e, es)
         | Inr None \<Rightarrow> download
         | Inr (Some i) \<Rightarrow>
             (if ec_touched i then (Ok False, es)
              else (case touch_fails of
                      Some e \<Rightarrow> (Err e, es)
                    | None \<Rightarrow>
                        (if st d \<noteq> None then (case mark_touched d es of (Inl e, es1) \<Rightarrow> (Err e, es1) | (Inr _, es1) \<Rightarrow> (Ok False, es1))
                         else download))))"

inductive pull_step :: "nat \<Rightarrow> 'c libs \<Rightarrow> pull_state \<Rightarrow> pull_state \<Rightarrow> bool" for slots L where
  skip: "\<not> p_failed s \<Longrightarrow> p_todo s = info # rest \<Longrightarrow> stream_item (p_encountered s) info = Ok None \<Longrightarrow>
    pull_step slots L s (s\<lparr>p_todo := rest\<rparr>)"
| take_error: "\<not> p_failed s \<Longrightarrow> p_todo s = info # rest \<Longrightarrow> stream_item (p_encountered s) info = Err e \<Longrightarrow>
    pull_step slots L s (s\<lparr>p_todo := rest, p_failed := True\<rparr>)"
| take_item: "\<not> p_failed s \<Longrightarrow> p_todo s = info # rest \<Longrightarrow> stream_item (p_encountered s) info = Ok (Some info) \<Longrightarrow>
    length (p_started s) + length (p_loading s) < 20 \<Longrightarrow> pull_step slots L s (s\<lparr>p_todo := rest, p_started := p_started s @ [info]\<rparr>)"
| decide_error: "\<not> p_failed s \<Longrightarrow> p_started s = xs @ info # ys \<Longrightarrow> decide fault (p_store s) info (p_encountered s) = (Err e, es) \<Longrightarrow>
    pull_step slots L s (s\<lparr>p_started := xs @ ys, p_encountered := es, p_failed := True\<rparr>)"
| decide_skip: "\<not> p_failed s \<Longrightarrow> p_started s = xs @ info # ys \<Longrightarrow> decide fault (p_store s) info (p_encountered s) = (Ok False, es) \<Longrightarrow>
    pull_step slots L s (s\<lparr>p_started := xs @ ys, p_encountered := es\<rparr>)"
| decide_load: "\<not> p_failed s \<Longrightarrow> p_started s = xs @ info # ys \<Longrightarrow> decide fault (p_store s) info (p_encountered s) = (Ok True, es) \<Longrightarrow>
    pull_step slots L s (s\<lparr>p_started := xs @ ys, p_encountered := es, p_loading := p_loading s @ [info]\<rparr>)"
| load_error: "\<not> p_failed s \<Longrightarrow> p_loading s = xs @ info # ys \<Longrightarrow> pull_step slots L s (s\<lparr>p_loading := xs @ ys, p_failed := True\<rparr>)"
| loaded: "\<not> p_failed s \<Longrightarrow> p_loading s = xs @ info # ys \<Longrightarrow> length (p_channel s) < slots \<Longrightarrow>
    pull_step slots L s (s\<lparr>p_loading := xs @ ys, p_channel := p_channel s @ [(blob, info_digest info, info_size info)],
      p_bytes := wrapping_add (p_bytes s) (raw_size blob), p_count := wrapping_add (p_count s) 1\<rparr>)"
| write_error: "\<not> p_failed s \<Longrightarrow> p_channel s = xs @ c # ys \<Longrightarrow> pull_step slots L s (s\<lparr>p_channel := xs @ ys, p_failed := True\<rparr>)"
| stored: "\<not> p_failed s \<Longrightarrow> p_channel s = xs @ (blob, d, sz) # ys \<Longrightarrow> verify_unencrypted L sz d blob = Some (Ok ()) \<Longrightarrow>
    p_store s d = Some old \<and> new = old \<or> new = blob \<Longrightarrow>
    pull_step slots L s (s\<lparr>p_channel := xs @ ys, p_store := (p_store s)(d \<mapsto> new)\<rparr>)"

section \<open>Transfer with decryption\<close>

datatype DecryptedIndexWriter = FixedW FixedIndexWriter | DynamicW DynamicIndexWriter

text \<open>One more entry of the new index; \<open>sys\<close> and \<open>io\<close> are the faults of the two writers.\<close>

definition index_add :: "sys \<Rightarrow> (err \<times> nat) option \<Rightarrow> nat \<Rightarrow> nat \<Rightarrow> digest \<Rightarrow> DecryptedIndexWriter \<Rightarrow>
    ((err, unit) result \<times> DecryptedIndexWriter) option" where
  "index_add sys io start_offset csize d w =
     (case w of
        FixedW i \<Rightarrow> map_option (\<lambda>(r, i'). (r, FixedW i')) (fixed_add_chunk sys start_offset (csize mod 2 ^ 32) d i)
      | DynamicW i \<Rightarrow> (case writer_add_chunk io (wrapping_add start_offset csize) d i of (r, i') \<Rightarrow> Some (r, DynamicW i')))"

record decrypt_state =
  d_encountered :: EncounteredChunks
  d_offset :: nat
  d_index :: DecryptedIndexWriter
  d_channel :: "(DataBlob \<times> digest \<times> nat) list"

definition decrypt_item :: "'c libs \<Rightarrow> sys \<Rightarrow> (err \<times> nat) option \<Rightarrow> (digest \<Rightarrow> (err, bytes) result) \<Rightarrow> ChunkReadInfo \<Rightarrow> decrypt_state \<Rightarrow>
    ((err, unit) result \<times> decrypt_state) option" where
  "decrypt_item L sys io read_chunk info s =
     (let d = info_digest info in
      case check_reusable d (info_size info) (d_encountered s) of
        Inl e \<Rightarrow> Some (Err e, s)
      | Inr r \<Rightarrow>
          (case (case r of None \<Rightarrow> None | Some i \<Rightarrow> ec_decrypted_digest i) of
             Some dd \<Rightarrow>
               map_option (\<lambda>(r, w). (r, s\<lparr>d_offset := wrapping_add (d_offset s) (info_size info), d_index := w\<rparr>))
                 (index_add sys io (d_offset s) (info_size info) dd (d_index s))
           | None \<Rightarrow>
               (case read_chunk d of
                  Inl e \<Rightarrow> Some (Err e, s)
                | Inr data \<Rightarrow>
                    (case builder_build L (Err ''no random data'') (builder_compress True (DataChunkBuilder_new data)) of
                       None \<Rightarrow> None
                     | Some (Inl e) \<Rightarrow> Some (Err e, s)
                     | Some (Inr (chunk, digest)) \<Rightarrow>
                         (case index_add sys io (d_offset s) (length data) digest (d_index s) of
                            None \<Rightarrow> None
                          | Some (r, w) \<Rightarrow>
                              (let s1 = s\<lparr>d_offset := wrapping_add (d_offset s) (length data), d_index := w\<rparr> in
                               case r of
                                 Inl e \<Rightarrow> Some (Err e, s1)
                               | Inr _ \<Rightarrow>
                                   (case mark_reusable d (length data) (Some digest) (d_encountered s) of
                                      (Inl e, es) \<Rightarrow> Some (Err e, s1\<lparr>d_encountered := es\<rparr>)
                                    | (Inr _, es) \<Rightarrow>
                                        Some (Ok (), s1\<lparr>d_encountered := es, d_channel := d_channel s @ [(chunk, digest, length data)]\<rparr>))))))))"

fun decrypt_loop :: "'c libs \<Rightarrow> (digest \<Rightarrow> (err, bytes) result) \<Rightarrow> (sys \<times> (err \<times> nat) option) list \<Rightarrow> ChunkReadInfo list \<Rightarrow> decrypt_state \<Rightarrow>
    ((err, unit) result \<times> decrypt_state) option" where
  "decrypt_loop L read_chunk ios [] s = Some (Ok (), s)"
| "decrypt_loop L read_chunk ios (info # infos) s =
     (case stream_item (d_encountered s) info of
        Inl e \<Rightarrow> Some (Err e, s)
      | Inr None \<Rightarrow> decrypt_loop L read_chunk (tl ios) infos s
      | Inr (Some i) \<Rightarrow>
          (case decrypt_item L (fst (hd ios)) (snd (hd ios)) read_chunk i s of
             None \<Rightarrow> None
           | Some (Inl e, s1) \<Rightarrow> Some (Err e, s1)
           | Some (Inr _, s1) \<Rightarrow> decrypt_loop L read_chunk (tl ios) infos s1))"

section \<open>The transfer is complete\<close>

definition touched :: "digest \<Rightarrow> EncounteredChunks \<Rightarrow> bool" where
  "touched d es \<longleftrightarrow> (\<exists>i. es d = Some i \<and> ec_touched i)"

text \<open>A chunk that was touched is in the store or on its way there.\<close>

definition on_the_way :: "digest \<Rightarrow> pull_state \<Rightarrow> bool" where
  "on_the_way d s \<longleftrightarrow> d \<in> dom (p_store s) \<or> d \<in> info_digest ` set (p_loading s) \<or> d \<in> (fst \<circ> snd) ` set (p_channel s)"

text \<open>The chunks in the store are those of the beginning or were verified.\<close>

definition store_verified :: "'c libs \<Rightarrow> (digest \<rightharpoonup> DataBlob) \<Rightarrow> pull_state \<Rightarrow> bool" where
  "store_verified L st s \<longleftrightarrow> dom st \<subseteq> dom (p_store s) \<and>
     (\<forall>d b. p_store s d = Some b \<longrightarrow> st d = Some b \<or> (\<exists>sz. verify_unencrypted L sz d b = Some (Ok ())))"

definition pull_inv :: "'c libs \<Rightarrow> (digest \<rightharpoonup> DataBlob) \<Rightarrow> ChunkReadInfo list \<Rightarrow> pull_state \<Rightarrow> bool" where
  "pull_inv L st infos s \<longleftrightarrow> store_verified L st s \<and>
     (p_failed s \<or> (\<forall>d. touched d (p_encountered s) \<longrightarrow> on_the_way d s) \<and>
        (\<forall>info \<in> set infos. info \<in> set (p_todo s) \<or> info \<in> set (p_started s) \<or> touched (info_digest info) (p_encountered s)))"

lemma mark_touched_touches: "mark_touched d es = (Ok x, es') \<Longrightarrow> touched d' es' \<longleftrightarrow> d' = d \<or> touched d' es"
  by (auto simp: mark_touched_def touched_def split: option.splits)

lemma mark_reusable_touched: "mark_reusable d sz dec es = (r, es') \<Longrightarrow> touched d' es' \<longleftrightarrow> touched d' es"
  by (auto simp: mark_reusable_def touched_def split: option.splits if_splits)

lemma decide_touched:
  assumes "decide fault st info es = (Ok b, es')"
  shows "touched d es' \<longleftrightarrow> d = info_digest info \<or> touched d es"
    "\<not> b \<Longrightarrow> touched (info_digest info) es \<or> info_digest info \<in> dom st"
  using assms
  by (auto simp: decide_def Let_def check_reusable_def dest!: mark_touched_touches mark_reusable_touched
      split: option.splits if_splits sum.splits prod.splits) (auto simp: touched_def)

lemma stream_item_skip: "stream_item es info = Ok None \<Longrightarrow> touched (info_digest info) es"
  by (auto simp: stream_item_def check_reusable_def touched_def split: option.splits if_splits)

lemma pull_step_inv: "pull_step slots L s s' \<Longrightarrow> pull_inv L st infos s \<Longrightarrow> pull_inv L st infos s'"
proof (induction rule: pull_step.induct)
  case (skip s info rest)
  then show ?case using stream_item_skip [OF skip(3)] by (auto simp: pull_inv_def store_verified_def on_the_way_def)
next
  case (decide_skip s xs info ys fault es)
  then show ?case using decide_touched [OF decide_skip(3)]
    by (auto simp: pull_inv_def store_verified_def on_the_way_def)
next
  case (decide_load s xs info ys fault es)
  then show ?case using decide_touched(1) [OF decide_load(3)]
    by (auto simp: pull_inv_def store_verified_def on_the_way_def)
next
  case (loaded s xs info ys blob)
  then show ?case by (auto simp: pull_inv_def store_verified_def on_the_way_def image_iff)
next
  case (stored s xs blob d sz ys old new)
  then show ?case by (auto simp: pull_inv_def store_verified_def on_the_way_def image_iff)
qed (auto simp: pull_inv_def store_verified_def on_the_way_def)

definition pull_runs :: "nat \<Rightarrow> 'c libs \<Rightarrow> pull_state \<Rightarrow> pull_state \<Rightarrow> bool" where
  "pull_runs slots L = (pull_step slots L)\<^sup>*\<^sup>*"

lemma pull_runs_refl: "pull_runs slots L s s"
  by (simp add: pull_runs_def)

lemma pull_runs_step: "pull_step slots L s s' \<Longrightarrow> pull_runs slots L s' t \<Longrightarrow> pull_runs slots L s t"
  by (simp add: pull_runs_def converse_rtranclp_into_rtranclp)

lemma pull_runs_inv: "pull_runs slots L s s' \<Longrightarrow> pull_inv L st infos s \<Longrightarrow> pull_inv L st infos s'"
  unfolding pull_runs_def by (induction rule: rtranclp_induct) (auto intro: pull_step_inv)

lemma pull_complete:
  assumes "\<forall>d. touched d es \<longrightarrow> d \<in> dom st" "pull_runs slots L (pull_start es st infos) s" "pull_done s"
  shows "info_digest ` set infos \<subseteq> dom (p_store s)" "\<forall>d. touched d (p_encountered s) \<longrightarrow> d \<in> dom (p_store s)" "store_verified L st s"
proof -
  have "pull_inv L st infos (pull_start es st infos)"
    using assms(1) by (auto simp: pull_inv_def pull_start_def store_verified_def on_the_way_def)
  then have "pull_inv L st infos s" using pull_runs_inv [OF assms(2)] by blast
  then show "info_digest ` set infos \<subseteq> dom (p_store s)" "\<forall>d. touched d (p_encountered s) \<longrightarrow> d \<in> dom (p_store s)" "store_verified L st s"
    using assms(3) by (auto simp: pull_inv_def pull_done_def on_the_way_def)
qed

section \<open>The transfer ends\<close>

definition pull_measure :: "pull_state \<Rightarrow> nat" where
  "pull_measure s = 4 * length (p_todo s) + 3 * length (p_started s) + 2 * length (p_loading s) + length (p_channel s)"

lemma pull_step_measure: "pull_step slots L s s' \<Longrightarrow> pull_measure s' < pull_measure s"
  by (induction rule: pull_step.induct) (simp_all add: pull_measure_def)

lemma stream_item_same: "stream_item es info = Ok (Some i) \<Longrightarrow> i = info"
  by (auto simp: stream_item_def split: option.splits sum.splits if_splits)

text \<open>
  Steps without a fault: nothing fails, and the chunks that are downloaded are those of the source. The invariant says
  that the known sizes are those of the chunks, and that what is still to do can be downloaded and verified.
\<close>

definition sound_step :: "nat \<Rightarrow> 'c libs \<Rightarrow> (digest \<Rightarrow> DataBlob) \<Rightarrow> pull_state \<Rightarrow> pull_state \<Rightarrow> bool" where
  "sound_step slots L source s s' \<longleftrightarrow> pull_step slots L s s' \<and> \<not> p_failed s' \<and> (\<forall>(b, d, sz) \<in> set (p_channel s'). b = source d)"

definition sound :: "'c libs \<Rightarrow> (digest \<Rightarrow> nat) \<Rightarrow> (digest \<Rightarrow> DataBlob) \<Rightarrow> pull_state \<Rightarrow> bool" where
  "sound L csize source s \<longleftrightarrow> \<not> p_failed s \<and> (\<forall>d i. p_encountered s d = Some i \<longrightarrow> ec_chunk_size i = csize d) \<and>
     (\<forall>info \<in> set (p_todo s) \<union> set (p_started s) \<union> set (p_loading s). info_size info = csize (info_digest info) \<and>
        verify_unencrypted L (csize (info_digest info)) (info_digest info) (source (info_digest info)) = Some (Ok ())) \<and>
     (\<forall>(b, d, sz) \<in> set (p_channel s). b = source d \<and> verify_unencrypted L sz d b = Some (Ok ()))"

lemma decide_sound:
  assumes "\<forall>d i. es d = Some i \<longrightarrow> ec_chunk_size i = csize d" "info_size info = csize (info_digest info)"
  shows "\<exists>b es'. decide None st info es = (Ok b, es')"
    and "decide fault st info es = (r, es') \<Longrightarrow> \<forall>d i. es' d = Some i \<longrightarrow> ec_chunk_size i = csize d"
proof -
  show "\<exists>b es'. decide None st info es = (Ok b, es')"
    using assms by (auto simp: decide_def Let_def check_reusable_def mark_reusable_def mark_touched_def split: option.splits)
  show "decide fault st info es = (r, es') \<Longrightarrow> \<forall>d i. es' d = Some i \<longrightarrow> ec_chunk_size i = csize d"
    using assms by (auto simp: decide_def Let_def check_reusable_def mark_reusable_def mark_touched_def split: option.splits if_splits)
qed

lemma sound_decided:
  assumes "sound L csize source s" "p_started s = xs @ info # ys" "decide fault (p_store s) info (p_encountered s) = (Ok b, es)"
  shows "sound L csize source (s\<lparr>p_started := xs @ ys, p_encountered := es, p_loading := p_loading s @ (if b then [info] else [])\<rparr>)"
proof -
  have "\<forall>d i. es d = Some i \<longrightarrow> ec_chunk_size i = csize d"
    by (rule decide_sound(2) [OF _ _ assms(3)]) (use assms(1,2) in \<open>auto simp: sound_def\<close>)
  then show ?thesis using assms(1,2) unfolding sound_def by (simp add: ball_Un)
qed

lemma sound_step_keeps:
  assumes "sound_step slots L source s s'" "sound L csize source s"
  shows "sound L csize source s'"
proof -
  have step: "pull_step slots L s s'" and ok: "\<not> p_failed s'" "\<forall>(b, d, sz) \<in> set (p_channel s'). b = source d"
    using assms(1) by (auto simp: sound_step_def)
  from step show ?thesis
  proof cases
    case (decide_skip xs info ys fault es)
    then show ?thesis using sound_decided [OF assms(2) decide_skip(3,4)] by simp
  next
    case (decide_load xs info ys fault es)
    then show ?thesis using sound_decided [OF assms(2) decide_load(3,4)] by simp
  next
    case (loaded xs info ys blob)
    then have "blob = source (info_digest info)" using ok(2) by simp
    then show ?thesis using assms(2) unfolding loaded(1) sound_def by (simp add: loaded(3))
  qed (use assms(2) ok(1) in \<open>simp_all add: sound_def\<close>)
qed

lemma sound_progress:
  assumes "0 < slots" "sound L csize source s"
  shows "pull_done s \<or> (\<exists>s'. sound_step slots L source s s')"
proof -
  have f: "\<not> p_failed s" and ch: "\<forall>(b, d, sz) \<in> set (p_channel s). b = source d" using assms(2) by (auto simp: sound_def)
  consider c cs where "p_channel s = c # cs" | info ys where "p_channel s = []" "p_started s = info # ys"
    | info ys where "p_channel s = []" "p_started s = []" "p_loading s = info # ys"
    | info ys where "p_channel s = []" "p_started s = []" "p_loading s = []" "p_todo s = info # ys"
    | "p_channel s = []" "p_started s = []" "p_loading s = []" "p_todo s = []"
    by (cases "p_channel s"; cases "p_started s"; cases "p_loading s"; cases "p_todo s") auto
  then show ?thesis
  proof cases
    case 1
    obtain b d sz where c: "c = (b, d, sz)" by (cases c)
    then have v: "verify_unencrypted L sz d b = Some (Ok ())" using assms(2) 1 by (auto simp: sound_def)
    have "sound_step slots L source s (s\<lparr>p_channel := [] @ cs, p_store := (p_store s)(d \<mapsto> b)\<rparr>)"
      using stored [OF f, of "[]" b d sz cs L b b slots] v 1 c f ch by (auto simp: sound_step_def)
    then show ?thesis by blast
  next
    case 2
    then obtain r es where d: "decide None (p_store s) info (p_encountered s) = (Ok r, es)"
      using decide_sound(1) [of "p_encountered s" csize info "p_store s"] assms(2) by (auto simp: sound_def)
    show ?thesis
    proof (cases r)
      case True
      have "sound_step slots L source s (s\<lparr>p_started := [] @ ys, p_encountered := es, p_loading := p_loading s @ [info]\<rparr>)"
        using decide_load [OF f, of "[]" info ys None es slots L] d True 2 f by (auto simp: sound_step_def)
      then show ?thesis by blast
    next
      case False
      have "sound_step slots L source s (s\<lparr>p_started := [] @ ys, p_encountered := es\<rparr>)"
        using decide_skip [OF f, of "[]" info ys None es slots L] d False 2 f by (auto simp: sound_step_def)
      then show ?thesis by blast
    qed
  next
    case 3
    have "pull_step slots L s (s\<lparr>p_loading := [] @ ys, p_channel := p_channel s @ [(source (info_digest info), info_digest info, info_size info)],
        p_bytes := wrapping_add (p_bytes s) (raw_size (source (info_digest info))), p_count := wrapping_add (p_count s) 1\<rparr>)"
      by (rule loaded [OF f]) (use 3 assms(1) in auto)
    then have "sound_step slots L source s (s\<lparr>p_loading := [] @ ys, p_channel := p_channel s @ [(source (info_digest info), info_digest info, info_size info)],
        p_bytes := wrapping_add (p_bytes s) (raw_size (source (info_digest info))), p_count := wrapping_add (p_count s) 1\<rparr>)"
      using 3 f by (simp add: sound_step_def)
    then show ?thesis by blast
  next
    case 4
    have size: "check_reusable (info_digest info) (info_size info) (p_encountered s) = Ok (p_encountered s (info_digest info))"
      using assms(2) 4 by (auto simp: sound_def check_reusable_def split: option.split)
    show ?thesis
    proof (cases "stream_item (p_encountered s) info = Ok None")
      case True
      then have "sound_step slots L source s (s\<lparr>p_todo := ys\<rparr>)" using skip [OF f 4(4)] 4 f by (auto simp: sound_step_def)
      then show ?thesis by blast
    next
      case False
      then have "stream_item (p_encountered s) info = Ok (Some info)" using size by (auto simp: stream_item_def split: option.splits)
      then have "sound_step slots L source s (s\<lparr>p_todo := ys, p_started := p_started s @ [info]\<rparr>)"
        using take_item [OF f 4(4)] 4 f by (auto simp: sound_step_def)
      then show ?thesis by blast
    qed
  qed (use f in \<open>simp add: pull_done_def\<close>)
qed

lemma sound_step_wf: "wfP (\<lambda>s' s. sound_step slots L source s s')"
  unfolding wfp_def by (rule wf_subset [of "measure pull_measure"]) (auto simp: sound_step_def dest: pull_step_measure)

section \<open>Rewriting an index\<close>

text \<open>The entries of the new index: the end offsets of the decrypted chunks and the digests of their contents.\<close>

fun rewritten :: "'c libs \<Rightarrow> (digest \<Rightarrow> bytes) \<Rightarrow> nat \<Rightarrow> ChunkReadInfo list \<Rightarrow> (nat \<times> digest) list" where
  "rewritten L plain off [] = []"
| "rewritten L plain off (info # infos) =
     (off + length (plain (info_digest info)), sha256 L (plain (info_digest info))) #
       rewritten L plain (off + length (plain (info_digest info))) infos"

text \<open>What is known about chunks is right, and a chunk was touched only together with a decrypted digest.\<close>

definition mapped :: "'c libs \<Rightarrow> (digest \<Rightarrow> bytes) \<Rightarrow> EncounteredChunks \<Rightarrow> bool" where
  "mapped L plain es \<longleftrightarrow> (\<forall>d i. es d = Some i \<longrightarrow> ec_chunk_size i = length (plain d) \<and>
     (case ec_decrypted_digest i of None \<Rightarrow> \<not> ec_touched i | Some dd \<Rightarrow> dd = sha256 L (plain d)))"

lemma mappedD:
  assumes "mapped L plain es" "es d = Some i"
  shows "ec_chunk_size i = length (plain d)" "ec_decrypted_digest i = None \<Longrightarrow> \<not> ec_touched i"
    "ec_decrypted_digest i = Some dd \<Longrightarrow> dd = sha256 L (plain d)"
  using assms unfolding mapped_def by (force split: option.splits)+

text \<open>The chunks of the source can be read and have the sizes of its index.\<close>

definition readable :: "(digest \<Rightarrow> (err, bytes) result) \<Rightarrow> (digest \<Rightarrow> bytes) \<Rightarrow> ChunkReadInfo list \<Rightarrow> bool" where
  "readable read_chunk plain infos \<longleftrightarrow> (\<forall>info \<in> set infos. read_chunk (info_digest info) = Ok (plain (info_digest info)) \<and>
     info_size info = length (plain (info_digest info)) \<and> length (plain (info_digest info)) \<le> MAX_BLOB_SIZE)"

lemma build_plain:
  assumes "libs_ok L ct tg" "length data \<le> MAX_BLOB_SIZE"
  obtains chunk where "builder_build L r (builder_compress True (DataChunkBuilder_new data)) = Some (Ok (chunk, sha256 L data))"
proof -
  obtain b where "encode L (Ok (replicate 16 0)) data None True = Some (Ok b)"
    using encode_layout [OF assms, of "replicate 16 0" None True] by simp
  moreover have "encode L r data None True = encode L (Ok (replicate 16 0)) data None True" unfolding encode_def option.case ..
  ultimately have "encode L r data None True = Some (Ok b)" by simp
  then show thesis using that
    by (simp add: builder_build_def builder_compress_def DataChunkBuilder_new_def builder_compute_digest_def Let_def)
qed

lemma index_add_dynamic:
  "\<not> closed w \<Longrightarrow> off + n < 2 ^ 64 \<Longrightarrow>
   index_add sys None off n d (DynamicW w) = Some (Ok (), DynamicW (add_all [(off + n, d)] w)) \<and> \<not> closed (add_all [(off + n, d)] w)"
  by (auto simp: index_add_def writer_add_chunk_def wrapping_add_def Let_def split: option.split)

lemma decrypt_item_rewrites:
  assumes "libs_ok L ct tg" "readable read_chunk plain [info]" "mapped L plain (d_encountered s)" "d_index s = DynamicW w" "\<not> closed w"
    "d_offset s + length (plain (info_digest info)) < 2 ^ 64"
  shows "\<exists>s'. stream_item (d_encountered s) info = Ok (Some info) \<and> decrypt_item L sys None read_chunk info s = Some (Ok (), s') \<and>
    mapped L plain (d_encountered s') \<and> d_offset s' = d_offset s + length (plain (info_digest info)) \<and>
    d_index s' = DynamicW (add_all [(d_offset s + length (plain (info_digest info)), sha256 L (plain (info_digest info)))] w)"
proof -
  let ?d = "info_digest info" and ?p = "plain (info_digest info)"
  have rd: "read_chunk ?d = Ok ?p" "info_size info = length ?p" "length ?p \<le> MAX_BLOB_SIZE" using assms(2) by (simp_all add: readable_def)
  have size: "check_reusable ?d (length ?p) (d_encountered s) = Ok (d_encountered s ?d)"
    using mappedD(1) [OF assms(3)] by (auto simp: check_reusable_def split: option.split)
  have item: "stream_item (d_encountered s) info = Ok (Some info)"
    using mappedD(2) [OF assms(3)] size rd(2) by (auto simp: stream_item_def split: option.split)
  note add = index_add_dynamic [OF assms(5,6)]
  have wrap: "wrapping_add (d_offset s) (length ?p) = d_offset s + length ?p" using assms(6) by (simp add: wrapping_add_def)
  show ?thesis
  proof (cases "case d_encountered s ?d of None \<Rightarrow> None | Some i \<Rightarrow> ec_decrypted_digest i")
    case (Some dd)
    then have "dd = sha256 L ?p" using mappedD(3) [OF assms(3)] by (auto split: option.splits)
    then show ?thesis using Some item size rd add wrap assms(3,4) by (simp add: decrypt_item_def Let_def)
  next
    case None
    obtain chunk where chunk: "builder_build L (Err ''no random data'') (builder_compress True (DataChunkBuilder_new ?p)) = Some (Ok (chunk, sha256 L ?p))"
      using build_plain [OF assms(1) rd(3)] by blast
    obtain es where es: "mark_reusable ?d (length ?p) (Some (sha256 L ?p)) (d_encountered s) = (Ok (), es)" "mapped L plain es"
      using None assms(3) by (auto simp: mark_reusable_def mapped_def split: option.splits)
    show ?thesis using None item size rd add wrap chunk es assms(4) by (simp add: decrypt_item_def Let_def)
  qed
qed

lemma decrypt_loop_rewrites:
  assumes "libs_ok L ct tg"
  shows "readable read_chunk plain infos \<Longrightarrow> mapped L plain (d_encountered s) \<Longrightarrow> d_index s = DynamicW w \<Longrightarrow> \<not> closed w \<Longrightarrow>
    d_offset s + sum_list (map (\<lambda>info. length (plain (info_digest info))) infos) < 2 ^ 64 \<Longrightarrow> \<forall>io \<in> set ios. snd io = None \<Longrightarrow>
    length infos \<le> length ios \<Longrightarrow>
    \<exists>s'. decrypt_loop L read_chunk ios infos s = Some (Ok (), s') \<and> mapped L plain (d_encountered s') \<and>
      d_index s' = DynamicW (add_all (rewritten L plain (d_offset s) infos) w)"
proof (induction infos arbitrary: ios s w)
  case (Cons info infos)
  obtain io ios' where ios: "ios = io # ios'" using Cons.prems(7) by (cases ios) auto
  then have io: "snd io = None" using Cons.prems(6) by simp
  have r1: "readable read_chunk plain [info]" "readable read_chunk plain infos" using Cons.prems(1) by (simp_all add: readable_def)
  have off: "d_offset s + length (plain (info_digest info)) < 2 ^ 64" using Cons.prems(5) by simp
  let ?e = "(d_offset s + length (plain (info_digest info)), sha256 L (plain (info_digest info)))"
  obtain s1 where s1: "stream_item (d_encountered s) info = Ok (Some info)" "decrypt_item L (fst io) None read_chunk info s = Some (Ok (), s1)"
    "mapped L plain (d_encountered s1)" "d_offset s1 = d_offset s + length (plain (info_digest info))" "d_index s1 = DynamicW (add_all [?e] w)"
    using decrypt_item_rewrites [OF assms r1(1) Cons.prems(2-4) off] by blast
  have cl: "\<not> closed (add_all [?e] w)" using index_add_dynamic [OF Cons.prems(4) off] by blast
  have "\<exists>s'. decrypt_loop L read_chunk ios' infos s1 = Some (Ok (), s') \<and> mapped L plain (d_encountered s') \<and>
      d_index s' = DynamicW (add_all (rewritten L plain (d_offset s1) infos) (add_all [?e] w))"
    by (rule Cons.IH [OF r1(2) s1(3,5) cl]) (use Cons.prems(5-7) s1(4) ios in auto)
  then show ?case using s1(1,2,4) io by (auto simp: ios)
qed simp

section \<open>Properties\<close>

text \<open>C21. A pull transfers every chunk: in every interleaving of the tasks and of the pool, if the transfer of the
  chunks of an index ends without an error, then every chunk of the index is in the store, and so is every chunk
  that is remembered as touched; chunks that were not in the store before passed verification.\<close>

theorem pull_chunks_complete:
  assumes "\<forall>d. touched d es \<longrightarrow> d \<in> dom st" "pull_runs slots L (pull_start es st infos) s" "pull_done s"
  shows "info_digest ` set infos \<subseteq> dom (p_store s) \<and> (\<forall>d. touched d (p_encountered s) \<longrightarrow> d \<in> dom (p_store s)) \<and>
    (\<forall>d b. p_store s d = Some b \<longrightarrow> st d = Some b \<or> (\<exists>sz. verify_unencrypted L sz d b = Some (Ok ())))"
  using pull_complete [OF assms] by (simp add: store_verified_def)

text \<open>C34. A transfer without faults succeeds: if the sizes of the chunks are consistent and the source delivers for every
  chunk of the index a blob that passes verification, then whatever the interleaving of the tasks and of the
  pool, with any number of places in the pool but none, no sequence of steps without a fault is infinite, and as long
  as the transfer is not done such a step is possible: no order of waiting leads into a deadlock.\<close>

theorem sound_transfer_succeeds:
  assumes "0 < slots" "\<forall>info \<in> set infos. info_size info = csize (info_digest info) \<and>
      verify_unencrypted L (csize (info_digest info)) (info_digest info) (source (info_digest info)) = Some (Ok ())"
    "\<forall>d i. es d = Some i \<longrightarrow> ec_chunk_size i = csize d" "(sound_step slots L source)\<^sup>*\<^sup>* (pull_start es st infos) s"
  shows "wfP (\<lambda>s' s. sound_step slots L source s s') \<and> (pull_done s \<or> (\<exists>s'. sound_step slots L source s s'))"
proof -
  have "sound L csize source (pull_start es st infos)" using assms(2,3) by (auto simp: sound_def pull_start_def)
  with assms(4) have "sound L csize source s" by (induction rule: rtranclp_induct) (auto intro: sound_step_keeps)
  then show ?thesis using sound_progress [OF assms(1)] sound_step_wf by blast
qed

text \<open>Decrypting an index: if every chunk can be read and no chunk was touched without a decrypted digest being
  known, then the transfer succeeds and the new index has, in order, an entry for every chunk of the old one, with the
  end offset in the decrypted archive and the digest of the decrypted chunk.\<close>

theorem decrypt_rewrites_index:
  assumes "libs_ok L ct tg" "readable read_chunk plain infos" "mapped L plain (d_encountered s)" "d_index s = DynamicW w" "\<not> closed w"
    "d_offset s + sum_list (map (\<lambda>info. length (plain (info_digest info))) infos) < 2 ^ 64" "\<forall>io \<in> set ios. snd io = None"
    "length infos \<le> length ios"
  shows "\<exists>s'. decrypt_loop L read_chunk ios infos s = Some (Ok (), s') \<and> mapped L plain (d_encountered s') \<and>
      d_index s' = DynamicW (add_all (rewritten L plain (d_offset s) infos) w)"
  by (rule decrypt_loop_rewrites [OF assms])

text \<open>C37. A chunk that an earlier snapshot of the group transferred without decryption is left out of the new index: it is
  touched and has no decrypted digest, so the filter of the stream skips it, the transfer succeeds, and neither
  an entry is written nor the offset moved.\<close>

theorem decrypt_skips_touched:
  assumes "\<forall>info \<in> set infos. \<exists>i. d_encountered s (info_digest info) = Some i \<and> ec_touched i \<and> ec_decrypted_digest i = None \<and>
    ec_chunk_size i = info_size info"
  shows "decrypt_loop L read_chunk ios infos s = Some (Ok (), s)"
  using assms
proof (induction infos arbitrary: ios)
  case (Cons info infos)
  then have "stream_item (d_encountered s) info = Ok None" by (auto simp: stream_item_def check_reusable_def)
  then show ?case using Cons by simp
qed simp

section \<open>Witnesses\<close>

text \<open>One chunk of two bytes.\<close>

definition demo_info :: ChunkReadInfo where
  "demo_info = \<lparr>range_start = 0, range_end = 2, info_digest = 11 # replicate 31 0\<rparr>"

definition demo_blob :: DataBlob where
  "demo_blob = \<lparr>raw_data = UNCOMPRESSED_BLOB_MAGIC_1_0 @ [0, 0, 0, 0, 5, 6]\<rparr>"

definition demo_pulled :: pull_state where
  "demo_pulled = \<lparr>p_encountered = [info_digest demo_info \<mapsto> \<lparr>ec_touched = True, ec_chunk_size = 2, ec_decrypted_digest = None\<rparr>],
     p_store = [info_digest demo_info \<mapsto> demo_blob], p_todo = [], p_started = [], p_loading = [], p_channel = [],
     p_failed = False, p_bytes = 14, p_count = 1\<rparr>"

lemma demo_size: "info_size demo_info = 2"
  by (simp add: demo_info_def info_size_def wrapping_sub_def)

lemma demo_blob_verifies: "verify_unencrypted demo_libs 2 (info_digest demo_info) demo_blob = Some (Ok ())"
  by (simp add: verify_unencrypted_def decode_def decode_data_def blob_magic_def magic_defs header_sizes
      verify_digest_def demo_libs_def demo_blob_def demo_info_def)

lemma demo_run: "pull_runs 4 demo_libs (pull_start Map.empty Map.empty [demo_info]) demo_pulled"
proof -
  let ?s0 = "pull_start Map.empty Map.empty [demo_info]"
  let ?s1 = "?s0\<lparr>p_todo := [], p_started := [demo_info]\<rparr>"
  let ?s2 = "?s1\<lparr>p_started := [], p_encountered := p_encountered demo_pulled, p_loading := [demo_info]\<rparr>"
  let ?s3 = "?s2\<lparr>p_loading := [], p_channel := [(demo_blob, info_digest demo_info, 2)], p_bytes := 14, p_count := 1\<rparr>"
  note size = demo_size
  have 1: "pull_step 4 demo_libs ?s0 ?s1"
    using take_item [of ?s0 demo_info "[]" 4 demo_libs] by (simp add: pull_start_def stream_item_def check_reusable_def)
  have d: "decide None Map.empty demo_info Map.empty = (Ok True, p_encountered demo_pulled)"
    by (simp add: decide_def check_reusable_def mark_reusable_def mark_touched_def demo_pulled_def size)
  have 2: "pull_step 4 demo_libs ?s1 ?s2"
    using decide_load [of ?s1 "[]" demo_info "[]" None "p_encountered demo_pulled" 4 demo_libs] d by (simp add: pull_start_def)
  have 3: "pull_step 4 demo_libs ?s2 ?s3"
    using loaded [of ?s2 "[]" demo_info "[]" 4 demo_libs demo_blob] size
    by (simp add: pull_start_def demo_blob_def raw_size_def magic_lengths wrapping_add_def)
  have 4: "pull_step 4 demo_libs ?s3 demo_pulled"
    using stored [of ?s3 "[]" demo_blob "info_digest demo_info" 2 "[]" demo_libs _ demo_blob 4] demo_blob_verifies
    by (simp add: pull_start_def demo_pulled_def)
  show ?thesis by (rule pull_runs_step [OF 1 pull_runs_step [OF 2 pull_runs_step [OF 3 pull_runs_step [OF 4 pull_runs_refl]]]])
qed

theorem pull_chunks_complete_witness:
  "info_digest ` {demo_info} \<subseteq> dom (p_store demo_pulled)"
proof -
  have "pull_done demo_pulled" by (simp add: pull_done_def demo_pulled_def)
  with pull_chunks_complete [of Map.empty Map.empty 4 demo_libs "[demo_info]" demo_pulled] demo_run
  show ?thesis by (simp add: touched_def)
qed

theorem sound_transfer_succeeds_witness:
  "\<exists>s'. sound_step 4 demo_libs (\<lambda>_. demo_blob) (pull_start Map.empty Map.empty [demo_info]) s'"
proof -
  have "\<not> pull_done (pull_start Map.empty Map.empty [demo_info])" by (simp add: pull_done_def pull_start_def)
  then show ?thesis
    using sound_transfer_succeeds [of 4 "[demo_info]" "\<lambda>_. 2" demo_libs "\<lambda>_. demo_blob" Map.empty Map.empty "pull_start Map.empty Map.empty [demo_info]"]
      demo_size demo_blob_verifies by simp
qed

definition demo_writer :: DynamicIndexWriter where
  "demo_writer = \<lparr>closed = False, csum = Some [], wuuid = [], wctime = 0, written = [], published = None\<rparr>"

definition demo_decrypt :: decrypt_state where
  "demo_decrypt = \<lparr>d_encountered = Map.empty, d_offset = 0, d_index = DynamicW demo_writer, d_channel = []\<rparr>"

theorem decrypt_rewrites_index_witness:
  "\<exists>s'. decrypt_loop demo_libs (\<lambda>d. Ok [5, 6]) [(sys_fine, None), (sys_fine, None)] [demo_info, demo_info] demo_decrypt = Some (Ok (), s') \<and>
     d_index s' = DynamicW (add_all [(2, 11 # replicate 31 0), (4, 11 # replicate 31 0)] demo_writer)"
proof -
  let ?infos = "[demo_info, demo_info]" and ?ios = "[(sys_fine, None), (sys_fine, None)] :: (sys \<times> (err \<times> nat) option) list"
  have r: "readable (\<lambda>d. Ok [5, 6]) (\<lambda>d. [5, 6]) ?infos" by (simp add: readable_def demo_size MAX_BLOB_SIZE_def)
  have m: "mapped demo_libs (\<lambda>d. [5, 6]) (d_encountered demo_decrypt)" by (simp add: mapped_def demo_decrypt_def)
  have w: "d_index demo_decrypt = DynamicW demo_writer" "d_offset demo_decrypt = 0" "\<not> closed demo_writer"
    by (simp_all add: demo_decrypt_def demo_writer_def)
  have e: "rewritten demo_libs (\<lambda>d. [5, 6]) 0 ?infos = [(2, 11 # replicate 31 0), (4, 11 # replicate 31 0)]" by (simp add: demo_libs_def)
  have "\<exists>s'. decrypt_loop demo_libs (\<lambda>d. Ok [5, 6]) ?ios ?infos demo_decrypt = Some (Ok (), s') \<and>
      mapped demo_libs (\<lambda>d. [5, 6]) (d_encountered s') \<and>
      d_index s' = DynamicW (add_all (rewritten demo_libs (\<lambda>d. [5, 6]) (d_offset demo_decrypt) ?infos) demo_writer)"
    by (rule decrypt_rewrites_index [OF demo_libs_ok r m w(1,3)]) (simp_all add: w(2))
  then show ?thesis unfolding w(2) e by blast
qed

theorem decrypt_skips_touched_witness:
  "decrypt_loop demo_libs (\<lambda>d. Ok [5, 6]) [] [demo_info, demo_info] (demo_decrypt\<lparr>d_encountered := p_encountered demo_pulled\<rparr>) =
     Some (Ok (), demo_decrypt\<lparr>d_encountered := p_encountered demo_pulled\<rparr>)"
  by (rule decrypt_skips_touched) (simp add: demo_pulled_def demo_size)

end
