(* ===== verification/StateErr.thy ===== *)
theory StateErr
  imports Prelude
begin

text \<open>
  Operations that change a state and may fail, as functions from the state to a result and the new state, which is
  there also when the operation fails; and triples of a precondition, a postcondition and an error
  postcondition for them.
\<close>

type_synonym ('e, 's, 'a) st = "'s \<Rightarrow> ('e, 'a) result \<times> 's"

definition ret :: "'a \<Rightarrow> ('e, 's, 'a) st" where
  "ret x = (\<lambda>s. (Ok x, s))"

definition throw :: "'e \<Rightarrow> ('e, 's, 'a) st" where
  "throw e = (\<lambda>s. (Err e, s))"

definition bnd :: "('e, 's, 'a) st \<Rightarrow> ('a \<Rightarrow> ('e, 's, 'b) st) \<Rightarrow> ('e, 's, 'b) st" where
  "bnd m f = (\<lambda>s. case m s of (r, s') \<Rightarrow> (case r of Inl e \<Rightarrow> (Err e, s') | Inr x \<Rightarrow> f x s'))"

definition gets :: "('s \<Rightarrow> 'a) \<Rightarrow> ('e, 's, 'a) st" where
  "gets f = (\<lambda>s. (Ok (f s), s))"

definition modify :: "('s \<Rightarrow> 's) \<Rightarrow> ('e, 's, unit) st" where
  "modify f = (\<lambda>s. (Ok (), f s))"

text \<open>\<^verbatim>\<open>bail!\<close> under a condition, \<^verbatim>\<open>map_err\<close>, the result as a value, and a step that runs at the end in any case.\<close>

definition ensure :: "bool \<Rightarrow> 'e \<Rightarrow> ('e, 's, unit) st" where
  "ensure b e = (if b then ret () else throw e)"

definition map_error :: "('e \<Rightarrow> 'f) \<Rightarrow> ('e, 's, 'a) st \<Rightarrow> ('f, 's, 'a) st" where
  "map_error g m = (\<lambda>s. case m s of (r, s') \<Rightarrow> (case r of Inl e \<Rightarrow> (Err (g e), s') | Inr x \<Rightarrow> (Ok x, s')))"

definition attempt :: "('e, 's, 'a) st \<Rightarrow> ('f, 's, ('e, 'a) result) st" where
  "attempt m = (\<lambda>s. case m s of (r, s') \<Rightarrow> (Ok r, s'))"

definition lastly :: "('e, 's, 'a) st \<Rightarrow> ('s \<Rightarrow> 's) \<Rightarrow> ('e, 's, 'a) st" where
  "lastly m f = (\<lambda>s. case m s of (r, s') \<Rightarrow> (r, f s'))"

definition on_error :: "('e, 's, 'a) st \<Rightarrow> ('s \<Rightarrow> 's) \<Rightarrow> ('e, 's, 'a) st" where
  "on_error m f = (\<lambda>s. case m s of (r, s') \<Rightarrow> (r, case r of Inl e \<Rightarrow> f s' | Inr x \<Rightarrow> s'))"

definition of_result :: "('e, 'a) result \<Rightarrow> ('e, 's, 'a) st" where
  "of_result r = (\<lambda>s. (r, s))"

fun for_each :: "('x \<Rightarrow> ('e, 's, unit) st) \<Rightarrow> 'x list \<Rightarrow> ('e, 's, unit) st" where
  "for_each f [] = ret ()"
| "for_each f (x # xs) = bnd (f x) (\<lambda>_. for_each f xs)"

lemmas st_defs = ret_def throw_def bnd_def gets_def modify_def ensure_def map_error_def attempt_def lastly_def on_error_def of_result_def

section \<open>Triples\<close>

definition triple :: "('s \<Rightarrow> bool) \<Rightarrow> ('e, 's, 'a) st \<Rightarrow> ('a \<Rightarrow> 's \<Rightarrow> bool) \<Rightarrow> ('e \<Rightarrow> 's \<Rightarrow> bool) \<Rightarrow> bool" where
  "triple P m Q E \<longleftrightarrow> (\<forall>s r s'. P s \<longrightarrow> m s = (r, s') \<longrightarrow> (case r of Inl e \<Rightarrow> E e s' | Inr x \<Rightarrow> Q x s'))"

named_theorems triples

lemma tripleI:
  assumes "\<And>s x s'. P s \<Longrightarrow> m s = (Ok x, s') \<Longrightarrow> Q x s'" "\<And>s e s'. P s \<Longrightarrow> m s = (Err e, s') \<Longrightarrow> E e s'"
  shows "triple P m Q E"
  unfolding triple_def using assms by (simp split: sum.split)

lemma tripleD:
  assumes "triple P m Q E" "P s"
  shows "m s = (Ok x, s') \<Longrightarrow> Q x s'" "m s = (Err e, s') \<Longrightarrow> E e s'"
  using assms unfolding triple_def by (fastforce split: sum.splits)+

lemma triple_ret [triples]: "triple (Q x) (ret x) Q E"
  by (simp add: triple_def ret_def)

lemma triple_throw [triples]: "triple (E e) (throw e) Q E"
  by (simp add: triple_def throw_def)

lemma triple_bnd: "triple P m R E \<Longrightarrow> (\<And>x. triple (R x) (f x) Q E) \<Longrightarrow> triple P (bnd m f) Q E"
  unfolding triple_def bnd_def by (fastforce split: sum.splits prod.splits)

lemma triple_gets: "triple P (gets f) (\<lambda>x s. P s \<and> x = f s) E"
  by (simp add: triple_def gets_def)

lemma triple_modify: "(\<And>s. P s \<Longrightarrow> Q () (f s)) \<Longrightarrow> triple P (modify f) Q E"
  by (simp add: triple_def modify_def)

lemma triple_map_error: "triple P m Q (\<lambda>e. E (g e)) \<Longrightarrow> triple P (map_error g m) Q E"
  unfolding triple_def map_error_def by (fastforce split: sum.splits prod.splits)

lemma triple_result: "triple P m (\<lambda>x. Q (Inr x)) (\<lambda>e. Q (Inl e)) \<Longrightarrow> P s \<Longrightarrow> m s = (r, s') \<Longrightarrow> Q r s'"
  by (cases r) (auto dest: tripleD)

lemma triple_attempt: "triple P m (\<lambda>x. Q (Inr x)) (\<lambda>e. Q (Inl e)) \<Longrightarrow> triple P (attempt m) Q E"
  by (rule tripleI) (auto simp: attempt_def split: prod.splits dest: triple_result)

lemma triple_lastly: "triple P m (\<lambda>x s. Q x (f s)) (\<lambda>e s. E e (f s)) \<Longrightarrow> triple P (lastly m f) Q E"
  unfolding triple_def lastly_def by (fastforce split: sum.splits prod.splits)

lemma triple_on_error: "triple P m Q (\<lambda>e s. E e (f s)) \<Longrightarrow> triple P (on_error m f) Q E"
  unfolding triple_def on_error_def by (fastforce split: sum.splits prod.splits)

lemma triple_weaken:
  "triple P m Q E \<Longrightarrow> (\<And>s. P' s \<Longrightarrow> P s) \<Longrightarrow> (\<And>x s. Q x s \<Longrightarrow> Q' x s) \<Longrightarrow> (\<And>e s. E e s \<Longrightarrow> E' e s) \<Longrightarrow> triple P' m Q' E'"
  unfolding triple_def by (fastforce split: sum.splits)

lemma triple_conj: "triple P m Q E \<Longrightarrow> triple P' m Q' E' \<Longrightarrow> triple (\<lambda>s. P s \<and> P' s) m (\<lambda>x s. Q x s \<and> Q' x s) (\<lambda>e s. E e s \<and> E' e s)"
  unfolding triple_def by (fastforce split: sum.splits)

section \<open>Preserved predicates\<close>

definition preserves :: "('s \<Rightarrow> bool) \<Rightarrow> ('e, 's, 'a) st \<Rightarrow> bool" where
  "preserves I m \<longleftrightarrow> triple I m (\<lambda>_. I) (\<lambda>_. I)"

named_theorems preserves_intros

lemma preservesD: "preserves I m \<Longrightarrow> I s \<Longrightarrow> m s = (r, s') \<Longrightarrow> I s'"
  unfolding preserves_def triple_def by (cases r) fastforce+

lemma preservesI: "(\<And>s r s'. I s \<Longrightarrow> m s = (r, s') \<Longrightarrow> I s') \<Longrightarrow> preserves I m"
  unfolding preserves_def triple_def by (fastforce split: sum.splits)

lemma preserves_ret [preserves_intros]: "preserves I (ret x)"
  by (simp add: preserves_def triple_def ret_def)

lemma preserves_throw [preserves_intros]: "preserves I (throw e)"
  by (simp add: preserves_def triple_def throw_def)

lemma preserves_gets [preserves_intros]: "preserves I (gets f)"
  by (simp add: preserves_def triple_def gets_def)

lemma preserves_of_result [preserves_intros]: "preserves I (of_result r)"
  by (rule preservesI) (simp add: of_result_def)

lemma preserves_ensure [preserves_intros]: "preserves I (ensure b e)"
  by (simp add: ensure_def preserves_ret preserves_throw)

lemma preserves_modify: "(\<And>s. I s \<Longrightarrow> I (f s)) \<Longrightarrow> preserves I (modify f)"
  by (simp add: preserves_def triple_def modify_def)

lemma preserves_bnd [preserves_intros]: "preserves I m \<Longrightarrow> (\<And>x. preserves I (f x)) \<Longrightarrow> preserves I (bnd m f)"
  unfolding preserves_def by (rule triple_bnd)

lemma preserves_map_error [preserves_intros]: "preserves I m \<Longrightarrow> preserves I (map_error g m)"
  unfolding preserves_def by (rule triple_map_error)

lemma preserves_attempt [preserves_intros]: "preserves I m \<Longrightarrow> preserves I (attempt m)"
  unfolding preserves_def by (rule triple_attempt)

lemma preserves_lastly [preserves_intros]: "preserves I m \<Longrightarrow> (\<And>s. I s \<Longrightarrow> I (f s)) \<Longrightarrow> preserves I (lastly m f)"
  unfolding preserves_def by (rule triple_lastly) (fastforce elim: triple_weaken)

lemma preserves_on_error [preserves_intros]: "preserves I m \<Longrightarrow> (\<And>s. I s \<Longrightarrow> I (f s)) \<Longrightarrow> preserves I (on_error m f)"
  unfolding preserves_def by (rule triple_on_error) (fastforce elim: triple_weaken)

lemma preserves_for_each [preserves_intros]: "(\<And>x. preserves I (f x)) \<Longrightarrow> preserves I (for_each f xs)"
  by (induction xs) (auto intro: preserves_ret preserves_bnd)

lemma preserves_if [preserves_intros]: "preserves I m \<Longrightarrow> preserves I m' \<Longrightarrow> preserves I (if b then m else m')"
  by simp

lemma preserves_option [preserves_intros]: "preserves I m \<Longrightarrow> (\<And>x. preserves I (f x)) \<Longrightarrow> preserves I (case v of None \<Rightarrow> m | Some x \<Rightarrow> f x)"
  by (cases v) simp_all

lemma preserves_sum [preserves_intros]: "(\<And>e. preserves I (g e)) \<Longrightarrow> (\<And>x. preserves I (f x)) \<Longrightarrow> preserves I (case v of Inl e \<Rightarrow> g e | Inr x \<Rightarrow> f x)"
  by (cases v) simp_all

lemma preserves_prod [preserves_intros]: "(\<And>x y. preserves I (f x y)) \<Longrightarrow> preserves I (case v of (x, y) \<Rightarrow> f x y)"
  by (cases v) simp

lemma triple_for_each:
  assumes "\<And>x ys. triple (I (x # ys)) (f x) (\<lambda>_. I ys) E"
  shows "triple (I xs) (for_each f xs) (\<lambda>_. I []) E"
  using assms
proof (induction xs)
  case Nil
  then show ?case using triple_ret [of "\<lambda>_. I []" "()" E] by simp
next
  case (Cons x xs)
  then show ?case by (auto intro: triple_bnd)
qed

lemma triple_const: "triple (\<lambda>_. b) m (\<lambda>_ _. b) (\<lambda>_ _. b)"
  by (simp add: triple_def split: sum.split)

lemma triple_throwI: "(\<And>s. P s \<Longrightarrow> E e s) \<Longrightarrow> triple P (throw e) Q E"
  by (simp add: triple_def throw_def)

end
