(* ===== verification/SnapStore.thy ===== *)
theory SnapStore
  imports StateErr Manifest Acl
begin

text \<open>
  Groups and snapshots on disk (\<^verbatim>\<open>pbs-datastore/src/backup_info.rs\<close>, \<^verbatim>\<open>hierarchy.rs\<close> and the parts of \<^verbatim>\<open>datastore.rs\<close>
  that create and remove them), for datastores on a file system. A group is a directory with an owner file,
  notes and snapshots; a snapshot is a directory of files. Directories are lists in the order in which the
  system returns their entries, which is arbitrary. Every system call and every lock may fail: the record \<open>fsio\<close>
  says at which steps, and what is left of a directory whose removal failed. A failing \<^verbatim>\<open>stat\<close> is not an error of
  \<^verbatim>\<open>Path::exists\<close>, which then answers that the path does not exist. Namespaces and the types of
  \<^verbatim>\<open>pbs_api_types\<close> are the parameter \<open>api\<close>. Snapshot directories have canonical names, so that a snapshot is its time.
\<close>

section \<open>State\<close>

type_synonym SnapDir = "(string \<times> bytes) list"

text \<open>The owner file: it can be there without a valid owner, when writing it failed.\<close>

datatype 'a owner_file = NoOwner | BadOwner | Owner 'a

record 'a GroupDir =
  gd_owner :: "'a owner_file"
  gd_notes :: "bytes option"
  gd_snaps :: "(int \<times> SnapDir) list"

type_synonym 'n gkey = "'n \<times> BackupType \<times> string"

text \<open>\<open>held\<close>: the group locks that the task itself holds; \<open>moved\<close>: the entries of the move journal.\<close>

record ('n, 'a) dstore =
  tick :: nat
  held :: "'n gkey list"
  namespaces :: "'n list"
  grps :: "('n gkey \<times> 'a GroupDir) list"
  moved :: "('n gkey \<times> int \<times> string) list"

record fsio =
  fault :: "nat \<Rightarrow> err option"
  remains :: "nat \<Rightarrow> string \<Rightarrow> bool"
  stat_fails :: "nat \<Rightarrow> bool"
  old_locking :: bool

record BackupGroupDeleteStats =
  protected_snapshots :: nat
  removed_snapshots :: nat
  removed_groups :: nat

record 'n pbs_api =
  ns_is_root :: "'n \<Rightarrow> bool"
  ns_depth :: "'n \<Rightarrow> nat"
  ns_parent :: "'n \<Rightarrow> 'n"
  ns_ancestors :: "'n \<Rightarrow> 'n list"
  ns_last :: "'n \<Rightarrow> string option"
  ns_contains :: "'n \<Rightarrow> 'n \<Rightarrow> bool"
  map_prefix :: "'n \<Rightarrow> 'n \<Rightarrow> 'n \<Rightarrow> (err, 'n) result"
  from_parent_ns :: "'n \<Rightarrow> string \<Rightarrow> (err, 'n) result"
  max_ns_depth :: nat
  all_removed :: "BackupGroupDeleteStats \<Rightarrow> bool"
  stats_add :: "BackupGroupDeleteStats \<Rightarrow> BackupGroupDeleteStats \<Rightarrow> BackupGroupDeleteStats"
  is_index_name :: "string \<Rightarrow> bool"

type_synonym ('n, 'a, 'r) op = "(err, ('n, 'a) dstore, 'r) st"

definition syscall :: "fsio \<Rightarrow> ('n, 'a, unit) op" where
  "syscall io = (\<lambda>s. (case fault io (tick s) of None \<Rightarrow> Ok () | Some e \<Rightarrow> Err e, s\<lparr>tick := Suc (tick s)\<rparr>))"

text \<open>\<^verbatim>\<open>Path::exists\<close>: a failing \<^verbatim>\<open>stat\<close> counts as a path that does not exist.\<close>

definition path_exists :: "fsio \<Rightarrow> (('n, 'a) dstore \<Rightarrow> bool) \<Rightarrow> ('e, ('n, 'a) dstore, bool) st" where
  "path_exists io there = (\<lambda>s. (Ok (\<not> stat_fails io (tick s) \<and> there s), s\<lparr>tick := Suc (tick s)\<rparr>))"

definition gdir :: "'n gkey \<Rightarrow> ('n, 'a) dstore \<Rightarrow> 'a GroupDir option" where
  "gdir k s = map_of (grps s) k"

definition group_exists :: "fsio \<Rightarrow> 'n gkey \<Rightarrow> ('e, ('n, 'a) dstore, bool) st" where
  "group_exists io k = path_exists io (\<lambda>s. gdir k s \<noteq> None)"

definition snaps_of :: "'n gkey \<Rightarrow> ('n, 'a) dstore \<Rightarrow> (int \<times> SnapDir) list" where
  "snaps_of k s = (case gdir k s of None \<Rightarrow> [] | Some g \<Rightarrow> gd_snaps g)"

definition upd_group :: "'n gkey \<Rightarrow> ('a GroupDir \<Rightarrow> 'a GroupDir) \<Rightarrow> ('n, 'a) dstore \<Rightarrow> ('n, 'a) dstore" where
  "upd_group k f s = s\<lparr>grps := AList.map_entry k f (grps s)\<rparr>"

definition set_snap :: "'n gkey \<Rightarrow> int \<Rightarrow> SnapDir \<Rightarrow> ('n, 'a) dstore \<Rightarrow> ('n, 'a) dstore" where
  "set_snap k t d = upd_group k (\<lambda>g. g\<lparr>gd_snaps := AList.update t d (gd_snaps g)\<rparr>)"

definition del_snap :: "'n gkey \<Rightarrow> int \<Rightarrow> ('n, 'a) dstore \<Rightarrow> ('n, 'a) dstore" where
  "del_snap k t = upd_group k (\<lambda>g. g\<lparr>gd_snaps := AList.delete t (gd_snaps g)\<rparr>)"

section \<open>Locks\<close>

text \<open>A task that holds the lock of a group cannot take it again.\<close>

definition group_lock :: "fsio \<Rightarrow> 'n gkey \<Rightarrow> ('n, 'a, unit) op" where
  "group_lock io k =
     bnd (map_error (\<lambda>e. ''unable to acquire backup group lock'') (syscall io)) (\<lambda>_. bnd (gets held) (\<lambda>h.
       if k \<in> set h then throw ''unable to acquire backup group lock'' else modify (\<lambda>s. s\<lparr>held := k # held s\<rparr>)))"

definition unlock :: "'n gkey \<Rightarrow> ('n, 'a) dstore \<Rightarrow> ('n, 'a) dstore" where
  "unlock k s = s\<lparr>held := remove1 k (held s)\<rparr>"

section \<open>Listing\<close>

definition PROTECTED_MARKER_FILENAME :: string where
  "PROTECTED_MARKER_FILENAME = ''.protected''"

definition MANIFEST_NAME :: string where
  "MANIFEST_NAME = ''index.json.blob''"

definition CLIENT_LOG_NAME :: string where
  "CLIENT_LOG_NAME = ''client.log.blob''"

definition ends_with :: "string \<Rightarrow> string \<Rightarrow> bool" where
  "ends_with suffix name \<longleftrightarrow> length suffix \<le> length name \<and> drop (length name - length suffix) name = suffix"

text \<open>\<^verbatim>\<open>BACKUP_FILES_AND_PROTECTED_REGEX\<close> without the marker.\<close>

definition is_backup_file :: "string \<Rightarrow> bool" where
  "is_backup_file name \<longleftrightarrow> CHR 10 \<notin> set name \<and> list_ex (\<lambda>e. ends_with e name) [''.fidx'', ''.didx'', ''.blob'']"

record SnapInfo =
  si_time :: int
  si_files :: "string list"
  si_protected :: bool

definition list_backup_files :: "SnapDir \<Rightarrow> string list \<times> bool" where
  "list_backup_files d =
     (filter is_backup_file (map fst d), PROTECTED_MARKER_FILENAME \<in> set (map fst d))"

fun list_loop :: "fsio \<Rightarrow> (int \<times> SnapDir) list \<Rightarrow> ('n, 'a, SnapInfo list) op" where
  "list_loop io [] = ret []"
| "list_loop io ((t, d) # ds) =
     bnd (syscall io) (\<lambda>_. bnd (list_loop io ds) (\<lambda>infos.
       ret (\<lparr>si_time = t, si_files = fst (list_backup_files d), si_protected = snd (list_backup_files d)\<rparr> # infos)))"

definition list_backups :: "fsio \<Rightarrow> 'n gkey \<Rightarrow> ('n, 'a, SnapInfo list) op" where
  "list_backups io k =
     bnd (syscall io) (\<lambda>_. bnd (gets (gdir k)) (\<lambda>g.
       case g of None \<Rightarrow> throw ''no such directory'' | Some g \<Rightarrow> list_loop io (gd_snaps g)))"

definition si_finished :: "SnapInfo \<Rightarrow> bool" where
  "si_finished info = list_ex (\<lambda>name. name = MANIFEST_NAME) (si_files info)"

text \<open>\<^verbatim>\<open>max_by_key\<close> returns the last of several maxima.\<close>

fun newest :: "SnapInfo option \<Rightarrow> SnapInfo list \<Rightarrow> SnapInfo option" where
  "newest best [] = best"
| "newest best (info # infos) =
     newest (case best of None \<Rightarrow> Some info | Some b \<Rightarrow> if si_time b \<le> si_time info then Some info else Some b) infos"

definition last_backup :: "fsio \<Rightarrow> bool \<Rightarrow> 'n gkey \<Rightarrow> ('n, 'a, SnapInfo option) op" where
  "last_backup io only_finished k =
     bnd (list_backups io k) (\<lambda>infos. ret (newest None (filter (\<lambda>i. \<not> only_finished \<or> si_finished i) infos)))"

fun last_successful_loop :: "fsio \<Rightarrow> int option \<Rightarrow> (int \<times> SnapDir) list \<Rightarrow> ('n, 'a, int option) op" where
  "last_successful_loop io best [] = ret best"
| "last_successful_loop io best ((t, d) # ds) =
     bnd (map_error (\<lambda>e. ''last_successful_backup: unexpected error'') (syscall io)) (\<lambda>_.
       if map_of d MANIFEST_NAME = None then last_successful_loop io best ds
       else last_successful_loop io (case best of None \<Rightarrow> Some t | Some b \<Rightarrow> if t > b then Some t else best) ds)"

definition last_successful_backup :: "fsio \<Rightarrow> 'n gkey \<Rightarrow> ('n, 'a, int option) op" where
  "last_successful_backup io k =
     bnd (group_exists io k) (\<lambda>there. if \<not> there then ret None
       else bnd (syscall io) (\<lambda>_. bnd (gets (snaps_of k)) (last_successful_loop io None)))"

text \<open>The iterator \<^verbatim>\<open>ListSnapshots\<close>: an entry may be an error.\<close>

fun iter_loop :: "fsio \<Rightarrow> int list \<Rightarrow> ('n, 'a, (err, int) result list) op" where
  "iter_loop io [] = ret []"
| "iter_loop io (t # ts) =
     bnd (attempt (syscall io)) (\<lambda>r. bnd (iter_loop io ts) (\<lambda>rs.
       ret ((case r of Inl e \<Rightarrow> Err e | Inr _ \<Rightarrow> Ok t) # rs)))"

definition iter_snapshots :: "fsio \<Rightarrow> 'n gkey \<Rightarrow> ('n, 'a, (err, int) result list) op" where
  "iter_snapshots io k =
     bnd (map_error (\<lambda>e. ''read dir'') (syscall io)) (\<lambda>_. bnd (gets (gdir k)) (\<lambda>g.
       case g of None \<Rightarrow> throw ''read dir'' | Some g \<Rightarrow> iter_loop io (map fst (gd_snaps g))))"

definition has_marker :: "'n gkey \<Rightarrow> int \<Rightarrow> ('n, 'a) dstore \<Rightarrow> bool" where
  "has_marker k t s =
     (case map_of (snaps_of k s) t of None \<Rightarrow> False | Some d \<Rightarrow> map_of d PROTECTED_MARKER_FILENAME \<noteq> None)"

definition is_protected :: "fsio \<Rightarrow> 'n gkey \<Rightarrow> int \<Rightarrow> ('n, 'a, bool) op" where
  "is_protected io k t = path_exists io (has_marker k t)"

section \<open>Removing\<close>

definition remove_dir :: "'n gkey \<Rightarrow> ('n, 'a, unit) op" where
  "remove_dir k =
     bnd (gets (gdir k)) (\<lambda>g.
       case g of None \<Rightarrow> throw ''removing group directory failed''
       | Some g \<Rightarrow>
           (if gd_snaps g \<noteq> [] then throw ''removing group directory failed''
            else modify (\<lambda>s. s\<lparr>grps := AList.delete k (grps s)\<rparr>)))"

definition remove_group_dir :: "fsio \<Rightarrow> 'n gkey \<Rightarrow> ('n, 'a, unit) op" where
  "remove_group_dir io k =
     bnd (map_error (\<lambda>e. ''removing the note file failed'') (syscall io)) (\<lambda>_.
     bnd (modify (upd_group k (\<lambda>g. g\<lparr>gd_notes := None\<rparr>))) (\<lambda>_.
     bnd (map_error (\<lambda>e. ''removing the owner file failed'') (syscall io)) (\<lambda>_.
     bnd (modify (upd_group k (\<lambda>g. g\<lparr>gd_owner := NoOwner\<rparr>))) (\<lambda>_.
     bnd (map_error (\<lambda>e. ''removing group directory failed'') (syscall io)) (\<lambda>_. remove_dir k)))))"

text \<open>A removal that fails leaves some of the files.\<close>

definition remove_dir_all :: "fsio \<Rightarrow> 'n gkey \<Rightarrow> int \<Rightarrow> ('n, 'a, unit) op" where
  "remove_dir_all io k t =
     bnd (gets (\<lambda>s. map_of (snaps_of k s) t)) (\<lambda>d.
       case d of None \<Rightarrow> throw ''removing backup snapshot failed''
       | Some d \<Rightarrow>
           bnd (gets tick) (\<lambda>n. bnd (attempt (syscall io)) (\<lambda>r.
             case r of
               Inl e \<Rightarrow> bnd (modify (set_snap k t (filter (\<lambda>f. remains io n (fst f)) d))) (\<lambda>_. throw ''removing backup snapshot failed'')
             | Inr _ \<Rightarrow> modify (del_snap k t))))"

definition remove_empty_group :: "fsio \<Rightarrow> 'n gkey \<Rightarrow> ('n, 'a, unit) op" where
  "remove_empty_group io k =
     bnd (list_backups io k) (\<lambda>infos. if infos = [] \<and> \<not> old_locking io then remove_group_dir io k else ret ())"

definition remove_unprotected :: "fsio \<Rightarrow> 'n gkey \<Rightarrow> int \<Rightarrow> ('n, 'a, unit) op" where
  "remove_unprotected io k t =
     bnd (is_protected io k t) (\<lambda>p. if p then throw ''cannot remove protected snapshot'' else remove_dir_all io k t)"

definition snap_destroy :: "fsio \<Rightarrow> bool \<Rightarrow> 'n gkey \<Rightarrow> int \<Rightarrow> ('n, 'a, unit) op" where
  "snap_destroy io force k t =
     bnd (if force then ret () else bnd (map_error (\<lambda>e. ''while destroying snapshot'') (syscall io)) (\<lambda>_. syscall io)) (\<lambda>_.
     bnd (remove_unprotected io k t) (\<lambda>_.
       if force then remove_empty_group io k
       else bnd (attempt (group_lock io k)) (\<lambda>r.
         case r of Inl _ \<Rightarrow> ret () | Inr _ \<Rightarrow> lastly (remove_empty_group io k) (unlock k))))"

definition zero_stats :: BackupGroupDeleteStats where
  "zero_stats = \<lparr>protected_snapshots = 0, removed_snapshots = 0, removed_groups = 0\<rparr>"

fun destroy_loop :: "fsio \<Rightarrow> 'n gkey \<Rightarrow> BackupGroupDeleteStats \<Rightarrow> (err, int) result list \<Rightarrow> ('n, 'a, BackupGroupDeleteStats) op" where
  "destroy_loop io k st [] = ret st"
| "destroy_loop io k st (Inl e # items) = throw e"
| "destroy_loop io k st (Inr t # items) =
     bnd (is_protected io k t) (\<lambda>p.
       if p then destroy_loop io k (st\<lparr>protected_snapshots := protected_snapshots st + 1\<rparr>) items
       else bnd (snap_destroy io False k t) (\<lambda>_.
         destroy_loop io k (st\<lparr>removed_snapshots := removed_snapshots st + 1\<rparr>) items))"

text \<open>The caller holds the lock of the group.\<close>

definition group_destroy :: "'n pbs_api \<Rightarrow> fsio \<Rightarrow> 'n gkey \<Rightarrow> ('n, 'a, BackupGroupDeleteStats) op" where
  "group_destroy api io k =
     bnd (iter_snapshots io k) (\<lambda>items. bnd (destroy_loop io k zero_stats items) (\<lambda>st.
       if all_removed api st \<and> \<not> old_locking io
       then bnd (remove_group_dir io k) (\<lambda>_. ret (st\<lparr>removed_groups := removed_groups st + 1\<rparr>))
       else ret st))"

definition remove_backup_group :: "'n pbs_api \<Rightarrow> fsio \<Rightarrow> 'n gkey \<Rightarrow> ('n, 'a, BackupGroupDeleteStats) op" where
  "remove_backup_group api io k =
     bnd (map_error (\<lambda>e. ''while destroying group'') (group_lock io k)) (\<lambda>_. lastly (group_destroy api io k) (unlock k))"

section \<open>Owners\<close>

definition check_backup_owner :: "('a, 'u) api_types \<Rightarrow> 'a \<Rightarrow> 'a \<Rightarrow> (err, unit) result" where
  "check_backup_owner types owner auth_id =
     (if owner = auth_id \<or> is_token types owner \<and> from_user types (auth_user types owner) = auth_id then Ok ()
      else Err ''backup owner check failed'')"

definition get_owner :: "fsio \<Rightarrow> 'n gkey \<Rightarrow> ('n, 'a, 'a) op" where
  "get_owner io k =
     bnd (syscall io) (\<lambda>_. bnd (gets (gdir k)) (\<lambda>g.
       case g of None \<Rightarrow> throw ''no such file''
       | Some g \<Rightarrow> (case gd_owner g of Owner a \<Rightarrow> ret a | NoOwner \<Rightarrow> throw ''no such file'' | BadOwner \<Rightarrow> throw ''parsing owner failed'')))"

definition set_owner :: "fsio \<Rightarrow> bool \<Rightarrow> 'n gkey \<Rightarrow> 'a \<Rightarrow> ('n, 'a, unit) op" where
  "set_owner io force k a =
     bnd (map_error (\<lambda>e. ''unable to create owner file'') (syscall io)) (\<lambda>_. bnd (gets (gdir k)) (\<lambda>g.
       case g of None \<Rightarrow> throw ''unable to create owner file''
       | Some g \<Rightarrow>
           (if \<not> force \<and> gd_owner g \<noteq> NoOwner then throw ''unable to create owner file''
            else bnd (modify (upd_group k (\<lambda>g. g\<lparr>gd_owner := BadOwner\<rparr>))) (\<lambda>_.
              bnd (map_error (\<lambda>e. ''unable to write owner file'') (syscall io)) (\<lambda>_.
                modify (upd_group k (\<lambda>g. g\<lparr>gd_owner := Owner a\<rparr>)))))))"

section \<open>Creating\<close>

datatype BackupGroupOpError = Soft err | Hard err

fun op_error :: "BackupGroupOpError \<Rightarrow> err" where
  "op_error (Soft e) = e"
| "op_error (Hard e) = e"

text \<open>An attempt to remove a directory, which succeeds only on an empty one.\<close>

definition try_rmdir :: "fsio \<Rightarrow> 'n gkey \<Rightarrow> ('e, ('n, 'a) dstore, unit) st" where
  "try_rmdir io k =
     bnd (attempt (syscall io)) (\<lambda>r. case r of Inl _ \<Rightarrow> ret ()
       | Inr _ \<Rightarrow> modify (\<lambda>s. case gdir k s of None \<Rightarrow> s
           | Some g \<Rightarrow> if gd_owner g = NoOwner \<and> gd_notes g = None \<and> gd_snaps g = [] then s\<lparr>grps := AList.delete k (grps s)\<rparr> else s))"

definition empty_group :: "'a GroupDir" where
  "empty_group = \<lparr>gd_owner = NoOwner, gd_notes = None, gd_snaps = []\<rparr>"

definition add_namespaces :: "'n list \<Rightarrow> ('n, 'a) dstore \<Rightarrow> ('n, 'a) dstore" where
  "add_namespaces nss s = s\<lparr>namespaces := namespaces s @ filter (\<lambda>n. n \<notin> set (namespaces s)) nss\<rparr>"

text \<open>\<^verbatim>\<open>create_dir_all\<close> of the parent also creates the namespace. When this returns, the lock of the group is held.\<close>

definition create_group_dir :: "fsio \<Rightarrow> 'n gkey \<Rightarrow> (BackupGroupOpError, ('n, 'a) dstore, bool) st" where
  "create_group_dir io k =
     bnd (gets (gdir k)) (\<lambda>g. case g of Some _ \<Rightarrow> ret False
       | None \<Rightarrow> bnd (map_error (\<lambda>e. Hard ''unable to create backup group'') (syscall io)) (\<lambda>_.
           bnd (modify (\<lambda>s. s\<lparr>grps := (k, empty_group) # grps s\<rparr>)) (\<lambda>_. ret True)))"

definition create_locked_backup_group_do :: "'n pbs_api \<Rightarrow> fsio \<Rightarrow> 'n gkey \<Rightarrow> 'a \<Rightarrow> (BackupGroupOpError, ('n, 'a) dstore, 'a \<times> bool) st" where
  "create_locked_backup_group_do api io k auth_id =
     bnd (map_error Hard (syscall io)) (\<lambda>_. bnd (modify (add_namespaces (ns_ancestors api (fst k) @ [fst k]))) (\<lambda>_.
     bnd (create_group_dir io k) (\<lambda>created.
     bnd (attempt (group_lock io k)) (\<lambda>r. case r of
         Inl e \<Rightarrow> bnd (if created then try_rmdir io k else ret ()) (\<lambda>_. throw (Soft (e @ ''while creating locked backup group'')))
       | Inr _ \<Rightarrow>
           on_error (bnd (if created then bnd (attempt (set_owner io False k auth_id)) (\<lambda>w. case w of
                            Inl e \<Rightarrow> bnd (try_rmdir io k) (\<lambda>_. throw (Hard e)) | Inr _ \<Rightarrow> ret ())
                          else ret ()) (\<lambda>_.
             bnd (map_error Hard (get_owner io k)) (\<lambda>owner. ret (owner, created)))) (unlock k)))))"

definition create_locked_backup_group :: "'n pbs_api \<Rightarrow> fsio \<Rightarrow> 'n gkey \<Rightarrow> 'a \<Rightarrow> ('n, 'a, 'a) op" where
  "create_locked_backup_group api io k auth_id =
     map_error op_error (bnd (create_locked_backup_group_do api io k auth_id) (\<lambda>(owner, _). ret owner))"

definition sat_add_i64 :: "int \<Rightarrow> int \<Rightarrow> int" where
  "sat_add_i64 x y = max (- (2 ^ 63)) (min (2 ^ 63 - 1) (x + y))"

text \<open>Returns whether the directory is new; its lock belongs to the caller.\<close>

definition create_locked_backup_dir :: "fsio \<Rightarrow> int \<Rightarrow> int \<Rightarrow> 'n gkey \<Rightarrow> int \<Rightarrow> ('n, 'a, bool) op" where
  "create_locked_backup_dir io now skew k t =
     bnd (ensure (\<not> t > sat_add_i64 now skew) ''backup timestamp in the future, exceeding time skew'') (\<lambda>_.
     bnd (syscall io) (\<lambda>_. bnd (gets (gdir k)) (\<lambda>g.
       case g of None \<Rightarrow> throw ''no such directory''
       | Some g \<Rightarrow>
           (case map_of (gd_snaps g) t of
              None \<Rightarrow> bnd (modify (set_snap k t [])) (\<lambda>_.
                bnd (map_error (\<lambda>e. ''while creating new locked snapshot'') (syscall io)) (\<lambda>_. ret True))
            | Some _ \<Rightarrow> bnd (map_error (\<lambda>e. ''while creating locked snapshot'') (syscall io)) (\<lambda>_. ret False)))))"

section \<open>Changing snapshots\<close>

definition remove_backup_dir :: "fsio \<Rightarrow> bool \<Rightarrow> 'n gkey \<Rightarrow> int \<Rightarrow> ('n, 'a, unit) op" where
  "remove_backup_dir io force k t = snap_destroy io force k t"

definition delete_snapshot :: "fsio \<Rightarrow> 'n gkey \<Rightarrow> int \<Rightarrow> ('n, 'a, unit) op" where
  "delete_snapshot io k t = snap_destroy io False k t"

definition update_protection :: "fsio \<Rightarrow> 'n gkey \<Rightarrow> int \<Rightarrow> bool \<Rightarrow> ('n, 'a, unit) op" where
  "update_protection io k t protection =
     bnd (gets (\<lambda>s. map_of (snaps_of k s) t)) (\<lambda>d. case d of None \<Rightarrow> throw ''snapshot does not exist''
       | Some d \<Rightarrow>
           bnd (map_error (\<lambda>e. ''while updating the protection status of snapshot'') (syscall io)) (\<lambda>_.
             if protection
             then bnd (map_error (\<lambda>e. ''could not create protection file'') (syscall io)) (\<lambda>_.
               modify (set_snap k t (AList.update PROTECTED_MARKER_FILENAME [] d)))
             else bnd (map_error (\<lambda>e. ''could not remove protection file'') (syscall io)) (\<lambda>_.
               modify (set_snap k t (AList.delete PROTECTED_MARKER_FILENAME d)))))"

text \<open>\<^verbatim>\<open>unlinkat\<close> may fail for single files, which is ignored.\<close>

definition wanted_files :: "BackupManifest \<Rightarrow> string list" where
  "wanted_files m = MANIFEST_NAME # CLIENT_LOG_NAME # map fi_filename (bm_files m)"

definition cleanup_unreferenced_files :: "fsio \<Rightarrow> BackupManifest \<Rightarrow> 'n gkey \<Rightarrow> int \<Rightarrow> ('n, 'a, unit) op" where
  "cleanup_unreferenced_files io m k t =
     bnd (gets tick) (\<lambda>n. bnd (syscall io) (\<lambda>_. bnd (gets (\<lambda>s. map_of (snaps_of k s) t)) (\<lambda>d.
       case d of None \<Rightarrow> throw ''no such directory''
       | Some d \<Rightarrow> modify (set_snap k t (filter (\<lambda>f. fst f \<in> set (wanted_files m) \<or> remains io n (fst f)) d)))))"

section \<open>What operations leave alone\<close>

definition snap :: "'n gkey \<Rightarrow> int \<Rightarrow> ('n, 'a) dstore \<Rightarrow> SnapDir option" where
  "snap k t s = map_of (snaps_of k s) t"

lemma map_of_map_entry: "map_of (AList.map_entry k f al) k' = (if k' = k then map_option f (map_of al k) else map_of al k')"
  by (induction al) auto

lemma gdir_simps [simp]:
  "gdir k' (upd_group k f s) = (if k' = k then map_option f (gdir k s) else gdir k' s)"
  "gdir k (s\<lparr>tick := n\<rparr>) = gdir k s" "gdir k (s\<lparr>held := h\<rparr>) = gdir k s" "gdir k (s\<lparr>namespaces := nss\<rparr>) = gdir k s"
  "gdir k (s\<lparr>moved := m\<rparr>) = gdir k s"
  "gdir k' (s\<lparr>grps := AList.delete k (grps s)\<rparr>) = (if k' = k then None else gdir k' s)"
  "gdir k' (s\<lparr>grps := (k, g) # grps s\<rparr>) = (if k' = k then Some g else gdir k' s)"
  "gdir k (unlock k' s) = gdir k s" "gdir k (add_namespaces nss s) = gdir k s"
  by (auto simp: gdir_def upd_group_def map_of_map_entry AList.delete_conv unlock_def add_namespaces_def)

lemma snaps_of_simps [simp]:
  "snaps_of k (s\<lparr>tick := n\<rparr>) = snaps_of k s" "snaps_of k (s\<lparr>held := h\<rparr>) = snaps_of k s" "snaps_of k (s\<lparr>namespaces := nss\<rparr>) = snaps_of k s"
  "snaps_of k (s\<lparr>moved := m\<rparr>) = snaps_of k s" "snaps_of k (unlock k' s) = snaps_of k s" "snaps_of k (add_namespaces nss s) = snaps_of k s"
  "snaps_of k (upd_group k' (\<lambda>g. g\<lparr>gd_owner := ow\<rparr>) s) = snaps_of k s"
  "snaps_of k (upd_group k' (\<lambda>g. g\<lparr>gd_notes := nt\<rparr>) s) = snaps_of k s"
  "snaps_of k' (set_snap k t d s) = (if k' = k \<and> gdir k s \<noteq> None then AList.update t d (snaps_of k s) else snaps_of k' s)"
  "snaps_of k' (del_snap k t s) = (if k' = k then AList.delete t (snaps_of k s) else snaps_of k' s)"
  "snaps_of k' (s\<lparr>grps := AList.delete k (grps s)\<rparr>) = (if k' = k then [] else snaps_of k' s)"
  "snaps_of k' (s\<lparr>grps := (k, g) # grps s\<rparr>) = (if k' = k then gd_snaps g else snaps_of k' s)"
  by (auto simp: snaps_of_def set_snap_def del_snap_def split: option.split)

lemma snap_simps [simp]:
  "snap k t (s\<lparr>tick := n\<rparr>) = snap k t s" "snap k t (s\<lparr>held := h\<rparr>) = snap k t s" "snap k t (s\<lparr>namespaces := nss\<rparr>) = snap k t s"
  "snap k t (s\<lparr>moved := m\<rparr>) = snap k t s" "snap k t (unlock k' s) = snap k t s" "snap k t (add_namespaces nss s) = snap k t s"
  "snap k t (upd_group k' (\<lambda>g. g\<lparr>gd_owner := ow\<rparr>) s) = snap k t s" "snap k t (upd_group k' (\<lambda>g. g\<lparr>gd_notes := nt\<rparr>) s) = snap k t s"
  "snap k' t' (set_snap k t d s) = (if k' = k \<and> t' = t \<and> gdir k s \<noteq> None then Some d else snap k' t' s)"
  "snap k' t' (del_snap k t s) = (if k' = k \<and> t' = t then None else snap k' t' s)"
  by (auto simp: snap_def AList.update_conv AList.delete_conv)

lemma snap_gdir: "snap k t s = (case gdir k s of None \<Rightarrow> None | Some g \<Rightarrow> map_of (gd_snaps g) t)"
  by (simp add: snap_def snaps_of_def split: option.split)

lemma has_marker_snap: "has_marker k t s \<longleftrightarrow> (\<exists>d. snap k t s = Some d \<and> map_of d PROTECTED_MARKER_FILENAME \<noteq> None)"
  by (auto simp: has_marker_def snap_def split: option.split)

lemma preserves_syscall [preserves_intros]: "(\<And>s n. I s \<Longrightarrow> I (s\<lparr>tick := n\<rparr>)) \<Longrightarrow> preserves I (syscall io)"
  by (rule preservesI) (auto simp: syscall_def)

lemma preserves_group_exists [preserves_intros]: "(\<And>s n. I s \<Longrightarrow> I (s\<lparr>tick := n\<rparr>)) \<Longrightarrow> preserves I (group_exists io k)"
  by (rule preservesI) (auto simp: group_exists_def path_exists_def)

lemma preserves_path_exists [preserves_intros]: "(\<And>s n. I s \<Longrightarrow> I (s\<lparr>tick := n\<rparr>)) \<Longrightarrow> preserves I (path_exists io p)"
  by (rule preservesI) (auto simp: path_exists_def)

lemma preserves_is_protected [preserves_intros]: "(\<And>s n. I s \<Longrightarrow> I (s\<lparr>tick := n\<rparr>)) \<Longrightarrow> preserves I (is_protected io k t)"
  unfolding is_protected_def by (intro preserves_intros)

lemma preserves_group_lock [preserves_intros]:
  "(\<And>s n. I s \<Longrightarrow> I (s\<lparr>tick := n\<rparr>)) \<Longrightarrow> (\<And>s h. I s \<Longrightarrow> I (s\<lparr>held := h\<rparr>)) \<Longrightarrow> preserves I (group_lock io k)"
  unfolding group_lock_def by (intro preserves_intros preserves_modify) auto

lemma preserves_list_loop [preserves_intros]: "(\<And>s n. I s \<Longrightarrow> I (s\<lparr>tick := n\<rparr>)) \<Longrightarrow> preserves I (list_loop io ds)"
  by (induction ds) (auto intro!: preserves_intros)

lemma preserves_list_backups [preserves_intros]: "(\<And>s n. I s \<Longrightarrow> I (s\<lparr>tick := n\<rparr>)) \<Longrightarrow> preserves I (list_backups io k)"
  unfolding list_backups_def by (intro preserves_intros) auto

lemma preserves_iter_loop [preserves_intros]: "(\<And>s n. I s \<Longrightarrow> I (s\<lparr>tick := n\<rparr>)) \<Longrightarrow> preserves I (iter_loop io ts)"
  by (induction ts) (auto intro!: preserves_intros)

lemma preserves_iter_snapshots [preserves_intros]: "(\<And>s n. I s \<Longrightarrow> I (s\<lparr>tick := n\<rparr>)) \<Longrightarrow> preserves I (iter_snapshots io k)"
  unfolding iter_snapshots_def by (intro preserves_intros) auto

lemma preserves_get_owner [preserves_intros]: "(\<And>s n. I s \<Longrightarrow> I (s\<lparr>tick := n\<rparr>)) \<Longrightarrow> preserves I (get_owner io k)"
  unfolding get_owner_def by (intro preserves_intros) (auto intro!: preserves_intros split: owner_file.split)

text \<open>A snapshot with its marker is left alone by every removal.\<close>

definition protected_snap :: "'n gkey \<Rightarrow> int \<Rightarrow> SnapDir \<Rightarrow> ('n, 'a) dstore \<Rightarrow> bool" where
  "protected_snap k t d s \<longleftrightarrow> snap k t s = Some d \<and> map_of d PROTECTED_MARKER_FILENAME \<noteq> None"

lemma protected_snap_simps [simp]:
  "protected_snap k t d (s\<lparr>tick := n\<rparr>) = protected_snap k t d s" "protected_snap k t d (s\<lparr>held := h\<rparr>) = protected_snap k t d s"
  "protected_snap k t d (s\<lparr>namespaces := nss\<rparr>) = protected_snap k t d s" "protected_snap k t d (unlock k' s) = protected_snap k t d s"
  "protected_snap k t d (upd_group k' (\<lambda>g. g\<lparr>gd_owner := ow\<rparr>) s) = protected_snap k t d s"
  "protected_snap k t d (upd_group k' (\<lambda>g. g\<lparr>gd_notes := nt\<rparr>) s) = protected_snap k t d s"
  by (simp_all add: protected_snap_def)

lemma preserves_bnd_gets:
  "(\<And>s. I s \<Longrightarrow> P (g s)) \<Longrightarrow> (\<And>x. P x \<Longrightarrow> preserves I (f x)) \<Longrightarrow> preserves I (bnd (gets g) f)"
  by (rule preservesI) (auto simp: bnd_def gets_def dest: preservesD)

lemma remove_dir_protected [preserves_intros]: "preserves (protected_snap k t d) (remove_dir k')"
  unfolding remove_dir_def
  by (rule preserves_bnd_gets [where P = "\<lambda>g. k' = k \<longrightarrow> (\<exists>g'. g = Some g' \<and> gd_snaps g' \<noteq> [])"])
    (auto intro!: preserves_intros preserves_modify simp: protected_snap_def snap_gdir split: option.splits)

lemma remove_group_dir_protected [preserves_intros]: "preserves (protected_snap k t d) (remove_group_dir io k')"
  unfolding remove_group_dir_def by (intro preserves_intros preserves_modify) auto

lemma remove_dir_all_protected: "(k', t') \<noteq> (k, t) \<Longrightarrow> preserves (protected_snap k t d) (remove_dir_all io k' t')"
  unfolding remove_dir_all_def by (intro preserves_intros preserves_modify) (auto simp: protected_snap_def)

lemma remove_empty_group_protected [preserves_intros]: "preserves (protected_snap k t d) (remove_empty_group io k')"
  unfolding remove_empty_group_def by (intro preserves_intros) auto

text \<open>The checks of the marker rely on \<^verbatim>\<open>stat\<close>.\<close>

definition stats_work :: "fsio \<Rightarrow> bool" where
  "stats_work io \<longleftrightarrow> (\<forall>n. \<not> stat_fails io n)"

lemma remove_unprotected_protected [preserves_intros]: "stats_work io \<Longrightarrow> preserves (protected_snap k t d) (remove_unprotected io k' t')"
proof -
  assume io: "stats_work io"
  have "triple (protected_snap k t d) (is_protected io k' t') (\<lambda>p s. protected_snap k t d s \<and> ((k', t') = (k, t) \<longrightarrow> p)) (\<lambda>_. protected_snap k t d)"
    using io by (intro tripleI) (auto simp: is_protected_def path_exists_def stats_work_def has_marker_snap protected_snap_def)
  then show ?thesis unfolding remove_unprotected_def preserves_def
  proof (rule triple_bnd, goal_cases)
    case (1 p)
    have "preserves (protected_snap k t d) (if p then throw ''cannot remove protected snapshot'' else remove_dir_all io k' t')" if "(k', t') = (k, t) \<longrightarrow> p"
      using that by (auto intro!: preserves_throw remove_dir_all_protected)
    then show ?case by (cases "(k', t') = (k, t) \<longrightarrow> p") (auto simp: preserves_def triple_def)
  qed
qed

lemma snap_destroy_protected [preserves_intros]: "stats_work io \<Longrightarrow> preserves (protected_snap k t d) (snap_destroy io force k' t')"
  unfolding snap_destroy_def by (intro preserves_intros) auto

lemma destroy_loop_protected [preserves_intros]: "stats_work io \<Longrightarrow> preserves (protected_snap k t d) (destroy_loop io k' st items)"
proof (induction items arbitrary: st)
  case (Cons item items)
  then show ?case by (cases item) (auto intro!: preserves_intros)
qed (simp add: preserves_ret)

lemma group_destroy_protected [preserves_intros]: "stats_work io \<Longrightarrow> preserves (protected_snap k t d) (group_destroy api io k')"
  unfolding group_destroy_def by (intro preserves_intros) auto

lemma remove_backup_group_protected [preserves_intros]: "stats_work io \<Longrightarrow> preserves (protected_snap k t d) (remove_backup_group api io k')"
  unfolding remove_backup_group_def by (intro preserves_intros) auto

end
