(* ===== verification/MoveGroup.thy ===== *)
theory MoveGroup
  imports SnapStore
begin

text \<open>
  Moving groups and namespaces within a datastore (\<^verbatim>\<open>move_group\<close>, \<^verbatim>\<open>lock_and_move_group\<close>, \<^verbatim>\<open>move_namespace\<close> and the creation and
  removal of namespaces in \<^verbatim>\<open>datastore.rs\<close>; \<^verbatim>\<open>check_merge_invariants\<close>, \<^verbatim>\<open>move_notes_to\<close> and \<^verbatim>\<open>move_to\<close> in \<^verbatim>\<open>backup_info.rs\<close>), with failures at
  every step. No file of a snapshot gets lost, whatever fails; a failed move leaves the older snapshots at the
  target and the newer ones at the source.
\<close>

section \<open>Moving a snapshot\<close>

text \<open>\<^verbatim>\<open>rename\<close> of a directory replaces an empty directory and fails on one that is not empty.\<close>

definition rename_snap :: "'n gkey \<Rightarrow> 'n gkey \<Rightarrow> int \<Rightarrow> ('n, 'a, unit) op" where
  "rename_snap k k' t =
     bnd (gets (\<lambda>s. (snap k t s, gdir k' s, snap k' t s))) (\<lambda>(d, g, d').
       case d of None \<Rightarrow> throw ''failed to move snapshot''
       | Some d \<Rightarrow>
           (if g = None \<or> (d' \<noteq> None \<and> d' \<noteq> Some []) then throw ''failed to move snapshot''
            else modify (\<lambda>s. set_snap k' t d (del_snap k t s))))"

definition move_to :: "'n pbs_api \<Rightarrow> fsio \<Rightarrow> 'n gkey \<Rightarrow> 'n gkey \<Rightarrow> int \<Rightarrow> ('n, 'a, unit) op" where
  "move_to api io k k' t =
     bnd (map_error (\<lambda>e. ''failed to list source snapshot dir'') (syscall io)) (\<lambda>_.
     bnd (gets (snap k t)) (\<lambda>d.
       case d of None \<Rightarrow> throw ''failed to list source snapshot dir''
       | Some d \<Rightarrow>
           bnd (syscall io) (\<lambda>_.
           bnd (modify (\<lambda>s. s\<lparr>moved := moved s @ map (\<lambda>n. (k', t, n)) (filter (is_index_name api) (map fst d))\<rparr>)) (\<lambda>_.
           bnd (map_error (\<lambda>e. ''failed to move snapshot'') (syscall io)) (\<lambda>_.
             rename_snap k k' t)))))"

section \<open>Moving a group\<close>

definition namespace_exists :: "fsio \<Rightarrow> 'n \<Rightarrow> ('e, ('n, 'a) dstore, bool) st" where
  "namespace_exists io ns = path_exists io (\<lambda>s. ns \<in> set (namespaces s))"

definition move_notes_to :: "fsio \<Rightarrow> 'n gkey \<Rightarrow> 'n gkey \<Rightarrow> ('n, 'a, unit) op" where
  "move_notes_to io k k' =
     bnd (map_error (\<lambda>e. ''reading source group notes failed'') (syscall io)) (\<lambda>_.
     bnd (gets (\<lambda>s. case gdir k s of None \<Rightarrow> None | Some g \<Rightarrow> gd_notes g)) (\<lambda>src.
       case src of None \<Rightarrow> ret ()
       | Some notes \<Rightarrow>
           bnd (map_error (\<lambda>e. ''reading target group notes failed'') (syscall io)) (\<lambda>_.
           bnd (gets (\<lambda>s. case gdir k' s of None \<Rightarrow> None | Some g \<Rightarrow> gd_notes g)) (\<lambda>dst.
             case dst of Some _ \<Rightarrow> ret ()
             | None \<Rightarrow>
                 bnd (map_error (\<lambda>e. ''failed to move group notes'') (syscall io)) (\<lambda>_.
                   modify (\<lambda>s. upd_group k' (\<lambda>g. g\<lparr>gd_notes := Some notes\<rparr>) (upd_group k (\<lambda>g. g\<lparr>gd_notes := None\<rparr>) s)))))))"

text \<open>Entries that cannot be read are skipped.\<close>

fun oks :: "(err, 'x) result list \<Rightarrow> 'x list" where
  "oks [] = []"
| "oks (Inl e # rs) = oks rs"
| "oks (Inr x # rs) = x # oks rs"

definition i64_max :: int where
  "i64_max = 2 ^ 63 - 1"

definition check_merge_invariants :: "fsio \<Rightarrow> 'n gkey \<Rightarrow> 'n gkey \<Rightarrow> ('n, 'a, unit) op" where
  "check_merge_invariants io k k' =
     bnd (get_owner io k) (\<lambda>src_owner. bnd (get_owner io k') (\<lambda>tgt_owner.
       if src_owner \<noteq> tgt_owner then throw ''cannot merge group: owner mismatch''
       else bnd (iter_snapshots io k) (\<lambda>items.
         let src_oldest = fold (\<lambda>curr oldest. if curr < oldest then curr else oldest) (oks items) i64_max in
         if src_oldest \<noteq> i64_max
         then bnd (iter_snapshots io k') (\<lambda>items'.
           ensure (\<not> list_ex (\<lambda>t. t \<ge> src_oldest) (oks items')) ''cannot merge group: snapshot time mismatch'')
         else ret ())))"

definition check_move_group :: "fsio \<Rightarrow> 'n gkey \<Rightarrow> 'n \<Rightarrow> bool \<Rightarrow> ('n, 'a, unit) op" where
  "check_move_group io k target_ns merge_group =
     bnd (ensure (fst k \<noteq> target_ns) ''source and target namespace must be different'') (\<lambda>_.
     bnd (namespace_exists io target_ns) (\<lambda>ns_there.
     bnd (ensure ns_there ''target namespace does not exist'') (\<lambda>_.
     bnd (group_exists io k) (\<lambda>src_there.
     bnd (ensure src_there ''group does not exist in namespace'') (\<lambda>_.
     bnd (group_exists io (target_ns, snd k)) (\<lambda>tgt_there.
       ensure (\<not> (tgt_there \<and> \<not> merge_group)) ''group already exists in target namespace and merge-group is disabled''))))))"

fun collect_items :: "(err, 'x) result list \<Rightarrow> (err, 'x list) result" where
  "collect_items [] = Ok []"
| "collect_items (Inl e # rs) = Err e"
| "collect_items (Inr x # rs) = and_then (collect_items rs) (\<lambda>xs. Ok (x # xs))"

definition MAX_SNAPSHOT_LOCKS :: nat where
  "MAX_SNAPSHOT_LOCKS = 512"

function batches :: "nat \<Rightarrow> 'x list \<Rightarrow> 'x list list" where
  "batches n xs = (if xs = [] \<or> n = 0 then [] else take n xs # batches n (drop n xs))"
  by pat_completeness auto
termination
  by (relation "measure (\<lambda>(n, xs). length xs)") auto

declare batches.simps [simp del]

text \<open>All snapshots of a batch are locked before the first one is moved.\<close>

definition SNAPSHOT_LOCK_ERROR :: err where
  "SNAPSHOT_LOCK_ERROR = ''unable to acquire snapshot lock''"

definition move_batch :: "'n pbs_api \<Rightarrow> fsio \<Rightarrow> 'n gkey \<Rightarrow> 'n gkey \<Rightarrow> int list \<Rightarrow> (BackupGroupOpError, ('n, 'a) dstore, unit) st" where
  "move_batch api io k k' ts =
     bnd (for_each (\<lambda>t. map_error (\<lambda>e. Soft SNAPSHOT_LOCK_ERROR) (syscall io)) ts) (\<lambda>_. for_each (\<lambda>t. map_error Hard (move_to api io k k' t)) ts)"

definition move_snapshots :: "'n pbs_api \<Rightarrow> fsio \<Rightarrow> 'n gkey \<Rightarrow> 'n gkey \<Rightarrow> (BackupGroupOpError, ('n, 'a) dstore, unit) st" where
  "move_snapshots api io k k' =
     bnd (map_error Hard (iter_snapshots io k)) (\<lambda>items.
     bnd (map_error Hard (of_result (collect_items items))) (\<lambda>snapshots.
       for_each (move_batch api io k k') (batches MAX_SNAPSHOT_LOCKS (sort snapshots))))"

text \<open>With both locks held.\<close>

definition move_locked :: "'n pbs_api \<Rightarrow> fsio \<Rightarrow> bool \<Rightarrow> 'n gkey \<Rightarrow> 'n gkey \<Rightarrow> bool \<Rightarrow> (BackupGroupOpError, ('n, 'a) dstore, unit) st" where
  "move_locked api io merge_groups k k' created =
     (if \<not> created \<and> \<not> merge_groups then throw (Hard ''group already exists in target namespace and merging is disabled'')
      else bnd (if created then ret () else map_error Hard (check_merge_invariants io k k')) (\<lambda>_.
        bnd (move_snapshots api io k k') (\<lambda>_.
        bnd (map_error Hard (move_notes_to io k k')) (\<lambda>_.
        bnd (map_error Hard (group_destroy api io k)) (\<lambda>_. ret ())))))"

definition lock_and_move_group :: "'n pbs_api \<Rightarrow> fsio \<Rightarrow> 'n \<Rightarrow> 'n \<Rightarrow> bool \<Rightarrow> 'n gkey \<Rightarrow> (BackupGroupOpError, ('n, 'a) dstore, unit) st" where
  "lock_and_move_group api io source_ns target_ns merge_groups k =
     (case map_prefix api (fst k) source_ns target_ns of
        Inl e \<Rightarrow> throw (Hard e)
      | Inr target_group_ns \<Rightarrow>
          bnd (map_error Soft (group_lock io k)) (\<lambda>_.
            lastly
              (bnd (map_error Hard (check_move_group io k target_group_ns merge_groups)) (\<lambda>_.
               bnd (map_error Hard (get_owner io k)) (\<lambda>source_owner.
               bnd (create_locked_backup_group_do api io (target_group_ns, snd k) source_owner) (\<lambda>(_, created).
                 lastly (move_locked api io merge_groups k (target_group_ns, snd k) created) (unlock (target_group_ns, snd k))))))
              (unlock k)))"

definition move_group :: "'n pbs_api \<Rightarrow> fsio \<Rightarrow> 'n gkey \<Rightarrow> 'n \<Rightarrow> bool \<Rightarrow> ('n, 'a, unit) op" where
  "move_group api io k target_ns merge_group =
     (if old_locking io then throw ''move operations require new-style file-based locking''
      else map_error op_error (lock_and_move_group api io (fst k) target_ns merge_group k))"

section \<open>Invariants of a move\<close>

definition times :: "'n gkey \<Rightarrow> ('n, 'a) dstore \<Rightarrow> int set" where
  "times k s = set (map fst (snaps_of k s))"

lemma times_snap: "t \<in> times k s \<longleftrightarrow> snap k t s \<noteq> None"
  by (force simp: times_def snap_def map_of_eq_None_iff)

lemma times_simps [simp]:
  "times k (s\<lparr>tick := n\<rparr>) = times k s" "times k (s\<lparr>held := h\<rparr>) = times k s" "times k (s\<lparr>moved := mv\<rparr>) = times k s"
  "times k (s\<lparr>namespaces := nss\<rparr>) = times k s"
  by (simp_all add: times_def)

lemma times_empty: "times k s = {} \<longleftrightarrow> snaps_of k s = []"
  by (auto simp: times_def)

text \<open>
  What a predicate of the state must allow to be an invariant of a move from \<open>k\<close> to \<open>k'\<close>: moving the oldest
  snapshot that is left, creating the target, and removing a group without snapshots.
\<close>

locale move_invariant =
  fixes J :: "('n, 'a) dstore \<Rightarrow> bool" and k k' :: "'n gkey"
  assumes meta: "J s \<Longrightarrow> grps s' = grps s \<Longrightarrow> J s'"
    and owner: "J s \<Longrightarrow> kk \<in> {k, k'} \<Longrightarrow> J (upd_group kk (\<lambda>g. g\<lparr>gd_owner := ow\<rparr>) s)"
    and set_notes: "J s \<Longrightarrow> kk \<in> {k, k'} \<Longrightarrow> J (upd_group kk (\<lambda>g. g\<lparr>gd_notes := nt\<rparr>) s)"
    and rename: "J s \<Longrightarrow> snap k t s = Some d \<Longrightarrow> \<forall>t' \<in> times k s. t \<le> t' \<Longrightarrow> gdir k' s \<noteq> None \<Longrightarrow> snap k' t s \<in> {None, Some []} \<Longrightarrow>
      J (set_snap k' t d (del_snap k t s))"
    and create: "J s \<Longrightarrow> gdir k' s = None \<Longrightarrow> J (s\<lparr>grps := (k', empty_group) # grps s\<rparr>)"
    and delete: "J s \<Longrightarrow> kk \<in> {k, k'} \<Longrightarrow> snaps_of kk s = [] \<Longrightarrow> J (s\<lparr>grps := AList.delete kk (grps s)\<rparr>)"
begin

lemma meta_simps: "J s \<Longrightarrow> J (s\<lparr>tick := n\<rparr>)" "J s \<Longrightarrow> J (s\<lparr>held := h\<rparr>)" "J s \<Longrightarrow> J (s\<lparr>moved := m\<rparr>)" "J s \<Longrightarrow> J (unlock kk s)" "J s \<Longrightarrow> J (add_namespaces nss s)"
  by (erule meta, simp add: unlock_def add_namespaces_def)+

lemmas J_intros = preserves_intros preserves_modify meta_simps owner set_notes

lemma set_owner_J: "kk \<in> {k, k'} \<Longrightarrow> preserves J (set_owner io force kk a)"
  unfolding set_owner_def by (intro J_intros) auto

lemma try_rmdir_J: "kk \<in> {k, k'} \<Longrightarrow> preserves J (try_rmdir io kk)"
  unfolding try_rmdir_def
  by (intro J_intros) (auto intro: delete simp: snaps_of_def split: option.split)

lemma create_tick: "J s \<Longrightarrow> gdir k' s = None \<Longrightarrow> J (s\<lparr>tick := n, grps := (k', empty_group) # grps s\<rparr>)"
  using create [of "s\<lparr>tick := n\<rparr>"] meta_simps(1) by simp

lemma create_group_dir_J: "preserves J (create_group_dir io k')"
  unfolding create_group_dir_def
  by (rule preservesI) (auto simp: st_defs syscall_def split: option.splits prod.splits sum.splits if_splits intro!: create_tick intro: meta_simps)

lemma create_locked_J: "preserves J (create_locked_backup_group_do api io k' a)"
  unfolding create_locked_backup_group_do_def
  by (intro J_intros create_group_dir_J try_rmdir_J set_owner_J) auto

lemma move_notes_J: "preserves J (move_notes_to io k k')"
  unfolding move_notes_to_def by (intro J_intros) auto

lemma merge_J: "preserves J (check_merge_invariants io k k')"
  unfolding check_merge_invariants_def Let_def by (intro J_intros) auto

lemma remove_group_dir_J: "preserves (\<lambda>s. J s \<and> snaps_of k s = []) (remove_group_dir io k)"
  unfolding remove_group_dir_def remove_dir_def
  by (intro J_intros) (auto intro: meta_simps owner set_notes delete)

lemma group_destroy_J: "preserves (\<lambda>s. J s \<and> snaps_of k s = []) (group_destroy api io k)"
proof -
  let ?I = "\<lambda>s. J s \<and> snaps_of k s = []"
  have "triple ?I (iter_snapshots io k) (\<lambda>r s. ?I s \<and> r = []) (\<lambda>_. ?I)"
    unfolding iter_snapshots_def
    by (rule tripleI) (auto simp: st_defs syscall_def snaps_of_def split: option.splits prod.splits sum.splits if_splits intro: meta_simps)
  moreover have "triple (\<lambda>s. ?I s \<and> r = []) (bnd (destroy_loop io k zero_stats r) (\<lambda>st.
       if all_removed api st \<and> \<not> old_locking io
       then bnd (remove_group_dir io k) (\<lambda>_. ret (st\<lparr>removed_groups := removed_groups st + 1\<rparr>))
       else ret st)) (\<lambda>_. ?I) (\<lambda>_. ?I)" for r
  proof (cases "r = []")
    case True
    have "preserves ?I (bnd (destroy_loop io k zero_stats []) (\<lambda>st.
       if all_removed api st \<and> \<not> old_locking io
       then bnd (remove_group_dir io k) (\<lambda>_. ret (st\<lparr>removed_groups := removed_groups st + 1\<rparr>))
       else ret st))" unfolding destroy_loop.simps by (intro preserves_intros remove_group_dir_J)
    then show ?thesis using True by (simp add: preserves_def)
  qed (simp add: triple_def)
  ultimately show ?thesis unfolding group_destroy_def preserves_def by (rule triple_bnd)
qed

lemma rename_J:
  "triple (\<lambda>s. J s \<and> times k s \<subseteq> set (t # ts) \<and> sorted (t # ts)) (rename_snap k k' t)
     (\<lambda>_ s. J s \<and> (k \<noteq> k' \<longrightarrow> times k s \<subseteq> set ts)) (\<lambda>_. J)"
proof (rule tripleI)
  fix s x s'
  assume pre: "J s \<and> times k s \<subseteq> set (t # ts) \<and> sorted (t # ts)" and run: "rename_snap k k' t s = (Ok x, s')"
  then obtain d where d: "snap k t s = Some d" "gdir k' s \<noteq> None" "snap k' t s \<in> {None, Some []}" "s' = set_snap k' t d (del_snap k t s)"
    by (auto simp: rename_snap_def st_defs split: option.splits if_splits)
  have "\<forall>t' \<in> times k s. t \<le> t'" using pre by auto
  then have "J s'" using rename d pre by blast
  moreover have "k \<noteq> k' \<Longrightarrow> times k s' \<subseteq> set ts" using pre d(4) by (auto simp: times_def AList.delete_keys)
  ultimately show "J s' \<and> (k \<noteq> k' \<longrightarrow> times k s' \<subseteq> set ts)" by blast
qed (auto simp: rename_snap_def st_defs split: option.splits if_splits)

end

lemma preserves_then:
  "preserves P m \<Longrightarrow> (\<And>s. P s \<Longrightarrow> E s) \<Longrightarrow> (\<And>x. triple P (f x) Q (\<lambda>_. E)) \<Longrightarrow> triple P (bnd m f) Q (\<lambda>_. E)"
  by (rule triple_bnd [where R = "\<lambda>_. P"]) (auto simp: preserves_def elim: triple_weaken)

lemma sorted_batches: "n \<noteq> 0 \<Longrightarrow> concat (batches n xs) = xs"
proof (induction n xs rule: batches.induct)
  case (1 n xs)
  then show ?case by (subst batches.simps) auto
qed

text \<open>The times that an iteration returns, if no entry is an error.\<close>

lemma iter_loop_times:
  fixes P :: "('n, 'a) dstore \<Rightarrow> bool"
  shows "triple P (iter_loop io ts) (\<lambda>r _. \<forall>xs. collect_items r = Ok xs \<longrightarrow> xs = ts) (\<lambda>_ _. True)"
proof (induction ts arbitrary: P)
  case Nil
  show ?case by (simp add: triple_def ret_def)
next
  case (Cons t ts)
  have rest: "triple (\<lambda>_ :: ('n, 'a) dstore. True) (bnd (iter_loop io ts) (\<lambda>rs. ret ((case r of Inl e \<Rightarrow> Err e | Inr _ \<Rightarrow> Ok t) # rs)))
      (\<lambda>r _. \<forall>xs. collect_items r = Ok xs \<longrightarrow> xs = t # ts) (\<lambda>_ _. True)" for r :: "(err, unit) result"
    by (rule triple_bnd [OF Cons.IH], rule tripleI) (auto simp: ret_def and_then_eq_Inr split: sum.splits)
  have "triple P (attempt (syscall io)) (\<lambda>_ _. True) (\<lambda>_ _. True)" by (simp add: triple_def split: sum.split)
  then show ?case unfolding iter_loop.simps by (rule triple_bnd) (rule rest)
qed

lemma iter_snapshots_times:
  "triple P (iter_snapshots io k) (\<lambda>r s. \<forall>xs. collect_items r = Ok xs \<longrightarrow> xs = map fst (snaps_of k s)) (\<lambda>_ _. True)"
proof -
  have keep: "preserves (\<lambda>s. snaps_of k s = x) (iter_loop io ts)" for x ts by (intro preserves_intros) auto
  show ?thesis
    unfolding iter_snapshots_def
  proof (rule triple_bnd [where R = "\<lambda>_ _. True"], simp add: triple_def split: sum.split, rule triple_bnd [OF triple_gets], rule tripleI, goal_cases)
    case (1 u g s r s')
    then obtain d where d: "g = Some d" "gdir k s = Some d" "iter_loop io (map fst (gd_snaps d)) s = (Ok r, s')"
      by (auto simp: throw_def split: option.splits)
    then have "snaps_of k s' = gd_snaps d" using preservesD [OF keep _ d(3)] by (simp add: snaps_of_def)
    then show ?case using tripleD(1) [OF iter_loop_times [where P = "\<lambda>_. True"] _ d(3)] by simp
  qed simp
qed

context move_invariant
begin

lemma move_to_J:
  assumes "k \<noteq> k'"
  shows "triple (\<lambda>s. J s \<and> times k s \<subseteq> set (t # ts) \<and> sorted (t # ts)) (move_to api io k k' t)
    (\<lambda>_ s. J s \<and> times k s \<subseteq> set ts \<and> sorted ts) (\<lambda>_. J)"
proof -
  define P where "P = (\<lambda>s. J s \<and> times k s \<subseteq> set (t # ts) \<and> sorted (t # ts))"
  have P: "preserves P (map_error g (syscall io))" "preserves P (syscall io)" "preserves P (modify (\<lambda>s. s\<lparr>moved := mv s\<rparr>))" "P s \<Longrightarrow> J s"
    for g :: "err \<Rightarrow> err" and mv s
    unfolding P_def by (auto intro!: preserves_intros preserves_modify meta_simps)
  have r: "triple P (rename_snap k k' t) (\<lambda>_ s. J s \<and> times k s \<subseteq> set ts \<and> sorted ts) (\<lambda>_. J)"
    unfolding P_def by (rule triple_weaken [OF triple_conj [OF rename_J triple_const]]) (use assms in auto)
  have "triple P (move_to api io k k' t) (\<lambda>_ s. J s \<and> times k s \<subseteq> set ts \<and> sorted ts) (\<lambda>_. J)"
    unfolding move_to_def
    by (intro preserves_then P preserves_gets) (auto intro!: preserves_then P r triple_throwI split: option.split)
  then show ?thesis by (simp only: P_def)
qed

lemma move_batch_J:
  assumes "k \<noteq> k'"
  shows "triple (\<lambda>s. J s \<and> times k s \<subseteq> set (ts @ rest) \<and> sorted (ts @ rest)) (move_batch api io k k' ts)
    (\<lambda>_ s. J s \<and> times k s \<subseteq> set rest \<and> sorted rest) (\<lambda>_. J)"
proof -
  have "preserves (\<lambda>s. J s \<and> times k s \<subseteq> set (ts @ rest) \<and> sorted (ts @ rest)) (for_each (\<lambda>t. map_error (\<lambda>e. Soft SNAPSHOT_LOCK_ERROR) (syscall io)) ts)"
    by (intro preserves_intros) (auto intro: meta_simps simp: times_def)
  moreover have "triple (\<lambda>s. J s \<and> times k s \<subseteq> set (ts @ rest) \<and> sorted (ts @ rest)) (for_each (\<lambda>t. map_error Hard (move_to api io k k' t)) ts)
      (\<lambda>_ s. J s \<and> times k s \<subseteq> set ([] @ rest) \<and> sorted ([] @ rest)) (\<lambda>_. J)"
    by (rule triple_for_each, simp only: append_Cons, rule triple_map_error, rule move_to_J [OF assms])
  ultimately show ?thesis unfolding move_batch_def by (intro preserves_then) auto
qed

lemma move_snapshots_J:
  assumes "k \<noteq> k'"
  shows "triple J (move_snapshots api io k k') (\<lambda>_ s. J s \<and> snaps_of k s = []) (\<lambda>_. J)"
proof -
  have items: "triple J (map_error Hard (iter_snapshots io k)) (\<lambda>r s. J s \<and> (\<forall>xs. collect_items r = Ok xs \<longrightarrow> xs = map fst (snaps_of k s))) (\<lambda>_. J)"
    by (rule triple_map_error, rule triple_weaken [OF triple_conj [where P = J and Q = "\<lambda>_. J" and E = "\<lambda>_. J", OF _ iter_snapshots_times [where P = J]]])
      (auto simp: preserves_def [symmetric] intro!: preserves_intros meta_simps)
  have moves: "triple (\<lambda>s. J s \<and> xs = map fst (snaps_of k s)) (for_each (move_batch api io k k') (batches MAX_SNAPSHOT_LOCKS (sort xs)))
      (\<lambda>_ s. J s \<and> snaps_of k s = []) (\<lambda>_. J)" for xs
  proof -
    let ?bs = "batches MAX_SNAPSHOT_LOCKS (sort xs)"
    have "triple (\<lambda>s. J s \<and> times k s \<subseteq> set (concat ?bs) \<and> sorted (concat ?bs)) (for_each (move_batch api io k k') ?bs)
        (\<lambda>_ s. J s \<and> times k s \<subseteq> set (concat [] :: int list) \<and> sorted (concat [] :: int list)) (\<lambda>_. J)"
      by (rule triple_for_each, simp only: concat.simps, rule move_batch_J [OF assms])
    then show ?thesis by (rule triple_weaken) (auto simp: sorted_batches MAX_SNAPSHOT_LOCKS_def times_empty [symmetric], auto simp: times_def)
  qed
  show ?thesis
    unfolding move_snapshots_def
  proof (rule triple_bnd [OF items], goal_cases)
    case (1 r)
    show ?case
    proof (cases "collect_items r")
      case (Inr xs)
      have "triple (\<lambda>s. J s \<and> (\<forall>xs. collect_items r = Ok xs \<longrightarrow> xs = map fst (snaps_of k s)))
          (for_each (move_batch api io k k') (batches MAX_SNAPSHOT_LOCKS (sort xs))) (\<lambda>_ s. J s \<and> snaps_of k s = []) (\<lambda>_. J)"
        by (rule triple_weaken [OF moves [of xs]]) (use Inr in auto)
      then show ?thesis using Inr by (simp add: of_result_def bnd_def map_error_def)
    qed (simp add: of_result_def bnd_def map_error_def triple_def)
  qed
qed

end

context move_invariant
begin

lemma move_locked_J:
  assumes "k \<noteq> k'"
  shows "triple J (move_locked api io m k k' created) (\<lambda>_ s. J s \<and> snaps_of k s = []) (\<lambda>_. J)"
proof -
  have nts: "preserves (\<lambda>s. J s \<and> snaps_of k s = []) (map_error Hard (move_notes_to io k k'))"
    unfolding move_notes_to_def by (intro J_intros) (auto intro: meta_simps set_notes)
  have destroy: "triple (\<lambda>s. J s \<and> snaps_of k s = []) (bnd (map_error Hard (group_destroy api io k)) (\<lambda>_. ret ())) (\<lambda>_ s. J s \<and> snaps_of k s = []) (\<lambda>_. J)"
    by (rule preserves_then [OF preserves_map_error [OF group_destroy_J]]) (auto simp: triple_def ret_def)
  have "preserves J (if created then ret () else map_error Hard (check_merge_invariants io k k'))" by (intro J_intros merge_J)
  then show ?thesis
    unfolding move_locked_def
    by (auto intro!: triple_throwI preserves_then preserves_then [OF nts] destroy triple_bnd [OF move_snapshots_J [OF assms]])
qed

lemma lock_and_move_J:
  assumes "map_prefix api (fst k) src tgt = Ok (fst k')" "snd k' = snd k"
  shows "triple J (lock_and_move_group api io src tgt m k) (\<lambda>_ s. J s \<and> snaps_of k s = []) (\<lambda>_. J)"
proof -
  have k': "(fst k', snd k) = k'" using assms(2) by (simp add: prod_eq_iff)
  have check: "triple J (map_error Hard (check_move_group io k (fst k') m)) (\<lambda>_ s. J s \<and> k \<noteq> k') (\<lambda>_. J)"
    by (rule tripleI) (auto simp: check_move_group_def namespace_exists_def group_exists_def path_exists_def st_defs k' intro: meta_simps split: if_splits)
  have body: "triple (\<lambda>s. J s \<and> k \<noteq> k')
      (bnd (map_error Hard (get_owner io k)) (\<lambda>source_owner. bnd (create_locked_backup_group_do api io k' source_owner) (\<lambda>(_, created).
         lastly (move_locked api io m k k' created) (unlock k'))))
      (\<lambda>_ s. J s \<and> snaps_of k s = []) (\<lambda>_. J)"
  proof (cases "k = k'")
    case False
    have own: "preserves J (map_error Hard (get_owner io k))" by (intro J_intros) auto
    have moved: "triple J (lastly (move_locked api io m k k' c) (unlock k')) (\<lambda>_ s. J s \<and> snaps_of k s = []) (\<lambda>_. J)" for c
      by (rule triple_lastly, rule triple_weaken [OF move_locked_J [OF False]]) (auto intro: meta_simps)
    have "triple J (bnd (create_locked_backup_group_do api io k' ow) (\<lambda>(_, created). lastly (move_locked api io m k k' created) (unlock k')))
        (\<lambda>_ s. J s \<and> snaps_of k s = []) (\<lambda>_. J)" for ow
      by (rule preserves_then [OF create_locked_J]) (auto intro: moved split: prod.split)
    then show ?thesis using False by (auto intro: preserves_then [OF own])
  qed (simp add: triple_def)
  have "triple J (lastly (bnd (map_error Hard (check_move_group io k (fst k') m)) (\<lambda>_.
       bnd (map_error Hard (get_owner io k)) (\<lambda>source_owner. bnd (create_locked_backup_group_do api io k' source_owner) (\<lambda>(_, created).
         lastly (move_locked api io m k k' created) (unlock k'))))) (unlock k)) (\<lambda>_ s. J s \<and> snaps_of k s = []) (\<lambda>_. J)"
    by (rule triple_lastly, rule triple_weaken [OF triple_bnd [OF check body]]) (auto intro: meta_simps)
  moreover have "preserves J (map_error Soft (group_lock io k))" by (intro J_intros) auto
  ultimately show ?thesis unfolding lock_and_move_group_def assms(1) sum.case k' by (auto intro: preserves_then)
qed

lemma move_group_J:
  assumes "map_prefix api (fst k) (fst k) tgt = Ok (fst k')" "snd k' = snd k"
  shows "triple J (move_group api io k tgt m) (\<lambda>_ s. J s \<and> snaps_of k s = []) (\<lambda>_. J)"
  unfolding move_group_def using lock_and_move_J [OF assms] by (auto intro: triple_map_error triple_throwI)

end

section \<open>Files, order and other groups\<close>

definition file_at :: "'n gkey \<Rightarrow> 'n gkey \<Rightarrow> int \<Rightarrow> string \<Rightarrow> bytes \<Rightarrow> ('n, 'a) dstore \<Rightarrow> bool" where
  "file_at k k' t n c s \<longleftrightarrow> (\<exists>d. (snap k t s = Some d \<or> snap k' t s = Some d) \<and> map_of d n = Some c)"

definition ordered :: "'n gkey \<Rightarrow> 'n gkey \<Rightarrow> ('n, 'a) dstore \<Rightarrow> bool" where
  "ordered k k' s \<longleftrightarrow> (\<forall>t' \<in> times k' s. \<forall>t \<in> times k s. t' < t)"

definition untouched :: "'n gkey \<Rightarrow> 'n gkey \<Rightarrow> 'n gkey \<Rightarrow> 'a GroupDir option \<Rightarrow> ('n, 'a) dstore \<Rightarrow> bool" where
  "untouched k k' j x s \<longleftrightarrow> (j \<notin> {k, k'} \<longrightarrow> gdir j s = x)"

lemma snap_gdir_eq: "grps s' = grps s \<Longrightarrow> snap k t s' = snap k t s" "grps s' = grps s \<Longrightarrow> gdir k s' = gdir k s"
  by (simp_all add: snap_def snaps_of_def gdir_def)

lemma snap_grps [simp]:
  "snap k' t (s\<lparr>grps := AList.delete k (grps s)\<rparr>) = (if k' = k then None else snap k' t s)"
  "snap k' t (s\<lparr>grps := (k, g) # grps s\<rparr>) = (if k' = k then map_of (gd_snaps g) t else snap k' t s)"
  by (simp_all add: snap_def)

lemma snaps_Nil: "snaps_of k s = [] \<Longrightarrow> snap k t s = None"
  by (simp add: snap_def)

lemma gdir_snaps [simp]: "gdir k' (del_snap k t s) = None \<longleftrightarrow> gdir k' s = None" "gdir k' (set_snap k t d s) = None \<longleftrightarrow> gdir k' s = None"
  by (simp_all add: del_snap_def set_snap_def)

lemma ordered_distinct: "ordered k k' s \<Longrightarrow> t \<in> times k s \<Longrightarrow> k \<noteq> k'"
  by (auto simp: ordered_def)

lemma times_rename:
  "k \<noteq> k' \<Longrightarrow> times k (set_snap k' t d (del_snap k t s)) = times k s - {t}"
  "k \<noteq> k' \<Longrightarrow> times k' (set_snap k' t d (del_snap k t s)) \<subseteq> insert t (times k' s)"
  by (auto simp: times_snap split: if_splits)

interpretation files: move_invariant "file_at k k' t n c :: ('n, 'a) dstore \<Rightarrow> bool" k k' for k k' :: "'n gkey" and t n c
proof unfold_locales
  fix s s' :: "('n, 'a) dstore"
  assume "file_at k k' t n c s" "grps s' = grps s"
  then show "file_at k k' t n c s'" using snap_gdir_eq(1) [of s' s] by (simp add: file_at_def)
next
  fix s :: "('n, 'a) dstore"
  assume "file_at k k' t n c s" "gdir k' s = None"
  then show "file_at k k' t n c (s\<lparr>grps := (k', empty_group) # grps s\<rparr>)" by (auto simp: file_at_def snap_gdir empty_group_def)
qed (auto simp: file_at_def snaps_Nil split: if_splits)

interpretation order: move_invariant "ordered k k' :: ('n, 'a) dstore \<Rightarrow> bool" k k' for k k' :: "'n gkey"
proof unfold_locales
  fix s s' :: "('n, 'a) dstore"
  assume "ordered k k' s" "grps s' = grps s"
  then show "ordered k k' s'" using snap_gdir_eq(1) [of s' s] by (simp add: ordered_def times_snap)
next
  fix s :: "('n, 'a) dstore" and t d
  assume "ordered k k' s" "snap k t s = Some d" "\<forall>t' \<in> times k s. t \<le> t'" "snap k' t s \<in> {None, Some []}"
  moreover from this have "k \<noteq> k'" using ordered_distinct [of k k' s t] by (simp add: times_snap)
  ultimately show "ordered k k' (set_snap k' t d (del_snap k t s))"
    using times_rename(2) [of k k' t d s] by (auto simp: ordered_def times_rename(1) order.strict_iff_order)
next
  fix s :: "('n, 'a) dstore"
  assume "ordered k k' s" "gdir k' s = None"
  then show "ordered k k' (s\<lparr>grps := (k', empty_group) # grps s\<rparr>)" by (auto simp: ordered_def times_snap snap_gdir empty_group_def)
qed (auto simp: ordered_def times_snap snaps_Nil split: if_splits)

interpretation others: move_invariant "untouched k k' j x :: ('n, 'a) dstore \<Rightarrow> bool" k k' for k k' :: "'n gkey" and j x
proof unfold_locales
  fix s s' :: "('n, 'a) dstore"
  assume "untouched k k' j x s" "grps s' = grps s"
  then show "untouched k k' j x s'" by (simp add: untouched_def gdir_def)
qed (auto simp: untouched_def set_snap_def del_snap_def)

section \<open>What a move leaves when a snapshot is locked\<close>

lemma not_snapshot_lock: "SNAPSHOT_LOCK_ERROR \<noteq> ''unable to acquire backup group lock''" "e @ ''while creating locked backup group'' \<noteq> SNAPSHOT_LOCK_ERROR"
proof -
  show "SNAPSHOT_LOCK_ERROR \<noteq> ''unable to acquire backup group lock''" by (simp add: SNAPSHOT_LOCK_ERROR_def)
  have "last (e @ ''while creating locked backup group'') \<noteq> last SNAPSHOT_LOCK_ERROR" by (simp add: SNAPSHOT_LOCK_ERROR_def)
  then show "e @ ''while creating locked backup group'' \<noteq> SNAPSHOT_LOCK_ERROR" by metis
qed

lemma triple_hard: "triple P (map_error Hard m) (\<lambda>_. P) (\<lambda>e _. e \<noteq> Soft SNAPSHOT_LOCK_ERROR)" if "preserves P m"
  by (rule tripleI) (use that in \<open>auto simp: map_error_def split: prod.splits sum.splits dest: preservesD\<close>)

lemma created_there:
  "triple (\<lambda>_. True) (create_group_dir io k) (\<lambda>_ s. gdir k s \<noteq> None) (\<lambda>e _. e \<noteq> Soft SNAPSHOT_LOCK_ERROR)"
  by (rule tripleI) (auto simp: create_group_dir_def gdir_def st_defs syscall_def split: option.splits prod.splits sum.splits if_splits)

lemma preserves_there [preserves_intros]: "preserves (\<lambda>s. gdir k s \<noteq> None) (set_owner io force k' a)"
  unfolding set_owner_def by (intro preserves_intros preserves_modify) (auto split: if_splits)

lemma move_snapshots_there: "preserves (\<lambda>s. gdir k' s \<noteq> None) (move_snapshots api io k k')"
  unfolding move_snapshots_def move_batch_def move_to_def rename_snap_def
  by (intro preserves_intros preserves_modify) (auto split: if_splits)

text \<open>The only error of a move for a lock of a snapshot, and then the target group is there.\<close>

abbreviation locked_there :: "'n gkey \<Rightarrow> BackupGroupOpError \<Rightarrow> ('n, 'a) dstore \<Rightarrow> bool" where
  "locked_there k e s \<equiv> e = Soft SNAPSHOT_LOCK_ERROR \<longrightarrow> gdir k s \<noteq> None"

lemma gdir_unlock [simp]: "gdir k (unlock j s) = gdir k s"
  by (simp add: unlock_def gdir_def)

lemma triple_hard_any: "triple P (map_error Hard m) (\<lambda>_ _. True) (locked_there k)"
  by (rule tripleI) (auto simp: map_error_def split: prod.splits sum.splits)

lemma triple_hard_there: "preserves (\<lambda>s. gdir k s \<noteq> None) m \<Longrightarrow> triple (\<lambda>s. gdir k s \<noteq> None) (map_error Hard m) (\<lambda>_ s. gdir k s \<noteq> None) (locked_there k)"
  by (rule triple_weaken [OF triple_hard]) auto

lemma owner_set_there:
  "triple (\<lambda>s. gdir k s \<noteq> None) (if created then bnd (attempt (set_owner io False k a)) (\<lambda>w. case w of
     Inl e \<Rightarrow> bnd (try_rmdir io k) (\<lambda>_. throw (Hard e)) | Inr _ \<Rightarrow> ret ()) else ret ()) (\<lambda>_ s. gdir k s \<noteq> None) (locked_there k)"
proof (cases created)
  case True
  have own: "triple (\<lambda>s. gdir k s \<noteq> None) (attempt (set_owner io False k a)) (\<lambda>_ s. gdir k s \<noteq> None) (locked_there k)"
    by (rule triple_attempt, fold preserves_def) (rule preserves_there)
  have "triple P (bnd (try_rmdir io k) (\<lambda>_. throw (Hard e))) Q (locked_there k)" for P Q e
    by (rule tripleI) (auto simp: try_rmdir_def st_defs split: prod.splits sum.splits)
  then have "triple (\<lambda>s. gdir k s \<noteq> None) (bnd (attempt (set_owner io False k a)) (\<lambda>w. case w of
     Inl e \<Rightarrow> bnd (try_rmdir io k) (\<lambda>_. throw (Hard e)) | Inr _ \<Rightarrow> ret ())) (\<lambda>_ s. gdir k s \<noteq> None) (locked_there k)"
    by (intro triple_bnd [OF own]) (auto intro: triple_ret simp del: not_None_eq split: sum.split)
  then show ?thesis using True by (simp only: if_True)
qed (simp only: if_False triple_ret [where Q = "\<lambda>_ s. gdir k s \<noteq> None"])

lemma triple_case_sum: "(\<And>e. triple P (f e) Q E) \<Longrightarrow> (\<And>x. triple P (g x) Q E) \<Longrightarrow> triple P (case r of Inl e \<Rightarrow> f e | Inr x \<Rightarrow> g x) Q E"
  by (cases r) simp_all

lemma create_locked_there:
  "triple (\<lambda>_. True) (create_locked_backup_group_do api io k a) (\<lambda>_ s. gdir k s \<noteq> None) (locked_there k)"
proof -
  have own: "triple (\<lambda>s. gdir k s \<noteq> None) (bnd (map_error Hard (get_owner io k)) (\<lambda>ow. ret (ow, c))) (\<lambda>_ s. gdir k s \<noteq> None) (locked_there k)" for c
    by (rule triple_bnd [OF triple_hard_there]) (auto intro!: preserves_intros triple_ret)
  have lock: "triple (\<lambda>s. gdir k s \<noteq> None) (attempt (group_lock io k)) (\<lambda>_ s. gdir k s \<noteq> None) (locked_there k)"
    by (rule triple_attempt, fold preserves_def) (auto intro!: preserves_intros)
  have failed: "triple P (bnd (if c then try_rmdir io k else ret ()) (\<lambda>_. throw (Soft (e @ ''while creating locked backup group'')))) Q (locked_there k)" for c e P Q
    by (rule tripleI) (auto simp: not_snapshot_lock try_rmdir_def st_defs split: prod.splits sum.splits if_splits)
  have rest: "triple (\<lambda>s. gdir k s \<noteq> None) (on_error (bnd (if c then bnd (attempt (set_owner io False k a)) (\<lambda>w. case w of
      Inl e \<Rightarrow> bnd (try_rmdir io k) (\<lambda>_. throw (Hard e)) | Inr _ \<Rightarrow> ret ()) else ret ())
      (\<lambda>_. bnd (map_error Hard (get_owner io k)) (\<lambda>owner. ret (owner, c)))) (unlock k)) (\<lambda>_ s. gdir k s \<noteq> None) (locked_there k)" for c
    by (rule triple_on_error, unfold gdir_unlock, rule triple_bnd [OF owner_set_there]) (rule own)
  have dir: "triple (\<lambda>_. True) (create_group_dir io k) (\<lambda>_ s. gdir k s \<noteq> None) (locked_there k)"
    by (rule triple_weaken [OF created_there]) auto
  show ?thesis unfolding create_locked_backup_group_do_def
    by (rule triple_bnd [OF triple_hard_any], rule triple_bnd [OF triple_modify [of _ "\<lambda>_ _. True"]], simp,
        rule triple_bnd [OF dir], rule triple_bnd [OF lock]) (rule triple_case_sum, rule failed, rule rest)
qed

lemma move_locked_there: "triple (\<lambda>s. gdir k' s \<noteq> None) (move_locked api io m k k' c) (\<lambda>_ _. True) (locked_there k')"
proof -
  have "preserves (\<lambda>s. gdir k' s \<noteq> None) (check_merge_invariants io k k')"
    unfolding check_merge_invariants_def Let_def by (intro preserves_intros) auto
  then have merge: "triple (\<lambda>s. gdir k' s \<noteq> None) (if c then ret () else map_error Hard (check_merge_invariants io k k')) (\<lambda>_ s. gdir k' s \<noteq> None) (locked_there k')"
    by (cases c) (auto intro: triple_ret triple_hard_there simp del: not_None_eq)
  have moved: "triple (\<lambda>s. gdir k' s \<noteq> None) (move_snapshots api io k k') (\<lambda>_ s. gdir k' s \<noteq> None) (locked_there k')"
    by (rule triple_weaken [OF move_snapshots_there [unfolded preserves_def]]) auto
  have last: "triple P (bnd (map_error Hard (move_notes_to io k k')) (\<lambda>_. bnd (map_error Hard (group_destroy api io k)) (\<lambda>_. ret ()))) (\<lambda>_ _. True) (locked_there k')" for P
    by (rule tripleI) (auto simp: st_defs split: prod.splits sum.splits)
  have "triple (\<lambda>s. gdir k' s \<noteq> None) (throw (Hard e)) (\<lambda>_ _. True) (locked_there k')" for e
    by (rule triple_throwI) simp
  then show ?thesis unfolding move_locked_def
    using triple_bnd [OF merge triple_bnd [OF moved last]] by (cases "\<not> c \<and> \<not> m") (simp_all only: if_True if_False not_False_eq_True simp_thms)
qed

lemma lock_and_move_there:
  assumes "map_prefix api (fst k) src tgt = Ok tns" "lock_and_move_group api io src tgt m k s = (Err (Soft SNAPSHOT_LOCK_ERROR), s')"
  shows "gdir (tns, snd k) s' \<noteq> None"
proof -
  let ?k = "(tns, snd k)"
  have lock: "triple (\<lambda>_. True) (map_error Soft (group_lock io k)) (\<lambda>_ _. True) (locked_there ?k)"
    by (rule tripleI) (auto simp: group_lock_def st_defs not_snapshot_lock not_snapshot_lock(1) [symmetric] split: prod.splits sum.splits if_splits)
  have body: "triple (\<lambda>_. True) (bnd (create_locked_backup_group_do api io ?k ow) (\<lambda>(_, c). lastly (move_locked api io m k ?k c) (unlock ?k))) (\<lambda>_ _. True) (locked_there ?k)" for ow
    by (rule triple_bnd [OF create_locked_there]) (auto intro!: triple_lastly simp: move_locked_there simp del: not_None_eq split: prod.split)
  have whole: "triple (\<lambda>_. True) (lock_and_move_group api io src tgt m k) (\<lambda>_ _. True) (locked_there ?k)"
    unfolding lock_and_move_group_def assms(1) sum.case
    by (rule triple_bnd [OF lock], rule triple_lastly, unfold gdir_unlock, rule triple_bnd [OF triple_hard_any], rule triple_bnd [OF triple_hard_any]) (rule body)
  show ?thesis using tripleD(2) [OF whole _ assms(2)] by simp
qed

end
