(* ===== verification/Namespaces.thy ===== *)
theory Namespaces
  imports MoveGroup
begin

text \<open>
  Namespaces of a datastore (\<^verbatim>\<open>datastore.rs\<close>, with the iterators of \<^verbatim>\<open>hierarchy.rs\<close>): listing, creating, removing and
  moving them with all their groups. Removing never deletes a protected snapshot; moving never loses a file.
\<close>

section \<open>Listing\<close>

definition child_namespaces :: "'n pbs_api \<Rightarrow> 'n \<Rightarrow> ('n, 'a) dstore \<Rightarrow> 'n list" where
  "child_namespaces api ns s = filter (\<lambda>m. \<not> ns_is_root api m \<and> ns_parent api m = ns) (namespaces s)"

text \<open>\<^verbatim>\<open>ListNamespacesRecursive\<close>: the anchor first, then depth-first, down to a depth.\<close>

fun rec_ns :: "'n pbs_api \<Rightarrow> nat \<Rightarrow> ('n, 'a) dstore \<Rightarrow> 'n \<Rightarrow> 'n list" where
  "rec_ns api 0 s ns = [ns]"
| "rec_ns api (Suc depth) s ns = ns # concat (map (rec_ns api depth s) (child_namespaces api ns s))"

definition list_namespaces_recursive :: "'n pbs_api \<Rightarrow> fsio \<Rightarrow> 'n \<Rightarrow> nat \<Rightarrow> ('n, 'a, 'n list) op" where
  "list_namespaces_recursive api io ns max_depth =
     bnd (ensure (\<not> max_depth > max_ns_depth api) ''depth must be smaller'') (\<lambda>_. bnd (syscall io) (\<lambda>_.
       gets (\<lambda>s. rec_ns api (min max_depth (max_ns_depth api - ns_depth api ns)) s ns)))"

definition iter_backup_groups :: "fsio \<Rightarrow> 'n \<Rightarrow> ('n, 'a, 'n gkey list) op" where
  "iter_backup_groups io ns = bnd (syscall io) (\<lambda>_. gets (\<lambda>s. filter (\<lambda>k. fst k = ns) (map fst (grps s))))"

section \<open>Creating and removing\<close>

definition create_namespace :: "'n pbs_api \<Rightarrow> fsio \<Rightarrow> 'n \<Rightarrow> string \<Rightarrow> ('n, 'a, 'n) op" where
  "create_namespace api io parent name =
     bnd (namespace_exists io parent) (\<lambda>there.
     bnd (ensure there ''cannot create new namespace, parent does not already exist'') (\<lambda>_.
     bnd (of_result (from_parent_ns api parent name)) (\<lambda>ns.
     bnd (syscall io) (\<lambda>_.
     bnd (modify (add_namespaces (ns_ancestors api ns @ [ns]))) (\<lambda>_. ret ns)))))"

fun remove_groups_loop :: "'n pbs_api \<Rightarrow> fsio \<Rightarrow> bool \<times> BackupGroupDeleteStats \<Rightarrow> 'n gkey list \<Rightarrow> ('n, 'a, bool \<times> BackupGroupDeleteStats) op" where
  "remove_groups_loop api io acc [] = ret acc"
| "remove_groups_loop api io acc (k # ks) =
     bnd (syscall io) (\<lambda>_.
     bnd (map_error (\<lambda>e. ''while destroying group'') (group_lock io k)) (\<lambda>_.
     bnd (lastly (group_destroy api io k) (unlock k)) (\<lambda>st.
       remove_groups_loop api io (fst acc \<and> all_removed api st, stats_add api (snd acc) st) ks)))"

definition remove_namespace_groups :: "'n pbs_api \<Rightarrow> fsio \<Rightarrow> 'n \<Rightarrow> ('n, 'a, bool \<times> BackupGroupDeleteStats) op" where
  "remove_namespace_groups api io ns =
     bnd (iter_backup_groups io ns) (\<lambda>ks. remove_groups_loop api io (True, zero_stats) ks)"

text \<open>A namespace directory is removed only if it has no groups and no namespaces below. The empty
  directories of the backup types are removed with it; a failure to do so counts as a failure here.\<close>

definition ns_empty :: "'n pbs_api \<Rightarrow> 'n \<Rightarrow> ('n, 'a) dstore \<Rightarrow> bool" where
  "ns_empty api ns s \<longleftrightarrow> \<not> list_ex (\<lambda>k. fst k = ns) (map fst (grps s)) \<and> child_namespaces api ns s = []"

definition remove_ns_dir :: "'n pbs_api \<Rightarrow> fsio \<Rightarrow> 'n \<Rightarrow> ('n, 'a, bool) op" where
  "remove_ns_dir api io ns =
     (if ns_is_root api ns then ret True
      else bnd (attempt (syscall io)) (\<lambda>r. bnd (gets (\<lambda>s. (ns \<in> set (namespaces s), ns_empty api ns s))) (\<lambda>(there, empty).
        case r of Inl _ \<Rightarrow> ret False
        | Inr _ \<Rightarrow>
            (if \<not> there then ret True
             else if \<not> empty then ret False
             else bnd (modify (\<lambda>s. s\<lparr>namespaces := filter (\<lambda>m. m \<noteq> ns) (namespaces s)\<rparr>)) (\<lambda>_. ret True)))))"

definition remove_namespace :: "'n pbs_api \<Rightarrow> fsio \<Rightarrow> bool \<Rightarrow> 'n \<Rightarrow> ('n, 'a, bool \<times> BackupGroupDeleteStats) op" where
  "remove_namespace api io delete_groups ns =
     bnd (if delete_groups
          then bnd (remove_namespace_groups api io ns) (\<lambda>(removed, st). ret (removed, stats_add api zero_stats st))
          else ret (True, zero_stats)) (\<lambda>(removed_all, stats).
     bnd (syscall io) (\<lambda>_.
     bnd (remove_ns_dir api io ns) (\<lambda>removed. ret (removed_all \<and> removed, stats))))"

fun remove_all_loop :: "'n pbs_api \<Rightarrow> fsio \<Rightarrow> bool \<Rightarrow> bool \<times> BackupGroupDeleteStats \<Rightarrow> 'n list \<Rightarrow> ('n, 'a, bool \<times> BackupGroupDeleteStats) op" where
  "remove_all_loop api io delete_groups acc [] = ret acc"
| "remove_all_loop api io delete_groups acc (ns # nss) =
     bnd (remove_namespace api io delete_groups ns) (\<lambda>(removed, st).
       remove_all_loop api io delete_groups (fst acc \<and> removed, stats_add api (snd acc) st) nss)"

definition remove_namespace_recursive :: "'n pbs_api \<Rightarrow> fsio \<Rightarrow> 'n \<Rightarrow> bool \<Rightarrow> ('n, 'a, bool \<times> BackupGroupDeleteStats) op" where
  "remove_namespace_recursive api io ns delete_groups =
     bnd (list_namespaces_recursive api io ns (max_ns_depth api)) (\<lambda>children.
       remove_all_loop api io delete_groups (True, zero_stats) (sort_key (\<lambda>m. - int (ns_depth api m)) children))"

section \<open>Moving\<close>

definition check_namespace_depth_limit :: "'n pbs_api \<Rightarrow> 'n \<Rightarrow> 'n \<Rightarrow> 'n list \<Rightarrow> (err, unit) result" where
  "check_namespace_depth_limit api source target nss =
     (let sub_depth = (if nss = [] then 0 else wrapping_sub (Max (set (map (ns_depth api) nss))) (ns_depth api source)) in
      if wrapping_add sub_depth (ns_depth api target) > max_ns_depth api then Err ''namespace depth limit exceeded'' else Ok ())"

definition check_move_namespace :: "'n pbs_api \<Rightarrow> fsio \<Rightarrow> 'n \<Rightarrow> 'n \<Rightarrow> ('n, 'a, unit) op" where
  "check_move_namespace api io source_ns target_ns =
     bnd (ensure (\<not> ns_is_root api source_ns) ''cannot move root namespace'') (\<lambda>_.
     bnd (ensure (source_ns \<noteq> target_ns) ''source and target namespace must be different'') (\<lambda>_.
     bnd (namespace_exists io source_ns) (\<lambda>src.
     bnd (ensure src ''source namespace does not exist'') (\<lambda>_.
     bnd (if ns_is_root api target_ns then ret True else namespace_exists io (ns_parent api target_ns)) (\<lambda>parent.
     bnd (ensure parent ''target parent namespace does not exist'') (\<lambda>_.
       ensure (\<not> ns_contains api source_ns target_ns) ''cannot move namespace into its own subtree''))))))"

definition create_target :: "'n pbs_api \<Rightarrow> fsio \<Rightarrow> 'n \<Rightarrow> 'n \<Rightarrow> 'n \<Rightarrow> ('n, 'a, unit) op" where
  "create_target api io source_ns target_ns ns =
     bnd (of_result (map_prefix api ns source_ns target_ns)) (\<lambda>child.
     bnd (if ns_is_root api child then ret True else namespace_exists io child) (\<lambda>there.
       if there then ret ()
       else (case ns_last api child of
               None \<Rightarrow> throw ''cannot determine last component''
             | Some name \<Rightarrow> bnd (map_error (\<lambda>e. ''failed to create target namespace'') (create_namespace api io (ns_parent api child) name)) (\<lambda>_. ret ()))))"

record 'n move_log =
  failed_fatal :: "'n gkey list"
  failed_retryable :: "'n gkey list"
  failed_ns :: "'n list"
  deferred :: "'n gkey list"

text \<open>\<open>last_try\<close>: a group that is still locked counts as failed.\<close>

definition move_one :: "'n pbs_api \<Rightarrow> fsio \<Rightarrow> 'n \<Rightarrow> 'n \<Rightarrow> bool \<Rightarrow> bool \<Rightarrow> 'n gkey \<Rightarrow> 'n move_log \<Rightarrow> ('n, 'a, 'n move_log) op" where
  "move_one api io source_ns target_ns merge_groups last_try k lg =
     bnd (attempt (lock_and_move_group api io source_ns target_ns merge_groups k)) (\<lambda>r. ret (case r of
         Inr _ \<Rightarrow> lg
       | Inl (Soft e) \<Rightarrow>
           (if last_try then lg\<lparr>failed_retryable := failed_retryable lg @ [k], failed_ns := fst k # failed_ns lg\<rparr>
            else lg\<lparr>deferred := deferred lg @ [k]\<rparr>)
       | Inl (Hard e) \<Rightarrow> lg\<lparr>failed_fatal := failed_fatal lg @ [k], failed_ns := fst k # failed_ns lg\<rparr>))"

fun move_all :: "'n pbs_api \<Rightarrow> fsio \<Rightarrow> 'n \<Rightarrow> 'n \<Rightarrow> bool \<Rightarrow> bool \<Rightarrow> 'n gkey list \<Rightarrow> 'n move_log \<Rightarrow> ('n, 'a, 'n move_log) op" where
  "move_all api io source_ns target_ns merge_groups last_try [] lg = ret lg"
| "move_all api io source_ns target_ns merge_groups last_try (k # ks) lg =
     bnd (attempt (if last_try then ret () else syscall io)) (\<lambda>r. case r of
         Inl _ \<Rightarrow> move_all api io source_ns target_ns merge_groups last_try ks (lg\<lparr>failed_ns := fst k # failed_ns lg\<rparr>)
       | Inr _ \<Rightarrow> bnd (move_one api io source_ns target_ns merge_groups last_try k lg) (move_all api io source_ns target_ns merge_groups last_try ks))"

fun move_namespaces :: "'n pbs_api \<Rightarrow> fsio \<Rightarrow> 'n \<Rightarrow> 'n \<Rightarrow> bool \<Rightarrow> 'n list \<Rightarrow> 'n move_log \<Rightarrow> ('n, 'a, 'n move_log) op" where
  "move_namespaces api io source_ns target_ns merge_groups [] lg = ret lg"
| "move_namespaces api io source_ns target_ns merge_groups (ns # nss) lg =
     bnd (attempt (iter_backup_groups io ns)) (\<lambda>r. case r of
         Inl _ \<Rightarrow> move_namespaces api io source_ns target_ns merge_groups nss (lg\<lparr>failed_ns := ns # failed_ns lg\<rparr>)
       | Inr ks \<Rightarrow> bnd (move_all api io source_ns target_ns merge_groups False ks lg) (move_namespaces api io source_ns target_ns merge_groups nss))"

text \<open>A source namespace stays if a group on or below it failed, or if it has a namespace below that was not moved.
  Creating the iterator \<^verbatim>\<open>ListNamespaces\<close> cannot fail; it tries an opening that failed again when it is asked for the next entry.\<close>

definition cleanup_source :: "'n pbs_api \<Rightarrow> fsio \<Rightarrow> 'n list \<Rightarrow> 'n list \<Rightarrow> 'n \<Rightarrow> ('n, 'a, unit) op" where
  "cleanup_source api io attempted failed ns =
     (if list_ex (\<lambda>f. f = ns \<or> ns_contains api ns f) failed then ret ()
      else bnd (gets (child_namespaces api ns)) (\<lambda>cs.
        if list_ex (\<lambda>c. c \<notin> set attempted) cs then ret ()
        else bnd (attempt (remove_namespace api io False ns)) (\<lambda>_. ret ())))"

definition move_namespace :: "'n pbs_api \<Rightarrow> fsio \<Rightarrow> 'n \<Rightarrow> 'n \<Rightarrow> nat option \<Rightarrow> bool \<Rightarrow> bool \<Rightarrow> ('n, 'a, unit) op" where
  "move_namespace api io source_ns target_ns max_depth delete_source merge_groups =
     bnd (ensure (\<not> old_locking io) ''move operations require new-style file-based locking'') (\<lambda>_.
     bnd (check_move_namespace api io source_ns target_ns) (\<lambda>_.
     bnd (list_namespaces_recursive api io source_ns (case max_depth of None \<Rightarrow> max_ns_depth api | Some d \<Rightarrow> d)) (\<lambda>attempted.
     bnd (of_result (check_namespace_depth_limit api source_ns target_ns attempted)) (\<lambda>_.
     bnd (for_each (create_target api io source_ns target_ns) (sort_key (ns_depth api) attempted)) (\<lambda>_.
     bnd (move_namespaces api io source_ns target_ns merge_groups attempted
       \<lparr>failed_fatal = [], failed_retryable = [], failed_ns = [], deferred = []\<rparr>) (\<lambda>lg.
     bnd (move_all api io source_ns target_ns merge_groups True (deferred lg) lg) (\<lambda>lg.
     bnd (if delete_source then for_each (cleanup_source api io attempted (failed_ns lg)) (rev attempted) else ret ()) (\<lambda>_.
       ensure (failed_fatal lg = [] \<and> failed_retryable lg = []) ''namespace move partially completed''))))))))"

section \<open>Removing keeps protected snapshots\<close>

lemma iter_backup_groups_keeps [preserves_intros]: "(\<And>s n. I s \<Longrightarrow> I (s\<lparr>tick := n\<rparr>)) \<Longrightarrow> preserves I (iter_backup_groups io ns)"
  unfolding iter_backup_groups_def by (intro preserves_intros) auto

lemma list_namespaces_keeps [preserves_intros]: "(\<And>s n. I s \<Longrightarrow> I (s\<lparr>tick := n\<rparr>)) \<Longrightarrow> preserves I (list_namespaces_recursive api io ns d)"
  unfolding list_namespaces_recursive_def by (intro preserves_intros) auto

lemma remove_ns_dir_keeps [preserves_intros]:
  "(\<And>s n. I s \<Longrightarrow> I (s\<lparr>tick := n\<rparr>)) \<Longrightarrow> (\<And>s nss. I s \<Longrightarrow> I (s\<lparr>namespaces := nss\<rparr>)) \<Longrightarrow> preserves I (remove_ns_dir api io ns)"
  unfolding remove_ns_dir_def by (intro preserves_intros preserves_modify) auto

lemma remove_groups_loop_protected [preserves_intros]: "stats_work io \<Longrightarrow> preserves (protected_snap k t d) (remove_groups_loop api io acc ks)"
  by (induction ks arbitrary: acc) (auto intro!: preserves_intros)

lemma remove_namespace_protected [preserves_intros]: "stats_work io \<Longrightarrow> preserves (protected_snap k t d) (remove_namespace api io del ns)"
  unfolding remove_namespace_def remove_namespace_groups_def by (intro preserves_intros) auto

lemma remove_all_loop_protected [preserves_intros]: "stats_work io \<Longrightarrow> preserves (protected_snap k t d) (remove_all_loop api io del acc nss)"
  by (induction nss arbitrary: acc) (auto intro!: preserves_intros)

lemma remove_namespace_recursive_protected [preserves_intros]: "stats_work io \<Longrightarrow> preserves (protected_snap k t d) (remove_namespace_recursive api io ns del)"
  unfolding remove_namespace_recursive_def by (intro preserves_intros) auto

text \<open>The operations that remove snapshots, and sequences of them.\<close>

datatype 'n removal = RemoveDir bool "'n gkey" int | RemoveGroup "'n gkey" | RemoveNamespace bool 'n | RemoveRecursive 'n bool

fun run_removal :: "'n pbs_api \<Rightarrow> fsio \<Rightarrow> 'n removal \<Rightarrow> ('n, 'a) dstore \<Rightarrow> ('n, 'a) dstore" where
  "run_removal api io (RemoveDir force k t) s = snd (remove_backup_dir io force k t s)"
| "run_removal api io (RemoveGroup k) s = snd (remove_backup_group api io k s)"
| "run_removal api io (RemoveNamespace del ns) s = snd (remove_namespace api io del ns s)"
| "run_removal api io (RemoveRecursive ns del) s = snd (remove_namespace_recursive api io ns del s)"

fun run_removals :: "'n pbs_api \<Rightarrow> (fsio \<times> 'n removal) list \<Rightarrow> ('n, 'a) dstore \<Rightarrow> ('n, 'a) dstore" where
  "run_removals api [] s = s"
| "run_removals api ((io, r) # rs) s = run_removals api rs (run_removal api io r s)"

lemma preserves_snd: "preserves I m \<Longrightarrow> I s \<Longrightarrow> I (snd (m s))"
  by (cases "m s") (auto dest: preservesD)

lemma run_removal_protected: "stats_work io \<Longrightarrow> protected_snap k t d s \<Longrightarrow> protected_snap k t d (run_removal api io r s)"
  by (cases r) (auto intro!: preserves_snd preserves_intros simp: remove_backup_dir_def)

lemma run_removals_protected: "list_all (\<lambda>(io, r). stats_work io) rs \<Longrightarrow> protected_snap k t d s \<Longrightarrow> protected_snap k t d (run_removals api rs s)"
  by (induction api rs s rule: run_removals.induct) (auto intro: run_removal_protected)

section \<open>Moving keeps files\<close>

text \<open>A file of a snapshot of the group \<open>g\<close> in some namespace.\<close>

definition file_somewhere :: "BackupType \<times> string \<Rightarrow> int \<Rightarrow> string \<Rightarrow> bytes \<Rightarrow> ('n, 'a) dstore \<Rightarrow> bool" where
  "file_somewhere g t n c s \<longleftrightarrow> (\<exists>ns d. snap (ns, g) t s = Some d \<and> map_of d n = Some c)"

lemma file_somewhere_simps:
  "file_somewhere g t n c s \<Longrightarrow> file_somewhere g t n c (s\<lparr>tick := i\<rparr>)" "file_somewhere g t n c s \<Longrightarrow> file_somewhere g t n c (s\<lparr>namespaces := nss\<rparr>)"
  "file_somewhere g t n c s \<Longrightarrow> file_somewhere g t n c (add_namespaces ns s)"
  by (auto simp: file_somewhere_def)

lemma inv_run:
  assumes "triple Q m (\<lambda>_ s. Q s \<and> X s) (\<lambda>_. Q)" "Q s" "m s = (r, s')"
  shows "Q s'" "r = Ok x \<Longrightarrow> X s'"
  using assms by (cases r; auto dest: tripleD)+

lemma lock_and_move_run:
  assumes "map_prefix api (fst k) src tgt = Ok tns" "lock_and_move_group api io src tgt m k s = (r, s')"
  shows "file_at k (tns, snd k) t n c s \<Longrightarrow> file_at k (tns, snd k) t n c s'"
    and "ordered k (tns, snd k) s \<Longrightarrow> ordered k (tns, snd k) s'"
    and "j \<notin> {k, (tns, snd k)} \<Longrightarrow> gdir j s' = gdir j s"
    and "r = Ok x \<Longrightarrow> snaps_of k s' = []"
proof -
  have p: "map_prefix api (fst k) src tgt = Ok (fst (tns, snd k))" "snd (tns, snd k) = snd k" using assms(1) by simp_all
  show "file_at k (tns, snd k) t n c s \<Longrightarrow> file_at k (tns, snd k) t n c s'" by (rule inv_run(1) [OF files.lock_and_move_J [OF p] _ assms(2)])
  show "ordered k (tns, snd k) s \<Longrightarrow> ordered k (tns, snd k) s'" by (rule inv_run(1) [OF order.lock_and_move_J [OF p] _ assms(2)])
  have u: "untouched k (tns, snd k) j (gdir j s) s" by (simp add: untouched_def)
  show "j \<notin> {k, (tns, snd k)} \<Longrightarrow> gdir j s' = gdir j s"
    using inv_run(1) [OF others.lock_and_move_J [OF p] u assms(2)] by (simp add: untouched_def)
  show "r = Ok x \<Longrightarrow> snaps_of k s' = []" by (rule inv_run(2) [OF others.lock_and_move_J [OF p] u assms(2)])
qed

lemma lock_and_move_somewhere [preserves_intros]: "preserves (file_somewhere g t n c) (lock_and_move_group api io src tgt m k)"
proof (cases "map_prefix api (fst k) src tgt")
  case (Inr tns)
  show ?thesis
  proof (rule preservesI)
    fix s r s'
    assume "file_somewhere g t n c s" and run: "lock_and_move_group api io src tgt m k s = (r, s')"
    then obtain ns d where d: "snap (ns, g) t s = Some d" "map_of d n = Some c" by (auto simp: file_somewhere_def)
    show "file_somewhere g t n c s'"
    proof (cases "(ns, g) \<in> {k, (tns, snd k)}")
      case True
      then have "file_at k (tns, snd k) t n c s" using d by (auto simp: file_at_def)
      then have "file_at k (tns, snd k) t n c s'" by (rule lock_and_move_run(1) [OF Inr run])
      moreover have "snd k = g" using True by auto
      ultimately show ?thesis unfolding file_at_def file_somewhere_def by (metis prod.collapse)
    next
      case False
      then have "gdir (ns, g) s' = gdir (ns, g) s" by (rule lock_and_move_run(3) [OF Inr run])
      then have "snap (ns, g) t s' = Some d" using d(1) by (simp add: snap_gdir)
      then show ?thesis using d(2) by (auto simp: file_somewhere_def)
    qed
  qed
qed (simp add: lock_and_move_group_def preserves_throw)

lemma move_all_somewhere [preserves_intros]: "preserves (file_somewhere g t n c) (move_all api io src tgt m last_try ks lg)"
  by (induction ks arbitrary: lg) (auto simp: move_one_def intro!: preserves_intros file_somewhere_simps)

lemma move_namespaces_somewhere [preserves_intros]: "preserves (file_somewhere g t n c) (move_namespaces api io src tgt m nss lg)"
  by (induction nss arbitrary: lg) (auto intro!: preserves_intros file_somewhere_simps)

lemma remove_namespace_somewhere [preserves_intros]: "preserves (file_somewhere g t n c) (remove_namespace api io False ns)"
  unfolding remove_namespace_def if_False by (intro preserves_intros) (auto intro: file_somewhere_simps)

lemma cleanup_source_somewhere [preserves_intros]: "preserves (file_somewhere g t n c) (cleanup_source api io att failed ns)"
  unfolding cleanup_source_def by (intro preserves_intros)

lemma create_target_somewhere [preserves_intros]: "preserves (file_somewhere g t n c) (create_target api io src tgt ns)"
  unfolding create_target_def create_namespace_def namespace_exists_def by (intro preserves_intros preserves_modify) (auto intro: file_somewhere_simps)

lemma check_move_namespace_somewhere [preserves_intros]: "preserves (file_somewhere g t n c) (check_move_namespace api io src tgt)"
  unfolding check_move_namespace_def namespace_exists_def by (intro preserves_intros) (auto intro: file_somewhere_simps)

lemma move_namespace_somewhere: "preserves (file_somewhere g t n c) (move_namespace api io src tgt max_depth del m)"
  unfolding move_namespace_def by (intro preserves_intros) (auto intro: file_somewhere_simps)

lemma move_group_run:
  assumes "map_prefix api (fst k) (fst k) tgt = Ok tns" "move_group api io k tgt m s = (r, s')"
  shows "file_at k (tns, snd k) t n c s \<Longrightarrow> file_at k (tns, snd k) t n c s'"
    and "ordered k (tns, snd k) s \<Longrightarrow> ordered k (tns, snd k) s'"
    and "j \<notin> {k, (tns, snd k)} \<Longrightarrow> gdir j s' = gdir j s"
    and "r = Ok x \<Longrightarrow> snaps_of k s' = []"
proof -
  have p: "map_prefix api (fst k) (fst k) tgt = Ok (fst (tns, snd k))" "snd (tns, snd k) = snd k" using assms(1) by simp_all
  show "file_at k (tns, snd k) t n c s \<Longrightarrow> file_at k (tns, snd k) t n c s'" by (rule inv_run(1) [OF files.move_group_J [OF p] _ assms(2)])
  show "ordered k (tns, snd k) s \<Longrightarrow> ordered k (tns, snd k) s'" by (rule inv_run(1) [OF order.move_group_J [OF p] _ assms(2)])
  have u: "untouched k (tns, snd k) j (gdir j s) s" by (simp add: untouched_def)
  show "j \<notin> {k, (tns, snd k)} \<Longrightarrow> gdir j s' = gdir j s"
    using inv_run(1) [OF others.move_group_J [OF p] u assms(2)] by (simp add: untouched_def)
  show "r = Ok x \<Longrightarrow> snaps_of k s' = []" by (rule inv_run(2) [OF others.move_group_J [OF p] u assms(2)])
qed

lemma triple_after: "preserves P m \<Longrightarrow> (\<And>x. triple P (f x) Q (\<lambda>_ _. True)) \<Longrightarrow> triple P (bnd m f) Q (\<lambda>_ _. True)"
  unfolding preserves_def by (rule triple_bnd [of _ _ "\<lambda>_. P"], erule triple_weaken) auto

text \<open>An existing target is found under its lock at the latest, when the check before could not see it.\<close>

lemma existing_not_created:
  "triple (\<lambda>s. gdir k s \<noteq> None) (create_locked_backup_group_do api io k a) (\<lambda>(_, c) _. \<not> c) (\<lambda>_ _. True)"
proof -
  have dir: "triple (\<lambda>s. gdir k s \<noteq> None) (create_group_dir io k) (\<lambda>c _. \<not> c) (\<lambda>_ _. True)"
    by (rule tripleI) (auto simp: create_group_dir_def st_defs)
  have rest: "triple (\<lambda>_. \<not> c) (bnd (attempt (group_lock io k)) (\<lambda>r. case r of
      Inl e \<Rightarrow> bnd (if c then try_rmdir io k else ret ()) (\<lambda>_. throw (Soft (e @ x)))
    | Inr _ \<Rightarrow> on_error (bnd (if c then m else ret ()) (\<lambda>_. bnd m' (\<lambda>owner. ret (owner, c)))) (unlock k))) (\<lambda>(_, c) _. \<not> c) (\<lambda>_ _. True)" for c x m m'
    by (rule tripleI) (auto simp: st_defs split: prod.splits sum.splits if_splits)
  have path: "preserves (\<lambda>s. gdir k s \<noteq> None) (map_error Hard (syscall io))"
    and names: "preserves (\<lambda>s. gdir k s \<noteq> None) (modify (add_namespaces (ns_ancestors api (fst k) @ [fst k])))"
    by (auto intro!: preserves_intros preserves_modify)
  show ?thesis unfolding create_locked_backup_group_do_def
    by (rule triple_after [OF path], rule triple_after [OF names], rule triple_bnd [OF dir]) (rule rest)
qed

lemma existing_target_fails:
  assumes "map_prefix api (fst k) src tgt = Ok tns" "gdir (tns, snd k) s \<noteq> None"
  shows "\<exists>e s'. lock_and_move_group api io src tgt False k s = (Err e, s')"
proof -
  let ?P = "\<lambda>s. gdir (tns, snd k) s \<noteq> None"
  have body: "triple ?P (bnd (create_locked_backup_group_do api io (tns, snd k) ow) (\<lambda>(_, c). lastly (move_locked api io False k (tns, snd k) c) (unlock (tns, snd k))))
      (\<lambda>_ _. False) (\<lambda>_ _. True)" for ow
    by (rule triple_bnd [OF existing_not_created]) (auto simp: triple_def move_locked_def lastly_def throw_def split: sum.splits)
  have check: "preserves ?P (map_error Hard (check_move_group io k tns False))"
    unfolding check_move_group_def namespace_exists_def by (intro preserves_intros) auto
  have own: "preserves ?P (map_error Hard (get_owner io k))" and lock: "preserves ?P (map_error Soft (group_lock io k))"
    by (auto intro!: preserves_intros)
  have whole: "triple ?P (lock_and_move_group api io src tgt False k) (\<lambda>_ _. False) (\<lambda>_ _. True)"
    unfolding lock_and_move_group_def assms(1) sum.case
    by (rule triple_after [OF lock], rule triple_lastly, rule triple_after [OF check], rule triple_after [OF own]) (rule body)
  obtain r s' where run: "lock_and_move_group api io src tgt False k s = (r, s')" by fastforce
  then show ?thesis using tripleD(1) [OF whole assms(2)] by (cases r) auto
qed

section \<open>Properties\<close>

text \<open>C6. Protected snapshots are safe: no sequence of removals of snapshots, groups and namespaces, with or without
  force, and wherever a lock or a system call other than the stat of a marker fails, changes a snapshot that has the
  protection marker. A failing stat is excluded because \<^verbatim>\<open>Path::exists\<close> then answers that there is no marker.\<close>

theorem protected_never_removed:
  assumes "list_all (\<lambda>(io, r). stats_work io) rs" "snap k t s = Some d" "map_of d PROTECTED_MARKER_FILENAME \<noteq> None"
  shows "snap k t (run_removals api rs s) = Some d"
  using run_removals_protected [of rs k t d s api] assms by (simp add: protected_snap_def)

text \<open>C7. Moving a group never loses data: wherever it fails, every file of every snapshot that was at the source or at
  the target is at the source or at the target afterwards, and other groups are unchanged; if it succeeds, no
  snapshot is left at the source.\<close>

theorem move_group_keeps_files:
  assumes "map_prefix api (fst k) (fst k) tgt = Ok tns" "move_group api io k tgt m s = (r, s')"
  shows "(\<forall>t n c. file_at k (tns, snd k) t n c s \<longrightarrow> file_at k (tns, snd k) t n c s') \<and>
    (\<forall>j. j \<notin> {k, (tns, snd k)} \<longrightarrow> gdir j s' = gdir j s) \<and> (r = Ok () \<longrightarrow> snaps_of k s' = [])"
  using move_group_run [OF assms] by blast

text \<open>C11. A move that fails can be continued: if all snapshots at the target are older than those at the source, which is what
  merging requires and holds when the target is new, then this is so again afterwards, wherever the move fails.\<close>

theorem failed_move_stays_ordered:
  assumes "map_prefix api (fst k) (fst k) tgt = Ok tns" "move_group api io k tgt m s = (r, s')"
    "\<forall>t' \<in> times (tns, snd k) s. \<forall>t \<in> times k s. t' < t"
  shows "\<forall>t' \<in> times (tns, snd k) s'. \<forall>t \<in> times k s'. t' < t"
  using move_group_run(2) [OF assms(1,2)] assms(3) by (simp add: ordered_def)

text \<open>C8. Moving a namespace never loses data: whatever fails, every file of every snapshot is afterwards in a snapshot of
  the same group and time, in some namespace.\<close>

theorem move_namespace_keeps_files:
  assumes "snap (ns, g) t s = Some d" "map_of d n = Some c" "move_namespace api io src tgt max_depth del m s = (r, s')"
  shows "\<exists>ns' d'. snap (ns', g) t s' = Some d' \<and> map_of d' n = Some c"
  using preservesD [OF move_namespace_somewhere _ assms(3), of g t n c] assms(1,2) by (auto simp: file_somewhere_def)

text \<open>C38. A group whose move stopped because one of its snapshots was locked cannot be moved by the retry when merging is
  disabled: the first attempt has left the target group behind, and the second one fails from there, whichever of its
  system calls fail.\<close>

theorem retry_without_merge_fails:
  assumes "map_prefix api (fst k) src tgt = Ok tns" "lock_and_move_group api io src tgt False k s = (Err (Soft SNAPSHOT_LOCK_ERROR), s1)"
  shows "gdir (tns, snd k) s1 \<noteq> None \<and> (\<forall>io'. \<exists>e' s2. lock_and_move_group api io' src tgt False k s1 = (Err e', s2))"
  using existing_target_fails [OF assms(1)] lock_and_move_there [OF assms] by blast

section \<open>Witnesses\<close>

definition path_api :: "string list pbs_api" where
  "path_api = \<lparr>ns_is_root = (\<lambda>n. n = []), ns_depth = length, ns_parent = butlast, ns_ancestors = (\<lambda>n. map (\<lambda>i. take i n) [1..<length n]),
     ns_last = (\<lambda>n. if n = [] then None else Some (last n)), ns_contains = (\<lambda>a b. take (length a) b = a),
     map_prefix = (\<lambda>n a b. if take (length a) n = a then Ok (b @ drop (length a) n) else Err ''not a prefix''),
     from_parent_ns = (\<lambda>p c. Ok (p @ [c])), max_ns_depth = 7, all_removed = (\<lambda>st. protected_snapshots st = 0),
     stats_add = (\<lambda>x y. x\<lparr>protected_snapshots := protected_snapshots x + protected_snapshots y, removed_snapshots := removed_snapshots x + removed_snapshots y,
       removed_groups := removed_groups x + removed_groups y\<rparr>), is_index_name = (\<lambda>n. ends_with ''.fidx'' n \<or> ends_with ''.didx'' n)\<rparr>"

definition example_key :: "string list gkey" where
  "example_key = ([''a''], Host, ''h'')"

definition example_store :: "(string list, nat) dstore" where
  "example_store = \<lparr>tick = 0, held = [], namespaces = [[], [''a''], [''b'']],
     grps = [(example_key, \<lparr>gd_owner = Owner 1, gd_notes = None, gd_snaps = [(5, [(''.protected'', []), (''x.blob'', [1])])]\<rparr>)], moved = []\<rparr>"

definition fault_at :: "nat \<Rightarrow> fsio" where
  "fault_at i = \<lparr>fault = (\<lambda>n. if n = i then Some ''busy'' else None), remains = (\<lambda>n f. False), stat_fails = (\<lambda>n. False), old_locking = False\<rparr>"

lemma example_snap: "snap example_key 5 example_store = Some [(''.protected'', []), (''x.blob'', [1])]"
  by (simp add: snap_def snaps_of_def gdir_def example_store_def)

theorem protected_never_removed_witness:
  "snap example_key 5 (run_removals path_api [(fault_at 3, RemoveDir True example_key 5), (fault_at 9, RemoveRecursive [] True)] example_store) =
     Some [(''.protected'', []), (''x.blob'', [1])]"
  by (rule protected_never_removed [OF _ example_snap]) (simp_all add: PROTECTED_MARKER_FILENAME_def stats_work_def fault_at_def)

lemma example_prefix: "map_prefix path_api (fst example_key) (fst example_key) [''b''] = Ok [''b'']"
  by (simp add: path_api_def example_key_def)

theorem move_group_keeps_files_witness:
  "\<exists>r s'. move_group path_api (fault_at 15) example_key [''b''] False example_store = (r, s') \<and>
     file_at example_key ([''b''], Host, ''h'') 5 ''x.blob'' [1] s'"
proof -
  obtain r s' where r: "move_group path_api (fault_at 15) example_key [''b''] False example_store = (r, s')" by fastforce
  have "file_at example_key ([''b''], Host, ''h'') 5 ''x.blob'' [1] example_store" using example_snap by (auto simp: file_at_def)
  then show ?thesis using move_group_keeps_files [OF example_prefix r] r by (auto simp: example_key_def)
qed

text \<open>The target has an older snapshot already, and the merge fails on the way.\<close>

definition merge_store :: "(string list, nat) dstore" where
  "merge_store = example_store\<lparr>grps := grps example_store @ [(([''b''], Host, ''h''), \<lparr>gd_owner = Owner 1, gd_notes = None, gd_snaps = [(3, [])]\<rparr>)]\<rparr>"

lemma merge_times: "times example_key merge_store = {5}" "times ([''b''], Host, ''h'') merge_store = {3}"
  by (simp_all add: times_def snaps_of_def gdir_def merge_store_def example_store_def example_key_def)

theorem failed_move_stays_ordered_witness:
  "\<exists>r s'. move_group path_api (fault_at 15) example_key [''b''] True merge_store = (r, s') \<and>
     times ([''b''], Host, ''h'') s' \<inter> times example_key s' = {}"
proof -
  obtain r s' where r: "move_group path_api (fault_at 15) example_key [''b''] True merge_store = (r, s')" by fastforce
  have k: "([''b''], snd example_key) = ([''b''], Host, ''h'')" by (simp add: example_key_def)
  from failed_move_stays_ordered [OF example_prefix r, unfolded k] merge_times
  have "\<forall>t' \<in> times ([''b''], Host, ''h'') s'. \<forall>t \<in> times example_key s'. t' < t" by simp
  then show ?thesis using r by fastforce
qed

theorem move_namespace_keeps_files_witness:
  "\<exists>ns' d'. snap (ns', Host, ''h'') 5 (snd (move_namespace path_api (fault_at 15) [''a''] [''b''] None True False example_store)) = Some d' \<and>
     map_of d' ''x.blob'' = Some [1]"
  by (rule move_namespace_keeps_files [of "[''a'']" _ _ example_store "[(''.protected'', []), (''x.blob'', [1])]" _ _ path_api "fault_at 15" "[''a'']" "[''b'']" None True False
        "fst (move_namespace path_api (fault_at 15) [''a''] [''b''] None True False example_store)"])
    (use example_snap in \<open>simp_all add: example_key_def\<close>)

lemma example_locked:
  "\<exists>s1. lock_and_move_group path_api (fault_at 13) [''a''] [''b''] False example_key example_store = (Err (Soft SNAPSHOT_LOCK_ERROR), s1)"
proof -
  have b: "batches MAX_SNAPSHOT_LOCKS [5 :: int] = [[5]]" by (simp add: batches.simps MAX_SNAPSHOT_LOCKS_def)
  show ?thesis
    by (simp add: lock_and_move_group_def path_api_def example_key_def example_store_def fault_at_def st_defs group_lock_def syscall_def check_move_group_def
        namespace_exists_def group_exists_def path_exists_def gdir_def get_owner_def create_locked_backup_group_do_def create_group_dir_def add_namespaces_def set_owner_def upd_group_def empty_group_def
        move_locked_def move_snapshots_def iter_snapshots_def move_batch_def b unlock_def)
qed

theorem retry_without_merge_fails_witness:
  "\<exists>s1 e' s2. lock_and_move_group path_api (fault_at 13) [''a''] [''b''] False example_key example_store = (Err (Soft SNAPSHOT_LOCK_ERROR), s1) \<and>
     gdir ([''b''], Host, ''h'') s1 \<noteq> None \<and> lock_and_move_group path_api (fault_at 1000) [''a''] [''b''] False example_key s1 = (Err e', s2)"
proof -
  obtain s1 where s1: "lock_and_move_group path_api (fault_at 13) [''a''] [''b''] False example_key example_store = (Err (Soft SNAPSHOT_LOCK_ERROR), s1)"
    using example_locked by blast
  have p: "map_prefix path_api (fst example_key) [''a''] [''b''] = Ok [''b'']" by (simp add: path_api_def example_key_def)
  have "gdir ([''b''], snd example_key) s1 \<noteq> None" "\<exists>e' s2. lock_and_move_group path_api (fault_at 1000) [''a''] [''b''] False example_key s1 = (Err e', s2)"
    using retry_without_merge_fails [OF p s1] by blast+
  then show ?thesis using s1 by (auto simp: example_key_def)
qed

end
