(* ===== verification/MoveRetry.thy ===== *)
theory MoveRetry
  imports Namespaces
begin

text \<open>
  A move that nothing disturbs succeeds: no lock is held, no system call fails, and for a merge the owners agree
  and the snapshots at the target are older. A failed move keeps that order, so a merge can be continued when the
  failure was not in writing the owner of the new target or in removing the emptied source.
\<close>

definition calm :: "fsio \<Rightarrow> bool" where
  "calm io \<longleftrightarrow> (\<forall>n. fault io n = None \<and> \<not> stat_fails io n) \<and> \<not> old_locking io"

definition succeeds :: "('s \<Rightarrow> bool) \<Rightarrow> ('e, 's, 'a) st \<Rightarrow> ('a \<Rightarrow> 's \<Rightarrow> bool) \<Rightarrow> bool" where
  "succeeds P m Q \<longleftrightarrow> triple P m Q (\<lambda>_ _. False)"

named_theorems succ_intros

lemma succeedsI: "(\<And>s. P s \<Longrightarrow> \<exists>x s'. m s = (Ok x, s') \<and> Q x s') \<Longrightarrow> succeeds P m Q"
  unfolding succeeds_def triple_def by (fastforce split: sum.splits)

lemma succeedsD: "succeeds P m Q \<Longrightarrow> P s \<Longrightarrow> \<exists>x s'. m s = (Ok x, s') \<and> Q x s'"
  unfolding succeeds_def triple_def by (cases "m s"; cases "fst (m s)") fastforce+

lemma succ_bnd: "succeeds P m R \<Longrightarrow> (\<And>x. succeeds (R x) (f x) Q) \<Longrightarrow> succeeds P (bnd m f) Q"
  unfolding succeeds_def by (rule triple_bnd)

lemma succ_ret: "succeeds P (ret x) (\<lambda>y s. P s \<and> y = x)"
  by (rule succeedsI) (simp add: ret_def)

lemma succ_map_error: "succeeds P m Q \<Longrightarrow> succeeds P (map_error g m) Q"
  unfolding succeeds_def by (rule triple_map_error)

lemma succ_attempt: "succeeds P m Q \<Longrightarrow> succeeds P (attempt m) (\<lambda>r s. \<exists>x. r = Inr x \<and> Q x s)"
  unfolding succeeds_def by (rule triple_attempt) (auto elim: triple_weaken)

lemma succ_lastly: "succeeds P m Q \<Longrightarrow> (\<And>x s. Q x s \<Longrightarrow> Q x (f s)) \<Longrightarrow> succeeds P (lastly m f) Q"
  unfolding succeeds_def by (rule triple_lastly) (auto elim: triple_weaken)

lemma succ_on_error: "succeeds P m Q \<Longrightarrow> succeeds P (on_error m f) Q"
  unfolding succeeds_def by (rule triple_on_error)

lemma succ_weaken: "succeeds P m Q \<Longrightarrow> (\<And>s. P' s \<Longrightarrow> P s) \<Longrightarrow> (\<And>x s. Q x s \<Longrightarrow> Q' x s) \<Longrightarrow> succeeds P' m Q'"
  unfolding succeeds_def by (erule triple_weaken) auto

lemma succ_for_each: "(\<And>x ys. succeeds (I (x # ys)) (f x) (\<lambda>_. I ys)) \<Longrightarrow> succeeds (I xs) (for_each f xs) (\<lambda>_. I [])"
  unfolding succeeds_def by (rule triple_for_each)

lemma succ_then: "succeeds P m (\<lambda>_. P) \<Longrightarrow> (\<And>x. succeeds P (f x) Q) \<Longrightarrow> succeeds P (bnd m f) Q"
  by (rule succ_bnd)

lemma succ_bnd_val:
  assumes "succeeds P m (\<lambda>x s. R s \<and> x = a)" "succeeds R (f a) Q"
  shows "succeeds P (bnd m f) Q"
  using assms(1)
proof (rule succ_bnd)
  fix x
  show "succeeds (\<lambda>s. R s \<and> x = a) (f x) Q"
    by (cases "x = a") (use assms(2) in \<open>auto simp: succeeds_def triple_def\<close>)
qed

lemma succ_syscall:
  assumes "calm io" "\<And>s n. P s \<Longrightarrow> P (s\<lparr>tick := n\<rparr>)"
  shows "succeeds P (syscall io) (\<lambda>_. P)"
  by (rule succeedsI) (use assms in \<open>simp add: syscall_def calm_def\<close>)

lemma succ_iter_loop:
  assumes "calm io" "\<And>s n. P s \<Longrightarrow> P (s\<lparr>tick := n\<rparr>)"
  shows "succeeds P (iter_loop io ts) (\<lambda>r s. P s \<and> r = map Ok ts)"
proof (induction ts)
  case Nil
  show ?case unfolding iter_loop.simps by (rule succ_weaken [OF succ_ret]) auto
next
  case (Cons t ts)
  show ?case
  proof (rule succeedsI)
    fix s
    assume "P s"
    then obtain s' where "iter_loop io ts (s\<lparr>tick := Suc (tick s)\<rparr>) = (Ok (map Ok ts), s')" "P s'"
      using succeedsD [OF Cons.IH, of "s\<lparr>tick := Suc (tick s)\<rparr>"] assms(2) by auto
    then show "\<exists>x s'. iter_loop io (t # ts) s = (Ok x, s') \<and> P s' \<and> x = map Ok (t # ts)"
      using assms(1) by (simp add: st_defs syscall_def calm_def)
  qed
qed

lemma succ_iter_snapshots:
  assumes "calm io" "\<And>s n. P s \<Longrightarrow> P (s\<lparr>tick := n\<rparr>)" "\<And>s. P s \<Longrightarrow> gdir k s \<noteq> None"
  shows "succeeds P (iter_snapshots io k) (\<lambda>r s. P s \<and> r = map Ok (map fst (snaps_of k s)))"
proof (rule succeedsI)
  fix s
  assume "P s"
  then obtain g where g: "gdir k s = Some g" using assms(3) by blast
  let ?P = "\<lambda>s'. P s' \<and> gdir k s' = Some g"
  obtain x s' where "iter_loop io (map fst (gd_snaps g)) (s\<lparr>tick := Suc (tick s)\<rparr>) = (Ok x, s')" "?P s'" "x = map Ok (map fst (gd_snaps g))"
    using succeedsD [OF succ_iter_loop [OF assms(1), of ?P "map fst (gd_snaps g)"], of "s\<lparr>tick := Suc (tick s)\<rparr>"] assms(2) \<open>P s\<close> g by auto
  then show "\<exists>x s'. iter_snapshots io k s = (Ok x, s') \<and> P s' \<and> x = map Ok (map fst (snaps_of k s'))"
    using g assms(1) by (simp add: iter_snapshots_def st_defs syscall_def calm_def snaps_of_def)
qed

lemma oks_Ok [simp]: "oks (map Ok ts) = ts"
  by (induction ts) auto

lemma collect_Ok [simp]: "collect_items (map Ok ts) = Ok ts"
  by (induction ts) auto

section \<open>The snapshots\<close>

definition ready :: "'n gkey \<Rightarrow> 'n gkey \<Rightarrow> int list \<Rightarrow> ('n, 'a) dstore \<Rightarrow> bool" where
  "ready k k' rem s \<longleftrightarrow> gdir k s \<noteq> None \<and> gdir k' s \<noteq> None \<and> ordered k k' s \<and> times k s = set rem \<and> sorted rem \<and> distinct rem"

lemma ready_meta: "ready k k' rem s \<Longrightarrow> grps s' = grps s \<Longrightarrow> ready k k' rem s'"
  using order.meta [of k k' s s'] by (simp add: ready_def snap_gdir_eq(2) [of s' s] times_def snaps_of_def)

lemma ready_rename:
  assumes "k \<noteq> k'" "ready k k' (t # ts) s"
  obtains d where "snap k t s = Some d" "snap k' t s = None" "gdir k' s \<noteq> None" "ready k k' ts (set_snap k' t d (del_snap k t s))"
proof -
  have t: "t \<in> times k s" "\<forall>t' \<in> times k s. t \<le> t'" and r: "gdir k s \<noteq> None" "gdir k' s \<noteq> None" "ordered k k' s" "times k s = insert t (set ts)" "t \<notin> set ts"
    using assms(2) by (auto simp: ready_def)
  obtain d where d: "snap k t s = Some d" using t(1) by (auto simp: times_snap)
  have n: "snap k' t s = None"
  proof (rule ccontr)
    assume "snap k' t s \<noteq> None"
    then have "t \<in> times k' s" by (simp add: times_snap)
    then show False using r(3) t(1) by (auto simp: ordered_def)
  qed
  have "ordered k k' (set_snap k' t d (del_snap k t s))" using order.rename [OF r(3) d t(2) r(2)] n by simp
  moreover have "times k (set_snap k' t d (del_snap k t s)) = set ts" unfolding times_rename(1) [OF assms(1)] using r(4,5) by auto
  ultimately have "ready k k' ts (set_snap k' t d (del_snap k t s))" using r assms(2) by (simp add: ready_def)
  then show thesis using that d n r(2) by blast
qed

lemma succ_move_to:
  assumes "calm io" "k \<noteq> k'"
  shows "succeeds (ready k k' (t # ts)) (move_to api io k k' t) (\<lambda>_. ready k k' ts)"
proof (rule succeedsI)
  fix s
  assume "ready k k' (t # ts) s"
  then obtain d where d: "snap k t s = Some d" by (rule ready_rename [OF assms(2)])
  let ?s = "s\<lparr>moved := moved s @ map (\<lambda>n. (k', t, n)) (filter (is_index_name api) (map fst d)), tick := Suc (Suc (Suc (tick s)))\<rparr>"
  have "ready k k' (t # ts) ?s" using \<open>ready k k' (t # ts) s\<close> by (rule ready_meta) simp
  then show "\<exists>x s'. move_to api io k k' t s = (Ok x, s') \<and> ready k k' ts s'"
  proof (rule ready_rename [OF assms(2)])
    fix d'
    assume r: "snap k t ?s = Some d'" "snap k' t ?s = None" "gdir k' ?s \<noteq> None" "ready k k' ts (set_snap k' t d' (del_snap k t ?s))"
    then have "move_to api io k k' t s = (Ok (), set_snap k' t d' (del_snap k t ?s))"
      using d assms(1) by (auto simp: move_to_def rename_snap_def st_defs syscall_def calm_def)
    then show ?thesis using r(4) by blast
  qed
qed

lemma succ_move_batch:
  assumes "calm io" "k \<noteq> k'"
  shows "succeeds (ready k k' (ts @ rest)) (move_batch api io k k' ts) (\<lambda>_. ready k k' rest)"
proof -
  have "succeeds (ready k k' (ts @ rest)) (for_each (\<lambda>t. map_error (\<lambda>e. Soft SNAPSHOT_LOCK_ERROR) (syscall io)) ts) (\<lambda>_. ready k k' (ts @ rest))"
    by (rule succ_for_each [where I = "\<lambda>_. ready k k' (ts @ rest)"], rule succ_map_error, rule succ_syscall [OF assms(1)]) (erule ready_meta, simp)
  moreover have "succeeds (ready k k' (ts @ rest)) (for_each (\<lambda>t. map_error Hard (move_to api io k k' t)) ts) (\<lambda>_. ready k k' ([] @ rest))"
    by (rule succ_for_each, simp only: append_Cons, rule succ_map_error, rule succ_move_to [OF assms])
  ultimately show ?thesis unfolding move_batch_def by (auto intro: succ_then)
qed

lemma succ_move_snapshots:
  assumes "calm io" "k \<noteq> k'"
  shows "succeeds (\<lambda>s. gdir k s \<noteq> None \<and> gdir k' s \<noteq> None \<and> ordered k k' s \<and> distinct (map fst (snaps_of k s))) (move_snapshots api io k k')
    (\<lambda>_ s. gdir k s \<noteq> None \<and> snaps_of k s = [])"
proof -
  let ?P = "\<lambda>s. gdir k s \<noteq> None \<and> gdir k' s \<noteq> None \<and> ordered k k' s \<and> distinct (map fst (snaps_of k s))"
  have "succeeds ?P (iter_snapshots io k) (\<lambda>r s. ?P s \<and> r = map Ok (map fst (snaps_of k s)))"
    by (rule succ_iter_snapshots [OF assms(1)]) (auto simp: order.meta_simps)
  moreover have "succeeds (\<lambda>s. ?P s \<and> r = map Ok (map fst (snaps_of k s)))
      (bnd (map_error Hard (of_result (collect_items r))) (\<lambda>snapshots. for_each (move_batch api io k k') (batches MAX_SNAPSHOT_LOCKS (sort snapshots))))
      (\<lambda>_ s. gdir k s \<noteq> None \<and> snaps_of k s = [])" for r
  proof (rule succeedsI)
    fix s
    assume P: "?P s \<and> r = map Ok (map fst (snaps_of k s))"
    let ?ts = "sort (map fst (snaps_of k s))"
    let ?bs = "batches MAX_SNAPSHOT_LOCKS ?ts"
    have "concat ?bs = ?ts" by (rule sorted_batches) (simp add: MAX_SNAPSHOT_LOCKS_def)
    then have "ready k k' (concat ?bs) s" using P by (simp add: ready_def times_def)
    moreover have "succeeds (ready k k' (concat ?bs)) (for_each (move_batch api io k k') ?bs) (\<lambda>_. ready k k' (concat []))"
      by (rule succ_for_each [where I = "\<lambda>bs. ready k k' (concat bs)"], simp only: concat.simps, rule succ_move_batch [OF assms])
    ultimately obtain s' where "for_each (move_batch api io k k') ?bs s = (Ok (), s')" "ready k k' [] s'" by (auto dest: succeedsD)
    moreover have "collect_items r = Ok (map fst (snaps_of k s))" using P by (simp del: map_map)
    ultimately show "\<exists>x s'. bnd (map_error Hard (of_result (collect_items r))) (\<lambda>snapshots. for_each (move_batch api io k k') (batches MAX_SNAPSHOT_LOCKS (sort snapshots))) s = (Ok x, s') \<and>
        gdir k s' \<noteq> None \<and> snaps_of k s' = []"
      using P by (simp add: st_defs ready_def times_empty)
  qed
  ultimately show ?thesis unfolding move_snapshots_def by (rule succ_bnd [OF succ_map_error])
qed

section \<open>The whole move\<close>

lemma succ_move_notes:
  assumes "calm io"
  shows "succeeds (\<lambda>s. gdir k s \<noteq> None \<and> snaps_of k s = []) (move_notes_to io k k') (\<lambda>_ s. gdir k s \<noteq> None \<and> snaps_of k s = [])"
  by (rule succeedsI) (use assms in \<open>auto simp: move_notes_to_def st_defs syscall_def calm_def split: option.split\<close>)

lemma gdir_deleted: "gdir k (s\<lparr>grps := AList.delete k gs\<rparr>) = None"
  by (simp add: gdir_def AList.delete_conv)

lemma succ_group_destroy:
  assumes "calm io" "all_removed api zero_stats"
  shows "succeeds (\<lambda>s. gdir k s \<noteq> None \<and> snaps_of k s = []) (group_destroy api io k) (\<lambda>_ s. gdir k s = None)"
  by (rule succeedsI)
    (use assms in \<open>auto simp: group_destroy_def iter_snapshots_def remove_group_dir_def remove_dir_def st_defs syscall_def calm_def snaps_of_def gdir_deleted\<close>)

lemma fold_min_in: "fold (\<lambda>curr oldest. if curr < oldest then curr else oldest) ts x \<in> insert x (set ts)"
  for x :: "'x :: linorder"
proof (induction ts arbitrary: x)
  case (Cons t ts)
  then show ?case using Cons.IH [of t] Cons.IH [of x] by auto
qed simp

text \<open>Source and target of a merge.\<close>

definition mergeable :: "'a \<Rightarrow> 'n gkey \<Rightarrow> 'n gkey \<Rightarrow> ('n, 'a) dstore \<Rightarrow> bool" where
  "mergeable a k k' s \<longleftrightarrow> (\<exists>g g'. gdir k s = Some g \<and> gdir k' s = Some g' \<and> gd_owner g = Owner a \<and> gd_owner g' = Owner a) \<and> ordered k k' s \<and>
     distinct (map fst (snaps_of k s))"

lemma mergeable_meta: "mergeable a k k' s \<Longrightarrow> grps s' = grps s \<Longrightarrow> mergeable a k k' s'"
  using order.meta [of k k' s s'] by (simp add: mergeable_def snap_gdir_eq(2) [of s' s] snaps_of_def)

lemma mergeable_there: "mergeable a k k' s \<Longrightarrow> gdir k s \<noteq> None" "mergeable a k k' s \<Longrightarrow> gdir k' s \<noteq> None"
  by (auto simp: mergeable_def)

lemma succ_get_owner:
  assumes "calm io" "\<And>s n. P s \<Longrightarrow> P (s\<lparr>tick := n\<rparr>)" "\<And>s. P s \<Longrightarrow> \<exists>g. gdir k s = Some g \<and> gd_owner g = Owner a"
  shows "succeeds P (get_owner io k) (\<lambda>b s. P s \<and> b = a)"
  by (rule succeedsI) (use assms in \<open>fastforce simp: get_owner_def st_defs syscall_def calm_def\<close>)

lemma succ_check_merge:
  assumes "calm io"
  shows "succeeds (mergeable a k k') (check_merge_invariants io k k') (\<lambda>_. mergeable a k k')"
proof -
  have meta: "mergeable a k k' s \<Longrightarrow> mergeable a k k' (s\<lparr>tick := n\<rparr>)" for s n by (erule mergeable_meta) simp
  have own: "succeeds (mergeable a k k') (get_owner io j) (\<lambda>b s. mergeable a k k' s \<and> b = a)" if "j \<in> {k, k'}" for j
    by (rule succ_get_owner [OF assms], erule meta) (use that in \<open>auto simp: mergeable_def\<close>)
  have src: "succeeds (mergeable a k k') (iter_snapshots io k) (\<lambda>r s. mergeable a k k' s \<and> r = map Ok (map fst (snaps_of k s)))"
    by (rule succ_iter_snapshots [OF assms], erule meta, erule mergeable_there(1))
  have tgt: "succeeds (\<lambda>s. mergeable a k k' s \<and> x \<in> times k s) (iter_snapshots io k')
      (\<lambda>r s. (mergeable a k k' s \<and> x \<in> times k s) \<and> r = map Ok (map fst (snaps_of k' s)))" for x
    by (rule succ_iter_snapshots [OF assms]) (auto dest: mergeable_there intro: meta)
  have check: "succeeds (\<lambda>s. (mergeable a k k' s \<and> x \<in> times k s) \<and> r = map Ok (map fst (snaps_of k' s)))
      (ensure (\<not> list_ex (\<lambda>t. t \<ge> x) (oks r)) e) (\<lambda>_. mergeable a k k')" for x r and e :: err
    by (rule succeedsI) (force simp: st_defs mergeable_def ordered_def times_def list_ex_iff simp del: map_map)
  have rest: "succeeds (\<lambda>s. mergeable a k k' s \<and> items = map Ok (map fst (snaps_of k s)))
      (let src_oldest = fold (\<lambda>curr oldest. if curr < oldest then curr else oldest) (oks items) i64_max in
         if src_oldest \<noteq> i64_max
         then bnd (iter_snapshots io k') (\<lambda>items'. ensure (\<not> list_ex (\<lambda>t. t \<ge> src_oldest) (oks items')) e)
         else ret ()) (\<lambda>_. mergeable a k k')" for items and e :: err
  proof (cases "fold (\<lambda>curr oldest. if curr < oldest then curr else oldest) (oks items) i64_max = i64_max")
    case True
    then show ?thesis by (auto simp: Let_def intro: succ_weaken [OF succ_ret])
  next
    case False
    let ?x = "fold (\<lambda>curr oldest. if curr < oldest then curr else oldest) (oks items) i64_max"
    have x: "items = map Ok (map fst (snaps_of k s)) \<Longrightarrow> ?x \<in> times k s" for s
      using fold_min_in [of "oks items" i64_max] False by (auto simp: times_def simp del: map_map)
    have "succeeds (\<lambda>s. mergeable a k k' s \<and> items = map Ok (map fst (snaps_of k s)))
        (bnd (iter_snapshots io k') (\<lambda>items'. ensure (\<not> list_ex (\<lambda>t. t \<ge> ?x) (oks items')) e)) (\<lambda>_. mergeable a k k')"
      by (rule succ_weaken [OF succ_bnd [OF tgt check]], use x in blast)
    then show ?thesis using False by (simp only: Let_def not_False_eq_True if_True)
  qed
  show ?thesis
    unfolding check_merge_invariants_def
    by (rule succ_bnd_val [OF own [of k]], simp, rule succ_bnd_val [OF own [of k']], simp, simp only: not_True_eq_False if_False simp_thms)
      (rule succ_bnd [OF src rest])
qed

lemma succ_move_locked:
  assumes "calm io" "k \<noteq> k'" "all_removed api zero_stats" "created \<or> m"
  shows "succeeds (mergeable a k k') (move_locked api io m k k' created) (\<lambda>_ s. gdir k s = None)"
proof -
  have c: "succeeds (mergeable a k k') (if created then ret () else map_error Hard (check_merge_invariants io k k')) (\<lambda>_. mergeable a k k')"
  proof (cases created)
    case True
    then show ?thesis by (simp, intro succ_weaken [OF succ_ret]) auto
  qed (simp add: succ_map_error [OF succ_check_merge [OF assms(1)]])
  have mv: "succeeds (mergeable a k k') (move_snapshots api io k k') (\<lambda>_ s. gdir k s \<noteq> None \<and> snaps_of k s = [])"
    by (rule succ_weaken [OF succ_move_snapshots [OF assms(1,2)]]) (auto simp: mergeable_def)
  have d: "succeeds (\<lambda>s. gdir k s \<noteq> None \<and> snaps_of k s = []) (bnd (map_error Hard (group_destroy api io k)) (\<lambda>_. ret ())) (\<lambda>_ s. gdir k s = None)"
    by (rule succ_bnd [OF succ_map_error [OF succ_group_destroy [OF assms(1,3)]]]) (rule succ_weaken [OF succ_ret], auto)
  have "succeeds (mergeable a k k') (bnd (if created then ret () else map_error Hard (check_merge_invariants io k k')) (\<lambda>_.
        bnd (move_snapshots api io k k') (\<lambda>_. bnd (map_error Hard (move_notes_to io k k')) (\<lambda>_.
        bnd (map_error Hard (group_destroy api io k)) (\<lambda>_. ret ()))))) (\<lambda>_ s. gdir k s = None)"
    by (intro succ_bnd [OF c] succ_bnd [OF mv] succ_bnd [OF succ_map_error [OF succ_move_notes [OF assms(1)]]] d)
  then show ?thesis using assms(4) by (auto simp: move_locked_def)
qed

lemma create_locked_calm:
  assumes "calm io" "k \<noteq> k'" "k' \<notin> set (held s)" "gdir k' s = None \<or> (\<exists>g'. gdir k' s = Some g' \<and> gd_owner g' = Owner a)"
  shows "\<exists>s'. create_locked_backup_group_do api io k' a s = (Ok (a, gdir k' s = None), s') \<and> gdir k s' = gdir k s \<and>
    (\<exists>g'. gdir k' s' = Some g' \<and> gd_owner g' = Owner a \<and> gd_snaps g' = snaps_of k' s)"
proof (cases "gdir k' s")
  case None
  then show ?thesis
    using assms by (auto simp: create_locked_backup_group_do_def create_group_dir_def set_owner_def get_owner_def group_lock_def st_defs syscall_def calm_def
        add_namespaces_def upd_group_def gdir_def map_of_map_entry empty_group_def snaps_of_def)
next
  case (Some g')
  then show ?thesis
    using assms by (auto simp: create_locked_backup_group_do_def create_group_dir_def get_owner_def group_lock_def st_defs syscall_def calm_def
        add_namespaces_def gdir_def snaps_of_def)
qed

lemma undisturbed_move:
  assumes "calm io" "all_removed api zero_stats" "map_prefix api (fst k) src tgt = Ok tns" "fst k \<noteq> tns" "tns \<in> set (namespaces s)"
    "k \<notin> set (held s)" "(tns, snd k) \<notin> set (held s)" "gdir k s = Some g" "gd_owner g = Owner a" "distinct (map fst (gd_snaps g))"
    "gdir (tns, snd k) s = None \<or> (m \<and> (\<exists>g'. gdir (tns, snd k) s = Some g' \<and> gd_owner g' = Owner a) \<and> ordered k (tns, snd k) s)"
  shows "\<exists>s'. lock_and_move_group api io src tgt m k s = (Ok (), s') \<and> gdir k s' = None"
proof -
  let ?k' = "(tns, snd k)"
  let ?s1 = "s\<lparr>held := k # held s, tick := Suc (Suc (Suc (Suc (Suc (tick s)))))\<rparr>"
  have kk: "k \<noteq> ?k'" using assms(4) by (cases k) auto
  have "?k' \<notin> set (held ?s1)" using assms(7) kk by auto
  then obtain s2 where s2: "create_locked_backup_group_do api io ?k' a ?s1 = (Ok (a, gdir ?k' s = None), s2)" "gdir k s2 = Some g"
    "\<exists>g'. gdir ?k' s2 = Some g' \<and> gd_owner g' = Owner a \<and> gd_snaps g' = snaps_of ?k' s"
    using create_locked_calm [OF assms(1) kk, of ?s1 a api] assms(8,11) by auto
  have t: "times k s2 = times k s" "times ?k' s2 = times ?k' s"
    using s2(2,3) assms(8) by (auto simp: times_def snaps_of_def [of k] snaps_of_def [of ?k' s2])
  have "ordered k ?k' s" using assms(11) by (auto simp: ordered_def times_def snaps_of_def)
  then have "mergeable a k ?k' s2" using s2(2,3) assms(8-10) t by (auto simp: mergeable_def ordered_def snaps_of_def)
  then obtain s3 where s3: "move_locked api io m k ?k' (gdir ?k' s = None) s2 = (Ok (), s3)" "gdir k s3 = None"
    using succeedsD [OF succ_move_locked [OF assms(1) kk assms(2), of "gdir ?k' s = None" m a]] assms(11) by fastforce
  have "lock_and_move_group api io src tgt m k s = (Ok (), unlock k (unlock ?k' s3))"
    using assms(1,3-6,8,9,11) s2(1) s3(1)
    by (auto simp: lock_and_move_group_def group_lock_def check_move_group_def namespace_exists_def group_exists_def path_exists_def get_owner_def st_defs syscall_def calm_def)
  then show ?thesis using s3(2) by simp
qed

section \<open>Properties\<close>

text \<open>C12. A move can be completed: if no lock is held and nothing fails, moving a group succeeds and removes the source, when the
  target does not exist, or, with merging, when it has the same owner and only older snapshots.\<close>

theorem undisturbed_move_succeeds:
  assumes "calm io" "all_removed api zero_stats" "map_prefix api (fst k) (fst k) tgt = Ok tns" "fst k \<noteq> tns" "tns \<in> set (namespaces s)"
    "k \<notin> set (held s)" "(tns, snd k) \<notin> set (held s)" "gdir k s = Some g" "gd_owner g = Owner a" "distinct (map fst (gd_snaps g))"
    "gdir (tns, snd k) s = None \<or>
       (m \<and> (\<exists>g'. gdir (tns, snd k) s = Some g' \<and> gd_owner g' = Owner a) \<and> (\<forall>t' \<in> times (tns, snd k) s. \<forall>t \<in> times k s. t' < t))"
  shows "\<exists>s'. move_group api io k tgt m s = (Ok (), s') \<and> gdir k s' = None"
proof -
  obtain s' where "lock_and_move_group api io (fst k) tgt m k s = (Ok (), s')" "gdir k s' = None"
    using undisturbed_move [OF assms(1-10), of m] assms(11) by (auto simp: ordered_def)
  then show ?thesis using assms(1) by (simp add: move_group_def map_error_def calm_def)
qed

theorem undisturbed_move_succeeds_witness:
  "\<exists>s'. move_group path_api \<lparr>fault = (\<lambda>n. None), remains = (\<lambda>n f. False), stat_fails = (\<lambda>n. False), old_locking = False\<rparr> example_key [''b''] False example_store = (Ok (), s') \<and>
     gdir example_key s' = None"
  by (rule undisturbed_move_succeeds [OF _ _ example_prefix, where g = "\<lparr>gd_owner = Owner 1, gd_notes = None, gd_snaps = [(5, [(''.protected'', []), (''x.blob'', [1])])]\<rparr>"])
    (simp_all add: calm_def path_api_def zero_stats_def example_key_def example_store_def gdir_def)

end
