(* ===== verification/SyncSelect.thy ===== *)
theory SyncSelect
  imports Namespaces SyncChunks SortBy
begin

text \<open>
  Which snapshots of a group a pull transfers and which local ones it removes (the selection in \<^verbatim>\<open>pull_group\<close> of
  \<^verbatim>\<open>src/server/pull.rs\<close> with the filters and statistics of \<^verbatim>\<open>src/server/sync.rs\<close>), on the groups and snapshots of \<open>SnapStore\<close>.
  Logging cannot fail, and durations do not overflow.
\<close>

section \<open>Statistics\<close>

record RemovedVanishedStats =
  rv_groups :: nat
  rv_snapshots :: nat
  rv_namespaces :: nat

definition removed_add :: "RemovedVanishedStats \<Rightarrow> RemovedVanishedStats \<Rightarrow> RemovedVanishedStats" where
  "removed_add a b = \<lparr>rv_groups = wrapping_add (rv_groups a) (rv_groups b), rv_snapshots = wrapping_add (rv_snapshots a) (rv_snapshots b),
     rv_namespaces = wrapping_add (rv_namespaces a) (rv_namespaces b)\<rparr>"

record SyncStats =
  ss_chunk_count :: nat
  ss_bytes :: nat
  ss_elapsed :: nat
  ss_removed :: "RemovedVanishedStats option"

definition SyncStats_default :: SyncStats where
  "SyncStats_default = \<lparr>ss_chunk_count = 0, ss_bytes = 0, ss_elapsed = 0, ss_removed = None\<rparr>"

definition from_removed :: "RemovedVanishedStats \<Rightarrow> SyncStats" where
  "from_removed r = SyncStats_default\<lparr>ss_removed := Some r\<rparr>"

definition sync_stats_add :: "SyncStats \<Rightarrow> SyncStats \<Rightarrow> SyncStats" where
  "sync_stats_add a b =
     \<lparr>ss_chunk_count = wrapping_add (ss_chunk_count a) (ss_chunk_count b), ss_bytes = wrapping_add (ss_bytes a) (ss_bytes b),
      ss_elapsed = ss_elapsed a + ss_elapsed b,
      ss_removed = (case ss_removed b of None \<Rightarrow> ss_removed a
        | Some rb \<Rightarrow> (case ss_removed a of Some ra \<Rightarrow> Some (removed_add ra rb) | None \<Rightarrow> Some rb))\<rparr>"

datatype SkipReason = AlreadySynced | TransferLast

record SkipInfo =
  sk_oldest :: int
  sk_newest :: int
  sk_count :: nat
  sk_reason :: SkipReason

definition SkipInfo_new :: "SkipReason \<Rightarrow> SkipInfo" where
  "SkipInfo_new r = \<lparr>sk_oldest = i64_max, sk_newest = - (2 ^ 63), sk_count = 0, sk_reason = r\<rparr>"

definition skip_reset :: "SkipInfo \<Rightarrow> SkipInfo" where
  "skip_reset i = i\<lparr>sk_count := 0, sk_oldest := i64_max, sk_newest := - (2 ^ 63)\<rparr>"

definition skip_update :: "int \<Rightarrow> SkipInfo \<Rightarrow> SkipInfo" where
  "skip_update t i =
     i\<lparr>sk_count := wrapping_add (sk_count i) 1, sk_oldest := (if t < sk_oldest i then t else sk_oldest i),
       sk_newest := (if t > sk_newest i then t else sk_newest i)\<rparr>"

section \<open>Snapshots of the source\<close>

datatype VerifyState = VerifyOk | VerifyFailed

record SnapshotListItem =
  it_time :: int
  it_size :: "nat option"
  it_verification :: "VerifyState option"
  it_files :: "(string \<times> CryptModeInfo option) list"

definition filter_out_in_progress :: "SnapshotListItem list \<Rightarrow> SnapshotListItem list" where
  "filter_out_in_progress items = filter (\<lambda>i. it_size i \<noteq> None) items"

definition ignore_not_verified_or_encrypted :: "(BackupManifest \<Rightarrow> (err, VerifyState option) result) \<Rightarrow> BackupManifest \<Rightarrow> bool \<Rightarrow> bool \<Rightarrow> bool" where
  "ignore_not_verified_or_encrypted verify_state m verified_only encrypted_only =
     (if verified_only \<and> verify_state m \<noteq> Ok (Some VerifyOk) then True
      else if encrypted_only \<and> \<not> list_all (\<lambda>f. chunk_crypt_mode f = Encrypt) (bm_files m) then True
      else False)"

definition exclude_not_verified_or_encrypted :: "SnapshotListItem \<Rightarrow> bool \<Rightarrow> bool \<Rightarrow> bool" where
  "exclude_not_verified_or_encrypted item verified_only encrypted_only =
     (if verified_only \<and> it_verification item \<noteq> Some VerifyOk then True
      else if encrypted_only \<and> \<not> list_all (\<lambda>(name, mode).
          if name = MANIFEST_NAME then mode = Some SignOnly
          else if name = CLIENT_LOG_NAME then True
          else mode = Some Encrypt) (it_files item) then True
      else False)"

section \<open>Selection\<close>

record pull_params =
  verified_only :: bool
  encrypted_only :: bool
  resync_corrupt :: bool
  remove_vanished :: bool
  transfer_last :: "nat option"

text \<open>\<open>verify d\<close>: \<^verbatim>\<open>verify_state\<close> of the manifest in the local directory \<open>d\<close>.\<close>

definition needs_resync :: "pull_params \<Rightarrow> (SnapDir \<Rightarrow> (err, VerifyState option) result) \<Rightarrow> (int \<times> SnapDir) list \<Rightarrow> int \<Rightarrow> bool" where
  "needs_resync pp verify locals t \<longleftrightarrow> resync_corrupt pp \<and>
     (case map_of locals t of None \<Rightarrow> False
      | Some d \<Rightarrow> (case verify d of Inl _ \<Rightarrow> True | Inr st \<Rightarrow> st = Some VerifyFailed))"

definition candidates :: "pull_params \<Rightarrow> SnapshotListItem list \<Rightarrow> SnapshotListItem list" where
  "candidates pp items = filter (\<lambda>i. \<not> exclude_not_verified_or_encrypted i (verified_only pp) (encrypted_only pp)) items"

text \<open>\<^verbatim>\<open>source_snapshots\<close>: only the snapshots that pass the filters.\<close>

definition source_snapshots :: "pull_params \<Rightarrow> SnapshotListItem list \<Rightarrow> int set" where
  "source_snapshots pp raw = it_time ` set (candidates pp raw)"

definition cutoff_of :: "pull_params \<Rightarrow> nat \<Rightarrow> nat" where
  "cutoff_of pp amount = (case transfer_last pp of None \<Rightarrow> 0 | Some n \<Rightarrow> amount - n)"

fun select_snaps :: "nat \<Rightarrow> int \<Rightarrow> nat \<Rightarrow> (int \<times> bool) list \<Rightarrow> SkipInfo \<Rightarrow> SkipInfo \<Rightarrow> (int \<times> bool) list \<times> SkipInfo \<times> SkipInfo" where
  "select_snaps cutoff last_sync pos [] synced later = ([], synced, later)"
| "select_snaps cutoff last_sync pos ((t, resync) # xs) synced later =
     (if resync then (case select_snaps cutoff last_sync (pos + 1) xs synced later of (ys, i) \<Rightarrow> ((t, resync) # ys, i))
      else if last_sync > t then select_snaps cutoff last_sync (pos + 1) xs (skip_update t synced) later
      else if pos < cutoff \<and> last_sync \<noteq> t then select_snaps cutoff last_sync (pos + 1) xs synced (skip_update t later)
      else (case select_snaps cutoff last_sync (pos + 1) xs synced later of (ys, i) \<Rightarrow> ((t, resync) # ys, i)))"

text \<open>The snapshots to transfer, with a mark for those that are corrupt locally. \<open>raw\<close> is sorted by time.\<close>

definition pull_selection :: "pull_params \<Rightarrow> (SnapDir \<Rightarrow> (err, VerifyState option) result) \<Rightarrow> (int \<times> SnapDir) list \<Rightarrow> int \<Rightarrow> SnapshotListItem list \<Rightarrow> (int \<times> bool) list" where
  "pull_selection pp verify locals last_sync raw =
     (let xs = map (\<lambda>i. (it_time i, needs_resync pp verify locals (it_time i))) (candidates pp raw) in
      fst (select_snaps (cutoff_of pp (length xs)) last_sync 0 xs (SkipInfo_new AlreadySynced) (SkipInfo_new TransferLast)))"

section \<open>Vanished snapshots\<close>

fun vanish_loop :: "fsio \<Rightarrow> 'n gkey \<Rightarrow> int set \<Rightarrow> SnapInfo list \<Rightarrow> SyncStats \<Rightarrow> ('n, 'a, SyncStats) op" where
  "vanish_loop io k source [] stats = ret stats"
| "vanish_loop io k source (info # infos) stats =
     (if si_time info \<in> source then vanish_loop io k source infos stats
      else bnd (is_protected io k (si_time info)) (\<lambda>p.
        if p then vanish_loop io k source infos stats
        else bnd (remove_backup_dir io False k (si_time info)) (\<lambda>_.
          vanish_loop io k source infos (sync_stats_add stats (from_removed \<lparr>rv_groups = 0, rv_snapshots = 1, rv_namespaces = 0\<rparr>)))))"

section \<open>What is selected\<close>

lemma select_snaps_Cons:
  "\<exists>a' b'. fst (select_snaps cutoff last_sync pos ((t, c) # xs) a b) =
     (if c \<or> last_sync \<le> t \<and> (cutoff \<le> pos \<or> last_sync = t) then [(t, c)] else []) @ fst (select_snaps cutoff last_sync (Suc pos) xs a' b')"
proof -
  consider "c" | "\<not> c" "last_sync > t" | "\<not> c" "last_sync \<le> t" "pos < cutoff" "last_sync \<noteq> t" | "\<not> c" "last_sync \<le> t" "cutoff \<le> pos \<or> last_sync = t"
    by linarith
  then show ?thesis
  proof cases
    case 1
    then show ?thesis by - (rule exI [of _ a], rule exI [of _ b], simp split: prod.split)
  next
    case 2
    then show ?thesis by (intro exI [of _ "skip_update t a"] exI [of _ b]) simp
  next
    case 3
    then show ?thesis by (intro exI [of _ a] exI [of _ "skip_update t b"]) simp
  next
    case 4
    then show ?thesis by - (rule exI [of _ a], rule exI [of _ b], auto split: prod.split)
  qed
qed

lemma select_snaps_set:
  "(t, c) \<in> set (fst (select_snaps cutoff last_sync pos xs a b)) \<longleftrightarrow>
     (\<exists>i < length xs. xs ! i = (t, c) \<and> (c \<or> last_sync \<le> t \<and> (cutoff \<le> pos + i \<or> last_sync = t)))"
proof (induction xs arbitrary: pos a b)
  case (Cons x xs)
  obtain t' c' where x: "x = (t', c')" by (cases x)
  obtain a' b' where sel: "fst (select_snaps cutoff last_sync pos (x # xs) a b) =
      (if c' \<or> last_sync \<le> t' \<and> (cutoff \<le> pos \<or> last_sync = t') then [x] else []) @ fst (select_snaps cutoff last_sync (Suc pos) xs a' b')"
    using select_snaps_Cons [of cutoff last_sync pos t' c' xs a b] x by auto
  have step: "(\<exists>i < length (x # xs). (x # xs) ! i = (t, c) \<and> (c \<or> last_sync \<le> t \<and> (cutoff \<le> pos + i \<or> last_sync = t))) \<longleftrightarrow>
      x = (t, c) \<and> (c \<or> last_sync \<le> t \<and> (cutoff \<le> pos \<or> last_sync = t)) \<or>
      (\<exists>i < length xs. xs ! i = (t, c) \<and> (c \<or> last_sync \<le> t \<and> (cutoff \<le> Suc pos + i \<or> last_sync = t)))"
    by (auto simp: less_Suc_eq_0_disj)
  show ?case unfolding step sel set_append Un_iff Cons.IH [of "Suc pos" a' b'] using x by auto
qed simp

lemma strict_card:
  assumes "sorted_wrt (<) (map f xs)" "i < length xs"
  shows "card {x \<in> set xs. f (xs ! i) < (f x :: int)} = length xs - Suc i"
proof -
  have d: "distinct xs" using assms(1) by (metis distinct_map strict_sorted_iff)
  have lt: "f (xs ! a) < f (xs ! b)" if "a < b" "b < length xs" for a b
    using sorted_wrt_nth_less [OF assms(1), of a b] that by simp
  have "{x \<in> set xs. f (xs ! i) < f x} = set (drop (Suc i) xs)"
  proof (intro set_eqI iffI)
    fix x
    assume "x \<in> {x \<in> set xs. f (xs ! i) < f x}"
    then obtain j where j: "j < length xs" "x = xs ! j" "f (xs ! i) < f (xs ! j)" by (auto simp: in_set_conv_nth)
    then have "i < j" using lt [of j i] assms(2) by (cases i j rule: linorder_cases) auto
    then show "x \<in> set (drop (Suc i) xs)" using j(1,2) by (auto simp: in_set_conv_nth intro!: exI [of _ "j - Suc i"])
  next
    fix x
    assume "x \<in> set (drop (Suc i) xs)"
    then obtain j where "j < length xs - Suc i" "x = xs ! (Suc i + j)" by (auto simp: in_set_conv_nth)
    then show "x \<in> {x \<in> set xs. f (xs ! i) < f x}" using lt [of i "Suc i + j"] by auto
  qed
  then show ?thesis using d by (simp add: distinct_card)
qed

lemma strict_sorted_candidates:
  assumes "sort_unstable sort_by" "distinct (map it_time items)"
  shows "sorted_wrt (<) (map it_time (candidates pp (sort_by (\<lambda>a b. it_time a \<le> it_time b) items)))"
    and "set (candidates pp (sort_by (\<lambda>a b. it_time a \<le> it_time b) items)) = set (candidates pp items)"
proof -
  let ?le = "\<lambda>a b. it_time a \<le> it_time b"
  have m: "mset (sort_by ?le items) = mset items" by (rule sort_unstable.sort_mset [OF assms(1)])
  have "sorted_wrt ?le (sort_by ?le items)" by (rule sort_unstable.sort_sorted [OF assms(1)]) (auto simp: total_preorder_def)
  then have "sorted (map it_time (candidates pp (sort_by ?le items)))"
    unfolding candidates_def by (simp add: sorted_map sorted_wrt_filter)
  moreover have "distinct (map it_time (sort_by ?le items))" using m assms(2) by (metis mset_eq_imp_distinct_iff mset_map)
  then have "distinct (map it_time (candidates pp (sort_by ?le items)))" unfolding candidates_def by (rule distinct_map_filter)
  ultimately show "sorted_wrt (<) (map it_time (candidates pp (sort_by ?le items)))" by (simp add: strict_sorted_iff)
  show "set (candidates pp (sort_by ?le items)) = set (candidates pp items)" using mset_eq_setD [OF m] by (auto simp: candidates_def)
qed

lemma source_snapshots_nth: "t \<in> source_snapshots pp raw \<longleftrightarrow> (\<exists>i < length (candidates pp raw). it_time (candidates pp raw ! i) = t)"
  unfolding source_snapshots_def by (metis (mono_tags, lifting) image_iff in_set_conv_nth)

lemma selection_iff:
  assumes "sorted_wrt (<) (map it_time (candidates pp raw))"
  shows "(t, c) \<in> set (pull_selection pp verify locals last_sync raw) \<longleftrightarrow>
    t \<in> source_snapshots pp raw \<and> c = needs_resync pp verify locals t \<and>
    (c \<or> last_sync \<le> t \<and> (last_sync = t \<or>
       (case transfer_last pp of None \<Rightarrow> True | Some n \<Rightarrow> card {i \<in> set (candidates pp raw). t < it_time i} < n)))"
proof -
  let ?cs = "candidates pp raw"
  have pos: "cutoff_of pp (length ?cs) \<le> i \<longleftrightarrow>
      (case transfer_last pp of None \<Rightarrow> True | Some n \<Rightarrow> card {x \<in> set ?cs. it_time (?cs ! i) < it_time x} < n)" if "i < length ?cs" for i
    using strict_card [OF assms that] that by (auto simp: cutoff_of_def split: option.split)
  have "(t, c) \<in> set (pull_selection pp verify locals last_sync raw) \<longleftrightarrow>
      (\<exists>i < length ?cs. it_time (?cs ! i) = t \<and> c = needs_resync pp verify locals t \<and> (c \<or> last_sync \<le> t \<and> (cutoff_of pp (length ?cs) \<le> i \<or> last_sync = t)))"
    by (auto simp: pull_selection_def Let_def select_snaps_set)
  also have "\<dots> \<longleftrightarrow> (\<exists>i < length ?cs. it_time (?cs ! i) = t \<and> c = needs_resync pp verify locals t \<and> (c \<or> last_sync \<le> t \<and> (last_sync = t \<or>
       (case transfer_last pp of None \<Rightarrow> True | Some n \<Rightarrow> card {x \<in> set ?cs. t < it_time x} < n))))"
    using pos by blast
  also have "\<dots> \<longleftrightarrow> t \<in> source_snapshots pp raw \<and> c = needs_resync pp verify locals t \<and> (c \<or> last_sync \<le> t \<and> (last_sync = t \<or>
       (case transfer_last pp of None \<Rightarrow> True | Some n \<Rightarrow> card {x \<in> set ?cs. t < it_time x} < n)))"
    unfolding source_snapshots_nth by blast
  finally show ?thesis .
qed

text \<open>Which snapshots are there, as a function.\<close>

definition all_snaps :: "('n, 'a) dstore \<Rightarrow> 'n gkey \<times> int \<Rightarrow> SnapDir option" where
  "all_snaps s = (\<lambda>(k, t). snap k t s)"

lemma all_snaps_simps [simp]:
  "all_snaps (s\<lparr>tick := n\<rparr>) = all_snaps s" "all_snaps (s\<lparr>held := h\<rparr>) = all_snaps s" "all_snaps (unlock k s) = all_snaps s"
  "all_snaps (upd_group k (\<lambda>g. g\<lparr>gd_owner := ow\<rparr>) s) = all_snaps s" "all_snaps (upd_group k (\<lambda>g. g\<lparr>gd_notes := nt\<rparr>) s) = all_snaps s"
  "all_snaps (del_snap k t s) = (all_snaps s)((k, t) := None)"
  by (auto simp: all_snaps_def fun_eq_iff)

lemma all_snaps_delete: "gdir k s = Some g \<Longrightarrow> gd_snaps g = [] \<Longrightarrow> all_snaps (s\<lparr>grps := AList.delete k (grps s)\<rparr>) = all_snaps s"
  by (rule ext) (auto simp: all_snaps_def snap_gdir split: option.split)

lemma remove_dir_snaps [preserves_intros]: "preserves (\<lambda>s. all_snaps s = F) (remove_dir k)"
  by (rule preservesI) (auto simp: remove_dir_def st_defs all_snaps_delete split: option.splits if_splits)

lemma remove_empty_group_snaps [preserves_intros]: "preserves (\<lambda>s. all_snaps s = F) (remove_empty_group io k)"
  unfolding remove_empty_group_def remove_group_dir_def by (intro preserves_intros preserves_modify) auto

lemma remove_backup_dir_exact:
  assumes "remove_backup_dir io force k t s = (Ok u, s')"
  shows "all_snaps s' = (all_snaps s)((k, t) := None)"
proof -
  let ?F = "all_snaps s"
  let ?G = "?F((k, t) := None)"
  have locks: "preserves (\<lambda>s'. all_snaps s' = ?F)
      (if force then ret () else bnd (map_error (\<lambda>e. ''while destroying snapshot'') (syscall io)) (\<lambda>_. syscall io))"
    by (auto intro!: preserves_intros)
  have removed: "triple (\<lambda>s'. all_snaps s' = ?F) (remove_unprotected io k t) (\<lambda>_ s'. all_snaps s' = ?G) (\<lambda>_ _. True)"
    by (rule tripleI) (auto simp: remove_unprotected_def is_protected_def path_exists_def remove_dir_all_def syscall_def st_defs
        split: option.splits if_splits prod.splits sum.splits)
  have rest: "preserves (\<lambda>s'. all_snaps s' = ?G)
      (if force then remove_empty_group io k
       else bnd (attempt (group_lock io k)) (\<lambda>r. case r of Inl _ \<Rightarrow> ret () | Inr _ \<Rightarrow> lastly (remove_empty_group io k) (unlock k)))"
    by (auto intro!: preserves_intros split: sum.split)
  have "triple (\<lambda>s'. s' = s) (remove_backup_dir io force k t) (\<lambda>_ s'. all_snaps s' = ?G) (\<lambda>_ _. True)"
    unfolding remove_backup_dir_def snap_destroy_def
    by (rule triple_bnd, rule triple_weaken, rule locks [unfolded preserves_def], simp, assumption, simp, rule triple_bnd, rule removed,
        rule triple_weaken, rule rest [unfolded preserves_def]) auto
  from tripleD(1) [OF this refl assms] show ?thesis .
qed

section \<open>Exactness\<close>

text \<open>
  C13. The snapshots that a pull transfers, when the times on the source differ: those that are complete on the source and pass the filters,
  and that either have to be repaired locally or are not older than the last local snapshot and, with a limit of n,
  are among the n newest that pass the filters; the last local snapshot itself is always synced again.
\<close>

theorem pull_selects_exact:
  assumes "sort_unstable sort_by" "distinct (map it_time items)"
  shows "(t, c) \<in> set (pull_selection pp verify locals last_sync (sort_by (\<lambda>a b. it_time a \<le> it_time b) (filter_out_in_progress items))) \<longleftrightarrow>
    (\<exists>i \<in> set items. it_time i = t \<and> it_size i \<noteq> None \<and> \<not> exclude_not_verified_or_encrypted i (verified_only pp) (encrypted_only pp)) \<and>
    c = needs_resync pp verify locals t \<and>
    (c \<or> last_sync \<le> t \<and> (last_sync = t \<or>
       (case transfer_last pp of None \<Rightarrow> True | Some n \<Rightarrow>
          card {i \<in> set items. it_size i \<noteq> None \<and> \<not> exclude_not_verified_or_encrypted i (verified_only pp) (encrypted_only pp) \<and> t < it_time i} < n)))"
proof -
  let ?raw = "sort_by (\<lambda>a b. it_time a \<le> it_time b) (filter_out_in_progress items)"
  have d: "distinct (map it_time (filter_out_in_progress items))" unfolding filter_out_in_progress_def using assms(2) by (rule distinct_map_filter)
  note cands = strict_sorted_candidates [OF assms(1) d, of pp]
  have set: "set (candidates pp ?raw) =
      {i \<in> set items. it_size i \<noteq> None \<and> \<not> exclude_not_verified_or_encrypted i (verified_only pp) (encrypted_only pp)}"
    unfolding cands(2) by (auto simp: candidates_def filter_out_in_progress_def)
  have newer: "{i \<in> set (candidates pp ?raw). t < it_time i} =
      {i \<in> set items. it_size i \<noteq> None \<and> \<not> exclude_not_verified_or_encrypted i (verified_only pp) (encrypted_only pp) \<and> t < it_time i}"
    unfolding set by auto
  have src: "t \<in> source_snapshots pp ?raw \<longleftrightarrow>
      (\<exists>i \<in> set items. it_time i = t \<and> it_size i \<noteq> None \<and> \<not> exclude_not_verified_or_encrypted i (verified_only pp) (encrypted_only pp))"
    unfolding source_snapshots_def set by auto
  show ?thesis unfolding selection_iff [OF cands(1)] newer src by (rule refl)
qed

text \<open>A snapshot that is not on the source is gone after the loop, or it is as before and has the marker; all others are as before.\<close>

lemma vanish_loop_exact:
  "vanish_loop io k source infos stats s = (Ok st, s') \<Longrightarrow>
     (if k' = k \<and> t \<in> si_time ` set infos \<and> t \<notin> source
      then snap k' t s' = None \<or> snap k' t s' = snap k' t s \<and> has_marker k' t s else snap k' t s' = snap k' t s)"
proof (induction infos arbitrary: stats s)
  case (Cons info infos)
  let ?t = "si_time info"
  let ?s = "s\<lparr>tick := Suc (tick s)\<rparr>"
  consider "?t \<in> source" | "?t \<notin> source" "has_marker k ?t s" "\<not> stat_fails io (tick s)" | "?t \<notin> source" "\<not> has_marker k ?t s \<or> stat_fails io (tick s)" by blast
  then show ?case
  proof cases
    case 1
    then have "vanish_loop io k source infos stats s = (Ok st, s')" using Cons.prems by simp
    from Cons.IH [OF this] 1 show ?thesis by (auto split: if_splits)
  next
    case 2
    then have "vanish_loop io k source infos stats ?s = (Ok st, s')" using Cons.prems by (simp add: is_protected_def path_exists_def bnd_def)
    from Cons.IH [OF this] 2 show ?thesis by (auto simp: has_marker_snap split: if_splits)
  next
    case 3
    then obtain u s1 stats1 where rm: "remove_backup_dir io False k ?t ?s = (Ok u, s1)" "vanish_loop io k source infos stats1 s1 = (Ok st, s')"
      using Cons.prems by (auto simp: is_protected_def path_exists_def bnd_def split: prod.splits sum.splits if_splits)
    have "snap k' t s1 = (if k' = k \<and> t = ?t then None else snap k' t s)"
      using fun_cong [OF remove_backup_dir_exact [OF rm(1)], of "(k', t)"] by (simp add: all_snaps_def)
    with Cons.IH [OF rm(2)] 3(1) show ?thesis by (auto simp: has_marker_snap split: if_splits)
  qed
qed (auto simp: ret_def)

lemma list_loop_times: "list_loop io ds s = (Ok infos, s') \<Longrightarrow> map si_time infos = map fst ds"
proof (induction io ds arbitrary: s infos s' rule: list_loop.induct)
  case (2 io t d ds)
  then show ?case by (fastforce simp: st_defs split: prod.splits sum.splits)
qed (simp add: ret_def)

lemma list_backups_exact:
  assumes "list_backups io k s = (Ok infos, s')"
  shows "si_time ` set infos = fst ` set (snaps_of k s)" "all_snaps s' = all_snaps s"
proof -
  obtain g where g: "gdir k s = Some g" "list_loop io (gd_snaps g) (s\<lparr>tick := Suc (tick s)\<rparr>) = (Ok infos, s')"
    using assms by (auto simp: list_backups_def syscall_def bnd_def gets_def throw_def split: option.splits)
  then show "si_time ` set infos = fst ` set (snaps_of k s)"
    using arg_cong [OF list_loop_times [OF g(2)], of set] by (simp add: snaps_of_def)
  have "preserves (\<lambda>s'. all_snaps s' = all_snaps s) (list_backups io k)" by (rule preserves_list_backups) simp
  then show "all_snaps s' = all_snaps s" using assms by (blast dest: preservesD)
qed

section \<open>A selection\<close>

definition select_items :: "SnapshotListItem list" where
  "select_items = map (\<lambda>t. \<lparr>it_time = t, it_size = Some 1, it_verification = None, it_files = []\<rparr>) [3, 1, 2]"

definition last_one :: pull_params where
  "last_one = \<lparr>verified_only = False, encrypted_only = False, resync_corrupt = False, remove_vanished = False, transfer_last = Some 1\<rparr>"

theorem pull_selects_exact_witness:
  "(3, False) \<in> set (pull_selection last_one (\<lambda>_. Ok None) [] 0 (isort_by (\<lambda>a b. it_time a \<le> it_time b) (filter_out_in_progress select_items))) \<and>
   (2, False) \<notin> set (pull_selection last_one (\<lambda>_. Ok None) [] 0 (isort_by (\<lambda>a b. it_time a \<le> it_time b) (filter_out_in_progress select_items)))"
proof -
  have d: "distinct (map it_time select_items)" by (simp add: select_items_def)
  have "{i \<in> set select_items. it_size i \<noteq> None \<and> \<not> exclude_not_verified_or_encrypted i False False \<and> 3 < it_time i} = {}"
    "{i \<in> set select_items. it_size i \<noteq> None \<and> \<not> exclude_not_verified_or_encrypted i False False \<and> 2 < it_time i} =
      {\<lparr>it_time = 3, it_size = Some 1, it_verification = None, it_files = []\<rparr>}"
    by (auto simp: select_items_def exclude_not_verified_or_encrypted_def)
  then show ?thesis unfolding pull_selects_exact [OF isort.sort_unstable_axioms d]
    by (simp add: last_one_def needs_resync_def select_items_def exclude_not_verified_or_encrypted_def)
qed

end
