(* ===== verification/SyncPull.thy ===== *)
theory SyncPull
  imports SyncSelect
begin

text \<open>
  Pulling one snapshot (\<^verbatim>\<open>pull_snapshot_from\<close> and what it calls in \<^verbatim>\<open>src/server/pull.rs\<close>, the two source readers of
  \<^verbatim>\<open>src/server/sync.rs\<close>), into a directory of \<open>SnapStore\<close>. What the source sends is a parameter, and so are the transfer
  of the chunks of one index, whose runs are those of \<open>SyncChunks\<close>, and the reader of encrypted blobs. The steps are those for
  datastores on a file system. A \<^verbatim>\<open>stat\<close> may fail as in \<open>SnapStore\<close>, that of the client log excepted. A panic is the error \<open>PANIC\<close>, which nothing handles.
\<close>

section \<open>Parameters\<close>

datatype ArchiveKind = FixedArchive | DynamicArchive | BlobArchive

record 'c pull_env =
  pe_libs :: "'c libs"
  pe_mlib :: mlib
  file_kind :: "string \<Rightarrow> ArchiveKind"
  parse_verify_state :: "json \<Rightarrow> (err, VerifyState) result"
  parse_fingerprint :: "string \<Rightarrow> (err, digest) result"
  crypt_config_new :: "bytes \<Rightarrow> (err, CryptConfig) result"
  read_blob :: "CryptConfig \<Rightarrow> bytes \<Rightarrow> (err, bytes) result"
  new_uuid :: "nat \<Rightarrow> bytes"
  epoch :: "nat \<Rightarrow> int"
  index_faults :: "nat \<Rightarrow> (sys \<times> (err \<times> nat) option) list"
  close_faults :: "nat \<Rightarrow> sys \<times> close_fault"
  store_chunks :: "nat \<Rightarrow> (DataBlob \<times> digest \<times> nat) list \<Rightarrow> (err, unit) result"

text \<open>A download: the data, a missing file, or an error after a part of the data. The arguments of type \<^typ>\<open>nat\<close> are times.\<close>

datatype download = Got bytes | NotFound | Failed err bytes

record source_reader =
  rd_remote :: bool
  rd_load :: "nat \<Rightarrow> string \<Rightarrow> download"
  rd_has_log :: bool
  rd_same_store :: bool
  rd_transfer :: "nat \<Rightarrow> ChunkReadInfo list \<Rightarrow> EncounteredChunks \<Rightarrow> (err, SyncStats \<times> EncounteredChunks) result"
  rd_chunk :: "CryptConfig \<Rightarrow> nat \<Rightarrow> digest \<Rightarrow> (err, bytes) result"

definition PANIC :: err where
  "PANIC = ''panicked''"

definition of_panic :: "'x option \<Rightarrow> (err, 's, 'x) st" where
  "of_panic r = (case r of None \<Rightarrow> throw PANIC | Some x \<Rightarrow> ret x)"

definition unwrap_result :: "(err, 'x) result option \<Rightarrow> (err, 's, 'x) st" where
  "unwrap_result r = bnd (of_panic r) of_result"

section \<open>Files of a snapshot\<close>

definition get_file :: "'n gkey \<Rightarrow> int \<Rightarrow> string \<Rightarrow> ('n, 'a) dstore \<Rightarrow> bytes option" where
  "get_file k t name s = (case snap k t s of None \<Rightarrow> None | Some d \<Rightarrow> map_of d name)"

definition upd_dir :: "'n gkey \<Rightarrow> int \<Rightarrow> (SnapDir \<Rightarrow> SnapDir) \<Rightarrow> ('n, 'a, unit) op" where
  "upd_dir k t f = bnd (gets (snap k t)) (\<lambda>d. case d of None \<Rightarrow> throw ''no such directory'' | Some d \<Rightarrow> modify (set_snap k t (f d)))"

definition put_file :: "'n gkey \<Rightarrow> int \<Rightarrow> string \<Rightarrow> bytes \<Rightarrow> ('n, 'a, unit) op" where
  "put_file k t name b = upd_dir k t (AList.update name b)"

definition remove_file :: "fsio \<Rightarrow> 'n gkey \<Rightarrow> int \<Rightarrow> string \<Rightarrow> ('n, 'a, unit) op" where
  "remove_file io k t name =
     bnd (syscall io) (\<lambda>_. bnd (gets (get_file k t name)) (\<lambda>b.
       if b = None then throw ''no such file'' else upd_dir k t (AList.delete name)))"

definition rename_file :: "fsio \<Rightarrow> 'n gkey \<Rightarrow> int \<Rightarrow> string \<Rightarrow> string \<Rightarrow> ('n, 'a, unit) op" where
  "rename_file io k t from to =
     bnd (syscall io) (\<lambda>_. bnd (gets (get_file k t from)) (\<lambda>b.
       case b of None \<Rightarrow> throw ''no such file''
       | Some b \<Rightarrow> if from = to then ret () else upd_dir k t (\<lambda>d. AList.update to b (AList.delete from d))))"

text \<open>\<^verbatim>\<open>Path::set_extension\<close> on the last component.\<close>

definition with_ext :: "string \<Rightarrow> string \<Rightarrow> string" where
  "with_ext name ext =
     (let stem = rev (tl (dropWhile (\<lambda>c. c \<noteq> CHR ''.'') (rev name))) in
      (if CHR ''.'' \<notin> set name \<or> stem = [] then name else stem) @ CHR ''.'' # ext)"

section \<open>The source readers\<close>

definition load_file_into :: "source_reader \<Rightarrow> fsio \<Rightarrow> 'n gkey \<Rightarrow> int \<Rightarrow> string \<Rightarrow> string \<Rightarrow> ('n, 'a, bytes option) op" where
  "load_file_into rd io k t name into =
     bnd (syscall io) (\<lambda>_. bnd (put_file k t into []) (\<lambda>_. bnd (gets tick) (\<lambda>n.
       case rd_load rd n name of
         NotFound \<Rightarrow> ret None
       | Failed e part \<Rightarrow> bnd (put_file k t into part) (\<lambda>_. throw e)
       | Got data \<Rightarrow> bnd (put_file k t into data) (\<lambda>_. bnd (syscall io) (\<lambda>_. ret (Some data))))))"

definition decrypt_encrypted_data_blob :: "'c pull_env \<Rightarrow> fsio \<Rightarrow> 'n gkey \<Rightarrow> int \<Rightarrow> bytes \<Rightarrow> CryptConfig \<Rightarrow> string \<Rightarrow> ('n, 'a, digest \<times> nat) op" where
  "decrypt_encrypted_data_blob E io k t data c target =
     bnd (of_result (read_blob E c data)) (\<lambda>raw.
     bnd (unwrap_result (encode (pe_libs E) (Err ''no random data'') raw None True)) (\<lambda>blob.
     bnd (syscall io) (\<lambda>_. bnd (put_file k t target (raw_data blob)) (\<lambda>_.
       ret (sha256 (pe_libs E) (raw_data blob), length (raw_data blob))))))"

definition try_fetch_client_log :: "'c pull_env \<Rightarrow> source_reader \<Rightarrow> fsio \<Rightarrow> 'n gkey \<Rightarrow> int \<Rightarrow> CryptConfig option \<Rightarrow> ('n, 'a, unit) op" where
  "try_fetch_client_log E rd io k t cfg =
     (let tmp = with_ext CLIENT_LOG_NAME ''tmp'' in
      if rd_remote rd
      then bnd (syscall io) (\<lambda>_. bnd (put_file k t tmp []) (\<lambda>_. bnd (gets tick) (\<lambda>n.
        case rd_load rd n CLIENT_LOG_NAME of
          NotFound \<Rightarrow> ret ()
        | Failed e part \<Rightarrow> put_file k t tmp part
        | Got data \<Rightarrow> bnd (put_file k t tmp data) (\<lambda>_.
            case cfg of
              Some c \<Rightarrow> bnd (decrypt_encrypted_data_blob E io k t data c CLIENT_LOG_NAME) (\<lambda>_.
                map_error (\<lambda>e. ''Removing encrypted leftover tempfile failed'') (remove_file io k t tmp))
            | None \<Rightarrow> map_error (\<lambda>e. ''Atomic rename file failed'') (rename_file io k t tmp CLIENT_LOG_NAME)))))
      else if \<not> rd_has_log rd then ret ()
      else (case cfg of
          Some c \<Rightarrow> bnd (syscall io) (\<lambda>_. bnd (gets tick) (\<lambda>n.
            case rd_load rd n CLIENT_LOG_NAME of
              Got data \<Rightarrow> bnd (decrypt_encrypted_data_blob E io k t data c CLIENT_LOG_NAME) (\<lambda>_. ret ())
            | NotFound \<Rightarrow> throw ''no such file''
            | Failed e part \<Rightarrow> throw e))
        | None \<Rightarrow> bnd (load_file_into rd io k t CLIENT_LOG_NAME CLIENT_LOG_NAME) (\<lambda>_. ret ())))"

section \<open>Archives\<close>

definition disk_file :: "bytes \<Rightarrow> File" where
  "disk_file b = \<lparr>stat_ok = True, regular = True, mmap_ok = True, contents = b\<rparr>"

text \<open>Checksum and size of an archive: of the entries of an index, of the file of a blob.\<close>

definition archive_csum :: "'c pull_env \<Rightarrow> ArchiveKind \<Rightarrow> bytes \<Rightarrow> (err, digest \<times> nat) result option" where
  "archive_csum E kind data =
     (case kind of
        DynamicArchive \<Rightarrow> (case DynamicIndexReader_new (disk_file data) of
            Inl e \<Rightarrow> Some (Err e) | Inr r \<Rightarrow> map_option Ok (compute_csum (sha256 (pe_libs E)) r))
      | FixedArchive \<Rightarrow> (case FixedIndexReader_new (disk_file data) of
            Inl e \<Rightarrow> Some (Err e) | Inr r \<Rightarrow> map_option Ok (fixed_compute_csum (sha256 (pe_libs E)) r))
      | BlobArchive \<Rightarrow> Some (Ok (sha256 (pe_libs E) data, length data)))"

definition open_index :: "ArchiveKind \<Rightarrow> bytes \<Rightarrow> (err, ChunkReadInfo list) result" where
  "open_index kind data =
     (case kind of
        DynamicArchive \<Rightarrow> map_sum id (\<lambda>r. List.map_filter (chunk_info r) [0..<index_count r]) (DynamicIndexReader_new (disk_file data))
      | FixedArchive \<Rightarrow> map_sum id (\<lambda>r. List.map_filter (fixed_chunk_info r) [0..<fixed_index_count r]) (FixedIndexReader_new (disk_file data))
      | BlobArchive \<Rightarrow> Err ''not an index'')"

definition archive_infos :: "ArchiveKind \<Rightarrow> bytes \<Rightarrow> ChunkReadInfo list" where
  "archive_infos kind data = (case open_index kind data of Inl e \<Rightarrow> [] | Inr infos \<Rightarrow> infos)"

definition verify_archive :: "FileInfo \<Rightarrow> digest \<Rightarrow> nat \<Rightarrow> (err, unit) result" where
  "verify_archive info cksum sz =
     (if sz \<noteq> fi_size info then Err ''wrong size for file''
      else if cksum \<noteq> fi_csum info then Err ''wrong checksum for file''
      else Ok ())"

definition add_to_decrypted_manifest :: "string \<Rightarrow> digest \<Rightarrow> nat \<Rightarrow> BackupManifest option \<Rightarrow> BackupManifest option" where
  "add_to_decrypted_manifest name cksum sz nm = map_option (\<lambda>m. snd (add_file name sz cksum NoCrypt m)) nm"

text \<open>The writer of the decrypted index; the removal of its own temporary file when it fails is left out.\<close>

definition create_writer :: "'c pull_env \<Rightarrow> nat \<Rightarrow> ArchiveKind \<Rightarrow> bytes \<Rightarrow> nat \<Rightarrow> (err, DecryptedIndexWriter) result" where
  "create_writer E n kind data sz =
     (case kind of
        FixedArchive \<Rightarrow> (case FixedIndexReader_new (disk_file data) of
            Inl e \<Rightarrow> Err e
          | Inr r \<Rightarrow> map_sum id FixedW (fixed_create (fst (close_faults E n)) (epoch E n) (new_uuid E n) (Some sz) (fr_chunk_size r mod 2 ^ 32)))
      | _ \<Rightarrow> map_sum id DynamicW (DynamicIndexWriter_create (open_err (fst (close_faults E n))) (epoch E n) (new_uuid E n)))"

definition close_writer :: "'c pull_env \<Rightarrow> nat \<Rightarrow> DecryptedIndexWriter \<Rightarrow> (err, digest \<times> bytes) result option" where
  "close_writer E n w =
     (case w of
        FixedW i \<Rightarrow> map_option (\<lambda>(r, i'). map_sum id (\<lambda>cksum. (cksum, case fw_published i' of None \<Rightarrow> [] | Some b \<Rightarrow> b)) r)
          (fixed_close (sha256 (pe_libs E)) (fst (close_faults E n)) i)
      | DynamicW i \<Rightarrow> map_option (\<lambda>(r, i'). map_sum id (\<lambda>cksum. (cksum, case published i' of None \<Rightarrow> [] | Some b \<Rightarrow> b)) r)
          (writer_close (sha256 (pe_libs E)) (snd (close_faults E n)) i))"

definition pull_decrypted_chunks :: "'c pull_env \<Rightarrow> source_reader \<Rightarrow> CryptConfig \<Rightarrow> ChunkReadInfo list \<Rightarrow> DecryptedIndexWriter \<Rightarrow> EncounteredChunks \<Rightarrow>
    ('n, 'a, SyncStats \<times> EncounteredChunks \<times> DecryptedIndexWriter) op" where
  "pull_decrypted_chunks E rd c infos w es =
     bnd (gets tick) (\<lambda>n.
     bnd (of_panic (decrypt_loop (pe_libs E) (rd_chunk rd c n) (index_faults E n) infos \<lparr>d_encountered = es, d_offset = 0, d_index = w, d_channel = []\<rparr>)) (\<lambda>(r, ds).
     bnd (of_result r) (\<lambda>_. bnd (of_result (store_chunks E n (d_channel ds))) (\<lambda>_.
       ret (\<lparr>ss_chunk_count = length (d_channel ds) mod 2 ^ 64, ss_bytes = sum_list (map (\<lambda>(b, _). raw_size b) (d_channel ds)) mod 2 ^ 64,
             ss_elapsed = 0, ss_removed = None\<rparr>, d_encountered ds, d_index ds)))))"

text \<open>What follows the check of an archive: its chunks, and with a key the decrypted copy in \<open>decpath\<close>.\<close>

definition transfer_archive :: "'c pull_env \<Rightarrow> source_reader \<Rightarrow> fsio \<Rightarrow> 'n gkey \<Rightarrow> int \<Rightarrow> string \<Rightarrow> bytes \<Rightarrow> nat \<Rightarrow> string \<Rightarrow> CryptConfig option \<Rightarrow>
    EncounteredChunks \<Rightarrow> BackupManifest option \<Rightarrow> ('n, 'a, SyncStats \<times> EncounteredChunks \<times> BackupManifest option) op" where
  "transfer_archive E rd io k t name data sz decpath cfg es nm =
     (case (file_kind E name, cfg) of
        (BlobArchive, None) \<Rightarrow> ret (SyncStats_default, es, nm)
      | (BlobArchive, Some c) \<Rightarrow>
          bnd (map_error (\<lambda>e. if e = PANIC then e else ''Failed when decrypting blob'') (decrypt_encrypted_data_blob E io k t data c decpath)) (\<lambda>(cksum, sz').
            ret (SyncStats_default, es, add_to_decrypted_manifest name cksum sz' nm))
      | (kind, None) \<Rightarrow>
          (if rd_same_store rd then ret (SyncStats_default, es, nm)
           else bnd (gets tick) (\<lambda>n. bnd (of_result (rd_transfer rd n (archive_infos kind data) es)) (\<lambda>(st, es').
             ret (sync_stats_add SyncStats_default st, es', nm))))
      | (kind, Some c) \<Rightarrow>
          bnd (gets tick) (\<lambda>n. bnd (of_result (create_writer E n kind data sz)) (\<lambda>w.
          bnd (pull_decrypted_chunks E rd c (archive_infos kind data) w es) (\<lambda>(st, es', w').
          bnd (unwrap_result (close_writer E n w')) (\<lambda>(cksum, b).
          bnd (put_file k t decpath b) (\<lambda>_.
            ret (sync_stats_add SyncStats_default st, es', add_to_decrypted_manifest name cksum sz nm)))))))"

definition pull_single_archive :: "'c pull_env \<Rightarrow> source_reader \<Rightarrow> fsio \<Rightarrow> 'n gkey \<Rightarrow> int \<Rightarrow> FileInfo \<Rightarrow> CryptConfig option \<Rightarrow>
    EncounteredChunks \<Rightarrow> BackupManifest option \<Rightarrow> ('n, 'a, SyncStats \<times> EncounteredChunks \<times> BackupManifest option) op" where
  "pull_single_archive E rd io k t info cfg es nm =
     (let name = fi_filename info; tmp = with_ext name ''tmp''; decpath = with_ext name ''tmpdec'' in
      bnd (load_file_into rd io k t name tmp) (\<lambda>r.
        if r = None then bnd (attempt (remove_file io k t tmp)) (\<lambda>_. throw ''archive missing on source'')
        else bnd (syscall io) (\<lambda>_. bnd (gets (get_file k t tmp)) (\<lambda>f.
          case f of None \<Rightarrow> throw ''no such file''
          | Some data \<Rightarrow>
              bnd (unwrap_result (archive_csum E (file_kind E name) data)) (\<lambda>(cksum, sz).
              bnd (of_result (verify_archive info cksum sz)) (\<lambda>_.
              bnd (transfer_archive E rd io k t name data sz decpath cfg es nm) (\<lambda>res.
              bnd (if cfg = None then ret () else map_error (\<lambda>e. ''Failed to remove temp. file'') (remove_file io k t tmp)) (\<lambda>_.
              bnd (map_error (\<lambda>e. ''Atomic rename file failed'') (rename_file io k t (if cfg = None then tmp else decpath) name)) (\<lambda>_.
                ret res)))))))))"

section \<open>The key to use\<close>

definition fully_encrypted :: "BackupManifest \<Rightarrow> bool" where
  "fully_encrypted m = list_all (\<lambda>f. chunk_crypt_mode f = Encrypt) (bm_files m)"

text \<open>Without a fingerprint on the source: the protected content has to agree with an existing unencrypted snapshot.\<close>

definition check_plain_target :: "'c pull_env \<Rightarrow> BackupManifest \<Rightarrow> BackupManifest option \<Rightarrow> (err, unit) result option" where
  "check_plain_target E m existing =
     (case existing of
        None \<Rightarrow> Some (Ok ())
      | Some em \<Rightarrow>
          (case manifest_fingerprint (pe_mlib E) em of
             Inl e \<Rightarrow> Some (Err e)
           | Inr (Some _) \<Rightarrow> Some (Err ''refusing to overwrite local encrypted snapshot from unencrypted source'')
           | Inr None \<Rightarrow>
               (case crypt_config_new E (replicate 32 0) of
                  Inl e \<Rightarrow> Some (Err e)
                | Inr dummy \<Rightarrow>
                    (case manifest_signature (pe_mlib E) dummy em of
                       None \<Rightarrow> None
                     | Some (Inl e) \<Rightarrow> Some (Err e)
                     | Some (Inr a) \<Rightarrow>
                         map_option (\<lambda>r. and_then r (\<lambda>b.
                           if a \<noteq> b then Err ''refusing to overwrite local snapshot: content differs from source'' else Ok ()))
                           (manifest_signature (pe_mlib E) dummy m)))))"

text \<open>Whether the snapshot that was decrypted before came from the same source snapshot.\<close>

definition check_decrypted_target :: "'c pull_env \<Rightarrow> CryptConfig \<Rightarrow> BackupManifest \<Rightarrow> BackupManifest \<Rightarrow> (err, bool) result option" where
  "check_decrypted_target E config m em =
     (case get_sync_source_signature (pe_mlib E) m of
        Inl e \<Rightarrow> Some (Err ''failed to parse sync-source-signature of source manifest'')
      | Inr source_fp \<Rightarrow>
          (case get_sync_source_signature (pe_mlib E) em of
             Inl e \<Rightarrow> Some (Err ''failed to parse sync-source-signature of existing target manifest'')
           | Inr stored_fp \<Rightarrow>
               (if source_fp = None \<and> stored_fp = None then Some (Err ''No sync-source-signature found, refuse to continue!'')
                else
                  map_option (\<lambda>r. and_then r (\<lambda>skip1.
                    and_then (case stored_fp of
                        None \<Rightarrow> Ok skip1
                      | Some f \<Rightarrow> (case bm_signature m of
                            None \<Rightarrow> Err ''No signature on source manifest.''
                          | Some cur \<Rightarrow> map_sum id (\<lambda>c. skip1 \<or> c = f) (parse_fingerprint E cur))) (\<lambda>skip.
                      if \<not> skip then Err ''sync-source-signature mismatch, refuse to continue!'' else Ok True)))
                    (case source_fp of
                       None \<Rightarrow> Some (Ok False)
                     | Some f \<Rightarrow> map_option (map_sum id (\<lambda>sig. sig = f)) (manifest_signature (pe_mlib E) config em)))))"

definition optionally_use_decryption_key :: "'c pull_env \<Rightarrow> CryptConfig list \<Rightarrow> BackupManifest \<Rightarrow> BackupManifest option \<Rightarrow>
    (err, CryptConfig option \<times> bool) result option" where
  "optionally_use_decryption_key E configs m existing =
     (case manifest_fingerprint (pe_mlib E) m of
        Inl e \<Rightarrow> Some (Err e)
      | Inr None \<Rightarrow> map_option (\<lambda>r. and_then r (\<lambda>_. Ok (None, False))) (check_plain_target E m existing)
      | Inr (Some key_fp) \<Rightarrow>
          (let encrypted = fully_encrypted m in
           case (case existing of None \<Rightarrow> Ok False
                 | Some em \<Rightarrow> and_then (manifest_fingerprint (pe_mlib E) em) (\<lambda>fp. case fp of
                       None \<Rightarrow> Ok False
                     | Some f \<Rightarrow> if f = key_fp then Ok (encrypted = fully_encrypted em)
                         else Err ''Local encrypted or signed snapshot with different key detected, refuse to sync'')) of
             Inl e \<Rightarrow> Some (Err e)
           | Inr True \<Rightarrow> Some (Ok (None, False))
           | Inr False \<Rightarrow>
               (case find (\<lambda>c. key_fingerprint (pe_libs E) c = key_fp) configs of
                  None \<Rightarrow>
                    Some (if encrypted \<and> existing \<noteq> None then Err ''No matching key found, refusing sync'' else Ok (None, False))
                | Some config \<Rightarrow>
                    (if \<not> encrypted then Some (Ok (None, False))
                     else (case check_signature (pe_libs E) (pe_mlib E) config False m of
                         None \<Rightarrow> None
                       | Some (Inl e) \<Rightarrow> Some (Err ''failed to check source manifest signature'')
                       | Some (Inr _) \<Rightarrow>
                           (case existing of
                              None \<Rightarrow> Some (Ok (Some config, False))
                            | Some em \<Rightarrow> map_option (map_sum id (\<lambda>skip. (Some config, skip))) (check_decrypted_target E config m em)))))))"

section \<open>Pulling a snapshot\<close>

record pull_ctx =
  filters :: pull_params
  crypt_configs :: "CryptConfig list"
  now :: int
  skew :: int

definition manifest_verify_state :: "'c pull_env \<Rightarrow> BackupManifest \<Rightarrow> (err, VerifyState option) result" where
  "manifest_verify_state E m =
     (let v = json_get (unprotected m) ''verify_state'' in if v = JNull then Ok None else map_sum id Some (parse_verify_state E v))"

definition file_exists :: "fsio \<Rightarrow> 'n gkey \<Rightarrow> int \<Rightarrow> string \<Rightarrow> ('n, 'a, bool) op" where
  "file_exists io k t name = path_exists io (\<lambda>s. get_file k t name s \<noteq> None)"

lemma preserves_file_exists [preserves_intros]: "(\<And>s n. I s \<Longrightarrow> I (s\<lparr>tick := n\<rparr>)) \<Longrightarrow> preserves I (file_exists io k t name)"
  unfolding file_exists_def by (rule preserves_path_exists)

lemma get_file_tick: "get_file k t name (s\<lparr>tick := n\<rparr>) = get_file k t name s"
  by (simp add: get_file_def)

lemma file_exists_Ok: "file_exists io k t name s = (Ok b, s') \<longleftrightarrow> b = (\<not> stat_fails io (tick s) \<and> get_file k t name s \<noteq> None) \<and> s' = s\<lparr>tick := Suc (tick s)\<rparr>"
  by (auto simp: file_exists_def path_exists_def)

text \<open>The stat of the client log is taken not to fail: a log that the manifest lists would be fetched over the verified one.\<close>

definition fetch_log :: "'c pull_env \<Rightarrow> source_reader \<Rightarrow> fsio \<Rightarrow> 'n gkey \<Rightarrow> int \<Rightarrow> CryptConfig option \<Rightarrow> ('n, 'a, unit) op" where
  "fetch_log E rd io k t cfg =
     bnd (gets (get_file k t CLIENT_LOG_NAME)) (\<lambda>l. if l = None then try_fetch_client_log E rd io k t cfg else ret ())"

text \<open>Whether a file that is already there agrees with the manifest.\<close>

definition file_unchanged :: "'c pull_env \<Rightarrow> fsio \<Rightarrow> 'n gkey \<Rightarrow> int \<Rightarrow> BackupManifest \<Rightarrow> bool \<Rightarrow> string \<Rightarrow> ('n, 'a, bool) op" where
  "file_unchanged E io k t m corrupt name =
     (if corrupt then ret False
      else bnd (file_exists io k t name) (\<lambda>there.
        if \<not> there then ret False
        else bnd (syscall io) (\<lambda>_. bnd (gets (get_file k t name)) (\<lambda>f. case f of
            None \<Rightarrow> throw ''no such file''
          | Some data \<Rightarrow> bnd (unwrap_result (archive_csum E (file_kind E name) data)) (\<lambda>(cksum, sz).
              ret (verify_file m name cksum sz = Ok ()))))))"

fun pull_files :: "'c pull_env \<Rightarrow> source_reader \<Rightarrow> fsio \<Rightarrow> 'n gkey \<Rightarrow> int \<Rightarrow> BackupManifest \<Rightarrow> bool \<Rightarrow> CryptConfig option \<Rightarrow> FileInfo list \<Rightarrow>
    SyncStats \<Rightarrow> EncounteredChunks \<Rightarrow> BackupManifest option \<Rightarrow> ('n, 'a, SyncStats \<times> EncounteredChunks \<times> BackupManifest option) op" where
  "pull_files E rd io k t m corrupt cfg [] stats es nm = ret (stats, es, nm)"
| "pull_files E rd io k t m corrupt cfg (item # items) stats es nm =
     bnd (file_unchanged E io k t m corrupt (fi_filename item)) (\<lambda>same.
       if same then pull_files E rd io k t m corrupt cfg items stats es nm
       else bnd (pull_single_archive E rd io k t item cfg es nm) (\<lambda>(st, es', nm').
         pull_files E rd io k t m corrupt cfg items (sync_stats_add stats st) es' nm'))"

definition stale_keys :: "string list" where
  "stale_keys = [''change-detection-fingerprint'', ''sync-source-signature'', ''key-fingerprint'', ''verify_state'']"

text \<open>The manifest of a decrypted snapshot.\<close>

definition decrypted_manifest :: "'c pull_env \<Rightarrow> BackupManifest \<Rightarrow> BackupManifest \<Rightarrow> (err, 's, DataBlob) st" where
  "decrypted_manifest E m nm =
     (case unprotected m of
        JObj obj \<Rightarrow>
          (let nm1 = nm\<lparr>unprotected := JObj (filter (\<lambda>f. fst f \<notin> set stale_keys) obj)\<rparr> in
           bnd (case bm_signature m of None \<Rightarrow> ret nm1
                | Some sig \<Rightarrow> bnd (of_result (parse_fingerprint E sig)) (\<lambda>fp.
                    bnd (of_panic (set_sync_source_signature (pe_mlib E) fp nm1)) (\<lambda>(r, nm2). bnd (of_result r) (\<lambda>_. ret nm2)))) (\<lambda>nm2.
             unwrap_result (to_data_blob (pe_libs E) (pe_mlib E) None nm2)))
      | _ \<Rightarrow> throw ''Encountered unexpected manifest without 'unprotected' section.'')"

definition rewrite_manifest :: "'c pull_env \<Rightarrow> fsio \<Rightarrow> 'n gkey \<Rightarrow> int \<Rightarrow> string \<Rightarrow> BackupManifest \<Rightarrow> BackupManifest option \<Rightarrow> ('n, 'a, unit) op" where
  "rewrite_manifest E io k t tmp m nm =
     (case nm of None \<Rightarrow> ret ()
      | Some nm \<Rightarrow>
          bnd (decrypted_manifest E m nm) (\<lambda>blob. bnd (syscall io) (\<lambda>_. bnd (gets (get_file k t tmp)) (\<lambda>f.
            if f = None then throw ''no such file''
            else bnd (put_file k t tmp []) (\<lambda>_. bnd (syscall io) (\<lambda>_. bnd (put_file k t tmp (raw_data blob)) (\<lambda>_. syscall io)))))))"

text \<open>The existing manifest, if it has to be respected; \<open>None\<close> when it is the one of the source.\<close>

definition existing_manifest :: "'c pull_env \<Rightarrow> fsio \<Rightarrow> 'n gkey \<Rightarrow> int \<Rightarrow> bool \<Rightarrow> DataBlob \<Rightarrow> ('n, 'a, BackupManifest option option) op" where
  "existing_manifest E io k t corrupt blob =
     bnd (file_exists io k t MANIFEST_NAME) (\<lambda>there.
       if \<not> there \<or> corrupt then ret (Some None)
       else bnd (map_error (\<lambda>e. ''unable to read local manifest'') (syscall io)) (\<lambda>_. bnd (gets (get_file k t MANIFEST_NAME)) (\<lambda>f. case f of
           None \<Rightarrow> throw ''unable to read local manifest''
         | Some b \<Rightarrow>
             bnd (of_panic (load_from_reader (pe_libs E) (Ok b))) (\<lambda>r.
             bnd (map_error (\<lambda>e. ''unable to read local manifest'') (of_result r)) (\<lambda>local.
               if raw_data local = raw_data blob then ret None
               else bnd (unwrap_result (try_from_blob (pe_libs E) (pe_mlib E) local)) (\<lambda>em. ret (Some (Some em))))))))"

text \<open>From the loop over the files on.\<close>

definition sync_files :: "'c pull_env \<Rightarrow> source_reader \<Rightarrow> fsio \<Rightarrow> 'n gkey \<Rightarrow> int \<Rightarrow> BackupManifest \<Rightarrow> bool \<Rightarrow> CryptConfig option \<Rightarrow> EncounteredChunks \<Rightarrow>
    ('n, 'a, (SyncStats \<times> EncounteredChunks) option) op" where
  "sync_files E rd io k t m corrupt cfg es =
     bnd (pull_files E rd io k t m corrupt cfg (bm_files m) SyncStats_default es
            (map_option (\<lambda>_. BackupManifest_new (fst (snd k)) (snd (snd k)) t) cfg)) (\<lambda>(stats, es', nm).
     bnd (rewrite_manifest E io k t (with_ext MANIFEST_NAME ''tmp'') m nm) (\<lambda>_.
     bnd (map_error (\<lambda>e. ''Atomic rename file failed'') (rename_file io k t (with_ext MANIFEST_NAME ''tmp'') MANIFEST_NAME)) (\<lambda>_.
     bnd (fetch_log E rd io k t cfg) (\<lambda>_.
     bnd (map_error (\<lambda>e. ''failed to cleanup unreferenced files'') (cleanup_unreferenced_files io m k t)) (\<lambda>_.
       ret (Some (stats, es')))))))"

text \<open>From the comparison of the manifests on.\<close>

definition sync_manifest :: "'c pull_env \<Rightarrow> source_reader \<Rightarrow> fsio \<Rightarrow> pull_ctx \<Rightarrow> 'n gkey \<Rightarrow> int \<Rightarrow> bool \<Rightarrow> EncounteredChunks \<Rightarrow> DataBlob \<Rightarrow>
    ('n, 'a, (SyncStats \<times> EncounteredChunks) option) op" where
  "sync_manifest E rd io cx k t corrupt es blob =
     (let cleanup = attempt (remove_file io k t (with_ext MANIFEST_NAME ''tmp'')) in
      bnd (existing_manifest E io k t corrupt blob) (\<lambda>ex. case ex of
        None \<Rightarrow> bnd (fetch_log E rd io k t None) (\<lambda>_. bnd cleanup (\<lambda>_. ret (Some (SyncStats_default, es))))
      | Some existing \<Rightarrow>
          bnd (unwrap_result (try_from_blob (pe_libs E) (pe_mlib E) blob)) (\<lambda>m.
            if ignore_not_verified_or_encrypted (manifest_verify_state E) m (verified_only (filters cx)) (encrypted_only (filters cx))
            then bnd cleanup (\<lambda>_. ret None)
            else bnd (unwrap_result (optionally_use_decryption_key E (crypt_configs cx) m existing)) (\<lambda>(cfg, skip).
              if skip then bnd (fetch_log E rd io k t cfg) (\<lambda>_. bnd cleanup (\<lambda>_. ret (Some (SyncStats_default, es))))
              else sync_files E rd io k t m corrupt cfg es))))"

definition pull_snapshot :: "'c pull_env \<Rightarrow> source_reader \<Rightarrow> fsio \<Rightarrow> pull_ctx \<Rightarrow> 'n gkey \<Rightarrow> int \<Rightarrow> bool \<Rightarrow> EncounteredChunks \<Rightarrow>
    ('n, 'a, (SyncStats \<times> EncounteredChunks) option) op" where
  "pull_snapshot E rd io cx k t corrupt es =
     bnd (load_file_into rd io k t MANIFEST_NAME (with_ext MANIFEST_NAME ''tmp'')) (\<lambda>r. case r of
       None \<Rightarrow> bnd (attempt (remove_file io k t (with_ext MANIFEST_NAME ''tmp''))) (\<lambda>_. ret None)
     | Some data \<Rightarrow>
         bnd (unwrap_result (load_from_reader (pe_libs E) (Ok data))) (sync_manifest E rd io cx k t corrupt es))"

text \<open>A new directory is removed again when nothing was pulled into it; errors of this cleanup are only logged.\<close>

definition pull_snapshot_from :: "'c pull_env \<Rightarrow> source_reader \<Rightarrow> fsio \<Rightarrow> pull_ctx \<Rightarrow> 'n gkey \<Rightarrow> int \<Rightarrow> bool \<Rightarrow> EncounteredChunks \<Rightarrow>
    ('n, 'a, SyncStats \<times> EncounteredChunks) op" where
  "pull_snapshot_from E rd io cx k t corrupt es =
     bnd (create_locked_backup_dir io (now cx) (skew cx) k t) (\<lambda>is_new.
     bnd (attempt (pull_snapshot E rd io cx k t corrupt es)) (\<lambda>r.
     bnd (if is_new \<and> r \<noteq> Err PANIC \<and> (\<forall>x. r \<noteq> Ok (Some x)) then bnd (attempt (remove_backup_dir io True k t)) (\<lambda>_. ret ()) else ret ()) (\<lambda>_.
       case r of Inl e \<Rightarrow> throw e | Inr None \<Rightarrow> ret (SyncStats_default, es) | Inr (Some x) \<Rightarrow> ret x)))"

section \<open>Pulling a group\<close>

text \<open>The chunks of the last local snapshot can be reused; an error stops the collection and is only logged.\<close>

fun mark_all :: "ChunkReadInfo list \<Rightarrow> EncounteredChunks \<Rightarrow> (err, unit) result \<times> EncounteredChunks" where
  "mark_all [] es = (Ok (), es)"
| "mark_all (info # infos) es =
     (case mark_reusable (info_digest info) (info_size info) None es of (Inl e, es') \<Rightarrow> (Err e, es') | (Inr _, es') \<Rightarrow> mark_all infos es')"

fun collect_files :: "'c pull_env \<Rightarrow> fsio \<Rightarrow> 'n gkey \<Rightarrow> int \<Rightarrow> FileInfo list \<Rightarrow> EncounteredChunks \<Rightarrow> ('n, 'a, EncounteredChunks) op" where
  "collect_files E io k t [] es = ret es"
| "collect_files E io k t (f # fs) es =
     (if file_kind E (fi_filename f) = BlobArchive then collect_files E io k t fs es
      else bnd (attempt (syscall io)) (\<lambda>r. bnd (gets (get_file k t (fi_filename f))) (\<lambda>b.
        case (r, b) of
          (Inr _, Some data) \<Rightarrow>
            (case open_index (file_kind E (fi_filename f)) data of
               Inl e \<Rightarrow> ret es
             | Inr infos \<Rightarrow> (case mark_all infos es of (Inl e, es') \<Rightarrow> ret es' | (Inr _, es') \<Rightarrow> collect_files E io k t fs es'))
        | _ \<Rightarrow> ret es)))"

definition load_manifest :: "'c pull_env \<Rightarrow> SnapDir \<Rightarrow> (err, BackupManifest) result option" where
  "load_manifest E d =
     (case load_from_reader (pe_libs E) (case map_of d MANIFEST_NAME of None \<Rightarrow> Err ''unable to load blob'' | Some b \<Rightarrow> Ok b) of
        None \<Rightarrow> None
      | Some (Inl e) \<Rightarrow> Some (Err e)
      | Some (Inr blob) \<Rightarrow> try_from_blob (pe_libs E) (pe_mlib E) blob)"

definition dir_verify_state :: "'c pull_env \<Rightarrow> SnapDir \<Rightarrow> (err, VerifyState option) result" where
  "dir_verify_state E d = (case load_manifest E d of None \<Rightarrow> Err PANIC | Some r \<Rightarrow> and_then r (manifest_verify_state E))"

definition reusable_chunks :: "'c pull_env \<Rightarrow> fsio \<Rightarrow> 'n gkey \<Rightarrow> ('n, 'a, EncounteredChunks) op" where
  "reusable_chunks E io k =
     bnd (attempt (last_backup io True k)) (\<lambda>r. case r of
         Inr (Some info) \<Rightarrow>
           bnd (attempt (syscall io)) (\<lambda>lock. bnd (gets (snap k (si_time info))) (\<lambda>d.
             case (lock, d) of
               (Inr _, Some d) \<Rightarrow>
                 bnd (of_panic (load_manifest E d)) (\<lambda>mr. case mr of
                     Inl e \<Rightarrow> ret Map.empty
                   | Inr m \<Rightarrow> (case manifest_verify_state E m of
                         Inl e \<Rightarrow> ret Map.empty
                       | Inr st \<Rightarrow> if st = Some VerifyFailed then ret Map.empty
                           else collect_files E io k (si_time info) (bm_files m) Map.empty))
             | _ \<Rightarrow> ret Map.empty))
       | _ \<Rightarrow> ret Map.empty)"

type_synonym ('n, 'a) puller = "int \<Rightarrow> bool \<Rightarrow> EncounteredChunks \<Rightarrow> ('n, 'a, SyncStats \<times> EncounteredChunks) op"

fun pull_loop :: "('n, 'a) puller \<Rightarrow> (int \<times> bool) list \<Rightarrow> EncounteredChunks \<Rightarrow> SyncStats \<Rightarrow> ('n, 'a, SyncStats) op" where
  "pull_loop pull [] es stats = ret stats"
| "pull_loop pull ((t, corrupt) # xs) es stats =
     bnd (pull t corrupt es) (\<lambda>(st, es'). pull_loop pull xs es' (sync_stats_add stats st))"

text \<open>The snapshots of the source group and a reader for each of them.\<close>

record group_source =
  list_snapshots :: "(err, SnapshotListItem list) result"
  open_reader :: "int \<Rightarrow> (err, source_reader) result"

type_synonym item_sort = "(SnapshotListItem \<Rightarrow> SnapshotListItem \<Rightarrow> bool) \<Rightarrow> SnapshotListItem list \<Rightarrow> SnapshotListItem list"

definition pull_group :: "item_sort \<Rightarrow> 'c pull_env \<Rightarrow> fsio \<Rightarrow> pull_ctx \<Rightarrow> group_source \<Rightarrow> 'n gkey \<Rightarrow> ('n, 'a, SyncStats) op" where
  "pull_group sort_by E io cx src k =
     bnd (of_result (list_snapshots src)) (\<lambda>items.
      let raw = sort_by (\<lambda>a b. it_time a \<le> it_time b) (filter_out_in_progress items);
          pull = (\<lambda>t corrupt es. bnd (of_result (open_reader src t)) (\<lambda>rd. pull_snapshot_from E rd io cx k t corrupt es)) in
      bnd (last_successful_backup io k) (\<lambda>last_sync.
      bnd (gets (snaps_of k)) (\<lambda>locals.
      bnd (reusable_chunks E io k) (\<lambda>es.
      bnd (pull_loop pull (pull_selection (filters cx) (dir_verify_state E) locals (case last_sync of None \<Rightarrow> - (2 ^ 63) | Some t \<Rightarrow> t) raw) es SyncStats_default) (\<lambda>stats.
        if remove_vanished (filters cx)
        then bnd (list_backups io k) (\<lambda>infos. vanish_loop io k (source_snapshots (filters cx) raw) infos stats)
        else ret stats)))))"

section \<open>What a pull changes\<close>

text \<open>Only the directory of the snapshot changes, and it keeps \<open>J\<close>, which looks at the files in \<open>N\<close> only.\<close>

definition in_dir :: "'n gkey \<Rightarrow> int \<Rightarrow> ('n gkey \<times> int \<Rightarrow> SnapDir option) \<Rightarrow> (SnapDir \<Rightarrow> bool) \<Rightarrow> ('n, 'a) dstore \<Rightarrow> bool" where
  "in_dir k t F J s \<longleftrightarrow> (\<forall>x. x \<noteq> (k, t) \<longrightarrow> all_snaps s x = F x) \<and> (\<exists>d. snap k t s = Some d \<and> J d)"

definition looks_at :: "string set \<Rightarrow> (SnapDir \<Rightarrow> bool) \<Rightarrow> bool" where
  "looks_at N J \<longleftrightarrow> (\<forall>d d'. (\<forall>n \<in> N. map_of d n = map_of d' n) \<longrightarrow> J d \<longrightarrow> J d')"

lemma in_dir_simps [simp]:
  "in_dir k t F J (s\<lparr>tick := n\<rparr>) = in_dir k t F J s" "in_dir k t F J (s\<lparr>held := h\<rparr>) = in_dir k t F J s" "in_dir k t F J (unlock k' s) = in_dir k t F J s"
  by (simp_all add: in_dir_def)

lemma all_snaps_set: "snap k t s \<noteq> None \<Longrightarrow> all_snaps (set_snap k t d s) = (all_snaps s)((k, t) := Some d)"
  by (auto simp: all_snaps_def fun_eq_iff snap_gdir [of k t s] split: option.splits)

lemma in_dir_set: "in_dir k t F J s \<Longrightarrow> J' d \<Longrightarrow> in_dir k t F J' (set_snap k t d s)"
  using all_snaps_set [of k t s d] by (auto simp: in_dir_def snap_gdir [of k t s] split: option.splits)

lemma triple_upd_dir: "(\<And>d. J d \<Longrightarrow> J' (f d)) \<Longrightarrow> triple (in_dir k t F J) (upd_dir k t f) (\<lambda>_. in_dir k t F J') (\<lambda>_. in_dir k t F J)"
proof (rule tripleI)
  fix s :: "('a, 'b) dstore" and x s'
  assume f: "\<And>d. J d \<Longrightarrow> J' (f d)" and s: "in_dir k t F J s" and run: "upd_dir k t f s = (Ok x, s')"
  then obtain d where d: "snap k t s = Some d" "J d" by (auto simp: in_dir_def)
  then have "s' = set_snap k t (f d) s" using run by (simp add: upd_dir_def bnd_def gets_def modify_def)
  then show "in_dir k t F J' s'" using in_dir_set [OF s, of J'] f [OF d(2)] by simp
next
  fix s :: "('a, 'b) dstore" and e s'
  assume "in_dir k t F J s" "upd_dir k t f s = (Err e, s')"
  then show "in_dir k t F J s'" by (auto simp: in_dir_def upd_dir_def bnd_def gets_def modify_def)
qed

lemma preserves_upd_dir: "(\<And>d. J d \<Longrightarrow> J (f d)) \<Longrightarrow> preserves (in_dir k t F J) (upd_dir k t f)"
  unfolding preserves_def by (rule triple_upd_dir)

lemma looks_atD: "looks_at N J \<Longrightarrow> J d \<Longrightarrow> (\<And>n. n \<in> N \<Longrightarrow> map_of d n = map_of d' n) \<Longrightarrow> J d'"
  unfolding looks_at_def by blast

lemma looks_at_edits:
  assumes "looks_at N J" "J d"
  shows "name \<notin> N \<Longrightarrow> J (AList.update name b d)" "name \<notin> N \<Longrightarrow> J (AList.delete name d)"
    "name \<notin> N \<Longrightarrow> name' \<notin> N \<Longrightarrow> J (AList.update name b (AList.delete name' d))"
    "\<forall>n \<in> N. P n \<Longrightarrow> J (filter (\<lambda>f. P (fst f)) d)"
proof -
  have "map_of (filter (\<lambda>f. P (fst f)) d) n = (if P n then map_of d n else None)" for n by (induction d) auto
  then show "\<forall>n \<in> N. P n \<Longrightarrow> J (filter (\<lambda>f. P (fst f)) d)" by (intro looks_atD [OF assms]) simp
qed (rule looks_atD [OF assms]; auto simp: AList.update_conv AList.delete_conv)+

definition kept :: "'n gkey \<Rightarrow> int \<Rightarrow> ('n gkey \<times> int \<Rightarrow> SnapDir option) \<Rightarrow> string set \<Rightarrow> (SnapDir \<Rightarrow> bool) \<Rightarrow> ('n, 'a) dstore \<Rightarrow> bool" where
  "kept k t F N J s \<longleftrightarrow> looks_at N J \<and> in_dir k t F J s"

lemma kept_simps [simp]:
  "kept k t F N J (s\<lparr>tick := n\<rparr>) = kept k t F N J s" "kept k t F N J (s\<lparr>held := h\<rparr>) = kept k t F N J s" "kept k t F N J (unlock k' s) = kept k t F N J s"
  by (simp_all add: kept_def)

lemma kept_upd_dir: "(\<And>d. looks_at N J \<Longrightarrow> J d \<Longrightarrow> J (f d)) \<Longrightarrow> preserves (kept k t F N J) (upd_dir k t f)"
  by (rule preservesI) (unfold kept_def, blast intro: preservesD [OF preserves_upd_dir])

lemma kept_put_file [preserves_intros]: "name \<notin> N \<Longrightarrow> preserves (kept k t F N J) (put_file k t name b)"
  unfolding put_file_def by (rule kept_upd_dir) (rule looks_at_edits)

lemma kept_remove_file [preserves_intros]: "name \<notin> N \<Longrightarrow> preserves (kept k t F N J) (remove_file io k t name)"
  unfolding remove_file_def by (intro preserves_intros kept_upd_dir) (simp_all add: looks_at_edits)

lemma kept_rename_file [preserves_intros]: "from \<notin> N \<Longrightarrow> to \<notin> N \<Longrightarrow> preserves (kept k t F N J) (rename_file io k t from to)"
  unfolding rename_file_def by (intro preserves_intros kept_upd_dir) (simp_all add: looks_at_edits)

lemma preserves_of_panic [preserves_intros]: "preserves I (of_panic r)"
  unfolding of_panic_def by (intro preserves_intros)

lemma preserves_unwrap [preserves_intros]: "preserves I (unwrap_result r)"
  unfolding unwrap_result_def by (intro preserves_intros)

lemma preserves_download [preserves_intros]:
  "(\<And>b. preserves I (f b)) \<Longrightarrow> preserves I m \<Longrightarrow> (\<And>e b. preserves I (g e b)) \<Longrightarrow> preserves I (case v of Got b \<Rightarrow> f b | NotFound \<Rightarrow> m | Failed e b \<Rightarrow> g e b)"
  by (cases v) simp_all

lemma kept_load_file [preserves_intros]: "into \<notin> N \<Longrightarrow> preserves (kept k t F N J) (load_file_into rd io k t name into)"
  unfolding load_file_into_def by (intro preserves_intros) simp_all

lemma kept_decrypt_blob [preserves_intros]: "target \<notin> N \<Longrightarrow> preserves (kept k t F N J) (decrypt_encrypted_data_blob E io k t data c target)"
  unfolding decrypt_encrypted_data_blob_def by (intro preserves_intros) simp_all

lemma kept_fetch_client_log [preserves_intros]:
  "CLIENT_LOG_NAME \<notin> N \<Longrightarrow> with_ext CLIENT_LOG_NAME ''tmp'' \<notin> N \<Longrightarrow> preserves (kept k t F N J) (try_fetch_client_log E rd io k t cfg)"
  unfolding try_fetch_client_log_def Let_def by (intro preserves_intros) simp_all

lemma kept_fetch_log [preserves_intros]:
  "CLIENT_LOG_NAME \<notin> N \<Longrightarrow> with_ext CLIENT_LOG_NAME ''tmp'' \<notin> N \<Longrightarrow> preserves (kept k t F N J) (fetch_log E rd io k t cfg)"
  unfolding fetch_log_def by (intro preserves_intros) simp_all

lemma kept_decrypted_chunks [preserves_intros]: "preserves I (pull_decrypted_chunks E rd c infos w es)"
  unfolding pull_decrypted_chunks_def by (intro preserves_intros)

lemma kept_transfer_archive [preserves_intros]:
  "decpath \<notin> N \<Longrightarrow> preserves (kept k t F N J) (transfer_archive E rd io k t name data sz decpath cfg es nm)"
  unfolding transfer_archive_def by (cases "file_kind E name"; cases cfg) (auto intro!: preserves_intros)

lemma kept_single_archive [preserves_intros]:
  "fi_filename info \<notin> N \<Longrightarrow> with_ext (fi_filename info) ''tmp'' \<notin> N \<Longrightarrow> with_ext (fi_filename info) ''tmpdec'' \<notin> N \<Longrightarrow>
     preserves (kept k t F N J) (pull_single_archive E rd io k t info cfg es nm)"
  unfolding pull_single_archive_def Let_def by (intro preserves_intros) simp_all

lemma kept_file_unchanged [preserves_intros]: "preserves (kept k t F N J) (file_unchanged E io k t m corrupt name)"
  unfolding file_unchanged_def by (intro preserves_intros) simp_all

lemma kept_pull_files:
  "\<forall>f \<in> set items. fi_filename f \<notin> N \<and> with_ext (fi_filename f) ''tmp'' \<notin> N \<and> with_ext (fi_filename f) ''tmpdec'' \<notin> N \<Longrightarrow>
     preserves (kept k t F N J) (pull_files E rd io k t m corrupt cfg items stats es nm)"
proof (induction items arbitrary: stats es nm)
  case (Cons item items)
  show ?case unfolding pull_files.simps by (intro preserves_intros Cons.IH) (use Cons.prems in simp_all)
qed (simp add: preserves_ret)

lemma preserves_decrypted_manifest [preserves_intros]: "preserves I (decrypted_manifest E m nm)"
  unfolding decrypted_manifest_def Let_def by (auto intro!: preserves_intros split: json.split)

lemma kept_rewrite_manifest [preserves_intros]: "tmp \<notin> N \<Longrightarrow> preserves (kept k t F N J) (rewrite_manifest E io k t tmp m nm)"
  unfolding rewrite_manifest_def by (intro preserves_intros) simp_all

lemma kept_existing_manifest [preserves_intros]: "preserves (kept k t F N J) (existing_manifest E io k t corrupt blob)"
  unfolding existing_manifest_def by (intro preserves_intros) simp_all

lemma kept_cleanup [preserves_intros]: "\<forall>n \<in> N. n \<in> set (wanted_files m) \<Longrightarrow> preserves (kept k t F N J) (cleanup_unreferenced_files io m k t)"
proof (rule preservesI)
  fix s r s'
  assume N: "\<forall>n \<in> N. n \<in> set (wanted_files m)" and s: "kept k t F N J s" and run: "cleanup_unreferenced_files io m k t s = (r, s')"
  show "kept k t F N J s'"
  proof (cases "fault io (tick s)")
    case None
    obtain d where d: "snap k t s = Some d" "J d" using s by (auto simp: kept_def in_dir_def)
    let ?d = "filter (\<lambda>f. fst f \<in> set (wanted_files m) \<or> remains io (tick s) (fst f)) d"
    have "s' = set_snap k t ?d (s\<lparr>tick := Suc (tick s)\<rparr>)"
      using run None d(1) by (auto simp: cleanup_unreferenced_files_def syscall_def bnd_def gets_def modify_def snap_def)
    moreover have "J ?d" using s N by (intro looks_at_edits(4) [of N J d "\<lambda>n. n \<in> set (wanted_files m) \<or> remains io (tick s) n"]) (auto simp: kept_def d)
    ultimately show ?thesis using s in_dir_set [of k t F J "s\<lparr>tick := Suc (tick s)\<rparr>" J ?d] by (simp add: kept_def)
  next
    case (Some e)
    then have "s' = s\<lparr>tick := Suc (tick s)\<rparr>" using run by (auto simp: cleanup_unreferenced_files_def syscall_def bnd_def gets_def)
    then show ?thesis using s by simp
  qed
qed

section \<open>What is there after a pull\<close>

lemma bnd_Ok: "bnd m f s = (Ok y, s') \<longleftrightarrow> (\<exists>x s1. m s = (Ok x, s1) \<and> f x s1 = (Ok y, s'))"
  by (auto simp: bnd_def split: prod.splits sum.splits)

lemma map_error_Ok: "map_error g m s = (Ok y, s') \<longleftrightarrow> m s = (Ok y, s')"
  by (auto simp: map_error_def split: prod.splits sum.splits)

lemma gets_Ok: "gets f s = (Ok y, s') \<longleftrightarrow> y = f s \<and> s' = s"
  by (auto simp: gets_def)

lemma unwrap_Ok: "unwrap_result r s = (Ok y, s') \<longleftrightarrow> r = Some (Ok y) \<and> s' = s"
  by (auto simp: unwrap_result_def of_panic_def st_defs split: option.splits)

lemma of_result_Ok: "of_result r s = (Ok y, s') \<longleftrightarrow> r = Ok y \<and> s' = s"
  by (auto simp: of_result_def)

lemma syscall_Ok: "syscall io s = (Ok u, s') \<longleftrightarrow> fault io (tick s) = None \<and> s' = s\<lparr>tick := Suc (tick s)\<rparr>"
  by (auto simp: syscall_def split: option.splits)

lemma ret_Ok: "ret x s = (Ok y, s') \<longleftrightarrow> y = x \<and> s' = s"
  by (auto simp: ret_def)

lemma throw_Ok: "\<not> throw e s = (Ok y, s')"
  by (simp add: throw_def)

lemmas Ok_steps = bnd_Ok map_error_Ok gets_Ok unwrap_Ok of_result_Ok syscall_Ok ret_Ok throw_Ok

lemma looks_at_file: "looks_at N J \<Longrightarrow> looks_at (insert name N) (\<lambda>d. J d \<and> P (map_of d name))"
  unfolding looks_at_def by (metis insert_iff)

lemma kept_file: "kept k t F N J s \<Longrightarrow> P (get_file k t name s) \<Longrightarrow> kept k t F (insert name N) (\<lambda>d. J d \<and> P (map_of d name)) s"
  unfolding kept_def by (auto intro: looks_at_file simp: in_dir_def get_file_def)

lemma rename_moves:
  assumes s: "kept k t F (insert from N) (\<lambda>d. J d \<and> map_of d from = Some b) s" and J: "looks_at N J"
    and names: "from \<noteq> to" "from \<notin> N" "to \<notin> N" and run: "rename_file io k t from to s = (Ok u, s')"
  shows "kept k t F (insert to N) (\<lambda>d. J d \<and> map_of d to = Some b) s'"
proof -
  let ?J = "\<lambda>d. J d \<and> map_of d from = Some b"
  obtain d where d: "snap k t s = Some d" "J d" "map_of d from = Some b" using s by (auto simp: kept_def in_dir_def)
  let ?d = "AList.update to b (AList.delete from d)"
  have "s' = set_snap k t ?d (s\<lparr>tick := Suc (tick s)\<rparr>)"
    using run d(1,3) names(1) by (auto simp: rename_file_def upd_dir_def syscall_def bnd_def gets_def modify_def get_file_def split: option.splits)
  moreover have "J ?d \<and> map_of ?d to = Some b" using looks_at_edits(3) [OF J d(2)] names by (simp add: AList.update_conv)
  moreover have "in_dir k t F ?J (s\<lparr>tick := Suc (tick s)\<rparr>)" using s by (simp add: kept_def)
  ultimately have "in_dir k t F (\<lambda>d. J d \<and> map_of d to = Some b) s'" by (simp add: in_dir_set)
  then show ?thesis using looks_at_file [OF J, of to "\<lambda>x. x = Some b"] by (simp add: kept_def)
qed

definition good_file :: "'c pull_env \<Rightarrow> FileInfo \<Rightarrow> bytes option \<Rightarrow> bool" where
  "good_file E f b \<longleftrightarrow> (\<exists>data. b = Some data \<and> archive_csum E (file_kind E (fi_filename f)) data = Some (Ok (fi_csum f, fi_size f)))"

lemma transfer_plain: "preserves I (transfer_archive E rd io k t name data sz decpath None es nm)"
  unfolding transfer_archive_def by (cases "file_kind E name") (auto intro!: preserves_intros)

lemma verify_archive_Ok: "verify_archive info cksum sz = Ok u \<longleftrightarrow> sz = fi_size info \<and> cksum = fi_csum info"
  by (simp add: verify_archive_def)

lemma single_archive_good:
  assumes s: "kept k t F N J s" and run: "pull_single_archive E rd io k t info None es nm s = (Ok res, s')"
    and names: "fi_filename info \<notin> N" "with_ext (fi_filename info) ''tmp'' \<notin> N" "with_ext (fi_filename info) ''tmp'' \<noteq> fi_filename info"
  shows "kept k t F (insert (fi_filename info) N) (\<lambda>d. J d \<and> good_file E info (map_of d (fi_filename info))) s'"
proof -
  let ?name = "fi_filename info"
  let ?tmp = "with_ext ?name ''tmp''"
  obtain b s1 u s2 data ck sz res' s3 u' where steps: "load_file_into rd io k t ?name ?tmp s = (Ok (Some b), s1)" "syscall io s1 = (Ok u, s2)"
      "get_file k t ?tmp s2 = Some data" "archive_csum E (file_kind E ?name) data = Some (Ok (ck, sz))" "sz = fi_size info" "ck = fi_csum info"
      "transfer_archive E rd io k t ?name data sz (with_ext ?name ''tmpdec'') None es nm s2 = (Ok res', s3)" "rename_file io k t ?tmp ?name s3 = (Ok u', s')"
    using run by (auto simp: pull_single_archive_def Let_def Ok_steps verify_archive_Ok ret_def throw_def split: option.splits if_splits)
  have "kept k t F N J s1" by (rule preservesD [OF kept_load_file [OF names(2)] s steps(1)])
  then have "kept k t F N J s2" using steps(2) by (auto simp: syscall_def)
  then have "kept k t F (insert ?tmp N) (\<lambda>d. J d \<and> map_of d ?tmp = Some data) s2" using steps(3) by (rule kept_file)
  then have "kept k t F (insert ?tmp N) (\<lambda>d. J d \<and> map_of d ?tmp = Some data) s3"
    by (rule preservesD [OF transfer_plain [of "kept k t F (insert ?tmp N) (\<lambda>d. J d \<and> map_of d ?tmp = Some data)"] _ steps(7)])
  then have "kept k t F (insert ?name N) (\<lambda>d. J d \<and> map_of d ?name = Some data) s'"
    by (rule rename_moves [OF _ _ _ _ _ steps(8)]) (use s names in \<open>auto simp: kept_def\<close>)
  moreover have "good_file E info (Some data)" using steps(4-6) by (simp add: good_file_def)
  ultimately show ?thesis using looks_at_file [of N J ?name "good_file E info"] s by (auto simp: kept_def in_dir_def)
qed

text \<open>Names that a manifest may use: the names of archives are those of \<^verbatim>\<open>BackupArchiveName\<close>, and no two are the same; no archive
  has the temporary name of the manifest.\<close>

definition names_ok :: "BackupManifest \<Rightarrow> bool" where
  "names_ok m \<longleftrightarrow> distinct (map fi_filename (bm_files m)) \<and>
     list_all (\<lambda>f. is_backup_file (fi_filename f) \<and> with_ext (fi_filename f) ''tmp'' \<noteq> with_ext MANIFEST_NAME ''tmp'') (bm_files m)"

lemma ends_with_append: "ends_with e (xs @ e)"
  by (simp add: ends_with_def)

lemma ends_with_last4: "ends_with e n \<Longrightarrow> length e \<ge> 4 \<Longrightarrow> drop (length n - 4) n = drop (length e - 4) e"
proof -
  assume e: "ends_with e n" "length e \<ge> 4"
  then have "n = take (length n - length e) n @ e" by (metis append_take_drop_id ends_with_def)
  then obtain xs where "n = xs @ e" by blast
  then show ?thesis using e(2) by simp
qed

lemma with_ext_ends: "ends_with (CHR ''.'' # e) (with_ext n e)"
  unfolding with_ext_def Let_def by (rule ends_with_append)

lemma tmp_not_backup: "\<not> is_backup_file (with_ext n ''tmp'')"
proof
  assume "is_backup_file (with_ext n ''tmp'')"
  then obtain e where "ends_with e (with_ext n ''tmp'')" "e \<in> {''.fidx'', ''.didx'', ''.blob''}" by (auto simp: is_backup_file_def)
  then show False using ends_with_last4 [of e] ends_with_last4 [OF with_ext_ends [of "''tmp''" n]] by auto
qed

lemma verify_file_good:
  assumes "distinct (map fi_filename (bm_files m))" "f \<in> set (bm_files m)" "verify_file m (fi_filename f) ck sz = Ok u"
  shows "ck = fi_csum f \<and> sz = fi_size f"
proof -
  obtain g where g: "find (\<lambda>g. fi_filename g = fi_filename f) (bm_files m) = Some g" "sz = fi_size g" "ck = fi_csum g"
    using assms(3) by (auto simp: verify_file_def lookup_file_info_def split: option.splits if_splits)
  then have "g \<in> set (bm_files m)" "fi_filename g = fi_filename f" by (auto simp: find_Some_iff)
  then have "g = f" using assms(1,2) by (simp add: distinct_map inj_on_def)
  then show ?thesis using g by simp
qed

lemma file_unchanged_True:
  assumes "file_unchanged E io k t m corrupt (fi_filename f) s = (Ok True, s')" "distinct (map fi_filename (bm_files m))" "f \<in> set (bm_files m)"
  shows "good_file E f (get_file k t (fi_filename f) s)" "s' = s\<lparr>tick := Suc (Suc (tick s))\<rparr>"
proof -
  obtain data ck sz where "get_file k t (fi_filename f) s = Some data" "archive_csum E (file_kind E (fi_filename f)) data = Some (Ok (ck, sz))"
      "verify_file m (fi_filename f) ck sz = Ok ()" "s' = s\<lparr>tick := Suc (Suc (tick s))\<rparr>"
    using assms(1) by (auto simp: file_unchanged_def file_exists_Ok get_file_tick Ok_steps syscall_def ret_def split: option.splits if_splits)
  then show "good_file E f (get_file k t (fi_filename f) s)" "s' = s\<lparr>tick := Suc (Suc (tick s))\<rparr>"
    using verify_file_good [OF assms(2,3)] by (auto simp: good_file_def)
qed

lemma pull_files_good:
  assumes "kept k t F N J s" "pull_files E rd io k t m corrupt None items stats es nm s = (Ok res, s')"
    "set items \<subseteq> set (bm_files m)" "distinct (map fi_filename (bm_files m))" "distinct (map fi_filename items)"
    "\<forall>f \<in> set items. fi_filename f \<notin> N \<and> is_backup_file (fi_filename f) \<and> with_ext (fi_filename f) ''tmp'' \<notin> N"
  shows "kept k t F (N \<union> fi_filename ` set items) (\<lambda>d. J d \<and> (\<forall>f \<in> set items. good_file E f (map_of d (fi_filename f)))) s'"
  using assms
proof (induction items arbitrary: N J stats es nm s)
  case (Cons f items)
  let ?n = "fi_filename f"
  let ?J = "\<lambda>d. J d \<and> good_file E f (map_of d ?n)"
  have next_file: "kept k t F (N \<union> fi_filename ` set (f # items)) (\<lambda>d. J d \<and> (\<forall>f \<in> set (f # items). good_file E f (map_of d (fi_filename f)))) s'"
    if "kept k t F (insert ?n N) ?J s1" "pull_files E rd io k t m corrupt None items stats1 es1 nm1 s1 = (Ok res, s')" for s1 stats1 es1 nm1
  proof -
    have "\<forall>g \<in> set items. fi_filename g \<notin> insert ?n N \<and> is_backup_file (fi_filename g) \<and> with_ext (fi_filename g) ''tmp'' \<notin> insert ?n N"
    proof
      fix g
      assume g: "g \<in> set items"
      then have "fi_filename g \<noteq> ?n" using Cons.prems(5) by (metis distinct.simps(2) image_eqI list.simps(9) list.set_map)
      moreover have "with_ext (fi_filename g) ''tmp'' \<noteq> ?n" using tmp_not_backup Cons.prems(6) by (metis list.set_intros(1))
      ultimately show "fi_filename g \<notin> insert ?n N \<and> is_backup_file (fi_filename g) \<and> with_ext (fi_filename g) ''tmp'' \<notin> insert ?n N"
        using Cons.prems(6) g by simp
    qed
    from Cons.IH [OF that _ Cons.prems(4) _ this] show ?thesis using Cons.prems by (simp add: Un_commute conj_assoc insert_commute)
  qed
  obtain same s1 where same: "file_unchanged E io k t m corrupt ?n s = (Ok same, s1)"
      "(if same then pull_files E rd io k t m corrupt None items stats es nm
        else bnd (pull_single_archive E rd io k t f None es nm) (\<lambda>(st, es', nm').
          pull_files E rd io k t m corrupt None items (sync_stats_add stats st) es' nm')) s1 = (Ok res, s')"
    using Cons.prems(2) by (auto simp: bnd_Ok)
  show ?case
  proof (cases same)
    case True
    have "kept k t F (insert ?n N) ?J s1"
      using file_unchanged_True [of E io k t m corrupt f s s1] same(1) True Cons.prems kept_file [OF Cons.prems(1), of "good_file E f" ?n] by simp
    then show ?thesis using next_file same(2) True by simp
  next
    case False
    then obtain st es' nm' s2 where p: "pull_single_archive E rd io k t f None es nm s1 = (Ok (st, es', nm'), s2)"
        "pull_files E rd io k t m corrupt None items (sync_stats_add stats st) es' nm' s2 = (Ok res, s')"
      using same(2) by (auto simp: bnd_Ok)
    have "kept k t F N J s1" by (rule preservesD [OF kept_file_unchanged Cons.prems(1) same(1)])
    then have "kept k t F (insert ?n N) ?J s2"
      by (rule single_archive_good [OF _ p(1)]) (use Cons.prems(6) tmp_not_backup [of ?n] in auto)
    then show ?thesis by (rule next_file [OF _ p(2)])
  qed
qed (auto simp: ret_def)

section \<open>A pulled snapshot is complete\<close>

lemma no_keys: "optionally_use_decryption_key E [] m existing = Some (Ok (cfg, skip)) \<Longrightarrow> cfg = None \<and> \<not> skip"
  by (auto simp: optionally_use_decryption_key_def and_then_eq_Inr Let_def split: sum.splits option.splits if_splits bool.splits)

lemma blob_raw: "load_from_reader L (Ok b) = Some (Ok blob) \<Longrightarrow> raw_data blob = b"
  by (auto simp: load_from_reader_def from_raw_with_crc_check_def and_then_eq_Inr DataBlob.from_raw_def Let_def split: sum.splits if_splits)

lemma load_file_into_Got:
  assumes "load_file_into rd io k t name into s = (Ok (Some b), s')" "snap k t s \<noteq> None"
  shows "kept k t (all_snaps s) {into} (\<lambda>d. map_of d into = Some b) s'" "\<exists>n. rd_load rd n name = Got b"
proof -
  obtain s2 u s1 where steps: "put_file k t into b s1 = (Ok u, s2)" "s' = s2\<lparr>tick := Suc (tick s2)\<rparr>" "kept k t (all_snaps s) {} (\<lambda>_. True) s1"
    and got: "\<exists>n. rd_load rd n name = Got b"
  proof -
    have start: "kept k t (all_snaps s) {} (\<lambda>_. True) s" using assms(2) by (auto simp: kept_def looks_at_def in_dir_def)
    obtain u1 s1 where run: "fault io (tick s) = None" "put_file k t into [] (s\<lparr>tick := Suc (tick s)\<rparr>) = (Ok u1, s1)"
        "(case rd_load rd (tick s1) name of NotFound \<Rightarrow> ret None | Failed e part \<Rightarrow> bnd (put_file k t into part) (\<lambda>_. throw e)
          | Got data \<Rightarrow> bnd (put_file k t into data) (\<lambda>_. bnd (syscall io) (\<lambda>_. ret (Some data)))) s1 = (Ok (Some b), s')"
      using assms(1) unfolding load_file_into_def by (auto simp: Ok_steps)
    obtain u2 s2 where got: "rd_load rd (tick s1) name = Got b" "put_file k t into b s1 = (Ok u2, s2)" "s' = s2\<lparr>tick := Suc (tick s2)\<rparr>"
      using run(3) by (cases "rd_load rd (tick s1) name") (auto simp: Ok_steps)
    have "kept k t (all_snaps s) {} (\<lambda>_. True) s1" by (rule preservesD [OF kept_put_file _ run(2)]) (use start in simp_all)
    then show ?thesis using that got by blast
  qed
  have "triple (in_dir k t (all_snaps s) (\<lambda>_. True)) (put_file k t into b) (\<lambda>_. in_dir k t (all_snaps s) (\<lambda>d. map_of d into = Some b)) (\<lambda>_. in_dir k t (all_snaps s) (\<lambda>_. True))"
    unfolding put_file_def by (rule triple_upd_dir) (simp add: AList.update_conv)
  from tripleD(1) [OF this _ steps(1)] show "kept k t (all_snaps s) {into} (\<lambda>d. map_of d into = Some b) s'"
    using steps(2,3) by (auto simp: kept_def looks_at_def)
  show "\<exists>n. rd_load rd n name = Got b" by (rule got)
qed

lemma existing_manifest_new:
  assumes "existing_manifest E io k t corrupt blob s = (Ok ex, s')" "get_file k t MANIFEST_NAME s \<noteq> Some (raw_data blob) \<or> corrupt"
  shows "ex \<noteq> None"
  using assms by (auto simp: existing_manifest_def file_exists_Ok get_file_tick Ok_steps of_panic_def ret_def syscall_def split: option.splits if_splits dest!: blob_raw)

lemma pull_snapshot_full:
  assumes src: "\<forall>n. rd_load rd n MANIFEST_NAME = Got data" "load_from_reader (pe_libs E) (Ok data) = Some (Ok blob)"
      "try_from_blob (pe_libs E) (pe_mlib E) blob = Some (Ok m)"
    and cx: "crypt_configs cx = []" and changed: "get_file k t MANIFEST_NAME s \<noteq> Some data \<or> corrupt" and s: "snap k t s \<noteq> None"
    and run: "pull_snapshot E rd io cx k t corrupt es s = (Ok (Some r), s')"
  obtains s1 where "sync_files E rd io k t m corrupt None es s1 = (Ok (Some r), s')"
    "kept k t (all_snaps s) {with_ext MANIFEST_NAME ''tmp''} (\<lambda>d. map_of d (with_ext MANIFEST_NAME ''tmp'') = Some data) s1"
proof -
  let ?tmp = "with_ext MANIFEST_NAME ''tmp''"
  obtain d0 s0 where load: "load_file_into rd io k t MANIFEST_NAME ?tmp s = (Ok (Some d0), s0)"
    and rest: "bnd (unwrap_result (load_from_reader (pe_libs E) (Ok d0))) (sync_manifest E rd io cx k t corrupt es) s0 = (Ok (Some r), s')"
    using run unfolding pull_snapshot_def by (auto simp: bnd_Ok ret_Ok split: option.splits)
  have d0: "d0 = data" using load_file_into_Got(2) [OF load s] src(1) by auto
  have "kept k t (all_snaps s) {MANIFEST_NAME} (\<lambda>d. map_of d MANIFEST_NAME = get_file k t MANIFEST_NAME s) s0"
    by (rule preservesD [OF kept_load_file _ load]) (use s in \<open>auto simp: kept_def looks_at_def in_dir_def get_file_def with_ext_def MANIFEST_NAME_def\<close>)
  then have same: "get_file k t MANIFEST_NAME s0 = get_file k t MANIFEST_NAME s" by (auto simp: kept_def in_dir_def get_file_def)
  have sync: "sync_manifest E rd io cx k t corrupt es blob s0 = (Ok (Some r), s')" using rest src(2) unfolding d0 by (auto simp: bnd_Ok unwrap_Ok)
  then obtain ex s1 where ex: "existing_manifest E io k t corrupt blob s0 = (Ok ex, s1)" unfolding sync_manifest_def Let_def by (auto simp: bnd_Ok)
  obtain existing where existing: "ex = Some existing" using existing_manifest_new [OF ex] changed same blob_raw [OF src(2)] by auto
  have "sync_files E rd io k t m corrupt None es s1 = (Ok (Some r), s')"
    using sync ex no_keys [of E m existing] by (auto simp: sync_manifest_def Let_def bnd_Ok unwrap_Ok ret_Ok existing src(3) cx split: if_splits)
  moreover have "kept k t (all_snaps s) {?tmp} (\<lambda>d. map_of d ?tmp = Some data) s1"
    using preservesD [OF kept_existing_manifest load_file_into_Got(1) [OF load s] ex] by (simp add: d0)
  ultimately show ?thesis by (rule that)
qed

lemma single_archive_plain: "pull_single_archive E rd io k t info None es nm s = (Ok (st, es', nm'), s') \<Longrightarrow> nm' = nm"
  by (cases "file_kind E (fi_filename info)")
    (auto simp: pull_single_archive_def transfer_archive_def Let_def Ok_steps split: option.splits if_splits)

lemma pull_files_plain: "pull_files E rd io k t m corrupt None items stats es nm s = (Ok (stats', es', nm'), s') \<Longrightarrow> nm' = nm"
  by (induction items arbitrary: stats es nm s) (auto simp: Ok_steps split: if_splits dest!: single_archive_plain)

lemma sync_files_steps:
  assumes "sync_files E rd io k t m corrupt None es s = (Ok (Some r), s')"
  obtains s2 s3 s4 res u v w where "pull_files E rd io k t m corrupt None (bm_files m) SyncStats_default es None s = (Ok res, s2)"
    "rename_file io k t (with_ext MANIFEST_NAME ''tmp'') MANIFEST_NAME s2 = (Ok u, s3)"
    "fetch_log E rd io k t None s3 = (Ok v, s4)" "cleanup_unreferenced_files io m k t s4 = (Ok w, s')"
proof -
  obtain stats es' nm s2 where files: "pull_files E rd io k t m corrupt None (bm_files m) SyncStats_default es None s = (Ok (stats, es', nm), s2)"
      "bnd (rewrite_manifest E io k t (with_ext MANIFEST_NAME ''tmp'') m nm) (\<lambda>_.
       bnd (map_error (\<lambda>e. ''Atomic rename file failed'') (rename_file io k t (with_ext MANIFEST_NAME ''tmp'') MANIFEST_NAME)) (\<lambda>_.
       bnd (fetch_log E rd io k t None) (\<lambda>_.
       bnd (map_error (\<lambda>e. ''failed to cleanup unreferenced files'') (cleanup_unreferenced_files io m k t)) (\<lambda>_. ret (Some (stats, es')))))) s2 = (Ok (Some r), s')"
    using assms unfolding sync_files_def by (auto simp: bnd_Ok)
  then show ?thesis using that [OF files(1)] pull_files_plain [OF files(1)] by (auto simp: rewrite_manifest_def Ok_steps)
qed

lemma fetch_log_kept:
  assumes "kept k t F N J s" "fetch_log E rd io k t cfg s = (r, s')" "with_ext CLIENT_LOG_NAME ''tmp'' \<notin> N"
    "CLIENT_LOG_NAME \<in> N \<Longrightarrow> get_file k t CLIENT_LOG_NAME s \<noteq> None"
  shows "kept k t F N J s'"
proof (cases "CLIENT_LOG_NAME \<in> N")
  case True
  then have "s' = s" using assms(2,4) by (auto simp: fetch_log_def bnd_def gets_def ret_def)
  then show ?thesis using assms(1) by simp
next
  case False
  show ?thesis by (rule preservesD [OF kept_fetch_log [OF False assms(3)] assms(1,2)])
qed

lemma bnd_step: "m s = (Ok x, s1) \<Longrightarrow> bnd m f s = f x s1" "m s = (Err e, s1) \<Longrightarrow> bnd m f s = (Err e, s1)"
  by (simp_all add: bnd_def)

lemma bnd_ret: "bnd (ret x) f = f x"
  by (simp add: bnd_def ret_def)

lemma map_error_step: "m s = (Ok x, s1) \<Longrightarrow> map_error g m s = (Ok x, s1)" "m s = (Err e, s1) \<Longrightarrow> map_error g m s = (Err (g e), s1)"
  by (simp_all add: map_error_def)

lemma bnd_any: "bnd m f s = (r, s') \<longleftrightarrow> (\<exists>r1 s1. m s = (r1, s1) \<and> (case r1 of Inl e \<Rightarrow> r = Err e \<and> s' = s1 | Inr x \<Rightarrow> f x s1 = (r, s')))"
  by (auto simp: bnd_def split: prod.splits sum.splits)

lemma tmpdec_not_backup: "\<not> is_backup_file (with_ext n ''tmpdec'')"
proof
  assume "is_backup_file (with_ext n ''tmpdec'')"
  then obtain e where "ends_with e (with_ext n ''tmpdec'')" "e \<in> {''.fidx'', ''.didx'', ''.blob''}" by (auto simp: is_backup_file_def)
  then show False using ends_with_last4 [of e] ends_with_last4 [OF with_ext_ends [of "''tmpdec''" n]] by auto
qed

lemma manifest_is_backup: "is_backup_file MANIFEST_NAME" "with_ext MANIFEST_NAME ''tmp'' \<noteq> MANIFEST_NAME"
  "with_ext CLIENT_LOG_NAME ''tmp'' \<noteq> MANIFEST_NAME" "CLIENT_LOG_NAME \<noteq> MANIFEST_NAME"
  by (simp_all add: MANIFEST_NAME_def CLIENT_LOG_NAME_def is_backup_file_def ends_with_def with_ext_def)

lemma rename_Err: "rename_file io k t from to s = (Err e, s') \<Longrightarrow> s' = s\<lparr>tick := Suc (tick s)\<rparr>"
  by (auto simp: rename_file_def upd_dir_def syscall_def bnd_def gets_def throw_def ret_def modify_def split: option.splits if_splits)

definition all_good :: "'c pull_env \<Rightarrow> BackupManifest \<Rightarrow> bytes \<Rightarrow> SnapDir \<Rightarrow> bool" where
  "all_good E m data d \<longleftrightarrow> map_of d MANIFEST_NAME = Some data \<and> (\<forall>f \<in> set (bm_files m). good_file E f (map_of d (fi_filename f)))"

lemma names_backup:
  assumes "names_ok m"
  shows "\<forall>f \<in> set (bm_files m). is_backup_file (fi_filename f) \<and> with_ext (fi_filename f) ''tmp'' \<noteq> with_ext MANIFEST_NAME ''tmp'' \<and> fi_filename f \<noteq> MANIFEST_NAME"
  using assms by (auto simp: names_ok_def list_all_iff)

lemma manifest_installed:
  assumes names: "names_ok m" and s: "kept k t F {with_ext MANIFEST_NAME ''tmp''} (\<lambda>d. map_of d (with_ext MANIFEST_NAME ''tmp'') = Some data) s"
    and files: "pull_files E rd io k t m corrupt None (bm_files m) stats es nm s = (Ok res, s2)"
    and ren: "rename_file io k t (with_ext MANIFEST_NAME ''tmp'') MANIFEST_NAME s2 = (Ok u, s3)"
  shows "kept k t F (insert MANIFEST_NAME (fi_filename ` set (bm_files m))) (all_good E m data) s3"
proof -
  let ?tmp = "with_ext MANIFEST_NAME ''tmp''"
  let ?N = "fi_filename ` set (bm_files m)"
  let ?G = "\<lambda>d. \<forall>f \<in> set (bm_files m). good_file E f (map_of d (fi_filename f))"
  have not_tmp: "\<forall>f \<in> set (bm_files m). fi_filename f \<notin> {?tmp} \<and> is_backup_file (fi_filename f) \<and> with_ext (fi_filename f) ''tmp'' \<notin> {?tmp}"
    using names_backup [OF names] tmp_not_backup by (metis singletonD)
  have "kept k t F ({?tmp} \<union> ?N) (\<lambda>d. map_of d ?tmp = Some data \<and> ?G d) s2"
    using names not_tmp by (intro pull_files_good [OF s files]) (simp_all add: names_ok_def)
  then have "kept k t F (insert ?tmp ?N) (\<lambda>d. ?G d \<and> map_of d ?tmp = Some data) s2" by (simp add: conj_commute)
  then have "kept k t F (insert MANIFEST_NAME ?N) (\<lambda>d. ?G d \<and> map_of d MANIFEST_NAME = Some data) s3"
    by (rule rename_moves [OF _ _ _ _ _ ren]) (use not_tmp names_backup [OF names] manifest_is_backup in \<open>auto simp: looks_at_def\<close>)
  then show ?thesis unfolding all_good_def by (simp add: conj_commute)
qed

lemma installed_kept:
  assumes "names_ok m" "kept k t F (insert MANIFEST_NAME (fi_filename ` set (bm_files m))) (all_good E m data) s"
    "bnd (fetch_log E rd io k t None) (\<lambda>_. bnd (map_error g (cleanup_unreferenced_files io m k t)) (\<lambda>_. ret x)) s = (r, s')"
  shows "kept k t F (insert MANIFEST_NAME (fi_filename ` set (bm_files m))) (all_good E m data) s'"
proof -
  let ?N = "insert MANIFEST_NAME (fi_filename ` set (bm_files m))"
  obtain r1 s1 where log: "fetch_log E rd io k t None s = (r1, s1)"
    "case r1 of Inl e \<Rightarrow> r = Err e \<and> s' = s1 | Inr u \<Rightarrow> bnd (map_error g (cleanup_unreferenced_files io m k t)) (\<lambda>_. ret x) s1 = (r, s')"
    using assms(3) by (auto simp: bnd_any [of "fetch_log E rd io k t None"])
  have "with_ext CLIENT_LOG_NAME ''tmp'' \<notin> ?N" using assms(1) tmp_not_backup [of CLIENT_LOG_NAME] manifest_is_backup by (auto simp: names_ok_def list_all_iff)
  then have s1: "kept k t F ?N (all_good E m data) s1"
    by (rule fetch_log_kept [OF assms(2) log(1)])
      (use assms(2) manifest_is_backup in \<open>auto simp: kept_def in_dir_def get_file_def good_file_def all_good_def\<close>)
  have "preserves (kept k t F ?N (all_good E m data)) (bnd (map_error g (cleanup_unreferenced_files io m k t)) (\<lambda>_. ret x))"
    by (intro preserves_intros) (simp add: wanted_files_def)
  then show ?thesis using log(2) s1 by (cases r1) (auto dest: preservesD)
qed

text \<open>
  C4. When a pull without decryption reports a snapshot as synced whose manifest differs from the local one, the manifest of the source is installed, every
  file that it lists is there and has the recorded checksum and size, and no other snapshot has changed.
\<close>

theorem pulled_snapshot_verified:
  assumes src: "\<forall>n. rd_load rd n MANIFEST_NAME = Got data" "load_from_reader (pe_libs E) (Ok data) = Some (Ok blob)"
      "try_from_blob (pe_libs E) (pe_mlib E) blob = Some (Ok m)"
    and names: "names_ok m" and cx: "crypt_configs cx = []" and changed: "get_file k t MANIFEST_NAME s \<noteq> Some data \<or> corrupt"
    and s: "snap k t s \<noteq> None" and run: "pull_snapshot E rd io cx k t corrupt es s = (Ok (Some r), s')"
  shows "get_file k t MANIFEST_NAME s' = Some data \<and>
    (\<forall>f \<in> set (bm_files m). \<exists>b. get_file k t (fi_filename f) s' = Some b \<and> archive_csum E (file_kind E (fi_filename f)) b = Some (Ok (fi_csum f, fi_size f))) \<and>
    (\<forall>k' t'. (k', t') \<noteq> (k, t) \<longrightarrow> snap k' t' s' = snap k' t' s)"
proof -
  let ?tmp = "with_ext MANIFEST_NAME ''tmp''"
  obtain s1 where s1: "sync_files E rd io k t m corrupt None es s1 = (Ok (Some r), s')" "kept k t (all_snaps s) {?tmp} (\<lambda>d. map_of d ?tmp = Some data) s1"
    by (rule pull_snapshot_full [OF src cx changed s run])
  obtain s2 s3 s4 res u v w where steps: "pull_files E rd io k t m corrupt None (bm_files m) SyncStats_default es None s1 = (Ok res, s2)"
    "rename_file io k t ?tmp MANIFEST_NAME s2 = (Ok u, s3)" "fetch_log E rd io k t None s3 = (Ok v, s4)" "cleanup_unreferenced_files io m k t s4 = (Ok w, s')"
    by (rule sync_files_steps [OF s1(1)])
  have "bnd (fetch_log E rd io k t None) (\<lambda>_. bnd (map_error id (cleanup_unreferenced_files io m k t)) (\<lambda>_. ret ())) s3 = (Ok (), s')"
    using steps(3,4) by (simp add: bnd_step map_error_step ret_def)
  from installed_kept [OF names manifest_installed [OF names s1(2) steps(1,2)] this]
  show ?thesis by (auto simp: kept_def in_dir_def get_file_def good_file_def all_good_def all_snaps_def)
qed

section \<open>An interrupted pull\<close>

lemma sync_files_atomic:
  assumes names: "names_ok m" and s: "kept k t F {with_ext MANIFEST_NAME ''tmp''} (\<lambda>d. map_of d (with_ext MANIFEST_NAME ''tmp'') = Some data) s"
    and old: "kept k t F {MANIFEST_NAME} (\<lambda>d. map_of d MANIFEST_NAME = old) s"
    and run: "sync_files E rd io k t m corrupt None es s = (r, s')"
  shows "kept k t F {MANIFEST_NAME} (\<lambda>d. map_of d MANIFEST_NAME = old) s' \<or>
    kept k t F (insert MANIFEST_NAME (fi_filename ` set (bm_files m))) (all_good E m data) s'"
proof -
  let ?tmp = "with_ext MANIFEST_NAME ''tmp''"
  let ?old = "kept k t F {MANIFEST_NAME} (\<lambda>d. map_of d MANIFEST_NAME = old)"
  have other: "\<forall>f \<in> set (bm_files m). fi_filename f \<notin> {MANIFEST_NAME} \<and> with_ext (fi_filename f) ''tmp'' \<notin> {MANIFEST_NAME} \<and> with_ext (fi_filename f) ''tmpdec'' \<notin> {MANIFEST_NAME}"
    using names_backup [OF names] tmp_not_backup tmpdec_not_backup manifest_is_backup(1) by (metis singletonD)
  obtain r1 s2 where files: "pull_files E rd io k t m corrupt None (bm_files m) SyncStats_default es None s = (r1, s2)" by fastforce
  have old2: "?old s2" by (rule preservesD [OF kept_pull_files [OF other] old files])
  show ?thesis
  proof (cases r1)
    case (Inl e)
    then show ?thesis using run files old2 by (simp add: sync_files_def bnd_step)
  next
    case (Inr res)
    obtain stats es' where res: "res = (stats, es', None)" using pull_files_plain files Inr by (cases res) blast
    note files = files [unfolded Inr res]
    obtain r3 s3 where ren: "rename_file io k t ?tmp MANIFEST_NAME s2 = (r3, s3)" by fastforce
    show ?thesis
    proof (cases r3)
      case (Inl e)
      then have "s' = s3" using run files ren by (simp add: sync_files_def rewrite_manifest_def bnd_ret bnd_step map_error_step)
      then show ?thesis using rename_Err [OF ren [unfolded Inl]] old2 by simp
    next
      case (Inr u)
      have "bnd (fetch_log E rd io k t None) (\<lambda>_. bnd (map_error (\<lambda>e. ''failed to cleanup unreferenced files'') (cleanup_unreferenced_files io m k t))
          (\<lambda>_. ret (Some (stats, es')))) s3 = (r, s')"
        using run files ren Inr by (simp add: sync_files_def rewrite_manifest_def bnd_ret bnd_step map_error_step)
      from installed_kept [OF names manifest_installed [OF names s files ren [unfolded Inr]] this] show ?thesis by simp
    qed
  qed
qed

text \<open>The manifests that the source may send.\<close>

definition sends :: "'c pull_env \<Rightarrow> source_reader \<Rightarrow> bytes \<Rightarrow> BackupManifest \<Rightarrow> bool" where
  "sends E rd data m \<longleftrightarrow> (\<exists>n blob. rd_load rd n MANIFEST_NAME = Got data \<and> load_from_reader (pe_libs E) (Ok data) = Some (Ok blob) \<and>
     try_from_blob (pe_libs E) (pe_mlib E) blob = Some (Ok m))"

definition old_or_complete :: "'c pull_env \<Rightarrow> source_reader \<Rightarrow> bytes option \<Rightarrow> SnapDir \<Rightarrow> bool" where
  "old_or_complete E rd old d \<longleftrightarrow> map_of d MANIFEST_NAME = old \<or> (\<exists>data m. sends E rd data m \<and> all_good E m data d)"

text \<open>Whatever the result, the state satisfies \<open>Q\<close>.\<close>

definition leads :: "('s \<Rightarrow> bool) \<Rightarrow> ('e, 's, 'x) st \<Rightarrow> ('s \<Rightarrow> bool) \<Rightarrow> bool" where
  "leads P m Q \<longleftrightarrow> (\<forall>s r s'. P s \<longrightarrow> m s = (r, s') \<longrightarrow> Q s')"

lemma leadsI: "(\<And>s r s'. P s \<Longrightarrow> m s = (r, s') \<Longrightarrow> Q s') \<Longrightarrow> leads P m Q"
  by (simp add: leads_def)

lemma leads_preserves: "preserves I m \<Longrightarrow> (\<And>s. P s \<Longrightarrow> I s) \<Longrightarrow> (\<And>s. I s \<Longrightarrow> Q s) \<Longrightarrow> leads P m Q"
  by (rule leadsI) (blast dest: preservesD)

lemma leads_bnd: "preserves P m \<Longrightarrow> (\<And>s. P s \<Longrightarrow> Q s) \<Longrightarrow> (\<And>x. leads P (f x) Q) \<Longrightarrow> leads P (bnd m f) Q"
proof (rule leadsI)
  fix s r s'
  assume m: "preserves P m" "\<And>s. P s \<Longrightarrow> Q s" "\<And>x. leads P (f x) Q" and s: "P s" "bnd m f s = (r, s')"
  obtain r1 s1 where run: "m s = (r1, s1)" by fastforce
  show "Q s'" using preservesD [OF m(1) s(1) run] m(2,3) s(2) run by (cases r1) (auto simp: bnd_def leads_def)
qed

lemma leads_unwrap: "(\<And>x. r = Some (Ok x) \<Longrightarrow> leads P (f x) Q) \<Longrightarrow> (\<And>s. P s \<Longrightarrow> Q s) \<Longrightarrow> leads P (bnd (unwrap_result r) f) Q"
  by (cases r) (auto simp: leads_def unwrap_result_def of_panic_def bnd_def throw_def ret_def of_result_def split: sum.splits)

lemma sync_manifest_atomic:
  assumes src: "\<And>m. try_from_blob (pe_libs E) (pe_mlib E) blob = Some (Ok m) \<Longrightarrow> sends E rd data m \<and> names_ok m" and cx: "crypt_configs cx = []"
  shows "leads (kept k t F {with_ext MANIFEST_NAME ''tmp'', MANIFEST_NAME}
      (\<lambda>d. map_of d (with_ext MANIFEST_NAME ''tmp'') = Some data \<and> map_of d MANIFEST_NAME = old))
    (sync_manifest E rd io cx k t corrupt es blob) (in_dir k t F (old_or_complete E rd old))"
    (is "leads ?P _ ?Q")
proof -
  let ?old = "kept k t F {MANIFEST_NAME} (\<lambda>d. map_of d MANIFEST_NAME = old)"
  have old: "?old s" if "?P s" for s using that by (auto simp: kept_def in_dir_def looks_at_def)
  have old_ok: "?Q s" if "?old s" for s using that by (auto simp: kept_def in_dir_def old_or_complete_def)
  have log: "leads ?P (bnd (fetch_log E rd io k t cfg) (\<lambda>_. bnd (attempt (remove_file io k t (with_ext MANIFEST_NAME ''tmp''))) (\<lambda>_. ret x))) ?Q" for cfg x
    by (rule leads_preserves [OF _ old old_ok], rule preserves_bnd, rule kept_fetch_log) (intro preserves_intros | simp add: manifest_is_backup)+
  have clean: "leads ?P (bnd (attempt (remove_file io k t (with_ext MANIFEST_NAME ''tmp''))) (\<lambda>_. ret None) :: (err, ('b, 'c) dstore, (SyncStats \<times> EncounteredChunks) option) st) ?Q"
    by (rule leads_preserves [OF _ old old_ok], rule preserves_bnd, rule preserves_attempt, rule kept_remove_file) (simp_all add: manifest_is_backup preserves_ret)
  have files: "leads ?P (sync_files E rd io k t m corrupt None es) ?Q" if "try_from_blob (pe_libs E) (pe_mlib E) blob = Some (Ok m)" for m
  proof (rule leadsI)
    fix s :: "('b, 'c) dstore" and r s'
    assume s: "?P s" and run: "sync_files E rd io k t m corrupt None es s = (r, s')"
    have "kept k t F {with_ext MANIFEST_NAME ''tmp''} (\<lambda>d. map_of d (with_ext MANIFEST_NAME ''tmp'') = Some data) s"
      using s by (auto simp: kept_def in_dir_def looks_at_def)
    from sync_files_atomic [OF _ this old [OF s] run] show "?Q s'" using old_ok src [OF that] by (auto simp: kept_def in_dir_def old_or_complete_def)
  qed
  have decided: "leads ?P (case x of (cfg, skip) \<Rightarrow>
        if skip then bnd (fetch_log E rd io k t cfg) (\<lambda>_. bnd (attempt (remove_file io k t (with_ext MANIFEST_NAME ''tmp''))) (\<lambda>_. ret (Some (SyncStats_default, es))))
        else sync_files E rd io k t m corrupt cfg es) ?Q"
    if "try_from_blob (pe_libs E) (pe_mlib E) blob = Some (Ok m)" "optionally_use_decryption_key E (crypt_configs cx) m existing = Some (Ok x)" for m existing x
    using that(2) files [OF that(1)] no_keys [of E m existing "fst x" "snd x"] by (cases x) (simp add: cx)
  show ?thesis unfolding sync_manifest_def Let_def
  proof (rule leads_bnd [OF kept_existing_manifest])
    fix ex
    show "leads ?P (case ex of
        None \<Rightarrow> bnd (fetch_log E rd io k t None) (\<lambda>_. bnd (attempt (remove_file io k t (with_ext MANIFEST_NAME ''tmp''))) (\<lambda>_. ret (Some (SyncStats_default, es))))
      | Some existing \<Rightarrow>
          bnd (unwrap_result (try_from_blob (pe_libs E) (pe_mlib E) blob)) (\<lambda>m.
            if ignore_not_verified_or_encrypted (manifest_verify_state E) m (verified_only (filters cx)) (encrypted_only (filters cx))
            then bnd (attempt (remove_file io k t (with_ext MANIFEST_NAME ''tmp''))) (\<lambda>_. ret None)
            else bnd (unwrap_result (optionally_use_decryption_key E (crypt_configs cx) m existing)) (\<lambda>(cfg, skip).
              if skip then bnd (fetch_log E rd io k t cfg) (\<lambda>_. bnd (attempt (remove_file io k t (with_ext MANIFEST_NAME ''tmp''))) (\<lambda>_. ret (Some (SyncStats_default, es))))
              else sync_files E rd io k t m corrupt cfg es))) ?Q"
    proof (cases ex)
      case (Some existing)
      show ?thesis unfolding Some option.case
      proof (rule leads_unwrap)
        fix m
        assume m: "try_from_blob (pe_libs E) (pe_mlib E) blob = Some (Ok m)"
        have "leads ?P (bnd (unwrap_result (optionally_use_decryption_key E (crypt_configs cx) m existing)) (\<lambda>(cfg, skip).
            if skip then bnd (fetch_log E rd io k t cfg) (\<lambda>_. bnd (attempt (remove_file io k t (with_ext MANIFEST_NAME ''tmp''))) (\<lambda>_. ret (Some (SyncStats_default, es))))
            else sync_files E rd io k t m corrupt cfg es)) ?Q"
          by (rule leads_unwrap, erule decided [OF m], rule old_ok, rule old)
        then show "leads ?P (if ignore_not_verified_or_encrypted (manifest_verify_state E) m (verified_only (filters cx)) (encrypted_only (filters cx))
            then bnd (attempt (remove_file io k t (with_ext MANIFEST_NAME ''tmp''))) (\<lambda>_. ret None)
            else bnd (unwrap_result (optionally_use_decryption_key E (crypt_configs cx) m existing)) (\<lambda>(cfg, skip).
              if skip then bnd (fetch_log E rd io k t cfg) (\<lambda>_. bnd (attempt (remove_file io k t (with_ext MANIFEST_NAME ''tmp''))) (\<lambda>_. ret (Some (SyncStats_default, es))))
              else sync_files E rd io k t m corrupt cfg es)) ?Q" using clean by simp
      qed (rule old_ok, rule old)
    qed (simp add: log)
  qed (rule old_ok, rule old)
qed

lemma pull_snapshot_atomic:
  assumes names: "\<And>data m. sends E rd data m \<Longrightarrow> names_ok m" and cx: "crypt_configs cx = []" and s: "snap k t s \<noteq> None"
    and run: "pull_snapshot E rd io cx k t corrupt es s = (r, s')"
  shows "in_dir k t (all_snaps s) (old_or_complete E rd (get_file k t MANIFEST_NAME s)) s'"
proof -
  let ?tmp = "with_ext MANIFEST_NAME ''tmp''"
  let ?old = "kept k t (all_snaps s) {MANIFEST_NAME} (\<lambda>d. map_of d MANIFEST_NAME = get_file k t MANIFEST_NAME s)"
  have old_ok: "in_dir k t (all_snaps s) (old_or_complete E rd (get_file k t MANIFEST_NAME s)) s2" if "?old s2" for s2
    using that by (auto simp: kept_def in_dir_def old_or_complete_def)
  obtain r1 s1 where load: "load_file_into rd io k t MANIFEST_NAME ?tmp s = (r1, s1)" by fastforce
  have start: "?old s" using s by (auto simp: kept_def looks_at_def in_dir_def get_file_def)
  have s1: "?old s1" by (rule preservesD [OF kept_load_file start load]) (simp add: manifest_is_backup)
  consider e where "r1 = Inl e" | "r1 = Inr None" | data where "r1 = Inr (Some data)" by (cases r1) auto
  then show ?thesis
  proof cases
    case 1
    then show ?thesis using run load old_ok [OF s1] by (simp add: pull_snapshot_def bnd_step)
  next
    case 2
    have "preserves ?old (bnd (attempt (remove_file io k t ?tmp)) (\<lambda>_. ret None))"
      by (rule preserves_bnd, rule preserves_attempt, rule kept_remove_file, simp add: manifest_is_backup, rule preserves_ret)
    from preservesD [OF this s1] show ?thesis using run load 2 by (intro old_ok) (simp add: pull_snapshot_def bnd_step)
  next
    case 3
    note load = load [unfolded 3]
    have got: "kept k t (all_snaps s) {?tmp, MANIFEST_NAME} (\<lambda>d. map_of d ?tmp = Some data \<and> map_of d MANIFEST_NAME = get_file k t MANIFEST_NAME s) s1"
      using load_file_into_Got(1) [OF load s] s1 by (auto simp: kept_def in_dir_def looks_at_def)
    have "leads (\<lambda>s2. s2 = s1) (bnd (unwrap_result (load_from_reader (pe_libs E) (Ok data))) (sync_manifest E rd io cx k t corrupt es))
        (in_dir k t (all_snaps s) (old_or_complete E rd (get_file k t MANIFEST_NAME s)))"
    proof (rule leads_unwrap)
      fix blob
      assume blob: "load_from_reader (pe_libs E) (Ok data) = Some (Ok blob)"
      show "leads (\<lambda>s2. s2 = s1) (sync_manifest E rd io cx k t corrupt es blob) (in_dir k t (all_snaps s) (old_or_complete E rd (get_file k t MANIFEST_NAME s)))"
        using sync_manifest_atomic [of E blob rd data cx k t "all_snaps s" "get_file k t MANIFEST_NAME s" io corrupt es, OF _ cx] got names
          load_file_into_Got(2) [OF load s] blob unfolding sends_def leads_def by blast
    qed (use old_ok [OF s1] in simp)
    then show ?thesis using run load by (simp add: pull_snapshot_def bnd_step leads_def)
  qed
qed

section \<open>Properties\<close>

lemma create_existing:
  assumes "snap k t s \<noteq> None" "create_locked_backup_dir io present delta k t s = (r, s')"
  shows "all_snaps s' = all_snaps s" "r \<noteq> Ok True"
  using assms by (auto simp: create_locked_backup_dir_def ensure_def syscall_def bnd_def gets_def ret_def throw_def map_error_def modify_def snap_gdir split: option.splits if_splits)

text \<open>
  C5. A pull without decryption keys never loses the manifest of a snapshot that was there, whatever fails at which step: afterwards the directory
  has the manifest it had before, or a manifest of the source whose files are all there with the recorded checksums and sizes. With the old
  manifest, files that were fetched before the failure may already be those of the source.
\<close>

theorem interrupted_pull_keeps_manifest:
  assumes d: "snap k t s = Some d" and cx: "crypt_configs cx = []" and names: "\<forall>data m. sends E rd data m \<longrightarrow> names_ok m"
    and run: "pull_snapshot_from E rd io cx k t corrupt es s = (r, s')"
  shows "\<exists>d'. snap k t s' = Some d' \<and> (map_of d' MANIFEST_NAME = map_of d MANIFEST_NAME \<or>
    (\<exists>data m. sends E rd data m \<and> map_of d' MANIFEST_NAME = Some data \<and>
      (\<forall>f \<in> set (bm_files m). \<exists>b. map_of d' (fi_filename f) = Some b \<and> archive_csum E (file_kind E (fi_filename f)) b = Some (Ok (fi_csum f, fi_size f)))))"
proof -
  obtain r1 s1 where create: "create_locked_backup_dir io (now cx) (skew cx) k t s = (r1, s1)" by fastforce
  note snaps = create_existing [OF _ create]
  have s1: "snap k t s1 = Some d" using fun_cong [OF snaps(1), of "(k, t)"] d by (simp add: all_snaps_def)
  show ?thesis
  proof (cases r1)
    case (Inl e)
    then show ?thesis using run create s1 by (simp add: pull_snapshot_from_def bnd_step)
  next
    case (Inr b)
    then have b: "b = False" using snaps(2) d by auto
    obtain r2 s2 where pull: "pull_snapshot E rd io cx k t corrupt es s1 = (r2, s2)" by fastforce
    have "s' = s2"
      using run create Inr b pull by (auto simp: pull_snapshot_from_def bnd_step attempt_def bnd_def ret_def throw_def split: sum.splits option.splits)
    moreover have "in_dir k t (all_snaps s1) (old_or_complete E rd (get_file k t MANIFEST_NAME s1)) s2"
      by (rule pull_snapshot_atomic [OF _ cx _ pull]) (use names s1 in auto)
    ultimately show ?thesis using s1 by (auto simp: in_dir_def old_or_complete_def all_good_def good_file_def get_file_def)
  qed
qed

text \<open>
  C39. Syncing a snapshot again whose manifest has changed on the source removes the marker of a protected local snapshot with the other files that the
  manifest does not list: afterwards the snapshot is not protected any more.
\<close>

theorem resync_drops_protection:
  assumes src: "\<forall>n. rd_load rd n MANIFEST_NAME = Got data" "load_from_reader (pe_libs E) (Ok data) = Some (Ok blob)"
      "try_from_blob (pe_libs E) (pe_mlib E) blob = Some (Ok m)"
    and names: "names_ok m" and cx: "crypt_configs cx = []" and changed: "get_file k t MANIFEST_NAME s \<noteq> Some data \<or> corrupt"
    and s: "snap k t s \<noteq> None" and unlinks: "\<forall>n name. \<not> remains io n name"
    and run: "pull_snapshot E rd io cx k t corrupt es s = (Ok (Some r), s')"
  shows "\<not> has_marker k t s'"
proof -
  obtain s1 where s1: "sync_files E rd io k t m corrupt None es s1 = (Ok (Some r), s')"
    by (rule pull_snapshot_full [OF src cx changed s run])
  obtain s4 w where "cleanup_unreferenced_files io m k t s4 = (Ok w, s')" by (rule sync_files_steps [OF s1])
  then obtain d where d: "snap k t s4 = Some d" "s' = set_snap k t (filter (\<lambda>f. fst f \<in> set (wanted_files m)) d) (s4\<lparr>tick := Suc (tick s4)\<rparr>)"
    using unlinks by (auto simp: cleanup_unreferenced_files_def Ok_steps modify_def snap_def split: option.splits)
  then have s': "snap k t s' = Some (filter (\<lambda>f. fst f \<in> set (wanted_files m)) d)"
    using fun_cong [OF all_snaps_set, of k t "s4\<lparr>tick := Suc (tick s4)\<rparr>" _ "(k, t)"] by (simp add: all_snaps_def)
  have marker: "\<not> is_backup_file PROTECTED_MARKER_FILENAME" "PROTECTED_MARKER_FILENAME \<noteq> MANIFEST_NAME" "PROTECTED_MARKER_FILENAME \<noteq> CLIENT_LOG_NAME"
    by (simp_all add: PROTECTED_MARKER_FILENAME_def MANIFEST_NAME_def CLIENT_LOG_NAME_def is_backup_file_def ends_with_def)
  then have "PROTECTED_MARKER_FILENAME \<notin> set (wanted_files m)" using names_backup [OF names] by (auto simp: wanted_files_def)
  then show ?thesis using s' by (auto simp: has_marker_snap map_of_eq_None_iff)
qed

lemma pull_group_vanish:
  assumes "pull_group sort_by E io cx src k s = (Ok stats, s')" "remove_vanished (filters cx)"
  obtains items stats1 infos s1 s2 where "list_snapshots src = Ok items" "list_backups io k s1 = (Ok infos, s2)"
    "vanish_loop io k (source_snapshots (filters cx) (sort_by (\<lambda>a b. it_time a \<le> it_time b) (filter_out_in_progress items))) infos stats1 s2 = (Ok stats, s')"
  using assms unfolding pull_group_def Let_def by (auto simp: bnd_Ok of_result_Ok gets_Ok)

text \<open>
  C40. After a pull of a group that removes vanished snapshots, every snapshot that is left in the group either is protected or is on the source,
  complete there and not excluded by the filters. So snapshots that still exist on the source are removed too, when
  the filters exclude them there or when they are in progress.
\<close>

theorem vanished_are_removed:
  assumes run: "pull_group sort_by E io cx src k s = (Ok stats, s')" and vanish: "remove_vanished (filters cx)" and sort: "sort_unstable sort_by"
    and left: "snap k t s' \<noteq> None" and items: "list_snapshots src = Ok items"
  shows "has_marker k t s' \<or>
    (\<exists>i \<in> set items. it_time i = t \<and> it_size i \<noteq> None \<and> \<not> exclude_not_verified_or_encrypted i (verified_only (filters cx)) (encrypted_only (filters cx)))"
proof -
  let ?raw = "sort_by (\<lambda>a b. it_time a \<le> it_time b) (filter_out_in_progress items)"
  obtain items' stats1 infos s1 s2 where vl: "list_snapshots src = Ok items'" "list_backups io k s1 = (Ok infos, s2)"
    "vanish_loop io k (source_snapshots (filters cx) (sort_by (\<lambda>a b. it_time a \<le> it_time b) (filter_out_in_progress items'))) infos stats1 s2 = (Ok stats, s')"
    by (rule pull_group_vanish [OF run vanish])
  then have "items' = items" using items by simp
  note steps = vl(2,3) [unfolded this]
  have snaps: "all_snaps s2 = all_snaps s1" "si_time ` set infos = fst ` set (snaps_of k s1)" by (rule list_backups_exact [OF steps(1)])+
  note eq = vanish_loop_exact [OF steps(2), of k t]
  have "snap k t s1 \<noteq> None" using left eq fun_cong [OF snaps(1), of "(k, t)"] by (cases "snap k t s1") (auto simp: all_snaps_def split: if_splits)
  then have "t \<in> si_time ` set infos" unfolding snaps(2) by (simp add: snap_def map_of_eq_None_iff)
  then have "t \<in> source_snapshots (filters cx) ?raw \<or> has_marker k t s'" using left eq by (auto simp: has_marker_snap split: if_splits)
  moreover have "set ?raw = set (filter_out_in_progress items)" using mset_eq_setD [OF sort_unstable.sort_mset [OF sort]] .
  ultimately show ?thesis by (auto simp: source_snapshots_def candidates_def filter_out_in_progress_def)
qed

text \<open>
  C14. The check before an existing manifest is replaced: when it lets a pull go on without decryption, the existing manifest has no key
  or that of the source; a fully encrypted source with a key only replaces a fully encrypted manifest with the same key; and a source without a
  key only replaces a manifest without a key that has the same signature under the all-zero key. The check sees no manifest when there is none
  and when a corrupt snapshot is synced again; a source that has a key but is not fully encrypted may replace a manifest without one.
\<close>

theorem regular_pull_keys_agree:
  assumes "optionally_use_decryption_key E configs m (Some em) = Some (Ok (None, False))"
  shows "\<exists>fp efp. manifest_fingerprint (pe_mlib E) m = Ok fp \<and> manifest_fingerprint (pe_mlib E) em = Ok efp \<and> (efp = None \<or> efp = fp) \<and>
    (fp \<noteq> None \<and> fully_encrypted m \<longrightarrow> efp = fp \<and> fully_encrypted em) \<and>
    (fp = None \<longrightarrow> (\<exists>dummy sig. crypt_config_new E (replicate 32 0) = Ok dummy \<and>
       manifest_signature (pe_mlib E) dummy em = Some (Ok sig) \<and> manifest_signature (pe_mlib E) dummy m = Some (Ok sig)))"
proof (cases "manifest_fingerprint (pe_mlib E) m")
  case (Inr fp)
  show ?thesis
  proof (cases fp)
    case None
    then have "check_plain_target E m (Some em) = Some (Ok ())"
      using assms Inr by (auto simp: optionally_use_decryption_key_def and_then_eq_Inr)
    then show ?thesis using Inr None by (auto simp: check_plain_target_def and_then_eq_Inr split: sum.splits option.splits if_splits)
  next
    case (Some key_fp)
    let ?same = "and_then (manifest_fingerprint (pe_mlib E) em) (\<lambda>fp. case fp of None \<Rightarrow> Ok False
        | Some f \<Rightarrow> if f = key_fp then Ok (fully_encrypted m = fully_encrypted em)
            else Err ''Local encrypted or signed snapshot with different key detected, refuse to sync'')"
    obtain b where b: "?same = Ok b" using assms Inr Some by (auto simp: optionally_use_decryption_key_def Let_def split: sum.splits)
    have "fully_encrypted m \<longrightarrow> b"
      using assms Inr Some b by (auto simp: optionally_use_decryption_key_def Let_def map_sum_Inr split: sum.splits option.splits if_splits bool.splits)
    moreover obtain efp where efp: "manifest_fingerprint (pe_mlib E) em = Ok efp" using b by (auto simp: and_then_eq_Inr)
    ultimately show ?thesis using Inr Some b by (cases efp) (auto split: if_splits)
  qed
qed (use assms in \<open>simp add: optionally_use_decryption_key_def\<close>)

section \<open>A snapshot that is synced again\<close>

definition source_manifest :: BackupManifest where
  "source_manifest = \<lparr>bm_backup_type = Host, bm_backup_id = ''h'', bm_backup_time = 5,
     bm_files = [\<lparr>fi_filename = ''x.blob'', fi_crypt_mode = NoCrypt, fi_size = 1, fi_csum = 7 # replicate 31 0\<rparr>], unprotected = JObj [], bm_signature = None\<rparr>"

text \<open>An empty blob, which the parser reads as this manifest.\<close>

definition source_data :: bytes where
  "source_data = UNCOMPRESSED_BLOB_MAGIC_1_0 @ [0, 0, 0, 0]"

definition demo_env :: "unit pull_env" where
  "demo_env = \<lparr>pe_libs = demo_libs, pe_mlib = plain_mlib\<lparr>parse_json := (\<lambda>_. Ok (to_value source_manifest))\<rparr>, file_kind = (\<lambda>_. BlobArchive), parse_verify_state = (\<lambda>_. Ok VerifyOk),
     parse_fingerprint = (\<lambda>s. json_str_bytes (JStr s)), crypt_config_new = (\<lambda>b. Ok \<lparr>enc_key = b, id_key = b\<rparr>), read_blob = (\<lambda>c b. Ok b),
     new_uuid = (\<lambda>_. replicate 16 0), epoch = (\<lambda>_. 0), index_faults = (\<lambda>_. []), close_faults = (\<lambda>_. (sys_fine, NoFault)),
     store_chunks = (\<lambda>_ _. Ok ())\<rparr>"

definition demo_source :: source_reader where
  "demo_source = \<lparr>rd_remote = False, rd_load = (\<lambda>n name. if name = MANIFEST_NAME then Got source_data else if name = ''x.blob'' then Got [7] else NotFound),
     rd_has_log = False, rd_same_store = False, rd_transfer = (\<lambda>n infos es. Ok (SyncStats_default, es)), rd_chunk = (\<lambda>c n d. Err ''no chunk'')\<rparr>"

definition demo_ctx :: pull_ctx where
  "demo_ctx = \<lparr>filters = \<lparr>verified_only = False, encrypted_only = False, resync_corrupt = False, remove_vanished = True, transfer_last = None\<rparr>,
     crypt_configs = [], now = 10, skew = 0\<rparr>"

lemmas source_blob_defs = demo_env_def demo_libs_def source_data_def UNCOMPRESSED_BLOB_MAGIC_1_0_def ENCR_COMPR_BLOB_MAGIC_1_0_def
  ENCRYPTED_BLOB_MAGIC_1_0_def COMPRESSED_BLOB_MAGIC_1_0_def size_DataBlobHeader_def blob_magic_def Let_def

lemma source_blob: "load_from_reader (pe_libs demo_env) (Ok source_data) = Some (Ok \<lparr>raw_data = source_data\<rparr>)"
  by (simp add: source_blob_defs load_from_reader_def from_raw_with_crc_check_def DataBlob.from_raw_def verify_crc_def compute_crc_def
      blob_crc_def header_size_def slice_def)

lemma source_parsed: "try_from_blob (pe_libs demo_env) (pe_mlib demo_env) \<lparr>raw_data = source_data\<rparr> = Some (Ok source_manifest)"
proof -
  have "manifest_ok plain_mlib source_manifest"
    by (simp add: manifest_ok_def file_ok_def source_manifest_def fits_i64_def plain_mlib_def)
  then have "from_value (strict_name plain_mlib) (to_value source_manifest) = Ok source_manifest" by (rule value_round_trip)
  then show ?thesis by (simp add: source_blob_defs try_from_blob_def decode_def decode_data_def)
qed

lemma source_names: "names_ok source_manifest"
  by (simp add: names_ok_def source_manifest_def is_backup_file_def ends_with_def with_ext_def MANIFEST_NAME_def)

definition quiet :: fsio where
  "quiet = \<lparr>fault = (\<lambda>_. None), remains = (\<lambda>_ _. False), stat_fails = (\<lambda>_. False), old_locking = False\<rparr>"

lemma demo_env_simps:
  "file_kind demo_env name = BlobArchive" "archive_csum demo_env BlobArchive b = Some (Ok (sum_list b # replicate 31 0, length b))"
  "ignore_not_verified_or_encrypted (manifest_verify_state demo_env) source_manifest False False = False"
  "optionally_use_decryption_key demo_env [] source_manifest None = Some (Ok (None, False))"
  "rd_load demo_source n MANIFEST_NAME = Got source_data" "rd_load demo_source n ''x.blob'' = Got [7]" "rd_remote demo_source = False" "rd_has_log demo_source = False"
  by (simp_all add: demo_env_def demo_libs_def archive_csum_def ignore_not_verified_or_encrypted_def optionally_use_decryption_key_def manifest_fingerprint_def
      source_manifest_def json_get_def check_plain_target_def demo_source_def MANIFEST_NAME_def)

lemma tmp_names: "with_ext MANIFEST_NAME ''tmp'' = ''index.json.tmp''" "with_ext ''x.blob'' ''tmp'' = ''x.tmp''"
  by (simp_all add: with_ext_def MANIFEST_NAME_def)

lemmas pull_eval = bnd_def ret_def throw_def gets_def modify_def map_error_def attempt_def of_result_def unwrap_result_def of_panic_def syscall_def
  put_file_def load_file_into_def rename_file_def remove_file_def
  fetch_log_def try_fetch_client_log_def file_exists_def path_exists_def Let_def

definition demo_group :: "(int \<times> SnapDir) list \<Rightarrow> nat \<Rightarrow> (string list, nat) dstore" where
  "demo_group snaps n = \<lparr>tick = n, held = [example_key], namespaces = [[]],
     grps = [(example_key, \<lparr>gd_owner = Owner 1, gd_notes = None, gd_snaps = snaps\<rparr>)], moved = []\<rparr>"

definition demo_dir :: "SnapDir \<Rightarrow> nat \<Rightarrow> (string list, nat) dstore" where
  "demo_dir d n = demo_group [(5, d)] n"

definition demo_store :: "(string list, nat) dstore" where
  "demo_store = demo_dir [(''.protected'', []), (''x.blob'', [1])] 0"

lemma demo_dir_simps:
  "gdir example_key (demo_dir d n) = Some \<lparr>gd_owner = Owner 1, gd_notes = None, gd_snaps = [(5, d)]\<rparr>" "snap example_key 5 (demo_dir d n) = Some d"
  "set_snap example_key 5 d' (demo_dir d n) = demo_dir d' n" "tick (demo_dir d n) = n" "(demo_dir d n)\<lparr>tick := m\<rparr> = demo_dir d m"
  "snaps_of example_key (demo_dir d n) = [(5, d)]" "del_snap example_key 5 (demo_dir d n) = demo_group [] n"
  "tick (demo_group xs n) = n" "(demo_group xs n)\<lparr>tick := m\<rparr> = demo_group xs m" "held (demo_group xs n) = [example_key]" "snap example_key 5 (demo_group [] n) = None"
  by (simp_all add: demo_dir_def demo_group_def gdir_def snap_def snaps_of_def set_snap_def del_snap_def upd_group_def)

lemma demo_steps:
  "fault quiet n = None" "remains quiet n name = False" "stat_fails quiet n = False"
  "upd_dir example_key 5 f (demo_dir d n) = (Ok (), demo_dir (f d) n)"
  "get_file example_key 5 name (demo_dir d n) = map_of d name"
  by (simp_all add: quiet_def upd_dir_def bnd_def gets_def modify_def demo_dir_simps get_file_def)

lemma demo_loaded:
  "load_file_into demo_source quiet example_key 5 MANIFEST_NAME ''index.json.tmp'' (demo_dir [(''.protected'', []), (''x.blob'', [1])] 0) =
     (Ok (Some source_data), demo_dir [(''.protected'', []), (''x.blob'', [1]), (''index.json.tmp'', source_data)] (Suc (Suc 0)))"
  by (simp add: pull_eval demo_env_simps demo_steps demo_dir_simps)

lemma demo_existing: "existing_manifest demo_env quiet example_key 5 False blob (demo_dir [(''.protected'', []), (''x.blob'', [1]), (''index.json.tmp'', source_data)] n) =
    (Ok (Some None), demo_dir [(''.protected'', []), (''x.blob'', [1]), (''index.json.tmp'', source_data)] (Suc n))"
  by (simp add: existing_manifest_def pull_eval demo_steps demo_dir_simps MANIFEST_NAME_def)

lemma demo_files:
  "pull_files demo_env demo_source quiet example_key 5 source_manifest False None (bm_files source_manifest) SyncStats_default Map.empty None
     (demo_dir [(''.protected'', []), (''x.blob'', [1]), (''index.json.tmp'', source_data)] (Suc (Suc (Suc 0)))) =
   (Ok (sync_stats_add SyncStats_default SyncStats_default, Map.empty, None),
     demo_dir [(''.protected'', []), (''x.blob'', [7]), (''index.json.tmp'', source_data)] (Suc (Suc (Suc (Suc (Suc (Suc (Suc (Suc (Suc 0))))))))))"
  by (simp add: source_manifest_def file_unchanged_def verify_file_def lookup_file_info_def pull_single_archive_def transfer_archive_def verify_archive_def pull_eval
      tmp_names demo_env_simps demo_steps demo_dir_simps)

lemma demo_wanted: "wanted_files source_manifest = [MANIFEST_NAME, CLIENT_LOG_NAME, ''x.blob'']"
  by (simp add: wanted_files_def source_manifest_def)

lemma demo_names [simp]:
  "MANIFEST_NAME \<noteq> ''.protected''" "''.protected'' \<noteq> MANIFEST_NAME" "MANIFEST_NAME \<noteq> ''x.blob''" "''x.blob'' \<noteq> MANIFEST_NAME"
  "MANIFEST_NAME \<noteq> ''index.json.tmp''" "''index.json.tmp'' \<noteq> MANIFEST_NAME" "CLIENT_LOG_NAME \<noteq> ''.protected''" "''.protected'' \<noteq> CLIENT_LOG_NAME"
  "CLIENT_LOG_NAME \<noteq> ''x.blob''" "''x.blob'' \<noteq> CLIENT_LOG_NAME" "CLIENT_LOG_NAME \<noteq> MANIFEST_NAME" "MANIFEST_NAME \<noteq> CLIENT_LOG_NAME"
  by (simp_all add: MANIFEST_NAME_def CLIENT_LOG_NAME_def)

lemma demo_pull:
  "pull_snapshot demo_env demo_source quiet demo_ctx example_key 5 False Map.empty demo_store =
     (Ok (Some (sync_stats_add SyncStats_default SyncStats_default, Map.empty)), demo_dir [(''x.blob'', [7]), (MANIFEST_NAME, source_data)] (Suc (Suc (Suc (Suc (Suc (Suc (Suc (Suc (Suc (Suc (Suc 0))))))))))))"
  unfolding demo_store_def
  by (simp add: pull_snapshot_def sync_manifest_def sync_files_def rewrite_manifest_def demo_loaded demo_existing demo_files [simplified] demo_ctx_def cleanup_unreferenced_files_def
      demo_wanted tmp_names pull_eval source_blob source_parsed demo_env_simps demo_steps demo_dir_simps)

lemma demo_pull_facts: "crypt_configs demo_ctx = []" "get_file example_key 5 MANIFEST_NAME demo_store \<noteq> Some source_data" "snap example_key 5 demo_store \<noteq> None"
  "\<forall>n. rd_load demo_source n MANIFEST_NAME = Got source_data" "\<forall>n name. \<not> remains quiet n name"
  by (simp_all add: demo_ctx_def demo_store_def demo_steps demo_dir_simps demo_env_simps)

theorem pulled_snapshot_verified_witness:
  "\<exists>r s' b. pull_snapshot demo_env demo_source quiet demo_ctx example_key 5 False Map.empty demo_store = (Ok (Some r), s') \<and>
     get_file example_key 5 MANIFEST_NAME s' = Some source_data \<and> get_file example_key 5 ''x.blob'' s' = Some b \<and>
     archive_csum demo_env BlobArchive b = Some (Ok (7 # replicate 31 0, 1))"
  using pulled_snapshot_verified [OF demo_pull_facts(4) source_blob source_parsed source_names demo_pull_facts(1) disjI1 [OF demo_pull_facts(2)] demo_pull_facts(3) demo_pull] demo_pull
  by (auto simp: source_manifest_def demo_env_simps)

theorem resync_drops_protection_witness:
  "has_marker example_key 5 demo_store \<and>
   \<not> has_marker example_key 5 (snd (pull_snapshot demo_env demo_source quiet demo_ctx example_key 5 False Map.empty demo_store))"
proof -
  have "has_marker example_key 5 demo_store" by (simp add: demo_store_def demo_dir_simps has_marker_snap PROTECTED_MARKER_FILENAME_def)
  then show ?thesis
    using resync_drops_protection [OF demo_pull_facts(4) source_blob source_parsed source_names demo_pull_facts(1) disjI1 [OF demo_pull_facts(2)] demo_pull_facts(3,5) demo_pull] demo_pull
    by simp
qed

lemma demo_sends: "sends demo_env demo_source data m \<Longrightarrow> names_ok m"
  using source_names source_parsed source_blob by (auto simp: sends_def demo_env_simps)

theorem interrupted_pull_keeps_manifest_witness:
  "\<exists>d'. snap example_key 5 (snd (pull_snapshot_from demo_env demo_source (fault_at 6) demo_ctx example_key 5 False Map.empty demo_store)) = Some d' \<and>
     (map_of d' MANIFEST_NAME = None \<or> map_of d' MANIFEST_NAME = Some source_data)"
proof -
  obtain r s' where run: "pull_snapshot_from demo_env demo_source (fault_at 6) demo_ctx example_key 5 False Map.empty demo_store = (r, s')" by fastforce
  have "snap example_key 5 demo_store = Some [(''.protected'', []), (''x.blob'', [1])]" by (simp add: demo_store_def demo_dir_simps)
  from interrupted_pull_keeps_manifest [OF this _ _ run] show ?thesis using demo_sends run by (auto simp: demo_ctx_def sends_def demo_env_simps)
qed

definition vanish_ctx :: pull_ctx where
  "vanish_ctx = demo_ctx\<lparr>filters := (filters demo_ctx)\<lparr>verified_only := True\<rparr>\<rparr>"

text \<open>The source has the snapshot, but it was never verified there.\<close>

definition vanish_item :: SnapshotListItem where
  "vanish_item = \<lparr>it_time = 5, it_size = Some 1, it_verification = None, it_files = []\<rparr>"

definition vanish_source :: group_source where
  "vanish_source = \<lparr>list_snapshots = Ok [vanish_item], open_reader = (\<lambda>_. Ok demo_source)\<rparr>"

lemma vanish_excluded:
  "exclude_not_verified_or_encrypted vanish_item (verified_only (filters vanish_ctx)) (encrypted_only (filters vanish_ctx))" "remove_vanished (filters vanish_ctx)"
  "filter_out_in_progress [vanish_item] = [vanish_item]" "candidates (filters vanish_ctx) [vanish_item] = []" "list_snapshots vanish_source = Ok [vanish_item]"
  by (simp_all add: exclude_not_verified_or_encrypted_def vanish_item_def vanish_ctx_def demo_ctx_def filter_out_in_progress_def candidates_def vanish_source_def)

lemma vanish_run:
  "\<exists>stats n. pull_group isort_by demo_env quiet vanish_ctx vanish_source example_key (demo_dir [(''x.blob'', [1])] 0) = (Ok stats, demo_group [] n)"
  by (simp add: pull_group_def vanish_excluded pull_eval isort_by_def pull_selection_def source_snapshots_def last_successful_backup_def reusable_chunks_def last_backup_def list_backups_def demo_dir_simps demo_steps
      si_finished_def list_backup_files_def is_backup_file_def ends_with_def remove_backup_dir_def snap_destroy_def remove_unprotected_def is_protected_def has_marker_snap path_exists_def group_exists_def PROTECTED_MARKER_FILENAME_def
      remove_dir_all_def group_lock_def remove_empty_group_def lastly_def) blast

theorem vanished_are_removed_witness:
  "\<exists>stats s'. pull_group isort_by demo_env quiet vanish_ctx vanish_source example_key (demo_dir [(''x.blob'', [1])] 0) = (Ok stats, s') \<and> snap example_key 5 s' = None"
proof -
  obtain stats n where run: "pull_group isort_by demo_env quiet vanish_ctx vanish_source example_key (demo_dir [(''x.blob'', [1])] 0) = (Ok stats, demo_group [] n)"
    using vanish_run by blast
  have "\<not> has_marker example_key 5 (demo_group [] n)" by (simp add: has_marker_snap demo_dir_simps)
  then have "snap example_key 5 (demo_group [] n) = None"
    using vanished_are_removed [OF run vanish_excluded(2) isort.sort_unstable_axioms _ vanish_excluded(5), of 5] vanish_excluded(1)
    by (cases "snap example_key 5 (demo_group [] n)") auto
  then show ?thesis using run by blast
qed

theorem regular_pull_keys_agree_witness:
  "optionally_use_decryption_key demo_env [] source_manifest (Some source_manifest) = Some (Ok (None, False)) \<and>
   (\<exists>dummy sig. crypt_config_new demo_env (replicate 32 0) = Ok dummy \<and> manifest_signature (pe_mlib demo_env) dummy source_manifest = Some (Ok sig))"
proof -
  have fp: "manifest_fingerprint (pe_mlib demo_env) source_manifest = Ok None" by (simp add: manifest_fingerprint_def source_manifest_def json_get_def)
  have "manifest_signature (pe_mlib demo_env) \<lparr>enc_key = replicate 32 0, id_key = replicate 32 0\<rparr> source_manifest \<noteq> None"
    by (simp add: manifest_signature_eq)
  then have run: "optionally_use_decryption_key demo_env [] source_manifest (Some source_manifest) = Some (Ok (None, False))"
    using fp by (auto simp: optionally_use_decryption_key_def check_plain_target_def manifest_signature_eq demo_env_def plain_mlib_def)
  from regular_pull_keys_agree [OF run] fp run show ?thesis by auto
qed

end
