(* ===== verification/SyncStore.thy ===== *)
theory SyncStore
  imports SyncPull
begin

text \<open>
  Pulling namespaces (\<^verbatim>\<open>pull_ns\<close>, \<^verbatim>\<open>pull_store\<close> and what they call in \<^verbatim>\<open>src/server/pull.rs\<close>, the privilege checks of
  \<^verbatim>\<open>src/backup/hierarchy.rs\<close>), on \<open>SyncPull\<close> and \<open>Namespaces\<close>, with one worker: the groups are pulled one after the other. The lists of the
  source, the group filters and the effective privileges of the owner of the job are parameters.
\<close>

section \<open>Privileges\<close>

record 'n privs =
  effective :: "'n \<Rightarrow> u64"
  priv_modify :: u64
  priv_backup :: u64
  priv_audit :: u64

definition check_ns_privs_full :: "'n privs \<Rightarrow> 'n \<Rightarrow> u64 \<Rightarrow> u64 \<Rightarrow> (err, bool) result" where
  "check_ns_privs_full pr ns full part =
     (if full \<noteq> 0 \<and> effective pr ns AND full \<noteq> 0 then Ok False
      else if part \<noteq> 0 \<and> effective pr ns AND part \<noteq> 0 then Ok True
      else Err ''permission check failed'')"

definition check_ns_privs :: "'n privs \<Rightarrow> 'n \<Rightarrow> u64 \<Rightarrow> (err, unit) result" where
  "check_ns_privs pr ns p = map_sum id (\<lambda>_. ()) (check_ns_privs_full pr ns p 0)"

definition check_ns_modification_privs :: "'n pbs_api \<Rightarrow> 'n privs \<Rightarrow> 'n \<Rightarrow> (err, unit) result" where
  "check_ns_modification_privs api pr ns =
     (if ns_is_root api ns then Err ''Cannot create/delete root namespace!'' else check_ns_privs pr (ns_parent api ns) (priv_modify pr))"

section \<open>Groups\<close>

record ('n, 'a, 'u, 'c) store_env =
  se_api :: "'n pbs_api"
  se_types :: "('a, 'u) api_types"
  se_privs :: "'n privs"
  se_env :: "'c pull_env"
  se_sort :: item_sort
  se_ctx :: pull_ctx
  owner :: 'a
  apply_filters :: "BackupType \<times> string \<Rightarrow> bool"
  sort_groups :: "(BackupType \<times> string) list \<Rightarrow> (BackupType \<times> string) list"
  list_groups :: "'n \<Rightarrow> (err, (BackupType \<times> string) list) result"
  group_of :: "'n \<Rightarrow> BackupType \<times> string \<Rightarrow> group_source"
  source_ns :: 'n
  target_ns :: 'n

text \<open>The lock of the group is held until the end.\<close>

definition lock_and_pull_group :: "('n, 'a, 'u, 'c) store_env \<Rightarrow> fsio \<Rightarrow> 'n \<Rightarrow> 'n \<Rightarrow> BackupType \<times> string \<Rightarrow> ('n, 'a, SyncStats) op" where
  "lock_and_pull_group V io ns target g =
     bnd (create_locked_backup_group (se_api V) io (target, g) (owner V)) (\<lambda>ow.
       lastly (if owner V \<noteq> ow then throw ''owner check failed''
               else pull_group (se_sort V) (se_env V) io (se_ctx V) (group_of V ns g) (target, g)) (unlock (target, g)))"

fun pull_groups :: "('n, 'a, 'u, 'c) store_env \<Rightarrow> fsio \<Rightarrow> 'n \<Rightarrow> 'n \<Rightarrow> (BackupType \<times> string) list \<Rightarrow> nat \<times> SyncStats \<times> bool \<Rightarrow> ('n, 'a, nat \<times> SyncStats \<times> bool) op" where
  "pull_groups V io ns target [] acc = ret acc"
| "pull_groups V io ns target (g # gs) (groups_done, stats, errors) =
     bnd (attempt (lock_and_pull_group V io ns target g)) (\<lambda>r.
       case r of
         Inl e \<Rightarrow> if e = PANIC then throw ''failed to join on worker task'' else pull_groups V io ns target gs (groups_done + 1, stats, True)
       | Inr st \<Rightarrow> pull_groups V io ns target gs (groups_done + 1, sync_stats_add stats st, errors))"

text \<open>An error ends the removal of the vanished groups and is recorded.\<close>

fun vanish_groups :: "('n, 'a, 'u, 'c) store_env \<Rightarrow> fsio \<Rightarrow> (BackupType \<times> string) list \<Rightarrow> 'n gkey list \<Rightarrow> SyncStats \<times> bool \<Rightarrow> ('n, 'a, SyncStats \<times> bool) op" where
  "vanish_groups V io new_groups [] acc = ret acc"
| "vanish_groups V io new_groups (k # ks) (stats, errors) =
     (if snd k \<in> set new_groups then vanish_groups V io new_groups ks (stats, errors)
      else bnd (attempt (get_owner io k)) (\<lambda>r. case r of
          Inl e \<Rightarrow> ret (stats, True)
        | Inr ow \<Rightarrow>
            if check_backup_owner (se_types V) ow (owner V) \<noteq> Ok () then vanish_groups V io new_groups ks (stats, errors)
            else if \<not> apply_filters V (snd k) then vanish_groups V io new_groups ks (stats, errors)
            else bnd (attempt (remove_backup_group (se_api V) io k)) (\<lambda>d. case d of
                Inl e \<Rightarrow> vanish_groups V io new_groups ks (stats, True)
              | Inr st \<Rightarrow> vanish_groups V io new_groups ks
                  (sync_stats_add stats (from_removed \<lparr>rv_groups = (if all_removed (se_api V) st then 1 else 0), rv_snapshots = removed_snapshots st, rv_namespaces = 0\<rparr>), errors))))"

definition pull_ns :: "('n, 'a, 'u, 'c) store_env \<Rightarrow> fsio \<Rightarrow> 'n \<Rightarrow> ('n, 'a, nat \<times> SyncStats \<times> bool) op" where
  "pull_ns V io ns =
     bnd (of_result (list_groups V ns)) (\<lambda>all_groups.
      let gs = sort_groups V (filter (apply_filters V) all_groups) in
      bnd (of_result (map_prefix (se_api V) ns (source_ns V) (target_ns V))) (\<lambda>target.
      bnd (pull_groups V io ns target gs (0, SyncStats_default, False)) (\<lambda>(groups_done, stats, errors).
        if \<not> remove_vanished (filters (se_ctx V)) then ret (groups_done, stats, errors)
        else bnd (attempt (iter_backup_groups io target)) (\<lambda>r. case r of
            Inl e \<Rightarrow> ret (groups_done, stats, True)
          | Inr ks \<Rightarrow> bnd (vanish_groups V io gs ks (stats, errors)) (\<lambda>(stats', errors'). ret (groups_done, stats', errors'))))))"

section \<open>Namespaces\<close>

definition check_and_create_ns :: "('n, 'a, 'u, 'c) store_env \<Rightarrow> fsio \<Rightarrow> 'n \<Rightarrow> ('n, 'a, bool) op" where
  "check_and_create_ns V io ns =
     bnd (if ns_is_root (se_api V) ns then ret True else namespace_exists io ns) (\<lambda>there.
     bnd (if \<not> there
          then bnd (map_error (\<lambda>e. ''Creating namespace not allowed'') (of_result (check_ns_modification_privs (se_api V) (se_privs V) ns))) (\<lambda>_.
            case ns_last (se_api V) ns of
              None \<Rightarrow> throw ''Failed to determine last component of namespace.''
            | Some name \<Rightarrow> bnd (map_error (\<lambda>e. ''namespace creation failed'') (create_namespace (se_api V) io (ns_parent (se_api V) ns) name)) (\<lambda>_. ret True))
          else ret False) (\<lambda>created.
     bnd (map_error (\<lambda>e. ''sync not allowed'') (of_result (check_ns_privs (se_privs V) ns (priv_backup (se_privs V))))) (\<lambda>_. ret created)))"

definition check_and_remove_ns :: "('n, 'a, 'u, 'c) store_env \<Rightarrow> fsio \<Rightarrow> 'n \<Rightarrow> ('n, 'a, bool) op" where
  "check_and_remove_ns V io ns =
     bnd (map_error (\<lambda>e. ''Removing namespace not allowed'') (of_result (check_ns_modification_privs (se_api V) (se_privs V) ns))) (\<lambda>_.
     bnd (remove_namespace (se_api V) io True ns) (\<lambda>(removed_all, _). ret removed_all))"

fun vanish_ns_loop :: "('n, 'a, 'u, 'c) store_env \<Rightarrow> fsio \<Rightarrow> 'n list \<Rightarrow> 'n list \<Rightarrow> bool \<times> RemovedVanishedStats \<Rightarrow> ('n, 'a, bool \<times> RemovedVanishedStats) op" where
  "vanish_ns_loop V io synced [] acc = ret acc"
| "vanish_ns_loop V io synced (ns # nss) (errors, st) =
     (if ns = target_ns V \<or> ns \<in> set synced \<or> ns_is_root (se_api V) ns then vanish_ns_loop V io synced nss (errors, st)
      else bnd (attempt (check_and_remove_ns V io ns)) (\<lambda>r. case r of
          Inl e \<Rightarrow> vanish_ns_loop V io synced nss (True, st)
        | Inr removed \<Rightarrow> vanish_ns_loop V io synced nss (errors, if removed then st\<lparr>rv_namespaces := wrapping_add (rv_namespaces st) 1\<rparr> else st)))"

text \<open>\<open>by_length\<close> sorts by the length of the name, the shortest first, in any way.\<close>

definition check_and_remove_vanished_ns :: "('n, 'a, 'u, 'c) store_env \<Rightarrow> ('n list \<Rightarrow> 'n list) \<Rightarrow> fsio \<Rightarrow> nat option \<Rightarrow> 'n list \<Rightarrow> ('n, 'a, bool \<times> RemovedVanishedStats) op" where
  "check_and_remove_vanished_ns V by_length io max_depth synced =
     bnd (syscall io) (\<lambda>_.
     bnd (list_namespaces_recursive (se_api V) io (target_ns V)
            (case max_depth of Some d \<Rightarrow> d | None \<Rightarrow> wrapping_sub (max_ns_depth (se_api V)) (ns_depth (se_api V) (source_ns V)))) (\<lambda>nss.
       vanish_ns_loop V io synced
         (rev (by_length (filter (\<lambda>ns. effective (se_privs V) ns AND (priv_backup (se_privs V) OR priv_audit (se_privs V)) \<noteq> 0) nss)))
         (False, \<lparr>rv_groups = 0, rv_snapshots = 0, rv_namespaces = 0\<rparr>)))"

fun pull_namespaces :: "('n, 'a, 'u, 'c) store_env \<Rightarrow> fsio \<Rightarrow> 'n list \<Rightarrow> 'n list \<times> SyncStats \<times> bool \<Rightarrow> ('n, 'a, 'n list \<times> SyncStats \<times> bool) op" where
  "pull_namespaces V io [] acc = ret acc"
| "pull_namespaces V io (ns # nss) (synced, stats, errors) =
     bnd (of_result (map_prefix (se_api V) ns (source_ns V) (target_ns V))) (\<lambda>target.
     bnd (attempt (check_and_create_ns V io target)) (\<lambda>c. case c of
         Inl e \<Rightarrow> pull_namespaces V io nss (target # synced, stats, True)
       | Inr _ \<Rightarrow> bnd (attempt (pull_ns V io ns)) (\<lambda>r. case r of
             Inl e \<Rightarrow> pull_namespaces V io nss (target # synced, stats, True)
           | Inr (n, st, errs) \<Rightarrow> pull_namespaces V io nss (target # synced, sync_stats_add stats st, errors \<or> errs))))"

text \<open>\<open>list_ns\<close> is the query of the source, which may switch the depth to 0.\<close>

definition pull_store :: "('n, 'a, 'u, 'c) store_env \<Rightarrow> ('n list \<Rightarrow> 'n list) \<Rightarrow> (nat option \<Rightarrow> (err, 'n list \<times> nat option) result) \<Rightarrow> fsio \<Rightarrow> nat option \<Rightarrow> ('n, 'a, SyncStats) op" where
  "pull_store V by_length list_ns io max_depth =
     bnd (syscall io) (\<lambda>_.
     bnd (if ns_is_root (se_api V) (source_ns V) \<and> max_depth = Some 0 then ret ([source_ns V], max_depth) else of_result (list_ns max_depth)) (\<lambda>(nss, depth).
     bnd (of_result (check_namespace_depth_limit (se_api V) (source_ns V) (target_ns V) nss)) (\<lambda>_.
     bnd (pull_namespaces V io (by_length nss) ([], SyncStats_default, max_depth \<noteq> depth)) (\<lambda>(synced, stats, errors).
     bnd (if remove_vanished (filters (se_ctx V))
          then bnd (check_and_remove_vanished_ns V by_length io depth synced) (\<lambda>(errs, st). ret (sync_stats_add stats (from_removed st), errors \<or> errs))
          else ret (stats, errors)) (\<lambda>(stats', errors').
       if errors' then throw ''sync failed with some errors.'' else ret stats')))))"

section \<open>Groups of other owners\<close>

text \<open>Operations on a group leave the directory of another one alone.\<close>

definition has_group :: "'n gkey \<Rightarrow> 'a GroupDir \<Rightarrow> ('n, 'a) dstore \<Rightarrow> bool" where
  "has_group k g s \<longleftrightarrow> gdir k s = Some g"

lemma has_group_simps [simp]:
  "has_group k g (s\<lparr>tick := n\<rparr>) = has_group k g s" "has_group k g (s\<lparr>held := h\<rparr>) = has_group k g s" "has_group k g (unlock k' s) = has_group k g s"
  "has_group k g (add_namespaces nss s) = has_group k g s"
  "k' \<noteq> k \<Longrightarrow> has_group k g (upd_group k' f s) = has_group k g s"
  "k' \<noteq> k \<Longrightarrow> has_group k g (s\<lparr>grps := AList.delete k' (grps s)\<rparr>) = has_group k g s"
  "k' \<noteq> k \<Longrightarrow> has_group k g (s\<lparr>grps := (k', g') # grps s\<rparr>) = has_group k g s"
  "k' \<noteq> k \<Longrightarrow> has_group k g (set_snap k' t d s) = has_group k g s" "k' \<noteq> k \<Longrightarrow> has_group k g (del_snap k' t s) = has_group k g s"
  by (simp_all add: has_group_def set_snap_def del_snap_def)

lemma other_remove_dir [preserves_intros]: "k' \<noteq> k \<Longrightarrow> preserves (has_group k g) (remove_dir k')"
  unfolding remove_dir_def by (intro preserves_intros preserves_modify) simp_all

lemma other_remove_group_dir [preserves_intros]: "k' \<noteq> k \<Longrightarrow> preserves (has_group k g) (remove_group_dir io k')"
  unfolding remove_group_dir_def by (intro preserves_intros preserves_modify) simp_all

lemma other_remove_dir_all [preserves_intros]: "k' \<noteq> k \<Longrightarrow> preserves (has_group k g) (remove_dir_all io k' t)"
  unfolding remove_dir_all_def by (intro preserves_intros preserves_modify) simp_all

lemma other_remove_empty_group [preserves_intros]: "k' \<noteq> k \<Longrightarrow> preserves (has_group k g) (remove_empty_group io k')"
  unfolding remove_empty_group_def by (intro preserves_intros) simp_all

lemma other_remove_backup_dir [preserves_intros]: "k' \<noteq> k \<Longrightarrow> preserves (has_group k g) (remove_backup_dir io force k' t)"
  unfolding remove_backup_dir_def snap_destroy_def remove_unprotected_def by (intro preserves_intros) simp_all

lemma other_destroy_loop [preserves_intros]: "k' \<noteq> k \<Longrightarrow> preserves (has_group k g) (destroy_loop io k' st items)"
proof (induction items arbitrary: st)
  case (Cons item items)
  show ?case using other_remove_backup_dir [OF Cons.prems, unfolded remove_backup_dir_def] Cons.IH [OF Cons.prems]
    by (cases item) (auto intro!: preserves_throw preserves_bnd preserves_is_protected)
qed (simp add: preserves_ret)

lemma other_remove_backup_group [preserves_intros]: "k' \<noteq> k \<Longrightarrow> preserves (has_group k g) (remove_backup_group api io k')"
  unfolding remove_backup_group_def group_destroy_def by (intro preserves_intros) simp_all

lemma other_upd_dir [preserves_intros]: "k' \<noteq> k \<Longrightarrow> preserves (has_group k g) (upd_dir k' t f)"
  unfolding upd_dir_def by (intro preserves_intros preserves_modify) simp_all

lemma other_put_file [preserves_intros]: "k' \<noteq> k \<Longrightarrow> preserves (has_group k g) (put_file k' t name b)"
  unfolding put_file_def by (rule other_upd_dir)

lemma other_remove_file [preserves_intros]: "k' \<noteq> k \<Longrightarrow> preserves (has_group k g) (remove_file io k' t name)"
  unfolding remove_file_def by (intro preserves_intros) simp_all

lemma other_rename_file [preserves_intros]: "k' \<noteq> k \<Longrightarrow> preserves (has_group k g) (rename_file io k' t from to)"
  unfolding rename_file_def by (intro preserves_intros) simp_all

lemma other_load_file [preserves_intros]: "k' \<noteq> k \<Longrightarrow> preserves (has_group k g) (load_file_into rd io k' t name into)"
  unfolding load_file_into_def by (intro preserves_intros) simp_all

lemma other_decrypt_blob [preserves_intros]: "k' \<noteq> k \<Longrightarrow> preserves (has_group k g) (decrypt_encrypted_data_blob E io k' t data c target)"
  unfolding decrypt_encrypted_data_blob_def by (intro preserves_intros) simp_all

lemma other_fetch_log [preserves_intros]: "k' \<noteq> k \<Longrightarrow> preserves (has_group k g) (fetch_log E rd io k' t cfg)"
  unfolding fetch_log_def try_fetch_client_log_def Let_def by (intro preserves_intros) simp_all

lemma other_transfer_archive [preserves_intros]: "k' \<noteq> k \<Longrightarrow> preserves (has_group k g) (transfer_archive E rd io k' t name data sz decpath cfg es nm)"
  unfolding transfer_archive_def by (cases "file_kind E name"; cases cfg) (auto intro!: preserves_intros)

lemma other_single_archive [preserves_intros]: "k' \<noteq> k \<Longrightarrow> preserves (has_group k g) (pull_single_archive E rd io k' t info cfg es nm)"
  unfolding pull_single_archive_def Let_def by (intro preserves_intros) simp_all

lemma other_file_unchanged [preserves_intros]: "preserves (has_group k g) (file_unchanged E io k' t m corrupt name)"
  unfolding file_unchanged_def by (intro preserves_intros) simp_all

lemma other_pull_files [preserves_intros]: "k' \<noteq> k \<Longrightarrow> preserves (has_group k g) (pull_files E rd io k' t m corrupt cfg items stats es nm)"
proof (induction items arbitrary: stats es nm)
  case (Cons item items)
  show ?case unfolding pull_files.simps by (intro preserves_intros Cons.IH Cons.prems)
qed (simp add: preserves_ret)

lemma other_sync_files [preserves_intros]: "k' \<noteq> k \<Longrightarrow> preserves (has_group k g) (sync_files E rd io k' t m corrupt cfg es)"
  unfolding sync_files_def rewrite_manifest_def cleanup_unreferenced_files_def by (intro preserves_intros preserves_modify) simp_all

lemma other_pull_snapshot [preserves_intros]: "k' \<noteq> k \<Longrightarrow> preserves (has_group k g) (pull_snapshot E rd io cx k' t corrupt es)"
  unfolding pull_snapshot_def sync_manifest_def existing_manifest_def Let_def by (intro preserves_intros) simp_all

lemma other_pull_from [preserves_intros]: "k' \<noteq> k \<Longrightarrow> preserves (has_group k g) (pull_snapshot_from E rd io cx k' t corrupt es)"
  unfolding pull_snapshot_from_def create_locked_backup_dir_def by (intro preserves_intros preserves_modify) simp_all

lemma preserves_last_successful [preserves_intros]: "(\<And>s n. I s \<Longrightarrow> I (s\<lparr>tick := n\<rparr>)) \<Longrightarrow> preserves I (last_successful_backup io k)"
proof -
  assume tick: "\<And>s n. I s \<Longrightarrow> I (s\<lparr>tick := n\<rparr>)"
  have "preserves I (last_successful_loop io best ds)" for best ds
    by (induction io best ds rule: last_successful_loop.induct) (auto intro!: preserves_intros tick)
  then show ?thesis unfolding last_successful_backup_def by (intro preserves_intros tick)
qed

lemma preserves_collect_files [preserves_intros]: "(\<And>s n. I s \<Longrightarrow> I (s\<lparr>tick := n\<rparr>)) \<Longrightarrow> preserves I (collect_files E io k t fs es)"
proof (induction fs arbitrary: es)
  case (Cons f fs)
  show ?case unfolding collect_files.simps by (intro preserves_intros Cons.IH Cons.prems)
qed (simp add: preserves_ret)

lemma preserves_reusable [preserves_intros]: "(\<And>s n. I s \<Longrightarrow> I (s\<lparr>tick := n\<rparr>)) \<Longrightarrow> preserves I (reusable_chunks E io k)"
  unfolding reusable_chunks_def last_backup_def by (intro preserves_intros)

lemma preserves_pull_loop [preserves_intros]: "(\<And>t c es. preserves I (pull t c es)) \<Longrightarrow> preserves I (pull_loop pull xs es stats)"
  by (induction pull xs es stats rule: pull_loop.induct) (auto intro!: preserves_intros)

lemma other_vanish_loop [preserves_intros]: "k' \<noteq> k \<Longrightarrow> preserves (has_group k g) (vanish_loop io k' source infos stats)"
  by (induction infos arbitrary: stats) (auto intro!: preserves_intros)

lemma other_pull_group [preserves_intros]: "k' \<noteq> k \<Longrightarrow> preserves (has_group k g) (pull_group sort_by E io cx src k')"
  unfolding pull_group_def Let_def by (intro preserves_intros) simp_all

lemma other_set_owner [preserves_intros]: "k' \<noteq> k \<Longrightarrow> preserves (has_group k g) (set_owner io force k' a)"
  unfolding set_owner_def by (intro preserves_intros preserves_modify) simp_all

lemma other_try_rmdir [preserves_intros]: "k' \<noteq> k \<Longrightarrow> preserves (has_group k g) (try_rmdir io k')"
  unfolding try_rmdir_def by (intro preserves_intros preserves_modify) (simp_all split: option.split)

lemma other_create_group [preserves_intros]: "k' \<noteq> k \<Longrightarrow> preserves (has_group k g) (create_locked_backup_group api io k' a)"
  unfolding create_locked_backup_group_def create_locked_backup_group_do_def create_group_dir_def by (intro preserves_intros preserves_modify) simp_all

lemma get_owner_group: "triple (has_group k g) (get_owner io k) (\<lambda>ow s. has_group k g s \<and> gd_owner g = Owner ow) (\<lambda>_. has_group k g)"
  by (rule tripleI) (auto simp: get_owner_def syscall_def has_group_def st_defs split: option.splits owner_file.splits)

lemma create_existing_group:
  "triple (has_group k g) (create_locked_backup_group api io k a) (\<lambda>ow s. has_group k g s \<and> gd_owner g = Owner ow) (\<lambda>_. has_group k g)"
  by (rule tripleI)
    (auto simp: create_locked_backup_group_def create_locked_backup_group_do_def create_group_dir_def group_lock_def get_owner_def syscall_def has_group_def st_defs
      split: option.splits if_splits sum.splits prod.splits owner_file.splits)

definition foreign :: "('n, 'a, 'u, 'c) store_env \<Rightarrow> 'a GroupDir \<Rightarrow> bool" where
  "foreign V g \<longleftrightarrow> (\<exists>a. gd_owner g = Owner a \<and> check_backup_owner (se_types V) a (owner V) \<noteq> Ok ())"

lemma foreign_not_owner: "foreign V g \<Longrightarrow> gd_owner g \<noteq> Owner (owner V)"
  by (auto simp: foreign_def check_backup_owner_def)

lemma lock_and_pull_foreign: "foreign V g \<Longrightarrow> preserves (has_group k g) (lock_and_pull_group V io ns target gr)"
proof (cases "(target, gr) = k")
  case True
  assume "foreign V g"
  then have own: "gd_owner g \<noteq> Owner (owner V)" by (rule foreign_not_owner)
  have "triple (\<lambda>s. has_group k g s \<and> gd_owner g = Owner ow)
      (lastly (if owner V \<noteq> ow then throw ''owner check failed''
               else pull_group (se_sort V) (se_env V) io (se_ctx V) (group_of V ns gr) k) (unlock k)) (\<lambda>_. has_group k g) (\<lambda>_. has_group k g)" for ow
    using own by (cases "owner V = ow") (auto simp: triple_def lastly_def throw_def)
  then show ?thesis unfolding preserves_def lock_and_pull_group_def True by (rule triple_bnd [OF create_existing_group])
next
  case False
  then show ?thesis unfolding lock_and_pull_group_def by (intro preserves_intros) simp_all
qed

lemma pull_groups_foreign: "foreign V g \<Longrightarrow> preserves (has_group k g) (pull_groups V io ns target gs acc)"
proof (induction gs arbitrary: acc)
  case (Cons x gs)
  obtain n st er where acc: "acc = (n, st, er)" by (cases acc)
  show ?case unfolding acc pull_groups.simps by (intro preserves_intros lock_and_pull_foreign Cons.IH Cons.prems)
qed (simp add: preserves_ret)

lemma vanish_groups_foreign: "foreign V g \<Longrightarrow> preserves (has_group k g) (vanish_groups V io new_groups ks acc)"
proof (induction ks arbitrary: acc)
  case (Cons k' ks)
  obtain st er where acc: "acc = (st, er)" by (cases acc)
  note rest = Cons.IH [OF Cons.prems]
  show ?case
  proof (cases "k' = k")
    case True
    let ?f = "\<lambda>r. case r of Inl e \<Rightarrow> ret (st, True)
        | Inr ow \<Rightarrow>
            if check_backup_owner (se_types V) ow (owner V) \<noteq> Ok () then vanish_groups V io new_groups ks (st, er)
            else if \<not> apply_filters V (snd k) then vanish_groups V io new_groups ks (st, er)
            else bnd (attempt (remove_backup_group (se_api V) io k)) (\<lambda>d. case d of
                Inl e \<Rightarrow> vanish_groups V io new_groups ks (st, True)
              | Inr dst \<Rightarrow> vanish_groups V io new_groups ks
                  (sync_stats_add st (from_removed \<lparr>rv_groups = (if all_removed (se_api V) dst then 1 else 0), rv_snapshots = removed_snapshots dst, rv_namespaces = 0\<rparr>), er))"
    have "triple (\<lambda>s. has_group k g s \<and> (\<forall>ow. r = Inr ow \<longrightarrow> gd_owner g = Owner ow)) (?f r) (\<lambda>_. has_group k g) (\<lambda>_. has_group k g)" for r
    proof (cases "\<exists>ow. r = Inr ow \<and> gd_owner g = Owner ow")
      case True
      then obtain ow where r: "r = Inr ow" "check_backup_owner (se_types V) ow (owner V) \<noteq> Ok ()" using Cons.prems by (auto simp: foreign_def)
      then show ?thesis using rest [of "(st, er)"] by (auto simp: preserves_def elim: triple_weaken)
    next
      case False
      then show ?thesis by (cases r) (auto simp: triple_def ret_def)
    qed
    moreover have "triple (has_group k g) (attempt (get_owner io k)) (\<lambda>r s. has_group k g s \<and> (\<forall>ow. r = Inr ow \<longrightarrow> gd_owner g = Owner ow)) (\<lambda>_. has_group k g)"
      by (rule triple_attempt) (simp add: get_owner_group)
    ultimately have "preserves (has_group k g) (bnd (attempt (get_owner io k)) ?f)" unfolding preserves_def by (intro triple_bnd)
    then show ?thesis unfolding acc vanish_groups.simps True by (intro preserves_if rest)
  next
    case False
    then show ?thesis unfolding acc vanish_groups.simps by (intro preserves_intros rest) simp_all
  qed
qed (simp add: preserves_ret)

text \<open>
  C9. Pulling a namespace never touches the groups of other owners, whether it removes vanished groups or not, and whatever fails: the directory of
  such a group, its owner, its notes and its snapshots stay as they were.
\<close>

theorem foreign_groups_untouched:
  assumes "gdir k s = Some g" "gd_owner g = Owner a" "check_backup_owner (se_types V) a (owner V) \<noteq> Ok ()" "pull_ns V io ns s = (r, s')"
  shows "gdir k s' = Some g"
proof -
  have f: "foreign V g" using assms(2,3) by (auto simp: foreign_def)
  have "preserves (has_group k g) (pull_ns V io ns)"
    unfolding pull_ns_def Let_def iter_backup_groups_def by (intro preserves_intros pull_groups_foreign [OF f] vanish_groups_foreign [OF f]) simp_all
  from preservesD [OF this _ assms(4)] assms(1) show ?thesis by (simp add: has_group_def)
qed

definition number_types :: "(nat, nat) api_types" where
  "number_types = \<lparr>is_token = (\<lambda>_. False), auth_user = id, from_user = id, root_userid = 0, auth_to_string = (\<lambda>_. ''user''), auth_parse = (\<lambda>_. Ok 0),
     ROLE_NAME_NO_ACCESS = ''NoAccess'', ROLE_NAMES = (\<lambda>_. None), ROLE_ADMIN = 0, MAX_NAMESPACE_DEPTH = 7\<rparr>"

text \<open>User 2 pulls from a source without groups; the group in the namespace belongs to user 1.\<close>

definition foreign_env :: "(string list, nat, nat, unit) store_env" where
  "foreign_env = \<lparr>se_api = path_api, se_types = number_types, se_privs = \<lparr>effective = (\<lambda>_. 7), priv_modify = 1, priv_backup = 2, priv_audit = 4\<rparr>,
     se_env = demo_env, se_sort = isort_by, se_ctx = demo_ctx, owner = 2, apply_filters = (\<lambda>_. True), sort_groups = id, list_groups = (\<lambda>_. Ok []),
     group_of = (\<lambda>_ _. vanish_source), source_ns = [], target_ns = [''a'']\<rparr>"

theorem foreign_groups_untouched_witness:
  "gdir example_key (snd (pull_ns foreign_env (fault_at 9) [] demo_store)) = gdir example_key demo_store \<and> gdir example_key demo_store \<noteq> None"
proof -
  obtain r s' where run: "pull_ns foreign_env (fault_at 9) [] demo_store = (r, s')" by fastforce
  obtain g where g: "gdir example_key demo_store = Some g" "gd_owner g = Owner 1" by (simp add: demo_store_def demo_dir_simps)
  have "check_backup_owner (se_types foreign_env) 1 (owner foreign_env) \<noteq> Ok ()" by (simp add: check_backup_owner_def foreign_env_def number_types_def)
  from foreign_groups_untouched [OF g this run] show ?thesis using run g by simp
qed

end
