(* ===== verification/Spec2Isabelle.thy ===== *)
theory Spec2Isabelle
  imports LruCache Chunker ChunkStream Index DynamicIndex FixedIndex DataBlob Prune BackupEnv Catalog AclText Gc MoveJournal TapeArchive MediaCatalog MediaPool Manifest SyncChunks MoveRetry SyncStore
begin

text \<open>
  \<^bold>\<open>A verification of the core of Proxmox Backup Server.\<close>

  A backup client cuts its input into chunks (\<^verbatim>\<open>pbs-client/src/chunk_stream.rs\<close> with the rolling-hash chunker
  of \<^verbatim>\<open>pbs-datastore/src/chunker.rs\<close>), wraps each chunk in a blob (\<^verbatim>\<open>data_blob.rs\<close>) and uploads the chunks and
  the index of an archive. The server keeps the state of a backup session (\<^verbatim>\<open>src/api2/backup/environment.rs\<close>)
  and writes index files (\<^verbatim>\<open>dynamic_index.rs\<close>, \<^verbatim>\<open>fixed_index.rs\<close>); a restore reads archives through these
  indexes, with an LRU cache of chunks (\<^verbatim>\<open>pbs-tools/src/lru_cache.rs\<close>). Old snapshots are selected for
  removal by \<^verbatim>\<open>prune.rs\<close>; chunks that no index needs any more are removed by the garbage collection of
  \<^verbatim>\<open>datastore.rs\<close> on the chunk store of \<^verbatim>\<open>chunk_store.rs\<close>, while other processes write. The files of an archive
  are listed in a catalog (\<^verbatim>\<open>catalog.rs\<close>), and who may do what is decided by \<^verbatim>\<open>pbs-config/src/acl.rs\<close>. Snapshots
  live in groups and namespaces (\<^verbatim>\<open>backup_info.rs\<close>, \<^verbatim>\<open>hierarchy.rs\<close>, \<^verbatim>\<open>datastore.rs\<close>) that can be removed and
  moved; a sync job pulls those of another datastore (\<^verbatim>\<open>src/server/pull.rs\<close>), and a tape backup writes them to
  media of a pool (\<^verbatim>\<open>pbs-tape\<close>, \<^verbatim>\<open>src/tape\<close>).

  \<^bold>\<open>Theories.\<close> Every theory begins with the data and the operations of its source file, in the order of
  the file, and ends with the properties; those of this theory span components.

  \<^item> \<open>Prelude\<close>: results, \<^verbatim>\<open>u64\<close> arithmetic on bounded naturals with checked and wrapping operations,
    little-endian bytes, slices, association lists.
  \<^item> \<open>LruCache\<close>: the nodes of \<^verbatim>\<open>LruCache\<close> in an explicit heap with \<^verbatim>\<open>next\<close> and \<^verbatim>\<open>prev\<close> pointers; following a null
    or freed pointer is \<open>None\<close>. Insert, access, remove and clear refine the abstract list of entries in
    the order of use. The locale \<open>fetch_cache\<close> is what clients rely on: a cache holds only what was fetched.
  \<^item> \<open>Chunker\<close>: \<^verbatim>\<open>ChunkerImpl\<close> and \<^verbatim>\<open>PayloadChunker\<close> on 32-bit words. The scan finds the first boundary of a
    direct definition, wherever the input is cut, and chunks respect the size limits. The locale
    \<open>chunker_trait\<close> is the trait \<^verbatim>\<open>Chunker\<close>, interpreted by both chunkers and their dynamic dispatch.
  \<^item> \<open>ChunkStream\<close>: \<^verbatim>\<open>ChunkStream\<close> with forced boundaries, and \<^verbatim>\<open>FixedChunkStream\<close>, as polling steps over a list
    of results of the input: no panic, no lost bytes, deterministic chunks.
  \<^item> \<open>Index\<close>: mapped index files, \<^verbatim>\<open>find_most_used_chunks\<close> and \<^verbatim>\<open>CachedChunkReader::read_at\<close>. The locale
    \<open>index_file\<close> is the trait \<^verbatim>\<open>IndexFile\<close>; that \<^verbatim>\<open>read_at\<close> returns the archive is proved inside it.
  \<^item> \<open>DynamicIndex\<close>, \<open>FixedIndex\<close>: the file formats, readers and writers at byte level; both readers interpret
    \<open>index_file\<close>. The buffered reader uses \<open>LruCache\<close> through its interface. System calls can fail at any
    point (\<open>close_fault\<close>, \<open>sys\<close>); accesses outside the mapped file are \<open>None\<close>.
  \<^item> \<open>DataBlob\<close>: blob formats, encoding, decoding, checks and \<^verbatim>\<open>DataChunkBuilder\<close>. The record \<open>libs\<close> stands for
    SHA-256, CRC-32, zstd and the AEAD cipher; \<open>libs_ok\<close> states their documented round trips.
  \<^item> \<open>Prune\<close>: the keep rules of \<^verbatim>\<open>compute_prune_info\<close>; the time format is a parameter.
  \<^item> \<open>BackupEnv\<close>: the shared state of a backup session and its calls, split where the mutex is released, and
    the step relation \<open>session_step\<close> over interleaved calls, with invariants of all reachable sessions.
  \<^item> \<open>Catalog\<close>: the catalog file as bytes, its writer and reader. A catalog that was written for a tree of
    files is searched with the result of searching the tree; on other catalogs \<^verbatim>\<open>find\<close> may not return.
  \<^item> \<open>StrTools\<close>, \<open>Acl\<close>, \<open>AclText\<close>: the string operations of the standard library, the access control tree with its
    operations and the privilege check, and the text format. The roles on a path are the most specific ones,
    a token has no privilege its owner lacks, and the file format keeps all permissions.
  \<^item> \<open>ChunkStore\<close>: chunks as files with access times in a \<open>world\<close>; the record \<open>sys\<close> says which system calls fail and
    what other threads do between two of them. Insert, touch, markers and sweep.
  \<^item> \<open>Gc\<close>: both phases of garbage collection over \<open>ChunkStore\<close>, with the cache of \<open>LruCache\<close> that saves repeated
    touches: no chunk in use is removed, whatever other threads do to other files and whatever fails.
  \<^item> \<open>MoveJournal\<close>: the journal that lets snapshots move during the mark phase: the file with its text, and the
    interleavings of one move and one collection that use it.

  \<^item> \<open>StateErr\<close>, \<open>SnapStore\<close>: operations on a state that may fail and keep what they did (\<open>bnd\<close>, \<open>attempt\<close>, \<open>lastly\<close>),
    with rules for what they preserve; the tree of namespaces, groups and snapshot directories, its locks,
    listing, protection, removal and creation. Every system call can fail (\<open>fsio\<close>); a failing \<^verbatim>\<open>stat\<close> makes
    \<^verbatim>\<open>Path::exists\<close> answer no (\<open>stat_fails\<close>, \<open>path_exists\<close>).
  \<^item> \<open>MoveGroup\<close>, \<open>Namespaces\<close>, \<open>MoveRetry\<close>: moving a group in batches, the namespace operations, moving a namespace with
    its retry: no file of a snapshot is lost or changed at any failure, protected snapshots are never
    removed while their marker can be seen, an undisturbed move succeeds.
  \<^item> \<open>Codec\<close>, \<open>BTreeMap\<close>, \<open>SortBy\<close>: the interfaces of JSON text, ordered maps and unstable sorting.
  \<^item> \<open>Manifest\<close>: \<^verbatim>\<open>BackupManifest\<close>, its text form, signature and key fingerprint over \<open>mlib\<close> (JSON, HMAC).
  \<^item> \<open>SyncChunks\<close>: the chunks of one archive of a pull, transferred concurrently (a step relation with a bounded
    pool of writers) or in order while they are decrypted.
  \<^item> \<open>SyncSelect\<close>, \<open>SyncPull\<close>, \<open>SyncStore\<close>: which snapshots a pull transfers and removes; pulling archives, snapshots and
    groups, with the choice of the key; groups and namespaces of a store with their owners. They use \<open>SnapStore\<close>,
    \<open>Namespaces\<close>, \<open>Manifest\<close>, \<open>DataBlob\<close> and the index readers. A snapshot that a pull reports as done has the files
    of its manifest; a pull without decryption that failed leaves the old manifest or a complete new one; groups
    of other owners are not touched.
  \<^item> \<open>TapeBlocks\<close>, \<open>TapeArchive\<close>: the blocks of a tape file over any device, and the archives in them.
  \<^item> \<open>MediaCatalog\<close>, \<open>Inventory\<close>, \<open>MediaPool\<close>: the catalog file of a medium, the inventory with its lock and media sets,
    and the choice of the media of a backup.

  \<^bold>\<open>Conventions.\<close> A struct is a record, an enum a datatype. A method with \<^verbatim>\<open>&mut self\<close> returns its result and
  the new state, also when it fails. Panics and undefined behaviour are \<open>None\<close>. \<^verbatim>\<open>u64\<close> and \<^verbatim>\<open>usize\<close> are naturals
  with the wrap-around of release builds written out; hashes are machine words. Error messages are their
  fixed parts. The outcome of I/O, randomness, clocks and code outside the repository are parameters.

  \<^bold>\<open>Loops.\<close> Loops over data are structural. \<^verbatim>\<open>binary_search\<close> and \<^verbatim>\<open>read_at\<close> are partial functions, proved to
  return for every index that can be opened; \<open>free_all\<close> of \<open>LruCache\<close> has fuel, of which the number of nodes
  is enough; \<open>drain\<close> of \<open>ChunkStream\<close> has fuel, of which the input's bytes and results and two are enough.

  \<^verbatim>\<open>find\<close> of \<open>Catalog\<close> has fuel for its nested calls, of which the depth of the tree is enough; \<^verbatim>\<open>lookup_privs_details\<close>, which
  calls itself for the owner of a token, is a partial function and proved to return; the retry loop of the
  mark phase is bounded in the source.

  The loops of the tape writers and readers (\<open>bw_write_all\<close>, \<open>read_up_to\<close>, \<open>decode_chunks\<close>, \<open>load_loop\<close>, \<open>mr_read\<close>) are partial
  functions with a proof that they return; \<open>copy_file\<close> is one that need not, which is stated. \<open>batches\<close> of
  \<open>MoveGroup\<close> recurses on a list that gets shorter.

  \<^bold>\<open>Not modelled\<close>: datastores on S3 and creating or opening datastores; pushing to another server, and the
  parallel workers of a pull, whose groups are pulled one after the other here; the HTTP/2 protocols; the pxar
  archiver, which walks a file system through an external crate; SCSI commands of drives and changers;
  configuration files, which an external crate parses by schema; command line tools and REST handlers.
\<close>

section \<open>From the input of a backup to its restore\<close>

text \<open>
  The parts of a backup put together the way the client and the server do it: the chunks of a stream are
  built as blobs and stored under their digests, a chunk that is already there is not stored again, and the
  end offset and digest of every chunk go to a dynamic index.
\<close>

definition chunk_builder :: "CryptConfig option \<Rightarrow> bool \<Rightarrow> bytes \<Rightarrow> DataChunkBuilder" where
  "chunk_builder config compress data =
     (DataChunkBuilder_new data)\<lparr>bconfig := config, bcompress := compress\<rparr>"

fun store_chunks :: "'c libs \<Rightarrow> (bytes \<Rightarrow> bytes) \<Rightarrow> CryptConfig option \<Rightarrow> bool \<Rightarrow> bytes list \<Rightarrow>
    (digest \<rightharpoonup> DataBlob) \<Rightarrow> (digest \<rightharpoonup> DataBlob)" where
  "store_chunks L iv config compress [] blobs = blobs"
| "store_chunks L iv config compress (c # cs) blobs =
     store_chunks L iv config compress cs
       (case builder_build L (Ok (iv c)) (chunk_builder config compress c) of
          Some (Inr (blob, d)) \<Rightarrow> (if blobs d = None then blobs(d \<mapsto> blob) else blobs)
        | _ \<Rightarrow> blobs)"

fun index_entries :: "'c libs \<Rightarrow> CryptConfig option \<Rightarrow> nat \<Rightarrow> bytes list \<Rightarrow> (nat \<times> digest) list" where
  "index_entries L config off [] = []"
| "index_entries L config off (c # cs) =
     (off + length c, expected_digest L config c) # index_entries L config (off + length c) cs"

text \<open>A chunk is read back by its digest: load the blob, check its CRC, decode it and check the digest.\<close>

definition read_stored :: "'c libs \<Rightarrow> CryptConfig option \<Rightarrow> (digest \<rightharpoonup> DataBlob) \<Rightarrow> digest \<Rightarrow> (err, bytes) result" where
  "read_stored L config blobs d =
     (case blobs d of
        None \<Rightarrow> Err ''no such chunk''
      | Some blob \<Rightarrow>
          (case load_from_reader L (Ok (raw_data blob)) of
             Some (Inr b) \<Rightarrow> (case decode L config (Some d) b of Some r \<Rightarrow> r | None \<Rightarrow> Err ''panic'')
           | Some (Inl e) \<Rightarrow> Err e
           | None \<Rightarrow> Err ''panic''))"

definition holds_chunk :: "'c libs \<Rightarrow> CryptConfig option \<Rightarrow> (digest \<rightharpoonup> DataBlob) \<Rightarrow> bytes \<Rightarrow> bool" where
  "holds_chunk L config blobs c \<longleftrightarrow> read_stored L config blobs (expected_digest L config c) = Ok c"

lemma store_chunks_keeps: "blobs d = Some b \<Longrightarrow> store_chunks L iv config compress cs blobs d = Some b"
proof (induction cs arbitrary: blobs)
  case (Cons c cs)
  show ?case unfolding store_chunks.simps by (rule Cons.IH) (use Cons.prems in \<open>auto split: option.splits sum.splits\<close>)
qed simp

lemma holds_chunk_kept:
  "blobs d = Some blob \<Longrightarrow> d = expected_digest L config c \<Longrightarrow> holds_chunk L config blobs c \<Longrightarrow>
   holds_chunk L config (store_chunks L iv config compress cs blobs) c"
  by (simp add: holds_chunk_def read_stored_def store_chunks_keeps)

lemma store_chunks_holds:
  assumes "libs_ok L ct tg" "\<And>c. length (iv c) = 16"
  shows "\<forall>c \<in> set cs. length c \<le> MAX_BLOB_SIZE \<Longrightarrow> inj_on (expected_digest L config) (set cs \<union> S) \<Longrightarrow>
    (\<And>d b. blobs d = Some b \<Longrightarrow> \<exists>c \<in> S. d = expected_digest L config c \<and> holds_chunk L config blobs c) \<Longrightarrow>
    c \<in> set cs \<Longrightarrow> holds_chunk L config (store_chunks L iv config compress cs blobs) c"
proof (induction cs arbitrary: blobs S)
  case (Cons x cs)
  let ?d = "expected_digest L config x"
  obtain blob where blob: "builder_build L (Ok (iv x)) (chunk_builder config compress x) = Some (Ok (blob, ?d))"
    "load_from_reader L (Ok (raw_data blob)) = Some (Ok blob)" "decode L config (Some ?d) blob = Some (Ok x)"
    using build_round_trip [OF assms(1), of "chunk_builder config compress x" "iv x"] assms(2) Cons.prems(1)
    by (auto simp: chunk_builder_def DataChunkBuilder_new_def)
  define store1 where "store1 = (if blobs ?d = None then blobs(?d \<mapsto> blob) else blobs)"
  have x: "\<exists>b. store1 ?d = Some b \<and> holds_chunk L config store1 x"
  proof (cases "blobs ?d")
    case None
    then show ?thesis using blob by (simp add: store1_def holds_chunk_def read_stored_def)
  next
    case (Some b)
    then obtain c' where "c' \<in> S" "?d = expected_digest L config c'" "holds_chunk L config blobs c'" using Cons.prems(3) by blast
    moreover have "c' = x" using calculation Cons.prems(2) by (auto dest: inj_onD)
    ultimately show ?thesis using Some by (simp add: store1_def)
  qed
  have step: "store_chunks L iv config compress (x # cs) blobs = store_chunks L iv config compress cs store1"
    by (simp add: blob(1) store1_def)
  show ?case
  proof (cases "c = x")
    case True
    then show ?thesis using x holds_chunk_kept [of store1] unfolding step by blast
  next
    case False
    have "\<exists>c \<in> insert x S. d = expected_digest L config c \<and> holds_chunk L config store1 c" if "store1 d = Some b" for d b
    proof (cases "d = ?d")
      case False
      then have "blobs d = Some b" using that by (auto simp: store1_def split: if_splits)
      then obtain c' where "c' \<in> S" "d = expected_digest L config c'" "holds_chunk L config blobs c'" using Cons.prems(3) by blast
      moreover have "holds_chunk L config store1 c'"
        using calculation False \<open>blobs d = Some b\<close> that by (simp add: holds_chunk_def read_stored_def)
      ultimately show ?thesis by blast
    qed (use x in blast)
    then show ?thesis unfolding step
      by (intro Cons.IH [of "insert x S"]) (use Cons.prems False in auto)
  qed
qed simp

lemma length_index_entries [simp]: "length (index_entries L config off cs) = length cs"
  by (induction cs arbitrary: off) simp_all

lemma index_entries_nth:
  "i < length cs \<Longrightarrow> index_entries L config off cs ! i = (off + length (concat (take (Suc i) cs)), expected_digest L config (cs ! i))"
proof (induction cs arbitrary: off i)
  case (Cons c cs)
  then show ?case by (cases i) simp_all
qed simp

lemma chunk_at: "i < length cs \<Longrightarrow> slice (length (concat (take i cs))) (length (cs ! i)) (concat cs) = cs ! i"
proof (induction cs arbitrary: i)
  case (Cons c cs)
  then show ?case by (cases i) (simp_all add: slice_def)
qed simp

lemma entries_describe:
  assumes "map view_pair (reader_index r) = index_entries L config 0 cs" "cs \<noteq> []"
    "inj_on (expected_digest L config) (set cs)" "data = (\<lambda>d. SOME c. c \<in> set cs \<and> expected_digest L config c = d)"
  shows "dyn_index.describes r data (concat cs)"
    "chunk_info r pos = Some info \<Longrightarrow> \<exists>c \<in> set cs. info_digest info = expected_digest L config c \<and> data (info_digest info) = c"
proof -
  have len: "length (reader_index r) = length cs" using arg_cong [OF assms(1), of length] by simp
  have entry: "entry_end (reader_index r ! i) = length (concat (take (Suc i) cs))"
    "edigest (reader_index r ! i) = expected_digest L config (cs ! i)" if "i < length cs" for i
    using arg_cong [OF assms(1), of "\<lambda>xs. xs ! i"] that len index_entries_nth [OF that, of L config 0] by (simp_all add: view_pair_def)
  have data: "data (expected_digest L config c) = c" if "c \<in> set cs" for c
    unfolding assms(4) using that assms(3) by (intro some_equality) (auto dest: inj_onD)
  have info: "range_start info = length (concat (take pos cs)) \<and> range_end info = length (concat (take (Suc pos) cs)) \<and>
      info_digest info = expected_digest L config (cs ! pos) \<and> pos < length cs" if "chunk_info r pos = Some info" for pos info
    using that len entry [of pos] entry [of "pos - 1"] by (auto simp: chunk_info_def split: if_splits)
  then show "chunk_info r pos = Some info \<Longrightarrow> \<exists>c \<in> set cs. info_digest info = expected_digest L config c \<and> data (info_digest info) = c"
    using data by (metis nth_mem)
  have total: "archive_bytes r = length (concat cs)"
    using entry(1) [of "length cs - 1"] assms(2) len by (auto simp: archive_bytes_def last_conv_nth)
  show "dyn_index.describes r data (concat cs)"
    unfolding dyn_index.describes_def
  proof (intro conjI allI impI)
    fix pos info assume "chunk_info r pos = Some info"
    note i = info [OF this]
    have s: "length (concat (take (Suc pos) cs)) = length (concat (take pos cs)) + length (cs ! pos)"
      using i by (simp add: take_Suc_conv_app_nth)
    have "length (concat cs) = length (concat (take (Suc pos) cs)) + length (concat (drop (Suc pos) cs))"
      by (metis append_take_drop_id concat_append length_append)
    then show "range_start info \<le> range_end info" "range_end info \<le> length (concat cs)" using i s by simp_all
    show "data (info_digest info) = slice (range_start info) (range_end info - range_start info) (concat cs)"
      using i s data chunk_at [of pos cs] by simp
  qed (use total in simp)
qed

text \<open>C1. Backup and restore: whatever a chunk stream cuts its input into, when the chunks are built,
  compressed or encrypted or not, and stored under their digests, and the index of their end offsets and
  digests is written, closed and opened again, then reading any number of bytes at any offset of the
  archive returns exactly these bytes of the stream's input.\<close>

theorem backup_restore_round_trip:
  assumes "libs_ok L ct tg" "\<And>c. length (iv c) = 16" "\<And>b. length (sha256 L b) = 32"
    "runs s cs s'" "buffer s = []" "buffer s' = []" "cs \<noteq> []"
    "\<forall>c \<in> set cs. length c \<le> MAX_BLOB_SIZE" "inj_on (expected_digest L config) (set cs)"
    "length (concat cs) < 2 ^ 64" "length cs < 2 ^ 64" "length uuid = 16" "fits_i64 ctime" "off \<le> length (concat cs)"
  shows "\<exists>taken w0 w csum fin r. input s = taken @ input s' \<and>
    DynamicIndexWriter_create None ctime uuid = Ok w0 \<and>
    writer_close (sha256 L) NoFault (add_all (index_entries L config 0 cs) w0) = Some (Ok csum, w) \<and> published w = Some fin \<and>
    DynamicIndexReader_new \<lparr>stat_ok = True, regular = True, mmap_ok = True, contents = fin\<rparr> = Ok r \<and>
    read_at chunk_from_offset chunk_info (read_stored L config (store_chunks L iv config compress cs Map.empty)) r n off =
      Some (Ok (slice off n (data_of taken)))"
proof -
  let ?access = "read_stored L config (store_chunks L iv config compress cs Map.empty)"
  define data where "data = (\<lambda>d. SOME c. c \<in> set cs \<and> expected_digest L config c = d)"
  obtain taken where taken: "input s = taken @ input s'" "concat cs = data_of taken"
    using runs_bytes [OF assms(4)] assms(5,6) by auto
  have "entry_ok e" if "e \<in> set (index_entries L config 0 cs)" for e
  proof -
    obtain i where i: "i < length cs" "e = index_entries L config 0 cs ! i" using \<open>e \<in> _\<close> by (auto simp: in_set_conv_nth)
    have "length (concat cs) = length (concat (take (Suc i) cs)) + length (concat (drop (Suc i) cs))"
      by (metis append_take_drop_id concat_append length_append)
    then show ?thesis using i index_entries_nth [of i cs L config 0] assms(3,10)
      by (simp add: entry_ok_def expected_digest_def compute_digest_def split: option.splits)
  qed
  then obtain w0 w csum fin r where r: "DynamicIndexWriter_create None ctime uuid = Ok w0"
    "writer_close (sha256 L) NoFault (add_all (index_entries L config 0 cs) w0) = Some (Ok csum, w)" "published w = Some fin"
    "DynamicIndexReader_new \<lparr>stat_ok = True, regular = True, mmap_ok = True, contents = fin\<rparr> = Ok r"
    "map view_pair (reader_index r) = index_entries L config 0 cs"
    using written_index_opens [of "sha256 L" uuid ctime "index_entries L config 0 cs"] assms(3,7,12,13)
    by (metis length_0_conv length_index_entries)
  have wf: "reader_wf r"
    using arg_cong [OF r(5), of length] assms(7,11) by (auto simp: reader_wf_def)
  have holds: "holds_chunk L config (store_chunks L iv config compress cs Map.empty) c" if "c \<in> set cs" for c
    by (rule store_chunks_holds [OF assms(1,2,8), of config "{}"]) (use assms(9) that in auto)
  note desc = entries_describe [OF r(5) assms(7,9) data_def]
  have "read_at chunk_from_offset chunk_info ?access r n off = Some (Ok (slice off n (concat cs)))"
  proof (rule dyn_index.read_at_complete [OF wf desc(1) assms(14)])
    fix pos info assume "chunk_info r pos = Some info"
    then obtain c where "c \<in> set cs" "info_digest info = expected_digest L config c" "data (info_digest info) = c" using desc(2) by blast
    then show "?access (info_digest info) = Ok (data (info_digest info))" using holds by (simp add: holds_chunk_def)
  qed
  then show ?thesis using taken r by metis
qed

definition small_stream :: "unit ChunkStream" where
  "small_stream = \<lparr>input = [\<lparr>outcome = ReadyOk [1, 2], sent_boundaries = [], sent_suggested = []\<rparr>],
     input_is_done = False, dchunker = Impl chunker_64, buffer = [], scan_pos = 0, consumed = 0, injection_data = None\<rparr>"

lemma small_scan: "\<exists>ch. dyn_scan [1, 2] ctx (Impl chunker_64) = Some (0, ch)"
  by (simp add: impl_scan_def chunker_scan_def chunker_64_def Let_def)

lemma small_stream_run: "\<exists>s'. runs small_stream [[1, 2]] s' \<and> buffer s' = [] \<and> input s' = []"
proof -
  obtain ch where ch: "dyn_scan [1, 2] \<lparr>base = 0, total = 2\<rparr> (Impl chunker_64) = Some (0, ch)" using small_scan by blast
  have "\<exists>s'. poll_next small_stream = Some (ReadyOk [1, 2], s') \<and> buffer s' = [] \<and> input s' = []"
    using ch
    by (simp add: poll_next_def small_stream_def poll_loop.simps head_step_def inject_step_def scan_step_def arrive_def stream_end_def
        stream_ctx_def Let_def numeral_2_eq_2 del: dyn_scan.simps)
  then obtain s' where "poll_next small_stream = Some (ReadyOk [1, 2], s')" "buffer s' = []" "input s' = []" by blast
  then show ?thesis using runs_poll [OF _ runs_refl, of small_stream "ReadyOk [1, 2]" s'] by auto
qed

theorem backup_restore_round_trip_witness:
  "\<exists>r. read_at chunk_from_offset chunk_info
     (read_stored demo_libs None (store_chunks demo_libs (\<lambda>c. replicate 16 0) None True [[1, 2]] Map.empty)) r 5 1 = Some (Ok [2])"
proof -
  obtain s' where s: "runs small_stream [[1, 2]] s'" "buffer s' = []" "input s' = []" using small_stream_run by blast
  have "\<And>c. length (replicate 16 (0 :: u8)) = 16" "\<And>b. length (sha256 demo_libs b) = 32" "buffer small_stream = []" "[[1, 2 :: u8]] \<noteq> []"
    "\<forall>c \<in> set [[1, 2 :: u8]]. length c \<le> MAX_BLOB_SIZE" "inj_on (expected_digest demo_libs None) (set [[1, 2]])"
    by (simp_all add: demo_libs_def small_stream_def MAX_BLOB_SIZE_def)
  note h = this
  from backup_restore_round_trip [OF demo_libs_ok h(1,2) s(1) h(3) s(2) h(4-6), of "replicate 16 0" 0 1 True 5]
  show ?thesis using s(3) by (auto simp: small_stream_def fits_i64_def slice_def)
qed

text \<open>Reading an image through a fixed index: if every chunk of the index can be read and holds its part
  of the image, then reading any number of bytes at any offset returns exactly these bytes of the image.\<close>

theorem fixed_read_at:
  assumes "fixed_wf r" "length D = fixed_index_bytes r" "off \<le> length D"
    "\<And>pos info. fixed_chunk_info r pos = Some info \<Longrightarrow>
       access (info_digest info) = Ok (slice (range_start info) (range_end info - range_start info) D)"
  shows "read_at (\<lambda>r off. Some (fixed_chunk_from_offset r off)) fixed_chunk_info access r n off = Some (Ok (slice off n D))"
proof -
  define data where "data = (\<lambda>d. case access d of Inr b \<Rightarrow> b | Inl _ \<Rightarrow> [])"
  have info: "range_start info \<le> range_end info \<and> range_end info \<le> length D" if "fixed_chunk_info r pos = Some info" for pos info
  proof -
    have pos: "pos < length (fixed_index r)" using that fixed.info_iff [OF assms(1), of pos] by (simp add: fixed_index_count_def)
    have "pos * FIXED_CHUNK_SIZE < fr_size r" by (rule fixed_chunk_info_eq(2) [OF assms(1) pos])
    then show ?thesis using that fixed_chunk_info_eq [OF assms(1) pos] assms(2) by (auto simp: fixed_index_bytes_def)
  qed
  have "fixed.describes r data D"
    unfolding fixed.describes_def using info assms(2,4) by (simp add: data_def)
  then show ?thesis
    by (rule fixed.read_at_complete [OF assms(1) _ assms(3)]) (use assms(4) in \<open>simp add: data_def\<close>)
qed

definition small_image :: FixedIndexReader where
  "small_image = \<lparr>fr_mmap = \<lparr>memory = replicate 4096 0 @ replicate 32 5, index_len = 1\<rparr>, fr_chunk_size = FIXED_CHUNK_SIZE,
     fr_size = 3, fr_uuid = replicate 16 0, fr_ctime = 0, fr_index_csum = replicate 32 0\<rparr>"

theorem fixed_read_at_witness:
  "read_at (\<lambda>r off. Some (fixed_chunk_from_offset r off)) fixed_chunk_info (\<lambda>d. Ok [7, 8, 9]) small_image 9 1 = Some (Ok [8, 9])"
proof -
  have ix: "fixed_index small_image = [replicate 32 5]"
    by (simp add: fixed_index_def small_image_def mmap_index_def slice_def)
  have wf: "fixed_wf small_image"
    using ix by (simp add: fixed_wf_def small_image_def FIXED_CHUNK_SIZE_def div_ceil_def)
  have "Ok [7, 8, 9] = Ok (slice (range_start info) (range_end info - range_start info) [7, 8, 9 :: u8])"
    if "fixed_chunk_info small_image pos = Some info" for pos info
  proof -
    have "pos = 0" using that ix fixed.info_iff [OF wf, of pos] by (simp add: fixed_index_count_def)
    then show ?thesis using that fixed_chunk_info_eq(1) [OF wf, of 0] ix by (auto simp: small_image_def FIXED_CHUNK_SIZE_def slice_def)
  qed
  then have "read_at (\<lambda>r off. Some (fixed_chunk_from_offset r off)) fixed_chunk_info (\<lambda>d. Ok [7, 8, 9]) small_image 9 1 =
      Some (Ok (slice 1 9 [7, 8, 9]))"
    by (intro fixed_read_at [OF wf]) (simp_all add: fixed_index_bytes_def small_image_def)
  then show ?thesis by (simp add: slice_def)
qed

end
